(* ===== verification/Prelude.thy ===== *)
theory Prelude
  imports Main "HOL-Library.Word" "HOL-Library.Finite_Map" "HOL-Library.List_Lexorder"
    "HOL-Library.Product_Lexorder" "HOL-Library.Option_ord"
begin

text \<open>
  Shared vocabulary of the development: the machine integers of the Rust sources, the 32-byte
  public key with its byte-wise order, the little-endian integer codec, and a small library of
  facts on finite maps, which model both \<open>HashMap\<close> and \<open>BTreeMap\<close>.

  Conventions used by every component theory:
  \<^item> \<open>u64\<close> and \<open>u128\<close> are words of that width, so arithmetic wraps as it does in the release
    build; \<open>usize\<close> values that are only ever lengths or configured sizes are \<open>nat\<close>;
  \<^item> \<open>i64\<close> timestamps are \<open>int\<close>: the code only copies and compares them; \<open>i128\<close> lamport deltas
    are \<open>int\<close>: a delta is a sum of fewer than $2^{63}$ differences of two \<open>u64\<close> values and the
    cast back to \<open>u64\<close> is written out as \<open>word_of_int\<close>;
  \<^item> a lock-protected section is one function from the protected state to the new state;
  \<^item> logging and metrics are left out; a failing statement of the database is an argument.
\<close>

section \<open>Machine integers\<close>

type_synonym u8 = "8 word"
type_synonym u16 = "16 word"
type_synonym u32 = "32 word"
type_synonym u64 = "64 word"
type_synonym u128 = "128 word"

text \<open>The collections the component theories add to: evaluation rules for closed terms, and the
  invariants kept by the operations of a component.\<close>

named_theorems fm_eval
named_theorems store_inv
named_theorems stake_inv
named_theorems supply_inv
named_theorems top_inv
named_theorems cleanup_inv

lemma unat_lt2p: "unat (w :: 'a::len word) < 2 ^ LENGTH('a)"
  by (rule unsigned_less)

text \<open>\<open>as i64\<close> of a value that fits.\<close>

lemma sint_small: "uint (w :: u64) < 2 ^ 63 \<Longrightarrow> sint w = uint w"
proof -
  assume "uint w < 2 ^ 63"
  moreover have "- (2 ^ 63) \<le> uint w" by (rule order_trans [OF _ uint_nonnegative]) simp
  ultimately show ?thesis by (simp add: sint_uint signed_take_bit_int_eq_self)
qed

lemma sint_mono: "uint (b :: u64) < 2 ^ 63 \<Longrightarrow> a \<le> b \<Longrightarrow> sint a \<le> sint b"
  by (simp add: sint_small word_le_def)

definition saturating_sub :: "'a::len word \<Rightarrow> 'a word \<Rightarrow> 'a word" where
  "saturating_sub a b = (if b \<le> a then a - b else 0)"

definition saturating_add :: "'a::len word \<Rightarrow> 'a word \<Rightarrow> 'a word" where
  "saturating_add a b = (if a \<le> a + b then a + b else - 1)"

lemma saturating_sub_le: "saturating_sub a b \<le> a"
  unfolding saturating_sub_def by (auto simp: word_le_nat_alt unat_sub_if')

lemma unat_saturating_sub: "unat (saturating_sub a b) = unat a - unat b"
  unfolding saturating_sub_def by (auto simp: word_le_nat_alt unat_sub_if')

subsection \<open>Little-endian bytes\<close>

fun le_nat :: "u8 list \<Rightarrow> nat" where
  "le_nat [] = 0"
| "le_nat (b # bs) = unat b + 256 * le_nat bs"

fun nat_le :: "nat \<Rightarrow> nat \<Rightarrow> u8 list" where
  "nat_le 0 x = []"
| "nat_le (Suc n) x = of_nat (x mod 256) # nat_le n (x div 256)"

text \<open>\<open>uN::from_le_bytes\<close> and \<open>uN::to_le_bytes\<close> of the standard library, for a width of
  \<open>n\<close> bytes.\<close>

definition from_le_bytes :: "u8 list \<Rightarrow> 'a::len word" where
  "from_le_bytes bs = of_nat (le_nat bs)"

definition to_le_bytes :: "nat \<Rightarrow> 'a::len word \<Rightarrow> u8 list" where
  "to_le_bytes n w = nat_le n (unat w)"

lemma length_nat_le [simp]: "length (nat_le n x) = n"
  by (induction n arbitrary: x) auto

lemma length_to_le_bytes [simp]: "length (to_le_bytes n w) = n"
  by (simp add: to_le_bytes_def)

lemma le_nat_bound: "le_nat bs < 256 ^ length bs"
proof (induction bs)
  case (Cons b bs)
  have "unat b < 256" using unat_lt2p [of b] by simp
  then have "unat b + 256 * le_nat bs < 256 + 256 * le_nat bs" by simp
  also have "\<dots> = 256 * (le_nat bs + 1)" by simp
  also have "\<dots> \<le> 256 * 256 ^ length bs" using Cons.IH by (intro mult_le_mono2) simp
  finally show ?case by simp
qed simp

lemma le_nat_nat_le: "le_nat (nat_le n x) = x mod 256 ^ n"
proof (induction n arbitrary: x)
  case (Suc n)
  have "unat (of_nat (x mod 256) :: u8) = x mod 256"
    by (simp add: unat_of_nat)
  with Suc show ?case by (simp add: mod_mult2_eq)
qed simp

lemma nat_le_le_nat: "nat_le (length bs) (le_nat bs) = bs"
proof (induction bs)
  case (Cons b bs)
  have b: "unat b < 256" using unat_lt2p [of b] by simp
  then have "(unat b + 256 * le_nat bs) div 256 = le_nat bs" by simp
  with b Cons.IH show ?case by simp
qed simp

lemma from_to_le_bytes64 [simp]: "from_le_bytes (to_le_bytes 8 w) = (w :: u64)"
  using unat_lt2p [of w] by (simp add: from_le_bytes_def to_le_bytes_def le_nat_nat_le)

lemma to_from_le_bytes64: "length bs = 8 \<Longrightarrow> to_le_bytes 8 (from_le_bytes bs :: u64) = bs"
  using le_nat_bound [of bs] nat_le_le_nat [of bs]
  by (simp add: from_le_bytes_def to_le_bytes_def unat_of_nat)

section \<open>Public keys\<close>

text \<open>\<open>Pubkey\<close> is \<open>[u8; 32]\<close> with the derived order, which compares the bytes from the first
  one on.\<close>

typedef pubkey = "{bs :: u8 list. length bs = 32}"
  morphisms to_bytes Abs_pubkey
  by (rule exI [of _ "replicate 32 0"]) simp

setup_lifting type_definition_pubkey

lemma length_to_bytes [simp]: "length (to_bytes k) = 32"
  using to_bytes [of k] by simp

instantiation pubkey :: linorder
begin

lift_definition less_eq_pubkey :: "pubkey \<Rightarrow> pubkey \<Rightarrow> bool" is "\<lambda>a b. a \<le> b" .

lift_definition less_pubkey :: "pubkey \<Rightarrow> pubkey \<Rightarrow> bool" is "\<lambda>a b. a < b" .

instance
  by (standard; transfer) auto

end

instantiation pubkey :: equal
begin

lift_definition equal_pubkey :: "pubkey \<Rightarrow> pubkey \<Rightarrow> bool" is "\<lambda>a b. a = b" .

instance
  by (standard; transfer) auto

end

text \<open>\<open>Pubkey::try_from\<close> on a byte slice: exactly 32 bytes.\<close>

definition try_from :: "u8 list \<Rightarrow> pubkey option" where
  "try_from bs = (if length bs = 32 then Some (Abs_pubkey bs) else None)"

lemma try_from_to_bytes [simp]: "try_from (to_bytes k) = Some k"
  by (simp add: try_from_def to_bytes_inverse)

lemma try_from_eq_Some: "try_from bs = Some k \<longleftrightarrow> bs = to_bytes k"
  by (auto simp: try_from_def Abs_pubkey_inverse to_bytes_inverse)

lemma try_from_eq_None: "try_from bs = None \<longleftrightarrow> length bs \<noteq> 32"
  by (simp add: try_from_def)

text \<open>\<open>Pubkey::new_from_array([b; 32])\<close>.\<close>

definition pk :: "u8 \<Rightarrow> pubkey" where
  "pk b = Abs_pubkey (replicate 32 b)"

lemma to_bytes_pk [simp]: "to_bytes (pk b) = replicate 32 b"
  by (simp add: pk_def Abs_pubkey_inverse)

lemma pk_eq_iff [simp]: "pk a = pk b \<longleftrightarrow> a = b"
  by (metis replicate_eq_replicate to_bytes_pk zero_neq_numeral)

lemma try_from_replicate [simp]: "try_from (replicate 32 b) = Some (pk b)"
  by (simp add: try_from_eq_Some)

lemma replicate_less_iff:
  "n > 0 \<Longrightarrow> replicate n (a :: u8) < replicate n b \<longleftrightarrow> a < b"
  by (induction n) auto

lemma pk_less_iff [simp]: "pk a < pk b \<longleftrightarrow> a < b"
  by (simp add: less_pubkey.rep_eq replicate_less_iff)

lemma pk_le_iff [simp]: "pk a \<le> pk b \<longleftrightarrow> a \<le> b"
  by (metis linorder_not_less pk_less_iff)

section \<open>Finite maps\<close>

text \<open>
  \<open>HashMap\<close> and \<open>BTreeMap\<close> are finite maps. Iterating a \<open>BTreeMap\<close> visits the keys in ascending
  order, which is \<open>fm_entries\<close>. Where the code iterates a \<open>HashMap\<close>, whose order is unspecified,
  the model either uses an operation that does not depend on the order (a sum, a minimum, a
  sort by a total key, a filter) or takes the order as an argument.
\<close>

definition fm_keys :: "('k::linorder, 'v) fmap \<Rightarrow> 'k list" where
  "fm_keys m = sorted_list_of_fset (fmdom m)"

definition fm_entries :: "('k::linorder, 'v) fmap \<Rightarrow> ('k \<times> 'v) list" where
  "fm_entries m = sorted_list_of_fmap m"

definition fm_size :: "('k, 'v) fmap \<Rightarrow> nat" where
  "fm_size m = fcard (fmdom m)"

text \<open>\<open>retain(|k, v| P k v)\<close>.\<close>

definition fm_retain :: "('k \<Rightarrow> 'v \<Rightarrow> bool) \<Rightarrow> ('k, 'v) fmap \<Rightarrow> ('k, 'v) fmap" where
  "fm_retain P m = fmfilter (\<lambda>k. case fmlookup m k of Some v \<Rightarrow> P k v | None \<Rightarrow> False) m"

lemma sorted_list_of_fset_empty [simp, fm_eval]: "sorted_list_of_fset {||} = []"
  by (simp add: sorted_list_of_fset.rep_eq)

lemma sorted_list_of_fset_finsert [fm_eval]:
  "sorted_list_of_fset (finsert x A) = insort x (sorted_list_of_fset (A |-| {|x|}))"
  by (simp add: sorted_list_of_fset.rep_eq sorted_list_of_set.fold_insort_key.insert_remove)

lemma finsert_minus_single [fm_eval]:
  "finsert x A |-| {|y|} = (if x = y then A |-| {|y|} else finsert x (A |-| {|y|}))"
  by auto

lemma sorted_sorted_list_of_fset [simp]: "sorted (sorted_list_of_fset A)"
  by (simp add: sorted_list_of_fset.rep_eq)

lemma distinct_sorted_list_of_fset [simp]: "distinct (sorted_list_of_fset A)"
  by (simp add: sorted_list_of_fset.rep_eq)

lemma length_sorted_list_of_fset [simp]: "length (sorted_list_of_fset A) = fcard A"
  by (simp add: sorted_list_of_fset.rep_eq fcard.rep_eq)

lemma set_fm_keys [simp]: "set (fm_keys m) = fmdom' m"
  by (simp add: fm_keys_def fmdom'_alt_def)

lemma sorted_fm_keys [simp]: "sorted (fm_keys m)"
  and distinct_fm_keys [simp]: "distinct (fm_keys m)"
  and length_fm_keys [simp]: "length (fm_keys m) = fm_size m"
  by (simp_all add: fm_keys_def fm_size_def)

lemma sorted_distinct_fm_keys [simp]: "sorted_wrt (<) (fm_keys m)"
  by (simp add: strict_sorted_iff)

lemma fm_keys_empty [simp]: "fm_keys fmempty = []"
  by (simp add: fm_keys_def)

lemma map_fst_fm_entries [simp]: "map fst (fm_entries m) = fm_keys m"
  by (simp add: fm_entries_def sorted_list_of_fmap_def fm_keys_def comp_def)

lemma fm_entries_map: "fm_entries m = map (\<lambda>k. (k, the (fmlookup m k))) (fm_keys m)"
  by (simp add: fm_entries_def sorted_list_of_fmap_def fm_keys_def)

lemma in_set_fm_entries [simp]: "(k, v) \<in> set (fm_entries m) \<longleftrightarrow> fmlookup m k = Some v"
  by (auto simp: fm_entries_map fmlookup_dom'_iff)

lemma map_of_fm_entries: "map_of (fm_entries m) = fmlookup m"
proof
  fix k
  have "distinct (map fst (fm_entries m))" by simp
  then have "map_of (fm_entries m) k = Some v \<longleftrightarrow> fmlookup m k = Some v" for v
    by (simp only: map_of_eq_Some_iff in_set_fm_entries)
  then show "map_of (fm_entries m) k = fmlookup m k" by (metis not_Some_eq)
qed

lemma fm_entries_empty [simp]: "fm_entries fmempty = []"
  by (simp add: fm_entries_map)

lemma length_fm_entries [simp]: "length (fm_entries m) = fm_size m"
  by (simp add: fm_entries_map)

lemma distinct_fm_entries [simp]: "distinct (fm_entries m)"
  by (metis distinct_fm_keys distinct_map map_fst_fm_entries)

lemma fm_size_empty [simp, fm_eval]: "fm_size fmempty = 0"
  by (simp add: fm_size_def)

lemma fm_size_card: "fm_size m = card (fmdom' m)"
  by (simp add: fm_size_def fcard.rep_eq fmdom'_alt_def)

lemma fm_size_upd:
  "fm_size (fmupd k v m) = (if fmlookup m k = None then Suc (fm_size m) else fm_size m)"
  by (auto simp: fm_size_card insert_absorb fmlookup_dom'_iff card_insert_if)

lemma fm_size_drop:
  "fm_size (fmdrop k m) = (if fmlookup m k = None then fm_size m else fm_size m - 1)"
  by (auto simp: fm_size_card fmlookup_dom'_iff card_Diff_singleton_if)

lemma fm_size_filter_le: "fm_size (fmfilter P m) \<le> fm_size m"
  unfolding fm_size_card by (rule card_mono) (auto simp: fmlookup_dom'_iff)

lemma fm_size_0_iff [simp]: "fm_size m = 0 \<longleftrightarrow> m = fmempty"
  by (auto simp: fm_size_card fmlookup_dom'_iff intro!: fmap_ext)

lemma fmlookup_retain [simp]:
  "fmlookup (fm_retain P m) k =
     (case fmlookup m k of Some v \<Rightarrow> if P k v then Some v else None | None \<Rightarrow> None)"
  by (simp add: fm_retain_def split: option.splits)

lemma fm_size_retain_le: "fm_size (fm_retain P m) \<le> fm_size m"
  by (simp add: fm_retain_def fm_size_filter_le)

text \<open>A sum over the entries of a map, as the code accumulates it in a loop.\<close>

definition fm_sum :: "('k \<Rightarrow> 'v \<Rightarrow> 'a::comm_monoid_add) \<Rightarrow> ('k, 'v) fmap \<Rightarrow> 'a" where
  "fm_sum f m = (\<Sum>k \<in> fmdom' m. f k (the (fmlookup m k)))"

lemma fm_sum_empty [simp]: "fm_sum f fmempty = 0"
  by (simp add: fm_sum_def)

lemma fm_sum_cong:
  "(\<And>k v. fmlookup m k = Some v \<Longrightarrow> f k v = g k v) \<Longrightarrow> fm_sum f m = fm_sum g m"
  unfolding fm_sum_def by (rule sum.cong) (auto simp: fmlookup_dom'_iff)

lemma fm_sum_split:
  "fmlookup m k = Some v \<Longrightarrow> fm_sum f m = f k v + fm_sum f (fmdrop k m)"
  unfolding fm_sum_def
  by (subst sum.remove [of _ k]) (auto simp: fmlookup_dom'_iff intro!: sum.cong)

lemma fm_sum_drop_None: "fmlookup m k = None \<Longrightarrow> fm_sum f (fmdrop k m) = fm_sum f m"
  by (simp add: fmdrop_idle' fmlookup_dom'_iff)

lemma fm_sum_upd: "fm_sum f (fmupd k v m) = f k v + fm_sum f (fmdrop k m)"
  by (subst fm_sum_split [of _ k v]) (auto simp: fmdrop_fmupd)

lemma fm_sum_entries: "fm_sum f m = (\<Sum>(k, v) \<leftarrow> fm_entries m. f k v)"
  by (simp add: fm_sum_def fm_entries_map comp_def sum_list_distinct_conv_sum_set)

section \<open>Lists\<close>

lemma sorted_wrt_less_last:
  "sorted_wrt (<) (xs :: 'a::linorder list) \<Longrightarrow> x \<in> set xs \<Longrightarrow> x \<le> last xs"
  by (induction xs) (auto split: if_splits intro: less_imp_le)

lemma sorted_last_max:
  "sorted (xs :: 'a::linorder list) \<Longrightarrow> x \<in> set xs \<Longrightarrow> x \<le> last xs"
  by (induction xs) (auto split: if_splits)

lemma in_set_map_filter: "y \<in> set (List.map_filter f xs) \<longleftrightarrow> (\<exists>x \<in> set xs. f x = Some y)"
  by (induction xs) (auto simp: map_filter_simps split: option.splits)

section \<open>Chunks\<close>

text \<open>\<open>slice::chunks(n)\<close>.\<close>

fun chunks :: "nat \<Rightarrow> 'a list \<Rightarrow> 'a list list" where
  "chunks n xs = (if xs = [] \<or> n = 0 then [] else take n xs # chunks n (drop n xs))"

declare chunks.simps [simp del]

lemma concat_chunks [simp]: "0 < n \<Longrightarrow> concat (chunks n xs) = xs"
proof (induction n xs rule: chunks.induct)
  case (1 n xs)
  then show ?case by (subst chunks.simps) auto
qed

lemma chunks_bounds:
  assumes "c \<in> set (chunks n xs)"
  shows "c \<noteq> [] \<and> length c \<le> n \<and> set c \<subseteq> set xs"
  using assms
proof (induction n xs rule: chunks.induct)
  case (1 n xs)
  show ?case
  proof (cases "xs = [] \<or> n = 0")
    case True
    then show ?thesis using 1(2) by (subst (asm) chunks.simps) simp
  next
    case False
    then have "c = take n xs \<or> c \<in> set (chunks n (drop n xs))" using 1(2) by (subst (asm) chunks.simps) simp
    then show ?thesis
    proof
      assume "c = take n xs"
      then show ?thesis using False by (auto dest: in_set_takeD)
    next
      assume "c \<in> set (chunks n (drop n xs))"
      with 1(1) False show ?thesis by (auto dest: in_set_dropD)
    qed
  qed
qed

section \<open>Iterators and state machines\<close>

text \<open>\<open>std::iter::successors(Some(x), next)\<close> collected into a list. Not returning is \<open>None\<close>.\<close>

partial_function (option) successors :: "('b \<Rightarrow> 'b option) \<Rightarrow> 'b \<Rightarrow> 'b list option" where
  "successors next_of x =
     (case next_of x of
        None \<Rightarrow> Some [x]
      | Some y \<Rightarrow> Option.bind (successors next_of y) (\<lambda>ys. Some (x # ys)))"

text \<open>
  The interface of a store of linked blocks: \<open>parent\<close> finds the stored parent of a block and, as
  long as the store is well formed, the parent has a strictly smaller slot. A client walks the
  parents; the walk then ends, and it lists blocks in strictly descending slot order.
\<close>

locale block_chain =
  fixes invar :: "'s \<Rightarrow> bool"
    and parent :: "'s \<Rightarrow> 'b \<Rightarrow> 'b option"
    and slot_of :: "'b \<Rightarrow> u64"
  assumes parent_below: "invar s \<Longrightarrow> parent s b = Some p \<Longrightarrow> slot_of p < slot_of b"
begin

lemma slot_induct:
  assumes "\<And>b. (\<And>p. slot_of p < slot_of b \<Longrightarrow> P p) \<Longrightarrow> P b"
  shows "P b"
  by (induction b rule: measure_induct_rule [where f = "\<lambda>b. unat (slot_of b)"])
    (rule assms, simp add: word_less_nat_alt)

lemma successors_returns:
  assumes "invar s"
  shows "\<exists>bs. successors (parent s) b = Some (b # bs)"
proof (induction b rule: slot_induct)
  case (1 b)
  show ?case
  proof (cases "parent s b")
    case None
    then show ?thesis by (simp add: successors.simps [of _ b])
  next
    case (Some p)
    with assms 1 parent_below obtain bs where "successors (parent s) p = Some (p # bs)"
      by blast
    with Some show ?thesis by (simp add: successors.simps [of _ b])
  qed
qed

lemma successors_linked:
  assumes "invar s" and "successors (parent s) b = Some bs"
  shows "successively (\<lambda>c p. parent s c = Some p) bs \<and> parent s (last bs) = None"
  using assms(2)
proof (induction b arbitrary: bs rule: slot_induct)
  case (1 b)
  show ?case
  proof (cases "parent s b")
    case None
    with 1(2) show ?thesis by (auto simp: successors.simps [of _ b])
  next
    case (Some p)
    with assms parent_below successors_returns obtain ps
      where ps: "successors (parent s) p = Some (p # ps)" by blast
    with Some assms parent_below 1(1) have
      "successively (\<lambda>c p. parent s c = Some p) (p # ps) \<and> parent s (last (p # ps)) = None"
      by blast
    with Some ps 1(2) show ?thesis by (auto simp: successors.simps [of _ b])
  qed
qed

lemma linked_descending:
  assumes "invar s" and "successively (\<lambda>c p. parent s c = Some p) bs"
  shows "sorted_wrt (\<lambda>c p. slot_of p < slot_of c) bs"
proof -
  have "successively (\<lambda>c p. slot_of p < slot_of c) bs"
    using assms by (auto intro: successively_mono dest: parent_below)
  then show ?thesis
    by (rule successively_conv_sorted_wrt [THEN iffD1, rotated])
      (auto simp: transp_def)
qed

end

text \<open>
  A deterministic component driven by a sequence of calls: an initial state, one step per call and
  an invariant. Every interleaving of calls is one list of events, because each call runs under
  the component's lock.
\<close>

locale state_machine =
  fixes init :: 's and step :: "'e \<Rightarrow> 's \<Rightarrow> 's" and invar :: "'s \<Rightarrow> bool"
  assumes invar_init: "invar init"
    and invar_step: "invar s \<Longrightarrow> invar (step e s)"
begin

lemma invar_run_from: "invar s \<Longrightarrow> invar (fold step es s)"
  by (induction es arbitrary: s) (auto intro: invar_step)

lemma invar_run: "invar (fold step es init)"
  by (rule invar_run_from) (rule invar_init)

end

text \<open>
  The interface of the keyed stores that stamp each value with the slot of its write and never let
  an older write replace a newer one. Whatever order the writes arrive in, the value of a key is
  then that of its newest write.
\<close>

locale newest_wins =
  fixes lookup :: "'s \<Rightarrow> 'k \<Rightarrow> ('v \<times> u64) option"
    and put :: "'k \<Rightarrow> 'v \<Rightarrow> u64 \<Rightarrow> 's \<Rightarrow> 's"
  assumes lookup_put: "lookup (put k v t s) k' =
    (if k' = k then (case lookup s k of
        Some (v', t') \<Rightarrow> if t' \<le> t then Some (v, t) else Some (v', t')
      | None \<Rightarrow> Some (v, t))
     else lookup s k')"
begin

lemma stamp_grows:
  "lookup s k = Some (v', t') \<Longrightarrow> \<exists>v'' t''. lookup (put k0 v t s) k = Some (v'', t'') \<and> t' \<le> t''"
  by (auto simp: lookup_put)

lemma put_keeps_newest:
  "lookup s k = Some (v, t) \<Longrightarrow> (\<And>v' t'. (k, v', t') \<in> set ws \<Longrightarrow> t' < t) \<Longrightarrow>
   lookup (fold (\<lambda>(k, v, t). put k v t) ws s) k = Some (v, t)"
proof (induction ws arbitrary: s)
  case (Cons w ws)
  obtain k0 v0 t0 where w: "w = (k0, v0, t0)" by (cases w) auto
  have "lookup (put k0 v0 t0 s) k = Some (v, t)"
    using Cons.prems(1) Cons.prems(2) [of v0 t0] w by (auto simp: lookup_put)
  with Cons w show ?case by auto
qed simp

lemma newest_write:
  assumes "(k, v, t) \<in> set ws" and "distinct ws"
    and "\<And>v' t'. lookup s k = Some (v', t') \<Longrightarrow> t' \<le> t"
    and "\<And>v' t'. (k, v', t') \<in> set ws \<Longrightarrow> t' < t \<or> v' = v \<and> t' = t"
  shows "lookup (fold (\<lambda>(k, v, t). put k v t) ws s) k = Some (v, t)"
  using assms
proof (induction ws arbitrary: s)
  case (Cons w ws)
  obtain k0 v0 t0 where w: "w = (k0, v0, t0)" by (cases w) auto
  show ?case
  proof (cases "w = (k, v, t)")
    case True
    then have "lookup (put k0 v0 t0 s) k = Some (v, t)"
      using Cons.prems(3) w by (auto simp: lookup_put split: option.splits)
    moreover have "t' < t" if "(k, v', t') \<in> set ws" for v' t'
      using Cons.prems(2,4) that True by auto
    ultimately show ?thesis using put_keeps_newest w by simp
  next
    case False
    have "t' \<le> t" if "lookup (put k0 v0 t0 s) k = Some (v', t')" for v' t'
      using that Cons.prems(3) Cons.prems(4) [of v0 t0] w
      by (auto simp: lookup_put split: if_splits option.splits)
    then have "lookup (fold (\<lambda>(k, v, t). put k v t) ws (put k0 v0 t0 s)) k = Some (v, t)"
      using Cons.prems False by (intro Cons.IH) auto
    then show ?thesis by (simp add: w)
  qed
qed simp

end

end
