(* ===== verification/Feed.thy ===== *)
theory Feed
  imports Prelude
begin

text \<open>
  What the components receive: the account and block messages of the Yellowstone gRPC feed as far
  as the sources read them, the \<open>[programs]\<close> account selector and the program ids
  (\<open>crates/core/src/config.rs\<close>).
\<close>

text \<open>\<open>SubscribeUpdateAccountInfo\<close> and \<open>SubscribeUpdateBlock\<close>.\<close>

record grpc_account =
  ga_pubkey :: "u8 list"
  ga_lamports :: u64
  ga_owner :: "u8 list"
  ga_executable :: bool
  ga_rent_epoch :: u64
  ga_data :: "u8 list"
  ga_write_version :: u64

record grpc_block =
  gb_slot :: u64
  gb_blockhash :: string
  gb_parent_slot :: u64
  gb_parent_blockhash :: string
  gb_block_time :: "int option"
  gb_accounts :: "grpc_account list"

text \<open>\<open>AccountSelectorConfig\<close>: a non-empty include list wins over the exclude list.\<close>

record account_selector =
  sel_include :: "pubkey list"
  sel_exclude :: "pubkey list"

definition is_program_selected :: "account_selector \<Rightarrow> pubkey \<Rightarrow> bool" where
  "is_program_selected sel program =
     (if sel_include sel = [] then \<not> List.member (sel_exclude sel) program
      else List.member (sel_include sel) program)"

definition supports_simulation :: "account_selector \<Rightarrow> bool" where
  "supports_simulation sel = (sel_include sel = [] \<and> sel_exclude sel = [])"

text \<open>Program ids: the base58 constants of the sources, as bytes.\<close>

definition STAKE_PROGRAM_ID :: pubkey where
  "STAKE_PROGRAM_ID = Abs_pubkey [6, 161, 216, 23, 145, 55, 84, 42, 152, 52, 55, 189, 254, 42,
     122, 178, 85, 127, 83, 92, 138, 120, 114, 43, 104, 164, 157, 192, 0, 0, 0, 0]"

definition VOTE_PROGRAM_ID :: pubkey where
  "VOTE_PROGRAM_ID = Abs_pubkey [7, 97, 72, 29, 53, 116, 116, 187, 124, 77, 118, 36, 235, 211,
     189, 179, 216, 53, 94, 115, 209, 16, 67, 252, 13, 163, 83, 128, 0, 0, 0, 0]"

definition supports_vote_accounts :: "account_selector \<Rightarrow> bool" where
  "supports_vote_accounts sel =
     (is_program_selected sel VOTE_PROGRAM_ID \<and> is_program_selected sel STAKE_PROGRAM_ID)"

lemma supports_simulation_selects_all:
  "supports_simulation sel \<Longrightarrow> is_program_selected sel program"
  by (simp add: supports_simulation_def is_program_selected_def)

lemma selected_iff:
  "is_program_selected sel program \<longleftrightarrow>
     (if sel_include sel = [] then program \<notin> set (sel_exclude sel)
      else program \<in> set (sel_include sel))"
  by (simp add: is_program_selected_def)

lemma pk_ne_STAKE_PROGRAM_ID [simp]: "pk b \<noteq> STAKE_PROGRAM_ID" "STAKE_PROGRAM_ID \<noteq> pk b"
proof -
  have "to_bytes STAKE_PROGRAM_ID ! 0 \<noteq> to_bytes STAKE_PROGRAM_ID ! 1"
    by (simp add: STAKE_PROGRAM_ID_def Abs_pubkey_inverse)
  moreover have "to_bytes (pk b) ! 0 = to_bytes (pk b) ! 1" by simp
  ultimately show "pk b \<noteq> STAKE_PROGRAM_ID" "STAKE_PROGRAM_ID \<noteq> pk b" by metis+
qed

end
