(* ===== verification/Processed.thy ===== *)
theory Processed
  imports Feed
begin

text \<open>
  The in-memory store behind processed commitment, \<open>crates/core/src/modules/processed\<close>:
  \<open>ingest.rs\<close> (a block message becomes a \<open>slot_block\<close>), \<open>store.rs\<close> (one block per slot, conflicts,
  the confirmed anchor, pruning, the latest chained blocks), \<open>read.rs\<close> (the newest write of a key)
  and \<open>writer.rs\<close> (the single writer that prunes and publishes after every event).
\<close>

section \<open>Data\<close>

record live_account =
  la_lamports :: u64
  la_owner :: pubkey
  la_executable :: bool
  la_rent_epoch :: u64
  la_data :: "u8 list"

datatype account_entry = Live live_account | Closed

record anchor =
  an_confirmed_slot :: u64
  an_confirmed_blockhash :: string

record slot_block =
  sb_slot :: u64
  sb_blockhash :: string
  sb_parent_slot :: u64
  sb_parent_blockhash :: string
  sb_block_time :: "int option"
  sb_received_at :: nat
  sb_accounts :: "(pubkey, account_entry) fmap"
  sb_heap_bytes :: nat

record block_store =
  bs_blocks :: "(u64, slot_block) fmap"
  bs_conflict_until :: "u64 option"
  bs_anchor :: "anchor option"

datatype processed_account = PLive live_account | PClosed | PUnknown

record processed_blocks =
  pb_slot :: u64
  pb_block_time :: int
  pb_anchor_slot :: u64
  pb_stored_blocks :: nat
  pb_stored_bytes :: nat
  pb_blocks :: "slot_block list"

definition MAX_SLOTS_ABOVE_CONFIRMED :: nat where
  "MAX_SLOTS_ABOVE_CONFIRMED = 32"

definition RETAINED_SLOTS_BELOW_CONFIRMED :: u64 where
  "RETAINED_SLOTS_BELOW_CONFIRMED = 4"

section \<open>Ingest\<close>

text \<open>
  One account of the block: malformed keys are skipped, a zero-lamport write and a write by an
  owner outside the program filter are closes. The accumulator is the account map and the summed
  data length.
\<close>

definition ingest_account ::
  "account_selector \<Rightarrow> grpc_account \<Rightarrow> (pubkey, account_entry) fmap \<times> nat
     \<Rightarrow> (pubkey, account_entry) fmap \<times> nat" where
  "ingest_account filter_cfg a acc =
     (case (try_from (ga_pubkey a), try_from (ga_owner a)) of
        (Some key, Some owner) \<Rightarrow>
          (if ga_lamports a = 0 \<or> \<not> is_program_selected filter_cfg owner
           then (fmupd key Closed (fst acc), snd acc)
           else (fmupd key (Live \<lparr>la_lamports = ga_lamports a, la_owner = owner,
                   la_executable = ga_executable a, la_rent_epoch = ga_rent_epoch a,
                   la_data = ga_data a\<rparr>) (fst acc),
                 snd acc + length (ga_data a)))
      | _ \<Rightarrow> acc)"

text \<open>\<open>table_bytes n\<close> stands for the bytes of a hash table allocated with capacity \<open>n\<close>, which is
  the allocator's business.\<close>

definition from_update ::
  "(nat \<Rightarrow> nat) \<Rightarrow> grpc_block \<Rightarrow> account_selector \<Rightarrow> nat \<Rightarrow> slot_block" where
  "from_update table_bytes block filter_cfg received_at =
     (let (accounts, data_bytes) =
            fold (ingest_account filter_cfg) (gb_accounts block) (fmempty, 0)
      in \<lparr>sb_slot = gb_slot block, sb_blockhash = gb_blockhash block,
          sb_parent_slot = gb_parent_slot block,
          sb_parent_blockhash = gb_parent_blockhash block,
          sb_block_time = gb_block_time block, sb_received_at = received_at,
          sb_accounts = accounts,
          sb_heap_bytes = data_bytes + table_bytes (length (gb_accounts block))\<rparr>)"

section \<open>The block store\<close>

definition new_store :: block_store where
  "new_store = \<lparr>bs_blocks = fmempty, bs_conflict_until = None, bs_anchor = None\<rparr>"

definition anchor_slot :: "block_store \<Rightarrow> u64 option" where
  "anchor_slot st = map_option an_confirmed_slot (bs_anchor st)"

definition find_block :: "block_store \<Rightarrow> u64 \<Rightarrow> string \<Rightarrow> slot_block option" where
  "find_block st slot hash =
     (case fmlookup (bs_blocks st) slot of
        Some block \<Rightarrow> if sb_blockhash block = hash then Some block else None
      | None \<Rightarrow> None)"

definition parent_of :: "block_store \<Rightarrow> slot_block \<Rightarrow> slot_block option" where
  "parent_of st block =
     (if sb_parent_slot block \<ge> sb_slot block then None
      else find_block st (sb_parent_slot block) (sb_parent_blockhash block))"

text \<open>The slots a conflict at \<open>slot\<close> deletes: one ascending pass over \<open>range(slot + 1..)\<close>.\<close>

definition doom_step :: "block_store \<Rightarrow> u64 \<times> slot_block \<Rightarrow> u64 fset \<Rightarrow> u64 fset" where
  "doom_step st sc doomed =
     (if sb_parent_slot (snd sc) |\<in>| doomed \<and> parent_of st (snd sc) \<noteq> None
      then finsert (fst sc) doomed else doomed)"

definition doomed_slots :: "block_store \<Rightarrow> u64 \<Rightarrow> u64 fset" where
  "doomed_slots st slot =
     fold (doom_step st) (filter (\<lambda>sc. slot + 1 \<le> fst sc) (fm_entries (bs_blocks st))) {|slot|}"

definition conflict :: "u64 \<Rightarrow> block_store \<Rightarrow> block_store" where
  "conflict slot st =
     st\<lparr>bs_blocks := fmdrop_fset (doomed_slots st slot) (bs_blocks st),
        bs_conflict_until := Some (case bs_conflict_until st of
            None \<Rightarrow> slot | Some c \<Rightarrow> max c slot)\<rparr>"

definition confirmed :: "block_store \<Rightarrow> u64 \<Rightarrow> bool" where
  "confirmed st slot = (case anchor_slot st of None \<Rightarrow> False | Some a \<Rightarrow> slot \<le> a)"

definition insert_block :: "slot_block \<Rightarrow> block_store \<Rightarrow> block_store" where
  "insert_block block st = st\<lparr>bs_blocks := fmupd (sb_slot block) block (bs_blocks st)\<rparr>"

definition on_block :: "slot_block \<Rightarrow> block_store \<Rightarrow> block_store" where
  "on_block block st =
     (case fmlookup (bs_blocks st) (sb_slot block) of
        Some stored \<Rightarrow>
          if sb_blockhash stored \<noteq> sb_blockhash block \<and> \<not> confirmed st (sb_slot block)
          then conflict (sb_slot block) st else st
      | None \<Rightarrow>
          (case fmlookup (bs_blocks st) (sb_parent_slot block) of
             Some parent \<Rightarrow>
               if sb_blockhash parent \<noteq> sb_parent_blockhash block
               then (if \<not> confirmed st (sb_parent_slot block)
                     then conflict (sb_parent_slot block) st else st)
               else insert_block block st
           | None \<Rightarrow> insert_block block st))"

text \<open>The blocks a new anchor confirms, newest first: only their confirmation latency is
  observed.\<close>

definition newly_confirmed :: "block_store \<Rightarrow> anchor \<Rightarrow> slot_block list option" where
  "newly_confirmed st an =
     (case (anchor_slot st, find_block st (an_confirmed_slot an) (an_confirmed_blockhash an)) of
        (Some previous, Some block) \<Rightarrow>
          map_option (takeWhile (\<lambda>b. sb_slot b > previous)) (successors (parent_of st) block)
      | _ \<Rightarrow> Some [])"

definition set_anchor :: "anchor \<Rightarrow> block_store \<Rightarrow> block_store" where
  "set_anchor an st =
     st\<lparr>bs_conflict_until :=
          (case bs_conflict_until st of
             Some until \<Rightarrow> if an_confirmed_slot an > until then None else Some until
           | None \<Rightarrow> None),
        bs_anchor := Some an\<rparr>"

text \<open>\<open>prune\<close>: first the slots below the retained window, popped from the low end; then, while more
  than the cap remain at or above \<open>anchor + 1\<close>, the lowest of those.\<close>

fun pop_below :: "u64 \<Rightarrow> u64 list \<Rightarrow> (u64, slot_block) fmap \<Rightarrow> (u64, slot_block) fmap" where
  "pop_below low [] blocks = blocks"
| "pop_below low (s # ss) blocks =
     (if s < low then pop_below low ss (fmdrop s blocks) else blocks)"

fun evict_lowest :: "u64 list \<Rightarrow> (u64, slot_block) fmap \<Rightarrow> (u64, slot_block) fmap" where
  "evict_lowest [] blocks = blocks"
| "evict_lowest (s # ss) blocks =
     (if length (s # ss) > MAX_SLOTS_ABOVE_CONFIRMED then evict_lowest ss (fmdrop s blocks)
      else blocks)"

definition prune :: "block_store \<Rightarrow> block_store" where
  "prune st =
     (let retained =
            (case anchor_slot st of
               Some a \<Rightarrow> pop_below (saturating_sub a RETAINED_SLOTS_BELOW_CONFIRMED)
                           (fm_keys (bs_blocks st)) (bs_blocks st)
             | None \<Rightarrow> bs_blocks st);
          above = (case anchor_slot st of Some a \<Rightarrow> a + 1 | None \<Rightarrow> 0)
      in st\<lparr>bs_blocks := evict_lowest (filter (\<lambda>s. above \<le> s) (fm_keys retained)) retained\<rparr>)"

subsection \<open>The latest chained blocks\<close>

text \<open>
  The \<open>while block.slot > a\<close> loop: \<open>Some None\<close> is an early \<open>return None\<close> of the source,
  \<open>Some (Some (blocks, block))\<close> the state after the loop, and \<open>None\<close> would be a loop that never
  ends.
\<close>

partial_function (option) walk ::
  "block_store \<Rightarrow> anchor \<Rightarrow> slot_block \<Rightarrow> slot_block list
     \<Rightarrow> (slot_block list \<times> slot_block) option option" where
  "walk st an block blocks =
     (if sb_slot block > an_confirmed_slot an then
        (if sb_parent_slot block = an_confirmed_slot an then
           (if sb_parent_blockhash block \<noteq> an_confirmed_blockhash an then Some None
            else Some (Some (blocks @ [block], block)))
         else (case parent_of st block of
                 None \<Rightarrow> Some None
               | Some parent \<Rightarrow> walk st an parent (blocks @ [block])))
      else Some (Some (blocks, block)))"

text \<open>\<open>blocks.extend(successors(at_anchor, parent_of))\<close>, where \<open>at_anchor\<close> may be absent.\<close>

definition extend_chain ::
  "block_store \<Rightarrow> slot_block option \<Rightarrow> slot_block list \<Rightarrow> slot_block list option" where
  "extend_chain st at_anchor blocks =
     (case at_anchor of
        None \<Rightarrow> Some blocks
      | Some b \<Rightarrow> map_option ((@) blocks) (successors (parent_of st) b))"

text \<open>The match on \<open>block.slot.cmp(&a)\<close>: the outer \<open>None\<close> is \<open>return None\<close>.\<close>

definition at_anchor :: "block_store \<Rightarrow> anchor \<Rightarrow> slot_block \<Rightarrow> slot_block option option" where
  "at_anchor st an block =
     (if sb_slot block > an_confirmed_slot an then Some (parent_of st block)
      else if sb_slot block = an_confirmed_slot an then
        map_option Some (find_block st (an_confirmed_slot an) (an_confirmed_blockhash an))
      else None)"

definition stored_bytes :: "block_store \<Rightarrow> nat" where
  "stored_bytes st = fm_sum (\<lambda>_ b. sb_heap_bytes b) (bs_blocks st)"

definition head_block :: "block_store \<Rightarrow> slot_block option" where
  "head_block st =
     (if fm_keys (bs_blocks st) = [] then None
      else fmlookup (bs_blocks st) (last (fm_keys (bs_blocks st))))"

definition latest_chained_blocks :: "block_store \<Rightarrow> processed_blocks option option" where
  "latest_chained_blocks st =
     (case bs_anchor st of None \<Rightarrow> Some None | Some an \<Rightarrow>
      if (case bs_conflict_until st of
            Some until \<Rightarrow> an_confirmed_slot an \<le> until | None \<Rightarrow> False) then Some None else
      (case head_block st of None \<Rightarrow> Some None | Some head \<Rightarrow>
      (case sb_block_time head of None \<Rightarrow> Some None | Some block_time \<Rightarrow>
      (case walk st an head [] of
         None \<Rightarrow> None
       | Some None \<Rightarrow> Some None
       | Some (Some (blocks, block)) \<Rightarrow>
          (case at_anchor st an block of
             None \<Rightarrow> Some None
           | Some start \<Rightarrow>
              map_option (\<lambda>chain. Some
                \<lparr>pb_slot = sb_slot head, pb_block_time = block_time,
                 pb_anchor_slot = an_confirmed_slot an,
                 pb_stored_blocks = fm_size (bs_blocks st), pb_stored_bytes = stored_bytes st,
                 pb_blocks = chain\<rparr>)
                (extend_chain st start blocks))))))"

section \<open>Reading an account\<close>

fun get_account_in :: "slot_block list \<Rightarrow> pubkey \<Rightarrow> processed_account" where
  "get_account_in [] key = PUnknown"
| "get_account_in (block # blocks) key =
     (case fmlookup (sb_accounts block) key of
        Some (Live account) \<Rightarrow> PLive account
      | Some Closed \<Rightarrow> PClosed
      | None \<Rightarrow> get_account_in blocks key)"

definition get_account :: "processed_blocks \<Rightarrow> pubkey \<Rightarrow> processed_account" where
  "get_account pb key = get_account_in (pb_blocks pb) key"

section \<open>The writer\<close>

text \<open>
  \<open>ProcessedWriter\<close> and the handle share \<open>latest\<close>. \<open>None\<close> is the disabled handle; a published
  value of \<open>None\<close> means no chain is served. The outer option of \<open>wr_latest\<close> is the option of
  \<open>latest_chained_blocks\<close>: \<open>None\<close> would be a publish that never returns.
\<close>

record writer =
  wr_filter :: account_selector
  wr_store :: block_store
  wr_latest :: "processed_blocks option option"

definition writer_from_config :: "bool option \<Rightarrow> account_selector \<Rightarrow> writer option" where
  "writer_from_config enabled filter_cfg =
     (if enabled = Some True
      then Some \<lparr>wr_filter = filter_cfg, wr_store = new_store, wr_latest = Some None\<rparr>
      else None)"

definition publish_latest :: "writer \<Rightarrow> writer" where
  "publish_latest w =
     (let st = prune (wr_store w)
      in w\<lparr>wr_store := st, wr_latest := latest_chained_blocks st\<rparr>)"

definition writer_on_block ::
  "(nat \<Rightarrow> nat) \<Rightarrow> nat \<Rightarrow> grpc_block \<Rightarrow> writer option \<Rightarrow> writer option" where
  "writer_on_block table_bytes now block =
     map_option (\<lambda>w. publish_latest
       (w\<lparr>wr_store := on_block (from_update table_bytes block (wr_filter w) now) (wr_store w)\<rparr>))"

definition writer_set_anchor :: "anchor \<Rightarrow> writer option \<Rightarrow> writer option" where
  "writer_set_anchor an =
     map_option (\<lambda>w. publish_latest (w\<lparr>wr_store := set_anchor an (wr_store w)\<rparr>))"

text \<open>\<open>ProcessedAccounts::blocks\<close>: what a request sees.\<close>

definition handle_blocks :: "writer option \<Rightarrow> processed_blocks option" where
  "handle_blocks h = (case h of None \<Rightarrow> None | Some w \<Rightarrow> Option.bind (wr_latest w) id)"

section \<open>Events and the store invariant\<close>

datatype store_event = OnBlock slot_block | SetAnchor anchor | Prune

fun store_step :: "store_event \<Rightarrow> block_store \<Rightarrow> block_store" where
  "store_step (OnBlock b) st = on_block b st"
| "store_step (SetAnchor an) st = set_anchor an st"
| "store_step Prune st = prune st"

text \<open>Every block is stored under its own slot.\<close>

definition keyed :: "block_store \<Rightarrow> bool" where
  "keyed st = fmpred (\<lambda>s b. sb_slot b = s) (bs_blocks st)"

lemma keyedD: "keyed st \<Longrightarrow> fmlookup (bs_blocks st) s = Some b \<Longrightarrow> sb_slot b = s"
  by (auto simp: keyed_def)

lemma keyed_new [store_inv]: "keyed new_store"
  by (simp add: keyed_def new_store_def)

lemma keyed_conflict [store_inv]: "keyed st \<Longrightarrow> keyed (conflict s st)"
  by (auto simp: keyed_def conflict_def)

lemma keyed_insert_block [store_inv]: "keyed st \<Longrightarrow> keyed (insert_block b st)"
  by (auto simp: keyed_def insert_block_def)

lemma keyed_on_block [store_inv]: "keyed st \<Longrightarrow> keyed (on_block b st)"
  by (auto simp: on_block_def store_inv split: option.splits)

lemma keyed_set_anchor [store_inv]: "keyed st \<Longrightarrow> keyed (set_anchor an st)"
  by (simp add: keyed_def set_anchor_def)

lemma fmpred_pop_below: "fmpred P m \<Longrightarrow> fmpred P (pop_below low ss m)"
  by (induction ss arbitrary: m) auto

lemma fmpred_evict_lowest: "fmpred P m \<Longrightarrow> fmpred P (evict_lowest ss m)"
  by (induction ss arbitrary: m) auto

lemma keyed_prune [store_inv]: "keyed st \<Longrightarrow> keyed (prune st)"
  by (auto simp: keyed_def prune_def Let_def intro!: fmpred_evict_lowest fmpred_pop_below
      split: option.splits)

lemma keyed_step [store_inv]: "keyed st \<Longrightarrow> keyed (store_step e st)"
  by (cases e) (auto simp: store_inv)

interpretation store_run: state_machine new_store store_step keyed
  by unfold_locales (auto simp: store_inv)

text \<open>A stored parent link: the parent's slot and blockhash as the child names them.\<close>

definition links :: "slot_block \<Rightarrow> slot_block \<Rightarrow> bool" where
  "links child parent =
     (sb_parent_slot child = sb_slot parent \<and> sb_parent_blockhash child = sb_blockhash parent
      \<and> sb_slot parent < sb_slot child)"

lemma parent_of_Some:
  "parent_of st c = Some p \<longleftrightarrow> sb_parent_slot c < sb_slot c \<and>
     fmlookup (bs_blocks st) (sb_parent_slot c) = Some p \<and> sb_blockhash p = sb_parent_blockhash c"
  by (auto simp: parent_of_def find_block_def split: option.splits if_splits)

lemma parent_of_links: "keyed st \<Longrightarrow> parent_of st c = Some p \<Longrightarrow> links c p"
  by (auto simp: parent_of_Some links_def dest: keyedD)

interpretation stored_chain: block_chain keyed parent_of sb_slot
  by unfold_locales (auto dest: parent_of_links simp: links_def)

section \<open>The walk to the anchor\<close>

text \<open>
  What a served head must prove: following stored parent links from the head, every hop checked by
  slot and blockhash, one arrives at the confirmed slot with the confirmed blockhash, either at the
  stored confirmed block or at a block that names it as its parent.
\<close>

inductive reaches :: "block_store \<Rightarrow> anchor \<Rightarrow> slot_block \<Rightarrow> bool" for st an where
  reaches_at: "sb_slot b = an_confirmed_slot an \<Longrightarrow>
     find_block st (an_confirmed_slot an) (an_confirmed_blockhash an) = Some b \<Longrightarrow> reaches st an b"
| reaches_child: "sb_slot b > an_confirmed_slot an \<Longrightarrow> sb_parent_slot b = an_confirmed_slot an \<Longrightarrow>
     sb_parent_blockhash b = an_confirmed_blockhash an \<Longrightarrow> reaches st an b"
| reaches_step: "sb_slot b > an_confirmed_slot an \<Longrightarrow> parent_of st b = Some p \<Longrightarrow>
     reaches st an p \<Longrightarrow> reaches st an b"

lemma reaches_slot: "reaches st an b \<Longrightarrow> an_confirmed_slot an \<le> sb_slot b"
  by (induction rule: reaches.induct) auto

lemma reaches_at_iff:
  "sb_slot b = an_confirmed_slot an \<Longrightarrow>
     reaches st an b \<longleftrightarrow> find_block st (an_confirmed_slot an) (an_confirmed_blockhash an) = Some b"
  by (subst reaches.simps) auto

lemma reaches_above:
  assumes "keyed st" and "sb_slot b > an_confirmed_slot an"
  shows "reaches st an b \<longleftrightarrow>
     (if sb_parent_slot b = an_confirmed_slot an
      then sb_parent_blockhash b = an_confirmed_blockhash an
      else \<exists>p. parent_of st b = Some p \<and> reaches st an p)"
proof (cases "sb_parent_slot b = an_confirmed_slot an")
  case True
  have "sb_parent_blockhash b = an_confirmed_blockhash an" if "reaches st an b"
    using that
  proof (cases rule: reaches.cases)
    case (reaches_step p)
    with True have p: "sb_slot p = an_confirmed_slot an" and "sb_blockhash p = sb_parent_blockhash b"
      using assms(1) by (auto simp: parent_of_Some dest: keyedD)
    moreover have "sb_blockhash p = an_confirmed_blockhash an"
      using reaches_step(3) by (auto simp: reaches_at_iff [OF p] find_block_def
          split: option.splits if_splits)
    ultimately show ?thesis by simp
  qed (use assms in auto)
  with True assms(2) show ?thesis by (auto intro: reaches_child)
next
  case False
  with assms(2) show ?thesis by (subst reaches.simps) auto
qed

text \<open>The loop of \<open>latest_chained_blocks\<close> returns, and what it returns.\<close>

lemma walk_returns:
  assumes "keyed st"
  shows "\<exists>r. walk st an b acc = Some r"
proof (induction b arbitrary: acc rule: stored_chain.slot_induct)
  case (1 b)
  then show ?case
    using stored_chain.parent_below [OF assms, of b]
    by (subst walk.simps) (auto split: option.splits)
qed

lemma walk_below: "sb_slot b \<le> an_confirmed_slot an \<Longrightarrow> walk st an b acc = Some (Some (acc, b))"
  by (subst walk.simps) auto

text \<open>
  The blocks the loop collected from \<open>b\<close> on: all above the anchor, linked, starting at \<open>b\<close>; the
  loop variable ends either as the last of them, naming the anchor as its parent, or as the stored
  parent of the last of them, at or below the anchor.
\<close>

definition walked :: "block_store \<Rightarrow> anchor \<Rightarrow> slot_block list \<Rightarrow> slot_block \<Rightarrow> bool" where
  "walked st an bs e =
     (bs \<noteq> [] \<and> (\<forall>c \<in> set bs. an_confirmed_slot an < sb_slot c)
      \<and> successively (\<lambda>c p. parent_of st c = Some p) bs
      \<and> (if an_confirmed_slot an < sb_slot e
         then e = last bs \<and> sb_parent_slot e = an_confirmed_slot an
              \<and> sb_parent_blockhash e = an_confirmed_blockhash an
         else parent_of st (last bs) = Some e))"

lemma walk_above:
  assumes "keyed st" and "an_confirmed_slot an < sb_slot b"
    and "walk st an b acc = Some (Some (blocks, e))"
  shows "\<exists>bs. blocks = acc @ b # bs \<and> walked st an (b # bs) e"
  using assms(2,3)
proof (induction b arbitrary: acc rule: stored_chain.slot_induct)
  case (1 b)
  show ?case
  proof (cases "sb_parent_slot b = an_confirmed_slot an")
    case True
    with 1(2,3) show ?thesis
      by (subst (asm) walk.simps) (auto simp: walked_def split: if_splits)
  next
    case False
    with 1(2,3) obtain p where p: "parent_of st b = Some p"
      and w: "walk st an p (acc @ [b]) = Some (Some (blocks, e))"
      by (subst (asm) (2) walk.simps) (auto split: option.splits)
    show ?thesis
    proof (cases "an_confirmed_slot an < sb_slot p")
      case True
      with 1(1) w stored_chain.parent_below [OF assms(1) p] obtain bs
        where "blocks = acc @ [b] @ p # bs" and "walked st an (p # bs) e"
        by fastforce
      with p 1(2) show ?thesis by (intro exI [of _ "p # bs"]) (auto simp: walked_def)
    next
      case False
      with w have "blocks = acc @ [b]" "e = p" by (simp_all add: walk_below)
      with p False 1(2) show ?thesis by (auto simp: walked_def)
    qed
  qed
qed

lemma walk_reaches:
  assumes "keyed st" and "an_confirmed_slot an < sb_slot b"
  shows "(\<exists>blocks e. walk st an b acc = Some (Some (blocks, e)) \<and> at_anchor st an e \<noteq> None)
     \<longleftrightarrow> reaches st an b"
  using assms(2)
proof (induction b arbitrary: acc rule: stored_chain.slot_induct)
  case (1 b)
  note above = reaches_above [OF assms(1) 1(2)]
  show ?case
  proof (cases "sb_parent_slot b = an_confirmed_slot an")
    case True
    with 1(2) above show ?thesis
      by (subst walk.simps) (auto simp: at_anchor_def)
  next
    case False
    show ?thesis
    proof (cases "parent_of st b")
      case None
      with 1(2) False above show ?thesis by (subst walk.simps) auto
    next
      case (Some p)
      then have step: "walk st an b acc = walk st an p (acc @ [b])"
        using 1(2) False by (subst walk.simps) simp
      show ?thesis
      proof (cases "an_confirmed_slot an < sb_slot p")
        case True
        with 1(1) Some stored_chain.parent_below [OF assms(1) Some] False above step
        show ?thesis by simp
      next
        case not_above: False
        have "at_anchor st an p \<noteq> None \<longleftrightarrow> reaches st an p"
        proof (cases "sb_slot p = an_confirmed_slot an")
          case True
          with Some False assms(1) show ?thesis
            by (auto simp: parent_of_Some dest: keyedD)
        next
          case neq: False
          with not_above reaches_slot [of st an p] show ?thesis by (auto simp: at_anchor_def)
        qed
        with False Some above step not_above show ?thesis by (simp add: walk_below)
      qed
    qed
  qed
qed

section \<open>What is served\<close>

lemma head_block_Some:
  assumes "keyed st" and "head_block st = Some head"
  shows "fmlookup (bs_blocks st) (sb_slot head) = Some head"
    and "s \<in> fmdom' (bs_blocks st) \<Longrightarrow> s \<le> sb_slot head"
proof -
  let ?ks = "fm_keys (bs_blocks st)"
  from assms(2) have l: "fmlookup (bs_blocks st) (last ?ks) = Some head"
    by (auto simp: head_block_def split: if_splits)
  with assms(1) have h: "sb_slot head = last ?ks" by (rule keyedD)
  with l show "fmlookup (bs_blocks st) (sb_slot head) = Some head" by simp
  show "s \<le> sb_slot head" if "s \<in> fmdom' (bs_blocks st)"
    using sorted_last_max [of ?ks s] that h by simp
qed

lemma extend_chain_returns: "keyed st \<Longrightarrow> \<exists>c. extend_chain st start blocks = Some c"
  using stored_chain.successors_returns [of st]
  by (cases start) (fastforce simp: extend_chain_def)+

lemma latest_chained_returns:
  assumes "keyed st"
  shows "\<exists>r. latest_chained_blocks st = Some r"
proof -
  have "\<exists>r. walk st an head [] = Some r" for an head
    by (rule walk_returns [OF assms])
  moreover have "\<exists>c. extend_chain st start blocks = Some c" for start blocks
    by (rule extend_chain_returns [OF assms])
  ultimately show ?thesis
    unfolding latest_chained_blocks_def
    by (auto split: option.splits) (metis option.distinct(1))+
qed

text \<open>The conditions under which a store serves its head.\<close>

definition servable :: "block_store \<Rightarrow> anchor \<Rightarrow> slot_block \<Rightarrow> bool" where
  "servable st an head =
     (bs_anchor st = Some an
      \<and> (case bs_conflict_until st of None \<Rightarrow> True | Some u \<Rightarrow> u < an_confirmed_slot an)
      \<and> head_block st = Some head \<and> sb_block_time head \<noteq> None)"

lemma latest_chained_Some:
  assumes "latest_chained_blocks st = Some (Some pb)"
  obtains an head blocks e start where "servable st an head"
    and "walk st an head [] = Some (Some (blocks, e))" and "at_anchor st an e = Some start"
    and "extend_chain st start blocks = Some (pb_blocks pb)"
    and "pb_slot pb = sb_slot head" and "pb_anchor_slot pb = an_confirmed_slot an"
  using assms
  by (fastforce simp: latest_chained_blocks_def servable_def not_le
      split: option.splits if_splits)

lemma walk_reaches_at:
  assumes "keyed st" and "fmlookup (bs_blocks st) (sb_slot b) = Some b"
  shows "(\<exists>blocks e. walk st an b acc = Some (Some (blocks, e)) \<and> at_anchor st an e \<noteq> None)
     \<longleftrightarrow> reaches st an b"
proof (cases "an_confirmed_slot an < sb_slot b")
  case True
  with assms(1) show ?thesis by (rule walk_reaches)
next
  case False
  show ?thesis
  proof (cases "sb_slot b = an_confirmed_slot an")
    case True
    with assms(2) show ?thesis
      by (auto simp: walk_below at_anchor_def reaches_at_iff find_block_def split: if_splits)
  next
    case neq: False
    with False reaches_slot [of st an b] show ?thesis by (auto simp: walk_below at_anchor_def)
  qed
qed

lemma latest_chained_served:
  assumes "keyed st"
  shows "(\<exists>pb. latest_chained_blocks st = Some (Some pb))
     \<longleftrightarrow> (\<exists>an head. servable st an head \<and> reaches st an head)"
proof
  assume "\<exists>pb. latest_chained_blocks st = Some (Some pb)"
  then obtain pb an head blocks e start where s: "servable st an head"
    and w: "walk st an head [] = Some (Some (blocks, e))" and a: "at_anchor st an e = Some start"
    by (auto elim: latest_chained_Some)
  from s have "fmlookup (bs_blocks st) (sb_slot head) = Some head"
    by (auto simp: servable_def intro: head_block_Some(1) [OF assms])
  with w a have "reaches st an head" using walk_reaches_at [OF assms] by blast
  with s show "\<exists>an head. servable st an head \<and> reaches st an head" by blast
next
  assume "\<exists>an head. servable st an head \<and> reaches st an head"
  then obtain an head where s: "servable st an head" and r: "reaches st an head" by blast
  from s have "fmlookup (bs_blocks st) (sb_slot head) = Some head"
    by (auto simp: servable_def intro: head_block_Some(1) [OF assms])
  with r obtain blocks e start where w: "walk st an head [] = Some (Some (blocks, e))"
    and a: "at_anchor st an e = Some start"
    using walk_reaches_at [OF assms, of head an "[]"] by blast
  from extend_chain_returns [OF assms] obtain c where "extend_chain st start blocks = Some c" ..
  with s w a show "\<exists>pb. latest_chained_blocks st = Some (Some pb)"
    by (auto simp: latest_chained_blocks_def servable_def split: option.splits)
qed

subsection \<open>Shape of the served chain\<close>

text \<open>
  The served list, newest first: linked blocks of the store that reach the anchor, either through
  the confirmed block itself or because the last block names it as its parent.
\<close>

definition anchored :: "anchor \<Rightarrow> slot_block list \<Rightarrow> bool" where
  "anchored an bs =
     ((\<exists>b \<in> set bs. sb_slot b = an_confirmed_slot an \<and> sb_blockhash b = an_confirmed_blockhash an)
      \<or> (sb_parent_slot (last bs) = an_confirmed_slot an
         \<and> sb_parent_blockhash (last bs) = an_confirmed_blockhash an))"

lemma successors_stored:
  assumes "keyed st" and "successors (parent_of st) b = Some bs"
    and "fmlookup (bs_blocks st) (sb_slot b) = Some b" and "c \<in> set bs"
  shows "fmlookup (bs_blocks st) (sb_slot c) = Some c"
  using assms(2-)
proof (induction b arbitrary: bs rule: stored_chain.slot_induct)
  case (1 b)
  show ?case
  proof (cases "parent_of st b")
    case None
    with 1(2-) show ?thesis by (auto simp: successors.simps [of _ b])
  next
    case (Some p)
    with stored_chain.successors_returns [OF assms(1)] obtain ps
      where ps: "successors (parent_of st) p = Some (p # ps)" by blast
    from Some assms(1) have p: "fmlookup (bs_blocks st) (sb_slot p) = Some p"
      by (auto simp: parent_of_Some dest: keyedD)
    from Some ps 1(2,4) have "c = b \<or> c \<in> set (p # ps)"
      by (auto simp: successors.simps [of _ b])
    then show ?thesis
    proof
      assume "c = b" with 1(3) show ?thesis by simp
    next
      assume "c \<in> set (p # ps)"
      with 1(1) ps p stored_chain.parent_below [OF assms(1) Some] show ?thesis by blast
    qed
  qed
qed

lemma successors_hd: "successors f b = Some bs \<Longrightarrow> bs \<noteq> [] \<and> hd bs = b"
  by (subst (asm) successors.simps) (auto split: option.splits simp: Option.bind_eq_Some_conv)

lemma linked_stored:
  assumes "keyed st" and "successively (\<lambda>c p. parent_of st c = Some p) (b # bs)"
    and "fmlookup (bs_blocks st) (sb_slot b) = Some b" and "c \<in> set (b # bs)"
  shows "fmlookup (bs_blocks st) (sb_slot c) = Some c"
  using assms(2-)
proof (induction bs arbitrary: b)
  case (Cons p ps)
  from Cons.prems(1) have "parent_of st b = Some p" by simp
  with assms(1) have "fmlookup (bs_blocks st) (sb_slot p) = Some p"
    by (auto simp: parent_of_Some dest: keyedD)
  with Cons show ?case by fastforce
qed auto

definition chain_from :: "block_store \<Rightarrow> anchor \<Rightarrow> slot_block \<Rightarrow> slot_block list \<Rightarrow> bool" where
  "chain_from st an head bs =
     (bs \<noteq> [] \<and> hd bs = head \<and> successively (\<lambda>c p. parent_of st c = Some p) bs
      \<and> (\<forall>c \<in> set bs. fmlookup (bs_blocks st) (sb_slot c) = Some c) \<and> anchored an bs)"

lemma chain_from_at:
  assumes "keyed st" and "fmlookup (bs_blocks st) (sb_slot b) = Some b"
    and "sb_slot b = an_confirmed_slot an" and "sb_blockhash b = an_confirmed_blockhash an"
    and "successors (parent_of st) b = Some bs"
  shows "chain_from st an b bs"
  using successors_hd [OF assms(5)] stored_chain.successors_linked [OF assms(1,5)]
    successors_stored [OF assms(1,5,2)] assms(3,4)
  by (cases bs) (auto simp: chain_from_def anchored_def)

lemma chain_from_append:
  assumes "keyed st" and w: "walked st an (head # bs) e"
    and stored: "fmlookup (bs_blocks st) (sb_slot head) = Some head"
    and p: "parent_of st (last (head # bs)) = Some p" and c: "chain_from st an p ps"
  shows "chain_from st an head (head # bs @ ps)"
proof -
  from w have l: "successively (\<lambda>c p. parent_of st c = Some p) (head # bs)"
    by (simp add: walked_def)
  with p c have "successively (\<lambda>c p. parent_of st c = Some p) ((head # bs) @ ps)"
    by (subst successively_append_iff) (auto simp: chain_from_def)
  moreover have "\<forall>x \<in> set (head # bs). fmlookup (bs_blocks st) (sb_slot x) = Some x"
    using linked_stored [OF assms(1) l stored] by blast
  moreover have "anchored an (head # bs @ ps)"
    using c by (auto simp: chain_from_def anchored_def)
  ultimately show ?thesis using c by (auto simp: chain_from_def)
qed

lemma at_anchor_equal:
  assumes "fmlookup (bs_blocks st) (sb_slot e) = Some e" and "\<not> an_confirmed_slot an < sb_slot e"
    and "at_anchor st an e = Some start"
  shows "start = Some e \<and> sb_slot e = an_confirmed_slot an
    \<and> sb_blockhash e = an_confirmed_blockhash an"
  using assms by (auto simp: at_anchor_def find_block_def split: if_splits option.splits)

lemma served_chain_from:
  assumes k: "keyed st" and stored: "fmlookup (bs_blocks st) (sb_slot head) = Some head"
    and w: "walk st an head [] = Some (Some (blocks, e))" and a: "at_anchor st an e = Some start"
    and x: "extend_chain st start blocks = Some chain"
  shows "chain_from st an head chain"
proof (cases "an_confirmed_slot an < sb_slot head")
  case False
  with w have "blocks = []" "e = head" by (auto simp: walk_below)
  with False stored a at_anchor_equal x show ?thesis
    by (fastforce simp: extend_chain_def intro: chain_from_at [OF k])
next
  case True
  with w obtain bs where bs: "blocks = head # bs" and wd: "walked st an (head # bs) e"
    using walk_above [OF k] by fastforce
  have *: "chain_from st an head chain"
    if p: "parent_of st (last (head # bs)) = Some p" and "start = Some p"
      and "sb_slot p = an_confirmed_slot an" and "sb_blockhash p = an_confirmed_blockhash an" for p
  proof -
    from that x bs obtain ps where ps: "successors (parent_of st) p = Some ps"
      and chain: "chain = head # bs @ ps" by (auto simp: extend_chain_def)
    have "fmlookup (bs_blocks st) (sb_slot p) = Some p"
      using p k by (auto simp: parent_of_Some dest: keyedD)
    with that ps have "chain_from st an p ps" by (intro chain_from_at [OF k]) auto
    with k wd stored p show ?thesis unfolding chain by (rule chain_from_append)
  qed
  show ?thesis
  proof (cases "an_confirmed_slot an < sb_slot e")
    case False
    with wd have p: "parent_of st (last (head # bs)) = Some e" by (simp add: walked_def)
    with k have "fmlookup (bs_blocks st) (sb_slot e) = Some e"
      by (auto simp: parent_of_Some dest: keyedD)
    from at_anchor_equal [OF this False a] p show ?thesis by (auto intro: *)
  next
    case True
    with wd have e: "e = last (head # bs)" "sb_parent_slot e = an_confirmed_slot an"
      "sb_parent_blockhash e = an_confirmed_blockhash an" by (auto simp: walked_def)
    from True a have start: "start = parent_of st e" by (simp add: at_anchor_def)
    show ?thesis
    proof (cases start)
      case None
      with x bs have "chain = head # bs" by (simp add: extend_chain_def)
      with wd e stored linked_stored [OF k _ stored] show ?thesis
        by (auto simp: chain_from_def walked_def anchored_def)
    next
      case (Some p)
      with start e(2,3) have "sb_slot p = an_confirmed_slot an"
        "sb_blockhash p = an_confirmed_blockhash an"
        using parent_of_links [OF k, of e p] parent_of_Some [of st e p]
        by (auto simp: links_def)
      with Some start e(1) show ?thesis by (auto intro: *)
    qed
  qed
qed

lemma latest_chained_chain:
  assumes "keyed st" and "latest_chained_blocks st = Some (Some pb)"
  shows "\<exists>an head. servable st an head \<and> chain_from st an head (pb_blocks pb)
    \<and> pb_slot pb = sb_slot head \<and> pb_anchor_slot pb = an_confirmed_slot an"
  using assms(2)
proof (rule latest_chained_Some)
  fix an head blocks e start
  assume *: "servable st an head" "walk st an head [] = Some (Some (blocks, e))"
    "at_anchor st an e = Some start" "extend_chain st start blocks = Some (pb_blocks pb)"
    "pb_slot pb = sb_slot head" "pb_anchor_slot pb = an_confirmed_slot an"
  then have "fmlookup (bs_blocks st) (sb_slot head) = Some head"
    by (auto simp: servable_def intro: head_block_Some(1) [OF assms(1)])
  with * show ?thesis using served_chain_from [OF assms(1)] by blast
qed

lemma chain_from_descending:
  assumes "keyed st" and "chain_from st an head bs"
  shows "sorted_wrt (\<lambda>c p. sb_slot p < sb_slot c) bs" and "successively links bs"
proof -
  from assms(2) have l: "successively (\<lambda>c p. parent_of st c = Some p) bs"
    by (simp add: chain_from_def)
  with assms(1) show "sorted_wrt (\<lambda>c p. sb_slot p < sb_slot c) bs"
    by (rule stored_chain.linked_descending)
  show "successively links bs"
    using l by (rule successively_mono) (auto dest: parent_of_links [OF assms(1)])
qed

section \<open>Conflicts\<close>

text \<open>One hop of descent: a stored block whose parent link resolves in the store.\<close>

definition descends :: "block_store \<Rightarrow> u64 \<Rightarrow> u64 \<Rightarrow> bool" where
  "descends st t u =
     (\<exists>b. fmlookup (bs_blocks st) t = Some b \<and> sb_parent_slot b = u \<and> parent_of st b \<noteq> None)"

lemma descends_less: "keyed st \<Longrightarrow> descends st t u \<Longrightarrow> u < t"
  by (auto simp: descends_def parent_of_def dest: keyedD split: if_splits)

lemma descends_rtranclp_le:
  assumes "keyed st" and "(descends st)\<^sup>*\<^sup>* t u"
  shows "u \<le> t"
  using assms(2)
proof (induction rule: rtranclp_induct)
  case (step u v)
  with descends_less [OF assms(1), of u v] show ?case by simp
qed simp

lemma descends_rtranclp_iff:
  "(descends st)\<^sup>*\<^sup>* t s \<longleftrightarrow> t = s \<or> (\<exists>u. descends st t u \<and> (descends st)\<^sup>*\<^sup>* u s)"
  by (metis converse_rtranclpE converse_rtranclp_into_rtranclp rtranclp.rtrancl_refl)

lemma doom_fold:
  assumes k: "keyed st"
  shows "set xs \<subseteq> set (fm_entries (bs_blocks st)) \<Longrightarrow> sorted_wrt (<) (map fst xs) \<Longrightarrow>
    fset D = {u. (descends st)\<^sup>*\<^sup>* u s \<and> (u = s \<or> u \<notin> fst ` set xs)} \<Longrightarrow>
    fset (fold (doom_step st) xs D) = {u. (descends st)\<^sup>*\<^sup>* u s}"
proof (induction xs arbitrary: D)
  case (Cons x xs)
  obtain t b where x: "x = (t, b)" by fastforce
  with Cons.prems(1) have t: "fmlookup (bs_blocks st) t = Some b" by auto
  have later: "u < v" if "u < t" "v \<in> fst ` set (x # xs)" for u v
    using that Cons.prems(2) x by (auto intro: less_trans)
  have hop: "(descends st)\<^sup>*\<^sup>* t s \<longleftrightarrow> t = s \<or> (sb_parent_slot b |\<in>| D \<and> parent_of st b \<noteq> None)"
  proof -
    have "(descends st)\<^sup>*\<^sup>* t s \<longleftrightarrow>
        t = s \<or> (parent_of st b \<noteq> None \<and> (descends st)\<^sup>*\<^sup>* (sb_parent_slot b) s)"
      using t by (subst descends_rtranclp_iff) (auto simp: descends_def)
    moreover have "sb_parent_slot b |\<in>| D \<longleftrightarrow> (descends st)\<^sup>*\<^sup>* (sb_parent_slot b) s"
      if "parent_of st b \<noteq> None"
    proof -
      from that t k have "sb_parent_slot b < t"
        by (auto intro: descends_less simp: descends_def)
      then have "sb_parent_slot b \<notin> fst ` set (x # xs)" using later by blast
      then show ?thesis using Cons.prems(3) by auto
    qed
    ultimately show ?thesis by blast
  qed
  have "fset (doom_step st x D) = {u. (descends st)\<^sup>*\<^sup>* u s \<and> (u = s \<or> u \<notin> fst ` set xs)}"
    using Cons.prems(2,3) hop x by (auto simp: doom_step_def)
  with Cons show ?case by auto
qed auto

lemma doomed_slots_descendants:
  assumes "keyed st"
  shows "fset (doomed_slots st s) = {u. (descends st)\<^sup>*\<^sup>* u s}"
  unfolding doomed_slots_def
proof (rule doom_fold [OF assms])
  let ?xs = "filter (\<lambda>sc. s + 1 \<le> fst sc) (fm_entries (bs_blocks st))"
  show "set ?xs \<subseteq> set (fm_entries (bs_blocks st))" by auto
  have "map fst ?xs = filter (\<lambda>k. s + 1 \<le> k) (fm_keys (bs_blocks st))"
    by (simp add: filter_map comp_def flip: map_fst_fm_entries)
  then show "sorted_wrt (<) (map fst ?xs)" by (simp add: sorted_wrt_filter)
  have "u = s" if "(descends st)\<^sup>*\<^sup>* u s" "u \<notin> fst ` set ?xs" for u
  proof (rule ccontr)
    assume "u \<noteq> s"
    with that(1) obtain b where b: "fmlookup (bs_blocks st) u = Some b"
      by (subst (asm) descends_rtranclp_iff) (auto simp: descends_def)
    from that(1) assms \<open>u \<noteq> s\<close> have "s < u" by (auto dest: descends_rtranclp_le)
    then have "s + 1 \<le> u" by (rule inc_le)
    with b have "(u, b) \<in> set ?xs" by simp
    then have "fst (u, b) \<in> fst ` set ?xs" by (rule imageI)
    with that(2) show False by simp
  qed
  then show "fset {|s|} = {u. (descends st)\<^sup>*\<^sup>* u s \<and> (u = s \<or> u \<notin> fst ` set ?xs)}" by auto
qed

text \<open>While a conflict is pending, nothing is served.\<close>

definition quarantined :: "u64 \<Rightarrow> block_store \<Rightarrow> bool" where
  "quarantined s st =
     ((\<exists>u. bs_conflict_until st = Some u \<and> s \<le> u)
      \<and> (\<forall>a. anchor_slot st = Some a \<longrightarrow> a \<le> s))"

lemma quarantined_serves_nothing: "quarantined s st \<Longrightarrow> latest_chained_blocks st = Some None"
  by (auto simp: quarantined_def latest_chained_blocks_def anchor_slot_def split: option.splits)

lemma quarantined_conflict: "quarantined s st \<Longrightarrow> quarantined s (conflict t st)"
  by (auto simp: quarantined_def conflict_def anchor_slot_def le_max_iff_disj)

lemma quarantined_on_block: "quarantined s st \<Longrightarrow> quarantined s (on_block b st)"
  by (auto simp: on_block_def quarantined_conflict split: option.splits)
    (auto simp: quarantined_def insert_block_def anchor_slot_def)

lemma quarantined_prune: "quarantined s st \<Longrightarrow> quarantined s (prune st)"
  by (simp add: quarantined_def prune_def anchor_slot_def Let_def)

lemma quarantined_set_anchor:
  "quarantined s st \<Longrightarrow> an_confirmed_slot an \<le> s \<Longrightarrow> quarantined s (set_anchor an st)"
  by (auto simp: quarantined_def set_anchor_def anchor_slot_def)

lemma quarantined_run:
  "quarantined s st \<Longrightarrow> (\<And>an. SetAnchor an \<in> set es \<Longrightarrow> an_confirmed_slot an \<le> s) \<Longrightarrow>
     quarantined s (fold store_step es st)"
proof (induction es arbitrary: st)
  case (Cons e es)
  have "quarantined s (store_step e st)"
    using Cons.prems
    by (cases e) (auto intro: quarantined_on_block quarantined_prune quarantined_set_anchor)
  with Cons show ?case by auto
qed simp

section \<open>Pruning\<close>

lemma pop_below_filter:
  "sorted ks \<Longrightarrow> set ks \<supseteq> fmdom' m \<Longrightarrow> pop_below low ks m = fmfilter (\<lambda>s. \<not> s < low) m"
proof (induction ks arbitrary: m)
  case Nil
  then have "m = fmempty" by (auto intro!: fmap_ext simp: fmlookup_dom'_iff)
  then show ?case by (simp only: pop_below.simps fmfilter_empty)
next
  case (Cons k ks)
  show ?case
  proof (cases "k < low")
    case True
    have "fmdom' (fmdrop k m) \<subseteq> set ks" using Cons.prems by auto
    with True Cons have "pop_below low (k # ks) m = fmfilter (\<lambda>s. \<not> s < low) (fmdrop k m)"
      by (simp del: fmfilter_cong)
    also have "\<dots> = fmfilter (\<lambda>s. \<not> s < low) m" using True by (auto intro!: fmap_ext)
    finally show ?thesis .
  next
    case False
    with Cons.prems have "\<not> s < low" if "s \<in> fmdom' m" for s using that by fastforce
    then have "fmfilter (\<lambda>s. \<not> s < low) m = m"
      by (intro fmfilter_true) (simp add: fmdom'I)
    with False show ?thesis by simp
  qed
qed

lemma evict_lowest_drop:
  "evict_lowest ks m =
     fmdrop_set (set (take (length ks - MAX_SLOTS_ABOVE_CONFIRMED) ks)) m"
  by (induction ks arbitrary: m)
    (auto simp: MAX_SLOTS_ABOVE_CONFIRMED_def Suc_diff_le take_Cons'
      simp del: fmdrop_set_insert intro!: fmap_ext)

text \<open>In a strictly ascending list, the dropped prefix holds the elements with many above.\<close>

lemma take_prefix_iff:
  assumes "sorted_wrt (<) (ks :: 'a::linorder list)" and "s \<in> set ks"
  shows "s \<in> set (take (length ks - n) ks) \<longleftrightarrow> n \<le> card {t \<in> set ks. s < t}"
proof -
  from assms(2) obtain i where i: "i < length ks" "s = ks ! i" by (auto simp: in_set_conv_nth)
  have d: "distinct ks" using assms(1) by (simp add: strict_sorted_iff)
  have "{t \<in> set ks. s < t} = set (drop (Suc i) ks)"
  proof (intro equalityI subsetI)
    fix t assume "t \<in> {t \<in> set ks. s < t}"
    then obtain j where j: "j < length ks" "t = ks ! j" "ks ! i < ks ! j"
      using i by (auto simp: in_set_conv_nth)
    then have "i < j" using assms(1) i
      by (metis linorder_neqE_nat less_asym sorted_wrt_nth_less less_irrefl)
    with j have "drop (Suc i) ks ! (j - Suc i) = t" "j - Suc i < length (drop (Suc i) ks)" by auto
    then show "t \<in> set (drop (Suc i) ks)" by (metis nth_mem)
  next
    fix t assume t: "t \<in> set (drop (Suc i) ks)"
    then obtain j where "j < length ks - Suc i" "t = ks ! (Suc i + j)"
      by (auto simp: in_set_conv_nth)
    with assms(1) i have "s < t" by (auto intro: sorted_wrt_nth_less)
    with t show "t \<in> {t \<in> set ks. s < t}" by (auto dest: in_set_dropD)
  qed
  then have c: "card {t \<in> set ks. s < t} = length ks - Suc i"
    using d by (simp add: distinct_card)
  have pre: "s \<in> set (take m ks) \<longleftrightarrow> i < m" for m
  proof
    assume "s \<in> set (take m ks)"
    then obtain j where "j < m" "j < length ks" "ks ! j = s" by (auto simp: in_set_conv_nth)
    with d i show "i < m" by (metis nth_eq_iff_index_eq)
  next
    assume "i < m"
    with i have "take m ks ! i = s" "i < length (take m ks)" by auto
    then show "s \<in> set (take m ks)" by (metis nth_mem)
  qed
  show ?thesis unfolding pre c using i(1) by linarith
qed

lemma prune_blocks:
  "fmlookup (bs_blocks (prune st)) s =
     (let low = (case anchor_slot st of
                   Some a \<Rightarrow> saturating_sub a RETAINED_SLOTS_BELOW_CONFIRMED | None \<Rightarrow> 0);
          above = (case anchor_slot st of Some a \<Rightarrow> a + 1 | None \<Rightarrow> 0)
      in if low \<le> s
            \<and> (s < above \<or> card {t \<in> fmdom' (bs_blocks st). low \<le> t \<and> s < t}
                             < MAX_SLOTS_ABOVE_CONFIRMED)
         then fmlookup (bs_blocks st) s else None)"
proof -
  define low where "low = (case anchor_slot st of
    Some a \<Rightarrow> saturating_sub a RETAINED_SLOTS_BELOW_CONFIRMED | None \<Rightarrow> 0)"
  define above where "above = (case anchor_slot st of Some a \<Rightarrow> a + 1 | None \<Rightarrow> (0 :: u64))"
  define m where "m = fmfilter (\<lambda>s. \<not> s < low) (bs_blocks st)"
  let ?ks = "filter (\<lambda>s. above \<le> s) (fm_keys m)"
  have m: "bs_blocks (prune st) =
      fmdrop_set (set (take (length ?ks - MAX_SLOTS_ABOVE_CONFIRMED) ?ks)) m"
    unfolding prune_def Let_def m_def low_def above_def
    by (auto simp: evict_lowest_drop pop_below_filter split: option.splits)
  have "s \<in> set (take (length ?ks - MAX_SLOTS_ABOVE_CONFIRMED) ?ks) \<longleftrightarrow>
      above \<le> s \<and> MAX_SLOTS_ABOVE_CONFIRMED \<le> card {t \<in> fmdom' m. s < t}"
    if "s \<in> fmdom' m"
  proof (cases "above \<le> s")
    case True
    then have "{t \<in> set ?ks. s < t} = {t \<in> fmdom' m. s < t}" by auto
    with True that show ?thesis
      by (subst take_prefix_iff) (auto simp: sorted_wrt_filter)
  qed (auto dest: in_set_takeD)
  moreover have "{t \<in> fmdom' m. s < t} = {t \<in> fmdom' (bs_blocks st). low \<le> t \<and> s < t}"
    by (auto simp: m_def fmlookup_dom'_iff)
  ultimately show ?thesis
    unfolding low_def [symmetric] above_def [symmetric] Let_def m
    by (cases "fmlookup m s") (auto simp: m_def fmlookup_dom'_iff not_le not_less split: if_splits)
qed

lemma card_le_of_few_above:
  assumes "finite (A :: 'a::linorder set)" and "\<And>s. s \<in> A \<Longrightarrow> card {t \<in> A. s < t} < n"
  shows "card A \<le> n"
proof (cases "A = {}")
  case False
  let ?m = "Min A"
  have m: "?m \<in> A" using assms(1) False by (rule Min_in)
  then have "A = insert ?m {t \<in> A. ?m < t}"
    using assms(1) by (auto simp: order_less_le)
  then have "card A \<le> Suc (card {t \<in> A. ?m < t})"
    using card_insert_le_m1 [of "Suc (card {t \<in> A. ?m < t})" "{t \<in> A. ?m < t}" ?m] by simp
  moreover have "card {t \<in> A. ?m < t} < n" using assms False by simp
  ultimately show ?thesis by simp
qed simp

lemma card_word_interval: "card {s :: u64. lo \<le> s \<and> s \<le> hi} \<le> Suc (unat hi) - unat lo"
proof -
  have "card {s :: u64. lo \<le> s \<and> s \<le> hi} = card (unat ` {s. lo \<le> s \<and> s \<le> hi})"
    by (rule card_image [symmetric]) (auto simp: inj_on_def intro: unsigned_word_eqI)
  also have "\<dots> \<le> card {unat lo..unat hi}"
    by (rule card_mono) (auto simp: word_le_nat_alt)
  finally show ?thesis by simp
qed

definition above_of :: "block_store \<Rightarrow> u64" where
  "above_of st = (case anchor_slot st of Some a \<Rightarrow> a + 1 | None \<Rightarrow> 0)"

lemma anchor_slot_prune [simp]: "anchor_slot (prune st) = anchor_slot st"
  by (simp add: prune_def anchor_slot_def Let_def)

lemma prune_slots:
  assumes "s \<in> fmdom' (bs_blocks (prune st))"
  shows "s \<in> fmdom' (bs_blocks st)"
    and "anchor_slot st = Some a \<Longrightarrow> saturating_sub a RETAINED_SLOTS_BELOW_CONFIRMED \<le> s"
    and "above_of st \<le> s \<Longrightarrow>
      card {t \<in> fmdom' (bs_blocks (prune st)). s < t} < MAX_SLOTS_ABOVE_CONFIRMED"
proof -
  let ?low = "case anchor_slot st of
    Some a \<Rightarrow> saturating_sub a RETAINED_SLOTS_BELOW_CONFIRMED | None \<Rightarrow> 0"
  have sub: "t \<in> fmdom' (bs_blocks st)" "?low \<le> t" if "t \<in> fmdom' (bs_blocks (prune st))" for t
    using that by (auto simp: fmlookup_dom'_iff prune_blocks Let_def split: if_splits)
  from sub assms show "s \<in> fmdom' (bs_blocks st)"
    and "anchor_slot st = Some a \<Longrightarrow> saturating_sub a RETAINED_SLOTS_BELOW_CONFIRMED \<le> s"
    by auto
  assume "above_of st \<le> s"
  with assms have "card {t \<in> fmdom' (bs_blocks st). ?low \<le> t \<and> s < t} < MAX_SLOTS_ABOVE_CONFIRMED"
    by (auto simp: fmlookup_dom'_iff prune_blocks Let_def above_of_def leD split: if_splits)
  moreover have "card {t \<in> fmdom' (bs_blocks (prune st)). s < t}
      \<le> card {t \<in> fmdom' (bs_blocks st). ?low \<le> t \<and> s < t}"
    using sub by (intro card_mono) auto
  ultimately show "card {t \<in> fmdom' (bs_blocks (prune st)). s < t} < MAX_SLOTS_ABOVE_CONFIRMED"
    by simp
qed

lemma prune_above_bound:
  "card {s \<in> fmdom' (bs_blocks (prune st)). above_of st \<le> s} \<le> MAX_SLOTS_ABOVE_CONFIRMED"
proof (rule card_le_of_few_above)
  fix s assume s: "s \<in> {s \<in> fmdom' (bs_blocks (prune st)). above_of st \<le> s}"
  have "card {t \<in> {s \<in> fmdom' (bs_blocks (prune st)). above_of st \<le> s}. s < t}
      \<le> card {t \<in> fmdom' (bs_blocks (prune st)). s < t}"
    by (rule card_mono) auto
  with s prune_slots(3) [of s st]
  show "card {t \<in> {s \<in> fmdom' (bs_blocks (prune st)). above_of st \<le> s}. s < t}
      < MAX_SLOTS_ABOVE_CONFIRMED" by auto
qed simp

lemma prune_size_bound:
  "fm_size (bs_blocks (prune st)) \<le> MAX_SLOTS_ABOVE_CONFIRMED + 5"
proof -
  let ?D = "fmdom' (bs_blocks (prune st))"
  have "{s \<in> ?D. s < above_of st} = {} \<or>
      (\<exists>a. {s \<in> ?D. s < above_of st} \<subseteq> {s. saturating_sub a 4 \<le> s \<and> s \<le> a})"
  proof (cases "anchor_slot st")
    case (Some a)
    have "s \<le> a" if "s < a + 1" for s
      using that by (metis inc_le linorder_not_less)
    with Some prune_slots(2) show ?thesis
      by (fastforce simp: above_of_def RETAINED_SLOTS_BELOW_CONFIRMED_def)
  qed (simp add: above_of_def)
  then have five: "card {s \<in> ?D. s < above_of st} \<le> 5"
  proof (elim disjE exE)
    fix a assume sub: "{s \<in> ?D. s < above_of st} \<subseteq> {s. saturating_sub a 4 \<le> s \<and> s \<le> a}"
    have "card {s :: u64. saturating_sub a 4 \<le> s \<and> s \<le> a} \<le> 5"
      using card_word_interval [of "saturating_sub a 4" a] by (simp add: unat_saturating_sub)
    with card_mono [OF _ sub] show ?thesis by simp
  qed (simp only: card.empty zero_le)
  have "?D = {s \<in> ?D. s < above_of st} \<union> {s \<in> ?D. above_of st \<le> s}" by auto
  then have "card ?D \<le> card {s \<in> ?D. s < above_of st} + card {s \<in> ?D. above_of st \<le> s}"
    by (metis (no_types, lifting) card_Un_le)
  with five prune_above_bound [of st] show ?thesis by (simp add: fm_size_card)
qed

section \<open>Ingest and reads\<close>

definition entry_of :: "account_selector \<Rightarrow> grpc_account \<Rightarrow> pubkey \<Rightarrow> account_entry" where
  "entry_of sel a owner =
     (if ga_lamports a = 0 \<or> \<not> is_program_selected sel owner then Closed
      else Live \<lparr>la_lamports = ga_lamports a, la_owner = owner, la_executable = ga_executable a,
                 la_rent_epoch = ga_rent_epoch a, la_data = ga_data a\<rparr>)"

lemma ingest_account_fst:
  "fst (ingest_account sel a acc) =
     (case (try_from (ga_pubkey a), try_from (ga_owner a)) of
        (Some key, Some owner) \<Rightarrow> fmupd key (entry_of sel a owner) (fst acc) | _ \<Rightarrow> fst acc)"
  by (auto simp: ingest_account_def entry_of_def split: option.splits)

lemma ingest_untouched:
  "to_bytes key \<notin> ga_pubkey ` set as \<Longrightarrow>
     fmlookup (fst (fold (ingest_account sel) as acc)) key = fmlookup (fst acc) key"
proof (induction as arbitrary: acc)
  case (Cons a as)
  then show ?case
    by (auto simp: ingest_account_fst try_from_eq_Some split: option.splits)
qed simp

lemma ingest_lookup:
  assumes "distinct (map ga_pubkey as)" and "a \<in> set as"
    and "ga_pubkey a = to_bytes key" and "ga_owner a = to_bytes owner"
  shows "fmlookup (fst (fold (ingest_account sel) as acc)) key = Some (entry_of sel a owner)"
  using assms(1,2)
proof (induction as arbitrary: acc)
  case (Cons b as)
  show ?case
  proof (cases "a = b")
    case True
    with Cons.prems assms(3,4) show ?thesis
      by (simp add: ingest_untouched ingest_account_fst)
  next
    case False
    with Cons show ?thesis by simp
  qed
qed simp

lemma get_account_in_unknown:
  "get_account_in bs key = PUnknown \<longleftrightarrow> (\<forall>b \<in> set bs. fmlookup (sb_accounts b) key = None)"
  by (induction bs) (auto split: option.splits account_entry.splits)

lemma get_account_in_newest:
  assumes "sorted_wrt (\<lambda>c p. sb_slot p < sb_slot c) bs" and "b \<in> set bs"
    and "fmlookup (sb_accounts b) key = Some entry"
    and "\<And>c e. c \<in> set bs \<Longrightarrow> fmlookup (sb_accounts c) key = Some e \<Longrightarrow> sb_slot c \<le> sb_slot b"
  shows "get_account_in bs key = (case entry of Live account \<Rightarrow> PLive account | Closed \<Rightarrow> PClosed)"
  using assms
proof (induction bs)
  case (Cons c bs)
  show ?case
  proof (cases "fmlookup (sb_accounts c) key")
    case None
    with Cons.prems(2,3) have "b \<in> set bs" by auto
    with Cons None show ?thesis by auto
  next
    case (Some e)
    with Cons.prems have "c = b" by fastforce
    with Some Cons.prems(3) show ?thesis by (auto split: account_entry.splits)
  qed
qed simp

section \<open>Properties\<close>

text \<open>C3: After any sequence of blocks, anchors and prunes, what the processed store serves is a
  chain: it starts at the highest stored slot, consists of stored blocks, every hop matches the
  child's parent slot and parent blockhash at a strictly smaller slot, and it reaches the confirmed
  slot with the confirmed blockhash.\<close>

theorem served_chain_sound:
  assumes "st = fold store_step es new_store" and "latest_chained_blocks st = Some (Some pb)"
  shows "\<exists>an. bs_anchor st = Some an \<and> pb_anchor_slot pb = an_confirmed_slot an
    \<and> pb_blocks pb \<noteq> [] \<and> sb_slot (hd (pb_blocks pb)) = pb_slot pb
    \<and> (\<forall>s. fmlookup (bs_blocks st) s \<noteq> None \<longrightarrow> s \<le> pb_slot pb)
    \<and> (\<forall>b \<in> set (pb_blocks pb). fmlookup (bs_blocks st) (sb_slot b) = Some b)
    \<and> successively links (pb_blocks pb) \<and> anchored an (pb_blocks pb)"
proof -
  have k: "keyed st" unfolding assms(1) by (rule store_run.invar_run)
  from latest_chained_chain [OF k assms(2)] obtain an head
    where "servable st an head" and "chain_from st an head (pb_blocks pb)"
      and "pb_slot pb = sb_slot head" and "pb_anchor_slot pb = an_confirmed_slot an"
    by blast
  with chain_from_descending(2) [OF k] head_block_Some(2) [OF k] show ?thesis
    by (auto simp: servable_def chain_from_def fmlookup_dom'_iff)
qed

text \<open>C20: The store serves a chain exactly when the head can prove one: an anchor is set and above
  every pending conflict, the head has a block time, and the hash-checked parent links lead from
  the head to the confirmed block.\<close>

theorem served_iff_reaches:
  "(\<exists>pb. latest_chained_blocks (fold store_step es new_store) = Some (Some pb)) \<longleftrightarrow>
   (\<exists>an head. servable (fold store_step es new_store) an head
      \<and> reaches (fold store_step es new_store) an head)"
  by (rule latest_chained_served) (rule store_run.invar_run)

text \<open>C37: Selecting the latest chained blocks always returns: the parent walk cannot cycle.\<close>

theorem latest_chained_terminates:
  "\<exists>r. latest_chained_blocks (fold store_step es new_store) = Some r"
  by (rule latest_chained_returns) (rule store_run.invar_run)

text \<open>A second blockhash for an unconfirmed stored slot quarantines the store: whatever blocks,
  prunes and anchors follow, nothing is served while the confirmed slot has not passed that
  slot.\<close>

theorem conflict_serves_nothing:
  assumes "fmlookup (bs_blocks st) (sb_slot b) = Some stored"
    and "sb_blockhash stored \<noteq> sb_blockhash b" and "\<not> confirmed st (sb_slot b)"
    and "\<And>an. SetAnchor an \<in> set es \<Longrightarrow> an_confirmed_slot an \<le> sb_slot b"
  shows "latest_chained_blocks (fold store_step es (on_block b st)) = Some None"
proof -
  have "on_block b st = conflict (sb_slot b) st" using assms(1-3) by (simp add: on_block_def)
  moreover have "quarantined (sb_slot b) (conflict (sb_slot b) st)"
    using assms(3) by (auto simp: quarantined_def conflict_def confirmed_def anchor_slot_def
        split: option.splits)
  ultimately show ?thesis
    using assms(4) by (auto intro!: quarantined_serves_nothing quarantined_run)
qed

text \<open>A conflict deletes the block at its slot and exactly the stored blocks that descend from
  it through resolvable parent links, in any store the events can produce.\<close>

theorem conflict_removes_descendants:
  "fmlookup (bs_blocks (conflict s (fold store_step es new_store))) t =
     (if (descends (fold store_step es new_store))\<^sup>*\<^sup>* t s then None
      else fmlookup (bs_blocks (fold store_step es new_store)) t)"
  using doomed_slots_descendants [OF store_run.invar_run, of es s]
  by (simp add: conflict_def)

text \<open>Pruning keeps at most \<open>MAX_SLOTS_ABOVE_CONFIRMED\<close> slots above the confirmed slot, and
  the whole store to that plus the five slots of the retained window.\<close>

theorem prune_bounds:
  "card {s \<in> fmdom' (bs_blocks (prune st)). above_of st \<le> s} \<le> MAX_SLOTS_ABOVE_CONFIRMED
   \<and> fm_size (bs_blocks (prune st)) \<le> MAX_SLOTS_ABOVE_CONFIRMED + 5"
  using prune_above_bound prune_size_bound by blast

text \<open>A processed read returns the newest write of the key along the served chain, a close
  included, and reports the key unknown only when no block of the chain wrote it.\<close>

theorem processed_read_newest:
  assumes "latest_chained_blocks (fold store_step es new_store) = Some (Some pb)"
    and "b \<in> set (pb_blocks pb)" and "fmlookup (sb_accounts b) key = Some entry"
    and "\<And>c e. c \<in> set (pb_blocks pb) \<Longrightarrow> fmlookup (sb_accounts c) key = Some e \<Longrightarrow>
           sb_slot c \<le> sb_slot b"
  shows "get_account pb key = (case entry of Live account \<Rightarrow> PLive account | Closed \<Rightarrow> PClosed)"
proof -
  have k: "keyed (fold store_step es new_store)" by (rule store_run.invar_run)
  from latest_chained_chain [OF k assms(1)]
  have "sorted_wrt (\<lambda>c p. sb_slot p < sb_slot c) (pb_blocks pb)"
    using chain_from_descending(1) [OF k] by blast
  with assms(2-) show ?thesis
    unfolding get_account_def by (intro get_account_in_newest) auto
qed

text \<open>Ingest classifies every well-formed account of a block: closed when it holds no lamports
  or its owner is outside the program filter, live with its fields otherwise.\<close>

theorem ingest_classifies:
  assumes "distinct (map ga_pubkey (gb_accounts block))" and "a \<in> set (gb_accounts block)"
    and "ga_pubkey a = to_bytes key" and "ga_owner a = to_bytes owner"
  shows "fmlookup (sb_accounts (from_update table_bytes block sel now)) key =
    Some (if ga_lamports a = 0 \<or> \<not> is_program_selected sel owner then Closed
          else Live \<lparr>la_lamports = ga_lamports a, la_owner = owner,
                 la_executable = ga_executable a, la_rent_epoch = ga_rent_epoch a,
                 la_data = ga_data a\<rparr>)"
  using ingest_lookup [OF assms] by (simp add: from_update_def entry_of_def split_beta)

subsection \<open>Witnesses\<close>

definition wit_block :: "u64 \<Rightarrow> string \<Rightarrow> u64 \<Rightarrow> string \<Rightarrow> slot_block" where
  "wit_block slot hash parent parent_hash =
     \<lparr>sb_slot = slot, sb_blockhash = hash, sb_parent_slot = parent,
      sb_parent_blockhash = parent_hash, sb_block_time = Some 7, sb_received_at = 0,
      sb_accounts = fmupd (pk 1) Closed fmempty, sb_heap_bytes = 0\<rparr>"

definition wit_anchor :: anchor where
  "wit_anchor = \<lparr>an_confirmed_slot = 100, an_confirmed_blockhash = ''a''\<rparr>"

definition wit_events :: "store_event list" where
  "wit_events = [OnBlock (wit_block 101 ''b'' 100 ''a''), OnBlock (wit_block 102 ''c'' 101 ''b''),
     SetAnchor wit_anchor]"

definition wit_served :: processed_blocks where
  "wit_served = \<lparr>pb_slot = 102, pb_block_time = 7, pb_anchor_slot = 100, pb_stored_blocks = 2,
     pb_stored_bytes = 0,
     pb_blocks = [wit_block 102 ''c'' 101 ''b'', wit_block 101 ''b'' 100 ''a'']\<rparr>"

lemmas store_eval = new_store_def on_block_def insert_block_def set_anchor_def anchor_slot_def
  find_block_def parent_of_def head_block_def at_anchor_def extend_chain_def stored_bytes_def
  fm_keys_def fm_size_def fm_sum_def latest_chained_blocks_def walk.simps successors.simps

lemma wit_served_latest:
  "latest_chained_blocks (fold store_step wit_events new_store) = Some (Some wit_served)"
  by (simp add: wit_events_def wit_served_def wit_block_def wit_anchor_def store_eval fm_eval
      fcard_finsert_if)

theorem served_chain_sound_witness:
  "\<exists>an. bs_anchor (fold store_step wit_events new_store) = Some an
    \<and> pb_anchor_slot wit_served = an_confirmed_slot an
    \<and> successively links (pb_blocks wit_served) \<and> anchored an (pb_blocks wit_served)"
  using served_chain_sound [OF refl wit_served_latest] by blast

theorem conflict_serves_nothing_witness:
  "latest_chained_blocks (fold store_step [SetAnchor wit_anchor]
     (on_block (wit_block 101 ''x'' 100 ''a'') (fold store_step wit_events new_store))) = Some None"
  by (rule conflict_serves_nothing [where stored = "wit_block 101 ''b'' 100 ''a''"])
    (simp_all add: wit_events_def wit_block_def wit_anchor_def store_eval confirmed_def)

theorem processed_read_newest_witness: "get_account wit_served (pk 1) = PClosed"
proof -
  have "sb_slot c \<le> sb_slot (wit_block 102 ''c'' 101 ''b'')" if "c \<in> set (pb_blocks wit_served)" for c
    using that by (auto simp: wit_served_def wit_block_def)
  then have "get_account wit_served (pk 1) =
      (case Closed of Live account \<Rightarrow> PLive account | Closed \<Rightarrow> PClosed)"
    by (intro processed_read_newest [OF wit_served_latest, of "wit_block 102 ''c'' 101 ''b''"])
      (simp_all add: wit_served_def wit_block_def)
  then show ?thesis by simp
qed

definition wit_account :: grpc_account where
  "wit_account = \<lparr>ga_pubkey = replicate 32 5, ga_lamports = 9, ga_owner = replicate 32 6,
     ga_executable = False, ga_rent_epoch = 0, ga_data = [1, 2], ga_write_version = 3\<rparr>"

theorem ingest_classifies_witness:
  "fmlookup (sb_accounts (from_update (\<lambda>n. n)
      \<lparr>gb_slot = 10, gb_blockhash = ''h'', gb_parent_slot = 9, gb_parent_blockhash = ''g'',
       gb_block_time = None, gb_accounts = [wit_account]\<rparr>
      \<lparr>sel_include = [], sel_exclude = [pk 6]\<rparr> 0)) (pk 5) = Some Closed"
  using ingest_classifies [where a = wit_account and key = "pk 5" and owner = "pk 6"
      and sel = "\<lparr>sel_include = [], sel_exclude = [pk 6]\<rparr>" and table_bytes = "\<lambda>n. n" and now = 0
      and block = "\<lparr>gb_slot = 10, gb_blockhash = ''h'', gb_parent_slot = 9,
        gb_parent_blockhash = ''g'', gb_block_time = None, gb_accounts = [wit_account]\<rparr>"]
  by (simp add: wit_account_def is_program_selected_def)

end
