(* ===== verification/Largest_Records.thy ===== *)
theory Largest_Records
  imports Feed
begin

text \<open>
  The persisted side of the largest-accounts component
  (\<open>crates/core/src/modules/largest_accounts\<close>: \<open>mod.rs\<close>, \<open>persist.rs\<close>, \<open>prune.rs\<close>, \<open>read.rs\<close>): the
  packed record codec, the sentinel mints, and the table of generations with its upsert, delete,
  prune and read. A table row is keyed by the mint and the slot as \<open>bigint\<close>.
\<close>

section \<open>Records\<close>

definition PERSISTED_TOP_N :: nat where "PERSISTED_TOP_N = 20"

definition RECORD_ENTRY_SIZE :: nat where "RECORD_ENTRY_SIZE = 40"

definition SOL_SENTINEL_MINT :: pubkey where "SOL_SENTINEL_MINT = pk 0"
definition CIRCULATING_SENTINEL_MINT :: pubkey where "CIRCULATING_SENTINEL_MINT = pk 1"
definition NON_CIRCULATING_SENTINEL_MINT :: pubkey where "NON_CIRCULATING_SENTINEL_MINT = pk 2"

definition is_sentinel :: "pubkey \<Rightarrow> bool" where
  "is_sentinel mint \<longleftrightarrow> mint = SOL_SENTINEL_MINT \<or> mint = CIRCULATING_SENTINEL_MINT \<or>
     mint = NON_CIRCULATING_SENTINEL_MINT"

definition TOKEN_PROGRAM_ID :: pubkey where
  "TOKEN_PROGRAM_ID = Abs_pubkey [6, 221, 246, 225, 215, 101, 161, 147, 217, 203, 225, 70, 206, 235,
     121, 172, 28, 180, 133, 237, 95, 91, 55, 145, 58, 140, 245, 133, 126, 255, 0, 169]"

definition TOKEN_2022_PROGRAM_ID :: pubkey where
  "TOKEN_2022_PROGRAM_ID = Abs_pubkey [6, 221, 246, 225, 238, 117, 143, 222, 24, 66, 93, 188, 228,
     108, 205, 218, 182, 26, 252, 77, 131, 185, 13, 39, 254, 189, 249, 40, 216, 161, 139, 252]"

record mint_record =
  mr_mint :: pubkey
  mr_slot :: u64
  mr_rows :: "(pubkey \<times> u64) list"

fun encode_record :: "(pubkey \<times> u64) list \<Rightarrow> u8 list" where
  "encode_record [] = []"
| "encode_record ((key, amount) # rows) = to_bytes key @ to_le_bytes 8 amount @ encode_record rows"

text \<open>\<open>chunks_exact\<close> of the entry size, each chunk a key and an amount.\<close>

fun decode_chunks :: "u8 list \<Rightarrow> (pubkey \<times> u64) list option" where
  "decode_chunks bytes =
     (if length bytes < RECORD_ENTRY_SIZE \<or> RECORD_ENTRY_SIZE = 0 then Some []
      else
        let chunk = take RECORD_ENTRY_SIZE bytes
        in case try_from (take 32 chunk) of
             None \<Rightarrow> None
           | Some key \<Rightarrow>
               if length (drop 32 chunk) \<noteq> 8 then None
               else map_option ((#) (key, from_le_bytes (drop 32 chunk)))
                      (decode_chunks (drop RECORD_ENTRY_SIZE bytes)))"

declare decode_chunks.simps [simp del]

definition decode_record :: "u8 list \<Rightarrow> (pubkey \<times> u64) list option" where
  "decode_record bytes =
     (if length bytes mod RECORD_ENTRY_SIZE \<noteq> 0 then None else decode_chunks bytes)"

section \<open>The table of generations\<close>

type_synonym record_table = "(pubkey \<times> int, u8 list) fmap"

definition upsert_record :: "mint_record \<Rightarrow> record_table \<Rightarrow> record_table" where
  "upsert_record r table = fmupd (mr_mint r, uint (mr_slot r)) (encode_record (mr_rows r)) table"

text \<open>One transaction: it commits all upserts or none.\<close>

definition persist_records :: "bool \<Rightarrow> mint_record list \<Rightarrow> record_table \<Rightarrow> record_table \<times> bool" where
  "persist_records db_ok records table =
     (if records = [] then (table, True)
      else if db_ok then (fold upsert_record records table, True) else (table, False))"

definition delete_mint_rows :: "bool \<Rightarrow> pubkey \<Rightarrow> record_table \<Rightarrow> record_table \<times> bool" where
  "delete_mint_rows db_ok mint table =
     (if db_ok then (fmfilter (\<lambda>(m, _). m \<noteq> mint) table, True) else (table, False))"

definition clear_largest_accounts :: "record_table \<Rightarrow> record_table" where
  "clear_largest_accounts table = fmempty"

text \<open>\<open>MAX(slot) ... WHERE mint = $1 AND slot <= $2\<close>.\<close>

definition newest_at :: "record_table \<Rightarrow> pubkey \<Rightarrow> int \<Rightarrow> int option" where
  "newest_at table mint max_slot =
     (case filter (\<lambda>(m, s). m = mint \<and> s \<le> max_slot) (fm_keys table) of
        [] \<Rightarrow> None
      | keys \<Rightarrow> Some (Max (snd ` set keys)))"

definition fetch_record ::
  "record_table \<Rightarrow> pubkey \<Rightarrow> u64 \<Rightarrow> (pubkey \<times> u64) list option option" where
  "fetch_record table mint max_slot =
     (case newest_at table mint (sint max_slot) of
        None \<Rightarrow> Some None
      | Some slot \<Rightarrow>
          (case decode_record (the (fmlookup table (mint, slot))) of
             None \<Rightarrow> None
           | Some rows \<Rightarrow> Some (Some rows)))"

definition prune_largest_accounts :: "bool \<Rightarrow> u64 \<Rightarrow> record_table \<Rightarrow> record_table" where
  "prune_largest_accounts db_ok slot table =
     (if db_ok
      then fmfilter (\<lambda>(mint, s). case newest_at table mint (sint slot) of
               None \<Rightarrow> True | Some keep_slot \<Rightarrow> \<not> s < keep_slot) table
      else table)"

text \<open>One finalized slot of the pruner task: the table and the slot pruned last.\<close>

definition pruner_tick ::
  "u64 \<Rightarrow> bool \<Rightarrow> u64 \<Rightarrow> record_table \<times> u64 \<Rightarrow> record_table \<times> u64" where
  "pruner_tick interval db_ok finalized = (\<lambda>(table, last_pruned).
     if interval \<le> saturating_sub finalized last_pruned
     then (prune_largest_accounts db_ok finalized table, finalized)
     else (table, last_pruned))"

section \<open>Lemmas\<close>

lemma newest_at_Some:
  "newest_at table mint max_slot = Some s \<longleftrightarrow>
     (mint, s) \<in> fmdom' table \<and> s \<le> max_slot \<and>
     (\<forall>s'. (mint, s') \<in> fmdom' table \<and> s' \<le> max_slot \<longrightarrow> s' \<le> s)"
proof -
  let ?keys = "filter (\<lambda>(m, s). m = mint \<and> s \<le> max_slot) (fm_keys table)"
  have mem: "s \<in> snd ` set ?keys \<longleftrightarrow> (mint, s) \<in> fmdom' table \<and> s \<le> max_slot" for s
    by (force simp: image_iff)
  have "newest_at table mint max_slot = Some s \<longleftrightarrow> ?keys \<noteq> [] \<and> s = Max (snd ` set ?keys)"
    unfolding newest_at_def by (cases ?keys) auto
  also have "\<dots> \<longleftrightarrow> s \<in> snd ` set ?keys \<and> (\<forall>s' \<in> snd ` set ?keys. s' \<le> s)"
  proof (cases "?keys = []")
    case False
    then have ne: "snd ` set ?keys \<noteq> {}" by (metis image_is_empty set_empty)
    have fin: "finite (snd ` set ?keys)" by simp
    show ?thesis using Max_eq_iff [OF fin ne, of s] False by auto
  qed simp
  finally show ?thesis unfolding mem by (metis mem)
qed

lemma newest_at_None:
  "newest_at table mint max_slot = None \<longleftrightarrow> (\<forall>s. (mint, s) \<in> fmdom' table \<longrightarrow> \<not> s \<le> max_slot)"
proof -
  have "newest_at table mint max_slot = None \<longleftrightarrow> filter (\<lambda>(m, s). m = mint \<and> s \<le> max_slot) (fm_keys table) = []"
    unfolding newest_at_def by (cases "filter (\<lambda>(m, s). m = mint \<and> s \<le> max_slot) (fm_keys table)") auto
  then show ?thesis by (auto simp: filter_empty_conv)
qed

lemma length_encode_record: "length (encode_record rows) = RECORD_ENTRY_SIZE * length rows"
  by (induction rows rule: encode_record.induct) (auto simp: RECORD_ENTRY_SIZE_def)

lemma decode_encode_chunks: "decode_chunks (encode_record rows) = Some rows"
proof (induction rows rule: encode_record.induct)
  case 1
  show ?case by (subst decode_chunks.simps) (simp add: RECORD_ENTRY_SIZE_def)
next
  case (2 key amount rows)
  have "take 40 (to_bytes key @ to_le_bytes 8 amount @ encode_record rows) = to_bytes key @ to_le_bytes 8 amount"
    "drop 40 (to_bytes key @ to_le_bytes 8 amount @ encode_record rows) = encode_record rows"
    by simp_all
  with 2 show ?case
    by (subst decode_chunks.simps) (simp add: RECORD_ENTRY_SIZE_def)
qed

lemma decode_chunks_total: "decode_chunks bytes \<noteq> None"
proof (induction bytes rule: decode_chunks.induct)
  case (1 bytes)
  show ?case
  proof (cases "length bytes < RECORD_ENTRY_SIZE \<or> RECORD_ENTRY_SIZE = 0")
    case True
    then show ?thesis by (subst decode_chunks.simps) simp
  next
    case False
    then have len: "40 \<le> length bytes" by (simp add: RECORD_ENTRY_SIZE_def)
    then have "try_from (take 32 (take 40 bytes)) \<noteq> None" unfolding try_from_eq_None by simp
    then obtain key where key: "try_from (take 32 (take 40 bytes)) = Some key" by blast
    have "decode_chunks (drop RECORD_ENTRY_SIZE bytes) \<noteq> None"
      by (rule 1 [OF False refl]) (use key len in \<open>simp_all add: RECORD_ENTRY_SIZE_def\<close>)
    then show ?thesis using key len by (subst decode_chunks.simps) (auto simp: RECORD_ENTRY_SIZE_def)
  qed
qed

section \<open>Properties\<close>

text \<open>C34: A packed record decodes to the rows it was packed from, and exactly the byte strings whose
  length is not a multiple of the 40-byte entry fail to decode.\<close>

theorem record_roundtrip:
  "decode_record (encode_record rows) = Some rows
   \<and> (decode_record bytes = None) = (length bytes mod RECORD_ENTRY_SIZE \<noteq> 0)"
  by (auto simp: decode_record_def length_encode_record decode_encode_chunks decode_chunks_total)

text \<open>Pruning at a finalized slot changes no answer at or above it: for every mint and every
  commitment slot from the finalized one on, the read returns what it returned before.\<close>

theorem prune_keeps_reads:
  assumes "sint slot \<le> sint max_slot"
  shows "fetch_record (prune_largest_accounts True slot table) mint max_slot = fetch_record table mint max_slot"
proof -
  let ?t = "prune_largest_accounts True slot table"
  have kept: "(mint, s) \<in> fmdom' ?t \<longleftrightarrow> (mint, s) \<in> fmdom' table \<and>
      (case newest_at table mint (sint slot) of None \<Rightarrow> True | Some keep \<Rightarrow> \<not> s < keep)" for s
    by (auto simp: prune_largest_accounts_def fmlookup_dom'_iff)
  have sub: "(mint, s) \<in> fmdom' table" if "(mint, s) \<in> fmdom' ?t" for s using that kept by simp
  have newest: "newest_at ?t mint (sint max_slot) = newest_at table mint (sint max_slot)"
  proof (cases "newest_at table mint (sint max_slot)")
    case None
    then have "newest_at ?t mint (sint max_slot) = None" unfolding newest_at_None using sub by blast
    with None show ?thesis by simp
  next
    case (Some s)
    note s = Some [unfolded newest_at_Some]
    have "\<not> s < keep" if "newest_at table mint (sint slot) = Some keep" for keep
      using that [unfolded newest_at_Some] s assms by (meson not_less order_trans)
    then have "(mint, s) \<in> fmdom' ?t" using s kept by (auto split: option.splits)
    then have "newest_at ?t mint (sint max_slot) = Some s"
      unfolding newest_at_Some using s sub by blast
    with Some show ?thesis by simp
  qed
  have lookup: "fmlookup ?t (mint, s) = fmlookup table (mint, s)" if "(mint, s) \<in> fmdom' ?t" for s
    using that by (auto simp: prune_largest_accounts_def fmlookup_dom'_iff split: if_splits)
  show ?thesis
  proof (cases "newest_at table mint (sint max_slot)")
    case (Some s)
    then have "(mint, s) \<in> fmdom' ?t" using newest newest_at_Some [of ?t mint "sint max_slot" s] by simp
    from lookup [OF this] Some newest show ?thesis by (simp add: fetch_record_def)
  qed (use newest in \<open>simp add: fetch_record_def\<close>)
qed

theorem prune_keeps_reads_witness:
  "fetch_record (prune_largest_accounts True 6 (fmupd (pk 5, 4) (encode_record [(pk 9, 3)])
      (fmupd (pk 5, 6) (encode_record [(pk 8, 7)]) fmempty))) (pk 5) 7
   = fetch_record (fmupd (pk 5, 4) (encode_record [(pk 9, 3)])
      (fmupd (pk 5, 6) (encode_record [(pk 8, 7)]) fmempty)) (pk 5) 7"
  by (rule prune_keeps_reads) simp

text \<open>A record that is persisted is the one the read returns at its slot and until a newer one
  exists.\<close>

theorem persist_then_fetch:
  assumes "\<And>s. (mr_mint r, s) \<in> fmdom' table \<Longrightarrow> s \<le> uint (mr_slot r) \<or> sint max_slot < s"
    and "uint (mr_slot r) \<le> sint max_slot"
  shows "fetch_record (fst (persist_records True [r] table)) (mr_mint r) max_slot = Some (Some (mr_rows r))"
proof -
  let ?t = "fst (persist_records True [r] table)"
  have t: "?t = fmupd (mr_mint r, uint (mr_slot r)) (encode_record (mr_rows r)) table"
    by (simp add: persist_records_def upsert_record_def)
  have "newest_at ?t (mr_mint r) (sint max_slot) = Some (uint (mr_slot r))"
    unfolding newest_at_Some t using assms by (fastforce simp: not_less)
  then show ?thesis
    by (simp add: fetch_record_def t decode_record_def length_encode_record decode_encode_chunks)
qed

theorem persist_then_fetch_witness:
  "fetch_record (fst (persist_records True [\<lparr>mr_mint = pk 5, mr_slot = 6, mr_rows = [(pk 8, 7)]\<rparr>]
     (fmupd (pk 5, 4) [] fmempty))) (pk 5) 7 = Some (Some [(pk 8, 7)])"
  using persist_then_fetch [of "\<lparr>mr_mint = pk 5, mr_slot = 6, mr_rows = [(pk 8, 7)]\<rparr>" "fmupd (pk 5, 4) [] fmempty" 7]
  by simp

end
