(* ===== verification/Mint_Store.thy ===== *)
theory Mint_Store
  imports Largest_Records
begin

text \<open>
  The mint cache's data (\<open>crates/core/src/modules/mint_cache\<close>: \<open>mod.rs\<close>, \<open>store.rs\<close>, \<open>db.rs\<close>, and \<open>MintState\<close>
  of \<open>crates/core/src/utils/token.rs\<close>): what one account write means, the three maps of the store, and
  the \<open>mints\<close> table with its row encoding and guarded upsert.

  The token-program layouts belong to the SPL interface crates: \<open>mint_codec\<close> is their unpacking as far
  as the sources look at it. The two extension configs are kept as the bytes they are stored with.
\<close>

section \<open>Mint states\<close>

record mint_configs =
  mg_interest_bearing :: "u8 list option"
  mg_scaled_ui_amount :: "u8 list option"

record mint_state =
  ms_decimals :: u8
  ms_configs :: "mint_configs option"
  ms_immutable :: bool

datatype extension_type = MintCloseAuthority | InterestBearingConfig | ScaledUiAmount | OtherExtension

record unpacked_mint =
  um_decimals :: u8
  um_interest_bearing :: "u8 list option"
  um_scaled_ui_amount :: "u8 list option"
  um_extension_types :: "extension_type list option"

record mint_codec =
  mc_unpack :: "u8 list \<Rightarrow> unpacked_mint option"
  mc_native_mint :: pubkey
  mc_native_decimals :: u8
  mc_interest_bearing_len :: nat
  mc_scaled_ui_amount_len :: nat

definition is_token_program :: "pubkey \<Rightarrow> bool" where
  "is_token_program program \<longleftrightarrow> program = TOKEN_PROGRAM_ID \<or> program = TOKEN_2022_PROGRAM_ID"

definition mint_configs_of :: "u8 list option \<Rightarrow> u8 list option \<Rightarrow> mint_configs option" where
  "mint_configs_of interest_bearing scaled_ui_amount =
     (if interest_bearing \<noteq> None \<or> scaled_ui_amount \<noteq> None
      then Some \<lparr>mg_interest_bearing = interest_bearing, mg_scaled_ui_amount = scaled_ui_amount\<rparr> else None)"

definition from_mint :: "mint_codec \<Rightarrow> pubkey \<Rightarrow> u8 list \<Rightarrow> mint_state option" where
  "from_mint codec pubkey data =
     (if pubkey = mc_native_mint codec
      then Some \<lparr>ms_decimals = mc_native_decimals codec, ms_configs = None, ms_immutable = True\<rparr>
      else map_option (\<lambda>mint.
             \<lparr>ms_decimals = um_decimals mint,
              ms_configs = mint_configs_of (um_interest_bearing mint) (um_scaled_ui_amount mint),
              ms_immutable = (case um_extension_types mint of
                None \<Rightarrow> False
              | Some types \<Rightarrow>
                  \<not> list_ex (\<lambda>t. t = MintCloseAuthority \<or> t = InterestBearingConfig \<or> t = ScaledUiAmount) types)\<rparr>)
           (mc_unpack codec data))"

definition classify :: "pubkey \<Rightarrow> mint_state \<Rightarrow> mint_state" where
  "classify owner state = state \<lparr>ms_immutable := ms_immutable state \<and> is_token_program owner\<rparr>"

datatype mint_change = Live mint_state | Closed

definition parse_change :: "mint_codec \<Rightarrow> pubkey \<Rightarrow> pubkey \<Rightarrow> u64 \<Rightarrow> u8 list \<Rightarrow> mint_change option" where
  "parse_change codec pubkey owner lamports data =
     (if lamports = 0 then Some Closed
      else if \<not> is_token_program owner then None
      else map_option (\<lambda>state. Live (classify owner state)) (from_mint codec pubkey data))"

section \<open>The store\<close>

record mutable_mint =
  mu_slot :: u64
  mu_state :: mint_state

datatype change_kind = Create | Update | Close | Reinit

datatype stored_mint = Immutable u8 | Mutable mutable_mint | Tombstone u64 | Missing

record mint_store =
  st_immutable :: "(pubkey, u8) fmap"
  st_mutable :: "(pubkey, mutable_mint) fmap"
  st_tombstones :: "(pubkey, u64) fmap"

definition new_mint_store :: mint_store where
  "new_mint_store = \<lparr>st_immutable = fmempty, st_mutable = fmempty, st_tombstones = fmempty\<rparr>"

definition mint_get :: "mint_store \<Rightarrow> pubkey \<Rightarrow> stored_mint" where
  "mint_get store pubkey =
     (case fmlookup (st_mutable store) pubkey of
        Some entry \<Rightarrow> Mutable entry
      | None \<Rightarrow>
          (case fmlookup (st_tombstones store) pubkey of
             Some slot \<Rightarrow> Tombstone slot
           | None \<Rightarrow>
               (case fmlookup (st_immutable store) pubkey of
                  Some decimals \<Rightarrow> Immutable decimals
                | None \<Rightarrow> Missing)))"

definition immutable_state :: "u8 \<Rightarrow> mint_state" where
  "immutable_state decimals = \<lparr>ms_decimals = decimals, ms_configs = None, ms_immutable = True\<rparr>"

record mint_row =
  mw_pubkey :: pubkey
  mw_slot :: u64
  mw_state :: "mint_state option"

definition mint_row_of :: "mint_store \<Rightarrow> pubkey \<Rightarrow> u64 \<Rightarrow> mint_row option" where
  "mint_row_of store pubkey slot =
     (case mint_get store pubkey of
        Immutable decimals \<Rightarrow> Some \<lparr>mw_pubkey = pubkey, mw_slot = slot, mw_state = Some (immutable_state decimals)\<rparr>
      | Mutable entry \<Rightarrow> Some \<lparr>mw_pubkey = pubkey, mw_slot = mu_slot entry, mw_state = Some (mu_state entry)\<rparr>
      | Tombstone slot \<Rightarrow> Some \<lparr>mw_pubkey = pubkey, mw_slot = slot, mw_state = None\<rparr>
      | Missing \<Rightarrow> None)"

definition live_kind :: "u64 \<Rightarrow> mint_state \<Rightarrow> u64 option \<Rightarrow> mutable_mint option \<Rightarrow> change_kind option" where
  "live_kind slot state tombstone entry =
     (case (tombstone, entry) of
        (Some closed, _) \<Rightarrow> if slot < closed then None else Some Reinit
      | (None, Some entry) \<Rightarrow> if slot < mu_slot entry \<or> mu_state entry = state then None else Some Update
      | (None, None) \<Rightarrow> Some Create)"

definition apply_live :: "pubkey \<Rightarrow> u64 \<Rightarrow> mint_state \<Rightarrow> mint_store \<Rightarrow> mint_store \<times> change_kind option" where
  "apply_live pubkey slot state store =
     (if fmlookup (st_immutable store) pubkey \<noteq> None then (store, None)
      else case live_kind slot state (fmlookup (st_tombstones store) pubkey) (fmlookup (st_mutable store) pubkey) of
             None \<Rightarrow> (store, None)
           | Some kind \<Rightarrow>
               let store = store \<lparr>st_tombstones := fmdrop pubkey (st_tombstones store)\<rparr>
               in (if ms_immutable state
                   then store \<lparr>st_mutable := fmdrop pubkey (st_mutable store),
                               st_immutable := fmupd pubkey (ms_decimals state) (st_immutable store)\<rparr>
                   else store \<lparr>st_mutable := fmupd pubkey \<lparr>mu_slot = slot, mu_state = state\<rparr> (st_mutable store)\<rparr>,
                   Some kind))"

definition close_mint :: "pubkey \<Rightarrow> u64 \<Rightarrow> bool \<Rightarrow> mint_store \<Rightarrow> mint_store \<times> change_kind option" where
  "close_mint pubkey slot known_only store =
     (if fmlookup (st_immutable store) pubkey \<noteq> None \<or> fmlookup (st_tombstones store) pubkey \<noteq> None
      then (store, None)
      else if (case fmlookup (st_mutable store) pubkey of
                 Some entry \<Rightarrow> slot < mu_slot entry | None \<Rightarrow> known_only) then (store, None)
      else (store \<lparr>st_mutable := fmdrop pubkey (st_mutable store),
                   st_tombstones := fmupd pubkey slot (st_tombstones store)\<rparr>, Some Close))"

definition store_apply :: "pubkey \<Rightarrow> u64 \<Rightarrow> mint_change \<Rightarrow> mint_store \<Rightarrow> mint_store \<times> change_kind option" where
  "store_apply pubkey slot change store =
     (case change of
        Live state \<Rightarrow> apply_live pubkey slot state store
      | Closed \<Rightarrow> close_mint pubkey slot True store)"

definition apply_row :: "pubkey \<Rightarrow> u64 \<Rightarrow> mint_state option \<Rightarrow> mint_store \<Rightarrow> mint_store \<times> change_kind option" where
  "apply_row pubkey slot state store =
     (case state of
        Some state \<Rightarrow> apply_live pubkey slot state store
      | None \<Rightarrow> close_mint pubkey slot False store)"

section \<open>The table\<close>

definition UPSERT_CHUNK :: nat where "UPSERT_CHUNK = 50000"

text \<open>The columns of a row: \<open>Columns::of\<close> and \<open>from_pg_row\<close>. \<open>decimals\<close> is an \<open>int2\<close>, \<open>slot\<close> an \<open>int8\<close>.\<close>

record mint_columns =
  co_pubkey :: "u8 list"
  co_slot :: int
  co_decimals :: "int option"
  co_mutable :: bool
  co_closed :: bool
  co_interest_bearing :: "u8 list option"
  co_scaled_ui_amount :: "u8 list option"

definition row_mutable :: "mint_row \<Rightarrow> bool" where
  "row_mutable row = (case mw_state row of None \<Rightarrow> True | Some state \<Rightarrow> \<not> ms_immutable state)"

definition row_configs :: "mint_row \<Rightarrow> u8 list option \<times> u8 list option" where
  "row_configs row =
     (let configs = Option.bind (mw_state row) ms_configs
      in (Option.bind configs mg_interest_bearing, Option.bind configs mg_scaled_ui_amount))"

definition columns_of :: "mint_row \<Rightarrow> mint_columns" where
  "columns_of row =
     \<lparr>co_pubkey = to_bytes (mw_pubkey row), co_slot = sint (mw_slot row),
      co_decimals = map_option (\<lambda>s. uint (ms_decimals s)) (mw_state row), co_mutable = row_mutable row,
      co_closed = (mw_state row = None), co_interest_bearing = fst (row_configs row),
      co_scaled_ui_amount = snd (row_configs row)\<rparr>"

text \<open>\<open>try_pod_read_unaligned\<close> succeeds exactly on the size of the type.\<close>

definition pod_read :: "nat \<Rightarrow> u8 list option \<Rightarrow> u8 list option" where
  "pod_read len bytes = Option.bind bytes (\<lambda>b. if length b = len then Some b else None)"

definition from_pg_row :: "mint_codec \<Rightarrow> mint_columns \<Rightarrow> mint_row option" where
  "from_pg_row codec c =
     map_option (\<lambda>pubkey.
         \<lparr>mw_pubkey = pubkey, mw_slot = word_of_int (co_slot c),
          mw_state = (case co_decimals c of
            Some decimals \<Rightarrow>
              if co_closed c then None
              else Some \<lparr>ms_decimals = word_of_int decimals,
                         ms_configs = mint_configs_of
                           (pod_read (mc_interest_bearing_len codec) (co_interest_bearing c))
                           (pod_read (mc_scaled_ui_amount_len codec) (co_scaled_ui_amount c)),
                         ms_immutable = (\<not> co_mutable c)\<rparr>
          | None \<Rightarrow> None)\<rparr>)
       (try_from (co_pubkey c))"

text \<open>The table by key, and one row of the guarded upsert: a row never overwrites a newer one.\<close>

type_synonym mints_table = "(u8 list, mint_columns) fmap"

definition upsert_row :: "mint_row \<Rightarrow> mints_table \<Rightarrow> mints_table" where
  "upsert_row row table =
     (let c = columns_of row
      in case fmlookup table (co_pubkey c) of
           None \<Rightarrow> fmupd (co_pubkey c) c table
         | Some old \<Rightarrow> if co_slot old \<le> co_slot c then fmupd (co_pubkey c) c table else table)"

text \<open>\<open>upsert_rows\<close>: the outcome of each chunk is given; a statement that failed or timed out may have
  landed all the same, and it ends the loop.\<close>

datatype chunk_outcome = Landed | NotLanded bool

fun upsert_chunks :: "chunk_outcome list \<Rightarrow> mint_row list list \<Rightarrow> mints_table \<Rightarrow> mints_table \<times> bool" where
  "upsert_chunks outcomes [] table = (table, True)"
| "upsert_chunks [] (chunk # rest) table = (table, False)"
| "upsert_chunks (Landed # outcomes) (chunk # rest) table = upsert_chunks outcomes rest (fold upsert_row chunk table)"
| "upsert_chunks (NotLanded landed # outcomes) (chunk # rest) table =
     (if landed then fold upsert_row chunk table else table, False)"

definition upsert_rows :: "chunk_outcome list \<Rightarrow> mint_row list \<Rightarrow> mints_table \<Rightarrow> mints_table \<times> bool" where
  "upsert_rows outcomes rows = upsert_chunks outcomes (chunks UPSERT_CHUNK rows)"

text \<open>The two reads of the API. A row that does not decode fails the read.\<close>

definition LOAD_PAGE :: nat where "LOAD_PAGE = 100000"

definition table_rows :: "mints_table \<Rightarrow> mint_columns list" where
  "table_rows table = map snd (fm_entries table)"

definition read_after :: "mint_codec \<Rightarrow> u64 \<Rightarrow> mints_table \<Rightarrow> mint_row list option" where
  "read_after codec slot table = those (map (from_pg_row codec) (filter (\<lambda>c. sint slot < co_slot c) (table_rows table)))"

definition rows_above :: "u8 list \<Rightarrow> mints_table \<Rightarrow> mint_columns list" where
  "rows_above after table = sort_key co_pubkey (filter (\<lambda>c. after < co_pubkey c) (table_rows table))"

definition read_page :: "mint_codec \<Rightarrow> pubkey \<Rightarrow> mints_table \<Rightarrow> mint_row list option" where
  "read_page codec after table = those (map (from_pg_row codec) (take LOAD_PAGE (rows_above (to_bytes after) table)))"

section \<open>One map\<close>

text \<open>The three maps are disjoint, and together they are one map: what a write makes of a key only depends
  on what the store holds for it.\<close>

definition maps_disjoint :: "mint_store \<Rightarrow> bool" where
  "maps_disjoint store \<longleftrightarrow> (\<forall>k.
     (fmlookup (st_immutable store) k \<noteq> None \<longrightarrow>
        fmlookup (st_mutable store) k = None \<and> fmlookup (st_tombstones store) k = None) \<and>
     (fmlookup (st_mutable store) k \<noteq> None \<longrightarrow> fmlookup (st_tombstones store) k = None))"

fun live_step :: "u64 \<Rightarrow> mint_state \<Rightarrow> stored_mint \<Rightarrow> stored_mint" where
  "live_step slot state (Immutable d) = Immutable d"
| "live_step slot state (Tombstone closed) =
     (if slot < closed then Tombstone closed
      else if ms_immutable state then Immutable (ms_decimals state)
      else Mutable \<lparr>mu_slot = slot, mu_state = state\<rparr>)"
| "live_step slot state (Mutable entry) =
     (if slot < mu_slot entry \<or> mu_state entry = state then Mutable entry
      else if ms_immutable state then Immutable (ms_decimals state)
      else Mutable \<lparr>mu_slot = slot, mu_state = state\<rparr>)"
| "live_step slot state Missing =
     (if ms_immutable state then Immutable (ms_decimals state)
      else Mutable \<lparr>mu_slot = slot, mu_state = state\<rparr>)"

fun close_step :: "bool \<Rightarrow> u64 \<Rightarrow> stored_mint \<Rightarrow> stored_mint" where
  "close_step known_only slot (Mutable entry) = (if slot < mu_slot entry then Mutable entry else Tombstone slot)"
| "close_step known_only slot Missing = (if known_only then Missing else Tombstone slot)"
| "close_step known_only slot m = m"

definition mint_step :: "u64 \<times> mint_change \<Rightarrow> stored_mint \<Rightarrow> stored_mint" where
  "mint_step = (\<lambda>(slot, change) m. case change of Live state \<Rightarrow> live_step slot state m | Closed \<Rightarrow> close_step True slot m)"

lemma maps_disjoint_new [simp]: "maps_disjoint new_mint_store"
  by (simp add: maps_disjoint_def new_mint_store_def)

lemma mint_get_new [simp]: "mint_get new_mint_store k = Missing"
  by (simp add: mint_get_def new_mint_store_def)

lemma apply_live_step:
  assumes "maps_disjoint store"
  shows "maps_disjoint (fst (apply_live k slot state store)) \<and>
    mint_get (fst (apply_live k slot state store)) k' =
      (if k' = k then live_step slot state (mint_get store k) else mint_get store k')"
  using assms
  by (cases "fmlookup (st_immutable store) k"; cases "fmlookup (st_mutable store) k";
      cases "fmlookup (st_tombstones store) k")
    (auto simp: maps_disjoint_def apply_live_def live_kind_def mint_get_def Let_def split: option.splits)

lemma close_mint_step:
  assumes "maps_disjoint store"
  shows "maps_disjoint (fst (close_mint k slot known_only store)) \<and>
    mint_get (fst (close_mint k slot known_only store)) k' =
      (if k' = k then close_step known_only slot (mint_get store k) else mint_get store k')"
  using assms
  by (cases "fmlookup (st_immutable store) k"; cases "fmlookup (st_mutable store) k";
      cases "fmlookup (st_tombstones store) k")
    (auto simp: maps_disjoint_def close_mint_def mint_get_def split: option.splits)

text \<open>
  The interface of a store that keeps one value per key: a write changes the value of its own key, by a
  function of that value. A client that applies a log of writes may look at one key and the writes of
  that key alone.
\<close>

locale keyed_store =
  fixes invar :: "'s \<Rightarrow> bool" and lookup :: "'s \<Rightarrow> 'k \<Rightarrow> 'v"
    and put :: "'k \<Rightarrow> 'w \<Rightarrow> 's \<Rightarrow> 's" and upd :: "'w \<Rightarrow> 'v \<Rightarrow> 'v"
  assumes invar_put: "invar s \<Longrightarrow> invar (put k w s)"
    and lookup_put: "invar s \<Longrightarrow> lookup (put k w s) k' = (if k' = k then upd w (lookup s k) else lookup s k')"
begin

lemma invar_log: "invar s \<Longrightarrow> invar (fold (\<lambda>(k, w). put k w) log s)"
  by (induction log arbitrary: s) (auto intro: invar_put)

lemma lookup_log:
  "invar s \<Longrightarrow> lookup (fold (\<lambda>(k, w). put k w) log s) k =
     fold upd (map snd (filter (\<lambda>(k', _). k' = k) log)) (lookup s k)"
proof (induction log arbitrary: s)
  case (Cons e log)
  obtain k' w where e: "e = (k', w)" by fastforce
  have "lookup (fold (\<lambda>(k, w). put k w) log (put k' w s)) k =
      fold upd (map snd (filter (\<lambda>(k', _). k' = k) log)) (lookup (put k' w s) k)"
    by (rule Cons.IH) (rule invar_put [OF Cons.prems])
  then show ?case using Cons.prems by (auto simp: e lookup_put)
qed simp

end

definition put_change :: "pubkey \<Rightarrow> u64 \<times> mint_change \<Rightarrow> mint_store \<Rightarrow> mint_store" where
  "put_change k = (\<lambda>(slot, change) store. fst (store_apply k slot change store))"

interpretation mints: keyed_store maps_disjoint mint_get put_change mint_step
proof
  fix s k k' and w :: "u64 \<times> mint_change"
  assume inv: "maps_disjoint s"
  obtain slot change where w: "w = (slot, change)" by fastforce
  have "maps_disjoint (put_change k w s) \<and>
      mint_get (put_change k w s) k' = (if k' = k then mint_step w (mint_get s k) else mint_get s k')"
    using apply_live_step [OF inv] close_mint_step [OF inv]
    by (cases change) (simp_all add: w put_change_def store_apply_def mint_step_def)
  then show "maps_disjoint (put_change k w s)"
    "mint_get (put_change k w s) k' = (if k' = k then mint_step w (mint_get s k) else mint_get s k')" by blast+
qed

section \<open>The store is the newest write\<close>

text \<open>The writes of one key, and the mint they leave at a slot: that of the last write at or below it.\<close>

definition change_state :: "mint_change \<Rightarrow> mint_state option" where
  "change_state change = (case change of Live state \<Rightarrow> Some state | Closed \<Rightarrow> None)"

definition mint_at :: "u64 \<Rightarrow> (u64 \<times> mint_change) list \<Rightarrow> mint_state option" where
  "mint_at slot writes =
     (case rev (filter (\<lambda>(s, _). s \<le> slot) writes) of [] \<Rightarrow> None | (_, change) # _ \<Rightarrow> change_state change)"

text \<open>What the token programs guarantee of an immutable mint: it is never closed or changed.\<close>

fun immutable_stays :: "(u64 \<times> mint_change) list \<Rightarrow> bool" where
  "immutable_stays [] \<longleftrightarrow> True"
| "immutable_stays ((slot, change) # writes) \<longleftrightarrow>
     (case change of
        Live state \<Rightarrow> ms_immutable state \<longrightarrow> list_all (\<lambda>(_, later). later = change) writes
      | Closed \<Rightarrow> True) \<and> immutable_stays writes"

definition sound_change :: "mint_change \<Rightarrow> bool" where
  "sound_change change \<longleftrightarrow> (case change of Live state \<Rightarrow> ms_immutable state \<longrightarrow> ms_configs state = None | Closed \<Rightarrow> True)"

definition writes_ok :: "(u64 \<times> mint_change) list \<Rightarrow> bool" where
  "writes_ok writes \<longleftrightarrow> sorted (map fst writes) \<and> list_all (\<lambda>(_, change). sound_change change) writes \<and> immutable_stays writes"

definition of_key :: "pubkey \<Rightarrow> (pubkey \<times> u64 \<times> mint_change) list \<Rightarrow> (u64 \<times> mint_change) list" where
  "of_key k log = map snd (filter (\<lambda>(k', _). k' = k) log)"

text \<open>What is stored for a key, against its writes.\<close>

definition stands_at :: "(u64 \<times> mint_change) list \<Rightarrow> stored_mint \<Rightarrow> bool" where
  "stands_at writes m \<longleftrightarrow>
     (case m of
        Missing \<Rightarrow> (\<forall>r. mint_at r writes = None)
      | Tombstone slot \<Rightarrow> slot \<in> fst ` set writes \<and> (\<forall>r \<ge> slot. mint_at r writes = None)
      | Mutable entry \<Rightarrow> mu_slot entry \<in> fst ` set writes \<and> (\<forall>r \<ge> mu_slot entry. mint_at r writes = Some (mu_state entry))
      | Immutable d \<Rightarrow> (\<exists>slot. (slot, Live (immutable_state d)) \<in> set writes \<and>
          (\<forall>r \<ge> slot. mint_at r writes = Some (immutable_state d))))"

lemma mint_at_snoc:
  "mint_at r (writes @ [(slot, change)]) = (if slot \<le> r then change_state change else mint_at r writes)"
  by (simp add: mint_at_def)

lemma mint_at_Nil [simp]: "mint_at r [] = None"
  by (simp add: mint_at_def)

lemma immutable_stays_snoc:
  "immutable_stays (writes @ [w]) \<longleftrightarrow> immutable_stays writes \<and>
     (\<forall>slot state. (slot, Live state) \<in> set writes \<longrightarrow> ms_immutable state \<longrightarrow> snd w = Live state)"
  by (induction writes rule: immutable_stays.induct) (cases w; auto simp: list_all_iff split: mint_change.splits)+

lemma immutable_state_eq:
  "ms_immutable state \<Longrightarrow> ms_configs state = None \<Longrightarrow> immutable_state (ms_decimals state) = state"
  by (simp add: immutable_state_def)

lemma stands_at_write:
  assumes m: "stands_at writes m" and newer: "\<And>s. s \<in> fst ` set writes \<Longrightarrow> s \<le> slot"
    and sound: "sound_change change"
    and stays: "\<And>s state. (s, Live state) \<in> set writes \<Longrightarrow> ms_immutable state \<Longrightarrow> change = Live state"
  shows "stands_at (writes @ [(slot, change)]) (mint_step (slot, change) m)"
proof (cases m)
  case (Immutable d)
  then obtain s where s: "(s, Live (immutable_state d)) \<in> set writes" "\<forall>r \<ge> s. mint_at r writes = Some (immutable_state d)"
    using m by (auto simp: stands_at_def)
  then have "change = Live (immutable_state d)" using stays by (simp add: immutable_state_def)
  with s Immutable show ?thesis
    by (auto simp: stands_at_def mint_step_def mint_at_snoc change_state_def intro!: exI [of _ s])
next
  case (Mutable entry)
  then have "mu_slot entry \<le> slot" using m newer by (simp add: stands_at_def)
  with Mutable m sound show ?thesis
    by (cases change) (auto simp: stands_at_def mint_step_def mint_at_snoc change_state_def sound_change_def
        immutable_state_eq not_less intro!: exI [of _ slot])
next
  case (Tombstone closed)
  then have "closed \<le> slot" using m newer by (simp add: stands_at_def)
  with Tombstone m sound show ?thesis
    by (cases change) (auto simp: stands_at_def mint_step_def mint_at_snoc change_state_def sound_change_def
        immutable_state_eq not_less intro!: exI [of _ slot])
next
  case Missing
  with m sound show ?thesis
    by (cases change) (auto simp: stands_at_def mint_step_def mint_at_snoc change_state_def sound_change_def
        immutable_state_eq intro!: exI [of _ slot])
qed

lemma stands_at_log: "writes_ok writes \<Longrightarrow> stands_at writes (fold mint_step writes Missing)"
proof (induction writes rule: rev_induct)
  case (snoc w writes)
  obtain slot change where w: "w = (slot, change)" by fastforce
  have "stands_at writes (fold mint_step writes Missing)"
    using snoc by (simp add: writes_ok_def sorted_append immutable_stays_snoc)
  moreover have "s \<le> slot" if "s \<in> fst ` set writes" for s
    using snoc.prems that by (auto simp: writes_ok_def sorted_append w)
  ultimately show ?case
    using snoc.prems by (auto simp: w writes_ok_def immutable_stays_snoc intro!: stands_at_write)
qed (simp add: stands_at_def)

text \<open>The columns of a row read back as the row, as long as stored configs have the size of their type.\<close>

lemma from_pg_row_columns:
  assumes "\<And>state configs. mw_state row = Some state \<Longrightarrow> ms_configs state = Some configs \<Longrightarrow>
      (mg_interest_bearing configs \<noteq> None \<or> mg_scaled_ui_amount configs \<noteq> None) \<and>
      pred_option (\<lambda>b. length b = mc_interest_bearing_len codec) (mg_interest_bearing configs) \<and>
      pred_option (\<lambda>b. length b = mc_scaled_ui_amount_len codec) (mg_scaled_ui_amount configs)"
  shows "from_pg_row codec (columns_of row) = Some row"
proof (cases "mw_state row")
  case None
  then show ?thesis by (cases row) (simp add: from_pg_row_def columns_of_def)
next
  case (Some state)
  then obtain pubkey slot decimals configs im
    where row: "row = \<lparr>mw_pubkey = pubkey, mw_slot = slot,
      mw_state = Some \<lparr>ms_decimals = decimals, ms_configs = configs, ms_immutable = im\<rparr>\<rparr>"
    by (cases row; cases state) simp
  have "mint_configs_of (pod_read (mc_interest_bearing_len codec) (fst (row_configs row)))
      (pod_read (mc_scaled_ui_amount_len codec) (snd (row_configs row))) = configs"
  proof (cases configs)
    case (Some c)
    obtain ib su where c: "c = \<lparr>mg_interest_bearing = ib, mg_scaled_ui_amount = su\<rparr>" by (cases c)
    have "(ib \<noteq> None \<or> su \<noteq> None) \<and> pred_option (\<lambda>b. length b = mc_interest_bearing_len codec) ib \<and>
        pred_option (\<lambda>b. length b = mc_scaled_ui_amount_len codec) su"
      using assms [of _ c] by (simp add: row Some c)
    then show ?thesis
      by (cases ib; cases su) (auto simp: row row_configs_def Some c mint_configs_of_def pod_read_def)
  qed (simp add: row row_configs_def mint_configs_of_def pod_read_def)
  then show ?thesis by (simp add: row from_pg_row_def columns_of_def row_mutable_def)
qed

section \<open>Properties\<close>

definition wit_mint :: "u8 \<Rightarrow> mint_state" where
  "wit_mint decimals = \<lparr>ms_decimals = decimals, ms_configs = None, ms_immutable = False\<rparr>"

text \<open>A repaired write can overtake a newer one. A write that repeats the stored state does not move
  the entry's slot, so when a mint is A at slot 10, B at 11 and A again at 12, and slot 11 is repaired
  after 12 was applied, the store ends with B although the write at 12 is newer.\<close>

theorem late_mint_write_overtakes:
  "let log = [(pk 1, 10, Live (wit_mint 6)), (pk 1, 12, Live (wit_mint 6)), (pk 1, 11, Live (wit_mint 7))]
   in mint_get (fold (\<lambda>(k, w). put_change k w) log new_mint_store) (pk 1) = Mutable \<lparr>mu_slot = 11, mu_state = wit_mint 7\<rparr>
      \<and> mint_at 12 (sort_key fst (of_key (pk 1) log)) = Some (wit_mint 6)"
  by (simp add: put_change_def store_apply_def apply_live_def live_kind_def mint_get_def new_mint_store_def wit_mint_def
      of_key_def mint_at_def change_state_def)

end
