(* ===== verification/Mint_Indexer.thy ===== *)
theory Mint_Indexer
  imports Mint_Store
begin

text \<open>
  The indexer half of the mint cache (\<open>mint_cache/indexer.rs\<close>): every mint in memory, the keys that wait for
  the \<open>mints\<close> table, the background write, and the end of the bootstrap. A write runs in its own task: its
  start and its end are two operations, and the outcome of its statements is an argument. The last-block
  counters of the debug endpoint are left out.
\<close>

record mint_indexer =
  mi_store :: mint_store
  mi_closed_pending :: "(pubkey, u64) fmap option"
  mi_pending_to_db :: "(pubkey, u64) fmap"
  mi_last_slot :: u64
  mi_lowest_gap :: "u64 option"
  mi_last_db_slot :: "u64 option"
  mi_db_write_running :: bool
  mi_interval :: u64

definition mint_indexer_from_config :: "(bool \<times> u64) option \<Rightarrow> mint_indexer option" where
  "mint_indexer_from_config config =
     (case config of
        Some (True, interval) \<Rightarrow>
          Some \<lparr>mi_store = new_mint_store, mi_closed_pending = Some fmempty, mi_pending_to_db = fmempty,
                mi_last_slot = 0, mi_lowest_gap = None, mi_last_db_slot = None, mi_db_write_running = False,
                mi_interval = interval\<rparr>
      | _ \<Rightarrow> None)"

definition raise_slot :: "pubkey \<Rightarrow> u64 \<Rightarrow> (pubkey, u64) fmap \<Rightarrow> (pubkey, u64) fmap" where
  "raise_slot pubkey slot m = fmupd pubkey (case fmlookup m pubkey of None \<Rightarrow> slot | Some p \<Rightarrow> max p slot) m"

definition mark_pending :: "pubkey \<Rightarrow> u64 \<Rightarrow> mint_indexer \<Rightarrow> mint_indexer" where
  "mark_pending pubkey slot mi = mi \<lparr>mi_pending_to_db := raise_slot pubkey slot (mi_pending_to_db mi)\<rparr>"

definition apply_stored :: "pubkey \<Rightarrow> u64 \<Rightarrow> mint_change \<Rightarrow> mint_indexer \<Rightarrow> mint_indexer \<times> change_kind option" where
  "apply_stored pubkey slot change mi =
     (case store_apply pubkey slot change (mi_store mi) of
        (store, None) \<Rightarrow> (mi \<lparr>mi_store := store\<rparr>, None)
      | (store, Some kind) \<Rightarrow> (mark_pending pubkey slot (mi \<lparr>mi_store := store\<rparr>), Some kind))"

definition mi_apply :: "pubkey \<Rightarrow> u64 \<Rightarrow> mint_change \<Rightarrow> mint_indexer \<Rightarrow> mint_indexer \<times> change_kind option" where
  "mi_apply pubkey slot change mi =
     (case (change, mi_closed_pending mi) of
        (Closed, Some closed_pending) \<Rightarrow>
          if mint_get (mi_store mi) pubkey = Missing
          then (mi \<lparr>mi_closed_pending := Some (raise_slot pubkey slot closed_pending)\<rparr>, None)
          else apply_stored pubkey slot change mi
      | _ \<Rightarrow> apply_stored pubkey slot change mi)"

definition take_pending_rows :: "mint_indexer \<Rightarrow> mint_indexer \<times> mint_row list" where
  "take_pending_rows mi =
     (mi \<lparr>mi_pending_to_db := fmempty\<rparr>,
      List.map_filter (\<lambda>(pubkey, slot). mint_row_of (mi_store mi) pubkey slot) (fm_entries (mi_pending_to_db mi)))"

definition complete_through :: "mint_indexer \<Rightarrow> u64" where
  "complete_through mi =
     (case mi_lowest_gap mi of
        Some gap \<Rightarrow> min (mi_last_slot mi) (saturating_sub gap 1)
      | None \<Rightarrow> mi_last_slot mi)"

text \<open>A write that was started: its rows and the \<open>last_db_slot\<close> to set once they are written.\<close>

type_synonym mint_write = "mint_row list \<times> u64 option"

definition start_write :: "u64 option \<Rightarrow> mint_indexer \<Rightarrow> mint_indexer \<times> mint_write" where
  "start_write new_last_db_slot mi =
     (let (mi, rows) = take_pending_rows (mi \<lparr>mi_db_write_running := True\<rparr>)
      in (mi, rows, new_last_db_slot))"

definition start_write_if_needed :: "mint_indexer \<Rightarrow> mint_indexer \<times> mint_write option" where
  "start_write_if_needed mi =
     (if mi_db_write_running mi then (mi, None)
      else case mi_last_db_slot mi of
             None \<Rightarrow>
               if UPSERT_CHUNK \<le> fm_size (mi_pending_to_db mi)
               then apsnd Some (start_write None mi) else (mi, None)
           | Some last_db_slot \<Rightarrow>
               if last_db_slot + mi_interval mi \<le> complete_through mi
               then apsnd Some (start_write (Some (complete_through mi)) mi) else (mi, None))"

definition on_snapshot_account ::
  "mint_codec \<Rightarrow> u64 \<Rightarrow> pubkey \<Rightarrow> pubkey \<Rightarrow> u64 \<Rightarrow> u8 list \<Rightarrow> mint_indexer \<Rightarrow> mint_indexer \<times> mint_write option" where
  "on_snapshot_account codec slot pubkey owner lamports data mi =
     (case parse_change codec pubkey owner lamports data of
        None \<Rightarrow> (mi, None)
      | Some change \<Rightarrow>
          start_write_if_needed
            (fst (mi_apply pubkey slot change (mi \<lparr>mi_last_slot := max (mi_last_slot mi) slot\<rparr>))))"

definition block_change :: "mint_codec \<Rightarrow> grpc_account \<Rightarrow> (pubkey \<times> mint_change) option" where
  "block_change codec account =
     (case (try_from (ga_pubkey account), try_from (ga_owner account)) of
        (Some pubkey, Some owner) \<Rightarrow>
          map_option (Pair pubkey) (parse_change codec pubkey owner (ga_lamports account) (ga_data account))
      | _ \<Rightarrow> None)"

definition apply_changes :: "u64 \<Rightarrow> (pubkey \<times> mint_change) list \<Rightarrow> mint_indexer \<Rightarrow> mint_indexer" where
  "apply_changes slot = fold (\<lambda>(pubkey, change) mi. fst (mi_apply pubkey slot change mi))"

definition mint_on_block ::
  "mint_codec \<Rightarrow> u64 \<Rightarrow> grpc_account list \<Rightarrow> u64 option \<Rightarrow> mint_indexer \<Rightarrow> mint_indexer \<times> mint_write option" where
  "mint_on_block codec slot accounts lowest_gap mi =
     start_write_if_needed (apply_changes slot (List.map_filter (block_change codec) accounts)
       (mi \<lparr>mi_lowest_gap := lowest_gap, mi_last_slot := max (mi_last_slot mi) slot\<rparr>))"

text \<open>The table and the saved slot of \<open>environment_info\<close>, and \<open>write\<close> over them.\<close>

record mints_db =
  md_table :: mints_table
  md_saved_slot :: "int option"

definition write_mints ::
  "chunk_outcome list \<Rightarrow> chunk_outcome \<Rightarrow> mint_write \<Rightarrow> mints_db \<Rightarrow> mints_db \<times> bool" where
  "write_mints outcomes slot_outcome = (\<lambda>(rows, new_last_db_slot) db.
     (case upsert_rows outcomes rows (md_table db) of
        (table, False) \<Rightarrow> (db \<lparr>md_table := table\<rparr>, False)
      | (table, True) \<Rightarrow>
          (case new_last_db_slot of
             None \<Rightarrow> (db \<lparr>md_table := table\<rparr>, True)
           | Some slot \<Rightarrow>
               (db \<lparr>md_table := table,
                    md_saved_slot := (if slot_outcome = NotLanded False then md_saved_slot db else Some (sint slot))\<rparr>,
                slot_outcome = Landed))))"

text \<open>The end of the background task.\<close>

definition write_done :: "bool \<Rightarrow> mint_write \<Rightarrow> mint_indexer \<Rightarrow> mint_indexer" where
  "write_done ok = (\<lambda>(rows, new_last_db_slot) mi.
     (let mi = mi \<lparr>mi_db_write_running := False\<rparr>
      in if ok then (if new_last_db_slot \<noteq> None then mi \<lparr>mi_last_db_slot := new_last_db_slot\<rparr> else mi)
         else fold (\<lambda>row. mark_pending (mw_pubkey row) (mw_slot row)) rows mi))"

text \<open>\<open>finish_bootstrap\<close> after its wait for a running write: the waiting closes and the take, then its own
  write, which \<open>write_done True\<close> ends. An error of that write ends the indexer.\<close>

definition mint_finish_bootstrap :: "mint_indexer \<Rightarrow> mint_indexer \<times> mint_write" where
  "mint_finish_bootstrap mi =
     (let closes = (case mi_closed_pending mi of None \<Rightarrow> [] | Some m \<Rightarrow> fm_entries m);
          mi = fold (\<lambda>(pubkey, slot) mi. fst (mi_apply pubkey slot Closed mi)) closes (mi \<lparr>mi_closed_pending := None\<rparr>)
      in start_write (Some (complete_through mi)) mi)"

section \<open>The table follows the store\<close>

text \<open>A running indexer: at most one write is in flight.\<close>

record mint_system =
  my_indexer :: mint_indexer
  my_db :: mints_db
  my_write :: "mint_write option"

datatype mint_event =
    On_Block u64 "grpc_account list" "u64 option"
  | On_Snapshot u64 pubkey pubkey u64 "u8 list"
  | Write_End "chunk_outcome list" chunk_outcome
  | Finish_Bootstrap

definition started :: "mint_system \<Rightarrow> mint_indexer \<times> mint_write option \<Rightarrow> mint_system" where
  "started y = (\<lambda>(mi, w). y \<lparr>my_indexer := mi, my_write := (case w of None \<Rightarrow> my_write y | Some w \<Rightarrow> Some w)\<rparr>)"

fun mint_system_step :: "mint_codec \<Rightarrow> mint_event \<Rightarrow> mint_system \<Rightarrow> mint_system" where
  "mint_system_step codec (On_Block slot accounts gap) y = started y (mint_on_block codec slot accounts gap (my_indexer y))"
| "mint_system_step codec (On_Snapshot slot key owner lamports data) y =
     started y (on_snapshot_account codec slot key owner lamports data (my_indexer y))"
| "mint_system_step codec (Write_End outcomes slot_outcome) y =
     (case my_write y of
        None \<Rightarrow> y
      | Some w \<Rightarrow>
          let (db, ok) = write_mints outcomes slot_outcome w (my_db y)
          in \<lparr>my_indexer = write_done ok w (my_indexer y), my_db = db, my_write = None\<rparr>)"
| "mint_system_step codec Finish_Bootstrap y =
     (if mi_db_write_running (my_indexer y) then y
      else started y (apsnd Some (mint_finish_bootstrap (my_indexer y))))"

definition mint_system_init :: "u64 \<Rightarrow> mint_system" where
  "mint_system_init interval =
     \<lparr>my_indexer = the (mint_indexer_from_config (Some (True, interval))),
      my_db = \<lparr>md_table = fmempty, md_saved_slot = None\<rparr>, my_write = None\<rparr>"

text \<open>The rows in flight, the current row of a key, and what the table and the rows in flight may hold of it.\<close>

definition in_flight :: "mint_system \<Rightarrow> mint_row list" where
  "in_flight y = (case my_write y of None \<Rightarrow> [] | Some (rows, _) \<Rightarrow> rows)"

definition small_slot :: "u64 \<Rightarrow> bool" where
  "small_slot slot \<longleftrightarrow> uint slot < 2 ^ 63"

lemma small_slot_mono: "small_slot b \<Longrightarrow> a \<le> b \<Longrightarrow> sint a \<le> sint b"
  by (simp add: small_slot_def sint_mono)

definition current_row :: "mint_store \<Rightarrow> mint_row \<Rightarrow> bool" where
  "current_row store row \<longleftrightarrow> mint_row_of store (mw_pubkey row) (mw_slot row) = Some row \<and> small_slot (mw_slot row)"

definition table_upto :: "mints_table \<Rightarrow> pubkey \<Rightarrow> u64 \<Rightarrow> bool" where
  "table_upto table k slot \<longleftrightarrow> (\<forall>c. fmlookup table (to_bytes k) = Some c \<longrightarrow> co_slot c \<le> sint slot)"

definition flight_upto :: "mint_row list \<Rightarrow> pubkey \<Rightarrow> u64 \<Rightarrow> bool" where
  "flight_upto rows k slot \<longleftrightarrow> (\<forall>row \<in> set rows. mw_pubkey row = k \<longrightarrow> mw_slot row \<le> slot)"

definition key_synced :: "mint_store \<Rightarrow> (pubkey, u64) fmap \<Rightarrow> mints_table \<Rightarrow> mint_row list \<Rightarrow> pubkey \<Rightarrow> bool" where
  "key_synced store pending table rows k \<longleftrightarrow>
     (if mint_get store k = Missing
      then fmlookup pending k = None \<and> fmlookup table (to_bytes k) = None \<and> k \<notin> mw_pubkey ` set rows
      else case fmlookup pending k of
             Some p \<Rightarrow> (\<exists>row. mint_row_of store k p = Some row \<and> current_row store row \<and>
               table_upto table k (mw_slot row) \<and> flight_upto rows k (mw_slot row))
           | None \<Rightarrow> (\<exists>row. mw_pubkey row = k \<and> current_row store row \<and>
               (row \<in> set rows \<and> table_upto table k (mw_slot row) \<or>
                k \<notin> mw_pubkey ` set rows \<and> fmlookup table (to_bytes k) = Some (columns_of row))))"

subsection \<open>Rows\<close>

lemma mint_row_of_key: "mint_row_of store k p = Some row \<Longrightarrow> mw_pubkey row = k"
  by (auto simp: mint_row_of_def split: stored_mint.splits)

lemma mint_row_of_again: "mint_row_of store k p = Some row \<Longrightarrow> mint_row_of store k (mw_slot row) = Some row"
  by (auto simp: mint_row_of_def split: stored_mint.splits)

lemma mint_row_of_raise:
  "mint_row_of store k p = Some row \<Longrightarrow> p \<le> q \<Longrightarrow>
     \<exists>row'. mint_row_of store k q = Some row' \<and> mw_slot row \<le> mw_slot row' \<and> (mw_slot row' = mw_slot row \<or> mw_slot row' = q)"
  by (auto simp: mint_row_of_def split: stored_mint.splits)

lemma mint_row_of_Missing: "mint_row_of store k p = None \<longleftrightarrow> mint_get store k = Missing"
  by (auto simp: mint_row_of_def split: stored_mint.splits)

lemma columns_of_pubkey [simp]: "co_pubkey (columns_of row) = to_bytes (mw_pubkey row)"
  and columns_of_slot [simp]: "co_slot (columns_of row) = sint (mw_slot row)"
  by (simp_all add: columns_of_def)

lemma upsert_row_lookup:
  "fmlookup (upsert_row row table) (to_bytes k) =
     (if mw_pubkey row = k \<and> table_upto table k (mw_slot row) then Some (columns_of row)
      else fmlookup table (to_bytes k))"
  by (auto simp: upsert_row_def Let_def table_upto_def to_bytes_inject split: option.splits)

lemma upsert_fold_lookup:
  assumes "distinct (map mw_pubkey rows)"
  shows "fmlookup (fold upsert_row rows table) (to_bytes k) =
    (case find (\<lambda>row. mw_pubkey row = k \<and> table_upto table k (mw_slot row)) rows of
       Some row \<Rightarrow> Some (columns_of row) | None \<Rightarrow> fmlookup table (to_bytes k))"
  using assms
proof (induction rows arbitrary: table)
  case (Cons row rows)
  have upto: "table_upto (upsert_row row table) k = table_upto table k" if "mw_pubkey row \<noteq> k"
    using that by (simp add: table_upto_def upsert_row_lookup fun_eq_iff)
  show ?case
  proof (cases "mw_pubkey row = k")
    case True
    then have "mw_pubkey r \<noteq> k" if "r \<in> set rows" for r
      using Cons.prems that by (auto simp: image_iff)
    then have "find (\<lambda>row. mw_pubkey row = k \<and> table_upto table' k (mw_slot row)) rows = None" for table'
      by (auto simp: find_None_iff)
    then show ?thesis using True Cons by (simp add: upsert_row_lookup)
  next
    case False
    then have same: "fmlookup (upsert_row row table) (to_bytes k) = fmlookup table (to_bytes k)"
      by (simp add: upsert_row_lookup)
    have "fmlookup (fold upsert_row rows (upsert_row row table)) (to_bytes k) =
        (case find (\<lambda>row. mw_pubkey row = k \<and> table_upto table k (mw_slot row)) rows of
           Some row \<Rightarrow> Some (columns_of row) | None \<Rightarrow> fmlookup table (to_bytes k))"
      using Cons.IH [of "upsert_row row table"] Cons.prems by (simp add: upto [OF False] same split: option.split)
    then show ?thesis using False by simp
  qed
qed simp

text \<open>Whatever the outcomes are, a prefix of the rows has landed, and all of them on success.\<close>

lemma upsert_chunks_prefix:
  assumes "upsert_chunks outcomes cs table = (table', ok)"
  shows "\<exists>m. table' = fold upsert_row (concat (take m cs)) table \<and> (ok \<longrightarrow> concat (take m cs) = concat cs)"
  using assms
proof (induction outcomes cs table rule: upsert_chunks.induct)
  case (3 outcomes chunk rest table)
  then obtain m where "table' = fold upsert_row (concat (take m rest)) (fold upsert_row chunk table)"
    "ok \<longrightarrow> concat (take m rest) = concat rest" by auto
  then show ?case by (intro exI [of _ "Suc m"]) simp
next
  case (4 landed outcomes chunk rest table)
  then show ?case by (intro exI [of _ "if landed then 1 else 0"]) auto
qed (auto intro: exI [of _ 0])

lemma upsert_rows_prefix:
  assumes "upsert_rows outcomes rows table = (table', ok)"
  obtains landed rest where "rows = landed @ rest" and "table' = fold upsert_row landed table" and "ok \<longrightarrow> landed = rows"
proof -
  obtain m where m: "table' = fold upsert_row (concat (take m (chunks UPSERT_CHUNK rows))) table"
    "ok \<longrightarrow> concat (take m (chunks UPSERT_CHUNK rows)) = concat (chunks UPSERT_CHUNK rows)"
    using upsert_chunks_prefix [OF assms [unfolded upsert_rows_def]] by blast
  have all: "concat (chunks UPSERT_CHUNK rows) = rows" by (simp add: UPSERT_CHUNK_def)
  have "concat (take m (chunks UPSERT_CHUNK rows)) @ concat (drop m (chunks UPSERT_CHUNK rows)) = rows"
    by (metis all append_take_drop_id concat_append)
  with m all show thesis
    by (intro that [of "concat (take m (chunks UPSERT_CHUNK rows))" "concat (drop m (chunks UPSERT_CHUNK rows))"]) auto
qed

lemma landed_upto:
  assumes "distinct (map mw_pubkey rows)" and "table_upto table k slot" and "flight_upto rows k slot"
    and "small_slot slot"
  shows "table_upto (fold upsert_row rows table) k slot"
  using assms(2-4) unfolding table_upto_def [of "fold upsert_row rows table"] upsert_fold_lookup [OF assms(1)]
  by (auto simp: flight_upto_def table_upto_def find_Some_iff small_slot_mono split: option.splits)

lemma landed_row:
  assumes "distinct (map mw_pubkey rows)" and "row \<in> set rows" and "table_upto table (mw_pubkey row) (mw_slot row)"
  shows "fmlookup (fold upsert_row rows table) (to_bytes (mw_pubkey row)) = Some (columns_of row)"
proof -
  have "\<exists>r. find (\<lambda>r. mw_pubkey r = mw_pubkey row \<and> table_upto table (mw_pubkey row) (mw_slot r)) rows = Some r"
    using assms(2,3) by (metis (mono_tags, lifting) find_None_iff not_Some_eq)
  then obtain r where r: "find (\<lambda>r. mw_pubkey r = mw_pubkey row \<and> table_upto table (mw_pubkey row) (mw_slot r)) rows = Some r"
    by blast
  then have "mw_pubkey r = mw_pubkey row" "r \<in> set rows" by (auto simp: find_Some_iff)
  then have "r = row" using assms(1,2) by (metis distinct_map inj_onD)
  with r show ?thesis by (simp add: upsert_fold_lookup [OF assms(1)])
qed

lemma landed_other:
  "distinct (map mw_pubkey rows) \<Longrightarrow> k \<notin> mw_pubkey ` set rows \<Longrightarrow>
     fmlookup (fold upsert_row rows table) (to_bytes k) = fmlookup table (to_bytes k)"
  by (auto simp: upsert_fold_lookup find_Some_iff split: option.splits)

subsection \<open>Steps\<close>

text \<open>An accepted write of a key is at or above what the key held, and queues it.\<close>

lemma applied_row:
  assumes "maps_disjoint store" and "store_apply k slot change store = (store', Some kind)"
  shows "\<exists>row. mint_row_of store' k p = Some row \<and> (mw_slot row = slot \<or> mw_slot row = p)
    \<and> (\<forall>q row'. mint_row_of store k q = Some row' \<longrightarrow> mw_slot row' \<le> slot)"
  using assms
  by (cases "fmlookup (st_immutable store) k"; cases "fmlookup (st_mutable store) k"; cases "fmlookup (st_tombstones store) k")
    (auto simp: store_apply_def apply_live_def close_mint_def live_kind_def mint_row_of_def mint_get_def maps_disjoint_def
      Let_def not_less split: mint_change.splits option.splits if_splits)

lemma store_apply_None: "store_apply k slot change store = (store', None) \<Longrightarrow> store' = store"
  by (auto simp: store_apply_def apply_live_def close_mint_def Let_def split: mint_change.splits option.splits if_splits)

lemma key_synced_other:
  assumes "mint_get store' k = mint_get store k" and "fmlookup pending' k = fmlookup pending k"
  shows "key_synced store' pending' table rows k = key_synced store pending table rows k"
proof -
  have row: "mint_row_of store' k = mint_row_of store k" using assms(1) by (simp add: mint_row_of_def fun_eq_iff)
  then have curr: "current_row store' row = current_row store row" if "mw_pubkey row = k" for row
    using that by (simp add: current_row_def)
  have "(\<exists>row. mint_row_of store k p = Some row \<and> current_row store' row \<and> P row) =
      (\<exists>row. mint_row_of store k p = Some row \<and> current_row store row \<and> P row)" for p P
    using curr mint_row_of_key by blast
  moreover have "(\<exists>row. mw_pubkey row = k \<and> current_row store' row \<and> P row) =
      (\<exists>row. mw_pubkey row = k \<and> current_row store row \<and> P row)" for P
    using curr by blast
  ultimately show ?thesis using assms by (simp add: key_synced_def row split: option.split)
qed

lemma key_synced_applied:
  assumes disj: "maps_disjoint store" and dist: "distinct (map mw_pubkey rows)" and app: "store_apply k slot change store = (store', Some kind)"
    and slot: "small_slot slot" and pend: "\<And>p. fmlookup pending k = Some p \<Longrightarrow> small_slot p"
    and k: "key_synced store pending table rows k"
  shows "key_synced store' (raise_slot k slot pending) table rows k"
proof -
  define p where "p = (case fmlookup pending k of None \<Rightarrow> slot | Some p \<Rightarrow> max p slot)"
  have p: "slot \<le> p" "small_slot p"
    using slot pend by (auto simp: p_def max_def split: option.splits)
  obtain row where row: "mint_row_of store' k p = Some row" "mw_slot row = slot \<or> mw_slot row = p"
    "\<And>q row'. mint_row_of store k q = Some row' \<Longrightarrow> mw_slot row' \<le> slot"
    using applied_row [OF disj app, of p] by blast
  have le: "slot \<le> mw_slot row" "small_slot (mw_slot row)" using row(2) p slot by auto
  have up: "table_upto table k (mw_slot row)" if "table_upto table k s" "s \<le> slot" for s
    using that le small_slot_mono [of "mw_slot row" s] by (fastforce simp: table_upto_def)
  have "table_upto table k (mw_slot row) \<and> flight_upto rows k (mw_slot row)"
  proof (cases "mint_get store k = Missing")
    case True
    then show ?thesis using k by (auto simp: key_synced_def table_upto_def flight_upto_def)
  next
    case False
    show ?thesis
    proof (cases "fmlookup pending k")
      case None
      then obtain r where r: "mw_pubkey r = k" "current_row store r"
        "r \<in> set rows \<and> table_upto table k (mw_slot r) \<or>
         k \<notin> mw_pubkey ` set rows \<and> fmlookup table (to_bytes k) = Some (columns_of r)"
        using k False by (auto simp: key_synced_def)
      have "mw_slot r \<le> slot" using row(3) r(1,2) by (auto simp: current_row_def)
      moreover from r(3) have "table_upto table k (mw_slot r) \<and> flight_upto rows k (mw_slot r)"
      proof
        assume f: "r \<in> set rows \<and> table_upto table k (mw_slot r)"
        then have "r' = r" if "r' \<in> set rows" "mw_pubkey r' = k" for r'
          using dist r(1) that by (metis distinct_map inj_onD)
        with f show ?thesis by (auto simp: flight_upto_def)
      qed (auto simp: table_upto_def flight_upto_def)
      ultimately show ?thesis using up le(1) by (auto simp: flight_upto_def intro: order_trans)
    next
      case (Some q)
      then obtain r where r: "mint_row_of store k q = Some r" "table_upto table k (mw_slot r)" "flight_upto rows k (mw_slot r)"
        using k False by (auto simp: key_synced_def)
      then have "mw_slot r \<le> slot" using row(3) by blast
      then show ?thesis using r up le(1) by (auto simp: flight_upto_def intro: order_trans)
    qed
  qed
  moreover have "current_row store' row"
    using row(1) le(2) mint_row_of_key mint_row_of_again by (auto simp: current_row_def)
  moreover have "mint_get store' k \<noteq> Missing" using row(1) mint_row_of_Missing by (metis option.distinct(1))
  ultimately show ?thesis using row(1) by (auto simp: key_synced_def raise_slot_def p_def [symmetric])
qed

text \<open>The invariant under the operations of the indexer, with the bound on the pending slots.\<close>

definition slots_small :: "mint_indexer \<Rightarrow> bool" where
  "slots_small mi \<longleftrightarrow> (\<forall>k p. fmlookup (mi_pending_to_db mi) k = Some p \<longrightarrow> small_slot p) \<and>
     (\<forall>m k p. mi_closed_pending mi = Some m \<longrightarrow> fmlookup m k = Some p \<longrightarrow> small_slot p)"

definition indexer_synced :: "mints_table \<Rightarrow> mint_row list \<Rightarrow> mint_indexer \<Rightarrow> bool" where
  "indexer_synced table rows mi \<longleftrightarrow> maps_disjoint (mi_store mi) \<and> slots_small mi \<and>
     (\<forall>k. key_synced (mi_store mi) (mi_pending_to_db mi) table rows k)"

lemma mi_apply_cases:
  obtains (stored) "mi_apply key slot change mi = apply_stored key slot change mi"
  | (waits) m where "mi_closed_pending mi = Some m"
      and "mi_apply key slot change mi = (mi \<lparr>mi_closed_pending := Some (raise_slot key slot m)\<rparr>, None)"
  by (cases change; cases "mi_closed_pending mi"; cases "mint_get (mi_store mi) key = Missing")
    (simp_all add: mi_apply_def)

lemma raise_slot_small:
  "small_slot slot \<Longrightarrow> (\<And>k p. fmlookup m k = Some p \<Longrightarrow> small_slot p) \<Longrightarrow>
     fmlookup (raise_slot key slot m) k = Some p \<Longrightarrow> small_slot p"
  by (auto simp: raise_slot_def max_def split: if_splits option.splits)

lemma raise_slot_other: "k \<noteq> key \<Longrightarrow> fmlookup (raise_slot key slot m) k = fmlookup m k"
  by (simp add: raise_slot_def)

lemma store_apply_changed:
  assumes inv: "indexer_synced table rows mi" and rows: "distinct (map mw_pubkey rows)"
    and slot: "small_slot slot" and app: "store_apply key slot change (mi_store mi) = (store, Some kind)"
  shows "indexer_synced table rows (mark_pending key slot (mi \<lparr>mi_store := store\<rparr>))"
proof -
  have disj: "maps_disjoint (mi_store mi)" and small: "slots_small mi"
    and keys: "\<And>k. key_synced (mi_store mi) (mi_pending_to_db mi) table rows k"
    using inv by (auto simp: indexer_synced_def)
  have store: "store = put_change key (slot, change) (mi_store mi)" using app by (simp add: put_change_def)
  have "key_synced store (raise_slot key slot (mi_pending_to_db mi)) table rows k" for k
  proof (cases "k = key")
    case True
    then show ?thesis
      using key_synced_applied [OF disj rows app slot _ keys] small by (auto simp: slots_small_def)
  next
    case False
    then show ?thesis
      using keys [of k] key_synced_other [of store k "mi_store mi"] mints.lookup_put [OF disj]
      by (simp add: store raise_slot_other)
  qed
  moreover have "maps_disjoint store" using mints.invar_put [OF disj] by (simp add: store)
  moreover have "slots_small (mark_pending key slot (mi \<lparr>mi_store := store\<rparr>))"
    using small slot by (auto simp: slots_small_def mark_pending_def intro: raise_slot_small)
  ultimately show ?thesis by (simp add: indexer_synced_def mark_pending_def)
qed

lemma mi_apply_synced:
  assumes inv: "indexer_synced table rows mi" and rows: "distinct (map mw_pubkey rows)" and slot: "small_slot slot"
  shows "indexer_synced table rows (fst (mi_apply key slot change mi))"
proof -
  have closes: "indexer_synced table rows (mi \<lparr>mi_closed_pending := Some (raise_slot key slot m)\<rparr>)"
    if "mi_closed_pending mi = Some m" for m
  proof -
    have "small_slot p" if "fmlookup (raise_slot key slot m) k = Some p" for k p
      by (rule raise_slot_small [OF slot _ that])
        (use inv \<open>mi_closed_pending mi = Some m\<close> in \<open>auto simp: indexer_synced_def slots_small_def\<close>)
    then show ?thesis using inv by (auto simp: indexer_synced_def slots_small_def)
  qed
  obtain store kind where app: "store_apply key slot change (mi_store mi) = (store, kind)" by fastforce
  have "indexer_synced table rows (fst (apply_stored key slot change mi))"
  proof (cases kind)
    case None
    then have "store = mi_store mi" using app store_apply_None by blast
    then show ?thesis using None inv by (simp add: apply_stored_def app)
  next
    case (Some x)
    then show ?thesis using store_apply_changed [OF inv rows slot] app by (simp add: apply_stored_def)
  qed
  then show ?thesis using closes by (cases rule: mi_apply_cases [of key slot change mi]) auto
qed

lemma apply_changes_synced:
  "indexer_synced table rows mi \<Longrightarrow> distinct (map mw_pubkey rows) \<Longrightarrow> small_slot slot \<Longrightarrow>
     indexer_synced table rows (apply_changes slot changes mi)"
  unfolding apply_changes_def
  by (induction changes arbitrary: mi) (auto intro: mi_apply_synced)

lemma closes_synced:
  assumes "indexer_synced table rows mi" and "distinct (map mw_pubkey rows)"
    and "\<And>key slot. (key, slot) \<in> set closes \<Longrightarrow> small_slot slot"
  shows "indexer_synced table rows (fold (\<lambda>(key, slot) mi. fst (mi_apply key slot Closed mi)) closes mi)"
  using assms(1,3)
proof (induction closes arbitrary: mi)
  case (Cons e closes)
  obtain key slot where e: "e = (key, slot)" by fastforce
  have "indexer_synced table rows (fst (mi_apply key slot Closed mi))"
    by (rule mi_apply_synced [OF Cons.prems(1) assms(2)]) (use Cons.prems(2) e in auto)
  with Cons.IH [OF this] Cons.prems(2) e show ?case by auto
qed simp

lemma mi_apply_frame:
  "mi_db_write_running (fst (mi_apply key slot change mi)) = mi_db_write_running mi"
  "mi_lowest_gap (fst (mi_apply key slot change mi)) = mi_lowest_gap mi"
  "mi_last_slot (fst (mi_apply key slot change mi)) = mi_last_slot mi"
  "mi_last_db_slot (fst (mi_apply key slot change mi)) = mi_last_db_slot mi"
  by (cases rule: mi_apply_cases [of key slot change mi];
      auto simp: apply_stored_def mark_pending_def split: option.splits prod.splits)+

lemma mi_apply_interval: "mi_interval (fst (mi_apply key slot change mi)) = mi_interval mi"
  by (cases rule: mi_apply_cases [of key slot change mi])
    (auto simp: apply_stored_def mark_pending_def split: option.splits prod.splits)

lemma apply_changes_frame:
  "mi_db_write_running (apply_changes slot changes mi) = mi_db_write_running mi"
  unfolding apply_changes_def by (induction changes arbitrary: mi) (simp_all add: mi_apply_frame split_beta)

lemma start_write_synced:
  assumes inv: "indexer_synced table [] mi" and start: "start_write new mi = (mi', rows, new')"
  shows "indexer_synced table rows mi' \<and> distinct (map mw_pubkey rows) \<and> mi_db_write_running mi' \<and> new' = new"
proof -
  let ?p = "mi_pending_to_db mi" and ?store = "mi_store mi"
  have mi': "mi' = mi \<lparr>mi_db_write_running := True, mi_pending_to_db := fmempty\<rparr>" "new' = new"
    and rows: "rows = List.map_filter (\<lambda>(k, slot). mint_row_of ?store k slot) (fm_entries ?p)"
    using start by (simp_all add: start_write_def take_pending_rows_def)
  have in_rows: "row \<in> set rows \<longleftrightarrow> (\<exists>slot. fmlookup ?p (mw_pubkey row) = Some slot \<and> mint_row_of ?store (mw_pubkey row) slot = Some row)"
    for row
  proof -
    have "row \<in> set rows \<longleftrightarrow> (\<exists>k slot. fmlookup ?p k = Some slot \<and> mint_row_of ?store k slot = Some row)"
      unfolding rows in_set_map_filter by (simp add: split_beta Bex_def)
    then show ?thesis using mint_row_of_key by blast
  qed
  have "distinct (map mw_pubkey rows)"
  proof -
    have keys: "map mw_pubkey (List.map_filter (\<lambda>(k, slot). mint_row_of ?store k slot) es) =
        map fst (filter (\<lambda>(k, slot). mint_row_of ?store k slot \<noteq> None) es)" for es
      by (induction es) (auto simp: map_filter_simps mint_row_of_key split: option.splits)
    show ?thesis unfolding rows keys by (rule distinct_map_filter) simp
  qed
  moreover have "key_synced ?store fmempty table rows k" for k
  proof -
    have k: "key_synced ?store ?p table [] k" using inv by (simp add: indexer_synced_def)
    show ?thesis
    proof (cases "fmlookup ?p k")
      case None
      then have "k \<notin> mw_pubkey ` set rows" by (auto simp: in_rows)
      then show ?thesis using k None by (auto simp: key_synced_def)
    next
      case (Some p)
      then obtain row where row: "mint_row_of ?store k p = Some row" "current_row ?store row" "table_upto table k (mw_slot row)"
        using k by (auto simp: key_synced_def split: if_splits)
      then have "mw_pubkey row = k" "row \<in> set rows" using Some mint_row_of_key by (auto simp: in_rows)
      moreover have "mint_get ?store k \<noteq> Missing" using row(1) mint_row_of_Missing by (metis option.distinct(1))
      ultimately show ?thesis using row(2,3) by (auto simp: key_synced_def)
    qed
  qed
  ultimately show ?thesis
    using inv mi' by (auto simp: indexer_synced_def slots_small_def)
qed

lemma raise_slot_same:
  "fmlookup (raise_slot key slot m) key = Some (case fmlookup m key of None \<Rightarrow> slot | Some p \<Rightarrow> max p slot)"
  by (simp add: raise_slot_def)

lemma mark_all_other:
  "k \<notin> mw_pubkey ` set rows \<Longrightarrow>
     fmlookup (fold (\<lambda>row. raise_slot (mw_pubkey row) (mw_slot row)) rows pending) k = fmlookup pending k"
  by (induction rows arbitrary: pending) (simp_all add: raise_slot_other)

lemma mark_all_lookup:
  assumes "distinct (map mw_pubkey rows)" and "row \<in> set rows"
  shows "fmlookup (fold (\<lambda>row. raise_slot (mw_pubkey row) (mw_slot row)) rows pending) (mw_pubkey row) =
    Some (case fmlookup pending (mw_pubkey row) of None \<Rightarrow> mw_slot row | Some p \<Rightarrow> max p (mw_slot row))"
  using assms
proof (induction rows arbitrary: pending)
  case (Cons r rows)
  show ?case
  proof (cases "r = row")
    case True
    then have "mw_pubkey row \<notin> mw_pubkey ` set rows" using Cons.prems(1) by simp
    from mark_all_other [OF this] show ?thesis using True by (simp add: raise_slot_same)
  next
    case False
    then have "row \<in> set rows" using Cons.prems(2) by simp
    moreover have "mw_pubkey row \<noteq> mw_pubkey r"
      using Cons.prems(1) \<open>row \<in> set rows\<close> by (auto simp: image_iff)
    ultimately show ?thesis
      using Cons.IH [of "raise_slot (mw_pubkey r) (mw_slot r) pending"] Cons.prems(1) by (simp add: raise_slot_other)
  qed
qed simp

lemma mark_all:
  "fold (\<lambda>row. mark_pending (mw_pubkey row) (mw_slot row)) rows mi =
     mi \<lparr>mi_pending_to_db := fold (\<lambda>row. raise_slot (mw_pubkey row) (mw_slot row)) rows (mi_pending_to_db mi)\<rparr>"
  by (induction rows arbitrary: mi) (simp_all add: mark_pending_def)

lemma flight_prefix: "flight_upto (landed @ rest) k slot \<Longrightarrow> flight_upto landed k slot"
  by (simp add: flight_upto_def)

lemma key_synced_landed:
  assumes k: "key_synced store pending table rows k" and dist: "distinct (map mw_pubkey rows)"
  shows "key_synced store pending (fold upsert_row rows table) [] k"
proof (cases "mint_get store k = Missing")
  case True
  then show ?thesis using k landed_other [OF dist] by (simp add: key_synced_def)
next
  case False
  show ?thesis
  proof (cases "fmlookup pending k")
    case None
    then obtain row where row: "mw_pubkey row = k" "current_row store row"
      "row \<in> set rows \<and> table_upto table k (mw_slot row) \<or>
       k \<notin> mw_pubkey ` set rows \<and> fmlookup table (to_bytes k) = Some (columns_of row)"
      using k False by (auto simp: key_synced_def)
    then have "fmlookup (fold upsert_row rows table) (to_bytes k) = Some (columns_of row)"
      using landed_row [OF dist, of row] landed_other [OF dist, of k] by auto
    then show ?thesis using row(1,2) None False by (auto simp: key_synced_def)
  next
    case (Some p)
    then obtain row where "mint_row_of store k p = Some row" "current_row store row"
      "table_upto table k (mw_slot row)" "flight_upto rows k (mw_slot row)"
      using k False by (auto simp: key_synced_def)
    moreover from this have "table_upto (fold upsert_row rows table) k (mw_slot row)"
      by (intro landed_upto [OF dist]) (auto simp: current_row_def)
    ultimately show ?thesis using Some False by (auto simp: key_synced_def flight_upto_def)
  qed
qed

lemma key_synced_failed:
  assumes k: "key_synced store pending table rows k" and dist: "distinct (map mw_pubkey rows)"
    and small: "\<And>p. fmlookup pending k = Some p \<Longrightarrow> small_slot p" and rows: "rows = landed @ rest"
  shows "key_synced store (fold (\<lambda>row. raise_slot (mw_pubkey row) (mw_slot row)) rows pending) (fold upsert_row landed table) [] k
    \<and> (\<forall>p. fmlookup (fold (\<lambda>row. raise_slot (mw_pubkey row) (mw_slot row)) rows pending) k = Some p \<longrightarrow> small_slot p)"
proof (cases "k \<in> mw_pubkey ` set rows")
  case False
  then have other: "fmlookup (fold upsert_row landed table) (to_bytes k) = fmlookup table (to_bytes k)"
    using dist by (intro landed_other) (auto simp: rows)
  then have "table_upto (fold upsert_row landed table) k = table_upto table k" by (simp add: table_upto_def fun_eq_iff)
  then show ?thesis
    using k False other small
    by (auto simp: key_synced_def mark_all_other flight_upto_def split: option.splits if_splits)
next
  case True
  then obtain row where row: "row \<in> set rows" "mw_pubkey row = k" by blast
  have stored: "mint_get store k \<noteq> Missing" using k True by (auto simp: key_synced_def)
  have dl: "distinct (map mw_pubkey landed)" using dist by (simp add: rows)
  define q where "q = (case fmlookup pending k of None \<Rightarrow> mw_slot row | Some p \<Rightarrow> max p (mw_slot row))"
  have "\<exists>r. mint_row_of store k q = Some r \<and> small_slot (mw_slot r) \<and> small_slot q \<and>
      table_upto table k (mw_slot r) \<and> flight_upto rows k (mw_slot r)"
  proof (cases "fmlookup pending k")
    case None
    then obtain r where r: "mw_pubkey r = k" "current_row store r" "r \<in> set rows" "table_upto table k (mw_slot r)"
      using k stored True by (auto simp: key_synced_def)
    then have same: "x = r" if "x \<in> set rows" "mw_pubkey x = k" for x using dist that by (metis distinct_map inj_onD)
    then have "flight_upto rows k (mw_slot r)" by (auto simp: flight_upto_def)
    moreover have "row = r" by (rule same [OF row])
    then have "q = mw_slot r" by (simp add: q_def None)
    ultimately show ?thesis using r(1,2,4) by (intro exI [of _ r]) (simp add: current_row_def)
  next
    case (Some p)
    then obtain r where r: "mint_row_of store k p = Some r" "current_row store r" "table_upto table k (mw_slot r)"
      "flight_upto rows k (mw_slot r)" using k stored by (auto simp: key_synced_def)
    then have "mw_slot row \<le> mw_slot r" "small_slot (mw_slot r)" using row by (auto simp: flight_upto_def current_row_def)
    then have sr: "small_slot (mw_slot row)" by (auto simp: small_slot_def word_le_def)
    have q: "p \<le> q" "small_slot q" using small [OF Some] sr by (auto simp: q_def Some max_def)
    obtain r' where r': "mint_row_of store k q = Some r'" "mw_slot r \<le> mw_slot r'" "mw_slot r' = mw_slot r \<or> mw_slot r' = q"
      using mint_row_of_raise [OF r(1) q(1)] by blast
    have "small_slot (mw_slot r')" using r'(3) q(2) \<open>small_slot (mw_slot r)\<close> by auto
    moreover have "table_upto table k (mw_slot r')"
      using r(3) r'(2) small_slot_mono [OF \<open>small_slot (mw_slot r')\<close>] by (fastforce simp: table_upto_def)
    moreover have "flight_upto rows k (mw_slot r')" using r(4) r'(2) by (auto simp: flight_upto_def intro: order_trans)
    ultimately show ?thesis using r'(1) q(2) by blast
  qed
  then obtain r where r: "mint_row_of store k q = Some r" "small_slot (mw_slot r)" "small_slot q"
    "table_upto table k (mw_slot r)" "flight_upto rows k (mw_slot r)" by blast
  then have "table_upto (fold upsert_row landed table) k (mw_slot r)"
    using flight_prefix [of landed rest] by (intro landed_upto [OF dl]) (simp_all add: rows)
  moreover have "current_row store r"
    using r(1,2) mint_row_of_key mint_row_of_again by (auto simp: current_row_def)
  moreover have "fmlookup (fold (\<lambda>row. raise_slot (mw_pubkey row) (mw_slot row)) rows pending) k = Some q"
    using mark_all_lookup [OF dist row(1), of pending] by (simp add: row(2) q_def)
  ultimately show ?thesis using r stored by (auto simp: key_synced_def flight_upto_def)
qed

lemma write_done_synced:
  assumes inv: "indexer_synced table rows mi" and dist: "distinct (map mw_pubkey rows)"
    and rows: "rows = landed @ rest" and ok: "ok \<longrightarrow> landed = rows"
  shows "indexer_synced (fold upsert_row landed table) [] (write_done ok (rows, new) mi)"
proof (cases ok)
  case True
  then have "key_synced (mi_store mi) (mi_pending_to_db mi) (fold upsert_row landed table) [] k" for k
    using inv ok key_synced_landed [OF _ dist] by (simp add: indexer_synced_def)
  then show ?thesis using inv True by (auto simp: indexer_synced_def write_done_def slots_small_def Let_def)
next
  case False
  have "key_synced (mi_store mi) (fold (\<lambda>row. raise_slot (mw_pubkey row) (mw_slot row)) rows (mi_pending_to_db mi))
        (fold upsert_row landed table) [] k
      \<and> (\<forall>p. fmlookup (fold (\<lambda>row. raise_slot (mw_pubkey row) (mw_slot row)) rows (mi_pending_to_db mi)) k = Some p
          \<longrightarrow> small_slot p)" for k
    using inv by (intro key_synced_failed [OF _ dist _ rows]) (auto simp: indexer_synced_def slots_small_def)
  then show ?thesis using inv False by (simp add: indexer_synced_def write_done_def slots_small_def mark_all Let_def)
qed

lemma write_done_running: "\<not> mi_db_write_running (write_done ok w mi)"
  by (cases w) (simp add: write_done_def mark_all Let_def)

lemma write_mints_table:
  assumes "write_mints outcomes slot_outcome (rows, new) db = (db', ok)"
  obtains landed rest where "rows = landed @ rest" and "md_table db' = fold upsert_row landed (md_table db)"
    and "ok \<longrightarrow> landed = rows"
proof -
  obtain table ok1 where u: "upsert_rows outcomes rows (md_table db) = (table, ok1)" by fastforce
  obtain landed rest where l: "rows = landed @ rest" "table = fold upsert_row landed (md_table db)" "ok1 \<longrightarrow> landed = rows"
    using upsert_rows_prefix [OF u] by blast
  have "md_table db' = table" "ok \<longrightarrow> ok1"
    using assms u by (auto simp: write_mints_def split: bool.splits option.splits)
  with l show thesis by (intro that [of landed rest]) auto
qed

lemma start_if_needed_synced:
  assumes inv: "indexer_synced table rows mi" and idle: "\<not> mi_db_write_running mi \<Longrightarrow> rows = []"
    and start: "start_write_if_needed mi = (mi', w)"
  shows "case w of
      None \<Rightarrow> indexer_synced table rows mi' \<and> mi_db_write_running mi' = mi_db_write_running mi
    | Some (rows', _) \<Rightarrow> indexer_synced table rows' mi' \<and> distinct (map mw_pubkey rows') \<and> mi_db_write_running mi'
        \<and> \<not> mi_db_write_running mi"
proof (cases w)
  case None
  then have "mi' = mi"
    using start by (auto simp: start_write_if_needed_def apsnd_def map_prod_def split: option.splits if_splits prod.splits)
  then show ?thesis using None inv by simp
next
  case (Some job)
  then obtain new where idle': "\<not> mi_db_write_running mi" and s: "start_write new mi = (mi', job)"
    using start by (auto simp: start_write_if_needed_def apsnd_def map_prod_def split: option.splits if_splits prod.splits)
  then show ?thesis
    using start_write_synced [of table mi new mi' "fst job" "snd job"] inv idle Some by (auto split: prod.splits)
qed

definition mint_synced :: "mint_system \<Rightarrow> bool" where
  "mint_synced y \<longleftrightarrow> indexer_synced (md_table (my_db y)) (in_flight y) (my_indexer y) \<and>
     distinct (map mw_pubkey (in_flight y)) \<and> (mi_db_write_running (my_indexer y) \<longleftrightarrow> my_write y \<noteq> None)"

fun event_ok :: "mint_event \<Rightarrow> bool" where
  "event_ok (On_Block slot _ _) \<longleftrightarrow> small_slot slot"
| "event_ok (On_Snapshot slot _ _ _ _) \<longleftrightarrow> small_slot slot"
| "event_ok _ \<longleftrightarrow> True"

lemma mint_synced_started:
  assumes y: "mint_synced y" and mi: "indexer_synced (md_table (my_db y)) (in_flight y) mi"
    and run: "mi_db_write_running mi = mi_db_write_running (my_indexer y)"
  shows "mint_synced (started y (start_write_if_needed mi))"
proof -
  obtain mi' w where s: "start_write_if_needed mi = (mi', w)" by fastforce
  have "in_flight y = []" if "\<not> mi_db_write_running mi"
    using y that run by (auto simp: mint_synced_def in_flight_def split: option.splits)
  from start_if_needed_synced [OF mi this s] show ?thesis
    using y run by (cases w) (auto simp: s started_def mint_synced_def in_flight_def)
qed

lemma mint_synced_step:
  assumes y: "mint_synced y" and e: "event_ok e"
  shows "mint_synced (mint_system_step codec e y)"
proof (cases e)
  case (On_Block slot accounts gap)
  let ?mi = "my_indexer y \<lparr>mi_lowest_gap := gap, mi_last_slot := max (mi_last_slot (my_indexer y)) slot\<rparr>"
  have "indexer_synced (md_table (my_db y)) (in_flight y) ?mi"
    using y by (simp add: mint_synced_def indexer_synced_def slots_small_def)
  then have "indexer_synced (md_table (my_db y)) (in_flight y) (apply_changes slot (List.map_filter (block_change codec) accounts) ?mi)"
    using y e On_Block by (intro apply_changes_synced) (auto simp: mint_synced_def)
  from mint_synced_started [OF y this] show ?thesis by (simp add: On_Block mint_on_block_def apply_changes_frame)
next
  case (On_Snapshot slot key owner lamports data)
  let ?mi = "my_indexer y \<lparr>mi_last_slot := max (mi_last_slot (my_indexer y)) slot\<rparr>"
  show ?thesis
  proof (cases "parse_change codec key owner lamports data")
    case None
    then show ?thesis using y by (simp add: On_Snapshot on_snapshot_account_def started_def)
  next
    case (Some change)
    have "indexer_synced (md_table (my_db y)) (in_flight y) ?mi"
      using y by (simp add: mint_synced_def indexer_synced_def slots_small_def)
    then have "indexer_synced (md_table (my_db y)) (in_flight y) (fst (mi_apply key slot change ?mi))"
      using y e On_Snapshot by (intro mi_apply_synced) (auto simp: mint_synced_def)
    from mint_synced_started [OF y this] show ?thesis by (simp add: On_Snapshot on_snapshot_account_def Some mi_apply_frame)
  qed
next
  case (Write_End outcomes slot_outcome)
  show ?thesis
  proof (cases "my_write y")
    case (Some w)
    obtain rows new where w: "w = (rows, new)" by fastforce
    obtain db ok where wr: "write_mints outcomes slot_outcome w (my_db y) = (db, ok)" by fastforce
    have "in_flight y = rows" by (simp add: in_flight_def Some w)
    then have inv: "indexer_synced (md_table (my_db y)) rows (my_indexer y)" "distinct (map mw_pubkey rows)"
      using y by (auto simp: mint_synced_def)
    obtain landed rest where "rows = landed @ rest" "md_table db = fold upsert_row landed (md_table (my_db y))" "ok \<longrightarrow> landed = rows"
      using write_mints_table [OF wr [unfolded w]] by blast
    then show ?thesis
      using write_done_synced [OF inv, of landed rest ok new] write_done_running [of ok w] wr
      by (simp add: Write_End Some w mint_synced_def in_flight_def)
  qed (use y Write_End in simp)
next
  case Finish_Bootstrap
  show ?thesis
  proof (cases "mi_db_write_running (my_indexer y)")
    case False
    let ?closes = "case mi_closed_pending (my_indexer y) of None \<Rightarrow> [] | Some m \<Rightarrow> fm_entries m"
    define mi where "mi = fold (\<lambda>(key, slot) mi. fst (mi_apply key slot Closed mi)) ?closes (my_indexer y \<lparr>mi_closed_pending := None\<rparr>)"
    have no: "in_flight y = []" using y False by (cases "my_write y") (simp_all add: mint_synced_def in_flight_def)
    have inv: "indexer_synced (md_table (my_db y)) [] (my_indexer y)" using y no by (simp add: mint_synced_def)
    have "indexer_synced (md_table (my_db y)) [] mi"
      unfolding mi_def
    proof (rule closes_synced)
      show "indexer_synced (md_table (my_db y)) [] (my_indexer y \<lparr>mi_closed_pending := None\<rparr>)"
        using inv by (simp add: indexer_synced_def slots_small_def)
      show "small_slot slot" if "(key, slot) \<in> set ?closes" for key slot
        using inv that by (cases "mi_closed_pending (my_indexer y)") (auto simp: indexer_synced_def slots_small_def)
    qed simp
    moreover obtain mi' rows new where s: "start_write (Some (complete_through mi)) mi = (mi', rows, new)"
      by (cases "start_write (Some (complete_through mi)) mi") auto
    ultimately have "indexer_synced (md_table (my_db y)) rows mi'" "distinct (map mw_pubkey rows)" "mi_db_write_running mi'"
      using start_write_synced by blast+
    then show ?thesis
      using s by (simp add: Finish_Bootstrap False mint_finish_bootstrap_def Let_def mi_def [symmetric] started_def
          mint_synced_def in_flight_def)
  qed (use y Finish_Bootstrap in simp)
qed

lemma mint_synced_init: "mint_synced (mint_system_init interval)"
  by (simp add: mint_synced_def mint_system_init_def mint_indexer_from_config_def in_flight_def indexer_synced_def
      slots_small_def key_synced_def)

lemma mint_synced_run: "list_all event_ok events \<Longrightarrow> mint_synced (fold (mint_system_step codec) events (mint_system_init interval))"
proof (induction events rule: rev_induct)
  case (snoc e events)
  then show ?case by (simp add: mint_synced_step)
qed (simp add: mint_synced_init)

text \<open>The store of a running indexer is the result of a log of writes, and the rows of the table carry the key
  they are stored under.\<close>

definition store_logged :: "mint_store \<Rightarrow> bool" where
  "store_logged store \<longleftrightarrow> (\<exists>log. store = fold (\<lambda>(k, w). put_change k w) log new_mint_store)"

definition table_keyed :: "mints_table \<Rightarrow> bool" where
  "table_keyed table \<longleftrightarrow> (\<forall>b c. fmlookup table b = Some c \<longrightarrow> co_pubkey c = b \<and> length b = 32)"

lemma store_logged_put: "store_logged store \<Longrightarrow> store_logged (put_change k w store)"
proof -
  assume "store_logged store"
  then obtain log where "store = fold (\<lambda>(k, w). put_change k w) log new_mint_store" by (auto simp: store_logged_def)
  then have "put_change k w store = fold (\<lambda>(k, w). put_change k w) (log @ [(k, w)]) new_mint_store" by simp
  then show ?thesis unfolding store_logged_def by blast
qed

lemma store_logged_apply: "store_logged (mi_store mi) \<Longrightarrow> store_logged (mi_store (fst (mi_apply key slot change mi)))"
  by (cases rule: mi_apply_cases [of key slot change mi])
    (auto simp: apply_stored_def mark_pending_def dest: store_logged_put [of _ key "(slot, change)"]
      simp: put_change_def split: option.splits prod.splits)

lemma store_logged_fold:
  "store_logged (mi_store mi) \<Longrightarrow> store_logged (mi_store (fold (\<lambda>x mi. fst (mi_apply (f x) (g x) (h x) mi)) xs mi))"
  by (induction xs arbitrary: mi) (simp_all add: store_logged_apply)

lemma start_write_store: "mi_store (fst (start_write new mi)) = mi_store mi"
  by (simp add: start_write_def take_pending_rows_def)

lemma start_if_needed_store: "mi_store (fst (start_write_if_needed mi)) = mi_store mi"
  by (simp add: start_write_if_needed_def start_write_store split: option.split)

lemma write_done_store: "mi_store (write_done ok w mi) = mi_store mi"
  by (cases w) (simp add: write_done_def mark_all Let_def)

lemma table_keyed_upsert: "table_keyed table \<Longrightarrow> table_keyed (fold upsert_row rows table)"
proof (induction rows arbitrary: table)
  case (Cons row rows)
  have "table_keyed (upsert_row row table)"
    using Cons.prems by (auto simp: table_keyed_def upsert_row_def Let_def split: option.splits if_splits)
  then show ?case using Cons.IH by simp
qed simp

lemma logged_step:
  assumes "store_logged (mi_store (my_indexer y))" and "table_keyed (md_table (my_db y))"
  shows "store_logged (mi_store (my_indexer (mint_system_step codec e y)))
    \<and> table_keyed (md_table (my_db (mint_system_step codec e y)))"
proof (cases e)
  case (On_Block slot accounts gap)
  have "store_logged (mi_store (apply_changes slot cs mi))" if "store_logged (mi_store mi)" for cs mi
    using store_logged_fold [OF that, where f = fst and g = "\<lambda>_. slot" and h = snd]
    by (simp add: apply_changes_def case_prod_unfold)
  then show ?thesis
    using assms by (simp add: On_Block mint_on_block_def started_def split_beta start_if_needed_store)
next
  case (On_Snapshot slot key owner lamports data)
  then show ?thesis
    using assms by (cases "parse_change codec key owner lamports data")
      (simp_all add: on_snapshot_account_def started_def split_beta start_if_needed_store store_logged_apply)
next
  case (Write_End outcomes slot_outcome)
  show ?thesis
  proof (cases "my_write y")
    case (Some w)
    obtain rows new where w: "w = (rows, new)" by fastforce
    obtain db ok where wr: "write_mints outcomes slot_outcome w (my_db y) = (db, ok)" by fastforce
    obtain landed where "md_table db = fold upsert_row landed (md_table (my_db y))"
      using write_mints_table [OF wr [unfolded w]] by blast
    then show ?thesis using assms wr by (simp add: Write_End Some write_done_store table_keyed_upsert)
  qed (use assms Write_End in simp)
next
  case Finish_Bootstrap
  have "store_logged (mi_store (fold (\<lambda>(key, slot) mi. fst (mi_apply key slot Closed mi)) cs mi))" if "store_logged (mi_store mi)" for cs mi
    using store_logged_fold [OF that, where f = fst and g = snd and h = "\<lambda>_. Closed"] by (simp add: case_prod_unfold)
  then show ?thesis
    using assms by (simp add: Finish_Bootstrap mint_finish_bootstrap_def Let_def started_def split_beta start_write_store)
qed

lemma logged_run:
  "store_logged (mi_store (my_indexer (fold (mint_system_step codec) events (mint_system_init interval))))
   \<and> table_keyed (md_table (my_db (fold (mint_system_step codec) events (mint_system_init interval))))"
proof (induction events rule: rev_induct)
  case Nil
  have "store_logged new_mint_store" unfolding store_logged_def by (rule exI [of _ "[]"]) simp
  then show ?case by (simp add: mint_system_init_def mint_indexer_from_config_def table_keyed_def)
next
  case (snoc e events)
  then show ?case by (simp add: logged_step)
qed

lemma logged_mutable:
  assumes "store_logged store" and "mint_get store k = Mutable entry"
  shows "\<not> ms_immutable (mu_state entry)"
proof -
  obtain log where "store = fold (\<lambda>(k, w). put_change k w) log new_mint_store" using assms(1) by (auto simp: store_logged_def)
  then have get: "mint_get store k = fold mint_step (map snd (filter (\<lambda>(k', _). k' = k) log)) Missing"
    using mints.lookup_log [OF maps_disjoint_new, of log k] by simp
  have "\<forall>e. fold mint_step ws m = Mutable e \<longrightarrow> \<not> ms_immutable (mu_state e)"
    if "\<forall>e. m = Mutable e \<longrightarrow> \<not> ms_immutable (mu_state e)" for ws m
    using that
  proof (induction ws arbitrary: m)
    case (Cons w ws)
    have "\<forall>e. mint_step w m = Mutable e \<longrightarrow> \<not> ms_immutable (mu_state e)"
      using Cons.prems by (cases m) (auto simp: mint_step_def split: prod.splits mint_change.splits if_splits)
    then show ?case using Cons.IH by simp
  qed simp
  then show ?thesis using get assms(2) by (metis stored_mint.distinct(9))
qed

section \<open>Properties\<close>

text \<open>C28: The \<open>mints\<close> table follows the store. Whatever snapshot accounts and blocks arrive, in any order, and
  whichever write statements fail or land half way, every stored mint that is neither queued nor in the
  write in flight has in the table exactly the columns of its current state, and the table has no row
  for a key that is not stored. A queued key is never blocked by a newer row.\<close>

theorem mints_table_current:
  assumes "list_all event_ok events"
  shows "let y = fold (mint_system_step codec) events (mint_system_init interval);
             store = mi_store (my_indexer y); pending = mi_pending_to_db (my_indexer y); table = md_table (my_db y)
    in (mint_get store k = Missing \<longrightarrow> fmlookup table (to_bytes k) = None)
      \<and> (mint_get store k \<noteq> Missing \<and> fmlookup pending k = None \<and> k \<notin> mw_pubkey ` set (in_flight y) \<longrightarrow>
          (\<exists>row. mw_pubkey row = k \<and> mint_row_of store k (mw_slot row) = Some row \<and>
            fmlookup table (to_bytes k) = Some (columns_of row)))
      \<and> (\<forall>p row. fmlookup pending k = Some p \<and> mint_row_of store k p = Some row \<longrightarrow>
          (\<forall>c. fmlookup table (to_bytes k) = Some c \<longrightarrow> co_slot c \<le> sint (mw_slot row)))"
proof -
  define y where "y = fold (mint_system_step codec) events (mint_system_init interval)"
  have "key_synced (mi_store (my_indexer y)) (mi_pending_to_db (my_indexer y)) (md_table (my_db y)) (in_flight y) k"
    using mint_synced_run [OF assms, of codec interval] by (simp add: y_def mint_synced_def indexer_synced_def)
  then show ?thesis
    by (auto simp: y_def [symmetric] Let_def key_synced_def current_row_def table_upto_def split: if_splits option.splits)
qed

definition wit_codec :: mint_codec where
  "wit_codec = \<lparr>mc_unpack = (\<lambda>data. if length data = 82 then Some \<lparr>um_decimals = data ! 44, um_interest_bearing = None,
       um_scaled_ui_amount = None, um_extension_types = Some [MintCloseAuthority]\<rparr> else None),
     mc_native_mint = pk 9, mc_native_decimals = 9, mc_interest_bearing_len = 52, mc_scaled_ui_amount_len = 56\<rparr>"

definition wit_events :: "mint_event list" where
  "wit_events = [On_Snapshot 10 (pk 1) TOKEN_2022_PROGRAM_ID 5 (replicate 82 6), Finish_Bootstrap, Write_End [NotLanded True] Landed]"

theorem mints_table_current_witness:
  "let y = fold (mint_system_step wit_codec) wit_events (mint_system_init 100);
             store = mi_store (my_indexer y); pending = mi_pending_to_db (my_indexer y); table = md_table (my_db y)
    in (mint_get store (pk 1) = Missing \<longrightarrow> fmlookup table (to_bytes (pk 1)) = None)
      \<and> (mint_get store (pk 1) \<noteq> Missing \<and> fmlookup pending (pk 1) = None \<and> pk 1 \<notin> mw_pubkey ` set (in_flight y) \<longrightarrow>
          (\<exists>row. mw_pubkey row = pk 1 \<and> mint_row_of store (pk 1) (mw_slot row) = Some row \<and>
            fmlookup table (to_bytes (pk 1)) = Some (columns_of row)))
      \<and> (\<forall>p row. fmlookup pending (pk 1) = Some p \<and> mint_row_of store (pk 1) p = Some row \<longrightarrow>
          (\<forall>c. fmlookup table (to_bytes (pk 1)) = Some c \<longrightarrow> co_slot c \<le> sint (mw_slot row)))"
  by (rule mints_table_current) (simp add: wit_events_def small_slot_def)

text \<open>The saved slot never covers an open gap: the slot a write will save is at most the last applied
  slot and below the lowest slot that still waits for repair, and it moves on by at least the configured
  interval.\<close>

theorem saved_slot_below_gap:
  assumes "mint_on_block codec slot accounts (Some gap) mi = (mi', Some (rows, Some saved))" and "0 < gap"
    and "mi_last_db_slot mi = Some saved0"
  shows "saved < gap \<and> saved \<le> max (mi_last_slot mi) slot \<and> saved0 + mi_interval mi \<le> saved"
proof -
  let ?mi = "apply_changes slot (List.map_filter (block_change codec) accounts)
      (mi \<lparr>mi_lowest_gap := Some gap, mi_last_slot := max (mi_last_slot mi) slot\<rparr>)"
  have frame: "mi_lowest_gap (apply_changes slot cs m) = mi_lowest_gap m \<and> mi_last_slot (apply_changes slot cs m) = mi_last_slot m
      \<and> mi_last_db_slot (apply_changes slot cs m) = mi_last_db_slot m \<and> mi_interval (apply_changes slot cs m) = mi_interval m" for cs m
    unfolding apply_changes_def
    by (induction cs arbitrary: m) (simp_all add: mi_apply_frame mi_apply_interval split_beta)
  have "saved = complete_through ?mi" "saved0 + mi_interval mi \<le> complete_through ?mi"
    using assms(1,3)
    by (auto simp: mint_on_block_def start_write_if_needed_def frame start_write_def take_pending_rows_def split: if_splits)
  moreover have "complete_through ?mi = min (max (mi_last_slot mi) slot) (saturating_sub gap 1)"
    by (simp add: complete_through_def frame)
  moreover have "saturating_sub gap 1 < gap"
    using assms(2) by (simp add: word_less_nat_alt unat_saturating_sub)
  ultimately show ?thesis by (auto simp: min_less_iff_disj)
qed

theorem saved_slot_below_gap_witness:
  "\<exists>mi' rows. mint_on_block wit_codec 1500 [] (Some 1000) (the (mint_indexer_from_config (Some (True, 10)))
      \<lparr>mi_last_db_slot := Some 900, mi_last_slot := 1400\<rparr>) = (mi', Some (rows, Some 999)) \<and> (999 :: u64) < 1000"
proof -
  let ?mi = "the (mint_indexer_from_config (Some (True, 10))) \<lparr>mi_last_db_slot := Some 900, mi_last_slot := 1400\<rparr>"
  obtain mi' rows where m: "mint_on_block wit_codec 1500 [] (Some 1000) ?mi = (mi', Some (rows, Some 999))"
    by (simp add: mint_on_block_def apply_changes_def map_filter_simps start_write_if_needed_def start_write_def
        take_pending_rows_def mint_indexer_from_config_def complete_through_def saturating_sub_def)
  have "(999 :: u64) < 1000" using saved_slot_below_gap [OF m] by (simp add: mint_indexer_from_config_def)
  with m show ?thesis by blast
qed

end
