(* ===== verification/Mint_Api.thy ===== *)
theory Mint_Api
  imports Mint_Indexer
begin

text \<open>
  The API half of the mint cache (\<open>mint_cache/api.rs\<close>): the buffer of processed blocks, the walk from a
  confirmed block back to the applied one, the reloads from the \<open>mints\<close> table, the startup load, and the
  read rule. \<open>run_reload\<close> and \<open>load\<close> read the table without holding a lock: what they read is an argument of
  the operation that ends them.
\<close>

datatype cache_status = Loading | CacheLive

record applied =
  ap_slot :: u64
  ap_blockhash :: string

record buffered_block =
  bb_blockhash :: string
  bb_parent_slot :: u64
  bb_parent_blockhash :: string
  bb_changes :: "(pubkey \<times> mint_change) list"

datatype reload_reason = BlockMissing | HealthRestored

record reload =
  rl_after :: u64
  rl_target :: u64
  rl_reason :: reload_reason

type_synonym mint_buffer = "(u64, buffered_block list) fmap"

record mint_api =
  ac_status :: cache_status
  ac_store :: mint_store
  ac_applied :: applied
  ac_buffer :: mint_buffer
  ac_unhealthy_since :: "u64 option"
  ac_reload :: "reload option"

definition MAX_BUFFERED_BLOCKS :: nat where "MAX_BUFFERED_BLOCKS = 20000"

definition mint_api_from_config :: "bool option \<Rightarrow> mint_api option" where
  "mint_api_from_config enabled =
     (if enabled = Some True
      then Some \<lparr>ac_status = Loading, ac_store = new_mint_store, ac_applied = \<lparr>ap_slot = 0, ap_blockhash = []\<rparr>,
                 ac_buffer = fmempty, ac_unhealthy_since = None, ac_reload = None\<rparr>
      else None)"

text \<open>\<open>while buffer.len() > MAX_BUFFERED_BLOCKS { buffer.pop_first(); }\<close>\<close>

definition pop_first_over :: "nat \<Rightarrow> mint_buffer \<Rightarrow> mint_buffer" where
  "pop_first_over bound buffer = fold fmdrop (take (fm_size buffer - bound) (fm_keys buffer)) buffer"

definition slot_blocks :: "u64 \<Rightarrow> mint_buffer \<Rightarrow> buffered_block list" where
  "slot_blocks slot buffer = (case fmlookup buffer slot of None \<Rightarrow> [] | Some bs \<Rightarrow> bs)"

definition api_on_block :: "mint_codec \<Rightarrow> grpc_block \<Rightarrow> mint_api \<Rightarrow> mint_api" where
  "api_on_block codec block api =
     (let buffered = \<lparr>bb_blockhash = gb_blockhash block, bb_parent_slot = gb_parent_slot block,
            bb_parent_blockhash = gb_parent_blockhash block,
            bb_changes = List.map_filter (block_change codec) (gb_accounts block)\<rparr>;
          others = filter (\<lambda>b. bb_blockhash b \<noteq> bb_blockhash buffered) (slot_blocks (gb_slot block) (ac_buffer api))
      in api \<lparr>ac_buffer := pop_first_over MAX_BUFFERED_BLOCKS (fmupd (gb_slot block) (others @ [buffered]) (ac_buffer api))\<rparr>)"

text \<open>The block a link names, and the loop of \<open>apply_chain\<close>. The inner \<open>None\<close> is its early return; not
  returning, which a parent at or above its child causes, is the outer one.\<close>

definition find_buffered :: "mint_buffer \<Rightarrow> u64 \<Rightarrow> string \<Rightarrow> buffered_block option" where
  "find_buffered buffer slot blockhash =
     Option.bind (fmlookup buffer slot) (find (\<lambda>b. blockhash = [] \<or> bb_blockhash b = blockhash))"

definition linked_to :: "applied \<Rightarrow> buffered_block \<Rightarrow> bool" where
  "linked_to applied block \<longleftrightarrow> ap_blockhash applied = [] \<or> bb_parent_blockhash block = [] \<or>
     bb_parent_blockhash block = ap_blockhash applied"

partial_function (option) walk_chain ::
  "mint_buffer \<Rightarrow> applied \<Rightarrow> u64 \<Rightarrow> string \<Rightarrow> (u64 \<times> buffered_block) list option option" where
  "walk_chain buffer applied slot blockhash =
     (case find_buffered buffer slot blockhash of
        None \<Rightarrow> Some None
      | Some block \<Rightarrow>
          if bb_parent_slot block = ap_slot applied
          then Some (if linked_to applied block then Some [(slot, block)] else None)
          else if bb_parent_slot block < ap_slot applied then Some None
          else Option.bind (walk_chain buffer applied (bb_parent_slot block) (bb_parent_blockhash block))
                 (\<lambda>chain. Some (map_option ((#) (slot, block)) chain)))"

text \<open>\<open>Vec::swap_remove\<close>, and the removal of a walked block.\<close>

definition swap_remove :: "nat \<Rightarrow> 'a list \<Rightarrow> 'a list" where
  "swap_remove i xs = (butlast xs)[i := last xs]"

definition take_block :: "u64 \<Rightarrow> string \<Rightarrow> mint_buffer \<Rightarrow> mint_buffer" where
  "take_block slot blockhash buffer =
     (case fmlookup buffer slot of
        None \<Rightarrow> buffer
      | Some bs \<Rightarrow> fmupd slot (swap_remove (length (takeWhile (\<lambda>b. bb_blockhash b \<noteq> blockhash) bs)) bs) buffer)"

definition prune_buffer :: "u64 \<Rightarrow> mint_api \<Rightarrow> mint_api" where
  "prune_buffer slot api = api \<lparr>ac_buffer := fmfilter (\<lambda>s. slot + 1 \<le> s) (ac_buffer api)\<rparr>"

definition apply_walked :: "u64 \<times> buffered_block \<Rightarrow> mint_api \<Rightarrow> mint_api" where
  "apply_walked = (\<lambda>(slot, block) api.
     api \<lparr>ac_buffer := take_block slot (bb_blockhash block) (ac_buffer api),
          ac_store := fold (\<lambda>(pubkey, change). put_change pubkey (slot, change)) (bb_changes block) (ac_store api)\<rparr>)"

definition apply_chain :: "applied \<Rightarrow> applied \<Rightarrow> mint_api \<Rightarrow> (mint_api \<times> bool) option" where
  "apply_chain confirmed applied api =
     map_option (\<lambda>walked.
         case walked of
           None \<Rightarrow> (api, False)
         | Some chain \<Rightarrow>
             (prune_buffer (ap_slot confirmed) ((fold apply_walked (rev chain) api) \<lparr>ac_applied := confirmed\<rparr>), True))
       (walk_chain (ac_buffer api) applied (ap_slot confirmed) (ap_blockhash confirmed))"

definition request_reload :: "reload \<Rightarrow> mint_api \<Rightarrow> mint_api" where
  "request_reload request api =
     api \<lparr>ac_reload := Some (case ac_reload api of
            Some pending \<Rightarrow> pending \<lparr>rl_after := min (rl_after pending) (rl_after request),
                                     rl_target := max (rl_target pending) (rl_target request)\<rparr>
          | None \<Rightarrow> request)\<rparr>"

definition note_health :: "bool \<Rightarrow> mint_api \<Rightarrow> mint_api \<times> u64 option" where
  "note_health healthy api =
     (case (healthy, ac_unhealthy_since api) of
        (False, None) \<Rightarrow> (api \<lparr>ac_unhealthy_since := Some (ap_slot (ac_applied api))\<rparr>, None)
      | (True, Some since) \<Rightarrow> (api \<lparr>ac_unhealthy_since := None\<rparr>, Some since)
      | _ \<Rightarrow> (api, None))"

definition on_confirmed :: "u64 \<Rightarrow> string option \<Rightarrow> bool \<Rightarrow> mint_api \<Rightarrow> mint_api option" where
  "on_confirmed slot blockhash healthy api =
     (if ac_status api = Loading then Some api
      else
        let confirmed = \<lparr>ap_slot = slot, ap_blockhash = (case blockhash of None \<Rightarrow> [] | Some h \<Rightarrow> h)\<rparr>;
            applied = ac_applied api;
            (api, restored) = note_health healthy api
        in map_option (\<lambda>api.
               case restored of
                 None \<Rightarrow> api
               | Some since \<Rightarrow> request_reload \<lparr>rl_after = since, rl_target = slot, rl_reason = HealthRestored\<rparr> api)
             (if ap_slot applied < slot \<and> ac_reload api = None
              then map_option (\<lambda>(api, ok).
                     if ok then api
                     else request_reload \<lparr>rl_after = ap_slot applied, rl_target = slot, rl_reason = BlockMissing\<rparr> api)
                   (apply_chain confirmed applied api)
              else Some api))"

text \<open>The end of \<open>run_reload\<close> for a request taken before, with what it read.\<close>

definition apply_rows :: "mint_row list \<Rightarrow> mint_store \<Rightarrow> mint_store" where
  "apply_rows = fold (\<lambda>row store. fst (apply_row (mw_pubkey row) (mw_slot row) (mw_state row) store))"

definition finish_reload :: "reload \<Rightarrow> u64 option \<Rightarrow> mint_row list option \<Rightarrow> mint_api \<Rightarrow> mint_api" where
  "finish_reload request last_db_slot rows api =
     (case (last_db_slot, rows) of
        (Some last_db_slot, Some rows) \<Rightarrow>
          if last_db_slot < rl_target request then api
          else
            let api = api \<lparr>ac_store := apply_rows rows (ac_store api)\<rparr>;
                api = (if ap_slot (ac_applied api) < last_db_slot
                       then api \<lparr>ac_applied := \<lparr>ap_slot = last_db_slot, ap_blockhash = []\<rparr>\<rparr> else api);
                api = prune_buffer (ap_slot (ac_applied api)) api
            in if ac_reload api = Some request then api \<lparr>ac_reload := None\<rparr> else api
      | _ \<Rightarrow> api)"

text \<open>The page loop of \<open>load\<close> over a table that does not change while it runs.\<close>

lemma those_last:
  "those (map f xs) = Some ys \<Longrightarrow> xs \<noteq> [] \<Longrightarrow> f (last xs) = Some (last ys) \<and> ys \<noteq> []"
  by (induction xs arbitrary: ys) (auto split: option.splits if_splits)

lemma from_pg_row_key: "from_pg_row codec c = Some row \<Longrightarrow> co_pubkey c = to_bytes (mw_pubkey row)"
  by (auto simp: from_pg_row_def try_from_eq_Some)

lemma page_last:
  assumes "read_page codec after table = Some page" and "page \<noteq> []"
  shows "\<exists>c \<in> set (rows_above (to_bytes after) table). co_pubkey c = to_bytes (mw_pubkey (last page))"
proof -
  let ?cs = "take LOAD_PAGE (rows_above (to_bytes after) table)"
  have "?cs \<noteq> []" using assms by (cases ?cs) (auto simp: read_page_def)
  moreover from this have "from_pg_row codec (last ?cs) = Some (last page)"
    using assms those_last by (fastforce simp: read_page_def)
  ultimately show ?thesis by (meson from_pg_row_key in_set_takeD last_in_set)
qed

function load_pages :: "mint_codec \<Rightarrow> pubkey \<Rightarrow> mints_table \<Rightarrow> mint_row list option" where
  "load_pages codec after table =
     (case read_page codec after table of
        None \<Rightarrow> None
      | Some page \<Rightarrow>
          if page = [] then Some []
          else map_option ((@) page) (load_pages codec (mw_pubkey (last page)) table))"
  by pat_completeness auto

termination load_pages
proof (relation "measure (\<lambda>(_, after, table). length (rows_above (to_bytes after) table))")
  fix codec after table page
  assume "read_page codec after table = Some page" "page \<noteq> []"
  then obtain c where c: "c \<in> set (rows_above (to_bytes after) table)" "co_pubkey c = to_bytes (mw_pubkey (last page))"
    using page_last by blast
  let ?later = "\<lambda>c. to_bytes (mw_pubkey (last page)) < co_pubkey c"
  have "to_bytes after < to_bytes (mw_pubkey (last page))" using c by (simp add: rows_above_def)
  then have "filter ?later (filter (\<lambda>c. to_bytes after < co_pubkey c) (table_rows table)) = filter ?later (table_rows table)"
    by (auto intro: filter_cong less_trans)
  moreover have "\<not> ?later c" "c \<in> set (filter (\<lambda>c. to_bytes after < co_pubkey c) (table_rows table))"
    using c by (simp_all add: rows_above_def)
  ultimately have "length (filter ?later (table_rows table)) < length (filter (\<lambda>c. to_bytes after < co_pubkey c) (table_rows table))"
    by (metis (no_types, lifting) length_filter_less)
  then show "((codec, mw_pubkey (last page), table), codec, after, table)
      \<in> measure (\<lambda>(_, after, table). length (rows_above (to_bytes after) table))"
    by (simp add: rows_above_def)
qed simp

declare load_pages.simps [simp del]

text \<open>The end of \<open>load\<close>; \<open>None\<close> is its error on an empty table.\<close>

definition finish_load :: "u64 \<Rightarrow> mint_row list \<Rightarrow> mint_api \<Rightarrow> mint_api option" where
  "finish_load start rows api =
     (if rows = [] then None
      else Some (prune_buffer start (api \<lparr>ac_store := apply_rows rows new_mint_store,
                   ac_applied := \<lparr>ap_slot = start, ap_blockhash = []\<rparr>, ac_status := CacheLive\<rparr>)))"

datatype postgres_reason = ReasonLoading | NewerThanRequest | Behind | ReasonMissing

datatype mint_lookup = Found mint_state | LookupClosed | Postgres postgres_reason

definition lookup_one :: "mint_api \<Rightarrow> pubkey \<Rightarrow> u64 \<Rightarrow> mint_lookup" where
  "lookup_one api key request_slot =
     (if ac_status api = Loading then Postgres ReasonLoading
      else
        let behind = ap_slot (ac_applied api) < request_slot
        in case mint_get (ac_store api) key of
             Immutable decimals \<Rightarrow> Found (immutable_state decimals)
           | Mutable entry \<Rightarrow>
               if request_slot < mu_slot entry then Postgres NewerThanRequest
               else if behind then Postgres Behind else Found (mu_state entry)
           | Tombstone slot \<Rightarrow>
               if request_slot < slot then Postgres NewerThanRequest
               else if behind then Postgres Behind else LookupClosed
           | Missing \<Rightarrow> if behind then Postgres Behind else Postgres ReasonMissing)"

definition resolve_mints :: "mint_api option \<Rightarrow> pubkey list \<Rightarrow> u64 \<Rightarrow> (pubkey, mint_state) fmap \<Rightarrow> (pubkey, mint_state) fmap \<times> pubkey list" where
  "resolve_mints cache keys request_slot found =
     (case cache of
        None \<Rightarrow> (found, keys)
      | Some api \<Rightarrow>
          fold (\<lambda>key (found, postgres_keys).
              case lookup_one api key request_slot of
                Found state \<Rightarrow> (fmupd key state found, postgres_keys)
              | LookupClosed \<Rightarrow> (found, postgres_keys)
              | Postgres _ \<Rightarrow> (found, postgres_keys @ [key])) keys (found, []))"

section \<open>The startup load\<close>

lemma those_append:
  "those (xs @ ys) = Option.bind (those xs) (\<lambda>as. map_option ((@) as) (those ys))"
proof (induction xs)
  case Nil
  then show ?case by (cases "those ys") simp_all
next
  case (Cons x xs)
  then show ?case by (cases x; cases "those xs"; cases "those ys") simp_all
qed

lemma those_map_the: "\<forall>x \<in> set xs. f x \<noteq> None \<Longrightarrow> those (map f xs) = Some (map (\<lambda>x. the (f x)) xs)"
  by (induction xs) auto

lemma rows_above_keys:
  assumes "table_keyed table"
  shows "sorted_wrt (<) (map co_pubkey (rows_above after table))"
proof -
  have "map co_pubkey (table_rows table) = map fst (fm_entries table)"
    unfolding table_rows_def map_map
  proof (rule map_cong [OF refl])
    fix e assume "e \<in> set (fm_entries table)"
    moreover obtain b c where "e = (b, c)" by fastforce
    ultimately show "(co_pubkey \<circ> snd) e = fst e" using assms by (simp add: table_keyed_def)
  qed
  then have "distinct (map co_pubkey (table_rows table))" by simp
  then have "distinct (map co_pubkey (filter (\<lambda>c. after < co_pubkey c) (table_rows table)))" by (rule distinct_map_filter)
  then have "distinct (map co_pubkey (rows_above after table))" by (simp add: rows_above_def distinct_map)
  then show ?thesis by (simp add: strict_sorted_iff rows_above_def)
qed

lemma rows_above_above:
  assumes keyed: "table_keyed table" and split: "rows_above after table = page @ rest" and "page \<noteq> []"
  shows "rows_above (co_pubkey (last page)) table = rest"
proof -
  let ?m = "co_pubkey (last page)"
  have sorted: "sorted_wrt (<) (map co_pubkey (page @ rest))" using rows_above_keys [OF keyed, of after] by (simp add: split)
  have mem: "last page \<in> set (rows_above after table)" using assms(3) by (simp add: split)
  then have after: "after < ?m" by (simp add: rows_above_def)
  have "c \<in> set page \<Longrightarrow> co_pubkey c \<le> ?m" for c
    using sorted sorted_wrt_less_last [of "map co_pubkey page" "co_pubkey c"] assms(3)
    by (auto simp: sorted_wrt_append last_map)
  then have "filter (\<lambda>c. ?m < co_pubkey c) page = []" by (auto simp: filter_empty_conv not_less)
  moreover have "filter (\<lambda>c. ?m < co_pubkey c) rest = rest"
    using sorted assms(3) by (auto simp: sorted_wrt_append intro!: filter_True)
  ultimately have "filter (\<lambda>c. ?m < co_pubkey c) (rows_above after table) = rest" by (simp add: split)
  moreover have "filter (\<lambda>c. ?m < co_pubkey c) (rows_above after table) =
      sort_key co_pubkey (filter (\<lambda>c. ?m < co_pubkey c) (filter (\<lambda>c. after < co_pubkey c) (table_rows table)))"
    unfolding rows_above_def by (rule filter_sort)
  moreover have "filter (\<lambda>c. ?m < co_pubkey c) (filter (\<lambda>c. after < co_pubkey c) (table_rows table)) =
      filter (\<lambda>c. ?m < co_pubkey c) (table_rows table)"
    using after by (auto intro: filter_cong less_trans)
  ultimately show ?thesis by (simp add: rows_above_def)
qed

lemma load_pages_all:
  "table_keyed table \<Longrightarrow>
     load_pages codec after table = those (map (from_pg_row codec) (rows_above (to_bytes after) table))"
proof (induction codec after table rule: load_pages.induct)
  case (1 codec after table)
  let ?all = "rows_above (to_bytes after) table"
  let ?cs = "take LOAD_PAGE ?all" and ?rest = "drop LOAD_PAGE ?all"
  have all: "those (map (from_pg_row codec) ?all) =
      Option.bind (read_page codec after table) (\<lambda>as. map_option ((@) as) (those (map (from_pg_row codec) ?rest)))"
    unfolding read_page_def by (metis append_take_drop_id map_append those_append)
  show ?case
  proof (cases "read_page codec after table")
    case None
    then show ?thesis by (simp add: load_pages.simps [of codec after] all)
  next
    case (Some page)
    show ?thesis
    proof (cases "page = []")
      case True
      then have "?cs = []" using Some by (cases ?cs) (auto simp: read_page_def split: option.splits)
      then have "?all = []" by (simp add: LOAD_PAGE_def)
      then show ?thesis using Some True by (simp add: load_pages.simps [of codec after])
    next
      case False
      then have "?cs \<noteq> []" using Some by (cases ?cs) (auto simp: read_page_def)
      moreover from this have "co_pubkey (last ?cs) = to_bytes (mw_pubkey (last page))"
        using Some those_last from_pg_row_key by (fastforce simp: read_page_def)
      ultimately have "rows_above (to_bytes (mw_pubkey (last page))) table = ?rest"
        using rows_above_above [of table "to_bytes after" ?cs ?rest] 1(2) by simp
      then show ?thesis using Some False 1 by (simp add: load_pages.simps [of codec after] all)
    qed
  qed
qed

text \<open>Loading rows is a keyed store too: a tombstone row is kept even for a key it does not know.\<close>

definition put_row :: "pubkey \<Rightarrow> u64 \<times> mint_state option \<Rightarrow> mint_store \<Rightarrow> mint_store" where
  "put_row k = (\<lambda>(slot, state) store. fst (apply_row k slot state store))"

definition row_step :: "u64 \<times> mint_state option \<Rightarrow> stored_mint \<Rightarrow> stored_mint" where
  "row_step = (\<lambda>(slot, state) m. case state of Some state \<Rightarrow> live_step slot state m | None \<Rightarrow> close_step False slot m)"

interpretation mint_rows: keyed_store maps_disjoint mint_get put_row row_step
proof
  fix s k k' and w :: "u64 \<times> mint_state option"
  assume inv: "maps_disjoint s"
  obtain slot state where w: "w = (slot, state)" by fastforce
  have "maps_disjoint (put_row k w s) \<and>
      mint_get (put_row k w s) k' = (if k' = k then row_step w (mint_get s k) else mint_get s k')"
    using apply_live_step [OF inv] close_mint_step [OF inv]
    by (cases state) (simp_all add: w put_row_def apply_row_def row_step_def)
  then show "maps_disjoint (put_row k w s)"
    "mint_get (put_row k w s) k' = (if k' = k then row_step w (mint_get s k) else mint_get s k')" by blast+
qed

lemma apply_rows_log:
  "apply_rows rows = fold (\<lambda>(k, w). put_row k w) (map (\<lambda>row. (mw_pubkey row, mw_slot row, mw_state row)) rows)"
  by (induction rows) (simp_all add: apply_rows_def put_row_def fun_eq_iff)

lemma row_restores:
  assumes "mint_row_of store k (mw_slot row) = Some row" and "\<And>entry. mint_get store k = Mutable entry \<Longrightarrow> \<not> ms_immutable (mu_state entry)"
  shows "row_step (mw_slot row, mw_state row) Missing = mint_get store k"
  using assms by (cases "mint_get store k"; cases row) (auto simp: mint_row_of_def row_step_def immutable_state_def)

lemma apply_rows_restores:
  assumes dist: "distinct (map mw_pubkey rows)"
    and curr: "\<And>row. row \<in> set rows \<Longrightarrow> mint_row_of store (mw_pubkey row) (mw_slot row) = Some row"
    and mut: "\<And>entry. mint_get store k = Mutable entry \<Longrightarrow> \<not> ms_immutable (mu_state entry)"
    and all: "mint_get store k \<noteq> Missing \<Longrightarrow> k \<in> mw_pubkey ` set rows"
  shows "mint_get (apply_rows rows new_mint_store) k = mint_get store k"
proof -
  let ?ws = "map snd (filter (\<lambda>(k', _). k' = k) (map (\<lambda>row. (mw_pubkey row, mw_slot row, mw_state row)) rows))"
  have get: "mint_get (apply_rows rows new_mint_store) k = fold row_step ?ws Missing"
    unfolding apply_rows_log using mint_rows.lookup_log [OF maps_disjoint_new] by simp
  show ?thesis
  proof (cases "k \<in> mw_pubkey ` set rows")
    case True
    then obtain row where row: "row \<in> set rows" "mw_pubkey row = k" by blast
    have "filter (\<lambda>r. mw_pubkey r = k) rows = [row]"
      using dist row
    proof (induction rows)
      case (Cons r rows)
      have "filter (\<lambda>r. mw_pubkey r = k) rows = []" if "mw_pubkey r = k"
        using Cons.prems(1) that by (auto simp: filter_empty_conv image_iff)
      with Cons show ?case by auto
    qed simp
    then have "?ws = [(mw_slot row, mw_state row)]" by (simp add: filter_map comp_def)
    then show ?thesis using get row_restores [of store k row] curr [OF row(1)] row(2) mut by simp
  next
    case False
    then have "filter (\<lambda>r. mw_pubkey r = k) rows = []" by (auto simp: filter_empty_conv)
    then have "?ws = []" by (simp add: filter_map comp_def)
    then show ?thesis using get all False by auto
  qed
qed

section \<open>The confirmed chain\<close>

definition buffer_ok :: "mint_buffer \<Rightarrow> bool" where
  "buffer_ok buffer \<longleftrightarrow> (\<forall>slot bs. fmlookup buffer slot = Some bs \<longrightarrow> (\<forall>b \<in> set bs. bb_parent_slot b < slot))"

text \<open>A chain of buffered blocks from a confirmed block, newest first, down to the child of the applied one.\<close>

fun chain_to :: "mint_buffer \<Rightarrow> applied \<Rightarrow> u64 \<Rightarrow> string \<Rightarrow> (u64 \<times> buffered_block) list \<Rightarrow> bool" where
  "chain_to buffer applied slot hash [] \<longleftrightarrow> False"
| "chain_to buffer applied slot hash ((s, b) # chain) \<longleftrightarrow>
     s = slot \<and> find_buffered buffer slot hash = Some b \<and>
     (if chain = [] then bb_parent_slot b = ap_slot applied \<and> linked_to applied b
      else ap_slot applied < bb_parent_slot b \<and> chain_to buffer applied (bb_parent_slot b) (bb_parent_blockhash b) chain)"

lemma find_buffered_mem:
  "find_buffered buffer slot hash = Some b \<Longrightarrow> \<exists>bs. fmlookup buffer slot = Some bs \<and> b \<in> set bs"
  by (auto simp: find_buffered_def find_Some_iff split: bind_splits)

lemma walk_chain_spec:
  assumes "buffer_ok buffer" and "ap_slot applied < slot"
  shows "\<exists>r. walk_chain buffer applied slot hash = Some r \<and>
    (\<forall>chain. r = Some chain \<longleftrightarrow> chain_to buffer applied slot hash chain)"
  using assms(2)
proof (induction "unat slot" arbitrary: slot hash rule: less_induct)
  case less
  show ?case
  proof (cases "find_buffered buffer slot hash")
    case None
    then have "\<not> chain_to buffer applied slot hash chain" for chain by (cases chain) auto
    then show ?thesis using None by (simp add: walk_chain.simps [of buffer applied slot])
  next
    case (Some b)
    have below: "bb_parent_slot b < slot" using find_buffered_mem [OF Some] assms(1) by (auto simp: buffer_ok_def)
    consider "bb_parent_slot b = ap_slot applied" | "bb_parent_slot b < ap_slot applied" | "ap_slot applied < bb_parent_slot b"
      by (rule linorder_cases [of "bb_parent_slot b" "ap_slot applied"])
    then show ?thesis
    proof cases
      case 1
      then have "chain_to buffer applied slot hash chain \<longleftrightarrow> linked_to applied b \<and> chain = [(slot, b)]" for chain
        using Some by (cases chain) (auto split: if_splits)
      then show ?thesis using Some 1 by (auto simp: walk_chain.simps [of buffer applied slot])
    next
      case 2
      then have "\<not> chain_to buffer applied slot hash chain" for chain
        using Some by (cases chain) (auto split: if_splits)
      moreover have "bb_parent_slot b \<noteq> ap_slot applied" using 2 less_irrefl by metis
      ultimately show ?thesis using Some 2 by (simp add: walk_chain.simps [of buffer applied slot])
    next
      case 3
      obtain r where r: "walk_chain buffer applied (bb_parent_slot b) (bb_parent_blockhash b) = Some r"
        "\<And>chain. r = Some chain \<longleftrightarrow> chain_to buffer applied (bb_parent_slot b) (bb_parent_blockhash b) chain"
        using less.hyps [of "bb_parent_slot b"] below 3 by (metis word_less_nat_alt)
      have ne: "bb_parent_slot b \<noteq> ap_slot applied" using 3 less_irrefl by metis
      have step: "chain_to buffer applied slot hash (x # rest) \<longleftrightarrow>
          x = (slot, b) \<and> chain_to buffer applied (bb_parent_slot b) (bb_parent_blockhash b) rest" for x rest
        using Some 3 ne by (cases x; cases rest) auto
      have "chain_to buffer applied slot hash chain \<longleftrightarrow> (\<exists>rest. chain = (slot, b) # rest \<and> r = Some rest)" for chain
      proof (cases chain)
        case (Cons x rest)
        show ?thesis unfolding Cons step using r(2) [of rest] by blast
      qed simp
      moreover have "walk_chain buffer applied slot hash = Some (map_option ((#) (slot, b)) r)"
        using Some 3 ne r(1) less_not_sym [OF 3] by (simp add: walk_chain.simps [of buffer applied slot])
      ultimately show ?thesis by (metis (no_types, opaque_lifting) map_option_eq_Some)
    qed
  qed
qed

text \<open>The writes of a chain, oldest block first.\<close>

definition chain_log :: "(u64 \<times> buffered_block) list \<Rightarrow> (pubkey \<times> u64 \<times> mint_change) list" where
  "chain_log chain = concat (map (\<lambda>(slot, b). map (\<lambda>(k, change). (k, slot, change)) (bb_changes b)) (rev chain))"

lemma apply_walked_store:
  "ac_store (fold apply_walked blocks api) =
     fold (\<lambda>(k, w). put_change k w) (concat (map (\<lambda>(slot, b). map (\<lambda>(k, change). (k, slot, change)) (bb_changes b)) blocks)) (ac_store api)"
proof (induction blocks arbitrary: api)
  case (Cons x blocks)
  obtain slot b where x: "x = (slot, b)" by fastforce
  have "fold (\<lambda>(k, change). put_change k (slot, change)) cs st =
      fold (\<lambda>(k, w). put_change k w) (map (\<lambda>(k, change). (k, slot, change)) cs) st" for cs st
    by (induction cs arbitrary: st) auto
  then show ?case using Cons by (simp add: x apply_walked_def)
qed simp

lemma apply_walked_frame:
  "ac_reload (fold apply_walked blocks api) = ac_reload api \<and> ac_status (fold apply_walked blocks api) = ac_status api"
  by (induction blocks arbitrary: api) (auto simp: apply_walked_def split_beta)

lemma chain_to_slots:
  assumes "buffer_ok buffer" and "chain_to buffer applied slot hash chain"
  shows "sorted_wrt (>) (map fst chain) \<and> (\<forall>s \<in> fst ` set chain. s \<le> slot \<and> ap_slot applied < s)"
  using assms(2)
proof (induction chain arbitrary: slot hash)
  case (Cons x chain)
  obtain s b where x: "x = (s, b)" by fastforce
  have below: "bb_parent_slot b < slot"
    using Cons.prems x find_buffered_mem [of buffer slot hash b] assms(1) by (auto simp: buffer_ok_def)
  show ?case
  proof (cases "chain = []")
    case True
    then show ?thesis using Cons.prems x below by auto
  next
    case False
    then have c: "ap_slot applied < bb_parent_slot b" "chain_to buffer applied (bb_parent_slot b) (bb_parent_blockhash b) chain"
      and s: "s = slot" using Cons.prems x by simp_all
    from Cons.IH [OF c(2)] have ih: "sorted_wrt (>) (map fst chain)"
      "\<And>s. s \<in> fst ` set chain \<Longrightarrow> s \<le> bb_parent_slot b \<and> ap_slot applied < s" by blast+
    then have "\<And>s. s \<in> fst ` set chain \<Longrightarrow> s < slot" using below le_less_trans by blast
    with ih show ?thesis using below c(1) by (auto simp: x s less_imp_le)
  qed
qed simp

lemma note_health_frame:
  "note_health healthy api = (api', restored) \<Longrightarrow> ac_store api' = ac_store api \<and> ac_applied api' = ac_applied api \<and>
     ac_buffer api' = ac_buffer api \<and> ac_reload api' = ac_reload api"
  by (auto simp: note_health_def split: bool.splits option.splits)

lemma request_reload_frame:
  "ac_store (request_reload r api) = ac_store api \<and> ac_applied (request_reload r api) = ac_applied api \<and>
   (\<exists>q. ac_reload (request_reload r api) = Some q \<and> rl_after q \<le> rl_after r \<and> rl_target r \<le> rl_target q \<and>
     (\<forall>p. ac_reload api = Some p \<longrightarrow> rl_after q \<le> rl_after p \<and> rl_target p \<le> rl_target q))"
  by (auto simp: request_reload_def split: option.splits)

lemma chain_log_slots:
  assumes "sorted_wrt (>) (map fst chain)"
  shows "sorted (map (fst \<circ> snd) (chain_log chain)) \<and> fst ` snd ` set (chain_log chain) \<subseteq> fst ` set chain"
  using assms
proof (induction chain)
  case (Cons x chain)
  obtain slot b where x: "x = (slot, b)" by fastforce
  have log: "chain_log (x # chain) = chain_log chain @ map (\<lambda>(k, change). (k, slot, change)) (bb_changes b)"
    by (simp add: chain_log_def x)
  have sub: "fst ` snd ` set (chain_log chain) \<subseteq> fst ` set chain" and sorted: "sorted (map (fst \<circ> snd) (chain_log chain))"
    using Cons by (simp_all add: comp_def)
  have older: "s \<le> slot" if "s \<in> fst ` snd ` set (chain_log chain)" for s
  proof -
    have "s \<in> fst ` set chain" using sub that by blast
    then show ?thesis using Cons.prems by (auto simp: x)
  qed
  define new where "new = map (\<lambda>(k, change). (k, slot, change)) (bb_changes b)"
  have new: "map (fst \<circ> snd) new = map (\<lambda>_. slot) (bb_changes b)" by (simp add: new_def case_prod_unfold)
  have "sorted (map (\<lambda>_. slot) (bb_changes b))" by (induction "bb_changes b") (simp_all add: sorted_wrt_map sorted_wrt_iff_nth_less)
  moreover have "x \<le> slot" if "x \<in> set (map (fst \<circ> snd) (chain_log chain))" for x
    using older that by (auto simp: image_image)
  ultimately have "sorted (map (fst \<circ> snd) (chain_log chain @ new))"
    using sorted by (auto simp: sorted_append new simp del: map_map)
  moreover have "fst ` snd ` set new \<subseteq> {slot}" by (auto simp: new_def)
  ultimately have "sorted (map (fst \<circ> snd) (chain_log (x # chain))) \<and>
      fst ` snd ` set (chain_log (x # chain)) \<subseteq> insert slot (fst ` set chain)"
    unfolding log new_def [symmetric] set_append image_Un using sub by blast
  then show ?case by (simp add: x comp_def)
qed (simp add: chain_log_def)

section \<open>Properties\<close>

text \<open>C24: A confirmed slot is applied block by block or not at all. As long as buffered blocks have parents
  below them, the walk returns. When the buffer links the confirmed block to the applied one, hash by hash,
  the store gets the mint writes of exactly these blocks, oldest first, all of them above the applied slot
  and up to the confirmed one; otherwise nothing changes but a reload of everything since the applied
  slot is asked for.\<close>

theorem confirmed_chain_applied:
  assumes "buffer_ok (ac_buffer api)" and "ac_status api = CacheLive" and "ac_reload api = None"
    and "ap_slot (ac_applied api) < slot"
  shows "\<exists>api'. on_confirmed slot hash healthy api = Some api' \<and>
    (let h = (case hash of None \<Rightarrow> [] | Some h \<Rightarrow> h) in
      (\<exists>chain. chain_to (ac_buffer api) (ac_applied api) slot h chain
        \<and> ac_store api' = fold (\<lambda>(k, w). put_change k w) (chain_log chain) (ac_store api)
        \<and> ac_applied api' = \<lparr>ap_slot = slot, ap_blockhash = h\<rparr>
        \<and> sorted (map (fst \<circ> snd) (chain_log chain))
        \<and> fst ` snd ` set (chain_log chain) \<subseteq> {ap_slot (ac_applied api)<..slot})
      \<or> (\<forall>chain. \<not> chain_to (ac_buffer api) (ac_applied api) slot h chain) \<and> ac_store api' = ac_store api
        \<and> ac_applied api' = ac_applied api
        \<and> (\<exists>r. ac_reload api' = Some r \<and> rl_after r \<le> ap_slot (ac_applied api) \<and> slot \<le> rl_target r))"
proof -
  define h where "h = (case hash of None \<Rightarrow> [] | Some h \<Rightarrow> h)"
  let ?confirmed = "\<lparr>ap_slot = slot, ap_blockhash = h\<rparr>"
  obtain api1 restored where n: "note_health healthy api = (api1, restored)" by fastforce
  note f = note_health_frame [OF n]
  define after where "after = (\<lambda>api. case restored of None \<Rightarrow> api
    | Some since \<Rightarrow> request_reload \<lparr>rl_after = since, rl_target = slot, rl_reason = HealthRestored\<rparr> api)"
  have after: "ac_store (after a) = ac_store a \<and> ac_applied (after a) = ac_applied a" for a
    by (auto simp: after_def request_reload_frame split: option.splits)
  obtain r where r: "walk_chain (ac_buffer api) (ac_applied api) slot h = Some r"
    "\<And>chain. r = Some chain \<longleftrightarrow> chain_to (ac_buffer api) (ac_applied api) slot h chain"
    using walk_chain_spec [OF assms(1,4), of h] by blast
  have conf: "on_confirmed slot hash healthy api = map_option (\<lambda>(a, ok). after (if ok then a else
      request_reload \<lparr>rl_after = ap_slot (ac_applied api), rl_target = slot, rl_reason = BlockMissing\<rparr> a))
      (apply_chain ?confirmed (ac_applied api) api1)"
    using assms(2-4) f by (simp add: on_confirmed_def n h_def [symmetric] after_def [symmetric] option.map_comp comp_def
        case_prod_unfold Let_def)
  show ?thesis
  proof (cases r)
    case None
    then have "on_confirmed slot hash healthy api = Some (after (request_reload
        \<lparr>rl_after = ap_slot (ac_applied api), rl_target = slot, rl_reason = BlockMissing\<rparr> api1))"
      using conf r(1) f by (simp add: apply_chain_def)
    moreover have "\<exists>q. ac_reload (after (request_reload \<lparr>rl_after = ap_slot (ac_applied api), rl_target = slot, rl_reason = BlockMissing\<rparr> api1))
        = Some q \<and> rl_after q \<le> ap_slot (ac_applied api) \<and> slot \<le> rl_target q"
      using request_reload_frame [of "\<lparr>rl_after = ap_slot (ac_applied api), rl_target = slot, rl_reason = BlockMissing\<rparr>" api1]
        request_reload_frame [of "\<lparr>rl_after = since, rl_target = slot, rl_reason = HealthRestored\<rparr>"
          "request_reload \<lparr>rl_after = ap_slot (ac_applied api), rl_target = slot, rl_reason = BlockMissing\<rparr> api1" for since]
      by (fastforce simp: after_def split: option.splits)
    ultimately show ?thesis
      using r(2) None f after by (auto simp: request_reload_frame h_def [symmetric])
  next
    case (Some chain)
    then have c: "chain_to (ac_buffer api) (ac_applied api) slot h chain" using r(2) by blast
    have "on_confirmed slot hash healthy api = Some (after (prune_buffer slot ((fold apply_walked (rev chain) api1) \<lparr>ac_applied := ?confirmed\<rparr>)))"
      using conf r(1) Some f by (simp add: apply_chain_def)
    moreover have "sorted (map (fst \<circ> snd) (chain_log chain)) \<and> fst ` snd ` set (chain_log chain) \<subseteq> {ap_slot (ac_applied api)<..slot}"
      using chain_to_slots [OF assms(1) c] chain_log_slots [of chain] by fastforce
    ultimately show ?thesis
      using c f after by (auto simp: prune_buffer_def apply_walked_store chain_log_def h_def [symmetric])
  qed
qed

definition wit_block :: buffered_block where
  "wit_block = \<lparr>bb_blockhash = ''b'', bb_parent_slot = 10, bb_parent_blockhash = ''a'', bb_changes = [(pk 1, Live (wit_mint 7))]\<rparr>"

definition wit_api :: mint_api where
  "wit_api = \<lparr>ac_status = CacheLive,
     ac_store = fold (\<lambda>(k, w). put_change k w) [(pk 1, 10, Live (wit_mint 6))] new_mint_store,
     ac_applied = \<lparr>ap_slot = 10, ap_blockhash = ''a''\<rparr>, ac_buffer = fmupd 12 [wit_block] fmempty,
     ac_unhealthy_since = None, ac_reload = None\<rparr>"

theorem confirmed_chain_applied_witness:
  "\<exists>api'. on_confirmed 12 (Some ''b'') True wit_api = Some api' \<and>
    (let h = (case Some ''b'' of None \<Rightarrow> [] | Some h \<Rightarrow> h) in
      (\<exists>chain. chain_to (ac_buffer wit_api) (ac_applied wit_api) 12 h chain
        \<and> ac_store api' = fold (\<lambda>(k, w). put_change k w) (chain_log chain) (ac_store wit_api)
        \<and> ac_applied api' = \<lparr>ap_slot = 12, ap_blockhash = h\<rparr>
        \<and> sorted (map (fst \<circ> snd) (chain_log chain))
        \<and> fst ` snd ` set (chain_log chain) \<subseteq> {ap_slot (ac_applied wit_api)<..12})
      \<or> (\<forall>chain. \<not> chain_to (ac_buffer wit_api) (ac_applied wit_api) 12 h chain) \<and> ac_store api' = ac_store wit_api
        \<and> ac_applied api' = ac_applied wit_api
        \<and> (\<exists>r. ac_reload api' = Some r \<and> rl_after r \<le> ap_slot (ac_applied wit_api) \<and> 12 \<le> rl_target r))"
  by (rule confirmed_chain_applied) (simp_all add: wit_api_def buffer_ok_def wit_block_def)

text \<open>A log that goes on after the slot the cache has applied: at or below that slot nothing changes, and an immutable mint
  stays.\<close>

lemma of_key_append: "of_key k (log @ later) = of_key k log @ of_key k later"
  by (simp add: of_key_def)

lemma mint_at_later:
  "\<forall>(s, change) \<in> set later. r < s \<Longrightarrow> mint_at r (writes @ later) = mint_at r writes"
  by (induction later rule: rev_induct) (auto simp: mint_at_snoc simp flip: append_assoc)

lemma mint_at_same:
  "\<forall>(s, change) \<in> set later. change = Live state \<Longrightarrow> mint_at r writes = Some state \<Longrightarrow> mint_at r (writes @ later) = Some state"
  by (induction later rule: rev_induct) (auto simp: mint_at_snoc change_state_def simp flip: append_assoc)

lemma immutable_stays_append:
  "immutable_stays (writes @ later) \<Longrightarrow> (s, Live state) \<in> set writes \<Longrightarrow> ms_immutable state \<Longrightarrow>
     \<forall>(s, change) \<in> set later. change = Live state"
  by (induction writes rule: immutable_stays.induct) (auto simp: list_all_iff case_prod_unfold, metis UnCI snd_conv)

lemma writes_ok_append: "writes_ok (writes @ later) \<Longrightarrow> writes_ok writes"
proof (induction later rule: rev_induct)
  case (snoc w later)
  then have "writes_ok (writes @ later)"
    by (cases w) (simp add: writes_ok_def sorted_append immutable_stays_snoc flip: append_assoc)
  then show ?case by (rule snoc.IH)
qed simp

text \<open>C23: The read rule is exact, and stays so whatever is written next. The cache holds the writes of a log in slot order, all
  that there are up to its applied slot; the chain goes on with later writes above that slot, which the cache has not seen
  (a token program never closes or changes an immutable mint). Then a mint answered from memory is the mint at the request
  slot in the whole history, or an immutable one that is first written after the request slot; a closed answer means that
  there is none at that slot; and Postgres is asked only while the cache loads, for a slot it has not reached, for a key
  without a mint at that slot, or for one whose last write is above it.\<close>

theorem lookup_exact:
  assumes "ac_store api = fold (\<lambda>(k, w). put_change k w) log new_mint_store"
    and "writes_ok (of_key k (log @ later))" and "\<forall>(s, change) \<in> set (of_key k later). ap_slot (ac_applied api) < s"
  shows "case lookup_one api k r of
      Found state \<Rightarrow> mint_at r (of_key k (log @ later)) = Some state \<or>
        ms_immutable state \<and> (\<exists>slot. r < slot \<and> (slot, Live state) \<in> set (of_key k log))
    | LookupClosed \<Rightarrow> mint_at r (of_key k (log @ later)) = None
    | Postgres reason \<Rightarrow> (case reason of
          ReasonLoading \<Rightarrow> ac_status api = Loading
        | Behind \<Rightarrow> ap_slot (ac_applied api) < r
        | ReasonMissing \<Rightarrow> mint_at r (of_key k (log @ later)) = None
        | NewerThanRequest \<Rightarrow> \<exists>slot change. (slot, change) \<in> set (of_key k log) \<and> r < slot)"
proof -
  let ?log = "of_key k log" and ?later = "of_key k later"
  have ok: "writes_ok ?log" using assms(2) unfolding of_key_append by (rule writes_ok_append)
  have stands: "stands_at ?log (mint_get (ac_store api) k)"
    using stands_at_log [OF ok] mints.lookup_log [OF maps_disjoint_new, of log k] by (simp add: assms(1) of_key_def)
  have reached: "mint_at r (?log @ ?later) = mint_at r ?log" if "r \<le> ap_slot (ac_applied api)" for r
    using assms(3) that by (intro mint_at_later) fastforce
  show ?thesis
  proof (cases "mint_get (ac_store api) k")
    case (Immutable d)
    then obtain slot where slot: "(slot, Live (immutable_state d)) \<in> set ?log"
      "\<forall>r \<ge> slot. mint_at r ?log = Some (immutable_state d)"
      using stands by (auto simp: stands_at_def)
    have "\<forall>(s, change) \<in> set ?later. change = Live (immutable_state d)"
      using assms(2) slot(1) unfolding of_key_append writes_ok_def
      by (intro immutable_stays_append) (auto simp: immutable_state_def)
    then have "\<forall>r \<ge> slot. mint_at r (?log @ ?later) = Some (immutable_state d)" using slot(2) mint_at_same by blast
    then show ?thesis using Immutable slot(1)
      by (cases "slot \<le> r") (auto simp: lookup_one_def immutable_state_def not_le of_key_append)
  next
    case (Mutable entry)
    then have "\<exists>change. (mu_slot entry, change) \<in> set ?log" using stands by (auto simp: stands_at_def)
    then show ?thesis using Mutable stands reached [of r]
      by (auto simp: lookup_one_def stands_at_def not_less Let_def of_key_append)
  next
    case (Tombstone slot)
    then have "\<exists>change. (slot, change) \<in> set ?log" using stands by (auto simp: stands_at_def)
    then show ?thesis using Tombstone stands reached [of r]
      by (auto simp: lookup_one_def stands_at_def not_less Let_def of_key_append)
  next
    case Missing
    then show ?thesis using stands reached [of r]
      by (auto simp: lookup_one_def stands_at_def not_less Let_def of_key_append)
  qed
qed

lemma lookup_exact_witness:
  "lookup_one wit_api (pk 1) 10 = Found (wit_mint 6)
    \<and> mint_at 10 (of_key (pk 1) ([(pk 1, 10, Live (wit_mint 6))] @ [(pk 1, 12, Live (wit_mint 7))])) = Some (wit_mint 6)"
proof -
  have found: "lookup_one wit_api (pk 1) 10 = Found (wit_mint 6)"
    by (simp add: lookup_one_def wit_api_def put_change_def store_apply_def apply_live_def live_kind_def new_mint_store_def
        mint_get_def wit_mint_def Let_def)
  have "ac_store wit_api = fold (\<lambda>(k, w). put_change k w) [(pk 1, 10, Live (wit_mint 6))] new_mint_store"
    "writes_ok (of_key (pk 1) ([(pk 1, 10, Live (wit_mint 6))] @ [(pk 1, 12, Live (wit_mint 7))]))"
    "\<forall>(s, change) \<in> set (of_key (pk 1) [(pk 1, 12, Live (wit_mint 7))]). ap_slot (ac_applied wit_api) < s"
    by (simp_all add: wit_api_def of_key_def writes_ok_def sound_change_def wit_mint_def)
  from lookup_exact [OF this, of 10] show ?thesis by (simp add: found wit_mint_def)
qed

definition configs_ok :: "mint_codec \<Rightarrow> mint_state \<Rightarrow> bool" where
  "configs_ok codec state \<longleftrightarrow> (case ms_configs state of None \<Rightarrow> True
     | Some configs \<Rightarrow> (mg_interest_bearing configs \<noteq> None \<or> mg_scaled_ui_amount configs \<noteq> None) \<and>
         pred_option (\<lambda>b. length b = mc_interest_bearing_len codec) (mg_interest_bearing configs) \<and>
         pred_option (\<lambda>b. length b = mc_scaled_ui_amount_len codec) (mg_scaled_ui_amount configs))"

lemma from_columns_ok:
  assumes "mint_row_of store k slot = Some row" and "\<And>entry. mint_get store k = Mutable entry \<Longrightarrow> configs_ok codec (mu_state entry)"
  shows "from_pg_row codec (columns_of row) = Some row"
  using assms
  by (intro from_pg_row_columns)
    (auto simp: mint_row_of_def configs_ok_def immutable_state_def split: stored_mint.splits)

lemma zeros_least: "replicate (length xs) 0 \<le> (xs :: u8 list)"
proof (induction xs)
  case (Cons x xs)
  then show ?case by (cases "x = 0") (auto simp: word_neq_0_conv)
qed simp

lemma pk0_below: "k \<noteq> pk 0 \<Longrightarrow> to_bytes (pk 0) < to_bytes k"
  using zeros_least [of "to_bytes k"] to_bytes_inject [of k "pk 0"] by (auto simp: order_le_less)

lemma synced_row:
  assumes "key_synced store fmempty table [] k" and "fmlookup table (to_bytes k) = Some c"
  shows "\<exists>row. mw_pubkey row = k \<and> mint_row_of store k (mw_slot row) = Some row \<and> c = columns_of row"
  using assms by (auto simp: key_synced_def current_row_def split: if_splits)

text \<open>The API loads what the indexer holds. Once no key waits and no write runs, whatever statements failed
  on the way, the page loop of the startup load reads the whole table and the store it builds answers
  every key as the indexer's store does.\<close>

theorem api_loads_indexer_store:
  assumes "list_all event_ok events" and "fold (mint_system_step codec) events (mint_system_init interval) = y"
    and "mi_pending_to_db (my_indexer y) = fmempty" and "my_write y = None"
    and "\<And>key entry. mint_get (mi_store (my_indexer y)) key = Mutable entry \<Longrightarrow> configs_ok codec (mu_state entry)"
    and "k \<noteq> pk 0"
  shows "\<exists>rows. load_pages codec (pk 0) (md_table (my_db y)) = Some rows
    \<and> mint_get (apply_rows rows new_mint_store) k = mint_get (mi_store (my_indexer y)) k"
proof -
  let ?store = "mi_store (my_indexer y)" and ?table = "md_table (my_db y)"
  let ?cs = "rows_above (to_bytes (pk 0)) ?table"
  have synced: "key_synced ?store fmempty ?table [] key" for key
    using mint_synced_run [OF assms(1), of codec interval] assms(2-4)
    by (simp add: mint_synced_def indexer_synced_def in_flight_def)
  have logged: "store_logged ?store" and keyed: "table_keyed ?table"
    using logged_run [of codec events interval] assms(2) by simp_all
  have row: "\<exists>r. from_pg_row codec c = Some r \<and> mint_row_of ?store (mw_pubkey r) (mw_slot r) = Some r \<and>
      co_pubkey c = to_bytes (mw_pubkey r)" if c: "c \<in> set ?cs" for c
  proof -
    obtain b where b: "fmlookup ?table b = Some c" using c by (auto simp: rows_above_def table_rows_def)
    then have "b = to_bytes (Abs_pubkey b)" using keyed by (simp add: table_keyed_def Abs_pubkey_inverse)
    then obtain key where "b = to_bytes key" by blast
    then obtain r where r: "mw_pubkey r = key" "mint_row_of ?store key (mw_slot r) = Some r" "c = columns_of r"
      using synced_row [OF synced] b by blast
    then have "from_pg_row codec c = Some r" using from_columns_ok [OF r(2)] assms(5) by simp
    then show ?thesis using r by auto
  qed
  define rows where "rows = map (\<lambda>c. the (from_pg_row codec c)) ?cs"
  have load: "load_pages codec (pk 0) ?table = Some rows"
    unfolding load_pages_all [OF keyed] rows_def using row by (intro those_map_the) auto
  have keys: "map (to_bytes \<circ> mw_pubkey) rows = map co_pubkey ?cs"
    unfolding rows_def map_map using row by (intro map_cong [OF refl]) fastforce
  have "distinct (map (to_bytes \<circ> mw_pubkey) rows)"
    unfolding keys using rows_above_keys [OF keyed] strict_sorted_iff by blast
  then have dist: "distinct (map mw_pubkey rows)" by (auto simp: distinct_map inj_on_def)
  have curr: "mint_row_of ?store (mw_pubkey r) (mw_slot r) = Some r" if "r \<in> set rows" for r
    using that row by (fastforce simp: rows_def)
  have all: "k \<in> mw_pubkey ` set rows" if stored: "mint_get ?store k \<noteq> Missing"
  proof -
    obtain c where c: "fmlookup ?table (to_bytes k) = Some c" using synced [of k] stored by (auto simp: key_synced_def)
    then have key: "co_pubkey c = to_bytes k" using keyed by (simp add: table_keyed_def)
    have "(to_bytes k, c) \<in> set (fm_entries ?table)" using c by simp
    then have "c \<in> set (table_rows ?table)" unfolding table_rows_def set_map by (metis imageI snd_conv)
    then have "c \<in> set ?cs" using pk0_below [OF assms(6)] by (simp add: rows_above_def key del: to_bytes_pk)
    moreover note key
    ultimately have "to_bytes k \<in> set (map (to_bytes \<circ> mw_pubkey) rows)" unfolding keys by force
    then show ?thesis by (auto simp: to_bytes_inject)
  qed
  have "mint_get (apply_rows rows new_mint_store) k = mint_get ?store k"
    by (rule apply_rows_restores [OF dist curr]) (use logged_mutable [OF logged] all in auto)
  with load show ?thesis by blast
qed

definition wit_run :: mint_system where
  "wit_run = fold (mint_system_step wit_codec)
     [On_Snapshot 10 (pk 1) TOKEN_2022_PROGRAM_ID 5 (replicate 82 6), Finish_Bootstrap, Write_End [Landed] Landed]
     (mint_system_init 100)"

lemma wit_run_eval:
  "mi_pending_to_db (my_indexer wit_run) = fmempty" "my_write wit_run = None"
  "mi_store (my_indexer wit_run) = put_change (pk 1) (10, Live (wit_mint 6)) new_mint_store"
proof -
  have parse: "parse_change wit_codec (pk 1) TOKEN_2022_PROGRAM_ID 5 (replicate 82 6) = Some (Live (wit_mint 6))"
    by (simp add: parse_change_def is_token_program_def from_mint_def wit_codec_def mint_configs_of_def classify_def wit_mint_def)
  have run: "mi_pending_to_db (my_indexer wit_run) = fmempty \<and> my_write wit_run = None \<and>
      mi_store (my_indexer wit_run) = put_change (pk 1) (10, Live (wit_mint 6)) new_mint_store"
    by (simp add: wit_run_def mint_system_init_def mint_indexer_from_config_def on_snapshot_account_def parse mi_apply_def
        apply_stored_def store_apply_def apply_live_def live_kind_def new_mint_store_def wit_mint_def mark_pending_def raise_slot_def
        start_write_if_needed_def UPSERT_CHUNK_def started_def mint_finish_bootstrap_def start_write_def take_pending_rows_def
        write_mints_def upsert_rows_def chunks.simps write_done_def put_change_def fm_size_upd fm_entries_map fm_keys_def fm_eval
        map_filter_simps mint_row_of_def mint_get_def)
  then show "mi_pending_to_db (my_indexer wit_run) = fmempty" "my_write wit_run = None"
    "mi_store (my_indexer wit_run) = put_change (pk 1) (10, Live (wit_mint 6)) new_mint_store" by blast+
qed

theorem api_loads_indexer_store_witness:
  "\<exists>rows. load_pages wit_codec (pk 0) (md_table (my_db wit_run)) = Some rows
    \<and> mint_get (apply_rows rows new_mint_store) (pk 1) = mint_get (mi_store (my_indexer wit_run)) (pk 1)"
proof (rule api_loads_indexer_store [OF _ wit_run_def [symmetric] wit_run_eval(1,2)])
  fix key entry
  assume "mint_get (mi_store (my_indexer wit_run)) key = Mutable entry"
  then show "configs_ok wit_codec (mu_state entry)"
    using mints.lookup_put [OF maps_disjoint_new, of "pk 1" "(10, Live (wit_mint 6))" key]
    by (auto simp: wit_run_eval(3) mint_step_def wit_mint_def configs_ok_def split: if_splits)
qed (simp_all add: small_slot_def)

end
