(* ===== verification/Tables.thy ===== *)
theory Tables
  imports Feed
begin

text \<open>
  The two account tables and the reads over them. \<open>accounts\<close> holds the versions written by blocks and
  the masks of closed accounts, \<open>snapshot_accounts\<close> those of the snapshot load. Every serving read
  (\<open>crates/api/src/db/getAccountInfo.sql\<close>, \<open>getProgramAccounts.sql\<close>) is one statement over both: the
  newest version per key at or below a slot, dropped when it has no lamports.

  A table is the list of its rows. \<open>ORDER BY slot DESC LIMIT 1\<close> leaves the order of rows with equal
  slots open, so a read has a set of possible answers. Slots and lamports are \<open>bigint\<close> columns.
\<close>

record db_row =
  dr_pubkey :: "u8 list"
  dr_owner :: "u8 list"
  dr_lamports :: int
  dr_slot :: int
  dr_executable :: bool
  dr_rent_epoch :: int
  dr_data :: "u8 list"
  dr_write_version :: int

record db_tables =
  tb_accounts :: "db_row list"
  tb_snapshot_accounts :: "db_row list"

text \<open>The versions of a key a read considers: \<open>P\<close> is its owner predicate.\<close>

definition versions :: "(db_row \<Rightarrow> bool) \<Rightarrow> u8 list \<Rightarrow> int \<Rightarrow> db_row list \<Rightarrow> db_row list" where
  "versions P key max_slot rows = filter (\<lambda>r. P r \<and> dr_pubkey r = key \<and> dr_slot r \<le> max_slot) rows"

definition newest :: "db_row list \<Rightarrow> db_row set" where
  "newest rows = {r \<in> set rows. \<forall>r' \<in> set rows. dr_slot r' \<le> dr_slot r}"

definition visible :: "db_row \<Rightarrow> db_row option" where
  "visible r = (if 0 < dr_lamports r then Some r else None)"

definition answers_of :: "db_row list \<Rightarrow> db_row option set" where
  "answers_of rows = (if rows = [] then {None} else visible ` newest rows)"

definition answers :: "(db_row \<Rightarrow> bool) \<Rightarrow> u8 list \<Rightarrow> int \<Rightarrow> db_tables \<Rightarrow> db_row option set" where
  "answers P key max_slot db =
     answers_of (versions P key max_slot (tb_accounts db @ tb_snapshot_accounts db))"

text \<open>\<open>getAccountInfo\<close> reads every owner, \<open>getProgramAccounts\<close> one.\<close>

definition get_account_info :: "u8 list \<Rightarrow> int \<Rightarrow> db_tables \<Rightarrow> db_row option set" where
  "get_account_info = answers (\<lambda>_. True)"

definition get_program_account :: "u8 list \<Rightarrow> u8 list \<Rightarrow> int \<Rightarrow> db_tables \<Rightarrow> db_row option set" where
  "get_program_account program = answers (\<lambda>r. dr_owner r = program)"

lemma set_versions [simp]:
  "r \<in> set (versions P key max_slot rows) \<longleftrightarrow> r \<in> set rows \<and> P r \<and> dr_pubkey r = key \<and> dr_slot r \<le> max_slot"
  by (auto simp: versions_def)

lemma versions_append [simp]:
  "versions P key max_slot (xs @ ys) = versions P key max_slot xs @ versions P key max_slot ys"
  by (simp add: versions_def)

lemma newest_nonempty: "rows \<noteq> [] \<Longrightarrow> newest rows \<noteq> {}"
proof -
  assume "rows \<noteq> []"
  then obtain r where "r \<in> set rows" "dr_slot r = Max (dr_slot ` set rows)"
    by (metis (no_types, lifting) List.finite_set Max_in finite_imageI image_iff image_is_empty set_empty)
  then have "r \<in> newest rows" by (auto simp: newest_def)
  then show ?thesis by blast
qed

lemma answers_of_cong:
  assumes "set rows' \<subseteq> set rows" and "newest rows \<subseteq> set rows'"
  shows "answers_of rows' = answers_of rows"
proof (cases "rows = []")
  case True
  then show ?thesis using assms by (simp add: answers_of_def)
next
  case False
  then obtain r where r: "r \<in> newest rows" using newest_nonempty by blast
  then have ne: "rows' \<noteq> []" using assms(2) by auto
  have "newest rows' = newest rows"
  proof
    show "newest rows \<subseteq> newest rows'" using assms by (auto simp: newest_def)
    show "newest rows' \<subseteq> newest rows"
    proof
      fix x
      assume x: "x \<in> newest rows'"
      then have "dr_slot r \<le> dr_slot x" using r assms(2) by (auto simp: newest_def)
      then show "x \<in> newest rows" using x r assms(1) by (auto simp: newest_def intro: order_trans)
    qed
  qed
  then show ?thesis using False ne by (simp add: answers_of_def)
qed

lemma answers_of_closed:
  assumes "\<And>r. r \<in> newest rows \<Longrightarrow> dr_lamports r \<le> 0"
  shows "answers_of rows = {None}"
proof (cases "rows = []")
  case False
  have "visible r = None" if "r \<in> newest rows" for r
    using assms [OF that] by (simp add: visible_def)
  then have "visible ` newest rows = (\<lambda>_. None) ` newest rows" by (rule image_cong [OF refl])
  also have "\<dots> = {None}" using newest_nonempty [OF False] by auto
  finally show ?thesis using False by (simp add: answers_of_def)
qed (simp add: answers_of_def)

end
