(* ===== verification/Cleanup.thy ===== *)
theory Cleanup
  imports Tables
begin

text \<open>
  Deferred cleanup (\<open>crates/index/src/modules/cleanup\<close>): the keys a finalized slot contributes, the
  queue of keys per finalized slot, the drain of one window against the two account tables and the
  drainer's round. A statement of the database is applied or not and reports success or not: a
  statement that times out may still have been applied. The statements of one table run concurrently;
  they only delete, so their effect does not depend on the order, and the model runs them in turn.
\<close>

section \<open>Keys\<close>

datatype cleanup_key = CleanupKey (ck_owner: "pubkey option") (ck_pubkey: pubkey)

instantiation cleanup_key :: linorder
begin

definition less_eq_cleanup_key :: "cleanup_key \<Rightarrow> cleanup_key \<Rightarrow> bool" where
  "k \<le> k' \<longleftrightarrow> (ck_owner k, ck_pubkey k) \<le> (ck_owner k', ck_pubkey k')"

definition less_cleanup_key :: "cleanup_key \<Rightarrow> cleanup_key \<Rightarrow> bool" where
  "k < k' \<longleftrightarrow> (ck_owner k, ck_pubkey k) < (ck_owner k', ck_pubkey k')"

instance
proof
  fix x y z :: cleanup_key
  show "x < y \<longleftrightarrow> x \<le> y \<and> \<not> y \<le> x"
    unfolding less_eq_cleanup_key_def less_cleanup_key_def by (rule less_le_not_le)
  show "x \<le> x" unfolding less_eq_cleanup_key_def by (rule order_refl)
  show "x \<le> y \<Longrightarrow> y \<le> z \<Longrightarrow> x \<le> z" unfolding less_eq_cleanup_key_def by (rule order_trans)
  show "x \<le> y \<Longrightarrow> y \<le> x \<Longrightarrow> x = y"
    unfolding less_eq_cleanup_key_def by (drule (1) antisym) (simp add: cleanup_key.expand)
  show "x \<le> y \<or> y \<le> x" unfolding less_eq_cleanup_key_def by (rule linear)
qed

end

datatype key_form = Routed | Unrouted

text \<open>\<open>AccountsReceivedPerBlock\<close> of \<open>indexer.rs\<close>.\<close>

record accounts_received =
  rc_block_time :: "int option"
  rc_accounts :: "u8 list list"
  rc_accounts_owners :: "u8 list list"
  rc_closed_accounts :: "u8 list list"
  rc_closed_cleanup_pubkeys :: "u8 list list"
  rc_closed_cleanup_owners :: "u8 list list"

record taken =
  tk_routed :: "(cleanup_key \<times> u64) list"
  tk_unrouted :: "(cleanup_key \<times> u64) list"
  tk_oldest_stamp :: u64
  tk_oldest_slot :: u64

definition taken_empty :: "taken \<Rightarrow> bool" where
  "taken_empty t \<longleftrightarrow> tk_routed t = [] \<and> tk_unrouted t = []"

definition taken_len :: "taken \<Rightarrow> nat" where
  "taken_len t = length (tk_routed t) + length (tk_unrouted t)"

record derived_keys =
  dk_items :: "(cleanup_key \<times> u64) list"
  dk_uncovered_closes :: nat

text \<open>The loops over pubkeys with their owners: a pubkey that is not 32 bytes long is skipped, an
  owner that is not becomes \<open>None\<close>.\<close>

definition open_items :: "bool \<Rightarrow> accounts_received \<Rightarrow> u64 \<Rightarrow> (cleanup_key \<times> u64) list" where
  "open_items open_routed accounts slot =
     concat (map (\<lambda>(index, pubkey).
       case try_from pubkey of
         None \<Rightarrow> []
       | Some key \<Rightarrow>
           [(CleanupKey (if open_routed then try_from (rc_accounts_owners accounts ! index) else None) key, slot)])
       (enumerate 0 (rc_accounts accounts)))"

definition closed_items :: "accounts_received \<Rightarrow> u64 \<Rightarrow> (cleanup_key \<times> u64) list" where
  "closed_items accounts cutoff =
     concat (map (\<lambda>(pubkey, owner).
       case try_from pubkey of None \<Rightarrow> [] | Some key \<Rightarrow> [(CleanupKey (try_from owner) key, cutoff)])
       (zip (rc_closed_cleanup_pubkeys accounts) (rc_closed_cleanup_owners accounts)))"

definition unrouted_closed_items :: "accounts_received \<Rightarrow> u64 \<Rightarrow> (cleanup_key \<times> u64) list" where
  "unrouted_closed_items accounts cutoff =
     concat (map (\<lambda>pubkey.
       case try_from pubkey of None \<Rightarrow> [] | Some key \<Rightarrow> [(CleanupKey None key, cutoff)])
       (rc_closed_accounts accounts))"

definition keys_for_slot :: "accounts_received \<Rightarrow> u64 \<Rightarrow> bool \<Rightarrow> derived_keys" where
  "keys_for_slot accounts slot owner_map_enabled =
     (let closed_cutoff = saturating_add slot 1;
          open_routed = (owner_map_enabled \<and>
            length (rc_accounts_owners accounts) = length (rc_accounts accounts));
          items = open_items open_routed accounts slot
      in if owner_map_enabled
         then
           let paired = (length (rc_closed_cleanup_owners accounts) = length (rc_closed_cleanup_pubkeys accounts));
               covered = (if paired then rc_closed_cleanup_pubkeys accounts else [])
           in \<lparr>dk_items = items @ (if paired then closed_items accounts closed_cutoff else []),
               dk_uncovered_closes = length (filter (\<lambda>p. \<not> List.member covered p) (rc_closed_accounts accounts))\<rparr>
         else \<lparr>dk_items = items @ unrouted_closed_items accounts closed_cutoff, dk_uncovered_closes = 0\<rparr>)"

section \<open>The queue\<close>

record bucket =
  bk_keys :: "(cleanup_key, u64) fmap"
  bk_stamp :: u64

record pending_cleanup =
  pc_slots :: "(u64, bucket) fmap"
  pc_in_flight_stamp :: "u64 option"
  pc_high_water :: u64
  pc_enqueued_since_drain :: u64
  pc_last_drain_slot :: "u64 option"
  pc_interval_slots :: u64

definition new_pending :: "u64 \<Rightarrow> pending_cleanup" where
  "new_pending interval_slots = \<lparr>pc_slots = fmempty, pc_in_flight_stamp = None, pc_high_water = 0,
     pc_enqueued_since_drain = 0, pc_last_drain_slot = None, pc_interval_slots = interval_slots\<rparr>"

definition merge_key ::
  "cleanup_key \<times> u64 \<Rightarrow> (cleanup_key, u64) fmap \<Rightarrow> (cleanup_key, u64) fmap" where
  "merge_key = (\<lambda>(key, cutoff) keys.
     fmupd key (case fmlookup keys key of None \<Rightarrow> cutoff | Some existing \<Rightarrow> max existing cutoff) keys)"

text \<open>The bucket of a slot, created with a stamp when there is none, with its stamp lowered.\<close>

definition bucket_at :: "u64 \<Rightarrow> u64 \<Rightarrow> pending_cleanup \<Rightarrow> bucket" where
  "bucket_at slot stamp p =
     (let b = (case fmlookup (pc_slots p) slot of None \<Rightarrow> \<lparr>bk_keys = fmempty, bk_stamp = stamp\<rparr> | Some b \<Rightarrow> b)
      in b \<lparr>bk_stamp := min (bk_stamp b) stamp\<rparr>)"

definition enqueue :: "u64 \<Rightarrow> (cleanup_key \<times> u64) list \<Rightarrow> pending_cleanup \<Rightarrow> pending_cleanup \<times> nat" where
  "enqueue slot items p =
     (let p = p \<lparr>pc_high_water := max (pc_high_water p) slot,
                 pc_enqueued_since_drain := saturating_add (pc_enqueued_since_drain p) 1\<rparr>
      in if items = [] then (p, 0)
         else
           let b = bucket_at slot (pc_high_water p) p;
               (keys, coalesced) = fold (\<lambda>item (keys, n).
                 (merge_key item keys, if fmlookup keys (fst item) = None then n else n + 1)) items (bk_keys b, 0)
           in (p \<lparr>pc_slots := fmupd slot (b \<lparr>bk_keys := keys\<rparr>) (pc_slots p)\<rparr>, coalesced))"

record window_loop =
  wl_slots :: "(u64, bucket) fmap"
  wl_merged :: "(cleanup_key, u64) fmap"
  wl_stamp :: "u64 option"
  wl_oldest_slot :: "u64 option"

definition take_slot :: "u64 \<Rightarrow> window_loop \<Rightarrow> window_loop" where
  "take_slot slot w =
     (case fmlookup (wl_slots w) slot of
        None \<Rightarrow> w
      | Some b \<Rightarrow>
          \<lparr>wl_slots = fmdrop slot (wl_slots w),
           wl_merged = fold merge_key (fm_entries (bk_keys b)) (wl_merged w),
           wl_stamp = Some (case wl_stamp w of None \<Rightarrow> bk_stamp b | Some held \<Rightarrow> min held (bk_stamp b)),
           wl_oldest_slot = (case wl_oldest_slot w of None \<Rightarrow> Some slot | some \<Rightarrow> some)\<rparr>)"

definition take_window :: "pending_cleanup \<Rightarrow> pending_cleanup \<times> taken" where
  "take_window p =
     (let window = take (unat (pc_interval_slots p)) (fm_keys (pc_slots p));
          w = fold take_slot window
                \<lparr>wl_slots = pc_slots p, wl_merged = fmempty, wl_stamp = None, wl_oldest_slot = None\<rparr>;
          oldest_stamp = (case wl_stamp w of None \<Rightarrow> pc_high_water p | Some s \<Rightarrow> s);
          t = \<lparr>tk_routed = sort_key fst (filter (\<lambda>(key, _). ck_owner key \<noteq> None) (fm_entries (wl_merged w))),
               tk_unrouted = filter (\<lambda>(key, _). ck_owner key = None) (fm_entries (wl_merged w)),
               tk_oldest_stamp = oldest_stamp,
               tk_oldest_slot = (case wl_oldest_slot w of None \<Rightarrow> pc_high_water p | Some s \<Rightarrow> s)\<rparr>
      in (p \<lparr>pc_slots := wl_slots w,
             pc_in_flight_stamp := (if taken_empty t then None else Some oldest_stamp)\<rparr>, t))"

definition finish :: "pending_cleanup \<Rightarrow> pending_cleanup" where
  "finish p = p \<lparr>pc_in_flight_stamp := None\<rparr>"

definition reinsert :: "taken \<Rightarrow> pending_cleanup \<Rightarrow> pending_cleanup" where
  "reinsert t p =
     (let p' = (if taken_empty t then p
                else
                  let b = bucket_at (tk_oldest_slot t) (tk_oldest_stamp t) p
                  in p \<lparr>pc_slots := fmupd (tk_oldest_slot t)
                         (b \<lparr>bk_keys := fold merge_key (tk_routed t @ tk_unrouted t) (bk_keys b)\<rparr>) (pc_slots p)\<rparr>)
      in p' \<lparr>pc_in_flight_stamp := None\<rparr>)"

definition should_drain :: "pending_cleanup \<Rightarrow> bool" where
  "should_drain p \<longleftrightarrow>
     (let last = (case pc_last_drain_slot p of None \<Rightarrow> pc_high_water p | Some s \<Rightarrow> s)
      in unat (pc_interval_slots p) \<le> fm_size (pc_slots p) \<or>
         pc_interval_slots p \<le> pc_enqueued_since_drain p \<or>
         pc_interval_slots p \<le> saturating_sub (pc_high_water p) last)"

definition has_backlog :: "pending_cleanup \<Rightarrow> bool" where
  "has_backlog p \<longleftrightarrow> unat (pc_interval_slots p) \<le> fm_size (pc_slots p)"

definition note_drain :: "pending_cleanup \<Rightarrow> pending_cleanup" where
  "note_drain p = p \<lparr>pc_enqueued_since_drain := 0, pc_last_drain_slot := Some (pc_high_water p)\<rparr>"

definition lag_slots :: "pending_cleanup \<Rightarrow> u64" where
  "lag_slots p =
     (let stamps = map (\<lambda>(_, b). bk_stamp b) (fm_entries (pc_slots p)) @
                   (case pc_in_flight_stamp p of None \<Rightarrow> [] | Some s \<Rightarrow> [s])
      in case stamps of [] \<Rightarrow> 0 | _ \<Rightarrow> saturating_sub (pc_high_water p) (Min (set stamps)))"

definition is_quiescent :: "pending_cleanup \<Rightarrow> bool" where
  "is_quiescent p \<longleftrightarrow> pc_slots p = fmempty \<and> pc_in_flight_stamp p = None"

text \<open>The handle clamps the interval and says whether an enqueue wakes the drainer.\<close>

definition new_handle :: "u64 \<Rightarrow> pending_cleanup" where
  "new_handle interval_slots = new_pending (max interval_slots 1)"

definition handle_enqueue :: "u64 \<Rightarrow> (cleanup_key \<times> u64) list \<Rightarrow> pending_cleanup \<Rightarrow> pending_cleanup \<times> bool" where
  "handle_enqueue slot items p = (let p = fst (enqueue slot items p) in (p, should_drain p))"

section \<open>Statements\<close>

definition STARTUP_BATCH_SIZE :: nat where "STARTUP_BATCH_SIZE = 500"

datatype stmt_outcome = Applied | Failed bool

text \<open>\<open>cleanup.sql\<close> and \<open>cleanupWithOwner.sql\<close>: the rows one item matches. An unrouted key in the
  routed form would match the owner of zeros.\<close>

definition item_hits :: "key_form \<Rightarrow> cleanup_key \<times> u64 \<Rightarrow> db_row \<Rightarrow> bool" where
  "item_hits form = (\<lambda>(key, cutoff) r.
     (form = Routed \<longrightarrow> dr_owner r = (case ck_owner key of None \<Rightarrow> replicate 32 0 | Some o' \<Rightarrow> to_bytes o')) \<and>
     dr_pubkey r = to_bytes (ck_pubkey key) \<and> dr_slot r < sint cutoff)"

definition delete_rows :: "key_form \<Rightarrow> (cleanup_key \<times> u64) list \<Rightarrow> db_row list \<Rightarrow> db_row list" where
  "delete_rows form items rows = filter (\<lambda>r. \<not> list_ex (\<lambda>i. item_hits form i r) items) rows"

definition run_statement ::
  "stmt_outcome \<Rightarrow> key_form \<Rightarrow> (cleanup_key \<times> u64) list \<Rightarrow> db_row list \<Rightarrow> db_row list \<times> nat option" where
  "run_statement outcome form items rows =
     (if items = [] then (rows, Some 0)
      else case outcome of
             Applied \<Rightarrow> (delete_rows form items rows, Some (length rows - length (delete_rows form items rows)))
           | Failed applied \<Rightarrow> (if applied then delete_rows form items rows else rows, None))"

definition forms :: "taken \<Rightarrow> (key_form \<times> (cleanup_key \<times> u64) list) list" where
  "forms t = [(Routed, tk_routed t), (Unrouted, tk_unrouted t)]"

definition statements :: "nat \<Rightarrow> taken \<Rightarrow> (key_form \<times> (cleanup_key \<times> u64) list) list" where
  "statements batch_size t = concat (map (\<lambda>(form, items). map (Pair form) (chunks batch_size items)) (forms t))"

text \<open>All statements of one table: the outcome of the \<open>n\<close>-th is \<open>outcomes n\<close>.\<close>

fun run_statements ::
  "(nat \<Rightarrow> stmt_outcome) \<Rightarrow> nat \<Rightarrow> (key_form \<times> (cleanup_key \<times> u64) list) list \<Rightarrow> db_row list \<Rightarrow>
   db_row list \<times> (nat \<times> nat) list option" where
  "run_statements outcomes n [] rows = (rows, Some [])"
| "run_statements outcomes n ((form, chunk) # rest) rows =
     (let (rows, deleted) = run_statement (outcomes n) form chunk rows;
          (rows, results) = run_statements outcomes (Suc n) rest rows
      in (rows, case (deleted, results) of
                  (Some d, Some rs) \<Rightarrow> Some ((length chunk, d) # rs)
                | _ \<Rightarrow> None))"

definition run_table ::
  "(nat \<Rightarrow> stmt_outcome) \<Rightarrow> nat \<Rightarrow> taken \<Rightarrow> db_row list \<Rightarrow> db_row list \<times> (nat \<times> nat) list option" where
  "run_table outcomes batch_size t rows = run_statements outcomes 0 (statements batch_size t) rows"

text \<open>\<open>drain_all\<close>: \<open>None\<close> is the error, \<open>Some\<close> the number of keys without an older version.\<close>

definition drain_all ::
  "(nat \<Rightarrow> stmt_outcome) \<Rightarrow> (nat \<Rightarrow> stmt_outcome) \<Rightarrow> taken \<Rightarrow> bool \<Rightarrow> nat \<Rightarrow> db_tables \<Rightarrow> db_tables \<times> nat option" where
  "drain_all snapshot_outcomes accounts_outcomes t skip_snapshot batch_size db =
     (let batch_size = max batch_size 1;
          (snapshot, first) = (if skip_snapshot then (tb_snapshot_accounts db, Some [])
                               else run_table snapshot_outcomes batch_size t (tb_snapshot_accounts db));
          db = db \<lparr>tb_snapshot_accounts := snapshot\<rparr>
      in case first of
           None \<Rightarrow> (db, None)
         | Some _ \<Rightarrow>
             let (accounts, second) = run_table accounts_outcomes batch_size t (tb_accounts db)
             in (db \<lparr>tb_accounts := accounts\<rparr>,
                 map_option (\<lambda>rs. sum_list (map (\<lambda>(keys, deleted). keys - deleted) rs)) second))"

text \<open>The startup one-shot: every chunk runs, the first error is returned.\<close>

definition delete_below_uniform_cutoff ::
  "(nat \<Rightarrow> stmt_outcome) \<Rightarrow> u8 list list \<Rightarrow> u64 \<Rightarrow> db_row list \<Rightarrow> db_row list \<times> nat option" where
  "delete_below_uniform_cutoff outcomes pubkeys cutoff rows =
     (let batches = map (\<lambda>chunk. concat (map (\<lambda>pubkey.
            case try_from pubkey of None \<Rightarrow> [] | Some key \<Rightarrow> [(CleanupKey None key, cutoff)]) chunk))
            (chunks STARTUP_BATCH_SIZE pubkeys);
          (rows, results) = run_statements outcomes 0 (map (Pair Unrouted) batches) rows
      in (rows, map_option (\<lambda>rs. sum_list (map snd rs)) results))"

section \<open>The drainer\<close>

text \<open>One round after a wake: the queue, the tables and whether it drains again at once.\<close>

definition drain_round ::
  "(nat \<Rightarrow> stmt_outcome) \<Rightarrow> (nat \<Rightarrow> stmt_outcome) \<Rightarrow> bool \<Rightarrow> nat \<Rightarrow> pending_cleanup \<times> db_tables \<Rightarrow>
   (pending_cleanup \<times> db_tables) \<times> bool" where
  "drain_round snapshot_outcomes accounts_outcomes is_startup batch_size = (\<lambda>(p, db).
     (let (p, t) = take_window (note_drain p)
      in if taken_empty t then ((finish p, db), False)
         else
           case drain_all snapshot_outcomes accounts_outcomes t is_startup batch_size db of
             (db, Some _) \<Rightarrow> ((finish p, db), has_backlog (finish p))
           | (db, None) \<Rightarrow> ((reinsert t p, db), False)))"

section \<open>The queue as a set of obligations\<close>

text \<open>
  The contract of the queue: it owes cutoffs for keys, and a cutoff for a key stands for every smaller
  one. Queueing adds obligations, taking moves some of them out, putting back restores them.
\<close>

definition stands_for :: "('k \<times> u64) list \<Rightarrow> 'k \<Rightarrow> u64 \<Rightarrow> bool" where
  "stands_for items key cutoff \<longleftrightarrow> (\<exists>c. (key, c) \<in> set items \<and> cutoff \<le> c)"

locale obligation_queue =
  fixes owes :: "'q \<Rightarrow> 'k \<Rightarrow> u64 \<Rightarrow> bool"
    and put :: "u64 \<Rightarrow> ('k \<times> u64) list \<Rightarrow> 'q \<Rightarrow> 'q"
    and take_some :: "'q \<Rightarrow> 'q \<times> 't"
    and items :: "'t \<Rightarrow> ('k \<times> u64) list"
    and give_back :: "'t \<Rightarrow> 'q \<Rightarrow> 'q"
  assumes owes_put: "owes (put slot new q) key c \<longleftrightarrow> owes q key c \<or> stands_for new key c"
    and owes_take: "take_some q = (q', t) \<Longrightarrow> owes q key c \<longleftrightarrow> owes q' key c \<or> stands_for (items t) key c"
    and owes_give_back: "owes (give_back t q) key c \<longleftrightarrow> owes q key c \<or> stands_for (items t) key c"
begin

lemma failed_round: "take_some q = (q', t) \<Longrightarrow> owes (give_back t q') = owes q"
  by (intro ext) (simp add: owes_give_back owes_take)

lemma taken_owed: "take_some q = (q', t) \<Longrightarrow> (key, c) \<in> set (items t) \<Longrightarrow> owes q key c"
  using owes_take [of q q' t key c] by (auto simp: stands_for_def)

lemma dropped_taken:
  "take_some q = (q', t) \<Longrightarrow> owes q key c \<Longrightarrow> \<not> owes q' key c \<Longrightarrow> stands_for (items t) key c"
  using owes_take [of q q' t key c] by simp

end

definition holds :: "(cleanup_key, u64) fmap \<Rightarrow> cleanup_key \<Rightarrow> u64 \<Rightarrow> bool" where
  "holds keys key cutoff \<longleftrightarrow> (\<exists>c. fmlookup keys key = Some c \<and> cutoff \<le> c)"

definition owes :: "pending_cleanup \<Rightarrow> cleanup_key \<Rightarrow> u64 \<Rightarrow> bool" where
  "owes p key cutoff \<longleftrightarrow> (\<exists>slot b. fmlookup (pc_slots p) slot = Some b \<and> holds (bk_keys b) key cutoff)"

lemma holds_merge: "holds (merge_key item keys) key c \<longleftrightarrow> holds keys key c \<or> stands_for [item] key c"
  by (cases item) (auto simp: holds_def merge_key_def stands_for_def le_max_iff_disj split: option.splits)

lemma stands_for_simps [simp]:
  "\<not> stands_for [] key c"
  "stands_for (x # xs) key c \<longleftrightarrow> stands_for [x] key c \<or> stands_for xs key c"
  "stands_for (xs @ ys) key c \<longleftrightarrow> stands_for xs key c \<or> stands_for ys key c"
  by (auto simp: stands_for_def)

declare stands_for_simps(2) [simp del]

lemma holds_merge_all:
  "holds (fold merge_key items keys) key c \<longleftrightarrow> holds keys key c \<or> stands_for items key c"
  by (induction items arbitrary: keys) (auto simp: holds_merge stands_for_simps(2) [of _ "_ # _"] stands_for_def)

lemma stands_for_entries: "stands_for (fm_entries keys) key c \<longleftrightarrow> holds keys key c"
  by (simp add: stands_for_def holds_def)

lemma enqueue_keys:
  "fst (fold (\<lambda>item (keys, n). (merge_key item keys, f item keys n)) items (keys, n)) = fold merge_key items keys"
  by (induction items arbitrary: keys n) simp_all

lemma owes_put_bucket:
  assumes "\<And>b0. fmlookup (pc_slots p) slot = Some b0 \<Longrightarrow> bk_keys b = fold merge_key items (bk_keys b0)"
    and "fmlookup (pc_slots p) slot = None \<Longrightarrow> bk_keys b = fold merge_key items fmempty"
  shows "owes (p \<lparr>pc_slots := fmupd slot b (pc_slots p)\<rparr>) key c \<longleftrightarrow> owes p key c \<or> stands_for items key c"
proof -
  have b: "holds (bk_keys b) key c \<longleftrightarrow>
      (\<exists>b0. fmlookup (pc_slots p) slot = Some b0 \<and> holds (bk_keys b0) key c) \<or> stands_for items key c"
    using assms by (cases "fmlookup (pc_slots p) slot") (simp_all add: holds_merge_all, simp add: holds_def)
  show ?thesis
    unfolding owes_def using b by (auto split: if_splits)
qed

lemma owes_enqueue: "owes (fst (enqueue slot items p)) key c \<longleftrightarrow> owes p key c \<or> stands_for items key c"
proof (cases "items = []")
  case True
  then show ?thesis by (simp add: enqueue_def owes_def)
next
  case False
  let ?p = "p \<lparr>pc_high_water := max (pc_high_water p) slot,
               pc_enqueued_since_drain := saturating_add (pc_enqueued_since_drain p) 1\<rparr>"
  let ?b = "bucket_at slot (pc_high_water ?p) ?p"
  have "fst (enqueue slot items p) = ?p \<lparr>pc_slots := fmupd slot
      (?b \<lparr>bk_keys := fold merge_key items (bk_keys ?b)\<rparr>) (pc_slots ?p)\<rparr>"
    using False
    by (simp add: enqueue_def Let_def split_beta enqueue_keys
        [where f = "\<lambda>item keys n. if fmlookup keys (fst item) = None then n else n + 1", simplified split_beta])
  moreover have "owes ?p = owes p" by (simp add: owes_def fun_eq_iff)
  ultimately show ?thesis
    using owes_put_bucket [of ?p slot "?b \<lparr>bk_keys := fold merge_key items (bk_keys ?b)\<rparr>" items key c]
    by (simp add: bucket_at_def Let_def)
qed

lemma owes_reinsert:
  "owes (reinsert t p) key c \<longleftrightarrow> owes p key c \<or> stands_for (tk_routed t @ tk_unrouted t) key c"
proof (cases "taken_empty t")
  case True
  then show ?thesis by (simp add: reinsert_def owes_def taken_empty_def)
next
  case False
  let ?b = "bucket_at (tk_oldest_slot t) (tk_oldest_stamp t) p"
  let ?b' = "?b \<lparr>bk_keys := fold merge_key (tk_routed t @ tk_unrouted t) (bk_keys ?b)\<rparr>"
  have "owes (reinsert t p) = owes (p \<lparr>pc_slots := fmupd (tk_oldest_slot t) ?b' (pc_slots p)\<rparr>)"
    using False by (simp add: reinsert_def owes_def Let_def fun_eq_iff)
  then show ?thesis
    using owes_put_bucket [of p "tk_oldest_slot t" ?b' "tk_routed t @ tk_unrouted t" key c]
    by (simp add: bucket_at_def Let_def)
qed

text \<open>The loop of \<open>take_window\<close>: what the remaining slots and the merged keys hold together is
  constant.\<close>

definition loop_holds :: "window_loop \<Rightarrow> cleanup_key \<Rightarrow> u64 \<Rightarrow> bool" where
  "loop_holds w key c \<longleftrightarrow> holds (wl_merged w) key c \<or>
     (\<exists>slot b. fmlookup (wl_slots w) slot = Some b \<and> holds (bk_keys b) key c)"

lemma take_slot_holds: "loop_holds (take_slot slot w) = loop_holds w"
proof (intro ext)
  fix key c
  show "loop_holds (take_slot slot w) key c = loop_holds w key c"
  proof (cases "fmlookup (wl_slots w) slot")
    case (Some b)
    then have "loop_holds (take_slot slot w) key c \<longleftrightarrow> holds (wl_merged w) key c \<or> holds (bk_keys b) key c \<or>
        (\<exists>s b. s \<noteq> slot \<and> fmlookup (wl_slots w) s = Some b \<and> holds (bk_keys b) key c)"
      by (auto simp: loop_holds_def take_slot_def holds_merge_all stands_for_entries)
    moreover have "(\<exists>s b. fmlookup (wl_slots w) s = Some b \<and> holds (bk_keys b) key c) \<longleftrightarrow> holds (bk_keys b) key c \<or>
        (\<exists>s b. s \<noteq> slot \<and> fmlookup (wl_slots w) s = Some b \<and> holds (bk_keys b) key c)"
      using Some by (metis option.inject)
    ultimately show ?thesis unfolding loop_holds_def [of w] by blast
  qed (simp add: take_slot_def)
qed

lemma take_slots_holds: "loop_holds (fold take_slot window w) = loop_holds w"
  by (induction window arbitrary: w) (simp_all add: take_slot_holds)

lemma take_window_keys:
  assumes "take_window p = (p', t)"
  shows "\<exists>w. loop_holds w = owes p \<and> pc_slots p' = wl_slots w \<and>
    (\<forall>key c. stands_for (tk_routed t @ tk_unrouted t) key c = holds (wl_merged w) key c)"
proof -
  let ?w0 = "\<lparr>wl_slots = pc_slots p, wl_merged = fmempty, wl_stamp = None, wl_oldest_slot = None\<rparr>"
  define w where "w = fold take_slot (take (unat (pc_interval_slots p)) (fm_keys (pc_slots p))) ?w0"
  have "loop_holds w = loop_holds ?w0" unfolding w_def by (rule take_slots_holds)
  also have "\<dots> = owes p" by (simp add: fun_eq_iff loop_holds_def owes_def holds_def)
  finally have "loop_holds w = owes p" .
  moreover from assms have "pc_slots p' = wl_slots w"
    and "tk_routed t = sort_key fst (filter (\<lambda>(key, _). ck_owner key \<noteq> None) (fm_entries (wl_merged w)))"
    and "tk_unrouted t = filter (\<lambda>(key, _). ck_owner key = None) (fm_entries (wl_merged w))"
    by (auto simp: take_window_def Let_def w_def [symmetric])
  ultimately show ?thesis
    by (intro exI [of _ w]) (auto simp: stands_for_def holds_def)
qed

lemma owes_take_window:
  assumes "take_window p = (p', t)"
  shows "owes p key c \<longleftrightarrow> owes p' key c \<or> stands_for (tk_routed t @ tk_unrouted t) key c"
proof -
  obtain w where "loop_holds w = owes p" "pc_slots p' = wl_slots w"
    "\<forall>key c. stands_for (tk_routed t @ tk_unrouted t) key c = holds (wl_merged w) key c"
    using take_window_keys [OF assms] by blast
  moreover have "loop_holds w key c \<longleftrightarrow> holds (wl_merged w) key c \<or> owes p' key c"
    unfolding loop_holds_def owes_def \<open>pc_slots p' = wl_slots w\<close> ..
  ultimately show ?thesis by metis
qed

interpretation cleanup: obligation_queue owes "\<lambda>slot items p. fst (enqueue slot items p)" take_window
  "\<lambda>t. tk_routed t @ tk_unrouted t" reinsert
  by unfold_locales (simp_all only: owes_enqueue owes_take_window owes_reinsert)

lemma take_window_forms:
  assumes "take_window p = (p', t)"
  shows "(key, c) \<in> set (tk_routed t) \<Longrightarrow> ck_owner key \<noteq> None"
    and "(key, c) \<in> set (tk_unrouted t) \<Longrightarrow> ck_owner key = None"
  using assms by (auto simp: take_window_def Let_def)

section \<open>Drains and reads\<close>

definition stmt_hits :: "key_form \<times> (cleanup_key \<times> u64) list \<Rightarrow> db_row \<Rightarrow> bool" where
  "stmt_hits = (\<lambda>(form, items) r. \<exists>i \<in> set items. item_hits form i r)"

text \<open>Whatever fails, a table ends up without the rows of some of the statements, and without those of
  all of them when none reports an error.\<close>

lemma run_statement_rows:
  "\<exists>A \<subseteq> {(form, items)}. fst (run_statement outcome form items rows) = filter (\<lambda>r. \<not> (\<exists>s \<in> A. stmt_hits s r)) rows
     \<and> (snd (run_statement outcome form items rows) \<noteq> None \<longrightarrow> A = {(form, items)})"
proof (cases "items = [] \<or> outcome = Applied \<or> outcome = Failed True")
  case True
  then show ?thesis
    by (intro exI [of _ "{(form, items)}"])
      (auto simp: run_statement_def delete_rows_def stmt_hits_def list_ex_iff)
next
  case False
  then have "outcome = Failed False" by (cases outcome) auto
  then show ?thesis using False by (intro exI [of _ "{}"]) (simp add: run_statement_def)
qed

lemma run_statements_rows:
  "\<exists>A \<subseteq> set stmts. fst (run_statements outcomes n stmts rows) = filter (\<lambda>r. \<not> (\<exists>s \<in> A. stmt_hits s r)) rows
     \<and> (snd (run_statements outcomes n stmts rows) \<noteq> None \<longrightarrow> A = set stmts)"
proof (induction stmts arbitrary: n rows)
  case (Cons s stmts)
  obtain form items where s: "s = (form, items)" by (cases s)
  obtain rows1 d where r1: "run_statement (outcomes n) form items rows = (rows1, d)" by fastforce
  obtain rows2 rs where r2: "run_statements outcomes (Suc n) stmts rows1 = (rows2, rs)" by fastforce
  obtain A1 where A1: "A1 \<subseteq> {s}" "rows1 = filter (\<lambda>r. \<not> (\<exists>s \<in> A1. stmt_hits s r)) rows" "d \<noteq> None \<longrightarrow> A1 = {s}"
    using run_statement_rows [of form items "outcomes n" rows] r1 by (auto simp: s)
  obtain A2 where A2: "A2 \<subseteq> set stmts" "rows2 = filter (\<lambda>r. \<not> (\<exists>s \<in> A2. stmt_hits s r)) rows1"
    "rs \<noteq> None \<longrightarrow> A2 = set stmts"
    using Cons.IH [of "Suc n" rows1] r2 by auto
  have "fst (run_statements outcomes n (s # stmts) rows) = filter (\<lambda>r. \<not> (\<exists>s \<in> A1 \<union> A2. stmt_hits s r)) rows"
    using r1 r2 A1(2) A2(2) by (auto simp: s intro!: filter_cong)
  moreover have "d \<noteq> None \<and> rs \<noteq> None" if "snd (run_statements outcomes n (s # stmts) rows) \<noteq> None"
    using that r1 r2 by (auto simp: s split: option.splits)
  ultimately show ?case
    using A1(1,3) A2(1,3) by (intro exI [of _ "A1 \<union> A2"]) auto
qed simp

lemma statements_items:
  assumes "0 < batch_size"
  shows "(\<exists>items. (form, items) \<in> set (statements batch_size t) \<and> i \<in> set items) \<longleftrightarrow>
    (form, i) \<in> Pair Routed ` set (tk_routed t) \<union> Pair Unrouted ` set (tk_unrouted t)"
proof -
  have "(\<exists>c \<in> set (chunks batch_size xs). i \<in> set c) \<longleftrightarrow> i \<in> set xs" for xs :: "(cleanup_key \<times> u64) list"
  proof -
    have "set (concat (chunks batch_size xs)) = set xs" using assms by simp
    then show ?thesis by auto
  qed
  note mem = this
  have "(\<exists>items. (form, items) \<in> set (statements batch_size t) \<and> i \<in> set items) \<longleftrightarrow>
      (\<exists>items. (form = Routed \<and> items \<in> set (chunks batch_size (tk_routed t)) \<or>
        form = Unrouted \<and> items \<in> set (chunks batch_size (tk_unrouted t))) \<and> i \<in> set items)"
    by (auto simp: statements_def forms_def)
  also have "\<dots> \<longleftrightarrow> form = Routed \<and> i \<in> set (tk_routed t) \<or> form = Unrouted \<and> i \<in> set (tk_unrouted t)"
    using mem [of "tk_routed t"] mem [of "tk_unrouted t"] by blast
  finally show ?thesis by blast
qed

text \<open>The rows a key stands for, and what a reader needs of the keys a drain takes: each of them stands
  for all the versions of the key it reads or for none, and a cutoff above all of them is that of a
  closed account, whose newest versions are masks and of which one is in \<open>accounts\<close>.\<close>

definition key_matches :: "cleanup_key \<Rightarrow> db_row \<Rightarrow> bool" where
  "key_matches key r \<longleftrightarrow> dr_pubkey r = to_bytes (ck_pubkey key) \<and>
     (case ck_owner key of None \<Rightarrow> True | Some o' \<Rightarrow> dr_owner r = to_bytes o')"

definition newest_masked :: "db_row list \<Rightarrow> db_row list \<Rightarrow> bool" where
  "newest_masked accounts rows \<longleftrightarrow> (\<exists>m \<in> set accounts. \<forall>r \<in> set rows. dr_slot r \<le> dr_slot m \<and>
     (dr_slot r = dr_slot m \<longrightarrow> dr_lamports r \<le> 0))"

definition justified ::
  "(db_row \<Rightarrow> bool) \<Rightarrow> u8 list \<Rightarrow> int \<Rightarrow> db_tables \<Rightarrow> cleanup_key \<times> u64 \<Rightarrow> bool" where
  "justified P key max_slot db = (\<lambda>(k, c).
     (let own = versions P key max_slot (tb_accounts db);
          all = own @ versions P key max_slot (tb_snapshot_accounts db)
      in (\<forall>r \<in> set all. \<not> key_matches k r) \<or>
         (\<forall>r \<in> set all. key_matches k r) \<and>
         ((\<exists>r \<in> set all. sint c \<le> dr_slot r) \<or> newest_masked own all)))"

definition items_of :: "taken \<Rightarrow> (cleanup_key \<times> u64) list" where
  "items_of t = tk_routed t @ tk_unrouted t"

definition well_formed_taken :: "taken \<Rightarrow> bool" where
  "well_formed_taken t \<longleftrightarrow> (\<forall>(k, _) \<in> set (tk_routed t). ck_owner k \<noteq> None) \<and>
     (\<forall>(k, _) \<in> set (tk_unrouted t). ck_owner k = None)"

lemma stmt_hits_iff:
  assumes "well_formed_taken t" and "0 < batch_size" and "s \<in> set (statements batch_size t)"
  shows "stmt_hits s r \<longleftrightarrow> (\<exists>(k, c) \<in> set (snd s). (k, c) \<in> set (items_of t) \<and> key_matches k r \<and> dr_slot r < sint c)"
proof -
  obtain form items where s: "s = (form, items)" by (cases s)
  have "(form, i) \<in> Pair Routed ` set (tk_routed t) \<union> Pair Unrouted ` set (tk_unrouted t)" if "i \<in> set items" for i
    using statements_items [OF assms(2), of form t i] that assms(3) s by blast
  then have "item_hits form (k, c) r \<longleftrightarrow> (k, c) \<in> set (items_of t) \<and> key_matches k r \<and> dr_slot r < sint c"
    if "(k, c) \<in> set items" for k c
    using that assms(1)
    by (fastforce simp: item_hits_def key_matches_def items_of_def well_formed_taken_def split: option.splits)
  then show ?thesis by (force simp: stmt_hits_def s)
qed

lemma masked_answers:
  assumes "newest_masked own all" and "set rows \<subseteq> set all" and "set own \<subseteq> set all"
    and "\<And>m. m \<in> set own \<Longrightarrow> (\<And>r. r \<in> set all \<Longrightarrow> dr_slot r \<le> dr_slot m) \<Longrightarrow> rows \<noteq> [] \<Longrightarrow> m \<in> set rows"
  shows "answers_of rows = {None}"
proof (rule answers_of_closed)
  fix r
  assume r: "r \<in> newest rows"
  then have ne: "rows \<noteq> []" and mem: "r \<in> set rows" by (auto simp: newest_def)
  obtain m where m: "m \<in> set own" "\<And>r. r \<in> set all \<Longrightarrow> dr_slot r \<le> dr_slot m \<and> (dr_slot r = dr_slot m \<longrightarrow> dr_lamports r \<le> 0)"
    using assms(1) unfolding newest_masked_def by blast
  then have "m \<in> set rows" using assms(4) ne by blast
  then have "dr_slot m \<le> dr_slot r" using r by (simp add: newest_def)
  moreover have "r \<in> set all" using mem assms(2) by blast
  ultimately show "dr_lamports r \<le> 0" using m(2) [of r] by fastforce
qed

text \<open>The effect of the statements on the versions one reader sees: \<open>own\<close> are those in \<open>accounts\<close>,
  \<open>snap\<close> those in \<open>snapshot_accounts\<close>, and \<open>hits\<close> says which rows a statement deletes.\<close>

definition covers :: "('s \<Rightarrow> db_row \<Rightarrow> bool) \<Rightarrow> 's \<Rightarrow> db_row list \<Rightarrow> bool" where
  "covers hits s rows \<longleftrightarrow> (\<forall>r \<in> set rows. hits s r)"

lemma partial_delete_answers:
  assumes own': "\<And>r. r \<in> set own' \<longleftrightarrow> r \<in> set own \<and> \<not> (\<exists>s \<in> B. hits s r)"
    and snap': "\<And>r. r \<in> set snap' \<longleftrightarrow> r \<in> set snap \<and> \<not> (\<exists>s \<in> A. hits s r)"
    and newest: "\<And>s r. s \<in> S \<Longrightarrow> r \<in> newest (own @ snap) \<Longrightarrow> hits s r \<Longrightarrow>
        covers hits s (own @ snap) \<and> newest_masked own (own @ snap)"
    and AB: "A \<subseteq> S" "B \<subseteq> S" and order: "B = {} \<or> A = S"
  shows "answers_of (own' @ snap') = answers_of (own @ snap)"
proof -
  let ?all = "own @ snap"
  have sub: "set (own' @ snap') \<subseteq> set ?all" using own' snap' by auto
  show ?thesis
  proof (cases "\<exists>s \<in> A \<union> B. \<exists>r \<in> newest ?all. hits s r")
    case False
    have "newest ?all \<subseteq> set (own' @ snap')"
    proof
      fix r
      assume r: "r \<in> newest ?all"
      then have "\<not> hits s r" if "s \<in> A \<union> B" for s using False that by blast
      moreover have "r \<in> set ?all" using r by (simp add: newest_def)
      ultimately show "r \<in> set (own' @ snap')" using own' snap' by auto
    qed
    from answers_of_cong [OF sub this] show ?thesis .
  next
    case True
    then have masked: "newest_masked own ?all" using newest AB by blast
    have "answers_of (own' @ snap') = {None}"
    proof (rule masked_answers [OF masked sub])
      fix m
      assume m: "m \<in> set own" and top: "\<And>r. r \<in> set ?all \<Longrightarrow> dr_slot r \<le> dr_slot m"
        and ne: "own' @ snap' \<noteq> []"
      show "m \<in> set (own' @ snap')"
      proof (rule ccontr)
        assume "m \<notin> set (own' @ snap')"
        then obtain s where s: "s \<in> B" "hits s m" using m own' by auto
        have "m \<in> newest ?all" using m top by (auto simp: newest_def)
        then have "covers hits s ?all" using newest [of s m] s AB by blast
        then have cover: "\<And>r. r \<in> set ?all \<Longrightarrow> hits s r" by (simp add: covers_def)
        have "s \<in> A" using order s(1) AB by blast
        then have "r \<notin> set snap'" for r using snap' [of r] cover by auto
        moreover have "r \<notin> set own'" for r using own' [of r] s(1) cover by auto
        ultimately show False using ne by (metis append_is_Nil_conv list.set_sel(1))
      qed
    qed simp
    moreover have "answers_of ?all = {None}" by (rule masked_answers [OF masked]) auto
    ultimately show ?thesis by simp
  qed
qed

lemma drain_answers:
  assumes wf: "well_formed_taken t" and bs: "0 < batch_size"
    and just: "\<And>i. i \<in> set (items_of t) \<Longrightarrow> justified P key max_slot db i"
    and AB: "A \<subseteq> set (statements batch_size t)" "B \<subseteq> set (statements batch_size t)"
    and order: "B = {} \<or> A = set (statements batch_size t)"
    and db': "tb_snapshot_accounts db' = filter (\<lambda>r. \<not> (\<exists>s \<in> A. stmt_hits s r)) (tb_snapshot_accounts db)"
             "tb_accounts db' = filter (\<lambda>r. \<not> (\<exists>s \<in> B. stmt_hits s r)) (tb_accounts db)"
  shows "answers P key max_slot db' = answers P key max_slot db"
proof -
  define own snap own' snap' where "own = versions P key max_slot (tb_accounts db)"
    and "snap = versions P key max_slot (tb_snapshot_accounts db)"
    and "own' = versions P key max_slot (tb_accounts db')"
    and "snap' = versions P key max_slot (tb_snapshot_accounts db')"
  note defs = own_def snap_def own'_def snap'_def
  have "answers_of (own' @ snap') = answers_of (own @ snap)"
  proof (rule partial_delete_answers [OF _ _ _ AB order])
    show "r \<in> set own' \<longleftrightarrow> r \<in> set own \<and> \<not> (\<exists>s \<in> B. stmt_hits s r)" for r by (auto simp: defs db')
    show "r \<in> set snap' \<longleftrightarrow> r \<in> set snap \<and> \<not> (\<exists>s \<in> A. stmt_hits s r)" for r by (auto simp: defs db')
    fix s r
    assume s: "s \<in> set (statements batch_size t)" and r: "r \<in> newest (own @ snap)" and "stmt_hits s r"
    then obtain k c where kc: "(k, c) \<in> set (snd s)" "(k, c) \<in> set (items_of t)" "key_matches k r" "dr_slot r < sint c"
      using stmt_hits_iff [OF wf bs s] by blast
    have mem: "r \<in> set (own @ snap)" and below: "\<And>x. x \<in> set (own @ snap) \<Longrightarrow> dr_slot x < sint c"
      using r kc(4) by (force simp: newest_def)+
    have "(\<forall>r \<in> set (own @ snap). \<not> key_matches k r) \<or> (\<forall>r \<in> set (own @ snap). key_matches k r) \<and>
        ((\<exists>r \<in> set (own @ snap). sint c \<le> dr_slot r) \<or> newest_masked own (own @ snap))"
      using just [OF kc(2)] unfolding justified_def Let_def prod.case own_def snap_def .
    then have all: "\<And>x. x \<in> set (own @ snap) \<Longrightarrow> key_matches k x" and "newest_masked own (own @ snap)"
      using mem kc(3) below by (meson leD)+
    moreover have "stmt_hits s x" if "x \<in> set (own @ snap)" for x
      using stmt_hits_iff [OF wf bs s, of x] kc(1,2) all [OF that] below [OF that] by blast
    ultimately show "covers stmt_hits s (own @ snap) \<and> newest_masked own (own @ snap)"
      by (simp add: covers_def)
  qed
  then show ?thesis by (simp add: answers_def defs)
qed

text \<open>The two tables after a drain.\<close>

lemma drain_all_tables:
  assumes "drain_all so ao t skip bs db = (db', res)"
  obtains A B where "A \<subseteq> set (statements (max bs 1) t)" and "B \<subseteq> set (statements (max bs 1) t)"
    and "B = {} \<or> skip \<or> A = set (statements (max bs 1) t)" and "skip \<Longrightarrow> A = {}"
    and "res \<noteq> None \<Longrightarrow> B = set (statements (max bs 1) t)"
    and "tb_snapshot_accounts db' = filter (\<lambda>r. \<not> (\<exists>s \<in> A. stmt_hits s r)) (tb_snapshot_accounts db)"
    and "tb_accounts db' = filter (\<lambda>r. \<not> (\<exists>s \<in> B. stmt_hits s r)) (tb_accounts db)"
proof -
  let ?S = "statements (max bs 1) t"
  obtain snapshot first' where f: "(if skip then (tb_snapshot_accounts db, Some [])
      else run_table so (max bs 1) t (tb_snapshot_accounts db)) = (snapshot, first')" by fastforce
  obtain A where A: "A \<subseteq> set ?S" "skip \<Longrightarrow> A = {}" "\<not> skip \<and> first' \<noteq> None \<longrightarrow> A = set ?S"
    "snapshot = filter (\<lambda>r. \<not> (\<exists>s \<in> A. stmt_hits s r)) (tb_snapshot_accounts db)"
  proof (cases skip)
    case True
    then show ?thesis using f by (intro that [of "{}"]) auto
  next
    case False
    then show ?thesis
      using f run_statements_rows [of ?S so 0 "tb_snapshot_accounts db"] that by (auto simp: run_table_def)
  qed
  show thesis
  proof (cases first')
    case None
    then have "db' = db \<lparr>tb_snapshot_accounts := snapshot\<rparr>" "res = None"
      using assms f by (auto simp: drain_all_def Let_def simp del: One_nat_def)
    then show thesis using A by (intro that [of A "{}"]) auto
  next
    case (Some rs)
    obtain accounts second where g: "run_table ao (max bs 1) t (tb_accounts db) = (accounts, second)" by fastforce
    then obtain B where B: "B \<subseteq> set ?S" "accounts = filter (\<lambda>r. \<not> (\<exists>s \<in> B. stmt_hits s r)) (tb_accounts db)"
      "second \<noteq> None \<longrightarrow> B = set ?S"
      using run_statements_rows [of ?S ao 0 "tb_accounts db"] by (auto simp: run_table_def)
    have "tb_accounts db' = accounts" "tb_snapshot_accounts db' = snapshot" "res \<noteq> None \<Longrightarrow> second \<noteq> None"
      using assms f g Some by (auto simp: drain_all_def Let_def simp del: One_nat_def)
    then show thesis using A B Some by (intro that [of A B]) auto
  qed
qed

lemma take_window_well_formed: "take_window p = (p', t) \<Longrightarrow> well_formed_taken t"
  using take_window_forms by (fastforce simp: well_formed_taken_def)

lemma statement_of_item:
  assumes "0 < bs" and "(k, c) \<in> set (items_of t)"
  obtains s where "s \<in> set (statements bs t)" and "(k, c) \<in> set (snd s)"
proof -
  obtain form where "(form, (k, c)) \<in> Pair Routed ` set (tk_routed t) \<union> Pair Unrouted ` set (tk_unrouted t)"
    using assms(2) by (auto simp: items_of_def)
  then have "\<exists>items. (form, items) \<in> set (statements bs t) \<and> (k, c) \<in> set items"
    using statements_items [OF assms(1), of form t "(k, c)"] by blast
  then show thesis using that by fastforce
qed

section \<open>Properties\<close>

text \<open>C1: Cleanup never changes what a reader sees. Whichever statements of a drain fail or time out,
  applied or not, a read of the newest visible version of a key has the same possible answers after
  the drain as before it: the rows under a mask go before the mask does.\<close>

theorem drain_keeps_reads:
  assumes "take_window p = (p', t)"
    and "\<forall>i \<in> set (items_of t). justified P key max_slot db i"
  shows "answers P key max_slot (fst (drain_all so ao t False bs db)) = answers P key max_slot db"
proof -
  obtain db' res where d: "drain_all so ao t False bs db = (db', res)" by fastforce
  then obtain A B where "A \<subseteq> set (statements (max bs 1) t)" "B \<subseteq> set (statements (max bs 1) t)"
    "B = {} \<or> A = set (statements (max bs 1) t)"
    "tb_snapshot_accounts db' = filter (\<lambda>r. \<not> (\<exists>s \<in> A. stmt_hits s r)) (tb_snapshot_accounts db)"
    "tb_accounts db' = filter (\<lambda>r. \<not> (\<exists>s \<in> B. stmt_hits s r)) (tb_accounts db)"
    by (rule drain_all_tables) auto
  from drain_answers [OF take_window_well_formed [OF assms(1)] _ _ this] assms(2)
  show ?thesis by (simp add: d)
qed

definition wit_row :: "u8 \<Rightarrow> int \<Rightarrow> int \<Rightarrow> db_row" where
  "wit_row owner lamports slot = \<lparr>dr_pubkey = replicate 32 7, dr_owner = replicate 32 owner, dr_lamports = lamports,
     dr_slot = slot, dr_executable = False, dr_rent_epoch = 0, dr_data = [], dr_write_version = 0\<rparr>"

definition wit_db :: db_tables where
  "wit_db = \<lparr>tb_accounts = [wit_row 1 0 20], tb_snapshot_accounts = [wit_row 1 5 10]\<rparr>"

definition wit_queue :: pending_cleanup where
  "wit_queue = fst (enqueue 20 [(CleanupKey (Some (pk 1)) (pk 7), 21)] (new_handle 1))"

lemma wit_window:
  "take_window wit_queue = (new_handle 1 \<lparr>pc_in_flight_stamp := Some 20, pc_high_water := 20, pc_enqueued_since_drain := 1\<rparr>,
     \<lparr>tk_routed = [(CleanupKey (Some (pk 1)) (pk 7), 21)], tk_unrouted = [], tk_oldest_stamp = 20, tk_oldest_slot = 20\<rparr>)"
proof -
  have one: "fm_entries (fmupd k v fmempty) = [(k, v)]" for k :: "'a::linorder" and v :: 'b
    by (simp add: fm_entries_map fm_keys_def fm_eval)
  have keys: "fm_keys (fmupd k v fmempty) = [k]" for k :: u64 and v :: bucket
    by (simp add: fm_keys_def fm_eval)
  have drop: "fmdrop k (fmupd k v fmempty) = fmempty" for k :: u64 and v :: bucket
    by (rule fmap_ext) simp
  show ?thesis
    by (simp add: drop wit_queue_def new_handle_def new_pending_def enqueue_def bucket_at_def merge_key_def
        take_window_def take_slot_def one keys saturating_add_def taken_empty_def Let_def max_def min_def)
qed

theorem drain_keeps_reads_witness:
  "get_program_account (replicate 32 1) (replicate 32 7) 30
     (fst (drain_all (\<lambda>_. Applied) (\<lambda>_. Failed True) (snd (take_window wit_queue)) False 10 wit_db))
   = get_program_account (replicate 32 1) (replicate 32 7) 30 wit_db"
  unfolding get_program_account_def wit_window snd_conv
  by (rule drain_keeps_reads [OF wit_window])
    (simp add: items_of_def justified_def key_matches_def newest_masked_def versions_def wit_db_def wit_row_def)

text \<open>C18: A key leaves the queue only with its rows. After a round of the drainer the queue owes
  nothing it did not owe before; an obligation it no longer owes is met, no row of the key below the
  cutoff is left in either table (only in \<open>accounts\<close> while the snapshot loads), and after a round
  that fails it owes exactly what it owed before.\<close>

theorem round_meets_obligations:
  assumes "drain_round so ao startup bs (p, db) = ((p', db'), again)"
    and "\<forall>key c. owes p key c \<longrightarrow> uint c < 2 ^ 63"
  shows "(\<forall>key c. owes p' key c \<longrightarrow> owes p key c) \<and>
    (\<forall>key c r. owes p key c \<and> \<not> owes p' key c \<and> key_matches key r \<and> dr_slot r < sint c \<longrightarrow>
       r \<notin> set (tb_accounts db') \<and> (startup \<or> r \<notin> set (tb_snapshot_accounts db'))) \<and>
    (\<forall>t q. take_window (note_drain p) = (q, t) \<and> snd (drain_all so ao t startup bs db) = None \<longrightarrow> owes p' = owes p)"
proof -
  obtain q t where w: "take_window (note_drain p) = (q, t)" by fastforce
  obtain db1 res where d: "drain_all so ao t startup bs db = (db1, res)" by fastforce
  have fin: "owes (finish q) = owes q" and noted: "owes (note_drain p) = owes p"
    by (simp_all add: fun_eq_iff owes_def finish_def note_drain_def)
  have took: "owes p key c \<longleftrightarrow> owes q key c \<or> stands_for (items_of t) key c" for key c
    using owes_take_window [OF w] by (simp only: noted items_of_def)
  have restored: "owes (reinsert t q) = owes p" using cleanup.failed_round [OF w] by (simp only: noted)
  consider "taken_empty t" "p' = finish q" "db' = db"
    | "\<not> taken_empty t" "res = None" "p' = reinsert t q" "db' = db1"
    | (succeeds) n where "\<not> taken_empty t" "res = Some n" "p' = finish q" "db' = db1"
    using assms w d by (auto simp: drain_round_def split: if_splits option.splits)
  then show ?thesis
  proof cases
    case 1
    then have "items_of t = []" by (simp add: items_of_def taken_empty_def)
    then have "owes p' = owes p" using took 1 fin by (simp add: fun_eq_iff)
    then show ?thesis by auto
  next
    case 2
    then show ?thesis using restored by auto
  next
    case succeeds
    from d obtain A B where AB: "B = set (statements (max bs 1) t)" "startup \<or> A = set (statements (max bs 1) t)"
      "tb_snapshot_accounts db1 = filter (\<lambda>r. \<not> (\<exists>s \<in> A. stmt_hits s r)) (tb_snapshot_accounts db)"
      "tb_accounts db1 = filter (\<lambda>r. \<not> (\<exists>s \<in> B. stmt_hits s r)) (tb_accounts db)"
    proof (rule drain_all_tables)
      fix A B
      assume "B = {} \<or> startup \<or> A = set (statements (max bs 1) t)"
        "res \<noteq> None \<Longrightarrow> B = set (statements (max bs 1) t)" "A \<subseteq> set (statements (max bs 1) t)"
        "tb_snapshot_accounts db1 = filter (\<lambda>r. \<not> (\<exists>s \<in> A. stmt_hits s r)) (tb_snapshot_accounts db)"
        "tb_accounts db1 = filter (\<lambda>r. \<not> (\<exists>s \<in> B. stmt_hits s r)) (tb_accounts db)"
      moreover have "set (statements (max bs 1) t) \<noteq> {}"
        using succeeds(1) statement_of_item [of "max bs 1" _ _ t]
        by (metis append_is_Nil_conv empty_iff items_of_def last_in_set max.strict_coboundedI2 prod.collapse taken_empty_def zero_less_one)
      ultimately show thesis using succeeds(2) by (intro that [of B A]) auto
    qed
    have gone: "\<exists>s \<in> set (statements (max bs 1) t). stmt_hits s r"
      if "owes p key c" "\<not> owes p' key c" "key_matches key r" "dr_slot r < sint c" for key c r
    proof -
      from that(1,2) succeeds fin took obtain c' where c': "(key, c') \<in> set (items_of t)" "c \<le> c'"
        by (auto simp: stands_for_def)
      obtain s where s: "s \<in> set (statements (max bs 1) t)" "(key, c') \<in> set (snd s)"
        by (rule statement_of_item [OF _ c'(1), of "max bs 1"]) simp
      have "uint c' < 2 ^ 63" using assms(2) took c'(1) by (auto simp: stands_for_def)
      then have "dr_slot r < sint c'" using sint_mono [OF _ c'(2)] that(4) by linarith
      moreover have "0 < max bs 1" by simp
      ultimately have "stmt_hits s r"
        using stmt_hits_iff [OF take_window_well_formed [OF w] _ s(1), of r] s(2) c'(1) that(3) by blast
      then show ?thesis using s(1) by blast
    qed
    then show ?thesis using AB succeeds fin took w d by auto
  qed
qed

lemma wit_owes: "owes wit_queue key c \<longleftrightarrow> key = CleanupKey (Some (pk 1)) (pk 7) \<and> c \<le> 21"
proof -
  have "\<not> owes (new_handle 1) key c" by (simp add: owes_def new_handle_def new_pending_def)
  then show ?thesis unfolding wit_queue_def owes_enqueue by (auto simp: stands_for_def)
qed

theorem round_meets_obligations_witness:
  "let r = drain_round (\<lambda>_. Applied) (\<lambda>_. Applied) False 10 (wit_queue, wit_db); p' = fst (fst r); db' = snd (fst r)
   in (\<forall>key c. owes p' key c \<longrightarrow> owes wit_queue key c) \<and>
    (\<forall>key c r. owes wit_queue key c \<and> \<not> owes p' key c \<and> key_matches key r \<and> dr_slot r < sint c \<longrightarrow>
       r \<notin> set (tb_accounts db') \<and> (False \<or> r \<notin> set (tb_snapshot_accounts db'))) \<and>
    (\<forall>t q. take_window (note_drain wit_queue) = (q, t) \<and>
       snd (drain_all (\<lambda>_. Applied) (\<lambda>_. Applied) t False 10 wit_db) = None \<longrightarrow> owes p' = owes wit_queue)"
proof -
  have "uint c < 2 ^ 63" if "owes wit_queue key c" for key c
  proof -
    have "c \<le> 21" using that unfolding wit_owes by blast
    then have "uint c \<le> 21" by (simp add: word_le_def)
    then show ?thesis by simp
  qed
  then show ?thesis
    unfolding Let_def by (intro round_meets_obligations) (auto simp: prod_eq_iff)
qed

section \<open>The burst of rounds after one wake\<close>

lemma take_slot_slots: "wl_slots (take_slot slot w) = fmdrop slot (wl_slots w)"
  by (cases "fmlookup (wl_slots w) slot") (auto simp: take_slot_def intro!: fmap_ext)

lemma take_slots_lookup:
  "fmlookup (wl_slots (fold take_slot window w)) slot =
     (if slot \<in> set window then None else fmlookup (wl_slots w) slot)"
  by (induction window arbitrary: w) (auto simp: take_slot_slots)

lemma holds_take_slot: "holds (wl_merged w) key c \<Longrightarrow> holds (wl_merged (take_slot slot w)) key c"
  by (cases "fmlookup (wl_slots w) slot") (simp_all add: take_slot_def holds_merge_all)

lemma holds_take_slots: "holds (wl_merged w) key c \<Longrightarrow> holds (wl_merged (fold take_slot window w)) key c"
  by (induction window arbitrary: w) (simp_all add: holds_take_slot)

lemma take_slots_merged:
  assumes "slot \<in> set window" and "fmlookup (wl_slots w) slot = Some b" and "holds (bk_keys b) key c"
  shows "holds (wl_merged (fold take_slot window w)) key c"
  using assms(1,2)
proof (induction window arbitrary: w)
  case (Cons s window)
  show ?case
  proof (cases "s = slot")
    case True
    then have "holds (wl_merged (take_slot s w)) key c"
      using Cons.prems(2) assms(3) by (simp add: take_slot_def holds_merge_all stands_for_entries)
    then show ?thesis by (simp add: holds_take_slots)
  next
    case False
    then show ?thesis using Cons by (simp add: take_slot_slots)
  qed
qed simp

lemma take_window_loop:
  assumes "take_window p = (p', t)"
  obtains w where "w = fold take_slot (take (unat (pc_interval_slots p)) (fm_keys (pc_slots p)))
      \<lparr>wl_slots = pc_slots p, wl_merged = fmempty, wl_stamp = None, wl_oldest_slot = None\<rparr>"
    and "pc_slots p' = wl_slots w" and "pc_interval_slots p' = pc_interval_slots p"
    and "\<forall>k c. (k, c) \<in> set (items_of t) \<longleftrightarrow> fmlookup (wl_merged w) k = Some c"
  by (rule that [OF refl]) (use assms in \<open>auto simp: take_window_def Let_def items_of_def\<close>)

lemma fm_size_minus:
  assumes "\<And>k. fmlookup m' k = (if k \<in> set ks then None else fmlookup m k)" and "distinct ks" and "set ks \<subseteq> fmdom' m"
  shows "fm_size m' = fm_size m - length ks"
proof -
  have "fmdom' m' = fmdom' m - set ks" using assms(1) by (auto simp: fmlookup_dom'_iff split: if_splits)
  then show ?thesis using assms(2,3) by (simp add: fm_size_card card_Diff_subset distinct_card)
qed

lemma take_window_slots:
  assumes "take_window p = (p', t)"
  shows "(\<forall>slot. fmlookup (pc_slots p') slot =
      (if slot \<in> set (take (unat (pc_interval_slots p)) (fm_keys (pc_slots p))) then None
       else fmlookup (pc_slots p) slot))
    \<and> fm_size (pc_slots p') = fm_size (pc_slots p) - unat (pc_interval_slots p)"
proof -
  let ?window = "take (unat (pc_interval_slots p)) (fm_keys (pc_slots p))"
  obtain w where "pc_slots p' = wl_slots w"
    "w = fold take_slot ?window \<lparr>wl_slots = pc_slots p, wl_merged = fmempty, wl_stamp = None, wl_oldest_slot = None\<rparr>"
    by (rule take_window_loop [OF assms])
  then have lookup: "fmlookup (pc_slots p') slot =
      (if slot \<in> set ?window then None else fmlookup (pc_slots p) slot)" for slot
    by (simp add: take_slots_lookup)
  have "set ?window \<subseteq> fmdom' (pc_slots p)" using set_take_subset set_fm_keys by metis
  then have "fm_size (pc_slots p') = fm_size (pc_slots p) - length ?window"
    by (intro fm_size_minus lookup) simp_all
  with lookup show ?thesis by (simp add: min_def)
qed

lemma all_applied: "snd (run_statements (\<lambda>_. Applied) n stmts rows) \<noteq> None"
proof (induction stmts arbitrary: n rows)
  case (Cons s stmts)
  obtain form items where s: "s = (form, items)" by (cases s)
  obtain rows1 d where r1: "run_statement Applied form items rows = (rows1, d)" by fastforce
  then have "d \<noteq> None" by (auto simp: run_statement_def split: if_splits)
  moreover have "snd (run_statements (\<lambda>_. Applied) (Suc n) stmts rows1) \<noteq> None" by (rule Cons.IH)
  ultimately show ?case using r1 by (auto simp: s split_beta split: option.splits)
qed simp

lemma drain_applied: "snd (drain_all (\<lambda>_. Applied) (\<lambda>_. Applied) t skip bs db) \<noteq> None"
  using all_applied [of 0 "statements (max bs 1) t" "tb_snapshot_accounts db"]
    all_applied [of 0 "statements (max bs 1) t" "tb_accounts db"]
  by (auto simp: drain_all_def Let_def run_table_def split_beta split: option.splits simp del: One_nat_def)

text \<open>Rounds follow each other without a wake while a full window is queued; \<open>outcomes n\<close> are those of
  the statements of the \<open>n\<close>-th round, and the fuel bounds the rounds.\<close>

fun drain_burst ::
  "(nat \<Rightarrow> (nat \<Rightarrow> stmt_outcome) \<times> (nat \<Rightarrow> stmt_outcome)) \<Rightarrow> bool \<Rightarrow> nat \<Rightarrow> nat \<Rightarrow> nat \<Rightarrow> pending_cleanup \<times> db_tables \<Rightarrow>
   (pending_cleanup \<times> db_tables) option" where
  "drain_burst outcomes is_startup batch_size n 0 s = None"
| "drain_burst outcomes is_startup batch_size n (Suc fuel) s =
     (let (s, again) = drain_round (fst (outcomes n)) (snd (outcomes n)) is_startup batch_size s
      in if again then drain_burst outcomes is_startup batch_size (Suc n) fuel s else Some s)"

definition buckets_filled :: "pending_cleanup \<Rightarrow> bool" where
  "buckets_filled p \<longleftrightarrow> (\<forall>slot b. fmlookup (pc_slots p) slot = Some b \<longrightarrow> bk_keys b \<noteq> fmempty)"

lemma round_again:
  assumes "drain_round so ao startup bs (p, db) = ((p', db'), True)" and "0 < unat (pc_interval_slots p)"
  shows "fm_size (pc_slots p') < fm_size (pc_slots p)" and "pc_interval_slots p' = pc_interval_slots p"
    and "buckets_filled p \<Longrightarrow> buckets_filled p'"
proof -
  obtain q t where w: "take_window (note_drain p) = (q, t)" by fastforce
  have p': "p' = finish q" and ne: "\<not> taken_empty t"
    using assms(1) w by (auto simp: drain_round_def split: if_splits option.splits prod.splits)
  have np: "pc_slots (note_drain p) = pc_slots p" "pc_interval_slots (note_drain p) = pc_interval_slots p"
    by (simp_all add: note_drain_def)
  note slots = take_window_slots [OF w, unfolded np]
  have "pc_slots p \<noteq> fmempty"
  proof
    assume "pc_slots p = fmempty"
    then have "\<not> owes (note_drain p) key c" for key c by (simp add: owes_def np)
    then have "items_of t = []" using cleanup.taken_owed [OF w] by (metis items_of_def list.set_intros(1) neq_Nil_conv surj_pair)
    then show False using ne by (simp add: items_of_def taken_empty_def)
  qed
  then have "0 < fm_size (pc_slots p)" using fm_size_0_iff by blast
  then show "fm_size (pc_slots p') < fm_size (pc_slots p)" using slots assms(2) by (simp add: p' finish_def)
  show "pc_interval_slots p' = pc_interval_slots p"
    by (rule take_window_loop [OF w]) (simp add: p' finish_def np)
  show "buckets_filled p'" if "buckets_filled p"
    using that slots by (auto simp: buckets_filled_def p' finish_def split: if_splits)
qed

lemma filled_window:
  assumes "take_window p = (p', t)" and "buckets_filled p" and "0 < unat (pc_interval_slots p)" and "taken_empty t"
  shows "pc_slots p = fmempty"
proof (rule ccontr)
  assume "pc_slots p \<noteq> fmempty"
  then have "fm_keys (pc_slots p) \<noteq> []" by (metis fm_size_0_iff length_0_conv length_fm_keys)
  then obtain slot rest where keys: "fm_keys (pc_slots p) = slot # rest" by (cases "fm_keys (pc_slots p)") auto
  then have "slot \<in> fmdom' (pc_slots p)" by (metis list.set_intros(1) set_fm_keys)
  then obtain b where b: "fmlookup (pc_slots p) slot = Some b" by (auto simp: fmlookup_dom'_iff)
  then have "bk_keys b \<noteq> fmempty" using assms(2) by (auto simp: buckets_filled_def)
  then obtain k c where "fmlookup (bk_keys b) k = Some c" by (metis fmap_ext fmempty_lookup option.exhaust)
  then have hold: "holds (bk_keys b) k c" by (auto simp: holds_def)
  obtain w where w: "w = fold take_slot (take (unat (pc_interval_slots p)) (fm_keys (pc_slots p)))
      \<lparr>wl_slots = pc_slots p, wl_merged = fmempty, wl_stamp = None, wl_oldest_slot = None\<rparr>"
    and items: "\<forall>k c. (k, c) \<in> set (items_of t) \<longleftrightarrow> fmlookup (wl_merged w) k = Some c"
    by (rule take_window_loop [OF assms(1)])
  have "holds (wl_merged w) k c"
    unfolding w by (rule take_slots_merged [OF _ _ hold]) (use b keys assms(3) in \<open>auto simp: take_Cons'\<close>)
  then show False using items assms(4) by (auto simp: holds_def items_of_def taken_empty_def)
qed

text \<open>A drain takes the oldest slots of the queue and nothing else: as many as the interval allows,
  in ascending order; the other slots keep their buckets.\<close>

theorem window_takes_oldest:
  assumes "take_window p = (p', t)"
  shows "(\<forall>slot. fmlookup (pc_slots p') slot =
      (if slot \<in> set (take (unat (pc_interval_slots p)) (fm_keys (pc_slots p))) then None
       else fmlookup (pc_slots p) slot))
    \<and> fm_size (pc_slots p') = fm_size (pc_slots p) - unat (pc_interval_slots p)"
  by (rule take_window_slots [OF assms])

theorem window_takes_oldest_witness:
  "(\<forall>slot. fmlookup (pc_slots (fst (take_window wit_queue))) slot =
      (if slot \<in> set (take (unat (pc_interval_slots wit_queue)) (fm_keys (pc_slots wit_queue))) then None
       else fmlookup (pc_slots wit_queue) slot))
    \<and> fm_size (pc_slots (fst (take_window wit_queue))) = fm_size (pc_slots wit_queue) - unat (pc_interval_slots wit_queue)"
  by (rule window_takes_oldest [OF prod.collapse [symmetric]])

text \<open>C19: The drainer goes back to sleep: with one more round than there are queued slots a burst ends,
  whatever statements fail, and when none fails less than a full window stays queued.\<close>

theorem burst_ends:
  assumes "0 < unat (pc_interval_slots p)" and "buckets_filled p" and "fm_size (pc_slots p) < fuel"
  shows "\<exists>p' db'. drain_burst outcomes startup bs n fuel (p, db) = Some (p', db')
    \<and> ((\<forall>i. outcomes i = (\<lambda>_. Applied, \<lambda>_. Applied)) \<longrightarrow> \<not> has_backlog p')"
  using assms
proof (induction fuel arbitrary: n p db)
  case (Suc fuel)
  obtain p1 db1 again where r: "drain_round (fst (outcomes n)) (snd (outcomes n)) startup bs (p, db) = ((p1, db1), again)"
    by (metis surj_pair)
  show ?case
  proof (cases again)
    case True
    then have "drain_round (fst (outcomes n)) (snd (outcomes n)) startup bs (p, db) = ((p1, db1), True)"
      using r by simp
    note next' = round_again [OF this Suc.prems(1)]
    have "\<exists>p' db'. drain_burst outcomes startup bs (Suc n) fuel (p1, db1) = Some (p', db')
        \<and> ((\<forall>i. outcomes i = (\<lambda>_. Applied, \<lambda>_. Applied)) \<longrightarrow> \<not> has_backlog p')"
      by (rule Suc.IH) (use next' Suc.prems in auto)
    then show ?thesis using r True by simp
  next
    case False
    have "\<not> has_backlog p1" if all: "\<forall>i. outcomes i = (\<lambda>_. Applied, \<lambda>_. Applied)"
    proof -
      obtain q t where w: "take_window (note_drain p) = (q, t)" by fastforce
      have "snd (drain_all (\<lambda>_. Applied) (\<lambda>_. Applied) t startup bs db) \<noteq> None" by (rule drain_applied)
      then consider "taken_empty t" "p1 = finish q" | "p1 = finish q" "\<not> has_backlog (finish q)"
        using r w False all by (auto simp: drain_round_def split_beta split: if_splits option.splits prod.splits)
      then show ?thesis
      proof cases
        case 1
        have "pc_slots (note_drain p) = fmempty"
          by (rule filled_window [OF w]) (use Suc.prems 1 in \<open>auto simp: note_drain_def buckets_filled_def\<close>)
        then have "fm_size (pc_slots q) = 0" using take_window_slots [OF w] by simp
        moreover have "pc_interval_slots q = pc_interval_slots p"
          by (rule take_window_loop [OF w]) (simp add: note_drain_def)
        ultimately show ?thesis using Suc.prems(1) 1 by (simp add: has_backlog_def finish_def del: fm_size_0_iff)
      qed simp
    qed
    then show ?thesis using r False by auto
  qed
qed simp

theorem burst_ends_witness:
  "\<exists>p' db'. drain_burst (\<lambda>_. (\<lambda>_. Applied, \<lambda>_. Applied)) False 10 0 2 (wit_queue, wit_db) = Some (p', db')
    \<and> ((\<forall>i::nat. (\<lambda>_. (\<lambda>_. Applied, \<lambda>_. Applied)) i = (\<lambda>_::nat. Applied, \<lambda>_::nat. Applied)) \<longrightarrow> \<not> has_backlog p')"
proof (rule burst_ends)
  show "0 < unat (pc_interval_slots wit_queue)" "buckets_filled wit_queue" "fm_size (pc_slots wit_queue) < 2"
    by (auto simp: wit_queue_def new_handle_def new_pending_def enqueue_def bucket_at_def merge_key_def Let_def
        buckets_filled_def fm_size_upd split: if_splits)
qed

end
