(* ===== verification/Finalizer.thy ===== *)
theory Finalizer
  imports Cleanup
begin

text \<open>
  Finalization (\<open>crates/index/src/modules/finalize_slot.rs\<close>) with the service health
  (\<open>health.rs\<close>, \<open>core/src/modules/service_health.rs\<close>) and the \<open>slots\<close> rows it writes
  (\<open>db_queries.rs\<close>): the map of confirmed blocks, the ordered queue of finalized slots, the walk over
  ancestors whose notification was missed, and the effects of finalizing a slot. The one-shot cleanup
  after startup runs in a task of its own: \<open>finalize_slot\<close> returns it and \<open>startup_cleanup_done\<close> is its
  end. The outcome of a statement is an argument.
\<close>

section \<open>Health and slots\<close>

datatype health_reason = Startup | GapFill

datatype commitment = Confirmed | Finalized

record slot_row =
  sr_slot :: int
  sr_block_time :: int
  sr_health :: bool
  sr_blockhash :: "string option"

record node_rows =
  nr_healthy :: "bool option"
  nr_slots :: "commitment \<Rightarrow> slot_row option"

text \<open>The transaction of \<open>update_service_health\<close>: the health row and the flag of every slot row.\<close>

definition update_service_health :: "bool \<Rightarrow> bool \<Rightarrow> node_rows \<Rightarrow> node_rows" where
  "update_service_health db_ok healthy rows =
     (if db_ok
      then \<lparr>nr_healthy = Some healthy,
            nr_slots = (\<lambda>c. map_option (\<lambda>r. r \<lparr>sr_health := healthy\<rparr>) (nr_slots rows c))\<rparr>
      else rows)"

definition is_healthy_row :: "node_rows \<Rightarrow> bool" where
  "is_healthy_row rows = (case nr_healthy rows of None \<Rightarrow> False | Some h \<Rightarrow> h)"

text \<open>\<open>INSERT ... ON CONFLICT (commitment) DO UPDATE ... WHERE excluded.slot > slots.slot\<close>; the health flag
  is only written on insert.\<close>

definition insert_slot ::
  "bool \<Rightarrow> u64 \<Rightarrow> int option \<Rightarrow> string option \<Rightarrow> commitment \<Rightarrow> bool \<Rightarrow> node_rows \<Rightarrow> node_rows" where
  "insert_slot db_ok slot block_time blockhash commitment healthy rows =
     (let time = (case block_time of None \<Rightarrow> 0 | Some t \<Rightarrow> t)
      in if \<not> db_ok then rows
         else
           case nr_slots rows commitment of
             None \<Rightarrow> rows \<lparr>nr_slots := (nr_slots rows)(commitment \<mapsto>
               \<lparr>sr_slot = sint slot, sr_block_time = time, sr_health = healthy, sr_blockhash = blockhash\<rparr>)\<rparr>
           | Some r \<Rightarrow>
               if sr_slot r < sint slot
               then rows \<lparr>nr_slots := (nr_slots rows)(commitment \<mapsto>
                 r \<lparr>sr_slot := sint slot, sr_block_time := time, sr_blockhash := blockhash\<rparr>)\<rparr>
               else rows)"

record service_health =
  sh_reasons :: "health_reason fset"
  sh_rows :: node_rows

definition health_new :: "node_rows \<Rightarrow> service_health" where
  "health_new rows = \<lparr>sh_reasons = {|Startup|}, sh_rows = rows\<rparr>"

definition health_ok :: "service_health \<Rightarrow> bool" where
  "health_ok h \<longleftrightarrow> sh_reasons h = {||}"

definition add_reason :: "bool \<Rightarrow> health_reason \<Rightarrow> service_health \<Rightarrow> service_health" where
  "add_reason db_ok reason h =
     (if reason |\<in>| sh_reasons h then h
      else \<lparr>sh_reasons = finsert reason (sh_reasons h), sh_rows = update_service_health db_ok False (sh_rows h)\<rparr>)"

definition remove_reason :: "bool \<Rightarrow> health_reason \<Rightarrow> service_health \<Rightarrow> service_health" where
  "remove_reason db_ok reason h =
     (let reasons = sh_reasons h |-| {|reason|}
      in \<lparr>sh_reasons = reasons,
          sh_rows = (if reason |\<in>| sh_reasons h \<and> reasons = {||}
                     then update_service_health db_ok True (sh_rows h) else sh_rows h)\<rparr>)"

section \<open>State\<close>

datatype snapshot_state = NotStarted | Started | Finished | FinishedAndCleanedUp

datatype pause_reason = GapFillPause

record block_entry =
  be_accounts :: accounts_received
  be_blockhash :: string
  be_parent_slot :: u64
  be_parent_blockhash :: string

definition default_entry :: block_entry where
  "default_entry = \<lparr>be_accounts = \<lparr>rc_block_time = None, rc_accounts = [], rc_accounts_owners = [],
       rc_closed_accounts = [], rc_closed_cleanup_pubkeys = [], rc_closed_cleanup_owners = []\<rparr>,
     be_blockhash = [], be_parent_slot = 0, be_parent_blockhash = []\<rparr>"

record finalizer_inner =
  fi_blocks :: "(u64, block_entry) fmap"
  fi_pending :: "u64 fset"
  fi_pause_reasons :: "pause_reason fset"

record finalizer =
  fz_inner :: finalizer_inner
  fz_startup_accounts :: "u8 list fset"
  fz_snapshot_state :: snapshot_state
  fz_health :: service_health
  fz_prune_slot :: u64
  fz_cleanup :: pending_cleanup
  fz_bound :: nat
  fz_owner_map_enabled :: bool

definition new_inner :: finalizer_inner where
  "new_inner = \<lparr>fi_blocks = fmempty, fi_pending = {||}, fi_pause_reasons = {||}\<rparr>"

definition spawn_finalizer :: "node_rows \<Rightarrow> u64 \<Rightarrow> nat \<Rightarrow> bool \<Rightarrow> finalizer" where
  "spawn_finalizer rows interval bound owner_map_enabled =
     \<lparr>fz_inner = new_inner, fz_startup_accounts = {||}, fz_snapshot_state = NotStarted,
      fz_health = health_new rows, fz_prune_slot = 0, fz_cleanup = new_handle interval,
      fz_bound = bound, fz_owner_map_enabled = owner_map_enabled\<rparr>"

section \<open>The queue of finalized slots\<close>

definition record_block ::
  "u64 \<Rightarrow> accounts_received \<Rightarrow> string \<Rightarrow> u64 \<Rightarrow> string \<Rightarrow> finalizer_inner \<Rightarrow> finalizer_inner" where
  "record_block slot accounts blockhash parent_slot parent_blockhash inner =
     inner \<lparr>fi_blocks := fmupd slot \<lparr>be_accounts = accounts, be_blockhash = blockhash,
       be_parent_slot = parent_slot, be_parent_blockhash = parent_blockhash\<rparr> (fi_blocks inner)\<rparr>"

text \<open>One turn of \<open>note_finalized\<close>: \<open>None\<close> is waiting for space.\<close>

definition note_finalized :: "nat \<Rightarrow> u64 \<Rightarrow> finalizer_inner \<Rightarrow> finalizer_inner option" where
  "note_finalized bound slot inner =
     (if fcard (fi_pending inner) < bound then Some (inner \<lparr>fi_pending := finsert slot (fi_pending inner)\<rparr>)
      else None)"

definition enqueue_unbounded :: "u64 \<Rightarrow> finalizer_inner \<Rightarrow> finalizer_inner" where
  "enqueue_unbounded slot inner = inner \<lparr>fi_pending := finsert slot (fi_pending inner)\<rparr>"

definition pause :: "bool \<Rightarrow> finalizer \<Rightarrow> finalizer" where
  "pause db_ok fz =
     (if GapFillPause |\<in>| fi_pause_reasons (fz_inner fz) then fz
      else fz \<lparr>fz_inner := (fz_inner fz) \<lparr>fi_pause_reasons := finsert GapFillPause (fi_pause_reasons (fz_inner fz))\<rparr>,
               fz_health := add_reason db_ok GapFill (fz_health fz)\<rparr>)"

definition resume :: "bool \<Rightarrow> finalizer \<Rightarrow> finalizer" where
  "resume db_ok fz =
     fz \<lparr>fz_inner := (fz_inner fz) \<lparr>fi_pause_reasons := fi_pause_reasons (fz_inner fz) |-| {|GapFillPause|}\<rparr>,
         fz_health := remove_reason db_ok GapFill (fz_health fz)\<rparr>"

section \<open>Ancestors\<close>

text \<open>The loop of \<open>get_slot_ancestors\<close>; the chain is collected newest first.\<close>

function walk_ancestors ::
  "u64 \<Rightarrow> string \<Rightarrow> finalizer_inner \<Rightarrow> (u64 \<times> block_entry) list \<Rightarrow> finalizer_inner \<times> (u64 \<times> block_entry) list" where
  "walk_ancestors parent_slot parent_hash inner chain =
     (case fmlookup (fi_blocks inner) parent_slot of
        None \<Rightarrow> (inner, chain)
      | Some parent \<Rightarrow>
          if parent_hash \<noteq> [] \<and> be_blockhash parent = parent_hash
          then walk_ancestors (be_parent_slot parent) (be_parent_blockhash parent)
                 (inner \<lparr>fi_blocks := fmdrop parent_slot (fi_blocks inner),
                         fi_pending := fi_pending inner |-| {|parent_slot|}\<rparr>)
                 (chain @ [(parent_slot, parent)])
          else (inner, chain))"
  by pat_completeness auto

termination walk_ancestors
proof (relation "measure (\<lambda>(_, _, inner, _). fm_size (fi_blocks inner))")
  fix parent_slot parent_hash and inner :: finalizer_inner and chain parent
  assume "fmlookup (fi_blocks inner) parent_slot = Some parent"
  moreover from this have "fi_blocks inner \<noteq> fmempty" by auto
  then have "0 < fm_size (fi_blocks inner)" using fm_size_0_iff by blast
  ultimately show "((be_parent_slot parent, be_parent_blockhash parent,
      inner \<lparr>fi_blocks := fmdrop parent_slot (fi_blocks inner), fi_pending := fi_pending inner |-| {|parent_slot|}\<rparr>,
      chain @ [(parent_slot, parent)]), parent_slot, parent_hash, inner, chain)
    \<in> measure (\<lambda>(_, _, inner, _). fm_size (fi_blocks inner))"
    by (simp add: fm_size_drop)
qed simp

declare walk_ancestors.simps [simp del]

definition get_slot_ancestors :: "u64 \<Rightarrow> finalizer_inner \<Rightarrow> finalizer_inner \<times> (u64 \<times> block_entry) list" where
  "get_slot_ancestors slot inner =
     (let entry = (case fmlookup (fi_blocks inner) slot of None \<Rightarrow> default_entry | Some e \<Rightarrow> e);
          inner = inner \<lparr>fi_blocks := fmdrop slot (fi_blocks inner)\<rparr>;
          (inner, chain) = walk_ancestors (be_parent_slot entry) (be_parent_blockhash entry) inner [(slot, entry)]
      in (inner, rev chain))"

section \<open>Finalizing a slot\<close>

definition is_startup :: "finalizer \<Rightarrow> bool" where
  "is_startup fz \<longleftrightarrow> fz_snapshot_state fz = NotStarted \<or> fz_snapshot_state fz = Started"

definition finish_startup_without_snapshot :: "bool \<Rightarrow> finalizer \<Rightarrow> finalizer" where
  "finish_startup_without_snapshot db_ok fz =
     (if fz_snapshot_state fz \<noteq> NotStarted then fz
      else fz \<lparr>fz_snapshot_state := FinishedAndCleanedUp, fz_health := remove_reason db_ok Startup (fz_health fz)\<rparr>)"

definition add_batch_to_cache_during_startup :: "u8 list list \<Rightarrow> finalizer \<Rightarrow> finalizer" where
  "add_batch_to_cache_during_startup batch fz =
     fz \<lparr>fz_startup_accounts := fz_startup_accounts fz |\<union>| fset_of_list batch\<rparr>"

text \<open>The spawned one-shot: the accounts it deletes below the slot.\<close>

type_synonym startup_job = "u8 list fset \<times> u64"

definition cleanup_stored_accounts_once :: "u64 \<Rightarrow> finalizer \<Rightarrow> finalizer \<times> startup_job option" where
  "cleanup_stored_accounts_once slot fz =
     (if is_startup fz \<or> fz_startup_accounts fz = {||} then (fz, None)
      else (fz \<lparr>fz_startup_accounts := {||}\<rparr>, Some (fz_startup_accounts fz, slot)))"

definition startup_cleanup_done :: "bool \<Rightarrow> bool \<Rightarrow> finalizer \<Rightarrow> finalizer" where
  "startup_cleanup_done deleted_ok db_ok fz =
     (if deleted_ok
      then fz \<lparr>fz_snapshot_state := FinishedAndCleanedUp, fz_health := remove_reason db_ok Startup (fz_health fz)\<rparr>
      else fz)"

definition finalize_slot ::
  "bool \<Rightarrow> u64 \<Rightarrow> accounts_received \<Rightarrow> finalizer \<Rightarrow> finalizer \<times> startup_job option" where
  "finalize_slot db_ok slot accounts fz =
     (let fz = fz \<lparr>fz_health := (fz_health fz) \<lparr>sh_rows :=
                 insert_slot db_ok slot (rc_block_time accounts) None Finalized (health_ok (fz_health fz))
                   (sh_rows (fz_health fz))\<rparr>\<rparr>;
          (fz, job) = cleanup_stored_accounts_once slot fz;
          derived = keys_for_slot accounts slot (fz_owner_map_enabled fz);
          fz = (if is_startup fz
                then add_batch_to_cache_during_startup
                       (map (\<lambda>(key, _). to_bytes (ck_pubkey key)) (dk_items derived) @ rc_closed_accounts accounts) fz
                else fz)
      in (fz \<lparr>fz_prune_slot := slot, fz_cleanup := fst (enqueue slot (dk_items derived) (fz_cleanup fz))\<rparr>, job))"

fun finalize_chain ::
  "(u64 \<Rightarrow> bool) \<Rightarrow> (u64 \<times> block_entry) list \<Rightarrow> finalizer \<Rightarrow> finalizer \<times> startup_job list" where
  "finalize_chain db_ok [] fz = (fz, [])"
| "finalize_chain db_ok ((slot, entry) # chain) fz =
     (let (fz, job) = finalize_slot (db_ok slot) slot (be_accounts entry) fz;
          (fz, jobs) = finalize_chain db_ok chain fz
      in (fz, (case job of None \<Rightarrow> jobs | Some j \<Rightarrow> j # jobs)))"

definition finalize_slot_with_ancestors ::
  "(u64 \<Rightarrow> bool) \<Rightarrow> u64 \<Rightarrow> finalizer \<Rightarrow> finalizer \<times> startup_job list" where
  "finalize_slot_with_ancestors db_ok slot fz =
     (let (inner, ancestors) = get_slot_ancestors slot (fz_inner fz)
      in finalize_chain db_ok ancestors (fz \<lparr>fz_inner := inner\<rparr>))"

text \<open>One turn of the inner loop of \<open>run_worker\<close>: \<open>None\<close> when it breaks.\<close>

definition worker_step :: "(u64 \<Rightarrow> bool) \<Rightarrow> finalizer \<Rightarrow> (finalizer \<times> startup_job list) option" where
  "worker_step db_ok fz =
     (if fi_pause_reasons (fz_inner fz) \<noteq> {||} then None
      else case sorted_list_of_fset (fi_pending (fz_inner fz)) of
             [] \<Rightarrow> None
           | slot # _ \<Rightarrow>
               Some (finalize_slot_with_ancestors db_ok slot (fz \<lparr>fz_inner :=
                 (fz_inner fz) \<lparr>fi_pending := fi_pending (fz_inner fz) |-| {|slot|}\<rparr>\<rparr>)))"

text \<open>The inner loop of \<open>run_worker\<close> until it breaks, with fuel for its turns.\<close>

fun worker_run :: "(u64 \<Rightarrow> bool) \<Rightarrow> nat \<Rightarrow> finalizer \<Rightarrow> finalizer option" where
  "worker_run db_ok 0 fz = None"
| "worker_run db_ok (Suc fuel) fz =
     (case worker_step db_ok fz of None \<Rightarrow> Some fz | Some (fz, _) \<Rightarrow> worker_run db_ok fuel fz)"

section \<open>The walk\<close>

text \<open>A list of blocks, newest first, that follows the parent pointers from a slot and a hash.\<close>

fun links :: "u64 \<Rightarrow> string \<Rightarrow> (u64 \<times> block_entry) list \<Rightarrow> bool" where
  "links slot hash [] \<longleftrightarrow> True"
| "links slot hash ((s, e) # chain) \<longleftrightarrow> s = slot \<and> hash \<noteq> [] \<and> be_blockhash e = hash \<and>
     links (be_parent_slot e) (be_parent_blockhash e) chain"

text \<open>The parent the walk looks for next, and that it does not find.\<close>

definition next_parent :: "(u64 \<times> block_entry) list \<Rightarrow> u64 \<times> string \<Rightarrow> u64 \<times> string" where
  "next_parent chain start = (case rev chain of [] \<Rightarrow> start | (_, e) # _ \<Rightarrow> (be_parent_slot e, be_parent_blockhash e))"

definition has_parent :: "finalizer_inner \<Rightarrow> u64 \<times> string \<Rightarrow> bool" where
  "has_parent inner = (\<lambda>(slot, hash). hash \<noteq> [] \<and>
     (\<exists>e. fmlookup (fi_blocks inner) slot = Some e \<and> be_blockhash e = hash))"

lemma next_parent_Cons [simp]:
  "next_parent ((s, e) # chain) start = next_parent chain (be_parent_slot e, be_parent_blockhash e)"
  by (cases chain rule: rev_cases) (auto simp: next_parent_def)

definition taken_out :: "u64 set \<Rightarrow> finalizer_inner \<Rightarrow> finalizer_inner \<Rightarrow> bool" where
  "taken_out slots inner inner' \<longleftrightarrow>
     (\<forall>s. fmlookup (fi_blocks inner') s = (if s \<in> slots then None else fmlookup (fi_blocks inner) s)) \<and>
     fi_pause_reasons inner' = fi_pause_reasons inner"

lemma walk_ancestors_spec:
  assumes "walk_ancestors slot hash inner chain = (inner', chain')"
  shows "\<exists>ext. chain' = chain @ ext \<and> links slot hash ext \<and> distinct (map fst ext) \<and>
    (\<forall>(s, e) \<in> set ext. fmlookup (fi_blocks inner) s = Some e) \<and>
    taken_out (fst ` set ext) inner inner' \<and>
    fset (fi_pending inner') = fset (fi_pending inner) - fst ` set ext \<and>
    \<not> has_parent inner' (next_parent ext (slot, hash))"
  using assms
proof (induction slot hash inner chain rule: walk_ancestors.induct)
  case (1 slot hash inner chain)
  show ?case
  proof (cases "has_parent inner (slot, hash)")
    case False
    then have "inner' = inner" "chain' = chain"
      using 1(2) by (subst (asm) walk_ancestors.simps, auto simp: has_parent_def split: option.splits if_splits)+
    with False show ?thesis by (intro exI [of _ "[]"]) (simp add: taken_out_def next_parent_def)
  next
    case True
    then obtain e where e: "fmlookup (fi_blocks inner) slot = Some e" and h: "hash \<noteq> [] \<and> be_blockhash e = hash"
      by (auto simp: has_parent_def)
    let ?inner = "inner \<lparr>fi_blocks := fmdrop slot (fi_blocks inner), fi_pending := fi_pending inner |-| {|slot|}\<rparr>"
    have "walk_ancestors (be_parent_slot e) (be_parent_blockhash e) ?inner (chain @ [(slot, e)]) = (inner', chain')"
      using 1(2) e h by (subst (asm) walk_ancestors.simps) simp
    from 1(1) [OF e h this] obtain ext where ext: "chain' = (chain @ [(slot, e)]) @ ext"
      "links (be_parent_slot e) (be_parent_blockhash e) ext" "distinct (map fst ext)"
      "\<forall>(s, e') \<in> set ext. fmlookup (fi_blocks ?inner) s = Some e'"
      "taken_out (fst ` set ext) ?inner inner'"
      "fset (fi_pending inner') = fset (fi_pending ?inner) - fst ` set ext"
      "\<not> has_parent inner' (next_parent ext (be_parent_slot e, be_parent_blockhash e))"
      by blast
    have "slot \<notin> fst ` set ext" using ext(4) by auto
    with ext e h show ?thesis
      by (intro exI [of _ "(slot, e) # ext"]) (auto simp: taken_out_def split: if_splits)
  qed
qed

lemma get_slot_ancestors_spec:
  assumes "get_slot_ancestors slot inner = (inner', chain)"
  obtains entry ext where "entry = (case fmlookup (fi_blocks inner) slot of None \<Rightarrow> default_entry | Some e \<Rightarrow> e)"
    and "chain = rev ((slot, entry) # ext)" and "links (be_parent_slot entry) (be_parent_blockhash entry) ext"
    and "distinct (map fst ((slot, entry) # ext))"
    and "\<forall>(s, e) \<in> set ext. fmlookup (fi_blocks inner) s = Some e"
    and "taken_out (insert slot (fst ` set ext)) inner inner'"
    and "fset (fi_pending inner') = fset (fi_pending inner) - fst ` set ext"
    and "\<not> has_parent inner' (next_parent ((slot, entry) # ext) (slot, []))"
proof -
  define entry where "entry = (case fmlookup (fi_blocks inner) slot of None \<Rightarrow> default_entry | Some e \<Rightarrow> e)"
  let ?inner = "inner \<lparr>fi_blocks := fmdrop slot (fi_blocks inner)\<rparr>"
  obtain chain' where w: "walk_ancestors (be_parent_slot entry) (be_parent_blockhash entry) ?inner [(slot, entry)] = (inner', chain')"
    and "chain = rev chain'"
    using assms by (auto simp: get_slot_ancestors_def entry_def Let_def split: prod.splits)
  with walk_ancestors_spec [OF w] obtain ext where ext: "chain = rev ((slot, entry) # ext)"
    "links (be_parent_slot entry) (be_parent_blockhash entry) ext" "distinct (map fst ext)"
    "\<forall>(s, e') \<in> set ext. fmlookup (fi_blocks ?inner) s = Some e'" "taken_out (fst ` set ext) ?inner inner'"
    "fset (fi_pending inner') = fset (fi_pending ?inner) - fst ` set ext"
    "\<not> has_parent inner' (next_parent ext (be_parent_slot entry, be_parent_blockhash entry))"
    by auto
  have "slot \<notin> fst ` set ext" using ext(4) by auto
  show thesis
    by (rule that [of entry ext])
      (use ext \<open>slot \<notin> fst ` set ext\<close> in \<open>auto simp: entry_def taken_out_def split: if_splits\<close>)
qed

section \<open>Finalizing a chain\<close>

lemma finalize_slot_fields [simp]:
  "fz_inner (fst (finalize_slot db_ok slot accounts fz)) = fz_inner fz"
  "fz_owner_map_enabled (fst (finalize_slot db_ok slot accounts fz)) = fz_owner_map_enabled fz"
  "fz_bound (fst (finalize_slot db_ok slot accounts fz)) = fz_bound fz"
  "fz_cleanup (fst (finalize_slot db_ok slot accounts fz)) =
     fst (enqueue slot (dk_items (keys_for_slot accounts slot (fz_owner_map_enabled fz))) (fz_cleanup fz))"
  "fz_health (fst (finalize_slot db_ok slot accounts fz)) = (fz_health fz) \<lparr>sh_rows :=
      insert_slot db_ok slot (rc_block_time accounts) None Finalized (health_ok (fz_health fz)) (sh_rows (fz_health fz))\<rparr>"
  by (auto simp: finalize_slot_def Let_def cleanup_stored_accounts_once_def add_batch_to_cache_during_startup_def
      is_startup_def split: if_splits)

lemma finalize_chain_Cons [simp]:
  "fst (finalize_chain db_ok ((s, e) # chain) fz) =
     fst (finalize_chain db_ok chain (fst (finalize_slot (db_ok s) s (be_accounts e) fz)))"
  by (simp add: split_beta)

declare finalize_chain.simps(2) [simp del]

lemma finalize_chain_inner [simp]: "fz_inner (fst (finalize_chain db_ok chain fz)) = fz_inner fz"
  by (induction chain arbitrary: fz) auto

lemma finalize_chain_cleanup:
  "owes (fz_cleanup (fst (finalize_chain db_ok chain fz))) key c \<longleftrightarrow> owes (fz_cleanup fz) key c \<or>
     (\<exists>(s, e) \<in> set chain. stands_for (dk_items (keys_for_slot (be_accounts e) s (fz_owner_map_enabled fz))) key c)"
proof (induction chain arbitrary: fz)
  case (Cons x chain)
  then show ?case by (cases x) (auto simp: owes_enqueue)
qed simp

definition finalized_slot :: "finalizer \<Rightarrow> int option" where
  "finalized_slot fz = map_option sr_slot (nr_slots (sh_rows (fz_health fz)) Finalized)"

lemma finalized_slot_grows:
  "finalized_slot fz = Some m \<Longrightarrow> \<exists>m'. finalized_slot (fst (finalize_slot db_ok slot accounts fz)) = Some m' \<and> m \<le> m'"
  by (auto simp: finalized_slot_def insert_slot_def Let_def)

lemma finalized_slot_reaches:
  "\<exists>m. finalized_slot (fst (finalize_slot True slot accounts fz)) = Some m \<and> sint slot \<le> m"
  by (auto simp: finalized_slot_def insert_slot_def Let_def split: option.splits)

lemma chain_slot_grows:
  "finalized_slot fz = Some m \<Longrightarrow> \<exists>m'. finalized_slot (fst (finalize_chain db_ok chain fz)) = Some m' \<and> m \<le> m'"
proof (induction chain arbitrary: fz m)
  case (Cons x chain)
  obtain s e where x: "x = (s, e)" by (cases x)
  obtain m1 where "finalized_slot (fst (finalize_slot (db_ok s) s (be_accounts e) fz)) = Some m1" "m \<le> m1"
    using finalized_slot_grows [OF Cons.prems] by blast
  from Cons.IH [OF this(1)] this(2) show ?case unfolding x finalize_chain_Cons by (meson order_trans)
qed simp

lemma chain_slot_reaches:
  assumes "(s, e) \<in> set chain" and "db_ok s"
  shows "\<exists>m. finalized_slot (fst (finalize_chain db_ok chain fz)) = Some m \<and> sint s \<le> m"
  using assms(1)
proof (induction chain arbitrary: fz)
  case (Cons x chain)
  obtain s0 e0 where x: "x = (s0, e0)" by (cases x)
  show ?case
  proof (cases "x = (s, e)")
    case True
    then obtain m where "finalized_slot (fst (finalize_slot (db_ok s0) s0 (be_accounts e0) fz)) = Some m" "sint s \<le> m"
      using finalized_slot_reaches [of s "be_accounts e0" fz] assms(2) x by auto
    from chain_slot_grows [OF this(1)] this(2) show ?thesis unfolding x finalize_chain_Cons by (meson order_trans)
  next
    case False
    with Cons show ?thesis unfolding x finalize_chain_Cons by auto
  qed
qed simp

section \<open>Properties\<close>

text \<open>C12: The walk over ancestors returns the slot and, oldest first, the longest run of recorded blocks
  that its parent pointers reach with matching hashes; exactly these blocks leave the map, the
  ancestors leave the queue, and the parent of the oldest one is not recorded with the right hash.\<close>

theorem ancestors_exact:
  assumes "get_slot_ancestors slot inner = (inner', chain)"
  shows "\<exists>entry ext. chain = rev ((slot, entry) # ext)
    \<and> entry = (case fmlookup (fi_blocks inner) slot of None \<Rightarrow> default_entry | Some e \<Rightarrow> e)
    \<and> links (be_parent_slot entry) (be_parent_blockhash entry) ext
    \<and> (\<forall>(s, e) \<in> set ext. fmlookup (fi_blocks inner) s = Some e)
    \<and> (\<forall>s. fmlookup (fi_blocks inner') s = (if s \<in> fst ` set chain then None else fmlookup (fi_blocks inner) s))
    \<and> fset (fi_pending inner') = fset (fi_pending inner) - fst ` set ext
    \<and> \<not> has_parent inner' (next_parent ((slot, entry) # ext) (slot, []))"
proof (rule get_slot_ancestors_spec [OF assms])
  fix entry ext
  assume a: "entry = (case fmlookup (fi_blocks inner) slot of None \<Rightarrow> default_entry | Some e \<Rightarrow> e)"
    "chain = rev ((slot, entry) # ext)" "links (be_parent_slot entry) (be_parent_blockhash entry) ext"
    "\<forall>(s, e) \<in> set ext. fmlookup (fi_blocks inner) s = Some e"
    "taken_out (insert slot (fst ` set ext)) inner inner'"
    "fset (fi_pending inner') = fset (fi_pending inner) - fst ` set ext"
    "\<not> has_parent inner' (next_parent ((slot, entry) # ext) (slot, []))"
  have "fst ` set chain = insert slot (fst ` set ext)" unfolding a(2) by simp
  with a show ?thesis by (intro exI [of _ entry] exI [of _ ext]) (auto simp: taken_out_def)
qed

definition wit_entry :: "string \<Rightarrow> u64 \<Rightarrow> string \<Rightarrow> block_entry" where
  "wit_entry hash parent parent_hash =
     default_entry \<lparr>be_blockhash := hash, be_parent_slot := parent, be_parent_blockhash := parent_hash\<rparr>"

definition wit_inner :: finalizer_inner where
  "wit_inner = \<lparr>fi_blocks = fmupd 6 (wit_entry ''b'' 5 ''a'') (fmupd 5 (wit_entry ''a'' 4 ''z'') fmempty),
     fi_pending = {|5, 6|}, fi_pause_reasons = {||}\<rparr>"

theorem ancestors_exact_witness:
  "\<exists>entry ext. snd (get_slot_ancestors 6 wit_inner) = rev ((6, entry) # ext)
    \<and> entry = (case fmlookup (fi_blocks wit_inner) 6 of None \<Rightarrow> default_entry | Some e \<Rightarrow> e)
    \<and> links (be_parent_slot entry) (be_parent_blockhash entry) ext
    \<and> (\<forall>(s, e) \<in> set ext. fmlookup (fi_blocks wit_inner) s = Some e)
    \<and> (\<forall>s. fmlookup (fi_blocks (fst (get_slot_ancestors 6 wit_inner))) s =
         (if s \<in> fst ` set (snd (get_slot_ancestors 6 wit_inner)) then None else fmlookup (fi_blocks wit_inner) s))
    \<and> fset (fi_pending (fst (get_slot_ancestors 6 wit_inner))) = fset (fi_pending wit_inner) - fst ` set ext
    \<and> \<not> has_parent (fst (get_slot_ancestors 6 wit_inner)) (next_parent ((6, entry) # ext) (6, []))"
  by (rule ancestors_exact [OF prod.collapse [symmetric]])

lemma worker_step_cases:
  assumes "worker_step db_ok fz = Some (fz', jobs)"
  obtains slot inner chain where "fi_pause_reasons (fz_inner fz) = {||}" and "slot |\<in>| fi_pending (fz_inner fz)"
    and "\<forall>s. s |\<in>| fi_pending (fz_inner fz) \<longrightarrow> slot \<le> s"
    and "get_slot_ancestors slot ((fz_inner fz) \<lparr>fi_pending := fi_pending (fz_inner fz) |-| {|slot|}\<rparr>) = (inner, chain)"
    and "fz' = fst (finalize_chain db_ok chain (fz \<lparr>fz_inner := inner\<rparr>))"
proof -
  let ?pending = "fi_pending (fz_inner fz)"
  obtain slot rest where sl: "sorted_list_of_fset ?pending = slot # rest" and ok: "fi_pause_reasons (fz_inner fz) = {||}"
    and step: "finalize_slot_with_ancestors db_ok slot
      (fz \<lparr>fz_inner := (fz_inner fz) \<lparr>fi_pending := ?pending |-| {|slot|}\<rparr>\<rparr>) = (fz', jobs)"
    using assms by (auto simp: worker_step_def split: if_splits list.splits)
  have mem: "x |\<in>| ?pending \<longleftrightarrow> x \<in> set (slot # rest)" for x
    using sl by (metis sorted_list_of_fset_simps(1))
  moreover have "sorted (slot # rest)" using sl sorted_sorted_list_of_fset by metis
  moreover obtain inner chain where
    "get_slot_ancestors slot ((fz_inner fz) \<lparr>fi_pending := ?pending |-| {|slot|}\<rparr>) = (inner, chain)" by fastforce
  ultimately show thesis
    using ok step by (intro that [of slot inner chain]) (auto simp: finalize_slot_with_ancestors_def)
qed

text \<open>The worker finalizes in order and hands over every block once. It works only while finalization
  is not paused, takes the smallest queued slot, and after its turn the cleanup queue owes what it owed
  plus the keys of exactly the blocks of the slot's chain, which are no longer recorded; the finalized
  marker is at or above each of these slots whose row was written.\<close>

theorem worker_hands_over:
  assumes "worker_step db_ok fz = Some (fz', jobs)"
  shows "fi_pause_reasons (fz_inner fz) = {||} \<and>
    (\<exists>slot chain. slot |\<in>| fi_pending (fz_inner fz) \<and> (\<forall>s. s |\<in>| fi_pending (fz_inner fz) \<longrightarrow> slot \<le> s)
      \<and> slot |\<notin>| fi_pending (fz_inner fz') \<and> fi_pending (fz_inner fz') |\<subseteq>| fi_pending (fz_inner fz)
      \<and> snd (last chain) = (case fmlookup (fi_blocks (fz_inner fz)) slot of None \<Rightarrow> default_entry | Some e \<Rightarrow> e)
      \<and> (\<forall>(s, e) \<in> set (butlast chain). fmlookup (fi_blocks (fz_inner fz)) s = Some e)
      \<and> (\<forall>(s, e) \<in> set chain. fmlookup (fi_blocks (fz_inner fz')) s = None)
      \<and> (\<forall>key c. owes (fz_cleanup fz') key c \<longleftrightarrow> owes (fz_cleanup fz) key c \<or>
           (\<exists>(s, e) \<in> set chain. stands_for (dk_items (keys_for_slot (be_accounts e) s (fz_owner_map_enabled fz))) key c))
      \<and> (\<forall>(s, e) \<in> set chain. db_ok s \<longrightarrow> (\<exists>m. finalized_slot fz' = Some m \<and> sint s \<le> m)))"
proof (rule worker_step_cases [OF assms])
  fix slot inner chain
  assume w: "fi_pause_reasons (fz_inner fz) = {||}" "slot |\<in>| fi_pending (fz_inner fz)"
    "\<forall>s. s |\<in>| fi_pending (fz_inner fz) \<longrightarrow> slot \<le> s"
    and g: "get_slot_ancestors slot ((fz_inner fz) \<lparr>fi_pending := fi_pending (fz_inner fz) |-| {|slot|}\<rparr>) = (inner, chain)"
    and fz': "fz' = fst (finalize_chain db_ok chain (fz \<lparr>fz_inner := inner\<rparr>))"
  from g obtain entry ext
    where e: "entry = (case fmlookup (fi_blocks (fz_inner fz)) slot of None \<Rightarrow> default_entry | Some e \<Rightarrow> e)"
      "chain = rev ((slot, entry) # ext)" "\<forall>(s, e) \<in> set ext. fmlookup (fi_blocks (fz_inner fz)) s = Some e"
      "taken_out (insert slot (fst ` set ext)) (fz_inner fz) inner"
      "fset (fi_pending inner) = fset (fi_pending (fz_inner fz)) - {slot} - fst ` set ext"
    by (rule get_slot_ancestors_spec) (auto simp: taken_out_def)
  have inner': "fz_inner fz' = inner" by (simp add: fz')
  have last: "snd (last chain) = (case fmlookup (fi_blocks (fz_inner fz)) slot of None \<Rightarrow> default_entry | Some e \<Rightarrow> e)"
    and rest: "\<forall>(s, e) \<in> set (butlast chain). fmlookup (fi_blocks (fz_inner fz)) s = Some e"
    using e(1-3) by simp_all
  have pending: "slot |\<notin>| fi_pending (fz_inner fz')" "fi_pending (fz_inner fz') |\<subseteq>| fi_pending (fz_inner fz)"
    using e(5) inner' by auto
  have gone: "\<forall>(s, x) \<in> set chain. fmlookup (fi_blocks (fz_inner fz')) s = None"
    using e(2,4) inner' by (force simp: taken_out_def)
  have owed: "\<forall>key c. owes (fz_cleanup fz') key c \<longleftrightarrow> owes (fz_cleanup fz) key c \<or>
      (\<exists>(s, e) \<in> set chain. stands_for (dk_items (keys_for_slot (be_accounts e) s (fz_owner_map_enabled fz))) key c)"
    unfolding fz' finalize_chain_cleanup by simp
  have "\<exists>m. finalized_slot fz' = Some m \<and> sint s \<le> m" if "(s, x) \<in> set chain" "db_ok s" for s x
    unfolding fz' by (rule chain_slot_reaches [where db_ok = db_ok, OF that])
  then have marker: "\<forall>(s, e) \<in> set chain. db_ok s \<longrightarrow> (\<exists>m. finalized_slot fz' = Some m \<and> sint s \<le> m)" by blast
  show ?thesis using w pending last rest gone owed marker by blast
qed

definition wit_finalizer :: finalizer where
  "wit_finalizer = (spawn_finalizer \<lparr>nr_healthy = Some False, nr_slots = (\<lambda>_. None)\<rparr> 1 10 False) \<lparr>fz_inner := wit_inner\<rparr>"

lemma wit_worker: "worker_step (\<lambda>_. True) wit_finalizer \<noteq> None"
  by (simp add: worker_step_def wit_finalizer_def wit_inner_def fm_eval)

theorem worker_hands_over_witness:
  "let fz = wit_finalizer; fz' = fst (the (worker_step (\<lambda>_. True) fz)) in
    fi_pause_reasons (fz_inner fz) = {||} \<and>
    (\<exists>slot chain. slot |\<in>| fi_pending (fz_inner fz) \<and> (\<forall>s. s |\<in>| fi_pending (fz_inner fz) \<longrightarrow> slot \<le> s)
      \<and> slot |\<notin>| fi_pending (fz_inner fz') \<and> fi_pending (fz_inner fz') |\<subseteq>| fi_pending (fz_inner fz)
      \<and> snd (last chain) = (case fmlookup (fi_blocks (fz_inner fz)) slot of None \<Rightarrow> default_entry | Some e \<Rightarrow> e)
      \<and> (\<forall>(s, e) \<in> set (butlast chain). fmlookup (fi_blocks (fz_inner fz)) s = Some e)
      \<and> (\<forall>(s, e) \<in> set chain. fmlookup (fi_blocks (fz_inner fz')) s = None)
      \<and> (\<forall>key c. owes (fz_cleanup fz') key c \<longleftrightarrow> owes (fz_cleanup fz) key c \<or>
           (\<exists>(s, e) \<in> set chain. stands_for (dk_items (keys_for_slot (be_accounts e) s (fz_owner_map_enabled fz))) key c))
      \<and> (\<forall>(s, e) \<in> set chain. True \<longrightarrow> (\<exists>m. finalized_slot fz' = Some m \<and> sint s \<le> m)))"
proof -
  obtain fz' jobs where r: "worker_step (\<lambda>_. True) wit_finalizer = Some (fz', jobs)" using wit_worker by auto
  show ?thesis unfolding Let_def using worker_hands_over [OF r] by (simp only: r option.sel fst_conv)
qed

text \<open>The worker drains its queue: while finalization is not paused, one turn more than there are
  queued slots is enough for it to break, and then no slot is queued.\<close>

theorem worker_drains:
  assumes "fi_pause_reasons (fz_inner fz) = {||}" and "fcard (fi_pending (fz_inner fz)) < fuel"
  shows "\<exists>fz'. worker_run db_ok fuel fz = Some fz' \<and> fi_pending (fz_inner fz') = {||}"
  using assms
proof (induction fuel arbitrary: fz)
  case (Suc fuel)
  show ?case
  proof (cases "worker_step db_ok fz")
    case None
    then have "sorted_list_of_fset (fi_pending (fz_inner fz)) = []"
      using Suc.prems(1) by (auto simp: worker_step_def split: list.splits)
    then have "fi_pending (fz_inner fz) = {||}"
      by (metis fcard_fempty fcard_0_eq length_sorted_list_of_fset list.size(3))
    with None show ?thesis by simp
  next
    case (Some r)
    obtain fz1 jobs where r: "worker_step db_ok fz = Some (fz1, jobs)" using Some by (cases r) auto
    have "fcard (fi_pending (fz_inner fz1)) < fcard (fi_pending (fz_inner fz)) \<and> fi_pause_reasons (fz_inner fz1) = {||}"
    proof (rule worker_step_cases [OF r])
      fix slot inner chain
      assume slot: "slot |\<in>| fi_pending (fz_inner fz)"
        and g: "get_slot_ancestors slot ((fz_inner fz) \<lparr>fi_pending := fi_pending (fz_inner fz) |-| {|slot|}\<rparr>) = (inner, chain)"
        and fz1: "fz1 = fst (finalize_chain db_ok chain (fz \<lparr>fz_inner := inner\<rparr>))"
      from g have "fset (fi_pending inner) \<subseteq> fset (fi_pending (fz_inner fz)) - {slot} \<and>
          fi_pause_reasons inner = fi_pause_reasons (fz_inner fz)"
        by (rule get_slot_ancestors_spec) (auto simp: taken_out_def)
      then have "fi_pending inner |\<subset>| fi_pending (fz_inner fz)" and "fi_pause_reasons inner = {||}"
        using slot Suc.prems(1) by auto
      then show ?thesis by (simp add: fz1 fcard_seteq [THEN contrapos_pp] pfsubset_fcard_mono)
    qed
    then have "\<exists>fz'. worker_run db_ok fuel fz1 = Some fz' \<and> fi_pending (fz_inner fz') = {||}"
      using Suc.prems(2) by (intro Suc.IH) auto
    then show ?thesis using r by simp
  qed
qed simp

theorem worker_drains_witness:
  "\<exists>fz'. worker_run (\<lambda>_. True) 3 wit_finalizer = Some fz' \<and> fi_pending (fz_inner fz') = {||}"
  by (rule worker_drains) (simp_all add: wit_finalizer_def wit_inner_def fcard_finsert_if)

section \<open>Health\<close>

datatype health_event = Add_Reason health_reason | Remove_Reason health_reason
  | Insert_Slot u64 "int option" "string option" commitment

fun health_step :: "health_event \<Rightarrow> service_health \<Rightarrow> service_health" where
  "health_step (Add_Reason r) h = add_reason True r h"
| "health_step (Remove_Reason r) h = remove_reason True r h"
| "health_step (Insert_Slot slot time hash c) h =
     h \<lparr>sh_rows := insert_slot True slot time hash c (health_ok h) (sh_rows h)\<rparr>"

definition health_inv :: "service_health \<Rightarrow> bool" where
  "health_inv h \<longleftrightarrow> nr_healthy (sh_rows h) = Some (health_ok h) \<and>
     (\<forall>c r. nr_slots (sh_rows h) c = Some r \<longrightarrow> sr_health r = health_ok h)"

definition health_init :: service_health where
  "health_init = health_new \<lparr>nr_healthy = Some False, nr_slots = (\<lambda>_. None)\<rparr>"

interpretation health: state_machine health_init health_step health_inv
proof
  show "health_inv health_init" by (simp add: health_inv_def health_init_def health_new_def health_ok_def)
next
  fix h e
  assume inv: "health_inv h"
  show "health_inv (health_step e h)"
  proof (cases e)
    case (Add_Reason r)
    then show ?thesis using inv by (auto simp: health_inv_def add_reason_def update_service_health_def health_ok_def)
  next
    case (Remove_Reason r)
    have "sh_reasons h |-| {|r|} = sh_reasons h" if "r |\<notin>| sh_reasons h" using that by auto
    moreover have "sh_reasons h \<noteq> {||}" if "r |\<in>| sh_reasons h" using that by auto
    ultimately show ?thesis
      using Remove_Reason inv
      by (cases "r |\<in>| sh_reasons h")
        (auto simp: health_inv_def remove_reason_def update_service_health_def health_ok_def Let_def)
  next
    case (Insert_Slot slot time hash c)
    then show ?thesis
      using inv by (auto simp: health_inv_def insert_slot_def health_ok_def Let_def split: option.splits if_splits)
  qed
qed

text \<open>The published health never lags: whatever reasons come and go and whatever slots are
  inserted, as long as the statements succeed the health row and the flag on every slot row say
  healthy exactly when no reason is left.\<close>

theorem health_published:
  "nr_healthy (sh_rows (fold health_step events health_init)) = Some (health_ok (fold health_step events health_init))
   \<and> (\<forall>c. map_option sr_health (nr_slots (sh_rows (fold health_step events health_init)) c)
        \<in> {None, Some (health_ok (fold health_step events health_init))})"
  using health.invar_run [of events] unfolding health_inv_def by (auto simp: option.map_sel)

end
