(* ===== verification/Owner_Map.thy ===== *)
theory Owner_Map
  imports Tables
begin

text \<open>
  The account-owner map (\<open>crates/core/src/modules/account_owner_map.rs\<close>): the owner of every tracked
  account with the slot since which it holds, and per slot the owners that were replaced. It routes the
  masks of closed and moved accounts to their old owner. A malformed key or owner panics (\<open>None\<close>);
  a disabled map has no accounts.
\<close>

record owner_item =
  oi_owner :: pubkey
  oi_slot :: u64

record owner_map =
  om_accounts :: "(pubkey, owner_item) fmap option"
  om_changed_owners :: "(u64, (pubkey \<times> pubkey) list) fmap"

definition new_owner_map :: owner_map where
  "new_owner_map = \<lparr>om_accounts = Some fmempty, om_changed_owners = fmempty\<rparr>"

definition disabled_owner_map :: owner_map where
  "disabled_owner_map = \<lparr>om_accounts = None, om_changed_owners = fmempty\<rparr>"

definition om_is_enabled :: "owner_map \<Rightarrow> bool" where
  "om_is_enabled om \<longleftrightarrow> om_accounts om \<noteq> None"

definition changed_at :: "u64 \<Rightarrow> owner_map \<Rightarrow> (pubkey \<times> pubkey) list" where
  "changed_at slot om = (case fmlookup (om_changed_owners om) slot of None \<Rightarrow> [] | Some l \<Rightarrow> l)"

definition upsert_account :: "u8 list \<Rightarrow> u8 list \<Rightarrow> u64 \<Rightarrow> owner_map \<Rightarrow> owner_map option" where
  "upsert_account pubkey owner slot om =
     (case om_accounts om of
        None \<Rightarrow> Some om
      | Some accounts \<Rightarrow>
          (case (try_from pubkey, try_from owner) of
             (Some key, Some owner) \<Rightarrow>
               (case fmlookup accounts key of
                  Some existing \<Rightarrow>
                    if oi_owner existing \<noteq> owner \<and> oi_slot existing < slot
                    then Some \<lparr>om_accounts = Some (fmupd key \<lparr>oi_owner = owner, oi_slot = slot\<rparr> accounts),
                               om_changed_owners = fmupd slot (changed_at slot om @ [(key, oi_owner existing)])
                                 (om_changed_owners om)\<rparr>
                    else Some om
                | None \<Rightarrow> Some (om \<lparr>om_accounts := Some (fmupd key \<lparr>oi_owner = owner, oi_slot = slot\<rparr> accounts)\<rparr>))
           | _ \<Rightarrow> None))"

text \<open>The loop of \<open>closed_cleanup_pairs\<close> over the closed accounts.\<close>

fun closed_pairs :: "(pubkey, owner_item) fmap \<Rightarrow> u8 list list \<Rightarrow> (u8 list \<times> u8 list) list option" where
  "closed_pairs accounts [] = Some []"
| "closed_pairs accounts (bytes # rest) =
     (case try_from bytes of
        None \<Rightarrow> None
      | Some key \<Rightarrow>
          map_option (\<lambda>pairs. (case fmlookup accounts key of
              None \<Rightarrow> pairs | Some item \<Rightarrow> (bytes, to_bytes (oi_owner item)) # pairs))
            (closed_pairs accounts rest))"

definition changed_pairs :: "u64 \<Rightarrow> owner_map \<Rightarrow> (u8 list \<times> u8 list) list" where
  "changed_pairs slot om = map (\<lambda>(key, owner). (to_bytes key, to_bytes owner)) (changed_at slot om)"

definition closed_cleanup_pairs ::
  "u8 list list \<Rightarrow> u64 \<Rightarrow> owner_map \<Rightarrow> (u8 list \<times> u8 list) list option" where
  "closed_cleanup_pairs closed slot om =
     map_option (\<lambda>pairs. pairs @ changed_pairs slot om)
       (case om_accounts om of None \<Rightarrow> Some [] | Some accounts \<Rightarrow> closed_pairs accounts closed)"

text \<open>The loop of \<open>save_closed_accounts\<close>, which removes what it finds.\<close>

fun drain_closed ::
  "(pubkey, owner_item) fmap \<Rightarrow> u8 list list \<Rightarrow> ((pubkey, owner_item) fmap \<times> (u8 list \<times> u8 list) list) option" where
  "drain_closed accounts [] = Some (accounts, [])"
| "drain_closed accounts (bytes # rest) =
     (case try_from bytes of
        None \<Rightarrow> None
      | Some key \<Rightarrow>
          (case fmlookup accounts key of
             None \<Rightarrow> drain_closed accounts rest
           | Some item \<Rightarrow>
               map_option (\<lambda>(accounts, pairs). (accounts, (bytes, to_bytes (oi_owner item)) # pairs))
                 (drain_closed (fmdrop key accounts) rest)))"

definition mask_row :: "u64 \<Rightarrow> u8 list \<times> u8 list \<Rightarrow> db_row" where
  "mask_row slot = (\<lambda>(pubkey, owner). \<lparr>dr_pubkey = pubkey, dr_owner = owner, dr_lamports = 0, dr_slot = sint slot,
     dr_executable = False, dr_rent_epoch = 0, dr_data = [], dr_write_version = 0\<rparr>)"

text \<open>\<open>save_closed_accounts\<close>: the map, the masks its statement inserts.\<close>

definition save_closed_accounts :: "u8 list list \<Rightarrow> u64 \<Rightarrow> owner_map \<Rightarrow> (owner_map \<times> db_row list) option" where
  "save_closed_accounts closed slot om =
     (case om_accounts om of
        None \<Rightarrow> None
      | Some accounts \<Rightarrow>
          map_option (\<lambda>(accounts, pairs).
              (\<lparr>om_accounts = Some accounts, om_changed_owners = fmdrop slot (om_changed_owners om)\<rparr>,
               map (mask_row slot) (pairs @ changed_pairs slot om)))
            (drain_closed accounts closed))"

definition get_owner :: "pubkey \<Rightarrow> owner_map \<Rightarrow> pubkey option" where
  "get_owner key om = Option.bind (om_accounts om) (\<lambda>accounts. map_option oi_owner (fmlookup accounts key))"

definition check_updated_account_owner :: "pubkey \<Rightarrow> pubkey \<Rightarrow> u64 \<Rightarrow> owner_map \<Rightarrow> bool" where
  "check_updated_account_owner key owner slot om =
     (case om_accounts om of
        None \<Rightarrow> False
      | Some accounts \<Rightarrow>
          (case fmlookup accounts key of
             None \<Rightarrow> False
           | Some item \<Rightarrow> oi_owner item \<noteq> owner \<and> oi_slot item < slot))"

definition account_to_be_deleted ::
  "u8 list \<Rightarrow> u8 list \<Rightarrow> u64 \<Rightarrow> bool \<Rightarrow> owner_map \<Rightarrow> bool option" where
  "account_to_be_deleted pubkey owner slot is_new_owner_included om =
     (case (try_from pubkey, try_from owner) of
        (Some key, Some owner) \<Rightarrow>
          Some (check_updated_account_owner key owner slot om \<and> \<not> is_new_owner_included)
      | _ \<Rightarrow> None)"

section \<open>Lemmas\<close>

lemma to_bytes_eq_iff: "to_bytes k = to_bytes k' \<longleftrightarrow> k = k'"
  by (rule to_bytes_inject)

lemma drain_closed_pairs:
  assumes "drain_closed accounts closed = Some (accounts', pairs)"
  shows "\<exists>all. closed_pairs accounts closed = Some all \<and> set all = set pairs \<and>
    (\<forall>key. fmlookup accounts' key = (if to_bytes key \<in> set closed then None else fmlookup accounts key))"
  using assms
proof (induction closed arbitrary: accounts accounts' pairs)
  case (Cons bytes rest)
  then obtain key where key: "try_from bytes = Some key" by (auto split: option.splits)
  then have bytes: "bytes = to_bytes key" by (simp add: try_from_eq_Some)
  show ?case
  proof (cases "fmlookup accounts key")
    case None
    then have "drain_closed accounts rest = Some (accounts', pairs)" using Cons.prems key by simp
    from Cons.IH [OF this] None key show ?thesis by (auto simp: bytes to_bytes_eq_iff split: if_splits)
  next
    case (Some item)
    then obtain pairs' where d: "drain_closed (fmdrop key accounts) rest = Some (accounts', pairs')"
      and pairs: "pairs = (bytes, to_bytes (oi_owner item)) # pairs'"
      using Cons.prems key by auto
    have sub: "\<exists>all'. closed_pairs m rest = Some all' \<and> set all' \<subseteq> insert (bytes, to_bytes (oi_owner item)) (set all)
        \<and> set all \<subseteq> set all'"
      if "closed_pairs (fmdrop key m) rest = Some all" "fmlookup m key = Some item" for m all
      using that
    proof (induction rest arbitrary: all)
      case (Cons b rest)
      then obtain k all0 where "try_from b = Some k" "closed_pairs (fmdrop key m) rest = Some all0"
        by (auto split: option.splits)
      with Cons.IH [OF this(2) Cons.prems(2)] Cons.prems show ?case
        by (auto simp: bytes try_from_eq_Some split: option.splits if_splits)
    qed simp
    from Cons.IH [OF d] obtain all where all: "closed_pairs (fmdrop key accounts) rest = Some all" "set all = set pairs'"
      and map': "\<forall>k. fmlookup accounts' k = (if to_bytes k \<in> set rest then None else fmlookup (fmdrop key accounts) k)"
      by blast
    from sub [OF all(1) Some] obtain all' where "closed_pairs accounts rest = Some all'"
      "set all' \<subseteq> insert (bytes, to_bytes (oi_owner item)) (set all)" "set all \<subseteq> set all'" by blast
    then show ?thesis using Some key all(2) map' by (auto simp: pairs bytes to_bytes_eq_iff split: if_splits)
  qed
qed simp

section \<open>Properties\<close>

text \<open>Every mask has its cleanup. The pairs captured for the cleanup of a slot are exactly the keys
  and owners of the masks that the save of its closed accounts then writes, also when an account is
  listed twice; every saved account leaves the map and no other does.\<close>

theorem masks_have_cleanup:
  assumes "save_closed_accounts closed slot om = Some (om', masks)"
  shows "\<exists>pairs. closed_cleanup_pairs closed slot om = Some pairs
    \<and> set pairs = (\<lambda>r. (dr_pubkey r, dr_owner r)) ` set masks
    \<and> (\<forall>r \<in> set masks. dr_lamports r = 0 \<and> dr_slot r = sint slot)
    \<and> (\<forall>key. get_owner key om' = (if to_bytes key \<in> set closed then None else get_owner key om))
    \<and> changed_at slot om' = []"
proof -
  obtain accounts accounts' pairs where a: "om_accounts om = Some accounts" "drain_closed accounts closed = Some (accounts', pairs)"
    and om': "om' = \<lparr>om_accounts = Some accounts', om_changed_owners = fmdrop slot (om_changed_owners om)\<rparr>"
    and masks: "masks = map (mask_row slot) (pairs @ changed_pairs slot om)"
    using assms by (auto simp: save_closed_accounts_def split: option.splits)
  obtain all where all: "closed_pairs accounts closed = Some all" "set all = set pairs"
    "\<forall>key. fmlookup accounts' key = (if to_bytes key \<in> set closed then None else fmlookup accounts key)"
    using drain_closed_pairs [OF a(2)] by blast
  have "(\<lambda>r. (dr_pubkey r, dr_owner r)) ` set masks = set (pairs @ changed_pairs slot om)"
    unfolding masks by (force simp: mask_row_def image_iff)
  with all a show ?thesis
    by (auto simp: closed_cleanup_pairs_def om' get_owner_def changed_at_def masks mask_row_def)
qed

definition wit_map :: owner_map where
  "wit_map = \<lparr>om_accounts = Some (fmupd (pk 7) \<lparr>oi_owner = pk 1, oi_slot = 3\<rparr> fmempty),
     om_changed_owners = fmupd 9 [(pk 8, pk 2)] fmempty\<rparr>"

theorem masks_have_cleanup_witness:
  "\<exists>om' masks pairs. save_closed_accounts [to_bytes (pk 7), to_bytes (pk 7)] 9 wit_map = Some (om', masks)
    \<and> closed_cleanup_pairs [to_bytes (pk 7), to_bytes (pk 7)] 9 wit_map = Some pairs
    \<and> set pairs = (\<lambda>r. (dr_pubkey r, dr_owner r)) ` set masks"
proof -
  obtain om' masks where "save_closed_accounts [to_bytes (pk 7), to_bytes (pk 7)] 9 wit_map = Some (om', masks)"
    by (simp add: save_closed_accounts_def wit_map_def)
  from masks_have_cleanup [OF this] this show ?thesis by blast
qed

text \<open>The stamp of an owner only grows: an upsert changes the owner of an account exactly when it
  brings another owner at a later slot (or the account is new), records the replaced owner for the
  mask of that slot, and leaves every other account alone.\<close>

theorem owner_change_recorded:
  assumes "om_accounts om = Some accounts" and "upsert_account (to_bytes key) (to_bytes owner) slot om = Some om'"
  shows "(get_owner key om' =
      (case fmlookup accounts key of
         Some item \<Rightarrow> if oi_owner item \<noteq> owner \<and> slot \<le> oi_slot item then Some (oi_owner item) else Some owner
       | None \<Rightarrow> Some owner))
    \<and> (\<forall>k. k \<noteq> key \<longrightarrow> get_owner k om' = get_owner k om)
    \<and> changed_at slot om' = changed_at slot om @
        (case fmlookup accounts key of
           Some item \<Rightarrow> if check_updated_account_owner key owner slot om then [(key, oi_owner item)] else []
         | None \<Rightarrow> [])"
  using assms
  by (auto simp: upsert_account_def get_owner_def changed_at_def check_updated_account_owner_def not_le
      split: option.splits if_splits)

theorem owner_change_recorded_witness:
  "\<exists>om'. upsert_account (to_bytes (pk 7)) (to_bytes (pk 4)) 5 wit_map = Some om' \<and> get_owner (pk 7) om' = Some (pk 4)
    \<and> changed_at 5 om' = [(pk 7, pk 1)]"
proof -
  obtain om' where om': "upsert_account (to_bytes (pk 7)) (to_bytes (pk 4)) 5 wit_map = Some om'"
    by (simp add: upsert_account_def wit_map_def)
  have "om_accounts wit_map = Some (fmupd (pk 7) \<lparr>oi_owner = pk 1, oi_slot = 3\<rparr> fmempty)" by (simp add: wit_map_def)
  from owner_change_recorded [OF this om'] om' show ?thesis
    by (simp add: check_updated_account_owner_def wit_map_def changed_at_def)
qed

text \<open>A move between two indexed owners leaves two newest versions: the row of the new owner and the
  mask of the old one carry the same slot, so a read of the account over all owners may return the
  account or report it closed.\<close>

theorem owner_move_is_ambiguous:
  "let db = \<lparr>tb_accounts = [\<lparr>dr_pubkey = to_bytes (pk 7), dr_owner = to_bytes (pk 4), dr_lamports = 5, dr_slot = 9,
              dr_executable = False, dr_rent_epoch = 0, dr_data = [], dr_write_version = 1\<rparr>]
            @ snd (the (save_closed_accounts [] 9 (the (upsert_account (to_bytes (pk 7)) (to_bytes (pk 4)) 9 wit_map)))),
            tb_snapshot_accounts = []\<rparr>
   in get_account_info (to_bytes (pk 7)) 9 db = {None, Some (hd (tb_accounts db))}"
proof -
  have masked: "save_closed_accounts [] 9 (the (upsert_account (to_bytes (pk 7)) (to_bytes (pk 4)) 9 wit_map)) =
    Some (\<lparr>om_accounts = Some (fmupd (pk 7) \<lparr>oi_owner = pk 4, oi_slot = 9\<rparr> fmempty), 
        om_changed_owners = fmdrop 9 (fmupd 9 [(pk 8, pk 2), (pk 7, pk 1)] fmempty)\<rparr>,
      [mask_row 9 (to_bytes (pk 8), to_bytes (pk 2)), mask_row 9 (to_bytes (pk 7), to_bytes (pk 1))])"
    by (simp add: upsert_account_def save_closed_accounts_def wit_map_def changed_pairs_def changed_at_def
        fm_eval del: to_bytes_pk)
  have row: "dr_pubkey (mask_row 9 (key, owner)) = key" "dr_slot (mask_row 9 (key, owner)) = 9"
    "dr_lamports (mask_row 9 (key, owner)) = 0" for key owner
    by (simp_all add: mask_row_def)
  have newest: "newest [row, mask_row 9 (key, owner)] = {row, mask_row 9 (key, owner)}" if "dr_slot row = 9" for row key owner
    using that by (auto simp: newest_def row)
  show ?thesis
    unfolding masked
    by (simp add: get_account_info_def answers_def answers_of_def versions_def row newest visible_def Let_def
        insert_commute)
qed

end
