(* ===== verification/Supply_Cache.thy ===== *)
theory Supply_Cache
  imports Feed "HOL-Library.Multiset"
begin

text \<open>
  The bounded hot-accounts cache of the supply tracker
  (\<open>crates/core/src/modules/supply/cache.rs\<close>): the entry rule, the probe of a touched account, the
  miss rule, the sweep and the failure pins.

  A \<open>usize\<close> that is subtracted is a 64-bit word, as in the release build, so that a count that
  does not match the map shows up as a wrap-around; \<open>select_nth_unstable\<close> out of range is the panic
  \<open>None\<close>.
\<close>

record hot_entry =
  he_lamports :: u64
  he_slot :: u64
  he_pinned :: bool

datatype probe_result = Hit int | Miss

type_synonym prev_row = "(u64 \<times> u64) option"

record hot_accounts =
  ha_map :: "(pubkey, hot_entry) fmap"
  ha_cap :: u64
  ha_fail_pin_cap :: nat
  ha_pinned_count :: nat
  ha_last_sweep_slot :: u64

definition SWEEP_SLOT_FLOOR :: u64 where
  "SWEEP_SLOT_FLOOR = 3000"

definition hot_with_capacity :: "u64 \<Rightarrow> nat \<Rightarrow> hot_accounts" where
  "hot_with_capacity cap fail_pin_cap =
     \<lparr>ha_map = fmempty, ha_cap = cap, ha_fail_pin_cap = fail_pin_cap, ha_pinned_count = 0,
      ha_last_sweep_slot = 0\<rparr>"

definition hot_len :: "hot_accounts \<Rightarrow> u64" where
  "hot_len h = of_nat (fm_size (ha_map h)) - of_nat (ha_pinned_count h)"

definition hot_get :: "pubkey \<Rightarrow> hot_accounts \<Rightarrow> hot_entry option" where
  "hot_get key h = fmlookup (ha_map h) key"

definition hot_remove :: "pubkey \<Rightarrow> hot_accounts \<Rightarrow> hot_accounts" where
  "hot_remove key h =
     (case fmlookup (ha_map h) key of
        None \<Rightarrow> h
      | Some entry \<Rightarrow>
          h \<lparr>ha_map := fmdrop key (ha_map h),
             ha_pinned_count := (if he_pinned entry then ha_pinned_count h - 1 else ha_pinned_count h)\<rparr>)"

definition write_back :: "pubkey \<Rightarrow> u64 \<Rightarrow> u64 \<Rightarrow> pubkey \<Rightarrow> hot_accounts \<Rightarrow> hot_accounts" where
  "write_back key lamports slot owner h =
     (if owner = STAKE_PROGRAM_ID then hot_remove key h
      else case fmlookup (ha_map h) key of
             Some entry \<Rightarrow>
               if he_slot entry \<le> slot
               then h \<lparr>ha_map := fmupd key (entry \<lparr>he_lamports := lamports, he_slot := slot\<rparr>) (ha_map h)\<rparr>
               else h
           | None \<Rightarrow>
               h \<lparr>ha_map := fmupd key \<lparr>he_lamports = lamports, he_slot = slot, he_pinned = False\<rparr>
                    (ha_map h)\<rparr>)"

definition probe ::
  "pubkey \<Rightarrow> u64 \<Rightarrow> u64 \<Rightarrow> pubkey \<Rightarrow> bool \<Rightarrow> hot_accounts \<Rightarrow> hot_accounts \<times> probe_result" where
  "probe key lamports slot owner zero_prev h =
     (if zero_prev then (write_back key lamports slot owner h, Hit (uint lamports))
      else case fmlookup (ha_map h) key of
             Some entry \<Rightarrow>
               if he_slot entry < slot
               then (write_back key lamports slot owner h, Hit (uint lamports - uint (he_lamports entry)))
               else (h, Hit 0)
           | None \<Rightarrow> (h, Miss))"

definition apply_miss ::
  "pubkey \<Rightarrow> u64 \<Rightarrow> u64 \<Rightarrow> pubkey \<Rightarrow> prev_row \<Rightarrow> hot_accounts \<Rightarrow> hot_accounts \<times> int" where
  "apply_miss key lamports slot owner prev h =
     (case prev of
        None \<Rightarrow> (write_back key lamports slot owner h, uint lamports)
      | Some (prev_lamports, prev_slot) \<Rightarrow>
          if prev_slot < slot
          then (write_back key lamports slot owner h, uint lamports - uint prev_lamports)
          else (write_back key prev_lamports prev_slot owner h, 0))"

definition sweep_due :: "u64 \<Rightarrow> hot_accounts \<Rightarrow> bool" where
  "sweep_due slot h \<longleftrightarrow>
     ha_cap h + ha_cap h div 10 < hot_len h \<or>
     SWEEP_SLOT_FLOOR \<le> saturating_sub slot (ha_last_sweep_slot h)"

text \<open>\<open>select_nth_unstable\<close>: the element at that position of the sorted slice, or a panic.\<close>

definition select_nth :: "nat \<Rightarrow> u64 list \<Rightarrow> u64 option" where
  "select_nth n xs = (if n < length xs then Some (sort xs ! n) else None)"

definition unpinned_slots :: "hot_accounts \<Rightarrow> u64 list" where
  "unpinned_slots h = map (\<lambda>(_, e). he_slot e) (filter (\<lambda>(_, e). \<not> he_pinned e) (fm_entries (ha_map h)))"

definition sweep :: "u64 \<Rightarrow> hot_accounts \<Rightarrow> (hot_accounts \<times> nat) option" where
  "sweep slot h =
     (let h = h \<lparr>ha_last_sweep_slot := slot\<rparr>;
          target = ha_cap h - ha_cap h div 10
      in if hot_len h \<le> target then Some (h, 0)
         else case select_nth (unat (of_nat (length (unpinned_slots h)) - target)) (unpinned_slots h) of
                None \<Rightarrow> None
              | Some cutoff \<Rightarrow>
                  let kept = fm_retain (\<lambda>_ e. he_pinned e \<or> cutoff \<le> he_slot e) (ha_map h)
                  in Some (h \<lparr>ha_map := kept\<rparr>, fm_size (ha_map h) - fm_size kept))"

definition unpinned_in :: "hot_accounts \<Rightarrow> pubkey \<Rightarrow> bool" where
  "unpinned_in h key = (case fmlookup (ha_map h) key of Some e \<Rightarrow> \<not> he_pinned e | None \<Rightarrow> False)"

definition set_pinned :: "pubkey \<Rightarrow> (pubkey, hot_entry) fmap \<Rightarrow> (pubkey, hot_entry) fmap" where
  "set_pinned key accounts =
     (case fmlookup accounts key of
        Some e \<Rightarrow> fmupd key (e \<lparr>he_pinned := True\<rparr>) accounts
      | None \<Rightarrow> accounts)"

definition pin_failed :: "pubkey list \<Rightarrow> hot_accounts \<Rightarrow> hot_accounts \<times> bool" where
  "pin_failed pubkeys h =
     (let newly = length (filter (unpinned_in h) pubkeys)
      in if ha_fail_pin_cap h < ha_pinned_count h + newly then (h, False)
         else (h \<lparr>ha_pinned_count := ha_pinned_count h + newly,
                  ha_map := fold set_pinned pubkeys (ha_map h)\<rparr>, True))"

section \<open>The cache as a newest-wins register\<close>

definition hot_lookup :: "hot_accounts \<Rightarrow> pubkey \<Rightarrow> (u64 \<times> u64) option" where
  "hot_lookup h key = map_option (\<lambda>e. (he_lamports e, he_slot e)) (fmlookup (ha_map h) key)"

lemma write_back_lookup:
  "owner \<noteq> STAKE_PROGRAM_ID \<Longrightarrow> hot_lookup (write_back key lamports slot owner h) key' =
    (if key' = key then (case hot_lookup h key of
        Some (l, t) \<Rightarrow> if t \<le> slot then Some (lamports, slot) else Some (l, t)
      | None \<Rightarrow> Some (lamports, slot))
     else hot_lookup h key')"
  by (auto simp: hot_lookup_def write_back_def split: option.splits)

text \<open>Writes of accounts owned by the System program, whose id is 32 zero bytes.\<close>

interpretation hot: newest_wins hot_lookup "\<lambda>key lamports slot. write_back key lamports slot (pk 0)"
  by unfold_locales (simp add: write_back_lookup)

section \<open>The count of pinned entries\<close>

definition pinned_keys :: "hot_accounts \<Rightarrow> pubkey set" where
  "pinned_keys h = {key. \<exists>e. fmlookup (ha_map h) key = Some e \<and> he_pinned e}"

definition unpinned_keys :: "hot_accounts \<Rightarrow> pubkey set" where
  "unpinned_keys h = {key. \<exists>e. fmlookup (ha_map h) key = Some e \<and> \<not> he_pinned e}"

definition cache_ok :: "hot_accounts \<Rightarrow> bool" where
  "cache_ok h \<longleftrightarrow> ha_pinned_count h = card (pinned_keys h) \<and> fm_size (ha_map h) < 2 ^ 64"

lemma finite_pinned [simp]: "finite (pinned_keys h)" "finite (unpinned_keys h)"
  by (rule finite_subset [of _ "fmdom' (ha_map h)"];
      auto simp: pinned_keys_def unpinned_keys_def fmlookup_dom'_iff)+

lemma pinned_partition:
  "fm_size (ha_map h) = card (pinned_keys h) + card (unpinned_keys h)"
proof -
  have "fmdom' (ha_map h) = pinned_keys h \<union> unpinned_keys h" "pinned_keys h \<inter> unpinned_keys h = {}"
    by (auto simp: pinned_keys_def unpinned_keys_def fmlookup_dom'_iff)
  then show ?thesis by (simp add: fm_size_card card_Un_disjoint)
qed

lemma hot_len_exact: "cache_ok h \<Longrightarrow> unat (hot_len h) = card (unpinned_keys h)"
  using pinned_partition [of h]
  by (simp add: cache_ok_def hot_len_def flip: of_nat_diff) (simp add: unat_of_nat)

lemma new_cache_ok [supply_inv]: "cache_ok (hot_with_capacity cap fail_pin_cap)"
  by (simp add: cache_ok_def hot_with_capacity_def pinned_keys_def)

lemma hot_remove_ok [supply_inv]: "cache_ok h \<Longrightarrow> cache_ok (hot_remove key h)"
proof -
  assume ok: "cache_ok h"
  show ?thesis
  proof (cases "fmlookup (ha_map h) key")
    case (Some e)
    then have "pinned_keys (hot_remove key h) = pinned_keys h - {key}"
      by (auto simp: pinned_keys_def hot_remove_def)
    then have "card (pinned_keys (hot_remove key h))
        = (if he_pinned e then card (pinned_keys h) - 1 else card (pinned_keys h))"
      using Some by (simp add: pinned_keys_def card_Diff_singleton_if)
    then show ?thesis
      using ok Some fm_size_drop [of key "ha_map h"] by (simp add: cache_ok_def) (simp add: hot_remove_def less_imp_diff_less)
  qed (use ok in \<open>simp add: hot_remove_def\<close>)
qed

lemma write_back_ok [supply_inv]:
  assumes "cache_ok h" and "Suc (fm_size (ha_map h)) < 2 ^ 64"
  shows "cache_ok (write_back key lamports slot owner h)"
proof (cases "owner = STAKE_PROGRAM_ID")
  case True
  with assms show ?thesis by (simp add: write_back_def hot_remove_ok)
next
  case False
  then have "pinned_keys (write_back key lamports slot owner h) = pinned_keys h"
    by (auto simp: write_back_def pinned_keys_def split: option.splits)
  with False assms show ?thesis
    by (auto simp: cache_ok_def write_back_def fm_size_upd split: option.splits)
qed

lemma set_pinned_lookup:
  "fmlookup (set_pinned k m) key =
     map_option (\<lambda>e. if key = k then e \<lparr>he_pinned := True\<rparr> else e) (fmlookup m key)"
  by (cases "fmlookup m k"; cases "fmlookup m key") (auto simp: set_pinned_def)

lemma fold_set_pinned_lookup:
  "fmlookup (fold set_pinned keys m) key =
     map_option (\<lambda>e. if key \<in> set keys then e \<lparr>he_pinned := True\<rparr> else e) (fmlookup m key)"
proof (induction keys arbitrary: m)
  case (Cons k keys)
  show ?case
    by (cases "fmlookup m key") (simp_all add: Cons set_pinned_lookup)
qed (simp add: option.map_ident)

lemma pin_failed_pins:
  assumes "ha_map h' = fold set_pinned keys (ha_map h)"
  shows "pinned_keys h' = pinned_keys h \<union> {k \<in> set keys. unpinned_in h k}"
proof (rule set_eqI)
  fix x
  show "x \<in> pinned_keys h' \<longleftrightarrow> x \<in> pinned_keys h \<union> {k \<in> set keys. unpinned_in h k}"
    by (cases "fmlookup (ha_map h) x")
      (auto simp: pinned_keys_def assms fold_set_pinned_lookup unpinned_in_def)
qed

lemma pin_failed_ok:
  assumes "cache_ok h" and "distinct keys"
  shows "cache_ok (fst (pin_failed keys h))"
proof (cases "snd (pin_failed keys h)")
  case True
  let ?h = "fst (pin_failed keys h)"
  have h: "ha_map ?h = fold set_pinned keys (ha_map h)"
      "ha_pinned_count ?h = ha_pinned_count h + length (filter (unpinned_in h) keys)"
    using True by (auto simp: pin_failed_def Let_def split: if_splits)
  have "pinned_keys h \<inter> {k \<in> set keys. unpinned_in h k} = {}"
    by (auto simp: pinned_keys_def unpinned_in_def)
  moreover have "card {k \<in> set keys. unpinned_in h k} = length (filter (unpinned_in h) keys)"
    using distinct_card [OF distinct_filter [OF assms(2)], of "unpinned_in h"] by simp
  ultimately have "card (pinned_keys ?h) = card (pinned_keys h) + length (filter (unpinned_in h) keys)"
    by (simp add: pin_failed_pins [OF h(1)] card_Un_disjoint)
  moreover have "fmdom' (ha_map ?h) = fmdom' (ha_map h)"
    by (auto simp: h(1) fmlookup_dom'_iff fold_set_pinned_lookup)
  then have "fm_size (ha_map ?h) = fm_size (ha_map h)" by (simp add: fm_size_card)
  ultimately show ?thesis using assms(1) by (simp add: cache_ok_def h(2))
next
  case False
  with assms(1) show ?thesis by (auto simp: pin_failed_def Let_def split: if_splits)
qed

section \<open>The sweep\<close>

lemma length_unpinned_slots: "length (unpinned_slots h) = card (unpinned_keys h)"
proof -
  have "fst ` set (filter (\<lambda>(_, e). \<not> he_pinned e) (fm_entries (ha_map h))) = unpinned_keys h"
    by (force simp: unpinned_keys_def)
  moreover have "distinct (map fst (filter (\<lambda>(_, e). \<not> he_pinned e) (fm_entries (ha_map h))))"
    by (rule distinct_map_filter) simp
  ultimately show ?thesis
    by (metis distinct_card length_map list.set_map unpinned_slots_def)
qed

lemma mset_unpinned_slots:
  "mset (unpinned_slots h) = image_mset (\<lambda>key. he_slot (the (fmlookup (ha_map h) key))) (mset_set (unpinned_keys h))"
proof -
  let ?es = "filter (\<lambda>(_, e). \<not> he_pinned e) (fm_entries (ha_map h))"
  have "fst ` set ?es = unpinned_keys h" by (force simp: unpinned_keys_def)
  moreover have "distinct (map fst ?es)" by (rule distinct_map_filter) simp
  ultimately have "mset_set (unpinned_keys h) = mset (map fst ?es)"
    by (metis list.set_map mset_set_set)
  moreover have "map (\<lambda>(_, e). he_slot e) ?es = map ((\<lambda>key. he_slot (the (fmlookup (ha_map h) key))) \<circ> fst) ?es"
    by (rule map_cong) auto
  ultimately show ?thesis by (simp add: unpinned_slots_def flip: map_map)
qed

lemma count_slots:
  "length (filter P (sort (unpinned_slots h))) =
     card {key \<in> unpinned_keys h. P (he_slot (the (fmlookup (ha_map h) key)))}"
proof -
  have "length (filter P (sort (unpinned_slots h))) = size (filter_mset P (mset (unpinned_slots h)))"
    by (metis mset_filter mset_sort size_mset)
  also have "\<dots> = card {key \<in> unpinned_keys h. P (he_slot (the (fmlookup (ha_map h) key)))}"
    by (simp add: mset_unpinned_slots filter_mset_image_mset)
  finally show ?thesis .
qed

lemma sorted_nth_counts:
  fixes xs :: "'a::linorder list"
  assumes "sorted xs" and "n < length xs"
  shows "length xs - n \<le> length (filter (\<lambda>x. xs ! n \<le> x) xs)"
    and "length (filter (\<lambda>x. xs ! n < x) xs) < length xs - n"
proof -
  have split: "xs = take n xs @ xs ! n # drop (Suc n) xs" using assms(2) by (rule id_take_nth_drop)
  have hi: "xs ! n \<le> x" if "x \<in> set (drop (Suc n) xs)" for x
    using that assms by (auto simp: in_set_conv_nth intro!: sorted_nth_mono)
  have lo: "\<not> xs ! n < x" if "x \<in> set (take n xs)" for x
    using that assms by (auto simp: in_set_conv_nth not_less intro!: sorted_nth_mono)
  have "filter (\<lambda>x. xs ! n \<le> x) (drop (Suc n) xs) = drop (Suc n) xs" using hi by (simp add: filter_id_conv)
  then have "length (filter (\<lambda>x. xs ! n \<le> x) (xs ! n # drop (Suc n) xs)) = length xs - n"
    using assms(2) by simp
  then show "length xs - n \<le> length (filter (\<lambda>x. xs ! n \<le> x) xs)"
    by (subst (2) split) simp
  have "filter (\<lambda>x. xs ! n < x) (take n xs) = []" using lo by (simp add: filter_empty_conv)
  then have "length (filter (\<lambda>x. xs ! n < x) xs) = length (filter (\<lambda>x. xs ! n < x) (drop (Suc n) xs))"
    by (subst (2) split) simp
  also have "\<dots> \<le> length (drop (Suc n) xs)" by (rule length_filter_le)
  finally show "length (filter (\<lambda>x. xs ! n < x) xs) < length xs - n" using assms(2) by simp
qed

lemma unat_target: "unat (cap - cap div 10 :: u64) = unat cap - unat cap div 10"
proof -
  have "cap div 10 \<le> cap" by (simp add: word_le_nat_alt unat_div)
  then show ?thesis by (simp add: unat_sub unat_div)
qed

lemma target_pos: "0 < cap \<Longrightarrow> 0 < unat (cap - cap div 10 :: u64)"
proof -
  assume "0 < cap"
  then have "0 < unat cap" by (simp add: unat_gt_0)
  then have "unat cap div 10 < unat cap" by (rule div_less_dividend [rotated]) simp
  then show ?thesis by (simp add: unat_target)
qed

text \<open>What a sweep that runs over its target computes.\<close>

lemma sweep_selects:
  assumes "cache_ok h" and "0 < ha_cap h" and "ha_cap h - ha_cap h div 10 < hot_len h"
  defines "target \<equiv> unat (ha_cap h - ha_cap h div 10)"
  obtains cutoff where
    "sweep slot h = Some (h \<lparr>ha_last_sweep_slot := slot,
        ha_map := fm_retain (\<lambda>_ e. he_pinned e \<or> cutoff \<le> he_slot e) (ha_map h)\<rparr>,
      fm_size (ha_map h) - fm_size (fm_retain (\<lambda>_ e. he_pinned e \<or> cutoff \<le> he_slot e) (ha_map h)))"
    and "target \<le> card {key \<in> unpinned_keys h. cutoff \<le> he_slot (the (fmlookup (ha_map h) key))}"
    and "card {key \<in> unpinned_keys h. cutoff < he_slot (the (fmlookup (ha_map h) key))} < target"
proof -
  let ?h = "h \<lparr>ha_last_sweep_slot := slot\<rparr>"
  let ?n = "length (unpinned_slots h) - target"
  have len: "length (unpinned_slots h) = unat (hot_len h)"
    using hot_len_exact [OF assms(1)] by (simp add: length_unpinned_slots)
  have less: "target < length (unpinned_slots h)"
    using assms(3) by (simp add: len target_def word_less_nat_alt)
  have pos: "0 < target" using target_pos [OF assms(2)] by (simp add: target_def)
  have "unat (of_nat (length (unpinned_slots h)) - (ha_cap h - ha_cap h div 10)) = ?n"
    using less by (simp add: len target_def unat_sub word_le_nat_alt)
  moreover have slots: "unpinned_slots ?h = unpinned_slots h" by (simp add: unpinned_slots_def)
  moreover have n: "?n < length (unpinned_slots h)" using less pos by simp
  ultimately have "sweep slot h = Some (h \<lparr>ha_last_sweep_slot := slot,
        ha_map := fm_retain (\<lambda>_ e. he_pinned e \<or> sort (unpinned_slots h) ! ?n \<le> he_slot e) (ha_map h)\<rparr>,
      fm_size (ha_map h) - fm_size (fm_retain (\<lambda>_ e. he_pinned e \<or> sort (unpinned_slots h) ! ?n \<le> he_slot e) (ha_map h)))"
    using assms(3) by (simp add: sweep_def select_nth_def hot_len_def Let_def not_le [symmetric])
  moreover have "target \<le> card {key \<in> unpinned_keys h.
      sort (unpinned_slots h) ! ?n \<le> he_slot (the (fmlookup (ha_map h) key))}"
    using sorted_nth_counts(1) [of "sort (unpinned_slots h)" ?n] n less by (simp add: count_slots)
  moreover have "card {key \<in> unpinned_keys h.
      sort (unpinned_slots h) ! ?n < he_slot (the (fmlookup (ha_map h) key))} < target"
    using sorted_nth_counts(2) [of "sort (unpinned_slots h)" ?n] n less by (simp add: count_slots)
  ultimately show thesis by (rule that)
qed

lemma fm_size_retain_card:
  "fm_size (fm_retain P m) = card {k. \<exists>v. fmlookup m k = Some v \<and> P k v}"
  unfolding fm_size_card
  by (rule arg_cong [of _ _ card]) (auto simp: fmlookup_dom'_iff split: option.splits if_splits)

section \<open>Properties\<close>

text \<open>With an exact pin count and a positive cap a sweep returns, keeps every pinned entry and
  every entry it keeps unchanged, keeps at least 90 percent of the cap of the unpinned entries (or
  all of them), and evicts only entries that are strictly older than every unpinned entry it keeps.\<close>

theorem sweep_keeps_newest:
  assumes "cache_ok h" and "0 < ha_cap h"
  shows "\<exists>h' n. sweep slot h = Some (h', n) \<and> pinned_keys h' = pinned_keys h
    \<and> (\<forall>key e. fmlookup (ha_map h') key = Some e \<longrightarrow> fmlookup (ha_map h) key = Some e)
    \<and> min (card (unpinned_keys h)) (unat (ha_cap h) - unat (ha_cap h) div 10) \<le> card (unpinned_keys h')
    \<and> (\<forall>key e old gone. fmlookup (ha_map h') key = Some e \<and> \<not> he_pinned e
         \<and> fmlookup (ha_map h) old = Some gone \<and> fmlookup (ha_map h') old = None
         \<longrightarrow> he_slot gone < he_slot e)
    \<and> cache_ok h'"
proof (cases "ha_cap h - ha_cap h div 10 < hot_len h")
  case False
  then have "sweep slot h = Some (h \<lparr>ha_last_sweep_slot := slot\<rparr>, 0)"
    by (simp add: sweep_def hot_len_def Let_def not_le)
  moreover have "pinned_keys (h \<lparr>ha_last_sweep_slot := slot\<rparr>) = pinned_keys h"
    "unpinned_keys (h \<lparr>ha_last_sweep_slot := slot\<rparr>) = unpinned_keys h"
    by (simp_all add: pinned_keys_def unpinned_keys_def)
  ultimately show ?thesis using assms(1) by (auto simp: cache_ok_def)
next
  case True
  obtain cutoff where
    c: "sweep slot h = Some (h \<lparr>ha_last_sweep_slot := slot,
        ha_map := fm_retain (\<lambda>_ e. he_pinned e \<or> cutoff \<le> he_slot e) (ha_map h)\<rparr>,
      fm_size (ha_map h) - fm_size (fm_retain (\<lambda>_ e. he_pinned e \<or> cutoff \<le> he_slot e) (ha_map h)))"
    "unat (ha_cap h - ha_cap h div 10)
       \<le> card {key \<in> unpinned_keys h. cutoff \<le> he_slot (the (fmlookup (ha_map h) key))}"
    by (rule sweep_selects [OF assms True])
  let ?h = "h \<lparr>ha_last_sweep_slot := slot,
      ha_map := fm_retain (\<lambda>_ e. he_pinned e \<or> cutoff \<le> he_slot e) (ha_map h)\<rparr>"
  have lookup: "fmlookup (ha_map ?h) key = Some e \<longleftrightarrow>
      fmlookup (ha_map h) key = Some e \<and> (he_pinned e \<or> cutoff \<le> he_slot e)" for key e
    by (cases "fmlookup (ha_map h) key") auto
  have pinned: "pinned_keys ?h = pinned_keys h" unfolding pinned_keys_def lookup by auto
  have "unpinned_keys ?h = {key \<in> unpinned_keys h. cutoff \<le> he_slot (the (fmlookup (ha_map h) key))}"
    unfolding unpinned_keys_def lookup by auto
  then have count: "unat (ha_cap h) - unat (ha_cap h) div 10 \<le> card (unpinned_keys ?h)"
    using c(2) by (simp add: unat_target)
  have evicted: "he_slot gone < he_slot e"
    if "fmlookup (ha_map ?h) key = Some e" "\<not> he_pinned e" "fmlookup (ha_map h) old = Some gone"
      "fmlookup (ha_map ?h) old = None" for key e old gone
  proof -
    have "\<not> cutoff \<le> he_slot gone" using that(3,4) by (auto split: if_splits)
    moreover have "cutoff \<le> he_slot e" using that(1,2) lookup by blast
    ultimately show ?thesis by simp
  qed
  have "fm_size (ha_map ?h) < 2 ^ 64"
    using assms(1) fm_size_retain_le [of "\<lambda>_ e. he_pinned e \<or> cutoff \<le> he_slot e" "ha_map h"]
    by (simp add: cache_ok_def)
  then have "cache_ok ?h" using assms(1) pinned by (simp add: cache_ok_def)
  show ?thesis
    by (intro exI conjI) (rule c(1), rule pinned, use lookup in blast, use count in simp,
      use evicted in blast, fact)
qed

definition wit_cache :: hot_accounts where
  "wit_cache = (hot_with_capacity 1 0) \<lparr>ha_map :=
     fmupd (pk 1) \<lparr>he_lamports = 10, he_slot = 5, he_pinned = False\<rparr>
       (fmupd (pk 2) \<lparr>he_lamports = 20, he_slot = 7, he_pinned = False\<rparr> fmempty)\<rparr>"

theorem sweep_keeps_newest_witness:
  "\<exists>h' n. sweep 9 wit_cache = Some (h', n) \<and> 1 \<le> card (unpinned_keys h') \<and> cache_ok h'"
proof -
  have ok: "cache_ok wit_cache" "0 < ha_cap wit_cache" and cap: "unat (ha_cap wit_cache) = 1"
    by (auto simp: cache_ok_def wit_cache_def hot_with_capacity_def pinned_keys_def fm_size_upd)
  have "unpinned_keys wit_cache = {pk 1, pk 2}"
    by (auto simp: unpinned_keys_def wit_cache_def)
  then have "card (unpinned_keys wit_cache) = 2" by simp
  with sweep_keeps_newest [OF ok, of 9] cap show ?thesis by fastforce
qed

end
