(* ===== verification/Non_Circulating.thy ===== *)
theory Non_Circulating
  imports Feed
begin

text \<open>
  The non-circulating membership tracker (\<open>crates/core/src/modules/non_circulating\<close>): the stake
  map with its packed flags, the membership with its two expiry sets and running sum, the snapshot
  seed, the bootstrap flip, the per-block path, and the persisted member list.

  The two \<open>bincode\<close> decoders of foreign types are the fields of the record \<open>sysvar_codec\<close>: they
  are arguments of every operation that decodes. A \<open>BTreeSet\<close> is a finite set whose first element
  is its minimum. An \<open>expect\<close> that fails is the value \<open>None\<close>; the invariant shows that none does.
\<close>

unbundle bit_operations_syntax

section \<open>The stake entry and its flags\<close>

definition CLOCK_SYSVAR_ID :: pubkey where
  "CLOCK_SYSVAR_ID = Abs_pubkey [6, 167, 213, 23, 24, 199, 116, 201, 40, 86, 99, 152, 105, 29, 94,
     182, 139, 94, 184, 163, 155, 75, 109, 92, 115, 85, 91, 33, 0, 0, 0, 0]"

record stake_entry =
  se_lamports :: u64
  se_lockup_unix_timestamp :: int
  se_lockup_epoch :: u64
  se_slot :: u64
  se_flags :: u8

definition STAKE_OWNED :: u8 where "STAKE_OWNED = push_bit 0 1"
definition LOCKUP :: u8 where "LOCKUP = push_bit 1 1"
definition LISTED_WITHDRAWER :: u8 where "LISTED_WITHDRAWER = push_bit 2 1"
definition PINNED :: u8 where "PINNED = push_bit 3 1"
definition MEMBER :: u8 where "MEMBER = push_bit 4 1"
definition IN_BY_EPOCH :: u8 where "IN_BY_EPOCH = push_bit 5 1"
definition IN_BY_TIMESTAMP :: u8 where "IN_BY_TIMESTAMP = push_bit 6 1"

record block_clock =
  bc_slot :: u64
  bc_epoch :: u64
  bc_unix_timestamp :: int

definition has :: "stake_entry \<Rightarrow> u8 \<Rightarrow> bool" where
  "has entry flag \<longleftrightarrow> se_flags entry AND flag \<noteq> 0"

definition stake_owned :: "stake_entry \<Rightarrow> bool" where
  "stake_owned entry = has entry STAKE_OWNED"

definition member :: "stake_entry \<Rightarrow> bool" where
  "member entry = has entry MEMBER"

definition evaluate :: "block_clock \<Rightarrow> stake_entry \<Rightarrow> bool" where
  "evaluate clock entry \<longleftrightarrow>
     has entry PINNED \<or>
     (stake_owned entry \<and> has entry LOCKUP \<and>
      (has entry LISTED_WITHDRAWER \<or>
       bc_unix_timestamp clock < se_lockup_unix_timestamp entry \<or>
       bc_epoch clock < se_lockup_epoch entry))"

definition set_flag :: "u8 \<Rightarrow> stake_entry \<Rightarrow> stake_entry" where
  "set_flag flag entry = entry \<lparr>se_flags := se_flags entry OR flag\<rparr>"

definition clear_flag :: "u8 \<Rightarrow> stake_entry \<Rightarrow> stake_entry" where
  "clear_flag flag entry = entry \<lparr>se_flags := se_flags entry AND NOT flag\<rparr>"

text \<open>The outcome of a block, \<open>StakeBlock\<close>.\<close>

record stake_block =
  sk_delta :: int
  sk_handled :: "pubkey fset"
  sk_expired :: "(pubkey \<times> u64) list"
  sk_members_changed :: bool

definition default_block :: stake_block where
  "default_block = \<lparr>sk_delta = 0, sk_handled = {||}, sk_expired = [], sk_members_changed = False\<rparr>"

text \<open>The debug view of an entry, \<open>StakeEntryView\<close>, with the flags unpacked.\<close>

record stake_entry_view =
  sv_lamports :: u64
  sv_lockup_unix_timestamp :: int
  sv_lockup_epoch :: u64
  sv_slot :: u64
  sv_stake_owned :: bool
  sv_lockup :: bool
  sv_listed_withdrawer :: bool
  sv_pinned :: bool
  sv_member :: bool

definition entry_view :: "stake_entry \<Rightarrow> stake_entry_view" where
  "entry_view e = \<lparr>sv_lamports = se_lamports e,
     sv_lockup_unix_timestamp = se_lockup_unix_timestamp e, sv_lockup_epoch = se_lockup_epoch e,
     sv_slot = se_slot e, sv_stake_owned = stake_owned e, sv_lockup = has e LOCKUP,
     sv_listed_withdrawer = has e LISTED_WITHDRAWER, sv_pinned = has e PINNED,
     sv_member = member e\<rparr>"

section \<open>The membership\<close>

record membership =
  mb_clock :: "block_clock option"
  mb_members :: "pubkey fset"
  mb_by_epoch :: "(u64 \<times> pubkey) fset"
  mb_by_timestamp :: "(int \<times> pubkey) fset"
  mb_total :: u128

definition first :: "'a::linorder fset \<Rightarrow> 'a option" where
  "first A = (if A = {||} then None else Some (fMin A))"

definition set_clock :: "block_clock \<Rightarrow> membership \<Rightarrow> membership \<times> bool" where
  "set_clock clock mb =
     (if (case mb_clock mb of Some current \<Rightarrow> bc_slot clock \<le> bc_slot current | None \<Rightarrow> False)
      then (mb, False)
      else (mb \<lparr>mb_clock := Some clock\<rparr>, True))"

definition unplace :: "pubkey \<Rightarrow> stake_entry \<Rightarrow> membership \<Rightarrow> membership" where
  "unplace key entry mb =
     (let mb = (if has entry IN_BY_EPOCH
                then mb \<lparr>mb_by_epoch := mb_by_epoch mb |-| {|(se_lockup_epoch entry, key)|}\<rparr>
                else mb);
          mb = (if has entry IN_BY_TIMESTAMP
                then mb \<lparr>mb_by_timestamp :=
                       mb_by_timestamp mb |-| {|(se_lockup_unix_timestamp entry, key)|}\<rparr>
                else mb)
      in if member entry then mb \<lparr>mb_total := mb_total mb - ucast (se_lamports entry)\<rparr> else mb)"

text \<open>\<open>place\<close> returns the membership, the entry with its new flags, and whether it is a member.\<close>

definition place ::
  "pubkey \<Rightarrow> stake_entry \<Rightarrow> membership \<Rightarrow> (membership \<times> stake_entry \<times> bool) option" where
  "place key entry mb =
     (case mb_clock mb of
        None \<Rightarrow> None
      | Some clock \<Rightarrow>
          let is_member = evaluate clock entry;
              entry = clear_flag (MEMBER OR IN_BY_EPOCH OR IN_BY_TIMESTAMP) entry;
              (mb, entry) =
                (if is_member \<and> \<not> has entry PINNED \<and> \<not> has entry LISTED_WITHDRAWER
                 then if bc_epoch clock < se_lockup_epoch entry
                      then (mb \<lparr>mb_by_epoch :=
                               finsert (se_lockup_epoch entry, key) (mb_by_epoch mb)\<rparr>,
                            set_flag IN_BY_EPOCH entry)
                      else (mb \<lparr>mb_by_timestamp :=
                               finsert (se_lockup_unix_timestamp entry, key) (mb_by_timestamp mb)\<rparr>,
                            set_flag IN_BY_TIMESTAMP entry)
                 else (mb, entry))
          in if is_member
             then Some (mb \<lparr>mb_total := mb_total mb + ucast (se_lamports entry),
                            mb_members := finsert key (mb_members mb)\<rparr>,
                        set_flag MEMBER entry, True)
             else Some (mb \<lparr>mb_members := mb_members mb |-| {|key|}\<rparr>, entry, False))"

definition note_flip :: "bool \<Rightarrow> bool \<Rightarrow> stake_block \<Rightarrow> stake_block" where
  "note_flip was_member is_member block =
     (if was_member = is_member then block else block \<lparr>sk_members_changed := True\<rparr>)"

definition leave ::
  "pubkey \<Rightarrow> stake_entry \<Rightarrow> membership \<Rightarrow> stake_block \<Rightarrow> stake_entry \<times> membership \<times> stake_block" where
  "leave key entry mb block =
     (clear_flag MEMBER entry,
      mb \<lparr>mb_total := mb_total mb - ucast (se_lamports entry),
          mb_members := mb_members mb |-| {|key|}\<rparr>,
      note_flip True False (block \<lparr>sk_expired := sk_expired block @ [(key, se_lamports entry)]\<rparr>))"

type_synonym stake_map = "(pubkey, stake_entry) fmap"

text \<open>The two loops of \<open>expire\<close>: each iteration pops the head of its set.\<close>

function expire_epochs ::
  "block_clock \<Rightarrow> stake_map \<Rightarrow> membership \<Rightarrow> stake_block \<Rightarrow>
   (stake_map \<times> membership \<times> stake_block) option" where
  "expire_epochs clock accounts mb block =
     (case first (mb_by_epoch mb) of
        None \<Rightarrow> Some (accounts, mb, block)
      | Some (epoch, key) \<Rightarrow>
          if bc_epoch clock < epoch then Some (accounts, mb, block)
          else
            let mb' = mb \<lparr>mb_by_epoch := mb_by_epoch mb |-| {|(epoch, key)|}\<rparr>
            in case fmlookup accounts key of
                 None \<Rightarrow> None
               | Some entry \<Rightarrow>
                   let entry = clear_flag IN_BY_EPOCH entry
                   in if bc_unix_timestamp clock < se_lockup_unix_timestamp entry
                      then expire_epochs clock
                             (fmupd key (set_flag IN_BY_TIMESTAMP entry) accounts)
                             (mb' \<lparr>mb_by_timestamp := finsert (se_lockup_unix_timestamp entry, key)
                                     (mb_by_timestamp mb')\<rparr>)
                             block
                      else expire_epochs clock
                             (fmupd key (fst (leave key entry mb' block)) accounts)
                             (fst (snd (leave key entry mb' block)))
                             (snd (snd (leave key entry mb' block))))"
  by pat_completeness auto

lemma first_SomeD: "first A = Some x \<Longrightarrow> x |\<in>| A"
  by (metis first_def fMin_in option.distinct(1) option.inject)

lemma first_NoneD [simp]: "first A = None \<longleftrightarrow> A = {||}"
  by (auto simp: first_def)

lemma first_empty [simp]: "first {||} = None"
  by simp

lemma first_le: "first A = Some x \<Longrightarrow> y |\<in>| A \<Longrightarrow> x \<le> y"
  by (auto simp: first_def split: if_splits)

lemma fcard_pop_less: "first A = Some x \<Longrightarrow> fcard (A |-| {|x|}) < fcard A"
  by (drule first_SomeD) (rule fcard_fminus1_less)

lemma leave_by_sets [simp]:
  "mb_by_epoch (fst (snd (leave key entry mb block))) = mb_by_epoch mb"
  "mb_by_timestamp (fst (snd (leave key entry mb block))) = mb_by_timestamp mb"
  "mb_clock (fst (snd (leave key entry mb block))) = mb_clock mb"
  by (simp_all add: leave_def)

termination expire_epochs
  by (relation "measure (\<lambda>(_, _, mb, _). fcard (mb_by_epoch mb))") (auto simp: fcard_pop_less split_beta)

function expire_timestamps ::
  "block_clock \<Rightarrow> stake_map \<Rightarrow> membership \<Rightarrow> stake_block \<Rightarrow>
   (stake_map \<times> membership \<times> stake_block) option" where
  "expire_timestamps clock accounts mb block =
     (case first (mb_by_timestamp mb) of
        None \<Rightarrow> Some (accounts, mb, block)
      | Some (unix_timestamp, key) \<Rightarrow>
          if bc_unix_timestamp clock < unix_timestamp then Some (accounts, mb, block)
          else
            let mb' = mb \<lparr>mb_by_timestamp := mb_by_timestamp mb |-| {|(unix_timestamp, key)|}\<rparr>
            in case fmlookup accounts key of
                 None \<Rightarrow> None
               | Some entry \<Rightarrow>
                   let entry = clear_flag IN_BY_TIMESTAMP entry
                   in expire_timestamps clock
                        (fmupd key (fst (leave key entry mb' block)) accounts)
                        (fst (snd (leave key entry mb' block)))
                        (snd (snd (leave key entry mb' block))))"
  by pat_completeness auto

termination expire_timestamps
  by (relation "measure (\<lambda>(_, _, mb, _). fcard (mb_by_timestamp mb))") (auto simp: fcard_pop_less split_beta)

definition expire ::
  "stake_map \<Rightarrow> membership \<Rightarrow> stake_block \<Rightarrow> (stake_map \<times> membership \<times> stake_block) option" where
  "expire accounts mb block =
     (case mb_clock mb of
        None \<Rightarrow> None
      | Some clock \<Rightarrow>
          (case expire_epochs clock accounts mb block of
             None \<Rightarrow> None
           | Some (accounts, mb, block) \<Rightarrow> expire_timestamps clock accounts mb block))"

declare expire_epochs.simps [simp del] expire_timestamps.simps [simp del]

section \<open>The tracker\<close>

datatype nc_status = NBootstrapping | NLive

record nc_state =
  ns_status :: nc_status
  ns_slot :: u64
  ns_accounts :: stake_map
  ns_membership :: membership
  ns_seed_shadow :: "(pubkey, u64) fmap"

text \<open>The two lists of \<open>Shared\<close>.\<close>

record nc_shared =
  sh_pinned :: "pubkey fset"
  sh_withdraw_authorities :: "pubkey fset"

text \<open>\<open>bincode::deserialize\<close> of \<open>StakeStateV2\<close> and of \<open>Clock\<close>, as far as the sources look: the
  variant, and of its \<open>meta\<close> the lockup and the withdrawer.\<close>

record stake_meta =
  sm_lockup_unix_timestamp :: int
  sm_lockup_epoch :: u64
  sm_withdrawer :: pubkey

datatype stake_state_v2 = Uninitialized | Initialized stake_meta | Stake stake_meta | RewardsPool

record sysvar_codec =
  dec_stake :: "u8 list \<Rightarrow> stake_state_v2 option"
  dec_clock :: "u8 list \<Rightarrow> block_clock option"

definition entry_from_account ::
  "sysvar_codec \<Rightarrow> nc_shared \<Rightarrow> bool \<Rightarrow> bool \<Rightarrow> u64 \<Rightarrow> u8 list \<Rightarrow> u64 \<Rightarrow> stake_entry" where
  "entry_from_account codec shared owned pinned lamports data slot =
     (let entry = \<lparr>se_lamports = lamports, se_lockup_unix_timestamp = 0, se_lockup_epoch = 0,
                   se_slot = slot, se_flags = 0\<rparr>;
          entry = (if pinned then set_flag PINNED entry else entry);
          parsed = (\<lambda>entry meta.
            let entry = (set_flag LOCKUP entry)
                  \<lparr>se_lockup_unix_timestamp := sm_lockup_unix_timestamp meta,
                   se_lockup_epoch := sm_lockup_epoch meta\<rparr>
            in if sm_withdrawer meta |\<in>| sh_withdraw_authorities shared
               then set_flag LISTED_WITHDRAWER entry else entry)
      in if \<not> owned then entry
         else let entry = set_flag STAKE_OWNED entry
              in case dec_stake codec data of
                   Some (Initialized meta) \<Rightarrow> parsed entry meta
                 | Some (Stake meta) \<Rightarrow> parsed entry meta
                 | _ \<Rightarrow> entry)"

definition new_tracker :: "nc_shared \<Rightarrow> nc_state" where
  "new_tracker shared =
     \<lparr>ns_status = NBootstrapping, ns_slot = 0, ns_accounts = fmempty,
      ns_membership = \<lparr>mb_clock = None, mb_members = sh_pinned shared, mb_by_epoch = {||},
        mb_by_timestamp = {||}, mb_total = 0\<rparr>,
      ns_seed_shadow = fmempty\<rparr>"

definition is_live :: "nc_state option \<Rightarrow> bool" where
  "is_live tracker = (case tracker of None \<Rightarrow> False | Some st \<Rightarrow> ns_status st = NLive)"

definition is_non_circulating :: "pubkey \<Rightarrow> nc_state option \<Rightarrow> bool" where
  "is_non_circulating key tracker =
     (case tracker of
        None \<Rightarrow> False
      | Some st \<Rightarrow> ns_status st = NLive \<and> key |\<in>| mb_members (ns_membership st))"

definition nc_total :: "nc_state option \<Rightarrow> u64 option" where
  "nc_total tracker =
     (case tracker of
        None \<Rightarrow> None
      | Some st \<Rightarrow> if ns_status st = NLive then Some (ucast (mb_total (ns_membership st))) else None)"

text \<open>The member list in ascending order: the code collects the hash set in an unspecified order,
  and no reader depends on it.\<close>

definition members :: "nc_state option \<Rightarrow> u64 \<times> pubkey list" where
  "members tracker =
     (case tracker of
        None \<Rightarrow> (0, [])
      | Some st \<Rightarrow>
          if ns_status st \<noteq> NLive then (ns_slot st, [])
          else (ns_slot st, sorted_list_of_fset (mb_members (ns_membership st))))"

record non_circulating_balance =
  nb_pubkey :: pubkey
  nb_slot :: u64
  nb_lamports :: u64

definition member_balances :: "nc_state option \<Rightarrow> non_circulating_balance list" where
  "member_balances tracker =
     (case tracker of
        None \<Rightarrow> []
      | Some st \<Rightarrow>
          if ns_status st \<noteq> NLive then []
          else List.map_filter
                 (\<lambda>key. map_option
                    (\<lambda>entry. \<lparr>nb_pubkey = key, nb_slot = se_slot entry, nb_lamports = se_lamports entry\<rparr>)
                    (fmlookup (ns_accounts st) key))
                 (sorted_list_of_fset (mb_members (ns_membership st))))"

definition nc_seed_account ::
  "sysvar_codec \<Rightarrow> nc_shared \<Rightarrow> pubkey \<Rightarrow> pubkey \<Rightarrow> u64 \<Rightarrow> u8 list \<Rightarrow> u64 \<Rightarrow> nc_state \<Rightarrow> nc_state" where
  "nc_seed_account codec shared key owner lamports data slot st =
     (if key = CLOCK_SYSVAR_ID
      then case dec_clock codec data of
             None \<Rightarrow> st
           | Some clock \<Rightarrow> st \<lparr>ns_membership := fst (set_clock clock (ns_membership st))\<rparr>
      else
        let owned = (owner = STAKE_PROGRAM_ID);
            pinned = (key |\<in>| sh_pinned shared)
        in if \<not> owned \<and> \<not> pinned then st
           else
             let entry = entry_from_account codec shared owned pinned lamports data slot;
                 inserted = st \<lparr>ns_accounts := fmupd key entry (ns_accounts st)\<rparr>
             in case fmlookup (ns_accounts st) key of
                  None \<Rightarrow>
                    (case fmlookup (ns_seed_shadow st) key of
                       None \<Rightarrow> inserted
                     | Some seen \<Rightarrow> if seen < slot then inserted else st)
                | Some old \<Rightarrow> if se_slot old < slot then inserted else st)"

text \<open>The evaluation loop of \<open>finish_bootstrap\<close> over the given keys of the map.\<close>

fun place_all :: "pubkey list \<Rightarrow> stake_map \<Rightarrow> membership \<Rightarrow> (stake_map \<times> membership) option" where
  "place_all [] accounts mb = Some (accounts, mb)"
| "place_all (key # keys) accounts mb =
     (case fmlookup accounts key of
        None \<Rightarrow> place_all keys accounts mb
      | Some entry \<Rightarrow>
          (case place key entry mb of
             None \<Rightarrow> None
           | Some (mb, entry, _) \<Rightarrow> place_all keys (fmupd key entry accounts) mb))"

text \<open>\<open>finish_bootstrap\<close> and whether it flipped. The hash map is visited in the order \<open>order\<close>
  gives for its keys.\<close>

definition nc_finish_bootstrap ::
  "(stake_map \<Rightarrow> pubkey list) \<Rightarrow> nc_state \<Rightarrow> (nc_state \<times> bool) option" where
  "nc_finish_bootstrap order st =
     (if ns_status st \<noteq> NBootstrapping then Some (st, False)
      else if mb_clock (ns_membership st) = None then Some (st, False)
      else
        let accounts = fm_retain (\<lambda>_ entry. stake_owned entry \<or> has entry PINNED) (ns_accounts st)
        in case place_all (order accounts) accounts (ns_membership st) of
             None \<Rightarrow> None
           | Some (accounts, mb) \<Rightarrow>
               Some (st \<lparr>ns_status := NLive, ns_accounts := accounts, ns_membership := mb,
                         ns_seed_shadow := fmempty\<rparr>, True))"

text \<open>One account of a block. The tuple is what the loop mutates: the map, the membership, the
  seed shadow and the outcome.\<close>

type_synonym nc_loop = "stake_map \<times> membership \<times> (pubkey, u64) fmap \<times> stake_block"

definition nc_apply_account ::
  "sysvar_codec \<Rightarrow> nc_shared \<Rightarrow> bool \<Rightarrow> u64 \<Rightarrow> grpc_account \<Rightarrow> nc_loop \<Rightarrow> nc_loop option" where
  "nc_apply_account codec shared live slot account = (\<lambda>(accs, mb, shadow, block).
     (case try_from (ga_pubkey account) of
        None \<Rightarrow> Some (accs, mb, shadow, block)
      | Some key \<Rightarrow>
          let owned_by_stake = (ga_owner account = to_bytes STAKE_PROGRAM_ID);
              pinned = (key |\<in>| sh_pinned shared);
              entry = entry_from_account codec shared owned_by_stake pinned (ga_lamports account)
                        (ga_data account) slot
          in case fmlookup accs key of
               None \<Rightarrow>
                 if \<not> owned_by_stake \<and> \<not> pinned
                 then if live then Some (accs, mb, shadow, block)
                      else let seen = (case fmlookup shadow key of None \<Rightarrow> slot | Some seen \<Rightarrow> max seen slot)
                           in Some (accs, mb, fmupd key seen shadow, block)
                 else if live
                 then (case place key entry mb of
                         None \<Rightarrow> None
                       | Some (mb, entry, is_member) \<Rightarrow>
                           Some (fmupd key entry accs, mb, shadow, note_flip False is_member block))
                 else Some (fmupd key entry accs, mb, shadow, block)
             | Some old \<Rightarrow>
                 let owned = (live \<and> stake_owned old);
                     block = (if owned then block \<lparr>sk_handled := finsert key (sk_handled block)\<rparr>
                              else block)
                 in if slot \<le> se_slot old then Some (accs, mb, shadow, block)
                    else
                      let block = (if owned
                                   then block \<lparr>sk_delta := sk_delta block +
                                          (uint (ga_lamports account) - uint (se_lamports old))\<rparr>
                                   else block)
                      in if live
                         then (case place key entry (unplace key old mb) of
                                 None \<Rightarrow> None
                               | Some (mb, entry, is_member) \<Rightarrow>
                                   Some (fmupd key entry accs, mb, shadow,
                                         note_flip (member old) is_member block))
                         else Some (fmupd key entry accs, mb, shadow, block)))"

fun nc_apply_accounts ::
  "sysvar_codec \<Rightarrow> nc_shared \<Rightarrow> bool \<Rightarrow> u64 \<Rightarrow> grpc_account list \<Rightarrow> nc_loop \<Rightarrow> nc_loop option" where
  "nc_apply_accounts codec shared live slot [] l = Some l"
| "nc_apply_accounts codec shared live slot (account # accounts) l =
     (case nc_apply_account codec shared live slot account l of
        None \<Rightarrow> None
      | Some l \<Rightarrow> nc_apply_accounts codec shared live slot accounts l)"

text \<open>The clock of a block: its first account under the Clock sysvar id, when it decodes.\<close>

definition clock_of_block :: "sysvar_codec \<Rightarrow> grpc_account list \<Rightarrow> block_clock option" where
  "clock_of_block codec accounts =
     Option.bind (find (\<lambda>account. ga_pubkey account = to_bytes CLOCK_SYSVAR_ID) accounts)
       (\<lambda>account. dec_clock codec (ga_data account))"

definition advance_clock ::
  "bool \<Rightarrow> block_clock option \<Rightarrow> stake_map \<Rightarrow> membership \<Rightarrow> stake_block \<Rightarrow>
   (stake_map \<times> membership \<times> stake_block) option" where
  "advance_clock live clock accounts mb block =
     (case clock of
        None \<Rightarrow> Some (accounts, mb, block)
      | Some clock \<Rightarrow>
          let (mb, newer) = set_clock clock mb
          in if newer \<and> live then expire accounts mb block else Some (accounts, mb, block))"

definition nc_apply_block ::
  "sysvar_codec \<Rightarrow> nc_shared \<Rightarrow> u64 \<Rightarrow> bool \<Rightarrow> grpc_account list \<Rightarrow> nc_state \<Rightarrow>
   (nc_state \<times> stake_block) option" where
  "nc_apply_block codec shared slot is_repaired accounts st =
     (if \<not> is_repaired \<and> slot \<le> ns_slot st then Some (st, default_block)
      else
        let live = (ns_status st = NLive)
        in case advance_clock live (clock_of_block codec accounts) (ns_accounts st)
                  (ns_membership st) default_block of
             None \<Rightarrow> None
           | Some (accs, mb, block) \<Rightarrow>
               (case nc_apply_accounts codec shared live slot accounts
                       (accs, mb, ns_seed_shadow st, block) of
                  None \<Rightarrow> None
                | Some (accs, mb, shadow, block) \<Rightarrow>
                    Some (st \<lparr>ns_slot := max (ns_slot st) slot, ns_accounts := accs,
                              ns_membership := mb, ns_seed_shadow := shadow\<rparr>, block)))"

text \<open>The debug views.\<close>

record nc_summary =
  nu_live :: bool
  nu_slot :: u64
  nu_clock :: "block_clock option"
  nu_members :: nat
  nu_non_circulating_lamports :: u64
  nu_stake_accounts :: nat
  nu_by_epoch :: nat
  nu_by_timestamp :: nat
  nu_epoch_heads :: "(u64 \<times> pubkey) list"
  nu_timestamp_heads :: "(int \<times> pubkey) list"

definition nc_summary_of :: "nat \<Rightarrow> nc_state option \<Rightarrow> nc_summary option" where
  "nc_summary_of heads tracker = map_option (\<lambda>st. let mb = ns_membership st in
     \<lparr>nu_live = (ns_status st = NLive), nu_slot = ns_slot st, nu_clock = mb_clock mb,
      nu_members = fcard (mb_members mb), nu_non_circulating_lamports = ucast (mb_total mb),
      nu_stake_accounts = fm_size (ns_accounts st), nu_by_epoch = fcard (mb_by_epoch mb),
      nu_by_timestamp = fcard (mb_by_timestamp mb),
      nu_epoch_heads = take heads (sorted_list_of_fset (mb_by_epoch mb)),
      nu_timestamp_heads = take heads (sorted_list_of_fset (mb_by_timestamp mb))\<rparr>) tracker"

definition nc_entry :: "pubkey \<Rightarrow> nc_state option \<Rightarrow> stake_entry_view option" where
  "nc_entry key tracker =
     Option.bind tracker (\<lambda>st. map_option entry_view (fmlookup (ns_accounts st) key))"

section \<open>The persisted member list\<close>

text \<open>The one row of \<open>non_circulating_accounts\<close>, its slot and its byte strings; \<open>None\<close> when the
  table is empty. A failed statement leaves it as it is.\<close>

type_synonym members_row = "(u64 \<times> u8 list list) option"

definition persist_members :: "bool \<Rightarrow> nc_state option \<Rightarrow> members_row \<Rightarrow> members_row" where
  "persist_members db_ok tracker row =
     (if db_ok then Some (fst (members tracker), map to_bytes (snd (members tracker))) else row)"

definition decode_members :: "u8 list list \<Rightarrow> pubkey list" where
  "decode_members rows = List.map_filter try_from rows"

definition load_members :: "members_row \<Rightarrow> pubkey list option" where
  "load_members row = map_option (\<lambda>(_, accounts). decode_members accounts) row"

definition nc_from_config ::
  "bool \<Rightarrow> bool \<Rightarrow> bool \<Rightarrow> nc_shared \<Rightarrow> bool \<Rightarrow> members_row \<Rightarrow> (nc_state option \<times> members_row) option" where
  "nc_from_config largest_accounts_enabled supply_enabled has_snapshot shared db_ok row =
     (if \<not> largest_accounts_enabled \<and> \<not> supply_enabled then Some (None, row)
      else if \<not> has_snapshot then None
      else Some (Some (new_tracker shared), if db_ok then None else row))"

definition finish_bootstrap_and_persist ::
  "(stake_map \<Rightarrow> pubkey list) \<Rightarrow> bool \<Rightarrow> nc_state \<Rightarrow> members_row \<Rightarrow> (nc_state \<times> members_row) option" where
  "finish_bootstrap_and_persist order db_ok st row =
     (case nc_finish_bootstrap order st of
        None \<Rightarrow> None
      | Some (st, flipped) \<Rightarrow>
          Some (st, if flipped then persist_members db_ok (Some st) row else row))"

definition nc_persist_block ::
  "stake_block \<Rightarrow> bool \<Rightarrow> nc_state option \<Rightarrow> members_row \<Rightarrow> members_row" where
  "nc_persist_block block db_ok tracker row =
     (if sk_members_changed block then persist_members db_ok tracker row else row)"

section \<open>Flag arithmetic\<close>

lemma bit_push_1: "k < 8 \<Longrightarrow> bit (push_bit k (1 :: u8)) n \<longleftrightarrow> n = k"
  by (auto simp: bit_exp_iff)

lemma bit_STAKE_OWNED: "bit STAKE_OWNED n \<longleftrightarrow> n = 0"
  and bit_LOCKUP: "bit LOCKUP n \<longleftrightarrow> n = 1"
  and bit_LISTED_WITHDRAWER: "bit LISTED_WITHDRAWER n \<longleftrightarrow> n = 2"
  and bit_PINNED: "bit PINNED n \<longleftrightarrow> n = 3"
  and bit_MEMBER: "bit MEMBER n \<longleftrightarrow> n = 4"
  and bit_IN_BY_EPOCH: "bit IN_BY_EPOCH n \<longleftrightarrow> n = 5"
  and bit_IN_BY_TIMESTAMP: "bit IN_BY_TIMESTAMP n \<longleftrightarrow> n = 6"
  unfolding STAKE_OWNED_def LOCKUP_def LISTED_WITHDRAWER_def PINNED_def MEMBER_def
    IN_BY_EPOCH_def IN_BY_TIMESTAMP_def by (rule bit_push_1, simp)+

lemmas bit_flags = bit_STAKE_OWNED bit_LOCKUP bit_LISTED_WITHDRAWER bit_PINNED bit_MEMBER
  bit_IN_BY_EPOCH bit_IN_BY_TIMESTAMP

lemma and_single_bit:
  assumes "\<And>n. bit flag n \<longleftrightarrow> n = k"
  shows "(w AND flag \<noteq> 0) = bit (w :: u8) k"
proof -
  have "w AND flag = 0 \<longleftrightarrow> (\<forall>n. \<not> bit (w AND flag) n)"
    by (metis bit_0_eq bit_eq_iff bot_apply bot_bool_def)
  then show ?thesis using assms by (simp add: bit_and_iff)
qed

lemma has_bits:
  "has e STAKE_OWNED = bit (se_flags e) 0" "has e LOCKUP = bit (se_flags e) 1"
  "has e LISTED_WITHDRAWER = bit (se_flags e) 2" "has e PINNED = bit (se_flags e) 3"
  "has e MEMBER = bit (se_flags e) 4" "has e IN_BY_EPOCH = bit (se_flags e) 5"
  "has e IN_BY_TIMESTAMP = bit (se_flags e) 6"
  unfolding has_def by (rule and_single_bit, rule bit_flags)+

lemma set_flag_fields [simp]:
  "se_lamports (set_flag f e) = se_lamports e" "se_slot (set_flag f e) = se_slot e"
  "se_lockup_epoch (set_flag f e) = se_lockup_epoch e"
  "se_lockup_unix_timestamp (set_flag f e) = se_lockup_unix_timestamp e"
  "se_lamports (clear_flag f e) = se_lamports e" "se_slot (clear_flag f e) = se_slot e"
  "se_lockup_epoch (clear_flag f e) = se_lockup_epoch e"
  "se_lockup_unix_timestamp (clear_flag f e) = se_lockup_unix_timestamp e"
  by (simp_all add: set_flag_def clear_flag_def)

text \<open>The seven flags are independent: setting or clearing one leaves the others as they are.\<close>

lemma bit_set_clear_flag [simp]:
  "n < 8 \<Longrightarrow> bit (se_flags (set_flag f e)) n \<longleftrightarrow> bit (se_flags e) n \<or> bit f n"
  "n < 8 \<Longrightarrow> bit (se_flags (clear_flag f e)) n \<longleftrightarrow> bit (se_flags e) n \<and> \<not> bit f n"
  by (auto simp: set_flag_def clear_flag_def bit_simps)

lemmas flag_bits = has_bits stake_owned_def member_def bit_flags bit_or_iff

section \<open>The invariant\<close>

text \<open>
  The map, the member set, the two expiry sets and the sum say the same thing. \<open>mirror_at\<close> is the
  agreement for one entry and \<open>mirror\<close> for all of them; a key without an entry is a member exactly
  when it is pinned.
\<close>

definition expiring :: "stake_entry \<Rightarrow> bool" where
  "expiring e \<longleftrightarrow> member e \<and> \<not> has e PINNED \<and> \<not> has e LISTED_WITHDRAWER"

definition entry_ok :: "nc_shared \<Rightarrow> pubkey \<Rightarrow> stake_entry \<Rightarrow> bool" where
  "entry_ok shared key e \<longleftrightarrow>
     (has e PINNED \<longleftrightarrow> key |\<in>| sh_pinned shared) \<and>
     (has e PINNED \<longrightarrow> member e) \<and>
     (member e \<and> \<not> has e PINNED \<longrightarrow> stake_owned e \<and> has e LOCKUP) \<and>
     (expiring e \<longleftrightarrow> has e IN_BY_EPOCH \<or> has e IN_BY_TIMESTAMP) \<and>
     \<not> (has e IN_BY_EPOCH \<and> has e IN_BY_TIMESTAMP)"

definition epoch_index :: "stake_map \<Rightarrow> (u64 \<times> pubkey) \<Rightarrow> bool" where
  "epoch_index accounts = (\<lambda>(epoch, key). \<exists>e. fmlookup accounts key = Some e \<and>
     has e IN_BY_EPOCH \<and> se_lockup_epoch e = epoch)"

definition timestamp_index :: "stake_map \<Rightarrow> (int \<times> pubkey) \<Rightarrow> bool" where
  "timestamp_index accounts = (\<lambda>(ts, key). \<exists>e. fmlookup accounts key = Some e \<and>
     has e IN_BY_TIMESTAMP \<and> se_lockup_unix_timestamp e = ts)"

definition is_member_key :: "nc_shared \<Rightarrow> stake_map \<Rightarrow> pubkey \<Rightarrow> bool" where
  "is_member_key shared accounts key =
     (case fmlookup accounts key of Some e \<Rightarrow> member e | None \<Rightarrow> key |\<in>| sh_pinned shared)"

definition share :: "pubkey \<Rightarrow> stake_entry \<Rightarrow> u128" where
  "share key e = (if member e then ucast (se_lamports e) else 0)"

definition mirror :: "nc_shared \<Rightarrow> stake_map \<Rightarrow> membership \<Rightarrow> bool" where
  "mirror shared accounts mb \<longleftrightarrow>
     (\<forall>key e. fmlookup accounts key = Some e \<longrightarrow> entry_ok shared key e) \<and>
     (\<forall>key. key |\<in>| mb_members mb \<longleftrightarrow> is_member_key shared accounts key) \<and>
     (\<forall>x. x |\<in>| mb_by_epoch mb \<longleftrightarrow> epoch_index accounts x) \<and>
     (\<forall>x. x |\<in>| mb_by_timestamp mb \<longleftrightarrow> timestamp_index accounts x) \<and>
     mb_total mb = fm_sum share accounts"

text \<open>The same with the entry of one key taken out, in the middle of an update of that key.\<close>

definition mirror_off :: "nc_shared \<Rightarrow> pubkey \<Rightarrow> stake_map \<Rightarrow> membership \<Rightarrow> bool" where
  "mirror_off shared key accounts mb \<longleftrightarrow>
     fmlookup accounts key = None \<and>
     mirror shared accounts (mb \<lparr>mb_members :=
       (if key |\<in>| sh_pinned shared then finsert key (mb_members mb) else mb_members mb |-| {|key|})\<rparr>)"

lemma mirror_off_vacant:
  assumes "mirror shared accounts mb" and "fmlookup accounts key = None"
  shows "mirror_off shared key accounts mb"
proof -
  have "(if key |\<in>| sh_pinned shared then finsert key (mb_members mb) else mb_members mb |-| {|key|})
      = mb_members mb"
    using assms by (auto simp: mirror_def is_member_key_def)
  with assms show ?thesis by (simp add: mirror_off_def)
qed

lemma mirror_off_unplace:
  assumes "mirror shared accounts mb" and "fmlookup accounts key = Some old"
  shows "mirror_off shared key (fmdrop key accounts) (unplace key old mb)"
  using assms fm_sum_split [of accounts key old share]
  unfolding mirror_off_def mirror_def unplace_def Let_def
  by (auto simp: is_member_key_def epoch_index_def timestamp_index_def share_def entry_ok_def
      expiring_def split: if_splits)

text \<open>What \<open>place\<close> computes, flag by flag.\<close>

lemma place_flags:
  assumes "place key e mb = Some (mb', e', m)" and "mb_clock mb = Some clock"
  shows "m = evaluate clock e" and "se_lamports e' = se_lamports e" and "se_slot e' = se_slot e"
    and "se_lockup_epoch e' = se_lockup_epoch e"
    and "se_lockup_unix_timestamp e' = se_lockup_unix_timestamp e"
    and "has e' STAKE_OWNED = has e STAKE_OWNED" and "has e' LOCKUP = has e LOCKUP"
    and "has e' LISTED_WITHDRAWER = has e LISTED_WITHDRAWER" and "has e' PINNED = has e PINNED"
    and "has e' MEMBER = m"
    and "has e' IN_BY_EPOCH \<longleftrightarrow> m \<and> \<not> has e PINNED \<and> \<not> has e LISTED_WITHDRAWER
           \<and> bc_epoch clock < se_lockup_epoch e"
    and "has e' IN_BY_TIMESTAMP \<longleftrightarrow> m \<and> \<not> has e PINNED \<and> \<not> has e LISTED_WITHDRAWER
           \<and> \<not> bc_epoch clock < se_lockup_epoch e"
  using assms by (auto simp: place_def Let_def flag_bits split: if_splits)

lemma place_membership:
  assumes "place key e mb = Some (mb', e', m)" and "mb_clock mb = Some clock"
  shows "mb_clock mb' = Some clock"
    and "mb_members mb' = (if m then finsert key (mb_members mb) else mb_members mb |-| {|key|})"
    and "mb_by_epoch mb' = (if has e' IN_BY_EPOCH then finsert (se_lockup_epoch e, key) (mb_by_epoch mb)
           else mb_by_epoch mb)"
    and "mb_by_timestamp mb' = (if has e' IN_BY_TIMESTAMP
           then finsert (se_lockup_unix_timestamp e, key) (mb_by_timestamp mb) else mb_by_timestamp mb)"
    and "mb_total mb' = (if m then ucast (se_lamports e) else 0) + mb_total mb"
  using assms by (auto simp: place_def Let_def flag_bits split: if_splits)

lemma place_returns:
  "mb_clock mb = Some clock \<Longrightarrow> \<exists>mb' e'. place key e mb = Some (mb', e', evaluate clock e)"
  by (simp add: place_def Let_def split_beta)

lemma place_entry_ok:
  assumes "place key e mb = Some (mb', e', m)" and "mb_clock mb = Some clock"
    and "has e PINNED \<longleftrightarrow> key |\<in>| sh_pinned shared"
  shows "entry_ok shared key e'"
  using assms(3) place_flags [OF assms(1,2)]
  by (auto simp: entry_ok_def expiring_def member_def stake_owned_def evaluate_def)

lemma mirror_put:
  assumes "mirror_off shared key accounts mb" and "entry_ok shared key e"
    and "mb_members mb' = (if member e then finsert key (mb_members mb) else mb_members mb |-| {|key|})"
    and "mb_by_epoch mb' = (if has e IN_BY_EPOCH then finsert (se_lockup_epoch e, key) (mb_by_epoch mb)
           else mb_by_epoch mb)"
    and "mb_by_timestamp mb' = (if has e IN_BY_TIMESTAMP
           then finsert (se_lockup_unix_timestamp e, key) (mb_by_timestamp mb) else mb_by_timestamp mb)"
    and "mb_total mb' = share key e + mb_total mb"
  shows "mirror shared (fmupd key e accounts) mb'"
proof -
  have vacant: "fmlookup accounts key = None"
    and m: "mirror shared accounts (mb \<lparr>mb_members :=
       (if key |\<in>| sh_pinned shared then finsert key (mb_members mb) else mb_members mb |-| {|key|})\<rparr>)"
    using assms(1) by (auto simp: mirror_off_def)
  have "\<forall>k x. fmlookup (fmupd key e accounts) k = Some x \<longrightarrow> entry_ok shared k x"
    using m assms(2) by (auto simp: mirror_def)
  moreover have "\<forall>k. k |\<in>| mb_members mb' \<longleftrightarrow> is_member_key shared (fmupd key e accounts) k"
    using m by (auto simp: assms(3) mirror_def is_member_key_def split: if_splits)
  moreover have "\<forall>x. x |\<in>| mb_by_epoch mb' \<longleftrightarrow> epoch_index (fmupd key e accounts) x"
    using m vacant by (auto simp: assms(4) mirror_def epoch_index_def)
  moreover have "\<forall>x. x |\<in>| mb_by_timestamp mb' \<longleftrightarrow> timestamp_index (fmupd key e accounts) x"
    using m vacant by (auto simp: assms(5) mirror_def timestamp_index_def)
  moreover have "mb_total mb' = fm_sum share (fmupd key e accounts)"
    using m vacant by (simp add: assms(6) mirror_def fm_sum_upd fm_sum_drop_None)
  ultimately show ?thesis by (simp add: mirror_def)
qed

lemma place_mirror:
  assumes "mirror_off shared key accounts mb" and "mb_clock mb = Some clock"
    and "has e PINNED \<longleftrightarrow> key |\<in>| sh_pinned shared"
    and "place key e mb = Some (mb', e', m)"
  shows "mirror shared (fmupd key e' accounts) mb'"
  using place_flags [OF assms(4,2)] place_membership [OF assms(4,2)]
  by (intro mirror_put [OF assms(1) place_entry_ok [OF assms(4,2,3)]])
    (simp_all add: share_def member_def)

subsection \<open>Expiry\<close>

text \<open>An expiry changes no field of an entry but the three derived flags, and only ever ends a
  membership; it reports exactly the memberships it ended.\<close>

definition same_account :: "stake_entry \<Rightarrow> stake_entry \<Rightarrow> bool" where
  "same_account e e' \<longleftrightarrow>
     se_lamports e' = se_lamports e \<and> se_slot e' = se_slot e \<and>
     se_lockup_epoch e' = se_lockup_epoch e \<and>
     se_lockup_unix_timestamp e' = se_lockup_unix_timestamp e \<and>
     has e' STAKE_OWNED = has e STAKE_OWNED \<and> has e' LOCKUP = has e LOCKUP \<and>
     has e' LISTED_WITHDRAWER = has e LISTED_WITHDRAWER \<and> has e' PINNED = has e PINNED"

definition shrinks :: "stake_map \<Rightarrow> stake_map \<Rightarrow> bool" where
  "shrinks accounts accounts' \<longleftrightarrow>
     (\<forall>key. rel_option (\<lambda>e e'. same_account e e' \<and> (member e' \<longrightarrow> member e))
        (fmlookup accounts key) (fmlookup accounts' key))"

definition ended :: "stake_map \<Rightarrow> stake_map \<Rightarrow> (pubkey \<times> u64) set" where
  "ended accounts accounts' = {(key, lamports). \<exists>e e'. fmlookup accounts key = Some e \<and>
     fmlookup accounts' key = Some e' \<and> member e \<and> \<not> member e' \<and> lamports = se_lamports e}"

definition reports :: "stake_map \<Rightarrow> stake_map \<Rightarrow> stake_block \<Rightarrow> stake_block \<Rightarrow> bool" where
  "reports accounts accounts' block block' \<longleftrightarrow>
     sk_delta block' = sk_delta block \<and> sk_handled block' = sk_handled block \<and>
     (\<exists>xs. sk_expired block' = sk_expired block @ xs \<and> distinct (map fst xs) \<and>
        set xs = ended accounts accounts' \<and>
        sk_members_changed block' = (sk_members_changed block \<or> xs \<noteq> []))"

lemma same_account_refl [simp]: "same_account e e"
  by (simp add: same_account_def)

lemma same_account_evaluate: "same_account e e' \<Longrightarrow> evaluate clock e' = evaluate clock e"
  by (simp add: same_account_def evaluate_def stake_owned_def)

lemma shrinks_refl [simp]: "shrinks a a"
  by (simp add: shrinks_def option.rel_refl)

lemma shrinks_trans: "shrinks a b \<Longrightarrow> shrinks b c \<Longrightarrow> shrinks a c"
  unfolding shrinks_def
proof
  fix key
  let ?R = "\<lambda>e e'. same_account e e' \<and> (member e' \<longrightarrow> member e)"
  assume "\<forall>k. rel_option ?R (fmlookup a k) (fmlookup b k)"
    and "\<forall>k. rel_option ?R (fmlookup b k) (fmlookup c k)"
  then have "rel_option ?R (fmlookup a key) (fmlookup b key)"
    and "rel_option ?R (fmlookup b key) (fmlookup c key)" by blast+
  then show "rel_option ?R (fmlookup a key) (fmlookup c key)"
    by (cases "fmlookup a key"; cases "fmlookup b key"; cases "fmlookup c key")
      (auto simp: same_account_def)
qed

lemma shrinks_at: "shrinks a b \<Longrightarrow> rel_option (\<lambda>e e'. same_account e e' \<and> (member e' \<longrightarrow> member e))
    (fmlookup a key) (fmlookup b key)"
  by (simp add: shrinks_def)

lemma shrinks_lookup:
  assumes "shrinks a b" and "fmlookup a key = Some e"
  obtains e' where "fmlookup b key = Some e'" and "same_account e e'" and "member e' \<longrightarrow> member e"
  using shrinks_at [OF assms(1), of key] assms(2) by (cases "fmlookup b key") auto

lemma shrinks_lookup_back:
  assumes "shrinks a b" and "fmlookup b key = Some e'"
  obtains e where "fmlookup a key = Some e" and "same_account e e'" and "member e' \<longrightarrow> member e"
  using shrinks_at [OF assms(1), of key] assms(2) by (cases "fmlookup a key") auto

lemma ended_trans:
  assumes "shrinks a b" and "shrinks b c"
  shows "ended a c = ended a b \<union> ended b c" and "fst ` ended a b \<inter> fst ` ended b c = {}"
proof -
  show "fst ` ended a b \<inter> fst ` ended b c = {}" by (auto simp: ended_def)
  have "x \<in> ended a c \<longleftrightarrow> x \<in> ended a b \<union> ended b c" for x
    using shrinks_at [OF assms(1), of "fst x"] shrinks_at [OF assms(2), of "fst x"]
    by (cases "fmlookup a (fst x)"; cases "fmlookup b (fst x)"; cases "fmlookup c (fst x)")
      (auto simp: ended_def same_account_def split_beta)
  then show "ended a c = ended a b \<union> ended b c" by blast
qed

lemma reports_refl [simp]: "reports a a block block"
  by (auto simp: reports_def ended_def intro!: exI [of _ "[]"])

lemma reports_trans:
  assumes "shrinks a b" and "shrinks b c" and "reports a b x y" and "reports b c y z"
  shows "reports a c x z"
  using assms(3,4) ended_trans [OF assms(1,2)] unfolding reports_def
  by (auto simp: image_iff disjoint_iff)

text \<open>The three ways an iteration changes an indexed entry.\<close>

lemma epoch_indexed:
  assumes "mirror shared accounts mb" and "(epoch, key) |\<in>| mb_by_epoch mb"
  obtains e where "fmlookup accounts key = Some e" and "has e IN_BY_EPOCH"
    and "se_lockup_epoch e = epoch" and "expiring e" and "\<not> has e IN_BY_TIMESTAMP" and "entry_ok shared key e"
proof -
  from assms obtain e where e: "fmlookup accounts key = Some e" "has e IN_BY_EPOCH"
      "se_lockup_epoch e = epoch" by (auto simp: mirror_def epoch_index_def)
  with assms(1) have "entry_ok shared key e" by (simp add: mirror_def)
  with e show thesis by (intro that [of e]) (auto simp: entry_ok_def)
qed

lemma timestamp_indexed:
  assumes "mirror shared accounts mb" and "(ts, key) |\<in>| mb_by_timestamp mb"
  obtains e where "fmlookup accounts key = Some e" and "has e IN_BY_TIMESTAMP"
    and "se_lockup_unix_timestamp e = ts" and "expiring e" and "\<not> has e IN_BY_EPOCH" and "entry_ok shared key e"
proof -
  from assms obtain e where e: "fmlookup accounts key = Some e" "has e IN_BY_TIMESTAMP"
      "se_lockup_unix_timestamp e = ts" by (auto simp: mirror_def timestamp_index_def)
  with assms(1) have "entry_ok shared key e" by (simp add: mirror_def)
  with e show thesis by (intro that [of e]) (auto simp: entry_ok_def)
qed

lemma mirror_replace:
  assumes "mirror shared accounts mb" and "fmlookup accounts key = Some old"
    and "entry_ok shared key e"
    and "mb_members mb' = (if member e then finsert key (mb_members mb) else mb_members mb |-| {|key|})"
    and "mb_by_epoch mb' = (if has e IN_BY_EPOCH
           then finsert (se_lockup_epoch e, key) (mb_by_epoch (unplace key old mb))
           else mb_by_epoch (unplace key old mb))"
    and "mb_by_timestamp mb' = (if has e IN_BY_TIMESTAMP
           then finsert (se_lockup_unix_timestamp e, key) (mb_by_timestamp (unplace key old mb))
           else mb_by_timestamp (unplace key old mb))"
    and "mb_total mb' = share key e + mb_total (unplace key old mb)"
  shows "mirror shared (fmupd key e accounts) mb'"
proof -
  have "mb_members (unplace key old mb) = mb_members mb" by (simp add: unplace_def Let_def)
  with assms mirror_off_unplace [OF assms(1,2)]
  have "mirror shared (fmupd key e (fmdrop key accounts)) mb'" by (intro mirror_put) simp_all
  moreover have "fmupd key e (fmdrop key accounts) = fmupd key e accounts"
    by (rule fmap_ext) simp
  ultimately show ?thesis by simp
qed

lemma shrinks_upd:
  assumes "fmlookup accounts key = Some e" and "same_account e e'" and "member e' \<longrightarrow> member e"
  shows "shrinks accounts (fmupd key e' accounts)"
  using assms by (auto simp: shrinks_def intro!: option.rel_refl)

lemma ended_upd:
  assumes "fmlookup accounts key = Some e" and "member e"
  shows "ended accounts (fmupd key e' accounts) = (if member e' then {} else {(key, se_lamports e)})"
  using assms by (auto simp: ended_def split: if_splits)

lemma move_step:
  assumes "mirror shared accounts mb" and "(epoch, key) |\<in>| mb_by_epoch mb"
    and "fmlookup accounts key = Some e"
  defines "e' \<equiv> set_flag IN_BY_TIMESTAMP (clear_flag IN_BY_EPOCH e)"
  shows "mirror shared (fmupd key e' accounts) (mb \<lparr>mb_by_epoch := mb_by_epoch mb |-| {|(epoch, key)|},
       mb_by_timestamp := finsert (se_lockup_unix_timestamp e, key) (mb_by_timestamp mb)\<rparr>)"
    and "shrinks accounts (fmupd key e' accounts)"
    and "reports accounts (fmupd key e' accounts) block block"
proof -
  have e: "has e IN_BY_EPOCH" "se_lockup_epoch e = epoch" "expiring e" "\<not> has e IN_BY_TIMESTAMP"
      "entry_ok shared key e"
    using epoch_indexed [OF assms(1,2)] assms(3) by auto
  have in_members: "key |\<in>| mb_members mb"
    using assms(1,3) e(3) by (auto simp: mirror_def is_member_key_def expiring_def)
  show "shrinks accounts (fmupd key e' accounts)"
    by (rule shrinks_upd [OF assms(3)]) (auto simp: e'_def same_account_def flag_bits)
  show "reports accounts (fmupd key e' accounts) block block"
    using ended_upd [OF assms(3), of e'] e(3)
    by (auto simp: reports_def e'_def flag_bits expiring_def)
  show "mirror shared (fmupd key e' accounts) (mb \<lparr>mb_by_epoch := mb_by_epoch mb |-| {|(epoch, key)|},
       mb_by_timestamp := finsert (se_lockup_unix_timestamp e, key) (mb_by_timestamp mb)\<rparr>)"
    using e in_members
    by (intro mirror_replace [OF assms(1,3)])
      (auto simp: e'_def entry_ok_def expiring_def unplace_def Let_def flag_bits share_def)
qed

lemma leave_step:
  assumes "mirror shared accounts mb" and "fmlookup accounts key = Some e" and "expiring e"
    and "flag = IN_BY_EPOCH \<and> has e IN_BY_EPOCH
           \<and> mb0 = mb \<lparr>mb_by_epoch := mb_by_epoch mb |-| {|(se_lockup_epoch e, key)|}\<rparr>
       \<or> flag = IN_BY_TIMESTAMP \<and> has e IN_BY_TIMESTAMP
           \<and> mb0 = mb \<lparr>mb_by_timestamp := mb_by_timestamp mb |-| {|(se_lockup_unix_timestamp e, key)|}\<rparr>"
    and "(e', mb', block') = leave key (clear_flag flag e) mb0 block"
  shows "mirror shared (fmupd key e' accounts) mb'" and "shrinks accounts (fmupd key e' accounts)"
    and "reports accounts (fmupd key e' accounts) block block'"
proof -
  have ok: "entry_ok shared key e" using assms(1,2) by (simp add: mirror_def)
  have e': "e' = clear_flag MEMBER (clear_flag flag e)" using assms(5) by (simp add: leave_def)
  show "shrinks accounts (fmupd key e' accounts)"
    using assms(4) by (intro shrinks_upd [OF assms(2)]) (auto simp: e' same_account_def flag_bits)
  show "reports accounts (fmupd key e' accounts) block block'"
    using ended_upd [OF assms(2), of e'] assms(3,5)
    by (auto simp: reports_def e' flag_bits expiring_def leave_def note_flip_def)
  show "mirror shared (fmupd key e' accounts) mb'"
    using ok assms(3-5)
    by (intro mirror_replace [OF assms(1,2)])
      (auto simp: leave_def entry_ok_def expiring_def unplace_def Let_def flag_bits share_def)
qed

text \<open>No expiry the clock has passed is left in the sets; and, for a clock that moves forward,
  nothing that still counts has left.\<close>

definition beyond :: "block_clock \<Rightarrow> membership \<Rightarrow> bool" where
  "beyond clock mb \<longleftrightarrow>
     (\<forall>x. x |\<in>| mb_by_epoch mb \<longrightarrow> bc_epoch clock < fst x) \<and>
     (\<forall>x. x |\<in>| mb_by_timestamp mb \<longrightarrow> bc_unix_timestamp clock < fst x)"

definition exact_entry :: "block_clock \<Rightarrow> stake_entry \<Rightarrow> bool" where
  "exact_entry clock e \<longleftrightarrow>
     (evaluate clock e \<longrightarrow> member e) \<and>
     (has e IN_BY_TIMESTAMP \<longrightarrow> se_lockup_epoch e \<le> bc_epoch clock)"

definition exact_map :: "block_clock \<Rightarrow> stake_map \<Rightarrow> bool" where
  "exact_map clock accounts \<longleftrightarrow> (\<forall>key e. fmlookup accounts key = Some e \<longrightarrow> exact_entry clock e)"

lemma exact_map_upd: "exact_map clock a \<Longrightarrow> exact_entry clock e \<Longrightarrow> exact_map clock (fmupd key e a)"
  by (simp add: exact_map_def)

lemma exact_clear:
  assumes "expiring e" and "se_lockup_epoch e \<le> bc_epoch clock"
    and "se_lockup_unix_timestamp e \<le> bc_unix_timestamp clock"
    and "flag = IN_BY_EPOCH \<and> \<not> has e IN_BY_TIMESTAMP \<or> flag = IN_BY_TIMESTAMP"
  shows "exact_entry clock (clear_flag MEMBER (clear_flag flag e))"
  using assms by (auto simp: exact_entry_def evaluate_def expiring_def flag_bits)

text \<open>A loop ends without a panic in a state that mirrors again, and the head of its set is then
  beyond the clock.\<close>

definition expires_to ::
  "nc_shared \<Rightarrow> block_clock \<Rightarrow> stake_map \<times> membership \<times> stake_block \<Rightarrow> stake_map \<times> membership \<times> stake_block \<Rightarrow> bool" where
  "expires_to shared clock = (\<lambda>(a, m, b) (a', m', b').
     mirror shared a' m' \<and> (exact_map clock a \<longrightarrow> exact_map clock a') \<and> mb_clock m' = mb_clock m \<and> shrinks a a' \<and> reports a a' b b')"

lemma expires_to_trans:
  "expires_to shared clock x y \<Longrightarrow> expires_to shared clock y z \<Longrightarrow> expires_to shared clock x z"
  unfolding expires_to_def by (auto intro: shrinks_trans reports_trans)

lemma expire_epochs_spec:
  assumes "mirror shared accounts mb"
  shows "\<exists>a m b. expire_epochs clock accounts mb block = Some (a, m, b)
     \<and> expires_to shared clock (accounts, mb, block) (a, m, b)
     \<and> (\<forall>x. x |\<in>| mb_by_epoch m \<longrightarrow> bc_epoch clock < fst x)"
  using assms
proof (induction "fcard (mb_by_epoch mb)" arbitrary: accounts mb block rule: less_induct)
  case less
  show ?case
  proof (cases "first (mb_by_epoch mb)")
    case None
    with less(2) show ?thesis
      by (subst expire_epochs.simps) (simp add: expires_to_def)
  next
    case (Some head)
    obtain epoch key where head: "head = (epoch, key)" by fastforce
    note first = Some [unfolded head]
    show ?thesis
    proof (cases "bc_epoch clock < epoch")
      case True
      then have "bc_epoch clock < fst x" if "x |\<in>| mb_by_epoch mb" for x
        using first_le [OF first that] by (cases x) auto
      with True first less(2) show ?thesis
        by (subst expire_epochs.simps) (fastforce simp: expires_to_def)
    next
      case False
      from epoch_indexed [OF less(2) first_SomeD [OF first]] obtain e
        where e: "fmlookup accounts key = Some e" "has e IN_BY_EPOCH" "se_lockup_epoch e = epoch"
          "expiring e" "\<not> has e IN_BY_TIMESTAMP" by metis
      have "\<exists>a1 m1 b1. expire_epochs clock accounts mb block = expire_epochs clock a1 m1 b1
          \<and> expires_to shared clock (accounts, mb, block) (a1, m1, b1)
          \<and> mb_by_epoch m1 = mb_by_epoch mb |-| {|(epoch, key)|}"
      proof (cases "bc_unix_timestamp clock < se_lockup_unix_timestamp e")
        case True
        let ?e = "set_flag IN_BY_TIMESTAMP (clear_flag IN_BY_EPOCH e)"
        have "exact_map clock (fmupd key ?e accounts)" if "exact_map clock accounts"
          using that e False by (intro exact_map_upd) (auto simp: exact_entry_def expiring_def flag_bits)
        with True move_step [OF less(2) first_SomeD [OF first] e(1)] first False e(1) show ?thesis
          by (subst expire_epochs.simps) (fastforce simp: expires_to_def)
      next
        case gone: False
        obtain e' m1 b1 where l: "(e', m1, b1) = leave key (clear_flag IN_BY_EPOCH e)
            (mb \<lparr>mb_by_epoch := mb_by_epoch mb |-| {|(epoch, key)|}\<rparr>) block"
          by (metis prod_cases3)
        have "mb_by_epoch m1 = mb_by_epoch mb |-| {|(epoch, key)|}" "mb_clock m1 = mb_clock mb"
          using l by (auto simp: leave_def)
        moreover have "exact_entry clock e'"
          using l exact_clear [OF e(4), of clock IN_BY_EPOCH] e gone False by (simp add: leave_def)
        then have "expires_to shared clock (accounts, mb, block) (fmupd key e' accounts, m1, b1)"
          using exact_map_upd leave_step [OF less(2) e(1,4) _ l] e \<open>mb_clock m1 = mb_clock mb\<close>
          by (simp add: expires_to_def)
        moreover have "expire_epochs clock accounts mb block
            = expire_epochs clock (fmupd key e' accounts) m1 b1"
          using gone first False e(1) by (subst expire_epochs.simps) (simp flip: l)
        ultimately show ?thesis by blast
      qed
      then obtain a1 m1 b1 where step: "expire_epochs clock accounts mb block = expire_epochs clock a1 m1 b1"
          "expires_to shared clock (accounts, mb, block) (a1, m1, b1)"
          "mb_by_epoch m1 = mb_by_epoch mb |-| {|(epoch, key)|}" by blast
      have "fcard (mb_by_epoch m1) < fcard (mb_by_epoch mb)" "mirror shared a1 m1"
        using step(2,3) fcard_pop_less [OF first] by (auto simp: expires_to_def)
      from less(1) [OF this, of b1] obtain a m b where
        "expire_epochs clock a1 m1 b1 = Some (a, m, b)" "expires_to shared clock (a1, m1, b1) (a, m, b)"
        "\<forall>x. x |\<in>| mb_by_epoch m \<longrightarrow> bc_epoch clock < fst x" by blast
      with step(1) expires_to_trans [OF step(2)] show ?thesis by auto
    qed
  qed
qed

lemma expire_timestamps_spec:
  assumes "mirror shared accounts mb"
  shows "\<exists>a m b. expire_timestamps clock accounts mb block = Some (a, m, b)
     \<and> expires_to shared clock (accounts, mb, block) (a, m, b)
     \<and> mb_by_epoch m = mb_by_epoch mb
     \<and> (\<forall>x. x |\<in>| mb_by_timestamp m \<longrightarrow> bc_unix_timestamp clock < fst x)"
  using assms
proof (induction "fcard (mb_by_timestamp mb)" arbitrary: accounts mb block rule: less_induct)
  case less
  show ?case
  proof (cases "first (mb_by_timestamp mb)")
    case None
    with less(2) show ?thesis
      by (subst expire_timestamps.simps) (simp add: expires_to_def)
  next
    case (Some head)
    obtain ts key where head: "head = (ts, key)" by fastforce
    note first = Some [unfolded head]
    show ?thesis
    proof (cases "bc_unix_timestamp clock < ts")
      case True
      then have "bc_unix_timestamp clock < fst x" if "x |\<in>| mb_by_timestamp mb" for x
        using first_le [OF first that] by (cases x) auto
      with True first less(2) show ?thesis
        by (subst expire_timestamps.simps) (fastforce simp: expires_to_def)
    next
      case False
      from timestamp_indexed [OF less(2) first_SomeD [OF first]] obtain e
        where e: "fmlookup accounts key = Some e" "has e IN_BY_TIMESTAMP"
          "se_lockup_unix_timestamp e = ts" "expiring e" by metis
      obtain e' m1 b1 where l: "(e', m1, b1) = leave key (clear_flag IN_BY_TIMESTAMP e)
          (mb \<lparr>mb_by_timestamp := mb_by_timestamp mb |-| {|(ts, key)|}\<rparr>) block"
        by (metis prod_cases3)
      have m1: "mb_by_timestamp m1 = mb_by_timestamp mb |-| {|(ts, key)|}" "mb_clock m1 = mb_clock mb"
          "mb_by_epoch m1 = mb_by_epoch mb"
        using l by (auto simp: leave_def)
      have exact: "exact_map clock (fmupd key e' accounts)" if "exact_map clock accounts"
      proof (rule exact_map_upd [OF that])
        from that e have "se_lockup_epoch e \<le> bc_epoch clock" by (auto simp: exact_map_def exact_entry_def)
        with l exact_clear [OF e(4), of clock IN_BY_TIMESTAMP] e False show "exact_entry clock e'"
          by (simp add: leave_def)
      qed
      have to: "expires_to shared clock (accounts, mb, block) (fmupd key e' accounts, m1, b1)"
        using leave_step [OF less(2) e(1,4) _ l] e m1(2) exact by (simp add: expires_to_def)
      have eq: "expire_timestamps clock accounts mb block
          = expire_timestamps clock (fmupd key e' accounts) m1 b1"
        using first False e(1) by (subst expire_timestamps.simps) (simp flip: l)
      have "fcard (mb_by_timestamp m1) < fcard (mb_by_timestamp mb)"
          "mirror shared (fmupd key e' accounts) m1"
        using to m1(1) fcard_pop_less [OF first] by (auto simp: expires_to_def)
      from less(1) [OF this, of b1] obtain a m b where
        "expire_timestamps clock (fmupd key e' accounts) m1 b1 = Some (a, m, b)"
        "expires_to shared clock (fmupd key e' accounts, m1, b1) (a, m, b)" "mb_by_epoch m = mb_by_epoch m1"
        "\<forall>x. x |\<in>| mb_by_timestamp m \<longrightarrow> bc_unix_timestamp clock < fst x" by blast
      with eq m1(3) expires_to_trans [OF to] show ?thesis by auto
    qed
  qed
qed

lemma member_evaluates:
  assumes "mirror shared accounts mb" and "beyond clock mb" and "fmlookup accounts key = Some e"
    and "member e"
  shows "evaluate clock e"
proof -
  have ok: "entry_ok shared key e" using assms(1,3) by (simp add: mirror_def)
  consider (never) "has e PINNED \<or> has e LISTED_WITHDRAWER" | (epoch) "expiring e" "has e IN_BY_EPOCH"
    | (ts) "expiring e" "has e IN_BY_TIMESTAMP"
    using ok assms(4) by (auto simp: entry_ok_def expiring_def)
  then show ?thesis
  proof cases
    case never
    with ok assms(4) show ?thesis by (auto simp: entry_ok_def evaluate_def)
  next
    case epoch
    with assms have "(se_lockup_epoch e, key) |\<in>| mb_by_epoch mb"
      by (auto simp: mirror_def epoch_index_def)
    with assms(2) have "bc_epoch clock < se_lockup_epoch e" by (auto simp: beyond_def)
    with ok epoch show ?thesis by (auto simp: entry_ok_def expiring_def evaluate_def)
  next
    case ts
    with assms have "(se_lockup_unix_timestamp e, key) |\<in>| mb_by_timestamp mb"
      by (auto simp: mirror_def timestamp_index_def)
    with assms(2) have "bc_unix_timestamp clock < se_lockup_unix_timestamp e" by (auto simp: beyond_def)
    with ok ts show ?thesis by (auto simp: entry_ok_def expiring_def evaluate_def)
  qed
qed

lemma expire_spec:
  assumes "mirror shared accounts mb" and "mb_clock mb = Some clock"
  obtains a m b where "expire accounts mb block = Some (a, m, b)"
    and "expires_to shared clock (accounts, mb, block) (a, m, b)" and "beyond clock m"
proof -
  from expire_epochs_spec [OF assms(1), of clock block] obtain a1 m1 b1 where
    1: "expire_epochs clock accounts mb block = Some (a1, m1, b1)"
       "expires_to shared clock (accounts, mb, block) (a1, m1, b1)"
       "\<forall>x. x |\<in>| mb_by_epoch m1 \<longrightarrow> bc_epoch clock < fst x" by blast
  then have "mirror shared a1 m1" by (simp add: expires_to_def)
  from expire_timestamps_spec [OF this, of clock b1] obtain a m b where
    2: "expire_timestamps clock a1 m1 b1 = Some (a, m, b)" "expires_to shared clock (a1, m1, b1) (a, m, b)"
       "mb_by_epoch m = mb_by_epoch m1"
       "\<forall>x. x |\<in>| mb_by_timestamp m \<longrightarrow> bc_unix_timestamp clock < fst x" by blast
  show thesis
    using 1 2 assms(2) expires_to_trans
    by (intro that [of a m b]) (auto simp: expire_def beyond_def)
qed

lemma evaluate_antimono:
  "bc_epoch c \<le> bc_epoch c' \<Longrightarrow> bc_unix_timestamp c \<le> bc_unix_timestamp c' \<Longrightarrow>
   evaluate c' e \<Longrightarrow> evaluate c e"
  by (auto simp: evaluate_def)

text \<open>The per-account path keeps the whole invariant.\<close>

lemma entry_from_account_fields [simp]:
  "se_lamports (entry_from_account codec shared owned pinned lamports data slot) = lamports"
  "se_slot (entry_from_account codec shared owned pinned lamports data slot) = slot"
  by (auto simp: entry_from_account_def Let_def split: option.splits stake_state_v2.splits)

lemma entry_from_account_flags [simp]:
  "has (entry_from_account codec shared owned pinned lamports data slot) PINNED = pinned"
  "stake_owned (entry_from_account codec shared owned pinned lamports data slot) = owned"
  "\<not> member (entry_from_account codec shared owned pinned lamports data slot)"
  "\<not> has (entry_from_account codec shared owned pinned lamports data slot) IN_BY_EPOCH"
  "\<not> has (entry_from_account codec shared owned pinned lamports data slot) IN_BY_TIMESTAMP"
  by (auto simp: entry_from_account_def Let_def flag_bits split: option.splits stake_state_v2.splits)

definition live_ok :: "nc_shared \<Rightarrow> block_clock \<Rightarrow> stake_map \<Rightarrow> membership \<Rightarrow> bool" where
  "live_ok shared clock accounts mb \<longleftrightarrow>
     mirror shared accounts mb \<and> mb_clock mb = Some clock \<and> beyond clock mb"

lemma place_live_ok:
  assumes "mirror_off shared key accounts mb" and "mb_clock mb = Some clock" and "beyond clock mb"
    and "has e PINNED \<longleftrightarrow> key |\<in>| sh_pinned shared"
  obtains mb' e' where "place key e mb = Some (mb', e', evaluate clock e)"
    and "live_ok shared clock (fmupd key e' accounts) mb'" and "exact_entry clock e'"
    and "same_account e e'"
proof -
  from place_returns [OF assms(2)] obtain mb' e' where p: "place key e mb = Some (mb', e', evaluate clock e)"
    by blast
  note f = place_flags [OF p assms(2)] and m = place_membership [OF p assms(2)]
  have sa: "same_account e e'" using f by (simp add: same_account_def)
  have "beyond clock mb'"
    using assms(3) f m by (auto simp: beyond_def evaluate_def)
  moreover have "exact_entry clock e'"
    using f same_account_evaluate [OF sa] by (auto simp: exact_entry_def member_def)
  ultimately show thesis
    using place_mirror [OF assms(1,2,4) p] m(1) sa by (intro that [OF p]) (auto simp: live_ok_def)
qed

lemma unplace_simps [simp]:
  "mb_clock (unplace key e mb) = mb_clock mb" "beyond clock mb \<Longrightarrow> beyond clock (unplace key e mb)"
  by (auto simp: unplace_def Let_def beyond_def)

text \<open>What one write does to the map and to the outcome, the flags aside.\<close>

definition owns :: "stake_map \<Rightarrow> pubkey \<Rightarrow> bool" where
  "owns accounts key = (case fmlookup accounts key of Some e \<Rightarrow> stake_owned e | None \<Rightarrow> False)"

definition balance :: "stake_map \<Rightarrow> pubkey \<Rightarrow> int" where
  "balance accounts key = (case fmlookup accounts key of Some e \<Rightarrow> uint (se_lamports e) | None \<Rightarrow> 0)"

definition account_entry_of :: "sysvar_codec \<Rightarrow> nc_shared \<Rightarrow> u64 \<Rightarrow> pubkey \<Rightarrow> grpc_account \<Rightarrow> stake_entry" where
  "account_entry_of codec shared slot key account =
     entry_from_account codec shared (ga_owner account = to_bytes STAKE_PROGRAM_ID)
       (key |\<in>| sh_pinned shared) (ga_lamports account) (ga_data account) slot"

definition accepts :: "nc_shared \<Rightarrow> u64 \<Rightarrow> stake_map \<Rightarrow> pubkey \<Rightarrow> grpc_account \<Rightarrow> bool" where
  "accepts shared slot accounts key account =
     (case fmlookup accounts key of
        Some old \<Rightarrow> se_slot old < slot
      | None \<Rightarrow> ga_owner account = to_bytes STAKE_PROGRAM_ID \<or> key |\<in>| sh_pinned shared)"

definition account_step ::
  "sysvar_codec \<Rightarrow> nc_shared \<Rightarrow> block_clock \<Rightarrow> u64 \<Rightarrow> pubkey \<Rightarrow> grpc_account \<Rightarrow>
   stake_map \<Rightarrow> stake_block \<Rightarrow> stake_map \<Rightarrow> stake_block \<Rightarrow> bool" where
  "account_step codec shared clock slot key account accs block accs' block' \<longleftrightarrow>
     (if accepts shared slot accs key account
      then \<exists>e. accs' = fmupd key e accs \<and> exact_entry clock e
               \<and> same_account (account_entry_of codec shared slot key account) e
      else accs' = accs) \<and>
     sk_handled block' = (if owns accs key then finsert key (sk_handled block) else sk_handled block) \<and>
     sk_delta block' = sk_delta block + (if owns accs key then balance accs' key - balance accs key else 0) \<and>
     sk_expired block' = sk_expired block \<and>
     (sk_members_changed block \<or> is_member_key shared accs key \<noteq> is_member_key shared accs' key
        \<longrightarrow> sk_members_changed block')"

lemma place_live_step:
  assumes "live_ok shared clock accs mb" and "has e PINNED \<longleftrightarrow> key |\<in>| sh_pinned shared"
    and "mb0 = (case fmlookup accs key of None \<Rightarrow> mb | Some old \<Rightarrow> unplace key old mb)"
  obtains mb' e' where "place key e mb0 = Some (mb', e', evaluate clock e)"
    and "live_ok shared clock (fmupd key e' accs) mb'" and "exact_entry clock e'" and "same_account e e'"
    and "member e' = evaluate clock e"
proof -
  have off: "mirror_off shared key (fmdrop key accs) mb0"
    using assms mirror_off_vacant [of shared accs mb key] mirror_off_unplace [of shared accs mb key]
    by (auto simp: live_ok_def fmdrop_idle' fmlookup_dom'_iff split: option.splits)
  have "mb_clock mb0 = Some clock" "beyond clock mb0"
    using assms(1,3) by (auto simp: live_ok_def split: option.splits)
  from place_live_ok [OF off this assms(2)] obtain mb' e' where
    p: "place key e mb0 = Some (mb', e', evaluate clock e)"
      "live_ok shared clock (fmupd key e' (fmdrop key accs)) mb'" "exact_entry clock e'" "same_account e e'"
    by metis
  moreover have "fmupd key e' (fmdrop key accs) = fmupd key e' accs"
    by (rule fmap_ext) simp
  moreover have "member e' = evaluate clock e"
    using place_flags(10) [OF p(1) \<open>mb_clock mb0 = Some clock\<close>] by (simp add: member_def)
  ultimately show thesis using that by simp
qed

lemma apply_account_live:
  assumes "live_ok shared clock accs mb" and "try_from (ga_pubkey account) = Some key"
  obtains accs' mb' block' where
    "nc_apply_account codec shared True slot account (accs, mb, shadow, block)
       = Some (accs', mb', shadow, block')"
    and "live_ok shared clock accs' mb'"
    and "account_step codec shared clock slot key account accs block accs' block'"
proof (cases "accepts shared slot accs key account")
  case False
  show thesis
  proof (rule that)
    show "nc_apply_account codec shared True slot account (accs, mb, shadow, block) = Some (accs, mb, shadow,
        if owns accs key then block \<lparr>sk_handled := finsert key (sk_handled block)\<rparr> else block)"
      using False assms(2)
      by (auto simp: nc_apply_account_def accepts_def owns_def Let_def split: option.splits)
    show "account_step codec shared clock slot key account accs block accs
        (if owns accs key then block \<lparr>sk_handled := finsert key (sk_handled block)\<rparr> else block)"
      using False by (auto simp: account_step_def)
  qed (rule assms(1))
next
  case True
  let ?e = "account_entry_of codec shared slot key account"
  have "has ?e PINNED \<longleftrightarrow> key |\<in>| sh_pinned shared" by (simp add: account_entry_of_def)
  from place_live_step [OF assms(1) this refl] obtain mb' e' where
    p: "place key ?e (case fmlookup accs key of None \<Rightarrow> mb | Some old \<Rightarrow> unplace key old mb)
          = Some (mb', e', evaluate clock ?e)"
      "live_ok shared clock (fmupd key e' accs) mb'" "exact_entry clock e'" "same_account ?e e'"
      "member e' = evaluate clock ?e"
    by metis
  have pinned: "evaluate clock ?e" if "key |\<in>| sh_pinned shared"
    using that by (simp add: evaluate_def account_entry_of_def)
  have lam: "se_lamports e' = ga_lamports account"
    using p(4) by (simp add: same_account_def account_entry_of_def)
  show thesis
  proof (rule that [OF _ p(2)])
    let ?block = "\<lambda>was. note_flip was (evaluate clock ?e)
      (if owns accs key then block \<lparr>sk_handled := finsert key (sk_handled block),
         sk_delta := sk_delta block + (balance (fmupd key e' accs) key - balance accs key)\<rparr> else block)"
    let ?was = "case fmlookup accs key of None \<Rightarrow> False | Some old \<Rightarrow> member old"
    show "nc_apply_account codec shared True slot account (accs, mb, shadow, block)
        = Some (fmupd key e' accs, mb', shadow, ?block ?was)"
    proof (cases "fmlookup accs key")
      case None
      with True assms(2) p(1) show ?thesis
        by (auto simp: nc_apply_account_def accepts_def owns_def account_entry_of_def)
    next
      case (Some old)
      with True assms(2) p(1) lam show ?thesis
        by (simp add: nc_apply_account_def accepts_def owns_def balance_def account_entry_of_def
            linorder_not_less [symmetric])
    qed
    show "account_step codec shared clock slot key account accs block (fmupd key e' accs) (?block ?was)"
      using True p(3-5) pinned
      by (cases "fmlookup accs key") (auto simp: account_step_def note_flip_def is_member_key_def)
  qed
qed

lemma account_step_exact:
  "account_step codec shared clock slot key account accs block accs' block' \<Longrightarrow> exact_map clock accs \<Longrightarrow>
   exact_map clock accs'"
  by (auto simp: account_step_def exact_map_def split: if_splits)

lemma account_step_frame:
  "account_step codec shared clock slot key account accs block accs' block' \<Longrightarrow> k \<noteq> key \<Longrightarrow>
   fmlookup accs' k = fmlookup accs k"
  by (auto simp: account_step_def split: if_splits)

text \<open>A whole block of writes in the live state: no panic, the invariant kept, and relative to the
  map \<open>a0\<close> the loop started from, the delta is the change of balance of the handled keys.\<close>

definition accounted :: "stake_map \<Rightarrow> stake_map \<Rightarrow> stake_block \<Rightarrow> bool" where
  "accounted a0 accs block \<longleftrightarrow>
     sk_delta block = (\<Sum>key \<in> fset (sk_handled block). balance accs key - balance a0 key)"

lemma account_step_accounted:
  assumes "account_step codec shared clock slot key account accs block accs' block'"
    and "accounted a0 accs block" and "fmlookup accs key = fmlookup a0 key"
    and "key |\<notin>| sk_handled block"
  shows "accounted a0 accs' block'"
proof -
  have same: "balance accs' k = balance accs k" if "k \<in> fset (sk_handled block)" for k
    using account_step_frame [OF assms(1), of k] assms(4) that
    by (cases "k = key") (auto simp: balance_def)
  have "balance accs key = balance a0 key" using assms(3) by (simp add: balance_def)
  with assms(1,2,4) same show ?thesis
    by (auto simp: accounted_def account_step_def cong: sum.cong)
qed

abbreviation block_keys :: "grpc_account list \<Rightarrow> pubkey set" where
  "block_keys accounts \<equiv> {key. to_bytes key \<in> ga_pubkey ` set accounts}"

lemma apply_accounts_live:
  assumes "live_ok shared clock accs mb"
  obtains accs' mb' block' where
    "nc_apply_accounts codec shared True slot accounts (accs, mb, shadow, block)
       = Some (accs', mb', shadow, block')"
    and "live_ok shared clock accs' mb'" and "exact_map clock accs \<Longrightarrow> exact_map clock accs'"
    and "sk_expired block' = sk_expired block"
proof -
  have "\<exists>accs' mb' block'. nc_apply_accounts codec shared True slot accounts (accs, mb, shadow, block)
        = Some (accs', mb', shadow, block')
      \<and> live_ok shared clock accs' mb' \<and> (exact_map clock accs \<longrightarrow> exact_map clock accs')
      \<and> sk_expired block' = sk_expired block"
    using assms
  proof (induction accounts arbitrary: accs mb block)
    case (Cons account accounts)
    show ?case
    proof (cases "try_from (ga_pubkey account)")
      case None
      with Cons show ?thesis by (simp add: nc_apply_account_def)
    next
      case (Some key)
      from apply_account_live [OF Cons.prems Some] obtain a1 m1 b1 where
        1: "nc_apply_account codec shared True slot account (accs, mb, shadow, block)
              = Some (a1, m1, shadow, b1)" "live_ok shared clock a1 m1"
           "account_step codec shared clock slot key account accs block a1 b1" by metis
      from Cons.IH [OF 1(2), of b1] 1 account_step_exact [OF 1(3)] show ?thesis
        by (auto simp: account_step_def)
    qed
  qed simp
  with that show thesis by blast
qed

lemma apply_accounts_report:
  assumes "live_ok shared clock accs mb" and "distinct (map ga_pubkey accounts)"
    and "nc_apply_accounts codec shared True slot accounts (accs, mb, shadow, block)
       = Some (accs', mb', shadow', block')"
    and "accounted a0 accs block"
    and "\<And>key. key \<in> block_keys accounts \<Longrightarrow>
           fmlookup accs key = fmlookup a0 key \<and> key |\<notin>| sk_handled block"
  shows "accounted a0 accs' block'
     \<and> fset (sk_handled block') = fset (sk_handled block) \<union> {key \<in> block_keys accounts. owns a0 key}"
  using assms
proof (induction accounts arbitrary: accs mb block)
  case (Cons account accounts)
  show ?case
  proof (cases "try_from (ga_pubkey account)")
    case None
    then have "nc_apply_account codec shared True slot account (accs, mb, shadow, block)
        = Some (accs, mb, shadow, block)" by (simp add: nc_apply_account_def)
    moreover have "to_bytes k \<noteq> ga_pubkey account" for k
      using None by (metis option.distinct(1) try_from_to_bytes)
    then have "block_keys (account # accounts) = block_keys accounts" by auto
    ultimately show ?thesis using Cons by simp
  next
    case (Some key)
    then have key: "ga_pubkey account = to_bytes key" by (simp add: try_from_eq_Some)
    from apply_account_live [OF Cons.prems(1) Some] obtain a1 m1 b1 where
      1: "nc_apply_account codec shared True slot account (accs, mb, shadow, block)
            = Some (a1, m1, shadow, b1)" "live_ok shared clock a1 m1"
         "account_step codec shared clock slot key account accs block a1 b1" by metis
    have keys: "block_keys (account # accounts) = insert key (block_keys accounts)"
      by (auto simp: key to_bytes_inject)
    have fresh: "key \<notin> block_keys accounts" using Cons.prems(2) by (auto simp: key)
    have at_key: "fmlookup accs key = fmlookup a0 key" "key |\<notin>| sk_handled block"
      using Cons.prems(5) [of key] by (simp_all add: key)
    then have "accounted a0 a1 b1" by (rule account_step_accounted [OF 1(3) Cons.prems(4)])
    moreover have "fmlookup a1 k = fmlookup a0 k \<and> k |\<notin>| sk_handled b1" if "k \<in> block_keys accounts" for k
      using Cons.prems(5) [of k] that keys fresh account_step_frame [OF 1(3), of k] 1(3)
      by (auto simp: account_step_def)
    ultimately have IH: "accounted a0 accs' block' \<and> fset (sk_handled block')
        = fset (sk_handled b1) \<union> {key \<in> block_keys accounts. owns a0 key}"
      using Cons.prems(2,3) 1(1) by (intro Cons.IH [OF 1(2)]) auto
    have "owns accs key = owns a0 key" using at_key by (simp add: owns_def)
    with IH 1(3) keys show ?thesis by (auto simp: account_step_def)
  qed
qed simp

subsection \<open>The tracker as a state machine\<close>

text \<open>Before the flip nothing is placed.\<close>

definition unplaced :: "nc_shared \<Rightarrow> pubkey \<Rightarrow> stake_entry \<Rightarrow> bool" where
  "unplaced shared key e \<longleftrightarrow> (has e PINNED \<longleftrightarrow> key |\<in>| sh_pinned shared) \<and> \<not> member e \<and>
     \<not> has e IN_BY_EPOCH \<and> \<not> has e IN_BY_TIMESTAMP"

definition boot_ok :: "nc_shared \<Rightarrow> stake_map \<Rightarrow> membership \<Rightarrow> bool" where
  "boot_ok shared accounts mb \<longleftrightarrow>
     (\<forall>key e. fmlookup accounts key = Some e \<longrightarrow> unplaced shared key e) \<and>
     mb_members mb = sh_pinned shared \<and> mb_by_epoch mb = {||} \<and> mb_by_timestamp mb = {||} \<and>
     mb_total mb = 0"

definition nc_inv :: "nc_shared \<Rightarrow> nc_state \<Rightarrow> bool" where
  "nc_inv shared st =
     (case ns_status st of
        NBootstrapping \<Rightarrow> boot_ok shared (ns_accounts st) (ns_membership st)
      | NLive \<Rightarrow> \<exists>clock. live_ok shared clock (ns_accounts st) (ns_membership st))"

lemma new_tracker_inv: "nc_inv shared (new_tracker shared)"
  by (simp add: nc_inv_def new_tracker_def boot_ok_def)

lemma unplaced_entry [simp]:
  "unplaced shared key (entry_from_account codec shared owned pinned lamports data slot)
     \<longleftrightarrow> pinned = (key |\<in>| sh_pinned shared)"
  by (simp add: unplaced_def)

lemma seed_account_inv:
  assumes "nc_inv shared st" and "ns_status st = NBootstrapping"
  shows "nc_inv shared (nc_seed_account codec shared key owner lamports data slot st)"
  using assms unfolding nc_seed_account_def Let_def
  by (auto simp: nc_inv_def boot_ok_def set_clock_def split: option.splits)

lemma place_all_ok:
  assumes "live_ok shared clock (fmdrop_set (set keys) accounts) mb" and "distinct keys"
    and "\<And>key e. key \<in> set keys \<Longrightarrow> fmlookup accounts key = Some e \<Longrightarrow> unplaced shared key e"
    and "set keys \<subseteq> fmdom' accounts"
    and "exact_map clock (fmdrop_set (set keys) accounts)"
  shows "\<exists>accounts' mb'. place_all keys accounts mb = Some (accounts', mb')
    \<and> live_ok shared clock accounts' mb' \<and> exact_map clock accounts'
    \<and> (\<forall>key. rel_option same_account (fmlookup accounts key) (fmlookup accounts' key))"
  using assms
proof (induction keys arbitrary: accounts mb)
  case Nil
  then show ?case by (auto simp: option.rel_refl)
next
  case (Cons key keys)
  from Cons.prems(4) obtain e where e: "fmlookup accounts key = Some e"
    by (auto simp: fmlookup_dom'_iff)
  let ?rest = "fmdrop_set (set (key # keys)) accounts"
  from Cons.prems(3) [OF _ e] have "has e PINNED \<longleftrightarrow> key |\<in>| sh_pinned shared"
    by (simp add: unplaced_def)
  moreover have "mb = (case fmlookup ?rest key of None \<Rightarrow> mb | Some old \<Rightarrow> unplace key old mb)" by simp
  ultimately obtain mb' e' where
    p: "place key e mb = Some (mb', e', evaluate clock e)" "live_ok shared clock (fmupd key e' ?rest) mb'"
      "exact_entry clock e'" "same_account e e'"
    using place_live_step [OF Cons.prems(1)] by metis
  have drop: "fmdrop_set (set keys) (fmupd key e' accounts) = fmupd key e' ?rest"
    using Cons.prems(2) by (intro fmap_ext) auto
  have "\<exists>accounts' mb''. place_all keys (fmupd key e' accounts) mb' = Some (accounts', mb'')
    \<and> live_ok shared clock accounts' mb'' \<and> exact_map clock accounts'
    \<and> (\<forall>k. rel_option same_account (fmlookup (fmupd key e' accounts) k) (fmlookup accounts' k))"
  proof (rule Cons.IH)
    show "exact_map clock (fmdrop_set (set keys) (fmupd key e' accounts))"
      unfolding drop by (rule exact_map_upd [OF Cons.prems(5) p(3)])
  qed (use Cons.prems p drop in \<open>auto split: if_splits\<close>)
  then obtain accounts' mb'' where r: "place_all keys (fmupd key e' accounts) mb' = Some (accounts', mb'')"
      "live_ok shared clock accounts' mb''" "exact_map clock accounts'"
      "\<forall>k. rel_option same_account (fmlookup (fmupd key e' accounts) k) (fmlookup accounts' k)" by blast
  have "rel_option same_account (fmlookup accounts k) (fmlookup accounts' k)" for k
    using r(4) [rule_format, of k] e p(4)
    by (cases "k = key"; cases "fmlookup accounts' k") (auto simp: same_account_def)
  with r e p(1) show ?case by simp
qed

text \<open>The order in which a hash map is visited: some enumeration of its keys.\<close>

definition iteration_order :: "(stake_map \<Rightarrow> pubkey list) \<Rightarrow> bool" where
  "iteration_order order \<longleftrightarrow> (\<forall>m. distinct (order m) \<and> set (order m) = fmdom' m)"

lemma mirror_empty: "boot_ok shared accounts mb \<Longrightarrow> mirror shared fmempty mb"
  by (simp add: boot_ok_def mirror_def is_member_key_def epoch_index_def timestamp_index_def split_beta)

lemma finish_bootstrap_ok:
  assumes "nc_inv shared st" and "iteration_order order" and "ns_status st = NBootstrapping"
    and "mb_clock (ns_membership st) = Some clock"
  obtains st' where "nc_finish_bootstrap order st = Some (st', True)" and "ns_status st' = NLive"
    and "ns_slot st' = ns_slot st"
    and "live_ok shared clock (ns_accounts st') (ns_membership st')"
    and "exact_map clock (ns_accounts st')"
    and "\<And>key. rel_option same_account
           (fmlookup (fm_retain (\<lambda>_ e. stake_owned e \<or> has e PINNED) (ns_accounts st)) key)
           (fmlookup (ns_accounts st') key)"
proof -
  let ?kept = "fm_retain (\<lambda>_ e. stake_owned e \<or> has e PINNED) (ns_accounts st)"
  have boot: "boot_ok shared (ns_accounts st) (ns_membership st)"
    using assms(1,3) by (simp add: nc_inv_def)
  have keys: "distinct (order ?kept)" "set (order ?kept) = fmdom' ?kept"
    using assms(2) by (simp_all add: iteration_order_def)
  have empty: "fmdrop_set (set (order ?kept)) ?kept = fmempty"
    unfolding keys by (rule fmap_ext) (auto simp: fmlookup_dom'_iff)
  have "\<exists>a m. place_all (order ?kept) ?kept (ns_membership st) = Some (a, m)
      \<and> live_ok shared clock a m \<and> exact_map clock a
      \<and> (\<forall>key. rel_option same_account (fmlookup ?kept key) (fmlookup a key))"
  proof (rule place_all_ok)
    show "live_ok shared clock (fmdrop_set (set (order ?kept)) ?kept) (ns_membership st)"
      using mirror_empty [OF boot] boot assms(4) unfolding empty
      by (simp add: live_ok_def beyond_def boot_ok_def)
    show "unplaced shared key e" if "fmlookup ?kept key = Some e" for key e
      using boot that by (auto simp: boot_ok_def split: option.splits if_splits)
    show "exact_map clock (fmdrop_set (set (order ?kept)) ?kept)"
      unfolding empty by (simp add: exact_map_def)
  qed (use keys in simp_all)
  then obtain a m where r: "place_all (order ?kept) ?kept (ns_membership st) = Some (a, m)"
      "live_ok shared clock a m" "exact_map clock a"
      "\<forall>key. rel_option same_account (fmlookup ?kept key) (fmlookup a key)" by blast
  show thesis
    by (rule that [of "st \<lparr>ns_status := NLive, ns_accounts := a, ns_membership := m,
          ns_seed_shadow := fmempty\<rparr>"])
      (use r assms(3,4) in \<open>simp_all add: nc_finish_bootstrap_def\<close>)
qed

lemma apply_account_boot:
  assumes "boot_ok shared accs mb"
  shows "\<exists>accs' shadow'. nc_apply_account codec shared False slot account (accs, mb, shadow, block)
      = Some (accs', mb, shadow', block) \<and> boot_ok shared accs' mb"
proof (cases "try_from (ga_pubkey account)")
  case None
  with assms show ?thesis by (simp add: nc_apply_account_def)
next
  case (Some key)
  have "boot_ok shared (fmupd key (account_entry_of codec shared slot key account) accs) mb"
    using assms by (simp add: boot_ok_def account_entry_of_def)
  with assms Some show ?thesis
    by (cases "fmlookup accs key") (auto simp: nc_apply_account_def Let_def account_entry_of_def)
qed

lemma apply_accounts_boot:
  assumes "boot_ok shared accs mb"
  shows "\<exists>accs' shadow'. nc_apply_accounts codec shared False slot accounts (accs, mb, shadow, block)
      = Some (accs', mb, shadow', block) \<and> boot_ok shared accs' mb"
  using assms
proof (induction accounts arbitrary: accs shadow)
  case (Cons account accounts)
  from apply_account_boot [OF Cons.prems, of codec slot account shadow block] obtain a s where
    "nc_apply_account codec shared False slot account (accs, mb, shadow, block) = Some (a, mb, s, block)"
    "boot_ok shared a mb" by blast
  with Cons.IH [OF this(2)] show ?case by simp
qed simp

lemma exact_map_advance:
  "exact_map c a \<Longrightarrow> bc_epoch c \<le> bc_epoch c' \<Longrightarrow> bc_unix_timestamp c \<le> bc_unix_timestamp c' \<Longrightarrow>
   exact_map c' a"
  unfolding exact_map_def exact_entry_def by (meson evaluate_antimono order_trans)

text \<open>The clock after a block, and a set of clocks whose epochs and timestamps grow with the slot.\<close>

definition newer_clock :: "block_clock \<Rightarrow> block_clock option \<Rightarrow> block_clock" where
  "newer_clock clock c =
     (case c of Some c \<Rightarrow> if bc_slot clock < bc_slot c then c else clock | None \<Rightarrow> clock)"

definition clock_monotone :: "block_clock set \<Rightarrow> bool" where
  "clock_monotone C \<longleftrightarrow> (\<forall>c \<in> C. \<forall>c' \<in> C. bc_slot c < bc_slot c' \<longrightarrow>
     bc_epoch c \<le> bc_epoch c' \<and> bc_unix_timestamp c \<le> bc_unix_timestamp c')"

text \<open>Advancing the clock in the live state: the expiries run exactly when the clock is newer.\<close>

lemma advance_clock_live:
  assumes "live_ok shared clock accs mb"
  obtains accs' mb' block' where
    "advance_clock True c accs mb block = Some (accs', mb', block')"
    and "live_ok shared (newer_clock clock c) accs' mb'" and "shrinks accs accs'"
    and "reports accs accs' block block'"
    and "exact_map clock accs \<Longrightarrow> bc_epoch clock \<le> bc_epoch (newer_clock clock c) \<Longrightarrow>
      bc_unix_timestamp clock \<le> bc_unix_timestamp (newer_clock clock c) \<Longrightarrow>
      exact_map (newer_clock clock c) accs'"
proof (cases "\<exists>c'. c = Some c' \<and> bc_slot clock < bc_slot c'")
  case False
  then have "newer_clock clock c = clock" by (auto simp: newer_clock_def split: option.splits)
  with False assms show thesis
    by (intro that [of accs mb block])
      (auto simp: advance_clock_def set_clock_def live_ok_def split: option.splits)
next
  case True
  then obtain c' where c: "c = Some c'" "bc_slot clock < bc_slot c'" by blast
  then have clock': "newer_clock clock c = c'" by (simp add: newer_clock_def)
  have "mirror shared accs (mb \<lparr>mb_clock := Some c'\<rparr>)" using assms by (simp add: live_ok_def mirror_def)
  from expire_spec [OF this, of c' block] obtain a m b where
    "expire accs (mb \<lparr>mb_clock := Some c'\<rparr>) block = Some (a, m, b)"
    "expires_to shared c' (accs, mb \<lparr>mb_clock := Some c'\<rparr>, block) (a, m, b)" "beyond c' m" by auto
  with c clock' assms exact_map_advance [of clock accs c'] show thesis
    by (intro that [of a m b]) (auto simp: advance_clock_def set_clock_def live_ok_def expires_to_def)
qed

text \<open>The live block path as a whole.\<close>

lemma apply_block_live:
  assumes "live_ok shared clock (ns_accounts st) (ns_membership st)" and "ns_status st = NLive"
    and "is_repaired \<or> ns_slot st < slot"
  obtains st' block' a1 m1 b1 where
    "nc_apply_block codec shared slot is_repaired accounts st = Some (st', block')"
    and "ns_status st' = NLive" and "ns_slot st' = max (ns_slot st) slot"
    and "live_ok shared (newer_clock clock (clock_of_block codec accounts)) (ns_accounts st') (ns_membership st')"
    and "shrinks (ns_accounts st) a1" and "reports (ns_accounts st) a1 default_block b1"
    and "live_ok shared (newer_clock clock (clock_of_block codec accounts)) a1 m1"
    and "nc_apply_accounts codec shared True slot accounts (a1, m1, ns_seed_shadow st, b1)
           = Some (ns_accounts st', ns_membership st', ns_seed_shadow st', block')"
    and "sk_expired block' = sk_expired b1"
    and "exact_map clock (ns_accounts st) \<Longrightarrow>
      bc_epoch clock \<le> bc_epoch (newer_clock clock (clock_of_block codec accounts)) \<Longrightarrow>
      bc_unix_timestamp clock \<le> bc_unix_timestamp (newer_clock clock (clock_of_block codec accounts)) \<Longrightarrow>
      exact_map (newer_clock clock (clock_of_block codec accounts)) (ns_accounts st')
      \<and> exact_map (newer_clock clock (clock_of_block codec accounts)) a1"
proof -
  let ?c = "newer_clock clock (clock_of_block codec accounts)"
  from advance_clock_live [OF assms(1), of "clock_of_block codec accounts" default_block]
  obtain a1 m1 b1 where 1: "advance_clock True (clock_of_block codec accounts) (ns_accounts st)
        (ns_membership st) default_block = Some (a1, m1, b1)"
      "live_ok shared ?c a1 m1" "shrinks (ns_accounts st) a1" "reports (ns_accounts st) a1 default_block b1"
      "exact_map clock (ns_accounts st) \<Longrightarrow> bc_epoch clock \<le> bc_epoch ?c \<Longrightarrow>
       bc_unix_timestamp clock \<le> bc_unix_timestamp ?c \<Longrightarrow> exact_map ?c a1"
    by metis
  from apply_accounts_live [OF 1(2), of codec slot accounts "ns_seed_shadow st" b1]
  obtain a2 m2 b2 where 2: "nc_apply_accounts codec shared True slot accounts (a1, m1, ns_seed_shadow st, b1)
        = Some (a2, m2, ns_seed_shadow st, b2)"
      "live_ok shared ?c a2 m2" "exact_map ?c a1 \<Longrightarrow> exact_map ?c a2" "sk_expired b2 = sk_expired b1"
    by metis
  have "\<not> (\<not> is_repaired \<and> slot \<le> ns_slot st)" using assms(3) by auto
  then show thesis
    by (intro that [of "st \<lparr>ns_slot := max (ns_slot st) slot, ns_accounts := a2, ns_membership := m2,
          ns_seed_shadow := ns_seed_shadow st\<rparr>" b2 a1 b1 m1])
      (use 1 2 assms(2) in \<open>simp_all add: nc_apply_block_def del: de_Morgan_conj not_le\<close>)
qed

lemma apply_block_liveE:
  assumes "live_ok shared clock (ns_accounts st) (ns_membership st)" and "ns_status st = NLive"
    and "is_repaired \<or> ns_slot st < slot"
    and "nc_apply_block codec shared slot is_repaired accounts st = Some (st', block)"
    and "c = newer_clock clock (clock_of_block codec accounts)"
  obtains a1 m1 b1 where
    "shrinks (ns_accounts st) a1" and "reports (ns_accounts st) a1 default_block b1"
    and "live_ok shared c a1 m1"
    and "nc_apply_accounts codec shared True slot accounts (a1, m1, ns_seed_shadow st, b1)
           = Some (ns_accounts st', ns_membership st', ns_seed_shadow st', block)"
    and "sk_expired block = sk_expired b1"
    and "exact_map clock (ns_accounts st) \<Longrightarrow> bc_epoch clock \<le> bc_epoch c \<Longrightarrow>
      bc_unix_timestamp clock \<le> bc_unix_timestamp c \<Longrightarrow> exact_map c a1"
  by (rule apply_block_live [OF assms(1-3), of codec accounts]) (use assms(4,5) that in auto)

lemma apply_block_skip:
  "\<not> is_repaired \<Longrightarrow> slot \<le> ns_slot st \<Longrightarrow>
   nc_apply_block codec shared slot is_repaired accounts st = Some (st, default_block)"
  by (simp add: nc_apply_block_def)

lemma apply_block_boot:
  assumes "nc_inv shared st" and "ns_status st = NBootstrapping"
  obtains st' where "nc_apply_block codec shared slot is_repaired accounts st = Some (st', default_block)"
    and "nc_inv shared st'" and "ns_status st' = NBootstrapping"
    and "mb_clock (ns_membership st') \<in> {mb_clock (ns_membership st), clock_of_block codec accounts}"
proof (cases "\<not> is_repaired \<and> slot \<le> ns_slot st")
  case True
  with assms that show thesis by (simp add: apply_block_skip)
next
  case False
  have boot: "boot_ok shared (ns_accounts st) (ns_membership st)" using assms by (simp add: nc_inv_def)
  have "\<exists>mb. advance_clock False (clock_of_block codec accounts) (ns_accounts st) (ns_membership st)
        default_block = Some (ns_accounts st, mb, default_block)
      \<and> boot_ok shared (ns_accounts st) mb
      \<and> mb_clock mb \<in> {mb_clock (ns_membership st), clock_of_block codec accounts}"
    using boot by (auto simp: advance_clock_def set_clock_def boot_ok_def split: option.splits)
  then obtain mb where mb: "advance_clock False (clock_of_block codec accounts) (ns_accounts st)
        (ns_membership st) default_block = Some (ns_accounts st, mb, default_block)"
      "boot_ok shared (ns_accounts st) mb"
      "mb_clock mb \<in> {mb_clock (ns_membership st), clock_of_block codec accounts}" by blast
  from apply_accounts_boot [OF mb(2), of codec slot accounts "ns_seed_shadow st" default_block]
  obtain a s where a: "nc_apply_accounts codec shared False slot accounts
      (ns_accounts st, mb, ns_seed_shadow st, default_block) = Some (a, mb, s, default_block)"
      "boot_ok shared a mb" by blast
  show thesis
    by (rule that [of "st \<lparr>ns_slot := max (ns_slot st) slot, ns_accounts := a, ns_membership := mb,
          ns_seed_shadow := s\<rparr>"])
      (use False mb a assms(2) in \<open>auto simp: nc_apply_block_def nc_inv_def\<close>)
qed

text \<open>
  The runs of the tracker: the snapshot seeds it until the flip, blocks reach it before and after,
  live and repaired, in any order. \<open>C\<close> is the set of the clocks the run has seen.
\<close>

inductive nc_run :: "sysvar_codec \<Rightarrow> nc_shared \<Rightarrow> (stake_map \<Rightarrow> pubkey list) \<Rightarrow> block_clock set \<Rightarrow> nc_state \<Rightarrow> bool"
  for codec shared order C where
  start: "nc_run codec shared order C (new_tracker shared)"
| seed: "nc_run codec shared order C st \<Longrightarrow> ns_status st = NBootstrapping \<Longrightarrow>
    (\<And>clock. key = CLOCK_SYSVAR_ID \<Longrightarrow> dec_clock codec data = Some clock \<Longrightarrow> clock \<in> C) \<Longrightarrow>
    nc_run codec shared order C (nc_seed_account codec shared key owner lamports data slot st)"
| flip: "nc_run codec shared order C st \<Longrightarrow> nc_finish_bootstrap order st = Some (st', flipped) \<Longrightarrow>
    nc_run codec shared order C st'"
| block: "nc_run codec shared order C st \<Longrightarrow>
    (\<And>clock. clock_of_block codec accounts = Some clock \<Longrightarrow> clock \<in> C) \<Longrightarrow>
    nc_apply_block codec shared slot is_repaired accounts st = Some (st', block') \<Longrightarrow>
    nc_run codec shared order C st'"

definition run_ok :: "nc_shared \<Rightarrow> block_clock set \<Rightarrow> nc_state \<Rightarrow> bool" where
  "run_ok shared C st \<longleftrightarrow>
     nc_inv shared st \<and> (\<forall>clock. mb_clock (ns_membership st) = Some clock \<longrightarrow> clock \<in> C) \<and>
     (ns_status st = NLive \<longrightarrow>
       (\<forall>clock. mb_clock (ns_membership st) = Some clock \<longrightarrow> exact_map clock (ns_accounts st)))"

lemma newer_clock_cases: "newer_clock clock c = clock \<or> c = Some (newer_clock clock c) \<and> bc_slot clock < bc_slot (newer_clock clock c)"
  by (auto simp: newer_clock_def split: option.splits)

lemma live_block_run_ok:
  assumes "run_ok shared C st" and "clock_monotone C" and "ns_status st = NLive"
    and "\<And>clock. clock_of_block codec accounts = Some clock \<Longrightarrow> clock \<in> C"
    and "nc_apply_block codec shared slot is_repaired accounts st = Some (st', block')"
  shows "run_ok shared C st'"
proof -
  from assms(1,3) obtain clock where clock: "live_ok shared clock (ns_accounts st) (ns_membership st)"
      "mb_clock (ns_membership st) = Some clock" "clock \<in> C" "exact_map clock (ns_accounts st)"
    by (auto simp: run_ok_def nc_inv_def live_ok_def)
  let ?c = "newer_clock clock (clock_of_block codec accounts)"
  have c: "?c \<in> C" "bc_epoch clock \<le> bc_epoch ?c" "bc_unix_timestamp clock \<le> bc_unix_timestamp ?c"
    using newer_clock_cases [of clock "clock_of_block codec accounts"] assms(2,4) clock(3)
    by (auto simp: clock_monotone_def)
  show ?thesis
  proof (cases "is_repaired \<or> ns_slot st < slot")
    case True
    show ?thesis
      by (rule apply_block_live [OF clock(1) assms(3) True, of codec accounts])
        (use assms(5) c clock(4) in \<open>auto simp: run_ok_def nc_inv_def live_ok_def\<close>)
  next
    case False
    then have "nc_apply_block codec shared slot is_repaired accounts st = Some (st, default_block)"
      by (auto simp: nc_apply_block_def)
    with assms show ?thesis by simp
  qed
qed

lemma nc_run_ok:
  assumes "nc_run codec shared order C st" and "iteration_order order" and "clock_monotone C"
  shows "run_ok shared C st"
  using assms(1)
proof induction
  case start
  show ?case using new_tracker_inv by (simp add: run_ok_def new_tracker_def)
next
  case (seed st key data owner lamports slot)
  have status: "ns_status (nc_seed_account codec shared key owner lamports data slot st) = NBootstrapping"
    using seed(2) by (auto simp: nc_seed_account_def Let_def split: option.splits)
  have "mb_clock (ns_membership (nc_seed_account codec shared key owner lamports data slot st)) = Some clock
      \<Longrightarrow> clock \<in> C" for clock
    using seed(3,4) by (auto simp: nc_seed_account_def Let_def run_ok_def set_clock_def
        split: option.splits if_splits)
  with seed status seed_account_inv show ?case by (simp add: run_ok_def)
next
  case (flip st st' flipped)
  show ?case
  proof (cases "ns_status st = NBootstrapping \<and> mb_clock (ns_membership st) \<noteq> None")
    case True
    then obtain clock where clock: "mb_clock (ns_membership st) = Some clock" by blast
    have inv: "nc_inv shared st" using flip(3) by (simp add: run_ok_def)
    show ?thesis
      by (rule finish_bootstrap_ok [OF inv assms(2) conjunct1 [OF True] clock])
        (use flip(2,3) clock in \<open>auto simp: run_ok_def nc_inv_def live_ok_def\<close>)
  next
    case False
    with flip show ?thesis by (auto simp: nc_finish_bootstrap_def split: if_splits)
  qed
next
  case (block st accounts slot is_repaired st' block')
  show ?case
  proof (cases "ns_status st")
    case NBootstrapping
    have inv: "nc_inv shared st" using block(4) by (simp add: run_ok_def)
    show ?thesis
      by (rule apply_block_boot [OF inv NBootstrapping, of codec slot is_repaired accounts])
        (use block in \<open>auto simp: run_ok_def\<close>)
  next
    case NLive
    show ?thesis by (rule live_block_run_ok [OF block(4) assms(3) NLive block(2,3)])
  qed
qed

lemma live_exact_member:
  "live_ok shared clock accounts mb \<Longrightarrow> exact_map clock accounts \<Longrightarrow> fmlookup accounts key = Some e \<Longrightarrow>
   member e = evaluate clock e"
  using member_evaluates by (auto simp: live_ok_def exact_map_def exact_entry_def)

lemma live_member_iff:
  assumes "run_ok shared C st" and "ns_status st = NLive" and "mb_clock (ns_membership st) = Some clock"
  shows "is_member_key shared (ns_accounts st) key =
     (case fmlookup (ns_accounts st) key of Some e \<Rightarrow> evaluate clock e | None \<Rightarrow> key |\<in>| sh_pinned shared)"
proof -
  have live: "live_ok shared clock (ns_accounts st) (ns_membership st)"
    using assms by (auto simp: run_ok_def nc_inv_def live_ok_def)
  moreover have "exact_map clock (ns_accounts st)" using assms by (simp add: run_ok_def)
  ultimately show ?thesis
    using live_exact_member by (auto simp: is_member_key_def split: option.splits)
qed

text \<open>The entry of each key after a block of writes with distinct keys.\<close>

lemma apply_accounts_entry:
  assumes "live_ok shared clock accs mb" and "distinct (map ga_pubkey accounts)"
    and "nc_apply_accounts codec shared True slot accounts (accs, mb, shadow, block)
       = Some (accs', mb', shadow', block')"
  shows "(key \<notin> block_keys accounts \<longrightarrow> fmlookup accs' key = fmlookup accs key) \<and>
    (\<forall>account \<in> set accounts. ga_pubkey account = to_bytes key \<longrightarrow>
      (if accepts shared slot accs key account
       then \<exists>e. fmlookup accs' key = Some e \<and> same_account (account_entry_of codec shared slot key account) e
       else fmlookup accs' key = fmlookup accs key))"
  using assms
proof (induction accounts arbitrary: accs mb block)
  case (Cons account accounts)
  show ?case
  proof (cases "try_from (ga_pubkey account)")
    case None
    then have "nc_apply_account codec shared True slot account (accs, mb, shadow, block)
        = Some (accs, mb, shadow, block)" by (simp add: nc_apply_account_def)
    moreover have "to_bytes k \<noteq> ga_pubkey account" for k
      using None by (metis option.distinct(1) try_from_to_bytes)
    ultimately show ?thesis using Cons by fastforce
  next
    case (Some own)
    then have own: "ga_pubkey account = to_bytes own" by (simp add: try_from_eq_Some)
    from apply_account_live [OF Cons.prems(1) Some] obtain a1 m1 b1 where
      1: "nc_apply_account codec shared True slot account (accs, mb, shadow, block)
            = Some (a1, m1, shadow, b1)" "live_ok shared clock a1 m1"
         "account_step codec shared clock slot own account accs block a1 b1" by metis
    note IH = Cons.IH [OF 1(2), of b1]
    show ?thesis
    proof (cases "key = own")
      case True
      then have "key \<notin> block_keys accounts" using Cons.prems(2) own by auto
      with IH Cons.prems(2,3) 1(1) have "fmlookup accs' key = fmlookup a1 key" by simp
      moreover have "ga_pubkey other \<noteq> to_bytes own" if "other \<in> set accounts" for other
        using that \<open>key \<notin> block_keys accounts\<close> True by (metis image_eqI mem_Collect_eq)
      moreover have "if accepts shared slot accs own account
          then \<exists>e. fmlookup a1 own = Some e \<and> same_account (account_entry_of codec shared slot own account) e
          else a1 = accs"
        using 1(3) by (auto simp: account_step_def)
      ultimately show ?thesis using True own by auto
    next
      case False
      then have "fmlookup a1 key = fmlookup accs key" using account_step_frame [OF 1(3)] by simp
      with IH Cons.prems(2,3) 1(1) own False show ?thesis
        by (auto simp: accepts_def to_bytes_inject)
    qed
  qed
qed simp

lemma shrinks_accepts: "shrinks a b \<Longrightarrow> accepts shared slot b key account = accepts shared slot a key account"
  using shrinks_at [of a b key]
  by (cases "fmlookup a key"; cases "fmlookup b key") (auto simp: accepts_def same_account_def)

lemma shrinks_owns: "shrinks a b \<Longrightarrow> owns b key = owns a key"
  using shrinks_at [of a b key]
  by (cases "fmlookup a key"; cases "fmlookup b key")
    (auto simp: owns_def same_account_def stake_owned_def)

lemma shrinks_balance: "shrinks a b \<Longrightarrow> balance b key = balance a key"
  using shrinks_at [of a b key]
  by (cases "fmlookup a key"; cases "fmlookup b key") (auto simp: balance_def same_account_def)

section \<open>Properties\<close>

text \<open>C8: In every live state a run reaches, with a Clock sysvar that does not move backwards, a key
  is reported non-circulating exactly when its entry satisfies Agave's rule at the tracker's clock,
  or when it is pinned and was never written.\<close>

theorem membership_exact:
  assumes "nc_run codec shared order C st" and "iteration_order order" and "clock_monotone C"
    and "ns_status st = NLive" and "mb_clock (ns_membership st) = Some clock"
  shows "is_non_circulating key (Some st) \<longleftrightarrow>
    (case fmlookup (ns_accounts st) key of
       Some e \<Rightarrow> evaluate clock e
     | None \<Rightarrow> key |\<in>| sh_pinned shared)"
proof -
  have ok: "run_ok shared C st" by (rule nc_run_ok [OF assms(1-3)])
  then have "key |\<in>| mb_members (ns_membership st) \<longleftrightarrow> is_member_key shared (ns_accounts st) key"
    using assms(4) by (auto simp: run_ok_def nc_inv_def live_ok_def mirror_def)
  with live_member_iff [OF ok assms(4,5)] assms(4) show ?thesis by (simp add: is_non_circulating_def)
qed

text \<open>The served non-circulating total is the sum, over all entries of the stake map, of the
  lamports of those that satisfy Agave's rule at the tracker's clock.\<close>

theorem total_is_sum:
  assumes "nc_run codec shared order C st" and "iteration_order order" and "clock_monotone C"
    and "ns_status st = NLive" and "mb_clock (ns_membership st) = Some clock"
  shows "nc_total (Some st) =
    Some (ucast (fm_sum (\<lambda>key e. if evaluate clock e then ucast (se_lamports e) else (0 :: u128))
      (ns_accounts st)))"
proof -
  have ok: "run_ok shared C st" by (rule nc_run_ok [OF assms(1-3)])
  then have "mb_total (ns_membership st) = fm_sum share (ns_accounts st)"
    using assms(4) by (auto simp: run_ok_def nc_inv_def live_ok_def mirror_def)
  also have "\<dots> = fm_sum (\<lambda>key e. if evaluate clock e then ucast (se_lamports e) else 0) (ns_accounts st)"
  proof (rule fm_sum_cong)
    fix key e assume "fmlookup (ns_accounts st) key = Some e"
    with live_member_iff [OF ok assms(4,5), of key]
    show "share key e = (if evaluate clock e then ucast (se_lamports e) else 0)"
      by (simp add: share_def is_member_key_def)
  qed
  finally show ?thesis using assms(4) by (simp add: nc_total_def)
qed

lemma block_returns:
  assumes inv: "nc_inv shared st"
  shows "nc_apply_block codec shared slot is_repaired accounts st \<noteq> None"
proof (cases "ns_status st")
  case NBootstrapping
  show ?thesis by (rule apply_block_boot [OF inv NBootstrapping]) auto
next
  case NLive
  then obtain clock where live: "live_ok shared clock (ns_accounts st) (ns_membership st)"
    using inv by (auto simp: nc_inv_def)
  show ?thesis
  proof (cases "is_repaired \<or> ns_slot st < slot")
    case True
    show ?thesis by (rule apply_block_live [OF live NLive True]) auto
  qed (auto simp: nc_apply_block_def)
qed

lemma block_keeps_nc_inv:
  assumes inv: "nc_inv shared st" and "nc_apply_block codec shared slot is_repaired accounts st = Some (st', block')"
  shows "nc_inv shared st'"
proof (cases "ns_status st")
  case NBootstrapping
  show ?thesis
    by (rule apply_block_boot [OF inv NBootstrapping, of codec slot is_repaired accounts]) (use assms(2) in auto)
next
  case NLive
  then obtain clock where live: "live_ok shared clock (ns_accounts st) (ns_membership st)"
    using inv by (auto simp: nc_inv_def)
  show ?thesis
  proof (cases "is_repaired \<or> ns_slot st < slot")
    case True
    show ?thesis
      by (rule apply_block_live [OF live NLive True, of codec accounts]) (use assms(2) in \<open>auto simp: nc_inv_def\<close>)
  next
    case False
    then have "nc_apply_block codec shared slot is_repaired accounts st = Some (st, default_block)"
      by (auto simp: nc_apply_block_def)
    then show ?thesis using inv assms(2) by simp
  qed
qed

text \<open>No call panics: in every reachable state the flip and every block, live or repaired, with
  any content, return.\<close>

theorem tracker_no_panic:
  assumes "nc_run codec shared order C st" and "iteration_order order" and "clock_monotone C"
  shows "nc_finish_bootstrap order st \<noteq> None
    \<and> nc_apply_block codec shared slot is_repaired accounts st \<noteq> None"
proof -
  have inv: "nc_inv shared st" using nc_run_ok [OF assms] by (simp add: run_ok_def)
  have "nc_finish_bootstrap order st \<noteq> None"
  proof (cases "ns_status st = NBootstrapping \<and> mb_clock (ns_membership st) \<noteq> None")
    case True
    with finish_bootstrap_ok [OF inv assms(2)] show ?thesis by (metis option.distinct(1) option.exhaust)
  qed (auto simp: nc_finish_bootstrap_def)
  moreover note block_returns [OF inv, of codec slot is_repaired accounts]
  ultimately show ?thesis by blast
qed

text \<open>A live block reports as expired exactly the accounts that were members at the old clock and
  fail Agave's rule at the new one, each once, with the lamports they held.\<close>

theorem expired_report:
  assumes "nc_run codec shared order C st" and "iteration_order order" and "clock_monotone C"
    and "ns_status st = NLive" and "mb_clock (ns_membership st) = Some clock"
    and "clock_of_block codec accounts = Some clock'" and "clock' \<in> C" and "bc_slot clock < bc_slot clock'"
    and "is_repaired \<or> ns_slot st < slot"
    and "nc_apply_block codec shared slot is_repaired accounts st = Some (st', block)"
  shows "distinct (map fst (sk_expired block)) \<and> set (sk_expired block) =
    {(key, lamports). \<exists>e. fmlookup (ns_accounts st) key = Some e \<and> lamports = se_lamports e
       \<and> evaluate clock e \<and> \<not> evaluate clock' e}"
proof -
  have ok: "run_ok shared C st" by (rule nc_run_ok [OF assms(1-3)])
  then have live: "live_ok shared clock (ns_accounts st) (ns_membership st)"
      and exact: "exact_map clock (ns_accounts st)" and "clock \<in> C"
    using assms(4,5) by (auto simp: run_ok_def nc_inv_def live_ok_def)
  have c: "newer_clock clock (clock_of_block codec accounts) = clock'"
    using assms(6,8) by (simp add: newer_clock_def)
  have mono: "bc_epoch clock \<le> bc_epoch clock'" "bc_unix_timestamp clock \<le> bc_unix_timestamp clock'"
    using assms(3,7,8) \<open>clock \<in> C\<close> by (auto simp: clock_monotone_def)
  from apply_block_liveE [OF live assms(4,9,10) c [symmetric]] exact mono
  obtain a1 m1 b1 where 1: "shrinks (ns_accounts st) a1" "reports (ns_accounts st) a1 default_block b1"
      "live_ok shared clock' a1 m1" "sk_expired block = sk_expired b1" "exact_map clock' a1"
    by metis
  have mem: "(member e \<and> \<not> member e') = (evaluate clock e \<and> \<not> evaluate clock' e)"
    if "fmlookup (ns_accounts st) key = Some e" "fmlookup a1 key = Some e'" for key e e'
    using that live_exact_member [OF live exact] live_exact_member [OF 1(3,5)]
      shrinks_at [OF 1(1), of key] same_account_evaluate by auto
  have "x \<in> ended (ns_accounts st) a1 \<longleftrightarrow> (\<exists>e. fmlookup (ns_accounts st) (fst x) = Some e
      \<and> snd x = se_lamports e \<and> evaluate clock e \<and> \<not> evaluate clock' e)" for x
  proof (cases "fmlookup (ns_accounts st) (fst x)")
    case (Some e)
    then obtain e' where "fmlookup a1 (fst x) = Some e'" using shrinks_lookup [OF 1(1)] by metis
    with Some mem [OF Some this] show ?thesis by (simp add: ended_def split_beta) blast
  qed (simp add: ended_def split_beta)
  then have "ended (ns_accounts st) a1 = {(key, lamports). \<exists>e. fmlookup (ns_accounts st) key = Some e
      \<and> lamports = se_lamports e \<and> evaluate clock e \<and> \<not> evaluate clock' e}" by auto
  with 1(2,4) show ?thesis by (auto simp: reports_def default_block_def)
qed

text \<open>In the live state, for a block that carries each key once, the handled keys are exactly
  the written keys whose entry was stake-owned before the block, and the reported delta is the sum
  of their balance changes in the map.\<close>

theorem stake_delta:
  assumes "nc_run codec shared order C st" and "iteration_order order" and "clock_monotone C"
    and "ns_status st = NLive" and "is_repaired \<or> ns_slot st < slot"
    and "distinct (map ga_pubkey accounts)"
    and "nc_apply_block codec shared slot is_repaired accounts st = Some (st', block)"
  shows "fset (sk_handled block) = {key \<in> block_keys accounts. owns (ns_accounts st) key}
    \<and> sk_delta block =
        (\<Sum>key \<in> fset (sk_handled block). balance (ns_accounts st') key - balance (ns_accounts st) key)"
proof -
  from nc_run_ok [OF assms(1-3)] assms(4) obtain clock
    where live: "live_ok shared clock (ns_accounts st) (ns_membership st)"
    by (auto simp: run_ok_def nc_inv_def)
  from apply_block_liveE [OF live assms(4,5,7) refl]
  obtain a1 m1 b1 c where 1: "shrinks (ns_accounts st) a1" "reports (ns_accounts st) a1 default_block b1"
      "live_ok shared c a1 m1" "nc_apply_accounts codec shared True slot accounts
         (a1, m1, ns_seed_shadow st, b1) = Some (ns_accounts st', ns_membership st', ns_seed_shadow st', block)"
    by metis
  have b1: "sk_delta b1 = 0" "sk_handled b1 = {||}" using 1(2) by (auto simp: reports_def default_block_def)
  have "accounted a1 (ns_accounts st') block
      \<and> fset (sk_handled block) = fset (sk_handled b1) \<union> {key \<in> block_keys accounts. owns a1 key}"
    by (rule apply_accounts_report [OF 1(3) assms(6) 1(4)]) (simp_all add: accounted_def b1)
  then show ?thesis
    by (simp add: accounted_def b1 shrinks_owns [OF 1(1)] shrinks_balance [OF 1(1)])
qed

text \<open>Newest slot wins: a live block replaces an entry by the decoded write exactly when the
  entry's stamp is below the block's slot, creates one only for a stake-owned or pinned account, and
  otherwise leaves balance, stamp, lockup and ownership as they were.\<close>

theorem newest_slot_wins:
  assumes "nc_run codec shared order C st" and "iteration_order order" and "clock_monotone C"
    and "ns_status st = NLive" and "is_repaired \<or> ns_slot st < slot"
    and "distinct (map ga_pubkey accounts)"
    and "nc_apply_block codec shared slot is_repaired accounts st = Some (st', block)"
    and "account \<in> set accounts" and "ga_pubkey account = to_bytes key"
  shows "rel_option same_account (fmlookup (ns_accounts st') key)
    (case fmlookup (ns_accounts st) key of
       Some old \<Rightarrow> Some (if se_slot old < slot then account_entry_of codec shared slot key account else old)
     | None \<Rightarrow> if ga_owner account = to_bytes STAKE_PROGRAM_ID \<or> key |\<in>| sh_pinned shared
               then Some (account_entry_of codec shared slot key account) else None)"
proof -
  from nc_run_ok [OF assms(1-3)] assms(4) obtain clock
    where live: "live_ok shared clock (ns_accounts st) (ns_membership st)"
    by (auto simp: run_ok_def nc_inv_def)
  from apply_block_liveE [OF live assms(4,5,7) refl]
  obtain a1 m1 b1 c where 1: "shrinks (ns_accounts st) a1" "live_ok shared c a1 m1"
      "nc_apply_accounts codec shared True slot accounts
         (a1, m1, ns_seed_shadow st, b1) = Some (ns_accounts st', ns_membership st', ns_seed_shadow st', block)"
    by metis
  from apply_accounts_entry [OF 1(2) assms(6) 1(3), of key] assms(8,9)
  have entry: "if accepts shared slot (ns_accounts st) key account
      then \<exists>e. fmlookup (ns_accounts st') key = Some e
        \<and> same_account (account_entry_of codec shared slot key account) e
      else fmlookup (ns_accounts st') key = fmlookup a1 key"
    by (simp add: shrinks_accepts [OF 1(1)])
  have sym: "same_account e' e" if "same_account e e'" for e e'
    using that by (simp add: same_account_def)
  show ?thesis
  proof (cases "accepts shared slot (ns_accounts st) key account")
    case True
    with entry sym obtain e where "fmlookup (ns_accounts st') key = Some e"
        "same_account e (account_entry_of codec shared slot key account)" by auto
    with True show ?thesis by (cases "fmlookup (ns_accounts st) key") (auto simp: accepts_def)
  next
    case False
    with entry have "fmlookup (ns_accounts st') key = fmlookup a1 key" by simp
    moreover have "rel_option same_account (fmlookup a1 key) (fmlookup (ns_accounts st) key)"
      using shrinks_at [OF 1(1), of key] sym
      by (cases "fmlookup (ns_accounts st) key"; cases "fmlookup a1 key") simp_all
    ultimately show ?thesis
      using False by (cases "fmlookup (ns_accounts st) key") (auto simp: accepts_def)
  qed
qed

text \<open>The persisted member list decodes to the tracker's member list, whatever row the table
  held before.\<close>

theorem members_roundtrip:
  "load_members (persist_members True tracker row) = Some (snd (members tracker))"
proof -
  have "decode_members (map to_bytes keys) = keys" for keys
    by (induction keys) (simp_all add: decode_members_def map_filter_simps)
  then show ?thesis by (simp add: load_members_def persist_members_def)
qed

subsection \<open>Witnesses\<close>

text \<open>One pinned key that is never written, and one stake account locked until epoch 5. The block
  at slot 3 carries a clock in epoch 6, which ends the lockup, and a write of the stake account.\<close>

definition wit_clock :: "u64 \<Rightarrow> u64 \<Rightarrow> block_clock" where
  "wit_clock slot epoch = \<lparr>bc_slot = slot, bc_epoch = epoch, bc_unix_timestamp = 0\<rparr>"

definition wit_codec :: sysvar_codec where
  "wit_codec = \<lparr>dec_stake = (\<lambda>_. Some (Stake \<lparr>sm_lockup_unix_timestamp = 0, sm_lockup_epoch = 5,
       sm_withdrawer = pk 9\<rparr>)),
     dec_clock = (\<lambda>data. case data of [s, e] \<Rightarrow> Some (wit_clock (ucast s) (ucast e)) | _ \<Rightarrow> None)\<rparr>"

definition wit_shared :: nc_shared where
  "wit_shared = \<lparr>sh_pinned = {|pk 7|}, sh_withdraw_authorities = {||}\<rparr>"

definition wit_clocks :: "block_clock set" where
  "wit_clocks = {wit_clock 2 3, wit_clock 3 6}"

definition wit_entry :: "u8 \<Rightarrow> stake_entry" where
  "wit_entry flags = \<lparr>se_lamports = 10, se_lockup_unix_timestamp = 0, se_lockup_epoch = 5,
     se_slot = 2, se_flags = flags\<rparr>"

definition wit_seeded :: nc_state where
  "wit_seeded = nc_seed_account wit_codec wit_shared (pk 1) STAKE_PROGRAM_ID 10 [] 2
     (nc_seed_account wit_codec wit_shared CLOCK_SYSVAR_ID (pk 0) 0 [2, 3] 2 (new_tracker wit_shared))"

definition wit_live :: nc_state where
  "wit_live = \<lparr>ns_status = NLive, ns_slot = 0, ns_accounts = fmupd (pk 1) (wit_entry 51) fmempty,
     ns_membership = \<lparr>mb_clock = Some (wit_clock 2 3), mb_members = {|pk 1, pk 7|},
       mb_by_epoch = {|(5, pk 1)|}, mb_by_timestamp = {||}, mb_total = 10\<rparr>,
     ns_seed_shadow = fmempty\<rparr>"

definition wit_accounts :: "grpc_account list" where
  "wit_accounts =
     [\<lparr>ga_pubkey = to_bytes CLOCK_SYSVAR_ID, ga_lamports = 1, ga_owner = to_bytes (pk 0),
       ga_executable = False, ga_rent_epoch = 0, ga_data = [3, 6], ga_write_version = 0\<rparr>,
      \<lparr>ga_pubkey = to_bytes (pk 1), ga_lamports = 25, ga_owner = to_bytes STAKE_PROGRAM_ID,
       ga_executable = False, ga_rent_epoch = 0, ga_data = [], ga_write_version = 0\<rparr>]"

definition wit_after :: nc_state where
  "wit_after = wit_live \<lparr>ns_slot := 3,
     ns_accounts := fmupd (pk 1) ((wit_entry 3) \<lparr>se_lamports := 25, se_slot := 3\<rparr>) fmempty,
     ns_membership := \<lparr>mb_clock = Some (wit_clock 3 6), mb_members = {|pk 7|},
       mb_by_epoch = {||}, mb_by_timestamp = {||}, mb_total = 0\<rparr>\<rparr>"

definition wit_outcome :: stake_block where
  "wit_outcome = \<lparr>sk_delta = 15, sk_handled = {|pk 1|}, sk_expired = [(pk 1, 10)],
     sk_members_changed = True\<rparr>"

lemma pk_ne_CLOCK_SYSVAR_ID [simp]: "pk b \<noteq> CLOCK_SYSVAR_ID" "CLOCK_SYSVAR_ID \<noteq> pk b"
proof -
  have "to_bytes CLOCK_SYSVAR_ID ! 0 \<noteq> to_bytes CLOCK_SYSVAR_ID ! 1"
    by (simp add: CLOCK_SYSVAR_ID_def Abs_pubkey_inverse)
  moreover have "to_bytes (pk b) ! 0 = to_bytes (pk b) ! 1" by simp
  ultimately show "pk b \<noteq> CLOCK_SYSVAR_ID" "CLOCK_SYSVAR_ID \<noteq> pk b" by metis+
qed

lemma to_bytes_ids [simp]:
  "to_bytes CLOCK_SYSVAR_ID \<noteq> replicate 32 b" "replicate 32 b \<noteq> to_bytes CLOCK_SYSVAR_ID"
  "to_bytes STAKE_PROGRAM_ID \<noteq> replicate 32 b" "replicate 32 b \<noteq> to_bytes STAKE_PROGRAM_ID"
  by (metis pk_ne_CLOCK_SYSVAR_ID pk_ne_STAKE_PROGRAM_ID to_bytes_inject to_bytes_pk)+

lemmas flag_values = STAKE_OWNED_def LOCKUP_def LISTED_WITHDRAWER_def PINNED_def MEMBER_def
  IN_BY_EPOCH_def IN_BY_TIMESTAMP_def

lemmas nc_eval = has_def stake_owned_def member_def evaluate_def set_flag_def clear_flag_def
  flag_values set_clock_def unplace_def place_def note_flip_def leave_def expire_def first_def
  entry_from_account_def wit_codec_def wit_shared_def wit_clock_def

lemma wit_seeded_eq:
  "wit_seeded = \<lparr>ns_status = NBootstrapping, ns_slot = 0, ns_accounts = fmupd (pk 1) (wit_entry 3) fmempty,
     ns_membership = \<lparr>mb_clock = Some (wit_clock 2 3), mb_members = {|pk 7|},
       mb_by_epoch = {||}, mb_by_timestamp = {||}, mb_total = 0\<rparr>, ns_seed_shadow = fmempty\<rparr>"
  by (simp add: wit_seeded_def nc_seed_account_def new_tracker_def nc_eval wit_entry_def)

lemma wit_flip: "nc_finish_bootstrap fm_keys wit_seeded = Some (wit_live, True)"
  by (simp add: wit_seeded_eq nc_finish_bootstrap_def fm_retain_def wit_live_def nc_eval wit_entry_def
      fm_keys_def fm_eval)

lemma wit_block_applied:
  "nc_apply_block wit_codec wit_shared 3 False wit_accounts wit_live = Some (wit_after, wit_outcome)"
  by (simp add: nc_apply_block_def wit_accounts_def wit_live_def clock_of_block_def advance_clock_def
      nc_apply_account_def default_block_def expire_epochs.simps expire_timestamps.simps
      nc_eval wit_entry_def wit_after_def wit_outcome_def)

lemma wit_clocks_monotone: "clock_monotone wit_clocks"
  by (auto simp: clock_monotone_def wit_clocks_def wit_clock_def)

lemma wit_order: "iteration_order fm_keys"
  by (simp add: iteration_order_def)

lemma wit_run: "nc_run wit_codec wit_shared fm_keys wit_clocks wit_live"
proof (rule nc_run.flip [OF _ wit_flip])
  show "nc_run wit_codec wit_shared fm_keys wit_clocks wit_seeded"
    unfolding wit_seeded_def
    by (intro nc_run.start nc_run.seed) 
      (auto simp: wit_clocks_def wit_codec_def new_tracker_def nc_seed_account_def)
qed

theorem membership_exact_witness:
  "is_non_circulating (pk 1) (Some wit_live) \<and> is_non_circulating (pk 7) (Some wit_live)
   \<and> \<not> is_non_circulating (pk 2) (Some wit_live)"
  using membership_exact [OF wit_run wit_order wit_clocks_monotone, of "wit_clock 2 3"]
  by (simp add: wit_live_def wit_entry_def evaluate_def stake_owned_def has_def flag_values wit_clock_def
      wit_shared_def)

theorem total_is_sum_witness: "nc_total (Some wit_live) = Some 10"
  using total_is_sum [OF wit_run wit_order wit_clocks_monotone, of "wit_clock 2 3"]
  by (simp add: wit_live_def wit_entry_def evaluate_def stake_owned_def has_def flag_values wit_clock_def
      fm_sum_upd)

theorem tracker_no_panic_witness:
  "nc_finish_bootstrap fm_keys wit_live \<noteq> None
   \<and> nc_apply_block wit_codec wit_shared 3 False wit_accounts wit_live \<noteq> None"
  by (rule tracker_no_panic [OF wit_run wit_order wit_clocks_monotone])

theorem expired_report_witness:
  "(pk 1, 10) \<in> set (sk_expired wit_outcome)"
proof -
  have "distinct (map fst (sk_expired wit_outcome)) \<and> set (sk_expired wit_outcome) =
    {(key, lamports). \<exists>e. fmlookup (ns_accounts wit_live) key = Some e \<and> lamports = se_lamports e
       \<and> evaluate (wit_clock 2 3) e \<and> \<not> evaluate (wit_clock 3 6) e}"
    by (rule expired_report [OF wit_run wit_order wit_clocks_monotone _ _ _ _ _ _ wit_block_applied])
      (simp_all add: wit_live_def wit_clocks_def wit_clock_def clock_of_block_def wit_accounts_def wit_codec_def)
  then show ?thesis
    by (simp add: wit_live_def wit_entry_def evaluate_def stake_owned_def has_def flag_values wit_clock_def)
qed

theorem stake_delta_witness:
  "fset (sk_handled wit_outcome) = {pk 1} \<and> sk_delta wit_outcome =
     (\<Sum>key \<in> {pk 1}. balance (ns_accounts wit_after) key - balance (ns_accounts wit_live) key)"
proof -
  have "fset (sk_handled wit_outcome) = {key \<in> block_keys wit_accounts. owns (ns_accounts wit_live) key}
    \<and> sk_delta wit_outcome = (\<Sum>key \<in> fset (sk_handled wit_outcome).
        balance (ns_accounts wit_after) key - balance (ns_accounts wit_live) key)"
    by (rule stake_delta [OF wit_run wit_order wit_clocks_monotone _ _ _ wit_block_applied])
      (simp_all add: wit_live_def wit_accounts_def)
  moreover have "fset (sk_handled wit_outcome) = {pk 1}" by (simp add: wit_outcome_def)
  ultimately show ?thesis by metis
qed

theorem newest_slot_wins_witness:
  "rel_option same_account (fmlookup (ns_accounts wit_after) (pk 1))
     (Some (account_entry_of wit_codec wit_shared 3 (pk 1) (wit_accounts ! 1)))"
proof -
  have "rel_option same_account (fmlookup (ns_accounts wit_after) (pk 1))
    (case fmlookup (ns_accounts wit_live) (pk 1) of
       Some old \<Rightarrow> Some (if se_slot old < 3 then account_entry_of wit_codec wit_shared 3 (pk 1) (wit_accounts ! 1) else old)
     | None \<Rightarrow> if ga_owner (wit_accounts ! 1) = to_bytes STAKE_PROGRAM_ID \<or> pk 1 |\<in>| sh_pinned wit_shared
               then Some (account_entry_of wit_codec wit_shared 3 (pk 1) (wit_accounts ! 1)) else None)"
    by (rule newest_slot_wins [OF wit_run wit_order wit_clocks_monotone _ _ _ wit_block_applied])
      (simp_all add: wit_live_def wit_accounts_def)
  then show ?thesis by (simp add: wit_live_def wit_entry_def)
qed

end
