(* ===== verification/Supply_Tracker.thy ===== *)
theory Supply_Tracker
  imports Supply_Cache Non_Circulating
begin

text \<open>
  The supply tracker (\<open>crates/core/src/modules/supply\<close>: \<open>tracker.rs\<close>, \<open>prev.rs\<close>, \<open>bootstrap.rs\<close>,
  \<open>persist.rs\<close>, \<open>read.rs\<close>): the running total, the status machine, the bootstrap window, the block
  path in its three phases (probe, miss read, commit), the two batched reads and the ring of
  persisted rows.

  Database rows hold \<open>bigint\<close> columns: a row's slot and lamports are signed integers, and the casts
  of the sources (\<open>as i64\<close>, \<open>as u64\<close>) are \<open>sint\<close> and \<open>word_of_int\<close>. The outcome of a read attempt
  is an argument, so a failing or timed-out statement is \<open>None\<close>.
\<close>

section \<open>Data\<close>

definition SUPPLY_RING_SLOTS :: u64 where "SUPPLY_RING_SLOTS = 128"
definition SUPPLY_FAIL_PIN_CAP :: nat where "SUPPLY_FAIL_PIN_CAP = 200000"
definition RESOLVE_CHUNK :: nat where "RESOLVE_CHUNK = 5000"

record pending =
  pe_pubkey :: pubkey
  pe_owner :: pubkey
  pe_lamports :: u64

record touched_account =
  ta_slot :: u64
  ta_lamports :: u64

datatype block_outcome = Idle | OBootstrapping | ODelta int "pubkey list" | ReadFailed

datatype supply_status = SBootstrapping | SLive | SGapFilling | SStale

record supply_state =
  ss_status :: supply_status
  ss_bootstrap_failed :: bool
  ss_total :: u64
  ss_slot :: u64
  ss_startup_slot :: u64
  ss_startup_touched :: "(pubkey, touched_account) fmap"
  ss_startup_zero_prev :: "pubkey fset"
  ss_gap_closes :: "(pubkey, u64) fmap"
  ss_cache :: hot_accounts

record supply_commit =
  sc_slot :: u64
  sc_total :: u64
  sc_non_circulating :: "u64 option"

record supply_summary =
  su_status :: supply_status
  su_bootstrap_failed :: bool
  su_total :: u64
  su_slot :: u64
  su_startup_slot :: u64
  su_startup_touched :: nat
  su_gap_closes :: nat
  su_hot_entries :: u64
  su_pinned_entries :: nat
  su_cap :: u64
  su_last_sweep_slot :: u64

definition new_supply :: "u64 \<Rightarrow> nat \<Rightarrow> supply_state" where
  "new_supply cap fail_pin_cap =
     \<lparr>ss_status = SBootstrapping, ss_bootstrap_failed = False, ss_total = 0, ss_slot = 0,
      ss_startup_slot = 0, ss_startup_touched = fmempty, ss_startup_zero_prev = {||},
      ss_gap_closes = fmempty, ss_cache = hot_with_capacity cap fail_pin_cap\<rparr>"

definition supply_summary_of :: "supply_state \<Rightarrow> supply_summary" where
  "supply_summary_of st =
     \<lparr>su_status = ss_status st, su_bootstrap_failed = ss_bootstrap_failed st,
      su_total = ss_total st, su_slot = ss_slot st, su_startup_slot = ss_startup_slot st,
      su_startup_touched = fm_size (ss_startup_touched st),
      su_gap_closes = fm_size (ss_gap_closes st), su_hot_entries = hot_len (ss_cache st),
      su_pinned_entries = ha_pinned_count (ss_cache st), su_cap = ha_cap (ss_cache st),
      su_last_sweep_slot = ha_last_sweep_slot (ss_cache st)\<rparr>"

section \<open>Status and bootstrap\<close>

definition set_startup_total :: "u64 \<Rightarrow> u64 \<Rightarrow> supply_state \<Rightarrow> supply_state" where
  "set_startup_total slot capitalization st =
     (if ss_status st = SBootstrapping \<and> ss_startup_slot st < slot
      then st \<lparr>ss_startup_slot := slot, ss_total := capitalization\<rparr> else st)"

definition startup_slot :: "supply_state \<Rightarrow> u64 option" where
  "startup_slot st =
     (if ss_status st = SBootstrapping \<and> 0 < ss_startup_slot st then Some (ss_startup_slot st) else None)"

definition mark_bootstrap_failed :: "supply_state \<Rightarrow> supply_state \<times> bool" where
  "mark_bootstrap_failed st =
     (if ss_status st \<noteq> SBootstrapping \<or> ss_bootstrap_failed st then (st, False)
      else (st \<lparr>ss_bootstrap_failed := True\<rparr>, True))"

definition commit_row :: "u64 option \<Rightarrow> supply_state \<Rightarrow> supply_commit" where
  "commit_row non_circulating st =
     \<lparr>sc_slot = ss_slot st, sc_total = ss_total st, sc_non_circulating = non_circulating\<rparr>"

text \<open>The window loop of \<open>finish_bootstrap\<close> over the touched accounts: the delta, the largest slot
  and the closed keys, or \<open>None\<close> at the first touch without a startup balance.\<close>

fun window ::
  "u64 \<Rightarrow> (pubkey, u64) fmap \<Rightarrow> (pubkey \<times> touched_account) list \<Rightarrow> int \<times> u64 \<times> pubkey fset \<Rightarrow>
   (int \<times> u64 \<times> pubkey fset) option" where
  "window start balances [] acc = Some acc"
| "window start balances ((key, account) # rest) (delta, max_slot, zero_prev) =
     (let zero_prev = (if ta_lamports account = 0 then finsert key zero_prev else zero_prev)
      in if ta_slot account \<le> start then window start balances rest (delta, max_slot, zero_prev)
         else case fmlookup balances key of
                None \<Rightarrow> None
              | Some known \<Rightarrow>
                  window start balances rest
                    (delta + (uint (ta_lamports account) - uint known),
                     max max_slot (ta_slot account), zero_prev))"

definition finish_bootstrap ::
  "u64 option \<Rightarrow> (pubkey, u64) fmap \<Rightarrow> supply_state \<Rightarrow> supply_state \<times> supply_commit option" where
  "finish_bootstrap non_circulating balances st =
     (if ss_status st \<noteq> SBootstrapping \<or> ss_startup_slot st = 0 \<or> ss_bootstrap_failed st then (st, None)
      else case window (ss_startup_slot st) balances (fm_entries (ss_startup_touched st))
                  (0, ss_startup_slot st, {||}) of
             None \<Rightarrow> (st, None)
           | Some (window_delta, max_slot, zero_prev) \<Rightarrow>
               let st = st \<lparr>ss_total := word_of_int (uint (ss_total st) + window_delta),
                            ss_slot := max (ss_slot st) max_slot, ss_startup_touched := fmempty,
                            ss_startup_zero_prev := zero_prev, ss_status := SLive\<rparr>
               in (st, Some (commit_row non_circulating st)))"

definition is_gap_filling :: "supply_state \<Rightarrow> bool" where
  "is_gap_filling st = (ss_status st = SGapFilling)"

definition mark_gap :: "supply_state \<Rightarrow> supply_state \<times> bool" where
  "mark_gap st = (if ss_status st \<noteq> SLive then (st, False) else (st \<lparr>ss_status := SGapFilling\<rparr>, True))"

definition finish_gap :: "supply_state \<Rightarrow> supply_state" where
  "finish_gap st =
     (if ss_status st = SGapFilling then st \<lparr>ss_status := SLive, ss_gap_closes := fmempty\<rparr> else st)"

definition mark_stale :: "supply_state \<Rightarrow> supply_state \<times> bool" where
  "mark_stale st =
     (if ss_status st = SLive \<or> ss_status st = SGapFilling then (st \<lparr>ss_status := SStale\<rparr>, True)
      else (st, False))"

definition sweep_if_due :: "u64 \<Rightarrow> supply_state \<Rightarrow> supply_state option" where
  "sweep_if_due slot st =
     (if sweep_due slot (ss_cache st)
      then map_option (\<lambda>(cache, _). st \<lparr>ss_cache := cache\<rparr>) (sweep slot (ss_cache st))
      else Some st)"

section \<open>The block path\<close>

text \<open>\<open>build_block_pending\<close>: a malformed key panics.\<close>

fun build_block_pending :: "grpc_account list \<Rightarrow> pending list option" where
  "build_block_pending [] = Some []"
| "build_block_pending (account # accounts) =
     (case (try_from (ga_pubkey account), try_from (ga_owner account)) of
        (Some key, Some owner) \<Rightarrow>
          map_option ((#) \<lparr>pe_pubkey = key, pe_owner = owner, pe_lamports = ga_lamports account\<rparr>)
            (build_block_pending accounts)
      | _ \<Rightarrow> None)"

text \<open>A touch recorded inside the bootstrap window.\<close>

definition record_touch :: "u64 \<Rightarrow> pending \<Rightarrow> supply_state \<Rightarrow> supply_state" where
  "record_touch slot p st =
     (let st = st \<lparr>ss_cache := fst (probe (pe_pubkey p) (pe_lamports p) slot (pe_owner p) False (ss_cache st))\<rparr>
      in if (case fmlookup (ss_startup_touched st) (pe_pubkey p) of
               None \<Rightarrow> True | Some touched \<Rightarrow> ta_slot touched \<le> slot)
         then st \<lparr>ss_startup_touched := fmupd (pe_pubkey p)
                    \<lparr>ta_slot = slot, ta_lamports = pe_lamports p\<rparr> (ss_startup_touched st)\<rparr>
         else st)"

definition note_close :: "u64 \<Rightarrow> pending \<Rightarrow> (pubkey, u64) fmap \<Rightarrow> (pubkey, u64) fmap" where
  "note_close slot p closes =
     (if pe_lamports p = 0
      then fmupd (pe_pubkey p)
             (case fmlookup closes (pe_pubkey p) of None \<Rightarrow> slot | Some closed \<Rightarrow> max closed slot) closes
      else closes)"

text \<open>What the probe loop mutates: the cache, the zero-previous set, the delta, the touched keys
  and the misses.\<close>

record probe_loop =
  pl_cache :: hot_accounts
  pl_zero_prev :: "pubkey fset"
  pl_delta :: int
  pl_touched :: "pubkey list"
  pl_misses :: "pending list"

definition probe_pending ::
  "u64 \<Rightarrow> bool \<Rightarrow> pubkey fset \<Rightarrow> (pubkey, u64) fmap \<Rightarrow> pending \<Rightarrow> probe_loop \<Rightarrow> probe_loop" where
  "probe_pending slot is_repaired handled closes p l =
     (if pe_pubkey p |\<in>| handled then l
      else
        let zero_prev = (pe_pubkey p |\<in>| pl_zero_prev l);
            l = l \<lparr>pl_zero_prev := pl_zero_prev l |-| {|pe_pubkey p|}\<rparr>
        in if is_repaired \<and> \<not> zero_prev \<and>
              (case fmlookup closes (pe_pubkey p) of Some closed \<Rightarrow> slot \<le> closed | None \<Rightarrow> False)
           then l
           else
             let l = l \<lparr>pl_touched := pl_touched l @ [pe_pubkey p]\<rparr>;
                 (cache, result) = probe (pe_pubkey p) (pe_lamports p) slot (pe_owner p) zero_prev (pl_cache l);
                 l = l \<lparr>pl_cache := cache\<rparr>
             in case result of
                  Hit d \<Rightarrow> l \<lparr>pl_delta := pl_delta l + d\<rparr>
                | Miss \<Rightarrow> l \<lparr>pl_misses := pl_misses l @ [p]\<rparr>)"

definition probe_block ::
  "u64 \<Rightarrow> bool \<Rightarrow> pending list \<Rightarrow> stake_block \<Rightarrow> supply_state \<Rightarrow>
   supply_state \<times> block_outcome \<times> pending list" where
  "probe_block slot is_repaired pendings stake st =
     (case ss_status st of
        SBootstrapping \<Rightarrow> (fold (record_touch slot) pendings st, OBootstrapping, [])
      | SStale \<Rightarrow> (st, Idle, [])
      | _ \<Rightarrow>
          if \<not> is_repaired \<and> slot \<le> ss_slot st then (st, Idle, [])
          else
            let st = (if \<not> is_repaired \<and> ss_status st = SGapFilling
                      then st \<lparr>ss_gap_closes := fold (note_close slot) pendings (ss_gap_closes st)\<rparr>
                      else st);
                l = fold (probe_pending slot is_repaired (sk_handled stake) (ss_gap_closes st)) pendings
                      \<lparr>pl_cache = ss_cache st, pl_zero_prev = ss_startup_zero_prev st,
                       pl_delta = sk_delta stake, pl_touched = [], pl_misses = []\<rparr>
            in (st \<lparr>ss_cache := pl_cache l, ss_startup_zero_prev := pl_zero_prev l\<rparr>,
                ODelta (pl_delta l) (pl_touched l), pl_misses l))"

text \<open>The miss read, retried once; \<open>attempt\<close> gives the outcome of each attempt.\<close>

type_synonym prev_read = "pubkey list \<Rightarrow> u64 option \<Rightarrow> (pubkey, u64 \<times> u64) fmap option"

definition fetch_retry ::
  "(nat \<Rightarrow> prev_read) \<Rightarrow> pubkey list \<Rightarrow> u64 option \<Rightarrow> supply_state \<Rightarrow>
   supply_state \<times> (pubkey, u64 \<times> u64) fmap option" where
  "fetch_retry attempt pubkeys below st =
     (case attempt 0 pubkeys below of
        Some prev \<Rightarrow> (st, Some prev)
      | None \<Rightarrow>
          (case attempt 1 pubkeys below of
             Some prev \<Rightarrow> (st, Some prev)
           | None \<Rightarrow> (fst (mark_stale st), None)))"

definition resolve_miss ::
  "u64 \<Rightarrow> (pubkey, u64 \<times> u64) fmap \<Rightarrow> pending \<Rightarrow> hot_accounts \<times> int \<times> pubkey list \<Rightarrow>
   hot_accounts \<times> int \<times> pubkey list" where
  "resolve_miss slot prev p = (\<lambda>(cache, delta, touched).
     let (cache, d) = apply_miss (pe_pubkey p) (pe_lamports p) slot (pe_owner p)
                        (fmlookup prev (pe_pubkey p)) cache
     in (cache, delta + d, touched @ [pe_pubkey p]))"

text \<open>\<open>apply_block\<close> under the block-writes lock: the probe, then the resolve of the misses.\<close>

definition supply_apply_block ::
  "(nat \<Rightarrow> prev_read) \<Rightarrow> u64 \<Rightarrow> bool \<Rightarrow> pending list \<Rightarrow> stake_block \<Rightarrow> supply_state \<Rightarrow>
   supply_state \<times> block_outcome" where
  "supply_apply_block attempt slot is_repaired pendings stake st =
     (case probe_block slot is_repaired pendings stake st of
        (st, ODelta delta touched, misses) \<Rightarrow>
          if misses = [] then (st, ODelta delta touched)
          else
            (case fetch_retry attempt (map pe_pubkey misses) (if is_repaired then None else Some slot) st of
               (st, None) \<Rightarrow> (st, ReadFailed)
             | (st, Some prev) \<Rightarrow>
                 let (cache, delta, touched) =
                       fold (resolve_miss slot prev) misses (ss_cache st, delta, touched)
                 in (st \<lparr>ss_cache := cache\<rparr>, ODelta delta touched))
      | (st, outcome, _) \<Rightarrow> (st, outcome))"

definition commit_block ::
  "u64 option \<Rightarrow> u64 \<Rightarrow> int \<Rightarrow> supply_state \<Rightarrow> supply_state \<times> supply_commit option" where
  "commit_block non_circulating slot delta st =
     (let st = st \<lparr>ss_slot := max (ss_slot st) slot\<rparr>
      in if slot \<le> ss_startup_slot st then (st, None)
         else case ss_status st of
                SBootstrapping \<Rightarrow> (st, None)
              | SStale \<Rightarrow> (st, None)
              | SGapFilling \<Rightarrow> (st \<lparr>ss_total := word_of_int (uint (ss_total st) + delta)\<rparr>, None)
              | SLive \<Rightarrow>
                  let st = st \<lparr>ss_total := word_of_int (uint (ss_total st) + delta)\<rparr>
                  in (st, Some (commit_row non_circulating st)))"

definition finish_block ::
  "u64 option \<Rightarrow> u64 \<Rightarrow> block_outcome \<Rightarrow> bool \<Rightarrow> supply_state \<Rightarrow> supply_state \<times> supply_commit option" where
  "finish_block non_circulating slot outcome writes_ok st =
     (case outcome of
        Idle \<Rightarrow> (st, None)
      | ReadFailed \<Rightarrow> (st, None)
      | OBootstrapping \<Rightarrow> (if writes_ok then st else fst (mark_bootstrap_failed st), None)
      | ODelta delta touched \<Rightarrow>
          if writes_ok then commit_block non_circulating slot delta st
          else
            let (cache, pinned) = pin_failed touched (ss_cache st);
                st = st \<lparr>ss_cache := cache\<rparr>
            in if \<not> pinned then (fst (mark_stale st), None)
               else commit_block non_circulating slot delta st)"

section \<open>The reads and the ring\<close>

record account_row =
  ar_pubkey :: pubkey
  ar_slot :: int
  ar_lamports :: int

text \<open>\<open>ORDER BY slot DESC, lamports DESC LIMIT 1\<close> over the rows that satisfy the predicate.\<close>

definition latest_row :: "account_row list \<Rightarrow> account_row option" where
  "latest_row rows =
     (case rev (sort_key (\<lambda>r. (ar_slot r, ar_lamports r)) rows) of [] \<Rightarrow> None | r # _ \<Rightarrow> Some r)"

definition fetch_prev_balances ::
  "account_row list \<Rightarrow> account_row list \<Rightarrow> pubkey list \<Rightarrow> u64 option \<Rightarrow> (pubkey, u64 \<times> u64) fmap" where
  "fetch_prev_balances accounts snapshot_accounts pubkeys below_slot =
     (let below = (case below_slot of None \<Rightarrow> 2 ^ 63 - 1 | Some slot \<Rightarrow> sint slot)
      in fold (\<lambda>key out.
           case latest_row (filter (\<lambda>r. ar_pubkey r = key \<and> ar_slot r < below)
                  (accounts @ snapshot_accounts)) of
             None \<Rightarrow> out
           | Some r \<Rightarrow> fmupd key (word_of_int (ar_lamports r), word_of_int (ar_slot r)) out)
         pubkeys fmempty)"

definition fetch_startup_balances ::
  "account_row list \<Rightarrow> pubkey list \<Rightarrow> u64 \<Rightarrow> (pubkey, u64) fmap" where
  "fetch_startup_balances snapshot_accounts pubkeys start =
     fold (\<lambda>key out.
         fmupd key
           (case latest_row (filter (\<lambda>r. ar_pubkey r = key \<and> ar_slot r \<le> sint start) snapshot_accounts) of
              None \<Rightarrow> 0
            | Some r \<Rightarrow> word_of_int (ar_lamports r)) out)
       pubkeys fmempty"

fun resolve_chunks ::
  "(pubkey list \<Rightarrow> (pubkey, u64) fmap option) \<Rightarrow> pubkey list list \<Rightarrow> (pubkey, u64) fmap \<Rightarrow>
   (pubkey, u64) fmap option" where
  "resolve_chunks fetch [] out = Some out"
| "resolve_chunks fetch (chunk # rest) out =
     (case fetch chunk of
        None \<Rightarrow> None
      | Some resolved \<Rightarrow> resolve_chunks fetch rest (out ++\<^sub>f resolved))"

definition resolve ::
  "(pubkey list \<Rightarrow> (pubkey, u64) fmap option) \<Rightarrow> pubkey list \<Rightarrow> (pubkey, u64) fmap option" where
  "resolve fetch pubkeys = resolve_chunks fetch (chunks RESOLVE_CHUNK pubkeys) fmempty"

text \<open>The ring of persisted rows, by slot.\<close>

type_synonym supply_table = "(int, u64 \<times> u64 option) fmap"

definition persist_supply_row :: "bool \<Rightarrow> supply_commit \<Rightarrow> supply_table \<Rightarrow> supply_table" where
  "persist_supply_row db_ok c table =
     (if db_ok
      then fmupd (sint (sc_slot c)) (sc_total c, sc_non_circulating c)
             (fmfilter (\<lambda>slot. \<not> slot < sint (saturating_sub (sc_slot c) SUPPLY_RING_SLOTS)) table)
      else table)"

record supply_row =
  sr_slot :: u64
  sr_total :: u64
  sr_non_circulating :: "u64 option"

definition load_latest_supply ::
  "supply_table \<Rightarrow> members_row \<Rightarrow> (supply_row list \<times> pubkey list option) option" where
  "load_latest_supply table row =
     (let supply_rows = take (unat SUPPLY_RING_SLOTS) (rev (fm_entries table))
      in if supply_rows = [] then None
         else Some (rev (map (\<lambda>(slot, total, non_circulating).
                \<lparr>sr_slot = word_of_int slot, sr_total = total, sr_non_circulating = non_circulating\<rparr>)
                supply_rows), load_members row))"

definition seed_anchor ::
  "bool \<Rightarrow> u64 \<Rightarrow> u64 \<Rightarrow> supply_state option \<Rightarrow> supply_table \<Rightarrow> supply_state option \<times> supply_table" where
  "seed_anchor db_ok slot capitalization tracker table =
     (case tracker of
        None \<Rightarrow> (None, table)
      | Some st \<Rightarrow>
          (Some (set_startup_total slot capitalization st),
           persist_supply_row db_ok
             \<lparr>sc_slot = slot, sc_total = capitalization, sc_non_circulating = None\<rparr> table))"

text \<open>The two-pass resolve: pass one without the lock on the touches known then, pass two under the
  lock on the touches recorded since. \<open>between\<close> is what the tracker did between the passes.\<close>

definition finish_bootstrap_resolve ::
  "(u64 \<Rightarrow> pubkey list \<Rightarrow> (pubkey, u64) fmap option) \<Rightarrow> (supply_state \<Rightarrow> supply_state) \<Rightarrow> u64 option \<Rightarrow>
   bool \<Rightarrow> supply_state \<Rightarrow> supply_table \<Rightarrow> supply_state \<times> supply_table" where
  "finish_bootstrap_resolve fetch between non_circulating db_ok st table =
     (case startup_slot st of
        None \<Rightarrow> (st, table)
      | Some start \<Rightarrow>
          if ss_bootstrap_failed st then (st, table)
          else case resolve (fetch start) (fm_keys (ss_startup_touched st)) of
                 None \<Rightarrow> (between st, table)
               | Some balances \<Rightarrow>
                   let st = between st;
                       late = filter (\<lambda>key. fmlookup balances key = None) (fm_keys (ss_startup_touched st))
                   in case resolve (fetch start) late of
                        None \<Rightarrow> (st, table)
                      | Some late_balances \<Rightarrow>
                          (case finish_bootstrap non_circulating (balances ++\<^sub>f late_balances) st of
                             (st, None) \<Rightarrow> (st, table)
                           | (st, Some c) \<Rightarrow> (st, persist_supply_row db_ok c table)))"

section \<open>Construction and maintenance\<close>

text \<open>\<open>from_config\<close>: \<open>section\<close> is the \<open>[supply]\<close> section with its \<open>hot-accounts\<close>, \<open>snapshot_index\<close> the
  \<open>[snapshot]\<close> section with its pubkey index flag, \<open>relkind\<close> and \<open>index_exists\<close> what the catalog
  queries return. The outer \<open>None\<close> is a panic.\<close>

definition supply_from_config ::
  "u64 option \<Rightarrow> account_selector \<Rightarrow> bool option \<Rightarrow> bool \<Rightarrow> (string \<Rightarrow> string option) \<Rightarrow> (string \<Rightarrow> bool) \<Rightarrow>
   bool \<Rightarrow> supply_table \<Rightarrow> (supply_state option \<times> supply_table) option" where
  "supply_from_config section programs snapshot_index owner_map_enabled relkind index_exists db_ok table =
     (case section of
        None \<Rightarrow> Some (None, table)
      | Some hot_accounts \<Rightarrow>
          if \<not> supports_simulation programs then None
          else if snapshot_index = None then None
          else if owner_map_enabled then None
          else if snapshot_index = Some False then None
          else if relkind ''accounts'' \<noteq> Some ''r'' \<or> relkind ''snapshot_accounts'' \<noteq> Some ''r'' then None
          else if \<not> index_exists ''idx_accounts_pubkey_slot'' then None
          else Some (Some (new_supply hot_accounts SUPPLY_FAIL_PIN_CAP), if db_ok then fmempty else table))"

text \<open>One wake-up of the sweeper task on a finalized-slot change.\<close>

definition sweeper_tick :: "u64 \<Rightarrow> bool \<Rightarrow> supply_state \<Rightarrow> supply_state option" where
  "sweeper_tick slot healthy st = (if slot = 0 \<or> \<not> healthy then Some st else sweep_if_due slot st)"

section \<open>The delta of a live block\<close>

lemma write_back_frame: "k \<noteq> key \<Longrightarrow>
  fmlookup (ha_map (write_back key lamports slot owner h)) k = fmlookup (ha_map h) k"
  by (auto simp: write_back_def hot_remove_def split: option.splits)

text \<open>The entry a write leaves in the cache: none for a stake account.\<close>

definition written :: "u64 \<Rightarrow> pending \<Rightarrow> hot_entry option \<Rightarrow> hot_entry option" where
  "written slot p old =
     (if pe_owner p = STAKE_PROGRAM_ID then None
      else Some \<lparr>he_lamports = pe_lamports p, he_slot = slot,
                 he_pinned = (case old of Some e \<Rightarrow> he_pinned e | None \<Rightarrow> False)\<rparr>)"

lemma write_back_written:
  assumes "\<And>e. fmlookup (ha_map h) (pe_pubkey p) = Some e \<Longrightarrow> he_slot e \<le> slot"
  shows "fmlookup (ha_map (write_back (pe_pubkey p) (pe_lamports p) slot (pe_owner p) h)) (pe_pubkey p)
    = written slot p (fmlookup (ha_map h) (pe_pubkey p))"
  using assms by (auto simp: write_back_def hot_remove_def written_def split: option.splits)

definition cached_prev :: "probe_loop \<Rightarrow> pubkey \<Rightarrow> int" where
  "cached_prev l key =
     (if key |\<in>| pl_zero_prev l then 0
      else case fmlookup (ha_map (pl_cache l)) key of Some e \<Rightarrow> uint (he_lamports e) | None \<Rightarrow> 0)"

definition is_miss :: "pubkey fset \<Rightarrow> probe_loop \<Rightarrow> pending \<Rightarrow> bool" where
  "is_miss handled l p \<longleftrightarrow> pe_pubkey p |\<notin>| handled \<and> pe_pubkey p |\<notin>| pl_zero_prev l \<and>
     fmlookup (ha_map (pl_cache l)) (pe_pubkey p) = None"

definition is_hit :: "pubkey fset \<Rightarrow> probe_loop \<Rightarrow> pending \<Rightarrow> bool" where
  "is_hit handled l p \<longleftrightarrow> pe_pubkey p |\<notin>| handled \<and> \<not> is_miss handled l p"

definition hit_delta :: "pubkey fset \<Rightarrow> probe_loop \<Rightarrow> pending \<Rightarrow> int" where
  "hit_delta handled l p =
     (if is_hit handled l p then uint (pe_lamports p) - cached_prev l (pe_pubkey p) else 0)"

lemma probe_pending_live:
  assumes "\<And>e. fmlookup (ha_map (pl_cache l)) (pe_pubkey p) = Some e \<Longrightarrow> he_slot e < slot"
    and l': "l' = probe_pending slot False handled closes p l"
  shows "pl_delta l' = pl_delta l + hit_delta handled l p"
    and "pl_misses l' = pl_misses l @ (if is_miss handled l p then [p] else [])"
    and "pl_touched l' = pl_touched l @ (if pe_pubkey p |\<in>| handled then [] else [pe_pubkey p])"
    and "k \<noteq> pe_pubkey p \<Longrightarrow> fmlookup (ha_map (pl_cache l')) k = fmlookup (ha_map (pl_cache l)) k"
    and "k \<noteq> pe_pubkey p \<Longrightarrow> k |\<in>| pl_zero_prev l' \<longleftrightarrow> k |\<in>| pl_zero_prev l"
    and "fmlookup (ha_map (pl_cache l')) (pe_pubkey p) =
      (if is_hit handled l p then written slot p (fmlookup (ha_map (pl_cache l)) (pe_pubkey p))
       else fmlookup (ha_map (pl_cache l)) (pe_pubkey p))"
proof -
  have w: "fmlookup (ha_map (write_back (pe_pubkey p) (pe_lamports p) slot (pe_owner p) (pl_cache l))) (pe_pubkey p)
      = written slot p (fmlookup (ha_map (pl_cache l)) (pe_pubkey p))"
    by (rule write_back_written) (use assms(1) in force)
  note defs = l' probe_pending_def probe_def Let_def hit_delta_def is_hit_def is_miss_def cached_prev_def
  show "pl_delta l' = pl_delta l + hit_delta handled l p"
    "pl_misses l' = pl_misses l @ (if is_miss handled l p then [p] else [])"
    "pl_touched l' = pl_touched l @ (if pe_pubkey p |\<in>| handled then [] else [pe_pubkey p])"
    "k \<noteq> pe_pubkey p \<Longrightarrow> fmlookup (ha_map (pl_cache l')) k = fmlookup (ha_map (pl_cache l)) k"
    "k \<noteq> pe_pubkey p \<Longrightarrow> k |\<in>| pl_zero_prev l' \<longleftrightarrow> k |\<in>| pl_zero_prev l"
    "fmlookup (ha_map (pl_cache l')) (pe_pubkey p) =
      (if is_hit handled l p then written slot p (fmlookup (ha_map (pl_cache l)) (pe_pubkey p))
       else fmlookup (ha_map (pl_cache l)) (pe_pubkey p))"
    using assms(1) w by (auto simp: defs write_back_frame split: option.splits)
qed

definition probed :: "u64 \<Rightarrow> pubkey fset \<Rightarrow> pending list \<Rightarrow> probe_loop \<Rightarrow> probe_loop \<Rightarrow> bool" where
  "probed slot handled ps l l' \<longleftrightarrow>
     pl_delta l' = pl_delta l + (\<Sum>p\<leftarrow>ps. hit_delta handled l p)
    \<and> pl_misses l' = pl_misses l @ filter (is_miss handled l) ps
    \<and> pl_touched l' = pl_touched l @ map pe_pubkey (filter (\<lambda>p. pe_pubkey p |\<notin>| handled) ps)
    \<and> (\<forall>k. k \<notin> pe_pubkey ` set ps \<longrightarrow> fmlookup (ha_map (pl_cache l')) k = fmlookup (ha_map (pl_cache l)) k)
    \<and> (\<forall>p \<in> set ps. fmlookup (ha_map (pl_cache l')) (pe_pubkey p) =
        (if is_hit handled l p then written slot p (fmlookup (ha_map (pl_cache l)) (pe_pubkey p))
         else fmlookup (ha_map (pl_cache l)) (pe_pubkey p)))"

lemma probe_fold_live:
  assumes "distinct (map pe_pubkey ps)"
    and "\<And>p e. p \<in> set ps \<Longrightarrow> fmlookup (ha_map (pl_cache l)) (pe_pubkey p) = Some e \<Longrightarrow> he_slot e < slot"
  shows "probed slot handled ps l (fold (probe_pending slot False handled closes) ps l)"
  using assms
proof (induction ps arbitrary: l)
  case (Cons p ps)
  let ?l = "probe_pending slot False handled closes p l"
  note step = probe_pending_live [OF Cons.prems(2) [of p] refl, simplified]
  have other: "fmlookup (ha_map (pl_cache ?l)) (pe_pubkey q) = fmlookup (ha_map (pl_cache l)) (pe_pubkey q)"
      "pe_pubkey q |\<in>| pl_zero_prev ?l \<longleftrightarrow> pe_pubkey q |\<in>| pl_zero_prev l" if "q \<in> set ps" for q
  proof -
    have "pe_pubkey q \<noteq> pe_pubkey p" using Cons.prems(1) that by (metis distinct.simps(2) image_eqI list.set_map list.simps(9))
    then show "fmlookup (ha_map (pl_cache ?l)) (pe_pubkey q) = fmlookup (ha_map (pl_cache l)) (pe_pubkey q)"
      "pe_pubkey q |\<in>| pl_zero_prev ?l \<longleftrightarrow> pe_pubkey q |\<in>| pl_zero_prev l"
      using step(4,5) by blast+
  qed
  then have same: "is_miss handled ?l q = is_miss handled l q" "is_hit handled ?l q = is_hit handled l q"
      "hit_delta handled ?l q = hit_delta handled l q" if "q \<in> set ps" for q
    using that by (auto simp: is_miss_def is_hit_def hit_delta_def cached_prev_def)
  have sums: "(\<Sum>q\<leftarrow>ps. hit_delta handled ?l q) = (\<Sum>q\<leftarrow>ps. hit_delta handled l q)"
      "filter (is_miss handled ?l) ps = filter (is_miss handled l) ps"
    using same by (auto cong: map_cong filter_cong)
  let ?l' = "fold (probe_pending slot False handled closes) ps ?l"
  have fresh: "pe_pubkey p \<notin> pe_pubkey ` set ps" using Cons.prems(1) by simp
  have dist: "distinct (map pe_pubkey ps)" using Cons.prems(1) by simp
  have older: "he_slot e < slot" if "q \<in> set ps" "fmlookup (ha_map (pl_cache ?l)) (pe_pubkey q) = Some e" for q e
    using Cons.prems(2) [of q e] other(1) that by simp
  have "probed slot handled ps ?l ?l'" by (rule Cons.IH) (use dist older in auto)
  note IH = this [unfolded probed_def]
  have at: "fmlookup (ha_map (pl_cache ?l')) (pe_pubkey q) =
      (if is_hit handled l q then written slot q (fmlookup (ha_map (pl_cache l)) (pe_pubkey q))
       else fmlookup (ha_map (pl_cache l)) (pe_pubkey q))" if "q \<in> set (p # ps)" for q
  proof (cases "q \<in> set ps")
    case True
    then show ?thesis using IH other(1) same(2) by simp
  next
    case False
    then have "q = p" using that by simp
    then show ?thesis using IH fresh step(6) by simp
  qed
  have frame: "fmlookup (ha_map (pl_cache ?l')) k = fmlookup (ha_map (pl_cache l)) k"
    if "k \<notin> pe_pubkey ` set (p # ps)" for k
    using IH step(4) that by simp
  show ?case using IH step(1-3) sums at frame by (simp add: probed_def)
qed (simp add: probed_def)

text \<open>The miss resolution.\<close>

definition db_prev :: "(pubkey, u64 \<times> u64) fmap \<Rightarrow> pubkey \<Rightarrow> int" where
  "db_prev prev key = (case fmlookup prev key of Some (lamports, _) \<Rightarrow> uint lamports | None \<Rightarrow> 0)"

lemma resolve_fold_live:
  assumes "distinct (map pe_pubkey ms)"
    and "\<And>p. p \<in> set ms \<Longrightarrow> fmlookup (ha_map cache) (pe_pubkey p) = None"
    and "\<And>p l s. p \<in> set ms \<Longrightarrow> fmlookup prev (pe_pubkey p) = Some (l, s) \<Longrightarrow> s < slot"
    and "(cache', delta', touched') = fold (resolve_miss slot prev) ms (cache, delta, touched)"
  shows "delta' = delta + (\<Sum>p\<leftarrow>ms. uint (pe_lamports p) - db_prev prev (pe_pubkey p))
    \<and> touched' = touched @ map pe_pubkey ms
    \<and> (\<forall>k. k \<notin> pe_pubkey ` set ms \<longrightarrow> fmlookup (ha_map cache') k = fmlookup (ha_map cache) k)
    \<and> (\<forall>p \<in> set ms. fmlookup (ha_map cache') (pe_pubkey p) = written slot p None)"
  using assms
proof (induction ms arbitrary: cache delta touched)
  case (Cons p ms)
  let ?cache = "write_back (pe_pubkey p) (pe_lamports p) slot (pe_owner p) cache"
  have none: "fmlookup (ha_map cache) (pe_pubkey p) = None" using Cons.prems(2) by simp
  have step: "resolve_miss slot prev p (cache, delta, touched) =
      (?cache, delta + (uint (pe_lamports p) - db_prev prev (pe_pubkey p)), touched @ [pe_pubkey p])"
    using Cons.prems(3) [of p]
    by (auto simp: resolve_miss_def apply_miss_def db_prev_def split: option.splits)
  have fresh: "pe_pubkey p \<notin> pe_pubkey ` set ms" using Cons.prems(1) by simp
  have at: "fmlookup (ha_map ?cache) (pe_pubkey p) = written slot p None"
    using write_back_written [of cache p slot] none by simp
  have "fmlookup (ha_map ?cache) (pe_pubkey q) = None" if "q \<in> set ms" for q
  proof -
    have "pe_pubkey q \<noteq> pe_pubkey p" using fresh that by (metis image_eqI)
    then show ?thesis using Cons.prems(2) that by (simp add: write_back_frame)
  qed
  with Cons.prems(1,3,4) step have IH: "delta' = delta + (uint (pe_lamports p) - db_prev prev (pe_pubkey p))
        + (\<Sum>p\<leftarrow>ms. uint (pe_lamports p) - db_prev prev (pe_pubkey p))
    \<and> touched' = (touched @ [pe_pubkey p]) @ map pe_pubkey ms
    \<and> (\<forall>k. k \<notin> pe_pubkey ` set ms \<longrightarrow> fmlookup (ha_map cache') k = fmlookup (ha_map ?cache) k)
    \<and> (\<forall>p \<in> set ms. fmlookup (ha_map cache') (pe_pubkey p) = written slot p None)"
    by (intro Cons.IH) auto
  with at fresh show ?case by (auto simp: write_back_frame)
qed simp

text \<open>The previous balance the tracker uses for a key: zero for an account closed in the bootstrap
  window, the cached balance, or what the miss read returned.\<close>

definition prev_balance :: "supply_state \<Rightarrow> (pubkey, u64 \<times> u64) fmap \<Rightarrow> pubkey \<Rightarrow> int" where
  "prev_balance st prev key =
     (if key |\<in>| ss_startup_zero_prev st then 0
      else case fmlookup (ha_map (ss_cache st)) key of
             Some e \<Rightarrow> uint (he_lamports e)
           | None \<Rightarrow> db_prev prev key)"

text \<open>A live block that is due: not a replay, with distinct keys, over a cache that is older than
  the block, and a read that returns only older rows.\<close>

definition live_block :: "(nat \<Rightarrow> prev_read) \<Rightarrow> (pubkey, u64 \<times> u64) fmap \<Rightarrow> u64 \<Rightarrow> pending list \<Rightarrow> supply_state \<Rightarrow> bool" where
  "live_block attempt prev slot ps st \<longleftrightarrow>
     (ss_status st = SLive \<or> ss_status st = SGapFilling) \<and> ss_slot st < slot \<and>
     distinct (map pe_pubkey ps) \<and>
     (\<forall>key e. fmlookup (ha_map (ss_cache st)) key = Some e \<longrightarrow> he_slot e < slot) \<and>
     (\<forall>key l s. fmlookup prev key = Some (l, s) \<longrightarrow> s < slot) \<and>
     (\<forall>keys. attempt 0 keys (Some slot) = Some prev \<or>
        attempt 0 keys (Some slot) = None \<and> attempt 1 keys (Some slot) = Some prev)"

lemma sum_hits_misses:
  assumes "\<And>key. cached_prev l key = (if key |\<in>| ss_startup_zero_prev st then 0
      else case fmlookup (ha_map (ss_cache st)) key of Some e \<Rightarrow> uint (he_lamports e) | None \<Rightarrow> 0)"
    and "pl_cache l = ss_cache st" and "pl_zero_prev l = ss_startup_zero_prev st"
  shows "(\<Sum>p\<leftarrow>ps. hit_delta handled l p)
      + (\<Sum>p\<leftarrow>filter (is_miss handled l) ps. uint (pe_lamports p) - db_prev prev (pe_pubkey p))
    = (\<Sum>p\<leftarrow>filter (\<lambda>p. pe_pubkey p |\<notin>| handled) ps. uint (pe_lamports p) - prev_balance st prev (pe_pubkey p))"
proof (induction ps)
  case (Cons p ps)
  then show ?case
    using assms
    by (auto simp: hit_delta_def is_hit_def is_miss_def prev_balance_def split: option.splits)
qed simp

lemma fetch_live:
  "live_block attempt prev slot ps st \<Longrightarrow> fetch_retry attempt keys (Some slot) st' = (st', Some prev)"
proof -
  assume "live_block attempt prev slot ps st"
  then have "attempt 0 keys (Some slot) = Some prev \<or>
      attempt 0 keys (Some slot) = None \<and> attempt 1 keys (Some slot) = Some prev"
    unfolding live_block_def by blast
  then show ?thesis by (auto simp: fetch_retry_def)
qed

lemma live_block_delta:
  assumes "live_block attempt prev slot ps st"
  obtains st' touched where
    "supply_apply_block attempt slot False ps stake st = (st', ODelta (sk_delta stake +
       (\<Sum>p\<leftarrow>filter (\<lambda>p. pe_pubkey p |\<notin>| sk_handled stake) ps.
          uint (pe_lamports p) - prev_balance st prev (pe_pubkey p))) touched)"
    and "ss_status st' = ss_status st" and "ss_total st' = ss_total st" and "ss_slot st' = ss_slot st"
    and "ss_startup_slot st' = ss_startup_slot st"
    and "\<And>p. p \<in> set ps \<Longrightarrow> pe_pubkey p |\<notin>| sk_handled stake \<Longrightarrow>
      fmlookup (ha_map (ss_cache st')) (pe_pubkey p)
        = written slot p (fmlookup (ha_map (ss_cache st)) (pe_pubkey p))"
    and "\<And>k. k \<notin> pe_pubkey ` set ps \<or> k |\<in>| sk_handled stake \<Longrightarrow>
      fmlookup (ha_map (ss_cache st')) k = fmlookup (ha_map (ss_cache st)) k"
proof -
  let ?h = "sk_handled stake"
  let ?l = "\<lparr>pl_cache = ss_cache st, pl_zero_prev = ss_startup_zero_prev st,
    pl_delta = sk_delta stake, pl_touched = [], pl_misses = []\<rparr>"
  define st1 where "st1 = (if ss_status st = SGapFilling
    then st \<lparr>ss_gap_closes := fold (note_close slot) ps (ss_gap_closes st)\<rparr> else st)"
  define l' where "l' = fold (probe_pending slot False ?h (ss_gap_closes st1)) ps ?l"
  define st2 where "st2 = st1 \<lparr>ss_cache := pl_cache l', ss_startup_zero_prev := pl_zero_prev l'\<rparr>"
  have st1: "ss_cache st1 = ss_cache st" "ss_startup_zero_prev st1 = ss_startup_zero_prev st"
    by (simp_all add: st1_def)
  have pb: "probe_block slot False ps stake st = (st2, ODelta (pl_delta l') (pl_touched l'), pl_misses l')"
    using assms unfolding live_block_def st2_def l'_def st1_def
    by (auto simp: probe_block_def Let_def)
  have fields: "ss_status st2 = ss_status st" "ss_total st2 = ss_total st" "ss_slot st2 = ss_slot st"
      "ss_startup_slot st2 = ss_startup_slot st" by (simp_all add: st2_def st1_def)
  have dist: "distinct (map pe_pubkey ps)" and old: "\<And>p e. fmlookup (ha_map (ss_cache st)) (pe_pubkey p) = Some e \<Longrightarrow> he_slot e < slot"
    using assms by (auto simp: live_block_def)
  have "probed slot ?h ps ?l l'"
    unfolding l'_def by (rule probe_fold_live) (use dist old in auto)
  then have P:
    "pl_delta l' = sk_delta stake + (\<Sum>p\<leftarrow>ps. hit_delta ?h ?l p)"
    "pl_misses l' = filter (is_miss ?h ?l) ps"
    "\<And>k. k \<notin> pe_pubkey ` set ps \<Longrightarrow> fmlookup (ha_map (pl_cache l')) k = fmlookup (ha_map (ss_cache st)) k"
    "\<And>p. p \<in> set ps \<Longrightarrow> fmlookup (ha_map (pl_cache l')) (pe_pubkey p) =
        (if is_hit ?h ?l p then written slot p (fmlookup (ha_map (ss_cache st)) (pe_pubkey p))
         else fmlookup (ha_map (ss_cache st)) (pe_pubkey p))"
    by (simp_all add: probed_def)
  let ?ms = "filter (is_miss ?h ?l) ps"
  obtain cache' delta' touched' where r: "(cache', delta', touched')
      = fold (resolve_miss slot prev) ?ms (pl_cache l', pl_delta l', pl_touched l')"
    by (metis prod_cases3)
  have miss_none: "fmlookup (ha_map (pl_cache l')) (pe_pubkey p) = None" if "p \<in> set ?ms" for p
    using that P(4) [of p] by (simp add: is_hit_def) (simp add: is_miss_def)
  have prev_old: "s < slot" if "fmlookup prev (pe_pubkey p) = Some (l, s)" for p l s
    using assms that by (auto simp: live_block_def)
  have "distinct (map pe_pubkey ?ms)" using dist by (simp add: distinct_map_filter)
  then have "delta' = pl_delta l' + (\<Sum>p\<leftarrow>?ms. uint (pe_lamports p) - db_prev prev (pe_pubkey p))
    \<and> touched' = pl_touched l' @ map pe_pubkey ?ms
    \<and> (\<forall>k. k \<notin> pe_pubkey ` set ?ms \<longrightarrow> fmlookup (ha_map cache') k = fmlookup (ha_map (pl_cache l')) k)
    \<and> (\<forall>p \<in> set ?ms. fmlookup (ha_map cache') (pe_pubkey p) = written slot p None)"
    by (rule resolve_fold_live [OF _ _ _ r]) (erule miss_none, rule prev_old)
  then have R: "delta' = pl_delta l' + (\<Sum>p\<leftarrow>?ms. uint (pe_lamports p) - db_prev prev (pe_pubkey p))"
    "\<And>k. k \<notin> pe_pubkey ` set ?ms \<Longrightarrow> fmlookup (ha_map cache') k = fmlookup (ha_map (pl_cache l')) k"
    "\<And>p. p \<in> set ?ms \<Longrightarrow> fmlookup (ha_map cache') (pe_pubkey p) = written slot p None"
    by blast+
  have delta: "delta' = sk_delta stake + (\<Sum>p\<leftarrow>filter (\<lambda>p. pe_pubkey p |\<notin>| ?h) ps.
      uint (pe_lamports p) - prev_balance st prev (pe_pubkey p))"
    using sum_hits_misses [of ?l st ?h ps prev] by (simp add: R(1) P(1) cached_prev_def)
  have applied: "supply_apply_block attempt slot False ps stake st = (st2 \<lparr>ss_cache := cache'\<rparr>, ODelta delta' touched')"
  proof (cases "?ms = []")
    case True
    then show ?thesis using r by (simp add: supply_apply_block_def pb P(2) st2_def)
  next
    case False
    then show ?thesis
      using fetch_live [OF assms] r [symmetric]
      by (simp add: supply_apply_block_def pb P(2) st2_def)
  qed
  have unique: "q = p" if "p \<in> set ps" "q \<in> set ps" "pe_pubkey q = pe_pubkey p" for p q
    using dist that by (auto simp: distinct_map inj_on_def)
  have at: "fmlookup (ha_map cache') (pe_pubkey p) = written slot p (fmlookup (ha_map (ss_cache st)) (pe_pubkey p))"
    if p: "p \<in> set ps" "pe_pubkey p |\<notin>| ?h" for p
  proof (cases "is_miss ?h ?l p")
    case True
    then show ?thesis using R(3) [of p] p by (simp add: is_miss_def)
  next
    case False
    then have "pe_pubkey p \<notin> pe_pubkey ` set ?ms" using unique [OF p(1)] by auto
    then show ?thesis using R(2) P(4) [OF p(1)] p(2) False by (simp add: is_hit_def)
  qed
  have frame: "fmlookup (ha_map cache') k = fmlookup (ha_map (ss_cache st)) k"
    if k: "k \<notin> pe_pubkey ` set ps \<or> k |\<in>| ?h" for k
  proof -
    have "k \<notin> pe_pubkey ` set ?ms" using k by (auto simp: is_miss_def)
    moreover have "fmlookup (ha_map (pl_cache l')) k = fmlookup (ha_map (ss_cache st)) k"
    proof (cases "k \<in> pe_pubkey ` set ps")
      case True
      then obtain p where "p \<in> set ps" "k = pe_pubkey p" by auto
      then show ?thesis using P(4) [of p] k by (auto simp: is_hit_def)
    qed (rule P(3))
    ultimately show ?thesis using R(2) by simp
  qed
  show thesis
    by (rule that [of "st2 \<lparr>ss_cache := cache'\<rparr>" touched'])
      (use applied delta fields at frame in simp_all)
qed

section \<open>The miss read returns only older rows\<close>

lemma latest_row_in: "latest_row rows = Some r \<Longrightarrow> r \<in> set rows"
proof -
  assume "latest_row rows = Some r"
  then obtain tl where "rev (sort_key (\<lambda>r. (ar_slot r, ar_lamports r)) rows) = r # tl"
    by (auto simp: latest_row_def split: list.splits)
  then have "r \<in> set (rev (sort_key (\<lambda>r. (ar_slot r, ar_lamports r)) rows))" by (metis list.set_intros(1))
  then show ?thesis by simp
qed

lemma latest_row_max:
  assumes "latest_row rows = Some r" and "x \<in> set rows"
  shows "(ar_slot x, ar_lamports x) \<le> (ar_slot r, ar_lamports r)"
proof -
  let ?key = "\<lambda>r. (ar_slot r, ar_lamports r)"
  from assms(1) obtain tl where rev: "rev (sort_key ?key rows) = r # tl"
    by (auto simp: latest_row_def split: list.splits)
  then have eq: "sort_key ?key rows = rev tl @ [r]" by (metis rev.simps(2) rev_rev_ident)
  have "sorted (map ?key (rev tl @ [r]))" unfolding eq [symmetric] by (rule sorted_sort_key)
  moreover have "x \<in> set (rev tl @ [r])" unfolding eq [symmetric] using assms(2) by simp
  ultimately show ?thesis by (auto simp: sorted_append)
qed

lemma latest_row_None [simp]: "latest_row rows = None \<longleftrightarrow> rows = []"
proof -
  have "rev (sort_key (\<lambda>r. (ar_slot r, ar_lamports r)) rows) = [] \<longleftrightarrow> rows = []"
    by (metis length_0_conv length_rev length_sort)
  then show ?thesis by (auto simp: latest_row_def split: list.splits)
qed

lemma fetch_prev_lookup:
  "fmlookup (fetch_prev_balances accounts snapshot keys below) key =
     (if key \<in> set keys
      then map_option (\<lambda>r. (word_of_int (ar_lamports r), word_of_int (ar_slot r)))
        (latest_row (filter (\<lambda>r. ar_pubkey r = key \<and>
            ar_slot r < (case below of None \<Rightarrow> 2 ^ 63 - 1 | Some slot \<Rightarrow> sint slot)) (accounts @ snapshot)))
      else None)"
proof -
  let ?row = "\<lambda>key. latest_row (filter (\<lambda>r. ar_pubkey r = key \<and>
      ar_slot r < (case below of None \<Rightarrow> 2 ^ 63 - 1 | Some slot \<Rightarrow> sint slot)) (accounts @ snapshot))"
  have "fmlookup (fold (\<lambda>key out. case ?row key of None \<Rightarrow> out
           | Some r \<Rightarrow> fmupd key (word_of_int (ar_lamports r), word_of_int (ar_slot r)) out) keys m) key =
      (if key \<in> set keys \<and> ?row key \<noteq> None
       then map_option (\<lambda>r. (word_of_int (ar_lamports r), word_of_int (ar_slot r))) (?row key)
       else fmlookup m key)" for m :: "(pubkey, u64 \<times> u64) fmap"
    by (induction keys arbitrary: m) (auto simp del: latest_row_None split: option.splits)
  from this [of fmempty] show ?thesis
    unfolding fetch_prev_balances_def Let_def by (auto simp del: latest_row_None)
qed

text \<open>Slots stay below \<open>2^63\<close>, so the casts to and from \<open>bigint\<close> keep their order.\<close>

definition row_ok :: "account_row \<Rightarrow> bool" where
  "row_ok r \<longleftrightarrow> 0 \<le> ar_slot r \<and> ar_slot r < 2 ^ 63 \<and> 0 \<le> ar_lamports r \<and> ar_lamports r < 2 ^ 64"

lemma uint_row_slot: "row_ok r \<Longrightarrow> uint (word_of_int (ar_slot r) :: u64) = ar_slot r"
  by (simp add: row_ok_def uint_word_of_int)

lemma fetch_prev_older:
  assumes "fmlookup (fetch_prev_balances accounts snapshot keys (Some slot)) key = Some (l, s)"
    and "\<forall>r \<in> set (accounts @ snapshot). row_ok r" and "uint slot < 2 ^ 63"
  shows "s < slot"
proof -
  from assms(1) obtain r where r: "latest_row (filter (\<lambda>r. ar_pubkey r = key \<and> ar_slot r < sint slot)
      (accounts @ snapshot)) = Some r" "s = word_of_int (ar_slot r)"
    by (auto simp: fetch_prev_lookup split: if_splits)
  from latest_row_in [OF r(1)] have "r \<in> set (accounts @ snapshot)" "ar_slot r < sint slot" by auto
  with assms(2,3) r(2) show ?thesis
    by (simp add: word_less_def uint_row_slot sint_small)
qed

section \<open>The status machine\<close>

datatype supply_event =
    Startup u64 u64
  | ApplyBlock "nat \<Rightarrow> prev_read" u64 bool "pending list" stake_block
  | FinishBlock "u64 option" u64 block_outcome bool
  | FinishBootstrap "u64 option" "(pubkey, u64) fmap"
  | MarkGap | FinishGap | MarkStale | MarkBootstrapFailed
  | SweepIfDue u64

text \<open>Every entry point of the tracker; \<open>None\<close> is a panic of the sweep.\<close>

fun supply_step :: "supply_event \<Rightarrow> supply_state \<Rightarrow> (supply_state \<times> supply_commit option) option" where
  "supply_step (Startup slot capitalization) st = Some (set_startup_total slot capitalization st, None)"
| "supply_step (ApplyBlock attempt slot is_repaired ps stake) st =
     Some (fst (supply_apply_block attempt slot is_repaired ps stake st), None)"
| "supply_step (FinishBlock nc slot outcome writes_ok) st = Some (finish_block nc slot outcome writes_ok st)"
| "supply_step (FinishBootstrap nc balances) st = Some (finish_bootstrap nc balances st)"
| "supply_step MarkGap st = Some (fst (mark_gap st), None)"
| "supply_step FinishGap st = Some (finish_gap st, None)"
| "supply_step MarkStale st = Some (fst (mark_stale st), None)"
| "supply_step MarkBootstrapFailed st = Some (fst (mark_bootstrap_failed st), None)"
| "supply_step (SweepIfDue slot) st = map_option (\<lambda>st. (st, None)) (sweep_if_due slot st)"

inductive supply_run :: "supply_state \<Rightarrow> supply_commit list \<Rightarrow> supply_state \<Rightarrow> bool" where
  refl: "supply_run st [] st"
| step: "supply_run st cs st' \<Longrightarrow> supply_step e st' = Some (st'', c) \<Longrightarrow>
    supply_run st (cs @ (case c of Some c \<Rightarrow> [c] | None \<Rightarrow> [])) st''"

lemma apply_block_stale: "ss_status st = SStale \<Longrightarrow> supply_apply_block attempt slot r ps stake st = (st, Idle)"
  by (simp add: supply_apply_block_def probe_block_def)

lemma commit_block_stale:
  "ss_status st = SStale \<Longrightarrow> commit_block nc slot delta st = (st \<lparr>ss_slot := max (ss_slot st) slot\<rparr>, None)"
  by (simp add: commit_block_def Let_def)

lemma stale_step:
  assumes "ss_status st = SStale" and "supply_step e st = Some (st', c)"
  shows "ss_status st' = SStale \<and> ss_total st' = ss_total st \<and> c = None"
  using assms
  by (cases e)
    (auto simp: apply_block_stale commit_block_stale set_startup_total_def finish_block_def
      finish_bootstrap_def mark_gap_def finish_gap_def mark_stale_def mark_bootstrap_failed_def
      sweep_if_due_def pin_failed_def Let_def split_beta split: block_outcome.splits if_splits)

lemma record_touch_status [simp]: "ss_status (fold (record_touch slot) ps st) = ss_status st"
  by (induction ps arbitrary: st) (auto simp: record_touch_def Let_def split: option.splits)

text \<open>Every commit the tracker hands to the database carries the total and the slot of a live
  state: nothing is published while it bootstraps, fills a gap or is stale.\<close>

theorem commits_only_live:
  assumes "supply_step e st = Some (st', Some c)"
  shows "ss_status st' = SLive \<and> sc_total c = ss_total st' \<and> sc_slot c = ss_slot st'"
  using assms
  by (cases e)
    (auto simp: finish_block_def commit_block_def finish_bootstrap_def commit_row_def Let_def
      split_beta split: block_outcome.splits if_splits supply_status.splits option.splits)

text \<open>Stale is final: whatever calls follow, the tracker stays stale, its total does not move and
  it commits nothing.\<close>

theorem stale_is_final:
  assumes "supply_run st cs st'" and "ss_status st = SStale"
  shows "ss_status st' = SStale \<and> ss_total st' = ss_total st \<and> cs = []"
  using assms
proof induction
  case (step st cs st' e st'' c)
  then show ?case using stale_step [of st' e st'' c] by simp
qed simp

section \<open>The bootstrap window\<close>

lemma window_spec:
  assumes "window start balances es (delta, max_slot, zero_prev) = Some (delta', max_slot', zero_prev')"
  shows "delta' = delta + (\<Sum>(key, account)\<leftarrow>es. if start < ta_slot account
      then uint (ta_lamports account) - uint (the (fmlookup balances key)) else 0)
    \<and> (\<forall>(key, account) \<in> set es. start < ta_slot account \<longrightarrow> fmlookup balances key \<noteq> None)
    \<and> fset zero_prev' = fset zero_prev \<union> {key. \<exists>account. (key, account) \<in> set es \<and> ta_lamports account = 0}
    \<and> max_slot \<le> max_slot' \<and> (\<forall>(key, account) \<in> set es. start < ta_slot account \<longrightarrow> ta_slot account \<le> max_slot')"
  using assms
proof (induction es arbitrary: delta max_slot zero_prev)
  case (Cons x es)
  obtain key account where x: "x = (key, account)" by (cases x)
  show ?case
  proof (cases "ta_slot account \<le> start")
    case True
    with Cons.prems Cons.IH show ?thesis by (auto simp: x Let_def split: if_splits)
  next
    case False
    with Cons.prems obtain known where known: "fmlookup balances key = Some known"
      by (auto simp: x Let_def split: option.splits)
    have "window start balances es (delta + (uint (ta_lamports account) - uint known),
        max max_slot (ta_slot account),
        if ta_lamports account = 0 then finsert key zero_prev else zero_prev)
      = Some (delta', max_slot', zero_prev')"
      using Cons.prems False known by (simp add: x Let_def)
    from Cons.IH [OF this] False known show ?thesis by (auto simp: x)
  qed
qed simp

lemma bootstrap_sum:
  assumes "finish_bootstrap nc balances st = (st', Some c)"
  shows "sc_total c = word_of_int (uint (ss_total st) +
      fm_sum (\<lambda>key account. if ss_startup_slot st < ta_slot account
        then uint (ta_lamports account) - uint (the (fmlookup balances key)) else 0) (ss_startup_touched st))
    \<and> (\<forall>key account. fmlookup (ss_startup_touched st) key = Some account \<and> ss_startup_slot st < ta_slot account
        \<longrightarrow> fmlookup balances key \<noteq> None \<and> ta_slot account \<le> sc_slot c)
    \<and> ss_startup_slot st \<le> sc_slot c \<and> ss_status st' = SLive
    \<and> fset (ss_startup_zero_prev st') =
        {key. \<exists>account. fmlookup (ss_startup_touched st) key = Some account \<and> ta_lamports account = 0}"
proof -
  from assms obtain delta max_slot zero_prev where
    w: "window (ss_startup_slot st) balances (fm_entries (ss_startup_touched st))
          (0, ss_startup_slot st, {||}) = Some (delta, max_slot, zero_prev)"
    and c: "st' = st \<lparr>ss_total := word_of_int (uint (ss_total st) + delta),
        ss_slot := max (ss_slot st) max_slot, ss_startup_touched := fmempty,
        ss_startup_zero_prev := zero_prev, ss_status := SLive\<rparr>" "c = commit_row nc st'"
    by (auto simp: finish_bootstrap_def Let_def split: if_splits option.splits)
  have spec: "delta = fm_sum (\<lambda>key account. if ss_startup_slot st < ta_slot account
        then uint (ta_lamports account) - uint (the (fmlookup balances key)) else 0) (ss_startup_touched st)"
    "\<forall>(key, account) \<in> set (fm_entries (ss_startup_touched st)). ss_startup_slot st < ta_slot account
      \<longrightarrow> fmlookup balances key \<noteq> None"
    "fset zero_prev = {key. \<exists>account. (key, account) \<in> set (fm_entries (ss_startup_touched st)) \<and> ta_lamports account = 0}"
    "ss_startup_slot st \<le> max_slot"
    "\<forall>(key, account) \<in> set (fm_entries (ss_startup_touched st)). ss_startup_slot st < ta_slot account
      \<longrightarrow> ta_slot account \<le> max_slot"
    using window_spec [OF w] by (simp_all add: fm_sum_entries)
  have touch: "fmlookup balances key \<noteq> None" "ta_slot account \<le> max (ss_slot st) max_slot"
    if "fmlookup (ss_startup_touched st) key = Some account" "ss_startup_slot st < ta_slot account" for key account
  proof -
    have "(key, account) \<in> set (fm_entries (ss_startup_touched st))" using that(1) by simp
    then show "fmlookup balances key \<noteq> None" "ta_slot account \<le> max (ss_slot st) max_slot"
      using spec(2,5) that(2) by (auto simp: le_max_iff_disj)
  qed
  moreover have "ss_startup_slot st \<le> max (ss_slot st) max_slot" using spec(4) by (simp add: le_max_iff_disj)
  ultimately show ?thesis using spec(1,3) by (auto simp: c commit_row_def)
qed

lemma probe_block_status [simp]: "ss_status (fst (probe_block slot r ps stake st)) = ss_status st"
  by (auto simp: probe_block_def Let_def split: supply_status.splits)

lemma fetch_retry_status: "ss_status (fst (fetch_retry attempt keys below st)) \<in> {ss_status st, SStale}"
  by (auto simp: fetch_retry_def mark_stale_def split: option.splits)

lemma apply_block_status:
  "ss_status (fst (supply_apply_block attempt slot r ps stake st)) \<in> {ss_status st, SStale}"
proof -
  obtain st1 outcome misses where pb: "probe_block slot r ps stake st = (st1, outcome, misses)"
    by (metis prod_cases3)
  then have st1: "ss_status st1 = ss_status st" using probe_block_status [of slot r ps stake st] by simp
  obtain st2 prev where f: "fetch_retry attempt (map pe_pubkey misses) (if r then None else Some slot) st1 = (st2, prev)"
    by fastforce
  then have "ss_status st2 \<in> {ss_status st, SStale}"
    using fetch_retry_status [of attempt "map pe_pubkey misses" "if r then None else Some slot" st1] st1 by simp
  with st1 show ?thesis
    by (cases outcome) (auto simp: supply_apply_block_def pb f split_beta split: option.splits)
qed

lemma apply_block_boot_state:
  "ss_status st = SBootstrapping \<Longrightarrow>
   supply_apply_block attempt slot r ps stake st = (fold (record_touch slot) ps st, OBootstrapping)"
  by (simp add: supply_apply_block_def probe_block_def)

definition cold :: "supply_state \<Rightarrow> bool" where
  "cold st \<longleftrightarrow> (ss_status st = SBootstrapping \<longrightarrow> ha_map (ss_cache st) = fmempty)"

lemma record_touch_cold:
  "ha_map (ss_cache st) = fmempty \<Longrightarrow> ha_map (ss_cache (fold (record_touch slot) ps st)) = fmempty"
  by (induction ps arbitrary: st) (auto simp: record_touch_def probe_def Let_def split: option.splits)

lemma commit_block_same: "ss_status (fst (commit_block nc slot delta st)) = ss_status st"
  "ss_cache (fst (commit_block nc slot delta st)) = ss_cache st"
  by (auto simp: commit_block_def Let_def split: supply_status.splits)

lemma fold_set_pinned_empty: "fold set_pinned keys fmempty = fmempty"
  by (induction keys) (auto simp: set_pinned_def)

lemma finish_block_cold: "cold st \<Longrightarrow> cold (fst (finish_block nc slot outcome ok st))"
  by (cases outcome)
    (auto simp: cold_def finish_block_def mark_bootstrap_failed_def mark_stale_def pin_failed_def Let_def
      commit_block_same fold_set_pinned_empty split_beta split: if_splits)

lemma sweep_cold:
  assumes "cold st" and "sweep_if_due slot st = Some st'"
  shows "cold st'"
proof -
  have "fm_retain P fmempty = fmempty" for P :: "pubkey \<Rightarrow> hot_entry \<Rightarrow> bool"
    by (rule fmap_ext) simp
  with assms show ?thesis
    by (auto simp: cold_def sweep_if_due_def sweep_def Let_def split: if_splits option.splits)
qed

lemma cold_step:
  assumes "supply_step e st = Some (st', c)" and "cold st"
  shows "cold st'"
proof (cases e)
  case (ApplyBlock attempt slot r ps stake)
  show ?thesis
  proof (cases "ss_status st = SBootstrapping")
    case True
    with assms ApplyBlock show ?thesis
      by (auto simp: apply_block_boot_state cold_def record_touch_cold)
  next
    case False
    with assms(1) ApplyBlock apply_block_status [of attempt slot r ps stake st] show ?thesis
      by (auto simp: cold_def)
  qed
next
  case (FinishBlock nc slot outcome ok)
  with assms finish_block_cold [of st nc slot outcome ok] show ?thesis by simp
next
  case (SweepIfDue slot)
  with assms sweep_cold show ?thesis by auto
next
  case (FinishBootstrap nc balances)
  with assms show ?thesis
    by (auto simp: cold_def finish_bootstrap_def Let_def split: if_splits option.splits)
qed (use assms in \<open>auto simp: cold_def set_startup_total_def mark_gap_def finish_gap_def mark_stale_def
    mark_bootstrap_failed_def split: if_splits\<close>)

text \<open>The bootstrap window as its events made it: the anchors it was given and the balances the blocks touched.\<close>

fun supply_trace :: "supply_event list \<Rightarrow> supply_state \<Rightarrow> supply_state option" where
  "supply_trace [] st = Some st"
| "supply_trace (e # es) st = (case supply_step e st of None \<Rightarrow> None | Some (st', _) \<Rightarrow> supply_trace es st')"

fun anchors_of :: "supply_event \<Rightarrow> (u64 \<times> u64) list" where
  "anchors_of (Startup slot capitalization) = [(slot, capitalization)]"
| "anchors_of _ = []"

fun touches_of :: "supply_event \<Rightarrow> (pubkey \<times> touched_account) list" where
  "touches_of (ApplyBlock attempt slot is_repaired ps stake) =
     map (\<lambda>p. (pe_pubkey p, \<lparr>ta_slot = slot, ta_lamports = pe_lamports p\<rparr>)) ps"
| "touches_of _ = []"

abbreviation anchors :: "supply_event list \<Rightarrow> (u64 \<times> u64) list" where
  "anchors es \<equiv> concat (map anchors_of es)"

abbreviation touches :: "supply_event list \<Rightarrow> (pubkey \<times> touched_account) list" where
  "touches es \<equiv> concat (map touches_of es)"

text \<open>The newest touch of a key: that of the highest slot, the last one at that slot.\<close>

definition newest_touch :: "(pubkey \<times> touched_account) list \<Rightarrow> pubkey \<Rightarrow> touched_account option" where
  "newest_touch ts key = fold (\<lambda>(k, account) found.
     if k \<noteq> key then found
     else case found of None \<Rightarrow> Some account | Some old \<Rightarrow> if ta_slot old \<le> ta_slot account then Some account else found) ts None"

text \<open>The anchor of the highest slot, the first one at that slot; slot 0 with no lamports before there is one.\<close>

definition first_anchor :: "(u64 \<times> u64) list \<Rightarrow> u64 \<times> u64" where
  "first_anchor as = fold (\<lambda>(slot, capitalization) best. if fst best < slot then (slot, capitalization) else best) as (0, 0)"

lemma first_anchor_max: "\<forall>(slot, capitalization) \<in> set as. slot \<le> fst (first_anchor as)"
proof (induction as rule: rev_induct)
  case (snoc a as)
  then show ?case by (cases a) (fastforce simp: first_anchor_def)
qed simp

lemma first_anchor_in: "fst (first_anchor as) \<noteq> 0 \<Longrightarrow> first_anchor as \<in> set as"
proof (induction as rule: rev_induct)
  case (snoc a as)
  then show ?case by (cases a) (auto simp: first_anchor_def split: if_splits)
qed (simp add: first_anchor_def)

lemma newest_touch_snoc:
  "newest_touch (ts @ [(k, account)]) key = (if k \<noteq> key then newest_touch ts key
     else case newest_touch ts key of None \<Rightarrow> Some account
       | Some old \<Rightarrow> if ta_slot old \<le> ta_slot account then Some account else Some old)"
  by (auto simp: newest_touch_def split: option.split)

lemma newest_touch_in: "newest_touch ts key = Some account \<Longrightarrow> (key, account) \<in> set ts"
proof (induction ts arbitrary: account rule: rev_induct)
  case (snoc t ts)
  then show ?case by (cases t) (auto simp: newest_touch_snoc split: if_splits option.splits)
qed (simp add: newest_touch_def)

lemma newest_touch_max: "(key, touch) \<in> set ts \<Longrightarrow> \<exists>account. newest_touch ts key = Some account \<and> ta_slot touch \<le> ta_slot account"
proof (induction ts arbitrary: touch rule: rev_induct)
  case (snoc t ts)
  then show ?case by (cases t) (fastforce simp: newest_touch_snoc split: option.split)
qed simp

definition window_made :: "supply_event list \<Rightarrow> supply_state \<Rightarrow> bool" where
  "window_made es st \<longleftrightarrow> (ss_startup_slot st, ss_total st) = first_anchor (anchors es)
     \<and> (\<forall>key. fmlookup (ss_startup_touched st) key = newest_touch (touches es) key)"

lemma record_touch_window:
  "ss_startup_slot (record_touch slot p st) = ss_startup_slot st" "ss_total (record_touch slot p st) = ss_total st"
  "fmlookup (ss_startup_touched (record_touch slot p st)) key =
     (if pe_pubkey p \<noteq> key then fmlookup (ss_startup_touched st) key
      else case fmlookup (ss_startup_touched st) key of None \<Rightarrow> Some \<lparr>ta_slot = slot, ta_lamports = pe_lamports p\<rparr>
        | Some old \<Rightarrow> if ta_slot old \<le> slot then Some \<lparr>ta_slot = slot, ta_lamports = pe_lamports p\<rparr> else Some old)"
  by (auto simp: record_touch_def Let_def split: option.split)

lemma record_touches_window:
  assumes "\<forall>key. fmlookup (ss_startup_touched st) key = newest_touch ts key"
  shows "ss_startup_slot (fold (record_touch slot) ps st) = ss_startup_slot st \<and> ss_total (fold (record_touch slot) ps st) = ss_total st
    \<and> (\<forall>key. fmlookup (ss_startup_touched (fold (record_touch slot) ps st)) key =
         newest_touch (ts @ map (\<lambda>p. (pe_pubkey p, \<lparr>ta_slot = slot, ta_lamports = pe_lamports p\<rparr>)) ps) key)"
  using assms
proof (induction ps arbitrary: st ts)
  case (Cons p ps)
  have "\<forall>key. fmlookup (ss_startup_touched (record_touch slot p st)) key =
      newest_touch (ts @ [(pe_pubkey p, \<lparr>ta_slot = slot, ta_lamports = pe_lamports p\<rparr>)]) key"
    using Cons.prems by (simp add: record_touch_window newest_touch_snoc split: option.split)
  from Cons.IH [OF this] show ?case by (simp add: record_touch_window)
qed simp

lemma window_step:
  assumes "window_made es st" and "ss_status st = SBootstrapping" and "supply_step e st = Some (st', c)" and "ss_status st' = SBootstrapping"
  shows "window_made (es @ [e]) st'"
proof (cases e)
  case (Startup slot capitalization)
  then show ?thesis using assms
    by (auto simp: window_made_def set_startup_total_def first_anchor_def prod_eq_iff split: if_splits)
next
  case (ApplyBlock attempt slot is_repaired ps stake)
  have touched: "\<forall>key. fmlookup (ss_startup_touched st) key = newest_touch (touches es) key" using assms(1) by (simp add: window_made_def)
  have "st' = fold (record_touch slot) ps st"
    using assms(2,3) ApplyBlock by (simp add: supply_apply_block_def probe_block_def)
  then show ?thesis using record_touches_window [OF touched, of slot ps] assms(1) ApplyBlock by (simp add: window_made_def)
next
  case (FinishBlock nc slot outcome writes_ok)
  then show ?thesis using assms
    by (auto simp: window_made_def finish_block_def commit_block_def mark_bootstrap_failed_def mark_stale_def Let_def
        split: block_outcome.splits if_splits prod.splits)
next
  case (FinishBootstrap nc balances)
  then show ?thesis using assms
    by (auto simp: window_made_def finish_bootstrap_def Let_def split: if_splits option.splits)
next
  case (SweepIfDue slot)
  then show ?thesis using assms by (auto simp: window_made_def sweep_if_due_def split: if_splits)
qed (use assms in \<open>auto simp: window_made_def mark_gap_def finish_gap_def mark_stale_def mark_bootstrap_failed_def split: if_splits\<close>)

lemma finish_block_status: "ss_status (fst (finish_block nc slot outcome ok st)) \<in> {ss_status st, SStale}"
  by (cases outcome) (auto simp: finish_block_def mark_bootstrap_failed_def mark_stale_def pin_failed_def Let_def commit_block_same
      split_beta split: if_splits)

lemma bootstrap_not_again:
  assumes "ss_status st \<noteq> SBootstrapping" and "supply_step e st = Some (st', c)"
  shows "ss_status st' \<noteq> SBootstrapping"
proof (cases e)
  case (ApplyBlock attempt slot r ps stake)
  then show ?thesis using assms apply_block_status [of attempt slot r ps stake st] by auto
next
  case (FinishBlock nc slot outcome ok)
  then show ?thesis using assms finish_block_status [of nc slot outcome ok st] by auto
next
  case (SweepIfDue slot)
  then show ?thesis using assms by (auto simp: sweep_if_due_def split: if_splits)
qed (use assms in \<open>auto simp: set_startup_total_def finish_bootstrap_def mark_gap_def finish_gap_def mark_stale_def
    mark_bootstrap_failed_def Let_def split: if_splits option.splits\<close>)

lemma window_trace:
  assumes "supply_trace es st = Some st'" and "window_made es0 st" and "ss_status st' = SBootstrapping" and "ss_status st = SBootstrapping"
  shows "window_made (es0 @ es) st'"
  using assms
proof (induction es arbitrary: es0 st)
  case (Cons e es)
  obtain st1 c where step: "supply_step e st = Some (st1, c)" and rest: "supply_trace es st1 = Some st'"
    using Cons.prems(1) by (auto split: option.splits)
  have stays: "ss_status s' \<noteq> SBootstrapping" if "supply_trace fs s = Some s'" "ss_status s \<noteq> SBootstrapping" for fs s s'
    using that by (induction fs arbitrary: s) (auto dest: bootstrap_not_again split: option.splits)
  have boot: "ss_status st1 = SBootstrapping" using stays [OF rest] Cons.prems(3) by blast
  have "window_made (es0 @ [e]) st1" by (rule window_step [OF Cons.prems(2,4) step boot])
  from Cons.IH [OF rest this Cons.prems(3) boot] show ?case by simp
qed simp

text \<open>C32: The bootstrap flip anchors the total on the capitalization. Whatever calls a new tracker has seen, when it flips the total
  it commits is the capitalization of the anchor with the highest slot plus, for every account touched after that slot, the
  difference between its newest touched balance and the balance it had at the anchor; it flips only when each of them
  has such a balance, and the slot it commits is at or after the anchor and every such touch.\<close>

theorem bootstrap_total:
  assumes "supply_trace es (new_supply cap pins) = Some st" and "finish_bootstrap nc balances st = (st', Some c)"
    and "(start, capitalization) = first_anchor (anchors es)"
  shows "sc_total c = word_of_int (uint capitalization + (\<Sum>key \<in> fst ` set (touches es). case newest_touch (touches es) key of
         Some account \<Rightarrow> if start < ta_slot account then uint (ta_lamports account) - uint (the (fmlookup balances key)) else 0
       | None \<Rightarrow> 0))
    \<and> (start, capitalization) \<in> set (anchors es) \<and> (\<forall>(slot, _) \<in> set (anchors es). slot \<le> start)
    \<and> (\<forall>key account. newest_touch (touches es) key = Some account \<and> start < ta_slot account
        \<longrightarrow> fmlookup balances key \<noteq> None \<and> ta_slot account \<le> sc_slot c)
    \<and> start \<le> sc_slot c \<and> ss_status st' = SLive
    \<and> fset (ss_startup_zero_prev st') = {key. \<exists>account. newest_touch (touches es) key = Some account \<and> ta_lamports account = 0}"
proof -
  have live: "ss_status st = SBootstrapping" "ss_startup_slot st \<noteq> 0"
    using assms(2) by (auto simp: finish_bootstrap_def split: if_splits)
  have "window_made [] (new_supply cap pins)" "ss_status (new_supply cap pins) = SBootstrapping"
    by (simp_all add: window_made_def new_supply_def first_anchor_def newest_touch_def)
  note window = window_trace [OF assms(1) this(1) live(1) this(2), unfolded window_made_def append_Nil assms(3) [symmetric]]
  have made: "ss_startup_slot st = start" "ss_total st = capitalization"
    "\<And>key. fmlookup (ss_startup_touched st) key = newest_touch (touches es) key"
    using window by simp_all
  have "key \<in> fmdom' (ss_startup_touched st) \<longleftrightarrow> key \<in> fst ` set (touches es)" for key
  proof
    assume "key \<in> fmdom' (ss_startup_touched st)"
    then obtain account where "newest_touch (touches es) key = Some account" by (auto simp: fmlookup_dom'_iff made(3))
    then show "key \<in> fst ` set (touches es)" using newest_touch_in by force
  next
    assume "key \<in> fst ` set (touches es)"
    then obtain account where "(key, account) \<in> set (touches es)" by (metis imageE prod.collapse)
    from newest_touch_max [OF this] show "key \<in> fmdom' (ss_startup_touched st)" by (auto simp: fmlookup_dom'_iff made(3))
  qed
  then have dom: "fmdom' (ss_startup_touched st) = fst ` set (touches es)" by blast
  have "fm_sum f (ss_startup_touched st) = (\<Sum>key \<in> fst ` set (touches es). case newest_touch (touches es) key of
      Some account \<Rightarrow> f key account | None \<Rightarrow> 0)" for f :: "pubkey \<Rightarrow> touched_account \<Rightarrow> int"
    unfolding fm_sum_def dom [symmetric] made(3) [symmetric]
    by (rule sum.cong) (auto simp: fmlookup_dom'_iff)
  note sum = this
  have "(start, capitalization) \<in> set (anchors es)"
    using first_anchor_in [of "anchors es", folded assms(3)] live(2) made(1) by simp
  moreover have "\<forall>(slot, _) \<in> set (anchors es). slot \<le> start"
    using first_anchor_max [of "anchors es", folded assms(3)] by simp
  ultimately show ?thesis using bootstrap_sum [OF assms(2), unfolded made sum] by blast
qed

text \<open>The bootstrap window never warms the hot cache: whatever calls a new tracker has seen, while
  it is still bootstrapping it holds no cached account, so every account of the first live block is
  a miss.\<close>

theorem bootstrap_never_warms:
  assumes "supply_run (new_supply cap pins) cs st" and "ss_status st = SBootstrapping"
  shows "ha_map (ss_cache st) = fmempty"
proof -
  have "cold st" if "supply_run st0 cs st" "cold st0" for st0 cs st
    using that by induction (auto dest: cold_step)
  moreover have "cold (new_supply cap pins)" by (simp add: cold_def new_supply_def hot_with_capacity_def)
  ultimately show ?thesis using assms by (auto simp: cold_def)
qed

section \<open>The total of a live block\<close>

lemma sum_list_split: "(\<Sum>p\<leftarrow>filter P ps. f p) + (\<Sum>p\<leftarrow>filter (\<lambda>p. \<not> P p) ps. f p) = (\<Sum>p\<leftarrow>ps. f p :: int)"
  by (induction ps) auto

text \<open>C6: For a live block the new total is the old one plus, over all accounts of the block, the new
  balance minus the previous one: the stake map accounts for the keys it handled, the cache, the
  closed set and the miss read for the rest. The commit carries that total, and afterwards the cache
  holds the block's balance of every account it owns and no stake account.\<close>

theorem supply_block_exact:
  assumes "live_block attempt prev slot ps st" and "ss_status st = SLive" and "ss_startup_slot st < slot"
    and "\<And>p. p \<in> set ps \<Longrightarrow> pe_pubkey p |\<notin>| sk_handled stake \<Longrightarrow>
      prev_balance st prev (pe_pubkey p) = ledger (pe_pubkey p)"
    and "sk_delta stake = (\<Sum>p\<leftarrow>filter (\<lambda>p. pe_pubkey p |\<in>| sk_handled stake) ps.
      uint (pe_lamports p) - ledger (pe_pubkey p))"
    and "supply_apply_block attempt slot False ps stake st = (st1, outcome)"
    and "finish_block nc slot outcome True st1 = (st', commit)"
  shows "ss_total st' = word_of_int (uint (ss_total st) + (\<Sum>p\<leftarrow>ps. uint (pe_lamports p) - ledger (pe_pubkey p)))
    \<and> commit = Some \<lparr>sc_slot = slot, sc_total = ss_total st', sc_non_circulating = nc\<rparr>
    \<and> (\<forall>p \<in> set ps. pe_pubkey p |\<notin>| sk_handled stake \<longrightarrow>
        (if pe_owner p = STAKE_PROGRAM_ID then hot_lookup (ss_cache st') (pe_pubkey p) = None
         else hot_lookup (ss_cache st') (pe_pubkey p) = Some (pe_lamports p, slot)))"
proof -
  let ?h = "sk_handled stake"
  let ?d = "\<lambda>p. uint (pe_lamports p) - ledger (pe_pubkey p)"
  obtain st2 touched where b:
    "supply_apply_block attempt slot False ps stake st = (st2, ODelta (sk_delta stake +
       (\<Sum>p\<leftarrow>filter (\<lambda>p. pe_pubkey p |\<notin>| ?h) ps. uint (pe_lamports p) - prev_balance st prev (pe_pubkey p))) touched)"
    "ss_status st2 = ss_status st" "ss_total st2 = ss_total st" "ss_slot st2 = ss_slot st"
    "ss_startup_slot st2 = ss_startup_slot st"
    "\<And>p. p \<in> set ps \<Longrightarrow> pe_pubkey p |\<notin>| ?h \<Longrightarrow> fmlookup (ha_map (ss_cache st2)) (pe_pubkey p)
        = written slot p (fmlookup (ha_map (ss_cache st)) (pe_pubkey p))"
    by (rule live_block_delta [OF assms(1), of stake]) blast
  have "(\<Sum>p\<leftarrow>filter (\<lambda>p. pe_pubkey p |\<notin>| ?h) ps. uint (pe_lamports p) - prev_balance st prev (pe_pubkey p))
      = (\<Sum>p\<leftarrow>filter (\<lambda>p. pe_pubkey p |\<notin>| ?h) ps. ?d p)"
    using assms(4) by (intro arg_cong [of _ _ sum_list] map_cong) auto
  then have "outcome = ODelta (\<Sum>p\<leftarrow>ps. ?d p) touched" "st1 = st2"
    using b(1) assms(5,6) sum_list_split [of ?d "\<lambda>p. pe_pubkey p |\<in>| ?h" ps] by simp_all
  then have fin: "commit_block nc slot (\<Sum>p\<leftarrow>ps. ?d p) st2 = (st', commit)"
    using assms(7) by (simp add: finish_block_def)
  have "max (ss_slot st) slot = slot" "\<not> slot \<le> ss_startup_slot st"
    using assms(1,3) by (simp_all add: live_block_def max_absorb2 less_imp_le)
  then have "st' = st2 \<lparr>ss_slot := slot, ss_total := word_of_int (uint (ss_total st) + (\<Sum>p\<leftarrow>ps. ?d p))\<rparr>"
      "commit = Some (commit_row nc st')"
    using fin b(2-5) assms(2) by (auto simp: commit_block_def Let_def)
  with b(6) show ?thesis
    by (auto simp: commit_row_def hot_lookup_def written_def)
qed

text \<open>After a live block with one miss whose row writes fail, the pin count exceeds the number of
  pinned entries, because the missed key is listed twice among the touched ones; the next due sweep
  then computes a wrapped population and panics under the state lock.\<close>

theorem failed_write_breaks_sweep:
  "\<exists>cs st. supply_run (new_supply 1000000 SUPPLY_FAIL_PIN_CAP) cs st
     \<and> card (pinned_keys (ss_cache st)) < ha_pinned_count (ss_cache st)
     \<and> sweep_due 7 (ss_cache st) \<and> sweep_if_due 7 st = None"
proof -
  let ?st0 = "new_supply 1000000 SUPPLY_FAIL_PIN_CAP"
  define ps where "ps = [\<lparr>pe_pubkey = pk 1, pe_owner = pk 0, pe_lamports = 7\<rparr>]"
  define st1 where "st1 = set_startup_total 5 1000 ?st0"
  define st2 where "st2 = fst (finish_bootstrap None fmempty st1)"
  define ab where "ab = supply_apply_block (\<lambda>_ _ _. Some fmempty) 6 False ps default_block st2"
  define st4 where "st4 = fst (finish_block None 6 (snd ab) False (fst ab))"
  note evals = ps_def st1_def st2_def ab_def st4_def new_supply_def set_startup_total_def
    finish_bootstrap_def supply_apply_block_def probe_block_def probe_pending_def probe_def
    default_block_def fetch_retry_def resolve_miss_def apply_miss_def write_back_def
    hot_with_capacity_def finish_block_def pin_failed_def unpinned_in_def set_pinned_def
    commit_block_def commit_row_def SUPPLY_FAIL_PIN_CAP_def
  have cache: "ha_map (ss_cache st4) = fmupd (pk 1) \<lparr>he_lamports = 7, he_slot = 6, he_pinned = True\<rparr> fmempty"
      "ha_pinned_count (ss_cache st4) = 2" "ha_cap (ss_cache st4) = 1000000"
      "ha_last_sweep_slot (ss_cache st4) = 0"
    by (simp_all add: evals)
  have run: "\<exists>cs. supply_run ?st0 cs st4"
  proof -
    have 1: "supply_run ?st0 [] st1"
      using supply_run.step [OF supply_run.refl, of "Startup 5 1000" ?st0 st1 None] by (simp add: st1_def)
    obtain cs2 where 2: "supply_run ?st0 cs2 st2"
      using supply_run.step [OF 1, of "FinishBootstrap None fmempty" st2 "snd (finish_bootstrap None fmempty st1)"]
      by (auto simp: st2_def)
    obtain cs3 where 3: "supply_run ?st0 cs3 (fst ab)"
      using supply_run.step [OF 2, of "ApplyBlock (\<lambda>_ _ _. Some fmempty) 6 False ps default_block" "fst ab" None]
      by (auto simp: ab_def)
    show ?thesis
      using supply_run.step [OF 3, of "FinishBlock None 6 (snd ab) False" st4
          "snd (finish_block None 6 (snd ab) False (fst ab))"]
      by (auto simp: st4_def)
  qed
  have pinned: "pinned_keys (ss_cache st4) = {pk 1}" by (auto simp: pinned_keys_def cache)
  have len: "hot_len (ss_cache st4) = - 1" by (simp add: hot_len_def cache fm_size_upd)
  have due: "sweep_due 7 (ss_cache st4)" by (simp add: sweep_due_def len cache)
  have "unpinned_slots (ss_cache st4) = []"
    by (simp add: unpinned_slots_def cache fm_entries_map fm_keys_def fm_eval)
  moreover have "\<not> (- 1 :: u64) \<le> 900000" by code_simp
  ultimately have "sweep 7 (ss_cache st4) = None"
    using len by (simp add: sweep_def Let_def hot_len_def cache select_nth_def unpinned_slots_def)
  then have "sweep_if_due 7 st4 = None" using due by (simp add: sweep_if_due_def)
  moreover have "card (pinned_keys (ss_cache st4)) < ha_pinned_count (ss_cache st4)"
    by (simp add: pinned cache(2))
  ultimately show ?thesis using run due by blast
qed

section \<open>The ring\<close>

text \<open>A persisted commit is the newest row the API loads, with its total and its non-circulating
  sum, whenever no row of the table has a larger slot; at most 128 rows are loaded.\<close>

theorem ring_roundtrip:
  assumes "\<And>slot. slot \<in> fmdom' table \<Longrightarrow> slot \<le> sint (sc_slot c)"
  shows "\<exists>rows. load_latest_supply (persist_supply_row True c table) row = Some (rows, load_members row)
    \<and> last rows = \<lparr>sr_slot = sc_slot c, sr_total = sc_total c, sr_non_circulating = sc_non_circulating c\<rparr>
    \<and> length rows \<le> 128"
proof -
  let ?t = "persist_supply_row True c table"
  let ?k = "sint (sc_slot c)"
  have dom: "?k \<in> fmdom' ?t" "\<And>slot. slot \<in> fmdom' ?t \<Longrightarrow> slot \<le> ?k"
    using assms by (auto simp: persist_supply_row_def)
  have ne: "fm_keys ?t \<noteq> []" using dom(1) by (metis empty_iff empty_set set_fm_keys)
  have "last (fm_keys ?t) = ?k"
  proof (rule antisym)
    have "last (fm_keys ?t) \<in> fmdom' ?t" using ne by (metis last_in_set set_fm_keys)
    then show "last (fm_keys ?t) \<le> ?k" by (rule dom(2))
    show "?k \<le> last (fm_keys ?t)" using dom(1) by (intro sorted_last_max) simp_all
  qed
  then have "last (fm_entries ?t) = (?k, sc_total c, sc_non_circulating c)"
    using ne by (simp add: fm_entries_map last_map persist_supply_row_def)
  moreover have nee: "fm_entries ?t \<noteq> []" using ne by (simp add: fm_entries_map)
  ultimately have "rev (fm_entries ?t) = (?k, sc_total c, sc_non_circulating c) # tl (rev (fm_entries ?t))"
    by (metis hd_Cons_tl hd_rev rev_is_Nil_conv)
  then obtain es where es: "rev (fm_entries ?t) = (?k, sc_total c, sc_non_circulating c) # es" by blast
  have "unat SUPPLY_RING_SLOTS = Suc 127" by (simp add: SUPPLY_RING_SLOTS_def)
  then show ?thesis by (simp add: load_latest_supply_def es Let_def)
qed

subsection \<open>Witnesses\<close>

definition wit_ps :: "pending list" where
  "wit_ps = [\<lparr>pe_pubkey = pk 1, pe_owner = pk 0, pe_lamports = 7\<rparr>,
             \<lparr>pe_pubkey = pk 2, pe_owner = STAKE_PROGRAM_ID, pe_lamports = 30\<rparr>]"

definition wit_stake :: stake_block where
  "wit_stake = \<lparr>sk_delta = 10, sk_handled = {|pk 2|}, sk_expired = [], sk_members_changed = False\<rparr>"

definition wit_supply :: supply_state where
  "wit_supply = (new_supply 1000 10) \<lparr>ss_status := SLive, ss_total := 1000, ss_slot := 5, ss_startup_slot := 5\<rparr>"

definition wit_prev :: "(pubkey, u64 \<times> u64) fmap" where
  "wit_prev = fmupd (pk 1) (3, 4) fmempty"

definition wit_ledger :: "pubkey \<Rightarrow> int" where
  "wit_ledger key = (if key = pk 1 then 3 else if key = pk 2 then 20 else 0)"

definition wit_applied :: "supply_state \<times> block_outcome" where
  "wit_applied = supply_apply_block (\<lambda>_ _ _. Some wit_prev) 6 False wit_ps wit_stake wit_supply"

lemma wit_live_block: "live_block (\<lambda>_ _ _. Some wit_prev) wit_prev 6 wit_ps wit_supply"
  by (auto simp: live_block_def wit_ps_def wit_supply_def new_supply_def hot_with_capacity_def wit_prev_def)

theorem supply_block_exact_witness:
  "ss_total (fst (finish_block (Some 9) 6 (snd wit_applied) True (fst wit_applied))) = 1014"
proof -
  have prev: "prev_balance wit_supply wit_prev (pe_pubkey p) = wit_ledger (pe_pubkey p)"
    if "p \<in> set wit_ps" "pe_pubkey p |\<notin>| sk_handled wit_stake" for p
    using that by (auto simp: wit_ps_def wit_stake_def prev_balance_def wit_supply_def new_supply_def
        hot_with_capacity_def db_prev_def wit_prev_def wit_ledger_def)
  have stake: "sk_delta wit_stake = (\<Sum>p\<leftarrow>filter (\<lambda>p. pe_pubkey p |\<in>| sk_handled wit_stake) wit_ps.
      uint (pe_lamports p) - wit_ledger (pe_pubkey p))"
    by (simp add: wit_stake_def wit_ps_def wit_ledger_def)
  let ?st' = "fst (finish_block (Some 9) 6 (snd wit_applied) True (fst wit_applied))"
  have facts: "ss_status wit_supply = SLive" "ss_startup_slot wit_supply < 6" by (simp_all add: wit_supply_def)
  have "ss_total ?st' = word_of_int (uint (ss_total wit_supply)
        + (\<Sum>p\<leftarrow>wit_ps. uint (pe_lamports p) - wit_ledger (pe_pubkey p)))
    \<and> snd (finish_block (Some 9) 6 (snd wit_applied) True (fst wit_applied))
      = Some \<lparr>sc_slot = 6, sc_total = ss_total ?st', sc_non_circulating = Some 9\<rparr>
    \<and> (\<forall>p \<in> set wit_ps. pe_pubkey p |\<notin>| sk_handled wit_stake \<longrightarrow>
        (if pe_owner p = STAKE_PROGRAM_ID then hot_lookup (ss_cache ?st') (pe_pubkey p) = None
         else hot_lookup (ss_cache ?st') (pe_pubkey p) = Some (pe_lamports p, 6)))"
    by (rule supply_block_exact [OF wit_live_block facts _ stake, where ?st1.0 = "fst wit_applied" and outcome = "snd wit_applied"])
      (use prev in \<open>simp_all flip: wit_applied_def\<close>)
  then show ?thesis by (simp add: wit_ps_def wit_ledger_def wit_supply_def)
qed

theorem commits_only_live_witness:
  "supply_step (FinishBlock None 6 (ODelta 4 []) True) wit_supply
     = Some (wit_supply \<lparr>ss_slot := 6, ss_total := 1004\<rparr>,
         Some \<lparr>sc_slot = 6, sc_total = 1004, sc_non_circulating = None\<rparr>)
   \<and> ss_status (wit_supply \<lparr>ss_slot := 6, ss_total := 1004\<rparr>) = SLive"
proof
  show step: "supply_step (FinishBlock None 6 (ODelta 4 []) True) wit_supply
     = Some (wit_supply \<lparr>ss_slot := 6, ss_total := 1004\<rparr>,
         Some \<lparr>sc_slot = 6, sc_total = 1004, sc_non_circulating = None\<rparr>)"
    by (simp add: finish_block_def commit_block_def commit_row_def wit_supply_def max_def)
  show "ss_status (wit_supply \<lparr>ss_slot := 6, ss_total := 1004\<rparr>) = SLive"
    using commits_only_live [OF step] by blast
qed

theorem stale_is_final_witness:
  "ss_status (fst (finish_block None 9 (ODelta 4 []) True (wit_supply \<lparr>ss_status := SStale\<rparr>))) = SStale"
proof -
  have "supply_run (wit_supply \<lparr>ss_status := SStale\<rparr>)
      ([] @ (case snd (finish_block None 9 (ODelta 4 []) True (wit_supply \<lparr>ss_status := SStale\<rparr>)) of Some c \<Rightarrow> [c] | None \<Rightarrow> []))
      (fst (finish_block None 9 (ODelta 4 []) True (wit_supply \<lparr>ss_status := SStale\<rparr>)))"
    by (rule supply_run.step [OF supply_run.refl, where e = "FinishBlock None 9 (ODelta 4 []) True"]) simp
  from stale_is_final [OF this] show ?thesis by simp
qed

definition wit_touch :: "pending list" where
  "wit_touch = [\<lparr>pe_pubkey = pk 1, pe_owner = pk 2, pe_lamports = 8\<rparr>]"

lemma bootstrap_total_witness:
  "\<exists>st st' c. supply_trace [Startup 5 1000, ApplyBlock (\<lambda>_ _ _. None) 6 False wit_touch wit_stake] (new_supply 10 10) = Some st
     \<and> finish_bootstrap None (fmupd (pk 1) 3 fmempty) st = (st', Some c) \<and> sc_total c = 1005"
proof -
  let ?es = "[Startup 5 1000, ApplyBlock (\<lambda>_ _ _. None) 6 False wit_touch wit_stake]"
  let ?st = "record_touch 6 (hd wit_touch) ((new_supply 10 10) \<lparr>ss_startup_slot := 5, ss_total := 1000\<rparr>)"
  have trace: "supply_trace ?es (new_supply 10 10) = Some ?st"
    by (simp add: set_startup_total_def new_supply_def apply_block_boot_state wit_touch_def)
  have "ss_status ?st = SBootstrapping" "ss_startup_slot ?st = 5" "\<not> ss_bootstrap_failed ?st"
    "ss_startup_touched ?st = fmupd (pk 1) \<lparr>ta_slot = 6, ta_lamports = 8\<rparr> fmempty"
    by (simp_all add: record_touch_def new_supply_def wit_touch_def Let_def)
  then obtain st' c where flip: "finish_bootstrap None (fmupd (pk 1) 3 fmempty) ?st = (st', Some c)"
    by (simp add: finish_bootstrap_def fm_entries_map fm_keys_def fm_eval Let_def)
  have "(5, 1000) = first_anchor (anchors ?es)" by (simp add: first_anchor_def)
  moreover have "touches ?es = [(pk 1, \<lparr>ta_slot = 6, ta_lamports = 8\<rparr>)]" by (simp add: wit_touch_def)
  ultimately have "sc_total c = 1005"
    using bootstrap_total [OF trace flip, of 5 1000] by (simp add: newest_touch_def)
  with trace flip show ?thesis by blast
qed

theorem bootstrap_never_warms_witness:
  "ha_map (ss_cache (fst (supply_apply_block (\<lambda>_ _ _. Some wit_prev) 6 False wit_ps wit_stake (new_supply 10 10)))) = fmempty"
proof (rule bootstrap_never_warms)
  show "supply_run (new_supply 10 10) ([] @ (case None of Some c \<Rightarrow> [c] | None \<Rightarrow> []))
      (fst (supply_apply_block (\<lambda>_ _ _. Some wit_prev) 6 False wit_ps wit_stake (new_supply 10 10)))"
    by (rule supply_run.step [OF supply_run.refl,
          where e = "ApplyBlock (\<lambda>_ _ _. Some wit_prev) 6 False wit_ps wit_stake"]) simp
  show "ss_status (fst (supply_apply_block (\<lambda>_ _ _. Some wit_prev) 6 False wit_ps wit_stake (new_supply 10 10)))
      = SBootstrapping"
    by (simp add: apply_block_boot_state new_supply_def)
qed

theorem ring_roundtrip_witness:
  "\<exists>rows. load_latest_supply (persist_supply_row True
       \<lparr>sc_slot = 9, sc_total = 1000, sc_non_circulating = Some 7\<rparr> (fmupd 8 (999, None) fmempty)) None
     = Some (rows, load_members None)
   \<and> last rows = \<lparr>sr_slot = 9, sr_total = 1000, sr_non_circulating = Some 7\<rparr> \<and> length rows \<le> 128"
  using ring_roundtrip [of "fmupd 8 (999, None) fmempty" "\<lparr>sc_slot = 9, sc_total = 1000, sc_non_circulating = Some 7\<rparr>" None]
  by simp

end
