(* ===== verification/Largest_Accounts.thy ===== *)
theory Largest_Accounts
  imports Largest_Records Non_Circulating "HOL-Library.Multiset"
begin

text \<open>
  The in-memory reservoirs of the largest-accounts component
  (\<open>crates/core/src/modules/largest_accounts/tracker.rs\<close> and the commit path of \<open>persist.rs\<close>): the
  top of one mint with its cached minimum and its dropped floor, the update, removal and trimming of
  members, the snapshot seed and its shrinking, the block path, the bootstrap flip and the emission
  of records.

  Hash maps that the code visits in an unspecified order are given as a list of their entries (the
  pending accounts of a block) or visited in ascending key order (the touched mints, the reservoirs),
  where no result depends on the order beyond the order of the emitted records. The \<open>expect\<close> on the
  cached minimum is a panic, \<open>None\<close>.
\<close>

section \<open>Data\<close>

record pending_largest =
  pa_write_version :: u64
  pa_lamports :: u64
  pa_non_circulating :: bool
  pa_token :: "(pubkey \<times> u64) option"

record largest_outcome =
  lo_records :: "mint_record list"
  lo_newly_stale :: "pubkey list"
  lo_cleared :: "pubkey list"

record top_entry =
  te_amount :: u64
  te_slot :: u64
  te_write_version :: u64

record mint_top =
  mt_entries :: "(pubkey, top_entry) fmap"
  mt_cached_min :: "(pubkey \<times> u64) option"
  mt_dropped_floor :: u64
  mt_stale :: bool
  mt_last_record :: "(pubkey \<times> u64) list"

datatype computed_top = Sound "(pubkey \<times> u64) list" | Unsound

record seed_account =
  sa_pubkey :: pubkey
  sa_amount :: u64
  sa_slot :: u64
  sa_write_version :: u64

datatype largest_status = LBootstrapping | LLive

record tracker_state =
  ts_status :: largest_status
  ts_max_applied_slot :: u64
  ts_mints :: "(pubkey, mint_top) fmap"
  ts_member_index :: "(pubkey, pubkey) fmap"
  ts_tombstones :: "(pubkey, u64 \<times> u64) fmap"
  ts_seed_reservoir :: "(pubkey, seed_account list) fmap"

record largest_shared =
  lg_sol_k :: "nat option"
  lg_tracked_mints :: "pubkey fset"
  lg_token_k :: nat

definition default_top :: mint_top where
  "default_top = \<lparr>mt_entries = fmempty, mt_cached_min = None, mt_dropped_floor = 0, mt_stale = False,
     mt_last_record = []\<rparr>"

definition default_outcome :: largest_outcome where
  "default_outcome = \<lparr>lo_records = [], lo_newly_stale = [], lo_cleared = []\<rparr>"

section \<open>One top\<close>

definition amount_keys :: "mint_top \<Rightarrow> (u64 \<times> pubkey) list" where
  "amount_keys tp = sort (map (\<lambda>(key, e). (te_amount e, key)) (fm_entries (mt_entries tp)))"

definition min_entry :: "mint_top \<Rightarrow> (pubkey \<times> u64) option" where
  "min_entry tp = (case amount_keys tp of [] \<Rightarrow> None | (amount, key) # _ \<Rightarrow> Some (key, amount))"

definition refresh_cached_min :: "mint_top \<Rightarrow> mint_top" where
  "refresh_cached_min tp = tp \<lparr>mt_cached_min := min_entry tp\<rparr>"

definition compute_top :: "mint_top \<Rightarrow> computed_top" where
  "compute_top tp =
     (let rows = take PERSISTED_TOP_N (map (\<lambda>(amount, key). (key, amount)) (rev (amount_keys tp)))
      in if length rows < PERSISTED_TOP_N \<and> 0 < mt_dropped_floor tp then Unsound
         else if rows \<noteq> [] \<and> snd (last rows) < mt_dropped_floor tp then Unsound
         else Sound rows)"

definition latch_stale :: "mint_top \<Rightarrow> mint_top \<times> bool" where
  "latch_stale tp =
     (if mt_stale tp then (tp, False)
      else (tp \<lparr>mt_stale := True, mt_last_record := []\<rparr>, True))"

text \<open>The match on \<open>cached_min\<close> after an entry was written that was not the minimum.\<close>

definition lower_min :: "pubkey \<Rightarrow> u64 \<Rightarrow> mint_top \<Rightarrow> mint_top" where
  "lower_min key amount tp =
     (case mt_cached_min tp of
        Some (min_key, min_amount) \<Rightarrow>
          if (amount, key) < (min_amount, min_key) then tp \<lparr>mt_cached_min := Some (key, amount)\<rparr> else tp
      | None \<Rightarrow> tp \<lparr>mt_cached_min := Some (key, amount)\<rparr>)"

section \<open>Members\<close>

text \<open>The operations thread the state and the set of touched mints.\<close>

type_synonym touched_state = "tracker_state \<times> pubkey fset"

definition record_tombstone :: "pubkey \<Rightarrow> u64 \<Rightarrow> u64 \<Rightarrow> tracker_state \<Rightarrow> tracker_state" where
  "record_tombstone key slot write_version st =
     (let current = (case fmlookup (ts_tombstones st) key of None \<Rightarrow> (slot, write_version) | Some t \<Rightarrow> t)
      in st \<lparr>ts_tombstones := fmupd key
               (if current < (slot, write_version) then (slot, write_version) else current)
               (ts_tombstones st)\<rparr>)"

definition put_top :: "pubkey \<Rightarrow> mint_top \<Rightarrow> tracker_state \<Rightarrow> tracker_state" where
  "put_top mint tp st = st \<lparr>ts_mints := fmupd mint tp (ts_mints st)\<rparr>"

definition unindex :: "pubkey \<Rightarrow> pubkey \<Rightarrow> tracker_state \<Rightarrow> tracker_state" where
  "unindex mint key st =
     (if is_sentinel mint then st else st \<lparr>ts_member_index := fmdrop key (ts_member_index st)\<rparr>)"

definition index_member :: "pubkey \<Rightarrow> pubkey \<Rightarrow> tracker_state \<Rightarrow> tracker_state" where
  "index_member mint key st =
     (if is_sentinel mint then st else st \<lparr>ts_member_index := fmupd key mint (ts_member_index st)\<rparr>)"

definition remove_member ::
  "pubkey \<Rightarrow> pubkey \<Rightarrow> u64 \<Rightarrow> u64 \<Rightarrow> touched_state \<Rightarrow> touched_state" where
  "remove_member mint key slot write_version = (\<lambda>(st, touched).
     (case fmlookup (ts_mints st) mint of
        None \<Rightarrow> (st, touched)
      | Some tp \<Rightarrow>
          (case fmlookup (mt_entries tp) key of
             None \<Rightarrow> (st, touched)
           | Some entry \<Rightarrow>
               if (te_slot entry, te_write_version entry) < (slot, write_version)
               then
                 let tp = tp \<lparr>mt_entries := fmdrop key (mt_entries tp)\<rparr>;
                     tp = (if map_option fst (mt_cached_min tp) = Some key
                            then refresh_cached_min tp else tp)
                 in (unindex mint key (put_top mint tp st), finsert mint touched)
               else (st, touched))))"

definition raise_floor :: "pubkey \<Rightarrow> u64 \<Rightarrow> mint_top \<Rightarrow> touched_state \<Rightarrow> touched_state" where
  "raise_floor mint amount tp = (\<lambda>(st, touched).
     if mt_dropped_floor tp < amount
     then (put_top mint (tp \<lparr>mt_dropped_floor := amount\<rparr>) st, finsert mint touched)
     else (st, touched))"

definition apply_update ::
  "pubkey \<Rightarrow> pubkey \<Rightarrow> u64 \<Rightarrow> u64 \<Rightarrow> u64 \<Rightarrow> bool \<Rightarrow> bool \<Rightarrow> nat \<Rightarrow> touched_state \<Rightarrow> touched_state option" where
  "apply_update mint key amount slot write_version bootstrapping old_block k = (\<lambda>(st, touched).
     (let entry = \<lparr>te_amount = amount, te_slot = slot, te_write_version = write_version\<rparr> in
      if bootstrapping \<and> (case fmlookup (ts_tombstones st) key of
           Some tombstone \<Rightarrow> (slot, write_version) \<le> tombstone | None \<Rightarrow> False)
      then Some (st, touched)
      else
        (case fmlookup (ts_mints st) mint of
           None \<Rightarrow> Some (st, touched)
         | Some tp \<Rightarrow>
             (case fmlookup (mt_entries tp) key of
                Some old \<Rightarrow>
                  if (te_slot old, te_write_version old) < (slot, write_version)
                  then
                    let was_min = (map_option fst (mt_cached_min tp) = Some key);
                        tp = tp \<lparr>mt_entries := fmupd key entry (mt_entries tp)\<rparr>;
                        tp = (if was_min then refresh_cached_min tp else lower_min key amount tp)
                    in Some (put_top mint tp st, finsert mint touched)
                  else Some (st, touched)
              | None \<Rightarrow>
                  if old_block then Some (raise_floor mint amount tp (st, touched))
                  else if \<not> bootstrapping \<and> k \<le> fm_size (mt_entries tp)
                  then
                    (case mt_cached_min tp of
                       None \<Rightarrow> None
                     | Some (min_key, min_amount) \<Rightarrow>
                         if amount \<le> min_amount then Some (raise_floor mint amount tp (st, touched))
                         else
                           let tp = tp \<lparr>mt_entries := fmupd key entry (fmdrop min_key (mt_entries tp)),
                                          mt_dropped_floor := max (mt_dropped_floor tp) min_amount\<rparr>
                           in Some (index_member mint key
                                      (put_top mint (refresh_cached_min tp) (unindex mint min_key st)),
                                    finsert mint touched))
                  else
                    let tp = tp \<lparr>mt_entries := fmupd key entry (mt_entries tp)\<rparr>
                    in Some (index_member mint key (put_top mint (lower_min key amount tp) st),
                             finsert mint touched)))))"

definition drop_victim :: "pubkey \<Rightarrow> u64 \<times> pubkey \<Rightarrow> tracker_state \<times> mint_top \<Rightarrow> tracker_state \<times> mint_top" where
  "drop_victim mint = (\<lambda>(amount, key) (st, tp).
     (unindex mint key st,
      tp \<lparr>mt_entries := fmdrop key (mt_entries tp), mt_dropped_floor := max (mt_dropped_floor tp) amount\<rparr>))"

definition trim :: "pubkey \<Rightarrow> nat \<Rightarrow> tracker_state \<Rightarrow> tracker_state" where
  "trim mint k st =
     (case fmlookup (ts_mints st) mint of
        None \<Rightarrow> st
      | Some tp \<Rightarrow>
          if fm_size (mt_entries tp) \<le> k then st
          else
            let victims = take (fm_size (mt_entries tp) - k) (amount_keys tp);
                (st, tp) = fold (drop_victim mint) victims (st, tp)
            in put_top mint (refresh_cached_min tp) st)"

definition emit :: "u64 \<Rightarrow> pubkey \<Rightarrow> tracker_state \<times> largest_outcome \<Rightarrow> tracker_state \<times> largest_outcome" where
  "emit slot mint = (\<lambda>(st, outcome).
     (case fmlookup (ts_mints st) mint of
        None \<Rightarrow> (st, outcome)
      | Some tp \<Rightarrow>
          (case compute_top tp of
             Unsound \<Rightarrow>
               let (tp, latched) = latch_stale tp
               in (put_top mint tp st,
                   if latched then outcome \<lparr>lo_newly_stale := lo_newly_stale outcome @ [mint]\<rparr> else outcome)
           | Sound rows \<Rightarrow>
               let tp = tp \<lparr>mt_stale := False\<rparr>
               in if rows \<noteq> mt_last_record tp
                  then (put_top mint (tp \<lparr>mt_last_record := rows\<rparr>) st,
                        if rows = [] then outcome \<lparr>lo_cleared := lo_cleared outcome @ [mint]\<rparr>
                        else outcome \<lparr>lo_records := lo_records outcome @
                               [\<lparr>mr_mint = mint, mr_slot = slot, mr_rows = rows\<rparr>]\<rparr>)
                  else (put_top mint tp st, outcome))))"

text \<open>Folding operations that may panic.\<close>

fun fold_option :: "('a \<Rightarrow> 's \<Rightarrow> 's option) \<Rightarrow> 'a list \<Rightarrow> 's \<Rightarrow> 's option" where
  "fold_option f [] s = Some s"
| "fold_option f (x # xs) s = (case f x s of None \<Rightarrow> None | Some s \<Rightarrow> fold_option f xs s)"

definition U64_MAX :: u64 where "U64_MAX = - 1"

definition seed_class_sentinels ::
  "non_circulating_balance list \<Rightarrow> nat \<Rightarrow> touched_state \<Rightarrow> touched_state option" where
  "seed_class_sentinels balances k s =
     (let members = nb_pubkey ` set balances in
      case fold_option (\<lambda>b s.
             let s = remove_member CIRCULATING_SENTINEL_MINT (nb_pubkey b) (nb_slot b) U64_MAX s
             in if nb_lamports b = 0 then Some s
                else apply_update NON_CIRCULATING_SENTINEL_MINT (nb_pubkey b) (nb_lamports b) (nb_slot b)
                       U64_MAX False False k s) balances s of
        None \<Rightarrow> None
      | Some (st, touched) \<Rightarrow>
          (case fmlookup (ts_mints st) SOL_SENTINEL_MINT of
             None \<Rightarrow> Some (st, touched)
           | Some sol \<Rightarrow>
               let candidates = filter (\<lambda>(key, _). key \<notin> members) (fm_entries (mt_entries sol));
                   st = (case fmlookup (ts_mints st) CIRCULATING_SENTINEL_MINT of
                           None \<Rightarrow> st
                         | Some tp \<Rightarrow> put_top CIRCULATING_SENTINEL_MINT
                             (tp \<lparr>mt_dropped_floor := mt_dropped_floor sol\<rparr>) st)
               in fold_option (\<lambda>(key, e). apply_update CIRCULATING_SENTINEL_MINT key (te_amount e)
                      (te_slot e) (te_write_version e) False False k) candidates (st, touched)))"

section \<open>The snapshot seed\<close>

record largest_seed =
  sd_sol_k :: "nat option"
  sd_token_k :: nat
  sd_tracked_mints :: "pubkey fset"
  sd_mints :: "(pubkey, seed_account list) fmap"
  sd_closes :: "(pubkey \<times> u64 \<times> u64) list"

definition k_of :: "largest_seed \<Rightarrow> pubkey \<Rightarrow> nat option" where
  "k_of seed mint = (if is_sentinel mint then sd_sol_k seed else Some (sd_token_k seed))"

text \<open>\<open>dedup_by_key\<close>: of consecutive entries with one key the first stays.\<close>

function dedup_seed :: "seed_account list \<Rightarrow> seed_account list" where
  "dedup_seed [] = []"
| "dedup_seed (x # xs) = x # dedup_seed (dropWhile (\<lambda>y. sa_pubkey y = sa_pubkey x) xs)"
  by pat_completeness auto

termination dedup_seed
  by (relation "measure length") (auto simp: length_dropWhile_le less_Suc_eq_le)

definition newest_first :: "seed_account list \<Rightarrow> seed_account list" where
  "newest_first entries =
     sort_key (\<lambda>e. sa_pubkey e)
       (rev (sort_key (\<lambda>e. (sa_slot e, sa_write_version e, sa_amount e)) entries))"

definition shrink :: "nat \<Rightarrow> seed_account list \<Rightarrow> seed_account list" where
  "shrink k entries =
     take k (rev (sort_key (\<lambda>e. (sa_amount e, sa_pubkey e)) (dedup_seed (newest_first entries))))"

definition observe ::
  "pubkey \<Rightarrow> pubkey \<Rightarrow> u64 \<Rightarrow> u64 \<Rightarrow> u64 \<Rightarrow> largest_seed \<Rightarrow> largest_seed" where
  "observe mint key amount slot write_version seed =
     (case k_of seed mint of
        None \<Rightarrow> seed
      | Some k \<Rightarrow>
          let entries = (case fmlookup (sd_mints seed) mint of None \<Rightarrow> [] | Some es \<Rightarrow> es)
                @ [\<lparr>sa_pubkey = key, sa_amount = amount, sa_slot = slot, sa_write_version = write_version\<rparr>];
              entries = (if k * 8 \<le> length entries then shrink k entries else entries)
          in seed \<lparr>sd_mints := fmupd mint entries (sd_mints seed)\<rparr>)"

definition observe_close :: "pubkey \<Rightarrow> u64 \<Rightarrow> u64 \<Rightarrow> largest_seed \<Rightarrow> largest_seed" where
  "observe_close key slot write_version seed = seed \<lparr>sd_closes := sd_closes seed @ [(key, slot, write_version)]\<rparr>"

text \<open>The mint and the amount of a token account of a tracked mint.\<close>

definition token_balance :: "pubkey fset \<Rightarrow> bool \<Rightarrow> u8 list \<Rightarrow> (pubkey \<times> u64) option" where
  "token_balance tracked token_owned data =
     (if token_owned \<and> 72 \<le> length data
      then case try_from (take 32 data) of
             None \<Rightarrow> None
           | Some mint \<Rightarrow>
               if mint |\<in>| tracked then Some (mint, from_le_bytes (take 8 (drop 64 data))) else None
      else None)"

definition observe_snapshot_account ::
  "pubkey \<Rightarrow> pubkey \<Rightarrow> u64 \<Rightarrow> u8 list \<Rightarrow> u64 \<Rightarrow> u64 \<Rightarrow> largest_seed \<Rightarrow> largest_seed" where
  "observe_snapshot_account key owner lamports data slot write_version seed =
     (if lamports = 0 then observe_close key slot write_version seed
      else
        let seed = observe SOL_SENTINEL_MINT key lamports slot write_version seed
        in case token_balance (sd_tracked_mints seed)
                  (owner = TOKEN_PROGRAM_ID \<or> owner = TOKEN_2022_PROGRAM_ID) data of
             None \<Rightarrow> seed
           | Some (mint, amount) \<Rightarrow> observe mint key amount slot write_version seed)"

section \<open>The tracker\<close>

definition k_for :: "largest_shared \<Rightarrow> pubkey \<Rightarrow> nat" where
  "k_for shared mint =
     (if is_sentinel mint then (case lg_sol_k shared of None \<Rightarrow> 0 | Some k \<Rightarrow> k) else lg_token_k shared)"

definition new_largest ::
  "nat option \<Rightarrow> (pubkey fset \<times> nat) option \<Rightarrow> (largest_shared \<times> tracker_state) option" where
  "new_largest sol_k token =
     (if sol_k = None \<and> token = None then None
      else
        let (tracked, token_k) = (case token of None \<Rightarrow> ({||}, PERSISTED_TOP_N) | Some t \<Rightarrow> t);
            mints = fold (\<lambda>mint. fmupd mint default_top) (sorted_list_of_fset tracked) fmempty;
            mints = (if sol_k = None then mints
                     else fmupd NON_CIRCULATING_SENTINEL_MINT default_top
                       (fmupd CIRCULATING_SENTINEL_MINT default_top
                         (fmupd SOL_SENTINEL_MINT default_top mints)))
        in Some (\<lparr>lg_sol_k = sol_k, lg_tracked_mints = tracked, lg_token_k = token_k\<rparr>,
                 \<lparr>ts_status = LBootstrapping, ts_max_applied_slot = 0, ts_mints = mints,
                  ts_member_index = fmempty, ts_tombstones = fmempty, ts_seed_reservoir = fmempty\<rparr>))"

definition new_seed :: "largest_shared \<Rightarrow> largest_seed" where
  "new_seed shared = \<lparr>sd_sol_k = lg_sol_k shared, sd_token_k = lg_token_k shared,
     sd_tracked_mints = lg_tracked_mints shared, sd_mints = fmempty, sd_closes = []\<rparr>"

definition remove_sentinels :: "pubkey \<Rightarrow> u64 \<Rightarrow> u64 \<Rightarrow> touched_state \<Rightarrow> touched_state" where
  "remove_sentinels key slot write_version s =
     fold (\<lambda>sentinel. remove_member sentinel key slot write_version)
       [SOL_SENTINEL_MINT, CIRCULATING_SENTINEL_MINT, NON_CIRCULATING_SENTINEL_MINT] s"

definition merge_close :: "pubkey \<times> u64 \<times> u64 \<Rightarrow> touched_state \<Rightarrow> touched_state" where
  "merge_close = (\<lambda>(key, slot, write_version) (st, touched).
     let st = record_tombstone key slot write_version
                (st \<lparr>ts_max_applied_slot := max (ts_max_applied_slot st) slot\<rparr>);
         s = (case fmlookup (ts_member_index st) key of
                None \<Rightarrow> (st, touched)
              | Some mint \<Rightarrow> remove_member mint key slot write_version (st, touched))
     in remove_sentinels key slot write_version s)"

definition merge_entries ::
  "largest_shared \<Rightarrow> pubkey \<times> seed_account list \<Rightarrow> tracker_state \<Rightarrow> tracker_state" where
  "merge_entries shared = (\<lambda>(mint, entries) st.
     let reservoir = (case fmlookup (ts_seed_reservoir st) mint of None \<Rightarrow> [] | Some r \<Rightarrow> r) @ entries
     in st \<lparr>ts_max_applied_slot := fold (\<lambda>a m. max m (sa_slot a)) entries (ts_max_applied_slot st),
            ts_seed_reservoir := fmupd mint (shrink (k_for shared mint) reservoir) (ts_seed_reservoir st)\<rparr>)"

definition merge_seed :: "largest_shared \<Rightarrow> largest_seed \<Rightarrow> tracker_state \<Rightarrow> tracker_state" where
  "merge_seed shared seed st =
     (if ts_status st \<noteq> LBootstrapping then st
      else fold (merge_entries shared) (fm_entries (sd_mints seed))
             (fst (fold merge_close (sd_closes seed) (st, {||}))))"

text \<open>One account of a block: the token top, the SOL top and the class tops.\<close>

definition apply_pending ::
  "largest_shared \<Rightarrow> u64 \<Rightarrow> bool \<Rightarrow> bool \<Rightarrow> pubkey \<times> pending_largest \<Rightarrow> touched_state \<Rightarrow> touched_state option" where
  "apply_pending shared slot bootstrapping old_block = (\<lambda>(key, update) s.
     (let wv = pa_write_version update;
          s = (case fmlookup (ts_member_index (fst s)) key of
                 None \<Rightarrow> s
               | Some current_mint \<Rightarrow>
                   if map_option fst (pa_token update) \<noteq> Some current_mint
                   then remove_member current_mint key slot wv s else s)
      in if pa_lamports update = 0
         then Some (remove_sentinels key slot wv
                (if bootstrapping then (record_tombstone key slot wv (fst s), snd s) else s))
         else
           let (class_mint, other_class_mint) =
                 (if pa_non_circulating update
                  then (NON_CIRCULATING_SENTINEL_MINT, CIRCULATING_SENTINEL_MINT)
                  else (CIRCULATING_SENTINEL_MINT, NON_CIRCULATING_SENTINEL_MINT));
               upd = (\<lambda>mint amount s. apply_update mint key amount slot wv bootstrapping old_block
                        (k_for shared mint) s)
           in Option.bind (case pa_token update of
                             None \<Rightarrow> Some s
                           | Some (mint, amount) \<Rightarrow> upd mint amount s) (\<lambda>s.
              Option.bind (upd SOL_SENTINEL_MINT (pa_lamports update) s) (\<lambda>s.
              upd class_mint (pa_lamports update)
                (remove_member other_class_mint key slot wv s)))))"

definition largest_apply_block ::
  "largest_shared \<Rightarrow> u64 \<Rightarrow> (pubkey \<times> pending_largest) list \<Rightarrow> tracker_state \<Rightarrow>
   (tracker_state \<times> largest_outcome) option" where
  "largest_apply_block shared slot pendings st =
     (let bootstrapping = (ts_status st = LBootstrapping);
          old_block = (\<not> bootstrapping \<and> slot \<le> ts_max_applied_slot st);
          st = st \<lparr>ts_max_applied_slot := max (ts_max_applied_slot st) slot\<rparr>
      in case fold_option (apply_pending shared slot bootstrapping old_block) pendings (st, {||}) of
           None \<Rightarrow> None
         | Some (st, touched) \<Rightarrow>
             if bootstrapping then Some (st, default_outcome)
             else Some (fold (emit (ts_max_applied_slot st)) (sorted_list_of_fset touched) (st, default_outcome)))"

definition largest_finish_bootstrap ::
  "largest_shared \<Rightarrow> non_circulating_balance list \<Rightarrow> tracker_state \<Rightarrow>
   (tracker_state \<times> largest_outcome) option" where
  "largest_finish_bootstrap shared balances st =
     (if ts_status st \<noteq> LBootstrapping then Some (st, default_outcome)
      else
        let reservoir = ts_seed_reservoir st;
            st = st \<lparr>ts_seed_reservoir := fmempty\<rparr>
        in case fold_option (\<lambda>(mint, accounts). fold_option (\<lambda>a. apply_update mint (sa_pubkey a)
                  (sa_amount a) (sa_slot a) (sa_write_version a) True False (k_for shared mint)) accounts)
               (fm_entries reservoir) (st, {||}) of
             None \<Rightarrow> None
           | Some s \<Rightarrow>
               (case (case lg_sol_k shared of
                        None \<Rightarrow> Some s
                      | Some k \<Rightarrow> seed_class_sentinels balances k s) of
                  None \<Rightarrow> None
                | Some (st, _) \<Rightarrow>
                    let st = st \<lparr>ts_tombstones := fmempty, ts_status := LLive\<rparr>;
                        slot = ts_max_applied_slot st
                    in Some (fold (\<lambda>mint (st, outcome). emit slot mint (trim mint (k_for shared mint) st, outcome))
                               (fm_keys (ts_mints st)) (st, default_outcome))))"

definition mark_mint_stale :: "pubkey \<Rightarrow> tracker_state \<Rightarrow> tracker_state \<times> bool" where
  "mark_mint_stale mint st =
     (case fmlookup (ts_mints st) mint of
        None \<Rightarrow> (st, False)
      | Some tp \<Rightarrow> (put_top mint (fst (latch_stale tp)) st, snd (latch_stale tp)))"

definition stale_count :: "tracker_state \<Rightarrow> nat" where
  "stale_count st = length (filter (\<lambda>(_, tp). mt_stale tp) (fm_entries (ts_mints st)))"

definition pending_of ::
  "pubkey fset \<Rightarrow> nc_state option \<Rightarrow> pubkey \<Rightarrow> grpc_account \<Rightarrow> pending_largest" where
  "pending_of tracked nc key account =
     \<lparr>pa_write_version = ga_write_version account, pa_lamports = ga_lamports account,
      pa_non_circulating = is_non_circulating key nc,
      pa_token = token_balance tracked (ga_owner account = to_bytes TOKEN_PROGRAM_ID
        \<or> ga_owner account = to_bytes TOKEN_2022_PROGRAM_ID) (ga_data account)\<rparr>"

definition add_pending ::
  "pubkey fset \<Rightarrow> nc_state option \<Rightarrow> grpc_account \<Rightarrow> (pubkey, pending_largest) fmap \<Rightarrow>
   (pubkey, pending_largest) fmap" where
  "add_pending tracked nc account pendings =
     (case try_from (ga_pubkey account) of
        None \<Rightarrow> pendings
      | Some key \<Rightarrow>
          let update = pending_of tracked nc key account
          in case fmlookup pendings key of
               None \<Rightarrow> fmupd key update pendings
             | Some current \<Rightarrow>
                 if pa_write_version current < pa_write_version update
                 then fmupd key update pendings else pendings)"

definition add_expired ::
  "pubkey \<times> u64 \<Rightarrow> (pubkey, pending_largest) fmap \<Rightarrow> (pubkey, pending_largest) fmap" where
  "add_expired = (\<lambda>(key, lamports) pendings.
     (case fmlookup pendings key of
        Some _ \<Rightarrow> pendings
      | None \<Rightarrow> fmupd key \<lparr>pa_write_version = 0, pa_lamports = lamports, pa_non_circulating = False,
                  pa_token = None\<rparr> pendings))"

definition largest_build_pending ::
  "largest_shared option \<Rightarrow> grpc_account list \<Rightarrow> nc_state option \<Rightarrow> (pubkey \<times> u64) list \<Rightarrow>
   (pubkey, pending_largest) fmap" where
  "largest_build_pending shared accounts nc expired =
     (case shared of
        None \<Rightarrow> fmempty
      | Some shared \<Rightarrow>
          fold add_expired expired (fold (add_pending (lg_tracked_mints shared) nc) accounts fmempty))"

section \<open>Committing to the table\<close>

text \<open>\<open>persist_largest_outcome\<close>: \<open>deletes_ok\<close> and \<open>persist_ok\<close> say which statements succeed.\<close>

definition persist_largest_outcome ::
  "(pubkey \<Rightarrow> bool) \<Rightarrow> bool \<Rightarrow> largest_outcome \<Rightarrow> tracker_state \<times> record_table \<Rightarrow> tracker_state \<times> record_table" where
  "persist_largest_outcome deletes_ok persist_ok outcome = (\<lambda>(st, table).
     (let table = fold (\<lambda>mint t. fst (delete_mint_rows (deletes_ok mint) mint t))
                    (lo_newly_stale outcome @ lo_cleared outcome) table;
          (table, ok) = persist_records persist_ok (lo_records outcome) table
      in if ok then (st, table)
         else fold (\<lambda>r (st, t). (fst (mark_mint_stale (mr_mint r) st),
                 fst (delete_mint_rows (deletes_ok (mr_mint r)) (mr_mint r) t)))
                (lo_records outcome) (st, table)))"

definition largest_commit_block ::
  "largest_shared \<Rightarrow> (pubkey \<Rightarrow> bool) \<Rightarrow> bool \<Rightarrow> u64 \<Rightarrow> (pubkey \<times> pending_largest) list \<Rightarrow>
   tracker_state \<times> record_table \<Rightarrow> (tracker_state \<times> record_table) option" where
  "largest_commit_block shared deletes_ok persist_ok slot pendings = (\<lambda>(st, table).
     (case largest_apply_block shared slot pendings st of
        None \<Rightarrow> None
      | Some (st, outcome) \<Rightarrow> Some (persist_largest_outcome deletes_ok persist_ok outcome (st, table))))"

definition largest_finish_bootstrap_and_persist ::
  "largest_shared \<Rightarrow> bool \<Rightarrow> nc_state option \<Rightarrow> tracker_state \<times> record_table \<Rightarrow>
   (tracker_state \<times> record_table) option" where
  "largest_finish_bootstrap_and_persist shared persist_ok nc = (\<lambda>(st, table).
     (case largest_finish_bootstrap shared (member_balances nc) st of
        None \<Rightarrow> None
      | Some (st, outcome) \<Rightarrow>
          let (table, ok) = persist_records persist_ok (lo_records outcome) table
          in Some (if ok then st
                   else fold (\<lambda>r st. fst (mark_mint_stale (mr_mint r) st)) (lo_records outcome) st, table)))"

text \<open>\<open>from_config\<close>: a section is its \<open>accounts-per-mint\<close> and, for tokens, the tracked mints. The
  outer \<open>None\<close> is a panic.\<close>

definition token_programs_indexed :: "account_selector \<Rightarrow> bool" where
  "token_programs_indexed programs \<longleftrightarrow>
     (sel_include programs = [] \<or>
       TOKEN_PROGRAM_ID \<in> set (sel_include programs) \<and> TOKEN_2022_PROGRAM_ID \<in> set (sel_include programs)) \<and>
     TOKEN_PROGRAM_ID \<notin> set (sel_exclude programs) \<and> TOKEN_2022_PROGRAM_ID \<notin> set (sel_exclude programs)"

definition largest_from_config ::
  "nat option \<Rightarrow> (pubkey fset \<times> nat) option \<Rightarrow> account_selector \<Rightarrow> bool \<Rightarrow> bool \<Rightarrow> record_table \<Rightarrow>
   ((largest_shared \<times> tracker_state) option \<times> record_table) option" where
  "largest_from_config sol token programs has_snapshot db_ok table =
     (if (case sol of None \<Rightarrow> False | Some k \<Rightarrow>
            \<not> supports_simulation programs \<or> \<not> has_snapshot \<or> k < PERSISTED_TOP_N) then None
      else if (case token of None \<Rightarrow> False | Some (tracked, k) \<Rightarrow>
            tracked = {||} \<or> \<not> has_snapshot \<or> k < PERSISTED_TOP_N \<or> \<not> token_programs_indexed programs) then None
      else
        let tracker = new_largest sol token
        in if tracker = None then Some (None, table)
           else if db_ok then Some (tracker, clear_largest_accounts table) else None)"

section \<open>The minimum and the top\<close>

lemma set_amount_keys [simp]:
  "(amount, key) \<in> set (amount_keys tp) \<longleftrightarrow> (\<exists>e. fmlookup (mt_entries tp) key = Some e \<and> te_amount e = amount)"
  by (force simp: amount_keys_def)

lemma sorted_amount_keys [simp]: "sorted (amount_keys tp)"
  by (simp add: amount_keys_def)

lemma length_amount_keys [simp]: "length (amount_keys tp) = fm_size (mt_entries tp)"
  by (simp add: amount_keys_def)

lemma distinct_amount_keys: "distinct (map snd (amount_keys tp))"
proof -
  have "mset (map snd (amount_keys tp)) = mset (map fst (fm_entries (mt_entries tp)))"
    by (simp add: amount_keys_def image_mset.compositionality comp_def split_beta
        del: map_fst_fm_entries)
  moreover have "distinct (map fst (fm_entries (mt_entries tp)))" by simp
  ultimately show ?thesis by (metis mset_eq_imp_distinct_iff)
qed

lemma min_entry_None: "min_entry tp = None \<longleftrightarrow> mt_entries tp = fmempty"
proof -
  have "min_entry tp = None \<longleftrightarrow> amount_keys tp = []"
    by (auto simp: min_entry_def split: list.splits)
  then show ?thesis by (metis fm_size_0_iff length_0_conv length_amount_keys)
qed

lemma min_entry_Some:
  "min_entry tp = Some (key, amount) \<longleftrightarrow>
     (\<exists>e. fmlookup (mt_entries tp) key = Some e \<and> te_amount e = amount) \<and>
     (\<forall>k e. fmlookup (mt_entries tp) k = Some e \<longrightarrow> (amount, key) \<le> (te_amount e, k))"
  (is "_ \<longleftrightarrow> ?in \<and> ?least")
proof
  assume "min_entry tp = Some (key, amount)"
  then obtain rest where ks: "amount_keys tp = (amount, key) # rest"
    by (auto simp: min_entry_def split: list.splits)
  then have "(amount, key) \<in> set (amount_keys tp)" by simp
  moreover have "(amount, key) \<le> x" if "x \<in> set (amount_keys tp)" for x
    using that sorted_amount_keys [of tp] ks by auto
  ultimately show "?in \<and> ?least"
    by (metis set_amount_keys)
next
  assume r: "?in \<and> ?least"
  then have "(amount, key) \<in> set (amount_keys tp)" by simp
  then obtain x rest where ks: "amount_keys tp = x # rest" by (cases "amount_keys tp") auto
  then have "x \<le> (amount, key)"
    using sorted_amount_keys [of tp] \<open>(amount, key) \<in> set (amount_keys tp)\<close> by auto
  moreover have "(amount, key) \<le> x"
  proof -
    have "(fst x, snd x) \<in> set (amount_keys tp)" using ks by simp
    then obtain e where "fmlookup (mt_entries tp) (snd x) = Some e" "te_amount e = fst x"
      by (metis set_amount_keys)
    then show ?thesis using r by (metis prod.collapse)
  qed
  ultimately show "min_entry tp = Some (key, amount)" using ks by (auto simp: min_entry_def)
qed

text \<open>A top is sound for a ledger: its entries are exact, nothing outside exceeds the dropped floor,
  it holds at most \<open>k\<close> entries and its cached minimum is the minimum.\<close>

definition top_sound :: "(pubkey \<Rightarrow> u64) \<Rightarrow> nat \<Rightarrow> mint_top \<Rightarrow> bool" where
  "top_sound ledger k tp \<longleftrightarrow>
     mt_cached_min tp = min_entry tp \<and> fm_size (mt_entries tp) \<le> k \<and>
     (\<forall>key e. fmlookup (mt_entries tp) key = Some e \<longrightarrow> ledger key = te_amount e) \<and>
     (\<forall>key. fmlookup (mt_entries tp) key = None \<longrightarrow> ledger key \<le> mt_dropped_floor tp)"

text \<open>The true top of a ledger: exact rows in descending order of amount and key, at most twenty,
  and no other holder has more than the last row, or anything at all when there are fewer.\<close>

definition is_top :: "(pubkey \<Rightarrow> u64) \<Rightarrow> (pubkey \<times> u64) list \<Rightarrow> bool" where
  "is_top ledger rows \<longleftrightarrow>
     length rows \<le> PERSISTED_TOP_N \<and> distinct (map fst rows) \<and>
     sorted_wrt (\<lambda>(k, a) (k', a'). (a', k') < (a, k)) rows \<and>
     (\<forall>(key, amount) \<in> set rows. ledger key = amount) \<and>
     (\<forall>key. key \<notin> fst ` set rows \<longrightarrow>
        (if length rows = PERSISTED_TOP_N then ledger key \<le> snd (last rows) else ledger key = 0))"

lemma strict_amount_keys: "sorted_wrt (<) (amount_keys tp)"
proof -
  have "distinct (amount_keys tp)" using distinct_amount_keys distinct_map by blast
  then show ?thesis by (simp add: strict_sorted_iff)
qed

lemma compute_top_is_top:
  assumes "top_sound ledger k tp" and "compute_top tp = Sound rows"
  shows "is_top ledger rows"
proof -
  let ?all = "map (\<lambda>(amount, key). (key, amount)) (rev (amount_keys tp))"
  let ?floor = "mt_dropped_floor tp"
  define R where "R = take PERSISTED_TOP_N ?all"
  have "compute_top tp = (if length R < PERSISTED_TOP_N \<and> 0 < ?floor then Unsound
      else if R \<noteq> [] \<and> snd (last R) < ?floor then Unsound else Sound R)"
    unfolding compute_top_def Let_def R_def ..
  then have "rows = R" and few: "length rows < PERSISTED_TOP_N \<Longrightarrow> ?floor = 0"
    and last: "rows \<noteq> [] \<Longrightarrow> ?floor \<le> snd (last rows)"
    using assms(2) by (auto simp: word_gt_0 not_less split: if_splits)
  then have rows: "rows = take PERSISTED_TOP_N ?all" by (simp only: R_def)
  have desc: "sorted_wrt (\<lambda>(k, a) (k', a'). (a', k') < (a, k)) ?all"
  proof -
    have "sorted_wrt (\<lambda>x y. (fst x, snd x) < (fst y, snd y)) (amount_keys tp)"
      using strict_amount_keys [of tp] by (simp only: prod.collapse)
    then show ?thesis by (simp only: sorted_wrt_map sorted_wrt_rev split_beta fst_conv snd_conv)
  qed
  have mem: "(key, amount) \<in> set ?all \<longleftrightarrow> (\<exists>e. fmlookup (mt_entries tp) key = Some e \<and> te_amount e = amount)" for key amount
  proof -
    have "(key, amount) \<in> set ?all \<longleftrightarrow> (amount, key) \<in> set (amount_keys tp)" by force
    then show ?thesis by simp
  qed
  have exact: "ledger key = amount" if "(key, amount) \<in> set ?all" for key amount
    using that assms(1) unfolding mem by (auto simp: top_sound_def)
  define rest where "rest = drop PERSISTED_TOP_N ?all"
  have all: "?all = rows @ rest" by (simp add: rows rest_def)
  have len: "length rows = PERSISTED_TOP_N" if "rest \<noteq> []"
    using that by (simp add: rows rest_def)
  have le: "length rows \<le> PERSISTED_TOP_N" by (simp add: rows)
  have ne: "rows \<noteq> []" if "length rows = PERSISTED_TOP_N" using that by (auto simp: PERSISTED_TOP_N_def)
  have split: "sorted_wrt (\<lambda>(k, a) (k', a'). (a', k') < (a, k)) rows"
    and below: "\<forall>r \<in> set rows. \<forall>x \<in> set rest. (\<lambda>(k, a) (k', a'). (a', k') < (a, k)) r x"
    using desc unfolding all sorted_wrt_append by simp_all
  have outside: "if length rows = PERSISTED_TOP_N then ledger key \<le> snd (last rows) else ledger key = 0"
    if "key \<notin> fst ` set rows" for key
  proof (cases "fmlookup (mt_entries tp) key")
    case None
    then have floor: "ledger key \<le> ?floor" using assms(1) by (simp add: top_sound_def)
    show ?thesis
    proof (cases "length rows = PERSISTED_TOP_N")
      case True
      with floor last [OF ne [OF True]] show ?thesis by simp
    next
      case False
      with le few floor show ?thesis by simp
    qed
  next
    case (Some e)
    then have mem': "(key, te_amount e) \<in> set ?all" unfolding mem by blast
    moreover have "(key, te_amount e) \<notin> set rows" using that by force
    ultimately have rest: "(key, te_amount e) \<in> set rest" unfolding all by simp
    then have "rest \<noteq> []" by auto
    then have full: "length rows = PERSISTED_TOP_N" by (rule len)
    have "(te_amount e, key) < (snd (last rows), fst (last rows))"
      using bspec [OF bspec [OF below last_in_set [OF ne [OF full]]] rest] by (simp only: split_beta fst_conv snd_conv)
    with exact [OF mem'] full show ?thesis by auto
  qed
  have "distinct (map fst rows)"
  proof -
    have "map fst ?all = rev (map snd (amount_keys tp))" by (simp add: rev_map comp_def split_beta)
    then have "distinct (map fst ?all)" using distinct_amount_keys by simp
    then show ?thesis unfolding all by simp
  qed
  moreover have "\<forall>(key, amount) \<in> set rows. ledger key = amount"
    using exact unfolding all by auto
  ultimately show ?thesis
    using outside split le unfolding is_top_def by blast
qed

section \<open>Updating a top\<close>

lemma cached_min_drop:
  assumes "mt_cached_min tp = min_entry tp" and "map_option fst (mt_cached_min tp) \<noteq> Some key"
  shows "refresh_cached_min (tp \<lparr>mt_entries := fmdrop key (mt_entries tp)\<rparr>) =
         tp \<lparr>mt_entries := fmdrop key (mt_entries tp)\<rparr>"
proof -
  have "min_entry (tp \<lparr>mt_entries := fmdrop key (mt_entries tp)\<rparr>) = min_entry tp"
  proof (cases "min_entry tp")
    case None
    then have "mt_entries tp = fmempty" by (simp only: min_entry_None)
    then have "min_entry (tp \<lparr>mt_entries := fmdrop key (mt_entries tp)\<rparr>) = None"
      unfolding min_entry_None by simp
    with None show ?thesis by simp
  next
    case (Some m)
    then obtain mk ma where m: "min_entry tp = Some (mk, ma)" by (cases m) auto
    then have "mk \<noteq> key" using assms by auto
    moreover from m have "\<exists>e. fmlookup (mt_entries tp) mk = Some e \<and> te_amount e = ma"
      and "\<And>k e. fmlookup (mt_entries tp) k = Some e \<Longrightarrow> (ma, mk) \<le> (te_amount e, k)"
      unfolding min_entry_Some by blast+
    ultimately have "min_entry (tp \<lparr>mt_entries := fmdrop key (mt_entries tp)\<rparr>) = Some (mk, ma)"
      unfolding min_entry_Some by simp
    with m show ?thesis by simp
  qed
  then show ?thesis using assms(1) by (simp add: refresh_cached_min_def)
qed

lemma lower_min_refresh:
  assumes "mt_cached_min tp = min_entry tp" and "map_option fst (mt_cached_min tp) \<noteq> Some key"
    and "te_amount e = amount"
  shows "lower_min key amount (tp \<lparr>mt_entries := fmupd key e (mt_entries tp)\<rparr>) =
         refresh_cached_min (tp \<lparr>mt_entries := fmupd key e (mt_entries tp)\<rparr>)"
    (is "lower_min key amount ?tp = _")
proof (cases "min_entry tp")
  case None
  then have "mt_entries tp = fmempty" by (simp add: min_entry_None)
  then have "min_entry ?tp = Some (key, amount)"
    unfolding min_entry_Some using assms(3) by (simp split: if_splits)
  with None assms(1) show ?thesis by (simp add: lower_min_def refresh_cached_min_def)
next
  case (Some m)
  then obtain mk ma where m: "min_entry tp = Some (mk, ma)" by (cases m) auto
  then have ne: "mk \<noteq> key" using assms by auto
  from m have mem: "\<exists>e. fmlookup (mt_entries tp) mk = Some e \<and> te_amount e = ma"
    and least: "\<And>k e. fmlookup (mt_entries tp) k = Some e \<Longrightarrow> (ma, mk) \<le> (te_amount e, k)"
    unfolding min_entry_Some by blast+
  show ?thesis
  proof (cases "(amount, key) < (ma, mk)")
    case True
    have "(amount, key) \<le> (te_amount e', k)" if "fmlookup (mt_entries tp) k = Some e'" for k e'
      using least [OF that] True by (meson less_le_trans less_imp_le)
    then have "min_entry ?tp = Some (key, amount)"
      unfolding min_entry_Some using assms(3) by (simp del: less_eq_prod_simp)
    with True m assms(1) show ?thesis by (simp add: lower_min_def refresh_cached_min_def)
  next
    case False
    then have "(ma, mk) \<le> (amount, key)" by (simp only: not_less)
    with mem least ne assms(3) have "min_entry ?tp = Some (mk, ma)"
      unfolding min_entry_Some by (simp del: less_eq_prod_simp)
    with False m assms(1) show ?thesis
      by (simp add: lower_min_def refresh_cached_min_def del: less_prod_simp)
  qed
qed

lemma min_entry_upd_fields [simp]:
  "min_entry (tp \<lparr>mt_cached_min := c\<rparr>) = min_entry tp"
  "min_entry (tp \<lparr>mt_dropped_floor := f\<rparr>) = min_entry tp"
  "min_entry (tp \<lparr>mt_stale := b\<rparr>) = min_entry tp"
  "min_entry (tp \<lparr>mt_last_record := r\<rparr>) = min_entry tp"
  by (simp_all add: min_entry_def amount_keys_def)

lemma refresh_fields [simp]:
  "mt_entries (refresh_cached_min tp) = mt_entries tp"
  "mt_dropped_floor (refresh_cached_min tp) = mt_dropped_floor tp"
  "mt_stale (refresh_cached_min tp) = mt_stale tp"
  "mt_last_record (refresh_cached_min tp) = mt_last_record tp"
  "mt_cached_min (refresh_cached_min tp) = min_entry tp"
  "min_entry (refresh_cached_min tp) = min_entry tp"
  by (simp_all add: refresh_cached_min_def)

lemma sound_drop:
  assumes "top_sound ledger k tp"
  shows "top_sound (ledger(key := 0)) k
           (refresh_cached_min (tp \<lparr>mt_entries := fmdrop key (mt_entries tp)\<rparr>))"
  using assms by (auto simp: top_sound_def fm_size_drop)

lemma sound_put:
  assumes "top_sound ledger k tp" and "fmlookup (mt_entries tp) key \<noteq> None \<or> fm_size (mt_entries tp) < k"
  shows "top_sound (ledger(key := te_amount e)) k
           (refresh_cached_min (tp \<lparr>mt_entries := fmupd key e (mt_entries tp)\<rparr>))"
  using assms by (auto simp: top_sound_def fm_size_upd)

lemma sound_evict:
  assumes "top_sound ledger k tp" and "fmlookup (mt_entries tp) key = None"
    and "mt_cached_min tp = Some (mk, ma)"
  shows "top_sound (ledger(key := te_amount e)) k
           (refresh_cached_min (tp \<lparr>mt_entries := fmupd key e (fmdrop mk (mt_entries tp)),
              mt_dropped_floor := max (mt_dropped_floor tp) ma\<rparr>))"
proof -
  have "min_entry tp = Some (mk, ma)" using assms by (simp add: top_sound_def)
  then obtain e' where e': "fmlookup (mt_entries tp) mk = Some e'" "te_amount e' = ma"
    unfolding min_entry_Some by blast
  then have "mk \<noteq> key" using assms(2) by auto
  moreover have "mt_entries tp \<noteq> fmempty" using e' by auto
  then have "0 < fm_size (mt_entries tp)" using fm_size_0_iff by blast
  moreover have "ledger mk \<le> ma" using assms(1) e' by (simp add: top_sound_def)
  ultimately show ?thesis
    using assms(1,2) e' by (auto simp: top_sound_def fm_size_upd fm_size_drop le_max_iff_disj)
qed

lemma sound_floor:
  assumes "top_sound ledger k tp" and "fmlookup (mt_entries tp) key = None"
  shows "top_sound (ledger(key := amount)) k (tp \<lparr>mt_dropped_floor := max (mt_dropped_floor tp) amount\<rparr>)"
  using assms by (auto simp: top_sound_def le_max_iff_disj)

section \<open>Updating the tracker\<close>

text \<open>What one operation on the members \<open>keys\<close> leaves alone: the status, every mint that is not
  reported as touched, the flags of every top and the entries of other members, some of which may be
  evicted.\<close>

definition same_but :: "u64 \<Rightarrow> pubkey set \<Rightarrow> mint_top \<Rightarrow> mint_top \<Rightarrow> bool" where
  "same_but slot keys tp tp' \<longleftrightarrow> mt_stale tp' = mt_stale tp \<and> mt_last_record tp' = mt_last_record tp \<and>
     (\<forall>key e. fmlookup (mt_entries tp') key = Some e \<longrightarrow>
        fmlookup (mt_entries tp) key = Some e \<or> key \<in> keys \<and> te_slot e = slot)"

definition leaves_alone :: "u64 \<Rightarrow> pubkey set \<Rightarrow> touched_state \<Rightarrow> touched_state \<Rightarrow> bool" where
  "leaves_alone slot keys = (\<lambda>(st, touched) (st', touched').
     ts_status st' = ts_status st \<and> ts_max_applied_slot st' = ts_max_applied_slot st \<and>
     touched |\<subseteq>| touched' \<and>
     (\<forall>mint. mint |\<notin>| touched' \<longrightarrow> fmlookup (ts_mints st') mint = fmlookup (ts_mints st) mint) \<and>
     (\<forall>mint. rel_option (same_but slot keys) (fmlookup (ts_mints st) mint) (fmlookup (ts_mints st') mint)))"

lemma same_but_refl [simp]: "same_but slot keys tp tp"
  by (simp add: same_but_def)

lemma same_but_trans: "same_but slot keys tp tp' \<Longrightarrow> same_but slot keys' tp' tp'' \<Longrightarrow> same_but slot (keys \<union> keys') tp tp''"
  unfolding same_but_def by (metis UnCI)

lemma leaves_alone_refl [simp]: "leaves_alone slot keys s s"
  by (auto simp: leaves_alone_def intro!: option.rel_refl)

lemma leaves_alone_trans:
  assumes "leaves_alone slot keys s s'" and "leaves_alone slot keys' s' s''"
  shows "leaves_alone slot (keys \<union> keys') s s''"
proof -
  obtain st t st' t' st'' t'' where s: "s = (st, t)" "s' = (st', t')" "s'' = (st'', t'')"
    by (metis surj_pair)
  have "rel_option (same_but slot (keys \<union> keys')) (fmlookup (ts_mints st) mint) (fmlookup (ts_mints st'') mint)" for mint
  proof -
    have "rel_option (same_but slot keys) (fmlookup (ts_mints st) mint) (fmlookup (ts_mints st') mint)"
      and "rel_option (same_but slot keys') (fmlookup (ts_mints st') mint) (fmlookup (ts_mints st'') mint)"
      using assms unfolding leaves_alone_def s by auto
    then have "rel_option (same_but slot keys OO same_but slot keys') (fmlookup (ts_mints st) mint) (fmlookup (ts_mints st'') mint)"
      unfolding option.rel_compp by blast
    then show ?thesis by (rule option.rel_mono_strong) (blast intro: same_but_trans)
  qed
  moreover have "fmlookup (ts_mints st'') mint = fmlookup (ts_mints st) mint" if "mint |\<notin>| t''" for mint
  proof -
    have "t' |\<subseteq>| t''" using assms(2) by (simp add: leaves_alone_def s)
    then have "mint |\<notin>| t'" using that by blast
    then show ?thesis using assms that by (simp add: leaves_alone_def s)
  qed
  ultimately show ?thesis
    using assms unfolding leaves_alone_def s by auto
qed

text \<open>The members of the token tops are indexed by their mint.\<close>

definition members_indexed :: "tracker_state \<Rightarrow> bool" where
  "members_indexed st \<longleftrightarrow> (\<forall>mint tp key. fmlookup (ts_mints st) mint = Some tp \<and> \<not> is_sentinel mint \<and>
     fmlookup (mt_entries tp) key \<noteq> None \<longrightarrow> fmlookup (ts_member_index st) key = Some mint)"

definition indexed :: "tracker_state \<Rightarrow> bool" where
  "indexed st \<longleftrightarrow> members_indexed st \<and>
     (\<forall>key mint. fmlookup (ts_member_index st) key = Some mint \<longrightarrow> \<not> is_sentinel mint)"

text \<open>Every top is sound for its ledger, for a family of ledgers by mint.\<close>

definition tops_sound :: "largest_shared \<Rightarrow> (pubkey \<Rightarrow> pubkey \<Rightarrow> u64) \<Rightarrow> tracker_state \<Rightarrow> bool" where
  "tops_sound shared ledgers st \<longleftrightarrow> indexed st \<and>
     (\<forall>mint tp. fmlookup (ts_mints st) mint = Some tp \<longrightarrow>
        0 < k_for shared mint \<and> top_sound (ledgers mint) (k_for shared mint) tp)"

text \<open>The entry of a member in a top, if it has one, is older than a slot.\<close>

definition older :: "pubkey \<Rightarrow> pubkey \<Rightarrow> u64 \<Rightarrow> tracker_state \<Rightarrow> bool" where
  "older mint key slot st \<longleftrightarrow> (\<forall>tp e. fmlookup (ts_mints st) mint = Some tp \<and>
     fmlookup (mt_entries tp) key = Some e \<longrightarrow> te_slot e < slot)"

lemma put_top_fields [simp]:
  "ts_mints (put_top mint tp st) = fmupd mint tp (ts_mints st)"
  "ts_member_index (put_top mint tp st) = ts_member_index st"
  "ts_status (put_top mint tp st) = ts_status st"
  "ts_max_applied_slot (put_top mint tp st) = ts_max_applied_slot st"
  by (simp_all add: put_top_def)

lemma unindex_fields [simp]:
  "ts_mints (unindex mint key st) = ts_mints st"
  "ts_member_index (unindex mint key st) =
     (if is_sentinel mint then ts_member_index st else fmdrop key (ts_member_index st))"
  "ts_status (unindex mint key st) = ts_status st"
  "ts_max_applied_slot (unindex mint key st) = ts_max_applied_slot st"
  by (simp_all add: unindex_def)

lemma index_member_fields [simp]:
  "ts_mints (index_member mint key st) = ts_mints st"
  "ts_member_index (index_member mint key st) =
     (if is_sentinel mint then ts_member_index st else fmupd key mint (ts_member_index st))"
  "ts_status (index_member mint key st) = ts_status st"
  "ts_max_applied_slot (index_member mint key st) = ts_max_applied_slot st"
  by (simp_all add: index_member_def)

text \<open>A top that lost some members and whose index dropped them.\<close>

lemma members_drop:
  assumes "members_indexed st" and "fmlookup (ts_mints st) mint = Some tp"
    and "fmlookup (mt_entries tp) key \<noteq> None"
    and "\<And>k. fmlookup (mt_entries tp') k \<noteq> None \<Longrightarrow> k \<noteq> key \<and> fmlookup (mt_entries tp) k \<noteq> None"
  shows "members_indexed (unindex mint key (put_top mint tp' st))"
  unfolding members_indexed_def
proof (intro allI impI)
  fix m t k
  assume a: "fmlookup (ts_mints (unindex mint key (put_top mint tp' st))) m = Some t \<and>
    \<not> is_sentinel m \<and> fmlookup (mt_entries t) k \<noteq> None"
  have old: "fmlookup (ts_member_index st) k = Some m"
  proof (cases "m = mint")
    case True
    then have "t = tp'" using a by simp
    then have "fmlookup (mt_entries tp) k \<noteq> None" using a assms(4) by blast
    with assms(1,2) a True show ?thesis unfolding members_indexed_def by blast
  next
    case False
    then have "fmlookup (ts_mints st) m = Some t" using a by simp
    with assms(1) a show ?thesis unfolding members_indexed_def by blast
  qed
  moreover have "k \<noteq> key" if "\<not> is_sentinel mint"
  proof
    assume "k = key"
    moreover have "fmlookup (ts_member_index st) key = Some mint"
      using assms(1-3) that unfolding members_indexed_def by blast
    ultimately have "m = mint" using old by simp
    then have "t = tp'" using a by simp
    then show False using a assms(4) \<open>k = key\<close> by blast
  qed
  ultimately show "fmlookup (ts_member_index (unindex mint key (put_top mint tp' st))) k = Some m"
    by simp
qed

lemma members_keep:
  assumes "members_indexed st" and "fmlookup (ts_mints st) mint = Some tp"
    and "\<And>k. fmlookup (mt_entries tp') k \<noteq> None \<Longrightarrow> fmlookup (mt_entries tp) k \<noteq> None"
  shows "members_indexed (put_top mint tp' st)"
  using assms unfolding members_indexed_def by (auto split: if_splits) blast+

lemma members_add:
  assumes "members_indexed st" and "fmlookup (ts_mints st) mint = Some tp"
    and "\<And>m t. fmlookup (ts_mints st) m = Some t \<Longrightarrow> m \<noteq> mint \<Longrightarrow> \<not> is_sentinel m \<Longrightarrow>
           \<not> is_sentinel mint \<Longrightarrow> fmlookup (mt_entries t) key = None"
    and "\<And>k. fmlookup (mt_entries tp') k \<noteq> None \<Longrightarrow> k = key \<or> fmlookup (mt_entries tp) k \<noteq> None"
  shows "members_indexed (index_member mint key (put_top mint tp' st))"
  unfolding members_indexed_def
proof (intro allI impI)
  fix m t k
  assume a: "fmlookup (ts_mints (index_member mint key (put_top mint tp' st))) m = Some t \<and>
    \<not> is_sentinel m \<and> fmlookup (mt_entries t) k \<noteq> None"
  show "fmlookup (ts_member_index (index_member mint key (put_top mint tp' st))) k = Some m"
  proof (cases "m = mint")
    case True
    then have "k = key \<or> fmlookup (mt_entries tp) k \<noteq> None" using a assms(4) by auto
    with assms(1,2) a True show ?thesis unfolding members_indexed_def by auto
  next
    case False
    then have t: "fmlookup (ts_mints st) m = Some t" using a by simp
    then have "k \<noteq> key" if "\<not> is_sentinel mint" using assms(3) [OF t False _ that] a by auto
    with assms(1) t a show ?thesis unfolding members_indexed_def by auto
  qed
qed

lemma indexed_drop:
  assumes "indexed st" and "fmlookup (ts_mints st) mint = Some tp"
    and "fmlookup (mt_entries tp) key \<noteq> None"
    and "\<And>k. fmlookup (mt_entries tp') k \<noteq> None \<Longrightarrow> k \<noteq> key \<and> fmlookup (mt_entries tp) k \<noteq> None"
  shows "indexed (unindex mint key (put_top mint tp' st))"
  using members_drop [of st mint tp key tp'] assms unfolding indexed_def by (auto split: if_splits)

lemma indexed_keep:
  assumes "indexed st" and "fmlookup (ts_mints st) mint = Some tp"
    and "\<And>k. fmlookup (mt_entries tp') k \<noteq> None \<Longrightarrow> fmlookup (mt_entries tp) k \<noteq> None"
  shows "indexed (put_top mint tp' st)"
  using members_keep [of st mint tp tp'] assms unfolding indexed_def by auto

lemma indexed_add:
  assumes "indexed st" and "fmlookup (ts_mints st) mint = Some tp"
    and "\<And>m t. fmlookup (ts_mints st) m = Some t \<Longrightarrow> m \<noteq> mint \<Longrightarrow> \<not> is_sentinel m \<Longrightarrow>
           \<not> is_sentinel mint \<Longrightarrow> fmlookup (mt_entries t) key = None"
    and "\<And>k. fmlookup (mt_entries tp') k \<noteq> None \<Longrightarrow> k = key \<or> fmlookup (mt_entries tp) k \<noteq> None"
  shows "indexed (index_member mint key (put_top mint tp' st))"
  using members_add [of st mint tp key tp'] assms unfolding indexed_def by (auto split: if_splits)

lemma tops_sound_put:
  assumes "tops_sound shared ledgers st" and "fmlookup (ts_mints st) mint = Some tp"
    and "ts_mints st' = fmupd mint tp' (ts_mints st)" and "indexed st'"
    and "top_sound ledger (k_for shared mint) tp'"
  shows "tops_sound shared (ledgers(mint := ledger)) st'"
  using assms by (auto simp: tops_sound_def)

lemma tops_sound_skip:
  assumes "tops_sound shared ledgers st"
    and "\<And>tp. fmlookup (ts_mints st) mint = Some tp \<Longrightarrow> top_sound ledger (k_for shared mint) tp"
  shows "tops_sound shared (ledgers(mint := ledger)) st"
  using assms by (auto simp: tops_sound_def)

lemma leaves_alone_put:
  assumes "fmlookup (ts_mints st) mint = Some tp" and "ts_mints st' = fmupd mint tp' (ts_mints st)"
    and "same_but slot keys tp tp'" and "ts_status st' = ts_status st"
    and "ts_max_applied_slot st' = ts_max_applied_slot st"
  shows "leaves_alone slot keys (st, touched) (st', finsert mint touched)"
  using assms by (auto simp: leaves_alone_def intro!: option.rel_refl)

lemma remove_member_ok:
  assumes sound: "tops_sound shared ledgers st" and older: "older mint key slot st"
    and s': "s' = remove_member mint key slot wv (st, touched)"
  shows "tops_sound shared (ledgers(mint := (ledgers mint)(key := 0))) (fst s')"
    and "leaves_alone slot {key} (st, touched) s'"
    and "m \<noteq> mint \<Longrightarrow> fmlookup (ts_mints (fst s')) m = fmlookup (ts_mints st) m"
    and "fmlookup (ts_mints (fst s')) mint = Some tp' \<Longrightarrow> fmlookup (mt_entries tp') key = None"
proof -
  have "tops_sound shared (ledgers(mint := (ledgers mint)(key := 0))) (fst s') \<and>
    leaves_alone slot {key} (st, touched) s' \<and>
    (\<forall>m. m \<noteq> mint \<longrightarrow> fmlookup (ts_mints (fst s')) m = fmlookup (ts_mints st) m) \<and>
    (\<forall>tp'. fmlookup (ts_mints (fst s')) mint = Some tp' \<longrightarrow> fmlookup (mt_entries tp') key = None)"
  proof (cases "fmlookup (ts_mints st) mint")
    case None
    then have "s' = (st, touched)" by (simp add: s' remove_member_def)
    then show ?thesis using None sound by (auto intro: tops_sound_skip)
  next
    case (Some tp)
    then have tp: "top_sound (ledgers mint) (k_for shared mint) tp" and ix: "indexed st"
      using sound by (auto simp: tops_sound_def)
    show ?thesis
    proof (cases "fmlookup (mt_entries tp) key")
      case None
      then have "s' = (st, touched)" using Some by (simp add: s' remove_member_def)
      moreover have "top_sound ((ledgers mint)(key := 0)) (k_for shared mint) tp"
        using tp None by (auto simp: top_sound_def)
      ultimately show ?thesis using Some None sound by (auto intro: tops_sound_skip)
    next
      case (Some e)
      let ?tp = "refresh_cached_min (tp \<lparr>mt_entries := fmdrop key (mt_entries tp)\<rparr>)"
      have "(if map_option fst (mt_cached_min tp) = Some key then ?tp
             else tp \<lparr>mt_entries := fmdrop key (mt_entries tp)\<rparr>) = ?tp"
        using tp cached_min_drop [of tp key] by (auto simp: top_sound_def)
      moreover have "te_slot e < slot"
        using older Some \<open>fmlookup (ts_mints st) mint = Some tp\<close> by (simp add: older_def)
      ultimately have res: "s' = (unindex mint key (put_top mint ?tp st), finsert mint touched)"
        using Some \<open>fmlookup (ts_mints st) mint = Some tp\<close>
        by (simp add: s' remove_member_def Let_def)
      have "indexed (fst s')"
        unfolding res fst_conv
        by (rule indexed_drop [OF ix \<open>fmlookup (ts_mints st) mint = Some tp\<close>])
          (use Some in \<open>auto split: if_splits\<close>)
      then have "tops_sound shared (ledgers(mint := (ledgers mint)(key := 0))) (fst s')"
        by (rule tops_sound_put [OF sound \<open>fmlookup (ts_mints st) mint = Some tp\<close>, where tp' = ?tp, rotated])
           (simp_all add: res sound_drop [OF tp])
      moreover have "leaves_alone slot {key} (st, touched) s'"
        unfolding res by (rule leaves_alone_put [OF \<open>fmlookup (ts_mints st) mint = Some tp\<close>, where tp' = ?tp])
          (simp_all add: same_but_def)
      ultimately show ?thesis by (simp add: res)
    qed
  qed
  then show "tops_sound shared (ledgers(mint := (ledgers mint)(key := 0))) (fst s')"
    and "leaves_alone slot {key} (st, touched) s'"
    and "m \<noteq> mint \<Longrightarrow> fmlookup (ts_mints (fst s')) m = fmlookup (ts_mints st) m"
    and "fmlookup (ts_mints (fst s')) mint = Some tp' \<Longrightarrow> fmlookup (mt_entries tp') key = None"
    by auto
qed

text \<open>The three writes of \<open>apply_update\<close>, by what the top becomes.\<close>

lemma apply_update_member:
  assumes "fmlookup (ts_mints st) mint = Some tp" and "fmlookup (mt_entries tp) key = Some old"
    and "te_slot old < slot" and "mt_cached_min tp = min_entry tp"
    and "entry = \<lparr>te_amount = amount, te_slot = slot, te_write_version = wv\<rparr>"
  shows "apply_update mint key amount slot wv False False k (st, touched) =
     Some (put_top mint (refresh_cached_min (tp \<lparr>mt_entries := fmupd key entry (mt_entries tp)\<rparr>)) st,
           finsert mint touched)"
  using assms lower_min_refresh [of tp key entry amount] by (simp add: apply_update_def Let_def)

lemma apply_update_insert:
  assumes "fmlookup (ts_mints st) mint = Some tp" and "fmlookup (mt_entries tp) key = None"
    and "fm_size (mt_entries tp) < k" and "mt_cached_min tp = min_entry tp"
    and "entry = \<lparr>te_amount = amount, te_slot = slot, te_write_version = wv\<rparr>"
  shows "apply_update mint key amount slot wv False False k (st, touched) =
     Some (index_member mint key
            (put_top mint (refresh_cached_min (tp \<lparr>mt_entries := fmupd key entry (mt_entries tp)\<rparr>)) st),
           finsert mint touched)"
proof -
  have "map_option fst (mt_cached_min tp) \<noteq> Some key"
  proof
    assume "map_option fst (mt_cached_min tp) = Some key"
    then obtain a where "min_entry tp = Some (key, a)" using assms(4) by auto
    then show False unfolding min_entry_Some using assms(2) by simp
  qed
  then show ?thesis
    using assms lower_min_refresh [of tp key entry amount] by (simp add: apply_update_def Let_def)
qed

lemma apply_update_full:
  assumes "fmlookup (ts_mints st) mint = Some tp" and "fmlookup (mt_entries tp) key = None"
    and "k \<le> fm_size (mt_entries tp)" and "mt_cached_min tp = Some (mk, ma)"
    and "entry = \<lparr>te_amount = amount, te_slot = slot, te_write_version = wv\<rparr>"
  shows "apply_update mint key amount slot wv False False k (st, touched) =
     Some (if amount \<le> ma
           then if amount \<le> mt_dropped_floor tp then (st, touched)
                else (put_top mint (tp \<lparr>mt_dropped_floor := max (mt_dropped_floor tp) amount\<rparr>) st, finsert mint touched)
           else (index_member mint key (put_top mint
                  (refresh_cached_min (tp \<lparr>mt_entries := fmupd key entry (fmdrop mk (mt_entries tp)),
                     mt_dropped_floor := max (mt_dropped_floor tp) ma\<rparr>)) (unindex mint mk st)),
                 finsert mint touched))"
  using assms
  by (cases "amount \<le> ma"; cases "amount \<le> mt_dropped_floor tp")
     (auto simp: apply_update_def raise_floor_def Let_def max_absorb2 dest: leD)

lemma put_top_unindex:
  "put_top mint tp' (unindex mint key (put_top mint tp st)) = put_top mint tp' (unindex mint key st)"
  by (simp add: put_top_def unindex_def)

text \<open>An update of one member of one top that returned: every top is sound for the ledger in which
  that balance is written, and the rest is left alone.\<close>

definition good_update ::
  "u64 \<Rightarrow> largest_shared \<Rightarrow> (pubkey \<Rightarrow> pubkey \<Rightarrow> u64) \<Rightarrow> pubkey \<Rightarrow> pubkey \<Rightarrow> u64 \<Rightarrow> touched_state \<Rightarrow>
   touched_state option \<Rightarrow> bool" where
  "good_update slot shared ledgers mint key amount s r \<longleftrightarrow> (\<exists>s'. r = Some s' \<and>
     tops_sound shared (ledgers(mint := (ledgers mint)(key := amount))) (fst s') \<and>
     leaves_alone slot {key} s s' \<and>
     (\<forall>m. m \<noteq> mint \<longrightarrow> fmlookup (ts_mints (fst s')) m = fmlookup (ts_mints (fst s)) m))"

lemma good_skip:
  assumes "tops_sound shared ledgers st"
    and "\<And>tp. fmlookup (ts_mints st) mint = Some tp \<Longrightarrow>
           top_sound ((ledgers mint)(key := amount)) (k_for shared mint) tp"
  shows "good_update slot shared ledgers mint key amount (st, touched) (Some (st, touched))"
  using tops_sound_skip [OF assms] by (simp add: good_update_def)

lemma good_put:
  assumes "tops_sound shared ledgers st" and "fmlookup (ts_mints st) mint = Some tp"
    and "top_sound ((ledgers mint)(key := amount)) (k_for shared mint) tp'" and "indexed st'"
    and "ts_mints st' = fmupd mint tp' (ts_mints st)" and "same_but slot {key} tp tp'"
    and "ts_status st' = ts_status st" and "ts_max_applied_slot st' = ts_max_applied_slot st"
  shows "good_update slot shared ledgers mint key amount (st, touched) (Some (st', finsert mint touched))"
  using tops_sound_put [OF assms(1,2,5,4,3)] leaves_alone_put [OF assms(2,5,6,7,8)] assms(5)
  by (simp add: good_update_def)

lemma apply_update_full_ok:
  assumes sound: "tops_sound shared ledgers st" and mint: "fmlookup (ts_mints st) mint = Some tp"
    and elsewhere: "\<And>m t. fmlookup (ts_mints st) m = Some t \<Longrightarrow> m \<noteq> mint \<Longrightarrow> \<not> is_sentinel m \<Longrightarrow>
           \<not> is_sentinel mint \<Longrightarrow> fmlookup (mt_entries t) key = None"
    and out: "fmlookup (mt_entries tp) key = None" and full: "k_for shared mint \<le> fm_size (mt_entries tp)"
  shows "good_update slot shared ledgers mint key amount (st, touched)
           (apply_update mint key amount slot wv False False (k_for shared mint) (st, touched))"
proof -
  define entry where "entry = \<lparr>te_amount = amount, te_slot = slot, te_write_version = wv\<rparr>"
  have tp: "top_sound (ledgers mint) (k_for shared mint) tp" and k: "0 < k_for shared mint" and ix: "indexed st"
    using sound mint by (auto simp: tops_sound_def)
  have "mt_entries tp \<noteq> fmempty" using full k by auto
  then have "min_entry tp \<noteq> None" unfolding min_entry_None .
  then obtain mk ma where m: "mt_cached_min tp = Some (mk, ma)" and m': "min_entry tp = Some (mk, ma)"
    using tp by (auto simp: top_sound_def)
  note up = apply_update_full [OF mint out full m entry_def]
  consider "amount \<le> ma" "amount \<le> mt_dropped_floor tp" | "amount \<le> ma" "\<not> amount \<le> mt_dropped_floor tp"
    | "\<not> amount \<le> ma" by blast
  then show ?thesis
  proof cases
    case 1
    then show ?thesis using tp out mint up
      by (auto simp: top_sound_def intro!: good_skip [OF sound])
  next
    case 2
    let ?tp = "tp \<lparr>mt_dropped_floor := max (mt_dropped_floor tp) amount\<rparr>"
    have "indexed (put_top mint ?tp st)" by (rule indexed_keep [OF ix mint]) auto
    with 2 show ?thesis unfolding up
      by (simp add: good_put [OF sound mint sound_floor [OF tp out]] same_but_def)
  next
    case 3
    let ?tp = "refresh_cached_min (tp \<lparr>mt_entries := fmupd key entry (fmdrop mk (mt_entries tp)),
                 mt_dropped_floor := max (mt_dropped_floor tp) ma\<rparr>)"
    let ?mid = "tp \<lparr>mt_entries := fmdrop mk (mt_entries tp)\<rparr>"
    have mk: "fmlookup (mt_entries tp) mk \<noteq> None" using m' unfolding min_entry_Some by auto
    have mid: "indexed (unindex mint mk (put_top mint ?mid st))"
      by (rule indexed_drop [OF ix mint mk]) (auto split: if_splits)
    have "indexed (index_member mint key (put_top mint ?tp (unindex mint mk (put_top mint ?mid st))))"
      by (rule indexed_add [OF mid, where tp = ?mid]) (use elsewhere in \<open>auto split: if_splits\<close>)
    then have ix': "indexed (index_member mint key (put_top mint ?tp (unindex mint mk st)))"
      unfolding put_top_unindex .
    have "top_sound ((ledgers mint)(key := amount)) (k_for shared mint) ?tp"
      using sound_evict [OF tp out m, of entry] by (simp add: entry_def)
    then have "good_update slot shared ledgers mint key amount (st, touched)
        (Some (index_member mint key (put_top mint ?tp (unindex mint mk st)), finsert mint touched))"
      by (rule good_put [OF sound mint _ ix']) (auto simp: same_but_def entry_def split: if_splits)
    with 3 show ?thesis unfolding up by simp
  qed
qed

lemma apply_update_ok:
  assumes sound: "tops_sound shared ledgers st" and older: "older mint key slot st"
    and elsewhere: "\<And>m t. fmlookup (ts_mints st) m = Some t \<Longrightarrow> m \<noteq> mint \<Longrightarrow> \<not> is_sentinel m \<Longrightarrow>
           \<not> is_sentinel mint \<Longrightarrow> fmlookup (mt_entries t) key = None"
  shows "good_update slot shared ledgers mint key amount (st, touched)
           (apply_update mint key amount slot wv False False (k_for shared mint) (st, touched))"
proof (cases "fmlookup (ts_mints st) mint")
  case None
  then have "apply_update mint key amount slot wv False False (k_for shared mint) (st, touched) = Some (st, touched)"
    by (simp add: apply_update_def)
  with None sound show ?thesis by (auto intro!: good_skip)
next
  case mint: (Some tp)
  define entry where "entry = \<lparr>te_amount = amount, te_slot = slot, te_write_version = wv\<rparr>"
  have tp: "top_sound (ledgers mint) (k_for shared mint) tp" and ix: "indexed st"
    using sound mint by (auto simp: tops_sound_def)
  then have min: "mt_cached_min tp = min_entry tp" by (simp add: top_sound_def)
  let ?tp = "refresh_cached_min (tp \<lparr>mt_entries := fmupd key entry (mt_entries tp)\<rparr>)"
  have put: "top_sound ((ledgers mint)(key := amount)) (k_for shared mint) ?tp"
    if "fmlookup (mt_entries tp) key \<noteq> None \<or> fm_size (mt_entries tp) < k_for shared mint"
    using sound_put [OF tp that, of entry] by (simp add: entry_def)
  have same: "same_but slot {key} tp ?tp" by (simp add: same_but_def entry_def)
  show ?thesis
  proof (cases "fmlookup (mt_entries tp) key")
    case old: (Some old)
    then have "te_slot old < slot" using older mint by (simp add: older_def)
    note up = apply_update_member [OF mint old this min entry_def]
    have "indexed (put_top mint ?tp st)"
      by (rule indexed_keep [OF ix mint]) (use old in \<open>auto split: if_splits\<close>)
    then show ?thesis unfolding up using old
      by (intro good_put [OF sound mint put _ _ same]) auto
  next
    case out: None
    show ?thesis
    proof (cases "fm_size (mt_entries tp) < k_for shared mint")
      case True
      note up = apply_update_insert [OF mint out True min entry_def]
      have "indexed (index_member mint key (put_top mint ?tp st))"
        by (rule indexed_add [OF ix mint elsewhere]) (auto split: if_splits)
      then show ?thesis unfolding up using True
        by (intro good_put [OF sound mint put _ _ same]) auto
    next
      case False
      then have "k_for shared mint \<le> fm_size (mt_entries tp)" by simp
      from apply_update_full_ok [OF sound mint elsewhere out this] show ?thesis .
    qed
  qed
qed

section \<open>One account of a block\<close>

text \<open>The balance an update gives its account in the ledger of a mint: all lamports in the SOL
  ledger and in the ledger of the account's class, and the token amount in the ledger of its mint.\<close>

definition amount_of :: "pubkey \<Rightarrow> pending_largest \<Rightarrow> u64" where
  "amount_of mint update =
     (if mint = SOL_SENTINEL_MINT then pa_lamports update
      else if mint = CIRCULATING_SENTINEL_MINT
      then if pa_non_circulating update then 0 else pa_lamports update
      else if mint = NON_CIRCULATING_SENTINEL_MINT
      then if pa_non_circulating update then pa_lamports update else 0
      else (case pa_token update of None \<Rightarrow> 0 | Some (m, amount) \<Rightarrow> if m = mint then amount else 0))"

definition write_ledgers ::
  "pubkey \<times> pending_largest \<Rightarrow> (pubkey \<Rightarrow> pubkey \<Rightarrow> u64) \<Rightarrow> (pubkey \<Rightarrow> pubkey \<Rightarrow> u64)" where
  "write_ledgers = (\<lambda>(key, update) ledgers. \<lambda>mint. (ledgers mint)(key := amount_of mint update))"

text \<open>What the caller passes: a token balance is in a tracked mint, none of which is a sentinel, and
  a closed account has no data and so no token balance.\<close>

definition pending_ok :: "pending_largest \<Rightarrow> bool" where
  "pending_ok update \<longleftrightarrow>
     (case pa_token update of None \<Rightarrow> True | Some (mint, _) \<Rightarrow> pa_lamports update \<noteq> 0 \<and> \<not> is_sentinel mint)"

text \<open>Part of the work on one account is done: the ledgers of the mints \<open>D\<close> are written.\<close>

definition written ::
  "u64 \<Rightarrow> largest_shared \<Rightarrow> (pubkey \<Rightarrow> pubkey \<Rightarrow> u64) \<Rightarrow> pubkey \<Rightarrow> pending_largest \<Rightarrow> touched_state \<Rightarrow>
   pubkey set \<Rightarrow> touched_state \<Rightarrow> bool" where
  "written slot shared ledgers key update s D s' \<longleftrightarrow>
     tops_sound shared (\<lambda>m. if m \<in> D then (ledgers m)(key := amount_of m update) else ledgers m) (fst s') \<and>
     leaves_alone slot {key} s s' \<and>
     (\<forall>m. m \<notin> D \<longrightarrow> fmlookup (ts_mints (fst s')) m = fmlookup (ts_mints (fst s)) m)"

lemma ledgers_insert:
  "mint \<notin> D \<Longrightarrow>
   (\<lambda>m. if m \<in> insert mint D then f m else g m) = (\<lambda>m. if m \<in> D then f m else g m)(mint := f mint)"
  by auto

lemma leaves_alone_again:
  "leaves_alone slot {key} s s' \<Longrightarrow> leaves_alone slot {key} s' s'' \<Longrightarrow> leaves_alone slot {key} s s''"
  using leaves_alone_trans by fastforce

lemma written_remove:
  assumes "written slot shared ledgers key update s D s'" and "mint \<notin> D" and "amount_of mint update = 0"
    and "older mint key slot (fst s)"
  shows "written slot shared ledgers key update s (insert mint D) (remove_member mint key slot wv s')"
proof -
  obtain st touched where s': "s' = (st, touched)" by (cases s')
  have old: "older mint key slot st" using assms(1,2,4) by (simp add: older_def written_def s')
  have "tops_sound shared (\<lambda>m. if m \<in> D then (ledgers m)(key := amount_of m update) else ledgers m) st"
    using assms(1) by (simp add: written_def s')
  note removed = remove_member_ok(1-3) [OF this old refl, where wv = wv and touched = touched, folded s']
  then show ?thesis
    using assms unfolding written_def ledgers_insert [OF assms(2)]
    by (auto intro: leaves_alone_again simp: s')
qed

lemma written_update:
  assumes "written slot shared ledgers key update s D s'" and "mint \<notin> D" and "amount_of mint update = amount"
    and "older mint key slot (fst s)"
    and "\<And>m t. fmlookup (ts_mints (fst s')) m = Some t \<Longrightarrow> m \<noteq> mint \<Longrightarrow> \<not> is_sentinel m \<Longrightarrow>
           \<not> is_sentinel mint \<Longrightarrow> fmlookup (mt_entries t) key = None"
  obtains s'' where "apply_update mint key amount slot wv False False (k_for shared mint) s' = Some s''"
    and "written slot shared ledgers key update s (insert mint D) s''"
proof -
  obtain st touched where s': "s' = (st, touched)" by (cases s')
  have old: "older mint key slot st" using assms(1,2,4) by (simp add: older_def written_def s')
  have "tops_sound shared (\<lambda>m. if m \<in> D then (ledgers m)(key := amount_of m update) else ledgers m) st"
    using assms(1) by (simp add: written_def s')
  from apply_update_ok [OF this old, of amount touched wv] assms(5)
  obtain s'' where up: "apply_update mint key amount slot wv False False (k_for shared mint) s' = Some s''"
    and "tops_sound shared
      ((\<lambda>m. if m \<in> D then (ledgers m)(key := amount_of m update) else ledgers m)(mint := (ledgers mint)(key := amount)))
      (fst s'')"
    and "leaves_alone slot {key} s' s''"
    and "\<And>m. m \<noteq> mint \<Longrightarrow> fmlookup (ts_mints (fst s'')) m = fmlookup (ts_mints st) m"
    using assms(2) by (auto simp: good_update_def s')
  then have "written slot shared ledgers key update s (insert mint D) s''"
    using assms unfolding written_def ledgers_insert [OF assms(2)]
    by (auto intro: leaves_alone_again simp: s')
  with up show thesis by (rule that)
qed

text \<open>The first step takes the account out of the top of a token mint it no longer holds.\<close>

lemma written_drop_mint:
  assumes sound: "tops_sound shared ledgers (fst s)" and older: "\<And>m. older m key slot (fst s)"
    and D: "D = {m. \<not> is_sentinel m \<and> map_option fst (pa_token update) \<noteq> Some m}"
    and s': "s' = (case fmlookup (ts_member_index (fst s)) key of
                 None \<Rightarrow> s
               | Some current_mint \<Rightarrow>
                   if map_option fst (pa_token update) \<noteq> Some current_mint
                   then remove_member current_mint key slot wv s else s)"
  shows "written slot shared ledgers key update s D s'"
    and "m \<in> D \<Longrightarrow> fmlookup (ts_mints (fst s')) m = Some t \<Longrightarrow> fmlookup (mt_entries t) key = None"
proof -
  let ?ix = "fmlookup (ts_member_index (fst s)) key"
  have zero: "amount_of m update = 0" if "m \<in> D" for m
    using that by (auto simp: D amount_of_def is_sentinel_def split: option.splits)
  have absent: "fmlookup (mt_entries t) key = None"
    if "m \<in> D" "fmlookup (ts_mints (fst s)) m = Some t" "?ix \<noteq> Some m" for m t
    using that sound unfolding tops_sound_def indexed_def members_indexed_def D by blast
  have start: "written slot shared ledgers key update s {m \<in> D. ?ix \<noteq> Some m} s"
    unfolding written_def
  proof (intro conjI)
    show "tops_sound shared (\<lambda>m. if m \<in> {m \<in> D. ?ix \<noteq> Some m} then (ledgers m)(key := amount_of m update)
            else ledgers m) (fst s)"
      unfolding tops_sound_def
    proof (intro conjI allI impI)
      fix m t
      assume t: "fmlookup (ts_mints (fst s)) m = Some t"
      then have snd: "top_sound (ledgers m) (k_for shared m) t" and "0 < k_for shared m"
        using sound by (auto simp: tops_sound_def)
      then show "0 < k_for shared m" by simp
      show "top_sound (if m \<in> {m \<in> D. ?ix \<noteq> Some m} then (ledgers m)(key := amount_of m update) else ledgers m)
              (k_for shared m) t"
        using snd absent [OF _ t] zero [of m] by (auto simp: top_sound_def)
    qed (use sound in \<open>simp add: tops_sound_def\<close>)
  qed simp_all
  show "written slot shared ledgers key update s D s'"
  proof (cases "\<exists>c \<in> D. ?ix = Some c")
    case True
    then obtain c where c: "c \<in> D" "?ix = Some c" by blast
    then have "s' = remove_member c key slot wv s" by (simp add: s' D)
    moreover have "insert c {m \<in> D. ?ix \<noteq> Some m} = D" using c by auto
    ultimately show ?thesis
      using written_remove [OF start _ zero [OF c(1)] older, of wv] c by simp
  next
    case False
    then have "{m \<in> D. ?ix \<noteq> Some m} = D" by blast
    moreover have "\<not> is_sentinel c" if "?ix = Some c" for c
      using sound that by (auto simp: tops_sound_def indexed_def)
    then have "s' = s" using False by (auto simp: s' D split: option.splits)
    ultimately show ?thesis using start by simp
  qed
  show "fmlookup (mt_entries t) key = None" if m: "m \<in> D" and t: "fmlookup (ts_mints (fst s')) m = Some t"
  proof (cases "?ix = Some m")
    case True
    then have "s' = remove_member m key slot wv (fst s, snd s)" using m by (simp add: s' D)
    from remove_member_ok(4) [OF sound older this t] show ?thesis .
  next
    case False
    moreover have "fmlookup (ts_mints (fst s)) m = Some t"
    proof (cases ?ix)
      case None
      then show ?thesis using t by (simp add: s')
    next
      case (Some c)
      then have "c \<noteq> m" using False by simp
      then show ?thesis
        using t Some remove_member_ok(3) [OF sound older refl, of m c wv "snd s"] by (simp add: s' split: if_splits)
    qed
    ultimately show ?thesis by (rule absent [OF m, rotated])
  qed
qed

lemma apply_pending_token:
  assumes sound: "tops_sound shared ledgers (fst s)" and older: "\<And>m. older m key slot (fst s)"
    and ok: "pending_ok update"
    and s1: "s1 = (case fmlookup (ts_member_index (fst s)) key of
                 None \<Rightarrow> s
               | Some current_mint \<Rightarrow>
                   if map_option fst (pa_token update) \<noteq> Some current_mint
                   then remove_member current_mint key slot wv s else s)"
  obtains s2 where "(case pa_token update of None \<Rightarrow> Some s1
      | Some (mint, amount) \<Rightarrow> apply_update mint key amount slot wv False False (k_for shared mint) s1) = Some s2"
    and "written slot shared ledgers key update s {m. \<not> is_sentinel m} s2"
    and "pa_token update = None \<longrightarrow> s2 = s1"
proof (cases "pa_token update")
  case None
  then have "{m. \<not> is_sentinel m \<and> map_option fst (pa_token update) \<noteq> Some m} = {m. \<not> is_sentinel m}"
    by simp
  with written_drop_mint(1) [OF sound older refl s1] None show thesis by (intro that [of s1]) auto
next
  case (Some t)
  then obtain mint amount where t: "pa_token update = Some (mint, amount)" by (cases t) auto
  then have mint: "\<not> is_sentinel mint" using ok by (simp add: pending_ok_def)
  let ?D = "{m. \<not> is_sentinel m \<and> map_option fst (pa_token update) \<noteq> Some m}"
  have D: "insert mint ?D = {m. \<not> is_sentinel m}" using mint t by auto
  have amount: "amount_of mint update = amount" using mint t by (auto simp: amount_of_def is_sentinel_def)
  have out: "mint \<notin> ?D" using t by simp
  have elsewhere: "fmlookup (mt_entries tp) key = None"
    if "fmlookup (ts_mints (fst s1)) m = Some tp" "m \<noteq> mint" "\<not> is_sentinel m" for m tp
    by (rule written_drop_mint(2) [OF sound older refl s1 _ that(1)]) (use t that in simp)
  obtain s2 where "apply_update mint key amount slot wv False False (k_for shared mint) s1 = Some s2"
    and "written slot shared ledgers key update s (insert mint ?D) s2"
    by (rule written_update [OF written_drop_mint(1) [OF sound older refl s1] out amount older elsewhere])
  with t D show thesis by (intro that) auto
qed

lemma written_all:
  assumes "written slot shared ledgers key update s (insert m1 (insert m2 (insert m3 {m. \<not> is_sentinel m}))) s'"
    and "{m1, m2, m3} = {SOL_SENTINEL_MINT, CIRCULATING_SENTINEL_MINT, NON_CIRCULATING_SENTINEL_MINT}"
  shows "tops_sound shared (write_ledgers (key, update) ledgers) (fst s')" and "leaves_alone slot {key} s s'"
proof -
  have "insert m1 (insert m2 (insert m3 {m. \<not> is_sentinel m})) = {m1, m2, m3} \<union> {m. \<not> is_sentinel m}" by simp
  also have "\<dots> = UNIV" unfolding assms(2) by (auto simp: is_sentinel_def)
  finally show "tops_sound shared (write_ledgers (key, update) ledgers) (fst s')" and "leaves_alone slot {key} s s'"
    using assms(1) by (simp_all add: written_def write_ledgers_def)
qed

lemma sentinels [simp]:
  "is_sentinel SOL_SENTINEL_MINT" "is_sentinel CIRCULATING_SENTINEL_MINT" "is_sentinel NON_CIRCULATING_SENTINEL_MINT"
  "SOL_SENTINEL_MINT \<noteq> CIRCULATING_SENTINEL_MINT" "SOL_SENTINEL_MINT \<noteq> NON_CIRCULATING_SENTINEL_MINT"
  "CIRCULATING_SENTINEL_MINT \<noteq> NON_CIRCULATING_SENTINEL_MINT"
  "CIRCULATING_SENTINEL_MINT \<noteq> SOL_SENTINEL_MINT" "NON_CIRCULATING_SENTINEL_MINT \<noteq> SOL_SENTINEL_MINT"
  "NON_CIRCULATING_SENTINEL_MINT \<noteq> CIRCULATING_SENTINEL_MINT"
  by (simp_all add: is_sentinel_def SOL_SENTINEL_MINT_def CIRCULATING_SENTINEL_MINT_def
      NON_CIRCULATING_SENTINEL_MINT_def)

lemma amount_of_sentinel [simp]:
  "amount_of SOL_SENTINEL_MINT update = pa_lamports update"
  "amount_of CIRCULATING_SENTINEL_MINT update = (if pa_non_circulating update then 0 else pa_lamports update)"
  "amount_of NON_CIRCULATING_SENTINEL_MINT update = (if pa_non_circulating update then pa_lamports update else 0)"
  by (simp_all add: amount_of_def)

lemma apply_pending_ok:
  assumes sound: "tops_sound shared ledgers (fst s)" and older: "\<And>m. older m key slot (fst s)"
    and ok: "pending_ok update"
  obtains s' where "apply_pending shared slot False False (key, update) s = Some s'"
    and "tops_sound shared (write_ledgers (key, update) ledgers) (fst s')"
    and "leaves_alone slot {key} s s'"
proof -
  let ?wv = "pa_write_version update"
  define s1 where "s1 = (case fmlookup (ts_member_index (fst s)) key of
                 None \<Rightarrow> s
               | Some current_mint \<Rightarrow>
                   if map_option fst (pa_token update) \<noteq> Some current_mint
                   then remove_member current_mint key slot ?wv s else s)"
  obtain s2 where s2: "(case pa_token update of None \<Rightarrow> Some s1
      | Some (mint, amount) \<Rightarrow> apply_update mint key amount slot ?wv False False (k_for shared mint) s1) = Some s2"
    and w: "written slot shared ledgers key update s {m. \<not> is_sentinel m} s2"
    and none: "pa_token update = None \<longrightarrow> s2 = s1"
    by (rule apply_pending_token [OF sound older ok s1_def])
  show thesis
  proof (cases "pa_lamports update = 0")
    case True
    then have "pa_token update = None" using ok by (auto simp: pending_ok_def split: option.splits)
    then have "s2 = s1" using none by simp
    define s3 where "s3 = remove_sentinels key slot ?wv s1"
    have "apply_pending shared slot False False (key, update) s = Some s3"
      using True by (simp add: apply_pending_def s3_def s1_def [symmetric] Let_def)
    moreover have "written slot shared ledgers key update s (insert NON_CIRCULATING_SENTINEL_MINT
        (insert CIRCULATING_SENTINEL_MINT (insert SOL_SENTINEL_MINT {m. \<not> is_sentinel m}))) s3"
      unfolding s3_def remove_sentinels_def \<open>s2 = s1\<close> [symmetric] fold_simps comp_def
      by (intro written_remove w older) (simp_all add: True)
    moreover note written_all [OF this]
    ultimately show thesis by (intro that) auto
  next
    case False
    define cls where "cls = (if pa_non_circulating update then NON_CIRCULATING_SENTINEL_MINT else CIRCULATING_SENTINEL_MINT)"
    define oth where "oth = (if pa_non_circulating update then CIRCULATING_SENTINEL_MINT else NON_CIRCULATING_SENTINEL_MINT)"
    have cls: "is_sentinel cls" "cls \<notin> insert oth (insert SOL_SENTINEL_MINT {m. \<not> is_sentinel m})"
      "amount_of cls update = pa_lamports update"
      by (auto simp: cls_def oth_def)
    obtain s3 where s3: "apply_update SOL_SENTINEL_MINT key (pa_lamports update) slot ?wv False False
        (k_for shared SOL_SENTINEL_MINT) s2 = Some s3"
      and "written slot shared ledgers key update s (insert SOL_SENTINEL_MINT {m. \<not> is_sentinel m}) s3"
      by (rule written_update [where mint = SOL_SENTINEL_MINT and amount = "pa_lamports update", OF w _ _ older])
         simp_all
    then have w4: "written slot shared ledgers key update s (insert oth (insert SOL_SENTINEL_MINT {m. \<not> is_sentinel m}))
        (remove_member oth key slot ?wv s3)"
      by (intro written_remove older) (simp_all add: oth_def)
    obtain s5 where s5: "apply_update cls key (pa_lamports update) slot ?wv False False
        (k_for shared cls) (remove_member oth key slot ?wv s3) = Some s5"
      and w5: "written slot shared ledgers key update s
        (insert cls (insert oth (insert SOL_SENTINEL_MINT {m. \<not> is_sentinel m}))) s5"
      by (rule written_update [where mint = cls and amount = "pa_lamports update", OF w4 _ _ older])
         (use cls in simp_all)
    have "apply_pending shared slot False False (key, update) s = Some s5"
      using False s2 s3 s5
      by (auto simp: apply_pending_def s1_def [symmetric] Let_def cls_def oth_def split: if_splits option.splits)
    moreover have "{cls, oth, SOL_SENTINEL_MINT} = {SOL_SENTINEL_MINT, CIRCULATING_SENTINEL_MINT, NON_CIRCULATING_SENTINEL_MINT}"
      by (auto simp: cls_def oth_def)
    ultimately show thesis using that written_all [OF w5] by blast
  qed
qed

section \<open>A block\<close>

text \<open>The invariant of a live tracker: every top is sound, no entry is newer than the last applied
  slot and a top that is not stale has the top it computes as its last record.\<close>

definition recorded :: "mint_top \<Rightarrow> bool" where
  "recorded tp \<longleftrightarrow> mt_stale tp \<or> compute_top tp = Sound (mt_last_record tp)"

definition no_newer :: "u64 \<Rightarrow> mint_top \<Rightarrow> bool" where
  "no_newer slot tp \<longleftrightarrow> (\<forall>key e. fmlookup (mt_entries tp) key = Some e \<longrightarrow> te_slot e \<le> slot)"

definition live_inv :: "largest_shared \<Rightarrow> (pubkey \<Rightarrow> pubkey \<Rightarrow> u64) \<Rightarrow> tracker_state \<Rightarrow> bool" where
  "live_inv shared ledgers st \<longleftrightarrow> ts_status st = LLive \<and> tops_sound shared ledgers st \<and>
     (\<forall>mint tp. fmlookup (ts_mints st) mint = Some tp \<longrightarrow>
        no_newer (ts_max_applied_slot st) tp \<and> recorded tp)"

lemma older_leaves_alone:
  assumes "leaves_alone slot keys s s'" and "key \<notin> keys" and "older mint key slot (fst s)"
  shows "older mint key slot (fst s')"
  unfolding older_def
proof (intro allI impI, elim conjE)
  fix tp' e
  assume tp': "fmlookup (ts_mints (fst s')) mint = Some tp'" and e: "fmlookup (mt_entries tp') key = Some e"
  have "rel_option (same_but slot keys) (fmlookup (ts_mints (fst s)) mint) (fmlookup (ts_mints (fst s')) mint)"
    using assms(1) by (cases s; cases s') (simp add: leaves_alone_def)
  with tp' obtain tp where tp: "fmlookup (ts_mints (fst s)) mint = Some tp" and "same_but slot keys tp tp'"
    by (auto simp: option_rel_Some2)
  then have "fmlookup (mt_entries tp) key = Some e" using e assms(2) by (auto simp: same_but_def)
  with tp assms(3) show "te_slot e < slot" by (simp add: older_def)
qed

lemma apply_pendings_ok:
  assumes "tops_sound shared ledgers (fst s)" and "distinct (map fst pendings)"
    and "\<And>m key. key \<in> fst ` set pendings \<Longrightarrow> older m key slot (fst s)"
    and "\<And>key update. (key, update) \<in> set pendings \<Longrightarrow> pending_ok update"
  obtains s' where "fold_option (apply_pending shared slot False False) pendings s = Some s'"
    and "tops_sound shared (fold write_ledgers pendings ledgers) (fst s')"
    and "leaves_alone slot (fst ` set pendings) s s'"
  using assms
proof (induction pendings arbitrary: s ledgers thesis)
  case Nil
  then show ?case by simp
next
  case (Cons x xs)
  obtain key update where x: "x = (key, update)" by (cases x)
  have older: "older m key slot (fst s)" for m by (rule Cons.prems(4)) (simp add: x)
  have ok: "pending_ok update" by (rule Cons.prems(5) [of key]) (simp add: x)
  obtain s1 where s1: "apply_pending shared slot False False (key, update) s = Some s1"
    and t1: "tops_sound shared (write_ledgers (key, update) ledgers) (fst s1)"
    and l1: "leaves_alone slot {key} s s1"
    by (rule apply_pending_ok [OF Cons.prems(2) older ok])
  have "older m k slot (fst s1)" if "k \<in> fst ` set xs" for m k
    using older_leaves_alone [OF l1 _ Cons.prems(4) [of k m]] that Cons.prems(3) by (auto simp: x)
  moreover have "pending_ok u" if "(k, u) \<in> set xs" for k u using Cons.prems(5) [of k u] that by simp
  moreover have "distinct (map fst xs)" using Cons.prems(3) by simp
  ultimately obtain s' where s': "fold_option (apply_pending shared slot False False) xs s1 = Some s'"
    and t': "tops_sound shared (fold write_ledgers xs (write_ledgers (key, update) ledgers)) (fst s')"
    and l': "leaves_alone slot (fst ` set xs) s1 s'"
    using Cons.IH [OF _ t1] by blast
  show ?case
  proof (rule Cons.prems(1))
    show "fold_option (apply_pending shared slot False False) (x # xs) s = Some s'" using s1 s' by (simp add: x)
    show "tops_sound shared (fold write_ledgers (x # xs) ledgers) (fst s')" using t' by (simp add: x)
    show "leaves_alone slot (fst ` set (x # xs)) s s'" using leaves_alone_trans [OF l1 l'] by (simp add: x)
  qed
qed

text \<open>Emission records the top of a touched mint, or latches it stale, and changes nothing else.\<close>

lemma compute_top_fields [simp]:
  "compute_top (tp \<lparr>mt_stale := b\<rparr>) = compute_top tp"
  "compute_top (tp \<lparr>mt_last_record := r\<rparr>) = compute_top tp"
  by (simp_all add: compute_top_def amount_keys_def Let_def)

lemma top_sound_fields [simp]:
  "top_sound ledger k (tp \<lparr>mt_stale := b\<rparr>) = top_sound ledger k tp"
  "top_sound ledger k (tp \<lparr>mt_last_record := r\<rparr>) = top_sound ledger k tp"
  by (simp_all add: top_sound_def)

lemma no_newer_fields [simp]:
  "no_newer slot (tp \<lparr>mt_stale := b\<rparr>) = no_newer slot tp"
  "no_newer slot (tp \<lparr>mt_last_record := r\<rparr>) = no_newer slot tp"
  by (simp_all add: no_newer_def)

definition emitted :: "mint_top \<Rightarrow> mint_top" where
  "emitted tp = (case compute_top tp of
     Unsound \<Rightarrow> fst (latch_stale tp)
   | Sound rows \<Rightarrow> tp \<lparr>mt_stale := False, mt_last_record := rows\<rparr>)"

lemma emitted_props [simp]:
  "recorded (emitted tp)" "top_sound ledger k (emitted tp) = top_sound ledger k tp"
  "no_newer slot (emitted tp) = no_newer slot tp" "mt_entries (emitted tp) = mt_entries tp"
  by (auto simp: emitted_def recorded_def latch_stale_def split: computed_top.splits)

lemma emit_state [simp]:
  "ts_mints (fst (emit slot mint s)) = (case fmlookup (ts_mints (fst s)) mint of
     None \<Rightarrow> ts_mints (fst s) | Some tp \<Rightarrow> fmupd mint (emitted tp) (ts_mints (fst s)))"
  "ts_status (fst (emit slot mint s)) = ts_status (fst s)"
  "ts_max_applied_slot (fst (emit slot mint s)) = ts_max_applied_slot (fst s)"
  "ts_member_index (fst (emit slot mint s)) = ts_member_index (fst s)"
  by (cases s; auto simp: emit_def emitted_def Let_def latch_stale_def split: option.splits computed_top.splits)+

lemma emit_all_state:
  assumes "distinct mints"
  shows "fmlookup (ts_mints (fst (fold (emit slot) mints s))) mint =
           (if mint \<in> set mints then map_option emitted (fmlookup (ts_mints (fst s)) mint)
            else fmlookup (ts_mints (fst s)) mint)"
  using assms
proof (induction mints arbitrary: s)
  case (Cons m ms)
  then show ?case
    using Cons.IH [of "emit slot m s"] by (auto split: option.splits)
qed simp

lemma emit_all_fields [simp]:
  "ts_status (fst (fold (emit slot) mints s)) = ts_status (fst s)"
  "ts_max_applied_slot (fst (fold (emit slot) mints s)) = ts_max_applied_slot (fst s)"
  "ts_member_index (fst (fold (emit slot) mints s)) = ts_member_index (fst s)"
  by (induction mints arbitrary: s) simp_all

lemma tops_sound_emit:
  assumes "tops_sound shared ledgers (fst s)" and "distinct mints"
  shows "tops_sound shared ledgers (fst (fold (emit slot) mints s))"
proof -
  let ?st = "fst (fold (emit slot) mints s)"
  have top: "fmlookup (ts_mints ?st) m = Some tp \<Longrightarrow>
      \<exists>tp0. fmlookup (ts_mints (fst s)) m = Some tp0 \<and> (tp = tp0 \<or> tp = emitted tp0)" for m tp
    using emit_all_state [OF assms(2), of slot s m] by (auto split: if_splits)
  have "members_indexed ?st"
    unfolding members_indexed_def
  proof (intro allI impI, elim conjE)
    fix m tp key
    assume "fmlookup (ts_mints ?st) m = Some tp" "\<not> is_sentinel m" "fmlookup (mt_entries tp) key \<noteq> None"
    moreover from top [OF this(1)] obtain tp0
      where "fmlookup (ts_mints (fst s)) m = Some tp0" "mt_entries tp = mt_entries tp0" by auto
    moreover have "members_indexed (fst s)" using assms(1) by (simp add: tops_sound_def indexed_def)
    ultimately show "fmlookup (ts_member_index ?st) key = Some m"
      unfolding members_indexed_def emit_all_fields by metis
  qed
  moreover have "0 < k_for shared m \<and> top_sound (ledgers m) (k_for shared m) tp"
    if "fmlookup (ts_mints ?st) m = Some tp" for m tp
    using top [OF that] assms(1) by (auto simp: tops_sound_def)
  ultimately show ?thesis using assms(1) by (simp add: tops_sound_def indexed_def)
qed

lemma recorded_is_top:
  assumes "top_sound ledger k tp" and "recorded tp" and "\<not> mt_stale tp"
  shows "is_top ledger (mt_last_record tp)"
  using assms compute_top_is_top by (auto simp: recorded_def)

lemma tops_sound_slot:
  "tops_sound shared ledgers (st \<lparr>ts_max_applied_slot := slot\<rparr>) = tops_sound shared ledgers st"
  by (cases st) (simp only: tops_sound_def indexed_def members_indexed_def tracker_state.simps
      tracker_state.update_convs)

text \<open>A block on a live tracker that is newer than every block before it.\<close>

lemma block_keeps_inv:
  assumes inv: "live_inv shared ledgers st" and newer: "ts_max_applied_slot st < slot"
    and dist: "distinct (map fst pendings)"
    and ok: "\<And>key update. (key, update) \<in> set pendings \<Longrightarrow> pending_ok update"
  obtains st' outcome where "largest_apply_block shared slot pendings st = Some (st', outcome)"
    and "live_inv shared (fold write_ledgers pendings ledgers) st'" and "ts_max_applied_slot st' = slot"
proof -
  let ?st = "st \<lparr>ts_max_applied_slot := slot\<rparr>"
  let ?ledgers = "fold write_ledgers pendings ledgers"
  have sound: "tops_sound shared ledgers (fst (?st, {||}))"
    using inv by (simp add: live_inv_def tops_sound_slot)
  have older: "older m key slot (fst (?st, {||}))" for m key
    unfolding older_def
  proof (intro allI impI, elim conjE)
    fix tp e
    assume "fmlookup (ts_mints (fst (?st, {||}))) m = Some tp" and e: "fmlookup (mt_entries tp) key = Some e"
    then have "no_newer (ts_max_applied_slot st) tp" using inv by (simp add: live_inv_def)
    with e have "te_slot e \<le> ts_max_applied_slot st" unfolding no_newer_def by blast
    with newer show "te_slot e < slot" by simp
  qed
  obtain s' where s': "fold_option (apply_pending shared slot False False) pendings (?st, {||}) = Some s'"
    and t': "tops_sound shared ?ledgers (fst s')"
    and l': "leaves_alone slot (fst ` set pendings) (?st, {||}) s'"
    by (rule apply_pendings_ok [OF sound dist older ok])
  obtain st1 touched where s1: "s' = (st1, touched)" by (cases s')
  define r where "r = fold (emit slot) (sorted_list_of_fset touched) (st1, default_outcome)"
  have fields: "ts_status st1 = LLive" "ts_max_applied_slot st1 = slot"
    using l' inv by (simp_all add: leaves_alone_def s1 live_inv_def)
  have live: "ts_status st = LLive" and old: "(slot \<le> ts_max_applied_slot st) = False"
    using inv newer by (simp_all add: live_inv_def not_le)
  have res: "largest_apply_block shared slot pendings st = Some r"
    using newer s' fields
    by (simp add: largest_apply_block_def r_def live old s1 max_absorb2 Let_def)
  have top1: "no_newer slot tp1 \<and> (m |\<notin>| touched \<longrightarrow> recorded tp1)"
    if "fmlookup (ts_mints st1) m = Some tp1" for m tp1
  proof -
    have "rel_option (same_but slot (fst ` set pendings)) (fmlookup (ts_mints st) m) (fmlookup (ts_mints st1) m)"
      using l' by (simp add: leaves_alone_def s1)
    with that obtain tp where tp: "fmlookup (ts_mints st) m = Some tp" "same_but slot (fst ` set pendings) tp tp1"
      by (auto simp: option_rel_Some2)
    then have old: "no_newer (ts_max_applied_slot st) tp" "recorded tp" using inv by (auto simp: live_inv_def)
    have "te_slot e \<le> slot" if "fmlookup (mt_entries tp1) key = Some e" for key e
    proof -
      from tp(2) that have "fmlookup (mt_entries tp) key = Some e \<or> te_slot e = slot"
        unfolding same_but_def by blast
      moreover have "te_slot e \<le> ts_max_applied_slot st" if "fmlookup (mt_entries tp) key = Some e"
        using old(1) that unfolding no_newer_def by blast
      ultimately show ?thesis using newer by fastforce
    qed
    moreover have "tp1 = tp" if "m |\<notin>| touched" using l' that tp(1) \<open>fmlookup (ts_mints st1) m = Some tp1\<close>
      by (simp add: leaves_alone_def s1)
    ultimately show ?thesis using old by (auto simp: no_newer_def)
  qed
  have "no_newer slot tp \<and> recorded tp" if "fmlookup (ts_mints (fst r)) m = Some tp" for m tp
  proof -
    have "fmlookup (ts_mints (fst r)) m = (if m |\<in>| touched then map_option emitted (fmlookup (ts_mints st1) m)
        else fmlookup (ts_mints st1) m)"
      unfolding r_def by (subst emit_all_state) simp_all
    with that top1 show ?thesis by (auto split: if_splits)
  qed
  then have "live_inv shared ?ledgers (fst r)"
    using tops_sound_emit [of shared ?ledgers "(st1, default_outcome)" _ slot] t' fields
    by (simp add: live_inv_def r_def s1)
  with res fields show thesis by (intro that [of "fst r" "snd r"]) (simp_all add: r_def)
qed

section \<open>Properties\<close>

text \<open>C7: A block on a live tracker that is newer than all before it, with one update per account,
  is applied without a panic and keeps the invariant for the updated ledgers; then every mint that is
  not stale has as its record the exact top of its ledger: right amounts in descending order, and no
  other holder above the last row.\<close>

theorem block_tops_exact:
  assumes "live_inv shared ledgers st" and "ts_max_applied_slot st < slot" and "distinct (map fst pendings)"
    and "\<forall>(key, update) \<in> set pendings. pending_ok update"
  shows "\<exists>st' outcome. largest_apply_block shared slot pendings st = Some (st', outcome)
    \<and> live_inv shared (fold write_ledgers pendings ledgers) st'
    \<and> (\<forall>mint tp. fmlookup (ts_mints st') mint = Some tp \<and> \<not> mt_stale tp \<longrightarrow>
          is_top (fold write_ledgers pendings ledgers mint) (mt_last_record tp))"
proof -
  have ok: "pending_ok update" if "(key, update) \<in> set pendings" for key update
    using assms(4) that by auto
  obtain st' outcome where r: "largest_apply_block shared slot pendings st = Some (st', outcome)"
    and inv: "live_inv shared (fold write_ledgers pendings ledgers) st'"
    by (rule block_keeps_inv [OF assms(1-3) ok])
  have "is_top (fold write_ledgers pendings ledgers mint) (mt_last_record tp)"
    if "fmlookup (ts_mints st') mint = Some tp" "\<not> mt_stale tp" for mint tp
    by (rule recorded_is_top [where k = "k_for shared mint"])
      (use inv that in \<open>auto simp: live_inv_def tops_sound_def\<close>)
  with r inv show ?thesis by blast
qed

definition wit_shared :: largest_shared where
  "wit_shared = \<lparr>lg_sol_k = Some 20, lg_tracked_mints = {||}, lg_token_k = 20\<rparr>"

definition wit_live :: tracker_state where
  "wit_live = \<lparr>ts_status = LLive, ts_max_applied_slot = 4, ts_mints = fmupd SOL_SENTINEL_MINT default_top fmempty,
     ts_member_index = fmempty, ts_tombstones = fmempty, ts_seed_reservoir = fmempty\<rparr>"

definition wit_pending :: pending_largest where
  "wit_pending = \<lparr>pa_write_version = 1, pa_lamports = 7, pa_non_circulating = False, pa_token = None\<rparr>"

lemma wit_live_inv: "live_inv wit_shared (\<lambda>_ _. 0) wit_live"
proof -
  have "compute_top default_top = Sound []" "min_entry default_top = None"
    by (simp_all add: compute_top_def default_top_def amount_keys_def min_entry_def Let_def)
  moreover have "is_sentinel m" if "fmlookup (ts_mints wit_live) m = Some tp" for m tp
    using that by (auto simp: wit_live_def split: if_splits)
  ultimately show ?thesis
    by (auto simp: live_inv_def tops_sound_def indexed_def members_indexed_def top_sound_def no_newer_def
        recorded_def wit_live_def default_top_def wit_shared_def k_for_def split: if_splits)
qed

theorem block_tops_exact_witness:
  "\<exists>st' outcome. largest_apply_block wit_shared 5 [(pk 9, wit_pending)] wit_live = Some (st', outcome)
    \<and> live_inv wit_shared (fold write_ledgers [(pk 9, wit_pending)] (\<lambda>_ _. 0)) st'
    \<and> (\<forall>mint tp. fmlookup (ts_mints st') mint = Some tp \<and> \<not> mt_stale tp \<longrightarrow>
          is_top (fold write_ledgers [(pk 9, wit_pending)] (\<lambda>_ _. 0) mint) (mt_last_record tp))"
  by (rule block_tops_exact [OF wit_live_inv])
    (simp_all add: wit_live_def wit_pending_def pending_ok_def)

end
