(* ===== verification/Save_Block.thy ===== *)
theory Save_Block
  imports "HOL-Library.Monad_Syntax" Finalizer Owner_Map Supply_Tracker Largest_Accounts Mint_Indexer
begin

text \<open>
  The path of a confirmed block through the indexer (\<open>index/src/modules/save_block.rs\<close>, \<open>snapshot.rs\<close> and
  the statements of \<open>db_queries.rs\<close>): the stake map, the largest-accounts and supply trackers and the mint
  cache see the block, its accounts become rows and masks, the finalizer records it, and the slot is
  published once the rows are written. It composes the operations of the component theories in the order
  of the code.

  Tasks that the path spawns and does not wait for (the mint write, the supply row) appear as the work they
  are handed. What a statement does is an argument, in \<open>write_outcomes\<close>.
\<close>

section \<open>State\<close>

record confirmed_block = grpc_block +
  gb_block_height :: "u64 option"

record index_config =
  ic_programs :: account_selector
  ic_has_snapshot :: bool
  ic_chunk_size :: nat
  ic_max_chunk_bytes_data :: nat
  ic_sysvar :: sysvar_codec
  ic_mint :: mint_codec

record indexer_db =
  ib_tables :: db_tables
  ib_records :: record_table
  ib_members :: members_row
  ib_supply :: supply_table
  ib_recent_blockhashes :: "(int, string \<times> int option) fmap"

record indexer_state =
  ix_finalizer :: finalizer
  ix_owner_map :: owner_map
  ix_largest :: "(largest_shared \<times> tracker_state) option"
  ix_nc :: "(nc_shared \<times> nc_state) option"
  ix_supply :: "supply_state option"
  ix_mint :: "mint_indexer option"
  ix_mint_write :: "mint_write option"
  ix_db :: indexer_db

text \<open>What the statements of one block do. \<open>wo_closed_at\<close> is how many chunk inserts land before the closed
  accounts are read, since both run at once; \<open>wo_pick\<close> is the row \<open>DISTINCT ON\<close> keeps among the newest.\<close>

record write_outcomes =
  wo_health :: bool
  wo_chunk :: "nat \<Rightarrow> stmt_outcome"
  wo_closed :: "nat \<Rightarrow> stmt_outcome"
  wo_closed_at :: nat
  wo_pick :: "db_row list \<Rightarrow> db_row"
  wo_prev :: "nat \<Rightarrow> prev_read"
  wo_largest_delete :: "pubkey \<Rightarrow> bool"
  wo_largest_persist :: bool
  wo_members :: bool
  wo_slot :: bool
  wo_blockhash :: "stmt_outcome \<times> stmt_outcome"
  wo_supply_row :: bool

section \<open>Startup\<close>

text \<open>\<open>process_snapshot_if_needed\<close> and the end of the task it spawns. Whether the load was started is the
  second component.\<close>

definition process_snapshot_if_needed :: "bool \<Rightarrow> bool \<Rightarrow> finalizer \<Rightarrow> finalizer \<times> bool" where
  "process_snapshot_if_needed has_snapshot db_ok fz =
     (if \<not> has_snapshot then (finish_startup_without_snapshot db_ok fz, False)
      else if fz_snapshot_state fz \<noteq> NotStarted then (fz, False)
      else (fz \<lparr>fz_snapshot_state := Started\<rparr>, True))"

definition snapshot_processed :: "finalizer \<Rightarrow> finalizer" where
  "snapshot_processed fz = fz \<lparr>fz_snapshot_state := Finished\<rparr>"

section \<open>The accounts of a block\<close>

definition account_row_of :: "u64 \<Rightarrow> grpc_account \<Rightarrow> db_row" where
  "account_row_of slot account =
     \<lparr>dr_pubkey = ga_pubkey account, dr_owner = ga_owner account, dr_lamports = sint (ga_lamports account),
      dr_slot = sint slot, dr_executable = ga_executable account, dr_rent_epoch = uint (ga_rent_epoch account),
      dr_data = ga_data account, dr_write_version = sint (ga_write_version account)\<rparr>"

definition is_new_owner_included :: "account_selector \<Rightarrow> u8 list \<Rightarrow> bool" where
  "is_new_owner_included programs owner =
     (if sel_include programs \<noteq> [] then List.member (map to_bytes (sel_include programs)) owner
      else \<not> List.member (map to_bytes (sel_exclude programs)) owner)"

record save_loop =
  sl_owner_map :: owner_map
  sl_chunks :: "db_row list list"
  sl_current_chunk :: "db_row list"
  sl_current_chunk_bytes :: nat
  sl_updated_accounts :: "u8 list list"
  sl_updated_owners :: "u8 list list"
  sl_closed_accounts :: "u8 list list"

definition push_row :: "index_config \<Rightarrow> db_row \<Rightarrow> save_loop \<Rightarrow> save_loop" where
  "push_row config row l =
     (let chunk = sl_current_chunk l @ [row]; bytes = sl_current_chunk_bytes l + length (dr_data row)
      in if ic_chunk_size config \<le> length chunk \<or> ic_max_chunk_bytes_data config \<le> bytes
         then l \<lparr>sl_chunks := sl_chunks l @ [chunk], sl_current_chunk := [], sl_current_chunk_bytes := 0\<rparr>
         else l \<lparr>sl_current_chunk := chunk, sl_current_chunk_bytes := bytes\<rparr>)"

text \<open>One turn of the loop over the accounts; \<open>None\<close> is a panic on a malformed key or owner. The owner of a
  closed account is only decoded for the warning.\<close>

definition save_account :: "index_config \<Rightarrow> bool \<Rightarrow> u64 \<Rightarrow> grpc_account \<Rightarrow> save_loop \<Rightarrow> save_loop option" where
  "save_account config capture_owners slot account l =
     (case try_from (ga_pubkey account) of
        None \<Rightarrow> None
      | Some _ \<Rightarrow>
          if ga_lamports account = 0
          then
            if (ga_data account \<noteq> [] \<or> ga_owner account \<noteq> replicate 32 0) \<and> try_from (ga_owner account) = None
            then None
            else Some (l \<lparr>sl_closed_accounts := sl_closed_accounts l @ [ga_pubkey account]\<rparr>)
          else
            let included = is_new_owner_included (ic_programs config) (ga_owner account)
            in case account_to_be_deleted (ga_pubkey account) (ga_owner account) slot included (sl_owner_map l) of
                 None \<Rightarrow> None
               | Some deleted \<Rightarrow>
                   let l = (if deleted then l \<lparr>sl_closed_accounts := sl_closed_accounts l @ [ga_pubkey account]\<rparr> else l)
                   in if \<not> included then Some l
                      else case upsert_account (ga_pubkey account) (ga_owner account) slot (sl_owner_map l) of
                             None \<Rightarrow> None
                           | Some om \<Rightarrow>
                               Some (push_row config (account_row_of slot account)
                                 (l \<lparr>sl_owner_map := om,
                                     sl_updated_accounts := sl_updated_accounts l @ [ga_pubkey account],
                                     sl_updated_owners := (if capture_owners then sl_updated_owners l @ [ga_owner account]
                                                           else sl_updated_owners l)\<rparr>)))"

definition save_accounts :: "index_config \<Rightarrow> u64 \<Rightarrow> grpc_account list \<Rightarrow> owner_map \<Rightarrow> save_loop option" where
  "save_accounts config slot accounts om =
     map_option (\<lambda>l. if sl_current_chunk l = [] then l
                     else l \<lparr>sl_chunks := sl_chunks l @ [sl_current_chunk l], sl_current_chunk := []\<rparr>)
       (fold_option (save_account config (om_is_enabled om) slot) accounts
          \<lparr>sl_owner_map = om, sl_chunks = [], sl_current_chunk = [], sl_current_chunk_bytes = 0,
           sl_updated_accounts = [], sl_updated_owners = [], sl_closed_accounts = []\<rparr>)"

section \<open>The writes\<close>

definition INSERT_CLOSED_ACCOUNTS_BATCH_SIZE :: nat where "INSERT_CLOSED_ACCOUNTS_BATCH_SIZE = 500"

text \<open>A statement that inserts rows: it lands when it succeeds and may land when it fails.\<close>

definition landed :: "stmt_outcome \<Rightarrow> bool" where
  "landed outcome = (case outcome of Applied \<Rightarrow> True | Failed l \<Rightarrow> l)"

definition insert_rows :: "stmt_outcome \<Rightarrow> db_row list \<Rightarrow> db_tables \<Rightarrow> db_tables" where
  "insert_rows outcome rows db = (if landed outcome then db \<lparr>tb_accounts := tb_accounts db @ rows\<rparr> else db)"

definition insert_accounts_chunk :: "stmt_outcome \<Rightarrow> db_row list \<Rightarrow> db_tables \<Rightarrow> db_tables \<times> bool" where
  "insert_accounts_chunk outcome chunk db = (insert_rows outcome chunk db, outcome = Applied)"

fun insert_chunks :: "(nat \<Rightarrow> stmt_outcome) \<Rightarrow> nat \<Rightarrow> db_row list list \<Rightarrow> db_tables \<Rightarrow> db_tables \<times> bool" where
  "insert_chunks outcome i [] db = (db, True)"
| "insert_chunks outcome i (chunk # later) db =
     (let (db, ok) = insert_accounts_chunk (outcome i) chunk db;
          (db, rest) = insert_chunks outcome (Suc i) later db
      in (db, ok \<and> rest))"

text \<open>\<open>insertClosedAccount.sql\<close> for one batch: a mask under the newest owner of every key that has a row.\<close>

definition closed_masks :: "(db_row list \<Rightarrow> db_row) \<Rightarrow> u8 list list \<Rightarrow> u64 \<Rightarrow> db_tables \<Rightarrow> db_row list" where
  "closed_masks pick batch slot db =
     List.map_filter (\<lambda>key.
         let rows = filter (\<lambda>r. dr_pubkey r = key) (tb_accounts db @ tb_snapshot_accounts db)
         in if rows = [] then None
            else Some (mask_row slot (key, dr_owner (pick (filter (\<lambda>r. \<forall>r' \<in> set rows. dr_slot r' \<le> dr_slot r) rows)))))
       (remdups batch)"

fun insert_closed_batches ::
  "(db_row list \<Rightarrow> db_row) \<Rightarrow> (nat \<Rightarrow> stmt_outcome) \<Rightarrow> nat \<Rightarrow> u64 \<Rightarrow> u8 list list list \<Rightarrow> db_tables \<Rightarrow> db_tables \<times> bool" where
  "insert_closed_batches pick outcome i slot [] db = (db, True)"
| "insert_closed_batches pick outcome i slot (batch # batches) db =
     (let db = insert_rows (outcome i) (closed_masks pick batch slot db) db;
          (db, rest) = insert_closed_batches pick outcome (Suc i) slot batches db
      in (db, outcome i = Applied \<and> rest))"

text \<open>\<open>None\<close> is a panic of the task, which the caller counts as a failed write.\<close>

definition insert_closed_accounts ::
  "(db_row list \<Rightarrow> db_row) \<Rightarrow> (nat \<Rightarrow> stmt_outcome) \<Rightarrow> u8 list list \<Rightarrow> u64 \<Rightarrow> owner_map \<times> db_tables \<Rightarrow> (owner_map \<times> db_tables) \<times> bool" where
  "insert_closed_accounts pick outcome closed slot = (\<lambda>(om, db).
     if om_is_enabled om
     then case save_closed_accounts closed slot om of
            None \<Rightarrow> ((om, db), False)
          | Some (om, masks) \<Rightarrow> ((om, insert_rows (outcome 0) masks db), outcome 0 = Applied)
     else let (db, ok) = insert_closed_batches pick outcome 0 slot (chunks INSERT_CLOSED_ACCOUNTS_BATCH_SIZE closed) db
          in ((om, db), ok))"

text \<open>The future \<open>block_writes\<close>: the chunk inserts, with the closed accounts in between.\<close>

definition block_writes ::
  "write_outcomes \<Rightarrow> db_row list list \<Rightarrow> u8 list list option \<Rightarrow> u64 \<Rightarrow> owner_map \<times> db_tables \<Rightarrow> (owner_map \<times> db_tables) \<times> bool" where
  "block_writes wo chunked closed slot = (\<lambda>(om, db).
     let n = min (wo_closed_at wo) (length chunked);
         (db, ok1) = insert_chunks (wo_chunk wo) 0 (take n chunked) db;
         ((om, db), ok2) = (case closed of
            None \<Rightarrow> ((om, db), True)
          | Some closed \<Rightarrow> insert_closed_accounts (wo_pick wo) (wo_closed wo) closed slot (om, db));
         (db, ok3) = insert_chunks (wo_chunk wo) n (drop n chunked) db
     in ((om, db), ok1 \<and> ok2 \<and> ok3))"

definition RECENT_BLOCKHASH_RETENTION_SLOTS :: u64 where "RECENT_BLOCKHASH_RETENTION_SLOTS = 900"

text \<open>The insert and the prune after it run under one timeout.\<close>

definition insert_recent_blockhash ::
  "stmt_outcome \<times> stmt_outcome \<Rightarrow> u64 \<Rightarrow> string \<Rightarrow> u64 option \<Rightarrow>
   (int, string \<times> int option) fmap \<Rightarrow> (int, string \<times> int option) fmap" where
  "insert_recent_blockhash = (\<lambda>(inserted, pruned) slot blockhash block_height table.
     (if blockhash = [] then table
      else
        let table = (if landed inserted then fmupd (sint slot) (blockhash, map_option sint block_height) table else table)
        in if inserted = Applied \<and> landed pruned
           then fmfilter (\<lambda>s. \<not> s < sint (saturating_sub slot RECENT_BLOCKHASH_RETENTION_SLOTS)) table
           else table))"

section \<open>The whole path\<close>

text \<open>The stake map, when it runs; the other trackers see its result.\<close>

definition apply_stake ::
  "index_config \<Rightarrow> confirmed_block \<Rightarrow> indexer_state \<Rightarrow> (indexer_state \<times> stake_block) option" where
  "apply_stake config block s =
     (case ix_nc s of
        None \<Rightarrow> Some (s, default_block)
      | Some (shared, st) \<Rightarrow>
          map_option (\<lambda>(st, stake). (s \<lparr>ix_nc := Some (shared, st)\<rparr>, stake))
            (nc_apply_block (ic_sysvar config) shared (gb_slot block) (gb_blockhash block = []) (gb_accounts block) st))"

definition nc_tracker :: "indexer_state \<Rightarrow> nc_state option" where
  "nc_tracker s = map_option snd (ix_nc s)"

definition apply_mint :: "index_config \<Rightarrow> u64 option \<Rightarrow> confirmed_block \<Rightarrow> indexer_state \<Rightarrow> indexer_state" where
  "apply_mint config lowest_gap block s =
     (case ix_mint s of
        None \<Rightarrow> s
      | Some mi \<Rightarrow>
          (case mint_on_block (ic_mint config) (gb_slot block) (gb_accounts block) lowest_gap mi of
             (mi, None) \<Rightarrow> s \<lparr>ix_mint := Some mi\<rparr>
           | (mi, Some write) \<Rightarrow> s \<lparr>ix_mint := Some mi, ix_mint_write := Some write\<rparr>))"

definition received_of :: "confirmed_block \<Rightarrow> (u8 list \<times> u8 list) list \<Rightarrow> save_loop \<Rightarrow> accounts_received" where
  "received_of block pairs l =
     \<lparr>rc_block_time = gb_block_time block, rc_accounts = sl_updated_accounts l,
      rc_accounts_owners = sl_updated_owners l, rc_closed_accounts = sl_closed_accounts l,
      rc_closed_cleanup_pubkeys = map fst pairs, rc_closed_cleanup_owners = map snd pairs\<rparr>"

text \<open>The loop over the accounts, the record of the finalizer and the work for the tables. The closed
  accounts are held back until the snapshot is in place.\<close>

definition plan_writes ::
  "index_config \<Rightarrow> confirmed_block \<Rightarrow> indexer_state \<Rightarrow> (indexer_state \<times> db_row list list \<times> u8 list list option) option" where
  "plan_writes config block s =
     (case save_accounts config (gb_slot block) (gb_accounts block) (ix_owner_map s) of
        None \<Rightarrow> None
      | Some l \<Rightarrow>
          map_option (\<lambda>pairs.
              let fz = ix_finalizer s
              in (s \<lparr>ix_owner_map := sl_owner_map l,
                     ix_finalizer := fz \<lparr>fz_inner := record_block (gb_slot block) (received_of block pairs l)
                       (gb_blockhash block) (gb_parent_slot block) (gb_parent_blockhash block) (fz_inner fz)\<rparr>\<rparr>,
                  sl_chunks l,
                  if fz_snapshot_state fz \<in> {Finished, FinishedAndCleanedUp} then Some (sl_closed_accounts l) else None))
            (if om_is_enabled (ix_owner_map s)
             then closed_cleanup_pairs (sl_closed_accounts l) (gb_slot block) (sl_owner_map l)
             else Some []))"

definition run_block_writes ::
  "write_outcomes \<Rightarrow> u64 \<Rightarrow> db_row list list \<times> u8 list list option \<Rightarrow> indexer_state \<Rightarrow> indexer_state \<times> bool" where
  "run_block_writes wo slot = (\<lambda>(chunked, closed) s.
     let ((om, tables), ok) = block_writes wo chunked closed slot (ix_owner_map s, ib_tables (ix_db s))
     in (s \<lparr>ix_owner_map := om, ix_db := (ix_db s) \<lparr>ib_tables := tables\<rparr>\<rparr>, ok))"

definition apply_supply ::
  "write_outcomes \<Rightarrow> confirmed_block \<Rightarrow> pending list \<Rightarrow> stake_block \<Rightarrow> indexer_state \<Rightarrow> indexer_state \<times> block_outcome" where
  "apply_supply wo block pendings stake s =
     (case ix_supply s of
        None \<Rightarrow> (s, Idle)
      | Some st \<Rightarrow>
          let (st, outcome) = supply_apply_block (wo_prev wo) (gb_slot block) (gb_blockhash block = []) pendings stake st
          in (s \<lparr>ix_supply := Some st\<rparr>, outcome))"

definition commit_largest ::
  "write_outcomes \<Rightarrow> u64 \<Rightarrow> (pubkey, pending_largest) fmap \<Rightarrow> indexer_state \<Rightarrow> indexer_state option" where
  "commit_largest wo slot pendings s =
     (case ix_largest s of
        None \<Rightarrow> Some s
      | Some (shared, st) \<Rightarrow>
          map_option (\<lambda>(st, table). s \<lparr>ix_largest := Some (shared, st), ix_db := (ix_db s) \<lparr>ib_records := table\<rparr>\<rparr>)
            (largest_commit_block shared (wo_largest_delete wo) (wo_largest_persist wo) slot (fm_entries pendings)
               (st, ib_records (ix_db s))))"

text \<open>The end of the block for the supply, with the row its task writes.\<close>

definition finish_supply ::
  "write_outcomes \<Rightarrow> u64 \<Rightarrow> block_outcome \<Rightarrow> bool \<Rightarrow> indexer_state \<Rightarrow> indexer_state" where
  "finish_supply wo slot outcome saved_ok s =
     (case ix_supply s of
        None \<Rightarrow> s
      | Some st \<Rightarrow>
          (case finish_block (nc_total (nc_tracker s)) slot outcome saved_ok st of
             (st, None) \<Rightarrow> s \<lparr>ix_supply := Some st\<rparr>
           | (st, Some row) \<Rightarrow>
               s \<lparr>ix_supply := Some st,
                  ix_db := (ix_db s) \<lparr>ib_supply := persist_supply_row (wo_supply_row wo) row (ib_supply (ix_db s))\<rparr>\<rparr>))"

definition publish_slot :: "write_outcomes \<Rightarrow> confirmed_block \<Rightarrow> indexer_state \<Rightarrow> indexer_state" where
  "publish_slot wo block s =
     (let fz = ix_finalizer s; h = fz_health fz
      in s \<lparr>ix_finalizer := fz \<lparr>fz_health := h \<lparr>sh_rows := insert_slot (wo_slot wo) (gb_slot block) (gb_block_time block)
                (Some (gb_blockhash block)) Confirmed (health_ok h) (sh_rows h)\<rparr>\<rparr>,
            ix_db := (ix_db s) \<lparr>ib_recent_blockhashes := insert_recent_blockhash (wo_blockhash wo) (gb_slot block)
                (gb_blockhash block) (gb_block_height block) (ib_recent_blockhashes (ix_db s))\<rparr>\<rparr>)"

definition persist_stake :: "write_outcomes \<Rightarrow> stake_block \<Rightarrow> indexer_state \<Rightarrow> indexer_state" where
  "persist_stake wo stake s =
     (case ix_nc s of
        None \<Rightarrow> s
      | Some (shared, st) \<Rightarrow>
          s \<lparr>ix_db := (ix_db s) \<lparr>ib_members := nc_persist_block stake (wo_members wo) (Some st) (ib_members (ix_db s))\<rparr>\<rparr>)"

definition start_block :: "index_config \<Rightarrow> write_outcomes \<Rightarrow> indexer_state \<Rightarrow> indexer_state" where
  "start_block config wo s =
     s \<lparr>ix_finalizer := fst (process_snapshot_if_needed (ic_has_snapshot config) (wo_health wo) (ix_finalizer s))\<rparr>"

definition supply_pending_of :: "confirmed_block \<Rightarrow> indexer_state \<Rightarrow> pending list option" where
  "supply_pending_of block s =
     (case ix_supply s of None \<Rightarrow> Some [] | Some _ \<Rightarrow> build_block_pending (gb_accounts block))"

text \<open>\<open>save_block\<close>: \<open>None\<close> is a panic.\<close>

definition save_block ::
  "index_config \<Rightarrow> u64 option \<Rightarrow> write_outcomes \<Rightarrow> confirmed_block \<Rightarrow> indexer_state \<Rightarrow> indexer_state option" where
  "save_block config lowest_gap wo block s = do {
     (s, stake) \<leftarrow> apply_stake config block (start_block config wo s);
     let largest_pending = largest_build_pending (map_option fst (ix_largest s)) (gb_accounts block)
       (nc_tracker s) (sk_expired stake);
     supply_pending \<leftarrow> supply_pending_of block s;
     (s, chunked, closed) \<leftarrow> plan_writes config block (apply_mint config lowest_gap block s);
     let (s, outcome) = apply_supply wo block supply_pending stake s;
     let (s, saved_ok) = run_block_writes wo (gb_slot block) (chunked, closed) s;
     s \<leftarrow> commit_largest wo (gb_slot block) largest_pending s;
     Some (finish_supply wo (gb_slot block) outcome saved_ok (publish_slot wo block (persist_stake wo stake s)))
   }"

section \<open>The loop without the owner map\<close>

definition is_saved :: "index_config \<Rightarrow> grpc_account \<Rightarrow> bool" where
  "is_saved config account \<longleftrightarrow> ga_lamports account \<noteq> 0 \<and> is_new_owner_included (ic_programs config) (ga_owner account)"

definition saved_rows :: "index_config \<Rightarrow> u64 \<Rightarrow> grpc_account list \<Rightarrow> db_row list" where
  "saved_rows config slot accounts = map (account_row_of slot) (filter (is_saved config) accounts)"

definition closed_keys :: "grpc_account list \<Rightarrow> u8 list list" where
  "closed_keys accounts = map ga_pubkey (filter (\<lambda>a. ga_lamports a = 0) accounts)"

definition well_formed :: "grpc_account \<Rightarrow> bool" where
  "well_formed account \<longleftrightarrow> length (ga_pubkey account) = 32 \<and> length (ga_owner account) = 32"

definition collected :: "save_loop \<Rightarrow> db_row list" where
  "collected l = concat (sl_chunks l) @ sl_current_chunk l"

definition adds :: "save_loop \<Rightarrow> db_row list \<Rightarrow> u8 list list \<Rightarrow> save_loop \<Rightarrow> bool" where
  "adds l rows closed l' \<longleftrightarrow> sl_owner_map l' = sl_owner_map l \<and> collected l' = collected l @ rows
     \<and> sl_updated_accounts l' = sl_updated_accounts l @ map dr_pubkey rows
     \<and> sl_updated_owners l' = sl_updated_owners l \<and> sl_closed_accounts l' = sl_closed_accounts l @ closed"

lemma adds_refl: "adds l [] [] l"
  by (simp add: adds_def)

lemma adds_trans: "adds l rs cs l' \<Longrightarrow> adds l' rs' cs' l'' \<Longrightarrow> adds l (rs @ rs') (cs @ cs') l''"
  by (simp add: adds_def)

lemma push_row_collected: "collected (push_row config row l) = collected l @ [row]"
  by (simp add: push_row_def collected_def Let_def)

lemma push_row_fields [simp]:
  "sl_owner_map (push_row config row l) = sl_owner_map l"
  "sl_updated_accounts (push_row config row l) = sl_updated_accounts l"
  "sl_updated_owners (push_row config row l) = sl_updated_owners l"
  "sl_closed_accounts (push_row config row l) = sl_closed_accounts l"
  by (simp_all add: push_row_def Let_def)

lemma save_account_off:
  assumes "\<not> om_is_enabled (sl_owner_map l)" and "well_formed account"
  obtains l' where "save_account config False slot account l = Some l'"
    and "adds l (saved_rows config slot [account]) (closed_keys [account]) l'"
proof -
  obtain key owner where parts: "try_from (ga_pubkey account) = Some key" "try_from (ga_owner account) = Some owner"
    using assms(2) by (auto simp: well_formed_def try_from_def)
  have off: "om_accounts (sl_owner_map l) = None" using assms(1) by (simp add: om_is_enabled_def)
  have "\<exists>l'. save_account config False slot account l = Some l'
      \<and> adds l (saved_rows config slot [account]) (closed_keys [account]) l'"
  proof (cases "ga_lamports account = 0")
    case True
    then show ?thesis
      by (simp add: save_account_def parts adds_def saved_rows_def is_saved_def closed_keys_def collected_def)
  next
    case False
    then show ?thesis
      by (cases "is_new_owner_included (ic_programs config) (ga_owner account)")
        (simp_all add: save_account_def parts account_to_be_deleted_def check_updated_account_owner_def
          upsert_account_def off adds_def saved_rows_def is_saved_def closed_keys_def account_row_of_def
          push_row_collected Let_def, simp_all add: collected_def)
  qed
  then show thesis using that by blast
qed

lemma save_loop_off:
  assumes "\<not> om_is_enabled (sl_owner_map l)" and "\<forall>a \<in> set accounts. well_formed a"
  shows "\<exists>l'. fold_option (save_account config False slot) accounts l = Some l'
    \<and> adds l (saved_rows config slot accounts) (closed_keys accounts) l'"
  using assms
proof (induction accounts arbitrary: l)
  case Nil
  then show ?case by (simp add: saved_rows_def closed_keys_def adds_refl)
next
  case (Cons a accounts)
  have wf: "well_formed a" using Cons.prems(2) by simp
  obtain l1 where l1: "save_account config False slot a l = Some l1"
    "adds l (saved_rows config slot [a]) (closed_keys [a]) l1"
    by (rule save_account_off [OF Cons.prems(1) wf])
  have "\<not> om_is_enabled (sl_owner_map l1)" using l1(2) Cons.prems(1) by (simp add: adds_def)
  from Cons.IH [OF this] obtain l' where "fold_option (save_account config False slot) accounts l1 = Some l'"
    "adds l1 (saved_rows config slot accounts) (closed_keys accounts) l'"
    using Cons.prems(2) by auto
  moreover have "adds l (saved_rows config slot (a # accounts)) (closed_keys (a # accounts)) l'"
    using adds_trans [OF l1(2) calculation(2)] by (simp add: saved_rows_def closed_keys_def split: if_splits)
  ultimately show ?case using l1(1) by auto
qed

lemma save_accounts_off:
  assumes "\<not> om_is_enabled om" and "\<forall>a \<in> set accounts. well_formed a"
  obtains l where "save_accounts config slot accounts om = Some l" and "sl_owner_map l = om"
    and "concat (sl_chunks l) = saved_rows config slot accounts"
    and "sl_updated_accounts l = map dr_pubkey (saved_rows config slot accounts)"
    and "sl_updated_owners l = []" and "sl_closed_accounts l = closed_keys accounts"
proof -
  define l0 where "l0 = \<lparr>sl_owner_map = om, sl_chunks = [], sl_current_chunk = [], sl_current_chunk_bytes = 0,
    sl_updated_accounts = [], sl_updated_owners = [], sl_closed_accounts = []\<rparr>"
  have "\<not> om_is_enabled (sl_owner_map l0)" using assms(1) by (simp add: l0_def)
  from save_loop_off [OF this assms(2), of config slot] obtain l where
    l: "fold_option (save_account config False slot) accounts l0 = Some l"
      "adds l0 (saved_rows config slot accounts) (closed_keys accounts) l" by blast
  let ?l = "if sl_current_chunk l = [] then l
    else l \<lparr>sl_chunks := sl_chunks l @ [sl_current_chunk l], sl_current_chunk := []\<rparr>"
  have "save_accounts config slot accounts om = Some ?l"
    unfolding save_accounts_def l0_def [symmetric] using assms(1) l(1) by simp
  moreover have "concat (sl_chunks ?l) = saved_rows config slot accounts"
    using l(2) by (auto simp: adds_def collected_def l0_def)
  ultimately show thesis using l(2) by (intro that [of ?l]) (simp_all add: adds_def l0_def)
qed

section \<open>What the writes do\<close>

definition all_rows :: "db_tables \<Rightarrow> db_row set" where
  "all_rows db = set (tb_accounts db) \<union> set (tb_snapshot_accounts db)"

text \<open>The masks that close \<open>keys\<close> at a slot: one for every key that has a row.\<close>

definition masks_of :: "u64 \<Rightarrow> u8 list list \<Rightarrow> db_tables \<Rightarrow> db_row list \<Rightarrow> bool" where
  "masks_of slot keys db masks \<longleftrightarrow>
     (\<forall>m \<in> set masks. dr_lamports m = 0 \<and> dr_slot m = sint slot \<and> dr_pubkey m \<in> set keys) \<and>
     (\<forall>r \<in> all_rows db. dr_pubkey r \<in> set keys \<longrightarrow> dr_pubkey r \<in> dr_pubkey ` set masks)"

lemma masks_of_closed_masks: "masks_of slot batch db (closed_masks pick batch slot db)"
proof -
  have "dr_pubkey r \<in> dr_pubkey ` set (closed_masks pick batch slot db)"
    if "r \<in> all_rows db" "dr_pubkey r \<in> set batch" for r
  proof -
    have "filter (\<lambda>r'. dr_pubkey r' = dr_pubkey r) (tb_accounts db @ tb_snapshot_accounts db) \<noteq> []"
      using that(1) by (auto simp: filter_empty_conv all_rows_def)
    then have "\<exists>owner. mask_row slot (dr_pubkey r, owner) \<in> set (closed_masks pick batch slot db)"
      using that(2) by (auto simp: closed_masks_def in_set_map_filter Let_def simp del: filter_append)
    then obtain m where "m \<in> set (closed_masks pick batch slot db)" "dr_pubkey m = dr_pubkey r"
      by (auto simp: mask_row_def)
    then show ?thesis by (metis image_eqI)
  qed
  then show ?thesis
    by (auto simp: masks_of_def closed_masks_def in_set_map_filter mask_row_def Let_def split: if_splits)
qed

lemma masks_of_append:
  assumes "masks_of slot ks db ms" and "masks_of slot ks' (db \<lparr>tb_accounts := tb_accounts db @ ms\<rparr>) ms'"
  shows "masks_of slot (ks @ ks') db (ms @ ms')"
  using assms by (auto simp: masks_of_def all_rows_def image_Un)

lemma insert_rows_applied [simp]: "insert_rows Applied rows db = db \<lparr>tb_accounts := tb_accounts db @ rows\<rparr>"
  by (simp add: insert_rows_def landed_def)

lemma insert_closed_applied:
  "\<exists>masks. insert_closed_batches pick (\<lambda>_. Applied) i slot batches db = (db \<lparr>tb_accounts := tb_accounts db @ masks\<rparr>, True)
     \<and> masks_of slot (concat batches) db masks"
proof (induction batches arbitrary: i db)
  case Nil
  have "db = db \<lparr>tb_accounts := tb_accounts db @ []\<rparr>" by simp
  moreover have "masks_of slot [] db []" by (simp add: masks_of_def)
  ultimately show ?case by (metis concat.simps(1) insert_closed_batches.simps(1))
next
  case (Cons batch batches)
  let ?ms = "closed_masks pick batch slot db"
  from Cons.IH [of "Suc i" "db \<lparr>tb_accounts := tb_accounts db @ ?ms\<rparr>"] obtain ms' where
    "insert_closed_batches pick (\<lambda>_. Applied) (Suc i) slot batches (db \<lparr>tb_accounts := tb_accounts db @ ?ms\<rparr>)
       = (db \<lparr>tb_accounts := (tb_accounts db @ ?ms) @ ms'\<rparr>, True)"
    "masks_of slot (concat batches) (db \<lparr>tb_accounts := tb_accounts db @ ?ms\<rparr>) ms'" by auto
  then show ?case
    using masks_of_append [OF masks_of_closed_masks [of slot batch db pick]]
    by (intro exI [of _ "?ms @ ms'"]) simp
qed

lemma insert_chunks_applied:
  "insert_chunks (\<lambda>_. Applied) i cs db = (db \<lparr>tb_accounts := tb_accounts db @ concat cs\<rparr>, True)"
  by (induction cs arbitrary: i db) (simp_all add: insert_accounts_chunk_def)

definition all_applied :: "write_outcomes \<Rightarrow> bool" where
  "all_applied wo \<longleftrightarrow> wo_chunk wo = (\<lambda>_. Applied) \<and> wo_closed wo = (\<lambda>_. Applied)"

text \<open>Wherever the closed accounts are read among the chunk inserts, a key that had a row gets its mask.\<close>

lemma block_writes_applied:
  assumes "all_applied wo" and "\<not> om_is_enabled om"
  obtains before masks after where "concat cs = before @ after"
    and "block_writes wo cs (Some keys) slot (om, db)
      = ((om, db \<lparr>tb_accounts := tb_accounts db @ before @ masks @ after\<rparr>), True)"
    and "masks_of slot keys db masks"
proof -
  define n where "n = min (wo_closed_at wo) (length cs)"
  define before where "before = concat (take n cs)"
  let ?db = "db \<lparr>tb_accounts := tb_accounts db @ before\<rparr>"
  have cs: "concat cs = before @ concat (drop n cs)"
    unfolding before_def by (metis append_take_drop_id concat_append)
  have "concat (chunks INSERT_CLOSED_ACCOUNTS_BATCH_SIZE keys) = keys"
    by (simp add: INSERT_CLOSED_ACCOUNTS_BATCH_SIZE_def)
  then obtain masks where m: "insert_closed_batches (wo_pick wo) (\<lambda>_. Applied) 0 slot (chunks INSERT_CLOSED_ACCOUNTS_BATCH_SIZE keys) ?db
      = (?db \<lparr>tb_accounts := tb_accounts ?db @ masks\<rparr>, True)" "masks_of slot keys ?db masks"
    using insert_closed_applied by metis
  have "masks_of slot keys db masks" using m(2) unfolding masks_of_def all_rows_def by auto
  moreover have "block_writes wo cs (Some keys) slot (om, db)
      = ((om, db \<lparr>tb_accounts := tb_accounts db @ before @ masks @ concat (drop n cs)\<rparr>), True)"
    using assms(1,2) m(1)
    by (simp add: block_writes_def all_applied_def insert_chunks_applied insert_closed_accounts_def
        n_def [symmetric] before_def [symmetric] Let_def split_beta)
  ultimately show thesis using that cs by blast
qed

section \<open>Reading a saved block\<close>

lemma answers_versions: "answers P key max_slot db = answers_of (versions P key max_slot (tb_accounts db @ tb_snapshot_accounts db))"
  by (simp add: answers_def)

lemma in_versions_iff:
  "r \<in> set (versions P key max_slot (tb_accounts db @ tb_snapshot_accounts db)) \<longleftrightarrow>
     r \<in> all_rows db \<and> P r \<and> dr_pubkey r = key \<and> dr_slot r \<le> max_slot"
  by (auto simp: all_rows_def)

lemma answers_cong:
  assumes "\<And>r. P r \<Longrightarrow> dr_pubkey r = key \<Longrightarrow> r \<in> all_rows db' \<longleftrightarrow> r \<in> all_rows db"
  shows "answers P key max_slot db' = answers P key max_slot db"
proof -
  have "set (versions P key max_slot (tb_accounts db' @ tb_snapshot_accounts db'))
      = set (versions P key max_slot (tb_accounts db @ tb_snapshot_accounts db))"
    using assms unfolding set_eq_iff in_versions_iff by blast
  then show ?thesis
    unfolding answers_versions newest_def by (intro answers_of_cong) (auto simp: newest_def simp del: versions_append)
qed

lemma answers_newest:
  assumes "row \<in> all_rows db" and "P row" and "dr_pubkey row = key" and "dr_slot row \<le> max_slot" and "0 < dr_lamports row"
    and "\<And>r. r \<in> all_rows db \<Longrightarrow> dr_pubkey r = key \<Longrightarrow> r = row \<or> dr_slot r < dr_slot row"
  shows "answers P key max_slot db = {Some row}"
proof -
  define vs where "vs = versions P key max_slot (tb_accounts db @ tb_snapshot_accounts db)"
  have row: "row \<in> set vs" using assms(1-4) unfolding vs_def in_versions_iff by blast
  have "r = row \<or> dr_slot r < dr_slot row" if "r \<in> set vs" for r
    using that assms(6) unfolding vs_def in_versions_iff by blast
  then have "newest vs = {row}" using row unfolding newest_def by fastforce
  then show ?thesis
    using row assms(5) unfolding answers_versions vs_def [symmetric] by (auto simp: answers_of_def visible_def)
qed

lemma answers_masked:
  assumes "\<And>r. r \<in> all_rows db \<Longrightarrow> P r \<Longrightarrow> dr_pubkey r = key \<Longrightarrow> dr_slot r \<le> max_slot \<Longrightarrow>
      dr_lamports r \<le> 0 \<or> (\<exists>m \<in> all_rows db. P m \<and> dr_pubkey m = key \<and> dr_slot m \<le> max_slot \<and> dr_slot r < dr_slot m)"
  shows "answers P key max_slot db = {None}"
  unfolding answers_versions
proof (rule answers_of_closed)
  fix r
  assume r: "r \<in> newest (versions P key max_slot (tb_accounts db @ tb_snapshot_accounts db))"
  then have mem: "r \<in> all_rows db" "P r" "dr_pubkey r = key" "dr_slot r \<le> max_slot"
    unfolding newest_def mem_Collect_eq in_versions_iff by blast+
  have "\<not> dr_slot r < dr_slot m" if "m \<in> all_rows db" "P m" "dr_pubkey m = key" "dr_slot m \<le> max_slot" for m
    using r that in_versions_iff [of m P key max_slot db] unfolding newest_def by force
  then show "dr_lamports r \<le> 0" using assms [OF mem] by blast
qed

text \<open>The rows of a table that are older than a block for all the keys it writes.\<close>

definition rows_older :: "u64 \<Rightarrow> grpc_account list \<Rightarrow> db_tables \<Rightarrow> bool" where
  "rows_older slot accounts db \<longleftrightarrow> (\<forall>r \<in> all_rows db.
     dr_pubkey r \<in> ga_pubkey ` set accounts \<longrightarrow> dr_slot r < sint slot)"

definition lamports_fit :: "grpc_account \<Rightarrow> bool" where
  "lamports_fit account \<longleftrightarrow> 0 \<le> sint (ga_lamports account)"

lemma lamports_fit_pos: "lamports_fit a \<Longrightarrow> ga_lamports a \<noteq> 0 \<Longrightarrow> 0 < sint (ga_lamports a)"
  by (metis lamports_fit_def order_le_less signed_eq_0_iff)

lemma set_saved_rows:
  "r \<in> set (saved_rows config slot accounts) \<longleftrightarrow> (\<exists>a \<in> set accounts. is_saved config a \<and> r = account_row_of slot a)"
  by (auto simp: saved_rows_def)

lemma set_closed_keys: "k \<in> set (closed_keys accounts) \<longleftrightarrow> (\<exists>a \<in> set accounts. ga_lamports a = 0 \<and> ga_pubkey a = k)"
  by (auto simp: closed_keys_def)

text \<open>The tables after the writes of a block: the rows before, those of the open accounts and the masks.\<close>

definition block_landed :: "index_config \<Rightarrow> u64 \<Rightarrow> grpc_account list \<Rightarrow> db_tables \<Rightarrow> db_tables \<Rightarrow> bool" where
  "block_landed config slot accounts db db' \<longleftrightarrow> (\<exists>masks. masks_of slot (closed_keys accounts) db masks \<and>
     all_rows db' = all_rows db \<union> set (saved_rows config slot accounts) \<union> set masks \<and>
     set masks \<subseteq> set (tb_accounts db'))"

lemma same_account_row:
  "distinct (map ga_pubkey accounts) \<Longrightarrow> a \<in> set accounts \<Longrightarrow> b \<in> set accounts \<Longrightarrow> ga_pubkey a = ga_pubkey b \<Longrightarrow> a = b"
  by (simp add: distinct_map inj_on_def)

lemma account_row_fields [simp]:
  "dr_pubkey (account_row_of slot a) = ga_pubkey a" "dr_slot (account_row_of slot a) = sint slot"
  "dr_owner (account_row_of slot a) = ga_owner a" "dr_lamports (account_row_of slot a) = sint (ga_lamports a)"
  by (simp_all add: account_row_of_def)

lemma read_saved:
  assumes "block_landed config slot accounts db db'" and "distinct (map ga_pubkey accounts)" and "rows_older slot accounts db"
    and "a \<in> set accounts" and "is_saved config a" and "lamports_fit a" and "P (account_row_of slot a)"
  shows "answers P (ga_pubkey a) (sint slot) db' = {Some (account_row_of slot a)}"
proof -
  obtain masks where m: "masks_of slot (closed_keys accounts) db masks"
    "all_rows db' = all_rows db \<union> set (saved_rows config slot accounts) \<union> set masks"
    using assms(1) unfolding block_landed_def by blast
  have same: "b = a" if "b \<in> set accounts" "ga_pubkey b = ga_pubkey a" for b
    using same_account_row [OF assms(2)] that assms(4) by blast
  have "r = account_row_of slot a \<or> dr_slot r < sint slot"
    if r: "r \<in> all_rows db'" "dr_pubkey r = ga_pubkey a" for r
  proof -
    consider "r \<in> all_rows db" | "r \<in> set (saved_rows config slot accounts)" | "r \<in> set masks"
      using r(1) unfolding m(2) by blast
    then show ?thesis
    proof cases
      case 1
      then show ?thesis using assms(3,4) r(2) by (simp add: rows_older_def)
    next
      case 2
      then obtain b where "b \<in> set accounts" "r = account_row_of slot b" by (auto simp: set_saved_rows)
      then show ?thesis using same [of b] r(2) by simp
    next
      case 3
      then have "ga_pubkey a \<in> set (closed_keys accounts)" using m(1) r(2) unfolding masks_of_def by metis
      then show ?thesis using same assms(5) unfolding set_closed_keys is_saved_def by blast
    qed
  qed
  moreover have "account_row_of slot a \<in> all_rows db'"
    using m(2) assms(4,5) by (auto simp: set_saved_rows)
  moreover have "0 < sint (ga_lamports a)" using assms(5,6) lamports_fit_pos by (simp add: is_saved_def)
  ultimately show ?thesis using assms(7) by (intro answers_newest) simp_all
qed

text \<open>The rows of a closed key: all are older than the block or masks of it, and there is a mask when there
  is a row.\<close>

lemma closed_key_rows:
  assumes "block_landed config slot accounts db db'" and "distinct (map ga_pubkey accounts)" and "rows_older slot accounts db"
    and "a \<in> set accounts" and "ga_lamports a = 0" and r: "r \<in> all_rows db'" "dr_pubkey r = ga_pubkey a"
  shows "dr_slot r < sint slot \<or> dr_slot r = sint slot \<and> dr_lamports r \<le> 0"
    and "\<exists>m \<in> set (tb_accounts db'). dr_pubkey m = ga_pubkey a \<and> dr_slot m = sint slot"
proof -
  obtain masks where m: "masks_of slot (closed_keys accounts) db masks"
    "all_rows db' = all_rows db \<union> set (saved_rows config slot accounts) \<union> set masks" "set masks \<subseteq> set (tb_accounts db')"
    using assms(1) unfolding block_landed_def by blast
  have key: "dr_pubkey r \<in> set (closed_keys accounts)" using assms(4,5) r(2) by (auto simp: set_closed_keys)
  have "r \<notin> set (saved_rows config slot accounts)"
    using same_account_row [OF assms(2) _ assms(4)] assms(5) r(2) by (fastforce simp: set_saved_rows is_saved_def)
  then have either: "r \<in> all_rows db \<or> r \<in> set masks" using r(1) unfolding m(2) by blast
  then show "dr_slot r < sint slot \<or> dr_slot r = sint slot \<and> dr_lamports r \<le> 0"
    using assms(3,4) m(1) r(2) by (auto simp: rows_older_def masks_of_def)
  from either have "dr_pubkey r \<in> dr_pubkey ` set masks" using m(1) key by (auto simp: masks_of_def)
  then obtain m' where "m' \<in> set masks" "dr_pubkey m' = dr_pubkey r" by (metis imageE)
  then show "\<exists>m \<in> set (tb_accounts db'). dr_pubkey m = ga_pubkey a \<and> dr_slot m = sint slot"
    using m(1,3) r(2) by (intro bexI [of _ m']) (auto simp: masks_of_def)
qed

lemma read_closed:
  assumes "block_landed config slot accounts db db'" and "distinct (map ga_pubkey accounts)" and "rows_older slot accounts db"
    and "a \<in> set accounts" and "ga_lamports a = 0"
  shows "get_account_info (ga_pubkey a) (sint slot) db' = {None}"
  unfolding get_account_info_def
proof (rule answers_masked, goal_cases)
  case (1 r)
  note rows = closed_key_rows [OF assms 1(1,3)]
  then obtain m where "m \<in> all_rows db'" "dr_pubkey m = ga_pubkey a" "dr_slot m = sint slot"
    by (auto simp: all_rows_def)
  then show ?case using rows(1) by force
qed

lemma read_untouched:
  assumes "block_landed config slot accounts db db'" and "\<And>a. a \<in> set accounts \<Longrightarrow> ga_pubkey a = key \<Longrightarrow> ga_lamports a \<noteq> 0 \<and> \<not> is_saved config a"
  shows "answers P key max_slot db' = answers P key max_slot db"
proof (rule answers_cong)
  fix r :: db_row
  assume r: "dr_pubkey r = key"
  obtain masks where m: "masks_of slot (closed_keys accounts) db masks"
    "all_rows db' = all_rows db \<union> set (saved_rows config slot accounts) \<union> set masks"
    using assms(1) unfolding block_landed_def by blast
  have "r \<notin> set masks" using m(1) r assms(2) by (auto simp: masks_of_def set_closed_keys)
  moreover have "r \<notin> set (saved_rows config slot accounts)" using r assms(2) by (auto simp: set_saved_rows)
  ultimately show "r \<in> all_rows db' \<longleftrightarrow> r \<in> all_rows db" using m(2) by blast
qed

section \<open>The path returns\<close>

text \<open>What the trackers need of a block: the stake map and a live largest-accounts tracker hold their
  invariants, the block is newer than the last one, and closed accounts carry no data.\<close>

definition trackers_ready :: "confirmed_block \<Rightarrow> indexer_state \<Rightarrow> bool" where
  "trackers_ready block s \<longleftrightarrow>
     (\<forall>shared st. ix_nc s = Some (shared, st) \<longrightarrow> nc_inv shared st) \<and>
     (\<forall>shared st. ix_largest s = Some (shared, st) \<longrightarrow>
        (\<exists>ledgers. live_inv shared ledgers st) \<and> ts_max_applied_slot st < gb_slot block \<and>
        (\<forall>mint. mint |\<in>| lg_tracked_mints shared \<longrightarrow> \<not> is_sentinel mint) \<and>
        (\<forall>a \<in> set (gb_accounts block). ga_lamports a = 0 \<longrightarrow> ga_data a = []))"

lemma token_balance_tracked:
  "token_balance tracked owned data = Some (mint, amount) \<Longrightarrow> mint |\<in>| tracked \<and> data \<noteq> []"
  by (auto simp: token_balance_def split: if_splits option.splits)

lemma build_pending_ok:
  assumes "\<And>mint. mint |\<in>| lg_tracked_mints shared \<Longrightarrow> \<not> is_sentinel mint"
    and "\<And>a. a \<in> set accounts \<Longrightarrow> ga_lamports a = 0 \<Longrightarrow> ga_data a = []"
    and "fmlookup (largest_build_pending (Some shared) accounts nc expired) key = Some update"
  shows "pending_ok update"
proof -
  let ?ok = "\<lambda>m. \<forall>key update. fmlookup m key = Some update \<longrightarrow> pending_ok update"
  have one: "pending_ok (pending_of (lg_tracked_mints shared) nc key a)" if "a \<in> set accounts" for key a
    using token_balance_tracked assms(1) assms(2) [OF that]
    by (fastforce simp: pending_ok_def pending_of_def split: option.splits prod.splits)
  have "?ok (fold (add_pending (lg_tracked_mints shared) nc) as m)" if "set as \<subseteq> set accounts" "?ok m" for as m
    using that
  proof (induction as arbitrary: m)
    case (Cons a as)
    have "?ok (add_pending (lg_tracked_mints shared) nc a m)"
      using Cons.prems one [of a] by (auto simp: add_pending_def Let_def split: option.splits if_splits)
    then show ?case using Cons by simp
  qed simp
  then have base: "?ok (fold (add_pending (lg_tracked_mints shared) nc) accounts fmempty)"
    by (metis fmempty_lookup option.distinct(1) subset_refl)
  have "?ok (fold add_expired xs m)" if "?ok m" for xs m
    using that
  proof (induction xs arbitrary: m)
    case (Cons x xs)
    have "?ok (add_expired x m)"
      using Cons.prems by (auto simp: add_expired_def pending_ok_def split: option.splits if_splits prod.splits)
    then show ?case using Cons by simp
  qed simp
  then show ?thesis using base assms(3) by (simp add: largest_build_pending_def)
qed

lemma commit_largest_returns:
  assumes "trackers_ready block s" and "ix_largest s' = ix_largest s"
  obtains s'' where "commit_largest wo (gb_slot block) (largest_build_pending (map_option fst (ix_largest s))
        (gb_accounts block) nc expired) s' = Some s''"
    and "ib_tables (ix_db s'') = ib_tables (ix_db s')" and "ix_finalizer s'' = ix_finalizer s'"
    and "ix_supply s'' = ix_supply s'" and "ix_nc s'' = ix_nc s'"
proof (cases "ix_largest s")
  case None
  then show thesis using assms(2) that by (simp add: commit_largest_def)
next
  case (Some p)
  obtain shared st where p: "p = (shared, st)" by (cases p)
  let ?ps = "largest_build_pending (Some shared) (gb_accounts block) nc expired"
  note ready = assms(1) [unfolded trackers_ready_def, THEN conjunct2, rule_format, OF Some [unfolded p]]
  obtain ledgers where inv: "live_inv shared ledgers st" using ready by blast
  have ok: "pending_ok update" if update: "(key, update) \<in> set (fm_entries ?ps)" for key update
    by (rule build_pending_ok [of shared "gb_accounts block" nc expired key]) (use ready update in auto)
  have newer: "ts_max_applied_slot st < gb_slot block" and dist: "distinct (map fst (fm_entries ?ps))"
    using ready by simp_all
  obtain st' outcome where "largest_apply_block shared (gb_slot block) (fm_entries ?ps) st = Some (st', outcome)"
    by (rule block_keeps_inv [OF inv newer dist ok])
  then show thesis
    using assms(2) that Some by (simp add: commit_largest_def largest_commit_block_def p split_beta)
qed

lemma supply_pending_returns:
  assumes "\<forall>a \<in> set (gb_accounts block). well_formed a"
  shows "supply_pending_of block s \<noteq> None"
proof -
  have "build_block_pending accounts \<noteq> None" if "\<forall>a \<in> set accounts. well_formed a" for accounts
    using that by (induction accounts) (auto simp: well_formed_def try_from_def)
  then show ?thesis using assms by (auto simp: supply_pending_of_def split: option.splits)
qed

lemma apply_stake_returns:
  assumes "\<And>shared st. ix_nc s = Some (shared, st) \<Longrightarrow> nc_inv shared st"
  obtains nc stake where "apply_stake config block s = Some (s \<lparr>ix_nc := nc\<rparr>, stake)"
    and "\<And>shared st. nc = Some (shared, st) \<Longrightarrow> nc_inv shared st"
proof (cases "ix_nc s")
  case None
  then have "apply_stake config block s = Some (s \<lparr>ix_nc := None\<rparr>, default_block)" by (simp add: apply_stake_def)
  then show thesis by (rule that) simp
next
  case (Some p)
  obtain shared st where p: "p = (shared, st)" by (cases p)
  have inv: "nc_inv shared st" using assms Some p by simp
  obtain st' stake where r: "nc_apply_block (ic_sysvar config) shared (gb_slot block) (gb_blockhash block = [])
      (gb_accounts block) st = Some (st', stake)"
    using block_returns [OF inv] by fastforce
  then have "apply_stake config block s = Some (s \<lparr>ix_nc := Some (shared, st')\<rparr>, stake)"
    using Some by (simp add: apply_stake_def p)
  then show thesis by (rule that) (use block_keeps_nc_inv [OF inv r] in auto)
qed

lemma apply_mint_frame [simp]:
  "ix_db (apply_mint config gap block s) = ix_db s" "ix_owner_map (apply_mint config gap block s) = ix_owner_map s"
  "ix_finalizer (apply_mint config gap block s) = ix_finalizer s" "ix_largest (apply_mint config gap block s) = ix_largest s"
  "ix_nc (apply_mint config gap block s) = ix_nc s" "ix_supply (apply_mint config gap block s) = ix_supply s"
  by (simp_all add: apply_mint_def split: option.split prod.split)

lemma apply_supply_frame:
  "apply_supply wo block ps stake s = (s', outcome) \<Longrightarrow> ix_db s' = ix_db s \<and> ix_owner_map s' = ix_owner_map s
     \<and> ix_finalizer s' = ix_finalizer s \<and> ix_largest s' = ix_largest s \<and> ix_nc s' = ix_nc s"
  by (auto simp: apply_supply_def split: option.splits prod.splits)

lemma persist_stake_frame [simp]:
  "ib_tables (ix_db (persist_stake wo stake s)) = ib_tables (ix_db s)"
  "ix_finalizer (persist_stake wo stake s) = ix_finalizer s" "ix_nc (persist_stake wo stake s) = ix_nc s"
  "ix_supply (persist_stake wo stake s) = ix_supply s"
  by (simp_all add: persist_stake_def split: option.split prod.split)

lemma finish_supply_frame [simp]:
  "ib_tables (ix_db (finish_supply wo slot outcome ok s)) = ib_tables (ix_db s)"
  "ix_finalizer (finish_supply wo slot outcome ok s) = ix_finalizer s"
  by (simp_all add: finish_supply_def split: option.split prod.split)

lemma publish_slot_frame [simp]:
  "ib_tables (ix_db (publish_slot wo block s)) = ib_tables (ix_db s)"
  "fz_inner (ix_finalizer (publish_slot wo block s)) = fz_inner (ix_finalizer s)"
  by (simp_all add: publish_slot_def Let_def)

lemma start_block_frame [simp]:
  "ix_db (start_block config wo s) = ix_db s" "ix_owner_map (start_block config wo s) = ix_owner_map s"
  "ix_nc (start_block config wo s) = ix_nc s" "ix_largest (start_block config wo s) = ix_largest s"
  by (simp_all add: start_block_def)

definition snapshot_in_place :: "indexer_state \<Rightarrow> bool" where
  "snapshot_in_place s \<longleftrightarrow> fz_snapshot_state (ix_finalizer s) \<in> {Finished, FinishedAndCleanedUp}"

lemma start_block_state:
  "snapshot_in_place s \<Longrightarrow> snapshot_in_place (start_block config wo s)"
  by (auto simp: snapshot_in_place_def start_block_def process_snapshot_if_needed_def finish_startup_without_snapshot_def)

text \<open>The block the finalizer holds after the save.\<close>

definition received_off :: "index_config \<Rightarrow> confirmed_block \<Rightarrow> accounts_received" where
  "received_off config block =
     \<lparr>rc_block_time = gb_block_time block,
      rc_accounts = map dr_pubkey (saved_rows config (gb_slot block) (gb_accounts block)),
      rc_accounts_owners = [], rc_closed_accounts = closed_keys (gb_accounts block),
      rc_closed_cleanup_pubkeys = [], rc_closed_cleanup_owners = []\<rparr>"

lemma plan_writes_off:
  assumes "\<not> om_is_enabled (ix_owner_map s)" and "\<forall>a \<in> set (gb_accounts block). well_formed a" and "snapshot_in_place s"
  obtains fi chunked where "plan_writes config block s
      = Some (s \<lparr>ix_finalizer := (ix_finalizer s) \<lparr>fz_inner := fi\<rparr>\<rparr>, chunked, Some (closed_keys (gb_accounts block)))"
    and "concat chunked = saved_rows config (gb_slot block) (gb_accounts block)"
    and "map_option be_accounts (fmlookup (fi_blocks fi) (gb_slot block)) = Some (received_off config block)"
proof -
  obtain l where l: "save_accounts config (gb_slot block) (gb_accounts block) (ix_owner_map s) = Some l"
    "sl_owner_map l = ix_owner_map s" "concat (sl_chunks l) = saved_rows config (gb_slot block) (gb_accounts block)"
    "sl_updated_accounts l = map dr_pubkey (saved_rows config (gb_slot block) (gb_accounts block))"
    "sl_updated_owners l = []" "sl_closed_accounts l = closed_keys (gb_accounts block)"
    by (rule save_accounts_off [OF assms(1,2)])
  have own: "ix_owner_map_update (\<lambda>_. ix_owner_map s) s = s" by (cases s) simp
  show thesis
    by (rule that [OF _ l(3)])
      (use l assms(1,3) own in \<open>auto simp: plan_writes_def snapshot_in_place_def Let_def received_of_def
        received_off_def record_block_def\<close>)
qed

lemma landed_tables:
  assumes "masks_of slot (closed_keys accounts) db masks" and "saved_rows config slot accounts = before @ after"
  shows "block_landed config slot accounts db (db \<lparr>tb_accounts := tb_accounts db @ before @ masks @ after\<rparr>)"
  unfolding block_landed_def by (rule exI [of _ masks]) (use assms in \<open>auto simp: all_rows_def\<close>)

text \<open>What a block needs to be saved in full: no owner map, the snapshot in place, well-formed accounts and
  statements that succeed.\<close>

definition saves_in_full :: "write_outcomes \<Rightarrow> confirmed_block \<Rightarrow> indexer_state \<Rightarrow> bool" where
  "saves_in_full wo block s \<longleftrightarrow> \<not> om_is_enabled (ix_owner_map s) \<and> snapshot_in_place s \<and> all_applied wo \<and> wo_slot wo
     \<and> trackers_ready block s \<and> (\<forall>a \<in> set (gb_accounts block). well_formed a \<and> lamports_fit a)"

definition published :: "indexer_state \<Rightarrow> int option" where
  "published s = map_option slot_row.sr_slot (nr_slots (sh_rows (fz_health (ix_finalizer s))) Confirmed)"

lemma publish_slot_published:
  "wo_slot wo \<Longrightarrow> \<exists>p. published (publish_slot wo block s) = Some p \<and> sint (gb_slot block) \<le> p"
  by (auto simp: published_def publish_slot_def insert_slot_def Let_def split: option.splits)

lemma save_block_off:
  assumes "saves_in_full wo block s"
  obtains s' where "save_block config gap wo block s = Some s'"
    and "block_landed config (gb_slot block) (gb_accounts block) (ib_tables (ix_db s)) (ib_tables (ix_db s'))"
    and "map_option be_accounts (fmlookup (fi_blocks (fz_inner (ix_finalizer s'))) (gb_slot block)) = Some (received_off config block)"
    and "\<exists>p. published s' = Some p \<and> sint (gb_slot block) \<le> p"
proof -
  define s0 where "s0 = start_block config wo s"
  note full = assms [unfolded saves_in_full_def]
  have nc0: "nc_inv shared st" if "ix_nc s0 = Some (shared, st)" for shared st
    using full that by (auto simp: s0_def trackers_ready_def)
  obtain nc stake where stake: "apply_stake config block s0 = Some (s0 \<lparr>ix_nc := nc\<rparr>, stake)"
    by (rule apply_stake_returns [OF nc0])
  define s1 where "s1 = s0 \<lparr>ix_nc := nc\<rparr>"
  obtain pendings where pendings: "supply_pending_of block s1 = Some pendings"
    using supply_pending_returns full by (metis option.exhaust)
  define s2 where "s2 = apply_mint config gap block s1"
  have off: "\<not> om_is_enabled (ix_owner_map s2)" and wf: "\<forall>a \<in> set (gb_accounts block). well_formed a"
    and place: "snapshot_in_place s2"
    using full start_block_state [of s] by (simp_all add: s2_def s1_def s0_def snapshot_in_place_def)
  obtain fi chunked where plan: "plan_writes config block s2 = Some (s2 \<lparr>ix_finalizer := (ix_finalizer s2) \<lparr>fz_inner := fi\<rparr>\<rparr>,
      chunked, Some (closed_keys (gb_accounts block)))"
    and chunked: "concat chunked = saved_rows config (gb_slot block) (gb_accounts block)"
    and entry: "map_option be_accounts (fmlookup (fi_blocks fi) (gb_slot block)) = Some (received_off config block)"
    by (rule plan_writes_off [OF off wf place, of config])
  define s3 where "s3 = s2 \<lparr>ix_finalizer := (ix_finalizer s2) \<lparr>fz_inner := fi\<rparr>\<rparr>"
  obtain s4 outcome where probed: "apply_supply wo block pendings stake s3 = (s4, outcome)" by fastforce
  note s4 = apply_supply_frame [OF probed]
  have "\<not> om_is_enabled (ix_owner_map s4)" using off s4 by (simp add: s3_def)
  then obtain before masks after where w: "concat chunked = before @ after"
    "block_writes wo chunked (Some (closed_keys (gb_accounts block))) (gb_slot block) (ix_owner_map s4, ib_tables (ix_db s4))
      = ((ix_owner_map s4, ib_tables (ix_db s4) \<lparr>tb_accounts := tb_accounts (ib_tables (ix_db s4)) @ before @ masks @ after\<rparr>), True)"
    "masks_of (gb_slot block) (closed_keys (gb_accounts block)) (ib_tables (ix_db s4)) masks"
    using block_writes_applied full by metis
  define s5 where "s5 = s4 \<lparr>ix_db := (ix_db s4) \<lparr>ib_tables := ib_tables (ix_db s4)
      \<lparr>tb_accounts := tb_accounts (ib_tables (ix_db s4)) @ before @ masks @ after\<rparr>\<rparr>\<rparr>"
  have writes: "run_block_writes wo (gb_slot block) (chunked, Some (closed_keys (gb_accounts block))) s4 = (s5, True)"
    using w(2) by (cases s4) (simp add: run_block_writes_def s5_def)
  have "ix_largest s5 = ix_largest s" and largest1: "ix_largest s1 = ix_largest s" and db: "ix_db s4 = ix_db s"
    using s4 by (simp_all add: s5_def s3_def s2_def s1_def s0_def)
  then obtain s6 where commit: "commit_largest wo (gb_slot block) (largest_build_pending (map_option fst (ix_largest s))
        (gb_accounts block) (nc_tracker s1) (sk_expired stake)) s5 = Some s6"
      "ib_tables (ix_db s6) = ib_tables (ix_db s5)" "ix_finalizer s6 = ix_finalizer s5"
    using commit_largest_returns full by metis
  let ?s' = "finish_supply wo (gb_slot block) outcome True (publish_slot wo block (persist_stake wo stake s6))"
  have "save_block config gap wo block s = Some ?s'"
    unfolding save_block_def s0_def [symmetric]
    by (simp add: stake s1_def [symmetric] pendings s2_def [symmetric] plan s3_def [symmetric] probed writes
        largest1 commit(1) Let_def)
  moreover have "block_landed config (gb_slot block) (gb_accounts block) (ib_tables (ix_db s)) (ib_tables (ix_db ?s'))"
    using landed_tables [OF w(3)] w(1) chunked by (simp add: commit s5_def db)
  moreover have "map_option be_accounts (fmlookup (fi_blocks (fz_inner (ix_finalizer ?s'))) (gb_slot block)) = Some (received_off config block)"
    using entry s4 by (simp add: commit s5_def s3_def)
  moreover have "\<exists>p. published ?s' = Some p \<and> sint (gb_slot block) \<le> p"
    using publish_slot_published full by (simp add: published_def)
  ultimately show thesis using that by blast
qed

section \<open>Cleanup after a save\<close>

lemma sint_next: "sint (saturating_add (slot :: u64) 1) \<le> sint slot + 1"
proof (cases "slot \<le> slot + 1")
  case True
  have "sint (slot + 1) = signed_take_bit 63 (sint slot + 1)" by (simp add: sint_word_ariths)
  also have "\<dots> \<le> sint slot + 1"
    using sint_ge [of slot] by (subst signed_take_bit_int_less_eq_self_iff) simp
  finally show ?thesis using True by (simp add: saturating_add_def)
next
  case False
  then have "1 + slot = 0" using unatSuc [of slot] by (auto simp: word_le_nat_alt add.commute)
  then have "slot = - 1" by (simp add: eq_neg_iff_add_eq_0 add.commute)
  then show ?thesis by (simp add: saturating_add_def)
qed

lemma set_enumerate_snd: "(\<exists>i. (i, x) \<in> set (enumerate n xs)) \<longleftrightarrow> x \<in> set xs"
  by (metis imageE image_eqI map_snd_enumerate prod.collapse set_map snd_conv)

lemma set_open_items:
  "(k, c) \<in> set (open_items False accounts slot) \<longleftrightarrow>
     c = slot \<and> ck_owner k = None \<and> to_bytes (ck_pubkey k) \<in> set (rc_accounts accounts)"
proof -
  have "(k, c) \<in> set (open_items False accounts slot) \<longleftrightarrow>
      (\<exists>x. (\<exists>i. (i, x) \<in> set (enumerate 0 (rc_accounts accounts))) \<and> try_from x = Some (ck_pubkey k) \<and> ck_owner k = None \<and> c = slot)"
    by (cases k) (force simp: open_items_def split: option.splits)
  then show ?thesis by (auto simp: set_enumerate_snd try_from_eq_Some)
qed

lemma set_unrouted_closed:
  "(k, c) \<in> set (unrouted_closed_items accounts cutoff) \<longleftrightarrow>
     c = cutoff \<and> ck_owner k = None \<and> to_bytes (ck_pubkey k) \<in> set (rc_closed_accounts accounts)"
proof -
  have "(k, c) \<in> set (unrouted_closed_items accounts cutoff) \<longleftrightarrow>
      (\<exists>x \<in> set (rc_closed_accounts accounts). try_from x = Some (ck_pubkey k) \<and> ck_owner k = None \<and> c = cutoff)"
    by (cases k) (force simp: unrouted_closed_items_def split: option.splits)
  then show ?thesis by (auto simp: try_from_eq_Some)
qed

text \<open>The keys of a slot without the owner map.\<close>

lemma set_keys_off:
  "(k, c) \<in> set (dk_items (keys_for_slot (received_off config block) (gb_slot block) False)) \<longleftrightarrow>
     ck_owner k = None \<and>
     (c = gb_slot block \<and> (\<exists>a \<in> set (gb_accounts block). is_saved config a \<and> ga_pubkey a = to_bytes (ck_pubkey k)) \<or>
      c = saturating_add (gb_slot block) 1 \<and> to_bytes (ck_pubkey k) \<in> set (closed_keys (gb_accounts block)))"
proof -
  have "to_bytes (ck_pubkey k) \<in> dr_pubkey ` set (saved_rows config (gb_slot block) (gb_accounts block)) \<longleftrightarrow>
      (\<exists>a \<in> set (gb_accounts block). is_saved config a \<and> ga_pubkey a = to_bytes (ck_pubkey k))"
    unfolding saved_rows_def by (auto simp: image_iff)
  then show ?thesis
    by (auto simp: keys_for_slot_def received_off_def set_open_items set_unrouted_closed Let_def)
qed

text \<open>The tables once later blocks have added rows.\<close>

definition extended :: "u64 \<Rightarrow> db_tables \<Rightarrow> db_tables \<Rightarrow> bool" where
  "extended slot db db' \<longleftrightarrow> tb_snapshot_accounts db' = tb_snapshot_accounts db \<and>
     (\<exists>later. tb_accounts db' = tb_accounts db @ later \<and> (\<forall>r \<in> set later. sint slot < dr_slot r))"

lemma extended_rows: "extended slot db db' \<Longrightarrow> r \<in> all_rows db' \<Longrightarrow> r \<in> all_rows db \<or> sint slot < dr_slot r"
  by (auto simp: extended_def all_rows_def)

lemma extended_keeps:
  "extended slot db db' \<Longrightarrow> r \<in> all_rows db \<Longrightarrow> r \<in> all_rows db'"
  "extended slot db db' \<Longrightarrow> r \<in> set (tb_accounts db) \<Longrightarrow> r \<in> set (tb_accounts db')"
  by (auto simp: extended_def all_rows_def)

lemma justified_unrouted:
  assumes "ck_owner k = None"
    and "\<And>r. to_bytes (ck_pubkey k) = key \<Longrightarrow> r \<in> all_rows db \<Longrightarrow> dr_pubkey r = key \<Longrightarrow> dr_slot r \<le> max_slot \<Longrightarrow>
      (\<exists>r \<in> all_rows db. dr_pubkey r = key \<and> dr_slot r \<le> max_slot \<and> sint c \<le> dr_slot r) \<or>
      (\<exists>m \<in> set (tb_accounts db). dr_pubkey m = key \<and> dr_slot m \<le> max_slot \<and>
         (\<forall>r \<in> all_rows db. dr_pubkey r = key \<and> dr_slot r \<le> max_slot \<longrightarrow>
            dr_slot r \<le> dr_slot m \<and> (dr_slot r = dr_slot m \<longrightarrow> dr_lamports r \<le> 0)))"
  shows "justified (\<lambda>_. True) key max_slot db (k, c)"
proof -
  let ?own = "versions (\<lambda>_. True) key max_slot (tb_accounts db)"
  define all where "all = ?own @ versions (\<lambda>_. True) key max_slot (tb_snapshot_accounts db)"
  have all: "r \<in> set all \<longleftrightarrow> r \<in> all_rows db \<and> dr_pubkey r = key \<and> dr_slot r \<le> max_slot" for r
    by (auto simp: all_def all_rows_def)
  show ?thesis
  proof (cases "to_bytes (ck_pubkey k) = key \<and> all \<noteq> []")
    case True
    then obtain r where r: "r \<in> set all" by (metis list.set_intros(1) neq_Nil_conv)
    have "(\<exists>r \<in> set all. sint c \<le> dr_slot r) \<or> newest_masked ?own all"
      using assms(2) [of r] r True unfolding all newest_masked_def Bex_def Ball_def set_versions by blast
    moreover have "key_matches k r" if "r \<in> set all" for r
      using that True assms(1) unfolding all key_matches_def by simp
    ultimately show ?thesis unfolding justified_def Let_def all_def [symmetric] by blast
  next
    case False
    then have "\<not> key_matches k r" if "r \<in> set all" for r
      using that all [of r] by (auto simp: key_matches_def)
    then show ?thesis unfolding justified_def Let_def all_def [symmetric] by blast
  qed
qed

lemma saved_keys_justified:
  assumes landed: "block_landed config (gb_slot block) (gb_accounts block) db db1" and "extended (gb_slot block) db1 db'"
    and dist: "distinct (map ga_pubkey (gb_accounts block))" and old: "rows_older (gb_slot block) (gb_accounts block) db"
    and item: "(k, c) \<in> set (dk_items (keys_for_slot (received_off config block) (gb_slot block) False))"
    and slot: "sint (gb_slot block) \<le> max_slot"
  shows "justified (\<lambda>_. True) key max_slot db' (k, c)"
proof (rule justified_unrouted)
  let ?slot = "gb_slot block" and ?accounts = "gb_accounts block"
  show "ck_owner k = None" using item by (simp add: set_keys_off)
  fix r
  assume key: "to_bytes (ck_pubkey k) = key" and r: "r \<in> all_rows db'" "dr_pubkey r = key" "dr_slot r \<le> max_slot"
  consider (opened) a where "c = ?slot" "a \<in> set ?accounts" "is_saved config a" "ga_pubkey a = key"
    | (closed) "c = saturating_add ?slot 1" "key \<in> set (closed_keys ?accounts)"
    using item key by (auto simp: set_keys_off)
  then show "(\<exists>r \<in> all_rows db'. dr_pubkey r = key \<and> dr_slot r \<le> max_slot \<and> sint c \<le> dr_slot r) \<or>
      (\<exists>m \<in> set (tb_accounts db'). dr_pubkey m = key \<and> dr_slot m \<le> max_slot \<and>
         (\<forall>r \<in> all_rows db'. dr_pubkey r = key \<and> dr_slot r \<le> max_slot \<longrightarrow>
            dr_slot r \<le> dr_slot m \<and> (dr_slot r = dr_slot m \<longrightarrow> dr_lamports r \<le> 0)))"
  proof cases
    case opened
    then have "account_row_of ?slot a \<in> all_rows db1"
      using landed by (auto simp: block_landed_def set_saved_rows)
    then have "account_row_of ?slot a \<in> all_rows db'" by (rule extended_keeps(1) [OF assms(2)])
    then show ?thesis using opened slot by (intro disjI1 bexI [of _ "account_row_of ?slot a"]) simp_all
  next
    case closed
    show ?thesis
    proof (cases "\<exists>r \<in> all_rows db'. dr_pubkey r = key \<and> dr_slot r \<le> max_slot \<and> sint c \<le> dr_slot r")
      case False
      have upto: "x \<in> all_rows db1" if "x \<in> all_rows db'" "dr_pubkey x = key" "dr_slot x \<le> max_slot" for x
        using extended_rows [OF assms(2) that(1)] that False sint_next [of ?slot] closed(1) by force
      obtain a where a: "a \<in> set ?accounts" "ga_lamports a = 0" "ga_pubkey a = key"
        using closed(2) by (auto simp: set_closed_keys)
      note rows = closed_key_rows [OF landed dist old a(1,2), unfolded a(3)]
      obtain m where "m \<in> set (tb_accounts db1)" "dr_pubkey m = key" "dr_slot m = sint ?slot"
        using rows(2) [OF upto [OF r] r(2)] by blast
      then show ?thesis
        using slot rows(1) upto extended_keeps(2) [OF assms(2)] by (intro disjI2 bexI [of _ m]) force+
    qed blast
  qed
qed

section \<open>Properties\<close>

text \<open>C2: A block that is saved in full is readable at its slot as soon as the slot is published: the save
  does not panic, every open account of a selected owner reads as its new row, by key and under its owner,
  every closed account reads as absent, and an account the block does not write reads as before. (An account
  that moves to an owner that is not selected keeps its old row here, which is what the owner map is for.)\<close>

theorem saved_block_readable:
  assumes "saves_in_full wo block s" and "distinct (map ga_pubkey (gb_accounts block))"
    and "rows_older (gb_slot block) (gb_accounts block) (ib_tables (ix_db s))"
  shows "\<exists>s'. save_block config gap wo block s = Some s'
    \<and> (\<exists>p. published s' = Some p \<and> sint (gb_slot block) \<le> p)
    \<and> (\<forall>a \<in> set (gb_accounts block).
         (is_saved config a \<longrightarrow>
            get_account_info (ga_pubkey a) (sint (gb_slot block)) (ib_tables (ix_db s')) = {Some (account_row_of (gb_slot block) a)} \<and>
            get_program_account (ga_owner a) (ga_pubkey a) (sint (gb_slot block)) (ib_tables (ix_db s'))
              = {Some (account_row_of (gb_slot block) a)}) \<and>
         (ga_lamports a = 0 \<longrightarrow> get_account_info (ga_pubkey a) (sint (gb_slot block)) (ib_tables (ix_db s')) = {None}))
    \<and> (\<forall>key max_slot. (\<forall>a \<in> set (gb_accounts block). ga_pubkey a = key \<longrightarrow> ga_lamports a \<noteq> 0 \<and> \<not> is_saved config a) \<longrightarrow>
         get_account_info key max_slot (ib_tables (ix_db s')) = get_account_info key max_slot (ib_tables (ix_db s)))"
proof -
  obtain s' where s': "save_block config gap wo block s = Some s'"
    "block_landed config (gb_slot block) (gb_accounts block) (ib_tables (ix_db s)) (ib_tables (ix_db s'))"
    "\<exists>p. published s' = Some p \<and> sint (gb_slot block) \<le> p"
    by (rule save_block_off [OF assms(1), of config gap])
  have fit: "lamports_fit a" if "a \<in> set (gb_accounts block)" for a
    using assms(1) that by (auto simp: saves_in_full_def)
  note read = read_saved [OF s'(2) assms(2,3)] and closed = read_closed [OF s'(2) assms(2,3)]
  show ?thesis
    using s'(1,3) fit read closed read_untouched [OF s'(2)]
    by (intro exI [of _ s'] conjI ballI impI allI)
      (simp_all add: get_account_info_def get_program_account_def)
qed

text \<open>A read under an owner, of a key whose rows at or below the slot all have that owner or all have others.\<close>

lemma justified_under_owner:
  assumes "justified (\<lambda>_. True) key max_slot db item"
    and "(\<forall>r \<in> all_rows db. dr_pubkey r = key \<and> dr_slot r \<le> max_slot \<longrightarrow> dr_owner r = owner)
      \<or> (\<forall>r \<in> all_rows db. dr_pubkey r = key \<and> dr_slot r \<le> max_slot \<longrightarrow> dr_owner r \<noteq> owner)"
  shows "justified (\<lambda>r. dr_owner r = owner) key max_slot db item"
  using assms(2)
proof
  assume own: "\<forall>r \<in> all_rows db. dr_pubkey r = key \<and> dr_slot r \<le> max_slot \<longrightarrow> dr_owner r = owner"
  have "versions (\<lambda>r. dr_owner r = owner) key max_slot (tb_accounts db) = versions (\<lambda>_. True) key max_slot (tb_accounts db)"
    "versions (\<lambda>r. dr_owner r = owner) key max_slot (tb_snapshot_accounts db) = versions (\<lambda>_. True) key max_slot (tb_snapshot_accounts db)"
    using own by (auto simp: versions_def all_rows_def intro!: filter_cong)
  with assms(1) show ?thesis by (simp only: justified_def)
next
  assume "\<forall>r \<in> all_rows db. dr_pubkey r = key \<and> dr_slot r \<le> max_slot \<longrightarrow> dr_owner r \<noteq> owner"
  then have "versions (\<lambda>r. dr_owner r = owner) key max_slot (tb_accounts db) = []"
    "versions (\<lambda>r. dr_owner r = owner) key max_slot (tb_snapshot_accounts db) = []"
    by (auto simp: versions_def all_rows_def filter_empty_conv)
  then show ?thesis by (simp add: justified_def case_prod_unfold)
qed

text \<open>C17: With the owner map off, the keys that a saved block leaves for cleanup are safe to clean: once the block is finalized, a
  drain of the keys derived from its record cannot change what a read by key at or above its slot sees, also
  after later blocks have written; nor what a read under an owner sees of an account whose rows do not change owner.
  Open accounts have their new row at the cutoff, closed ones a mask. (An account that moved to another owner may lose its
  old row under the old one: these keys carry no owner.)\<close>

theorem saved_block_cleanup_safe:
  assumes "saves_in_full wo block s" and "distinct (map ga_pubkey (gb_accounts block))"
    and "rows_older (gb_slot block) (gb_accounts block) (ib_tables (ix_db s))"
  shows "\<exists>s' entry. save_block config gap wo block s = Some s'
    \<and> fmlookup (fi_blocks (fz_inner (ix_finalizer s'))) (gb_slot block) = Some entry
    \<and> (\<forall>db item key max_slot. extended (gb_slot block) (ib_tables (ix_db s')) db \<and> sint (gb_slot block) \<le> max_slot \<and>
         item \<in> set (dk_items (keys_for_slot (be_accounts entry) (gb_slot block) False)) \<longrightarrow>
         justified (\<lambda>_. True) key max_slot db item
         \<and> (\<forall>owner. (\<forall>r \<in> all_rows db. dr_pubkey r = key \<and> dr_slot r \<le> max_slot \<longrightarrow> dr_owner r = owner)
              \<or> (\<forall>r \<in> all_rows db. dr_pubkey r = key \<and> dr_slot r \<le> max_slot \<longrightarrow> dr_owner r \<noteq> owner) \<longrightarrow>
              justified (\<lambda>r. dr_owner r = owner) key max_slot db item))"
proof -
  obtain s' where s': "save_block config gap wo block s = Some s'"
    "block_landed config (gb_slot block) (gb_accounts block) (ib_tables (ix_db s)) (ib_tables (ix_db s'))"
    "map_option be_accounts (fmlookup (fi_blocks (fz_inner (ix_finalizer s'))) (gb_slot block)) = Some (received_off config block)"
    by (rule save_block_off [OF assms(1), of config gap])
  then obtain entry where entry: "fmlookup (fi_blocks (fz_inner (ix_finalizer s'))) (gb_slot block) = Some entry"
    "be_accounts entry = received_off config block" by auto
  have "justified (\<lambda>_. True) key max_slot db item"
    if "extended (gb_slot block) (ib_tables (ix_db s')) db" "sint (gb_slot block) \<le> max_slot"
      "item \<in> set (dk_items (keys_for_slot (be_accounts entry) (gb_slot block) False))" for db item key max_slot
    using saved_keys_justified [OF s'(2) that(1) assms(2,3)] that(2,3) entry(2) by (cases item) simp
  then show ?thesis using s'(1) entry(1) justified_under_owner by blast
qed

definition wit_account :: "u8 \<Rightarrow> u64 \<Rightarrow> grpc_account" where
  "wit_account key lamports = \<lparr>ga_pubkey = replicate 32 key, ga_lamports = lamports, ga_owner = replicate 32 1,
     ga_executable = False, ga_rent_epoch = 0, ga_data = [], ga_write_version = 1\<rparr>"

definition wit_block :: confirmed_block where
  "wit_block = \<lparr>gb_slot = 9, gb_blockhash = ''b'', gb_parent_slot = 8, gb_parent_blockhash = ''a'', gb_block_time = Some 0,
     gb_accounts = [wit_account 5 100, wit_account 7 0], gb_block_height = None\<rparr>"

definition wit_config :: index_config where
  "wit_config = \<lparr>ic_programs = \<lparr>sel_include = [], sel_exclude = []\<rparr>, ic_has_snapshot = True, ic_chunk_size = 2,
     ic_max_chunk_bytes_data = 10, ic_sysvar = Non_Circulating.wit_codec, ic_mint = Mint_Indexer.wit_codec\<rparr>"

definition wit_outcomes :: write_outcomes where
  "wit_outcomes = \<lparr>wo_health = True, wo_chunk = (\<lambda>_. Applied), wo_closed = (\<lambda>_. Applied), wo_closed_at = 1, wo_pick = hd,
     wo_prev = (\<lambda>_ _ _. Some fmempty), wo_largest_delete = (\<lambda>_. True), wo_largest_persist = True, wo_members = True,
     wo_slot = True, wo_blockhash = (Applied, Applied), wo_supply_row = True\<rparr>"

definition wit_state :: indexer_state where
  "wit_state = \<lparr>ix_finalizer = snapshot_processed (spawn_finalizer \<lparr>nr_healthy = None, nr_slots = (\<lambda>_. None)\<rparr> 5 10 False),
     ix_owner_map = disabled_owner_map, ix_largest = Some (Largest_Accounts.wit_shared, Largest_Accounts.wit_live),
     ix_nc = None, ix_supply = Some wit_supply, ix_mint = None, ix_mint_write = None,
     ix_db = \<lparr>ib_tables = \<lparr>tb_accounts = [], tb_snapshot_accounts = [wit_row 1 4 2]\<rparr>, ib_records = fmempty, ib_members = None,
       ib_supply = fmempty, ib_recent_blockhashes = fmempty\<rparr>\<rparr>"

lemma wit_saves: "saves_in_full wit_outcomes wit_block wit_state"
  using wit_live_inv
  by (auto simp: saves_in_full_def snapshot_in_place_def all_applied_def trackers_ready_def wit_state_def wit_outcomes_def
      wit_block_def wit_account_def well_formed_def lamports_fit_def disabled_owner_map_def om_is_enabled_def
      snapshot_processed_def Largest_Accounts.wit_shared_def Largest_Accounts.wit_live_def)

lemma wit_older: "rows_older (gb_slot wit_block) (gb_accounts wit_block) (ib_tables (ix_db wit_state))"
  and wit_distinct: "distinct (map ga_pubkey (gb_accounts wit_block))"
  by (simp_all add: rows_older_def all_rows_def wit_block_def wit_state_def wit_account_def wit_row_def)

theorem saved_block_readable_witness:
  "\<exists>s'. save_block wit_config None wit_outcomes wit_block wit_state = Some s'
    \<and> get_account_info (replicate 32 5) 9 (ib_tables (ix_db s')) = {Some (account_row_of 9 (wit_account 5 100))}
    \<and> get_account_info (replicate 32 7) 9 (ib_tables (ix_db s')) = {None}"
proof -
  have "is_saved wit_config (wit_account 5 100)" "sint (gb_slot wit_block) = 9" "gb_slot wit_block = 9"
    by (simp_all add: is_saved_def is_new_owner_included_def wit_config_def wit_account_def wit_block_def)
  moreover have "wit_account 5 100 \<in> set (gb_accounts wit_block)" "wit_account 7 0 \<in> set (gb_accounts wit_block)"
    "ga_pubkey (wit_account 5 100) = replicate 32 5" "ga_pubkey (wit_account 7 0) = replicate 32 7" "ga_lamports (wit_account 7 0) = 0"
    by (simp_all add: wit_block_def wit_account_def)
  ultimately show ?thesis
    using saved_block_readable [OF wit_saves wit_distinct wit_older, of wit_config None] by metis
qed

theorem saved_block_cleanup_safe_witness:
  "\<exists>s' entry. save_block wit_config None wit_outcomes wit_block wit_state = Some s'
    \<and> fmlookup (fi_blocks (fz_inner (ix_finalizer s'))) 9 = Some entry
    \<and> (\<forall>db item key max_slot. extended 9 (ib_tables (ix_db s')) db \<and> 9 \<le> max_slot \<and>
         item \<in> set (dk_items (keys_for_slot (be_accounts entry) 9 False)) \<longrightarrow>
         justified (\<lambda>_. True) key max_slot db item)"
proof -
  have nine: "gb_slot wit_block = 9" "sint (9 :: u64) = 9" by (simp_all add: wit_block_def)
  show ?thesis
    using saved_block_cleanup_safe [OF wit_saves wit_distinct wit_older, of wit_config None, unfolded nine] by blast
qed

end
