(* ===== verification/Self_Healing.thy ===== *)
theory Self_Healing
  imports Save_Block
begin

text \<open>
  The main loop and the repair of gaps (\<open>index/src/indexer.rs\<close>, \<open>index/src/modules/self_healing.rs\<close>): the
  continuity check of every received block, the list of slots to repair, and the task that repairs them from
  an incremental snapshot. The task is cut where it waits: the read of the lists, the fetch of the snapshot,
  each repaired block, the end of a pass. What the snapshot service answers and which blocks the snapshot
  holds are arguments.
\<close>

section \<open>State\<close>

record healing =
  hl_last_slot_received :: u64
  hl_last_blockhash_received :: string
  hl_gaps_list :: "u64 list"
  hl_gap_boundaries :: "u64 fset"
  hl_retries :: nat

record indexer =
  hs_healing :: healing
  hs_index :: indexer_state

definition new_healing :: healing where
  "new_healing = \<lparr>hl_last_slot_received = 0, hl_last_blockhash_received = [], hl_gaps_list = [],
     hl_gap_boundaries = {||}, hl_retries = 0\<rparr>"

definition lowest_gap :: "healing \<Rightarrow> u64 option" where
  "lowest_gap h = (if hl_gaps_list h = [] then None else Some (Min (set (hl_gaps_list h))))"

definition remove_slot_from_gaps_list :: "u64 \<Rightarrow> healing \<Rightarrow> healing" where
  "remove_slot_from_gaps_list slot h = h \<lparr>hl_gaps_list := filter (\<lambda>s. s \<noteq> slot) (hl_gaps_list h)\<rparr>"

definition slots_between :: "u64 \<Rightarrow> u64 \<Rightarrow> u64 list" where
  "slots_between last_slot slot = map of_nat [Suc (unat last_slot)..<unat slot]"

section \<open>The continuity check\<close>

text \<open>The finalizer and the supply tracker of the indexer under an operation.\<close>

definition on_finalizer :: "(finalizer \<Rightarrow> finalizer) \<Rightarrow> indexer \<Rightarrow> indexer" where
  "on_finalizer f s = s \<lparr>hs_index := (hs_index s) \<lparr>ix_finalizer := f (ix_finalizer (hs_index s))\<rparr>\<rparr>"

definition on_supply :: "(supply_state \<Rightarrow> supply_state) \<Rightarrow> indexer \<Rightarrow> indexer" where
  "on_supply f s = s \<lparr>hs_index := (hs_index s) \<lparr>ix_supply := map_option f (ix_supply (hs_index s))\<rparr>\<rparr>"

definition on_healing :: "(healing \<Rightarrow> healing) \<Rightarrow> indexer \<Rightarrow> indexer" where
  "on_healing f s = s \<lparr>hs_healing := f (hs_healing s)\<rparr>"

definition builds_on_last :: "u64 \<Rightarrow> string \<Rightarrow> healing \<Rightarrow> bool" where
  "builds_on_last parent_slot parent_blockhash h \<longleftrightarrow>
     parent_slot = hl_last_slot_received h \<and> hl_last_blockhash_received h = parent_blockhash"

definition check_slot_gap :: "bool \<Rightarrow> u64 \<Rightarrow> string \<Rightarrow> u64 \<Rightarrow> string \<Rightarrow> indexer \<Rightarrow> indexer" where
  "check_slot_gap db_ok slot blockhash parent_slot parent_blockhash s =
     (let h = hs_healing s; last_slot = hl_last_slot_received h
      in if slot \<le> last_slot then on_healing (remove_slot_from_gaps_list slot) s
         else
           let s = (if last_slot \<noteq> 0 \<and> last_slot + 1 < slot \<and> \<not> builds_on_last parent_slot parent_blockhash h
                    then on_supply (fst \<circ> mark_gap) (on_finalizer (pause db_ok)
                           (on_healing (\<lambda>h. h \<lparr>hl_gaps_list := hl_gaps_list h @ slots_between last_slot slot,
                               hl_gap_boundaries := finsert last_slot (hl_gap_boundaries h)\<rparr>) s))
                    else s)
           in on_healing (\<lambda>h. h \<lparr>hl_last_slot_received := slot, hl_last_blockhash_received := blockhash\<rparr>) s)"

section \<open>The main loop\<close>

datatype slot_status = SlotProcessed | SlotConfirmed | SlotFinalized | OtherStatus

text \<open>A status that does not decode is logged like one of the others.\<close>

datatype update_oneof = UBlock confirmed_block | USlot u64 slot_status | UOther

datatype step_result = Done indexer | Waiting | Panicked

definition save :: "index_config \<Rightarrow> write_outcomes \<Rightarrow> confirmed_block \<Rightarrow> indexer \<Rightarrow> indexer option" where
  "save config wo block s =
     map_option (\<lambda>ix. s \<lparr>hs_index := ix\<rparr>) (save_block config (lowest_gap (hs_healing s)) wo block (hs_index s))"

definition process_update :: "index_config \<Rightarrow> write_outcomes \<Rightarrow> update_oneof \<Rightarrow> indexer \<Rightarrow> step_result" where
  "process_update config wo update s =
     (case update of
        UBlock block \<Rightarrow>
          (case save config wo block (check_slot_gap (wo_health wo) (gb_slot block) (gb_blockhash block)
                  (gb_parent_slot block) (gb_parent_blockhash block) s) of
             None \<Rightarrow> Panicked
           | Some s \<Rightarrow> Done s)
      | USlot slot SlotFinalized \<Rightarrow>
          (let fz = ix_finalizer (hs_index s)
           in case note_finalized (fz_bound fz) slot (fz_inner fz) of
                None \<Rightarrow> Waiting
              | Some inner \<Rightarrow> Done (on_finalizer (\<lambda>fz. fz \<lparr>fz_inner := inner\<rparr>) s))
      | _ \<Rightarrow> Done s)"

section \<open>Filling gaps\<close>

text \<open>What the snapshot service answers: the incremental snapshot of the pair with its base slot.\<close>

datatype snapshot_fetch = FetchFailed | Fetched "(u64 \<times> u64 option) option"

text \<open>A pass over the gaps: the slots it repairs, the boundaries it seeds and the slots repaired so far.\<close>

record fill_pass =
  fp_covered :: "u64 list"
  fp_boundaries :: "u64 fset"
  fp_repaired :: "u64 fset"

text \<open>The first part of an iteration ends in the next one, in a pass, in an error or in a panic.\<close>

datatype fill_start = NextIteration indexer | Pass fill_pass indexer | GaveUp indexer | FillPanic

definition enqueue_gap_boundary :: "u64 \<Rightarrow> finalizer \<Rightarrow> finalizer" where
  "enqueue_gap_boundary slot fz = fz \<lparr>fz_inner := enqueue_unbounded slot (fz_inner fz)\<rparr>"

definition resume_finalizer :: "bool \<Rightarrow> indexer \<Rightarrow> indexer" where
  "resume_finalizer db_ok = on_finalizer (resume db_ok)"

text \<open>An iteration from its read of \<open>gaps\<close> and \<open>boundaries\<close>. The start of the download cannot fail: the
  incremental snapshot is there.\<close>

definition fill_begin ::
  "bool \<Rightarrow> nat \<Rightarrow> snapshot_fetch \<Rightarrow> u64 list \<Rightarrow> u64 fset \<Rightarrow> indexer \<Rightarrow> fill_start" where
  "fill_begin db_ok max_retries fetch gaps boundaries s =
     (if gaps = [] then NextIteration (resume_finalizer db_ok s)
      else if fz_snapshot_state (ix_finalizer (hs_index s)) \<noteq> FinishedAndCleanedUp then FillPanic
      else case fetch of
             FetchFailed \<Rightarrow>
               let s = on_healing (\<lambda>h. h \<lparr>hl_retries := hl_retries h + 1\<rparr>) s
               in if max_retries \<le> hl_retries (hs_healing s) then GaveUp s else NextIteration s
           | Fetched pair \<Rightarrow>
               let s = on_healing (\<lambda>h. h \<lparr>hl_retries := 0\<rparr>) s
               in case pair of
                    Some (snapshot_slot, Some base_slot) \<Rightarrow>
                      let covered = filter (\<lambda>slot. base_slot < slot) (sort gaps)
                      in if covered = [] then NextIteration s
                         else Pass \<lparr>fp_covered = covered, fp_boundaries = boundaries, fp_repaired = {||}\<rparr> s
                  | _ \<Rightarrow> NextIteration s)"

text \<open>One block of the snapshot.\<close>

definition fill_block ::
  "index_config \<Rightarrow> write_outcomes \<Rightarrow> confirmed_block \<Rightarrow> fill_pass \<times> indexer \<Rightarrow> (fill_pass \<times> indexer) option" where
  "fill_block config wo block = (\<lambda>(fp, s).
     map_option (\<lambda>s. (fp \<lparr>fp_repaired := finsert (gb_slot block) (fp_repaired fp)\<rparr>,
         on_healing (remove_slot_from_gaps_list (gb_slot block))
           (on_finalizer (\<lambda>fz. fz \<lparr>fz_inner := enqueue_unbounded (gb_slot block) (fz_inner fz)\<rparr>) s)))
       (save config wo block s))"

text \<open>The end of a pass, up to its last read of the list, and what follows it.\<close>

definition fill_finish :: "fill_pass \<Rightarrow> indexer \<Rightarrow> indexer" where
  "fill_finish fp s =
     (let empty_slots = filter (\<lambda>slot. slot |\<notin>| fp_repaired fp) (fp_covered fp);
          s = on_healing (fold remove_slot_from_gaps_list empty_slots) s;
          s = on_finalizer (fold enqueue_gap_boundary (sorted_list_of_fset (fp_boundaries fp))) s
      in on_healing (\<lambda>h. h \<lparr>hl_gap_boundaries := hl_gap_boundaries h |-| fp_boundaries fp\<rparr>) s)"

definition fill_resume :: "bool \<Rightarrow> bool \<Rightarrow> indexer \<Rightarrow> indexer" where
  "fill_resume db_ok gaps_remaining s =
     (if gaps_remaining then s else resume_finalizer db_ok (on_supply finish_gap s))"

text \<open>\<open>None\<close>: the download or its processing failed, which ends the indexer.\<close>

definition fill_end :: "bool \<Rightarrow> bool \<Rightarrow> fill_pass \<Rightarrow> indexer \<Rightarrow> indexer option" where
  "fill_end db_ok processed_ok fp s =
     (if \<not> processed_ok then None
      else let s = fill_finish fp s in Some (fill_resume db_ok (hl_gaps_list (hs_healing s) \<noteq> []) s))"

section \<open>The live loop and the task together\<close>

text \<open>Where the task stands between two of its steps.\<close>

datatype fill_phase = Sleeping | ReadGaps "u64 list" | ReadAll "u64 list" "u64 fset" | Repairing fill_pass | Ending bool

text \<open>A phase in which the task has seen no gaps and is about to resume.\<close>

fun resuming :: "fill_phase \<Rightarrow> bool" where
  "resuming (ReadGaps gaps) \<longleftrightarrow> gaps = []"
| "resuming (ReadAll gaps boundaries) \<longleftrightarrow> gaps = []"
| "resuming (Ending gaps_remaining) \<longleftrightarrow> \<not> gaps_remaining"
| "resuming _ \<longleftrightarrow> False"

definition gaps_of :: "indexer \<Rightarrow> u64 list" where
  "gaps_of s = hl_gaps_list (hs_healing s)"

text \<open>The steps. With \<open>calm\<close>, no gap is found while the task is about to resume.\<close>

inductive heal_step :: "bool \<Rightarrow> indexer \<times> fill_phase \<Rightarrow> indexer \<times> fill_phase \<Rightarrow> bool" for calm where
  update: "process_update config wo u s = Done s' \<Longrightarrow> (calm \<and> resuming phase \<longrightarrow> gaps_of s' = []) \<Longrightarrow>
    heal_step calm (s, phase) (s', phase)"
| worker: "worker_step db_ok (ix_finalizer (hs_index s)) = Some (fz, jobs) \<Longrightarrow>
    heal_step calm (s, phase) (on_finalizer (\<lambda>_. fz) s, phase)"
| snapshot: "heal_step calm (s, phase) (on_finalizer snapshot_processed s, phase)"
| cleaned: "heal_step calm (s, phase) (on_finalizer (startup_cleanup_done deleted_ok db_ok) s, phase)"
| read_gaps: "heal_step calm (s, Sleeping) (s, ReadGaps (gaps_of s))"
| read_boundaries: "heal_step calm (s, ReadGaps gaps) (s, ReadAll gaps (hl_gap_boundaries (hs_healing s)))"
| skip: "fill_begin db_ok max_retries fetch gaps boundaries s = NextIteration s' \<Longrightarrow>
    heal_step calm (s, ReadAll gaps boundaries) (s', Sleeping)"
| start: "fill_begin db_ok max_retries fetch gaps boundaries s = Pass fp s' \<Longrightarrow>
    heal_step calm (s, ReadAll gaps boundaries) (s', Repairing fp)"
| repair: "fill_block config wo block (fp, s) = Some (fp', s') \<Longrightarrow>
    heal_step calm (s, Repairing fp) (s', Repairing fp')"
| finish: "fill_finish fp s = s' \<Longrightarrow> heal_step calm (s, Repairing fp) (s', Ending (gaps_of s' \<noteq> []))"
| resume: "heal_step calm (s, Ending gaps_remaining) (fill_resume db_ok gaps_remaining s, Sleeping)"

inductive_cases heal_stepE: "heal_step calm (s, phase) (s', phase')"

section \<open>Frames\<close>

definition paused :: "indexer_state \<Rightarrow> bool" where
  "paused ix \<longleftrightarrow> GapFillPause |\<in>| fi_pause_reasons (fz_inner (ix_finalizer ix)) \<and>
     GapFill |\<in>| sh_reasons (fz_health (ix_finalizer ix))"

definition same_pause :: "finalizer \<Rightarrow> finalizer \<Rightarrow> bool" where
  "same_pause fz fz' \<longleftrightarrow> fi_pause_reasons (fz_inner fz') = fi_pause_reasons (fz_inner fz) \<and>
     (GapFill |\<in>| sh_reasons (fz_health fz') \<longleftrightarrow> GapFill |\<in>| sh_reasons (fz_health fz))"

lemma same_pause_paused: "same_pause (ix_finalizer ix) (ix_finalizer ix') \<Longrightarrow> paused ix' = paused ix"
  by (simp add: same_pause_def paused_def)

lemma same_pause_trans: "same_pause a b \<Longrightarrow> same_pause b c \<Longrightarrow> same_pause a c"
  by (simp add: same_pause_def)

lemma start_block_same_pause: "same_pause (ix_finalizer s) (ix_finalizer (start_block config wo s))"
  by (auto simp: same_pause_def start_block_def process_snapshot_if_needed_def finish_startup_without_snapshot_def
      remove_reason_def Let_def)

lemma apply_stake_finalizer: "apply_stake config block s = Some (s', stake) \<Longrightarrow> ix_finalizer s' = ix_finalizer s \<and> ix_supply s' = ix_supply s"
  by (auto simp: apply_stake_def split: option.splits)

lemma plan_writes_finalizer:
  "plan_writes config block s = Some (s', chunked, closed) \<Longrightarrow>
    same_pause (ix_finalizer s) (ix_finalizer s') \<and> ix_supply s' = ix_supply s"
  by (auto simp: plan_writes_def same_pause_def record_block_def Let_def split: option.splits)

lemma run_block_writes_finalizer:
  "run_block_writes wo slot w s = (s', ok) \<Longrightarrow> ix_finalizer s' = ix_finalizer s \<and> ix_supply s' = ix_supply s"
  by (auto simp: run_block_writes_def split: prod.splits)

lemma commit_largest_finalizer:
  "commit_largest wo slot pendings s = Some s' \<Longrightarrow> ix_finalizer s' = ix_finalizer s \<and> ix_supply s' = ix_supply s"
  by (auto simp: commit_largest_def split: option.splits)

lemma publish_slot_same_pause: "same_pause (ix_finalizer s) (ix_finalizer (publish_slot wo block s))"
  by (simp add: same_pause_def publish_slot_def Let_def)

lemma save_block_steps:
  assumes "save_block config gap wo block s = Some s'"
  obtains s1 stake pendings s3 w s4 outcome s5 ok s6 where
    "apply_stake config block (start_block config wo s) = Some (s1, stake)"
    and "plan_writes config block (apply_mint config gap block s1) = Some (s3, w)"
    and "apply_supply wo block pendings stake s3 = (s4, outcome)"
    and "run_block_writes wo (gb_slot block) w s4 = (s5, ok)"
    and "commit_largest wo (gb_slot block) (largest_build_pending (map_option fst (ix_largest s1)) (gb_accounts block)
      (nc_tracker s1) (sk_expired stake)) s5 = Some s6"
    and "s' = finish_supply wo (gb_slot block) outcome ok (publish_slot wo block (persist_stake wo stake s6))"
  using assms that by (auto simp: save_block_def Let_def split: bind_splits prod.splits)

lemma save_block_same_pause:
  assumes "save_block config gap wo block s = Some s'"
  shows "same_pause (ix_finalizer s) (ix_finalizer s')"
proof (rule save_block_steps [OF assms], goal_cases)
  case (1 s1 stake pendings s3 w s4 outcome s5 ok s6)
  obtain chunked closed where w: "w = (chunked, closed)" by (cases w)
  have "same_pause (ix_finalizer (start_block config wo s)) (ix_finalizer s6)"
    using apply_stake_finalizer [OF 1(1)] plan_writes_finalizer [OF 1(2) [unfolded w]] apply_supply_frame [OF 1(3)]
      run_block_writes_finalizer [OF 1(4)] commit_largest_finalizer [OF 1(5)] by simp
  moreover have "same_pause (ix_finalizer s6) (ix_finalizer s')"
    using publish_slot_same_pause [of "persist_stake wo stake s6"] 1(6) by simp
  ultimately show ?case using start_block_same_pause same_pause_trans by blast
qed

section \<open>The invariant\<close>

lemma worker_same_pause:
  assumes "worker_step db_ok fz = Some (fz', jobs)"
  shows "same_pause fz fz'"
proof (rule worker_step_cases [OF assms])
  fix slot inner chain
  assume g: "get_slot_ancestors slot ((fz_inner fz) \<lparr>fi_pending := fi_pending (fz_inner fz) |-| {|slot|}\<rparr>) = (inner, chain)"
    and fz': "fz' = fst (finalize_chain db_ok chain (fz \<lparr>fz_inner := inner\<rparr>))"
  have "sh_reasons (fz_health (fst (finalize_chain db_ok chain fz))) = sh_reasons (fz_health fz)" for fz
    by (induction chain arbitrary: fz) auto
  moreover have "fi_pause_reasons inner = fi_pause_reasons (fz_inner fz)"
    by (rule get_slot_ancestors_spec [OF g]) (auto simp: taken_out_def)
  ultimately show ?thesis by (simp add: fz' same_pause_def)
qed

lemma on_fields [simp]:
  "gaps_of (on_finalizer f s) = gaps_of s" "gaps_of (on_supply g s) = gaps_of s"
  "hs_healing (on_finalizer f s) = hs_healing s" "hs_healing (on_supply g s) = hs_healing s"
  "ix_finalizer (hs_index (on_finalizer f s)) = f (ix_finalizer (hs_index s))"
  "ix_finalizer (hs_index (on_supply g s)) = ix_finalizer (hs_index s)"
  "hs_index (on_healing h s) = hs_index s" "hs_healing (on_healing h s) = h (hs_healing s)"
  "ix_supply (hs_index (on_finalizer f s)) = ix_supply (hs_index s)"
  "ix_supply (hs_index (on_supply g s)) = map_option g (ix_supply (hs_index s))"
  by (simp_all add: on_finalizer_def on_supply_def on_healing_def gaps_of_def)

lemma remove_slot_gaps [simp]:
  "hl_gaps_list (remove_slot_from_gaps_list slot h) = filter (\<lambda>s. s \<noteq> slot) (hl_gaps_list h)"
  "hl_last_slot_received (remove_slot_from_gaps_list slot h) = hl_last_slot_received h"
  "hl_gap_boundaries (remove_slot_from_gaps_list slot h) = hl_gap_boundaries h"
  by (simp_all add: remove_slot_from_gaps_list_def)

lemma remove_slots_gaps:
  "hl_gaps_list (fold remove_slot_from_gaps_list slots h) = filter (\<lambda>s. s \<notin> set slots) (hl_gaps_list h)"
  by (induction slots arbitrary: h) (auto intro: filter_cong)

lemma pause_paused: "paused (ix \<lparr>ix_finalizer := pause db_ok fz\<rparr>) \<longleftrightarrow>
    GapFillPause |\<in>| fi_pause_reasons (fz_inner fz) \<longrightarrow> GapFill |\<in>| sh_reasons (fz_health fz)"
  by (auto simp: paused_def pause_def add_reason_def)

text \<open>The pause and the health reason go together.\<close>

definition pause_in_step :: "indexer_state \<Rightarrow> bool" where
  "pause_in_step ix \<longleftrightarrow> (GapFillPause |\<in>| fi_pause_reasons (fz_inner (ix_finalizer ix)) \<longleftrightarrow>
     GapFill |\<in>| sh_reasons (fz_health (ix_finalizer ix)))"

definition gap_inv :: "indexer \<times> fill_phase \<Rightarrow> bool" where
  "gap_inv = (\<lambda>(s, phase). pause_in_step (hs_index s) \<and> (gaps_of s \<noteq> [] \<longrightarrow> paused (hs_index s)) \<and>
     (resuming phase \<longrightarrow> gaps_of s = []))"

lemma same_pause_in_step: "same_pause (ix_finalizer ix) (ix_finalizer ix') \<Longrightarrow> pause_in_step ix' = pause_in_step ix"
  by (simp add: same_pause_def pause_in_step_def)

lemma save_steady:
  assumes "save config wo block s = Some s'"
  shows "hs_healing s' = hs_healing s" and "paused (hs_index s') = paused (hs_index s)"
    and "pause_in_step (hs_index s') = pause_in_step (hs_index s)"
proof -
  obtain ix where ix: "save_block config (lowest_gap (hs_healing s)) wo block (hs_index s) = Some ix" "s' = s \<lparr>hs_index := ix\<rparr>"
    using assms by (auto simp: save_def)
  show "hs_healing s' = hs_healing s" "paused (hs_index s') = paused (hs_index s)"
    "pause_in_step (hs_index s') = pause_in_step (hs_index s)"
    using save_block_same_pause [OF ix(1)] same_pause_paused same_pause_in_step by (simp_all add: ix(2))
qed

lemma check_slot_gap_inv:
  assumes "pause_in_step (hs_index s)" and "gaps_of s \<noteq> [] \<longrightarrow> paused (hs_index s)"
  shows "pause_in_step (hs_index (check_slot_gap db_ok slot hash ps ph s))"
    and "gaps_of (check_slot_gap db_ok slot hash ps ph s) \<noteq> [] \<longrightarrow> paused (hs_index (check_slot_gap db_ok slot hash ps ph s))"
  using assms
  by (auto simp: check_slot_gap_def Let_def gaps_of_def pause_in_step_def paused_def pause_def add_reason_def
      filter_empty_conv)

lemma resume_steady [simp]:
  "pause_in_step (hs_index (resume_finalizer db_ok s))"
  "gaps_of (resume_finalizer db_ok s) = gaps_of s"
  by (auto simp: pause_in_step_def resume_finalizer_def resume_def remove_reason_def Let_def)

lemma fill_begin_cases:
  assumes "fill_begin db_ok max_retries fetch gaps boundaries s = NextIteration s' \<or>
    fill_begin db_ok max_retries fetch gaps boundaries s = Pass fp s'"
  shows "gaps = [] \<and> s' = resume_finalizer db_ok s \<or> gaps \<noteq> [] \<and> (\<exists>n. s' = on_healing (\<lambda>h. h \<lparr>hl_retries := n h\<rparr>) s)"
  using assms by (auto simp: fill_begin_def Let_def split: if_splits snapshot_fetch.splits option.splits prod.splits)

lemma fill_finish_fields [simp]:
  "gaps_of (fill_finish fp s) = filter (\<lambda>slot. \<not> (slot \<in> set (fp_covered fp) \<and> slot |\<notin>| fp_repaired fp)) (gaps_of s)"
  "ix_supply (hs_index (fill_finish fp s)) = ix_supply (hs_index s)"
  "fi_pause_reasons (fz_inner (ix_finalizer (hs_index (fill_finish fp s)))) = fi_pause_reasons (fz_inner (ix_finalizer (hs_index s)))"
  "fz_health (ix_finalizer (hs_index (fill_finish fp s))) = fz_health (ix_finalizer (hs_index s))"
proof -
  have "fi_pause_reasons (fz_inner (fold enqueue_gap_boundary xs fz)) = fi_pause_reasons (fz_inner fz)
      \<and> fz_health (fold enqueue_gap_boundary xs fz) = fz_health fz" for xs fz
    by (induction xs arbitrary: fz) (simp_all add: enqueue_gap_boundary_def enqueue_unbounded_def)
  then show "fi_pause_reasons (fz_inner (ix_finalizer (hs_index (fill_finish fp s)))) = fi_pause_reasons (fz_inner (ix_finalizer (hs_index s)))"
    "fz_health (ix_finalizer (hs_index (fill_finish fp s))) = fz_health (ix_finalizer (hs_index s))"
    by (simp_all add: fill_finish_def Let_def)
qed (auto simp: fill_finish_def Let_def gaps_of_def remove_slots_gaps intro: filter_cong)

lemma heal_step_inv:
  assumes "heal_step True x y" and "gap_inv x"
  shows "gap_inv y"
  using assms
proof cases
  case (update config wo u s s' phase)
  have inv: "pause_in_step (hs_index s)" "gaps_of s \<noteq> [] \<longrightarrow> paused (hs_index s)"
    using assms(2) update(1) by (auto simp: gap_inv_def)
  have "pause_in_step (hs_index s') \<and> (gaps_of s' \<noteq> [] \<longrightarrow> paused (hs_index s'))"
  proof (cases u)
    case (UBlock block)
    then have "save config wo block (check_slot_gap (wo_health wo) (gb_slot block) (gb_blockhash block)
        (gb_parent_slot block) (gb_parent_blockhash block) s) = Some s'"
      using update(3) by (auto simp: process_update_def split: option.splits)
    then show ?thesis using save_steady check_slot_gap_inv [OF inv] by (simp add: gaps_of_def)
  next
    case (USlot slot status)
    then show ?thesis
      using update(3) inv
      by (auto simp: process_update_def note_finalized_def pause_in_step_def paused_def Let_def
          split: slot_status.splits option.splits if_splits)
  next
    case UOther
    then show ?thesis using update(3) inv by (simp add: process_update_def)
  qed
  then show ?thesis using update by (auto simp: gap_inv_def)
next
  case (worker db_ok s fz jobs phase)
  then have "same_pause (ix_finalizer (hs_index s)) fz" by (intro worker_same_pause)
  then show ?thesis using assms(2) worker by (auto simp: gap_inv_def same_pause_def pause_in_step_def paused_def)
next
  case (snapshot s phase)
  then show ?thesis using assms(2) by (auto simp: gap_inv_def snapshot_processed_def pause_in_step_def paused_def)
next
  case (cleaned s phase deleted_ok db_ok)
  then show ?thesis
    using assms(2) by (auto simp: gap_inv_def startup_cleanup_done_def remove_reason_def Let_def pause_in_step_def paused_def)
next
  case (skip db_ok max_retries fetch gaps boundaries s s')
  then show ?thesis
    using assms(2) fill_begin_cases [of db_ok max_retries fetch gaps boundaries s s']
    by (auto simp: gap_inv_def) (auto simp: gaps_of_def)
next
  case (start db_ok max_retries fetch gaps boundaries s fp s')
  then have "gaps \<noteq> []" by (auto simp: fill_begin_def)
  then show ?thesis
    using assms(2) start fill_begin_cases [of db_ok max_retries fetch gaps boundaries s s' fp]
    by (auto simp: gap_inv_def gaps_of_def)
next
  case (repair config wo block fp s fp' s')
  then obtain s1 where s1: "save config wo block s = Some s1"
    "s' = on_healing (remove_slot_from_gaps_list (gb_slot block))
      (on_finalizer (\<lambda>fz. fz \<lparr>fz_inner := enqueue_unbounded (gb_slot block) (fz_inner fz)\<rparr>) s1)"
    by (auto simp: fill_block_def)
  have "paused (hs_index s') = paused (hs_index s1)" "pause_in_step (hs_index s') = pause_in_step (hs_index s1)"
    by (simp_all add: s1(2) paused_def pause_in_step_def enqueue_unbounded_def)
  moreover have "gaps_of s' = filter (\<lambda>x. x \<noteq> gb_slot block) (gaps_of s)"
    using save_steady(1) [OF s1(1)] by (simp add: s1(2) gaps_of_def)
  ultimately show ?thesis
    using assms(2) repair save_steady [OF s1(1)] by (auto simp: gap_inv_def)
next
  case (finish fp s s')
  then have "paused (hs_index s') = paused (hs_index s)" "pause_in_step (hs_index s') = pause_in_step (hs_index s)"
    by (auto simp: paused_def pause_in_step_def)
  then show ?thesis using assms(2) finish by (auto simp: gap_inv_def)
next
  case (resume s gaps_remaining db_ok)
  then show ?thesis
    using assms(2) by (cases gaps_remaining) (simp_all add: gap_inv_def fill_resume_def)
qed (auto simp: gap_inv_def)

lemma heal_run_inv: "(heal_step True)\<^sup>*\<^sup>* x y \<Longrightarrow> gap_inv x \<Longrightarrow> gap_inv y"
  by (induction rule: rtranclp_induct) (auto intro: heal_step_inv)

section \<open>Slots\<close>

lemma below_next:
  fixes a b :: u64
  assumes "a < b"
  shows "a < a + 1"
proof -
  have "1 + a \<noteq> 0"
  proof
    assume "1 + a = 0"
    then have "a = - 1" by (simp add: eq_neg_iff_add_eq_0 add.commute)
    then show False using assms word_order.extremum_strict [of b] by simp
  qed
  then show ?thesis using unatSuc [of a] by (simp add: word_less_nat_alt add.commute)
qed

lemma set_slots_between: "x \<in> set (slots_between a b) \<longleftrightarrow> a < x \<and> x < b"
proof
  assume "x \<in> set (slots_between a b)"
  then obtain n where n: "x = of_nat n" "unat a < n" "n < unat b" by (auto simp: slots_between_def)
  then have "n < 2 ^ 64" using unat_lt2p [of b] by simp
  then have "unat x = n" using n(1) by (simp add: unsigned_of_nat take_bit_nat_eq_self_iff)
  then show "a < x \<and> x < b" using n by (simp add: word_less_nat_alt)
next
  assume "a < x \<and> x < b"
  then have "x = of_nat (unat x)" "unat x \<in> set [Suc (unat a)..<unat b]" by (simp_all add: word_less_nat_alt)
  then show "x \<in> set (slots_between a b)" unfolding slots_between_def by (metis image_eqI set_map)
qed

section \<open>Supply during a gap\<close>

lemma save_block_ignores_old:
  assumes "save_block config gap wo block s = Some s'" and "ix_supply s = Some st" and "ss_status st = SGapFilling"
    and "gb_blockhash block \<noteq> []" and "gb_slot block \<le> ss_slot st"
  shows "ix_supply s' = Some st"
proof (rule save_block_steps [OF assms(1)], goal_cases)
  case (1 s1 stake pendings s3 w s4 outcome s5 ok s6)
  obtain chunked closed where w: "w = (chunked, closed)" by (cases w)
  have s3: "ix_supply s3 = Some st"
    using apply_stake_finalizer [OF 1(1)] plan_writes_finalizer [OF 1(2) [unfolded w]] assms(2)
    by (simp add: start_block_def)
  have "supply_apply_block (wo_prev wo) (gb_slot block) False pendings stake st = (st, Idle)"
    using assms(3,5) by (simp add: supply_apply_block_def probe_block_def)
  then have s4: "s4 = s3" "outcome = Idle"
    using 1(3) s3 assms(4) by (auto simp: apply_supply_def)
  have "ix_supply (publish_slot wo block (persist_stake wo stake s6)) = Some st"
    using s3 s4 run_block_writes_finalizer [OF 1(4)] commit_largest_finalizer [OF 1(5)]
    by (simp add: publish_slot_def Let_def)
  then show ?case by (simp add: 1(6) finish_supply_def s4(2) finish_block_def)
qed

section \<open>A pass\<close>

lemma save_block_pending:
  assumes "save_block config gap wo block s = Some s'"
  shows "fi_pending (fz_inner (ix_finalizer s')) = fi_pending (fz_inner (ix_finalizer s))"
proof (rule save_block_steps [OF assms], goal_cases)
  case (1 s1 stake pendings s3 w s4 outcome s5 ok s6)
  have "fi_pending (fz_inner (ix_finalizer s3)) = fi_pending (fz_inner (ix_finalizer s1))"
    using 1(2) by (auto simp: plan_writes_def record_block_def Let_def split: option.splits)
  moreover have "fz_inner (ix_finalizer (start_block config wo s)) = fz_inner (ix_finalizer s)"
    by (simp add: start_block_def process_snapshot_if_needed_def finish_startup_without_snapshot_def)
  ultimately show ?case
    using apply_stake_finalizer [OF 1(1)] apply_supply_frame [OF 1(3)] run_block_writes_finalizer [OF 1(4)]
      commit_largest_finalizer [OF 1(5)] 1(6) by simp
qed

abbreviation pending_slots :: "indexer \<Rightarrow> u64 fset" where
  "pending_slots s \<equiv> fi_pending (fz_inner (ix_finalizer (hs_index s)))"

lemma fill_block_effect:
  assumes "fill_block config wo block (fp, s) = Some (fp', s')"
  shows "fp' = fp \<lparr>fp_repaired := finsert (gb_slot block) (fp_repaired fp)\<rparr>"
    and "gaps_of s' = filter (\<lambda>g. g \<noteq> gb_slot block) (gaps_of s)"
    and "pending_slots s' = finsert (gb_slot block) (pending_slots s)"
    and "paused (hs_index s') = paused (hs_index s)"
proof -
  obtain s1 where s1: "save config wo block s = Some s1"
    "s' = on_healing (remove_slot_from_gaps_list (gb_slot block))
      (on_finalizer (\<lambda>fz. fz \<lparr>fz_inner := enqueue_unbounded (gb_slot block) (fz_inner fz)\<rparr>) s1)"
    "fp' = fp \<lparr>fp_repaired := finsert (gb_slot block) (fp_repaired fp)\<rparr>"
    using assms by (auto simp: fill_block_def)
  have "pending_slots s1 = pending_slots s" using s1(1) save_block_pending by (auto simp: save_def)
  then show "fp' = fp \<lparr>fp_repaired := finsert (gb_slot block) (fp_repaired fp)\<rparr>"
    "gaps_of s' = filter (\<lambda>g. g \<noteq> gb_slot block) (gaps_of s)"
    "pending_slots s' = finsert (gb_slot block) (pending_slots s)"
    "paused (hs_index s') = paused (hs_index s)"
    using save_steady [OF s1(1)] s1(2,3) by (simp_all add: gaps_of_def enqueue_unbounded_def paused_def)
qed

lemma repair_run:
  assumes "fold_option (\<lambda>(wo, block). fill_block config wo block) blocks (fp, s) = Some (fp', s')"
  shows "fp_covered fp' = fp_covered fp \<and> fp_boundaries fp' = fp_boundaries fp
    \<and> fset (fp_repaired fp') = fset (fp_repaired fp) \<union> (gb_slot \<circ> snd) ` set blocks
    \<and> gaps_of s' = filter (\<lambda>g. g \<notin> (gb_slot \<circ> snd) ` set blocks) (gaps_of s)
    \<and> fset (pending_slots s') = fset (pending_slots s) \<union> (gb_slot \<circ> snd) ` set blocks
    \<and> paused (hs_index s') = paused (hs_index s)"
  using assms
proof (induction blocks arbitrary: fp s)
  case (Cons x blocks)
  obtain wo block where x: "x = (wo, block)" by (cases x)
  obtain fp1 s1 where 1: "fill_block config wo block (fp, s) = Some (fp1, s1)"
    "fold_option (\<lambda>(wo, block). fill_block config wo block) blocks (fp1, s1) = Some (fp', s')"
    using Cons.prems by (auto simp: x split: option.splits)
  show ?case
    using Cons.IH [OF 1(2)] fill_block_effect [OF 1(1)] by (auto simp: x intro: filter_cong)
qed simp

lemma fill_finish_pending:
  "fset (pending_slots (fill_finish fp s)) = fset (pending_slots s) \<union> fset (fp_boundaries fp)"
proof -
  have "fset (fi_pending (fz_inner (fold enqueue_gap_boundary xs fz))) = fset (fi_pending (fz_inner fz)) \<union> set xs" for xs fz
    by (induction xs arbitrary: fz) (auto simp: enqueue_gap_boundary_def enqueue_unbounded_def)
  then show ?thesis by (simp add: fill_finish_def Let_def)
qed

lemma finish_gap_not_filling: "ss_status (finish_gap st) \<noteq> SGapFilling"
  by (simp add: finish_gap_def)

lemma fill_resume_clears:
  "fi_pause_reasons (fz_inner (ix_finalizer (hs_index (fill_resume db_ok False s)))) = {||}"
  "GapFill |\<notin>| sh_reasons (fz_health (ix_finalizer (hs_index (fill_resume db_ok False s))))"
  "ix_supply (hs_index (fill_resume db_ok False s)) = map_option finish_gap (ix_supply (hs_index s))"
  "pending_slots (fill_resume db_ok False s) = pending_slots s"
  "gaps_of (fill_resume db_ok gaps_remaining s) = gaps_of s"
proof -
  have "x = GapFillPause" for x by (cases x) simp
  then show "fi_pause_reasons (fz_inner (ix_finalizer (hs_index (fill_resume db_ok False s)))) = {||}"
    by (auto simp: fill_resume_def resume_finalizer_def resume_def)
qed (simp_all add: fill_resume_def resume_finalizer_def resume_def remove_reason_def Let_def)

section \<open>Properties\<close>

lemma mark_gap_not_live: "ss_status (fst (mark_gap st)) \<noteq> SLive"
  by (simp add: mark_gap_def)

text \<open>C11: A gap is noticed. When a block arrives that does not build on the newest block, every slot in
  between is queued for repair and the newest block's slot becomes a boundary, finalization is paused with
  its health reason, and a live supply stops committing; when it builds on it, nothing is queued; a block
  that is out of order takes its own slot from the queue and changes nothing else.\<close>

theorem gap_detected:
  assumes "pause_in_step (hs_index s)" and "last_slot = hl_last_slot_received (hs_healing s)"
    and "s' = check_slot_gap db_ok slot hash parent_slot parent_hash s"
  shows "(slot \<le> last_slot \<longrightarrow> s' = on_healing (remove_slot_from_gaps_list slot) s)
    \<and> (last_slot < slot \<longrightarrow> hl_last_slot_received (hs_healing s') = slot \<and> hl_last_blockhash_received (hs_healing s') = hash)
    \<and> (last_slot < slot \<and> builds_on_last parent_slot parent_hash (hs_healing s) \<longrightarrow>
         gaps_of s' = gaps_of s \<and> hs_index s' = hs_index s)
    \<and> (last_slot \<noteq> 0 \<and> last_slot < slot \<and> \<not> builds_on_last parent_slot parent_hash (hs_healing s) \<longrightarrow>
         (\<forall>x. x \<in> set (gaps_of s') \<longleftrightarrow> x \<in> set (gaps_of s) \<or> last_slot < x \<and> x < slot)
         \<and> (last_slot + 1 < slot \<longrightarrow> paused (hs_index s') \<and> last_slot |\<in>| hl_gap_boundaries (hs_healing s')
              \<and> (\<forall>st. ix_supply (hs_index s') = Some st \<longrightarrow> ss_status st \<noteq> SLive)
              \<and> (\<exists>g. lowest_gap (hs_healing s') = Some g \<and> g \<le> last_slot + 1)))"
proof -
  show ?thesis
  proof (cases "last_slot < slot")
    case False
    then show ?thesis using assms by (auto simp: check_slot_gap_def Let_def)
  next
    case True
    then have old: "\<not> slot \<le> last_slot" by simp
    show ?thesis
    proof (cases "last_slot \<noteq> 0 \<and> last_slot + 1 < slot \<and> \<not> builds_on_last parent_slot parent_hash (hs_healing s)")
      case gap: True
      have s': "s' = on_healing (\<lambda>h. h \<lparr>hl_last_slot_received := slot, hl_last_blockhash_received := hash\<rparr>)
          (on_supply (fst \<circ> mark_gap) (on_finalizer (pause db_ok)
            (on_healing (\<lambda>h. h \<lparr>hl_gaps_list := hl_gaps_list h @ slots_between last_slot slot,
                hl_gap_boundaries := finsert last_slot (hl_gap_boundaries h)\<rparr>) s)))"
        using gap old by (simp add: assms(2,3) check_slot_gap_def Let_def)
      have gaps: "gaps_of s' = gaps_of s @ slots_between last_slot slot" by (simp add: s' gaps_of_def)
      have mem: "last_slot + 1 \<in> set (gaps_of s')" using gaps set_slots_between below_next [OF True] gap by simp
      have "paused (hs_index s')"
        using assms(1) by (auto simp: s' paused_def pause_in_step_def pause_def add_reason_def)
      moreover have "\<forall>st. ix_supply (hs_index s') = Some st \<longrightarrow> ss_status st \<noteq> SLive"
        using mark_gap_not_live by (auto simp: s')
      moreover have "\<exists>g. lowest_gap (hs_healing s') = Some g \<and> g \<le> last_slot + 1"
        using mem by (auto simp: lowest_gap_def gaps_of_def intro: Min_le)
      ultimately show ?thesis using gaps set_slots_between old gap by (auto simp: s')
    next
      case False
      then have s': "s' = on_healing (\<lambda>h. h \<lparr>hl_last_slot_received := slot, hl_last_blockhash_received := hash\<rparr>) s"
        using old False by (auto simp: assms(2,3) check_slot_gap_def Let_def)
      have "\<not> (last_slot < x \<and> x < slot)" if "\<not> last_slot + 1 < slot" for x
        using that inc_le [of last_slot x] by (meson order_le_less_trans)
      then show ?thesis using False old by (auto simp: s' gaps_of_def)
    qed
  qed
qed

definition wit_healing :: healing where
  "wit_healing = new_healing \<lparr>hl_last_slot_received := 5, hl_last_blockhash_received := ''a''\<rparr>"

definition wit_indexer :: indexer where
  "wit_indexer = \<lparr>hs_healing = wit_healing, hs_index = wit_state\<rparr>"

lemma wit_in_step: "pause_in_step wit_state" "\<not> paused wit_state"
  by (simp_all add: pause_in_step_def paused_def wit_state_def snapshot_processed_def spawn_finalizer_def new_inner_def health_new_def)

theorem gap_detected_witness:
  "let s' = check_slot_gap True 9 ''d'' 8 ''c'' wit_indexer
   in (\<forall>x. x \<in> set (gaps_of s') \<longleftrightarrow> 5 < x \<and> x < 9) \<and> paused (hs_index s')
     \<and> (\<exists>g. lowest_gap (hs_healing s') = Some g \<and> g \<le> 6)"
proof -
  have "pause_in_step (hs_index wit_indexer)" "5 = hl_last_slot_received (hs_healing wit_indexer)"
    "\<not> builds_on_last 8 ''c'' (hs_healing wit_indexer)" "gaps_of wit_indexer = []"
    using wit_in_step by (simp_all add: wit_indexer_def wit_healing_def new_healing_def builds_on_last_def gaps_of_def)
  then show ?thesis
    using gap_detected [of wit_indexer 5 "check_slot_gap True 9 ''d'' 8 ''c'' wit_indexer" True 9 "''d''" 8 "''c''"]
    by (simp add: Let_def)
qed

text \<open>C29: Nothing is finalized over a gap. In every interleaving of the live loop, the finalizer's worker, the
  snapshot load and the repair task in which no gap is found just while the task is about to resume, a slot
  that waits for repair means that the worker does not move and that the node reports itself unhealthy.\<close>

theorem paused_while_gaps:
  assumes "(heal_step True)\<^sup>*\<^sup>* (s0, Sleeping) (s, phase)" and "pause_in_step (hs_index s0)" and "gaps_of s0 = []"
    and "gaps_of s \<noteq> []"
  shows "worker_step db_ok (ix_finalizer (hs_index s)) = None \<and> \<not> health_ok (fz_health (ix_finalizer (hs_index s)))"
proof -
  have "gap_inv (s, phase)" using heal_run_inv [OF assms(1)] assms(2,3) by (simp add: gap_inv_def)
  then have "paused (hs_index s)" using assms(4) by (simp add: gap_inv_def)
  then show ?thesis by (auto simp: paused_def worker_step_def health_ok_def)
qed

lemma wit_process:
  assumes "gb_parent_slot block = 8" and "gb_slot block = 9" and "saves_in_full wit_outcomes block wit_state"
  obtains s' where "process_update wit_config wit_outcomes (UBlock block) wit_indexer = Done s'"
    and "gaps_of s' \<noteq> []"
proof -
  let ?s1 = "check_slot_gap True 9 (gb_blockhash block) 8 (gb_parent_blockhash block) wit_indexer"
  have gaps: "gaps_of ?s1 \<noteq> []"
    by (simp add: check_slot_gap_def Let_def wit_indexer_def wit_healing_def new_healing_def builds_on_last_def gaps_of_def
        slots_between_def)
  have "saves_in_full wit_outcomes block (hs_index ?s1)"
    using assms(3)
    by (simp add: check_slot_gap_def Let_def wit_indexer_def wit_healing_def new_healing_def builds_on_last_def
        saves_in_full_def snapshot_in_place_def trackers_ready_def on_finalizer_def on_supply_def pause_def)
  then obtain ix where ix: "save_block wit_config (lowest_gap (hs_healing ?s1)) wit_outcomes block (hs_index ?s1) = Some ix"
    by (rule save_block_off)
  have "process_update wit_config wit_outcomes (UBlock block) wit_indexer = Done (?s1 \<lparr>hs_index := ix\<rparr>)"
    using assms ix by (simp add: process_update_def save_def wit_outcomes_def)
  then show thesis by (rule that) (use gaps in \<open>simp add: gaps_of_def\<close>)
qed

theorem paused_while_gaps_witness:
  "\<exists>s. (heal_step True)\<^sup>*\<^sup>* (wit_indexer, Sleeping) (s, Sleeping) \<and> gaps_of s \<noteq> []
    \<and> worker_step (\<lambda>_. True) (ix_finalizer (hs_index s)) = None"
proof -
  obtain s' where s': "process_update wit_config wit_outcomes (UBlock wit_block) wit_indexer = Done s'" "gaps_of s' \<noteq> []"
    by (rule wit_process [of wit_block]) (simp_all add: wit_saves, simp_all add: wit_block_def)
  then have run: "(heal_step True)\<^sup>*\<^sup>* (wit_indexer, Sleeping) (s', Sleeping)"
    by (intro r_into_rtranclp heal_step.update) simp_all
  have "pause_in_step (hs_index wit_indexer)" "gaps_of wit_indexer = []"
    using wit_in_step by (simp_all add: wit_indexer_def wit_healing_def new_healing_def gaps_of_def)
  from paused_while_gaps [OF run this s'(2)] run s'(2) show ?thesis by blast
qed

text \<open>The proviso is needed. The task reads the list of gaps and resumes in two separate steps: a gap found in
  between is paused and at once resumed, so the finalizer runs on with slots missing below it and the node
  reports itself healthy, until the end of the next pass.\<close>

theorem resume_races_gap:
  assumes "process_update config wo u s = Done s1" and "gaps_of s = []" and "gaps_of s1 \<noteq> []"
  shows "\<exists>s'. (heal_step False)\<^sup>*\<^sup>* (s, Sleeping) (s', Sleeping) \<and> gaps_of s' = gaps_of s1
    \<and> fi_pause_reasons (fz_inner (ix_finalizer (hs_index s'))) = {||}
    \<and> GapFill |\<notin>| sh_reasons (fz_health (ix_finalizer (hs_index s')))"
proof -
  let ?b = "hl_gap_boundaries (hs_healing s)" and ?s' = "resume_finalizer True s1"
  have 1: "heal_step False (s, Sleeping) (s, ReadGaps [])" using heal_step.read_gaps [of False s] assms(2) by simp
  have 2: "heal_step False (s, ReadGaps []) (s, ReadAll [] ?b)" by (rule heal_step.read_boundaries)
  have 3: "heal_step False (s, ReadAll [] ?b) (s1, ReadAll [] ?b)" by (rule heal_step.update [OF assms(1)]) simp
  have 4: "heal_step False (s1, ReadAll [] ?b) (?s', Sleeping)"
    by (rule heal_step.skip [of True 1 FetchFailed]) (simp add: fill_begin_def)
  from 1 2 3 4 have "(heal_step False)\<^sup>*\<^sup>* (s, Sleeping) (?s', Sleeping)"
    by (meson rtranclp.rtrancl_refl converse_rtranclp_into_rtranclp)
  moreover have "x = GapFillPause" for x by (cases x) simp
  then have "fi_pause_reasons (fz_inner (ix_finalizer (hs_index ?s'))) = {||}"
    by (auto simp: resume_finalizer_def resume_def)
  moreover have "GapFill |\<notin>| sh_reasons (fz_health (ix_finalizer (hs_index ?s')))"
    by (simp add: resume_finalizer_def resume_def remove_reason_def Let_def)
  ultimately show ?thesis by (intro exI [of _ ?s']) simp
qed

theorem resume_races_gap_witness:
  "\<exists>s'. (heal_step False)\<^sup>*\<^sup>* (wit_indexer, Sleeping) (s', Sleeping) \<and> gaps_of s' \<noteq> []
    \<and> fi_pause_reasons (fz_inner (ix_finalizer (hs_index s'))) = {||}"
proof -
  obtain s1 where s1: "process_update wit_config wit_outcomes (UBlock wit_block) wit_indexer = Done s1" "gaps_of s1 \<noteq> []"
    by (rule wit_process [of wit_block]) (simp_all add: wit_saves, simp_all add: wit_block_def)
  have "gaps_of wit_indexer = []" by (simp add: wit_indexer_def wit_healing_def new_healing_def gaps_of_def)
  from resume_races_gap [OF s1(1) this s1(2)] s1(2) show ?thesis by auto
qed

text \<open>C30: A pass repairs what it covers. When a pass over the gaps ends, exactly the covered slots and those
  of the repaired blocks have left the queue; every repaired slot and every boundary waits for finalization;
  and when nothing is left the pause, its health reason and the gap status of the supply are gone, while the
  uncovered rest keeps all three.\<close>

theorem pass_repairs:
  assumes "fill_begin db_ok max_retries (Fetched (Some (snapshot_slot, Some base_slot))) gaps boundaries s = Pass fp s1"
    and "fold_option (\<lambda>(wo, block). fill_block config wo block) blocks (fp, s1) = Some (fp2, s2)"
    and "fill_end db_ok True fp2 s2 = Some s3"
  shows "gaps_of s3 = filter (\<lambda>g. \<not> (g \<in> set gaps \<and> base_slot < g) \<and> g \<notin> (gb_slot \<circ> snd) ` set blocks) (gaps_of s)
    \<and> fset boundaries \<union> (gb_slot \<circ> snd) ` set blocks \<subseteq> fset (pending_slots s3)
    \<and> (gaps_of s3 = [] \<longrightarrow> fi_pause_reasons (fz_inner (ix_finalizer (hs_index s3))) = {||}
         \<and> GapFill |\<notin>| sh_reasons (fz_health (ix_finalizer (hs_index s3)))
         \<and> (\<forall>st. ix_supply (hs_index s3) = Some st \<longrightarrow> ss_status st \<noteq> SGapFilling))
    \<and> (gaps_of s3 \<noteq> [] \<longrightarrow> (paused (hs_index s3) \<longleftrightarrow> paused (hs_index s)) \<and> ix_supply (hs_index s3) = ix_supply (hs_index s2))"
proof -
  have cov: "set (fp_covered fp) = {g \<in> set gaps. base_slot < g}" "fp_boundaries fp = boundaries" "fp_repaired fp = {||}"
    and s1: "gaps_of s1 = gaps_of s" "paused (hs_index s1) = paused (hs_index s)"
    using assms(1) by (auto simp: fill_begin_def gaps_of_def Let_def split: if_splits)
  note run = repair_run [OF assms(2)]
  let ?f = "fill_finish fp2 s2"
  have s3: "s3 = fill_resume db_ok (gaps_of ?f \<noteq> []) ?f" using assms(3) by (simp add: fill_end_def gaps_of_def Let_def)
  have gaps: "gaps_of s3 = filter (\<lambda>g. \<not> (g \<in> set gaps \<and> base_slot < g) \<and> g \<notin> (gb_slot \<circ> snd) ` set blocks) (gaps_of s)"
    using run cov s1 by (auto simp: s3 fill_resume_clears(5) intro: filter_cong)
  have pend: "fset boundaries \<union> (gb_slot \<circ> snd) ` set blocks \<subseteq> fset (pending_slots ?f)"
    using run cov fill_finish_pending by auto
  show ?thesis
  proof (cases "gaps_of ?f = []")
    case True
    then have "s3 = fill_resume db_ok False ?f" by (simp add: s3)
    moreover have "gaps_of s3 = []" using True by (simp add: s3 fill_resume_clears(5))
    ultimately show ?thesis using gaps pend fill_resume_clears finish_gap_not_filling by auto
  next
    case False
    then have "s3 = ?f" by (simp add: s3 fill_resume_def)
    then show ?thesis using gaps pend run s1 False by (auto simp: paused_def)
  qed
qed

text \<open>A late block is lost to the supply. When a missing block arrives late, after its slot was queued for
  repair, its slot leaves the queue, so no snapshot repairs it; but the supply tracker, which is past the slot,
  ignores the block. If it was the last slot of the queue the next tick of the task resumes finalization and
  leaves the tracker filling a gap that is no longer there, committing nothing; and the next pass that ends
  sets it live again with the old total, without the balance changes of the block.\<close>

theorem late_block_lost_to_supply:
  assumes "process_update config wo (UBlock block) s = Done s1" and "gaps_of s = [gb_slot block]"
    and "gb_slot block \<le> hl_last_slot_received (hs_healing s)" and "gb_blockhash block \<noteq> []"
    and "ix_supply (hs_index s) = Some st" and "ss_status st = SGapFilling" and "gb_slot block \<le> ss_slot st"
  shows "\<exists>s2. (heal_step True)\<^sup>*\<^sup>* (s, Sleeping) (s2, Sleeping) \<and> gaps_of s2 = []
    \<and> fi_pause_reasons (fz_inner (ix_finalizer (hs_index s2))) = {||}
    \<and> ix_supply (hs_index s2) = Some st
    \<and> (\<exists>st'. ix_supply (hs_index (fill_resume True False s2)) = Some st' \<and> ss_status st' = SLive \<and> ss_total st' = ss_total st)"
proof -
  let ?s0 = "on_healing (remove_slot_from_gaps_list (gb_slot block)) s"
  have "save config wo block ?s0 = Some s1"
    using assms(1,3) by (auto simp: process_update_def check_slot_gap_def Let_def split: option.splits)
  then obtain ix where ix: "save_block config (lowest_gap (hs_healing ?s0)) wo block (hs_index s) = Some ix"
    "s1 = ?s0 \<lparr>hs_index := ix\<rparr>" by (auto simp: save_def)
  have st: "ix_supply ix = Some st" by (rule save_block_ignores_old [OF ix(1) assms(5,6,4,7)])
  have gaps: "gaps_of s1 = []" using assms(2) by (simp add: ix(2) gaps_of_def)
  let ?b = "hl_gap_boundaries (hs_healing s1)" and ?s2 = "resume_finalizer True s1"
  have 1: "heal_step True (s, Sleeping) (s1, Sleeping)" by (rule heal_step.update [OF assms(1)]) simp
  have 2: "heal_step True (s1, Sleeping) (s1, ReadGaps [])" using heal_step.read_gaps [of True s1] gaps by simp
  have 3: "heal_step True (s1, ReadGaps []) (s1, ReadAll [] ?b)" by (rule heal_step.read_boundaries)
  have 4: "heal_step True (s1, ReadAll [] ?b) (?s2, Sleeping)"
    by (rule heal_step.skip [of True 1 FetchFailed]) (simp add: fill_begin_def)
  from 1 2 3 4 have "(heal_step True)\<^sup>*\<^sup>* (s, Sleeping) (?s2, Sleeping)"
    by (meson rtranclp.rtrancl_refl converse_rtranclp_into_rtranclp)
  moreover have "ix_supply (hs_index ?s2) = Some st" using st by (simp add: resume_finalizer_def ix(2))
  moreover have "x = GapFillPause" for x by (cases x) simp
  then have "fi_pause_reasons (fz_inner (ix_finalizer (hs_index ?s2))) = {||}"
    by (auto simp: resume_finalizer_def resume_def)
  ultimately show ?thesis
    using gaps assms(6) by (intro exI [of _ ?s2]) (simp add: fill_resume_clears finish_gap_def)
qed

definition wit_repaired :: confirmed_block where
  "wit_repaired = wit_block \<lparr>gb_slot := 7, gb_blockhash := [], gb_parent_slot := 0, gb_parent_blockhash := []\<rparr>"

definition wit_gap_indexer :: indexer where
  "wit_gap_indexer = \<lparr>hs_healing = new_healing \<lparr>hl_gaps_list := [7, 6, 2], hl_gap_boundaries := {|5|}\<rparr>,
     hs_index = wit_state \<lparr>ix_finalizer := pause True ((ix_finalizer wit_state) \<lparr>fz_snapshot_state := FinishedAndCleanedUp\<rparr>)\<rparr>\<rparr>"

lemma wit_repair_saves: "saves_in_full wit_outcomes wit_repaired (hs_index wit_gap_indexer)"
  using wit_saves
  by (simp add: saves_in_full_def wit_repaired_def wit_gap_indexer_def snapshot_in_place_def trackers_ready_def pause_def
      wit_state_def Largest_Accounts.wit_live_def)

theorem pass_repairs_witness:
  "\<exists>fp2 s2 s3. fill_end True True fp2 s2 = Some s3 \<and> gaps_of s3 = [2] \<and> {5, 7} \<subseteq> fset (pending_slots s3)"
proof -
  let ?s = wit_gap_indexer
  let ?s1 = "on_healing (\<lambda>h. h \<lparr>hl_retries := 0\<rparr>) ?s"
  have gaps: "gaps_of ?s = [7, 6, 2]" by (simp add: gaps_of_def wit_gap_indexer_def)
  have up: "fz_snapshot_state (ix_finalizer (hs_index ?s)) = FinishedAndCleanedUp"
    by (simp add: wit_gap_indexer_def pause_def)
  have covered: "filter ((<) (3 :: u64)) (sort [7, 6, 2]) = [6, 7]" by code_simp
  obtain fp where start: "fill_begin True 5 (Fetched (Some (9, Some 3))) [7, 6, 2] {|5|} ?s = Pass fp ?s1"
    by (rule that [of "\<lparr>fp_covered = [6, 7], fp_boundaries = {|5|}, fp_repaired = {||}\<rparr>"])
      (simp add: fill_begin_def up covered Let_def)
  have "saves_in_full wit_outcomes wit_repaired (hs_index ?s1)" using wit_repair_saves by simp
  then obtain ix where "save_block wit_config (lowest_gap (hs_healing ?s1)) wit_outcomes wit_repaired (hs_index ?s1) = Some ix"
    by (rule save_block_off)
  then obtain fp2 s2 where run: "fold_option (\<lambda>(wo, block). fill_block wit_config wo block) [(wit_outcomes, wit_repaired)] (fp, ?s1)
      = Some (fp2, s2)" by (simp add: fill_block_def save_def)
  obtain s3 where s3: "fill_end True True fp2 s2 = Some s3" by (simp add: fill_end_def Let_def)
  have "(gb_slot \<circ> snd) ` set [(wit_outcomes, wit_repaired)] = {7}" by (simp add: wit_repaired_def)
  then show ?thesis using pass_repairs [OF start run s3] gaps s3 by auto
qed

definition wit_late_indexer :: indexer where
  "wit_late_indexer = \<lparr>hs_healing = new_healing \<lparr>hl_gaps_list := [9], hl_last_slot_received := 12\<rparr>,
     hs_index = wit_state \<lparr>ix_supply := Some (wit_supply \<lparr>ss_status := SGapFilling, ss_slot := 12\<rparr>)\<rparr>\<rparr>"

theorem late_block_lost_to_supply_witness:
  "\<exists>s2. (heal_step True)\<^sup>*\<^sup>* (wit_late_indexer, Sleeping) (s2, Sleeping) \<and> gaps_of s2 = []
    \<and> ix_supply (hs_index s2) = Some (wit_supply \<lparr>ss_status := SGapFilling, ss_slot := 12\<rparr>)"
proof -
  let ?s0 = "on_healing (remove_slot_from_gaps_list 9) wit_late_indexer"
  have "saves_in_full wit_outcomes wit_block (hs_index wit_late_indexer)"
    using wit_saves by (simp add: saves_in_full_def wit_late_indexer_def snapshot_in_place_def trackers_ready_def)
  then obtain ix where ix: "save_block wit_config (lowest_gap (hs_healing ?s0)) wit_outcomes wit_block (hs_index wit_late_indexer) = Some ix"
    by (rule save_block_off)
  have late: "gb_slot wit_block = 9" "gb_blockhash wit_block \<noteq> []" "hl_last_slot_received (hs_healing wit_late_indexer) = 12"
    "gaps_of wit_late_indexer = [9]"
    "ix_supply (hs_index wit_late_indexer) = Some (wit_supply \<lparr>ss_status := SGapFilling, ss_slot := 12\<rparr>)"
    by (simp_all add: wit_block_def wit_late_indexer_def new_healing_def gaps_of_def)
  have "process_update wit_config wit_outcomes (UBlock wit_block) wit_late_indexer = Done (?s0 \<lparr>hs_index := ix\<rparr>)"
    using late ix by (simp add: process_update_def save_def check_slot_gap_def Let_def)
  from late_block_lost_to_supply [OF this _ _ late(2,5)] late show ?thesis by auto
qed

end
