(* ===== verification/Rpc_Error.thy ===== *)
theory Rpc_Error
  imports Prelude
begin

text \<open>
  The errors of the API (\<open>crates/api/src/error.rs\<close>) as values: the right-hand injection of
  \<open>rpc_error + 'a\<close> is the answer of a method. The strings are the payload of the message.
\<close>

datatype rpc_error =
    DatabaseError string
  | InvalidParams
  | InvalidRequest
  | InternalError
  | PubkeyValidationError string
  | ParseError
  | MinContextSlotNotReached u64
  | InvalidParamsWithMessage string
  | KeyExcludedFromSecondaryIndex pubkey
  | ProcessedCommitmentNotSupported
  | NodeUnhealthy bool
  | AccountOwnerExcluded pubkey pubkey
  | AccountNotFound pubkey
  | NotATokenAccount pubkey
  | NotATokenMint pubkey
  | MintDataNotFound pubkey
  | UnrecognizedTokenProgramId string
  | MintCouldNotBeUnpacked pubkey
  | TokenMintCouldNotBeUnpacked pubkey
  | Base58DataTooLarge
  | MethodNotFound

type_synonym 'a rpc_result = "rpc_error + 'a"

fun to_numeric_code :: "rpc_error \<Rightarrow> int" where
  "to_numeric_code (DatabaseError _) = -32603"
| "to_numeric_code InvalidRequest = -32600"
| "to_numeric_code InvalidParams = -32602"
| "to_numeric_code InternalError = -32603"
| "to_numeric_code (PubkeyValidationError _) = -32602"
| "to_numeric_code ParseError = -32700"
| "to_numeric_code (MinContextSlotNotReached _) = -32016"
| "to_numeric_code (InvalidParamsWithMessage _) = -32602"
| "to_numeric_code (KeyExcludedFromSecondaryIndex _) = -32010"
| "to_numeric_code ProcessedCommitmentNotSupported = -32602"
| "to_numeric_code (NodeUnhealthy _) = -32005"
| "to_numeric_code (AccountOwnerExcluded _ _) = -32010"
| "to_numeric_code (AccountNotFound _) = -32602"
| "to_numeric_code (NotATokenAccount _) = -32602"
| "to_numeric_code (NotATokenMint _) = -32602"
| "to_numeric_code (MintDataNotFound _) = -32602"
| "to_numeric_code (UnrecognizedTokenProgramId _) = -32602"
| "to_numeric_code (MintCouldNotBeUnpacked _) = -32602"
| "to_numeric_code (TokenMintCouldNotBeUnpacked _) = -32602"
| "to_numeric_code Base58DataTooLarge = -32600"
| "to_numeric_code MethodNotFound = -32601"

text \<open>The JSON-RPC \<open>data\<close> member: the slot reached, or the unknown distance of an unhealthy node.\<close>

datatype error_data = ContextSlotData u64 | NumSlotsBehind "u64 option"

fun to_error_data :: "rpc_error \<Rightarrow> error_data option" where
  "to_error_data (MinContextSlotNotReached context_slot) = Some (ContextSlotData context_slot)"
| "to_error_data (NodeUnhealthy _) = Some (NumSlotsBehind None)"
| "to_error_data _ = None"

text \<open>Every code lies in the reserved range of JSON-RPC or of the Solana server errors.\<close>

lemma to_numeric_code_range: "to_numeric_code e \<in> {-32700..-32005}"
  by (cases e) auto

lemma to_error_data_codes:
  "to_error_data e \<noteq> None \<longleftrightarrow> to_numeric_code e \<in> {-32016, -32005}"
  by (cases e) auto

text \<open>Sequencing of fallible steps: \<open>?\<close>.\<close>

definition rbind :: "'e + 'a \<Rightarrow> ('a \<Rightarrow> 'e + 'b) \<Rightarrow> 'e + 'b" where
  "rbind m f = (case m of Inl e \<Rightarrow> Inl e | Inr a \<Rightarrow> f a)"

lemma rbind_simps [simp]: "rbind (Inl e) f = Inl e" "rbind (Inr a) f = f a"
  by (simp_all add: rbind_def)

lemma rbind_eq_Inr: "rbind m f = Inr b \<longleftrightarrow> (\<exists>a. m = Inr a \<and> f a = Inr b)"
  by (simp add: rbind_def split: sum.split)

lemma rbind_eq_Inl: "rbind m f = Inl e \<longleftrightarrow> m = Inl e \<or> (\<exists>a. m = Inr a \<and> f a = Inl e)"
  by (simp add: rbind_def split: sum.split)

definition ok_or :: "'e \<Rightarrow> 'a option \<Rightarrow> 'e + 'a" where
  "ok_or e x = (case x of None \<Rightarrow> Inl e | Some a \<Rightarrow> Inr a)"

lemma ok_or_simps [simp]: "ok_or e None = Inl e" "ok_or e (Some a) = Inr a"
  by (simp_all add: ok_or_def)

end
