(* ===== verification/Slot_Sync.thy ===== *)
theory Slot_Sync
  imports Rpc_Error Processed Mint_Api
begin

text \<open>
  The slots a request reads at: the slot syncronizer (\<open>crates/api/src/slot_syncronizer.rs\<close>), which applies
  the notifications of the \<open>slots\<close> table, the feed task that hands blocks and anchors to the processed store
  and the mint cache (\<open>crates/api/src/grpc_feed.rs\<close>), and the resolution of a request's commitment
  (\<open>crates/api/src/http/mod.rs\<close>, \<open>methods/mod.rs\<close>, \<open>db_query.rs\<close>). A panic, which ends the process, is \<open>None\<close>.
\<close>

section \<open>Slots in memory\<close>

datatype commitment_level = Level_Processed | Level_Confirmed | Level_Finalized

record slot_data =
  sd_slot :: u64
  sd_block_time :: int

record slot_syncronizer_data =
  ss_confirmed_slot :: slot_data
  ss_finalized_slot :: slot_data
  ss_healthy :: bool

definition default_slot_data :: slot_data where
  "default_slot_data = \<lparr>sd_slot = 0, sd_block_time = 0\<rparr>"

definition default_slots :: slot_syncronizer_data where
  "default_slots = \<lparr>ss_confirmed_slot = default_slot_data, ss_finalized_slot = default_slot_data, ss_healthy = False\<rparr>"

fun data_for_commitment :: "slot_syncronizer_data \<Rightarrow> commitment_level \<Rightarrow> slot_data" where
  "data_for_commitment slots Level_Finalized = ss_finalized_slot slots"
| "data_for_commitment slots Level_Confirmed = ss_confirmed_slot slots"
| "data_for_commitment slots Level_Processed = ss_confirmed_slot slots"

definition get_slot_for_commitment :: "slot_syncronizer_data \<Rightarrow> commitment_level \<Rightarrow> u64" where
  "get_slot_for_commitment slots level = sd_slot (data_for_commitment slots level)"

definition get_block_time_for_commitment :: "slot_syncronizer_data \<Rightarrow> commitment_level \<Rightarrow> int" where
  "get_block_time_for_commitment slots level = sd_block_time (data_for_commitment slots level)"

text \<open>One row of \<open>slots\<close>, from a notification. Its columns are signed.\<close>

record slot_notification =
  sn_commitment :: int
  sn_slot :: int
  sn_block_time :: int
  sn_health :: bool
  sn_blockhash :: "string option"

definition COMMITMENT_CONFIRMED :: int where "COMMITMENT_CONFIRMED = 1"
definition COMMITMENT_FINALIZED :: int where "COMMITMENT_FINALIZED = 2"

definition confirmed_advance :: "slot_syncronizer_data \<Rightarrow> slot_notification \<Rightarrow> bool" where
  "confirmed_advance slots row \<longleftrightarrow> sn_commitment row = COMMITMENT_CONFIRMED
     \<and> word_of_int (sn_slot row) > sd_slot (ss_confirmed_slot slots)"

definition advance :: "slot_notification \<Rightarrow> slot_data \<Rightarrow> slot_data \<times> bool" where
  "advance row current =
     (let slot = word_of_int (sn_slot row)
      in if slot > sd_slot current then (\<lparr>sd_slot = slot, sd_block_time = sn_block_time row\<rparr>, True)
         else (current, False))"

text \<open>\<open>apply\<close>: the update under the lock, and the anchor a confirmed advance sends when there is a sender.\<close>

definition update_slots :: "slot_notification \<Rightarrow> slot_syncronizer_data \<Rightarrow> (slot_syncronizer_data \<times> bool) option" where
  "update_slots row slots =
     (let slots = slots \<lparr>ss_healthy := sn_health row\<rparr>
      in if sn_commitment row = COMMITMENT_CONFIRMED
         then (let (d, advanced) = advance row (ss_confirmed_slot slots)
               in Some (slots \<lparr>ss_confirmed_slot := d\<rparr>, advanced))
         else if sn_commitment row = COMMITMENT_FINALIZED
         then (let (d, advanced) = advance row (ss_finalized_slot slots)
               in Some (slots \<lparr>ss_finalized_slot := d\<rparr>, advanced))
         else None)"

definition apply_notification :: "bool \<Rightarrow> slot_notification \<Rightarrow> slot_syncronizer_data
    \<Rightarrow> (slot_syncronizer_data \<times> anchor option) option" where
  "apply_notification has_sender row slots =
     (case update_slots row slots of
        None \<Rightarrow> None
      | Some (slots, advanced) \<Rightarrow>
          if advanced \<and> sn_commitment row = COMMITMENT_CONFIRMED \<and> has_sender
          then (case sn_blockhash row of
              None \<Rightarrow> None
            | Some h \<Rightarrow> Some (slots, Some \<lparr>an_confirmed_slot = word_of_int (sn_slot row), an_confirmed_blockhash = h\<rparr>))
          else Some (slots, None))"

section \<open>The tasks around them\<close>

text \<open>What the slot task and the feed task share: the slots, the anchor channel (a \<open>watch\<close>: the last value
  sent, with the mark of an unseen one), the mint cache and the processed writer.\<close>

record api_feed =
  af_slots :: slot_syncronizer_data
  af_has_sender :: bool
  af_anchor :: "anchor option"
  af_anchor_changed :: bool
  af_mints :: "mint_api option"
  af_writer :: "writer option"

text \<open>One turn of \<open>run\<close> on a received row. The mint cache is told before the slot can be picked.\<close>

definition tell_mints :: "slot_notification \<Rightarrow> slot_syncronizer_data \<Rightarrow> mint_api option \<Rightarrow> mint_api option option" where
  "tell_mints row slots mints = (case mints of
     None \<Rightarrow> Some None
   | Some api \<Rightarrow>
       if confirmed_advance slots row
       then map_option Some (on_confirmed (word_of_int (sn_slot row)) (sn_blockhash row) (sn_health row) api)
       else Some (Some api))"

definition run_turn :: "slot_notification \<Rightarrow> api_feed \<Rightarrow> api_feed option" where
  "run_turn row feed =
     (case tell_mints row (af_slots feed) (af_mints feed) of
        None \<Rightarrow> None
      | Some mints \<Rightarrow>
          (case apply_notification (af_has_sender feed) row (af_slots feed) of
             None \<Rightarrow> None
           | Some (slots, sent) \<Rightarrow>
               (let feed = feed \<lparr>af_slots := slots, af_mints := mints\<rparr>
                in case sent of
                     None \<Rightarrow> Some feed
                   | Some an \<Rightarrow> Some (feed \<lparr>af_anchor := Some an, af_anchor_changed := True\<rparr>))))"

text \<open>The two branches of the feed loop: a block of the subscription, and a change of the anchor.\<close>

definition feed_block :: "mint_codec \<Rightarrow> (nat \<Rightarrow> nat) \<Rightarrow> nat \<Rightarrow> grpc_block \<Rightarrow> api_feed \<Rightarrow> api_feed" where
  "feed_block codec table_bytes now block feed =
     feed \<lparr>af_mints := map_option (api_on_block codec block) (af_mints feed),
           af_writer := writer_on_block table_bytes now block (af_writer feed)\<rparr>"

definition feed_anchor :: "api_feed \<Rightarrow> api_feed" where
  "feed_anchor feed =
     (if af_anchor_changed feed
      then (let feed = feed \<lparr>af_anchor_changed := False\<rparr>
            in case af_anchor feed of
                 Some an \<Rightarrow> feed \<lparr>af_writer := writer_set_anchor an (af_writer feed)\<rparr>
               | None \<Rightarrow> feed)
      else feed)"

section \<open>The slot of a request\<close>

datatype processed_behavior = Reject | UseConfirmed

fun resolve_commitment :: "commitment_level \<Rightarrow> processed_behavior \<Rightarrow> commitment_level rpc_result" where
  "resolve_commitment Level_Processed Reject = Inl ProcessedCommitmentNotSupported"
| "resolve_commitment Level_Processed UseConfirmed = Inr Level_Confirmed"
| "resolve_commitment other _ = Inr other"

text \<open>\<open>.map(resolve_commitment).transpose()?.unwrap_or(Finalized)\<close>.\<close>

definition resolve_or_finalized :: "commitment_level option \<Rightarrow> processed_behavior \<Rightarrow> commitment_level rpc_result" where
  "resolve_or_finalized level behavior =
     (case level of None \<Rightarrow> Inr Level_Finalized | Some l \<Rightarrow> resolve_commitment l behavior)"

text \<open>The fields of \<open>CloudbreakRpcState\<close> the reads use. \<open>rs_slot_rows\<close> is what the \<open>slots\<close> table answers for a
  commitment, \<open>None\<close> for a missing row and \<open>Inl\<close> for a database error.\<close>

record slot_model =
  sm_slot :: int
  sm_block_time :: int
  sm_health :: bool

record rpc_state =
  rs_slots :: "slot_syncronizer_data option"
  rs_slot_rows :: "commitment_level \<Rightarrow> string + slot_model option"
  rs_indexer_filter :: account_selector
  rs_processed_commitment :: processed_behavior
  rs_http_unavailable :: bool
  rs_processed :: "writer option"
  rs_max_multiple_accounts :: nat

definition node_unhealthy :: "rpc_state \<Rightarrow> rpc_error" where
  "node_unhealthy state = NodeUnhealthy (rs_http_unavailable state)"

definition latest_slot_and_block_time :: "rpc_state \<Rightarrow> commitment_level \<Rightarrow> (u64 \<times> int) rpc_result" where
  "latest_slot_and_block_time state level =
     (case rs_slots state of
        Some data \<Rightarrow>
          if \<not> ss_healthy data then Inl (node_unhealthy state)
          else Inr (get_slot_for_commitment data level, get_block_time_for_commitment data level)
      | None \<Rightarrow>
          (case rs_slot_rows state level of
             Inl e \<Rightarrow> Inl (DatabaseError e)
           | Inr None \<Rightarrow> Inl InternalError
           | Inr (Some model) \<Rightarrow>
               if \<not> sm_health model then Inl (node_unhealthy state)
               else Inr (word_of_int (sm_slot model), sm_block_time model)))"

definition http_status_for_error :: "rpc_error \<Rightarrow> nat" where
  "http_status_for_error err = (case err of NodeUnhealthy True \<Rightarrow> 503 | _ \<Rightarrow> 200)"

text \<open>\<open>get_slot_data\<close>: the two rows in the order of their commitment.\<close>

definition get_slot_data :: "slot_model list \<Rightarrow> slot_syncronizer_data option" where
  "get_slot_data rows = (case rows of
     first_row # second_row # _ \<Rightarrow> Some
       \<lparr>ss_confirmed_slot = \<lparr>sd_slot = word_of_int (sm_slot first_row), sd_block_time = sm_block_time first_row\<rparr>,
        ss_finalized_slot = \<lparr>sd_slot = word_of_int (sm_slot second_row), sd_block_time = sm_block_time second_row\<rparr>,
        ss_healthy = sm_health first_row\<rparr>
   | _ \<Rightarrow> None)"

lemma resolved_not_processed:
  "resolve_or_finalized level behavior = Inr l \<Longrightarrow> l \<noteq> Level_Processed"
  by (cases level; cases "the level"; cases behavior) (auto simp: resolve_or_finalized_def)

lemma http_status_unavailable: "http_status_for_error e = 503 \<longleftrightarrow> e = NodeUnhealthy True"
  by (cases e) (auto simp: http_status_for_error_def split: bool.split)

section \<open>The slots and the anchor agree\<close>

datatype feed_event = Notify slot_notification | Feed_Block nat grpc_block | Feed_Anchor

fun feed_step :: "mint_codec \<Rightarrow> (nat \<Rightarrow> nat) \<Rightarrow> feed_event \<Rightarrow> api_feed \<Rightarrow> api_feed option" where
  "feed_step codec table_bytes (Notify row) feed = run_turn row feed"
| "feed_step codec table_bytes (Feed_Block now block) feed = Some (feed_block codec table_bytes now block feed)"
| "feed_step codec table_bytes Feed_Anchor feed = Some (feed_anchor feed)"

definition start_feed :: "bool option \<Rightarrow> bool option \<Rightarrow> account_selector \<Rightarrow> api_feed" where
  "start_feed processed mints sel =
     \<lparr>af_slots = default_slots, af_has_sender = (processed = Some True), af_anchor = None, af_anchor_changed = False,
      af_mints = mint_api_from_config mints, af_writer = writer_from_config processed sel\<rparr>"

inductive feed_reach :: "mint_codec \<Rightarrow> (nat \<Rightarrow> nat) \<Rightarrow> api_feed \<Rightarrow> bool" for codec table_bytes where
  started: "feed_reach codec table_bytes (start_feed processed mints sel)"
| stepped: "feed_reach codec table_bytes feed \<Longrightarrow> feed_step codec table_bytes e feed = Some feed' \<Longrightarrow>
     feed_reach codec table_bytes feed'"

abbreviation confirmed_slot :: "api_feed \<Rightarrow> u64" where
  "confirmed_slot feed \<equiv> sd_slot (ss_confirmed_slot (af_slots feed))"

abbreviation finalized_slot :: "api_feed \<Rightarrow> u64" where
  "finalized_slot feed \<equiv> sd_slot (ss_finalized_slot (af_slots feed))"

lemma advance_cases:
  "advance row current = (d, b) \<Longrightarrow>
     (b \<longleftrightarrow> sd_slot current < word_of_int (sn_slot row)) \<and> sd_slot current \<le> sd_slot d \<and>
     (b \<longrightarrow> sd_slot d = word_of_int (sn_slot row)) \<and> (\<not> b \<longrightarrow> d = current)"
  by (auto simp: advance_def Let_def split: if_splits)

lemma commitments_differ [simp]: "COMMITMENT_FINALIZED \<noteq> COMMITMENT_CONFIRMED" "COMMITMENT_CONFIRMED \<noteq> COMMITMENT_FINALIZED"
  by (simp_all add: COMMITMENT_CONFIRMED_def COMMITMENT_FINALIZED_def)

lemma update_slots_spec:
  assumes "update_slots row slots = Some (slots', advanced)"
  shows "ss_healthy slots' = sn_health row"
    and "sd_slot (ss_confirmed_slot slots) \<le> sd_slot (ss_confirmed_slot slots')"
    and "sd_slot (ss_finalized_slot slots) \<le> sd_slot (ss_finalized_slot slots')"
    and "advanced \<and> sn_commitment row = COMMITMENT_CONFIRMED \<longleftrightarrow> confirmed_advance slots row"
    and "confirmed_advance slots row \<Longrightarrow> sd_slot (ss_confirmed_slot slots') = word_of_int (sn_slot row)"
    and "\<not> confirmed_advance slots row \<Longrightarrow> ss_confirmed_slot slots' = ss_confirmed_slot slots"
proof -
  obtain c bc where c: "advance row (ss_confirmed_slot slots) = (c, bc)" by fastforce
  obtain f bf where f: "advance row (ss_finalized_slot slots) = (f, bf)" by fastforce
  note advance_cases [OF c] advance_cases [OF f]
  then show "ss_healthy slots' = sn_health row"
    and "sd_slot (ss_confirmed_slot slots) \<le> sd_slot (ss_confirmed_slot slots')"
    and "sd_slot (ss_finalized_slot slots) \<le> sd_slot (ss_finalized_slot slots')"
    and "advanced \<and> sn_commitment row = COMMITMENT_CONFIRMED \<longleftrightarrow> confirmed_advance slots row"
    and "confirmed_advance slots row \<Longrightarrow> sd_slot (ss_confirmed_slot slots') = word_of_int (sn_slot row)"
    and "\<not> confirmed_advance slots row \<Longrightarrow> ss_confirmed_slot slots' = ss_confirmed_slot slots"
    using assms c f by (auto simp: update_slots_def confirmed_advance_def Let_def split: if_splits)
qed

lemma apply_row_spec:
  assumes "apply_notification has_sender row slots = Some (slots', sent)"
  shows "\<exists>advanced. update_slots row slots = Some (slots', advanced)"
    and "sent = (if has_sender \<and> confirmed_advance slots row
      then Some \<lparr>an_confirmed_slot = word_of_int (sn_slot row), an_confirmed_blockhash = the (sn_blockhash row)\<rparr> else None)"
proof -
  obtain adv where up: "update_slots row slots = Some (slots', adv)"
    using assms by (auto simp: apply_notification_def split: option.splits if_splits prod.splits)
  then show "\<exists>advanced. update_slots row slots = Some (slots', advanced)" ..
  show "sent = (if has_sender \<and> confirmed_advance slots row
      then Some \<lparr>an_confirmed_slot = word_of_int (sn_slot row), an_confirmed_blockhash = the (sn_blockhash row)\<rparr> else None)"
    using assms unfolding update_slots_spec(4) [OF up, symmetric]
    by (auto simp: apply_notification_def up split: option.splits if_splits)
qed

lemma run_turn_spec:
  assumes "run_turn row feed = Some feed'"
  shows "\<exists>advanced. update_slots row (af_slots feed) = Some (af_slots feed', advanced)"
    and "af_has_sender feed' = af_has_sender feed" and "af_writer feed' = af_writer feed"
    and "tell_mints row (af_slots feed) (af_mints feed) = Some (af_mints feed')"
    and "if af_has_sender feed \<and> confirmed_advance (af_slots feed) row
      then af_anchor_changed feed' \<and> af_anchor feed' =
        Some \<lparr>an_confirmed_slot = word_of_int (sn_slot row), an_confirmed_blockhash = the (sn_blockhash row)\<rparr>
      else af_anchor_changed feed' = af_anchor_changed feed \<and> af_anchor feed' = af_anchor feed"
proof -
  obtain mints slots sent where m: "tell_mints row (af_slots feed) (af_mints feed) = Some mints"
    and ap: "apply_notification (af_has_sender feed) row (af_slots feed) = Some (slots, sent)"
    and f: "feed' = (case sent of None \<Rightarrow> feed \<lparr>af_slots := slots, af_mints := mints\<rparr>
      | Some an \<Rightarrow> feed \<lparr>af_slots := slots, af_mints := mints, af_anchor := Some an, af_anchor_changed := True\<rparr>)"
    using assms by (fastforce simp: run_turn_def Let_def split: option.splits)
  have same: "af_slots feed' = slots" "af_mints feed' = mints" "af_has_sender feed' = af_has_sender feed"
    "af_writer feed' = af_writer feed" using f by (simp_all split: option.splits)
  show "\<exists>advanced. update_slots row (af_slots feed) = Some (af_slots feed', advanced)"
    using apply_row_spec(1) [OF ap] same by simp
  show "af_has_sender feed' = af_has_sender feed" and "af_writer feed' = af_writer feed"
    and "tell_mints row (af_slots feed) (af_mints feed) = Some (af_mints feed')" using same m by simp_all
  show "if af_has_sender feed \<and> confirmed_advance (af_slots feed) row
      then af_anchor_changed feed' \<and> af_anchor feed' =
        Some \<lparr>an_confirmed_slot = word_of_int (sn_slot row), an_confirmed_blockhash = the (sn_blockhash row)\<rparr>
      else af_anchor_changed feed' = af_anchor_changed feed \<and> af_anchor feed' = af_anchor feed"
    using apply_row_spec(2) [OF ap] f by auto
qed

lemma on_block_anchor [simp]: "bs_anchor (on_block b st) = bs_anchor st"
  by (simp add: on_block_def conflict_def insert_block_def split: option.split)

lemma prune_anchor [simp]: "bs_anchor (prune st) = bs_anchor st"
  by (simp add: prune_def Let_def)

lemma set_anchor_anchor [simp]: "bs_anchor (set_anchor an st) = Some an"
  by (simp add: set_anchor_def)

lemma latest_anchor:
  "latest_chained_blocks st = Some (Some pb) \<Longrightarrow> \<exists>an. bs_anchor st = Some an \<and> pb_anchor_slot pb = an_confirmed_slot an"
  by (auto simp: latest_chained_blocks_def split: option.splits if_splits)

definition writer_at_most :: "u64 \<Rightarrow> writer \<Rightarrow> bool" where
  "writer_at_most c w \<longleftrightarrow> (\<forall>an. bs_anchor (wr_store w) = Some an \<longrightarrow> an_confirmed_slot an \<le> c) \<and>
     (\<forall>pb. wr_latest w = Some (Some pb) \<longrightarrow> pb_anchor_slot pb \<le> c)"

lemma publish_at_most:
  "(\<And>an. bs_anchor (wr_store w) = Some an \<Longrightarrow> an_confirmed_slot an \<le> c) \<Longrightarrow> writer_at_most c (publish_latest w)"
  using latest_anchor [of "prune (wr_store w)"] by (auto simp: writer_at_most_def publish_latest_def Let_def)

lemma writer_at_most_mono: "writer_at_most c w \<Longrightarrow> c \<le> d \<Longrightarrow> writer_at_most d w"
  unfolding writer_at_most_def by (meson order_trans)

definition feed_inv :: "api_feed \<Rightarrow> bool" where
  "feed_inv feed \<longleftrightarrow>
     (af_has_sender feed \<longleftrightarrow> af_writer feed \<noteq> None) \<and>
     (case af_anchor feed of
        None \<Rightarrow> \<not> af_anchor_changed feed \<and> (af_has_sender feed \<longrightarrow> confirmed_slot feed = 0)
      | Some an \<Rightarrow> af_has_sender feed \<and> an_confirmed_slot an = confirmed_slot feed) \<and>
     (\<forall>w. af_writer feed = Some w \<longrightarrow> writer_at_most (confirmed_slot feed) w \<and>
        (\<not> af_anchor_changed feed \<longrightarrow> bs_anchor (wr_store w) = af_anchor feed))"

lemma feed_inv_start: "feed_inv (start_feed processed mints sel)"
  by (auto simp: feed_inv_def start_feed_def writer_from_config_def writer_at_most_def new_store_def default_slots_def
      default_slot_data_def)

lemma feed_inv_step:
  assumes "feed_inv feed" and "feed_step codec table_bytes e feed = Some feed'"
  shows "feed_inv feed' \<and> confirmed_slot feed \<le> confirmed_slot feed' \<and> finalized_slot feed \<le> finalized_slot feed'"
proof (cases e)
  case (Notify row)
  then have turn: "run_turn row feed = Some feed'" using assms(2) by simp
  obtain adv where up: "update_slots row (af_slots feed) = Some (af_slots feed', adv)" using run_turn_spec(1) [OF turn] ..
  note u = update_slots_spec [OF up] and t = run_turn_spec [OF turn]
  show ?thesis
  proof (cases "confirmed_advance (af_slots feed) row")
    case True
    then show ?thesis using assms(1) u t writer_at_most_mono [OF _ u(2)] by (auto simp: feed_inv_def split: option.splits)
  next
    case False
    then show ?thesis using assms(1) u t by (auto simp: feed_inv_def split: option.splits)
  qed
next
  case (Feed_Block now block)
  then show ?thesis using assms
    by (auto simp: feed_inv_def feed_block_def writer_on_block_def writer_at_most_def publish_latest_def Let_def
        dest!: latest_anchor split: option.splits)
next
  case Feed_Anchor
  then show ?thesis using assms
    by (auto simp: feed_inv_def feed_anchor_def writer_set_anchor_def writer_at_most_def publish_latest_def Let_def
        dest!: latest_anchor split: option.splits if_splits)
qed

lemma feed_inv_reach: "feed_reach codec table_bytes feed \<Longrightarrow> feed_inv feed"
  by (induction rule: feed_reach.induct) (auto simp: feed_inv_start dest: feed_inv_step)

text \<open>C16: A request reads blocks and slots that fit together. In every run of the slot task and the feed task,
  the blocks a request can take are anchored at or below the confirmed slot in memory, the anchor last
  sent is that slot, and once the feed task has seen it the block store stands on it; and no step moves
  the confirmed or the finalized slot back.\<close>

theorem feed_slots_consistent:
  assumes "feed_reach codec table_bytes feed"
  shows "(\<forall>pb. handle_blocks (af_writer feed) = Some pb \<longrightarrow> pb_anchor_slot pb \<le> confirmed_slot feed)
    \<and> (\<forall>an. af_anchor feed = Some an \<longrightarrow> an_confirmed_slot an = confirmed_slot feed
        \<and> (\<forall>w. af_writer feed = Some w \<and> \<not> af_anchor_changed feed \<longrightarrow> anchor_slot (wr_store w) = Some (confirmed_slot feed)))
    \<and> (\<forall>e feed'. feed_step codec table_bytes e feed = Some feed' \<longrightarrow>
        confirmed_slot feed \<le> confirmed_slot feed' \<and> finalized_slot feed \<le> finalized_slot feed')"
proof -
  have inv: "feed_inv feed" using feed_inv_reach [OF assms] .
  moreover have "pb_anchor_slot pb \<le> confirmed_slot feed" if "handle_blocks (af_writer feed) = Some pb" for pb
    using that inv by (auto simp: handle_blocks_def feed_inv_def writer_at_most_def bind_eq_Some_conv split: option.splits)
  ultimately show ?thesis using feed_inv_step [OF inv]
    by (auto simp: feed_inv_def anchor_slot_def split: option.splits)
qed

definition wit_row :: slot_notification where
  "wit_row = \<lparr>sn_commitment = 1, sn_slot = 100, sn_block_time = 7, sn_health = True, sn_blockhash = Some ''h''\<rparr>"

definition wit_feed :: api_feed where
  "wit_feed = feed_anchor (the (run_turn wit_row (start_feed (Some True) None \<lparr>sel_include = [], sel_exclude = []\<rparr>)))"

lemma wit_turn: "\<exists>feed. run_turn wit_row (start_feed (Some True) None \<lparr>sel_include = [], sel_exclude = []\<rparr>) = Some feed
    \<and> confirmed_slot feed = 100 \<and> af_anchor_changed feed
    \<and> af_anchor feed = Some \<lparr>an_confirmed_slot = 100, an_confirmed_blockhash = ''h''\<rparr>"
  by (simp add: run_turn_def tell_mints_def start_feed_def mint_api_from_config_def apply_notification_def update_slots_def advance_def
      wit_row_def COMMITMENT_CONFIRMED_def default_slots_def default_slot_data_def Let_def)

lemma wit_writer: "\<exists>feed w. run_turn wit_row (start_feed (Some True) None \<lparr>sel_include = [], sel_exclude = []\<rparr>) = Some feed
    \<and> af_anchor_changed feed \<and> af_anchor feed \<noteq> None \<and> af_writer feed = Some w"
  by (simp add: run_turn_def tell_mints_def start_feed_def mint_api_from_config_def apply_notification_def update_slots_def advance_def
      wit_row_def COMMITMENT_CONFIRMED_def default_slots_def default_slot_data_def writer_from_config_def Let_def)

lemma wit_feed_reach: "feed_reach codec table_bytes wit_feed"
proof -
  obtain feed where "run_turn wit_row (start_feed (Some True) None \<lparr>sel_include = [], sel_exclude = []\<rparr>) = Some feed"
    using wit_turn by blast
  then have "feed_reach codec table_bytes feed"
    by (intro feed_reach.stepped [OF feed_reach.started, where e = "Notify wit_row"]) simp
  then show ?thesis
    using \<open>run_turn wit_row _ = Some feed\<close> by (auto simp: wit_feed_def intro: feed_reach.stepped [where e = Feed_Anchor])
qed

lemma feed_slots_consistent_witness:
  "\<exists>w. af_writer wit_feed = Some w \<and> anchor_slot (wr_store w) = Some 100"
proof -
  have "af_anchor wit_feed = Some \<lparr>an_confirmed_slot = 100, an_confirmed_blockhash = ''h''\<rparr>"
    "\<not> af_anchor_changed wit_feed" "confirmed_slot wit_feed = 100"
    using wit_turn by (auto simp: wit_feed_def feed_anchor_def Let_def)
  moreover obtain w where "af_writer wit_feed = Some w"
    using wit_writer by (auto simp: wit_feed_def feed_anchor_def Let_def writer_set_anchor_def)
  ultimately show ?thesis using feed_slots_consistent [OF wit_feed_reach] by auto
qed

end
