(* ===== verification/Rpc_Filter.thy ===== *)
theory Rpc_Filter
  imports Rpc_Error Mint_Store Tables
begin

text \<open>
  The filters of \<open>getProgramAccounts\<close>: their types and the in-memory \<open>ValueCmp\<close> comparison
  (\<open>crates/core/src/modules/rpc_filter_type.rs\<close>), and their translation to SQL predicates
  (\<open>crates/api/src/utils/sql_filters.rs\<close>). \<open>usize\<close> is 64 bits and wraps, as in the release build;
  a panic (a slice out of range) is the value \<open>None\<close> of an evaluation.

  The predicates are kept as terms. \<open>render_pred\<close> is the SQL text of a term and \<open>eval_pred\<close> its meaning
  to PostgreSQL on the \<open>data\<close> column: \<open>SUBSTRING\<close> over \<open>bytea\<close> counts from 1, takes what is there, and
  needs positions of type \<open>integer\<close>.
\<close>

section \<open>Filter types\<close>

type_synonym usize = "64 word"

text \<open>\<open>Memcmp\<close> is a type of the Solana client: its offset, the bytes as the client encoded them, and what
  \<open>bytes()\<close> decodes them to.\<close>

datatype encoded_bytes = Base58 string | Base64 string | Raw_Bytes "u8 list"

record memcmp =
  mc_offset :: usize
  mc_encoded :: encoded_bytes
  mc_bytes :: "u8 list option"

datatype value_type = VT_U8 | VT_U16 | VT_U32 | VT_U64 | VT_U128

datatype operand = Mem usize value_type | Constant string

datatype comparator = Cmp_Eq | Cmp_Ne | Cmp_Gt | Cmp_Ge | Cmp_Lt | Cmp_Le

record value_cmp =
  vc_left :: operand
  vc_comparator :: comparator
  vc_right :: operand

datatype rpc_filter_type =
    DataSize u64
  | Memcmp memcmp
  | TokenAccountState
  | is_ValueCmp: ValueCmp value_cmp

datatype 'e rpc_filter_error = MemcmpError 'e | InvalidValueCmp

text \<open>\<open>RpcFilterType::verify\<close> of the Solana client is the parameter \<open>memcmp_verify\<close>.\<close>

fun verify :: "(memcmp \<Rightarrow> 'e + unit) \<Rightarrow> rpc_filter_type \<Rightarrow> 'e rpc_filter_error + unit" where
  "verify memcmp_verify (DataSize _) = Inr ()"
| "verify memcmp_verify (Memcmp m) = (case memcmp_verify m of Inl e \<Rightarrow> Inl (MemcmpError e) | Inr u \<Rightarrow> Inr u)"
| "verify memcmp_verify TokenAccountState = Inr ()"
| "verify memcmp_verify (ValueCmp _) = Inr ()"

definition has_value_cmp :: "rpc_filter_type list \<Rightarrow> bool" where
  "has_value_cmp filters = list_ex is_ValueCmp filters"

fun invalid_param_text :: "('e \<Rightarrow> string) \<Rightarrow> 'e rpc_filter_error \<Rightarrow> string" where
  "invalid_param_text debug (MemcmpError e) = debug e"
| "invalid_param_text debug InvalidValueCmp = ''invalid ValueCmp filter''"

section \<open>ValueCmp\<close>

datatype wrapped_value_type = W_U8 u8 | W_U16 u16 | W_U32 u32 | W_U64 u64 | W_U128 u128

fun compare :: "comparator \<Rightarrow> 'a::linorder \<Rightarrow> 'a \<Rightarrow> bool" where
  "compare Cmp_Eq left right = (left = right)"
| "compare Cmp_Ne left right = (left \<noteq> right)"
| "compare Cmp_Gt left right = (left > right)"
| "compare Cmp_Ge left right = (left \<ge> right)"
| "compare Cmp_Lt left right = (left < right)"
| "compare Cmp_Le left right = (left \<le> right)"

text \<open>\<open>&data[from..to]\<close> panics unless \<open>from \<le> to \<le> len\<close>.\<close>

definition slice_range :: "usize \<Rightarrow> usize \<Rightarrow> u8 list \<Rightarrow> u8 list option" where
  "slice_range from to data =
     (if from \<le> to \<and> unat to \<le> length data
      then Some (take (unat to - unat from) (drop (unat from) data)) else None)"

text \<open>One arm for 2, 4, 8 or 16 bytes: the guard \<open>offset + (w - 1) >= data.len()\<close>, then the slice. A
  slice has at most \<open>isize::MAX\<close> bytes, so its length is itself as a \<open>usize\<close>.\<close>

definition parse_mem_arm ::
    "usize \<Rightarrow> usize \<Rightarrow> (u8 list \<Rightarrow> wrapped_value_type) \<Rightarrow> u8 list \<Rightarrow> (unit + wrapped_value_type) option" where
  "parse_mem_arm w offset wrap data =
     (if length data \<le> unat (offset + (w - 1)) then Some (Inl ())
      else map_option (\<lambda>bytes. Inr (wrap bytes)) (slice_range offset (offset + w) data))"

fun parse_mem_into_value_type :: "operand \<Rightarrow> u8 list \<Rightarrow> (unit + wrapped_value_type) option" where
  "parse_mem_into_value_type (Mem offset VT_U8) data =
     (if length data \<le> unat offset then Some (Inl ()) else Some (Inr (W_U8 (data ! unat offset))))"
| "parse_mem_into_value_type (Mem offset VT_U16) data =
     parse_mem_arm 2 offset (\<lambda>bytes. W_U16 (from_le_bytes bytes)) data"
| "parse_mem_into_value_type (Mem offset VT_U32) data =
     parse_mem_arm 4 offset (\<lambda>bytes. W_U32 (from_le_bytes bytes)) data"
| "parse_mem_into_value_type (Mem offset VT_U64) data =
     parse_mem_arm 8 offset (\<lambda>bytes. W_U64 (from_le_bytes bytes)) data"
| "parse_mem_into_value_type (Mem offset VT_U128) data =
     parse_mem_arm 16 offset (\<lambda>bytes. W_U128 (from_le_bytes bytes)) data"
| "parse_mem_into_value_type (Constant _) data = Some (Inl ())"

text \<open>\<open>str::parse\<close> for an unsigned integer of \<open>w\<close> bits: an optional plus sign, then digits with
  checked arithmetic.\<close>

definition digit_of :: "char \<Rightarrow> nat option" where
  "digit_of c = (let n = of_char c in if 48 \<le> n \<and> n \<le> (57 :: nat) then Some (n - 48) else None)"

fun parse_digits :: "nat \<Rightarrow> nat \<Rightarrow> string \<Rightarrow> nat option" where
  "parse_digits w acc [] = Some acc"
| "parse_digits w acc (c # cs) = (case digit_of c of
     None \<Rightarrow> None
   | Some d \<Rightarrow> if acc * 10 + d < 2 ^ w then parse_digits w (acc * 10 + d) cs else None)"

definition parse_unsigned :: "string \<Rightarrow> 'a::len word option" where
  "parse_unsigned s =
     (let digits = (case s of c # cs \<Rightarrow> if c = CHR ''+'' then cs else s | [] \<Rightarrow> s)
      in if digits = [] then None else map_option of_nat (parse_digits LENGTH('a) 0 digits))"

fun compare_wrapped :: "comparator \<Rightarrow> wrapped_value_type \<Rightarrow> wrapped_value_type \<Rightarrow> unit + bool" where
  "compare_wrapped cmp (W_U8 left) (W_U8 right) = Inr (compare cmp left right)"
| "compare_wrapped cmp (W_U16 left) (W_U16 right) = Inr (compare cmp left right)"
| "compare_wrapped cmp (W_U32 left) (W_U32 right) = Inr (compare cmp left right)"
| "compare_wrapped cmp (W_U64 left) (W_U64 right) = Inr (compare cmp left right)"
| "compare_wrapped cmp (W_U128 left) (W_U128 right) = Inr (compare cmp left right)"
| "compare_wrapped cmp _ _ = Inl ()"

definition compare_parsed :: "comparator \<Rightarrow> 'a::len word \<Rightarrow> string \<Rightarrow> unit + bool" where
  "compare_parsed cmp left constant =
     rbind (ok_or () (parse_unsigned constant)) (\<lambda>right. Inr (compare cmp left right))"

fun compare_constant :: "comparator \<Rightarrow> wrapped_value_type \<Rightarrow> string \<Rightarrow> unit + bool" where
  "compare_constant cmp (W_U8 left) constant = compare_parsed cmp left constant"
| "compare_constant cmp (W_U16 left) constant = compare_parsed cmp left constant"
| "compare_constant cmp (W_U32 left) constant = compare_parsed cmp left constant"
| "compare_constant cmp (W_U64 left) constant = compare_parsed cmp left constant"
| "compare_constant cmp (W_U128 left) constant = compare_parsed cmp left constant"

definition values_match :: "value_cmp \<Rightarrow> u8 list \<Rightarrow> (unit + bool) option" where
  "values_match cmp data = (case (vc_left cmp, vc_right cmp) of
     (Mem lo lt, Mem ro rt) \<Rightarrow> (case parse_mem_into_value_type (Mem lo lt) data of
         None \<Rightarrow> None
       | Some (Inl e) \<Rightarrow> Some (Inl e)
       | Some (Inr left) \<Rightarrow> (case parse_mem_into_value_type (Mem ro rt) data of
           None \<Rightarrow> None
         | Some (Inl e) \<Rightarrow> Some (Inl e)
         | Some (Inr right) \<Rightarrow> Some (compare_wrapped (vc_comparator cmp) left right)))
   | (Mem lo lt, Constant constant) \<Rightarrow> (case parse_mem_into_value_type (Mem lo lt) data of
         None \<Rightarrow> None
       | Some (Inl e) \<Rightarrow> Some (Inl e)
       | Some (Inr left) \<Rightarrow> Some (compare_constant (vc_comparator cmp) left constant))
   | _ \<Rightarrow> Some (Inl ()))"

text \<open>\<open>Iterator::all\<close> stops at the first filter that does not match.\<close>

fun account_matches_value_cmps :: "rpc_filter_type list \<Rightarrow> u8 list \<Rightarrow> bool option" where
  "account_matches_value_cmps [] data = Some True"
| "account_matches_value_cmps (ValueCmp cmp # filters) data = (case values_match cmp data of
     None \<Rightarrow> None
   | Some matched \<Rightarrow> if matched = Inr True then account_matches_value_cmps filters data else Some False)"
| "account_matches_value_cmps (_ # filters) data = account_matches_value_cmps filters data"

section \<open>Translation to SQL\<close>

definition TOKEN_ACCOUNT_MINT_OFFSET :: usize where "TOKEN_ACCOUNT_MINT_OFFSET = 0"
definition TOKEN_ACCOUNT_OWNER_OFFSET :: usize where "TOKEN_ACCOUNT_OWNER_OFFSET = 32"
definition TOKEN_ACCOUNT_DELEGATE_TAG_OFFSET :: usize where "TOKEN_ACCOUNT_DELEGATE_TAG_OFFSET = 72"
definition TOKEN_ACCOUNT_DELEGATE_OFFSET :: usize where "TOKEN_ACCOUNT_DELEGATE_OFFSET = 76"

lemmas token_offsets = TOKEN_ACCOUNT_MINT_OFFSET_def TOKEN_ACCOUNT_OWNER_OFFSET_def
  TOKEN_ACCOUNT_DELEGATE_TAG_OFFSET_def TOKEN_ACCOUNT_DELEGATE_OFFSET_def

text \<open>The predicates the translation produces; a \<open>nat\<close> is the number of a \<open>$n\<close> parameter. The position of a
  \<open>SUBSTRING\<close> is the \<open>usize\<close> value \<open>offset + 1\<close>.\<close>

datatype sql_pred =
    Length_Is u64
  | Token_Owner_Is nat
  | Token_Mint_Is nat
  | Delegate_Tag
  | Substring_Is usize nat nat
  | Account_State

text \<open>The text of a predicate on a table.\<close>

function show_nat :: "nat \<Rightarrow> string" where
  "show_nat n = (if n < 10 then [char_of (48 + n)] else show_nat (n div 10) @ [char_of (48 + n mod 10)])"
  by auto
termination by (relation "measure id") auto

declare show_nat.simps [simp del]

fun render_pred :: "string \<Rightarrow> sql_pred \<Rightarrow> string" where
  "render_pred table (Length_Is sz) = ''length('' @ table @ ''.data) = '' @ show_nat (unat sz)"
| "render_pred table (Token_Owner_Is param) = table @ ''.token_owner = $'' @ show_nat param"
| "render_pred table (Token_Mint_Is param) = table @ ''.token_mint = $'' @ show_nat param"
| "render_pred table Delegate_Tag = ''SUBSTRING('' @ table @ ''.data FROM 73 FOR 1) = ''
     @ [CHR 39] @ [CHR 92] @ ''x01'' @ [CHR 39] @ ''::bytea AND SUBSTRING('' @ table @ ''.data FROM 74 FOR 3) = ''
     @ [CHR 39] @ [CHR 92] @ ''x000000'' @ [CHR 39] @ ''::bytea''"
| "render_pred table (Substring_Is position len param) = ''SUBSTRING('' @ table @ ''.data FROM ''
     @ show_nat (unat position) @ '' FOR '' @ show_nat len @ '') = $'' @ show_nat param"
| "render_pred table Account_State = ''(SUBSTRING('' @ table @ ''.data FROM 109 FOR 1) <> ''
     @ [CHR 39] @ [CHR 92] @ ''x00'' @ [CHR 39] @ ''::bytea AND (length('' @ table @ ''.data) = 165 OR (length(''
     @ table @ ''.data) > 165 AND length('' @ table @ ''.data) <> 355 AND SUBSTRING('' @ table
     @ ''.data FROM 166 FOR 1) = '' @ [CHR 39] @ [CHR 92] @ ''x02'' @ [CHR 39] @ ''::bytea)))''"

definition filter_sql :: "rpc_filter_type \<Rightarrow> bool \<Rightarrow> nat \<Rightarrow> (sql_pred \<times> u8 list option) option" where
  "filter_sql f token_program param = (case f of
     DataSize sz \<Rightarrow> Some (Length_Is sz, None)
   | Memcmp m \<Rightarrow> (case mc_bytes m of
       None \<Rightarrow> None
     | Some bytes \<Rightarrow>
         if token_program \<and> mc_offset m = TOKEN_ACCOUNT_OWNER_OFFSET \<and> length bytes = 32
         then Some (Token_Owner_Is param, Some bytes)
         else if token_program \<and> mc_offset m = TOKEN_ACCOUNT_MINT_OFFSET \<and> length bytes = 32
         then Some (Token_Mint_Is param, Some bytes)
         else if token_program \<and> mc_offset m = TOKEN_ACCOUNT_DELEGATE_TAG_OFFSET \<and> bytes = [1, 0, 0, 0]
         then Some (Delegate_Tag, None)
         else Some (Substring_Is (mc_offset m + 1) (length bytes) param, Some bytes))
   | TokenAccountState \<Rightarrow> Some (Account_State, None)
   | ValueCmp _ \<Rightarrow> None)"

definition has_memcmp :: "rpc_filter_type list \<Rightarrow> usize \<Rightarrow> nat option \<Rightarrow> bool" where
  "has_memcmp filters offset len = list_ex (\<lambda>f. case f of
     Memcmp m \<Rightarrow> mc_offset m = offset \<and> (case mc_bytes m of
         None \<Rightarrow> False
       | Some b \<Rightarrow> (case len of None \<Rightarrow> True | Some n \<Rightarrow> length b = n))
   | _ \<Rightarrow> False) filters"

datatype token_key = Mint_Key | Delegate_Key | Owner_Key

definition memcmp_key :: "usize \<Rightarrow> token_key option" where
  "memcmp_key offset =
     (if offset = TOKEN_ACCOUNT_MINT_OFFSET then Some Mint_Key
      else if offset = TOKEN_ACCOUNT_DELEGATE_OFFSET then Some Delegate_Key
      else if offset = TOKEN_ACCOUNT_OWNER_OFFSET then Some Owner_Key
      else None)"

text \<open>The loop collects the keys; the first one present in the order mint, delegate, owner is the answer.\<close>

fun token_keys :: "rpc_filter_type list \<Rightarrow> token_key list rpc_result" where
  "token_keys [] = Inr []"
| "token_keys (f # filters) = (case f of
     Memcmp m \<Rightarrow> (case mc_bytes m of
         None \<Rightarrow> Inl InvalidParams
       | Some bytes \<Rightarrow>
           if length bytes \<noteq> 32 then token_keys filters
           else (case memcmp_key (mc_offset m) of
               None \<Rightarrow> token_keys filters
             | Some key \<Rightarrow> rbind (token_keys filters) (\<lambda>keys. Inr (key # keys))))
   | _ \<Rightarrow> token_keys filters)"

definition is_valid_token_query :: "rpc_filter_type list \<Rightarrow> token_key rpc_result" where
  "is_valid_token_query filters =
     rbind (token_keys filters)
       (\<lambda>keys. ok_or InvalidParams (List.find (\<lambda>key. key \<in> set keys) [Mint_Key, Delegate_Key, Owner_Key]))"

fun key_suffix :: "token_key \<Rightarrow> string" where
  "key_suffix Mint_Key = ''_mint''"
| "key_suffix Delegate_Key = ''_delegate''"
| "key_suffix Owner_Key = ''_token''"

record sql_filters =
  sf_preds :: "sql_pred list"
  sf_params :: "u8 list list"
  sf_label :: string

text \<open>The loop of \<open>build\<close> over the filters: a parameter is numbered by the values bound before it.\<close>

fun build_loop :: "bool \<Rightarrow> rpc_filter_type list \<Rightarrow> sql_pred list \<times> u8 list list \<Rightarrow> sql_pred list \<times> u8 list list" where
  "build_loop token_program [] acc = acc"
| "build_loop token_program (f # filters) (preds, params) =
     (case filter_sql f token_program (length params + 1) of
        None \<Rightarrow> build_loop token_program filters (preds, params)
      | Some (clause, value) \<Rightarrow> build_loop token_program filters
          (preds @ [clause], params @ (case value of None \<Rightarrow> [] | Some v \<Rightarrow> [v])))"

fun verify_all :: "(memcmp \<Rightarrow> 'e + unit) \<Rightarrow> ('e \<Rightarrow> string) \<Rightarrow> rpc_filter_type list \<Rightarrow> unit rpc_result" where
  "verify_all memcmp_verify debug [] = Inr ()"
| "verify_all memcmp_verify debug (f # filters) = (case verify memcmp_verify f of
     Inl e \<Rightarrow> Inl (InvalidParamsWithMessage (''Invalid param: '' @ invalid_param_text debug e))
   | Inr _ \<Rightarrow> verify_all memcmp_verify debug filters)"

definition delegate_tag :: rpc_filter_type where
  "delegate_tag = Memcmp \<lparr>mc_offset = TOKEN_ACCOUNT_DELEGATE_TAG_OFFSET, mc_encoded = Raw_Bytes [1, 0, 0, 0],
     mc_bytes = Some [1, 0, 0, 0]\<rparr>"

definition add_delegate_tag :: "pubkey \<Rightarrow> rpc_filter_type list \<Rightarrow> bool" where
  "add_delegate_tag program filters \<longleftrightarrow> is_token_program program
     \<and> has_memcmp filters TOKEN_ACCOUNT_DELEGATE_OFFSET (Some 32)
     \<and> \<not> has_memcmp filters TOKEN_ACCOUNT_DELEGATE_TAG_OFFSET None"

definition build_label :: "pubkey \<Rightarrow> rpc_filter_type list \<Rightarrow> string \<Rightarrow> string rpc_result" where
  "build_label program filters label =
     (if is_token_program program
      then rbind (is_valid_token_query filters)
             (\<lambda>key. Inr (if label = ''gpa'' then label @ key_suffix key else label))
      else Inr label)"

definition build :: "(memcmp \<Rightarrow> 'e + unit) \<Rightarrow> ('e \<Rightarrow> string) \<Rightarrow> pubkey \<Rightarrow> rpc_filter_type list
    \<Rightarrow> string \<Rightarrow> sql_filters rpc_result" where
  "build memcmp_verify debug program filters label =
     rbind (verify_all memcmp_verify debug filters) (\<lambda>_.
     rbind (build_label program filters label) (\<lambda>label'.
       let (preds, params) = build_loop (is_token_program program)
             (filters @ (if add_delegate_tag program filters then [delegate_tag] else [])) ([], [])
       in Inr \<lparr>sf_preds = preds, sf_params = params, sf_label = label'\<rparr>))"

text \<open>The two strings of \<open>SqlFilters\<close>: one line \<open>AND clause\<close> per predicate.\<close>

fun join :: "string \<Rightarrow> string list \<Rightarrow> string" where
  "join sep [] = []"
| "join sep [x] = x"
| "join sep (x # y # xs) = x @ sep @ join sep (y # xs)"

definition clauses :: "string \<Rightarrow> sql_filters \<Rightarrow> string" where
  "clauses table sf = join (CHR 10 # replicate 20 (CHR 32)) (map (\<lambda>p. ''AND '' @ render_pred table p) (sf_preds sf))"

abbreviation accounts_clauses :: "sql_filters \<Rightarrow> string" where
  "accounts_clauses \<equiv> clauses ''accounts''"

abbreviation snapshot_clauses :: "sql_filters \<Rightarrow> string" where
  "snapshot_clauses \<equiv> clauses ''snapshot_accounts''"

section \<open>What the predicates mean\<close>

text \<open>\<open>SUBSTRING(data FROM p FOR n)\<close> with \<open>p\<close> at least 1, and with \<open>p = 0\<close>, where the first position is
  before the data. A literal beyond \<open>integer\<close> has no matching function and is an error.\<close>

definition pg_substring :: "nat \<Rightarrow> nat \<Rightarrow> u8 list \<Rightarrow> u8 list option" where
  "pg_substring p n data =
     (if 2 ^ 31 \<le> p \<or> 2 ^ 31 \<le> n then None
      else if p = 0 then Some (take (n - 1) data)
      else Some (take n (drop (p - 1) data)))"

definition param_value :: "u8 list list \<Rightarrow> nat \<Rightarrow> u8 list option" where
  "param_value params n = (if 1 \<le> n \<and> n \<le> length params then Some (params ! (n - 1)) else None)"

text \<open>\<open>token_mint\<close> and \<open>token_owner\<close> are stored columns generated from the data
  (\<open>crates/migration/src/lib.rs\<close>).\<close>

definition token_mint :: "u8 list \<Rightarrow> u8 list" where
  "token_mint data = take 32 data"

definition token_owner :: "u8 list \<Rightarrow> u8 list" where
  "token_owner data = take 32 (drop 32 data)"

fun eval_pred :: "u8 list list \<Rightarrow> u8 list \<Rightarrow> sql_pred \<Rightarrow> bool option" where
  "eval_pred params data (Length_Is sz) = Some (length data = unat sz)"
| "eval_pred params data (Token_Owner_Is param) =
     map_option (\<lambda>v. token_owner data = v) (param_value params param)"
| "eval_pred params data (Token_Mint_Is param) =
     map_option (\<lambda>v. token_mint data = v) (param_value params param)"
| "eval_pred params data Delegate_Tag =
     Some (take 1 (drop 72 data) = [1] \<and> take 3 (drop 73 data) = [0, 0, 0])"
| "eval_pred params data (Substring_Is position len param) =
     (case (pg_substring (unat position) len data, param_value params param) of
        (Some bytes, Some v) \<Rightarrow> Some (bytes = v)
      | _ \<Rightarrow> None)"
| "eval_pred params data Account_State =
     Some (take 1 (drop 108 data) \<noteq> [0] \<and> (length data = 165 \<or>
       (length data > 165 \<and> length data \<noteq> 355 \<and> take 1 (drop 165 data) = [2])))"

fun eval_preds :: "u8 list list \<Rightarrow> u8 list \<Rightarrow> sql_pred list \<Rightarrow> bool option" where
  "eval_preds params data [] = Some True"
| "eval_preds params data (p # ps) = (case (eval_pred params data p, eval_preds params data ps) of
     (Some a, Some b) \<Rightarrow> Some (a \<and> b)
   | _ \<Rightarrow> None)"

text \<open>What a filter asks of the account data, as the validator defines it: an account that is too short
  for a byte comparison does not match.\<close>

definition valid_account_data :: "u8 list \<Rightarrow> bool" where
  "valid_account_data data \<longleftrightarrow>
     (length data = 165 \<or> length data > 165 \<and> length data \<noteq> 355 \<and> data ! 165 = 2) \<and> data ! 108 \<noteq> 0"

fun filter_accepts :: "u8 list \<Rightarrow> rpc_filter_type \<Rightarrow> bool" where
  "filter_accepts data (DataSize sz) \<longleftrightarrow> length data = unat sz"
| "filter_accepts data (Memcmp m) \<longleftrightarrow> (case mc_bytes m of
     None \<Rightarrow> False
   | Some bytes \<Rightarrow> unat (mc_offset m) + length bytes \<le> length data \<and>
       take (length bytes) (drop (unat (mc_offset m)) data) = bytes)"
| "filter_accepts data TokenAccountState \<longleftrightarrow> valid_account_data data"
| "filter_accepts data (ValueCmp cmp) \<longleftrightarrow> values_match cmp data = Some (Inr True)"

section \<open>The translation means the filters\<close>

lemma show_nat_small [simp]: "n < 10 \<Longrightarrow> show_nat n = [char_of (48 + n)]"
  by (simp add: show_nat.simps)

text \<open>The parameters of a predicate.\<close>

fun pred_params :: "sql_pred \<Rightarrow> nat list" where
  "pred_params (Token_Owner_Is param) = [param]"
| "pred_params (Token_Mint_Is param) = [param]"
| "pred_params (Substring_Is _ _ param) = [param]"
| "pred_params _ = []"

lemma filter_sql_params:
  assumes "filter_sql f token_program n = Some (clause, value)"
  shows "pred_params clause = (case value of None \<Rightarrow> [] | Some _ \<Rightarrow> [n])"
  using assms by (auto simp: filter_sql_def split: rpc_filter_type.splits option.splits if_splits)

lemma build_loop_params:
  assumes "build_loop token_program filters (preds, params) = (preds', params')"
    and "concat (map pred_params preds) = [1..<Suc (length params)]"
  shows "concat (map pred_params preds') = [1..<Suc (length params')]"
  using assms
proof (induction filters arbitrary: preds params)
  case (Cons f filters)
  show ?case
  proof (cases "filter_sql f token_program (length params + 1)")
    case None
    then show ?thesis using Cons by simp
  next
    case (Some cv)
    obtain clause val where cv: "cv = (clause, val)" by (cases cv)
    have "pred_params clause = (case val of None \<Rightarrow> [] | Some _ \<Rightarrow> [length params + 1])"
      using filter_sql_params [OF Some [unfolded cv]] .
    then show ?thesis using Cons Some cv by (cases val) auto
  qed
qed simp

lemma param_value_append:
  "param_value params n = Some v \<Longrightarrow> param_value (params @ extra) n = Some v"
  by (auto simp: param_value_def nth_append split: if_splits)

lemma eval_pred_append:
  "eval_pred params data p = Some b \<Longrightarrow> eval_pred (params @ extra) data p = Some b"
  by (cases p) (auto simp: param_value_append split: option.splits)

lemma eval_preds_append:
  "eval_preds params data (ps @ qs) = (case (eval_preds params data ps, eval_preds params data qs) of
     (Some a, Some b) \<Rightarrow> Some (a \<and> b) | _ \<Rightarrow> None)"
  by (induction ps) (auto split: option.splits)

lemma eval_preds_more:
  "eval_preds params data ps = Some b \<Longrightarrow> eval_preds (params @ extra) data ps = Some b"
proof (induction ps arbitrary: b)
  case (Cons p ps)
  then show ?case by (auto simp: eval_pred_append split: option.splits)
qed simp

text \<open>A decoded byte comparison PostgreSQL can run: the position, which wraps to 0 at the largest offset, is an \<open>integer\<close>.
  A comparison with no bytes accepts any data in SQL.\<close>

fun sql_ready :: "u8 list \<Rightarrow> rpc_filter_type \<Rightarrow> bool" where
  "sql_ready data (Memcmp m) \<longleftrightarrow> unat (mc_offset m + 1) < 2 ^ 31 \<and> (mc_offset m = - 1 \<longrightarrow> length data < 2 ^ 63)
     \<and> (\<exists>b. mc_bytes m = Some b \<and> length b < 2 ^ 31)"
| "sql_ready data _ \<longleftrightarrow> True"

fun empty_memcmp :: "rpc_filter_type \<Rightarrow> bool" where
  "empty_memcmp (Memcmp m) \<longleftrightarrow> mc_bytes m = Some []"
| "empty_memcmp _ \<longleftrightarrow> False"

lemma position_wraps:
  fixes offset :: usize
  shows "offset = - 1 \<and> offset + 1 = 0 \<or> unat (offset + 1) = unat offset + 1"
proof (cases "offset + 1 = 0")
  case True
  then show ?thesis by (simp add: eq_neg_iff_add_eq_0)
next
  case False
  then show ?thesis using unatSuc [of offset] by (simp add: add.commute)
qed

lemma unat_last_offset: "unat (- 1 :: usize) = 2 ^ 64 - 1"
  by (simp add: unsigned_minus_1_eq_mask mask_eq_exp_minus_1)

lemma take_drop_eq_iff:
  assumes "bs \<noteq> []"
  shows "take (length bs) (drop k data) = bs \<longleftrightarrow> k + length bs \<le> length data \<and> take (length bs) (drop k data) = bs"
proof
  assume eq: "take (length bs) (drop k data) = bs"
  then have "min (length bs) (length data - k) = length bs"
    by (metis length_drop length_take min.commute)
  then show "k + length bs \<le> length data \<and> take (length bs) (drop k data) = bs" using eq assms
    by (cases bs) auto
qed simp

lemma take_Suc_drop: "k < length data \<Longrightarrow> take 1 (drop k data) = [data ! k]"
  by (simp add: take_Suc_conv_app_nth)

lemma account_state_eval:
  "eval_pred params data Account_State = Some (valid_account_data data)"
proof (cases "length data < 165")
  case False
  then have "take 1 (drop 108 data) = [data ! 108]" by (intro take_Suc_drop) simp
  moreover have "165 < length data \<Longrightarrow> take 1 (drop 165 data) = [data ! 165]" by (intro take_Suc_drop)
  ultimately show ?thesis by (auto simp: valid_account_data_def)
qed (auto simp: valid_account_data_def)

lemma delegate_tag_bytes:
  "take 1 (drop 72 data) = [1 :: u8] \<and> take 3 (drop 73 data) = [0, 0, 0] \<longleftrightarrow>
     take 4 (drop 72 data) = [1, 0, 0, 0]"
proof -
  have "take 4 (drop 72 data) = take 1 (drop 72 data) @ take 3 (drop 1 (drop 72 data))"
    using take_add [of 1 3 "drop 72 data"] by simp
  moreover have "take 1 (drop 72 data) = [1] \<or> length (take 1 (drop 72 data)) \<noteq> 1 \<or> (\<exists>x. x \<noteq> 1 \<and> take 1 (drop 72 data) = [x])"
    by (cases "drop 72 data") auto
  moreover have "length (take 1 (drop 72 data)) \<noteq> 1 \<Longrightarrow> drop 72 data = []"
    by (cases "drop 72 data") auto
  ultimately show ?thesis by (auto simp: drop_drop)
qed

lemma memcmp_pred:
  assumes "filter_sql (Memcmp m) token_program (length params + 1) = Some (clause, val)" and "sql_ready data (Memcmp m)"
  shows "eval_pred (params @ (case val of None \<Rightarrow> [] | Some v \<Rightarrow> [v])) data clause =
    Some (empty_memcmp (Memcmp m) \<or> filter_accepts data (Memcmp m))"
proof -
  obtain b where b: "mc_bytes m = Some b" and fits: "unat (mc_offset m + 1) < 2 ^ 31" "length b < 2 ^ 31"
    and wraps: "mc_offset m = - 1 \<longrightarrow> length data < 2 ^ 63"
    using assms(2) by auto
  have lst: "param_value (params @ [b]) (length params + 1) = Some b" by (simp add: param_value_def)
  show ?thesis
  proof (cases "b = []")
    case True
    have zero: "TOKEN_ACCOUNT_DELEGATE_TAG_OFFSET \<noteq> x \<or> b \<noteq> [1, 0, 0, 0]" for x using True by simp
    have "clause = Substring_Is (mc_offset m + 1) 0 (length params + 1)" "val = Some []"
      using assms(1) b True by (auto simp: filter_sql_def split: if_splits)
    then show ?thesis using b True lst fits by (simp add: pg_substring_def)
  next
    case False
    have acc: "filter_accepts data (Memcmp m) \<longleftrightarrow> take (length b) (drop (unat (mc_offset m)) data) = b"
      using take_drop_eq_iff [OF False, of "unat (mc_offset m)" data] b by auto
    have four: "(4 :: nat) = Suc (Suc (Suc (Suc 0)))" by simp
    consider
      (owner) "clause = Token_Owner_Is (length params + 1)" "val = Some b" "unat (mc_offset m) = 32" "length b = 32"
    | (mint) "clause = Token_Mint_Is (length params + 1)" "val = Some b" "unat (mc_offset m) = 0" "length b = 32"
    | (tag) "clause = Delegate_Tag" "val = None" "unat (mc_offset m) = 72" "b = [1, 0, 0, 0]"
    | (plain) "clause = Substring_Is (mc_offset m + 1) (length b) (length params + 1)" "val = Some b"
      using assms(1) b by (auto simp: filter_sql_def token_offsets split: if_splits)
    then show ?thesis
    proof cases
      case tag
      then show ?thesis using acc delegate_tag_bytes [of data] b by (simp add: four)
    next
      case plain
      consider "mc_offset m = - 1" "mc_offset m + 1 = 0" | "unat (mc_offset m + 1) = unat (mc_offset m) + 1"
        using position_wraps by blast
      then show ?thesis
      proof cases
        case 1
        have beyond: "unat (mc_offset m) = 2 ^ 64 - 1" unfolding 1(1) by (simp add: unat_last_offset)
        have "length data < 2 ^ 63" using wraps 1(1) by blast
        then have "drop (unat (mc_offset m)) data = []" unfolding beyond by simp
        then have "\<not> filter_accepts data (Memcmp m)" unfolding acc using False by simp
        moreover have "length (take (length b - 1) data) \<noteq> length b" using False by (cases b) auto
        then have "take (length b - 1) data \<noteq> b" by metis
        ultimately show ?thesis using plain lst fits b False 1(2) by (simp add: pg_substring_def)
      next
        case 2
        then show ?thesis using plain acc lst fits b False by (simp add: pg_substring_def)
      qed
    qed (use acc lst b False in \<open>simp_all add: token_owner_def token_mint_def\<close>)
  qed
qed

lemma filter_pred:
  assumes "filter_sql f token_program (length params + 1) = Some (clause, val)" and "sql_ready data f"
  shows "eval_pred (params @ (case val of None \<Rightarrow> [] | Some v \<Rightarrow> [v])) data clause = Some (empty_memcmp f \<or> filter_accepts data f)"
proof (cases f)
  case (Memcmp m)
  then show ?thesis using memcmp_pred assms by simp
qed (use assms account_state_eval in \<open>auto simp: filter_sql_def simp del: eval_pred.simps(6)\<close>)

lemma filter_sql_none: "filter_sql f token_program n = None \<Longrightarrow> sql_ready data f \<Longrightarrow> is_ValueCmp f"
  by (cases f) (auto simp: filter_sql_def split: if_splits)

lemma filter_sql_value_cmp: "is_ValueCmp f \<Longrightarrow> filter_sql f token_program n = None"
  by (cases f) (auto simp: filter_sql_def)

text \<open>What the SQL asks of a filter: nothing of a \<open>ValueCmp\<close>, which is left to the post filter.\<close>

definition sql_accepts :: "u8 list \<Rightarrow> rpc_filter_type \<Rightarrow> bool" where
  "sql_accepts data f \<longleftrightarrow> is_ValueCmp f \<or> empty_memcmp f \<or> filter_accepts data f"

lemma build_loop_sound:
  assumes "build_loop token_program filters (preds, params) = (preds', params')"
    and "\<And>f. f \<in> set filters \<Longrightarrow> sql_ready data f"
    and "eval_preds params data preds = Some b"
  shows "eval_preds params' data preds' = Some (b \<and> (\<forall>f \<in> set filters. sql_accepts data f))"
  using assms
proof (induction filters arbitrary: preds params b)
  case (Cons f filters)
  show ?case
  proof (cases "filter_sql f token_program (length params + 1)")
    case None
    then show ?thesis using Cons.IH [of preds params b] Cons.prems filter_sql_none [OF None, of data] by (auto simp: sql_accepts_def)
  next
    case (Some cv)
    obtain clause val where cv: "cv = (clause, val)" by (cases cv)
    define params1 where "params1 = params @ (case val of None \<Rightarrow> [] | Some v \<Rightarrow> [v])"
    have "\<not> is_ValueCmp f" using filter_sql_value_cmp Some by fastforce
    then have "eval_pred params1 data clause = Some (sql_accepts data f)"
      unfolding params1_def sql_accepts_def using filter_pred [OF Some [unfolded cv]] Cons.prems(2) by simp
    moreover have "eval_preds params1 data preds = Some b"
      unfolding params1_def by (intro eval_preds_more Cons.prems(3))
    ultimately have "eval_preds params1 data (preds @ [clause]) = Some (b \<and> sql_accepts data f)"
      by (simp add: eval_preds_append)
    moreover have "build_loop token_program filters (preds @ [clause], params1) = (preds', params')"
      using Cons.prems(1) Some cv by (simp add: params1_def)
    ultimately show ?thesis
      using Cons.IH [of "preds @ [clause]" params1 "b \<and> sql_accepts data f"] Cons.prems(2) by auto
  qed
qed simp

text \<open>A position beyond \<open>integer\<close> reaches the statement, and fails it.\<close>

lemma build_loop_keeps:
  assumes "build_loop token_program filters (preds, params) = (preds', params')"
  shows "set preds \<subseteq> set preds' \<and> (\<forall>f \<in> set filters. (\<forall>n. filter_sql f token_program n \<noteq> None) \<longrightarrow>
    (\<exists>n clause val. filter_sql f token_program n = Some (clause, val) \<and> clause \<in> set preds'))"
  using assms
proof (induction filters arbitrary: preds params)
  case (Cons f filters)
  show ?case
  proof (cases "filter_sql f token_program (length params + 1)")
    case None
    then have "build_loop token_program filters (preds, params) = (preds', params')" using Cons.prems by simp
    moreover have "\<not> (\<forall>n. filter_sql f token_program n \<noteq> None)" using None by blast
    ultimately show ?thesis using Cons.IH [of preds params] unfolding list.set(2) ball_simps(7) by blast
  next
    case (Some cv)
    obtain clause val where cv: "cv = (clause, val)" by (cases cv)
    have "build_loop token_program filters (preds @ [clause], params @ (case val of None \<Rightarrow> [] | Some v \<Rightarrow> [v])) = (preds', params')"
      using Cons.prems Some cv by simp
    from Cons.IH [OF this] Some cv show ?thesis by auto
  qed
qed simp

lemma eval_preds_None: "p \<in> set ps \<Longrightarrow> eval_pred params data p = None \<Longrightarrow> eval_preds params data ps = None"
  by (induction ps) (auto split: option.splits)

lemma far_position_fails:
  assumes "build_loop token_program filters ([], []) = (preds, params)" and "Memcmp m \<in> set filters"
    and "mc_bytes m = Some b" and "2 ^ 31 \<le> unat (mc_offset m + 1)"
  shows "eval_preds params data preds = None"
proof -
  have far: "mc_offset m \<noteq> TOKEN_ACCOUNT_OWNER_OFFSET" "mc_offset m \<noteq> TOKEN_ACCOUNT_MINT_OFFSET" "mc_offset m \<noteq> TOKEN_ACCOUNT_DELEGATE_TAG_OFFSET"
    using assms(4) by (auto simp: token_offsets)
  then have sql: "filter_sql (Memcmp m) token_program n = Some (Substring_Is (mc_offset m + 1) (length b) n, Some b)" for n
    using assms(3) by (simp add: filter_sql_def)
  then obtain n where "Substring_Is (mc_offset m + 1) (length b) n \<in> set preds"
    using build_loop_keeps [OF assms(1)] assms(2) by fastforce
  then show ?thesis by (rule eval_preds_None) (use assms(4) in \<open>simp add: pg_substring_def\<close>)
qed

lemma build_eq_Inr:
  "build memcmp_verify debug program filters label = Inr sf \<longleftrightarrow>
     verify_all memcmp_verify debug filters = Inr () \<and>
     build_label program filters label = Inr (sf_label sf) \<and>
     build_loop (is_token_program program)
       (filters @ (if add_delegate_tag program filters then [delegate_tag] else [])) ([], []) = (sf_preds sf, sf_params sf)"
proof -
  obtain preds params where "build_loop (is_token_program program)
      (filters @ (if add_delegate_tag program filters then [delegate_tag] else [])) ([], []) = (preds, params)"
    by fastforce
  then show ?thesis by (cases sf) (auto simp: build_def rbind_eq_Inr)
qed

text \<open>The documented behaviour of the client's \<open>verify\<close>: it decodes the bytes and bounds their number by
  \<open>MAX_DATA_SIZE\<close>.\<close>

definition verify_contract :: "(memcmp \<Rightarrow> 'e + unit) \<Rightarrow> bool" where
  "verify_contract memcmp_verify \<longleftrightarrow>
     (\<forall>m. memcmp_verify m = Inr () \<longrightarrow> (\<exists>b. mc_bytes m = Some b \<and> length b \<le> 128))"

lemma verify_all_ok:
  "verify_all memcmp_verify debug filters = Inr () \<longleftrightarrow>
     (\<forall>m. Memcmp m \<in> set filters \<longrightarrow> memcmp_verify m = Inr ())"
proof (induction filters)
  case (Cons f filters)
  then show ?case by (cases f) (auto split: sum.splits)
qed simp

lemma decoded_filters:
  assumes "verify_contract memcmp_verify" and "build memcmp_verify debug program filters label = Inr sf" and "Memcmp m \<in> set filters"
  shows "\<exists>b. mc_bytes m = Some b \<and> length b < 2 ^ 31"
proof -
  have "verify_all memcmp_verify debug filters = Inr ()" using assms(2) by (auto simp: build_eq_Inr)
  then show ?thesis using assms(1,3) by (force simp: verify_all_ok verify_contract_def)
qed

lemma delegate_tag_accepts: "sql_accepts data delegate_tag \<longleftrightarrow> take 4 (drop 72 data) = [1, 0, 0, 0]"
proof -
  have four: "length [1, 0, 0, 0 :: u8] = 4" by simp
  have "sql_accepts data delegate_tag \<longleftrightarrow> 72 + length [1, 0, 0, 0 :: u8] \<le> length data \<and>
      take (length [1, 0, 0, 0 :: u8]) (drop 72 data) = [1, 0, 0, 0]"
    by (simp add: sql_accepts_def delegate_tag_def token_offsets)
  also have "\<dots> \<longleftrightarrow> take 4 (drop 72 data) = [1, 0, 0, 0]"
    by (subst take_drop_eq_iff [symmetric]) (simp_all only: four, simp)
  finally show ?thesis .
qed

lemma sql_evaluates:
  assumes "verify_contract memcmp_verify"
    and "build memcmp_verify debug program filters label = Inr sf"
    and "\<And>m. Memcmp m \<in> set filters \<Longrightarrow> unat (mc_offset m + 1) < 2 ^ 31 \<and> (mc_offset m = - 1 \<longrightarrow> length data < 2 ^ 63)"
  shows "eval_preds (sf_params sf) data (sf_preds sf) =
    Some ((\<forall>f \<in> set filters. sql_accepts data f) \<and>
          (add_delegate_tag program filters \<longrightarrow> take 4 (drop 72 data) = [1, 0, 0, 0]))"
proof -
  let ?all = "filters @ (if add_delegate_tag program filters then [delegate_tag] else [])"
  have loop: "build_loop (is_token_program program) ?all ([], []) = (sf_preds sf, sf_params sf)"
    using assms(2) by (auto simp: build_eq_Inr)
  have ready: "sql_ready data f" if "f \<in> set ?all" for f
  proof (cases f)
    case (Memcmp m)
    then show ?thesis using that decoded_filters [OF assms(1,2), of m] assms(3) [of m]
      by (auto simp: delegate_tag_def token_offsets split: if_splits)
  qed auto
  have "eval_preds (sf_params sf) data (sf_preds sf) = Some (True \<and> (\<forall>f \<in> set ?all. sql_accepts data f))"
    by (rule build_loop_sound [OF loop ready]) auto
  then show ?thesis using delegate_tag_accepts by auto
qed

lemma sql_means_core:
  assumes "verify_contract memcmp_verify"
    and "build memcmp_verify debug program filters label = Inr sf"
    and "\<And>m. Memcmp m \<in> set filters \<Longrightarrow> mc_bytes m \<noteq> Some [] \<and> unat (mc_offset m) + 1 < 2 ^ 31"
  shows "eval_preds (sf_params sf) data (sf_preds sf) =
    Some ((\<forall>f \<in> set filters. is_ValueCmp f \<or> filter_accepts data f) \<and>
          (add_delegate_tag program filters \<longrightarrow> take 4 (drop 72 data) = [1, 0, 0, 0]))"
proof -
  have "sql_accepts data f \<longleftrightarrow> is_ValueCmp f \<or> filter_accepts data f" if f: "f \<in> set filters" for f
  proof -
    have "\<not> empty_memcmp f" by (cases f) (use f assms(3) in auto)
    then show ?thesis by (simp add: sql_accepts_def)
  qed
  moreover have "unat (mc_offset m + 1) < 2 ^ 31 \<and> (mc_offset m = - 1 \<longrightarrow> length data < 2 ^ 63)" if "Memcmp m \<in> set filters" for m
  proof -
    have small: "unat (mc_offset m) + 1 < 2 ^ 31" using assms(3) [OF that] by blast
    then have "mc_offset m \<noteq> - 1" by (auto simp: unat_last_offset)
    then show ?thesis using small position_wraps [of "mc_offset m"] by auto
  qed
  ultimately show ?thesis using sql_evaluates [OF assms(1,2), of data] by simp
qed

text \<open>The post filter asks the \<open>ValueCmp\<close> filters.\<close>

lemma post_filter_accepts:
  "account_matches_value_cmps filters data = Some True \<longleftrightarrow> (\<forall>f \<in> set filters. is_ValueCmp f \<longrightarrow> filter_accepts data f)"
  by (induction filters data rule: account_matches_value_cmps.induct) (auto split: option.splits)

text \<open>C5: The SQL of a query and its post filter together mean its filters. The statement fails exactly when some byte comparison is
  at a position beyond PostgreSQL's \<open>integer\<close>. Otherwise the clauses of either table, with their parameters bound, hold of an
  account's data exactly when every filter that is not a \<open>ValueCmp\<close> accepts it, where a comparison with no bytes accepts all
  data, and, on a token program with a delegate filter and no tag filter, the delegate tag is set: the tag that the code
  adds to the filters of the caller. A row that passes them and the post filter is one that all the filters accept.\<close>

theorem sql_means_filters:
  assumes "verify_contract memcmp_verify"
    and "build memcmp_verify debug program filters label = Inr sf"
    and "length data < 2 ^ 63"
  shows "(eval_preds (sf_params sf) data (sf_preds sf) = None \<longleftrightarrow> (\<exists>m. Memcmp m \<in> set filters \<and> 2 ^ 31 \<le> unat (mc_offset m + 1)))
    \<and> (\<forall>holds. eval_preds (sf_params sf) data (sf_preds sf) = Some holds \<longrightarrow>
        (holds \<longleftrightarrow> (\<forall>f \<in> set filters. is_ValueCmp f \<or> empty_memcmp f \<or> filter_accepts data f)
            \<and> (add_delegate_tag program filters \<longrightarrow> filter_accepts data delegate_tag))
      \<and> (holds \<and> account_matches_value_cmps filters data = Some True \<longleftrightarrow>
          (\<forall>f \<in> set filters. empty_memcmp f \<or> filter_accepts data f)
            \<and> (add_delegate_tag program filters \<longrightarrow> filter_accepts data delegate_tag)))"
proof (cases "\<exists>m. Memcmp m \<in> set filters \<and> 2 ^ 31 \<le> unat (mc_offset m + 1)")
  case True
  then obtain m b where m: "Memcmp m \<in> set filters" "2 ^ 31 \<le> unat (mc_offset m + 1)" "mc_bytes m = Some b"
    using decoded_filters [OF assms(1,2)] by blast
  have "build_loop (is_token_program program)
      (filters @ (if add_delegate_tag program filters then [delegate_tag] else [])) ([], []) = (sf_preds sf, sf_params sf)"
    using assms(2) by (auto simp: build_eq_Inr)
  from far_position_fails [OF this _ m(3,2)] m(1) True show ?thesis by simp
next
  case False
  have tag: "filter_accepts data delegate_tag \<longleftrightarrow> take 4 (drop 72 data) = [1, 0, 0, 0]"
    unfolding delegate_tag_accepts [symmetric] by (simp add: sql_accepts_def delegate_tag_def)
  have "unat (mc_offset m + 1) < 2 ^ 31 \<and> (mc_offset m = - 1 \<longrightarrow> length data < 2 ^ 63)" if "Memcmp m \<in> set filters" for m
    using that False assms(3) by (auto simp: not_le)
  note eval = sql_evaluates [OF assms(1,2) this, unfolded sql_accepts_def]
  have "is_ValueCmp f \<Longrightarrow> \<not> empty_memcmp f" for f by (cases f) auto
  then show ?thesis using False eval unfolding tag post_filter_accepts by auto
qed

text \<open>C35: The SQL of a query is well formed. The parameters the clauses of either table refer to are
  \<open>$1..$n\<close>, in order and once each, where \<open>n\<close> is the number of values \<open>build\<close> binds: no placeholder is
  left unbound and no value is left over, so \<open>$n+1\<close> is free for the latest slot.\<close>

theorem sql_params_well_formed:
  assumes "build memcmp_verify debug program filters label = Inr sf"
  shows "concat (map pred_params (sf_preds sf)) = [1..<Suc (length (sf_params sf))]"
proof -
  have "build_loop (is_token_program program)
      (filters @ (if add_delegate_tag program filters then [delegate_tag] else [])) ([], []) = (sf_preds sf, sf_params sf)"
    using assms by (auto simp: build_eq_Inr)
  then show ?thesis by (rule build_loop_params) simp
qed

section \<open>ValueCmp compares the little-endian value\<close>

fun width :: "value_type \<Rightarrow> nat" where
  "width VT_U8 = 1"
| "width VT_U16 = 2"
| "width VT_U32 = 4"
| "width VT_U64 = 8"
| "width VT_U128 = 16"

fun wrap_value :: "value_type \<Rightarrow> nat \<Rightarrow> wrapped_value_type" where
  "wrap_value VT_U8 n = W_U8 (of_nat n)"
| "wrap_value VT_U16 n = W_U16 (of_nat n)"
| "wrap_value VT_U32 n = W_U32 (of_nat n)"
| "wrap_value VT_U64 n = W_U64 (of_nat n)"
| "wrap_value VT_U128 n = W_U128 (of_nat n)"

lemma parse_mem_arm_exact:
  assumes "unat offset + (w - 1) < 2 ^ 64" and "0 < w" and "w < 2 ^ 63" and "length data < 2 ^ 63"
  shows "parse_mem_arm (of_nat w) offset wrap data =
    Some (if unat offset + w \<le> length data then Inr (wrap (take w (drop (unat offset) data))) else Inl ())"
proof -
  have w1: "unat (of_nat w - 1 :: usize) = w - 1"
  proof -
    have "unat (of_nat w :: usize) = w" using assms(3) by (simp add: unat_of_nat)
    then show ?thesis using assms(2) by (subst unat_sub) (auto simp: word_le_nat_alt)
  qed
  have guard: "unat (offset + (of_nat w - 1)) = unat offset + (w - 1)"
    using assms(1) w1 by (simp add: unat_word_ariths)
  have "unat (offset + of_nat w) = unat offset + w" "offset \<le> offset + of_nat w"
    if "unat offset + w \<le> length data"
  proof -
    show "unat (offset + of_nat w) = unat offset + w"
      using that assms(3,4) by (simp add: unat_word_ariths unat_of_nat)
    then show "offset \<le> offset + of_nat w" by (simp add: word_le_nat_alt)
  qed
  then show ?thesis using guard assms(2) by (auto simp: parse_mem_arm_def slice_range_def)
qed

lemma parse_mem_exact:
  assumes "unat offset + (width vt - 1) < 2 ^ 64" and "length data < 2 ^ 63"
  shows "parse_mem_into_value_type (Mem offset vt) data =
    Some (if unat offset + width vt \<le> length data
          then Inr (wrap_value vt (le_nat (take (width vt) (drop (unat offset) data)))) else Inl ())"
proof (cases vt)
  case VT_U8
  have "take 1 (drop (unat offset) data) = [data ! unat offset]" if "unat offset < length data"
    using that by (rule take_Suc_drop)
  then show ?thesis using VT_U8 by auto
next
  case VT_U16
  then show ?thesis using parse_mem_arm_exact [of offset 2 data] assms by (simp add: from_le_bytes_def)
next
  case VT_U32
  then show ?thesis using parse_mem_arm_exact [of offset 4 data] assms by (simp add: from_le_bytes_def)
next
  case VT_U64
  then show ?thesis using parse_mem_arm_exact [of offset 8 data] assms by (simp add: from_le_bytes_def)
next
  case VT_U128
  then show ?thesis using parse_mem_arm_exact [of offset 16 data] assms by (simp add: from_le_bytes_def)
qed

text \<open>The decimal text of a number is read back.\<close>

lemma digit_of_char [simp]: "d < 10 \<Longrightarrow> digit_of (char_of (48 + d :: nat)) = Some d"
  by (simp add: digit_of_def Let_def)

lemma parse_digits_append:
  "parse_digits w acc (xs @ ys) =
     (case parse_digits w acc xs of None \<Rightarrow> None | Some acc' \<Rightarrow> parse_digits w acc' ys)"
  by (induction xs arbitrary: acc) (auto split: option.splits)

lemma parse_digits_show: "n < 2 ^ w \<Longrightarrow> parse_digits w 0 (show_nat n) = Some n"
proof (induction n rule: show_nat.induct)
  case (1 n)
  show ?case
  proof (cases "n < 10")
    case False
    have "parse_digits w 0 (show_nat (n div 10)) = Some (n div 10)"
      using 1 False by (meson div_le_dividend order_le_less_trans)
    moreover have "n mod 10 < 10" by simp
    ultimately show ?thesis using 1(2) False
      by (subst show_nat.simps) (simp add: parse_digits_append del: of_nat_add)
  qed (use 1(2) in simp)
qed

lemma show_nat_head: "\<exists>d cs. d < (10 :: nat) \<and> show_nat n = char_of (48 + d) # cs"
proof (induction n rule: show_nat.induct)
  case (1 n)
  then show ?case by (cases "n < 10") (auto simp: show_nat.simps [of n])
qed

lemma char_of_digit_ne_plus: "(d :: nat) < 10 \<Longrightarrow> char_of (48 + d) \<noteq> CHR ''+''"
proof
  assume "d < 10" and "char_of (48 + d) = CHR ''+''"
  then have "digit_of (CHR ''+'') = Some d" using digit_of_char by metis
  then show False by (simp add: digit_of_def Let_def)
qed

lemma parse_unsigned_show:
  assumes "n < 2 ^ LENGTH('a)"
  shows "parse_unsigned (show_nat n) = Some (of_nat n :: 'a::len word)"
proof -
  obtain d :: nat and cs where "d < 10" "show_nat n = char_of (48 + d) # cs" using show_nat_head by blast
  moreover have "char_of (48 + d) \<noteq> CHR ''+''" using char_of_digit_ne_plus \<open>d < 10\<close> .
  ultimately show ?thesis using parse_digits_show [OF assms] by (simp add: parse_unsigned_def)
qed

lemma parse_digits_big: "\<not> n < 2 ^ w \<Longrightarrow> parse_digits w 0 (show_nat n) = None \<or> n = 0"
proof (induction n rule: show_nat.induct)
  case (1 n)
  show ?case
  proof (cases "n < 10")
    case False
    have m: "n mod 10 < 10" "n div 10 * 10 + n mod 10 = n" by simp_all
    show ?thesis
    proof (cases "n div 10 < 2 ^ w")
      case True
      then show ?thesis using parse_digits_show [OF True] 1(2) False m
        by (subst show_nat.simps) (simp add: parse_digits_append)
    next
      case big: False
      then have "n div 10 \<noteq> 0" by (metis zero_less_numeral zero_less_power)
      then show ?thesis using 1(1) [OF False big] False
        by (subst show_nat.simps) (simp add: parse_digits_append)
    qed
  qed (use 1(2) in simp)
qed

lemma parse_unsigned_show_big:
  assumes "\<not> n < 2 ^ LENGTH('a)"
  shows "parse_unsigned (show_nat n) = (None :: 'a::len word option)"
proof -
  obtain d :: nat and cs where d: "d < 10" "show_nat n = char_of (48 + d) # cs" using show_nat_head by blast
  have "n \<noteq> 0" using assms by (metis zero_less_numeral zero_less_power)
  then have "parse_digits LENGTH('a) 0 (show_nat n) = None" using parse_digits_big [OF assms] by simp
  then show ?thesis using d char_of_digit_ne_plus [OF d(1)] by (simp add: parse_unsigned_def)
qed

lemma compare_of_nat:
  "a < 2 ^ LENGTH('a) \<Longrightarrow> b < 2 ^ LENGTH('a) \<Longrightarrow>
     compare cmp (of_nat a :: 'a::len word) (of_nat b) = compare cmp a b"
  by (cases cmp) (auto simp: word_le_nat_alt word_less_nat_alt unat_of_nat word_unat_eq_iff)

lemma compare_constant_exact:
  assumes "a < 2 ^ (8 * width vt)" and "n < 2 ^ (8 * width vt)"
  shows "compare_constant cmp (wrap_value vt a) (show_nat n) = Inr (compare cmp a n)"
  using assms by (cases vt) (simp_all add: compare_parsed_def parse_unsigned_show compare_of_nat)

lemma compare_wrapped_exact:
  assumes "a < 2 ^ (8 * width vt)" and "b < 2 ^ (8 * width vt)"
  shows "compare_wrapped cmp (wrap_value vt a) (wrap_value vt b) = Inr (compare cmp a b)"
  using assms by (cases vt) (simp_all add: compare_of_nat)

definition mem_value :: "value_type \<Rightarrow> usize \<Rightarrow> u8 list \<Rightarrow> nat" where
  "mem_value vt offset data = le_nat (take (width vt) (drop (unat offset) data))"

lemma mem_value_bound: "mem_value vt offset data < 2 ^ (8 * width vt)"
proof -
  have "mem_value vt offset data < 256 ^ length (take (width vt) (drop (unat offset) data))"
    unfolding mem_value_def by (rule le_nat_bound)
  also have "\<dots> \<le> 256 ^ width vt" by (rule power_increasing) auto
  also have "\<dots> = 2 ^ (8 * width vt)" by (simp add: power_mult)
  finally show ?thesis .
qed

text \<open>A \<open>ValueCmp\<close> filter compares what it says. For an offset that does not overflow, the filter that
  compares the integer at the offset with the decimal text of \<open>n\<close> keeps an account exactly when the whole
  integer lies within its data and its little-endian value stands in the relation to \<open>n\<close>; a constant
  that does not fit the type keeps no account.\<close>

theorem value_cmp_exact:
  assumes "unat offset + (width vt - 1) < 2 ^ 64" and "length data < 2 ^ 63"
  shows "account_matches_value_cmps
      [ValueCmp \<lparr>vc_left = Mem offset vt, vc_comparator = cmp, vc_right = Constant (show_nat n)\<rparr>] data =
    Some (unat offset + width vt \<le> length data \<and> n < 2 ^ (8 * width vt) \<and> compare cmp (mem_value vt offset data) n)"
proof -
  have too_big: "compare_constant cmp (wrap_value vt a) (show_nat n) = Inl ()" if "\<not> n < 2 ^ (8 * width vt)" for a
    using that by (cases vt) (simp_all add: compare_parsed_def parse_unsigned_show_big)
  show ?thesis
    using parse_mem_exact [OF assms] mem_value_bound [of vt offset data] too_big
    by (cases "n < 2 ^ (8 * width vt)")
      (auto simp: values_match_def mem_value_def compare_constant_exact)
qed

theorem value_cmp_exact_witness:
  "account_matches_value_cmps
      [ValueCmp \<lparr>vc_left = Mem 1 VT_U16, vc_comparator = Cmp_Gt, vc_right = Constant (show_nat 515)\<rparr>] [1, 4, 2, 9] =
    Some True"
  using value_cmp_exact [of 1 VT_U16 "[1, 4, 2, 9]" Cmp_Gt 515]
  by (simp add: mem_value_def)

text \<open>A \<open>ValueCmp\<close> offset near the end of \<open>usize\<close> makes the query panic: the guard's sum wraps around and
  passes, and the slice that follows starts after its end. This happens for every account whose data
  is longer than the wrapped sum, whatever the other filters behind it are.\<close>

theorem value_cmp_offset_panics:
  assumes "2 ^ 64 \<le> unat offset + (width vt - 1)" and "unat offset + (width vt - 1) - 2 ^ 64 < length data"
    and "length data < 2 ^ 63"
  shows "account_matches_value_cmps
      (ValueCmp \<lparr>vc_left = Mem offset vt, vc_comparator = cmp, vc_right = right\<rparr> # filters) data = None"
proof -
  have arm: "parse_mem_arm (of_nat w) offset wrap data = None"
    if w: "2 ^ 64 \<le> unat offset + (w - 1)" "unat offset + (w - 1) - 2 ^ 64 < length data" "w \<le> 16" for w wrap
  proof -
    have small: "unat offset < 2 ^ 64" using unat_lt2p [of offset] by simp
    then have pos: "1 < w" using w(1) by simp
    have uw: "unat (of_nat w :: usize) = w" using w(3) by (simp add: unat_of_nat)
    have w1: "unat (of_nat w - 1 :: usize) = w - 1"
      using uw pos by (subst unat_sub) (auto simp: word_le_nat_alt)
    have "unat (offset + (of_nat w - 1)) = unat offset + (w - 1) - 2 ^ 64"
      using w(1,3) small w1 pos by (auto simp: unat_plus_if')
    moreover have "unat (offset + of_nat w) < unat offset"
    proof -
      have "2 ^ 64 \<le> unat offset + w" using w(1) by simp
      then show ?thesis using w(3) small uw by (auto simp: unat_plus_if')
    qed
    ultimately show ?thesis using w(2)
      by (simp add: parse_mem_arm_def slice_range_def word_le_nat_alt)
  qed
  have "parse_mem_into_value_type (Mem offset vt) data = None"
  proof (cases vt)
    case VT_U8
    then show ?thesis using assms(1) unat_lt2p [of offset] by simp
  next
    case VT_U16
    then show ?thesis using arm [of 2] assms by simp
  next
    case VT_U32
    then show ?thesis using arm [of 4] assms by simp
  next
    case VT_U64
    then show ?thesis using arm [of 8] assms by simp
  next
    case VT_U128
    then show ?thesis using arm [of 16] assms by simp
  qed
  then show ?thesis by (cases right) (simp_all add: values_match_def)
qed

theorem value_cmp_offset_panics_witness:
  "account_matches_value_cmps
     [ValueCmp \<lparr>vc_left = Mem 18446744073709551615 VT_U16, vc_comparator = Cmp_Eq, vc_right = Constant ''0''\<rparr>] [0] = None"
  by (rule value_cmp_offset_panics) simp_all

section \<open>Errors of a token-program query\<close>

definition indexed_key :: "rpc_filter_type \<Rightarrow> bool" where
  "indexed_key f \<longleftrightarrow> (\<exists>m b. f = Memcmp m \<and> mc_bytes m = Some b \<and> length b = 32 \<and> memcmp_key (mc_offset m) \<noteq> None)"

lemma token_keys_decoded:
  assumes "\<And>m. Memcmp m \<in> set filters \<Longrightarrow> mc_bytes m \<noteq> None"
  shows "\<exists>keys. token_keys filters = Inr keys \<and> (keys = [] \<longleftrightarrow> (\<forall>f \<in> set filters. \<not> indexed_key f))"
  using assms
proof (induction filters)
  case (Cons f filters)
  then obtain keys where keys: "token_keys filters = Inr keys" "keys = [] \<longleftrightarrow> (\<forall>f \<in> set filters. \<not> indexed_key f)"
    by auto
  show ?case
  proof (cases f)
    case (Memcmp m)
    then obtain b where "mc_bytes m = Some b" using Cons.prems by fastforce
    then show ?thesis using keys Memcmp by (cases "memcmp_key (mc_offset m)") (auto simp: indexed_key_def)
  qed (use keys in \<open>auto simp: indexed_key_def\<close>)
qed simp

lemma find_key:
  "List.find (\<lambda>key. key \<in> set keys) [Mint_Key, Delegate_Key, Owner_Key] = None \<longleftrightarrow> keys = []"
proof (cases keys)
  case (Cons k ks)
  then show ?thesis by (cases k) auto
qed simp

lemma build_ok_iff:
  "(\<exists>sf. build memcmp_verify debug program filters label = Inr sf) \<longleftrightarrow>
     verify_all memcmp_verify debug filters = Inr () \<and> (\<exists>l. build_label program filters label = Inr l)"
proof
  assume "verify_all memcmp_verify debug filters = Inr () \<and> (\<exists>l. build_label program filters label = Inr l)"
  then show "\<exists>sf. build memcmp_verify debug program filters label = Inr sf"
    by (auto simp: build_def split: prod.split)
qed (auto simp: build_eq_Inr)

lemma build_label_cases:
  assumes "\<And>m. Memcmp m \<in> set filters \<Longrightarrow> mc_bytes m \<noteq> None"
  shows "(\<exists>l. build_label program filters label = Inr l) \<longleftrightarrow>
      (is_token_program program \<longrightarrow> (\<exists>f \<in> set filters. indexed_key f))"
    and "(\<exists>l. build_label program filters label = Inr l) \<or> build_label program filters label = Inl InvalidParams"
proof -
  obtain keys where keys: "token_keys filters = Inr keys" "keys = [] \<longleftrightarrow> (\<forall>f \<in> set filters. \<not> indexed_key f)"
    using token_keys_decoded [OF assms] by blast
  show "(\<exists>l. build_label program filters label = Inr l) \<longleftrightarrow>
      (is_token_program program \<longrightarrow> (\<exists>f \<in> set filters. indexed_key f))"
    using keys find_key [of keys]
    by (cases "List.find (\<lambda>key. key \<in> set keys) [Mint_Key, Delegate_Key, Owner_Key]")
      (auto simp: build_label_def is_valid_token_query_def simp del: List.find.simps)
  show "(\<exists>l. build_label program filters label = Inr l) \<or> build_label program filters label = Inl InvalidParams"
    using keys by (cases "List.find (\<lambda>key. key \<in> set keys) [Mint_Key, Delegate_Key, Owner_Key]")
      (simp_all add: build_label_def is_valid_token_query_def del: List.find.simps)
qed

text \<open>A query is refused for exactly the reasons the code states. A query is accepted when its byte
  comparisons verify and, on a token program, one of its filters is a 32-byte comparison at the mint,
  the delegate or the owner; a query whose comparisons verify and that is refused all the same is
  answered with \<open>InvalidParams\<close>.\<close>

theorem build_refused_iff:
  assumes "verify_contract memcmp_verify"
  shows "((\<exists>sf. build memcmp_verify debug program filters label = Inr sf) \<longleftrightarrow>
      (\<forall>m. Memcmp m \<in> set filters \<longrightarrow> memcmp_verify m = Inr ()) \<and>
      (is_token_program program \<longrightarrow> (\<exists>f \<in> set filters. indexed_key f))) \<and>
    ((\<forall>m. Memcmp m \<in> set filters \<longrightarrow> memcmp_verify m = Inr ()) \<longrightarrow>
      (\<nexists>sf. build memcmp_verify debug program filters label = Inr sf) \<longrightarrow>
      build memcmp_verify debug program filters label = Inl InvalidParams)"
proof (cases "\<forall>m. Memcmp m \<in> set filters \<longrightarrow> memcmp_verify m = Inr ()")
  case True
  then have dec: "\<And>m. Memcmp m \<in> set filters \<Longrightarrow> mc_bytes m \<noteq> None"
    using assms by (auto simp: verify_contract_def)
  have ok: "verify_all memcmp_verify debug filters = Inr ()" using True by (simp add: verify_all_ok)
  have "build memcmp_verify debug program filters label = Inl InvalidParams"
    if "\<nexists>l. build_label program filters label = Inr l"
    proof -
    have "build_label program filters label = Inl InvalidParams"
      using build_label_cases(2) [of filters program label] dec that by blast
    then show ?thesis using ok by (simp add: build_def)
  qed
  then show ?thesis
    unfolding build_ok_iff using ok True build_label_cases(1) [of filters program label] dec
    by blast
next
  case False
  then show ?thesis by (auto simp: build_ok_iff verify_all_ok)
qed

section \<open>Witnesses\<close>

definition wit_verify :: "memcmp \<Rightarrow> unit + unit" where
  "wit_verify m = (case mc_bytes m of None \<Rightarrow> Inl () | Some b \<Rightarrow> if length b \<le> 128 then Inr () else Inl ())"

lemma wit_verify_contract: "verify_contract wit_verify"
  by (auto simp: verify_contract_def wit_verify_def split: option.splits if_splits)

lemma pk_ne_token [simp]: "\<not> is_token_program (pk b)"
proof -
  have "to_bytes TOKEN_PROGRAM_ID ! 0 \<noteq> to_bytes TOKEN_PROGRAM_ID ! 1"
    "to_bytes TOKEN_2022_PROGRAM_ID ! 0 \<noteq> to_bytes TOKEN_2022_PROGRAM_ID ! 1"
    by (simp_all add: TOKEN_PROGRAM_ID_def TOKEN_2022_PROGRAM_ID_def Abs_pubkey_inverse)
  moreover have "to_bytes (pk b) ! 0 = to_bytes (pk b) ! 1" by simp
  ultimately show ?thesis unfolding is_token_program_def by metis
qed

definition wit_filters :: "rpc_filter_type list" where
  "wit_filters = [DataSize 5, Memcmp \<lparr>mc_offset = 1, mc_encoded = Raw_Bytes [7, 8], mc_bytes = Some [7, 8]\<rparr>]"

definition wit_built :: sql_filters where
  "wit_built = \<lparr>sf_preds = [Length_Is 5, Substring_Is 2 2 1], sf_params = [[7, 8]], sf_label = ''gpa''\<rparr>"

lemma wit_build: "build wit_verify (\<lambda>_. []) (pk 1) wit_filters ''gpa'' = Inr wit_built"
  by (simp add: build_def wit_filters_def wit_verify_def build_label_def add_delegate_tag_def filter_sql_def
      wit_built_def)

lemma sql_means_filters_witness:
  "eval_preds (sf_params wit_built) [0, 7, 8, 1, 2] (sf_preds wit_built) = Some True"
proof -
  have "length [0, 7, 8, 1, 2 :: u8] < 2 ^ 63" by simp
  note means = sql_means_filters [OF wit_verify_contract wit_build this]
  have "\<not> (\<exists>m. Memcmp m \<in> set wit_filters \<and> 2 ^ 31 \<le> unat (mc_offset m + 1))" by (auto simp: wit_filters_def)
  then obtain holds where holds: "eval_preds (sf_params wit_built) [0, 7, 8, 1, 2] (sf_preds wit_built) = Some holds"
    using means by blast
  then have "holds \<longleftrightarrow> (\<forall>f \<in> set wit_filters. is_ValueCmp f \<or> empty_memcmp f \<or> filter_accepts [0, 7, 8, 1, 2] f)
      \<and> (add_delegate_tag (pk 1) wit_filters \<longrightarrow> filter_accepts [0, 7, 8, 1, 2] delegate_tag)"
    using means by blast
  then have holds_True: holds by (simp add: wit_filters_def add_delegate_tag_def)
  show ?thesis using holds holds_True by simp
qed

lemma sql_params_well_formed_witness:
  "concat (map pred_params (sf_preds wit_built)) = [1..<Suc (length (sf_params wit_built))]"
  by (rule sql_params_well_formed [OF wit_build])

lemma build_refused_iff_witness:
  "build wit_verify (\<lambda>_. []) TOKEN_PROGRAM_ID [TokenAccountState] ''gpa'' = Inl InvalidParams"
  using build_refused_iff [OF wit_verify_contract, of "\<lambda>_. []" TOKEN_PROGRAM_ID "[TokenAccountState]" "''gpa''"]
  by (simp add: indexed_key_def is_token_program_def)

text \<open>The text of the clauses, on an example of the source's tests.\<close>

lemma clauses_example:
  "accounts_clauses wit_built = ''AND length(accounts.data) = 5'' @ CHR 10 # replicate 20 (CHR 32) @
     ''AND SUBSTRING(accounts.data FROM 2 FOR 2) = $1''"
  by (simp add: clauses_def wit_built_def char_of_def of_char_def, code_simp)

end
