(* ===== verification/Gpa_Query.thy ===== *)
theory Gpa_Query
  imports Rpc_Filter Slot_Sync Owner_Map
begin

text \<open>
  \<open>getProgramAccounts\<close> up to the rows of its statement (\<open>crates/api/src/methods/get_program_accounts.rs\<close>,
  \<open>db/getProgramAccounts.sql\<close>), the three token methods served as one
  (\<open>get_token_accounts_by_owner.rs\<close>, \<open>_by_delegate.rs\<close>, \<open>_by_mint.rs\<close>), and the batches the rows are sent in.

  Parsing a base58 key is third-party code: a parsed key is an argument, \<open>Inl\<close> with the error's text. The
  statement keeps, per key, the first row in slot order; which of several rows with the newest slot comes
  first is the database's choice, the argument \<open>pick\<close>.
\<close>

section \<open>Configuration\<close>

datatype ui_encoding = Enc_Binary | Enc_Base58 | Enc_Base64 | Enc_JsonParsed | Enc_Base64Zstd

record data_slice =
  ds_offset :: nat
  ds_length :: nat

record account_config =
  ai_encoding :: "ui_encoding option"
  ai_data_slice :: "data_slice option"
  ai_commitment :: "commitment_level option"
  ai_min_context_slot :: "u64 option"

record program_accounts_config =
  pc_filters :: "rpc_filter_type list option"
  pc_account_config :: account_config
  pc_with_context :: "bool option"
  pc_sort_results :: "bool option"

definition default_account_config :: account_config where
  "default_account_config =
     \<lparr>ai_encoding = None, ai_data_slice = None, ai_commitment = None, ai_min_context_slot = None\<rparr>"

definition default_gpa_config :: program_accounts_config where
  "default_gpa_config =
     \<lparr>pc_filters = None, pc_account_config = default_account_config, pc_with_context = None, pc_sort_results = None\<rparr>"

definition filters_of :: "program_accounts_config \<Rightarrow> rpc_filter_type list" where
  "filters_of config = (case pc_filters config of None \<Rightarrow> [] | Some fs \<Rightarrow> fs)"

definition parse_key :: "string + pubkey \<Rightarrow> pubkey rpc_result" where
  "parse_key parsed = (case parsed of Inl e \<Rightarrow> Inl (PubkeyValidationError e) | Inr key \<Rightarrow> Inr key)"

definition check_min_context_slot :: "u64 option \<Rightarrow> u64 \<Rightarrow> unit rpc_result" where
  "check_min_context_slot min_context_slot latest_slot = (case min_context_slot of
     None \<Rightarrow> Inr ()
   | Some m \<Rightarrow> if latest_slot < m then Inl (MinContextSlotNotReached latest_slot) else Inr ())"

definition MAX_BASE58_BYTES :: nat where "MAX_BASE58_BYTES = 128"

definition check_account_data_len_for_encoding :: "ui_encoding \<Rightarrow> data_slice option \<Rightarrow> nat \<Rightarrow> unit rpc_result" where
  "check_account_data_len_for_encoding encoding dslice len =
     (if (encoding = Enc_Binary \<or> encoding = Enc_Base58)
          \<and> MAX_BASE58_BYTES < (case dslice of None \<Rightarrow> len | Some s \<Rightarrow> min (ds_length s) (len - ds_offset s))
      then Inl Base58DataTooLarge else Inr ())"

section \<open>The request\<close>

record gpa_request =
  gr_program :: pubkey
  gr_latest_slot :: u64
  gr_block_time :: int
  gr_context_slot :: "u64 option"
  gr_filters :: sql_filters

text \<open>\<open>get_program_accounts\<close> up to the database query, in the order of its early returns.\<close>

definition get_program_accounts :: "(memcmp \<Rightarrow> 'e + unit) \<Rightarrow> ('e \<Rightarrow> string) \<Rightarrow> rpc_state
    \<Rightarrow> string + pubkey \<Rightarrow> program_accounts_config option \<Rightarrow> string \<Rightarrow> gpa_request rpc_result" where
  "get_program_accounts memcmp_verify debug state parsed config label =
     (let config = (case config of None \<Rightarrow> default_gpa_config | Some c \<Rightarrow> c)
      in rbind (parse_key parsed) (\<lambda>program.
         if \<not> is_program_selected (rs_indexer_filter state) program
         then Inl (KeyExcludedFromSecondaryIndex program)
         else rbind (resolve_or_finalized (ai_commitment (pc_account_config config)) (rs_processed_commitment state)) (\<lambda>level.
         rbind (latest_slot_and_block_time state level) (\<lambda>(latest_slot, block_time).
         rbind (check_min_context_slot (ai_min_context_slot (pc_account_config config)) latest_slot) (\<lambda>_.
         rbind (build memcmp_verify debug program (filters_of config) label) (\<lambda>sf.
         Inr \<lparr>gr_program = program, gr_latest_slot = latest_slot, gr_block_time = block_time,
              gr_context_slot = (if pc_with_context config = Some True then Some latest_slot else None),
              gr_filters = sf\<rparr>))))))"

subsection \<open>The token methods\<close>

datatype token_accounts_filter = By_Mint pubkey | By_Program pubkey

definition raw_memcmp :: "usize \<Rightarrow> u8 list \<Rightarrow> rpc_filter_type" where
  "raw_memcmp offset bytes = Memcmp \<lparr>mc_offset = offset, mc_encoded = Raw_Bytes bytes, mc_bytes = Some bytes\<rparr>"

text \<open>\<open>read_mint\<close>: the newest row of the mint under a token program is the argument \<open>fetch\<close>, at the slot of the
  request's commitment (\<open>Inl\<close> when the query fails or times out). The native mint has no row.\<close>

definition read_mint :: "mint_codec \<Rightarrow> (u64 \<Rightarrow> unit + db_row option) \<Rightarrow> rpc_state \<Rightarrow> pubkey \<Rightarrow> account_config
    \<Rightarrow> (pubkey \<times> u8 list option) rpc_result" where
  "read_mint codec fetch state mint config =
     (if mint = mc_native_mint codec then Inr (TOKEN_PROGRAM_ID, None)
      else rbind (resolve_or_finalized (ai_commitment config) (rs_processed_commitment state)) (\<lambda>level.
           rbind (latest_slot_and_block_time state level) (\<lambda>(slot, _).
           (case fetch slot of
              Inl _ \<Rightarrow> Inl InternalError
            | Inr None \<Rightarrow> Inl (MintDataNotFound mint)
            | Inr (Some row) \<Rightarrow>
                if dr_lamports row \<le> 0 then Inl (MintDataNotFound mint)
                else if mc_unpack codec (dr_data row) = None then Inl (TokenMintCouldNotBeUnpacked mint)
                else Inr (Abs_pubkey (dr_owner row), Some (dr_data row))))))"

text \<open>The program and the mint filter both methods derive from the client's filter.\<close>

definition token_program_filter :: "mint_codec \<Rightarrow> (u64 \<Rightarrow> unit + db_row option) \<Rightarrow> rpc_state \<Rightarrow> (pubkey \<Rightarrow> string)
    \<Rightarrow> token_accounts_filter \<Rightarrow> account_config \<Rightarrow> (pubkey \<times> rpc_filter_type list) rpc_result" where
  "token_program_filter codec fetch state base58 f config = (case f of
     By_Program program \<Rightarrow>
       if \<not> is_token_program program then Inl (UnrecognizedTokenProgramId (base58 program)) else Inr (program, [])
   | By_Mint mint \<Rightarrow>
       rbind (read_mint codec fetch state mint config)
         (\<lambda>(program, _). Inr (program, [raw_memcmp TOKEN_ACCOUNT_MINT_OFFSET (to_bytes mint)])))"

definition get_token_accounts_by_owner where
  "get_token_accounts_by_owner memcmp_verify debug codec fetch base58 state parsed f config =
     rbind (parse_key parsed) (\<lambda>owner.
       let config = (case config of None \<Rightarrow> default_account_config | Some c \<Rightarrow> c)
       in rbind (token_program_filter codec fetch state base58 f config) (\<lambda>(program, mint_filter).
          get_program_accounts memcmp_verify debug state (Inr program)
            (Some \<lparr>pc_filters = Some ([raw_memcmp TOKEN_ACCOUNT_OWNER_OFFSET (to_bytes owner), TokenAccountState] @ mint_filter),
                   pc_account_config = config, pc_with_context = Some True, pc_sort_results = None\<rparr>)
            ''gtabo''))"

definition get_token_accounts_by_delegate where
  "get_token_accounts_by_delegate memcmp_verify debug codec fetch base58 state parsed f config =
     rbind (parse_key parsed) (\<lambda>delegate.
       let config = (case config of None \<Rightarrow> default_account_config | Some c \<Rightarrow> c)
       in rbind (token_program_filter codec fetch state base58 f config) (\<lambda>(program, mint_filter).
          get_program_accounts memcmp_verify debug state (Inr program)
            (Some \<lparr>pc_filters = Some ([raw_memcmp TOKEN_ACCOUNT_DELEGATE_TAG_OFFSET [1, 0, 0, 0],
                     raw_memcmp TOKEN_ACCOUNT_DELEGATE_OFFSET (to_bytes delegate), TokenAccountState] @ mint_filter),
                   pc_account_config = config, pc_with_context = Some True, pc_sort_results = None\<rparr>)
            ''gtabd''))"

definition get_token_accounts_by_mint where
  "get_token_accounts_by_mint memcmp_verify debug state parsed program_id config =
     rbind (parse_key parsed) (\<lambda>mint.
       rbind (case program_id of
            None \<Rightarrow> Inr TOKEN_PROGRAM_ID
          | Some (text, parsed_id) \<Rightarrow> rbind (parse_key parsed_id) (\<lambda>program.
              if \<not> is_token_program program then Inl (UnrecognizedTokenProgramId text) else Inr program))
         (\<lambda>program. get_program_accounts memcmp_verify debug state (Inr program)
            (Some \<lparr>pc_filters = Some [raw_memcmp 0 (to_bytes mint)], pc_account_config = config,
                   pc_with_context = Some True, pc_sort_results = None\<rparr>)
            ''gtabm''))"

section \<open>The statement\<close>

definition sql_matches :: "sql_filters \<Rightarrow> u8 list \<Rightarrow> bool" where
  "sql_matches sf data \<longleftrightarrow> eval_preds (sf_params sf) data (sf_preds sf) = Some True"

text \<open>Whether a predicate has a meaning does not depend on the data: the statement fails or not.\<close>

definition statement_ok :: "sql_filters \<Rightarrow> bool" where
  "statement_ok sf \<longleftrightarrow> eval_preds (sf_params sf) [] (sf_preds sf) \<noteq> None"

definition program_rows :: "pubkey \<Rightarrow> u64 \<Rightarrow> sql_filters \<Rightarrow> db_tables \<Rightarrow> db_row list" where
  "program_rows program latest_slot sf db =
     filter (\<lambda>r. dr_owner r = to_bytes program \<and> dr_slot r \<le> sint latest_slot \<and> sql_matches sf (dr_data r))
       (tb_accounts db @ tb_snapshot_accounts db)"

definition row_keys :: "db_row list \<Rightarrow> u8 list list" where
  "row_keys rows = sort (remdups (map dr_pubkey rows))"

text \<open>\<open>SELECT DISTINCT ON (pubkey) ... ORDER BY pubkey, slot DESC\<close>, then \<open>WHERE lamports > 0 ORDER BY pubkey\<close>.\<close>

definition distinct_on_pubkey :: "(db_row list \<Rightarrow> db_row) \<Rightarrow> db_row list \<Rightarrow> db_row list" where
  "distinct_on_pubkey pick rows = map (\<lambda>k. pick (filter (\<lambda>r. dr_pubkey r = k) rows)) (row_keys rows)"

definition select_program_accounts :: "(db_row list \<Rightarrow> db_row) \<Rightarrow> pubkey \<Rightarrow> u64 \<Rightarrow> sql_filters \<Rightarrow> db_tables
    \<Rightarrow> db_row list" where
  "select_program_accounts pick program latest_slot sf db =
     filter (\<lambda>r. 0 < dr_lamports r) (distinct_on_pubkey pick (program_rows program latest_slot sf db))"

definition gpa_rows :: "(db_row list \<Rightarrow> db_row) \<Rightarrow> gpa_request \<Rightarrow> db_tables \<Rightarrow> db_row list rpc_result" where
  "gpa_rows pick r db =
     (if statement_ok (gr_filters r)
      then Inr (select_program_accounts pick (gr_program r) (gr_latest_slot r) (gr_filters r) db)
      else Inl InternalError)"

section \<open>Batches\<close>

text \<open>What the database sends, and the batches the query task sends on. A failure drops the batch begun.\<close>

datatype db_event = Db_Row db_row | Db_Error | Db_Timeout

fun send_batches :: "nat option \<Rightarrow> db_row list \<Rightarrow> db_event list \<Rightarrow> (rpc_error + db_row list) list" where
  "send_batches batch_size batch [] = (if batch = [] then [] else [Inr batch])"
| "send_batches batch_size batch (Db_Row r # events) =
     (let batch = batch @ [r]
      in case batch_size of
           None \<Rightarrow> send_batches batch_size batch events
         | Some n \<Rightarrow> if n \<le> length batch then Inr batch # send_batches batch_size [] events
                      else send_batches batch_size batch events)"
| "send_batches batch_size batch (Db_Error # events) = [Inl InternalError]"
| "send_batches batch_size batch (Db_Timeout # events) = [Inl InternalError]"

fun batches_content :: "(rpc_error + db_row list) list \<Rightarrow> db_row list" where
  "batches_content [] = []"
| "batches_content (Inr rows # bs) = rows @ batches_content bs"
| "batches_content (Inl e # bs) = []"

lemma send_batches_content:
  "batches_content (send_batches batch_size batch (map Db_Row rows)) = batch @ rows"
proof (induction rows arbitrary: batch)
  case (Cons r rows)
  then show ?case by (cases batch_size) (simp_all add: Let_def)
qed simp

lemma send_batches_ok:
  "b \<in> set (send_batches batch_size batch (map Db_Row rows)) \<Longrightarrow> \<exists>rs. b = Inr rs \<and> rs \<noteq> []"
proof (induction rows arbitrary: batch)
  case (Cons r rows)
  then show ?case by (cases batch_size) (auto simp: Let_def split: if_splits)
qed (auto split: if_splits)

section \<open>What the statement answers\<close>

definition picks_newest :: "(db_row list \<Rightarrow> db_row) \<Rightarrow> bool" where
  "picks_newest pick \<longleftrightarrow> (\<forall>rows. rows \<noteq> [] \<longrightarrow> pick rows \<in> newest rows)"

lemma set_row_keys [simp]: "set (row_keys rows) = dr_pubkey ` set rows"
  by (simp add: row_keys_def)

lemma sorted_row_keys: "sorted_wrt (<) (row_keys rows)"
  by (simp add: row_keys_def strict_sorted_iff)

lemma pick_key:
  assumes "picks_newest pick" and "k \<in> set (row_keys rows)"
  shows "pick (filter (\<lambda>r. dr_pubkey r = k) rows) \<in> newest (filter (\<lambda>r. dr_pubkey r = k) rows)"
    and "dr_pubkey (pick (filter (\<lambda>r. dr_pubkey r = k) rows)) = k"
proof -
  have "filter (\<lambda>r. dr_pubkey r = k) rows \<noteq> []" using assms(2) by (auto simp: filter_empty_conv)
  then show "pick (filter (\<lambda>r. dr_pubkey r = k) rows) \<in> newest (filter (\<lambda>r. dr_pubkey r = k) rows)"
    using assms(1) by (auto simp: picks_newest_def)
  then show "dr_pubkey (pick (filter (\<lambda>r. dr_pubkey r = k) rows)) = k" by (auto simp: newest_def)
qed

lemma keys_distinct_on:
  assumes "picks_newest pick"
  shows "map dr_pubkey (distinct_on_pubkey pick rows) = row_keys rows"
proof -
  have "map (\<lambda>k. dr_pubkey (pick (filter (\<lambda>r. dr_pubkey r = k) rows))) (row_keys rows) = map id (row_keys rows)"
    using pick_key(2) [OF assms] by (intro map_cong) simp_all
  then show ?thesis by (simp add: distinct_on_pubkey_def comp_def)
qed

lemma versions_program_rows:
  "filter (\<lambda>r. dr_pubkey r = key) (program_rows program latest_slot sf db) =
     versions (\<lambda>r. dr_owner r = to_bytes program \<and> sql_matches sf (dr_data r)) key (sint latest_slot)
       (tb_accounts db @ tb_snapshot_accounts db)"
  unfolding program_rows_def versions_def filter_filter by (rule filter_cong) auto

abbreviation gpa_answers :: "pubkey \<Rightarrow> u64 \<Rightarrow> sql_filters \<Rightarrow> u8 list \<Rightarrow> db_tables \<Rightarrow> db_row option set" where
  "gpa_answers program latest_slot sf key db \<equiv>
     answers (\<lambda>r. dr_owner r = to_bytes program \<and> sql_matches sf (dr_data r)) key (sint latest_slot) db"

lemma select_keys_sorted:
  assumes "picks_newest pick"
  shows "sorted_wrt (<) (map dr_pubkey (select_program_accounts pick program latest_slot sf db))"
proof -
  let ?rows = "distinct_on_pubkey pick (program_rows program latest_slot sf db)"
  have "sorted_wrt (\<lambda>a b. dr_pubkey a < dr_pubkey b) ?rows"
    using sorted_row_keys keys_distinct_on [OF assms] by (metis sorted_wrt_map)
  then show ?thesis by (simp add: select_program_accounts_def sorted_wrt_map sorted_wrt_filter)
qed

lemma select_in_answers:
  assumes "picks_newest pick"
  shows "r \<in> set (select_program_accounts pick program latest_slot sf db) \<Longrightarrow>
      Some r \<in> gpa_answers program latest_slot sf (dr_pubkey r) db"
    and "\<forall>r \<in> set (select_program_accounts pick program latest_slot sf db). dr_pubkey r \<noteq> key \<Longrightarrow>
      None \<in> gpa_answers program latest_slot sf key db"
proof -
  let ?rows = "program_rows program latest_slot sf db"
  let ?of = "\<lambda>k. filter (\<lambda>r. dr_pubkey r = k) ?rows"
  have ans: "answers_of (?of k) = gpa_answers program latest_slot sf k db" for k
    by (simp add: answers_def versions_program_rows)
  have member: "visible (pick (?of k)) \<in> answers_of (?of k)" if "k \<in> set (row_keys ?rows)" for k
    using pick_key(1) [OF assms that] that by (auto simp: answers_of_def filter_empty_conv)
  {
    assume r: "r \<in> set (select_program_accounts pick program latest_slot sf db)"
    then obtain k where k: "k \<in> set (row_keys ?rows)" "r = pick (?of k)" "0 < dr_lamports r"
      by (auto simp: select_program_accounts_def distinct_on_pubkey_def)
    then have "dr_pubkey r = k" using pick_key(2) [OF assms k(1)] by simp
    then show "Some r \<in> gpa_answers program latest_slot sf (dr_pubkey r) db"
      using member [OF k(1)] k(2,3) ans by (simp add: visible_def)
  }
  assume none: "\<forall>r \<in> set (select_program_accounts pick program latest_slot sf db). dr_pubkey r \<noteq> key"
  show "None \<in> gpa_answers program latest_slot sf key db"
  proof (cases "key \<in> set (row_keys ?rows)")
    case True
    then have "pick (?of key) \<in> set (distinct_on_pubkey pick ?rows)" by (auto simp: distinct_on_pubkey_def)
    then have "\<not> 0 < dr_lamports (pick (?of key))"
      using none pick_key(2) [OF assms True] by (auto simp: select_program_accounts_def)
    then show ?thesis using member [OF True] ans by (simp add: visible_def)
  next
    case False
    then have "?of key = []" by (auto simp: filter_empty_conv)
    then have "{None} = gpa_answers program latest_slot sf key db" using ans [of key] by (simp add: answers_of_def)
    then show ?thesis by (metis singletonI)
  qed
qed

text \<open>With filters, the newest row that passes them is not always the newest row. The two agree when the
  rows above it pass them too.\<close>

definition newest_passes :: "pubkey \<Rightarrow> u64 \<Rightarrow> sql_filters \<Rightarrow> u8 list \<Rightarrow> db_tables \<Rightarrow> bool" where
  "newest_passes program latest_slot sf key db \<longleftrightarrow>
     (let rows = versions (\<lambda>r. dr_owner r = to_bytes program) key (sint latest_slot) (tb_accounts db @ tb_snapshot_accounts db)
      in (\<forall>r \<in> set rows. sql_matches sf (dr_data r)) \<or> (\<forall>r \<in> newest rows. sql_matches sf (dr_data r)))"

lemma newest_passes_answers:
  assumes "newest_passes program latest_slot sf key db"
    and "\<exists>r \<in> set (versions (\<lambda>r. dr_owner r = to_bytes program) key (sint latest_slot)
           (tb_accounts db @ tb_snapshot_accounts db)). sql_matches sf (dr_data r)"
  shows "gpa_answers program latest_slot sf key db = get_program_account (to_bytes program) key (sint latest_slot) db"
proof -
  let ?all = "versions (\<lambda>r. dr_owner r = to_bytes program) key (sint latest_slot) (tb_accounts db @ tb_snapshot_accounts db)"
  let ?some = "versions (\<lambda>r. dr_owner r = to_bytes program \<and> sql_matches sf (dr_data r)) key (sint latest_slot)
    (tb_accounts db @ tb_snapshot_accounts db)"
  have sub: "set ?some \<subseteq> set ?all" by auto
  have "newest ?all \<subseteq> set ?some" using assms(1) by (auto simp: newest_passes_def newest_def Let_def)
  then have "answers_of ?some = answers_of ?all" by (rule answers_of_cong [OF sub])
  then show ?thesis by (simp add: answers_def get_program_account_def)
qed

text \<open>C4: What \<open>getProgramAccounts\<close> returns. The rows are in strict key order, every one of them is the
  account's newest version under the program at the request's slot that passes the filters, it is open,
  and a key is left out only when that version is closed or there is none. For a key whose newest version
  passes the filters this is what a read of the account under its program answers.\<close>

theorem gpa_rows_exact:
  assumes "picks_newest pick" and "gpa_rows pick r db = Inr rows"
  shows "sorted_wrt (<) (map dr_pubkey rows)
    \<and> (\<forall>row \<in> set rows. Some row \<in> gpa_answers (gr_program r) (gr_latest_slot r) (gr_filters r) (dr_pubkey row) db
         \<and> (newest_passes (gr_program r) (gr_latest_slot r) (gr_filters r) (dr_pubkey row) db \<longrightarrow>
             Some row \<in> get_program_account (to_bytes (gr_program r)) (dr_pubkey row) (sint (gr_latest_slot r)) db))
    \<and> (\<forall>key. (\<forall>row \<in> set rows. dr_pubkey row \<noteq> key) \<longrightarrow>
         None \<in> gpa_answers (gr_program r) (gr_latest_slot r) (gr_filters r) key db)"
proof -
  let ?ans = "\<lambda>key. gpa_answers (gr_program r) (gr_latest_slot r) (gr_filters r) key db"
  have rows: "rows = select_program_accounts pick (gr_program r) (gr_latest_slot r) (gr_filters r) db"
    using assms(2) by (auto simp: gpa_rows_def split: if_splits)
  have agree: "Some row \<in> get_program_account (to_bytes (gr_program r)) (dr_pubkey row) (sint (gr_latest_slot r)) db"
    if "Some row \<in> ?ans (dr_pubkey row)" "newest_passes (gr_program r) (gr_latest_slot r) (gr_filters r) (dr_pubkey row) db" for row
  proof -
    have "row \<in> set (versions (\<lambda>x. dr_owner x = to_bytes (gr_program r) \<and> sql_matches (gr_filters r) (dr_data x))
        (dr_pubkey row) (sint (gr_latest_slot r)) (tb_accounts db @ tb_snapshot_accounts db))"
      using that(1) by (auto simp: answers_def answers_of_def newest_def visible_def split: if_splits)
    then show ?thesis using newest_passes_answers [OF that(2)] that(1) by fastforce
  qed
  show ?thesis
    using select_keys_sorted [OF assms(1)] select_in_answers [OF assms(1)] agree by (simp add: rows)
qed

text \<open>A filtered \<open>getProgramAccounts\<close> serves a closed account. The filters are applied to every version
  before the newest one is taken, and the mask of a closed account has no data: when the filters reject
  empty data, the version that was closed is returned although the account reads as absent at the
  same slot. Every token method has such filters.\<close>

theorem filtered_gpa_serves_closed:
  assumes "picks_newest pick" and "dr_owner old = to_bytes program" and "0 < dr_lamports old"
    and "sql_matches sf (dr_data old)" and "\<not> sql_matches sf []"
    and "dr_slot old < sint closed_at" and "sint closed_at \<le> sint latest_slot"
    and "db = \<lparr>tb_accounts = [old, mask_row closed_at (dr_pubkey old, to_bytes program)], tb_snapshot_accounts = []\<rparr>"
  shows "select_program_accounts pick program latest_slot sf db = [old]
    \<and> get_account_info (dr_pubkey old) (sint latest_slot) db = {None}
    \<and> get_program_account (to_bytes program) (dr_pubkey old) (sint latest_slot) db = {None}"
proof -
  let ?mask = "mask_row closed_at (dr_pubkey old, to_bytes program)"
  have rows: "program_rows program latest_slot sf db = [old]"
    using assms by (simp add: program_rows_def mask_row_def)
  have "pick [old] \<in> newest [old]" using assms(1) unfolding picks_newest_def by blast
  then have "pick [old] = old" by (simp add: newest_def)
  then have sel: "select_program_accounts pick program latest_slot sf db = [old]"
    unfolding select_program_accounts_def distinct_on_pubkey_def row_keys_def rows using assms(3) by simp
  have closed: "dr_lamports r \<le> 0" if "r \<in> newest rs" "set rs = {old, ?mask}" for r rs
    using that assms(6) by (auto simp: newest_def mask_row_def)
  have "answers_of (versions P (dr_pubkey old) (sint latest_slot) (tb_accounts db @ tb_snapshot_accounts db)) = {None}"
    if "P old" "P ?mask" for P
  proof (rule answers_of_closed)
    have "set (versions P (dr_pubkey old) (sint latest_slot) (tb_accounts db @ tb_snapshot_accounts db)) = {old, ?mask}"
      using that assms(6-8) by (auto simp: mask_row_def)
    then show "dr_lamports r \<le> 0"
      if "r \<in> newest (versions P (dr_pubkey old) (sint latest_slot) (tb_accounts db @ tb_snapshot_accounts db))" for r
      using closed that by blast
  qed
  then show ?thesis using sel assms(2)
    by (simp add: get_account_info_def get_program_account_def answers_def mask_row_def)
qed

text \<open>The request of a token method carries the owner comparison.\<close>

lemma token_filter_rejects_empty:
  assumes "verify_contract memcmp_verify" and "build memcmp_verify debug program filters label = Inr sf"
    and "\<And>m. Memcmp m \<in> set filters \<Longrightarrow> mc_bytes m \<noteq> Some [] \<and> unat (mc_offset m) + 1 < 2 ^ 31"
    and "raw_memcmp offset bytes \<in> set filters" and "bytes \<noteq> []"
  shows "\<not> sql_matches sf []"
proof -
  have "\<not> filter_accepts [] (raw_memcmp offset bytes)" "\<not> is_ValueCmp (raw_memcmp offset bytes)"
    using assms(5) by (simp_all add: raw_memcmp_def)
  moreover have "eval_preds (sf_params sf) [] (sf_preds sf) =
      Some ((\<forall>f \<in> set filters. is_ValueCmp f \<or> filter_accepts [] f) \<and>
        (add_delegate_tag program filters \<longrightarrow> take 4 (drop 72 []) = [1, 0, 0, 0 :: u8]))"
    by (rule sql_means_core [OF assms(1-3)])
  ultimately show ?thesis using assms(4) by (auto simp: sql_matches_def)
qed

lemma get_program_accounts_build:
  assumes "get_program_accounts memcmp_verify debug state (Inr program) (Some config) label = Inr r"
  shows "gr_program r = program" and "build memcmp_verify debug program (filters_of config) label = Inr (gr_filters r)"
  using assms by (auto simp: get_program_accounts_def parse_key_def rbind_eq_Inr split: if_splits)


section \<open>Witnesses\<close>

definition wit_pick :: "db_row list \<Rightarrow> db_row" where
  "wit_pick rows = hd (filter (\<lambda>r. \<forall>r' \<in> set rows. dr_slot r' \<le> dr_slot r) rows)"

lemma wit_pick_newest: "picks_newest wit_pick"
proof -
  have "wit_pick rows \<in> newest rows" if "rows \<noteq> []" for rows
  proof -
    have "filter (\<lambda>r. \<forall>r' \<in> set rows. dr_slot r' \<le> dr_slot r) rows \<noteq> []"
      using newest_nonempty [OF that] by (auto simp: newest_def filter_empty_conv)
    then have "hd (filter (\<lambda>r. \<forall>r' \<in> set rows. dr_slot r' \<le> dr_slot r) rows) \<in>
        set (filter (\<lambda>r. \<forall>r' \<in> set rows. dr_slot r' \<le> dr_slot r) rows)"
      by (rule hd_in_set)
    then show ?thesis unfolding wit_pick_def newest_def by (simp del: hd_in_set)
  qed
  then show ?thesis by (simp add: picks_newest_def)
qed

definition wit_account_row :: "u8 list \<Rightarrow> pubkey \<Rightarrow> u8 list \<Rightarrow> db_row" where
  "wit_account_row key program data = \<lparr>dr_pubkey = key, dr_owner = to_bytes program, dr_lamports = 5, dr_slot = 8,
     dr_executable = False, dr_rent_epoch = 0, dr_data = data, dr_write_version = 0\<rparr>"

definition wit_request :: gpa_request where
  "wit_request = \<lparr>gr_program = pk 1, gr_latest_slot = 10, gr_block_time = 0, gr_context_slot = None, gr_filters = wit_built\<rparr>"

definition wit_db :: db_tables where
  "wit_db = \<lparr>tb_accounts = [wit_account_row (replicate 32 3) (pk 1) [0, 7, 8, 1, 2]], tb_snapshot_accounts = []\<rparr>"

lemma wit_single: "wit_pick [r] = r"
  by (simp add: wit_pick_def)

lemma wit_gpa: "gpa_rows wit_pick wit_request wit_db = Inr [wit_account_row (replicate 32 3) (pk 1) [0, 7, 8, 1, 2]]"
  by (simp add: gpa_rows_def statement_ok_def wit_request_def wit_built_def pg_substring_def param_value_def
      select_program_accounts_def distinct_on_pubkey_def row_keys_def program_rows_def wit_db_def wit_account_row_def
      sql_matches_def wit_single)

lemma gpa_rows_exact_witness:
  "Some (wit_account_row (replicate 32 3) (pk 1) [0, 7, 8, 1, 2]) \<in> get_program_account (to_bytes (pk 1)) (replicate 32 3) 10 wit_db"
proof -
  let ?row = "wit_account_row (replicate 32 3) (pk 1) [0, 7, 8, 1, 2]"
  have "newest_passes (pk 1) 10 wit_built (replicate 32 3) wit_db"
    by (simp add: newest_passes_def versions_def wit_db_def wit_account_row_def sql_matches_def wit_built_def pg_substring_def
        param_value_def)
  then show ?thesis
    using gpa_rows_exact [OF wit_pick_newest wit_gpa] by (simp add: wit_request_def wit_account_row_def)
qed

lemma filtered_gpa_serves_closed_witness:
  "let old = wit_account_row (replicate 32 3) (pk 1) [0, 7, 8, 1, 2];
       db = \<lparr>tb_accounts = [old, mask_row 9 (dr_pubkey old, to_bytes (pk 1))], tb_snapshot_accounts = []\<rparr>
   in select_program_accounts wit_pick (pk 1) 10 wit_built db = [old] \<and> get_account_info (replicate 32 3) 10 db = {None}"
  using filtered_gpa_serves_closed [OF wit_pick_newest, of "wit_account_row (replicate 32 3) (pk 1) [0, 7, 8, 1, 2]" "pk 1"
      wit_built 9 10, OF _ _ _ _ _ _ refl]
  by (simp add: wit_account_row_def sql_matches_def wit_built_def pg_substring_def param_value_def)

definition wit_state :: rpc_state where
  "wit_state = \<lparr>rs_slots = Some \<lparr>ss_confirmed_slot = \<lparr>sd_slot = 10, sd_block_time = 7\<rparr>,
       ss_finalized_slot = \<lparr>sd_slot = 9, sd_block_time = 6\<rparr>, ss_healthy = True\<rparr>,
     rs_slot_rows = (\<lambda>_. Inr None), rs_indexer_filter = \<lparr>sel_include = [], sel_exclude = []\<rparr>,
     rs_processed_commitment = Reject, rs_http_unavailable = False, rs_processed = None, rs_max_multiple_accounts = 100\<rparr>"

definition wit_token_data :: "u8 list" where
  "wit_token_data = replicate 32 9 @ replicate 32 5 @ replicate 101 1"

definition wit_token_sf :: sql_filters where
  "wit_token_sf = \<lparr>sf_preds = [Token_Owner_Is 1, Account_State], sf_params = [replicate 32 5], sf_label = ''gtabo''\<rparr>"

definition wit_token_request :: gpa_request where
  "wit_token_request = \<lparr>gr_program = TOKEN_PROGRAM_ID, gr_latest_slot = 9, gr_block_time = 6, gr_context_slot = Some 9,
     gr_filters = wit_token_sf\<rparr>"

definition wit_token_row :: db_row where
  "wit_token_row = wit_account_row (replicate 32 3) TOKEN_PROGRAM_ID wit_token_data"

lemma wit_token_build:
  "build wit_verify (\<lambda>_. []) TOKEN_PROGRAM_ID [raw_memcmp TOKEN_ACCOUNT_OWNER_OFFSET (replicate 32 5), TokenAccountState] ''gtabo''
     = Inr wit_token_sf"
  by (simp add: build_def wit_verify_def raw_memcmp_def build_label_def is_token_program_def is_valid_token_query_def
      memcmp_key_def token_offsets add_delegate_tag_def has_memcmp_def filter_sql_def wit_token_sf_def)

lemma wit_token_request:
  "get_token_accounts_by_owner wit_verify (\<lambda>_. []) codec fetch base58 wit_state (Inr (pk 5)) (By_Program TOKEN_PROGRAM_ID) None
     = Inr wit_token_request"
  using wit_token_build
  by (simp add: get_token_accounts_by_owner_def parse_key_def token_program_filter_def is_token_program_def
      get_program_accounts_def wit_state_def is_program_selected_def default_account_config_def resolve_or_finalized_def
      latest_slot_and_block_time_def get_slot_for_commitment_def get_block_time_for_commitment_def check_min_context_slot_def
      filters_of_def wit_token_request_def)

lemma wit_token_matches: "eval_preds (sf_params wit_token_sf) data (sf_preds wit_token_sf) =
    Some (token_owner data = replicate 32 5 \<and> valid_account_data data)"
  using account_state_eval [of "sf_params wit_token_sf" data]
  by (simp add: wit_token_sf_def param_value_def del: eval_pred.simps(6))

lemma wit_token_rows: "gpa_rows wit_pick wit_token_request \<lparr>tb_accounts = [wit_token_row], tb_snapshot_accounts = []\<rparr> = Inr [wit_token_row]"
proof -
  have "sql_matches wit_token_sf (dr_data wit_token_row)"
    by (simp add: sql_matches_def wit_token_matches wit_token_row_def wit_account_row_def wit_token_data_def token_owner_def
        valid_account_data_def nth_append)
  moreover have "dr_owner wit_token_row = to_bytes TOKEN_PROGRAM_ID" "dr_slot wit_token_row = 8" "dr_lamports wit_token_row = 5"
    by (simp_all add: wit_token_row_def wit_account_row_def)
  ultimately show ?thesis
    by (simp add: gpa_rows_def statement_ok_def wit_token_matches wit_token_request_def select_program_accounts_def
        distinct_on_pubkey_def row_keys_def program_rows_def wit_single)
qed


end
