(* ===== verification/Gpa_Cache.thy ===== *)
theory Gpa_Cache
  imports Gpa_Query "HOL-Library.Multiset"
begin

text \<open>
  The cache of \<open>getProgramAccounts\<close> responses (\<open>crates/api/src/modules/cache/mod.rs\<close>): its map of queries, the
  index by slot, the byte counters, the insertion by \<open>FinalizeJob::run\<close>, and the eviction. A cached account
  is its JSON text as bytes. The cap on pinned bytes is computed in floating point from the configuration;
  it is a value here.
\<close>

section \<open>Queries\<close>

record cached_query =
  cq_accounts :: "(pubkey, u8 list) fmap"
  cq_slot :: u64
  cq_size :: u64
  cq_cache_hits :: u64

record normalized_query =
  nq_program :: pubkey
  nq_filters :: "rpc_filter_type list"
  nq_encoding :: ui_encoding
  nq_data_slice :: "data_slice option"
  nq_commitment :: commitment_level

text \<open>\<open>sort_by_cached_key\<close>; the arm of \<open>ValueCmp\<close> is \<open>unreachable!\<close>.\<close>

fun filter_sort_key :: "rpc_filter_type \<Rightarrow> nat \<times> u64 \<times> u8 list" where
  "filter_sort_key (DataSize n) = (0, n, [])"
| "filter_sort_key (Memcmp m) = (1, mc_offset m, (case mc_bytes m of None \<Rightarrow> [] | Some b \<Rightarrow> b))"
| "filter_sort_key TokenAccountState = (2, 0, [])"
| "filter_sort_key (ValueCmp _) = (3, 0, [])"

definition normalize :: "pubkey \<Rightarrow> rpc_filter_type list \<Rightarrow> ui_encoding \<Rightarrow> data_slice option \<Rightarrow> commitment_level
    \<Rightarrow> normalized_query option" where
  "normalize program filters encoding dslice level =
     (if has_value_cmp filters then None
      else Some \<lparr>nq_program = program, nq_filters = sort_key filter_sort_key filters, nq_encoding = encoding,
                 nq_data_slice = dslice, nq_commitment = level\<rparr>)"

section \<open>The cache\<close>

record cache_config =
  cc_max_total_bytes :: u64
  cc_min_bytes_per_query :: u64
  cc_max_bytes_query_cleanup :: "u64 option"
  cc_pinned_cap :: "u64 option"

record gpa_cache =
  gc_queries :: "(normalized_query, cached_query) fmap"
  gc_queries_for_slot :: "(u64, normalized_query list) fmap"
  gc_config :: cache_config
  gc_size :: u64
  gc_pinned_size :: u64

definition new_gpa_cache :: "cache_config \<Rightarrow> gpa_cache" where
  "new_gpa_cache config =
     \<lparr>gc_queries = fmempty, gc_queries_for_slot = fmempty, gc_config = config, gc_size = 0, gc_pinned_size = 0\<rparr>"

definition is_pinned_size :: "cache_config \<Rightarrow> u64 \<Rightarrow> bool" where
  "is_pinned_size config sz = (case cc_max_bytes_query_cleanup config of None \<Rightarrow> False | Some m \<Rightarrow> m < sz)"

definition pinned_threshold :: "cache_config \<Rightarrow> u64" where
  "pinned_threshold config = (case cc_pinned_cap config of None \<Rightarrow> - 1 | Some c \<Rightarrow> c)"

definition get_cached_query :: "pubkey \<Rightarrow> program_accounts_config \<Rightarrow> gpa_cache
    \<Rightarrow> (normalized_query \<times> cached_query option) option" where
  "get_cached_query program config cache =
     (let account_config = pc_account_config config
      in map_option (\<lambda>q. (q, fmlookup (gc_queries cache) q))
           (normalize program (filters_of config)
              (case ai_encoding account_config of None \<Rightarrow> Enc_Binary | Some e \<Rightarrow> e)
              (ai_data_slice account_config)
              (case ai_commitment account_config of None \<Rightarrow> Level_Finalized | Some l \<Rightarrow> l)))"

text \<open>Dropping a query from the bucket of a slot, with the slot when the bucket empties.\<close>

definition unindex_query :: "normalized_query \<Rightarrow> u64 \<Rightarrow> (u64, normalized_query list) fmap \<Rightarrow> (u64, normalized_query list) fmap" where
  "unindex_query q slot index = (case fmlookup index slot of
     None \<Rightarrow> index
   | Some bucket \<Rightarrow>
       (let bucket = filter (\<lambda>p. p \<noteq> q) bucket
        in if bucket = [] then fmdrop slot index else fmupd slot bucket index))"

definition insert_query_for_slot :: "normalized_query \<Rightarrow> u64 \<Rightarrow> u64 option \<Rightarrow> gpa_cache \<Rightarrow> gpa_cache" where
  "insert_query_for_slot q slot older_slot cache =
     (let index = (case older_slot of None \<Rightarrow> gc_queries_for_slot cache
            | Some prev \<Rightarrow> unindex_query q prev (gc_queries_for_slot cache));
          bucket = (case fmlookup index slot of None \<Rightarrow> [] | Some b \<Rightarrow> b)
      in cache \<lparr>gc_queries_for_slot := fmupd slot (bucket @ [q]) index\<rparr>)"

definition remove_query :: "normalized_query \<Rightarrow> gpa_cache \<Rightarrow> gpa_cache" where
  "remove_query q cache = (case fmlookup (gc_queries cache) q of
     None \<Rightarrow> cache
   | Some removed \<Rightarrow>
       cache \<lparr>gc_queries := fmdrop q (gc_queries cache),
              gc_size := saturating_sub (gc_size cache) (cq_size removed),
              gc_pinned_size := (if is_pinned_size (gc_config cache) (cq_size removed)
                then saturating_sub (gc_pinned_size cache) (cq_size removed) else gc_pinned_size cache),
              gc_queries_for_slot := unindex_query q (cq_slot removed) (gc_queries_for_slot cache)\<rparr>)"

subsection \<open>Eviction\<close>

text \<open>What the closures of \<open>cleanup_old_queries\<close> borrow.\<close>

record evicting =
  ev_queries :: "(normalized_query, cached_query) fmap"
  ev_size :: u64
  ev_pinned_size :: u64
  ev_bytes_freed :: u64
  ev_evicted :: "cached_query list"

definition need_size :: "u64 \<Rightarrow> evicting \<Rightarrow> bool" where
  "need_size bytes_to_free ev \<longleftrightarrow> ev_bytes_freed ev < bytes_to_free"

definition need_pinned :: "cache_config \<Rightarrow> evicting \<Rightarrow> bool" where
  "need_pinned config ev \<longleftrightarrow> pinned_threshold config < ev_pinned_size ev"

definition entry_pinned :: "cache_config \<Rightarrow> evicting \<Rightarrow> normalized_query \<Rightarrow> bool" where
  "entry_pinned config ev q =
     (case fmlookup (ev_queries ev) q of None \<Rightarrow> False | Some c \<Rightarrow> is_pinned_size config (cq_size c))"

text \<open>The closure on one query: whether it stays, and the state after it.\<close>

definition keeps :: "cache_config \<Rightarrow> u64 \<Rightarrow> normalized_query \<Rightarrow> evicting \<Rightarrow> bool" where
  "keeps config bytes_to_free q ev \<longleftrightarrow>
     (\<not> need_size bytes_to_free ev \<and> \<not> need_pinned config ev) \<or>
     (if entry_pinned config ev q then \<not> need_pinned config ev else \<not> need_size bytes_to_free ev)"

definition evict_query :: "cache_config \<Rightarrow> normalized_query \<Rightarrow> evicting \<Rightarrow> evicting" where
  "evict_query config q ev = (case fmlookup (ev_queries ev) q of
     None \<Rightarrow> ev
   | Some cached \<Rightarrow>
       ev \<lparr>ev_queries := fmdrop q (ev_queries ev),
           ev_size := saturating_sub (ev_size ev) (cq_size cached),
           ev_pinned_size := (if entry_pinned config ev q
             then saturating_sub (ev_pinned_size ev) (cq_size cached) else ev_pinned_size ev),
           ev_bytes_freed := saturating_add (ev_bytes_freed ev) (cq_size cached),
           ev_evicted := ev_evicted ev @ [cached]\<rparr>)"

fun retain_bucket :: "cache_config \<Rightarrow> u64 \<Rightarrow> normalized_query list \<Rightarrow> evicting \<Rightarrow> normalized_query list \<times> evicting" where
  "retain_bucket config bytes_to_free [] ev = ([], ev)"
| "retain_bucket config bytes_to_free (q # qs) ev =
     (if keeps config bytes_to_free q ev
      then (let (kept, ev) = retain_bucket config bytes_to_free qs ev in (q # kept, ev))
      else retain_bucket config bytes_to_free qs (evict_query config q ev))"

fun retain_slots :: "cache_config \<Rightarrow> u64 \<Rightarrow> (u64 \<times> normalized_query list) list \<Rightarrow> evicting
    \<Rightarrow> (u64 \<times> normalized_query list) list \<times> evicting" where
  "retain_slots config bytes_to_free [] ev = ([], ev)"
| "retain_slots config bytes_to_free ((slot, bucket) # slots) ev =
     (if \<not> need_size bytes_to_free ev \<and> \<not> need_pinned config ev
      then (let (kept, ev) = retain_slots config bytes_to_free slots ev in ((slot, bucket) # kept, ev))
      else (let (bucket, ev) = retain_bucket config bytes_to_free bucket ev;
                (kept, ev) = retain_slots config bytes_to_free slots ev
            in (if bucket = [] then kept else (slot, bucket) # kept, ev)))"

definition cleanup_old_queries :: "u64 \<Rightarrow> cached_query list \<Rightarrow> gpa_cache \<Rightarrow> gpa_cache \<times> cached_query list \<times> u64 option" where
  "cleanup_old_queries bytes_to_free evicted cache =
     (let config = gc_config cache
      in if cc_max_total_bytes config < gc_size cache then (cache, evicted, None)
         else
           let available_bytes = cc_max_total_bytes config - gc_size cache;
               size_cleanup_needed = available_bytes < bytes_to_free;
               bytes_to_free = saturating_sub bytes_to_free available_bytes;
               pinned_cleanup_needed = pinned_threshold config < gc_pinned_size cache
           in if \<not> size_cleanup_needed \<and> \<not> pinned_cleanup_needed then (cache, evicted, None)
              else
                let (slots, ev) = retain_slots config bytes_to_free (fm_entries (gc_queries_for_slot cache))
                      \<lparr>ev_queries = gc_queries cache, ev_size = gc_size cache, ev_pinned_size = gc_pinned_size cache,
                       ev_bytes_freed = 0, ev_evicted = evicted\<rparr>
                in (cache \<lparr>gc_queries := ev_queries ev, gc_size := ev_size ev, gc_pinned_size := ev_pinned_size ev,
                           gc_queries_for_slot := fmap_of_list slots\<rparr>,
                    ev_evicted ev, Some (ev_bytes_freed ev + available_bytes)))"

subsection \<open>Insertion\<close>

record finalize_job =
  fj_normalized_query :: normalized_query
  fj_accounts :: "(pubkey \<times> u8 list) list"
  fj_query_bytes :: u64
  fj_slot :: u64
  fj_cache_hits :: u64
  fj_previous_query :: "cached_query option"

datatype finalize_outcome = Installed | Stale_Slot | Cleanup_Failed

definition new_entry :: "finalize_job \<Rightarrow> cached_query" where
  "new_entry job = \<lparr>cq_accounts = fmap_of_list (rev (fj_accounts job)), cq_slot = fj_slot job,
     cq_size = fj_query_bytes job, cq_cache_hits = fj_cache_hits job\<rparr>"

text \<open>The critical section of \<open>FinalizeJob::run\<close>. What it returns besides the cache and the outcome is the list
  of entries it drops after the lock.\<close>

definition install :: "finalize_job \<Rightarrow> gpa_cache \<Rightarrow> gpa_cache" where
  "install job cache =
     (let q = fj_normalized_query job; bytes = fj_query_bytes job; config = gc_config cache;
          older = fmlookup (gc_queries cache) q;
          cache = cache \<lparr>gc_queries := fmupd q (new_entry job) (gc_queries cache), gc_size := gc_size cache + bytes\<rparr>;
          cache = (case older of None \<Rightarrow> cache
            | Some old \<Rightarrow> cache \<lparr>gc_size := saturating_sub (gc_size cache) (cq_size old)\<rparr>);
          cache = (if is_pinned_size config bytes then cache \<lparr>gc_pinned_size := gc_pinned_size cache + bytes\<rparr> else cache);
          cache = (case older of None \<Rightarrow> cache
            | Some old \<Rightarrow> if is_pinned_size config (cq_size old)
                then cache \<lparr>gc_pinned_size := saturating_sub (gc_pinned_size cache) (cq_size old)\<rparr> else cache)
      in insert_query_for_slot q (fj_slot job) (map_option cq_slot older) cache)"

definition finalize_run :: "finalize_job \<Rightarrow> gpa_cache \<Rightarrow> gpa_cache \<times> finalize_outcome \<times> cached_query list" where
  "finalize_run job cache =
     (let replaced = (case fj_previous_query job of None \<Rightarrow> [] | Some p \<Rightarrow> [p])
      in if (case fmlookup (gc_queries cache) (fj_normalized_query job) of
               None \<Rightarrow> False | Some current \<Rightarrow> fj_slot job \<le> cq_slot current)
         then (cache, Stale_Slot, replaced)
         else
           let (cache, replaced, freed) = cleanup_old_queries (fj_query_bytes job) replaced cache
           in if (case freed of None \<Rightarrow> False | Some n \<Rightarrow> n < fj_query_bytes job)
              then (cache, Cleanup_Failed, replaced)
              else (install job cache, Installed,
                    replaced @ (case fmlookup (gc_queries cache) (fj_normalized_query job) of None \<Rightarrow> [] | Some old \<Rightarrow> [old])))"

section \<open>The counters and the index\<close>

definition total_bytes :: "(normalized_query, cached_query) fmap \<Rightarrow> nat" where
  "total_bytes queries = fm_sum (\<lambda>_ c. unat (cq_size c)) queries"

definition pinned_bytes :: "cache_config \<Rightarrow> (normalized_query, cached_query) fmap \<Rightarrow> nat" where
  "pinned_bytes config queries = fm_sum (\<lambda>_ c. if is_pinned_size config (cq_size c) then unat (cq_size c) else 0) queries"

definition bucket_of :: "(u64, normalized_query list) fmap \<Rightarrow> u64 \<Rightarrow> normalized_query list" where
  "bucket_of index slot = (case fmlookup index slot of None \<Rightarrow> [] | Some b \<Rightarrow> b)"

definition in_slot :: "(normalized_query, cached_query) fmap \<Rightarrow> u64 \<Rightarrow> normalized_query set" where
  "in_slot queries slot = {q. \<exists>c. fmlookup queries q = Some c \<and> cq_slot c = slot}"

definition cache_indexed :: "(normalized_query, cached_query) fmap \<Rightarrow> (u64, normalized_query list) fmap \<Rightarrow> bool" where
  "cache_indexed queries index \<longleftrightarrow>
     (\<forall>slot. distinct (bucket_of index slot) \<and> set (bucket_of index slot) = in_slot queries slot \<and> fmlookup index slot \<noteq> Some [])"

definition gpa_cache_inv :: "gpa_cache \<Rightarrow> bool" where
  "gpa_cache_inv cache \<longleftrightarrow>
     unat (gc_size cache) = total_bytes (gc_queries cache) \<and>
     unat (gc_pinned_size cache) = pinned_bytes (gc_config cache) (gc_queries cache) \<and>
     cache_indexed (gc_queries cache) (gc_queries_for_slot cache) \<and>
     gc_size cache \<le> cc_max_total_bytes (gc_config cache)"

lemma total_bytes_split:
  "fmlookup queries q = Some c \<Longrightarrow> total_bytes queries = unat (cq_size c) + total_bytes (fmdrop q queries)"
  unfolding total_bytes_def by (rule fm_sum_split)

lemma pinned_bytes_split:
  "fmlookup queries q = Some c \<Longrightarrow> pinned_bytes config queries =
     (if is_pinned_size config (cq_size c) then unat (cq_size c) else 0) + pinned_bytes config (fmdrop q queries)"
  unfolding pinned_bytes_def by (rule fm_sum_split)

lemma pinned_le_total: "pinned_bytes config queries \<le> total_bytes queries"
  unfolding pinned_bytes_def total_bytes_def fm_sum_def by (rule sum_mono) auto

lemma bucket_of_unindex:
  "bucket_of (unindex_query q slot index) t = (if t = slot then filter (\<lambda>p. p \<noteq> q) (bucket_of index t) else bucket_of index t)"
  by (auto simp: bucket_of_def unindex_query_def Let_def split: option.splits)

lemma unindex_no_empty:
  "fmlookup index t \<noteq> Some [] \<Longrightarrow> fmlookup (unindex_query q slot index) t \<noteq> Some []"
  by (auto simp: unindex_query_def Let_def split: option.splits if_splits)

lemma in_slot_drop: "in_slot (fmdrop q queries) slot = in_slot queries slot - {q}"
  by (auto simp: in_slot_def split: if_splits)

lemma in_slot_upd: "in_slot (fmupd q c queries) slot = (if cq_slot c = slot then insert q (in_slot queries slot) else in_slot queries slot - {q})"
  by (auto simp: in_slot_def split: if_splits)

lemma cache_indexed_remove:
  assumes "cache_indexed queries index" and "fmlookup queries q = Some c"
  shows "cache_indexed (fmdrop q queries) (unindex_query q (cq_slot c) index)"
proof -
  have "q \<notin> in_slot queries slot" if "slot \<noteq> cq_slot c" for slot using that assms(2) by (simp add: in_slot_def)
  then show ?thesis
    using assms(1) by (auto simp: cache_indexed_def bucket_of_unindex in_slot_drop unindex_no_empty)
qed

lemma fmlookup_bucket_nonempty: "bucket_of index slot \<noteq> [] \<Longrightarrow> fmlookup index slot = Some (bucket_of index slot)"
  by (auto simp: bucket_of_def split: option.splits)

lemma cache_indexed_add:
  assumes "cache_indexed queries index" and "fmlookup queries q = None"
  shows "cache_indexed (fmupd q c queries) (fmupd (cq_slot c) (bucket_of index (cq_slot c) @ [q]) index)"
proof -
  have "q \<notin> in_slot queries slot" for slot using assms(2) by (simp add: in_slot_def)
  then show ?thesis
    using assms(1) by (auto simp: cache_indexed_def in_slot_upd bucket_of_def split: if_splits)
qed

lemma remove_query_inv:
  assumes "gpa_cache_inv cache"
  shows "gpa_cache_inv (remove_query q cache)"
proof (cases "fmlookup (gc_queries cache) q")
  case (Some c)
  note split = total_bytes_split [OF Some] pinned_bytes_split [OF Some, of "gc_config cache"]
  have "gc_size cache \<le> cc_max_total_bytes (gc_config cache)" using assms by (simp add: gpa_cache_inv_def)
  then have "saturating_sub (gc_size cache) (cq_size c) \<le> cc_max_total_bytes (gc_config cache)"
    using saturating_sub_le order_trans by blast
  then show ?thesis
    using assms Some split cache_indexed_remove [OF _ Some]
    by (auto simp: gpa_cache_inv_def remove_query_def unat_saturating_sub)
qed (use assms in \<open>simp add: remove_query_def\<close>)

section \<open>Eviction, oldest first\<close>

definition counted :: "cache_config \<Rightarrow> evicting \<Rightarrow> bool" where
  "counted config ev \<longleftrightarrow> unat (ev_size ev) = total_bytes (ev_queries ev) \<and>
     unat (ev_pinned_size ev) = pinned_bytes config (ev_queries ev) \<and>
     unat (ev_bytes_freed ev) + unat (ev_size ev) < 2 ^ 64"

lemma unat_saturating_add: "unat (a :: u64) + unat b < 2 ^ 64 \<Longrightarrow> unat (saturating_add a b) = unat a + unat b"
  by (auto simp: saturating_add_def word_le_nat_alt unat_word_ariths)

lemma evict_query_spec:
  assumes "counted config ev" and "fmlookup (ev_queries ev) q = Some c"
  shows "counted config (evict_query config q ev)"
    and "ev_queries (evict_query config q ev) = fmdrop q (ev_queries ev)"
    and "unat (ev_bytes_freed (evict_query config q ev)) = unat (ev_bytes_freed ev) + unat (cq_size c)"
    and "unat (ev_bytes_freed (evict_query config q ev)) + unat (ev_size (evict_query config q ev)) =
      unat (ev_bytes_freed ev) + unat (ev_size ev)"
proof -
  note split = total_bytes_split [OF assms(2)] pinned_bytes_split [OF assms(2), of config]
  have fits: "unat (ev_bytes_freed ev) + unat (cq_size c) < 2 ^ 64"
    using assms(1) split by (simp add: counted_def)
  show freed: "unat (ev_bytes_freed (evict_query config q ev)) = unat (ev_bytes_freed ev) + unat (cq_size c)"
    using assms(2) unat_saturating_add [OF fits] by (simp add: evict_query_def)
  show "ev_queries (evict_query config q ev) = fmdrop q (ev_queries ev)"
    using assms(2) by (simp add: evict_query_def)
  show sum: "unat (ev_bytes_freed (evict_query config q ev)) + unat (ev_size (evict_query config q ev)) =
      unat (ev_bytes_freed ev) + unat (ev_size ev)"
    using assms split freed by (simp add: evict_query_def counted_def unat_saturating_sub)
  show "counted config (evict_query config q ev)"
    unfolding counted_def sum
    using assms split by (auto simp: counted_def evict_query_def entry_pinned_def unat_saturating_sub)
qed

definition was_pinned :: "cache_config \<Rightarrow> (normalized_query, cached_query) fmap \<Rightarrow> normalized_query \<Rightarrow> bool" where
  "was_pinned config queries q \<longleftrightarrow> (case fmlookup queries q of None \<Rightarrow> False | Some c \<Rightarrow> is_pinned_size config (cq_size c))"

lemma keeps_evicts:
  "\<not> keeps config n q ev \<Longrightarrow> \<not> was_pinned config (ev_queries ev) q \<Longrightarrow> need_size n ev"
  "keeps config n q ev \<Longrightarrow> \<not> was_pinned config (ev_queries ev) q \<Longrightarrow> \<not> need_size n ev"
  by (auto simp: keeps_def was_pinned_def entry_pinned_def split: if_splits option.splits)

text \<open>What a pass over a list of queries does: it drops some, keeps the counters, and, since the bytes freed
  only grow, keeps no evictable query while size is still needed and drops none once it is not.\<close>

definition retained :: "cache_config \<Rightarrow> u64 \<Rightarrow> normalized_query list \<Rightarrow> evicting \<Rightarrow> normalized_query list \<Rightarrow> evicting \<Rightarrow> bool" where
  "retained config n qs ev kept ev' \<longleftrightarrow>
     counted config ev' \<and> kept = filter (\<lambda>q. fmlookup (ev_queries ev') q \<noteq> None) qs
     \<and> (\<forall>q. fmlookup (ev_queries ev') q = (if q \<in> set qs \<and> q \<notin> set kept then None else fmlookup (ev_queries ev) q))
     \<and> unat (ev_bytes_freed ev') + unat (ev_size ev') = unat (ev_bytes_freed ev) + unat (ev_size ev)
     \<and> ev_bytes_freed ev \<le> ev_bytes_freed ev'
     \<and> (need_size n ev' \<longrightarrow> (\<forall>q \<in> set kept. was_pinned config (ev_queries ev) q))
     \<and> (\<not> need_size n ev \<longrightarrow> (\<forall>q \<in> set qs - set kept. was_pinned config (ev_queries ev) q))"

lemma retained_lookup:
  assumes "retained config n qs ev kept ev'"
  shows "fmlookup (ev_queries ev') q = (if q \<in> set qs \<and> q \<notin> set kept then None else fmlookup (ev_queries ev) q)"
  using assms unfolding retained_def by blast

lemma retained_kept:
  "retained config n qs ev kept ev' \<Longrightarrow> kept = filter (\<lambda>q. fmlookup (ev_queries ev') q \<noteq> None) qs"
  unfolding retained_def by blast

lemma retained_counted: "retained config n qs ev kept ev' \<Longrightarrow> counted config ev'"
  unfolding retained_def by blast

lemma retained_bytes:
  assumes "retained config n qs ev kept ev'"
  shows "unat (ev_bytes_freed ev') + unat (ev_size ev') = unat (ev_bytes_freed ev) + unat (ev_size ev)"
    and "ev_bytes_freed ev \<le> ev_bytes_freed ev'"
  using assms unfolding retained_def by blast+

lemma retained_pinned:
  assumes "retained config n qs ev kept ev'"
  shows "need_size n ev' \<Longrightarrow> q \<in> set kept \<Longrightarrow> was_pinned config (ev_queries ev) q"
    and "\<not> need_size n ev \<Longrightarrow> q \<in> set qs \<Longrightarrow> q \<notin> set kept \<Longrightarrow> was_pinned config (ev_queries ev) q"
  using assms unfolding retained_def by blast+

lemma need_size_antimono: "ev_bytes_freed ev \<le> ev_bytes_freed ev' \<Longrightarrow> need_size n ev' \<Longrightarrow> need_size n ev"
  by (auto simp: need_size_def)

lemma retained_keep:
  assumes "keeps config n p ev" and "retained config n qs ev kept ev'" and "p \<notin> set qs"
    and "fmlookup (ev_queries ev) p \<noteq> None"
  shows "retained config n (p # qs) ev (p # kept) ev'"
proof -
  have look: "fmlookup (ev_queries ev') q = (if q \<in> set qs \<and> q \<notin> set kept then None else fmlookup (ev_queries ev) q)" for q
    using assms(2) unfolding retained_def by blast
  have "need_size n ev' \<longrightarrow> was_pinned config (ev_queries ev) p"
    using keeps_evicts(2) [OF assms(1)] assms(2) need_size_antimono unfolding retained_def by blast
  moreover have "p # kept = filter (\<lambda>q. fmlookup (ev_queries ev') q \<noteq> None) (p # qs)"
  proof -
    have "fmlookup (ev_queries ev') p \<noteq> None" using look [of p] assms(3,4) by presburger
    moreover have "kept = filter (\<lambda>q. fmlookup (ev_queries ev') q \<noteq> None) qs" using assms(2) unfolding retained_def by blast
    ultimately show ?thesis by (metis (mono_tags, lifting) filter.simps(2))
  qed
  moreover have "fmlookup (ev_queries ev') q =
      (if q \<in> set (p # qs) \<and> q \<notin> set (p # kept) then None else fmlookup (ev_queries ev) q)" for q
    using look [of q] assms(3) by (cases "q = p") simp_all
  moreover have "need_size n ev' \<longrightarrow> (\<forall>q \<in> set (p # kept). was_pinned config (ev_queries ev) q)"
    using calculation(1) assms(2) unfolding retained_def by (metis set_ConsD)
  moreover have "\<not> need_size n ev \<longrightarrow> (\<forall>q \<in> set (p # qs) - set (p # kept). was_pinned config (ev_queries ev) q)"
    using assms(2) unfolding retained_def by (metis DiffE DiffI list.set_intros(1,2) set_ConsD)
  ultimately show ?thesis using assms(2) unfolding retained_def by blast
qed

lemma retained_evict:
  assumes "\<not> keeps config n p ev" and "counted config ev" and "fmlookup (ev_queries ev) p = Some c"
    and "retained config n qs (evict_query config p ev) kept ev'" and "p \<notin> set qs"
  shows "retained config n (p # qs) ev kept ev'"
proof -
  let ?ev = "evict_query config p ev"
  note ev = evict_query_spec [OF assms(2,3)]
  have look: "fmlookup (ev_queries ev') q = (if q \<in> set qs \<and> q \<notin> set kept then None else fmlookup (ev_queries ?ev) q)" for q
    using assms(4) unfolding retained_def by blast
  have kept: "kept = filter (\<lambda>q. fmlookup (ev_queries ev') q \<noteq> None) qs"
    using assms(4) unfolding retained_def by blast
  have sub: "set kept \<subseteq> set qs" by (subst kept) auto
  have gone: "fmlookup (ev_queries ev') p = None" using look [of p] ev(2) by simp
  have same: "was_pinned config (ev_queries ?ev) q = was_pinned config (ev_queries ev) q" if "q \<noteq> p" for q
    using that ev(2) by (simp add: was_pinned_def)
  have freed: "ev_bytes_freed ev \<le> ev_bytes_freed ?ev" using ev(3) by (simp add: word_le_nat_alt)
  have "kept = filter (\<lambda>q. fmlookup (ev_queries ev') q \<noteq> None) (p # qs)"
    unfolding filter.simps using gone kept by (metis (mono_tags, lifting))
  moreover have "fmlookup (ev_queries ev') q =
      (if q \<in> set (p # qs) \<and> q \<notin> set kept then None else fmlookup (ev_queries ev) q)" for q
    using look [of q] gone assms(5) sub ev(2) by (cases "q = p") auto
  moreover have "need_size n ev' \<longrightarrow> (\<forall>q \<in> set kept. was_pinned config (ev_queries ev) q)"
  proof (intro impI ballI)
    fix q
    assume "need_size n ev'" and q: "q \<in> set kept"
    then have "was_pinned config (ev_queries ?ev) q" using assms(4) unfolding retained_def by blast
    moreover have "q \<noteq> p" using q sub assms(5) by blast
    ultimately show "was_pinned config (ev_queries ev) q" using same by blast
  qed
  moreover have "was_pinned config (ev_queries ev) q" if "\<not> need_size n ev" "q \<in> set (p # qs) - set kept" for q
  proof (cases "q = p")
    case True
    then show ?thesis using that keeps_evicts(1) [OF assms(1)] by blast
  next
    case False
    then have "q \<in> set qs - set kept" using that by simp
    then show ?thesis using that need_size_antimono [OF freed] assms(4) same [OF False] unfolding retained_def by blast
  qed
  moreover have "ev_bytes_freed ?ev \<le> ev_bytes_freed ev'" using assms(4) unfolding retained_def by blast
  then have "ev_bytes_freed ev \<le> ev_bytes_freed ev'" by (rule order_trans [OF freed])
  moreover have "unat (ev_bytes_freed ev') + unat (ev_size ev') = unat (ev_bytes_freed ?ev) + unat (ev_size ?ev)"
    using assms(4) unfolding retained_def by blast
  then have "unat (ev_bytes_freed ev') + unat (ev_size ev') = unat (ev_bytes_freed ev) + unat (ev_size ev)"
    by (simp only: ev(4))
  ultimately show ?thesis using assms(4) unfolding retained_def by blast
qed

lemma retain_bucket_retained:
  assumes "retain_bucket config n qs ev = (kept, ev')" and "distinct qs" and "counted config ev"
    and "\<forall>q \<in> set qs. fmlookup (ev_queries ev) q \<noteq> None"
  shows "retained config n qs ev kept ev'"
  using assms
proof (induction qs arbitrary: ev kept)
  case (Cons p qs)
  have p: "p \<notin> set qs" "distinct qs" using Cons.prems(2) by simp_all
  obtain c where c: "fmlookup (ev_queries ev) p = Some c" using Cons.prems(4) by fastforce
  show ?case
  proof (cases "keeps config n p ev")
    case True
    then obtain kept1 where k: "retain_bucket config n qs ev = (kept1, ev')" "kept = p # kept1"
      using Cons.prems(1) by (auto split: prod.splits)
    show ?thesis unfolding k(2)
      by (rule retained_keep [OF True Cons.IH [OF k(1) p(2) Cons.prems(3)] p(1)]) (use Cons.prems(4) in simp_all)
  next
    case False
    then have k: "retain_bucket config n qs (evict_query config p ev) = (kept, ev')" using Cons.prems(1) by simp
    have "\<forall>q \<in> set qs. fmlookup (ev_queries (evict_query config p ev)) q \<noteq> None"
      using Cons.prems(4) p(1) evict_query_spec(2) [OF Cons.prems(3) c] by auto
    then show ?thesis
      using retained_evict [OF False Cons.prems(3) c] Cons.IH [OF k p(2) evict_query_spec(1) [OF Cons.prems(3) c]] p(1) by blast
  qed
qed (auto simp: retained_def)

text \<open>Going through the slots is one pass over their queries in ascending slot order.\<close>

lemma retain_bucket_append:
  "retain_bucket config n (xs @ ys) ev =
     (let (k1, ev1) = retain_bucket config n xs ev; (k2, ev2) = retain_bucket config n ys ev1 in (k1 @ k2, ev2))"
  by (induction xs arbitrary: ev) (auto split: prod.split)

lemma retain_bucket_done:
  "\<not> need_size n ev \<Longrightarrow> \<not> need_pinned config ev \<Longrightarrow> retain_bucket config n qs ev = (qs, ev)"
  by (induction qs) (auto simp: keeps_def)

lemma retain_slots_flat:
  assumes "retain_slots config n slots ev = (kept, ev')"
  shows "retain_bucket config n (concat (map snd slots)) ev = (concat (map snd kept), ev')"
  using assms
proof (induction slots arbitrary: ev kept)
  case (Cons sb slots)
  obtain slot bucket where sb: "sb = (slot, bucket)" by fastforce
  show ?case
  proof (cases "\<not> need_size n ev \<and> \<not> need_pinned config ev")
    case True
    then obtain kept1 where "retain_slots config n slots ev = (kept1, ev')" "kept = (slot, bucket) # kept1"
      using Cons.prems sb by (auto split: prod.splits)
    then show ?thesis using Cons.IH [of ev kept1] retain_bucket_done [of n ev config bucket] True sb
      by (simp add: retain_bucket_append)
  next
    case False
    obtain b1 ev1 where b1: "retain_bucket config n bucket ev = (b1, ev1)" by fastforce
    obtain kept1 where k1: "retain_slots config n slots ev1 = (kept1, ev')"
      and k: "kept = (if b1 = [] then kept1 else (slot, b1) # kept1)"
      using Cons.prems sb False b1 by (auto split: prod.splits)
    then show ?thesis using Cons.IH [OF k1] sb b1 by (simp add: retain_bucket_append)
  qed
qed simp

lemma flat_step:
  assumes "sb = (slot, bucket)" and "kept = (if b1 = [] then kept1 else (slot, b1) # kept1)"
    and "b1 = filter P bucket" and "kept1 = filter (\<lambda>sb. snd sb \<noteq> []) (map (\<lambda>(s, b). (s, filter P b)) slots)"
  shows "kept = filter (\<lambda>sb. snd sb \<noteq> []) (map (\<lambda>(s, b). (s, filter P b)) (sb # slots))"
  by (simp add: assms)

lemma retain_slots_kept:
  assumes "retain_slots config n slots ev = (kept, ev')" and "distinct (concat (map snd slots))" and "counted config ev"
    and "\<forall>q \<in> set (concat (map snd slots)). fmlookup (ev_queries ev) q \<noteq> None" and "\<forall>sb \<in> set slots. snd sb \<noteq> []"
  shows "kept = filter (\<lambda>sb. snd sb \<noteq> [])
    (map (\<lambda>(s, b). (s, filter (\<lambda>q. fmlookup (ev_queries ev') q \<noteq> None) b)) slots)"
  using assms
proof (induction slots arbitrary: ev kept)
  case (Cons sb slots)
  obtain slot bucket where sb: "sb = (slot, bucket)" by fastforce
  obtain b1 ev1 where b1: "retain_bucket config n bucket ev = (b1, ev1)" by fastforce
  obtain kept1 where k1: "retain_slots config n slots ev1 = (kept1, ev')"
    and k: "kept = (if b1 = [] then kept1 else (slot, b1) # kept1)"
  proof (cases "\<not> need_size n ev \<and> \<not> need_pinned config ev")
    case True
    then have "b1 = bucket" "ev1 = ev" using retain_bucket_done [of n ev config bucket] b1 by simp_all
    then show ?thesis using that Cons.prems(1,5) True sb by (auto split: prod.splits)
  next
    case False
    then show ?thesis using that Cons.prems(1) sb b1 by (auto split: prod.splits)
  qed
  have r1: "retained config n bucket ev b1 ev1"
    by (rule retain_bucket_retained [OF b1]) (use Cons.prems(2-4) sb in auto)
  have look1: "fmlookup (ev_queries ev1) q = (if q \<in> set bucket \<and> q \<notin> set b1 then None else fmlookup (ev_queries ev) q)" for q
    using r1 unfolding retained_def by blast
  have c1: "counted config ev1" and b1_eq: "b1 = filter (\<lambda>q. fmlookup (ev_queries ev1) q \<noteq> None) bucket"
    using r1 unfolding retained_def by blast+
  have rest: "\<forall>q \<in> set (concat (map snd slots)). fmlookup (ev_queries ev1) q \<noteq> None"
  proof
    fix q
    assume q: "q \<in> set (concat (map snd slots))"
    then have "q \<notin> set bucket" using Cons.prems(2) sb by auto
    then have "fmlookup (ev_queries ev1) q = fmlookup (ev_queries ev) q" using look1 [of q] by presburger
    then show "fmlookup (ev_queries ev1) q \<noteq> None" using Cons.prems(4) q by simp
  qed
  have "distinct (concat (map snd slots))" using Cons.prems(2) by simp
  then have r: "retained config n (concat (map snd slots)) ev1 (concat (map snd kept1)) ev'"
    using retain_bucket_retained [OF retain_slots_flat [OF k1] _ c1 rest] by blast
  have "fmlookup (ev_queries ev') q = fmlookup (ev_queries ev1) q" if "q \<in> set bucket" for q
  proof -
    have "q \<notin> set (concat (map snd slots))" using that Cons.prems(2) sb by auto
    then show ?thesis using retained_lookup [OF r, of q] by simp
  qed
  then have same: "(fmlookup (ev_queries ev1) q \<noteq> None) = (fmlookup (ev_queries ev') q \<noteq> None)" if "q \<in> set bucket" for q
    using that by presburger
  have "b1 = filter (\<lambda>q. fmlookup (ev_queries ev') q \<noteq> None) bucket"
    by (rule trans [OF b1_eq filter_cong [OF refl same]])
  moreover have "kept1 = filter (\<lambda>sb. snd sb \<noteq> [])
    (map (\<lambda>(s, b). (s, filter (\<lambda>q. fmlookup (ev_queries ev') q \<noteq> None) b)) slots)"
  proof (rule Cons.IH [OF k1 _ c1 rest])
    show "distinct (concat (map snd slots))" using Cons.prems(2) by simp
    show "\<forall>sb \<in> set slots. snd sb \<noteq> []" using Cons.prems(5) by simp
  qed
  ultimately show ?case
    by (rule flat_step [OF sb k])
qed simp

text \<open>The index as a list of buckets.\<close>

lemma distinct_concat_tagged:
  assumes "distinct (map fst es)" and "\<And>s b. (s, b) \<in> set es \<Longrightarrow> distinct b \<and> set b \<subseteq> A s"
    and "\<And>s t. s \<noteq> t \<Longrightarrow> A s \<inter> A t = {}"
  shows "distinct (concat (map snd es))"
  using assms(1,2)
proof (induction es)
  case (Cons sb es)
  obtain s b where sb: "sb = (s, b)" by fastforce
  have "set b \<inter> set c = {}" if "(t, c) \<in> set es" for t c
  proof -
    have "s \<noteq> t" using that Cons.prems(1) sb by force
    then show ?thesis using assms(3) Cons.prems(2) [of s b] Cons.prems(2) [of t c] that sb by fastforce
  qed
  moreover have "distinct (concat (map snd es))" by (rule Cons.IH) (use Cons.prems in auto)
  ultimately show ?case using Cons.prems(2) [of s b] sb by fastforce
qed simp

lemma map_of_filtered:
  "distinct (map fst es) \<Longrightarrow>
   map_of (filter (\<lambda>sb. snd sb \<noteq> []) (map (\<lambda>(s, b). (s, filter P b)) es)) t =
     (case map_of es t of None \<Rightarrow> None | Some b \<Rightarrow> if filter P b = [] then None else Some (filter P b))"
proof (induction es)
  case (Cons sb es)
  obtain s b where sb: "sb = (s, b)" by fastforce
  show ?case
  proof (cases "t = s")
    case True
    then have "map_of es t = None" using Cons.prems sb by (simp add: map_of_eq_None_iff)
    then show ?thesis using Cons sb True by simp
  qed (use Cons sb in simp)
qed simp

lemma indexed_entries:
  assumes "cache_indexed queries index"
  shows "distinct (concat (map snd (fm_entries index)))"
    and "set (concat (map snd (fm_entries index))) = fmdom' queries"
    and "\<forall>sb \<in> set (fm_entries index). snd sb \<noteq> []"
proof -
  have bucket: "b = bucket_of index s" if "(s, b) \<in> set (fm_entries index)" for s b
    using that by (simp add: bucket_of_def)
  have good: "distinct (bucket_of index s)" "set (bucket_of index s) = in_slot queries s" "fmlookup index s \<noteq> Some []" for s
    using assms by (auto simp: cache_indexed_def)
  show "distinct (concat (map snd (fm_entries index)))"
  proof (rule distinct_concat_tagged [where A = "in_slot queries"])
    show "distinct b \<and> set b \<subseteq> in_slot queries s" if "(s, b) \<in> set (fm_entries index)" for s b
      using bucket [OF that] good by simp
    show "in_slot queries s \<inter> in_slot queries t = {}" if "s \<noteq> t" for s t
      using that by (auto simp: in_slot_def)
  qed simp
  show "\<forall>sb \<in> set (fm_entries index). snd sb \<noteq> []" using good(3) by auto
  show "set (concat (map snd (fm_entries index))) = fmdom' queries"
  proof (intro equalityI subsetI)
    fix q
    assume "q \<in> set (concat (map snd (fm_entries index)))"
    then obtain s b where "(s, b) \<in> set (fm_entries index)" "q \<in> set b" by auto
    then have "q \<in> in_slot queries s" using bucket [of s b] good(2) [of s] by simp
    then show "q \<in> fmdom' queries" by (auto simp: in_slot_def fmlookup_dom'_iff)
  next
    fix q
    assume "q \<in> fmdom' queries"
    then obtain c where "fmlookup queries q = Some c" by (auto simp: fmlookup_dom'_iff)
    then have "q \<in> set (bucket_of index (cq_slot c))" using good(2) by (simp add: in_slot_def)
    moreover from calculation have "fmlookup index (cq_slot c) = Some (bucket_of index (cq_slot c))"
      by (intro fmlookup_bucket_nonempty) auto
    then have "(cq_slot c, bucket_of index (cq_slot c)) \<in> set (fm_entries index)" by simp
    then have "\<exists>sb \<in> set (fm_entries index). q \<in> set (snd sb)"
      by (rule rev_bexI) (simp add: calculation)
    then show "q \<in> set (concat (map snd (fm_entries index)))" by simp
  qed
qed

lemma indexed_filtered:
  assumes "cache_indexed queries index"
    and "\<And>q. fmlookup queries' q = fmlookup queries q \<or> fmlookup queries' q = None"
    and "slots = filter (\<lambda>sb. snd sb \<noteq> [])
      (map (\<lambda>(s, b). (s, filter (\<lambda>q. fmlookup queries' q \<noteq> None) b)) (fm_entries index))"
  shows "cache_indexed queries' (fmap_of_list slots)"
proof -
  have look: "fmlookup (fmap_of_list slots) t = (case fmlookup index t of None \<Rightarrow> None
      | Some b \<Rightarrow> if filter (\<lambda>q. fmlookup queries' q \<noteq> None) b = [] then None
                  else Some (filter (\<lambda>q. fmlookup queries' q \<noteq> None) b))" for t
    unfolding fmlookup_of_list assms(3)
    using map_of_filtered [of "fm_entries index" "\<lambda>q. fmlookup queries' q \<noteq> None" t] map_of_fm_entries [of index]
    by (simp only: map_fst_fm_entries distinct_fm_keys simp_thms)
  then have bucket: "bucket_of (fmap_of_list slots) t = filter (\<lambda>q. fmlookup queries' q \<noteq> None) (bucket_of index t)" for t
    by (simp add: bucket_of_def split: option.split)
  have "in_slot queries' t = {q \<in> in_slot queries t. fmlookup queries' q \<noteq> None}" for t
  proof (rule set_eqI)
    fix q
    show "q \<in> in_slot queries' t \<longleftrightarrow> q \<in> {q \<in> in_slot queries t. fmlookup queries' q \<noteq> None}"
      using assms(2) [of q] by (cases "fmlookup queries' q") (auto simp: in_slot_def)
  qed
  then show ?thesis using assms(1) look by (auto simp: cache_indexed_def bucket split: option.splits if_splits)
qed

section \<open>What a cleanup leaves\<close>

lemma sorted_concat_tagged:
  "sorted (map fst es) \<Longrightarrow> (\<And>s b q. (s, b) \<in> set es \<Longrightarrow> q \<in> set b \<Longrightarrow> f q = s) \<Longrightarrow>
   sorted (map f (concat (map snd es)))"
proof (induction es)
  case (Cons sb es)
  obtain s b where sb: "sb = (s, b)" by fastforce
  have here: "f q = s" if "q \<in> set b" for q using Cons.prems(2) [of s b q] that sb by simp
  have "s \<le> f q" if "q \<in> set (concat (map snd es))" for q
  proof -
    obtain t c where t: "(t, c) \<in> set es" "q \<in> set c" using \<open>q \<in> set (concat (map snd es))\<close> by auto
    then have "f q = t" using Cons.prems(2) [of t c q] by simp
    then show ?thesis using Cons.prems(1) t sb by (force simp: image_iff)
  qed
  moreover have "sorted (map f (concat (map snd es)))" by (rule Cons.IH) (use Cons.prems in auto)
  moreover have "sorted (map f b)" using here by (induction b) auto
  ultimately show ?case using here sb by (fastforce simp: sorted_append)
qed simp

definition slot_in :: "(normalized_query, cached_query) fmap \<Rightarrow> normalized_query \<Rightarrow> u64" where
  "slot_in queries q = (case fmlookup queries q of None \<Rightarrow> 0 | Some c \<Rightarrow> cq_slot c)"

lemma entries_by_slot:
  assumes "cache_indexed queries index"
  shows "sorted (map (slot_in queries) (concat (map snd (fm_entries index))))"
proof (rule sorted_concat_tagged)
  show "sorted (map fst (fm_entries index))" by simp
  show "slot_in queries q = s" if "(s, b) \<in> set (fm_entries index)" "q \<in> set b" for s b q
  proof -
    have "b = bucket_of index s" using that(1) by (simp add: bucket_of_def)
    then have "q \<in> in_slot queries s" using assms that(2) by (simp add: cache_indexed_def)
    then show ?thesis by (auto simp: in_slot_def slot_in_def)
  qed
qed

definition evicting_of :: "cached_query list \<Rightarrow> gpa_cache \<Rightarrow> evicting" where
  "evicting_of evicted cache = \<lparr>ev_queries = gc_queries cache, ev_size = gc_size cache,
     ev_pinned_size = gc_pinned_size cache, ev_bytes_freed = 0, ev_evicted = evicted\<rparr>"

lemma evicting_of_counted: "gpa_cache_inv cache \<Longrightarrow> counted (gc_config cache) (evicting_of evicted cache)"
  using unat_lt2p [of "gc_size cache"] by (simp add: counted_def evicting_of_def gpa_cache_inv_def)

text \<open>A cleanup either has nothing to do, or is the pass of \<open>retain_bucket\<close> over all queries, oldest slot first.\<close>

definition room :: "gpa_cache \<Rightarrow> u64" where
  "room cache = cc_max_total_bytes (gc_config cache) - gc_size cache"

lemma unat_room: "gpa_cache_inv cache \<Longrightarrow>
    unat (room cache) = unat (cc_max_total_bytes (gc_config cache)) - unat (gc_size cache)"
  by (simp add: room_def gpa_cache_inv_def word_le_nat_alt unat_sub)

definition flat_queries :: "gpa_cache \<Rightarrow> normalized_query list" where
  "flat_queries cache = concat (map snd (fm_entries (gc_queries_for_slot cache)))"

lemma flat_queries_inv:
  assumes "gpa_cache_inv cache"
  shows "distinct (flat_queries cache)" and "set (flat_queries cache) = fmdom' (gc_queries cache)"
    and "sorted (map (slot_in (gc_queries cache)) (flat_queries cache))"
    and "\<forall>q \<in> set (flat_queries cache). fmlookup (gc_queries cache) q \<noteq> None"
proof -
  have ix: "cache_indexed (gc_queries cache) (gc_queries_for_slot cache)" using assms by (simp add: gpa_cache_inv_def)
  show "distinct (flat_queries cache)" and dom: "set (flat_queries cache) = fmdom' (gc_queries cache)"
    and "sorted (map (slot_in (gc_queries cache)) (flat_queries cache))"
    unfolding flat_queries_def by (rule indexed_entries(1) [OF ix] indexed_entries(2) [OF ix] entries_by_slot [OF ix])+
  then show "\<forall>q \<in> set (flat_queries cache). fmlookup (gc_queries cache) q \<noteq> None" by (auto simp: fmlookup_dom'_iff)
qed

lemma cleanup_cases:
  assumes "gpa_cache_inv cache" and "cleanup_old_queries n evicted cache = (cache', evicted', freed)"
  obtains "cache' = cache" "freed = None" "evicted' = evicted" "n \<le> room cache"
  | slots ev where
      "retain_slots (gc_config cache) (saturating_sub n (room cache)) (fm_entries (gc_queries_for_slot cache))
         (evicting_of evicted cache) = (slots, ev)"
      "cache' = cache \<lparr>gc_queries := ev_queries ev, gc_size := ev_size ev, gc_pinned_size := ev_pinned_size ev,
                      gc_queries_for_slot := fmap_of_list slots\<rparr>"
      "freed = Some (ev_bytes_freed ev + room cache)" "evicted' = ev_evicted ev"
proof -
  have fits: "\<not> cc_max_total_bytes (gc_config cache) < gc_size cache" using assms(1) by (simp add: gpa_cache_inv_def not_less)
  show thesis
  proof (cases "\<not> room cache < n \<and> \<not> pinned_threshold (gc_config cache) < gc_pinned_size cache")
    case True
    then show thesis using that(1) assms(2) fits by (simp add: cleanup_old_queries_def Let_def room_def not_less)
  next
    case False
    obtain slots ev where r: "retain_slots (gc_config cache) (saturating_sub n (room cache))
        (fm_entries (gc_queries_for_slot cache)) (evicting_of evicted cache) = (slots, ev)" by fastforce
    show thesis
      by (rule that(2) [OF r])
        (use False assms(2) fits r in \<open>auto simp: cleanup_old_queries_def Let_def room_def evicting_of_def\<close>)
  qed
qed

lemma cleanup_retained:
  assumes "gpa_cache_inv cache"
    and "retain_slots (gc_config cache) n (fm_entries (gc_queries_for_slot cache)) (evicting_of evicted cache) = (slots, ev)"
  shows "retained (gc_config cache) n (flat_queries cache) (evicting_of evicted cache) (concat (map snd slots)) ev"
proof (rule retain_bucket_retained)
  show "retain_bucket (gc_config cache) n (flat_queries cache) (evicting_of evicted cache) = (concat (map snd slots), ev)"
    unfolding flat_queries_def by (rule retain_slots_flat [OF assms(2)])
  show "counted (gc_config cache) (evicting_of evicted cache)" by (rule evicting_of_counted [OF assms(1)])
  show "\<forall>q \<in> set (flat_queries cache). fmlookup (ev_queries (evicting_of evicted cache)) q \<noteq> None"
    using flat_queries_inv(4) [OF assms(1)] by (simp add: evicting_of_def)
qed (rule flat_queries_inv(1) [OF assms(1)])

lemma retained_subset:
  assumes "gpa_cache_inv cache"
    and "retained config n (flat_queries cache) (evicting_of evicted cache) kept ev"
  shows "fmlookup (ev_queries ev) q = (if q \<in> set kept then fmlookup (gc_queries cache) q else None)"
proof -
  have "q \<in> set (flat_queries cache) \<longleftrightarrow> fmlookup (gc_queries cache) q \<noteq> None"
    using flat_queries_inv(2) [OF assms(1)] by (auto simp: fmlookup_dom'_iff)
  then show ?thesis using retained_lookup [OF assms(2), of q] by (auto simp: evicting_of_def)
qed

lemma cleanup_spec:
  assumes "gpa_cache_inv cache" and "cleanup_old_queries n evicted cache = (cache', evicted', freed)"
  shows "gpa_cache_inv cache'" and "gc_config cache' = gc_config cache"
    and "fmlookup (gc_queries cache') q = fmlookup (gc_queries cache) q \<or> fmlookup (gc_queries cache') q = None"
    and "case freed of None \<Rightarrow> n \<le> room cache' | Some f \<Rightarrow> f = room cache'"
proof -
  have "gpa_cache_inv cache' \<and> gc_config cache' = gc_config cache \<and>
     (fmlookup (gc_queries cache') q = fmlookup (gc_queries cache) q \<or> fmlookup (gc_queries cache') q = None) \<and>
     (case freed of None \<Rightarrow> n \<le> room cache' | Some f \<Rightarrow> f = room cache')"
    using assms
  proof (cases rule: cleanup_cases)
    case 1
    then show ?thesis using assms(1) by simp
  next
    case (2 slots ev)
    note r = cleanup_retained [OF assms(1) 2(1)]
    note sub = retained_subset [OF assms(1) r]
    have c: "counted (gc_config cache) ev" by (rule retained_counted [OF r])
    have bytes: "unat (ev_bytes_freed ev) + unat (ev_size ev) = unat (gc_size cache)"
      using retained_bytes(1) [OF r] by (simp add: evicting_of_def)
    have max: "unat (gc_size cache) \<le> unat (cc_max_total_bytes (gc_config cache))"
      using assms(1) by (simp add: gpa_cache_inv_def word_le_nat_alt)
    have inv: "cache_indexed (gc_queries cache) (gc_queries_for_slot cache)" using assms(1) by (simp add: gpa_cache_inv_def)
    have "slots = filter (\<lambda>sb. snd sb \<noteq> [])
        (map (\<lambda>(s, b). (s, filter (\<lambda>q. fmlookup (ev_queries ev) q \<noteq> None) b)) (fm_entries (gc_queries_for_slot cache)))"
      by (rule retain_slots_kept [OF 2(1) _ evicting_of_counted [OF assms(1)]])
        (use flat_queries_inv(1,4) [OF assms(1)] indexed_entries(3) [OF inv] in
          \<open>simp_all add: flat_queries_def evicting_of_def\<close>)
    then have ix: "cache_indexed (ev_queries ev) (fmap_of_list slots)"
      by (rule indexed_filtered [OF inv, rotated]) (use sub in auto)
    have "ev_size ev \<le> cc_max_total_bytes (gc_config cache)" using bytes max by (simp add: word_le_nat_alt)
    then have "gpa_cache_inv cache'" using c ix 2(2) by (simp add: gpa_cache_inv_def counted_def)
    moreover have "unat (ev_bytes_freed ev + room cache) = unat (room cache')"
    proof -
      have "unat (room cache) = unat (cc_max_total_bytes (gc_config cache)) - unat (gc_size cache)"
        by (rule unat_room [OF assms(1)])
      moreover have "unat (room cache') = unat (cc_max_total_bytes (gc_config cache)) - unat (ev_size ev)"
        using unat_room [OF \<open>gpa_cache_inv cache'\<close>] 2(2) by simp
      ultimately have sum: "unat (ev_bytes_freed ev) + unat (room cache) = unat (room cache')" using bytes max by linarith
      then have "unat (ev_bytes_freed ev) + unat (room cache) < 2 ^ 64" using unat_lt2p [of "room cache'"] by simp
      then show ?thesis using sum by (simp add: unat_word_ariths)
    qed
    then have "ev_bytes_freed ev + room cache = room cache'" by (rule unsigned_word_eqI)
    ultimately show ?thesis using 2(2,3) sub [of q] by simp
  qed
  note all = this
  show "gpa_cache_inv cache'" by (rule conjunct1 [OF all])
  show "gc_config cache' = gc_config cache" by (rule conjunct1 [OF conjunct2 [OF all]])
  show "fmlookup (gc_queries cache') q = fmlookup (gc_queries cache) q \<or> fmlookup (gc_queries cache') q = None"
    by (rule conjunct1 [OF conjunct2 [OF conjunct2 [OF all]]])
  show "case freed of None \<Rightarrow> n \<le> room cache' | Some f \<Rightarrow> f = room cache'"
    by (rule conjunct2 [OF conjunct2 [OF conjunct2 [OF all]]])
qed

text \<open>Which queries a cleanup drops: the unpinned ones from the oldest slot on, and no more than needed; when bytes
  are still missing at the end, only pinned queries are left.\<close>

lemma evicts_oldest:
  assumes "gpa_cache_inv cache" and "cleanup_old_queries n evicted cache = (cache', evicted', freed)"
    and "fmlookup (gc_queries cache) q = Some c" and "fmlookup (gc_queries cache') q = None"
    and "fmlookup (gc_queries cache') p = Some d"
    and "\<not> is_pinned_size (gc_config cache) (cq_size c)" and "\<not> is_pinned_size (gc_config cache) (cq_size d)"
  shows "cq_slot c \<le> cq_slot d"
  using assms(1,2)
proof (cases rule: cleanup_cases)
  case 1
  then show ?thesis using assms(3,4) by simp
next
  case (2 slots ev)
  let ?config = "gc_config cache" and ?n = "saturating_sub n (room cache)" and ?ev = "evicting_of evicted cache"
  note flat = flat_queries_inv [OF assms(1)]
  note r = cleanup_retained [OF assms(1) 2(1)]
  have p: "fmlookup (gc_queries cache) p = Some d" using assms(5) retained_subset [OF assms(1) r, of p] 2(2)
    by (simp split: if_splits)
  have "q \<in> set (flat_queries cache)" "p \<in> set (flat_queries cache)" using flat(2) assms(3) p by (auto simp: fmlookup_dom'_iff)
  then obtain xs zs where split: "flat_queries cache = xs @ q # zs" by (meson split_list)
  show ?thesis
  proof (cases "p \<in> set xs")
    case False
    then have "p \<in> set (q # zs)" using \<open>p \<in> set (flat_queries cache)\<close> split by simp
    then have "slot_in (gc_queries cache) q \<le> slot_in (gc_queries cache) p"
      using flat(3) split by (auto simp: sorted_append)
    then show ?thesis using assms(3) p by (simp add: slot_in_def)
  next
    case True
    have go: "retain_bucket ?config ?n (flat_queries cache) ?ev = (concat (map snd slots), ev)"
      unfolding flat_queries_def by (rule retain_slots_flat [OF 2(1)])
    obtain k1 ev1 k2 where k1: "retain_bucket ?config ?n xs ?ev = (k1, ev1)"
      and k2: "retain_bucket ?config ?n (q # zs) ev1 = (k2, ev)"
      using go unfolding split retain_bucket_append by (auto simp: Let_def split: prod.splits)
    have ok: "\<forall>x \<in> set (xs @ q # zs). fmlookup (ev_queries ?ev) x \<noteq> None" and dist: "distinct (xs @ q # zs)"
      using flat(1,4) split by (simp_all add: evicting_of_def)
    have r1: "retained ?config ?n xs ?ev k1 ev1"
      by (rule retain_bucket_retained [OF k1 _ evicting_of_counted [OF assms(1)]]) (use ok dist in simp_all)
    have outside: "fmlookup (ev_queries ev1) x = fmlookup (gc_queries cache) x" if "x \<in> set (q # zs)" for x
      using retained_lookup [OF r1, of x] that dist by (auto simp: evicting_of_def)
    have r2: "retained ?config ?n (q # zs) ev1 k2 ev"
      by (rule retain_bucket_retained [OF k2 _ retained_counted [OF r1]])
        (use ok dist outside in \<open>simp_all add: evicting_of_def\<close>)
    have "fmlookup (ev_queries ev) p = Some d" "fmlookup (ev_queries ev) q = None" using assms(4,5) 2(2) by simp_all
    then have "p \<in> set k1" "q \<notin> set k2"
      using retained_lookup [OF r2, of p] retained_lookup [OF r1, of p] retained_lookup [OF r2, of q] outside [of q]
        True dist assms(3) by (auto split: if_splits)
    then have "was_pinned ?config (ev_queries ?ev) p \<or> was_pinned ?config (ev_queries ev1) q"
      using retained_pinned(1) [OF r1, of p] retained_pinned(2) [OF r2, of q] by auto
    then have "was_pinned ?config (gc_queries cache) p \<or> was_pinned ?config (ev_queries ev1) q"
      by (simp add: evicting_of_def)
    then show ?thesis using assms(3,6,7) p outside [of q] by (simp add: was_pinned_def)
  qed
qed

lemma fm_sum_mono_sub:
  assumes "\<And>q. fmlookup m' q = fmlookup m q \<or> fmlookup m' q = None"
  shows "fm_sum f m' \<le> (fm_sum f m :: nat)"
proof -
  have sub: "fmlookup m q = Some v" if "fmlookup m' q = Some v" for q v using assms [of q] that by auto
  have "fm_sum f m' = (\<Sum>k \<in> fmdom' m'. f k (the (fmlookup m k)))"
    unfolding fm_sum_def by (rule sum.cong) (auto simp: fmlookup_dom'_iff sub)
  also have "\<dots> \<le> fm_sum f m"
    unfolding fm_sum_def by (rule sum_mono2) (auto simp: fmlookup_dom'_iff sub)
  finally show ?thesis .
qed

lemma cleanup_makes_room:
  assumes "gpa_cache_inv cache" and "cleanup_old_queries n evicted cache = (cache', evicted', freed)"
    and "unat n + unat (gc_pinned_size cache) \<le> unat (cc_max_total_bytes (gc_config cache))"
  shows "n \<le> room cache'"
  using assms(1,2)
proof (cases rule: cleanup_cases)
  case 1
  then show ?thesis by simp
next
  case (2 slots ev)
  let ?config = "gc_config cache" and ?n = "saturating_sub n (room cache)"
  note inv' = cleanup_spec(1) [OF assms(1,2)] and config' = cleanup_spec(2) [OF assms(1,2)]
    and sub = cleanup_spec(3) [OF assms(1,2)]
  note r = cleanup_retained [OF assms(1) 2(1)]
  have left: "unat (room cache') = unat (cc_max_total_bytes ?config) - unat (gc_size cache')"
    using unat_room [OF inv'] config' by simp
  show ?thesis
  proof (cases "need_size ?n ev")
    case True
    have "is_pinned_size ?config (cq_size c)" if "fmlookup (gc_queries cache') q = Some c" for q c
    proof -
      have "q \<in> set (concat (map snd slots))" "fmlookup (gc_queries cache) q = Some c"
        using that retained_subset [OF assms(1) r, of q] 2(2) by (simp_all split: if_splits)
      then show ?thesis using retained_pinned(1) [OF r True, of q] by (simp add: was_pinned_def evicting_of_def)
    qed
    then have "total_bytes (gc_queries cache') = pinned_bytes ?config (gc_queries cache')"
      unfolding total_bytes_def pinned_bytes_def by (intro fm_sum_cong) auto
    also have "\<dots> \<le> pinned_bytes ?config (gc_queries cache)"
      unfolding pinned_bytes_def by (rule fm_sum_mono_sub [OF sub])
    finally have "unat (gc_size cache') \<le> unat (gc_pinned_size cache)"
      using assms(1) inv' by (simp add: gpa_cache_inv_def)
    then show ?thesis using left assms(3) by (simp add: word_le_nat_alt)
  next
    case False
    then have "unat n - unat (room cache) \<le> unat (ev_bytes_freed ev)"
      by (simp add: need_size_def not_less word_le_nat_alt unat_saturating_sub)
    moreover have "unat (ev_bytes_freed ev) + unat (ev_size ev) = unat (gc_size cache)"
      using retained_bytes(1) [OF r] by (simp add: evicting_of_def)
    moreover have "gc_size cache' = ev_size ev" using 2(2) by simp
    ultimately show ?thesis using left unat_room [OF assms(1)] assms(1)
      by (simp add: word_le_nat_alt gpa_cache_inv_def)
  qed
qed

lemma indexed_absent:
  assumes "cache_indexed queries index" and "fmlookup queries q = None"
  shows "q \<notin> set (bucket_of index slot)"
  using assms by (auto simp: cache_indexed_def in_slot_def)

lemma insert_query_for_slot_index:
  "gc_queries_for_slot (insert_query_for_slot q slot older cache) =
     (let index = (case older of None \<Rightarrow> gc_queries_for_slot cache | Some prev \<Rightarrow> unindex_query q prev (gc_queries_for_slot cache))
      in fmupd slot (bucket_of index slot @ [q]) index)"
  by (simp add: insert_query_for_slot_def Let_def bucket_of_def)

lemma install_fields:
  "gc_queries (install job cache) = fmupd (fj_normalized_query job) (new_entry job) (gc_queries cache)"
  "gc_config (install job cache) = gc_config cache"
  "gc_size (install job cache) = (case fmlookup (gc_queries cache) (fj_normalized_query job) of
     None \<Rightarrow> gc_size cache + fj_query_bytes job
   | Some old \<Rightarrow> saturating_sub (gc_size cache + fj_query_bytes job) (cq_size old))"
  "gc_pinned_size (install job cache) =
     (let grown = (if is_pinned_size (gc_config cache) (fj_query_bytes job)
            then gc_pinned_size cache + fj_query_bytes job else gc_pinned_size cache)
      in case fmlookup (gc_queries cache) (fj_normalized_query job) of
           None \<Rightarrow> grown
         | Some old \<Rightarrow> if is_pinned_size (gc_config cache) (cq_size old) then saturating_sub grown (cq_size old) else grown)"
  "gc_queries_for_slot (install job cache) = gc_queries_for_slot (insert_query_for_slot (fj_normalized_query job)
     (fj_slot job) (map_option cq_slot (fmlookup (gc_queries cache) (fj_normalized_query job))) cache)"
  by (simp_all add: install_def Let_def insert_query_for_slot_def split: option.split)

lemma install_inv:
  assumes "gpa_cache_inv cache" and "fj_query_bytes job \<le> room cache"
  shows "gpa_cache_inv (install job cache)"
proof -
  let ?q = "fj_normalized_query job" and ?n = "fj_query_bytes job" and ?config = "gc_config cache"
  let ?rest = "fmdrop ?q (gc_queries cache)"
  have total: "unat (gc_size cache) = total_bytes (gc_queries cache)"
    and pinned: "unat (gc_pinned_size cache) = pinned_bytes ?config (gc_queries cache)"
    and ix: "cache_indexed (gc_queries cache) (gc_queries_for_slot cache)"
    and max: "unat (gc_size cache) \<le> unat (cc_max_total_bytes ?config)"
    using assms(1) by (simp_all add: gpa_cache_inv_def word_le_nat_alt)
  have fits: "unat (gc_size cache) + unat ?n \<le> unat (cc_max_total_bytes ?config)"
    using assms(2) unat_room [OF assms(1)] max by (simp add: word_le_nat_alt)
  then have "unat (gc_size cache) + unat ?n < 2 ^ 64" using unat_lt2p [of "cc_max_total_bytes ?config"] by simp
  then have grow: "unat (gc_size cache + ?n) = unat (gc_size cache) + unat ?n" by (simp add: unat_word_ariths)
  have "unat (gc_pinned_size cache) \<le> unat (gc_size cache)" unfolding total pinned by (rule pinned_le_total)
  then have growp: "unat (gc_pinned_size cache + ?n) = unat (gc_pinned_size cache) + unat ?n"
    using \<open>unat (gc_size cache) + unat ?n < 2 ^ 64\<close> by (simp add: unat_word_ariths)
  have new: "cq_size (new_entry job) = ?n" "cq_slot (new_entry job) = fj_slot job" by (simp_all add: new_entry_def)
  have sums: "total_bytes (fmupd ?q (new_entry job) (gc_queries cache)) = unat ?n + total_bytes ?rest"
    "pinned_bytes ?config (fmupd ?q (new_entry job) (gc_queries cache)) =
      (if is_pinned_size ?config ?n then unat ?n else 0) + pinned_bytes ?config ?rest"
    by (simp_all add: total_bytes_def pinned_bytes_def fm_sum_upd new)
  have "unat (gc_size (install job cache)) = total_bytes (gc_queries (install job cache))
      \<and> unat (gc_pinned_size (install job cache)) = pinned_bytes ?config (gc_queries (install job cache))
      \<and> cache_indexed (gc_queries (install job cache)) (gc_queries_for_slot (install job cache))
      \<and> unat (gc_size (install job cache)) \<le> unat (gc_size cache) + unat ?n"
  proof (cases "fmlookup (gc_queries cache) ?q")
    case None
    then have "?rest = gc_queries cache" by (simp add: fmdrop_idle' fmlookup_dom'_iff)
    moreover have "cache_indexed (gc_queries (install job cache)) (gc_queries_for_slot (install job cache))"
      using cache_indexed_add [OF ix None, of "new_entry job"] None
      by (simp add: install_fields insert_query_for_slot_index new Let_def)
    ultimately show ?thesis using None total pinned sums grow growp by (simp add: install_fields)
  next
    case (Some old)
    note split = total_bytes_split [OF Some] pinned_bytes_split [OF Some, of ?config]
    let ?index = "unindex_query ?q (cq_slot old) (gc_queries_for_slot cache)"
    have "cache_indexed ?rest ?index" by (rule cache_indexed_remove [OF ix Some])
    moreover have "fmlookup ?rest ?q = None" by simp
    ultimately have "cache_indexed (fmupd ?q (new_entry job) ?rest)
        (fmupd (fj_slot job) (bucket_of ?index (fj_slot job) @ [?q]) ?index)"
      using cache_indexed_add [of ?rest ?index ?q "new_entry job"] by (simp add: new)
    moreover have "fmupd ?q (new_entry job) ?rest = fmupd ?q (new_entry job) (gc_queries cache)" by (rule fmap_ext) simp
    ultimately have "cache_indexed (gc_queries (install job cache)) (gc_queries_for_slot (install job cache))"
      using Some by (simp add: install_fields insert_query_for_slot_index Let_def)
    then show ?thesis using Some total pinned sums grow growp split
      by (auto simp: install_fields unat_saturating_sub Let_def)
  qed
  then show ?thesis using fits by (simp add: gpa_cache_inv_def install_fields(2) word_le_nat_alt)
qed

section \<open>The cache under any sequence of calls\<close>

datatype cache_event = Finalize finalize_job | Remove normalized_query

fun cache_step :: "cache_event \<Rightarrow> gpa_cache \<Rightarrow> gpa_cache" where
  "cache_step (Finalize job) cache = fst (finalize_run job cache)"
| "cache_step (Remove q) cache = remove_query q cache"

lemma finalize_run_cases:
  assumes "gpa_cache_inv cache"
  obtains (stale) current where "fmlookup (gc_queries cache) (fj_normalized_query job) = Some current"
      "fj_slot job \<le> cq_slot current" "fst (finalize_run job cache) = cache" "fst (snd (finalize_run job cache)) = Stale_Slot"
  | (failed) cache' evicted' freed where
      "cleanup_old_queries (fj_query_bytes job) (case fj_previous_query job of None \<Rightarrow> [] | Some p \<Rightarrow> [p]) cache = (cache', evicted', freed)"
      "\<not> fj_query_bytes job \<le> room cache'" "fst (finalize_run job cache) = cache'" "fst (snd (finalize_run job cache)) = Cleanup_Failed"
  | (installed) cache' evicted' freed where
      "cleanup_old_queries (fj_query_bytes job) (case fj_previous_query job of None \<Rightarrow> [] | Some p \<Rightarrow> [p]) cache = (cache', evicted', freed)"
      "fj_query_bytes job \<le> room cache'" "fst (finalize_run job cache) = install job cache'"
      "fst (snd (finalize_run job cache)) = Installed"
      "\<And>current. fmlookup (gc_queries cache) (fj_normalized_query job) = Some current \<Longrightarrow> cq_slot current < fj_slot job"
proof (cases "case fmlookup (gc_queries cache) (fj_normalized_query job) of
    None \<Rightarrow> False | Some current \<Rightarrow> fj_slot job \<le> cq_slot current")
  case True
  then obtain current where "fmlookup (gc_queries cache) (fj_normalized_query job) = Some current" "fj_slot job \<le> cq_slot current"
    by (auto split: option.splits)
  then show thesis by (intro stale) (simp_all add: finalize_run_def Let_def)
next
  case False
  obtain cache' evicted' freed where run: "cleanup_old_queries (fj_query_bytes job)
      (case fj_previous_query job of None \<Rightarrow> [] | Some p \<Rightarrow> [p]) cache = (cache', evicted', freed)"
    using prod_cases3 by blast
  have room: "(case freed of None \<Rightarrow> False | Some n \<Rightarrow> n < fj_query_bytes job) \<longleftrightarrow> \<not> fj_query_bytes job \<le> room cache'"
    using cleanup_spec(4) [OF assms run] by (cases freed) (simp_all add: not_le)
  show thesis
  proof (cases "fj_query_bytes job \<le> room cache'")
    case fits: True
    show thesis
      by (rule installed [OF run fits])
        (use run room fits False in \<open>auto simp: finalize_run_def Let_def not_le split: option.splits\<close>)
  next
    case full: False
    show thesis
      by (rule failed [OF run full])
        (use run room full False in \<open>simp_all add: finalize_run_def\<close>)
  qed
qed

lemma cache_step_inv:
  assumes "gpa_cache_inv cache"
  shows "gpa_cache_inv (cache_step e cache) \<and> gc_config (cache_step e cache) = gc_config cache"
proof (cases e)
  case (Finalize job)
  show ?thesis
    using assms
  proof (cases rule: finalize_run_cases [where job = job])
    case (failed cache' evicted' freed)
    then show ?thesis using cleanup_spec(1,2) [OF assms failed(1)] Finalize by simp
  next
    case (installed cache' evicted' freed)
    have "gpa_cache_inv (install job cache')" by (rule install_inv [OF cleanup_spec(1) [OF assms installed(1)] installed(2)])
    then show ?thesis using cleanup_spec(2) [OF assms installed(1)] installed(3) Finalize by (simp add: install_fields(2))
  qed (use assms Finalize in simp)
qed (use assms remove_query_inv in \<open>simp add: remove_query_def split: option.split\<close>)

lemma new_gpa_cache_inv: "gpa_cache_inv (new_gpa_cache config)"
  by (simp add: gpa_cache_inv_def new_gpa_cache_def total_bytes_def pinned_bytes_def cache_indexed_def bucket_of_def in_slot_def)

interpretation gpa: state_machine "new_gpa_cache config" cache_step "\<lambda>cache. gpa_cache_inv cache \<and> gc_config cache = config"
  for config
proof unfold_locales
  show "gpa_cache_inv (new_gpa_cache config) \<and> gc_config (new_gpa_cache config) = config"
    using new_gpa_cache_inv by (simp add: new_gpa_cache_def)
  show "gpa_cache_inv (cache_step e s) \<and> gc_config (cache_step e s) = config" if "gpa_cache_inv s \<and> gc_config s = config" for s e
    using cache_step_inv [of s e] that by blast
qed

text \<open>C15: after any sequence of inserted responses and removed queries, the byte counters of the cache are the exact
  sums over its entries (all, and those too large to be evicted for size), the total never exceeds the configured
  maximum, and the index by slot lists each cached query exactly once, under its slot, without empty slots.\<close>

theorem gpa_cache_accounting:
  "let cache = fold cache_step events (new_gpa_cache config); queries = gc_queries cache
   in unat (gc_size cache) = fm_sum (\<lambda>_ c. unat (cq_size c)) queries
      \<and> unat (gc_pinned_size cache) = fm_sum (\<lambda>_ c. if is_pinned_size config (cq_size c) then unat (cq_size c) else 0) queries
      \<and> gc_size cache \<le> cc_max_total_bytes config
      \<and> fmlookup (gc_queries_for_slot cache) slot \<noteq> Some []
      \<and> distinct (bucket_of (gc_queries_for_slot cache) slot)
      \<and> set (bucket_of (gc_queries_for_slot cache) slot) = {q. \<exists>c. fmlookup queries q = Some c \<and> cq_slot c = slot}"
proof -
  have "gpa_cache_inv (fold cache_step events (new_gpa_cache config))"
    and config: "gc_config (fold cache_step events (new_gpa_cache config)) = config"
    using gpa.invar_run [of events config] by simp_all
  then show ?thesis unfolding Let_def gpa_cache_inv_def total_bytes_def pinned_bytes_def cache_indexed_def in_slot_def config by blast
qed

text \<open>a response newer than the cached one is always installed when it fits beside the pinned entries: the
  eviction then frees enough bytes, so the insertion cannot fail, and the query afterwards finds the new response.\<close>

theorem finalize_installs:
  assumes "cache = fold cache_step events (new_gpa_cache config)"
    and "case fmlookup (gc_queries cache) (fj_normalized_query job) of None \<Rightarrow> True | Some current \<Rightarrow> cq_slot current < fj_slot job"
    and "unat (fj_query_bytes job) + unat (gc_pinned_size cache) \<le> unat (cc_max_total_bytes config)"
  shows "fst (snd (finalize_run job cache)) = Installed \<and>
    fmlookup (gc_queries (fst (finalize_run job cache))) (fj_normalized_query job) = Some (new_entry job)"
proof -
  have inv: "gpa_cache_inv cache" and config: "gc_config cache = config"
    using gpa.invar_run [of events config] assms(1) by simp_all
  show "fst (snd (finalize_run job cache)) = Installed \<and>
     fmlookup (gc_queries (fst (finalize_run job cache))) (fj_normalized_query job) = Some (new_entry job)"
    using inv
  proof (cases rule: finalize_run_cases [where job = job])
    case (stale current)
    then show ?thesis using assms(2) by simp
  next
    case (failed cache' evicted' freed)
    then show ?thesis using cleanup_makes_room [OF inv failed(1)] assms(3) config by simp
  next
    case (installed cache' evicted' freed)
    then show ?thesis by (simp add: install_fields(1))
  qed
qed

text \<open>an insertion evicts the oldest responses first: of two other cached queries that are not pinned, one that
  the insertion drops is never newer than one that it keeps.\<close>

theorem finalize_evicts_oldest:
  assumes "cache = fold cache_step events (new_gpa_cache config)" and "cache' = fst (finalize_run job cache)"
    and "q \<noteq> fj_normalized_query job" and "p \<noteq> fj_normalized_query job"
    and "fmlookup (gc_queries cache) q = Some c" and "fmlookup (gc_queries cache') q = None"
    and "fmlookup (gc_queries cache') p = Some d"
    and "\<not> is_pinned_size config (cq_size c)" and "\<not> is_pinned_size config (cq_size d)"
  shows "cq_slot c \<le> cq_slot d \<and> fmlookup (gc_queries cache) p = Some d"
proof -
  have inv: "gpa_cache_inv cache" and config: "gc_config cache = config"
    using gpa.invar_run [of events config] assms(1) by simp_all
  from inv show ?thesis
  proof (cases rule: finalize_run_cases [where job = job])
    case (stale current)
    then show ?thesis using assms(2,5,6) by simp
  next
    case (failed cache1 evicted' freed)
    then show ?thesis
      using evicts_oldest [OF inv failed(1) assms(5), of p d] cleanup_spec(3) [OF inv failed(1), of p] assms(2,6-9) config by auto
  next
    case (installed cache1 evicted' freed)
    then have "fmlookup (gc_queries cache1) q = None" "fmlookup (gc_queries cache1) p = Some d"
      using assms(2-4,6,7) by (simp_all add: install_fields(1))
    then show ?thesis
      using evicts_oldest [OF inv installed(1) assms(5), of p d] cleanup_spec(3) [OF inv installed(1), of p] assms(8,9) config by auto
  qed
qed

section \<open>Concrete runs\<close>

text \<open>A cache of 100 bytes, and responses of 40 bytes.\<close>

definition wit_config :: cache_config where
  "wit_config = \<lparr>cc_max_total_bytes = 100, cc_min_bytes_per_query = 1, cc_max_bytes_query_cleanup = Some 90, cc_pinned_cap = Some 50\<rparr>"

definition wit_query :: "u8 \<Rightarrow> normalized_query" where
  "wit_query b = \<lparr>nq_program = pk b, nq_filters = [], nq_encoding = Enc_Base64, nq_data_slice = None, nq_commitment = Level_Finalized\<rparr>"

definition wit_job :: "u8 \<Rightarrow> u64 \<Rightarrow> finalize_job" where
  "wit_job b slot = \<lparr>fj_normalized_query = wit_query b, fj_accounts = [], fj_query_bytes = 40, fj_slot = slot,
     fj_cache_hits = 0, fj_previous_query = None\<rparr>"

definition wit_entry :: "u64 \<Rightarrow> cached_query" where
  "wit_entry slot = \<lparr>cq_accounts = fmempty, cq_slot = slot, cq_size = 40, cq_cache_hits = 0\<rparr>"

definition wit_cache :: gpa_cache where
  "wit_cache = \<lparr>gc_queries = fmupd (wit_query 2) (wit_entry 6) (fmupd (wit_query 1) (wit_entry 5) fmempty),
     gc_queries_for_slot = fmupd 6 [wit_query 2] (fmupd 5 [wit_query 1] fmempty),
     gc_config = wit_config, gc_size = 80, gc_pinned_size = 0\<rparr>"

lemma wit_query_eq: "wit_query a = wit_query b \<longleftrightarrow> a = b"
  by (simp add: wit_query_def)

lemmas wit_run = wit_job_def wit_entry_def wit_config_def new_entry_def wit_query_eq finalize_run_def
  cleanup_old_queries_def install_def insert_query_for_slot_def new_gpa_cache_def is_pinned_size_def pinned_threshold_def
  unindex_query_def saturating_sub_def saturating_add_def need_size_def need_pinned_def keeps_def entry_pinned_def evict_query_def Let_def

lemma wit_cache_reached:
  "fold cache_step [Finalize (wit_job 1 5), Finalize (wit_job 2 6)] (new_gpa_cache wit_config) = wit_cache"
  by (simp add: wit_cache_def wit_run)

lemma wit_cache_next: "gc_queries (fst (finalize_run (wit_job 3 7) wit_cache)) =
    fmupd (wit_query 3) (wit_entry 7) (fmupd (wit_query 2) (wit_entry 6) fmempty)"
  by (simp add: wit_cache_def wit_run fm_entries_map fm_keys_def fm_eval fmdrop_fmupd)


lemma finalize_installs_witness:
  "fst (snd (finalize_run (wit_job 3 7) wit_cache)) = Installed \<and>
   fmlookup (gc_queries (fst (finalize_run (wit_job 3 7) wit_cache))) (wit_query 3) = Some (wit_entry 7)"
  using finalize_installs [OF wit_cache_reached [symmetric], of "wit_job 3 7"]
  by (simp add: wit_cache_def wit_job_def wit_query_eq new_entry_def wit_entry_def wit_config_def)

lemma finalize_evicts_oldest_witness:
  "cq_slot (wit_entry 5) \<le> cq_slot (wit_entry 6) \<and> fmlookup (gc_queries wit_cache) (wit_query 2) = Some (wit_entry 6)"
proof (rule finalize_evicts_oldest [OF wit_cache_reached [symmetric] refl, of "wit_query 1" "wit_job 3 7" "wit_query 2"])
  show "fmlookup (gc_queries wit_cache) (wit_query 1) = Some (wit_entry 5)" by (simp add: wit_cache_def wit_query_eq)
  show "fmlookup (gc_queries (fst (finalize_run (wit_job 3 7) wit_cache))) (wit_query 1) = None"
    by (simp add: wit_cache_next wit_query_eq)
  show "fmlookup (gc_queries (fst (finalize_run (wit_job 3 7) wit_cache))) (wit_query 2) = Some (wit_entry 6)"
    by (simp add: wit_cache_next wit_query_eq)
qed (simp_all add: wit_job_def wit_query_eq wit_config_def wit_entry_def is_pinned_size_def)

text \<open>two requests of one program find the same cached response exactly when they agree on the encoding, the
  slice and the commitment and their filters are the same up to order (filters that compare equal in the
  sort apart): the order in which a client lists its filters neither misses the cache nor mixes up responses.\<close>

theorem normalize_up_to_order:
  assumes "\<not> has_value_cmp fs" and "\<not> has_value_cmp gs" and "inj_on filter_sort_key (set fs)"
  shows "normalize program fs enc dslice level = normalize program gs enc' dslice' level' \<longleftrightarrow>
    mset fs = mset gs \<and> enc = enc' \<and> dslice = dslice' \<and> level = level'"
proof -
  have "sort_key filter_sort_key fs = sort_key filter_sort_key gs \<longleftrightarrow> mset fs = mset gs"
  proof
    show "mset fs = mset gs" if "sort_key filter_sort_key fs = sort_key filter_sort_key gs"
      using arg_cong [OF that, of mset] by simp
    show "sort_key filter_sort_key fs = sort_key filter_sort_key gs" if "mset fs = mset gs"
      by (rule sort_key_inj_key_eq) (use that assms(3) in simp_all)
  qed
  then show ?thesis using assms(1,2) by (auto simp: normalize_def)
qed


lemma normalize_up_to_order_witness:
  "normalize (pk 1) [DataSize 165, TokenAccountState] Enc_Base64 None Level_Finalized =
   normalize (pk 1) [TokenAccountState, DataSize 165] Enc_Base64 None Level_Finalized"
  using normalize_up_to_order [of "[DataSize 165, TokenAccountState]" "[TokenAccountState, DataSize 165]"
      "pk 1" Enc_Base64 None Level_Finalized Enc_Base64 None Level_Finalized]
  by (simp add: has_value_cmp_def)

end
