(* ===== verification/Gpa_Request.thy ===== *)
theory Gpa_Request
  imports Gpa_Cache
begin

text \<open>
  One \<open>getProgramAccounts\<close> request from its rows to its accounts: the mints of \<open>jsonParsed\<close> token accounts
  (\<open>crates/api/src/modules/mint_resolver.rs\<close>), the processor with its statement on the cached path
  (\<open>crates/api/src/modules/cache/mod.rs\<close>, \<open>gpa_with_cache.sql\<close>) and the encoding stream
  (\<open>crates/api/src/methods/get_program_accounts.rs\<close>).

  The account decoder and \<open>serde_json\<close> are third-party code: what they answer is the record \<open>decoder\<close>, with the
  JSON text of an account and whether it parsed as \<open>jsonParsed\<close>. A panic on the blocking pool is a join
  error, which the code turns into \<open>InternalError\<close>; a panic of the stream itself is \<open>Crashed\<close>.
\<close>

section \<open>Mint resolver\<close>

datatype volatility = Mutable_Mint | Dropped_Account

record additional_data =
  ad_decimals :: u8
  ad_interest_bearing :: "(u8 list \<times> int) option"
  ad_scaled_ui_amount :: "(u8 list \<times> int) option"

text \<open>\<open>MintState::additional_data\<close>.\<close>

definition additional_of :: "int \<Rightarrow> mint_state \<Rightarrow> additional_data" where
  "additional_of block_time state =
     \<lparr>ad_decimals = ms_decimals state,
      ad_interest_bearing = map_option (\<lambda>c. (c, block_time)) (Option.bind (ms_configs state) mg_interest_bearing),
      ad_scaled_ui_amount = map_option (\<lambda>c. (c, block_time)) (Option.bind (ms_configs state) mg_scaled_ui_amount)\<rparr>"

record resolver =
  mr_slot :: u64
  mr_block_time :: int
  mr_mints :: "(pubkey, mint_state) fmap"
  mr_volatility :: "volatility option"

record encoded_account =
  ea_json :: "u8 list"
  ea_parsed :: bool

record decoder =
  de_codec :: mint_codec
  de_token_mint :: "u8 list \<Rightarrow> pubkey option"
  de_encode :: "db_row \<Rightarrow> ui_encoding \<Rightarrow> data_slice option \<Rightarrow> additional_data option \<Rightarrow> encoded_account"

text \<open>\<open>MintResolver::new\<close> with the slot set by the request: enabled for a \<open>jsonParsed\<close> request on a token program.\<close>

definition new_resolver :: "pubkey \<Rightarrow> ui_encoding option \<Rightarrow> u64 \<Rightarrow> int \<Rightarrow> resolver option" where
  "new_resolver program encoding slot block_time =
     (if \<not> is_token_program program \<or> encoding \<noteq> Some Enc_JsonParsed then None
      else Some \<lparr>mr_slot = slot, mr_block_time = block_time, mr_mints = fmempty, mr_volatility = None\<rparr>)"

definition resolver_with_mint :: "mint_codec \<Rightarrow> pubkey \<Rightarrow> pubkey \<Rightarrow> u8 list \<Rightarrow> resolver \<Rightarrow> resolver" where
  "resolver_with_mint codec mint owner data r = (case from_mint codec mint data of
     None \<Rightarrow> r
   | Some state \<Rightarrow> r \<lparr>mr_mints := fmupd mint (classify owner state) (mr_mints r)\<rparr>)"

definition mark_as_volatile :: "volatility \<Rightarrow> resolver \<Rightarrow> resolver" where
  "mark_as_volatile reason r =
     r \<lparr>mr_volatility := Some (case mr_volatility r of None \<Rightarrow> reason | Some v \<Rightarrow> v)\<rparr>"

text \<open>A row of the statement: whole, or, on the cached path, only its key and slot.\<close>

datatype sent_row = Whole db_row | Unchanged "u8 list" int

definition row_mint :: "decoder \<Rightarrow> sent_row \<Rightarrow> pubkey option" where
  "row_mint dec row = (case row of Whole r \<Rightarrow> de_token_mint dec (dr_data r) | Unchanged _ _ \<Rightarrow> None)"

definition new_mint_keys :: "decoder \<Rightarrow> sent_row list \<Rightarrow> resolver \<Rightarrow> pubkey list" where
  "new_mint_keys dec rows r =
     filter (\<lambda>mint. mint \<noteq> mc_native_mint (de_codec dec) \<and> fmlookup (mr_mints r) mint = None)
       (remdups (List.map_filter (row_mint dec) rows))"

definition add_fetched :: "mint_codec \<Rightarrow> pubkey \<times> pubkey \<times> u8 list \<Rightarrow> (pubkey, mint_state) fmap \<Rightarrow> (pubkey, mint_state) fmap" where
  "add_fetched codec = (\<lambda>(pubkey, owner, data) mints. case from_mint codec pubkey data of
     None \<Rightarrow> mints
   | Some state \<Rightarrow> fmupd pubkey (classify owner state) mints)"

text \<open>\<open>MintResolver::resolve_mints\<close>. \<open>fetch\<close> answers the query by keys at a slot, \<open>None\<close> when it fails, times out or
  returns a row without its columns.\<close>

definition resolve_batch :: "decoder \<Rightarrow> mint_api option \<Rightarrow> (pubkey list \<Rightarrow> u64 \<Rightarrow> (pubkey \<times> pubkey \<times> u8 list) list option)
    \<Rightarrow> sent_row list \<Rightarrow> resolver option \<Rightarrow> resolver option rpc_result" where
  "resolve_batch dec mint_cache fetch rows resolver = (case resolver of
     None \<Rightarrow> Inr None
   | Some r \<Rightarrow>
       (let (mints, left) = resolve_mints mint_cache (new_mint_keys dec rows r) (mr_slot r) (mr_mints r)
        in if left = [] then Inr (Some (r \<lparr>mr_mints := mints\<rparr>))
           else case fetch left (mr_slot r) of
                  None \<Rightarrow> Inl InternalError
                | Some fetched \<Rightarrow> Inr (Some (r \<lparr>mr_mints := fold (add_fetched (de_codec dec)) fetched mints\<rparr>))))"

definition get_mint_data :: "decoder \<Rightarrow> sent_row \<Rightarrow> resolver option \<Rightarrow> additional_data option \<times> resolver option" where
  "get_mint_data dec row resolver = (case resolver of
     None \<Rightarrow> (None, None)
   | Some r \<Rightarrow>
       (case row_mint dec row of
          None \<Rightarrow> (None, Some r)
        | Some mint \<Rightarrow>
            if mint = mc_native_mint (de_codec dec)
            then (map_option (additional_of (mr_block_time r)) (from_mint (de_codec dec) mint []), Some r)
            else case fmlookup (mr_mints r) mint of
                   None \<Rightarrow> (None, Some (mark_as_volatile Mutable_Mint r))
                 | Some state \<Rightarrow>
                     (Some (additional_of (mr_block_time r) state),
                      Some (if ms_immutable state then r else mark_as_volatile Mutable_Mint r))))"

text \<open>One account of the stream, and \<open>should_drop\<close>.\<close>

datatype maybe_json_account = Cached_Json pubkey "u8 list" | Fresh_Account pubkey encoded_account

definition should_drop :: "maybe_json_account \<Rightarrow> resolver option \<Rightarrow> bool \<times> resolver option" where
  "should_drop account resolver = (case resolver of
     None \<Rightarrow> (False, None)
   | Some r \<Rightarrow>
       (case account of
          Fresh_Account _ e \<Rightarrow> if ea_parsed e then (False, Some r) else (True, Some (mark_as_volatile Dropped_Account r))
        | Cached_Json _ _ \<Rightarrow> (False, Some r)))"

section \<open>The processor of a request\<close>

record request_cache =
  rq_cached_query :: "cached_query option"
  rq_normalized_query :: "normalized_query option"
  rq_new_accounts :: "(pubkey \<times> u8 list) list"
  rq_cache_hits :: u64
  rq_new_slot :: u64

datatype gpa_processor = Standard | Cached request_cache

definition for_request :: "bool \<Rightarrow> rpc_filter_type list \<Rightarrow> gpa_processor" where
  "for_request cache_configured filters =
     (if \<not> cache_configured \<or> has_value_cmp filters then Standard
      else Cached \<lparr>rq_cached_query = None, rq_normalized_query = None, rq_new_accounts = [], rq_cache_hits = 0,
                   rq_new_slot = 0\<rparr>)"

text \<open>\<open>load_sql\<close>: the entry the request reads from, and the cache slot of its statement (\<open>None\<close> for the plain one).
  \<open>None\<close> for the whole is the \<open>unreachable!\<close> of the sort.\<close>

definition load_sql :: "pubkey \<Rightarrow> program_accounts_config \<Rightarrow> u64 \<Rightarrow> gpa_cache \<Rightarrow> gpa_processor
    \<Rightarrow> (gpa_processor \<times> u64 option) option" where
  "load_sql program config latest_slot cache processor = (case processor of
     Standard \<Rightarrow> Some (Standard, None)
   | Cached rq \<Rightarrow>
       map_option (\<lambda>(query, cached).
           (Cached (rq \<lparr>rq_cached_query := cached, rq_normalized_query := Some query, rq_new_slot := latest_slot\<rparr>),
            Some (case cached of None \<Rightarrow> 0 | Some c \<Rightarrow> cq_slot c)))
         (get_cached_query program config cache))"

text \<open>\<open>gpa_with_cache.sql\<close>: the rows of the plain statement; those at or below the cache slot lose their columns.\<close>

definition with_cache_slot :: "u64 option \<Rightarrow> db_row \<Rightarrow> sent_row" where
  "with_cache_slot cache_slot r = (case cache_slot of
     None \<Rightarrow> Whole r
   | Some s \<Rightarrow> if dr_slot r \<le> sint s then Unchanged (dr_pubkey r) (dr_slot r) else Whole r)"

definition sent_rows :: "(db_row list \<Rightarrow> db_row) \<Rightarrow> gpa_request \<Rightarrow> u64 option \<Rightarrow> db_tables \<Rightarrow> sent_row list rpc_result" where
  "sent_rows pick r cache_slot db = rbind (gpa_rows pick r db) (\<lambda>rows. Inr (map (with_cache_slot cache_slot) rows))"

text \<open>\<open>get_program_accounts::process_row\<close>: reading the key, the owner or any column of a row that lost its columns panics
  on the blocking pool.\<close>

definition process_fresh_row :: "decoder \<Rightarrow> ui_encoding \<Rightarrow> data_slice option \<Rightarrow> additional_data option \<Rightarrow> sent_row
    \<Rightarrow> maybe_json_account rpc_result" where
  "process_fresh_row dec encoding dslice additional row = (case row of
     Unchanged _ _ \<Rightarrow> Inl InternalError
   | Whole r \<Rightarrow>
       (case (try_from (dr_pubkey r), try_from (dr_owner r)) of
          (Some pubkey, Some _) \<Rightarrow>
            rbind (check_account_data_len_for_encoding encoding dslice (length (dr_data r)))
              (\<lambda>_. Inr (Fresh_Account pubkey (de_encode dec r encoding dslice additional)))
        | _ \<Rightarrow> Inl InternalError))"

text \<open>\<open>GpaProcessor::process_row\<close>. A row reported as unchanged that the entry does not hold fails the request and
  drops the query from the cache.\<close>

definition process_cached_row :: "u8 list \<Rightarrow> request_cache \<Rightarrow> cached_query \<Rightarrow> gpa_cache
    \<Rightarrow> gpa_cache \<times> maybe_json_account rpc_result" where
  "process_cached_row key rq cached cache = (case try_from key of
     None \<Rightarrow> (cache, Inl InternalError)
   | Some pubkey \<Rightarrow>
       (case fmlookup (cq_accounts cached) pubkey of
          Some bytes \<Rightarrow> (cache, Inr (Cached_Json pubkey bytes))
        | None \<Rightarrow> (case rq_normalized_query rq of None \<Rightarrow> cache | Some q \<Rightarrow> remove_query q cache, Inl InternalError)))"

definition process_row :: "decoder \<Rightarrow> ui_encoding \<Rightarrow> data_slice option \<Rightarrow> additional_data option \<Rightarrow> gpa_processor \<Rightarrow> sent_row
    \<Rightarrow> gpa_cache \<Rightarrow> gpa_cache \<times> maybe_json_account rpc_result" where
  "process_row dec encoding dslice additional processor row cache =
     (let fresh = (cache, process_fresh_row dec encoding dslice additional row)
      in case processor of
           Standard \<Rightarrow> fresh
         | Cached rq \<Rightarrow>
             (case rq_cached_query rq of
                None \<Rightarrow> fresh
              | Some cached \<Rightarrow>
                  (case row of
                     Whole _ \<Rightarrow> fresh
                   | Unchanged key _ \<Rightarrow> process_cached_row key rq cached cache)))"

section \<open>The encoding stream\<close>

text \<open>What a request's stream works on.\<close>

record encoding_input =
  ei_decoder :: decoder
  ei_mint_cache :: "mint_api option"
  ei_fetch :: "pubkey list \<Rightarrow> u64 \<Rightarrow> (pubkey \<times> pubkey \<times> u8 list) list option"
  ei_filters :: "rpc_filter_type list"
  ei_encoding :: ui_encoding
  ei_data_slice :: "data_slice option"
  ei_processor :: gpa_processor

datatype 'a stream_item = Batch 'a | Failed rpc_error | Crashed

definition row_matches :: "rpc_filter_type list \<Rightarrow> sent_row \<Rightarrow> bool option" where
  "row_matches filters row = (case row of
     Whole r \<Rightarrow> account_matches_value_cmps filters (dr_data r)
   | Unchanged _ _ \<Rightarrow> None)"

fun post_filter :: "rpc_filter_type list \<Rightarrow> sent_row list \<Rightarrow> sent_row list option" where
  "post_filter filters [] = Some []"
| "post_filter filters (row # rows) = (case row_matches filters row of
     None \<Rightarrow> None
   | Some keep \<Rightarrow> map_option (\<lambda>rows. if keep then row # rows else rows) (post_filter filters rows))"

fun encode_rows :: "encoding_input \<Rightarrow> sent_row list \<Rightarrow> resolver option \<Rightarrow> gpa_cache
    \<Rightarrow> gpa_cache \<times> (resolver option \<times> maybe_json_account list) rpc_result" where
  "encode_rows ei [] resolver cache = (cache, Inr (resolver, []))"
| "encode_rows ei (row # rows) resolver cache =
     (let (additional, resolver) = get_mint_data (ei_decoder ei) row resolver;
          (cache, account) = process_row (ei_decoder ei) (ei_encoding ei) (ei_data_slice ei) additional (ei_processor ei) row cache
      in case account of
           Inl e \<Rightarrow> (cache, Inl e)
         | Inr account \<Rightarrow>
             (let (dropped, resolver) = should_drop account resolver;
                  (cache, rest) = encode_rows ei rows resolver cache
              in (cache, rbind rest (\<lambda>(resolver, accounts). Inr (resolver, if dropped then accounts else account # accounts)))))"

fun encoding_stream :: "encoding_input \<Rightarrow> (rpc_error + sent_row list) list \<Rightarrow> resolver option \<Rightarrow> gpa_cache
    \<Rightarrow> gpa_cache \<times> resolver option \<times> maybe_json_account list stream_item list" where
  "encoding_stream ei [] resolver cache = (cache, resolver, [])"
| "encoding_stream ei (Inl e # items) resolver cache = (cache, resolver, [Failed e])"
| "encoding_stream ei (Inr rows # items) resolver cache =
     (case (if has_value_cmp (ei_filters ei) then post_filter (ei_filters ei) rows else Some rows) of
        None \<Rightarrow> (cache, resolver, [Crashed])
      | Some rows \<Rightarrow>
          (case resolve_batch (ei_decoder ei) (ei_mint_cache ei) (ei_fetch ei) rows resolver of
             Inl e \<Rightarrow> (cache, resolver, [Failed e])
           | Inr resolver \<Rightarrow>
               (case encode_rows ei rows resolver cache of
                  (cache, Inl e) \<Rightarrow> (cache, resolver, [Failed e]) \<comment> \<open>the resolver is not read again\<close>
                | (cache, Inr (resolver, accounts)) \<Rightarrow>
                    (let (cache, resolver, rest) = encoding_stream ei items resolver cache
                     in (cache, resolver, Batch accounts # rest)))))"

section \<open>What the cache learns\<close>

definition update_new_accounts_for_query :: "(pubkey \<times> u8 list) list \<Rightarrow> u64 \<Rightarrow> gpa_processor \<Rightarrow> gpa_processor" where
  "update_new_accounts_for_query batch hits processor = (case processor of
     Standard \<Rightarrow> Standard
   | Cached rq \<Rightarrow> Cached (rq \<lparr>rq_cache_hits := rq_cache_hits rq + hits, rq_new_accounts := rq_new_accounts rq @ batch\<rparr>))"

text \<open>\<open>finalize_query\<close>: the job it spawns, if any.\<close>

definition finalize_query :: "u64 \<Rightarrow> resolver option \<Rightarrow> gpa_processor \<Rightarrow> finalize_job option" where
  "finalize_query min_bytes_per_query resolver processor = (case processor of
     Standard \<Rightarrow> None
   | Cached rq \<Rightarrow>
       (case rq_normalized_query rq of
          None \<Rightarrow> None
        | Some query \<Rightarrow>
            (let query_bytes = sum_list (map (\<lambda>(_, bytes). of_nat (length bytes)) (rq_new_accounts rq))
             in if query_bytes < min_bytes_per_query then None
                else if (case resolver of None \<Rightarrow> False | Some r \<Rightarrow> mr_volatility r \<noteq> None) then None
                else Some \<lparr>fj_normalized_query = query, fj_accounts = rq_new_accounts rq, fj_query_bytes = query_bytes,
                           fj_slot = rq_new_slot rq, fj_cache_hits = rq_cache_hits rq,
                           fj_previous_query = rq_cached_query rq\<rparr>)))"

section \<open>Served from the cache or from the rows\<close>

fun account_text :: "maybe_json_account \<Rightarrow> pubkey \<times> u8 list" where
  "account_text (Cached_Json key bytes) = (key, bytes)"
| "account_text (Fresh_Account key e) = (key, ea_json e)"

definition texts :: "(resolver option \<times> maybe_json_account list) rpc_result \<Rightarrow> (pubkey \<times> u8 list) list rpc_result" where
  "texts result = rbind result (\<lambda>(_, accounts). Inr (map account_text accounts))"

text \<open>What the mints of a request are: at its slot each mint has a state or none, and there is a block time; \<open>None\<close> for a request
  that resolves no mints, which is any but \<open>jsonParsed\<close> on a token program. A row's text takes the data of its mint from
  there, and a row that does not parse as \<open>jsonParsed\<close> is left out.\<close>

type_synonym mint_world = "((pubkey \<Rightarrow> mint_state option) \<times> int) option"

definition row_data :: "decoder \<Rightarrow> mint_world \<Rightarrow> sent_row \<Rightarrow> additional_data option" where
  "row_data dec w row = (case w of
     None \<Rightarrow> None
   | Some (world, block_time) \<Rightarrow> (case row_mint dec row of
       None \<Rightarrow> None
     | Some mint \<Rightarrow> map_option (additional_of block_time)
         (if mint = mc_native_mint (de_codec dec) then from_mint (de_codec dec) mint [] else world mint)))"

fun account_parsed :: "maybe_json_account \<Rightarrow> bool" where
  "account_parsed (Cached_Json _ _) \<longleftrightarrow> True"
| "account_parsed (Fresh_Account _ e) \<longleftrightarrow> ea_parsed e"

definition row_text :: "decoder \<Rightarrow> ui_encoding \<Rightarrow> data_slice option \<Rightarrow> mint_world \<Rightarrow> sent_row \<Rightarrow> (pubkey \<times> u8 list) option rpc_result" where
  "row_text dec encoding dslice w row =
     rbind (process_fresh_row dec encoding dslice (row_data dec w row) row)
       (\<lambda>account. Inr (if w \<noteq> None \<and> \<not> account_parsed account then None else Some (account_text account)))"

fun all_texts :: "decoder \<Rightarrow> ui_encoding \<Rightarrow> data_slice option \<Rightarrow> mint_world \<Rightarrow> sent_row list \<Rightarrow> (pubkey \<times> u8 list) list rpc_result" where
  "all_texts dec encoding dslice w [] = Inr []"
| "all_texts dec encoding dslice w (row # rows) =
     rbind (row_text dec encoding dslice w row) (\<lambda>t. rbind (all_texts dec encoding dslice w rows) (\<lambda>ts.
       Inr (case t of None \<Rightarrow> ts | Some t \<Rightarrow> t # ts)))"

text \<open>A resolver that has read the mints of some rows.\<close>

definition resolved :: "decoder \<Rightarrow> mint_world \<Rightarrow> sent_row list \<Rightarrow> resolver option \<Rightarrow> bool" where
  "resolved dec w rows resolver \<longleftrightarrow> (case (w, resolver) of
     (None, None) \<Rightarrow> True
   | (Some (world, block_time), Some r) \<Rightarrow> mr_block_time r = block_time
       \<and> (\<forall>row \<in> set rows. \<forall>mint. row_mint dec row = Some mint \<longrightarrow> mint \<noteq> mc_native_mint (de_codec dec) \<longrightarrow>
            fmlookup (mr_mints r) mint = world mint)
   | _ \<Rightarrow> False)"

text \<open>An entry that holds the texts of some rows: all of them parsed, and every mint they take data from immutable.\<close>

definition stable_row :: "decoder \<Rightarrow> mint_world \<Rightarrow> db_row \<Rightarrow> bool" where
  "stable_row dec w r \<longleftrightarrow> (case w of
     None \<Rightarrow> True
   | Some (world, _) \<Rightarrow> (\<forall>mint. row_mint dec (Whole r) = Some mint \<longrightarrow> mint \<noteq> mc_native_mint (de_codec dec) \<longrightarrow>
       (\<exists>state. world mint = Some state \<and> ms_immutable state)))"

definition entry_holds :: "decoder \<Rightarrow> ui_encoding \<Rightarrow> data_slice option \<Rightarrow> mint_world \<Rightarrow> db_row list \<Rightarrow> cached_query \<Rightarrow> bool" where
  "entry_holds dec encoding dslice w rows c \<longleftrightarrow>
     (\<forall>r \<in> set rows. stable_row dec w r \<and> (\<exists>key bytes. row_text dec encoding dslice w (Whole r) = Inr (Some (key, bytes))
        \<and> fmlookup (cq_accounts c) key = Some bytes))"

text \<open>What the token programs guarantee of an immutable mint: it is never changed or closed, and no extension of it depends on
  the time.\<close>

definition mints_stay :: "mint_world \<Rightarrow> mint_world \<Rightarrow> bool" where
  "mints_stay w w' \<longleftrightarrow> (case (w, w') of
     (None, None) \<Rightarrow> True
   | (Some (before, _), Some (now, _)) \<Rightarrow> (\<forall>mint state. before mint = Some state \<longrightarrow> ms_immutable state \<longrightarrow>
       now mint = Some state \<and> ms_configs state = None)
   | _ \<Rightarrow> False)"

lemma stays_text:
  assumes "stable_row dec w r" and "mints_stay w w'"
  shows "row_text dec encoding dslice w' (Whole r) = row_text dec encoding dslice w (Whole r) \<and> stable_row dec w' r"
proof (cases w)
  case None
  then show ?thesis using assms(2) by (cases w') (auto simp: mints_stay_def stable_row_def)
next
  case (Some before)
  then obtain now where w': "w' = Some now" using assms(2) by (cases w') (auto simp: mints_stay_def split: prod.splits)
  obtain world bt world' bt' where worlds: "before = (world, bt)" "now = (world', bt')" by (meson surj_pair)
  have stay: "\<And>mint state. world mint = Some state \<Longrightarrow> ms_immutable state \<Longrightarrow> world' mint = Some state \<and> ms_configs state = None"
    using assms(2) by (auto simp: mints_stay_def Some w' worlds)
  have same: "additional_of bt' state = additional_of bt state" if "ms_configs state = None" for state
    using that by (simp add: additional_of_def)
  have "row_data dec w' (Whole r) = row_data dec w (Whole r)"
  proof (cases "row_mint dec (Whole r)")
    case (Some mint)
    show ?thesis
    proof (cases "mint = mc_native_mint (de_codec dec)")
      case True
      then show ?thesis using Some same by (simp add: row_data_def w' \<open>w = Some before\<close> worlds from_mint_def)
    next
      case False
      then obtain state where "world mint = Some state" "ms_immutable state"
        using assms(1) Some by (auto simp: stable_row_def \<open>w = Some before\<close> worlds)
      then show ?thesis using stay same Some False by (simp add: row_data_def w' \<open>w = Some before\<close> worlds)
    qed
  qed (simp add: row_data_def Some w' worlds)
  moreover have "stable_row dec w' r"
    using assms(1) stay by (fastforce simp: stable_row_def Some w' worlds)
  ultimately show ?thesis by (simp add: row_text_def Some w')
qed

text \<open>No row at or below the entry's slot has changed since it was read: for each key the newest of them is still
  the one the entry was made from, or they are cleaned up.\<close>

definition settled :: "pubkey \<Rightarrow> sql_filters \<Rightarrow> u64 \<Rightarrow> db_tables \<Rightarrow> u64 \<Rightarrow> db_tables \<Rightarrow> bool" where
  "settled program sf s db0 latest db \<longleftrightarrow>
     (\<forall>k. let old = filter (\<lambda>r. dr_pubkey r = k) (program_rows program s sf db0);
              now = filter (\<lambda>r. dr_pubkey r = k \<and> dr_slot r \<le> sint s) (program_rows program latest sf db)
          in (now = [] \<or> newest now = newest old) \<and> (\<forall>a \<in> newest old. \<forall>b \<in> newest old. a = b))"

lemma row_text_key:
  "row_text dec encoding dslice w (Whole r) = Inr (Some (key, bytes)) \<Longrightarrow> try_from (dr_pubkey r) = Some key"
  by (auto simp: row_text_def process_fresh_row_def rbind_def split: option.splits sum.splits if_splits)

lemma settled_selected:
  assumes "picks_newest pick" and "settled program sf s db0 latest db"
    and "r \<in> set (select_program_accounts pick program latest sf db)" and "dr_slot r \<le> sint s"
  shows "r \<in> set (select_program_accounts pick program s sf db0)"
proof -
  let ?rows = "program_rows program latest sf db" and ?old = "program_rows program s sf db0"
  let ?of = "\<lambda>rows k. filter (\<lambda>r. dr_pubkey r = k) rows"
  have "r \<in> set (distinct_on_pubkey pick ?rows)" and open_row: "0 < dr_lamports r"
    using assms(3) by (simp_all add: select_program_accounts_def)
  then obtain k where k: "k \<in> set (row_keys ?rows)" "r = pick (?of ?rows k)"
    unfolding distinct_on_pubkey_def set_map by blast
  have r: "r \<in> newest (?of ?rows k)" using pick_key(1) [OF assms(1) k(1)] k(2) by simp
  then have "\<forall>x \<in> set (?of ?rows k). dr_slot x \<le> sint s" using assms(4) unfolding newest_def by fastforce
  then have now: "filter (\<lambda>r. dr_pubkey r = k \<and> dr_slot r \<le> sint s) ?rows = ?of ?rows k"
    by (intro filter_cong) auto
  have "?of ?rows k \<noteq> []" using r by (auto simp: newest_def filter_empty_conv)
  then have same: "newest (?of ?rows k) = newest (?of ?old k)"
    and unique: "\<forall>a \<in> newest (?of ?old k). \<forall>b \<in> newest (?of ?old k). a = b"
    using assms(2) now unfolding settled_def Let_def by (metis (no_types, lifting))+
  have "r \<in> newest (?of ?old k)" using r same by simp
  then have k0: "k \<in> set (row_keys ?old)" by (auto simp: newest_def)
  have "pick (?of ?old k) = r" using unique pick_key(1) [OF assms(1) k0] \<open>r \<in> newest (?of ?old k)\<close> by blast
  then have "r \<in> set (distinct_on_pubkey pick ?old)" using k0 unfolding distinct_on_pubkey_def by force
  then show ?thesis using open_row by (simp add: select_program_accounts_def)
qed

lemma resolved_step:
  assumes "resolved dec w (row # rows) resolver"
  obtains resolver' where "get_mint_data dec row resolver = (row_data dec w row, resolver')" and "resolved dec w rows resolver'"
proof (cases "(w, resolver)")
  case (Pair w' resolver0)
  show thesis
  proof (cases w)
    case None
    then show ?thesis using assms by (intro that [of None]) (auto simp: resolved_def get_mint_data_def row_data_def split: option.splits)
  next
    case (Some wb)
    obtain world bt where wb: "wb = (world, bt)" by (cases wb)
    obtain r where r: "resolver = Some r" "mr_block_time r = bt"
      "\<forall>row \<in> set (row # rows). \<forall>mint. row_mint dec row = Some mint \<longrightarrow> mint \<noteq> mc_native_mint (de_codec dec) \<longrightarrow>
          fmlookup (mr_mints r) mint = world mint"
      using assms by (auto simp: resolved_def Some wb split: option.splits)
    have "\<exists>additional r'. get_mint_data dec row (Some r) = (additional, Some r')"
      by (simp add: get_mint_data_def split: option.split)
    then obtain additional r' where g: "get_mint_data dec row (Some r) = (additional, Some r')" by blast
    have "additional = row_data dec w row" "mr_mints r' = mr_mints r" "mr_block_time r' = mr_block_time r"
      using g r(2,3) by (auto simp: get_mint_data_def row_data_def Some wb mark_as_volatile_def eq_commute [of "Some _" "world _"]
          split: option.splits if_splits)
    then show ?thesis using g r by (intro that [of "Some r'"]) (auto simp: resolved_def Some wb)
  qed
qed

lemma resolved_drop:
  assumes "resolved dec w rows resolver"
  obtains resolver' where "should_drop account resolver = (w \<noteq> None \<and> \<not> account_parsed account, resolver')" and "resolved dec w rows resolver'"
proof (cases w)
  case None
  then show ?thesis using assms by (intro that [of None]) (auto simp: resolved_def should_drop_def split: option.splits)
next
  case (Some wb)
  then obtain r where r: "resolver = Some r" using assms by (cases wb) (auto simp: resolved_def split: option.splits)
  have "\<exists>dropped r'. should_drop account (Some r) = (dropped, Some r')" by (cases account) (auto simp: should_drop_def)
  then obtain dropped r' where d: "should_drop account (Some r) = (dropped, Some r')" by blast
  have "dropped \<longleftrightarrow> w \<noteq> None \<and> \<not> account_parsed account" "mr_mints r' = mr_mints r" "mr_block_time r' = mr_block_time r"
    using d Some by (auto simp: should_drop_def mark_as_volatile_def split: maybe_json_account.splits if_splits)
  then show ?thesis using d r assms Some by (intro that [of "Some r'"]) (auto simp: resolved_def split: prod.splits)
qed

lemma encode_row_texts:
  assumes "get_mint_data (ei_decoder ei) row resolver = (additional, resolver1)"
    and "process_row (ei_decoder ei) (ei_encoding ei) (ei_data_slice ei) additional (ei_processor ei) row cache = (cache, account)"
    and "\<And>acc. account = Inr acc \<Longrightarrow> should_drop acc resolver1 = (dropped acc, resolver2 acc)"
    and "\<And>acc. account = Inr acc \<Longrightarrow> fst (encode_rows ei rows (resolver2 acc) cache) = cache
      \<and> texts (snd (encode_rows ei rows (resolver2 acc) cache)) = ts"
  shows "fst (encode_rows ei (row # rows) resolver cache) = cache \<and> texts (snd (encode_rows ei (row # rows) resolver cache)) =
    rbind account (\<lambda>acc. rbind ts (\<lambda>ts. Inr (if dropped acc then ts else account_text acc # ts)))"
proof (cases account)
  case (Inr acc)
  obtain rest where rest: "encode_rows ei rows (resolver2 acc) cache = (cache, rest)" "texts rest = ts"
    using assms(4) [OF Inr] by (metis prod.collapse)
  then show ?thesis using assms(1,2) assms(3) [OF Inr] Inr
    by (cases rest) (auto simp: texts_def rbind_def)
qed (use assms(1,2) in \<open>simp add: texts_def rbind_def\<close>)

lemma encode_rows_fresh:
  assumes "ei_processor ei = Standard \<or> (\<exists>rq. ei_processor ei = Cached rq \<and> rq_cached_query rq = None)"
    and "resolved (ei_decoder ei) w rows resolver"
  shows "fst (encode_rows ei rows resolver cache) = cache \<and>
    texts (snd (encode_rows ei rows resolver cache)) = all_texts (ei_decoder ei) (ei_encoding ei) (ei_data_slice ei) w rows"
  using assms(2)
proof (induction rows arbitrary: resolver)
  case (Cons row rows)
  let ?dec = "ei_decoder ei" and ?enc = "ei_encoding ei" and ?ds = "ei_data_slice ei"
  obtain resolver1 where g: "get_mint_data ?dec row resolver = (row_data ?dec w row, resolver1)" and r1: "resolved ?dec w rows resolver1"
    using Cons.prems by (rule resolved_step)
  have p: "process_row ?dec ?enc ?ds (row_data ?dec w row) (ei_processor ei) row cache =
      (cache, process_fresh_row ?dec ?enc ?ds (row_data ?dec w row) row)"
    using assms(1) by (auto simp: process_row_def Let_def)
  have d: "\<exists>resolver2. should_drop acc resolver1 = (w \<noteq> None \<and> \<not> account_parsed acc, resolver2) \<and> resolved ?dec w rows resolver2" for acc
    by (rule resolved_drop [OF r1, of acc]) blast
  define next_resolver where "next_resolver acc = snd (should_drop acc resolver1)" for acc
  have drop: "should_drop acc resolver1 = (w \<noteq> None \<and> \<not> account_parsed acc, next_resolver acc)"
    and r2: "resolved ?dec w rows (next_resolver acc)" for acc
    using d [of acc] by (auto simp: next_resolver_def)
  note step = encode_row_texts [OF g p drop Cons.IH [OF r2]]
  then show ?case
    by (cases "process_fresh_row ?dec ?enc ?ds (row_data ?dec w row) row"; cases "all_texts ?dec ?enc ?ds w rows")
      (auto simp: row_text_def rbind_def)
qed (simp add: texts_def rbind_def)

lemma encode_rows_cached:
  assumes "ei_processor ei = Cached rq" and "rq_cached_query rq = Some c"
    and "\<forall>r \<in> set rows. dr_slot r \<le> sint s \<longrightarrow>
      (\<exists>key bytes. row_text (ei_decoder ei) (ei_encoding ei) (ei_data_slice ei) w (Whole r) = Inr (Some (key, bytes))
        \<and> fmlookup (cq_accounts c) key = Some bytes)"
    and "resolved (ei_decoder ei) w (map (with_cache_slot (Some s)) rows) resolver"
  shows "fst (encode_rows ei (map (with_cache_slot (Some s)) rows) resolver cache) = cache \<and>
    texts (snd (encode_rows ei (map (with_cache_slot (Some s)) rows) resolver cache)) =
      all_texts (ei_decoder ei) (ei_encoding ei) (ei_data_slice ei) w (map Whole rows)"
  using assms(3,4)
proof (induction rows arbitrary: resolver)
  case (Cons r rows)
  let ?dec = "ei_decoder ei" and ?enc = "ei_encoding ei" and ?ds = "ei_data_slice ei"
  let ?row = "with_cache_slot (Some s) r"
  obtain resolver1 where g: "get_mint_data ?dec ?row resolver = (row_data ?dec w ?row, resolver1)"
    and r1: "resolved ?dec w (map (with_cache_slot (Some s)) rows) resolver1"
    using Cons.prems(2) unfolding list.map by (rule resolved_step)
  define next_resolver where "next_resolver acc = snd (should_drop acc resolver1)" for acc
  have d: "\<exists>resolver2. should_drop acc resolver1 = (w \<noteq> None \<and> \<not> account_parsed acc, resolver2)
      \<and> resolved ?dec w (map (with_cache_slot (Some s)) rows) resolver2" for acc
    by (rule resolved_drop [OF r1, of acc]) blast
  have drop: "should_drop acc resolver1 = (w \<noteq> None \<and> \<not> account_parsed acc, next_resolver acc)"
    and r2: "resolved ?dec w (map (with_cache_slot (Some s)) rows) (next_resolver acc)" for acc
    using d [of acc] by (auto simp: next_resolver_def)
  have "\<forall>r \<in> set rows. dr_slot r \<le> sint s \<longrightarrow> (\<exists>key bytes. row_text ?dec ?enc ?ds w (Whole r) = Inr (Some (key, bytes))
      \<and> fmlookup (cq_accounts c) key = Some bytes)" using Cons.prems(1) by simp
  note IH = Cons.IH [OF this r2]
  show ?case
  proof (cases "dr_slot r \<le> sint s")
    case True
    then obtain key bytes where t: "row_text ?dec ?enc ?ds w (Whole r) = Inr (Some (key, bytes))"
      and c: "fmlookup (cq_accounts c) key = Some bytes" using Cons.prems by auto
    have "process_row ?dec ?enc ?ds (row_data ?dec w ?row) (ei_processor ei) ?row cache = (cache, Inr (Cached_Json key bytes))"
      using assms(1,2) True row_text_key [OF t] c
      by (simp add: process_row_def with_cache_slot_def process_cached_row_def Let_def)
    from encode_row_texts [OF g this drop IH] show ?thesis
      using t by (cases "all_texts ?dec ?enc ?ds w (map Whole rows)") (auto simp: rbind_def)
  next
    case False
    then have row: "?row = Whole r" by (simp add: with_cache_slot_def)
    have "process_row ?dec ?enc ?ds (row_data ?dec w ?row) (ei_processor ei) ?row cache =
        (cache, process_fresh_row ?dec ?enc ?ds (row_data ?dec w ?row) ?row)"
      using assms(1,2) row by (simp add: process_row_def Let_def)
    from encode_row_texts [OF g this drop IH] show ?thesis
      unfolding list.map row
      by (cases "process_fresh_row ?dec ?enc ?ds (row_data ?dec w (Whole r)) (Whole r)"; cases "all_texts ?dec ?enc ?ds w (map Whole rows)")
        (auto simp: row_text_def rbind_def)
  qed
qed (simp add: texts_def rbind_def)

text \<open>The rows a request encodes: on the cached path at the slot of its entry.\<close>

definition request_rows :: "(db_row list \<Rightarrow> db_row) \<Rightarrow> pubkey \<Rightarrow> u64 \<Rightarrow> sql_filters \<Rightarrow> db_tables \<Rightarrow> u64 option \<Rightarrow> sent_row list" where
  "request_rows pick program latest sf db cache_slot =
     map (with_cache_slot cache_slot) (select_program_accounts pick program latest sf db)"

lemma all_texts_length:
  "all_texts dec encoding dslice w rows = Inr ts \<Longrightarrow> length ts \<le> length rows \<and> (w = None \<longrightarrow> length ts = length rows)"
proof (induction rows arbitrary: ts)
  case (Cons r rows)
  then show ?case by (fastforce simp: rbind_def row_text_def split: sum.splits option.splits if_splits)
qed simp

lemma all_texts_keys:
  "all_texts dec encoding dslice w (map Whole rows) = Inr ts \<Longrightarrow> length ts = length rows \<Longrightarrow>
   \<forall>i < length rows. row_text dec encoding dslice w (Whole (rows ! i)) = Inr (Some (ts ! i))"
proof (induction rows arbitrary: ts)
  case (Cons r rows)
  then obtain t ts' where t: "row_text dec encoding dslice w (Whole r) = Inr t"
      "all_texts dec encoding dslice w (map Whole rows) = Inr ts'" "ts = (case t of None \<Rightarrow> ts' | Some t \<Rightarrow> t # ts')"
    by (auto simp: rbind_def split: sum.splits)
  have "length ts' \<le> length rows" using all_texts_length [OF t(2)] by simp
  then obtain t' where t': "t = Some t'" "length ts' = length rows" using t(3) Cons.prems(2) by (cases t) auto
  then show ?case using Cons.IH [OF t(2) t'(2)] t by (auto simp: nth_Cons split: nat.split)
qed simp

lemma all_texts_distinct:
  assumes "picks_newest pick"
    and "all_texts dec encoding dslice w (map Whole (select_program_accounts pick program latest sf db)) = Inr ts"
    and "length ts = length (select_program_accounts pick program latest sf db)"
  shows "distinct (map fst ts)"
proof -
  let ?sel = "select_program_accounts pick program latest sf db"
  note ts = all_texts_keys [OF assms(2,3)]
  have keys: "try_from (dr_pubkey (?sel ! i)) = Some (fst (ts ! i))" if "i < length ?sel" for i
    using ts that row_text_key by (metis prod.collapse)
  have "map dr_pubkey ?sel = map (to_bytes \<circ> fst) ts"
    by (rule nth_equalityI) (use assms(3) keys in \<open>auto simp: try_from_eq_Some\<close>)
  moreover have "distinct (map dr_pubkey ?sel)"
    using select_keys_sorted [OF assms(1)] strict_sorted_iff by blast
  ultimately have "distinct (map to_bytes (map fst ts))" by (simp add: comp_def)
  then show ?thesis by (auto simp: distinct_map dest: inj_on_imageI2)
qed

lemma entry_holds_texts:
  assumes "picks_newest pick"
    and "all_texts dec encoding dslice w (map Whole (select_program_accounts pick program latest sf db)) = Inr ts"
    and "length ts = length (select_program_accounts pick program latest sf db)"
    and "\<forall>r \<in> set (select_program_accounts pick program latest sf db). stable_row dec w r"
    and "mset (fj_accounts job) = mset ts"
  shows "entry_holds dec encoding dslice w (select_program_accounts pick program latest sf db) (new_entry job)"
  unfolding entry_holds_def
proof (intro ballI conjI)
  let ?sel = "select_program_accounts pick program latest sf db"
  fix r
  assume r: "r \<in> set ?sel"
  then show "stable_row dec w r" using assms(4) by blast
  obtain i where i: "i < length ?sel" "r = ?sel ! i" using r by (auto simp: in_set_conv_nth)
  obtain key bytes where t: "ts ! i = (key, bytes)" by fastforce
  then have found: "row_text dec encoding dslice w (Whole r) = Inr (Some (key, bytes))"
    using all_texts_keys [OF assms(2,3)] i by simp
  have "(key, bytes) \<in> set ts" using assms(3) i t by (metis nth_mem)
  then have member: "(key, bytes) \<in> set (rev (fj_accounts job))" using mset_eq_setD [OF assms(5)] by simp
  have "mset (map fst (rev (fj_accounts job))) = mset (map fst ts)" using assms(5) by simp
  then have "distinct (map fst (rev (fj_accounts job)))"
    using all_texts_distinct [OF assms(1-3)] mset_eq_imp_distinct_iff by blast
  then have "fmlookup (cq_accounts (new_entry job)) key = Some bytes"
    using member by (simp add: new_entry_def fmlookup_of_list)
  with found show "\<exists>key bytes. row_text dec encoding dslice w (Whole r) = Inr (Some (key, bytes))
      \<and> fmlookup (cq_accounts (new_entry job)) key = Some bytes" by blast
qed

lemma mark_mints [simp]: "mr_mints (mark_as_volatile v r) = mr_mints r"
  and mark_volatile [simp]: "mr_volatility (mark_as_volatile v r) \<noteq> None"
  by (simp_all add: mark_as_volatile_def)

lemma get_mint_data_stable:
  assumes "get_mint_data dec row (Some r) = (additional, Some r')" and "mr_volatility r' = None"
  shows "r' = r \<and> (\<forall>mint. row_mint dec row = Some mint \<longrightarrow> mint \<noteq> mc_native_mint (de_codec dec) \<longrightarrow>
    (\<exists>state. fmlookup (mr_mints r) mint = Some state \<and> ms_immutable state))"
  using assms by (auto simp: get_mint_data_def split: option.splits if_splits)

lemma get_mint_data_some: "\<exists>additional r'. get_mint_data dec row (Some r) = (additional, Some r')"
  by (simp add: get_mint_data_def split: option.split)

lemma should_drop_stable:
  assumes "should_drop account (Some r) = (dropped, Some r')" and "mr_volatility r' = None"
  shows "r' = r \<and> \<not> dropped \<and> (\<forall>key e. account = Fresh_Account key e \<longrightarrow> ea_parsed e)"
  using assms by (auto simp: should_drop_def split: maybe_json_account.splits if_splits)

lemma should_drop_some: "\<exists>dropped r'. should_drop account (Some r) = (dropped, Some r')"
  by (cases account) (auto simp: should_drop_def)

lemma encode_rows_stable:
  assumes "encode_rows ei rows (Some r) cache = (cache', Inr (Some r', accounts))" and "mr_volatility r' = None"
  shows "r' = r \<and> length accounts = length rows
    \<and> (\<forall>key e. Fresh_Account key e \<in> set accounts \<longrightarrow> ea_parsed e)
    \<and> (\<forall>row \<in> set rows. \<forall>mint. row_mint (ei_decoder ei) row = Some mint \<longrightarrow> mint \<noteq> mc_native_mint (de_codec (ei_decoder ei)) \<longrightarrow>
         (\<exists>state. fmlookup (mr_mints r) mint = Some state \<and> ms_immutable state))"
  using assms
proof (induction rows arbitrary: r cache accounts)
  case (Cons row rows)
  obtain additional r1 where g: "get_mint_data (ei_decoder ei) row (Some r) = (additional, Some r1)"
    using get_mint_data_some by blast
  obtain cache1 account where p: "process_row (ei_decoder ei) (ei_encoding ei) (ei_data_slice ei) additional (ei_processor ei) row cache
      = (cache1, Inr account)" and r: "encode_rows ei (row # rows) (Some r) cache = (cache', Inr (Some r', accounts))"
    using Cons.prems(1) g by (auto simp: Let_def split: prod.splits sum.splits)
  obtain dropped r2 where d: "should_drop account (Some r1) = (dropped, Some r2)" using should_drop_some by blast
  obtain rest where rest: "encode_rows ei rows (Some r2) cache1 = (cache', Inr (Some r', rest))"
    "accounts = (if dropped then rest else account # rest)"
    using r g p d by (auto simp: Let_def rbind_def split: prod.splits sum.splits)
  note IH = Cons.IH [OF rest(1) Cons.prems(2)]
  then have r2: "mr_volatility r2 = None" using Cons.prems(2) by blast
  note drop = should_drop_stable [OF d r2]
  then have r1: "mr_volatility r1 = None" using r2 by blast
  note get = get_mint_data_stable [OF g r1]
  show ?case using IH drop get rest(2) by auto
qed simp

text \<open>The rows that a stable run has seen take data from immutable mints only, and none was left out.\<close>

lemma stable_run:
  assumes "encode_rows ei rows resolver cache = (cache', Inr (resolver', accounts))" and "resolved (ei_decoder ei) w rows resolver"
    and "case resolver' of None \<Rightarrow> True | Some r \<Rightarrow> mr_volatility r = None" and "w \<noteq> None"
  shows "length accounts = length rows \<and> (\<forall>r. Whole r \<in> set rows \<longrightarrow> stable_row (ei_decoder ei) w r)"
proof -
  obtain world bt where w: "w = Some (world, bt)" using assms(4) by (cases w) auto
  then obtain r where r: "resolver = Some r" "\<forall>row \<in> set rows. \<forall>mint. row_mint (ei_decoder ei) row = Some mint \<longrightarrow>
      mint \<noteq> mc_native_mint (de_codec (ei_decoder ei)) \<longrightarrow> fmlookup (mr_mints r) mint = world mint"
    using assms(2) by (auto simp: resolved_def split: option.splits)
  have "\<exists>r'. resolver' = Some r'"
    using assms(1) unfolding r(1)
  proof (induction rows arbitrary: r cache accounts)
    case (Cons row rows)
    obtain additional r1 where g: "get_mint_data (ei_decoder ei) row (Some r) = (additional, Some r1)" using get_mint_data_some by blast
    obtain cache1 account where p: "process_row (ei_decoder ei) (ei_encoding ei) (ei_data_slice ei) additional (ei_processor ei) row cache
        = (cache1, Inr account)" using Cons.prems g by (auto simp: Let_def split: prod.splits sum.splits)
    obtain dropped r2 where d: "should_drop account (Some r1) = (dropped, Some r2)" using should_drop_some by blast
    obtain rest where "encode_rows ei rows (Some r2) cache1 = (cache', Inr (resolver', rest))"
      using Cons.prems g p d by (auto simp: Let_def rbind_def split: prod.splits sum.splits)
    then show ?case by (rule Cons.IH)
  qed auto
  then obtain r' where r': "resolver' = Some r'" "mr_volatility r' = None" using assms(3) by auto
  from encode_rows_stable [OF assms(1) [unfolded r(1) r'(1)] r'(2)] r(2) show ?thesis
    by (auto simp: stable_row_def w)
qed

text \<open>C9: a request served from the cache answers what it would answer without one, also when it resolves mints. The entry
  holds the texts of the rows of an earlier request, since then no row at or below its slot was written late, and the
  mints its texts rest on were immutable, which they stay. Then the request on the cached path, its rows taken as one
  batch, gives account by account and in the same order the texts the plain statement gives, without the same accounts
  that do not parse, or it gives the same error; and it leaves the cache alone. What it accumulates, if its resolver saw
  nothing volatile, is again such an entry at its own slot, so the cache stays exact over any number of refreshes.\<close>

theorem cached_request_as_fresh:
  assumes "picks_newest pick" and "ei_processor ei = Cached rq" and "rq_cached_query rq = Some c"
    and "entry_holds (ei_decoder ei) (ei_encoding ei) (ei_data_slice ei) w0
           (select_program_accounts pick program (cq_slot c) sf db0) c"
    and "settled program sf (cq_slot c) db0 latest db" and "mints_stay w0 w"
    and "resolved (ei_decoder ei) w (request_rows pick program latest sf db (Some (cq_slot c))) resolver"
    and "resolved (ei_decoder ei) w (request_rows pick program latest sf db None) plain_resolver"
    and "cached = encode_rows ei (request_rows pick program latest sf db (Some (cq_slot c))) resolver cache"
    and "plain = encode_rows (ei \<lparr>ei_processor := Standard\<rparr>) (request_rows pick program latest sf db None) plain_resolver cache"
  shows "texts (snd cached) = texts (snd plain) \<and> fst cached = cache
    \<and> (\<forall>resolver' accounts. snd cached = Inr (resolver', accounts) \<longrightarrow>
         (case resolver' of None \<Rightarrow> True | Some r \<Rightarrow> mr_volatility r = None) \<longrightarrow>
         mset (fj_accounts job) = mset (map account_text accounts) \<longrightarrow>
         entry_holds (ei_decoder ei) (ei_encoding ei) (ei_data_slice ei) w
           (select_program_accounts pick program latest sf db) (new_entry job))"
proof -
  let ?sel = "select_program_accounts pick program latest sf db"
  let ?dec = "ei_decoder ei" and ?enc = "ei_encoding ei" and ?ds = "ei_data_slice ei"
  have old: "stable_row ?dec w r \<and> (\<exists>key bytes. row_text ?dec ?enc ?ds w (Whole r) = Inr (Some (key, bytes))
      \<and> fmlookup (cq_accounts c) key = Some bytes)" if "r \<in> set ?sel" "dr_slot r \<le> sint (cq_slot c)" for r
    using assms(4) settled_selected [OF assms(1,5) that] stays_text [OF _ assms(6)] unfolding entry_holds_def by metis
  have whole: "with_cache_slot None = Whole" by (rule ext) (simp add: with_cache_slot_def)
  have plain: "texts (snd plain) = all_texts ?dec ?enc ?ds w (map Whole ?sel)"
    using encode_rows_fresh [of "ei \<lparr>ei_processor := Standard\<rparr>" w "map Whole ?sel" plain_resolver cache] assms(8)
    unfolding assms(10) request_rows_def whole by simp
  have cached: "fst cached = cache \<and> texts (snd cached) = all_texts ?dec ?enc ?ds w (map Whole ?sel)"
    unfolding assms(9) request_rows_def
    by (rule encode_rows_cached [OF assms(2,3)]) (use old assms(7) in \<open>auto simp: request_rows_def\<close>)
  have "entry_holds ?dec ?enc ?ds w ?sel (new_entry job)"
    if run: "snd cached = Inr (resolver', accounts)" "case resolver' of None \<Rightarrow> True | Some r \<Rightarrow> mr_volatility r = None"
      and learned: "mset (fj_accounts job) = mset (map account_text accounts)" for resolver' accounts
  proof -
    have ts: "all_texts ?dec ?enc ?ds w (map Whole ?sel) = Inr (map account_text accounts)"
      using cached run(1) by (simp add: texts_def rbind_def)
    have run': "encode_rows ei (request_rows pick program latest sf db (Some (cq_slot c))) resolver cache = (cache, Inr (resolver', accounts))"
      using cached run(1) assms(9) by (metis prod.collapse)
    note stable = stable_run [OF run' assms(7) run(2)]
    have full: "length (map account_text accounts) = length ?sel"
    proof (cases w)
      case None
      then show ?thesis using all_texts_length [OF ts] by simp
    next
      case (Some _)
      then show ?thesis using stable by (simp add: request_rows_def)
    qed
    have "stable_row ?dec w r" if r: "r \<in> set ?sel" for r
    proof (cases "dr_slot r \<le> sint (cq_slot c)")
      case True
      then show ?thesis using old r by blast
    next
      case False
      then have "Whole r \<in> set (request_rows pick program latest sf db (Some (cq_slot c)))"
        using r by (force simp: request_rows_def with_cache_slot_def)
      then show ?thesis using stable by (cases w) (auto simp: stable_row_def)
    qed
    then show ?thesis using entry_holds_texts [OF assms(1) ts full _ learned] by blast
  qed
  with plain cached show ?thesis by simp
qed

definition wit_decoder :: decoder where
  "wit_decoder = \<lparr>de_codec = \<lparr>mc_unpack = (\<lambda>_. None), mc_native_mint = pk 77, mc_native_decimals = 9,
       mc_interest_bearing_len = 52, mc_scaled_ui_amount_len = 56\<rparr>,
     de_token_mint = (\<lambda>data. try_from (take 32 data)),
     de_encode = (\<lambda>row _ _ _. \<lparr>ea_json = dr_data row, ea_parsed = True\<rparr>)\<rparr>"

definition wit_sf :: sql_filters where
  "wit_sf = \<lparr>sf_preds = [], sf_params = [], sf_label = ''gpa''\<rparr>"

definition wit_first :: db_row where
  "wit_first = wit_account_row (replicate 32 3) (pk 1) (replicate 32 9)"

definition wit_second :: db_row where
  "wit_second = (wit_account_row (replicate 32 4) (pk 1) [3]) \<lparr>dr_slot := 12\<rparr>"

definition wit_request_cache :: request_cache where
  "wit_request_cache = \<lparr>rq_cached_query = Some \<lparr>cq_accounts = fmupd (pk 3) (replicate 32 9) fmempty, cq_slot = 9, cq_size = 32, cq_cache_hits = 0\<rparr>,
     rq_normalized_query = Some (wit_query 1), rq_new_accounts = [], rq_cache_hits = 0, rq_new_slot = 15\<rparr>"

definition wit_input :: encoding_input where
  "wit_input = \<lparr>ei_decoder = wit_decoder, ei_mint_cache = None, ei_fetch = (\<lambda>_ _. None), ei_filters = [],
     ei_encoding = Enc_Base64, ei_data_slice = None, ei_processor = Cached wit_request_cache\<rparr>"

lemma wit_row_simps:
  "dr_pubkey wit_first = replicate 32 3" "dr_owner wit_first = replicate 32 1" "dr_slot wit_first = 8" "dr_lamports wit_first = 5"
  "dr_data wit_first = replicate 32 9" "dr_pubkey wit_second = replicate 32 4" "dr_owner wit_second = replicate 32 1"
  "dr_slot wit_second = 12" "dr_lamports wit_second = 5" "dr_data wit_second = [3]"
  by (simp_all add: wit_first_def wit_second_def wit_account_row_def)

lemma wit_matches [simp]: "sql_matches wit_sf data"
  by (simp add: sql_matches_def wit_sf_def)

lemma wit_old_rows: "program_rows (pk 1) 9 wit_sf \<lparr>tb_accounts = [wit_first], tb_snapshot_accounts = []\<rparr> = [wit_first]"
  by (simp add: program_rows_def wit_row_simps)

lemma wit_new_rows:
  "program_rows (pk 1) 15 wit_sf \<lparr>tb_accounts = [wit_first, wit_second], tb_snapshot_accounts = []\<rparr> = [wit_first, wit_second]"
  by (simp add: program_rows_def wit_row_simps)

lemma wit_keys_le: "replicate 32 (3 :: u8) \<le> replicate 32 4"
  by (rule less_imp_le) (simp add: replicate_less_iff)

lemma wit_selected:
  "select_program_accounts wit_pick (pk 1) 9 wit_sf \<lparr>tb_accounts = [wit_first], tb_snapshot_accounts = []\<rparr> = [wit_first]"
  "select_program_accounts wit_pick (pk 1) 15 wit_sf \<lparr>tb_accounts = [wit_first, wit_second], tb_snapshot_accounts = []\<rparr> =
     [wit_first, wit_second]"
  by (simp_all add: select_program_accounts_def distinct_on_pubkey_def row_keys_def wit_old_rows wit_new_rows wit_row_simps
      wit_single wit_keys_le)

definition wit_resolver :: resolver where
  "wit_resolver = \<lparr>mr_slot = 15, mr_block_time = 7, mr_mints = fmupd (pk 9) (immutable_state 6) fmempty, mr_volatility = None\<rparr>"

definition wit_world :: mint_world where
  "wit_world = Some (fmlookup (fmupd (pk 9) (immutable_state 6) fmempty), 7)"

lemma wit_row_mint:
  "row_mint wit_decoder (Whole wit_first) = Some (pk 9)" "row_mint wit_decoder (Whole wit_second) = None"
  "row_mint wit_decoder (Unchanged key slot) = None"
  by (simp_all add: row_mint_def wit_decoder_def wit_row_simps try_from_eq_None)

text \<open>Two accounts, the first a token account of an immutable mint: the entry of slot 9 serves it at slot 15, and the second,
  written in between, is encoded.\<close>

lemma cached_request_as_fresh_witness:
  "texts (snd (encode_rows (wit_input \<lparr>ei_encoding := Enc_JsonParsed\<rparr>) [Unchanged (replicate 32 3) 8, Whole wit_second] (Some wit_resolver) wit_cache)) =
   Inr [(pk 3, replicate 32 9), (pk 4, [3])]"
proof -
  let ?ei = "wit_input \<lparr>ei_encoding := Enc_JsonParsed\<rparr>" and ?c = "the (rq_cached_query wit_request_cache)"
  let ?old = "\<lparr>tb_accounts = [wit_first], tb_snapshot_accounts = []\<rparr>"
    and ?new = "\<lparr>tb_accounts = [wit_first, wit_second], tb_snapshot_accounts = []\<rparr>"
  have holds: "entry_holds (ei_decoder ?ei) (ei_encoding ?ei) (ei_data_slice ?ei) wit_world
      (select_program_accounts wit_pick (pk 1) 9 wit_sf ?old) (the (rq_cached_query wit_request_cache))"
    by (simp add: entry_holds_def wit_selected row_text_def process_fresh_row_def wit_row_simps rbind_def wit_input_def
        check_account_data_len_for_encoding_def wit_decoder_def wit_request_cache_def stable_row_def wit_world_def
        wit_row_mint [unfolded wit_decoder_def] immutable_state_def row_data_def)
  have settled: "settled (pk 1) wit_sf 9 ?old 15 ?new"
    by (auto simp: settled_def wit_old_rows wit_new_rows wit_row_simps newest_def)
  have rows: "request_rows wit_pick (pk 1) 15 wit_sf ?new (Some 9) = [Unchanged (replicate 32 3) 8, Whole wit_second]"
    "request_rows wit_pick (pk 1) 15 wit_sf ?new None = [Whole wit_first, Whole wit_second]"
    by (simp_all add: request_rows_def wit_selected with_cache_slot_def wit_row_simps)
  have plain: "texts (snd (encode_rows (?ei \<lparr>ei_processor := Standard\<rparr>) [Whole wit_first, Whole wit_second]
      (Some wit_resolver) wit_cache)) = Inr [(pk 3, replicate 32 9), (pk 4, [3])]"
    by (simp add: get_mint_data_def process_row_def process_fresh_row_def wit_row_simps rbind_def
        check_account_data_len_for_encoding_def wit_input_def wit_decoder_def wit_row_mint [unfolded wit_decoder_def]
        should_drop_def texts_def wit_resolver_def immutable_state_def)
  have resolved: "resolved (ei_decoder ?ei) wit_world rows (Some wit_resolver)" for rows
    by (cases "\<exists>row \<in> set rows. True") (simp_all add: resolved_def wit_world_def wit_resolver_def)
  have stay: "mints_stay wit_world wit_world"
    by (simp add: mints_stay_def wit_world_def immutable_state_def)
  have "texts (snd (encode_rows ?ei (request_rows wit_pick (pk 1) 15 wit_sf ?new (Some (cq_slot ?c))) (Some wit_resolver) wit_cache)) =
      texts (snd (encode_rows (?ei \<lparr>ei_processor := Standard\<rparr>) (request_rows wit_pick (pk 1) 15 wit_sf ?new None) (Some wit_resolver) wit_cache))"
    by (rule cached_request_as_fresh [where pick = wit_pick and rq = wit_request_cache and ?db0.0 = ?old and ?w0.0 = wit_world
          and c = ?c and ei = ?ei and sf = wit_sf and program = "pk 1" and latest = 15 and db = ?new,
          THEN conjunct1, OF wit_pick_newest _ _ _ _ stay _ _ refl refl])
      (use holds settled resolved in \<open>simp_all add: wit_input_def wit_request_cache_def\<close>)
  then show ?thesis using rows plain by (simp add: wit_request_cache_def)
qed

section \<open>What is never cached\<close>

text \<open>a \<open>jsonParsed\<close> response of token accounts is handed to the cache only when it cannot change while its
  accounts do not: every fresh token account had its mint resolved to an immutable one (or the native one), every fresh
  account parsed, and none was left out.\<close>

theorem cached_only_if_stable:
  assumes "encode_rows ei rows (Some r) cache = (cache', Inr (Some r', accounts))"
    and "finalize_query min_bytes (Some r') processor = Some job"
  shows "length accounts = length rows
    \<and> (\<forall>key e. Fresh_Account key e \<in> set accounts \<longrightarrow> ea_parsed e)
    \<and> (\<forall>row \<in> set rows. \<forall>mint. row_mint (ei_decoder ei) row = Some mint \<longrightarrow> mint \<noteq> mc_native_mint (de_codec (ei_decoder ei)) \<longrightarrow>
         (\<exists>state. fmlookup (mr_mints r) mint = Some state \<and> ms_immutable state))"
proof -
  have "mr_volatility r' = None"
    using assms(2) by (auto simp: finalize_query_def Let_def split: gpa_processor.splits option.splits if_splits)
  then show ?thesis using encode_rows_stable [OF assms(1)] by blast
qed

definition wit_mint_row :: db_row where
  "wit_mint_row = wit_account_row (replicate 32 4) (pk 1) (replicate 32 9)"

lemma cached_only_if_stable_witness:
  "\<exists>state. fmlookup (mr_mints wit_resolver) (pk 9) = Some state \<and> ms_immutable state"
proof -
  let ?run = "encode_rows (wit_input \<lparr>ei_processor := Standard\<rparr>) [Whole wit_mint_row] (Some wit_resolver) wit_cache"
  let ?accounts = "[Fresh_Account (pk 4) \<lparr>ea_json = replicate 32 9, ea_parsed = True\<rparr>]"
  have mint: "row_mint wit_decoder (Whole wit_mint_row) = Some (pk 9)"
    by (simp add: row_mint_def wit_decoder_def wit_mint_row_def wit_account_row_def)
  have run: "?run = (wit_cache, Inr (Some wit_resolver, ?accounts))"
    using mint by (simp add: get_mint_data_def wit_input_def wit_resolver_def immutable_state_def process_row_def
        process_fresh_row_def wit_mint_row_def wit_account_row_def check_account_data_len_for_encoding_def
        should_drop_def wit_decoder_def rbind_def)
  have "finalize_query 0 (Some wit_resolver) (Cached wit_request_cache) \<noteq> None"
    by (simp add: finalize_query_def wit_request_cache_def wit_resolver_def)
  then obtain job where "finalize_query 0 (Some wit_resolver) (Cached wit_request_cache) = Some job" by blast
  then show ?thesis
    using cached_only_if_stable [OF run] mint by (simp add: wit_input_def wit_decoder_def)
qed

section \<open>Errors on the cached path\<close>

text \<open>an entry that lacks an account the database reports as unchanged fails the request and drops the query, so that
  the next request rebuilds it; the other entries stay and the counters remain exact.\<close>

theorem inconsistent_entry_dropped:
  assumes "cache = fold cache_step events (new_gpa_cache config)"
    and "ei_processor ei = Cached rq" and "rq_cached_query rq = Some c" and "rq_normalized_query rq = Some q"
    and "try_from key = Some pubkey" and "fmlookup (cq_accounts c) pubkey = None"
  shows "snd (encode_rows ei (Unchanged key slot # rows) None cache) = Inl InternalError
    \<and> (let cache' = fst (encode_rows ei (Unchanged key slot # rows) None cache)
       in fmlookup (gc_queries cache') q = None \<and> gpa_cache_inv cache'
          \<and> (\<forall>p. p \<noteq> q \<longrightarrow> fmlookup (gc_queries cache') p = fmlookup (gc_queries cache) p))"
proof -
  have "encode_rows ei (Unchanged key slot # rows) None cache = (remove_query q cache, Inl InternalError)"
    using assms(2-6) by (simp add: get_mint_data_def process_row_def process_cached_row_def)
  moreover have "gpa_cache_inv (remove_query q cache)"
    using remove_query_inv gpa.invar_run [of events config] assms(1) by blast
  moreover have "fmlookup (gc_queries (remove_query q cache)) p = (if p = q then None else fmlookup (gc_queries cache) p)" for p
    by (auto simp: remove_query_def split: option.split)
  ultimately show ?thesis by simp
qed

lemma inconsistent_entry_dropped_witness:
  "snd (encode_rows wit_input [Unchanged (replicate 32 8) 5] None wit_cache) = Inl InternalError \<and>
   fmlookup (gc_queries (fst (encode_rows wit_input [Unchanged (replicate 32 8) 5] None wit_cache))) (wit_query 1) = None"
  using inconsistent_entry_dropped [OF wit_cache_reached [symmetric], of wit_input wit_request_cache _ "wit_query 1"
      "replicate 32 8" "pk 8" 5 "[]"]
  by (simp add: wit_input_def wit_request_cache_def Let_def)

text \<open>with the cache configured a first request fails when it meets a row of slot 0. A query that is not cached runs the
  cached statement with cache slot 0, which strips the columns of such a row, and the plain row reader then
  panics on them.\<close>

theorem uncached_slot_zero_fails:
  assumes "get_cached_query program config cache = Some (q, None)" and "ei_processor ei = Standard"
    and "row \<in> set (select_program_accounts pick program latest sf db)" and "dr_slot row = 0"
    and "load_sql program config latest cache (Cached rq) = Some (processor, cache_slot)"
  shows "\<exists>e. snd (encode_rows (ei \<lparr>ei_processor := processor\<rparr>)
      (request_rows pick program latest sf db cache_slot) None cache) = Inl e"
proof -
  let ?dec = "ei_decoder ei" and ?enc = "ei_encoding ei" and ?ds = "ei_data_slice ei"
  let ?sent = "request_rows pick program latest sf db (Some 0)"
  have p: "processor = Cached (rq \<lparr>rq_cached_query := None, rq_normalized_query := Some q, rq_new_slot := latest\<rparr>)"
    and s: "cache_slot = Some 0" using assms(1,5) by (auto simp: load_sql_def)
  have fails: "\<exists>e. all_texts ?dec ?enc ?ds None rows = Inl e" if "Unchanged k n \<in> set rows" for rows k n
    using that
    by (induction rows) (auto simp: row_text_def process_fresh_row_def rbind_def split: sum.splits)
  have "with_cache_slot (Some 0) row = Unchanged (dr_pubkey row) 0" using assms(4) by (simp add: with_cache_slot_def)
  then have "Unchanged (dr_pubkey row) 0 \<in> set ?sent" using assms(3) by (force simp: request_rows_def)
  then obtain e where "all_texts ?dec ?enc ?ds None ?sent = Inl e" using fails by blast
  then have "texts (snd (encode_rows (ei \<lparr>ei_processor := processor\<rparr>) ?sent None cache)) = Inl e"
    using encode_rows_fresh [of "ei \<lparr>ei_processor := processor\<rparr>" None ?sent None cache] p by (simp add: resolved_def)
  then show ?thesis
    by (cases "snd (encode_rows (ei \<lparr>ei_processor := processor\<rparr>) ?sent None cache)") (auto simp: texts_def rbind_def s)
qed

lemma uncached_slot_zero_fails_witness:
  "\<exists>e. snd (encode_rows (wit_input \<lparr>ei_processor := Cached (wit_request_cache \<lparr>rq_cached_query := None,
        rq_normalized_query := Some (wit_query 1), rq_new_slot := 10\<rparr>)\<rparr>)
      (request_rows wit_pick (pk 1) 10 wit_sf \<lparr>tb_accounts = [wit_first \<lparr>dr_slot := 0\<rparr>], tb_snapshot_accounts = []\<rparr> (Some 0))
      None (new_gpa_cache wit_config)) = Inl e"
proof -
  let ?tables = "\<lparr>tb_accounts = [wit_first \<lparr>dr_slot := 0\<rparr>], tb_snapshot_accounts = []\<rparr>"
  let ?config = "default_gpa_config \<lparr>pc_account_config := default_account_config \<lparr>ai_encoding := Some Enc_Base64\<rparr>\<rparr>"
  have miss: "get_cached_query (pk 1) ?config (new_gpa_cache wit_config) = Some (wit_query 1, None)"
    by (simp add: get_cached_query_def normalize_def filters_of_def default_gpa_config_def default_account_config_def
        has_value_cmp_def wit_query_def new_gpa_cache_def)
  have "program_rows (pk 1) 10 wit_sf ?tables = [wit_first \<lparr>dr_slot := 0\<rparr>]"
    by (simp add: program_rows_def wit_first_def wit_account_row_def)
  then have row: "wit_first \<lparr>dr_slot := 0\<rparr> \<in> set (select_program_accounts wit_pick (pk 1) 10 wit_sf ?tables)"
    by (simp add: select_program_accounts_def distinct_on_pubkey_def row_keys_def wit_row_simps wit_single)
  have load: "load_sql (pk 1) ?config 10 (new_gpa_cache wit_config) (Cached wit_request_cache) =
      Some (Cached (wit_request_cache \<lparr>rq_cached_query := None, rq_normalized_query := Some (wit_query 1), rq_new_slot := 10\<rparr>), Some 0)"
    using miss by (simp add: load_sql_def)
  have "ei_processor (wit_input \<lparr>ei_processor := Standard\<rparr>) = Standard" by simp
  from uncached_slot_zero_fails [OF miss this row _ load] show ?thesis by simp
qed

end
