(* ===== verification/Gpa_Stream.thy ===== *)
theory Gpa_Stream
  imports Gpa_Request
begin

text \<open>
  The body of a \<open>getProgramAccounts\<close> response (\<open>crates/api/src/http/streaming.rs\<close>): the JSON envelope, the accounts
  coalesced into frames, and the texts handed to the cache. The serialized context and request id are
  arguments. A frame is its bytes; an aborted body ends the connection.
\<close>

section \<open>The buffer\<close>

definition COMMA :: u8 where "COMMA = 44"

text \<open>\<open>buf\<close>, \<open>pending_fresh\<close> and \<open>pending_cached\<close>.\<close>

record body_buffer =
  bb_buf :: "u8 list"
  bb_fresh :: "(pubkey \<times> nat \<times> nat) list"
  bb_cached :: "(pubkey \<times> u8 list) list"

definition empty_buffer :: body_buffer where
  "empty_buffer = \<lparr>bb_buf = [], bb_fresh = [], bb_cached = []\<rparr>"

definition put_comma :: "body_buffer \<Rightarrow> body_buffer" where
  "put_comma b = b \<lparr>bb_buf := bb_buf b @ [COMMA]\<rparr>"

fun put_account :: "maybe_json_account \<Rightarrow> body_buffer \<Rightarrow> body_buffer" where
  "put_account (Cached_Json key bytes) b =
     b \<lparr>bb_buf := bb_buf b @ bytes, bb_cached := bb_cached b @ [(key, bytes)]\<rparr>"
| "put_account (Fresh_Account key e) b =
     (let start = length (bb_buf b); buf = bb_buf b @ ea_json e
      in b \<lparr>bb_buf := buf, bb_fresh := bb_fresh b @ [(key, start, length buf)]\<rparr>)"

text \<open>\<open>process_first_gpa_batch\<close>: no comma before the first account.\<close>

fun process_first_gpa_batch :: "bool \<Rightarrow> maybe_json_account list \<Rightarrow> body_buffer \<Rightarrow> body_buffer" where
  "process_first_gpa_batch first [] b = b"
| "process_first_gpa_batch first (acc # accs) b =
     process_first_gpa_batch False accs (put_account acc (if first then b else put_comma b))"

definition frozen_range :: "u8 list \<Rightarrow> nat \<times> nat \<Rightarrow> u8 list" where
  "frozen_range frozen = (\<lambda>(start, stop). take (stop - start) (drop start frozen))"

definition drain_pending_into_cache :: "body_buffer \<Rightarrow> gpa_processor \<Rightarrow> gpa_processor" where
  "drain_pending_into_cache b processor =
     (if bb_fresh b = [] \<and> bb_cached b = [] then processor
      else update_new_accounts_for_query
             (bb_cached b @ map (\<lambda>(key, range). (key, frozen_range (bb_buf b) range)) (bb_fresh b))
             (of_nat (length (bb_cached b))) processor)"

section \<open>The body\<close>

datatype frame = Data "u8 list" | Abort

definition STREAM_FLUSH_THRESHOLD :: nat where "STREAM_FLUSH_THRESHOLD = 32 * 1024"

fun body_batch :: "nat \<Rightarrow> maybe_json_account list \<Rightarrow> body_buffer \<Rightarrow> gpa_processor \<Rightarrow> frame list \<times> body_buffer \<times> gpa_processor" where
  "body_batch threshold [] b processor = ([], b, processor)"
| "body_batch threshold (acc # accs) b processor =
     (let b = put_account acc (put_comma b)
      in if threshold \<le> length (bb_buf b)
         then (let (frames, b', processor) = body_batch threshold accs empty_buffer (drain_pending_into_cache b processor)
               in (Data (bb_buf b) # frames, b', processor))
         else body_batch threshold accs b processor)"

text \<open>The rest of the stream, up to the last flush. The processor is kept when the stream ended well.\<close>

fun body_items :: "nat \<Rightarrow> maybe_json_account list stream_item list \<Rightarrow> body_buffer \<Rightarrow> gpa_processor
    \<Rightarrow> frame list \<times> gpa_processor option" where
  "body_items threshold [] b processor =
     (if bb_buf b = [] then ([], Some processor)
      else ([Data (bb_buf b)], Some (drain_pending_into_cache b processor)))"
| "body_items threshold (Batch accs # items) b processor =
     (let (frames, b, processor) = body_batch threshold accs b processor;
          (rest, processor) = body_items threshold items b processor
      in (frames @ rest, processor))"
| "body_items threshold (Failed e # items) b processor = ([Abort], None)"
| "body_items threshold (Crashed # items) b processor = ([Abort], None)"

definition ascii :: "string \<Rightarrow> u8 list" where
  "ascii = map of_char"

definition body_start :: "(u64 \<Rightarrow> string) \<Rightarrow> u64 option \<Rightarrow> string" where
  "body_start ctx_json context_slot = (case context_slot of
     Some slot \<Rightarrow> ''{\"jsonrpc\":\"2.0\",\"result\":{\"context\":'' @ ctx_json slot @ '',\"value\":[''
   | None \<Rightarrow> ''{\"jsonrpc\":\"2.0\",\"result\":['')"

definition body_end :: "u64 option \<Rightarrow> string \<Rightarrow> string" where
  "body_end context_slot request_id = (case context_slot of
     Some _ \<Rightarrow> '']},\"id\":'' @ request_id @ ''}''
   | None \<Rightarrow> ''],\"id\":'' @ request_id @ ''}'')"

datatype gpa_response = Error_Response rpc_error | No_Response | Body "frame list" "gpa_processor option"

definition gpa_streaming_response_body :: "nat \<Rightarrow> (u64 \<Rightarrow> string) \<Rightarrow> string \<Rightarrow> u64 option
    \<Rightarrow> maybe_json_account list stream_item list \<Rightarrow> gpa_processor \<Rightarrow> gpa_response" where
  "gpa_streaming_response_body threshold ctx_json request_id context_slot items processor =
     (let send = (\<lambda>first items.
            let b = process_first_gpa_batch True first empty_buffer;
                (frames, processor) = body_items threshold items b processor
            in Body (Data (ascii (body_start ctx_json context_slot)) # frames @
                     (if processor = None then [] else [Data (ascii (body_end context_slot request_id))])) processor)
      in case items of
           [] \<Rightarrow> send [] []
         | Failed e # _ \<Rightarrow> Error_Response e
         | Crashed # _ \<Rightarrow> No_Response
         | Batch first # items \<Rightarrow> send first items)"

section \<open>What is sent and what is kept\<close>

fun frame_bytes :: "frame list \<Rightarrow> u8 list" where
  "frame_bytes [] = []"
| "frame_bytes (Data bytes # frames) = bytes @ frame_bytes frames"
| "frame_bytes (Abort # frames) = frame_bytes frames"

lemma frame_bytes_append [simp]: "frame_bytes (xs @ ys) = frame_bytes xs @ frame_bytes ys"
  by (induction xs rule: frame_bytes.induct) simp_all

fun join_bytes :: "u8 list list \<Rightarrow> u8 list" where
  "join_bytes [] = []"
| "join_bytes (x # xs) = x @ concat (map (\<lambda>y. COMMA # y) xs)"

definition json :: "maybe_json_account \<Rightarrow> u8 list" where
  "json acc = snd (account_text acc)"

definition commas :: "maybe_json_account list \<Rightarrow> u8 list" where
  "commas accs = concat (map (\<lambda>acc. COMMA # json acc) accs)"

lemma put_buf [simp]:
  "bb_buf (put_account acc b) = bb_buf b @ json acc" "bb_buf (put_comma b) = bb_buf b @ [COMMA]"
  by (cases acc) (simp_all add: json_def put_comma_def Let_def)

lemma first_batch_buf:
  "bb_buf (process_first_gpa_batch first accs b) = bb_buf b @ (if first then join_bytes (map json accs) else commas accs)"
  by (induction first accs b rule: process_first_gpa_batch.induct) (auto simp: commas_def comp_def)

lemma body_batch_bytes:
  assumes "body_batch threshold accs b processor = (frames, b', processor')"
  shows "frame_bytes frames @ bb_buf b' = bb_buf b @ commas accs"
  using assms
proof (induction threshold accs b processor arbitrary: frames rule: body_batch.induct)
  case (2 threshold acc accs b processor)
  then show ?case
    by (auto simp: commas_def Let_def empty_buffer_def split: if_splits prod.splits)
qed (simp add: commas_def)

lemma body_items_bytes:
  "frame_bytes (fst (body_items threshold (map Batch batches) b processor)) = bb_buf b @ commas (concat batches)
   \<and> snd (body_items threshold (map Batch batches) b processor) \<noteq> None"
proof (induction batches arbitrary: b processor)
  case (Cons accs batches)
  obtain frames b' processor' where run: "body_batch threshold accs b processor = (frames, b', processor')"
    by (metis prod_cases3)
  show ?case
    using Cons.IH [of b' processor'] body_batch_bytes [OF run] run
    by (auto simp: commas_def split: prod.splits)
qed (simp add: commas_def)

text \<open>The pairs the next drain hands over.\<close>

definition held :: "body_buffer \<Rightarrow> (pubkey \<times> u8 list) list" where
  "held b = bb_cached b @ map (\<lambda>(key, range). (key, frozen_range (bb_buf b) range)) (bb_fresh b)"

definition ranges_ok :: "body_buffer \<Rightarrow> bool" where
  "ranges_ok b \<longleftrightarrow> (\<forall>(key, start, stop) \<in> set (bb_fresh b). start \<le> stop \<and> stop \<le> length (bb_buf b))"

lemma frozen_append:
  "stop \<le> length xs \<Longrightarrow> frozen_range (xs @ ys) (start, stop) = frozen_range xs (start, stop)"
  by (cases "start \<le> stop") (simp_all add: frozen_range_def)

lemma frozen_tail: "frozen_range (xs @ ys) (length xs, length xs + length ys) = ys"
  by (simp add: frozen_range_def)

lemma held_more:
  assumes "ranges_ok b"
  shows "map (\<lambda>(key, range). (key, frozen_range (bb_buf b @ ys) range)) (bb_fresh b) =
    map (\<lambda>(key, range). (key, frozen_range (bb_buf b) range)) (bb_fresh b)"
  using assms frozen_append by (fastforce simp: ranges_ok_def intro!: map_cong)

lemma held_put:
  assumes "ranges_ok b"
  shows "ranges_ok (put_account acc b)" and "mset (held (put_account acc b)) = add_mset (account_text acc) (mset (held b))"
    and "ranges_ok (put_comma b)" and "held (put_comma b) = held b"
proof -
  show "ranges_ok (put_account acc b)" "ranges_ok (put_comma b)"
    using assms by (cases acc; fastforce simp: ranges_ok_def put_comma_def Let_def)+
  show "held (put_comma b) = held b"
    using held_more [OF assms, of "[COMMA]"] by (simp add: held_def put_comma_def)
  show "mset (held (put_account acc b)) = add_mset (account_text acc) (mset (held b))"
  proof (cases acc)
    case (Cached_Json key bytes)
    then show ?thesis by (simp add: held_def held_more [OF assms] del: mset_map)
  next
    case (Fresh_Account key e)
    then show ?thesis by (simp add: held_def Let_def held_more [OF assms] frozen_tail del: mset_map)
  qed
qed

fun learned :: "gpa_processor \<Rightarrow> (pubkey \<times> u8 list) list" where
  "learned Standard = []"
| "learned (Cached rq) = rq_new_accounts rq"

lemma drain_learned:
  "learned (drain_pending_into_cache b (Cached rq)) = rq_new_accounts rq @ held b"
  by (auto simp: drain_pending_into_cache_def update_new_accounts_for_query_def held_def)

text \<open>Draining changes neither the query nor the entry nor the slot of the request.\<close>

definition same_request :: "gpa_processor \<Rightarrow> gpa_processor \<Rightarrow> bool" where
  "same_request p p' \<longleftrightarrow> (\<exists>rq rq'. p = Cached rq \<and> p' = Cached rq' \<and> rq_cached_query rq' = rq_cached_query rq \<and>
     rq_normalized_query rq' = rq_normalized_query rq \<and> rq_new_slot rq' = rq_new_slot rq)"

lemma drain_same: "same_request p p' \<Longrightarrow> same_request p (drain_pending_into_cache b p')"
  by (auto simp: same_request_def drain_pending_into_cache_def update_new_accounts_for_query_def)

lemma body_batch_learned:
  assumes "body_batch threshold accs b p = (frames, b', p')" and "same_request p0 p" and "ranges_ok b"
  shows "same_request p0 p' \<and> ranges_ok b' \<and>
    mset (learned p') + mset (held b') = mset (learned p) + mset (held b) + mset (map account_text accs)"
  using assms
proof (induction threshold accs b p arbitrary: frames rule: body_batch.induct)
  case (2 threshold acc accs b p)
  let ?b = "put_account acc (put_comma b)"
  note put = held_put(3,4) [OF 2(5)] held_put(1,2) [OF held_put(3) [OF 2(5)], of acc]
  show ?case
  proof (cases "threshold \<le> length (bb_buf ?b)")
    case True
    then obtain frames1 where run: "body_batch threshold accs empty_buffer (drain_pending_into_cache ?b p) = (frames1, b', p')"
      using 2(3) by (auto simp: Let_def split: prod.splits)
    obtain rq where rq: "p = Cached rq" using 2(4) by (auto simp: same_request_def)
    have "ranges_ok empty_buffer" "held empty_buffer = []" by (simp_all add: empty_buffer_def ranges_ok_def held_def)
    then show ?thesis
      using 2(1) [OF refl True run drain_same [OF 2(4)]] put rq by (simp add: drain_learned)
  next
    case False
    then have run: "body_batch threshold accs ?b p = (frames, b', p')" using 2(3) by (simp add: Let_def)
    show ?thesis using 2(2) [OF refl False run 2(4)] put by simp
  qed
qed simp


lemma body_batch_buffer:
  assumes "body_batch threshold accs b p = (frames, b', p')" and "bb_buf b = [] \<longrightarrow> held b = []"
  shows "bb_buf b' = [] \<longrightarrow> held b' = []"
  using assms
proof (induction threshold accs b p arbitrary: frames rule: body_batch.induct)
  case (2 threshold acc accs b p)
  have "bb_buf (put_account acc (put_comma b)) \<noteq> []" by simp
  moreover have "held empty_buffer = []" by (simp add: empty_buffer_def held_def)
  ultimately show ?case using 2 by (auto simp: Let_def split: if_splits prod.splits)
qed simp

lemma body_items_learned:
  assumes "snd (body_items threshold (map Batch batches) b p) = Some p'" and "same_request p0 p" and "ranges_ok b"
    and "bb_buf b = [] \<longrightarrow> held b = []"
  shows "same_request p0 p' \<and> mset (learned p') = mset (learned p) + mset (held b) + mset (map account_text (concat batches))"
  using assms
proof (induction batches arbitrary: b p)
  case Nil
  then obtain rq where "p = Cached rq" by (auto simp: same_request_def)
  then show ?case using Nil drain_same [OF Nil(2)] by (auto simp: drain_learned split: if_splits)
next
  case (Cons accs batches)
  obtain frames b1 p1 where run: "body_batch threshold accs b p = (frames, b1, p1)" by (metis prod_cases3)
  note step = body_batch_learned [OF run Cons.prems(2,3)]
  have "snd (body_items threshold (map Batch batches) b1 p1) = Some p'"
    using Cons.prems(1) run by (simp split: prod.splits)
  from Cons.IH [OF this] step body_batch_buffer [OF run Cons.prems(4)] show ?case by (simp add: ac_simps)
qed

lemma first_batch_held:
  assumes "ranges_ok b"
  shows "ranges_ok (process_first_gpa_batch first accs b)
    \<and> mset (held (process_first_gpa_batch first accs b)) = mset (held b) + mset (map account_text accs)"
  using assms
proof (induction first accs b rule: process_first_gpa_batch.induct)
  case (2 first acc accs b)
  let ?b = "if first then b else put_comma b"
  have "ranges_ok ?b" "held ?b = held b" using held_put(3,4) [OF 2(2)] 2(2) by simp_all
  then show ?case using 2(1) held_put(1,2) [of ?b acc] by simp
qed simp

lemma empty_buffer_ok: "ranges_ok empty_buffer" "held empty_buffer = []" "bb_buf empty_buffer = []"
  by (simp_all add: empty_buffer_def ranges_ok_def held_def)

lemma join_first: "first \<noteq> [] \<Longrightarrow> join_bytes (map json first) @ commas rest = join_bytes (map json (first @ rest))"
  by (cases first) (simp_all add: commas_def comp_def)

lemma join_batches:
  "join_bytes (map json first) @ commas rest
     = (if first = [] \<and> rest \<noteq> [] then [COMMA] else []) @ join_bytes (map json (first @ rest))"
proof (cases "first = []")
  case True
  then show ?thesis by (cases rest) (simp_all add: commas_def comp_def)
qed (simp add: join_first)

text \<open>The response when every batch is encoded.\<close>

lemma gpa_response_body:
  "gpa_streaming_response_body threshold ctx_json request_id context_slot (map Batch batches) processor =
     (let b = process_first_gpa_batch True (case batches of [] \<Rightarrow> [] | first # _ \<Rightarrow> first) empty_buffer;
          (frames, processor) = body_items threshold (map Batch (tl batches)) b processor
      in Body (Data (ascii (body_start ctx_json context_slot)) # frames @
               (if processor = None then [] else [Data (ascii (body_end context_slot request_id))])) processor)"
  by (cases batches) (simp_all add: gpa_streaming_response_body_def Let_def)

text \<open>C10: the body of a response, exactly, for any batches and any flush threshold: the envelope around the texts of the accounts
  in their order with commas between them, and one comma too many in front of them when the first batch has no account
  and a later one does. Where the buffer was flushed does not show, and neither does how the rows were batched except
  for that comma. On the cached path the accounts handed to the cache are exactly those texts, for the same query,
  entry and slot.\<close>

theorem body_joins_accounts:
  assumes "\<forall>acc \<in> set (concat batches). json acc \<noteq> []"
  shows "\<exists>frames p. gpa_streaming_response_body threshold ctx_json request_id context_slot (map Batch batches) processor =
        Body frames (Some p)
      \<and> frame_bytes frames = ascii (body_start ctx_json context_slot)
          @ (if batches \<noteq> [] \<and> hd batches = [] \<and> concat batches \<noteq> [] then [COMMA] else [])
          @ join_bytes (map json (concat batches)) @ ascii (body_end context_slot request_id)
      \<and> (processor \<noteq> Standard \<longrightarrow> learned processor = [] \<longrightarrow>
           same_request processor p \<and> mset (learned p) = mset (map account_text (concat batches)))"
proof -
  let ?lead = "if batches \<noteq> [] \<and> hd batches = [] \<and> concat batches \<noteq> [] then [COMMA] else []"
  let ?first = "case batches of [] \<Rightarrow> [] | first # _ \<Rightarrow> first"
  let ?b = "process_first_gpa_batch True ?first empty_buffer"
  obtain frames q where run: "body_items threshold (map Batch (tl batches)) ?b processor = (frames, q)" by fastforce
  note sent = body_items_bytes [of threshold "tl batches" ?b processor, unfolded run fst_conv snd_conv]
  then obtain p where q: "q = Some p" by blast
  have concat: "concat batches = ?first @ concat (tl batches)" by (cases batches) simp_all
  have "bb_buf ?b = join_bytes (map json ?first)" by (simp add: first_batch_buf empty_buffer_ok)
  then have all: "frame_bytes frames = join_bytes (map json ?first) @ commas (concat (tl batches))" using sent by simp
  have lead: "?lead = (if ?first = [] \<and> concat (tl batches) \<noteq> [] then [COMMA] else [])" by (cases batches) auto
  have "join_bytes (map json ?first) @ commas (concat (tl batches)) = ?lead @ join_bytes (map json (?first @ concat (tl batches)))"
    unfolding lead by (rule join_batches)
  then have bytes: "frame_bytes frames = ?lead @ join_bytes (map json (concat batches))"
    unfolding all concat [symmetric] .
  have held: "ranges_ok ?b" "mset (held ?b) = mset (map account_text ?first)"
    using first_batch_held [OF empty_buffer_ok(1), of True ?first] by (simp_all add: empty_buffer_ok)
  have "?first = []" if "bb_buf ?b = []"
  proof (rule ccontr)
    assume "?first \<noteq> []"
    then obtain acc accs where f: "?first = acc # accs" by (meson neq_Nil_conv)
    then have "json acc \<noteq> []" using assms concat by simp
    then show False using that f by (simp add: first_batch_buf)
  qed
  then have empty: "bb_buf ?b = [] \<longrightarrow> held ?b = []" using held(2) by auto
  have "same_request processor p \<and> mset (learned p) = mset (map account_text (concat batches))"
    if "processor \<noteq> Standard" "learned processor = []"
  proof -
    have "same_request processor processor" using that by (cases processor) (auto simp: same_request_def)
    from body_items_learned [OF _ this held(1) empty, of threshold "tl batches" p] run q
    show ?thesis using that(2) held(2) by (simp add: concat)
  qed
  then show ?thesis unfolding gpa_response_body using run q bytes by simp
qed

definition wit_accounts :: "maybe_json_account list" where
  "wit_accounts = [Fresh_Account (pk 3) \<lparr>ea_json = [65], ea_parsed = True\<rparr>, Cached_Json (pk 4) [66]]"

lemma body_joins_accounts_witness:
  "\<exists>frames p. gpa_streaming_response_body 1 (\<lambda>_. []) ''7'' None [Batch wit_accounts, Batch [], Batch wit_accounts] Standard = Body frames (Some p)
     \<and> frame_bytes frames = ascii (body_start (\<lambda>_. []) None) @ [65, COMMA, 66, COMMA, 65, COMMA, 66] @ ascii (body_end None ''7'')"
  using body_joins_accounts [of "[wit_accounts, [], wit_accounts]" 1 "\<lambda>_. []" "''7''" None Standard]
  by (simp add: wit_accounts_def json_def)



text \<open>A value comparison that rejects every row of the first batch is enough.\<close>

lemma post_filter_empties_first_batch:
  assumes "\<forall>r \<in> set rows. account_matches_value_cmps filters (dr_data r) = Some False"
  shows "post_filter filters (map Whole rows) = Some []"
  using assms by (induction rows) (simp_all add: row_matches_def)

end
