(* ===== verification/Api_Reads.thy ===== *)
theory Api_Reads
  imports Gpa_Request Supply_Tracker
begin

text \<open>
  The point reads of the API at every commitment: \<open>crates/api/src/methods/processed.rs\<close> and the methods over it,
  \<open>get_account_info.rs\<close>, \<open>get_multiple_accounts.rs\<close>, \<open>get_balance.rs\<close>, \<open>slot.rs\<close>,
  \<open>get_token_account_balance.rs\<close>, \<open>get_token_supply.rs\<close> and \<open>get_token_largest_accounts.rs\<close>, with the SQL of
  \<open>crates/api/src/db\<close> as a function of the tables. The encoding of an account and the formatting of a token
  amount are third-party code, fields of the record \<open>third_party\<close>. A response is its context slot and value.
\<close>

section \<open>How a request reads\<close>

record read_plan =
  rp_commitment :: commitment_level
  rp_blocks :: "processed_blocks option"

datatype fallback = Unhealthy | Head_Behind | Finalized_Above_Anchor | No_Blocks

definition fallback_reason :: "u64 \<Rightarrow> u64 \<Rightarrow> slot_syncronizer_data \<Rightarrow> fallback option" where
  "fallback_reason head_slot bound slots =
     (if \<not> ss_healthy slots then Some Unhealthy
      else if head_slot < sd_slot (ss_confirmed_slot slots) then Some Head_Behind
      else if bound < sd_slot (ss_finalized_slot slots) then Some Finalized_Above_Anchor
      else None)"

definition read_for :: "rpc_state \<Rightarrow> commitment_level option \<Rightarrow> read_plan rpc_result" where
  "read_for state commitment =
     (if commitment \<noteq> Some Level_Processed \<or> rs_processed state = None
      then rbind (resolve_or_finalized commitment (rs_processed_commitment state))
             (\<lambda>level. Inr \<lparr>rp_commitment = level, rp_blocks = None\<rparr>)
      else
        let blocks = handle_blocks (rs_processed state);
            slots = (case rs_slots state of None \<Rightarrow> default_slots | Some data \<Rightarrow> data);
            reason = (case blocks of None \<Rightarrow> Some No_Blocks | Some b \<Rightarrow> fallback_reason (pb_slot b) (pb_anchor_slot b) slots)
        in Inr \<lparr>rp_commitment = Level_Confirmed, rp_blocks = (if reason = None then blocks else None)\<rparr>)"

definition slot_and_block_time :: "rpc_state \<Rightarrow> read_plan \<Rightarrow> (u64 \<times> int) rpc_result" where
  "slot_and_block_time state r = (case rp_blocks r of
     Some blocks \<Rightarrow> Inr (pb_slot blocks, pb_block_time blocks)
   | None \<Rightarrow> latest_slot_and_block_time state (rp_commitment r))"

definition sql_slot_bound :: "read_plan \<Rightarrow> u64 \<Rightarrow> u64" where
  "sql_slot_bound r latest_slot = (case rp_blocks r of Some blocks \<Rightarrow> pb_anchor_slot blocks | None \<Rightarrow> latest_slot)"

section \<open>Accounts\<close>

record api_account =
  aa_lamports :: u64
  aa_owner :: pubkey
  aa_executable :: bool
  aa_rent_epoch :: u64
  aa_data :: "u8 list"
  aa_mint_data :: "u8 list option"

definition from_live :: "live_account \<Rightarrow> api_account" where
  "from_live account = \<lparr>aa_lamports = la_lamports account, aa_owner = la_owner account,
     aa_executable = la_executable account, aa_rent_epoch = la_rent_epoch account, aa_data = la_data account,
     aa_mint_data = None\<rparr>"

text \<open>A row with its joined mint data. A \<open>numeric\<close> rent epoch outside \<open>u64\<close> reads as 0.\<close>

type_synonym joined_row = "db_row \<times> u8 list option"

definition row_rent_epoch :: "int \<Rightarrow> u64" where
  "row_rent_epoch e = (if 0 \<le> e \<and> e < 2 ^ 64 then word_of_int e else 0)"

definition from_row :: "bool \<Rightarrow> joined_row \<Rightarrow> api_account rpc_result" where
  "from_row with_mint = (\<lambda>(row, mint_data). case try_from (dr_owner row) of
     None \<Rightarrow> Inl InternalError
   | Some owner \<Rightarrow> Inr \<lparr>aa_lamports = word_of_int (dr_lamports row), aa_owner = owner,
       aa_executable = dr_executable row, aa_rent_epoch = row_rent_epoch (dr_rent_epoch row), aa_data = dr_data row,
       aa_mint_data = (if with_mint then mint_data else None)\<rparr>)"

definition account_token_mint :: "api_account \<Rightarrow> pubkey option" where
  "account_token_mint account =
     (if \<not> is_token_program (aa_owner account) \<or> length (aa_data account) < 32 then None
      else try_from (take 32 (aa_data account)))"

definition mint_data_of :: "api_account \<Rightarrow> u8 list" where
  "mint_data_of account = (case aa_mint_data account of None \<Rightarrow> [] | Some d \<Rightarrow> d)"

subsection \<open>The statements\<close>

text \<open>\<open>getAccountInfo.sql\<close> and \<open>getMultipleAccounts.sql\<close>: the newest version of each key at or below the bound, when
  open. The slot is a literal. \<open>pick\<close> is the database's choice among the newest rows.\<close>

definition read_key :: "(db_row list \<Rightarrow> db_row) \<Rightarrow> u64 \<Rightarrow> db_tables \<Rightarrow> u8 list \<Rightarrow> db_row option" where
  "read_key pick bound db key =
     (let rows = versions (\<lambda>_. True) key (uint bound) (tb_accounts db @ tb_snapshot_accounts db)
      in if rows = [] then None else visible (pick rows))"

text \<open>The mint join of the \<open>WithMintData\<close> variants.\<close>

definition joined_mint :: "(db_row list \<Rightarrow> db_row) \<Rightarrow> u64 \<Rightarrow> db_tables \<Rightarrow> db_row \<Rightarrow> u8 list option" where
  "joined_mint pick bound db row =
     (if dr_owner row = to_bytes TOKEN_PROGRAM_ID \<or> dr_owner row = to_bytes TOKEN_2022_PROGRAM_ID
      then map_option dr_data (read_key pick bound db (token_mint (dr_data row))) else None)"

definition select_accounts :: "(db_row list \<Rightarrow> db_row) \<Rightarrow> db_tables \<Rightarrow> bool \<Rightarrow> pubkey list \<Rightarrow> u64 \<Rightarrow> joined_row list" where
  "select_accounts pick db with_mint keys bound =
     map (\<lambda>row. (row, if with_mint then joined_mint pick bound db row else None))
       (List.map_filter (\<lambda>key. read_key pick bound db (to_bytes key)) (remdups keys))"

text \<open>\<open>fetch_accounts\<close>: what the statement answers for keys and a bound, \<open>None\<close> when it fails or times out.\<close>

type_synonym fetch = "bool \<Rightarrow> pubkey list \<Rightarrow> u64 \<Rightarrow> joined_row list option"

definition fetch_from :: "(db_row list \<Rightarrow> db_row) \<Rightarrow> db_tables \<Rightarrow> fetch" where
  "fetch_from pick db = (\<lambda>with_mint keys bound. Some (select_accounts pick db with_mint keys bound))"

subsection \<open>Reading keys\<close>

fun collect_found :: "bool \<Rightarrow> joined_row list \<Rightarrow> (pubkey, api_account) fmap \<Rightarrow> (pubkey, api_account) fmap rpc_result" where
  "collect_found with_mint [] found = Inr found"
| "collect_found with_mint (row # rows) found = (case try_from (dr_pubkey (fst row)) of
     None \<Rightarrow> Inl InternalError
   | Some key \<Rightarrow> rbind (from_row with_mint row) (\<lambda>account. collect_found with_mint rows (fmupd key account found)))"

definition in_blocks :: "read_plan \<Rightarrow> pubkey \<Rightarrow> processed_account" where
  "in_blocks r key = (case rp_blocks r of Some blocks \<Rightarrow> get_account blocks key | None \<Rightarrow> PUnknown)"

definition in_key_order :: "read_plan \<Rightarrow> pubkey list \<Rightarrow> (pubkey, api_account) fmap \<Rightarrow> api_account option list" where
  "in_key_order r keys found = map (\<lambda>key. case in_blocks r key of
     PLive account \<Rightarrow> Some (from_live account)
   | PClosed \<Rightarrow> None
   | PUnknown \<Rightarrow> fmlookup found key) keys"

text \<open>\<open>resolve_mints\<close>: first the mints in the blocks; the queried ones are those of an account from the blocks
  whose mint the blocks do not hold.\<close>

definition mint_from_blocks :: "processed_blocks \<Rightarrow> api_account \<Rightarrow> api_account" where
  "mint_from_blocks blocks account = (case account_token_mint account of
     None \<Rightarrow> account
   | Some mint \<Rightarrow>
       (case get_account blocks mint of
          PLive m \<Rightarrow> account \<lparr>aa_mint_data := Some (la_data m)\<rparr>
        | PClosed \<Rightarrow> account \<lparr>aa_mint_data := None\<rparr>
        | PUnknown \<Rightarrow> account))"

definition queried_mint :: "processed_blocks \<Rightarrow> processed_account \<Rightarrow> api_account \<Rightarrow> pubkey option" where
  "queried_mint blocks from_blocks account = (case account_token_mint account of
     None \<Rightarrow> None
   | Some mint \<Rightarrow> if get_account blocks mint = PUnknown \<and> from_blocks \<noteq> PUnknown then Some mint else None)"

fun collect_mints :: "joined_row list \<Rightarrow> (pubkey, u8 list) fmap \<Rightarrow> (pubkey, u8 list) fmap rpc_result" where
  "collect_mints [] found = Inr found"
| "collect_mints (row # rows) found = (case try_from (dr_pubkey (fst row)) of
     None \<Rightarrow> Inl InternalError
   | Some key \<Rightarrow> collect_mints rows (fmupd key (dr_data (fst row)) found))"

definition resolve_block_mints :: "fetch \<Rightarrow> processed_blocks \<Rightarrow> (processed_account \<times> api_account option) list
    \<Rightarrow> api_account option list rpc_result" where
  "resolve_block_mints fetch blocks accounts =
     (let wanted = (\<lambda>(from_blocks, account). Option.bind account (queried_mint blocks from_blocks));
          queried = List.map_filter wanted accounts;
          first = (\<lambda>(_, account). map_option (mint_from_blocks blocks) account)
      in if queried = [] then Inr (map first accounts)
         else case fetch False (sort (remdups queried)) (pb_anchor_slot blocks) of
                None \<Rightarrow> Inl InternalError
              | Some rows \<Rightarrow> rbind (collect_mints rows fmempty) (\<lambda>found.
                  Inr (map (\<lambda>a. case wanted a of
                      None \<Rightarrow> first a
                    | Some mint \<Rightarrow> map_option (\<lambda>account. account \<lparr>aa_mint_data := fmlookup found mint\<rparr>) (first a)) accounts)))"

definition read_accounts :: "fetch \<Rightarrow> read_plan \<Rightarrow> pubkey list \<Rightarrow> u64 \<Rightarrow> bool \<Rightarrow> api_account option list rpc_result" where
  "read_accounts fetch r keys latest_slot with_mint =
     (let unknown = filter (\<lambda>key. in_blocks r key = PUnknown) keys
      in rbind (if unknown = [] then Inr fmempty
                else case fetch with_mint unknown (sql_slot_bound r latest_slot) of
                       None \<Rightarrow> Inl InternalError
                     | Some rows \<Rightarrow> collect_found with_mint rows fmempty) (\<lambda>found.
         let accounts = in_key_order r keys found
         in case rp_blocks r of
              Some blocks \<Rightarrow>
                if with_mint then resolve_block_mints fetch blocks (zip (map (in_blocks r) keys) accounts) else Inr accounts
            | None \<Rightarrow> Inr accounts))"

section \<open>The methods\<close>

text \<open>What the decoder and the token library answer.\<close>

record ('u, 't) third_party =
  tp_codec :: mint_codec
  tp_encode :: "pubkey \<Rightarrow> api_account \<Rightarrow> ui_encoding \<Rightarrow> data_slice option \<Rightarrow> additional_data option \<Rightarrow> 'u"
  tp_supply :: "u8 list \<Rightarrow> u64 option"
  tp_token_amount :: "u64 \<Rightarrow> additional_data \<Rightarrow> 't"

text \<open>\<open>None\<close> commitment is the default; \<open>account_config\<close> carries the encoding, slice, commitment and slot floor.\<close>

definition mint_additional :: "mint_codec \<Rightarrow> bool \<Rightarrow> int \<Rightarrow> api_account \<Rightarrow> additional_data option" where
  "mint_additional codec mints block_time account =
     (if mints \<and> is_token_program (aa_owner account) \<and> 32 \<le> length (aa_data account)
      then map_option (additional_of block_time)
             (from_mint codec (Abs_pubkey (take 32 (aa_data account))) (mint_data_of account))
      else None)"

definition config_or_default :: "account_config option \<Rightarrow> account_config" where
  "config_or_default config = (case config of None \<Rightarrow> default_account_config | Some c \<Rightarrow> c)"

definition get_account_info_method :: "('u, 't) third_party \<Rightarrow> fetch \<Rightarrow> rpc_state \<Rightarrow> string + pubkey \<Rightarrow> account_config option
    \<Rightarrow> (u64 \<times> 'u option) rpc_result" where
  "get_account_info_method tp fetch state parsed config =
     (let config = config_or_default config;
          encoding = (case ai_encoding config of None \<Rightarrow> Enc_Binary | Some e \<Rightarrow> e);
          mints = (encoding = Enc_JsonParsed)
      in rbind (parse_key parsed) (\<lambda>pubkey.
         rbind (read_for state (ai_commitment config)) (\<lambda>r.
         rbind (slot_and_block_time state r) (\<lambda>(latest_slot, block_time).
         rbind (check_min_context_slot (ai_min_context_slot config) latest_slot) (\<lambda>_.
         rbind (read_accounts fetch r [pubkey] latest_slot mints) (\<lambda>accounts.
         case hd accounts of
           None \<Rightarrow> Inr (latest_slot, None)
         | Some account \<Rightarrow>
             if \<not> is_program_selected (rs_indexer_filter state) (aa_owner account)
             then Inl (AccountOwnerExcluded pubkey (aa_owner account))
             else rbind (check_account_data_len_for_encoding encoding (ai_data_slice config) (length (aa_data account)))
               (\<lambda>_. Inr (latest_slot, Some (tp_encode tp pubkey account encoding (ai_data_slice config)
                      (mint_additional (tp_codec tp) mints block_time account))))))))))"

fun parse_keys :: "(string + pubkey) list \<Rightarrow> pubkey list rpc_result" where
  "parse_keys [] = Inr []"
| "parse_keys (parsed # rest) = rbind (parse_key parsed) (\<lambda>key. rbind (parse_keys rest) (\<lambda>keys. Inr (key # keys)))"

text \<open>The result loop of \<open>get_multiple_accounts\<close>: a closed or excluded account is \<open>None\<close> at its position.\<close>

fun encode_accounts :: "('u, 't) third_party \<Rightarrow> account_selector \<Rightarrow> ui_encoding \<Rightarrow> data_slice option \<Rightarrow> int
    \<Rightarrow> (pubkey \<times> api_account option) list \<Rightarrow> 'u option list rpc_result" where
  "encode_accounts tp sel encoding dslice block_time [] = Inr []"
| "encode_accounts tp sel encoding dslice block_time ((pubkey, account) # rest) =
     (let others = encode_accounts tp sel encoding dslice block_time rest
      in case account of
           None \<Rightarrow> rbind others (\<lambda>us. Inr (None # us))
         | Some account \<Rightarrow>
             if \<not> is_program_selected sel (aa_owner account) then rbind others (\<lambda>us. Inr (None # us))
             else rbind (check_account_data_len_for_encoding encoding dslice (length (aa_data account))) (\<lambda>_.
               rbind others (\<lambda>us. Inr (Some (tp_encode tp pubkey account encoding dslice
                 (mint_additional (tp_codec tp) (encoding = Enc_JsonParsed) block_time account)) # us))))"

definition too_many_inputs :: "nat \<Rightarrow> rpc_error" where
  "too_many_inputs bound = InvalidParamsWithMessage (''Too many inputs provided; max '' @ show_nat bound)"

definition get_multiple_accounts :: "('u, 't) third_party \<Rightarrow> fetch \<Rightarrow> rpc_state \<Rightarrow> (string + pubkey) list
    \<Rightarrow> account_config option \<Rightarrow> (u64 \<times> 'u option list) rpc_result" where
  "get_multiple_accounts tp fetch state pubkeys config =
     (if rs_max_multiple_accounts state < length pubkeys then Inl (too_many_inputs (rs_max_multiple_accounts state))
      else
        let config = config_or_default config;
            encoding = (case ai_encoding config of None \<Rightarrow> Enc_Base64 | Some e \<Rightarrow> e)
        in rbind (parse_keys pubkeys) (\<lambda>keys.
           rbind (read_for state (ai_commitment config)) (\<lambda>r.
           rbind (slot_and_block_time state r) (\<lambda>(latest_slot, block_time).
           rbind (check_min_context_slot (ai_min_context_slot config) latest_slot) (\<lambda>_.
           if keys = [] then Inr (latest_slot, [])
           else rbind (read_accounts fetch r keys latest_slot (encoding = Enc_JsonParsed)) (\<lambda>accounts.
                rbind (encode_accounts tp (rs_indexer_filter state) encoding (ai_data_slice config) block_time (zip keys accounts))
                  (\<lambda>values. Inr (latest_slot, values))))))))"

text \<open>\<open>getBalance.sql\<close>: one row with the bound and the newest version at it, which may be closed or missing. Without
  blocks the bound is the \<open>slots\<close> row of the commitment, read in the same statement; \<open>None\<close> for the outer
  option is a failed or timed out query, \<open>None\<close> for the inner one no \<open>slots\<close> row.\<close>

type_synonym balance_fetch = "(commitment_level + u64) \<Rightarrow> pubkey \<Rightarrow> (int \<times> (u8 list \<times> int) option) option option"

definition select_balance :: "(db_row list \<Rightarrow> db_row) \<Rightarrow> (commitment_level \<Rightarrow> int option) \<Rightarrow> db_tables \<Rightarrow> balance_fetch" where
  "select_balance pick slot_row db bound key =
     Some (map_option (\<lambda>slot.
         let rows = versions (\<lambda>_. True) (to_bytes key) slot (tb_accounts db @ tb_snapshot_accounts db)
         in (slot, if rows = [] then None else Some (dr_owner (pick rows), dr_lamports (pick rows))))
       (case bound of Inl level \<Rightarrow> slot_row level | Inr anchor_bound \<Rightarrow> Some (uint anchor_bound)))"

definition get_balance :: "balance_fetch \<Rightarrow> rpc_state \<Rightarrow> string + pubkey \<Rightarrow> commitment_level option \<Rightarrow> u64 option
    \<Rightarrow> (u64 \<times> u64) rpc_result" where
  "get_balance fetch state parsed commitment min_context_slot =
     rbind (parse_key parsed) (\<lambda>pubkey.
     rbind (read_for state commitment) (\<lambda>r.
       let from_blocks = (case rp_blocks r of
             None \<Rightarrow> None
           | Some blocks \<Rightarrow> (case get_account blocks pubkey of
                 PLive account \<Rightarrow> Some (pb_slot blocks, la_lamports account)
               | PClosed \<Rightarrow> Some (pb_slot blocks, 0)
               | PUnknown \<Rightarrow> None))
       in case from_blocks of
            Some (slot, lamports) \<Rightarrow> rbind (check_min_context_slot min_context_slot slot) (\<lambda>_. Inr (slot, lamports))
          | None \<Rightarrow>
              (case fetch (case rp_blocks r of Some blocks \<Rightarrow> Inr (pb_anchor_slot blocks) | None \<Rightarrow> Inl (rp_commitment r)) pubkey of
                 None \<Rightarrow> Inl InternalError
               | Some None \<Rightarrow> Inl InternalError
               | Some (Some (slot, account)) \<Rightarrow>
                   (let context_slot = (case rp_blocks r of Some blocks \<Rightarrow> pb_slot blocks | None \<Rightarrow> word_of_int slot)
                    in rbind (check_min_context_slot min_context_slot context_slot) (\<lambda>_.
                       case account of
                         None \<Rightarrow> Inr (context_slot, 0)
                       | Some (owner, lamports) \<Rightarrow>
                           (case try_from owner of
                              None \<Rightarrow> Inl InternalError
                            | Some owner \<Rightarrow>
                                if \<not> is_program_selected (rs_indexer_filter state) owner
                                then Inl (AccountOwnerExcluded pubkey owner)
                                else Inr (context_slot, word_of_int lamports)))))))"

definition get_slot :: "rpc_state \<Rightarrow> commitment_level option \<Rightarrow> u64 option \<Rightarrow> u64 rpc_result" where
  "get_slot state commitment min_context_slot =
     rbind (read_for state commitment) (\<lambda>r.
       case rp_blocks r of
         Some blocks \<Rightarrow> rbind (check_min_context_slot min_context_slot (pb_slot blocks)) (\<lambda>_. Inr (pb_slot blocks))
       | None \<Rightarrow>
           (case rs_slot_rows state (rp_commitment r) of
              Inl e \<Rightarrow> Inl (DatabaseError e)
            | Inr None \<Rightarrow> Inl InternalError
            | Inr (Some model) \<Rightarrow>
                rbind (check_min_context_slot min_context_slot (word_of_int (sm_slot model))) (\<lambda>_.
                  Inr (word_of_int (sm_slot model)))))"

section \<open>Token methods\<close>

text \<open>The bytes \<open>SUBSTRING(data FROM start + 1 FOR len)\<close> returns.\<close>

definition sql_substring :: "u8 list \<Rightarrow> nat \<Rightarrow> nat \<Rightarrow> u8 list" where
  "sql_substring data start len =
     (let stop = min (start + len) (length data) in take (stop - min start stop) (drop (min start stop) data))"

definition get_token_account_balance :: "('u, 't) third_party \<Rightarrow> fetch \<Rightarrow> rpc_state \<Rightarrow> string + pubkey
    \<Rightarrow> commitment_level option \<Rightarrow> (u64 \<times> 't) rpc_result" where
  "get_token_account_balance tp fetch state parsed commitment =
     rbind (parse_key parsed) (\<lambda>pubkey.
     rbind (read_for state commitment) (\<lambda>r.
     rbind (slot_and_block_time state r) (\<lambda>(latest_slot, block_time).
     rbind (read_accounts fetch r [pubkey] latest_slot True) (\<lambda>accounts.
     case hd accounts of
       None \<Rightarrow> Inl (AccountNotFound pubkey)
     | Some account \<Rightarrow>
         if \<not> is_program_selected (rs_indexer_filter state) (aa_owner account)
         then Inl (AccountOwnerExcluded pubkey (aa_owner account))
         else if \<not> is_token_program (aa_owner account) then Inl (NotATokenAccount pubkey)
         else
           let amount_bytes = sql_substring (aa_data account) 64 8
           in if length amount_bytes \<noteq> 8 then Inl InternalError
              else case try_from (sql_substring (aa_data account) 0 32) of
                     None \<Rightarrow> Inl InternalError
                   | Some mint \<Rightarrow>
                       if mint_data_of account = [] \<and> mint \<noteq> mc_native_mint (tp_codec tp) then Inl (MintDataNotFound mint)
                       else case from_mint (tp_codec tp) mint (mint_data_of account) of
                              None \<Rightarrow> Inl (TokenMintCouldNotBeUnpacked mint)
                            | Some m \<Rightarrow> Inr (latest_slot,
                                tp_token_amount tp (from_le_bytes amount_bytes) (additional_of block_time m))))))"

definition get_token_supply :: "('u, 't) third_party \<Rightarrow> fetch \<Rightarrow> rpc_state \<Rightarrow> string + pubkey
    \<Rightarrow> commitment_level option \<Rightarrow> (u64 \<times> 't) rpc_result" where
  "get_token_supply tp fetch state parsed commitment =
     rbind (parse_key parsed) (\<lambda>pubkey.
     rbind (read_for state commitment) (\<lambda>r.
     rbind (slot_and_block_time state r) (\<lambda>(latest_slot, block_time).
     rbind (read_accounts fetch r [pubkey] latest_slot False) (\<lambda>accounts.
     case hd accounts of
       None \<Rightarrow> Inl (AccountNotFound pubkey)
     | Some account \<Rightarrow>
         if \<not> is_program_selected (rs_indexer_filter state) (aa_owner account)
         then Inl (AccountOwnerExcluded pubkey (aa_owner account))
         else if \<not> is_token_program (aa_owner account) then Inl (NotATokenMint pubkey)
         else case tp_supply tp (aa_data account) of
                None \<Rightarrow> Inl (MintCouldNotBeUnpacked pubkey)
              | Some supply \<Rightarrow>
                  (case from_mint (tp_codec tp) pubkey (aa_data account) of
                     None \<Rightarrow> Inl (MintCouldNotBeUnpacked pubkey)
                   | Some m \<Rightarrow> Inr (latest_slot, tp_token_amount tp supply (additional_of block_time m)))))))"

text \<open>\<open>fetch_largest_record\<close>: a failed or timed out query, or a malformed record, is an internal error.\<close>

definition fetch_largest_record :: "record_table option \<Rightarrow> pubkey \<Rightarrow> u64 \<Rightarrow> (pubkey \<times> u64) list option rpc_result" where
  "fetch_largest_record table mint latest_slot = (case table of
     None \<Rightarrow> Inl InternalError
   | Some table \<Rightarrow> (case fetch_record table mint latest_slot of None \<Rightarrow> Inl InternalError | Some rows \<Rightarrow> Inr rows))"

definition get_token_largest_accounts :: "('u, 't) third_party \<Rightarrow> fetch \<Rightarrow> record_table option \<Rightarrow> rpc_state \<Rightarrow> string + pubkey
    \<Rightarrow> commitment_level option \<Rightarrow> (u64 \<times> (pubkey \<times> 't) list) rpc_result" where
  "get_token_largest_accounts tp fetch table state parsed commitment =
     rbind (parse_key parsed) (\<lambda>pubkey.
     rbind (resolve_or_finalized commitment (rs_processed_commitment state)) (\<lambda>level.
     rbind (latest_slot_and_block_time state level) (\<lambda>(latest_slot, block_time).
     case fetch False [pubkey] latest_slot of
       None \<Rightarrow> Inl InternalError
     | Some [] \<Rightarrow> Inl (MintDataNotFound pubkey)
     | Some ((row, _) # _) \<Rightarrow>
         (case try_from (dr_owner row) of
            None \<Rightarrow> Inl InternalError
          | Some owner \<Rightarrow>
              if \<not> is_program_selected (rs_indexer_filter state) owner then Inl (AccountOwnerExcluded pubkey owner)
              else case from_mint (tp_codec tp) pubkey (dr_data row) of
                     None \<Rightarrow> Inl (TokenMintCouldNotBeUnpacked pubkey)
                   | Some m \<Rightarrow>
                       if \<not> is_token_program owner then Inl (NotATokenMint pubkey)
                       else rbind (fetch_largest_record table pubkey latest_slot) (\<lambda>rows.
                         case rows of
                           None \<Rightarrow> Inl (KeyExcludedFromSecondaryIndex pubkey)
                         | Some rows \<Rightarrow> Inr (latest_slot,
                             map (\<lambda>(address, amount). (address, tp_token_amount tp amount (additional_of block_time m))) rows))))))"

datatype largest_filter = Circulating | Non_Circulating_Filter

definition get_largest_accounts :: "record_table option \<Rightarrow> rpc_state \<Rightarrow> largest_filter option \<Rightarrow> commitment_level option
    \<Rightarrow> (u64 \<times> (pubkey \<times> u64) list) rpc_result" where
  "get_largest_accounts table state f commitment =
     (let sentinel = (case f of None \<Rightarrow> SOL_SENTINEL_MINT | Some Circulating \<Rightarrow> CIRCULATING_SENTINEL_MINT
            | Some Non_Circulating_Filter \<Rightarrow> NON_CIRCULATING_SENTINEL_MINT)
      in rbind (resolve_or_finalized commitment (rs_processed_commitment state)) (\<lambda>level.
         rbind (latest_slot_and_block_time state level) (\<lambda>(latest_slot, _).
         rbind (fetch_largest_record table sentinel latest_slot) (\<lambda>rows.
         case rows of None \<Rightarrow> Inl (node_unhealthy state) | Some rows \<Rightarrow> Inr (latest_slot, rows)))))"

section \<open>getSupply\<close>

text \<open>The polled snapshot: the ring rows, oldest first, and the member list. An empty ring leaves the last one.\<close>

type_synonym supply_snapshot = "supply_row list \<times> pubkey list option"

definition poll_supply :: "(supply_snapshot option) option \<Rightarrow> supply_snapshot \<Rightarrow> supply_snapshot" where
  "poll_supply loaded cache = (case loaded of Some (Some snapshot) \<Rightarrow> snapshot | _ \<Rightarrow> cache)"

definition MAX_SUPPLY_STALENESS_SLOTS :: u64 where "MAX_SUPPLY_STALENESS_SLOTS = 150"

record rpc_supply =
  rs_total :: u64
  rs_circulating :: u64
  rs_non_circulating :: u64
  rs_non_circulating_accounts :: "pubkey list"

definition supply_finalized_slot :: "rpc_state \<Rightarrow> slot_model list \<Rightarrow> u64" where
  "supply_finalized_slot state slot_rows =
     (let cached = (case rs_slots state of None \<Rightarrow> 0 | Some d \<Rightarrow> sd_slot (ss_finalized_slot d))
      in if 0 < cached then cached
         else case get_slot_data slot_rows of None \<Rightarrow> 0 | Some d \<Rightarrow> sd_slot (ss_finalized_slot d))"

definition supply_row_for :: "commitment_level \<Rightarrow> u64 \<Rightarrow> supply_row list \<Rightarrow> supply_row option" where
  "supply_row_for level finalized rows =
     (if level = Level_Finalized then find (\<lambda>row. sr_slot row \<le> finalized) (rev rows)
      else if rows = [] then None else Some (last rows))"

definition get_supply :: "rpc_state \<Rightarrow> slot_model list \<Rightarrow> supply_snapshot \<Rightarrow> commitment_level option \<Rightarrow> bool
    \<Rightarrow> (u64 \<times> rpc_supply) rpc_result" where
  "get_supply state slot_rows snapshot commitment exclude_list =
     rbind (resolve_or_finalized commitment (rs_processed_commitment state)) (\<lambda>level.
     case snd snapshot of
       None \<Rightarrow> Inl (node_unhealthy state)
     | Some accounts_list \<Rightarrow>
         if (case rs_slots state of None \<Rightarrow> False | Some data \<Rightarrow> \<not> ss_healthy data) then Inl (node_unhealthy state)
         else
           let finalized = supply_finalized_slot state slot_rows
           in case supply_row_for level finalized (fst snapshot) of
                None \<Rightarrow> Inl (node_unhealthy state)
              | Some row \<Rightarrow>
                  (case sr_non_circulating row of
                     None \<Rightarrow> Inl (node_unhealthy state)
                   | Some non_circulating \<Rightarrow>
                       if MAX_SUPPLY_STALENESS_SLOTS < saturating_sub finalized (sr_slot row) then Inl (node_unhealthy state)
                       else Inr (sr_slot row,
                         \<lparr>rs_total = sr_total row, rs_circulating = saturating_sub (sr_total row) non_circulating,
                          rs_non_circulating = non_circulating,
                          rs_non_circulating_accounts = (if exclude_list then [] else accounts_list)\<rparr>)))"

section \<open>Every key reads as on its own\<close>

definition key_account :: "(db_row list \<Rightarrow> db_row) \<Rightarrow> db_tables \<Rightarrow> bool \<Rightarrow> u64 \<Rightarrow> pubkey \<Rightarrow> api_account option rpc_result" where
  "key_account pick db m bound key = (case read_key pick bound db (to_bytes key) of
     None \<Rightarrow> Inr None
   | Some row \<Rightarrow> rbind (from_row m (row, if m then joined_mint pick bound db row else None)) (\<lambda>a. Inr (Some a)))"

definition block_mint :: "(db_row list \<Rightarrow> db_row) \<Rightarrow> db_tables \<Rightarrow> processed_blocks \<Rightarrow> processed_account \<Rightarrow> api_account \<Rightarrow> api_account" where
  "block_mint pick db blocks from_blocks account = (case queried_mint blocks from_blocks account of
     None \<Rightarrow> mint_from_blocks blocks account
   | Some mint \<Rightarrow> (mint_from_blocks blocks account)
       \<lparr>aa_mint_data := map_option dr_data (read_key pick (pb_anchor_slot blocks) db (to_bytes mint))\<rparr>)"

definition read_one :: "(db_row list \<Rightarrow> db_row) \<Rightarrow> db_tables \<Rightarrow> read_plan \<Rightarrow> u64 \<Rightarrow> bool \<Rightarrow> pubkey \<Rightarrow> api_account option rpc_result" where
  "read_one pick db r latest m key =
     rbind (case in_blocks r key of
         PLive account \<Rightarrow> Inr (Some (from_live account))
       | PClosed \<Rightarrow> Inr None
       | PUnknown \<Rightarrow> key_account pick db m (sql_slot_bound r latest) key) (\<lambda>account.
       Inr (case rp_blocks r of
              None \<Rightarrow> account
            | Some blocks \<Rightarrow> if m then map_option (block_mint pick db blocks (in_blocks r key)) account else account))"

lemma read_key_pubkey:
  assumes "picks_newest pick" and "read_key pick bound db key = Some row"
  shows "dr_pubkey row = key"
proof -
  let ?rows = "versions (\<lambda>_. True) key (uint bound) (tb_accounts db @ tb_snapshot_accounts db)"
  have "?rows \<noteq> []" and "row = pick ?rows"
    using assms(2) by (auto simp: read_key_def Let_def visible_def split: if_splits)
  then have "row \<in> newest ?rows" using assms(1) unfolding picks_newest_def by blast
  then show ?thesis by (auto simp: newest_def)
qed

lemma from_row_error: "from_row m row = Inl e \<Longrightarrow> e = InternalError"
  by (auto simp: from_row_def split: prod.splits option.splits)

lemma collect_found_spec:
  assumes "picks_newest pick" and "distinct keys"
  shows "collect_found m (map (\<lambda>row. (row, if m then joined_mint pick bound db row else None))
      (List.map_filter (\<lambda>key. read_key pick bound db (to_bytes key)) keys)) found =
    (if \<forall>k \<in> set keys. \<exists>x. key_account pick db m bound k = Inr x
     then Inr (fold (\<lambda>k found. case key_account pick db m bound k of Inr (Some a) \<Rightarrow> fmupd k a found | _ \<Rightarrow> found) keys found)
     else Inl InternalError)"
  using assms(2)
proof (induction keys arbitrary: found)
  case (Cons k keys)
  show ?case
  proof (cases "read_key pick bound db (to_bytes k)")
    case None
    then have "key_account pick db m bound k = Inr None" by (simp add: key_account_def)
    then show ?thesis using Cons None by (simp add: map_filter_simps)
  next
    case (Some row)
    then have key: "try_from (dr_pubkey row) = Some k" using read_key_pubkey [OF assms(1) Some] by simp
    show ?thesis
    proof (cases "from_row m (row, if m then joined_mint pick bound db row else None)")
      case (Inl e)
      then have "key_account pick db m bound k = Inl e" using Some by (simp add: key_account_def rbind_def)
      then show ?thesis using Some key Inl from_row_error [OF Inl] by (simp add: map_filter_simps rbind_def)
    next
      case (Inr a)
      then have "key_account pick db m bound k = Inr (Some a)" using Some by (simp add: key_account_def rbind_def)
      then show ?thesis using Cons Some key Inr by (simp add: map_filter_simps rbind_def)
    qed
  qed
qed (simp add: map_filter_simps)

lemma fold_found_lookup:
  "distinct keys \<Longrightarrow> k \<in> set keys \<Longrightarrow> fmlookup found k = None \<Longrightarrow> f k = Inr x \<Longrightarrow>
   fmlookup (fold (\<lambda>k found. case f k of Inr (Some a) \<Rightarrow> fmupd k a found | _ \<Rightarrow> found) keys found) k = x"
proof (induction keys arbitrary: found)
  case (Cons k' keys)
  have other: "fmlookup (fold (\<lambda>k found. case f k of Inr (Some a) \<Rightarrow> fmupd k a found | _ \<Rightarrow> found) keys found) k = fmlookup found k"
    if "k \<notin> set keys" for found
    using that by (induction keys arbitrary: found) (auto split: sum.split option.split)
  show ?case
  proof (cases "k = k'")
    case True
    then show ?thesis using Cons.prems other by (cases x) auto
  next
    case False
    then show ?thesis using Cons by (auto split: sum.split option.split)
  qed
qed simp

lemma collect_mints_spec:
  assumes "picks_newest pick" and "distinct mints"
  shows "collect_mints (map (\<lambda>row. (row, None)) (List.map_filter (\<lambda>key. read_key pick bound db (to_bytes key)) mints)) found =
    Inr (fold (\<lambda>k found. case read_key pick bound db (to_bytes k) of
        Some row \<Rightarrow> fmupd k (dr_data row) found | None \<Rightarrow> found) mints found)"
  using assms(2)
proof (induction mints arbitrary: found)
  case (Cons k mints)
  then show ?case
    using read_key_pubkey [OF assms(1), of bound db "to_bytes k"]
    by (cases "read_key pick bound db (to_bytes k)") (simp_all add: map_filter_simps)
qed (simp add: map_filter_simps)

lemma fold_mints_lookup:
  "distinct mints \<Longrightarrow> k \<in> set mints \<Longrightarrow> fmlookup found k = None \<Longrightarrow>
   fmlookup (fold (\<lambda>k found. case f k of Some row \<Rightarrow> fmupd k (g row) found | None \<Rightarrow> found) mints found) k = map_option g (f k)"
proof (induction mints arbitrary: found)
  case (Cons k' mints)
  have other: "fmlookup (fold (\<lambda>k found. case f k of Some row \<Rightarrow> fmupd k (g row) found | None \<Rightarrow> found) mints found) k =
      fmlookup found k" if "k \<notin> set mints" for found
    using that by (induction mints arbitrary: found) (auto split: option.split)
  show ?case
  proof (cases "k = k'")
    case True
    then show ?thesis using Cons.prems other by (cases "f k'") auto
  next
    case False
    then show ?thesis using Cons by (cases "f k'") auto
  qed
qed simp

lemma fetch_from_accounts:
  assumes "picks_newest pick"
  shows "(case fetch_from pick db m keys bound of None \<Rightarrow> Inl InternalError | Some rows \<Rightarrow> collect_found m rows fmempty) =
    (if \<forall>k \<in> set keys. \<exists>x. key_account pick db m bound k = Inr x
     then Inr (fold (\<lambda>k found. case key_account pick db m bound k of Inr (Some a) \<Rightarrow> fmupd k a found | _ \<Rightarrow> found)
       (remdups keys) fmempty)
     else Inl InternalError)"
  unfolding fetch_from_def select_accounts_def option.case
  by (rule trans [OF collect_found_spec [OF assms distinct_remdups]]) (simp only: set_remdups)

lemma fetch_from_mints:
  assumes "picks_newest pick" and "distinct mints"
  shows "(case fetch_from pick db False mints bound of None \<Rightarrow> Inl InternalError
      | Some rows \<Rightarrow> rbind (collect_mints rows fmempty) f) =
    f (fold (\<lambda>k found. case read_key pick bound db (to_bytes k) of
        Some row \<Rightarrow> fmupd k (dr_data row) found | None \<Rightarrow> found) mints fmempty)"
  unfolding fetch_from_def select_accounts_def option.case if_False distinct_remdups_id [OF assms(2)]
    collect_mints_spec [OF assms]
  by (simp add: rbind_def)

text \<open>The two passes over the keys as one function of each key.\<close>

lemma in_key_order_spec:
  assumes "picks_newest pick" and "bound = sql_slot_bound r latest"
  shows "rbind (if filter (\<lambda>key. in_blocks r key = PUnknown) keys = [] then Inr fmempty
      else case fetch_from pick db m (filter (\<lambda>key. in_blocks r key = PUnknown) keys) bound of
             None \<Rightarrow> Inl InternalError
           | Some rows \<Rightarrow> collect_found m rows fmempty) (\<lambda>found. f (in_key_order r keys found)) =
    (if \<forall>k \<in> set keys. in_blocks r k = PUnknown \<longrightarrow> (\<exists>x. key_account pick db m bound k = Inr x)
     then f (map (\<lambda>k. case in_blocks r k of PLive a \<Rightarrow> Some (from_live a) | PClosed \<Rightarrow> None
            | PUnknown \<Rightarrow> projr (key_account pick db m bound k)) keys)
     else Inl InternalError)"
proof -
  let ?unknown = "filter (\<lambda>key. in_blocks r key = PUnknown) keys"
  let ?key = "key_account pick db m bound"
  let ?found = "fold (\<lambda>k found. case ?key k of Inr (Some a) \<Rightarrow> fmupd k a found | _ \<Rightarrow> found) (remdups ?unknown) fmempty"
  have run: "(if ?unknown = [] then Inr fmempty
      else case fetch_from pick db m ?unknown bound of None \<Rightarrow> Inl InternalError
           | Some rows \<Rightarrow> collect_found m rows fmempty) =
      (if \<forall>k \<in> set ?unknown. \<exists>x. ?key k = Inr x then Inr ?found else Inl InternalError)"
    unfolding fetch_from_accounts [OF assms(1)] by (cases "?unknown = []") simp_all
  have "fmlookup ?found k = projr (?key k)" if "k \<in> set ?unknown" "\<exists>x. ?key k = Inr x" for k
    using fold_found_lookup [of "remdups ?unknown" k fmempty ?key] that by auto
  then have "in_key_order r keys ?found = map (\<lambda>k. case in_blocks r k of PLive a \<Rightarrow> Some (from_live a) | PClosed \<Rightarrow> None
      | PUnknown \<Rightarrow> projr (?key k)) keys" if "\<forall>k \<in> set ?unknown. \<exists>x. ?key k = Inr x"
    using that by (auto simp: in_key_order_def split: processed_account.split)
  then show ?thesis unfolding run by (auto simp: rbind_def)
qed

lemma resolve_block_mints_spec:
  assumes "picks_newest pick"
  shows "resolve_block_mints (fetch_from pick db) blocks accounts =
    Inr (map (\<lambda>(from_blocks, account). map_option (block_mint pick db blocks from_blocks) account) accounts)"
proof -
  define wanted where "wanted = (\<lambda>(from_blocks, account). Option.bind account (queried_mint blocks from_blocks))"
  let ?queried = "List.map_filter wanted accounts"
  let ?found = "fold (\<lambda>k found. case read_key pick (pb_anchor_slot blocks) db (to_bytes k) of
      Some row \<Rightarrow> fmupd k (dr_data row) found | None \<Rightarrow> found) (sort (remdups ?queried)) fmempty"
  have found: "fmlookup ?found mint = map_option dr_data (read_key pick (pb_anchor_slot blocks) db (to_bytes mint))"
    if "mint \<in> set ?queried" for mint
    by (rule fold_mints_lookup) (use that in simp_all)
  have wanted_in: "mint \<in> set ?queried" if "wanted a = Some mint" "a \<in> set accounts" for a mint
    using that by (auto simp: in_set_map_filter)
  have one: "(case wanted a of None \<Rightarrow> map_option (mint_from_blocks blocks) (snd a)
      | Some mint \<Rightarrow> map_option (\<lambda>account. account \<lparr>aa_mint_data := fmlookup ?found mint\<rparr>)
          (map_option (mint_from_blocks blocks) (snd a))) = map_option (block_mint pick db blocks (fst a)) (snd a)"
    if "a \<in> set accounts" for a
  proof (cases "snd a")
    case (Some account)
    then have "wanted a = queried_mint blocks (fst a) account" by (simp add: wanted_def split_beta)
    then show ?thesis using Some wanted_in [OF _ that] found by (auto simp: block_mint_def split: option.split)
  qed (simp add: wanted_def split_beta)
  have query: "(case fetch_from pick db False (sort (remdups ?queried)) (pb_anchor_slot blocks) of None \<Rightarrow> Inl InternalError
      | Some rows \<Rightarrow> rbind (collect_mints rows fmempty) f) = f ?found" for f :: "_ \<Rightarrow> api_account option list rpc_result"
    by (rule fetch_from_mints [OF assms]) simp
  show ?thesis
  proof (cases "?queried = []")
    case True
    then have "wanted a = None" if "a \<in> set accounts" for a using wanted_in [OF _ that] by fastforce
    then have "map (\<lambda>(_, account). map_option (mint_from_blocks blocks) account) accounts =
        map (\<lambda>(from_blocks, account). map_option (block_mint pick db blocks from_blocks) account) accounts"
      using one by (fastforce simp: split_beta)
    then show ?thesis using True unfolding resolve_block_mints_def Let_def wanted_def by simp
  next
    case False
    have "resolve_block_mints (fetch_from pick db) blocks accounts = Inr (map (\<lambda>a. case wanted a of
        None \<Rightarrow> map_option (mint_from_blocks blocks) (snd a)
      | Some mint \<Rightarrow> map_option (\<lambda>account. account \<lparr>aa_mint_data := fmlookup ?found mint\<rparr>)
          (map_option (mint_from_blocks blocks) (snd a))) accounts)"
      unfolding resolve_block_mints_def Let_def wanted_def [symmetric] query
      unfolding split_beta using False by simp
    then show ?thesis using one by (simp add: split_beta cong: map_cong)
  qed
qed


lemma read_one_error: "read_one pick db r latest m key = Inl e \<Longrightarrow> e = InternalError"
  by (auto simp: read_one_def key_account_def rbind_def split: processed_account.splits sum.splits option.splits
      dest: from_row_error)

theorem read_accounts_keywise:
  assumes "picks_newest pick"
  shows "read_accounts (fetch_from pick db) r keys latest m =
    (if \<forall>k \<in> set keys. \<exists>x. read_one pick db r latest m k = Inr x
     then Inr (map (\<lambda>k. projr (read_one pick db r latest m k)) keys) else Inl InternalError)"
proof -
  let ?bound = "sql_slot_bound r latest"
  let ?first = "\<lambda>k. case in_blocks r k of PLive a \<Rightarrow> Some (from_live a) | PClosed \<Rightarrow> None
      | PUnknown \<Rightarrow> projr (key_account pick db m ?bound k)"
  have ok: "(\<exists>x. read_one pick db r latest m k = Inr x) \<longleftrightarrow>
      (in_blocks r k = PUnknown \<longrightarrow> (\<exists>x. key_account pick db m ?bound k = Inr x))" for k
    by (auto simp: read_one_def rbind_def split: processed_account.splits sum.splits)
  have answer: "projr (read_one pick db r latest m k) = (case rp_blocks r of None \<Rightarrow> ?first k
      | Some blocks \<Rightarrow> if m then map_option (block_mint pick db blocks (in_blocks r k)) (?first k) else ?first k)"
    if "in_blocks r k = PUnknown \<longrightarrow> (\<exists>x. key_account pick db m ?bound k = Inr x)" for k
    using that by (auto simp: read_one_def rbind_def split: processed_account.splits option.split)
  let ?step = "\<lambda>accounts. case rp_blocks r of None \<Rightarrow> Inr accounts | Some blocks \<Rightarrow>
      if m then resolve_block_mints (fetch_from pick db) blocks (zip (map (in_blocks r) keys) accounts) else Inr accounts"
  have step: "?step (map ?first keys) = Inr (map (\<lambda>k. case rp_blocks r of None \<Rightarrow> ?first k
      | Some blocks \<Rightarrow> if m then map_option (block_mint pick db blocks (in_blocks r k)) (?first k) else ?first k) keys)"
    by (simp add: resolve_block_mints_spec [OF assms] zip_map_map zip_same_conv_map split: option.split)
  have read: "read_accounts (fetch_from pick db) r keys latest m =
      (if \<forall>k \<in> set keys. in_blocks r k = PUnknown \<longrightarrow> (\<exists>x. key_account pick db m ?bound k = Inr x)
       then ?step (map ?first keys) else Inl InternalError)"
    using in_key_order_spec [OF assms, where r = r and latest = latest and keys = keys and db = db and m = m and f = ?step, OF HOL.refl]
    unfolding read_accounts_def Let_def .
  show ?thesis
    unfolding read step ok using answer by (simp cong: map_cong)
qed


lemma rbind_return: "rbind x (\<lambda>a. Inr a) = x"
  by (cases x) simp_all

lemma rbind_Inr: "rbind x f = Inr y \<longleftrightarrow> (\<exists>a. x = Inr a \<and> f a = Inr y)"
  by (cases x) (simp_all add: rbind_def)

lemma read_accounts_single:
  assumes "picks_newest pick"
  shows "read_accounts (fetch_from pick db) r [key] latest m = rbind (read_one pick db r latest m key) (\<lambda>a. Inr [a])"
  using read_one_error [of pick db r latest m key]
  by (cases "read_one pick db r latest m key") (auto simp: read_accounts_keywise [OF assms] rbind_def)

lemma parse_keys_nth:
  "parse_keys ps = Inr keys \<Longrightarrow> length keys = length ps \<and> (\<forall>i < length ps. parse_key (ps ! i) = Inr (keys ! i))"
proof (induction ps arbitrary: keys)
  case (Cons p ps)
  then show ?case by (fastforce simp: rbind_Inr nth_Cons split: nat.split)
qed simp

definition account_value :: "('u, 't) third_party \<Rightarrow> account_selector \<Rightarrow> ui_encoding \<Rightarrow> data_slice option \<Rightarrow> int
    \<Rightarrow> pubkey \<Rightarrow> api_account option \<Rightarrow> 'u option rpc_result" where
  "account_value tp sel encoding dslice block_time key account = (case account of
     None \<Rightarrow> Inr None
   | Some account \<Rightarrow>
       if \<not> is_program_selected sel (aa_owner account) then Inl (AccountOwnerExcluded key (aa_owner account))
       else rbind (check_account_data_len_for_encoding encoding dslice (length (aa_data account)))
         (\<lambda>_. Inr (Some (tp_encode tp key account encoding dslice
            (mint_additional (tp_codec tp) (encoding = Enc_JsonParsed) block_time account)))))"

lemma encode_accounts_nth:
  "encode_accounts tp sel e sl bt zs = Inr vals \<Longrightarrow> length vals = length zs \<and>
   (\<forall>i < length zs. case account_value tp sel e sl bt (fst (zs ! i)) (snd (zs ! i)) of
      Inr v \<Rightarrow> vals ! i = v
    | Inl err \<Rightarrow> (\<exists>key owner. err = AccountOwnerExcluded key owner) \<and> vals ! i = None)"
proof (induction zs arbitrary: vals)
  case (Cons z zs)
  obtain key account where z: "z = (key, account)" by (cases z)
  obtain v vs where parts: "vals = v # vs" "encode_accounts tp sel e sl bt zs = Inr vs"
    and here: "case account_value tp sel e sl bt key account of
        Inr w \<Rightarrow> v = w | Inl err \<Rightarrow> (\<exists>key owner. err = AccountOwnerExcluded key owner) \<and> v = None"
    using Cons.prems unfolding z
    by (cases account) (auto simp: rbind_Inr Let_def account_value_def rbind_def split: if_splits sum.splits)
  show ?case
  proof (intro conjI allI impI)
    show "length vals = length (z # zs)" using Cons.IH [OF parts(2)] by (simp add: parts(1))
    fix i assume "i < length (z # zs)"
    then show "case account_value tp sel e sl bt (fst ((z # zs) ! i)) (snd ((z # zs) ! i)) of Inr w \<Rightarrow> vals ! i = w
        | Inl err \<Rightarrow> (\<exists>key owner. err = AccountOwnerExcluded key owner) \<and> vals ! i = None"
      unfolding parts(1) z using Cons.IH [OF parts(2)] here by (cases i) (auto split: sum.splits)
  qed
qed simp

text \<open>C14: In an answer of \<open>getMultipleAccounts\<close> that asks for an encoding, the value at each position is the value
  \<open>getAccountInfo\<close> answers for that key under the same configuration and node state, at the same context slot: from the
  processed blocks, from the rows or with the mint of another account joined, whatever the other keys are and how
  often a key repeats. Only an account of an unindexed owner differs, an error there and a null value here.\<close>

theorem multiple_as_single:
  assumes "picks_newest pick" and "ai_encoding config = Some e"
    and "get_multiple_accounts tp (fetch_from pick db) state pubkeys (Some config) = Inr (slot, values)"
  shows "length values = length pubkeys \<and>
    (\<forall>i < length pubkeys. case get_account_info_method tp (fetch_from pick db) state (pubkeys ! i) (Some config) of
       Inr answer \<Rightarrow> answer = (slot, values ! i)
     | Inl err \<Rightarrow> (\<exists>key owner. err = AccountOwnerExcluded key owner) \<and> values ! i = None)"
proof -
  obtain keys r block_time where keys: "parse_keys pubkeys = Inr keys"
    and r: "read_for state (ai_commitment config) = Inr r"
    and at: "slot_and_block_time state r = Inr (slot, block_time)"
    and slot_floor: "check_min_context_slot (ai_min_context_slot config) slot = Inr ()"
    and run: "(if keys = [] then Inr (slot, [])
           else rbind (read_accounts (fetch_from pick db) r keys slot (e = Enc_JsonParsed)) (\<lambda>accounts.
                rbind (encode_accounts tp (rs_indexer_filter state) e (ai_data_slice config) block_time (zip keys accounts))
                  (\<lambda>values. Inr (slot, values)))) = Inr (slot, values)"
    using assms(3) unfolding get_multiple_accounts_def config_or_default_def
    by (auto simp: Let_def rbind_Inr assms(2) split: if_splits)
  have single: "get_account_info_method tp (fetch_from pick db) state p (Some config) =
      rbind (read_one pick db r slot (e = Enc_JsonParsed) key) (\<lambda>account.
      rbind (account_value tp (rs_indexer_filter state) e (ai_data_slice config) block_time key account) (\<lambda>v. Inr (slot, v)))"
    if "parse_key p = Inr key" for p key
    unfolding get_account_info_method_def config_or_default_def read_accounts_single [OF assms(1)]
    by (auto simp: Let_def rbind_def that r at slot_floor assms(2) read_accounts_single [OF assms(1)] account_value_def
        split: sum.split option.split)
  show ?thesis
  proof (cases "keys = []")
    case True
    then show ?thesis using run parse_keys_nth [OF keys] by simp
  next
    case False
    let ?read = "read_one pick db r slot (e = Enc_JsonParsed)"
    have all: "\<exists>x. ?read k = Inr x" if "k \<in> set keys" for k
      using run False that by (auto simp: rbind_Inr read_accounts_keywise [OF assms(1)] split: if_splits)
    have encoded: "encode_accounts tp (rs_indexer_filter state) e (ai_data_slice config) block_time
        (zip keys (map (\<lambda>k. projr (?read k)) keys)) = Inr values"
      using run False all by (auto simp: rbind_Inr read_accounts_keywise [OF assms(1)])
    show ?thesis
    proof (intro conjI allI impI)
      show "length values = length pubkeys" using encode_accounts_nth [OF encoded] parse_keys_nth [OF keys] by simp
      fix i assume i: "i < length pubkeys"
      then have key: "parse_key (pubkeys ! i) = Inr (keys ! i)" and len: "i < length keys"
        using parse_keys_nth [OF keys] by simp_all
      obtain account where account: "?read (keys ! i) = Inr account" using all len by (meson nth_mem)
      have "case account_value tp (rs_indexer_filter state) e (ai_data_slice config) block_time (keys ! i) account of
          Inr v \<Rightarrow> values ! i = v
        | Inl err \<Rightarrow> (\<exists>key owner. err = AccountOwnerExcluded key owner) \<and> values ! i = None"
        using encode_accounts_nth [OF encoded, THEN conjunct2, rule_format, of i] len by (simp add: account)
      then show "case get_account_info_method tp (fetch_from pick db) state (pubkeys ! i) (Some config) of
          Inr answer \<Rightarrow> answer = (slot, values ! i)
        | Inl err \<Rightarrow> (\<exists>key owner. err = AccountOwnerExcluded key owner) \<and> values ! i = None"
        unfolding single [OF key] account by (auto simp: rbind_def split: sum.splits)
    qed
  qed
qed


definition wit_tp :: "(api_account, u64) third_party" where
  "wit_tp = \<lparr>tp_codec = de_codec wit_decoder, tp_encode = (\<lambda>_ account _ _ _. account), tp_supply = (\<lambda>_. None),
     tp_token_amount = (\<lambda>amount _. amount)\<rparr>"

definition wit_config :: account_config where
  "wit_config = default_account_config \<lparr>ai_encoding := Some Enc_Base64\<rparr>"

definition wit_api_account :: api_account where
  "wit_api_account = \<lparr>aa_lamports = 5, aa_owner = pk 1, aa_executable = False, aa_rent_epoch = 0, aa_data = [0, 7, 8, 1, 2],
     aa_mint_data = None\<rparr>"

lemma wit_read_key:
  "read_key wit_pick 9 wit_db (replicate 32 3) = Some (wit_account_row (replicate 32 3) (pk 1) [0, 7, 8, 1, 2])"
  "read_key wit_pick 9 wit_db (replicate 32 4) = None"
  by (simp_all add: read_key_def versions_def wit_db_def wit_account_row_def wit_single visible_def)

lemma wit_read_one:
  assumes "rp_blocks r = None"
  shows "read_one wit_pick wit_db r 9 False (pk 3) = Inr (Some wit_api_account)"
    and "read_one wit_pick wit_db r 9 False (pk 4) = Inr None"
  using assms by (simp_all add: read_one_def in_blocks_def key_account_def sql_slot_bound_def wit_read_key from_row_def
      wit_account_row_def row_rent_epoch_def wit_api_account_def)

lemma wit_read_for:
  "read_for wit_state None = Inr \<lparr>rp_commitment = Level_Finalized, rp_blocks = None\<rparr>"
  by (simp add: read_for_def resolve_or_finalized_def wit_state_def)

lemma wit_slot:
  "rp_blocks r = None \<Longrightarrow> rp_commitment r = Level_Finalized \<Longrightarrow> slot_and_block_time wit_state r = Inr (9, 6)"
  by (simp add: slot_and_block_time_def latest_slot_and_block_time_def wit_state_def get_slot_for_commitment_def
      get_block_time_for_commitment_def)

lemma wit_selected_program [simp]: "is_program_selected (rs_indexer_filter wit_state) program"
  by (simp add: wit_state_def is_program_selected_def)

lemma wit_multiple:
  "get_multiple_accounts wit_tp (fetch_from wit_pick wit_db) wit_state [Inr (pk 3), Inr (pk 4), Inr (pk 3)] (Some wit_config) =
     Inr (9, [Some wit_api_account, None, Some wit_api_account])"
proof -
  have "rs_max_multiple_accounts wit_state = 100" by (simp add: wit_state_def)
  then show ?thesis
    by (simp add: get_multiple_accounts_def config_or_default_def wit_config_def default_account_config_def parse_key_def
      wit_read_for wit_slot check_min_context_slot_def read_accounts_keywise [OF wit_pick_newest] wit_read_one
      check_account_data_len_for_encoding_def wit_tp_def)
qed

lemma multiple_as_single_witness:
  "get_account_info_method wit_tp (fetch_from wit_pick wit_db) wit_state (Inr (pk 3)) (Some wit_config) =
     Inr (9, Some wit_api_account)"
  using multiple_as_single [OF wit_pick_newest _ wit_multiple, of Enc_Base64, THEN conjunct2, rule_format, of 0]
  by (simp add: wit_config_def split: sum.splits)


section \<open>A processed read is a read at the head\<close>

text \<open>The tables as they would be with the served blocks written over the rows at or below the anchor.\<close>

definition entry_row :: "u64 \<Rightarrow> pubkey \<Rightarrow> account_entry \<Rightarrow> db_row" where
  "entry_row slot key entry = (case entry of
     Live a \<Rightarrow> \<lparr>dr_pubkey = to_bytes key, dr_owner = to_bytes (la_owner a), dr_lamports = uint (la_lamports a),
       dr_slot = uint slot, dr_executable = la_executable a, dr_rent_epoch = uint (la_rent_epoch a), dr_data = la_data a,
       dr_write_version = 0\<rparr>
   | Closed \<Rightarrow> \<lparr>dr_pubkey = to_bytes key, dr_owner = replicate 32 0, dr_lamports = 0, dr_slot = uint slot,
       dr_executable = False, dr_rent_epoch = 0, dr_data = [], dr_write_version = 0\<rparr>)"

definition block_rows :: "slot_block \<Rightarrow> db_row list" where
  "block_rows b = map (\<lambda>key. entry_row (sb_slot b) key (the (fmlookup (sb_accounts b) key))) (fm_keys (sb_accounts b))"

definition head_tables :: "processed_blocks \<Rightarrow> db_tables \<Rightarrow> db_tables" where
  "head_tables pb db =
     \<lparr>tb_accounts = filter (\<lambda>row. dr_slot row \<le> uint (pb_anchor_slot pb)) (tb_accounts db) @ concat (map block_rows (pb_blocks pb)),
      tb_snapshot_accounts = filter (\<lambda>row. dr_slot row \<le> uint (pb_anchor_slot pb)) (tb_snapshot_accounts db)\<rparr>"

definition row_account :: "db_row option \<Rightarrow> api_account option rpc_result" where
  "row_account answer = (case answer of None \<Rightarrow> Inr None | Some row \<Rightarrow> rbind (from_row False (row, None)) (\<lambda>a. Inr (Some a)))"

lemma in_block_rows:
  "row \<in> set (block_rows b) \<longleftrightarrow>
     (\<exists>key entry. fmlookup (sb_accounts b) key = Some entry \<and> row = entry_row (sb_slot b) key entry)"
proof -
  show ?thesis
    unfolding block_rows_def set_map set_fm_keys
    by (force simp: image_iff fmlookup_dom'_iff)
qed

lemma entry_row_fields [simp]:
  "dr_pubkey (entry_row slot key entry) = to_bytes key" "dr_slot (entry_row slot key entry) = uint slot"
  by (simp_all add: entry_row_def split: account_entry.split)

lemma entry_row_account:
  assumes "\<And>a. entry = Live a \<Longrightarrow> la_lamports a \<noteq> 0"
  shows "row_account (visible (entry_row slot key entry)) =
    Inr (case entry of Live a \<Rightarrow> Some (from_live a) | Closed \<Rightarrow> None)"
proof (cases entry)
  case (Live a)
  then have "0 < uint (la_lamports a)" using assms by (simp add: order_less_le uint_0_iff)
  then show ?thesis using Live
    using uint_bounded [of "la_rent_epoch a"]
    by (simp add: entry_row_def visible_def row_account_def from_row_def row_rent_epoch_def from_live_def)
qed (simp add: entry_row_def visible_def row_account_def)

lemma served_facts:
  assumes "latest_chained_blocks (fold store_step es new_store) = Some (Some pb)"
  shows "pb_anchor_slot pb \<le> pb_slot pb" and "\<And>b. b \<in> set (pb_blocks pb) \<Longrightarrow> sb_slot b \<le> pb_slot pb"
    and "sorted_wrt (\<lambda>c p. sb_slot p < sb_slot c) (pb_blocks pb)"
proof -
  have k: "keyed (fold store_step es new_store)" by (rule store_run.invar_run)
  from latest_chained_chain [OF k assms] obtain an top where
    s: "servable (fold store_step es new_store) an top" and c: "chain_from (fold store_step es new_store) an top (pb_blocks pb)"
    and pb: "pb_slot pb = sb_slot top" "pb_anchor_slot pb = an_confirmed_slot an" by blast
  from latest_chained_served [OF k] assms obtain an' head' where
    "servable (fold store_step es new_store) an' head'" and r: "reaches (fold store_step es new_store) an' head'" by blast
  then have "an' = an \<and> head' = top" using s by (simp add: servable_def)
  then show "pb_anchor_slot pb \<le> pb_slot pb" using reaches_slot [OF r] pb by simp
  show desc: "sorted_wrt (\<lambda>c p. sb_slot p < sb_slot c) (pb_blocks pb)" by (rule chain_from_descending [OF k c])
  show "sb_slot b \<le> pb_slot pb" if "b \<in> set (pb_blocks pb)" for b
    using c that desc pb(1) by (cases "pb_blocks pb") (auto simp: chain_from_def)
qed

text \<open>The versions of a key in \<open>head_tables\<close>: its rows at or below the anchor and its writes in the blocks.\<close>

lemma head_versions:
  assumes "latest_chained_blocks (fold store_step es new_store) = Some (Some pb)"
  shows "row \<in> set (versions (\<lambda>_. True) (to_bytes key) (uint (pb_slot pb))
      (tb_accounts (head_tables pb db) @ tb_snapshot_accounts (head_tables pb db))) \<longleftrightarrow>
    dr_pubkey row = to_bytes key \<and>
      (row \<in> set (tb_accounts db @ tb_snapshot_accounts db) \<and> dr_slot row \<le> uint (pb_anchor_slot pb)
       \<or> (\<exists>b \<in> set (pb_blocks pb). \<exists>entry. fmlookup (sb_accounts b) key = Some entry \<and> row = entry_row (sb_slot b) key entry))"
    (is "_ \<longleftrightarrow> ?mem")
proof -
  have "dr_slot row \<le> uint (pb_slot pb)" if "?mem"
    using that served_facts(1,2) [OF assms] by (auto simp: word_le_def dest: order_trans)
  then show ?thesis by (auto simp: head_tables_def in_block_rows to_bytes_inject) blast+
qed

lemma read_through_blocks:
  assumes "picks_newest pick" and "rp_blocks r = Some pb"
  shows "read_accounts (fetch_from pick db) r [key] latest False =
      rbind (case get_account pb key of PLive a \<Rightarrow> Inr (Some (from_live a)) | PClosed \<Rightarrow> Inr None
        | PUnknown \<Rightarrow> key_account pick db False (pb_anchor_slot pb) key) (\<lambda>a. Inr [a])"
  unfolding read_accounts_single [OF assms(1)] read_one_def in_blocks_def sql_slot_bound_def assms(2) option.case if_False
  by (simp only: rbind_return)

lemma newest_block_write:
  assumes "sorted_wrt (\<lambda>c p. sb_slot p < sb_slot c) blocks" and "\<exists>b \<in> set blocks. fmlookup (sb_accounts b) key \<noteq> None"
  obtains b entry where "b \<in> set blocks" and "fmlookup (sb_accounts b) key = Some entry"
    and "\<And>c. c \<in> set blocks \<Longrightarrow> fmlookup (sb_accounts c) key \<noteq> None \<Longrightarrow> sb_slot c \<le> sb_slot b"
    and "get_account_in blocks key = (case entry of Live a \<Rightarrow> PLive a | Closed \<Rightarrow> PClosed)"
proof -
  let ?written = "{b \<in> set blocks. fmlookup (sb_accounts b) key \<noteq> None}"
  have fin: "finite ?written" and ne: "?written \<noteq> {}" using assms(2) by auto
  have "Max (sb_slot ` ?written) \<in> sb_slot ` ?written" by (rule Max_in) (use fin ne in simp_all)
  then obtain b where b: "b \<in> ?written" and max: "Max (sb_slot ` ?written) = sb_slot b" by blast
  have newest: "sb_slot c \<le> sb_slot b" if "c \<in> ?written" for c
    unfolding max [symmetric] by (rule Max_ge) (use fin that in simp_all)
  obtain entry where entry: "fmlookup (sb_accounts b) key = Some entry" using b by auto
  have "get_account_in blocks key = (case entry of Live a \<Rightarrow> PLive a | Closed \<Rightarrow> PClosed)"
    by (rule get_account_in_newest [OF assms(1) _ entry]) (use b newest in auto)
  then show thesis using that [of b entry] b entry newest by blast
qed

lemma unwritten_as_head:
  assumes "latest_chained_blocks (fold store_step es new_store) = Some (Some pb)" and "picks_newest pick"
    and "\<forall>b \<in> set (pb_blocks pb). fmlookup (sb_accounts b) key = None"
  shows "read_key pick (pb_anchor_slot pb) db (to_bytes key) \<in>
    get_account_info (to_bytes key) (uint (pb_slot pb)) (head_tables pb db)"
proof -
  let ?below = "versions (\<lambda>_. True) (to_bytes key) (uint (pb_anchor_slot pb)) (tb_accounts db @ tb_snapshot_accounts db)"
  let ?versions = "versions (\<lambda>_. True) (to_bytes key) (uint (pb_slot pb))
      (tb_accounts (head_tables pb db) @ tb_snapshot_accounts (head_tables pb db))"
  have "set ?versions = set ?below" using head_versions [OF assms(1)] assms(3) by (auto simp: set_eq_iff)
  then have "newest ?versions = newest ?below" and "?versions = [] \<longleftrightarrow> ?below = []"
    by (simp_all add: newest_def flip: set_empty)
  then have "get_account_info (to_bytes key) (uint (pb_slot pb)) (head_tables pb db) = answers_of ?below"
    by (simp add: get_account_info_def answers_def answers_of_def)
  then show ?thesis using assms(2) by (simp add: read_key_def answers_of_def Let_def picks_newest_def)
qed

text \<open>C13: A processed read refines a read at the head. For the blocks served after any sequence of blocks, anchors and
  prunes, a key read through the blocks and, where they do not know it, through the statement bounded by the anchor
  answers what \<open>getAccountInfo\<close> answers at the head slot on the tables with the blocks written over them, provided a key
  the blocks wrote has no newer row below the anchor, and no live account of a block is empty.\<close>

theorem processed_read_as_head:
  assumes "latest_chained_blocks (fold store_step es new_store) = Some (Some pb)" and "rp_blocks r = Some pb"
    and "picks_newest pick"
    and "\<And>b a. b \<in> set (pb_blocks pb) \<Longrightarrow> fmlookup (sb_accounts b) key = Some (Live a) \<Longrightarrow> la_lamports a \<noteq> 0"
    and "\<And>row b entry. row \<in> set (tb_accounts db @ tb_snapshot_accounts db) \<Longrightarrow> dr_pubkey row = to_bytes key \<Longrightarrow>
      dr_slot row \<le> uint (pb_anchor_slot pb) \<Longrightarrow> b \<in> set (pb_blocks pb) \<Longrightarrow> fmlookup (sb_accounts b) key = Some entry \<Longrightarrow>
      \<exists>c \<in> set (pb_blocks pb). fmlookup (sb_accounts c) key \<noteq> None \<and> dr_slot row \<le> uint (sb_slot c)"
  shows "\<exists>answer \<in> get_account_info (to_bytes key) (uint (pb_slot pb)) (head_tables pb db).
    read_accounts (fetch_from pick db) r [key] latest False = rbind (row_account answer) (\<lambda>a. Inr [a])"
proof (cases "\<exists>b \<in> set (pb_blocks pb). fmlookup (sb_accounts b) key \<noteq> None")
  case True
  let ?versions = "versions (\<lambda>_. True) (to_bytes key) (uint (pb_slot pb))
      (tb_accounts (head_tables pb db) @ tb_snapshot_accounts (head_tables pb db))"
  obtain b entry where b: "b \<in> set (pb_blocks pb)" "fmlookup (sb_accounts b) key = Some entry"
    and newest: "\<And>c. c \<in> set (pb_blocks pb) \<Longrightarrow> fmlookup (sb_accounts c) key \<noteq> None \<Longrightarrow> sb_slot c \<le> sb_slot b"
    and read: "get_account_in (pb_blocks pb) key = (case entry of Live a \<Rightarrow> PLive a | Closed \<Rightarrow> PClosed)"
    using newest_block_write [OF served_facts(3) [OF assms(1)] True] by blast
  let ?row = "entry_row (sb_slot b) key entry"
  have "?row \<in> set ?versions" by (rule iffD2 [OF head_versions [OF assms(1)]]) (use b in auto)
  moreover have "dr_slot row \<le> dr_slot ?row" if "row \<in> set ?versions" for row
    using iffD1 [OF head_versions [OF assms(1)] that] newest assms(5) [of row b entry] b by (fastforce simp: word_le_def)
  ultimately have "?row \<in> newest ?versions" unfolding newest_def by blast
  then have answer: "visible ?row \<in> get_account_info (to_bytes key) (uint (pb_slot pb)) (head_tables pb db)"
    unfolding get_account_info_def answers_def answers_of_def
    by (cases "?versions = []") (auto simp only: newest_def list.set if_False if_True)
  have "row_account (visible ?row) = Inr (case entry of Live a \<Rightarrow> Some (from_live a) | Closed \<Rightarrow> None)"
    by (rule entry_row_account) (use assms(4) b in auto)
  then have "read_accounts (fetch_from pick db) r [key] latest False = rbind (row_account (visible ?row)) (\<lambda>a. Inr [a])"
    unfolding read_through_blocks [OF assms(3,2)] get_account_def read by (cases entry) simp_all
  then show ?thesis using answer by blast
next
  case False
  then have "get_account pb key = PUnknown" by (auto simp: get_account_def get_account_in_unknown)
  then have "read_accounts (fetch_from pick db) r [key] latest False =
      rbind (row_account (read_key pick (pb_anchor_slot pb) db (to_bytes key))) (\<lambda>a. Inr [a])"
    unfolding read_through_blocks [OF assms(3,2)] row_account_def by (simp add: key_account_def cong: option.case_cong)
  moreover have "read_key pick (pb_anchor_slot pb) db (to_bytes key) \<in>
      get_account_info (to_bytes key) (uint (pb_slot pb)) (head_tables pb db)"
    by (rule unwritten_as_head [OF assms(1,3)]) (use False in simp)
  ultimately show ?thesis by blast
qed

definition wit_plan :: read_plan where
  "wit_plan = \<lparr>rp_commitment = Level_Confirmed, rp_blocks = Some wit_served\<rparr>"

definition wit_open_row :: db_row where
  "wit_open_row = wit_account_row (replicate 32 1) (pk 2) [7]"

text \<open>The key is open in the tables and closed by the served blocks, so it reads as closed.\<close>

lemma processed_read_as_head_witness:
  "\<exists>answer \<in> get_account_info (to_bytes (pk 1)) (uint (pb_slot wit_served))
       (head_tables wit_served \<lparr>tb_accounts = [wit_open_row], tb_snapshot_accounts = []\<rparr>).
     read_accounts (fetch_from wit_pick \<lparr>tb_accounts = [wit_open_row], tb_snapshot_accounts = []\<rparr>) wit_plan [pk 1] 0 False =
       rbind (row_account answer) (\<lambda>a. Inr [a])"
proof (rule processed_read_as_head [OF wit_served_latest _ wit_pick_newest])
  show "rp_blocks wit_plan = Some wit_served" by (simp add: wit_plan_def)
  show "la_lamports a \<noteq> 0" if "b \<in> set (pb_blocks wit_served)" "fmlookup (sb_accounts b) (pk 1) = Some (Live a)" for b a
    using that by (auto simp: wit_served_def Processed.wit_block_def)
  fix row assume "row \<in> set (tb_accounts \<lparr>tb_accounts = [wit_open_row], tb_snapshot_accounts = []\<rparr> @
      tb_snapshot_accounts \<lparr>tb_accounts = [wit_open_row], tb_snapshot_accounts = []\<rparr>)"
  then have "dr_slot row = 8" by (simp add: wit_open_row_def wit_account_row_def)
  then show "\<exists>c \<in> set (pb_blocks wit_served). fmlookup (sb_accounts c) (pk 1) \<noteq> None \<and> dr_slot row \<le> uint (sb_slot c)"
    by (simp add: wit_served_def Processed.wit_block_def)
qed

section \<open>What getSupply serves\<close>

lemma find_rev_newest:
  assumes "sorted_wrt (\<lambda>a b. f a < f b) rows" and "find (\<lambda>row. f row \<le> bound) (rev rows) = Some row"
  shows "row \<in> set rows \<and> f row \<le> bound \<and> (\<forall>other \<in> set rows. f other \<le> bound \<longrightarrow> f other \<le> (f row :: 'a :: linorder))"
proof -
  obtain i where i: "i < length rows" "f (rev rows ! i) \<le> bound" "row = rev rows ! i"
    and before: "\<forall>j < i. \<not> f (rev rows ! j) \<le> bound"
    using assms(2) by (auto simp: find_Some_iff)
  have desc: "sorted_wrt (\<lambda>a b. f b < f a) (rev rows)" using assms(1) by (simp add: sorted_wrt_rev)
  have "f other \<le> f row" if other: "other \<in> set rows" and low: "f other \<le> bound" for other
  proof -
    obtain j where j: "j < length (rev rows)" "rev rows ! j = other" using other in_set_conv_nth [of other "rev rows"] by auto
    then have "\<not> j < i" using before low by blast
    then consider "j = i" | "i < j" by linarith
    then show ?thesis
    proof cases
      case 2
      then show ?thesis using sorted_wrt_nth_less [OF desc, of i j] j i(3) by simp
    qed (use j i(3) in simp)
  qed
  moreover have "row \<in> set (rev rows)" unfolding i(3) by (rule nth_mem) (use i(1) in simp)
  ultimately show ?thesis using i(2,3) by auto
qed

text \<open>An answer of \<open>getSupply\<close> at the finalized commitment comes from a healthy node and from the newest row of the
  polled ring at or below the finalized slot, which lies at most 150 slots behind it; total and non-circulating lamports
  are that row's, and the circulating ones are their difference, never below zero.\<close>

theorem finalized_supply_served:
  assumes "get_supply state slot_rows (rows, listed) level exclude = Inr (slot, answer)"
    and "resolve_or_finalized level (rs_processed_commitment state) = Inr Level_Finalized"
    and "sorted_wrt (\<lambda>a b. sr_slot a < sr_slot b) rows"
  shows "(\<forall>data. rs_slots state = Some data \<longrightarrow> ss_healthy data)
    \<and> slot \<le> supply_finalized_slot state slot_rows \<and> unat (supply_finalized_slot state slot_rows) \<le> unat slot + 150
    \<and> (\<forall>row \<in> set rows. sr_slot row \<le> supply_finalized_slot state slot_rows \<longrightarrow> sr_slot row \<le> slot)
    \<and> (\<exists>row \<in> set rows. sr_slot row = slot \<and> sr_total row = rs_total answer
        \<and> sr_non_circulating row = Some (rs_non_circulating answer))
    \<and> unat (rs_circulating answer) = unat (rs_total answer) - unat (rs_non_circulating answer)"
proof -
  let ?finalized = "supply_finalized_slot state slot_rows"
  obtain row non_circulating where row: "find (\<lambda>row. sr_slot row \<le> ?finalized) (rev rows) = Some row"
    and nc: "sr_non_circulating row = Some non_circulating" and healthy: "\<forall>data. rs_slots state = Some data \<longrightarrow> ss_healthy data"
    and stale: "\<not> MAX_SUPPLY_STALENESS_SLOTS < saturating_sub ?finalized (sr_slot row)"
    and answer: "slot = sr_slot row" "rs_total answer = sr_total row" "rs_non_circulating answer = non_circulating"
      "rs_circulating answer = saturating_sub (sr_total row) non_circulating"
    using assms(1) unfolding get_supply_def assms(2)
    by (auto simp: Let_def supply_row_for_def split: option.splits if_splits)
  note newest = find_rev_newest [OF assms(3) row]
  have "unat ?finalized \<le> unat (sr_slot row) + 150"
    using stale by (simp add: MAX_SUPPLY_STALENESS_SLOTS_def word_less_nat_alt unat_saturating_sub)
  then show ?thesis using newest healthy nc answer by (auto simp: unat_saturating_sub)
qed

definition wit_supply_rows :: "supply_row list" where
  "wit_supply_rows = [\<lparr>sr_slot = 7, sr_total = 100, sr_non_circulating = Some 30\<rparr>,
     \<lparr>sr_slot = 10, sr_total = 101, sr_non_circulating = Some 31\<rparr>]"

lemma finalized_supply_served_witness:
  "\<exists>answer. get_supply wit_state [] (wit_supply_rows, Some [pk 5]) None False = Inr (7, answer)
     \<and> unat (rs_circulating answer) = unat (rs_total answer) - unat (rs_non_circulating answer)"
proof -
  let ?answer = "\<lparr>rs_total = 100, rs_circulating = 70, rs_non_circulating = 30, rs_non_circulating_accounts = [pk 5]\<rparr>"
  have run: "get_supply wit_state [] (wit_supply_rows, Some [pk 5]) None False = Inr (7, ?answer)"
    by (simp add: get_supply_def resolve_or_finalized_def wit_state_def wit_supply_rows_def supply_finalized_slot_def
        supply_row_for_def MAX_SUPPLY_STALENESS_SLOTS_def saturating_sub_def)
  have level: "resolve_or_finalized None (rs_processed_commitment wit_state) = Inr Level_Finalized"
    by (simp add: resolve_or_finalized_def wit_state_def)
  have order: "sorted_wrt (\<lambda>a b. sr_slot a < sr_slot b) wit_supply_rows" by (simp add: wit_supply_rows_def)
  show ?thesis using finalized_supply_served [OF run level order] run by blast
qed

end
