(* ===== verification/Index_Identity.thy ===== *)
theory Index_Identity
  imports Gpa_Query
begin

text \<open>
  The shape of a request that decides which index would serve it: \<open>crates/core/src/modules/index_identity.rs\<close>. The
  filters are those of \<open>Rpc_Filter\<close>. BLAKE3 is third-party: its hexadecimal digest is the parameter \<open>digest\<close>, and the
  bytes hashed are the model's. A \<open>CREATE INDEX\<close> statement is kept as a term; \<open>create_index_sql\<close> is its text and
  \<open>index_holds\<close> what the partial index holds.
\<close>

section \<open>Identities\<close>

record parsed_index_filter =
  if_offsets_lengths :: "(u64 \<times> u64) list"
  if_datasize :: "u64 option"

record index_identity =
  id_program :: pubkey
  id_filter :: parsed_index_filter

text \<open>The loop of \<open>IndexIdentity::parse\<close>: \<open>None\<close> when the bytes of a \<open>memcmp\<close> cannot be read; the last \<open>DataSize\<close> counts.\<close>

fun parse_shape :: "rpc_filter_type list \<Rightarrow> (u64 \<times> u64) list \<Rightarrow> u64 option \<Rightarrow> ((u64 \<times> u64) list \<times> u64 option) option" where
  "parse_shape [] offsets_lengths datasize = Some (offsets_lengths, datasize)"
| "parse_shape (f # filters) offsets_lengths datasize = (case f of
     DataSize sz \<Rightarrow> parse_shape filters offsets_lengths (Some sz)
   | Memcmp m \<Rightarrow> (case mc_bytes m of
       None \<Rightarrow> None
     | Some bytes \<Rightarrow> parse_shape filters (offsets_lengths @ [(mc_offset m, of_nat (length bytes))]) datasize)
   | TokenAccountState \<Rightarrow> parse_shape filters offsets_lengths datasize
   | ValueCmp _ \<Rightarrow> parse_shape filters offsets_lengths datasize)"

definition parse_identity :: "pubkey \<Rightarrow> program_accounts_config option \<Rightarrow> index_identity option" where
  "parse_identity program config =
     (if program = TOKEN_PROGRAM_ID then None
      else Option.bind config (\<lambda>c. Option.bind (pc_filters c) (\<lambda>filters.
        Option.bind (parse_shape filters [] None) (\<lambda>(offsets_lengths, datasize).
          if offsets_lengths = [] \<and> datasize = None then None
          else Some \<lparr>id_program = program,
            id_filter = \<lparr>if_offsets_lengths = remdups_adj (sort offsets_lengths), if_datasize = datasize\<rparr>\<rparr>))))"

definition identity_from_parts :: "pubkey \<Rightarrow> (u64 \<times> u64) list \<Rightarrow> u64 option \<Rightarrow> index_identity" where
  "identity_from_parts program offsets_lengths datasize =
     \<lparr>id_program = program, id_filter = \<lparr>if_offsets_lengths = offsets_lengths, if_datasize = datasize\<rparr>\<rparr>"

text \<open>The bytes hashed for the id, and the id: the first 16 characters of the digest.\<close>

definition PATTERN_ID_HEX_LEN :: nat where "PATTERN_ID_HEX_LEN = 16"

definition id_bytes :: "index_identity \<Rightarrow> u8 list" where
  "id_bytes identity =
     to_bytes (id_program identity)
     @ concat (map (\<lambda>(offset, len). to_le_bytes 8 offset @ to_le_bytes 8 len) (if_offsets_lengths (id_filter identity)))
     @ (case if_datasize (id_filter identity) of Some sz \<Rightarrow> 1 # to_le_bytes 8 sz | None \<Rightarrow> [0])"

definition pattern_id :: "(u8 list \<Rightarrow> string) \<Rightarrow> index_identity \<Rightarrow> string" where
  "pattern_id digest identity = take PATTERN_ID_HEX_LEN (digest (id_bytes identity))"

definition pg_index_name :: "(u8 list \<Rightarrow> string) \<Rightarrow> index_identity \<Rightarrow> string \<Rightarrow> string" where
  "pg_index_name digest identity table = ''idx_'' @ table @ ''_'' @ pattern_id digest identity"

definition PG_MAX_IDENTIFIER_LEN :: nat where "PG_MAX_IDENTIFIER_LEN = 63"

section \<open>The index\<close>

record index_def =
  ix_name :: string
  ix_table :: string
  ix_columns :: "(u64 \<times> u64) list"
  ix_owner :: pubkey
  ix_length :: "u64 option"

definition create_index :: "(u8 list \<Rightarrow> string) \<Rightarrow> index_identity \<Rightarrow> string \<Rightarrow> index_def" where
  "create_index digest identity table =
     \<lparr>ix_name = pg_index_name digest identity table, ix_table = table,
      ix_columns = map (\<lambda>(offset, len). (offset + 1, len)) (if_offsets_lengths (id_filter identity)),
      ix_owner = id_program identity, ix_length = if_datasize (id_filter identity)\<rparr>"

fun join_with :: "string \<Rightarrow> string list \<Rightarrow> string" where
  "join_with sep [] = []"
| "join_with sep [s] = s"
| "join_with sep (s # t # ss) = s @ sep @ join_with sep (t # ss)"

definition hex_digit :: "nat \<Rightarrow> char" where
  "hex_digit n = char_of (if n < 10 then 48 + n else 87 + n)"

definition hex_of :: "u8 list \<Rightarrow> string" where
  "hex_of bs = concat (map (\<lambda>b. [hex_digit (unat b div 16), hex_digit (unat b mod 16)]) bs)"

definition create_index_sql :: "index_def \<Rightarrow> string" where
  "create_index_sql d =
     ''CREATE INDEX IF NOT EXISTS '' @ ix_name d @ '' ON '' @ ix_table d @ '' (''
     @ join_with '', '' (map (\<lambda>(position, len). ''substring(data, '' @ show_nat (unat position) @ '', '' @ show_nat (unat len) @ '')'')
         (ix_columns d) @ [''slot''])
     @ '') WHERE owner = '' @ [CHR 39] @ [CHR 92] @ ''x'' @ hex_of (to_bytes (ix_owner d)) @ [CHR 39] @ ''::bytea''
     @ (case ix_length d of Some sz \<Rightarrow> '' AND length(data) = '' @ show_nat (unat sz) | None \<Rightarrow> [])"

text \<open>The rows of the table a partial index holds.\<close>

definition index_holds :: "index_def \<Rightarrow> db_row \<Rightarrow> bool" where
  "index_holds d row \<longleftrightarrow> dr_owner row = to_bytes (ix_owner d)
     \<and> (case ix_length d of Some sz \<Rightarrow> length (dr_data row) = unat sz | None \<Rightarrow> True)"

section \<open>Value fingerprints\<close>

text \<open>\<open>IndexIdentity::value_fingerprint\<close>: the bytes hashed, \<open>None\<close> without a value. The sort by offset is stable.\<close>

definition memcmp_values :: "rpc_filter_type list \<Rightarrow> (u64 \<times> u8 list) list" where
  "memcmp_values filters = List.map_filter (\<lambda>f. case f of
     Memcmp m \<Rightarrow> map_option (\<lambda>bytes. (mc_offset m, bytes)) (mc_bytes m) | _ \<Rightarrow> None) filters"

definition fingerprint_bytes :: "program_accounts_config option \<Rightarrow> u8 list option" where
  "fingerprint_bytes config = Option.bind config (\<lambda>c. Option.bind (pc_filters c) (\<lambda>filters.
     let vals = sort_key fst (memcmp_values filters)
     in if vals = [] then None else Some (concat (map (\<lambda>(offset, bytes). to_le_bytes 8 offset @ bytes) vals))))"

definition value_fingerprint :: "(u8 list \<Rightarrow> u8 list) \<Rightarrow> program_accounts_config option \<Rightarrow> u64 option" where
  "value_fingerprint hash config = map_option (\<lambda>bs. from_le_bytes (take 8 (hash bs))) (fingerprint_bytes config)"


section \<open>The bytes of an id\<close>

lemma to_le_bytes64_inject: "to_le_bytes 8 a = to_le_bytes 8 b \<longleftrightarrow> a = (b :: u64)"
  by (metis from_to_le_bytes64)

lemma to_le_bytes64_nonempty: "to_le_bytes 8 a \<noteq> []"
  by (metis length_to_le_bytes list.size(3) zero_neq_numeral)

lemma pairs_inject:
  "concat (map (\<lambda>(a, b). to_le_bytes 8 a @ to_le_bytes 8 b) xs) = concat (map (\<lambda>(a, b). to_le_bytes 8 a @ to_le_bytes 8 b) ys) \<longleftrightarrow>
     xs = (ys :: (u64 \<times> u64) list)"
proof (induction xs arbitrary: ys)
  case Nil
  show ?case by (cases ys) (auto simp: to_le_bytes64_nonempty)
next
  case (Cons x xs)
  then show ?case
  proof (cases ys)
    case Nil
    then show ?thesis by (auto simp: to_le_bytes64_nonempty split: prod.split)
  next
    case (Cons y zs)
    then show ?thesis using Cons.IH
      by (auto simp: to_le_bytes64_inject split: prod.split)
  qed
qed

lemma length_pairs:
  "length (concat (map (\<lambda>(a, b). to_le_bytes 8 a @ to_le_bytes 8 b) xs)) = 16 * length (xs :: (u64 \<times> u64) list)"
  by (induction xs) auto

text \<open>Two requests share an id exactly when they share the index, up to a collision of the hash: the bytes that are
  hashed determine the program, the columns and the size predicate, although no length is written before the columns.\<close>

theorem id_bytes_determine: "id_bytes a = id_bytes b \<longleftrightarrow> a = b"
proof
  assume eq: "id_bytes a = id_bytes b"
  let ?pairs = "\<lambda>i. concat (map (\<lambda>(a, b). to_le_bytes 8 a @ to_le_bytes 8 b) (if_offsets_lengths (id_filter i)))"
    and ?rest = "\<lambda>i. case if_datasize (id_filter i) of Some sz \<Rightarrow> 1 # to_le_bytes 8 sz | None \<Rightarrow> [0]"
  have program: "id_program a = id_program b" and tail: "?pairs a @ ?rest a = ?pairs b @ ?rest b"
    using eq by (simp_all add: id_bytes_def to_bytes_inject)
  have "length (?pairs a) + length (?rest a) = length (?pairs b) + length (?rest b)"
    using arg_cong [OF tail, of length] by simp
  then have "length (?rest a) = length (?rest b)"
    unfolding length_pairs by (auto split: option.splits) presburger+
  then have "?pairs a = ?pairs b" and "?rest a = ?rest b" using tail by simp_all
  then have "if_offsets_lengths (id_filter a) = if_offsets_lengths (id_filter b)" "if_datasize (id_filter a) = if_datasize (id_filter b)"
    unfolding pairs_inject by (auto simp: to_le_bytes64_inject split: option.splits)
  then show "a = b" using program by simp
qed simp


section \<open>The index serves the request\<close>

lemma parse_shape_spec:
  "parse_shape filters cols ds = Some (cols', ds') \<Longrightarrow>
   set cols' = set cols \<union> {(mc_offset m, of_nat (length bytes)) | m bytes. Memcmp m \<in> set filters \<and> mc_bytes m = Some bytes}
   \<and> (\<forall>sz. ds' = Some sz \<longrightarrow> DataSize sz \<in> set filters \<or> ds = Some sz)"
proof (induction filters arbitrary: cols ds)
  case (Cons f filters)
  then show ?case by (cases f) (fastforce split: option.splits)+
qed simp

lemma build_loop_shape:
  "build_loop False filters (preds, params) = (preds', params') \<Longrightarrow>
   {(position, len). \<exists>param. Substring_Is position len param \<in> set preds'} =
     {(position, len). \<exists>param. Substring_Is position len param \<in> set preds}
     \<union> {(mc_offset m + 1, length bytes) | m bytes. Memcmp m \<in> set filters \<and> mc_bytes m = Some bytes}
   \<and> (\<forall>sz. Length_Is sz \<in> set preds' \<longleftrightarrow> Length_Is sz \<in> set preds \<or> DataSize sz \<in> set filters)"
proof (induction filters arbitrary: preds params)
  case (Cons f filters)
  show ?case
  proof (cases "filter_sql f False (length params + 1)")
    case None
    then show ?thesis using Cons.IH [of preds params] Cons.prems by (cases f) (auto simp: filter_sql_def split: option.splits)
  next
    case (Some c)
    then obtain clause val where c: "filter_sql f False (length params + 1) = Some (clause, val)" by (cases c) auto
    let ?params = "params @ (case val of None \<Rightarrow> [] | Some v \<Rightarrow> [v])"
    have "build_loop False filters (preds @ [clause], ?params) = (preds', params')"
      using Cons.prems c by simp
    then show ?thesis using Cons.IH [of "preds @ [clause]" ?params] c
      by (cases f) (auto simp: filter_sql_def split: option.splits)
  qed
qed simp

lemma eval_preds_each: "eval_preds params data preds = Some True \<Longrightarrow> p \<in> set preds \<Longrightarrow> eval_pred params data p = Some True"
  by (induction preds) (auto split: option.splits)

text \<open>The index built for a request can serve it: when the program is not a token program, every row the request's
  statement accepts lies in the partial index of its identity, and the expressions the statement compares with values are
  exactly the columns of that index.\<close>

theorem index_serves_request:
  assumes "parse_identity program (Some config) = Some identity" and "pc_filters config = Some filters"
    and "build memcmp_verify debug program filters label = Inr sf" and "\<not> is_token_program program"
  shows "(\<forall>row. dr_owner row = to_bytes program \<and> sql_matches sf (dr_data row) \<longrightarrow> index_holds (create_index digest identity table) row)
    \<and> set (ix_columns (create_index digest identity table)) =
      {(position, of_nat len) | position len param. Substring_Is position len param \<in> set (sf_preds sf)}"
proof -
  obtain cols ds where shape: "parse_shape filters [] None = Some (cols, ds)"
    and identity: "identity = \<lparr>id_program = program, id_filter = \<lparr>if_offsets_lengths = remdups_adj (sort cols), if_datasize = ds\<rparr>\<rparr>"
    using assms(1,2) by (auto simp: parse_identity_def bind_eq_Some_conv split: if_splits)
  note cols = parse_shape_spec [OF shape]
  have "build_loop False filters ([], []) = (sf_preds sf, sf_params sf)"
    using assms(3,4) unfolding build_eq_Inr by (simp add: add_delegate_tag_def)
  note preds = build_loop_shape [OF this]
  have "index_holds (create_index digest identity table) row" if "dr_owner row = to_bytes program" "sql_matches sf (dr_data row)" for row
  proof -
    have "length (dr_data row) = unat sz" if "ds = Some sz" for sz
    proof -
      have "Length_Is sz \<in> set (sf_preds sf)" using that cols preds by auto
      then show ?thesis using eval_preds_each \<open>sql_matches sf (dr_data row)\<close> unfolding sql_matches_def by fastforce
    qed
    then show ?thesis using that(1) by (simp add: index_holds_def create_index_def identity split: option.split)
  qed
  moreover have "set (ix_columns (create_index digest identity table)) =
      (\<lambda>(offset, len). (offset + 1, len)) ` {(mc_offset m, of_nat (length bytes)) | m bytes. Memcmp m \<in> set filters \<and> mc_bytes m = Some bytes}"
    using cols by (simp add: create_index_def identity)
  moreover have "\<dots> = (\<lambda>(position, len). (position, of_nat len)) ` {(position, len). \<exists>param. Substring_Is position len param \<in> set (sf_preds sf)}"
    using preds by (auto simp: image_iff) blast+
  ultimately show ?thesis by (auto simp: image_iff)
qed


definition wit_shape_config :: program_accounts_config where
  "wit_shape_config = \<lparr>pc_filters = Some wit_filters, pc_account_config = default_account_config, pc_with_context = None,
     pc_sort_results = None\<rparr>"

lemma index_serves_request_witness:
  "\<exists>identity. parse_identity (pk 1) (Some wit_shape_config) = Some identity
     \<and> index_holds (create_index (\<lambda>_. []) identity ''accounts'') (wit_account_row (replicate 32 3) (pk 1) [0, 7, 8, 1, 2])"
proof -
  obtain identity where identity: "parse_identity (pk 1) (Some wit_shape_config) = Some identity"
    using pk_ne_token [of 1] by (simp add: parse_identity_def wit_shape_config_def wit_filters_def is_token_program_def)
  have "sql_matches wit_built [0, 7, 8, 1, 2]"
    by (simp add: sql_matches_def wit_built_def pg_substring_def param_value_def)
  then show ?thesis
    using index_serves_request [OF identity _ wit_build] identity
    by (simp add: wit_shape_config_def wit_account_row_def pk_ne_token)
qed

lemma token_programs_differ: "TOKEN_2022_PROGRAM_ID \<noteq> TOKEN_PROGRAM_ID"
proof
  assume "TOKEN_2022_PROGRAM_ID = TOKEN_PROGRAM_ID"
  then have "to_bytes TOKEN_2022_PROGRAM_ID ! 4 = to_bytes TOKEN_PROGRAM_ID ! 4" by simp
  then show False by (simp add: TOKEN_PROGRAM_ID_def TOKEN_2022_PROGRAM_ID_def Abs_pubkey_inverse)
qed

text \<open>A Token-2022 request for the accounts of an owner has an identity, with the owner bytes as its column. Its statement
  compares \<open>token_owner\<close> and never that column, so the index built for the demand serves no request.\<close>

lemma token_2022_index_unused:
  assumes "length owner = 32" and "memcmp_verify \<lparr>mc_offset = TOKEN_ACCOUNT_OWNER_OFFSET, mc_encoded = enc, mc_bytes = Some owner\<rparr> = Inr ()"
    and "pc_filters config = Some [Memcmp \<lparr>mc_offset = TOKEN_ACCOUNT_OWNER_OFFSET, mc_encoded = enc, mc_bytes = Some owner\<rparr>]"
  shows "\<exists>identity sf. parse_identity TOKEN_2022_PROGRAM_ID (Some config) = Some identity
    \<and> ix_columns (create_index digest identity table) = [(33, 32)]
    \<and> build memcmp_verify debug TOKEN_2022_PROGRAM_ID (the (pc_filters config)) ''gpa'' = Inr sf
    \<and> sf_preds sf = [Token_Owner_Is 1]"
  using assms token_programs_differ
  by (simp add: parse_identity_def create_index_def build_def build_label_def is_token_program_def is_valid_token_query_def
      memcmp_key_def token_offsets add_delegate_tag_def has_memcmp_def filter_sql_def)

end
