(* ===== verification/Index_Tracker.thy ===== *)
theory Index_Tracker
  imports Index_Identity "HOL-Library.Char_ord"
begin

text \<open>
  The query tracker, which turns demand for \<open>getProgramAccounts\<close> shapes into indexes:
  \<open>crates/query-tracker/src/modules\<close> (\<open>ingest.rs\<close>, \<open>creation.rs\<close>, \<open>eviction.rs\<close>, \<open>indexer_backpressure.rs\<close>,
  \<open>store/mod.rs\<close>, \<open>store/patterns.rs\<close>, \<open>store/prioritization.rs\<close>, \<open>score_roll.rs\<close>) and \<open>stats/discrepancy.rs\<close>.

  The table \<open>index_patterns\<close> is a map by pattern id and the catalog the set of existing indexes; every SQL statement is an
  operation on them. \<open>float8\<close> is an ordered type \<open>'f\<close> whose operations are the record \<open>float_ops\<close>. Times are seconds. The
  counters are mathematical integers: a \<open>BIGINT\<close> overflows after \<open>2 ^ 63\<close> microseconds of demand. What a statement or the
  network answers is a field of an oracle.
\<close>

section \<open>Scores\<close>

record 'f float_ops =
  f8_of_int :: "int \<Rightarrow> 'f"
  f8_add :: "'f \<Rightarrow> 'f \<Rightarrow> 'f"
  f8_sub :: "'f \<Rightarrow> 'f \<Rightarrow> 'f"
  f8_mul :: "'f \<Rightarrow> 'f \<Rightarrow> 'f"
  f8_div :: "'f \<Rightarrow> 'f \<Rightarrow> 'f"
  f8_ln :: "'f \<Rightarrow> 'f"

datatype pattern_status = Candidate | Created | Evicted | Rejected

record 'f pattern_row =
  pr_id :: string
  pr_program :: "u8 list"
  pr_offsets_lengths :: "(u64 \<times> u64) list"
  pr_datasize :: "u64 option"
  pr_example :: "program_accounts_config option"
  pr_demand_count :: int
  pr_demand_at_create :: int
  pr_total_cost_us :: int
  pr_failed_count :: int
  pr_cost_with_index_us :: int
  pr_cost_with_index_count :: int
  pr_cost_without_index_us :: int
  pr_cost_without_index_count :: int
  pr_variety_hll :: "u8 list option"
  pr_variety_estimate :: int
  pr_first_seen_at :: int
  pr_last_demand_at :: "int option"
  pr_status :: pattern_status
  pr_created_at :: "int option"
  pr_evicted_at :: "int option"
  pr_create_attempts :: int
  pr_last_create_error :: "string option"
  pr_last_idx_scan :: int
  pr_last_seen_used :: "int option"
  pr_index_bytes :: int
  pr_demand_prev :: int
  pr_failed_prev :: int
  pr_idx_scan_prev :: int
  pr_demand_rate :: "int option"
  pr_failed_rate :: "int option"
  pr_supply_rate :: "int option"
  pr_rejected_with_index_avg_us :: "'f option"
  pr_without_index_at_reject_us :: "int option"
  pr_without_index_at_reject_count :: "int option"
  pr_discrepancy_state :: "string option"
  pr_discrepancy_ratio :: "'f option"
  pr_explain_state :: "string option"

definition coalesce :: "'a option \<Rightarrow> 'a \<Rightarrow> 'a" where
  "coalesce a b = (case a of Some x \<Rightarrow> x | None \<Rightarrow> b)"

datatype 'f priority_mode = Frequency | Cost | Cost_Per_Hit
  | Weighted (demand_weight: 'f) (supply_weight: 'f) (failure_weight: 'f) (latency_weight: 'f)

definition SCANS_PER_REQUEST :: int where "SCANS_PER_REQUEST = 2"

definition average :: "'f float_ops \<Rightarrow> int \<Rightarrow> int \<Rightarrow> 'f" where
  "average fo us count = f8_div fo (f8_of_int fo us) (f8_of_int fo (max count 1))"

definition avg_cost :: "'f float_ops \<Rightarrow> 'f pattern_row \<Rightarrow> 'f" where
  "avg_cost fo r = average fo (pr_total_cost_us r) (pr_demand_count r)"

definition compensated_without_avg :: "'f float_ops \<Rightarrow> 'f \<Rightarrow> 'f pattern_row \<Rightarrow> 'f" where
  "compensated_without_avg fo compensation r =
     f8_mul fo (average fo (pr_cost_without_index_us r) (pr_cost_without_index_count r)) compensation"

definition gain :: "'f::linorder float_ops \<Rightarrow> 'f \<Rightarrow> 'f pattern_row \<Rightarrow> 'f" where
  "gain fo compensation r =
     (if 0 < pr_cost_with_index_count r \<and> 0 < pr_cost_without_index_count r
      then f8_div fo (max (compensated_without_avg fo compensation r) (f8_of_int fo 1))
             (max (average fo (pr_cost_with_index_us r) (pr_cost_with_index_count r)) (f8_of_int fo 1))
      else f8_of_int fo 1)"

definition score_components :: "'f::linorder float_ops \<Rightarrow> 'f priority_mode \<Rightarrow> 'f \<Rightarrow> 'f pattern_row \<Rightarrow> ('f \<times> 'f \<times> 'f) option" where
  "score_components fo mode compensation r = (case mode of
     Weighted dw sw fw lw \<Rightarrow>
       (let demand = f8_of_int fo (coalesce (pr_demand_rate r) (pr_demand_count r));
            scans = f8_of_int fo (coalesce (pr_supply_rate r) (pr_last_idx_scan r));
            failed = f8_of_int fo (coalesce (pr_failed_rate r) (pr_failed_count r))
        in Some (avg_cost fo r,
             f8_add fo (f8_of_int fo 1) (f8_mul fo lw (f8_ln fo (gain fo compensation r))),
             f8_add fo (f8_add fo (f8_add fo (f8_of_int fo 1) (f8_mul fo dw demand))
                 (f8_mul fo sw (f8_div fo scans (f8_of_int fo SCANS_PER_REQUEST)))) (f8_mul fo fw failed)))
   | _ \<Rightarrow> None)"

definition score :: "'f::linorder float_ops \<Rightarrow> 'f priority_mode \<Rightarrow> 'f \<Rightarrow> 'f pattern_row \<Rightarrow> 'f" where
  "score fo mode compensation r = (case mode of
     Frequency \<Rightarrow> f8_of_int fo (pr_demand_count r)
   | Cost \<Rightarrow> f8_of_int fo (pr_total_cost_us r)
   | Cost_Per_Hit \<Rightarrow> avg_cost fo r
   | Weighted _ _ _ _ \<Rightarrow> (case score_components fo mode compensation r of
       Some (avg, g, counts) \<Rightarrow> f8_mul fo (f8_mul fo avg g) counts
     | None \<Rightarrow> f8_of_int fo 0))"

section \<open>The configuration\<close>

datatype regression_guard = Guard_Off | Guard_Warn | Guard_Evict

text \<open>\<open>tc_fill_target\<close> is \<open>floor(eviction-fill-threshold * max-auto-indexes)\<close>.\<close>

record 'f tracker_config =
  tc_priority_mode :: "'f priority_mode"
  tc_compensation :: 'f
  tc_generation_threshold :: int
  tc_cost_eligibility :: "'f option"
  tc_included_programs :: "pubkey list"
  tc_excluded_programs :: "pubkey list"
  tc_max_auto_indexes :: "nat option"
  tc_fill_target :: int
  tc_eviction_enabled :: bool
  tc_creation_bias :: 'f
  tc_min_idle :: int
  tc_min_age :: int
  tc_use_supply :: bool
  tc_drop_retries :: nat
  tc_regression_guard :: regression_guard
  tc_regression_ratio :: 'f
  tc_retry_delay :: int
  tc_discrepancy_enabled :: bool
  tc_discrepancy_delta :: 'f
  tc_queue_threshold :: u64
  tc_cleanup_lag_threshold :: u64

definition program_allowed :: "pubkey \<Rightarrow> 'f tracker_config \<Rightarrow> bool" where
  "program_allowed program c =
     (if tc_included_programs c = [] then program \<notin> set (tc_excluded_programs c) else program \<in> set (tc_included_programs c))"

section \<open>The store\<close>

type_synonym 'f patterns = "(string, 'f pattern_row) fmap"

definition update_row :: "string \<Rightarrow> ('f pattern_row \<Rightarrow> 'f pattern_row) \<Rightarrow> 'f patterns \<Rightarrow> 'f patterns" where
  "update_row key f t = (case fmlookup t key of None \<Rightarrow> t | Some r \<Rightarrow> fmupd key (f r) t)"

definition select_rows :: "('f pattern_row \<Rightarrow> bool) \<Rightarrow> 'f patterns \<Rightarrow> 'f pattern_row list" where
  "select_rows P t = filter P (map snd (fm_entries t))"

definition row_identity :: "'f pattern_row \<Rightarrow> index_identity option" where
  "row_identity r = map_option (\<lambda>p. identity_from_parts p (pr_offsets_lengths r) (pr_datasize r)) (try_from (pr_program r))"

definition new_row :: "string \<Rightarrow> index_identity \<Rightarrow> int \<Rightarrow> int \<Rightarrow> int \<Rightarrow> program_accounts_config option \<Rightarrow> int \<Rightarrow> 'f pattern_row" where
  "new_row key identity count cost failed example now =
     \<lparr>pr_id = key, pr_program = to_bytes (id_program identity), pr_offsets_lengths = if_offsets_lengths (id_filter identity),
      pr_datasize = if_datasize (id_filter identity), pr_example = example, pr_demand_count = count, pr_demand_at_create = 0,
      pr_total_cost_us = cost, pr_failed_count = failed, pr_cost_with_index_us = 0, pr_cost_with_index_count = 0,
      pr_cost_without_index_us = cost, pr_cost_without_index_count = count, pr_variety_hll = None, pr_variety_estimate = 0,
      pr_first_seen_at = now, pr_last_demand_at = Some now, pr_status = Candidate, pr_created_at = None, pr_evicted_at = None,
      pr_create_attempts = 0, pr_last_create_error = None, pr_last_idx_scan = 0, pr_last_seen_used = None, pr_index_bytes = 0,
      pr_demand_prev = 0, pr_failed_prev = 0, pr_idx_scan_prev = 0, pr_demand_rate = None, pr_failed_rate = None,
      pr_supply_rate = None, pr_rejected_with_index_avg_us = None, pr_without_index_at_reject_us = None,
      pr_without_index_at_reject_count = None, pr_discrepancy_state = None, pr_discrepancy_ratio = None, pr_explain_state = None\<rparr>"

definition add_demand :: "int \<Rightarrow> int \<Rightarrow> int \<Rightarrow> program_accounts_config option \<Rightarrow> int \<Rightarrow> 'f pattern_row \<Rightarrow> 'f pattern_row" where
  "add_demand count cost failed example now r =
     (let indexed = pr_status r = Created
      in r \<lparr>pr_demand_count := pr_demand_count r + count, pr_total_cost_us := pr_total_cost_us r + cost,
            pr_failed_count := pr_failed_count r + failed,
            pr_cost_with_index_us := pr_cost_with_index_us r + (if indexed then cost else 0),
            pr_cost_with_index_count := pr_cost_with_index_count r + (if indexed then count else 0),
            pr_cost_without_index_us := pr_cost_without_index_us r + (if indexed then 0 else cost),
            pr_cost_without_index_count := pr_cost_without_index_count r + (if indexed then 0 else count),
            pr_example := (case pr_example r of None \<Rightarrow> example | Some e \<Rightarrow> Some e),
            pr_last_demand_at := Some now,
            pr_status := (if pr_status r = Evicted then Candidate else pr_status r)\<rparr>)"

text \<open>\<open>sketch\<close> folds fingerprints into a stored HyperLogLog and estimates its cardinality.\<close>

type_synonym sketch = "u8 list option \<Rightarrow> u64 fset \<Rightarrow> u8 list \<times> int"

definition record_demand :: "sketch \<Rightarrow> (u8 list \<Rightarrow> string) \<Rightarrow> index_identity \<Rightarrow> u32 \<Rightarrow> u64 \<Rightarrow> u32 \<Rightarrow> u64 fset
    \<Rightarrow> program_accounts_config option \<Rightarrow> int \<Rightarrow> 'f patterns \<Rightarrow> 'f patterns" where
  "record_demand sk digest identity count cost failed fingerprints example now t =
     (let key = pattern_id digest identity;
          t1 = fmupd key (case fmlookup t key of
                 None \<Rightarrow> new_row key identity (uint count) (sint cost) (uint failed) example now
               | Some r \<Rightarrow> add_demand (uint count) (sint cost) (uint failed) example now r) t
      in if fingerprints = {||} then t1
         else update_row key (\<lambda>r. let (hll, estimate) = sk (pr_variety_hll r) fingerprints
                in r \<lparr>pr_variety_hll := Some hll, pr_variety_estimate := estimate\<rparr>) t1)"

definition top_candidates :: "'f::linorder float_ops \<Rightarrow> 'f tracker_config \<Rightarrow> nat \<Rightarrow> 'f patterns \<Rightarrow> 'f pattern_row list" where
  "top_candidates fo c limit t =
     take limit (rev (sort_key (score fo (tc_priority_mode c) (tc_compensation c))
       (select_rows (\<lambda>r. pr_status r = Candidate \<and> tc_generation_threshold c \<le> pr_demand_count r
          \<and> (case tc_cost_eligibility c of None \<Rightarrow> True | Some us \<Rightarrow> us \<le> avg_cost fo r)) t)))"

definition mark_created :: "string \<Rightarrow> int \<Rightarrow> 'f patterns \<Rightarrow> 'f patterns" where
  "mark_created key now = update_row key (\<lambda>r. r \<lparr>pr_status := Created, pr_created_at := Some now, pr_last_seen_used := Some now,
     pr_last_idx_scan := 0, pr_last_create_error := None, pr_evicted_at := None, pr_demand_at_create := pr_demand_count r,
     pr_idx_scan_prev := 0, pr_supply_rate := None\<rparr>)"

definition mark_create_failed :: "string \<Rightarrow> string \<Rightarrow> 'f patterns \<Rightarrow> 'f patterns" where
  "mark_create_failed key err = update_row key (\<lambda>r. r \<lparr>pr_create_attempts := pr_create_attempts r + 1,
     pr_last_create_error := Some err\<rparr>)"

definition list_created :: "'f patterns \<Rightarrow> 'f pattern_row list" where
  "list_created t = select_rows (\<lambda>r. pr_status r = Created) t"

definition update_supply :: "string \<Rightarrow> int \<Rightarrow> int \<Rightarrow> int \<Rightarrow> 'f patterns \<Rightarrow> 'f patterns" where
  "update_supply key idx_scan bytes now = update_row key (\<lambda>r. r \<lparr>pr_index_bytes := bytes,
     pr_last_seen_used := (if idx_scan \<noteq> pr_last_idx_scan r \<or> pr_last_seen_used r = None then Some now else pr_last_seen_used r),
     pr_last_idx_scan := idx_scan\<rparr>)"

definition roll_row :: "'f pattern_row \<Rightarrow> 'f pattern_row" where
  "roll_row r = r \<lparr>pr_demand_rate := Some (max (pr_demand_count r - pr_demand_prev r) 0),
     pr_failed_rate := Some (max (pr_failed_count r - pr_failed_prev r) 0),
     pr_supply_rate := Some (max (pr_last_idx_scan r - pr_idx_scan_prev r) 0),
     pr_demand_prev := pr_demand_count r, pr_failed_prev := pr_failed_count r, pr_idx_scan_prev := pr_last_idx_scan r\<rparr>"

definition roll_scores :: "'f patterns \<Rightarrow> 'f patterns" where
  "roll_scores = fmmap roll_row"

definition eviction_gate :: "'f tracker_config \<Rightarrow> int \<Rightarrow> 'f pattern_row \<Rightarrow> bool" where
  "eviction_gate c now r \<longleftrightarrow> pr_status r = Created
     \<and> tc_min_age c < now - coalesce (pr_created_at r) (pr_first_seen_at r)
     \<and> (tc_use_supply c \<longrightarrow> tc_min_idle c < now - coalesce (pr_last_seen_used r) (coalesce (pr_created_at r) (pr_first_seen_at r)))
     \<and> tc_min_idle c < now - coalesce (pr_last_demand_at r) (pr_first_seen_at r)"

definition eviction_candidates :: "'f::linorder float_ops \<Rightarrow> 'f tracker_config \<Rightarrow> int \<Rightarrow> 'f patterns \<Rightarrow> 'f pattern_row list" where
  "eviction_candidates fo c now t =
     sort_key (score fo (tc_priority_mode c) (tc_compensation c)) (select_rows (eviction_gate c now) t)"

definition eviction_boundary_score :: "'f::linorder float_ops \<Rightarrow> 'f tracker_config \<Rightarrow> int \<Rightarrow> nat \<Rightarrow> 'f patterns \<Rightarrow> 'f option" where
  "eviction_boundary_score fo c now offset t =
     (let rows = eviction_candidates fo c now t
      in if offset < length rows then Some (score fo (tc_priority_mode c) (tc_compensation c) (rows ! offset)) else None)"

definition mark_evicted :: "string \<Rightarrow> int \<Rightarrow> 'f patterns \<Rightarrow> 'f patterns" where
  "mark_evicted key now = update_row key (\<lambda>r. r \<lparr>pr_status := Evicted, pr_evicted_at := Some now\<rparr>)"

definition regression_candidates :: "'f::linorder float_ops \<Rightarrow> 'f tracker_config \<Rightarrow> int \<Rightarrow> 'f patterns \<Rightarrow> 'f pattern_row list" where
  "regression_candidates fo c now t = select_rows (\<lambda>r. pr_status r = Created \<and> 0 < pr_cost_with_index_count r
     \<and> tc_min_age c < now - coalesce (pr_created_at r) (pr_first_seen_at r)
     \<and> f8_mul fo (compensated_without_avg fo (tc_compensation c) r) (tc_regression_ratio c)
         < average fo (pr_cost_with_index_us r) (pr_cost_with_index_count r)) t"

definition mark_rejected :: "'f float_ops \<Rightarrow> string \<Rightarrow> int \<Rightarrow> 'f patterns \<Rightarrow> 'f patterns" where
  "mark_rejected fo key now = update_row key (\<lambda>r. r \<lparr>pr_status := Rejected, pr_evicted_at := Some now,
     pr_rejected_with_index_avg_us := Some (average fo (pr_cost_with_index_us r) (pr_cost_with_index_count r)),
     pr_without_index_at_reject_us := Some (pr_cost_without_index_us r),
     pr_without_index_at_reject_count := Some (pr_cost_without_index_count r)\<rparr>)"

definition recovered :: "'f::linorder float_ops \<Rightarrow> 'f tracker_config \<Rightarrow> int \<Rightarrow> 'f pattern_row \<Rightarrow> bool" where
  "recovered fo c now r \<longleftrightarrow> pr_status r = Rejected \<and>
     (let count = pr_cost_without_index_count r - coalesce (pr_without_index_at_reject_count r) 0;
          us = pr_cost_without_index_us r - coalesce (pr_without_index_at_reject_us r) 0
      in 0 < count
         \<and> (case pr_evicted_at r of None \<Rightarrow> False | Some at \<Rightarrow> tc_retry_delay c < now - at)
         \<and> (case pr_rejected_with_index_avg_us r of None \<Rightarrow> False
            | Some avg \<Rightarrow> f8_mul fo avg (tc_regression_ratio c) < f8_mul fo (average fo us count) (tc_compensation c)))"

definition promote_recovered_rejections :: "'f::linorder float_ops \<Rightarrow> 'f tracker_config \<Rightarrow> int \<Rightarrow> 'f patterns \<Rightarrow> 'f patterns" where
  "promote_recovered_rejections fo c now = fmmap (\<lambda>r.
     if recovered fo c now r
     then r \<lparr>pr_status := Candidate, pr_rejected_with_index_avg_us := None, pr_without_index_at_reject_us := None,
             pr_without_index_at_reject_count := None\<rparr>
     else r)"

definition set_discrepancy :: "string \<Rightarrow> string option \<Rightarrow> 'f option \<Rightarrow> 'f patterns \<Rightarrow> 'f patterns" where
  "set_discrepancy key state ratio = update_row key (\<lambda>r. r \<lparr>pr_discrepancy_state := state, pr_discrepancy_ratio := ratio\<rparr>)"

definition set_explain_state :: "string \<Rightarrow> string \<Rightarrow> 'f patterns \<Rightarrow> 'f patterns" where
  "set_explain_state key state = update_row key (\<lambda>r. r \<lparr>pr_explain_state := Some state\<rparr>)"

record store_counts =
  sc_created :: nat
  sc_candidate :: nat
  sc_evicted :: nat
  sc_rejected :: nat
  sc_discrepant :: nat

definition counts :: "'f patterns \<Rightarrow> store_counts" where
  "counts t =
     (let of_status = (\<lambda>s. length (select_rows (\<lambda>r. pr_status r = s) t))
      in \<lparr>sc_created = of_status Created, sc_candidate = of_status Candidate, sc_evicted = of_status Evicted,
          sc_rejected = of_status Rejected,
          sc_discrepant = length (select_rows (\<lambda>r. pr_status r = Created \<and> pr_discrepancy_state r \<noteq> None) t)\<rparr>)"


section \<open>Ingest\<close>

text \<open>An observation names its program in base58; \<open>Inl\<close> is a text that is no key. A statement that fails aborts the batch,
  and the transaction of its observation is not committed: \<open>failing\<close> is the observation it fails at.\<close>

record track_observation =
  to_program :: "string + pubkey"
  to_config :: "program_accounts_config option"
  to_count :: u32
  to_total_cost_us :: u64
  to_failed_count :: u32
  to_value_fingerprints :: "u64 fset"

fun apply_batch :: "sketch \<Rightarrow> (u8 list \<Rightarrow> string) \<Rightarrow> nat option \<Rightarrow> track_observation list \<Rightarrow> int \<Rightarrow> nat \<times> nat \<Rightarrow> 'f patterns
    \<Rightarrow> (nat \<times> nat) option \<times> 'f patterns" where
  "apply_batch sk digest failing [] now (accepted, skipped) t = (Some (accepted, skipped), t)"
| "apply_batch sk digest failing (obs # rest) now (accepted, skipped) t =
     (let further = (case failing of Some (Suc n) \<Rightarrow> Some n | _ \<Rightarrow> None) in
      case to_program obs of
        Inl _ \<Rightarrow> apply_batch sk digest further rest now (accepted, skipped + 1) t
      | Inr program \<Rightarrow> (case parse_identity program (to_config obs) of
            None \<Rightarrow> apply_batch sk digest further rest now (accepted, skipped + 1) t
          | Some identity \<Rightarrow>
              if failing = Some 0 then (None, t)
              else apply_batch sk digest further rest now (accepted + 1, skipped)
                (record_demand sk digest identity (to_count obs) (to_total_cost_us obs) (to_failed_count obs)
                   (to_value_fingerprints obs) (to_config obs) now t)))"

section \<open>Backpressure\<close>

record indexer_pressure =
  ip_finalize_queue :: "u64 option"
  ip_cleanup_lag :: "u64 option"

definition is_under_pressure :: "'f tracker_config \<Rightarrow> indexer_pressure option \<Rightarrow> bool" where
  "is_under_pressure c read = (case read of None \<Rightarrow> True | Some pressure \<Rightarrow>
     (case ip_finalize_queue pressure of None \<Rightarrow> True | Some finalize_queue \<Rightarrow>
        tc_queue_threshold c < finalize_queue
        \<or> (case ip_cleanup_lag pressure of None \<Rightarrow> False | Some lag \<Rightarrow> tc_cleanup_lag_threshold c < lag)))"

text \<open>\<open>wait_out_backpressure\<close>: the first reading, then one every ten seconds until the wait is over.\<close>

definition wait_out_backpressure :: "'f tracker_config \<Rightarrow> indexer_pressure option list \<Rightarrow> bool" where
  "wait_out_backpressure c readings = list_ex (\<lambda>reading. \<not> is_under_pressure c reading) readings"

section \<open>The catalog\<close>

record 'f tracker =
  tk_patterns :: "'f patterns"
  tk_indexes :: "(string \<times> string) fset"

definition INDEX_TABLES :: "string list" where "INDEX_TABLES = [''accounts'', ''snapshot_accounts'']"

definition CAP_TABLE :: string where "CAP_TABLE = ''snapshot_accounts''"

definition count_table_indexes :: "string \<Rightarrow> (string \<times> string) fset \<Rightarrow> nat" where
  "count_table_indexes table indexes = fcard (ffilter (\<lambda>(t, _). t = table) indexes)"

section \<open>Creation\<close>

text \<open>What the statements of a turn of the creation loop answer.\<close>

record creation_oracle =
  co_recover :: bool
  co_pressure :: "indexer_pressure option"
  co_count :: bool
  co_fetch :: bool
  co_boundary :: bool
  co_create :: "string \<Rightarrow> string option"
  co_mark_failed :: bool
  co_mark_created :: bool

definition CANDIDATE_FETCH_LIMIT :: nat where "CANDIDATE_FETCH_LIMIT = 16"

definition value_guard_allows :: "'f::linorder float_ops \<Rightarrow> 'f tracker_config \<Rightarrow> bool \<Rightarrow> int \<Rightarrow> int \<Rightarrow> 'f \<Rightarrow> 'f patterns \<Rightarrow> bool" where
  "value_guard_allows fo c boundary_ok now current sc t =
     (case tc_max_auto_indexes c of None \<Rightarrow> True | Some _ \<Rightarrow>
        if \<not> tc_eviction_enabled c then True
        else let over = current - tc_fill_target c in
          if over < 0 then True
          else if \<not> boundary_ok then False
          else case eviction_boundary_score fo c now (nat over) t of
                 Some b \<Rightarrow> b < f8_mul fo sc (tc_creation_bias c)
               | None \<Rightarrow> True)"

text \<open>The tables are indexed in order until one fails, which answers its error.\<close>

fun create_indexes :: "(string \<Rightarrow> string option) \<Rightarrow> (u8 list \<Rightarrow> string) \<Rightarrow> index_identity \<Rightarrow> string list \<Rightarrow> (string \<times> string) fset
    \<Rightarrow> string option \<times> (string \<times> string) fset" where
  "create_indexes create digest identity [] indexes = (None, indexes)"
| "create_indexes create digest identity (table # tables) indexes = (case create table of
     Some err \<Rightarrow> (Some err, indexes)
   | None \<Rightarrow> create_indexes create digest identity tables (finsert (table, pg_index_name digest identity table) indexes))"

definition create_pair :: "creation_oracle \<Rightarrow> (u8 list \<Rightarrow> string) \<Rightarrow> int \<Rightarrow> 'f pattern_row \<Rightarrow> index_identity \<Rightarrow> 'f tracker \<Rightarrow> 'f tracker" where
  "create_pair oc digest now row identity st =
     (let (failure, indexes) = create_indexes (co_create oc) digest identity INDEX_TABLES (tk_indexes st);
          st = st \<lparr>tk_indexes := indexes\<rparr>
      in case failure of
           Some err \<Rightarrow> if co_mark_failed oc then st \<lparr>tk_patterns := mark_create_failed (pr_id row) err (tk_patterns st)\<rparr> else st
         | None \<Rightarrow> if co_mark_created oc then st \<lparr>tk_patterns := mark_created (pr_id row) now (tk_patterns st)\<rparr> else st)"

definition choose_candidate :: "'f tracker_config \<Rightarrow> 'f pattern_row list \<Rightarrow> ('f pattern_row \<times> index_identity) option" where
  "choose_candidate c rows = (case List.map_filter (\<lambda>row. case row_identity row of
       None \<Rightarrow> None
     | Some identity \<Rightarrow> if program_allowed (id_program identity) c then Some (row, identity) else None) rows of
     [] \<Rightarrow> None | x # _ \<Rightarrow> Some x)"

definition creation_turn :: "'f::linorder float_ops \<Rightarrow> (u8 list \<Rightarrow> string) \<Rightarrow> 'f tracker_config \<Rightarrow> creation_oracle \<Rightarrow> int
    \<Rightarrow> 'f tracker \<Rightarrow> 'f tracker" where
  "creation_turn fo digest c oc now st =
     (let st = (if tc_regression_guard c \<noteq> Guard_Off \<and> co_recover oc
                then st \<lparr>tk_patterns := promote_recovered_rejections fo c now (tk_patterns st)\<rparr> else st)
      in if is_under_pressure c (co_pressure oc) then st
         else if tc_max_auto_indexes c \<noteq> None \<and> \<not> co_count oc then st
         else
           let current = (case tc_max_auto_indexes c of None \<Rightarrow> 0 | Some _ \<Rightarrow> count_table_indexes CAP_TABLE (tk_indexes st))
           in if (case tc_max_auto_indexes c of None \<Rightarrow> False | Some max_indexes \<Rightarrow> max_indexes \<le> current) then st
              else if \<not> co_fetch oc then st
              else case choose_candidate c (top_candidates fo c CANDIDATE_FETCH_LIMIT (tk_patterns st)) of
                     None \<Rightarrow> st
                   | Some (row, identity) \<Rightarrow>
                       if value_guard_allows fo c (co_boundary oc) now (int current)
                            (score fo (tc_priority_mode c) (tc_compensation c) row) (tk_patterns st)
                       then create_pair oc digest now row identity st
                       else st)"

section \<open>Eviction\<close>

datatype drop_outcome = Dropped | Lock_Timeout | Drop_Failed

definition is_safe_index_identifier :: "string \<Rightarrow> bool" where
  "is_safe_index_identifier name \<longleftrightarrow> name \<noteq> []
     \<and> list_all (\<lambda>ch. CHR ''a'' \<le> ch \<and> ch \<le> CHR ''z'' \<or> CHR ''0'' \<le> ch \<and> ch \<le> CHR ''9'' \<or> ch = CHR ''_'') name"

text \<open>The attempts of \<open>drop_one\<close>: a lock timeout is retried \<open>retries\<close> times.\<close>

fun drop_attempts :: "(nat \<Rightarrow> drop_outcome) \<Rightarrow> nat \<Rightarrow> nat \<Rightarrow> bool" where
  "drop_attempts outcome attempt 0 = (outcome attempt = Dropped)"
| "drop_attempts outcome attempt (Suc retries) = (case outcome attempt of
     Dropped \<Rightarrow> True
   | Lock_Timeout \<Rightarrow> drop_attempts outcome (attempt + 1) retries
   | Drop_Failed \<Rightarrow> False)"

definition drop_one :: "(string \<Rightarrow> nat \<Rightarrow> drop_outcome) \<Rightarrow> nat \<Rightarrow> string \<Rightarrow> string \<Rightarrow> (string \<times> string) fset \<Rightarrow> bool \<times> (string \<times> string) fset" where
  "drop_one outcome retries table name indexes =
     (if is_safe_index_identifier name \<and> drop_attempts (outcome name) 1 retries then (True, indexes |-| {|(table, name)|})
      else (False, indexes))"

fun drop_pair :: "(string \<Rightarrow> nat \<Rightarrow> drop_outcome) \<Rightarrow> nat \<Rightarrow> (u8 list \<Rightarrow> string) \<Rightarrow> index_identity \<Rightarrow> string list
    \<Rightarrow> (string \<times> string) fset \<Rightarrow> bool \<times> (string \<times> string) fset" where
  "drop_pair outcome retries digest identity [] indexes = (True, indexes)"
| "drop_pair outcome retries digest identity (table # tables) indexes =
     (case drop_one outcome retries table (pg_index_name digest identity table) indexes of
        (True, indexes) \<Rightarrow> drop_pair outcome retries digest identity tables indexes
      | (False, indexes) \<Rightarrow> (False, indexes))"

text \<open>What the statements of an eviction pass answer. \<open>eo_supply\<close> is the catalog read, \<open>None\<close> when it fails;
  \<open>eo_refreshed\<close> is how many rows are refreshed before a statement fails.\<close>

record eviction_oracle =
  eo_regression :: bool
  eo_track_counts :: "bool option"
  eo_supply :: "(string \<times> int \<times> int) list option"
  eo_refreshed :: nat
  eo_count :: bool
  eo_candidates :: bool
  eo_pressure :: "string \<Rightarrow> indexer_pressure option list"
  eo_drop :: "string \<Rightarrow> nat \<Rightarrow> drop_outcome"
  eo_mark :: "string \<Rightarrow> bool"

fun trim_pairs :: "(u8 list \<Rightarrow> string) \<Rightarrow> 'f tracker_config \<Rightarrow> eviction_oracle \<Rightarrow> int \<Rightarrow> 'f pattern_row list \<Rightarrow> int \<Rightarrow> 'f tracker \<Rightarrow> 'f tracker" where
  "trim_pairs digest c oc now [] count st = st"
| "trim_pairs digest c oc now (row # rows) count st =
     (if count \<le> tc_fill_target c then st
      else if \<not> wait_out_backpressure c (eo_pressure oc (pr_id row)) then st
      else case row_identity row of
             None \<Rightarrow> trim_pairs digest c oc now rows count st
           | Some identity \<Rightarrow>
               (case drop_pair (eo_drop oc) (tc_drop_retries c) digest identity INDEX_TABLES (tk_indexes st) of
                  (True, indexes) \<Rightarrow> trim_pairs digest c oc now rows (count - 1)
                    (st \<lparr>tk_indexes := indexes,
                         tk_patterns := (if eo_mark oc (pr_id row) then mark_evicted (pr_id row) now (tk_patterns st) else tk_patterns st)\<rparr>)
                | (False, indexes) \<Rightarrow> trim_pairs digest c oc now rows count (st \<lparr>tk_indexes := indexes\<rparr>)))"

fun drop_regressed :: "'f float_ops \<Rightarrow> (u8 list \<Rightarrow> string) \<Rightarrow> 'f tracker_config \<Rightarrow> eviction_oracle \<Rightarrow> int \<Rightarrow> 'f pattern_row list
    \<Rightarrow> 'f tracker \<Rightarrow> 'f tracker" where
  "drop_regressed fo digest c oc now [] st = st"
| "drop_regressed fo digest c oc now (row # rows) st =
     (if \<not> wait_out_backpressure c (eo_pressure oc (pr_id row)) then st
      else case row_identity row of
             None \<Rightarrow> drop_regressed fo digest c oc now rows st
           | Some identity \<Rightarrow>
               (case drop_pair (eo_drop oc) (tc_drop_retries c) digest identity INDEX_TABLES (tk_indexes st) of
                  (True, indexes) \<Rightarrow> drop_regressed fo digest c oc now rows
                    (st \<lparr>tk_indexes := indexes,
                         tk_patterns := (if eo_mark oc (pr_id row) then mark_rejected fo (pr_id row) now (tk_patterns st) else tk_patterns st)\<rparr>)
                | (False, indexes) \<Rightarrow> drop_regressed fo digest c oc now rows (st \<lparr>tk_indexes := indexes\<rparr>)))"

definition run_regression_guard :: "'f::linorder float_ops \<Rightarrow> (u8 list \<Rightarrow> string) \<Rightarrow> 'f tracker_config \<Rightarrow> eviction_oracle \<Rightarrow> int
    \<Rightarrow> 'f tracker \<Rightarrow> 'f tracker option" where
  "run_regression_guard fo digest c oc now st =
     (if \<not> eo_regression oc then None
      else Some (if tc_regression_guard c = Guard_Evict
                 then drop_regressed fo digest c oc now (regression_candidates fo c now (tk_patterns st)) st else st))"

text \<open>\<open>idx_accounts_<id>\<close> and \<open>idx_snapshot_accounts_<id>\<close> name the same pattern.\<close>

definition strip_prefix :: "string \<Rightarrow> string \<Rightarrow> string option" where
  "strip_prefix prefix s = (if take (length prefix) s = prefix then Some (drop (length prefix) s) else None)"

definition strip_index_prefix :: "string \<Rightarrow> string option" where
  "strip_index_prefix name =
     (case (case strip_prefix ''idx_snapshot_accounts_'' name of None \<Rightarrow> strip_prefix ''idx_accounts_'' name | Some s \<Rightarrow> Some s) of
        None \<Rightarrow> None | Some s \<Rightarrow> if s = [] then None else Some s)"

definition supply_by_pattern :: "(string \<times> int \<times> int) list \<Rightarrow> (string, int \<times> int) fmap" where
  "supply_by_pattern rows = fold (\<lambda>(name, idx_scan, bytes) m. case strip_index_prefix name of
       None \<Rightarrow> m
     | Some key \<Rightarrow> let (s, b) = coalesce (fmlookup m key) (0, 0) in fmupd key (s + idx_scan, b + bytes) m) rows fmempty"

datatype discrepancy_state = Discrepancy_Ok | Starved | Over_Scanned

definition as_stored :: "discrepancy_state \<Rightarrow> string option" where
  "as_stored s = (case s of Discrepancy_Ok \<Rightarrow> None | Starved \<Rightarrow> Some ''starved'' | Over_Scanned \<Rightarrow> Some ''over_scanned'')"

definition evaluate_discrepancy :: "'f::linorder float_ops \<Rightarrow> int \<Rightarrow> int \<Rightarrow> 'f \<Rightarrow> int \<Rightarrow> discrepancy_state \<times> 'f option" where
  "evaluate_discrepancy fo demand_since_create scans delta min_demand =
     (if demand_since_create < max min_demand 1 then (Discrepancy_Ok, None)
      else let ratio = f8_div fo (f8_of_int fo scans) (f8_of_int fo demand_since_create)
           in (if ratio < f8_sub fo (f8_of_int fo 1) delta then Starved
               else if f8_add fo (f8_of_int fo 1) delta < ratio then Over_Scanned else Discrepancy_Ok, Some ratio))"

definition refresh_row :: "'f::linorder float_ops \<Rightarrow> 'f tracker_config \<Rightarrow> (string, int \<times> int) fmap \<Rightarrow> int \<Rightarrow> 'f pattern_row \<Rightarrow> 'f patterns
    \<Rightarrow> 'f patterns" where
  "refresh_row fo c scans now row t =
     (let (idx_scan, bytes) = coalesce (fmlookup scans (pr_id row)) (0, 0);
          t = update_supply (pr_id row) idx_scan bytes now t
      in if tc_discrepancy_enabled c
         then let (state, ratio) = evaluate_discrepancy fo (max (pr_demand_count row - pr_demand_at_create row) 0)
                (idx_scan div SCANS_PER_REQUEST) (tc_discrepancy_delta c) (tc_generation_threshold c)
              in set_discrepancy (pr_id row) (as_stored state) ratio t
         else t)"

definition run_pass :: "'f::linorder float_ops \<Rightarrow> (u8 list \<Rightarrow> string) \<Rightarrow> 'f tracker_config \<Rightarrow> eviction_oracle \<Rightarrow> int
    \<Rightarrow> 'f tracker \<Rightarrow> 'f tracker" where
  "run_pass fo digest c oc now st =
     (case (if tc_regression_guard c \<noteq> Guard_Off then run_regression_guard fo digest c oc now st else Some st) of
        None \<Rightarrow> st
      | Some st \<Rightarrow>
          if eo_track_counts oc \<noteq> Some True then st
          else case eo_supply oc of
            None \<Rightarrow> st
          | Some rows \<Rightarrow>
              let created = list_created (tk_patterns st);
                  st = st \<lparr>tk_patterns := fold (refresh_row fo c (supply_by_pattern rows) now) (take (eo_refreshed oc) created) (tk_patterns st)\<rparr>
              in if eo_refreshed oc < length created then st
                 else case tc_max_auto_indexes c of
                   None \<Rightarrow> st
                 | Some _ \<Rightarrow>
                     if \<not> eo_count oc then st
                     else let current = int (count_table_indexes CAP_TABLE (tk_indexes st))
                          in if current \<le> tc_fill_target c then st
                             else if \<not> eo_candidates oc then st
                             else trim_pairs digest c oc now (eviction_candidates fo c now (tk_patterns st)) current st)"

end
