(* ===== verification/Tracker_Runs.thy ===== *)
theory Tracker_Runs
  imports Index_Tracker "HOL-Library.Sublist"
begin

text \<open>
  The runs of the query tracker: the ingest handler, the creation loop, the eviction loop and the score roll interleave
  over one store and one catalog, each turn under whatever its statements answer. The invariant of every run, what a trim
  may evict, and the pair a failed drop leaves in half.
\<close>

section \<open>Events\<close>

datatype tracker_event =
    Observations "nat option" "track_observation list" int
  | Creation creation_oracle int
  | Pass eviction_oracle int
  | Rolled
  | Explained string string

fun tracker_step :: "'f::linorder float_ops \<Rightarrow> sketch \<Rightarrow> (u8 list \<Rightarrow> string) \<Rightarrow> 'f tracker_config \<Rightarrow> tracker_event
    \<Rightarrow> 'f tracker \<Rightarrow> 'f tracker" where
  "tracker_step fo sk digest c (Observations failing batch now) st =
     st \<lparr>tk_patterns := snd (apply_batch sk digest failing batch now (0, 0) (tk_patterns st))\<rparr>"
| "tracker_step fo sk digest c (Creation oc now) st = creation_turn fo digest c oc now st"
| "tracker_step fo sk digest c (Pass oc now) st = run_pass fo digest c oc now st"
| "tracker_step fo sk digest c Rolled st = st \<lparr>tk_patterns := roll_scores (tk_patterns st)\<rparr>"
| "tracker_step fo sk digest c (Explained key state) st = st \<lparr>tk_patterns := set_explain_state key state (tk_patterns st)\<rparr>"

text \<open>A tracker starts with no pattern over the indexes that the tables already have: those the snapshot creates, which the
  count of the cap includes.\<close>

definition start_tracker :: "(string \<times> string) fset \<Rightarrow> 'f tracker" where
  "start_tracker static = \<lparr>tk_patterns = fmempty, tk_indexes = static\<rparr>"

section \<open>The rows of the store\<close>

text \<open>A row is filed under the id of its own identity; its demand and cost split exactly into the part served with the
  index and the part served without; the readings its status promises are there.\<close>

definition pattern_ok :: "(u8 list \<Rightarrow> string) \<Rightarrow> string \<Rightarrow> 'f pattern_row \<Rightarrow> bool" where
  "pattern_ok digest key r \<longleftrightarrow> pr_id r = key
     \<and> (\<exists>identity. row_identity r = Some identity \<and> pattern_id digest identity = key)
     \<and> pr_cost_with_index_us r + pr_cost_without_index_us r = pr_total_cost_us r
     \<and> pr_cost_with_index_count r + pr_cost_without_index_count r = pr_demand_count r
     \<and> pr_demand_at_create r \<le> pr_demand_count r
     \<and> (pr_status r = Created \<longrightarrow> pr_created_at r \<noteq> None)
     \<and> (pr_status r = Rejected \<longrightarrow> pr_evicted_at r \<noteq> None \<and> pr_rejected_with_index_avg_us r \<noteq> None
          \<and> (\<exists>n. pr_without_index_at_reject_count r = Some n \<and> n \<le> pr_cost_without_index_count r))"

definition store_ok :: "(u8 list \<Rightarrow> string) \<Rightarrow> 'f patterns \<Rightarrow> bool" where
  "store_ok digest t \<longleftrightarrow> (\<forall>key r. fmlookup t key = Some r \<longrightarrow> pattern_ok digest key r)"

named_theorems tracker_inv

lemma lookup_update_row: "fmlookup (update_row key f t) k = (if k = key then map_option f (fmlookup t key) else fmlookup t k)"
  by (auto simp: update_row_def split: option.split)

lemma fmdom'_update_row [simp]: "fmdom' (update_row key f t) = fmdom' t"
  by (auto simp: update_row_def fmdom'_alt_def fmdomI split: option.split)

lemma update_row_ok:
  "store_ok digest t \<Longrightarrow> (\<And>r. pattern_ok digest key r \<Longrightarrow> pattern_ok digest key (f r)) \<Longrightarrow> store_ok digest (update_row key f t)"
  by (auto simp: store_ok_def lookup_update_row)

lemma fmmap_ok:
  "store_ok digest t \<Longrightarrow> (\<And>key r. pattern_ok digest key r \<Longrightarrow> pattern_ok digest key (f r)) \<Longrightarrow> store_ok digest (fmmap f t)"
  by (auto simp: store_ok_def)

lemma store_ok_empty [tracker_inv]: "store_ok digest fmempty"
  by (simp add: store_ok_def)

lemma mark_created_ok [tracker_inv]: "store_ok digest t \<Longrightarrow> store_ok digest (mark_created key now t)"
  unfolding mark_created_def by (rule update_row_ok) (auto simp: pattern_ok_def row_identity_def)

lemma mark_create_failed_ok [tracker_inv]: "store_ok digest t \<Longrightarrow> store_ok digest (mark_create_failed key err t)"
  unfolding mark_create_failed_def by (rule update_row_ok) (auto simp: pattern_ok_def row_identity_def)

lemma mark_evicted_ok [tracker_inv]: "store_ok digest t \<Longrightarrow> store_ok digest (mark_evicted key now t)"
  unfolding mark_evicted_def by (rule update_row_ok) (auto simp: pattern_ok_def row_identity_def)

lemma mark_rejected_ok [tracker_inv]: "store_ok digest t \<Longrightarrow> store_ok digest (mark_rejected fo key now t)"
  unfolding mark_rejected_def by (rule update_row_ok) (auto simp: pattern_ok_def row_identity_def)

lemma update_supply_ok [tracker_inv]: "store_ok digest t \<Longrightarrow> store_ok digest (update_supply key scans bytes now t)"
  unfolding update_supply_def by (rule update_row_ok) (auto simp: pattern_ok_def row_identity_def)

lemma set_discrepancy_ok [tracker_inv]: "store_ok digest t \<Longrightarrow> store_ok digest (set_discrepancy key state ratio t)"
  unfolding set_discrepancy_def by (rule update_row_ok) (auto simp: pattern_ok_def row_identity_def)

lemma set_explain_state_ok [tracker_inv]: "store_ok digest t \<Longrightarrow> store_ok digest (set_explain_state key state t)"
  unfolding set_explain_state_def by (rule update_row_ok) (auto simp: pattern_ok_def row_identity_def)

lemma roll_scores_ok [tracker_inv]: "store_ok digest t \<Longrightarrow> store_ok digest (roll_scores t)"
  unfolding roll_scores_def by (rule fmmap_ok) (auto simp: pattern_ok_def row_identity_def roll_row_def)

lemma promote_ok [tracker_inv]: "store_ok digest t \<Longrightarrow> store_ok digest (promote_recovered_rejections fo c now t)"
  unfolding promote_recovered_rejections_def by (rule fmmap_ok) (auto simp: pattern_ok_def row_identity_def)

lemma add_demand_ok: "pattern_ok digest key r \<Longrightarrow> 0 \<le> count \<Longrightarrow> pattern_ok digest key (add_demand count cost failed example now r)"
  by (auto simp: pattern_ok_def row_identity_def add_demand_def Let_def)

lemma identity_from_own_parts [simp]:
  "identity_from_parts (id_program identity) (if_offsets_lengths (id_filter identity)) (if_datasize (id_filter identity)) = identity"
  by (simp add: identity_from_parts_def)

lemma new_row_ok: "0 \<le> count \<Longrightarrow> pattern_ok digest (pattern_id digest identity) (new_row (pattern_id digest identity) identity count cost failed example now)"
  by (simp add: pattern_ok_def row_identity_def new_row_def)

lemma record_demand_ok [tracker_inv]:
  assumes "store_ok digest t"
  shows "store_ok digest (record_demand sk digest identity count cost failed fps example now t)"
proof -
  let ?key = "pattern_id digest identity"
  let ?t1 = "fmupd ?key (case fmlookup t ?key of
                 None \<Rightarrow> new_row ?key identity (uint count) (sint cost) (uint failed) example now
               | Some r \<Rightarrow> add_demand (uint count) (sint cost) (uint failed) example now r) t"
  have t1: "store_ok digest ?t1"
    using assms by (auto simp: store_ok_def new_row_ok add_demand_ok split: option.split)
  have "store_ok digest (update_row ?key (\<lambda>r. let (hll, estimate) = sk (pr_variety_hll r) fps
      in r \<lparr>pr_variety_hll := Some hll, pr_variety_estimate := estimate\<rparr>) ?t1)"
    by (rule update_row_ok [OF t1]) (auto simp: pattern_ok_def row_identity_def split: prod.split)
  with t1 show ?thesis by (simp add: record_demand_def Let_def)
qed

lemma apply_batch_ok [tracker_inv]: "store_ok digest t \<Longrightarrow> store_ok digest (snd (apply_batch sk digest failing batch now n t))"
  by (induction sk digest failing batch now n t rule: apply_batch.induct)
    (auto simp: Let_def record_demand_ok split: sum.splits option.splits)


section \<open>The catalog\<close>

text \<open>Every index but those at the start belongs to a row of the store and carries its id, and the capped table never holds
  more than the cap, or than it held at the start.\<close>

definition catalog_ok :: "(string \<times> string) fset \<Rightarrow> 'f tracker \<Rightarrow> bool" where
  "catalog_ok static st \<longleftrightarrow> (\<forall>(table, name) \<in> fset (tk_indexes st). (table, name) \<notin> fset static \<longrightarrow> table \<in> set INDEX_TABLES
     \<and> (\<exists>key \<in> fmdom' (tk_patterns st). name = ''idx_'' @ table @ ''_'' @ key))"

definition under_cap :: "(string \<times> string) fset \<Rightarrow> 'f tracker_config \<Rightarrow> 'f tracker \<Rightarrow> bool" where
  "under_cap static c st \<longleftrightarrow> (case tc_max_auto_indexes c of None \<Rightarrow> True
     | Some cap \<Rightarrow> count_table_indexes CAP_TABLE (tk_indexes st) \<le> max cap (count_table_indexes CAP_TABLE static))"

definition tracker_ok :: "(string \<times> string) fset \<Rightarrow> (u8 list \<Rightarrow> string) \<Rightarrow> 'f tracker_config \<Rightarrow> 'f tracker \<Rightarrow> bool" where
  "tracker_ok static digest c st \<longleftrightarrow> store_ok digest (tk_patterns st) \<and> catalog_ok static st \<and> under_cap static c st"

text \<open>What the removing operations share: the store keeps its keys and its rows stay good, the catalog tracker_shrinks.\<close>

definition tracker_shrinks :: "(u8 list \<Rightarrow> string) \<Rightarrow> 'f tracker \<Rightarrow> 'f tracker \<Rightarrow> bool" where
  "tracker_shrinks digest st st' \<longleftrightarrow> (store_ok digest (tk_patterns st) \<longrightarrow> store_ok digest (tk_patterns st'))
     \<and> fmdom' (tk_patterns st') = fmdom' (tk_patterns st) \<and> tk_indexes st' |\<subseteq>| tk_indexes st"

lemma tracker_shrinks_refl [intro!, simp]: "tracker_shrinks digest st st"
  by (simp add: tracker_shrinks_def)

lemma tracker_shrinks_trans: "tracker_shrinks digest a b \<Longrightarrow> tracker_shrinks digest b d \<Longrightarrow> tracker_shrinks digest a d"
  by (auto simp: tracker_shrinks_def)

lemma count_table_indexes_mono: "a |\<subseteq>| b \<Longrightarrow> count_table_indexes table a \<le> count_table_indexes table b"
  unfolding count_table_indexes_def by (intro fcard_mono) auto

lemma shrinks_tracker_ok: "tracker_shrinks digest st st' \<Longrightarrow> tracker_ok static digest c st \<Longrightarrow> tracker_ok static digest c st'"
  using count_table_indexes_mono [of "tk_indexes st'" "tk_indexes st" CAP_TABLE]
  by (auto simp: tracker_shrinks_def tracker_ok_def catalog_ok_def under_cap_def split: option.splits dest!: fsubsetD)

lemma drop_one_subset: "snd (drop_one outcome retries table name indexes) |\<subseteq>| indexes"
  by (auto simp: drop_one_def)

lemma drop_pair_subset: "snd (drop_pair outcome retries digest identity tables indexes) |\<subseteq>| indexes"
proof (induction tables arbitrary: indexes)
  case (Cons table tables)
  obtain ok indexes' where d: "drop_one outcome retries table (pg_index_name digest identity table) indexes = (ok, indexes')"
    by (cases "drop_one outcome retries table (pg_index_name digest identity table) indexes")
  have "indexes' |\<subseteq>| indexes" using drop_one_subset [of outcome retries table "pg_index_name digest identity table" indexes] d by simp
  then show ?case using Cons [of indexes'] d by (cases ok) auto
qed simp

lemma shrinks_drop:
  assumes "drop_pair outcome retries digest identity tables (tk_indexes st) = (ok, indexes)"
    and "store_ok digest (tk_patterns st) \<Longrightarrow> store_ok digest t" and "fmdom' t = fmdom' (tk_patterns st)"
  shows "tracker_shrinks digest st (st\<lparr>tk_indexes := indexes, tk_patterns := t\<rparr>)"
  using assms drop_pair_subset [of outcome retries digest identity tables "tk_indexes st"] by (auto simp: tracker_shrinks_def)

lemma shrinks_drop_only:
  "drop_pair outcome retries digest identity tables (tk_indexes st) = (ok, indexes) \<Longrightarrow> tracker_shrinks digest st (st\<lparr>tk_indexes := indexes\<rparr>)"
  using drop_pair_subset [of outcome retries digest identity tables "tk_indexes st"] by (auto simp: tracker_shrinks_def)

lemma fmdom'_mark [simp]:
  "fmdom' (mark_evicted key now t) = fmdom' t" "fmdom' (mark_rejected fo key now t) = fmdom' t"
  "fmdom' (mark_created key now t) = fmdom' t" "fmdom' (mark_create_failed key err t) = fmdom' t"
  "fmdom' (update_supply key scans bytes now t) = fmdom' t" "fmdom' (set_discrepancy key state ratio t) = fmdom' t"
  "fmdom' (set_explain_state key explain t) = fmdom' t" "fmdom' (roll_scores t) = fmdom' t"
  by (simp_all add: mark_evicted_def mark_rejected_def mark_created_def mark_create_failed_def update_supply_def
      set_discrepancy_def set_explain_state_def roll_scores_def)

lemma fmdom'_promote [simp]: "fmdom' (promote_recovered_rejections fo c now t) = fmdom' t"
  by (simp add: promote_recovered_rejections_def)

lemma trim_shrinks: "tracker_shrinks digest st (trim_pairs digest c oc now rows count st)"
proof (induction rows arbitrary: count st)
  case (Cons row rows)
  show ?case
  proof (cases "count \<le> tc_fill_target c \<or> \<not> wait_out_backpressure c (eo_pressure oc (pr_id row)) \<or> row_identity row = None")
    case True
    with Cons show ?thesis by auto
  next
    case False
    then obtain identity where id: "row_identity row = Some identity" by auto
    obtain ok indexes where d: "drop_pair (eo_drop oc) (tc_drop_retries c) digest identity INDEX_TABLES (tk_indexes st) = (ok, indexes)"
      by (cases "drop_pair (eo_drop oc) (tc_drop_retries c) digest identity INDEX_TABLES (tk_indexes st)")
    have "tracker_shrinks digest st (st\<lparr>tk_indexes := indexes\<rparr>)" "tracker_shrinks digest st (st\<lparr>tk_indexes := indexes, tk_patterns := mark_evicted (pr_id row) now (tk_patterns st)\<rparr>)"
      by (auto intro!: shrinks_drop [OF d] shrinks_drop_only [OF d] simp: tracker_inv)
    with False id d show ?thesis
      by (cases ok) (auto intro: tracker_shrinks_trans [OF _ Cons.IH])
  qed
qed simp

lemma drop_regressed_shrinks: "tracker_shrinks digest st (drop_regressed fo digest c oc now rows st)"
proof (induction rows arbitrary: st)
  case (Cons row rows)
  show ?case
  proof (cases "\<not> wait_out_backpressure c (eo_pressure oc (pr_id row)) \<or> row_identity row = None")
    case True
    with Cons show ?thesis by auto
  next
    case False
    then obtain identity where id: "row_identity row = Some identity" by auto
    obtain ok indexes where d: "drop_pair (eo_drop oc) (tc_drop_retries c) digest identity INDEX_TABLES (tk_indexes st) = (ok, indexes)"
      by (cases "drop_pair (eo_drop oc) (tc_drop_retries c) digest identity INDEX_TABLES (tk_indexes st)")
    have "tracker_shrinks digest st (st\<lparr>tk_indexes := indexes\<rparr>)" "tracker_shrinks digest st (st\<lparr>tk_indexes := indexes, tk_patterns := mark_rejected fo (pr_id row) now (tk_patterns st)\<rparr>)"
      by (auto intro!: shrinks_drop [OF d] shrinks_drop_only [OF d] simp: tracker_inv)
    with False id d show ?thesis
      by (cases ok) (auto intro: tracker_shrinks_trans [OF _ Cons.IH])
  qed
qed simp

lemma refresh_row_ok [tracker_inv]: "store_ok digest t \<Longrightarrow> store_ok digest (refresh_row fo c scans now row t)"
  by (auto simp: refresh_row_def Let_def tracker_inv split: prod.split)

lemma fmdom'_refresh_row [simp]: "fmdom' (refresh_row fo c scans now row t) = fmdom' t"
  by (auto simp: refresh_row_def Let_def split: prod.split)

lemma fold_refresh_ok [tracker_inv]: "store_ok digest t \<Longrightarrow> store_ok digest (fold (refresh_row fo c scans now) rows t)"
  by (induction rows arbitrary: t) (auto simp: tracker_inv)

lemma fmdom'_fold_refresh [simp]: "fmdom' (fold (refresh_row fo c scans now) rows t) = fmdom' t"
  by (induction rows arbitrary: t) auto

lemma refresh_shrinks: "tracker_shrinks digest st (st\<lparr>tk_patterns := fold (refresh_row fo c scans now) rows (tk_patterns st)\<rparr>)"
  by (simp add: tracker_shrinks_def tracker_inv)

lemma run_pass_shrinks: "tracker_shrinks digest st (run_pass fo digest c oc now st)"
proof -
  have guard: "run_regression_guard fo digest c oc now st = Some st1 \<Longrightarrow> tracker_shrinks digest st st1" for st1
    by (auto simp: run_regression_guard_def drop_regressed_shrinks split: if_splits)
  show ?thesis
    by (auto simp: run_pass_def Let_def intro: guard tracker_shrinks_trans [OF guard] refresh_shrinks trim_shrinks
        tracker_shrinks_trans [OF refresh_shrinks trim_shrinks] tracker_shrinks_trans [OF guard refresh_shrinks]
        tracker_shrinks_trans [OF guard tracker_shrinks_trans [OF refresh_shrinks trim_shrinks]] split: option.split)
qed


section \<open>Creation\<close>

lemma create_indexes_subset:
  "snd (create_indexes create digest identity tables indexes) |\<subseteq>|
     indexes |\<union>| fset_of_list (map (\<lambda>table. (table, pg_index_name digest identity table)) tables)"
proof (induction tables arbitrary: indexes)
  case (Cons table tables)
  show ?case
  proof (cases "create table")
    case None
    with Cons [of "finsert (table, pg_index_name digest identity table) indexes"] show ?thesis by auto
  qed auto
qed simp

lemma choose_candidate_Some:
  "choose_candidate c rows = Some (row, identity) \<Longrightarrow> row \<in> set rows \<and> row_identity row = Some identity \<and> program_allowed (id_program identity) c"
proof -
  assume "choose_candidate c rows = Some (row, identity)"
  then obtain rest where "List.map_filter (\<lambda>row. case row_identity row of None \<Rightarrow> None
     | Some identity \<Rightarrow> if program_allowed (id_program identity) c then Some (row, identity) else None) rows = (row, identity) # rest"
    unfolding choose_candidate_def by (auto split: list.splits)
  then have "(row, identity) \<in> set (List.map_filter (\<lambda>row. case row_identity row of None \<Rightarrow> None
     | Some identity \<Rightarrow> if program_allowed (id_program identity) c then Some (row, identity) else None) rows)" by simp
  then show ?thesis by (auto simp: List.map_filter_def split: option.splits if_splits)
qed

lemma set_select_rows: "r \<in> set (select_rows P t) \<longleftrightarrow> P r \<and> (\<exists>key. fmlookup t key = Some r)"
proof -
  have "r \<in> snd ` set (fm_entries t) \<longleftrightarrow> (\<exists>key. fmlookup t key = Some r)"
    by (metis (no_types, lifting) image_iff in_set_fm_entries prod.collapse snd_conv)
  then show ?thesis by (auto simp: select_rows_def)
qed

lemma top_candidates_Candidate:
  "r \<in> set (top_candidates fo c limit t) \<Longrightarrow> pr_status r = Candidate \<and> tc_generation_threshold c \<le> pr_demand_count r \<and> (\<exists>key. fmlookup t key = Some r)"
  unfolding top_candidates_def by (drule in_set_takeD) (auto simp: set_select_rows)

lemma count_cap_finsert:
  "count_table_indexes CAP_TABLE (indexes |\<union>| fset_of_list (map (\<lambda>table. (table, pg_index_name digest identity table)) INDEX_TABLES))
     \<le> Suc (count_table_indexes CAP_TABLE indexes)"
proof -
  have "ffilter (\<lambda>(t, _). t = CAP_TABLE) (indexes |\<union>| fset_of_list (map (\<lambda>table. (table, pg_index_name digest identity table)) INDEX_TABLES))
      = finsert (CAP_TABLE, pg_index_name digest identity CAP_TABLE) (ffilter (\<lambda>(t, _). t = CAP_TABLE) indexes)"
    by (auto simp: INDEX_TABLES_def CAP_TABLE_def)
  then show ?thesis by (simp add: count_table_indexes_def fcard_finsert_if)
qed

lemma create_pair_ok:
  assumes ok: "tracker_ok static digest c st" and row: "fmlookup (tk_patterns st) key = Some row" and id: "row_identity row = Some identity"
    and room: "\<And>cap. tc_max_auto_indexes c = Some cap \<Longrightarrow> count_table_indexes CAP_TABLE (tk_indexes st) < cap"
  shows "tracker_ok static digest c (create_pair oc digest now row identity st)"
proof -
  obtain failure indexes where ci: "create_indexes (co_create oc) digest identity INDEX_TABLES (tk_indexes st) = (failure, indexes)"
    by (cases "create_indexes (co_create oc) digest identity INDEX_TABLES (tk_indexes st)")
  have sub: "indexes |\<subseteq>| tk_indexes st |\<union>| fset_of_list (map (\<lambda>table. (table, pg_index_name digest identity table)) INDEX_TABLES)"
    using create_indexes_subset [of "co_create oc" digest identity INDEX_TABLES "tk_indexes st"] by (simp add: ci)
  have key: "pattern_id digest identity = key" "key \<in> fmdom' (tk_patterns st)"
    using ok row id unfolding tracker_ok_def store_ok_def pattern_ok_def by (fastforce, simp add: fmdom'I)
  have cap: "under_cap static c (st\<lparr>tk_indexes := indexes\<rparr>)"
    using count_table_indexes_mono [OF sub, of CAP_TABLE] count_cap_finsert [of "tk_indexes st" digest identity] room
    by (fastforce simp: under_cap_def split: option.split)
  have cat: "catalog_ok static (st\<lparr>tk_indexes := indexes\<rparr>)"
    unfolding catalog_ok_def
  proof (clarify)
    fix table name
    assume "(table, name) \<in> fset (tk_indexes (st\<lparr>tk_indexes := indexes\<rparr>))" and added: "(table, name) \<notin> fset static"
    with sub have "(table, name) \<in> fset (tk_indexes st) \<or> table \<in> set INDEX_TABLES \<and> name = pg_index_name digest identity table"
      by (auto dest!: fsubsetD simp: fset_of_list_elem)
    then show "table \<in> set INDEX_TABLES \<and> (\<exists>key\<in>fmdom' (tk_patterns (st\<lparr>tk_indexes := indexes\<rparr>)). name = ''idx_'' @ table @ ''_'' @ key)"
      using ok key added by (auto simp: tracker_ok_def catalog_ok_def pg_index_name_def)
  qed
  have "tracker_shrinks digest (st\<lparr>tk_indexes := indexes\<rparr>) (create_pair oc digest now row identity st)"
    by (cases failure) (auto simp: create_pair_def ci Let_def tracker_shrinks_def tracker_inv)
  moreover have "tracker_ok static digest c (st\<lparr>tk_indexes := indexes\<rparr>)"
    using ok cap cat by (simp add: tracker_ok_def)
  ultimately show ?thesis by (rule shrinks_tracker_ok)
qed

definition after_recovery :: "'f::linorder float_ops \<Rightarrow> 'f tracker_config \<Rightarrow> creation_oracle \<Rightarrow> int \<Rightarrow> 'f tracker \<Rightarrow> 'f tracker" where
  "after_recovery fo c oc now st = (if tc_regression_guard c \<noteq> Guard_Off \<and> co_recover oc
     then st\<lparr>tk_patterns := promote_recovered_rejections fo c now (tk_patterns st)\<rparr> else st)"

lemma creation_turn_cases:
  obtains (idle) "creation_turn fo digest c oc now st = after_recovery fo c oc now st"
  | (creates) row identity key where
      "creation_turn fo digest c oc now st = create_pair oc digest now row identity (after_recovery fo c oc now st)"
      "fmlookup (tk_patterns (after_recovery fo c oc now st)) key = Some row" "pr_status row = Candidate"
      "row_identity row = Some identity"
      "\<And>cap. tc_max_auto_indexes c = Some cap \<Longrightarrow> count_table_indexes CAP_TABLE (tk_indexes (after_recovery fo c oc now st)) < cap"
proof (cases "creation_turn fo digest c oc now st = after_recovery fo c oc now st")
  case False
  let ?st = "after_recovery fo c oc now st"
  obtain row identity where
    turn: "creation_turn fo digest c oc now st = create_pair oc digest now row identity ?st"
    and chosen: "choose_candidate c (top_candidates fo c CANDIDATE_FETCH_LIMIT (tk_patterns ?st)) = Some (row, identity)"
    and room: "\<not> (case tc_max_auto_indexes c of None \<Rightarrow> False
        | Some cap \<Rightarrow> cap \<le> (case tc_max_auto_indexes c of None \<Rightarrow> 0 | Some _ \<Rightarrow> count_table_indexes CAP_TABLE (tk_indexes ?st)))"
    using False unfolding creation_turn_def after_recovery_def [symmetric] Let_def
    by (fastforce split: if_split_asm option.split_asm prod.split_asm)
  obtain key where "fmlookup (tk_patterns ?st) key = Some row" "row_identity row = Some identity" "pr_status row = Candidate"
    using choose_candidate_Some [OF chosen] top_candidates_Candidate by blast
  with turn room show ?thesis by (intro creates) (simp_all add: not_le)
qed (rule idle)

lemma after_recovery_ok: "tracker_ok static digest c st \<Longrightarrow> tracker_ok static digest c (after_recovery fo c oc now st)"
  by (rule shrinks_tracker_ok [rotated]) (auto simp: after_recovery_def tracker_shrinks_def tracker_inv)

lemma creation_turn_ok:
  "tracker_ok static digest c st \<Longrightarrow> tracker_ok static digest c (creation_turn fo digest c oc now st)"
  by (rule creation_turn_cases [of fo digest c oc now st]) (auto intro: create_pair_ok dest: after_recovery_ok)

lemma record_demand_dom: "fmdom' t \<subseteq> fmdom' (record_demand sk digest identity count cost failed fps example now t)"
  by (auto simp: record_demand_def Let_def)

lemma apply_batch_dom: "fmdom' t \<subseteq> fmdom' (snd (apply_batch sk digest failing batch now n t))"
proof (induction batch arbitrary: failing n t)
  case (Cons obs rest)
  obtain accepted skipped where n: "n = (accepted, skipped)" by (cases n)
  show ?case
  proof (cases "to_program obs")
    case (Inl err)
    then show ?thesis using Cons.IH n by (simp add: Let_def)
  next
    case (Inr program)
    show ?thesis
    proof (cases "parse_identity program (to_config obs)")
      case None
      then show ?thesis using Inr Cons.IH n by (simp add: Let_def)
    next
      case (Some identity)
      then show ?thesis using Inr n by (simp add: Let_def order_trans [OF record_demand_dom Cons.IH])
    qed
  qed
next
  case Nil
  show ?case by (cases n) simp
qed

lemma catalog_ok_more_rows:
  assumes "catalog_ok static st" and "fmdom' (tk_patterns st) \<subseteq> fmdom' t"
  shows "catalog_ok static (st\<lparr>tk_patterns := t\<rparr>)"
  unfolding catalog_ok_def
proof (clarify)
  fix table name
  assume "(table, name) \<in> fset (tk_indexes (st\<lparr>tk_patterns := t\<rparr>))" and added: "(table, name) \<notin> fset static"
  then have "(table, name) \<in> fset (tk_indexes st)" by simp
  from bspec [OF assms(1) [unfolded catalog_ok_def] this] added
  have table: "table \<in> set INDEX_TABLES" and "\<exists>key\<in>fmdom' (tk_patterns st). name = ''idx_'' @ table @ ''_'' @ key"
    by (simp_all only: prod.case simp_thms)
  then obtain key where "key \<in> fmdom' (tk_patterns st)" "name = ''idx_'' @ table @ ''_'' @ key" by (elim bexE)
  then have "\<exists>key\<in>fmdom' (tk_patterns (st\<lparr>tk_patterns := t\<rparr>)). name = ''idx_'' @ table @ ''_'' @ key"
    using assms(2) by (intro bexI [of _ key]) auto
  with table show "table \<in> set INDEX_TABLES \<and> (\<exists>key\<in>fmdom' (tk_patterns (st\<lparr>tk_patterns := t\<rparr>)). name = ''idx_'' @ table @ ''_'' @ key)"
    by (rule conjI)
qed

lemma observations_ok:
  assumes "tracker_ok static digest c st"
  shows "tracker_ok static digest c (tracker_step fo sk digest c (Observations failing batch now) st)"
  using assms apply_batch_dom [of "tk_patterns st" sk digest failing batch now "(0, 0)"]
  by (auto simp: tracker_ok_def under_cap_def tracker_inv intro: catalog_ok_more_rows split: option.splits)

lemma tracker_step_ok: "tracker_ok static digest c st \<Longrightarrow> tracker_ok static digest c (tracker_step fo sk digest c e st)"
proof (cases e)
  case (Observations failing batch now)
  assume "tracker_ok static digest c st"
  then show ?thesis unfolding Observations by (rule observations_ok)
next
  case Rolled
  assume "tracker_ok static digest c st"
  then show ?thesis by (rule shrinks_tracker_ok [rotated]) (simp add: Rolled tracker_shrinks_def tracker_inv)
next
  case (Explained key state)
  assume "tracker_ok static digest c st"
  then show ?thesis by (rule shrinks_tracker_ok [rotated]) (simp add: Explained tracker_shrinks_def tracker_inv)
qed (simp_all add: creation_turn_ok shrinks_tracker_ok [OF run_pass_shrinks])

lemma start_tracker_ok: "tracker_ok static digest c (start_tracker static)"
  by (auto simp: start_tracker_def tracker_ok_def catalog_ok_def under_cap_def store_ok_empty split: option.split)

interpretation tracker_run: state_machine "start_tracker static" "tracker_step fo sk digest c" "tracker_ok static digest c"
  for static fo sk digest c
  by unfold_locales (rule start_tracker_ok, rule tracker_step_ok)

section \<open>Runs\<close>

text \<open>C33: In every run of the tracker, whatever its statements answer and however its loops interleave, each row is filed
  under the id of its identity, its total cost and its demand are exactly the part served with the index plus the part
  served without it, the demand at creation is at most the demand, a created row has its creation time, and a rejected row
  has the readings that decide when it may be built again.\<close>

theorem tracker_rows_consistent:
  "store_ok digest (tk_patterns (fold (tracker_step fo sk digest c) events (start_tracker static)))"
  using tracker_run.invar_run [of static digest c fo sk events] by (simp add: tracker_ok_def)

text \<open>C21: The number of indexes on the capped table, those of the snapshot included, never exceeds \<open>max-auto-indexes\<close>
  unless it did at the start, and then it never grows; in any run, also when statements fail half way, pairs are dropped
  in half and eviction races the creation loop. Every index the run added is named after a row of the store.\<close>

theorem auto_indexes_capped:
  assumes "tc_max_auto_indexes c = Some cap"
  shows "count_table_indexes CAP_TABLE (tk_indexes (fold (tracker_step fo sk digest c) events (start_tracker static)))
      \<le> max cap (count_table_indexes CAP_TABLE static)
    \<and> catalog_ok static (fold (tracker_step fo sk digest c) events (start_tracker static))"
  using tracker_run.invar_run [of static digest c fo sk events] assms by (simp_all add: tracker_ok_def under_cap_def)

section \<open>Ingest\<close>

definition demand_of :: "'f patterns \<Rightarrow> string \<Rightarrow> int" where
  "demand_of t key = (case fmlookup t key of None \<Rightarrow> 0 | Some r \<Rightarrow> pr_demand_count r)"

text \<open>The row an observation counts for.\<close>

definition routed :: "(u8 list \<Rightarrow> string) \<Rightarrow> track_observation \<Rightarrow> string option" where
  "routed digest obs = (case to_program obs of Inl _ \<Rightarrow> None
     | Inr program \<Rightarrow> map_option (pattern_id digest) (parse_identity program (to_config obs)))"

lemma demand_of_record_demand:
  "demand_of (record_demand sk digest identity count cost failed fps example now t) key =
     demand_of t key + (if key = pattern_id digest identity then uint count else 0)"
  by (auto simp: demand_of_def record_demand_def Let_def lookup_update_row add_demand_def new_row_def split: option.split prod.split)

definition count_observation :: "sketch \<Rightarrow> (u8 list \<Rightarrow> string) \<Rightarrow> int \<Rightarrow> track_observation \<Rightarrow> 'f patterns \<Rightarrow> 'f patterns" where
  "count_observation sk digest now obs t = (case to_program obs of Inl _ \<Rightarrow> t
     | Inr program \<Rightarrow> (case parse_identity program (to_config obs) of None \<Rightarrow> t
        | Some identity \<Rightarrow> record_demand sk digest identity (to_count obs) (to_total_cost_us obs) (to_failed_count obs)
             (to_value_fingerprints obs) (to_config obs) now t))"

lemma apply_batch_routed:
  "apply_batch sk digest None (obs # rest) now (accepted, skipped) t =
     apply_batch sk digest None rest now
       (if routed digest obs = None then (accepted, skipped + 1) else (accepted + 1, skipped))
       (count_observation sk digest now obs t)"
  by (auto simp: routed_def count_observation_def split: sum.split option.split)

lemma demand_of_count_observation:
  "demand_of (count_observation sk digest now obs t) key =
     demand_of t key + (if routed digest obs = Some key then uint (to_count obs) else 0)"
  by (auto simp: routed_def count_observation_def demand_of_record_demand split: sum.split option.split)

lemma committed_batch:
  assumes "apply_batch sk digest None batch now (accepted, skipped) t = (result, t')"
  shows "result = Some (accepted + length (filter (\<lambda>obs. routed digest obs \<noteq> None) batch),
           skipped + length (filter (\<lambda>obs. routed digest obs = None) batch))"
    and "demand_of t' key = demand_of t key + sum_list (map (\<lambda>obs. uint (to_count obs)) (filter (\<lambda>obs. routed digest obs = Some key) batch))"
  using assms
proof (induction batch arbitrary: accepted skipped t)
  case Nil
  { case 1 then show ?case by simp }
  { case 2 then show ?case by simp }
next
  case (Cons obs batch)
  { case 1
    then show ?case
      using Cons.IH(1) [where t = "count_observation sk digest now obs t"]
      by (cases "routed digest obs") (fastforce simp: apply_batch_routed simp del: apply_batch.simps)+ }
  { case 2
    then show ?case
      using Cons.IH(2) [where t = "count_observation sk digest now obs t"]
      by (cases "routed digest obs") (fastforce simp: apply_batch_routed demand_of_count_observation simp del: apply_batch.simps)+ }
qed

lemmas committed_demand = committed_batch(2)

text \<open>A batch that commits counts every observation once: accepted and skipped add up to the batch, an observation is
  skipped exactly when its program is no key or no index can serve its request, and the demand of every row grows by the
  counts of exactly the observations of its shape.\<close>

theorem batch_counts_demand:
  assumes "apply_batch sk digest None batch now (accepted, skipped) t = (result, t')"
  shows "result = Some (accepted + length (filter (\<lambda>obs. routed digest obs \<noteq> None) batch),
           skipped + length (filter (\<lambda>obs. routed digest obs = None) batch))"
    and "demand_of t' key = demand_of t key + sum_list (map (\<lambda>obs. uint (to_count obs)) (filter (\<lambda>obs. routed digest obs = Some key) batch))"
  using committed_batch [OF assms] by blast+

lemma apply_batch_cut:
  assumes "routed digest obs \<noteq> None"
  shows "apply_batch sk digest (Some (length a)) (a @ obs # b) now n t = (None, snd (apply_batch sk digest None a now n t))"
proof (induction a arbitrary: n t)
  case Nil
  obtain accepted skipped where "n = (accepted, skipped)" by (cases n)
  with assms show ?case by (auto simp: routed_def split: sum.splits option.splits)
next
  case (Cons x a)
  obtain accepted skipped where "n = (accepted, skipped)" by (cases n)
  then show ?case by (simp add: Cons.IH split: sum.split option.split)
qed

text \<open>Every observation of a batch commits on its own, and a client keeps a batch that was not answered with success: when
  a statement fails in the middle of a batch, the retry of the batch counts the observations before it a second time.\<close>

theorem retry_counts_twice:
  assumes "routed digest obs \<noteq> None"
    and "apply_batch sk digest (Some (length a)) (a @ obs # b) now n t = (failed, t1)"
    and "apply_batch sk digest None (a @ obs # b) now (0, 0) t1 = (result, t2)"
  shows "failed = None"
    and "demand_of t2 key = demand_of t key
      + 2 * sum_list (map (\<lambda>obs. uint (to_count obs)) (filter (\<lambda>obs. routed digest obs = Some key) a))
      + sum_list (map (\<lambda>obs. uint (to_count obs)) (filter (\<lambda>obs. routed digest obs = Some key) (obs # b)))"
proof -
  show "failed = None" using apply_batch_cut [OF assms(1), of sk a b now n t] assms(2) by simp
  obtain accepted skipped where n: "n = (accepted, skipped)" by (cases n)
  have "t1 = snd (apply_batch sk digest None a now (accepted, skipped) t)"
    using apply_batch_cut [OF assms(1), of sk a b now n t] assms(2) n by simp
  then have t1: "demand_of t1 key = demand_of t key + sum_list (map (\<lambda>obs. uint (to_count obs)) (filter (\<lambda>obs. routed digest obs = Some key) a))"
    using committed_demand [of sk digest a now accepted skipped t _ t1 key] by (metis prod.collapse)
  have "demand_of t2 key = demand_of t1 key
      + sum_list (map (\<lambda>obs. uint (to_count obs)) (filter (\<lambda>obs. routed digest obs = Some key) (a @ obs # b)))"
    using assms(3) by (rule committed_demand)
  with t1 show "demand_of t2 key = demand_of t key
      + 2 * sum_list (map (\<lambda>obs. uint (to_count obs)) (filter (\<lambda>obs. routed digest obs = Some key) a))
      + sum_list (map (\<lambda>obs. uint (to_count obs)) (filter (\<lambda>obs. routed digest obs = Some key) (obs # b)))"
    by simp
qed

section \<open>Eviction\<close>

text \<open>The names of a pair: one index per table.\<close>

definition pair_names :: "string \<Rightarrow> (string \<times> string) fset" where
  "pair_names key = fset_of_list (map (\<lambda>table. (table, ''idx_'' @ table @ ''_'' @ key)) INDEX_TABLES)"

text \<open>The digest is lower-case hexadecimal text.\<close>

definition hex_text :: "string \<Rightarrow> bool" where
  "hex_text s \<longleftrightarrow> list_all (\<lambda>ch. ch \<in> set ''0123456789abcdef'') s"

definition safe_char :: "char \<Rightarrow> bool" where
  "safe_char ch \<longleftrightarrow> CHR ''a'' \<le> ch \<and> ch \<le> CHR ''z'' \<or> CHR ''0'' \<le> ch \<and> ch \<le> CHR ''9'' \<or> ch = CHR ''_''"

lemma is_safe_char: "is_safe_index_identifier name \<longleftrightarrow> name \<noteq> [] \<and> list_all safe_char name"
  by (simp add: is_safe_index_identifier_def safe_char_def [abs_def])

lemma hex_safe: "ch \<in> set ''0123456789abcdef'' \<Longrightarrow> safe_char ch"
  by (simp only: list.set insert_iff empty_iff) (elim disjE; simp add: safe_char_def less_eq_char_def)

lemma prefix_safe: "list_all safe_char ''idx_'' \<and> list_all safe_char ''accounts'' \<and> list_all safe_char ''snapshot_accounts'' \<and> safe_char (CHR ''_'')"
  by (simp add: safe_char_def less_eq_char_def)

lemma safe_name:
  assumes "\<And>bs. hex_text (digest bs)" and "table \<in> set INDEX_TABLES"
  shows "is_safe_index_identifier (pg_index_name digest identity table)"
proof -
  have "list_all safe_char (pattern_id digest identity)"
    using assms(1) [of "id_bytes identity"] hex_safe unfolding pattern_id_def hex_text_def list_all_iff by (metis in_set_takeD)
  moreover have "list_all safe_char table" using assms(2) prefix_safe by (auto simp only: INDEX_TABLES_def list.set insert_iff empty_iff)
  ultimately have "list_all safe_char (pg_index_name digest identity table)"
    unfolding pg_index_name_def list_all_append using prefix_safe by (simp only: list.pred_inject)
  then show ?thesis by (simp add: is_safe_char pg_index_name_def)
qed

lemma drop_attempts_dropped: "outcome attempt = Dropped \<Longrightarrow> drop_attempts outcome attempt retries"
  by (cases retries) auto

lemma drop_pair_all:
  assumes "\<And>table. table \<in> set tables \<Longrightarrow> is_safe_index_identifier (pg_index_name digest identity table)"
    and "\<And>name attempt. outcome name attempt = Dropped"
  shows "drop_pair outcome retries digest identity tables indexes
     = (True, indexes |-| fset_of_list (map (\<lambda>table. (table, pg_index_name digest identity table)) tables))"
  using assms
proof (induction tables arbitrary: indexes)
  case (Cons table tables)
  have "indexes |-| {|(table, pg_index_name digest identity table)|} |-| fset_of_list (map (\<lambda>table. (table, pg_index_name digest identity table)) tables)
      = indexes |-| fset_of_list (map (\<lambda>table. (table, pg_index_name digest identity table)) (table # tables))"
    by (auto simp: fset_of_list_elem)
  with Cons show ?case by (simp add: drop_one_def drop_attempts_dropped del: fset_of_list_map)
qed simp

lemma names_of_pair: "pattern_id digest identity = key \<Longrightarrow>
  fset_of_list (map (\<lambda>table. (table, pg_index_name digest identity table)) INDEX_TABLES) = pair_names key"
  by (simp add: pair_names_def pg_index_name_def INDEX_TABLES_def)

lemma drop_pair_loses: "indexes |\<subseteq>| snd (drop_pair outcome retries digest identity tables indexes) |\<union>|
    fset_of_list (map (\<lambda>table. (table, pg_index_name digest identity table)) tables)"
proof (induction tables arbitrary: indexes)
  case (Cons table tables)
  obtain ok indexes' where d: "drop_one outcome retries table (pg_index_name digest identity table) indexes = (ok, indexes')"
    by (cases "drop_one outcome retries table (pg_index_name digest identity table) indexes")
  then have "indexes |\<subseteq>| finsert (table, pg_index_name digest identity table) indexes'" by (auto simp: drop_one_def split: if_splits)
  with Cons [of indexes'] d show ?case by (cases ok) auto
qed simp

definition row_filed :: "(u8 list \<Rightarrow> string) \<Rightarrow> 'f pattern_row \<Rightarrow> bool" where
  "row_filed digest r \<longleftrightarrow> (\<exists>identity. row_identity r = Some identity \<and> pattern_id digest identity = pr_id r)"

lemma trim_all:
  assumes "\<And>bs. hex_text (digest bs)" and "\<And>name attempt. eo_drop oc name attempt = Dropped" and "\<And>key. eo_mark oc key"
    and "\<And>key. wait_out_backpressure c (eo_pressure oc key)" and "\<And>r. r \<in> set rows \<Longrightarrow> row_filed digest r"
  shows "trim_pairs digest c oc now rows count st =
    st\<lparr>tk_indexes := fold (\<lambda>r indexes. indexes |-| pair_names (pr_id r)) (take (nat (count - tc_fill_target c)) rows) (tk_indexes st),
       tk_patterns := fold (\<lambda>r. mark_evicted (pr_id r) now) (take (nat (count - tc_fill_target c)) rows) (tk_patterns st)\<rparr>"
  using assms(5)
proof (induction rows arbitrary: count st)
  case (Cons row rows)
  show ?case
  proof (cases "count \<le> tc_fill_target c")
    case False
    then have n: "nat (count - tc_fill_target c) = Suc (nat (count - 1 - tc_fill_target c))" by simp
    obtain identity where id: "row_identity row = Some identity" "pattern_id digest identity = pr_id row"
      using Cons.prems [of row] by (auto simp: row_filed_def)
    from False id Cons show ?thesis
      by (simp add: n assms(2-4) drop_pair_all [OF safe_name [OF assms(1)] assms(2)] names_of_pair del: fset_of_list_map)
  qed simp
qed simp

lemma trim_prefix_of_candidates:
  "\<exists>evicted. subseq evicted rows \<and> length evicted \<le> nat (count - tc_fill_target c)
     \<and> tk_patterns (trim_pairs digest c oc now rows count st) = fold (\<lambda>r. mark_evicted (pr_id r) now) evicted (tk_patterns st)"
proof (induction rows arbitrary: count st)
  case (Cons row rows)
  show ?case
  proof (cases "count \<le> tc_fill_target c \<or> \<not> wait_out_backpressure c (eo_pressure oc (pr_id row))")
    case True
    then show ?thesis by (intro exI [of _ "[]"]) auto
  next
    case False
    show ?thesis
    proof (cases "row_identity row")
      case None
      with False Cons [of count st] show ?thesis by (auto intro: subseq_Cons')
    next
      case (Some identity)
      obtain ok indexes where d: "drop_pair (eo_drop oc) (tc_drop_retries c) digest identity INDEX_TABLES (tk_indexes st) = (ok, indexes)"
        by (cases "drop_pair (eo_drop oc) (tc_drop_retries c) digest identity INDEX_TABLES (tk_indexes st)")
      let ?st = "\<lambda>t. st\<lparr>tk_indexes := indexes, tk_patterns := t\<rparr>"
      have n: "nat (count - tc_fill_target c) = Suc (nat (count - 1 - tc_fill_target c))" using False by linarith
      show ?thesis
      proof (cases "ok \<and> eo_mark oc (pr_id row)")
        case True
        from Cons [of "count - 1" "?st (mark_evicted (pr_id row) now (tk_patterns st))"] obtain evicted where
          "subseq evicted rows" "length evicted \<le> nat (count - 1 - tc_fill_target c)"
          "tk_patterns (trim_pairs digest c oc now rows (count - 1) (?st (mark_evicted (pr_id row) now (tk_patterns st))))
            = fold (\<lambda>r. mark_evicted (pr_id r) now) evicted (mark_evicted (pr_id row) now (tk_patterns st))" by auto
        with True False Some d n show ?thesis by (intro exI [of _ "row # evicted"]) auto
      next
        case nomark: False
        show ?thesis
        proof (cases ok)
          case True
          from Cons [of "count - 1" "st\<lparr>tk_indexes := indexes\<rparr>"] obtain evicted where
            "subseq evicted rows" "length evicted \<le> nat (count - 1 - tc_fill_target c)"
            "tk_patterns (trim_pairs digest c oc now rows (count - 1) (st\<lparr>tk_indexes := indexes\<rparr>))
              = fold (\<lambda>r. mark_evicted (pr_id r) now) evicted (tk_patterns st)" by auto
          with True nomark False Some d n show ?thesis by (intro exI [of _ evicted]) (auto intro: subseq_Cons')
        next
          case fail: False
          with Cons [of count "st\<lparr>tk_indexes := indexes\<rparr>"] False Some d show ?thesis by (auto intro: subseq_Cons')
        qed
      qed
    qed
  qed
next
  case Nil
  show ?case by (intro exI [of _ "[]"]) simp
qed


lemma eviction_candidates_gate:
  "r \<in> set (eviction_candidates fo c now t) \<Longrightarrow> eviction_gate c now r \<and> (\<exists>key. fmlookup t key = Some r)"
  by (simp add: eviction_candidates_def set_select_rows)

lemma row_filed_candidate:
  "store_ok digest t \<Longrightarrow> r \<in> set (eviction_candidates fo c now t) \<Longrightarrow> row_filed digest r \<and> fmlookup t (pr_id r) = Some r"
  by (drule eviction_candidates_gate) (auto simp: store_ok_def pattern_ok_def row_filed_def)

lemma sort_key_take_le:
  "a \<in> set (take n (sort_key f xs)) \<Longrightarrow> b \<in> set (drop n (sort_key f xs)) \<Longrightarrow> f a \<le> f b"
proof -
  have "sorted (map f (take n (sort_key f xs) @ drop n (sort_key f xs)))" by simp
  then show "a \<in> set (take n (sort_key f xs)) \<Longrightarrow> b \<in> set (drop n (sort_key f xs)) \<Longrightarrow> f a \<le> f b"
    unfolding map_append sorted_append by auto
qed

text \<open>C31: Whatever the statements of a trim answer, the rows it changes are rows the gate of the eviction statement let
  through - created, past the age grace, without demand for longer than the idle time, and unused too when the supply
  counts - each marked evicted at the time of the pass and nothing else; and they are at most as many as the indexes above
  the fill target.\<close>

theorem trim_evicts_only_eligible:
  assumes "store_ok digest (tk_patterns st)"
  shows "\<exists>evicted. set evicted \<subseteq> {r. eviction_gate c now r \<and> fmlookup (tk_patterns st) (pr_id r) = Some r}
     \<and> length evicted \<le> nat (count - tc_fill_target c)
     \<and> tk_patterns (trim_pairs digest c oc now (eviction_candidates fo c now (tk_patterns st)) count st)
         = fold (\<lambda>r. mark_evicted (pr_id r) now) evicted (tk_patterns st)"
proof -
  let ?rows = "eviction_candidates fo c now (tk_patterns st)"
  obtain evicted where e: "subseq evicted ?rows" "length evicted \<le> nat (count - tc_fill_target c)"
    "tk_patterns (trim_pairs digest c oc now ?rows count st) = fold (\<lambda>r. mark_evicted (pr_id r) now) evicted (tk_patterns st)"
    using trim_prefix_of_candidates [of ?rows count c digest oc now st] by auto
  have "set evicted \<subseteq> set ?rows" using e(1) by (auto dest: list_emb_set)
  then have "set evicted \<subseteq> {r. eviction_gate c now r \<and> fmlookup (tk_patterns st) (pr_id r) = Some r}"
    using eviction_candidates_gate row_filed_candidate [OF assms] by blast
  with e(2,3) show ?thesis by blast
qed

text \<open>C25: With an idle indexer and drops that succeed a trim evicts exactly the least valuable eligible rows, one for each
  index above the fill target: both indexes of each are dropped, every other index and row is left alone, and no row it
  keeps scores below one it evicts.\<close>

theorem trim_evicts_least_valuable:
  assumes "\<And>bs. hex_text (digest bs)" and "store_ok digest (tk_patterns st)"
    and "eo_drop oc = (\<lambda>_ _. Dropped)" and "eo_mark oc = (\<lambda>_. True)" and "\<And>key. wait_out_backpressure c (eo_pressure oc key)"
    and "eviction_candidates fo c now (tk_patterns st) = rows" and "nat (count - tc_fill_target c) = n"
  shows "trim_pairs digest c oc now rows count st =
      st\<lparr>tk_indexes := fold (\<lambda>r indexes. indexes |-| pair_names (pr_id r)) (take n rows) (tk_indexes st),
         tk_patterns := fold (\<lambda>r. mark_evicted (pr_id r) now) (take n rows) (tk_patterns st)\<rparr>
    \<and> (\<forall>r \<in> set (take n rows). \<forall>r' \<in> set (drop n rows).
         score fo (tc_priority_mode c) (tc_compensation c) r \<le> score fo (tc_priority_mode c) (tc_compensation c) r')"
proof -
  have "trim_pairs digest c oc now rows count st =
      st\<lparr>tk_indexes := fold (\<lambda>r indexes. indexes |-| pair_names (pr_id r)) (take n rows) (tk_indexes st),
         tk_patterns := fold (\<lambda>r. mark_evicted (pr_id r) now) (take n rows) (tk_patterns st)\<rparr>"
    unfolding assms(7) [symmetric]
    using row_filed_candidate [OF assms(2)] assms(6) by (intro trim_all) (auto simp: assms(1,3-5))
  moreover have "score fo (tc_priority_mode c) (tc_compensation c) r \<le> score fo (tc_priority_mode c) (tc_compensation c) r'"
    if "r \<in> set (take n rows)" "r' \<in> set (drop n rows)" for r r'
    using that assms(6) unfolding eviction_candidates_def by (metis sort_key_take_le)
  ultimately show ?thesis by blast
qed

section \<open>Half a pair\<close>

definition half_dropped :: "(u8 list \<Rightarrow> string) \<Rightarrow> string \<Rightarrow> 'f tracker \<Rightarrow> bool" where
  "half_dropped digest key st \<longleftrightarrow> store_ok digest (tk_patterns st)
     \<and> (\<exists>r. fmlookup (tk_patterns st) key = Some r \<and> pr_status r = Created)
     \<and> (''accounts'', ''idx_accounts_'' @ key) |\<notin>| tk_indexes st
     \<and> (''snapshot_accounts'', ''idx_snapshot_accounts_'' @ key) |\<in>| tk_indexes st"

lemma drop_attempts_failing: "(\<And>attempt. outcome attempt \<noteq> Dropped) \<Longrightarrow> \<not> drop_attempts outcome attempt retries"
  by (induction outcome attempt retries rule: drop_attempts.induct) (auto split: drop_outcome.split)

lemma created_kept:
  "fmlookup t key = Some r \<Longrightarrow> pr_status r = Created \<Longrightarrow>
     \<exists>r'. fmlookup (snd (apply_batch sk digest failing batch now n t)) key = Some r' \<and> pr_status r' = Created"
proof (induction batch arbitrary: failing n t r)
  case (Cons obs rest)
  obtain accepted skipped where n: "n = (accepted, skipped)" by (cases n)
  have step: "\<exists>r'. fmlookup (record_demand sk digest identity count cost failed fps example now t) key = Some r' \<and> pr_status r' = Created"
    for identity count cost failed fps example
    using Cons.prems by (auto simp: record_demand_def Let_def lookup_update_row add_demand_def split: prod.split option.split)
  show ?case
  proof (cases "to_program obs")
    case (Inl err)
    then show ?thesis using Cons n by (simp add: Let_def)
  next
    case (Inr program)
    show ?thesis
    proof (cases "parse_identity program (to_config obs)")
      case None
      then show ?thesis using Inr Cons n by (simp add: Let_def)
    next
      case (Some identity)
      obtain r' where "fmlookup (record_demand sk digest identity (to_count obs) (to_total_cost_us obs) (to_failed_count obs)
          (to_value_fingerprints obs) (to_config obs) now t) key = Some r'" "pr_status r' = Created"
        using step by blast
      from Cons.IH [OF this] show ?thesis using Inr Some n Cons.prems by (simp add: Let_def)
    qed
  qed
next
  case Nil
  then show ?case by (cases n) simp
qed


lemma after_recovery_half: "half_dropped digest key st \<Longrightarrow> half_dropped digest key (after_recovery fo c oc now st)"
  by (auto simp: half_dropped_def after_recovery_def tracker_inv) (auto simp: promote_recovered_rejections_def recovered_def)

lemma create_pair_half:
  assumes half: "half_dropped digest key st" and row: "fmlookup (tk_patterns st) k = Some row" "pr_status row = Candidate"
    and id: "row_identity row = Some identity"
  shows "half_dropped digest key (create_pair oc digest now row identity st)"
proof -
  obtain failure indexes where ci: "create_indexes (co_create oc) digest identity INDEX_TABLES (tk_indexes st) = (failure, indexes)"
    by (cases "create_indexes (co_create oc) digest identity INDEX_TABLES (tk_indexes st)")
  have k: "pattern_id digest identity = k" "pr_id row = k"
    using half row(1) id unfolding half_dropped_def store_ok_def pattern_ok_def by (metis option.inject)+
  have ne: "k \<noteq> key" using half row by (auto simp: half_dropped_def)
  have "tk_indexes st |\<subseteq>| indexes"
  proof -
    have "indexes |\<subseteq>| snd (create_indexes create digest identity tables indexes)" for create tables indexes
      by (induction tables arbitrary: indexes) (auto split: option.split)
    then show ?thesis by (metis ci snd_conv)
  qed
  then have snapshot: "(''snapshot_accounts'', ''idx_snapshot_accounts_'' @ key) |\<in>| indexes" using half by (auto simp: half_dropped_def)
  have accounts: "(''accounts'', ''idx_accounts_'' @ key) |\<notin>| indexes"
  proof -
    have "indexes |\<subseteq>| tk_indexes st |\<union>| pair_names k"
      using create_indexes_subset [of "co_create oc" digest identity INDEX_TABLES "tk_indexes st"] names_of_pair [OF k(1)]
      by (simp only: ci snd_conv)
    then show ?thesis using half ne by (auto simp: half_dropped_def pair_names_def INDEX_TABLES_def dest!: fsubsetD)
  qed
  show ?thesis
  proof -
    obtain r where r: "fmlookup (tk_patterns st) key = Some r" "pr_status r = Created" using half by (auto simp: half_dropped_def)
    have "store_ok digest (tk_patterns (create_pair oc digest now row identity st))"
      using half by (cases failure) (auto simp: create_pair_def ci Let_def half_dropped_def tracker_inv)
    moreover have "fmlookup (tk_patterns (create_pair oc digest now row identity st)) key = Some r"
      using r(1) ne k by (cases failure) (auto simp: create_pair_def ci Let_def mark_created_def mark_create_failed_def lookup_update_row)
    moreover have "tk_indexes (create_pair oc digest now row identity st) = indexes"
      by (cases failure) (auto simp: create_pair_def ci Let_def)
    ultimately show ?thesis using snapshot accounts r(2) by (simp add: half_dropped_def)
  qed
qed

lemma step_half: "half_dropped digest key st \<Longrightarrow> (\<And>oc now. e \<noteq> Pass oc now) \<Longrightarrow> half_dropped digest key (tracker_step fo sk digest c e st)"
proof (cases e)
  case (Creation oc now)
  assume "half_dropped digest key st"
  then have half: "half_dropped digest key (after_recovery fo c oc now st)" by (rule after_recovery_half)
  show ?thesis
    unfolding Creation tracker_step.simps
    by (rule creation_turn_cases [of fo digest c oc now st]) (use half in \<open>auto intro: create_pair_half\<close>)
next
  case (Observations failing batch now)
  assume half: "half_dropped digest key st"
  then obtain r where "fmlookup (tk_patterns st) key = Some r" "pr_status r = Created" by (auto simp: half_dropped_def)
  from created_kept [OF this, of sk digest failing batch now "(0, 0)"] half Observations show ?thesis
    by (simp add: half_dropped_def tracker_inv)
qed (auto simp: half_dropped_def tracker_inv, auto simp: roll_scores_def roll_row_def set_explain_state_def lookup_update_row)

lemma run_half: "half_dropped digest key st \<Longrightarrow> (\<And>oc now. Pass oc now \<notin> set events) \<Longrightarrow>
  half_dropped digest key (fold (tracker_step fo sk digest c) events st)"
proof (induction events arbitrary: st)
  case (Cons e events)
  have "e \<noteq> Pass oc now" for oc now using Cons.prems(2) [of oc now] by auto
  with Cons show ?case by (simp add: step_half)
qed simp

text \<open>C39: A trim whose drop of the index on \<open>accounts\<close> goes through while the drop on \<open>snapshot_accounts\<close> keeps timing out
  leaves half a pair: the row stays created, and until an eviction pass drops the other half no demand, recovery or
  turn of the creation loop brings the missing index back.\<close>

theorem half_pair_not_rebuilt:
  assumes "store_ok digest (tk_patterns st)" and "\<And>bs. hex_text (digest bs)"
    and "fmlookup (tk_patterns st) key = Some row" and "pr_status row = Created"
    and "pair_names key |\<subseteq>| tk_indexes st"
    and "tc_fill_target c < count" and "wait_out_backpressure c (eo_pressure oc key)"
    and "\<And>attempt. eo_drop oc (''idx_accounts_'' @ key) attempt = Dropped"
    and "\<And>attempt. eo_drop oc (''idx_snapshot_accounts_'' @ key) attempt = Lock_Timeout"
    and "\<And>oc now. Pass oc now \<notin> set events"
  shows "half_dropped digest key (fold (tracker_step fo sk digest c) events (trim_pairs digest c oc now [row] count st))"
proof (rule run_half)
  obtain identity where id: "row_identity row = Some identity" "pattern_id digest identity = key" "pr_id row = key"
    using assms(1,3) by (auto simp: store_ok_def pattern_ok_def)
  have names: "pg_index_name digest identity ''accounts'' = ''idx_accounts_'' @ key"
    "pg_index_name digest identity ''snapshot_accounts'' = ''idx_snapshot_accounts_'' @ key" by (simp_all add: pg_index_name_def id)
  have "drop_pair (eo_drop oc) (tc_drop_retries c) digest identity INDEX_TABLES (tk_indexes st)
      = (False, tk_indexes st |-| {|(''accounts'', ''idx_accounts_'' @ key)|})"
    using safe_name [of digest "''accounts''" identity, OF assms(2)] assms(8,9)
    by (simp add: INDEX_TABLES_def drop_one_def names drop_attempts_dropped drop_attempts_failing)
  then have "trim_pairs digest c oc now [row] count st = st\<lparr>tk_indexes := tk_indexes st |-| {|(''accounts'', ''idx_accounts_'' @ key)|}\<rparr>"
    using assms(6,7) id by simp
  then show "half_dropped digest key (trim_pairs digest c oc now [row] count st)"
    using assms(1,3-5) by (auto simp: half_dropped_def pair_names_def INDEX_TABLES_def)
qed (rule assms(10))


section \<open>Witnesses\<close>

text \<open>A configuration, a created row with both its indexes, and oracles, over the integers.\<close>

definition int_ops :: "int float_ops" where
  "int_ops = \<lparr>f8_of_int = (\<lambda>n. n), f8_add = (+), f8_sub = (-), f8_mul = (*), f8_div = (div), f8_ln = (\<lambda>x. x)\<rparr>"

definition sample_config :: "int tracker_config" where
  "sample_config = \<lparr>tc_priority_mode = Frequency, tc_compensation = 1, tc_generation_threshold = 1, tc_cost_eligibility = None,
     tc_included_programs = [], tc_excluded_programs = [], tc_max_auto_indexes = Some 1, tc_fill_target = 0,
     tc_eviction_enabled = True, tc_creation_bias = 1, tc_min_idle = 10, tc_min_age = 10, tc_use_supply = False,
     tc_drop_retries = 1, tc_regression_guard = Guard_Off, tc_regression_ratio = 1, tc_retry_delay = 10,
     tc_discrepancy_enabled = False, tc_discrepancy_delta = 1, tc_queue_threshold = 10, tc_cleanup_lag_threshold = 10\<rparr>"

definition sample_digest :: "u8 list \<Rightarrow> string" where "sample_digest bs = replicate 64 (CHR ''a'')"

definition sample_sketch :: sketch where "sample_sketch old fps = ([], 0)"

definition sample_identity :: index_identity where
  "sample_identity = \<lparr>id_program = pk 9, id_filter = \<lparr>if_offsets_lengths = [], if_datasize = Some 80\<rparr>\<rparr>"

definition sample_key :: string where "sample_key = pattern_id sample_digest sample_identity"

definition sample_row :: "int pattern_row" where
  "sample_row = (new_row sample_key sample_identity 3 30 0 None 0)\<lparr>pr_status := Created, pr_created_at := Some 0\<rparr>"

definition sample_tracker :: "int tracker" where
  "sample_tracker = \<lparr>tk_patterns = fmupd sample_key sample_row fmempty, tk_indexes = pair_names sample_key\<rparr>"

definition idle_indexer :: "indexer_pressure option list" where
  "idle_indexer = [Some \<lparr>ip_finalize_queue = Some 0, ip_cleanup_lag = None\<rparr>]"

definition sample_pass :: eviction_oracle where
  "sample_pass = \<lparr>eo_regression = True, eo_track_counts = Some True, eo_supply = Some [], eo_refreshed = 1, eo_count = True,
     eo_candidates = True, eo_pressure = (\<lambda>_. idle_indexer), eo_drop = (\<lambda>_ _. Dropped), eo_mark = (\<lambda>_. True)\<rparr>"

definition sample_creation :: creation_oracle where
  "sample_creation = \<lparr>co_recover = True, co_pressure = Some \<lparr>ip_finalize_queue = Some 0, ip_cleanup_lag = None\<rparr>,
     co_count = True, co_fetch = True, co_boundary = True, co_create = (\<lambda>_. None), co_mark_failed = True, co_mark_created = True\<rparr>"

definition sample_observation :: "string + pubkey \<Rightarrow> track_observation" where
  "sample_observation program = \<lparr>to_program = program,
     to_config = Some \<lparr>pc_filters = Some [DataSize 80], pc_account_config = default_account_config, pc_with_context = None, pc_sort_results = None\<rparr>,
     to_count = 3, to_total_cost_us = 30, to_failed_count = 0, to_value_fingerprints = {||}\<rparr>"


lemma sample_hex: "hex_text (sample_digest bs)"
  by (simp add: hex_text_def sample_digest_def list_all_iff)

lemma sample_parse: "parse_identity (pk 9) (to_config (sample_observation program)) = Some sample_identity"
  using pk_ne_token [of 9] by (simp add: parse_identity_def sample_observation_def sample_identity_def is_token_program_def)

lemma sample_store_ok: "store_ok sample_digest (tk_patterns sample_tracker)"
  by (auto simp: sample_tracker_def store_ok_def pattern_ok_def row_identity_def sample_row_def new_row_def sample_key_def)

lemma sample_lookup: "fmlookup (tk_patterns sample_tracker) sample_key = Some sample_row"
  "fmlookup (tk_patterns sample_tracker) (pr_id sample_row) = Some sample_row" "pr_status sample_row = Created"
  by (simp_all add: sample_tracker_def sample_row_def new_row_def)

lemma sample_idle: "wait_out_backpressure sample_config idle_indexer"
  by (simp add: wait_out_backpressure_def idle_indexer_def is_under_pressure_def sample_config_def)

lemma auto_indexes_capped_witness:
  "count_table_indexes CAP_TABLE (tk_indexes (fold (tracker_step int_ops sample_sketch sample_digest sample_config)
     [Observations None [sample_observation (Inr (pk 9))] 0, Creation sample_creation 5, Pass sample_pass 100]
     (start_tracker {|(CAP_TABLE, ''idx_snapshot_accounts_pubkey'')|}))) \<le> 1"
proof -
  have "ffilter (\<lambda>(t, _). t = CAP_TABLE) {|(CAP_TABLE, ''idx_snapshot_accounts_pubkey'')|} = {|(CAP_TABLE, ''idx_snapshot_accounts_pubkey'')|}"
    by auto
  then have "count_table_indexes CAP_TABLE {|(CAP_TABLE, ''idx_snapshot_accounts_pubkey'')|} = 1"
    by (simp add: count_table_indexes_def fcard_finsert_if fcard_fempty)
  then show ?thesis
    using auto_indexes_capped [of sample_config 1 int_ops sample_sketch sample_digest
        "[Observations None [sample_observation (Inr (pk 9))] 0, Creation sample_creation 5, Pass sample_pass 100]"
        "{|(CAP_TABLE, ''idx_snapshot_accounts_pubkey'')|}"]
    by (simp add: sample_config_def)
qed

lemma batch_counts_demand_witness:
  "\<exists>t'. apply_batch sample_sketch sample_digest None [sample_observation (Inl ''?''), sample_observation (Inr (pk 9))] 0 (0, 0)
      (fmempty :: int patterns) = (Some (1, 1), t') \<and> demand_of t' sample_key = 3"
proof -
  obtain result t' where run: "apply_batch sample_sketch sample_digest None [sample_observation (Inl ''?''), sample_observation (Inr (pk 9))]
      0 (0, 0) (fmempty :: int patterns) = (result, t')" by fastforce
  have "routed sample_digest (sample_observation (Inl ''?'')) = None" by (simp add: routed_def sample_observation_def)
  moreover have "routed sample_digest (sample_observation (Inr (pk 9))) = Some sample_key"
    using sample_parse by (simp add: routed_def sample_key_def sample_observation_def)
  moreover have "to_count (sample_observation p) = 3" for p by (simp add: sample_observation_def)
  ultimately show ?thesis
    using batch_counts_demand(1) [OF run] batch_counts_demand(2) [OF run, of sample_key] run by (simp add: demand_of_def)
qed

lemma sample_routed: "routed sample_digest (sample_observation (Inr (pk 9))) = Some sample_key"
  using sample_parse by (simp add: routed_def sample_key_def sample_observation_def)

lemma retry_counts_twice_witness:
  "\<exists>t1 result t2. apply_batch sample_sketch sample_digest (Some 1) [sample_observation (Inr (pk 9)), sample_observation (Inr (pk 9))] 0 (0, 0)
      (fmempty :: int patterns) = (None, t1)
    \<and> apply_batch sample_sketch sample_digest None [sample_observation (Inr (pk 9)), sample_observation (Inr (pk 9))] 0 (0, 0) t1 = (result, t2)
    \<and> demand_of t2 sample_key = 9"
proof -
  let ?obs = "sample_observation (Inr (pk 9))"
  obtain failed t1 where first: "apply_batch sample_sketch sample_digest (Some (length [?obs])) ([?obs] @ ?obs # []) 0 (0, 0)
      (fmempty :: int patterns) = (failed, t1)" by fastforce
  obtain result t2 where second: "apply_batch sample_sketch sample_digest None ([?obs] @ ?obs # []) 0 (0, 0) t1 = (result, t2)" by fastforce
  have count: "to_count ?obs = 3" by (simp add: sample_observation_def)
  have routed: "routed sample_digest ?obs \<noteq> None" by (simp add: sample_routed)
  have "failed = None" by (rule retry_counts_twice(1) [OF routed first second])
  moreover have "demand_of t2 sample_key = 9"
    using retry_counts_twice(2) [OF routed first second, of sample_key] by (simp add: sample_routed count demand_of_def)
  ultimately show ?thesis using first second by auto
qed

lemma trim_evicts_only_eligible_witness:
  "\<exists>evicted. set evicted \<subseteq> {r. eviction_gate sample_config 100 r \<and> fmlookup (tk_patterns sample_tracker) (pr_id r) = Some r}
     \<and> length evicted \<le> 1
     \<and> tk_patterns (trim_pairs sample_digest sample_config sample_pass 100 (eviction_candidates int_ops sample_config 100 (tk_patterns sample_tracker)) 1 sample_tracker)
         = fold (\<lambda>r. mark_evicted (pr_id r) 100) evicted (tk_patterns sample_tracker)"
  using trim_evicts_only_eligible [OF sample_store_ok, where c = sample_config and now = 100 and count = 1
      and oc = sample_pass and fo = int_ops]
  by (simp add: sample_config_def)

lemma sample_candidates: "eviction_candidates int_ops sample_config 100 (tk_patterns sample_tracker) = [sample_row]"
proof -
  have "map snd (fm_entries (tk_patterns sample_tracker)) = [sample_row]"
    by (simp add: sample_tracker_def fm_entries_map fm_keys_def sorted_list_of_fset_def)
  moreover have "eviction_gate sample_config 100 sample_row"
    by (simp add: eviction_gate_def sample_config_def sample_row_def new_row_def coalesce_def)
  ultimately show ?thesis by (simp add: eviction_candidates_def select_rows_def)
qed

lemma trim_evicts_least_valuable_witness:
  "trim_pairs sample_digest sample_config sample_pass 100 (eviction_candidates int_ops sample_config 100 (tk_patterns sample_tracker)) 1 sample_tracker
     = sample_tracker\<lparr>tk_indexes := {||}, tk_patterns := mark_evicted sample_key 100 (tk_patterns sample_tracker)\<rparr>"
proof -
  have "tc_fill_target sample_config = 0" "pr_id sample_row = sample_key"
    by (simp_all add: sample_config_def sample_row_def new_row_def)
  then show ?thesis
    using trim_evicts_least_valuable [OF sample_hex sample_store_ok _ _ _ sample_candidates, of sample_pass 1 1] sample_idle
      sample_candidates
    by (simp add: sample_pass_def) (simp add: sample_tracker_def)
qed

lemma half_pair_not_rebuilt_witness:
  "half_dropped sample_digest sample_key
     (fold (tracker_step int_ops sample_sketch sample_digest sample_config)
       [Observations None [sample_observation (Inr (pk 9))] 101, Rolled, Creation sample_creation 102]
       (trim_pairs sample_digest sample_config
         (sample_pass\<lparr>eo_drop := (\<lambda>name _. if name = ''idx_accounts_'' @ sample_key then Dropped else Lock_Timeout)\<rparr>)
         100 [sample_row] 1 sample_tracker))"
proof (rule half_pair_not_rebuilt [where key = sample_key and row = sample_row, OF sample_store_ok sample_hex sample_lookup(1) sample_lookup(3)])
  show "pair_names sample_key |\<subseteq>| tk_indexes sample_tracker" by (simp add: sample_tracker_def)
  show "tc_fill_target sample_config < 1" by (simp add: sample_config_def)
  show "wait_out_backpressure sample_config (eo_pressure (sample_pass\<lparr>eo_drop := (\<lambda>name _. if name = ''idx_accounts_'' @ sample_key
      then Dropped else Lock_Timeout)\<rparr>) sample_key)" using sample_idle by (simp add: sample_pass_def)
qed auto

end
