(* ===== verification/Query_Client.thy ===== *)
theory Query_Client
  imports Tracker_Runs
begin

text \<open>
  The client of the query tracker in the API: \<open>crates/api/src/query_tracker_client.rs\<close>, with the observation type of
  \<open>crates/core/src/modules/query_tracker_api.rs\<close> and the handler of \<open>/track\<close>. The buffer is a map by pattern id; a flush
  drains it, posts it in chunks and folds back what was not answered with success, while requests go on being buffered.
  What the network and the tracker make of a chunk is a list of answers, one per chunk.
\<close>

section \<open>Observations\<close>

definition MAX_FINGERPRINTS_PER_IDENTITY :: nat where "MAX_FINGERPRINTS_PER_IDENTITY = 256"

definition new_observation :: "pubkey \<Rightarrow> program_accounts_config option \<Rightarrow> track_observation" where
  "new_observation program config = \<lparr>to_program = Inr program, to_config = config, to_count = 0, to_total_cost_us = 0,
     to_failed_count = 0, to_value_fingerprints = {||}\<rparr>"

text \<open>A set takes fingerprints until it is full; a \<open>HashSet\<close> hands them over in the order of their values.\<close>

definition insert_fingerprint :: "u64 \<Rightarrow> u64 fset \<Rightarrow> u64 fset" where
  "insert_fingerprint fp fps = (if fcard fps < MAX_FINGERPRINTS_PER_IDENTITY then finsert fp fps else fps)"

definition merge_observation :: "track_observation \<Rightarrow> track_observation \<Rightarrow> track_observation" where
  "merge_observation a b = a\<lparr>to_count := saturating_add (to_count a) (to_count b),
     to_total_cost_us := saturating_add (to_total_cost_us a) (to_total_cost_us b),
     to_failed_count := saturating_add (to_failed_count a) (to_failed_count b),
     to_value_fingerprints := fold insert_fingerprint (sorted_list_of_fset (to_value_fingerprints b)) (to_value_fingerprints a)\<rparr>"

section \<open>The buffer\<close>

record query_client =
  qc_buffer :: "(string, track_observation) fmap"
  qc_max_buffered :: nat
  qc_dropped :: u64

definition new_client :: "nat \<Rightarrow> query_client" where
  "new_client max_buffered_identities = \<lparr>qc_buffer = fmempty, qc_max_buffered = max max_buffered_identities 1, qc_dropped = 0\<rparr>"

record query =
  qy_program :: pubkey
  qy_config :: "program_accounts_config option"
  qy_cost_us :: u64
  qy_failed :: bool

definition count_query :: "(u8 list \<Rightarrow> u8 list) \<Rightarrow> query \<Rightarrow> track_observation \<Rightarrow> track_observation" where
  "count_query hash q entry = entry\<lparr>to_count := saturating_add (to_count entry) 1,
     to_total_cost_us := saturating_add (to_total_cost_us entry) (qy_cost_us q),
     to_failed_count := (if qy_failed q then saturating_add (to_failed_count entry) 1 else to_failed_count entry),
     to_value_fingerprints := (case value_fingerprint hash (qy_config q) of None \<Rightarrow> to_value_fingerprints entry
       | Some fp \<Rightarrow> insert_fingerprint fp (to_value_fingerprints entry))\<rparr>"

definition buffer_query :: "(u8 list \<Rightarrow> u8 list) \<Rightarrow> (u8 list \<Rightarrow> string) \<Rightarrow> query \<Rightarrow> query_client \<Rightarrow> query_client" where
  "buffer_query hash digest q cl = (case parse_identity (qy_program q) (qy_config q) of
     None \<Rightarrow> cl
   | Some identity \<Rightarrow>
       let key = pattern_id digest identity in
       (case fmlookup (qc_buffer cl) key of
          None \<Rightarrow> if qc_max_buffered cl \<le> fcard (fmdom (qc_buffer cl)) then cl\<lparr>qc_dropped := qc_dropped cl + 1\<rparr>
                  else cl\<lparr>qc_buffer := fmupd key (count_query hash q (new_observation (qy_program q) (qy_config q))) (qc_buffer cl)\<rparr>
        | Some entry \<Rightarrow> cl\<lparr>qc_buffer := fmupd key (count_query hash q entry) (qc_buffer cl)\<rparr>))"

section \<open>Flushing\<close>

text \<open>The chunks of a drained buffer.\<close>

function chunks_of :: "nat \<Rightarrow> 'a list \<Rightarrow> 'a list list" where
  "chunks_of n entries = (if entries = [] \<or> n = 0 then [] else take n entries # chunks_of n (drop n entries))"
  by auto
termination by (relation "measure (\<lambda>(n, entries). length entries)") auto

definition drain_buffer :: "query_client \<Rightarrow> (string \<times> track_observation) list \<times> query_client" where
  "drain_buffer cl = (fm_entries (qc_buffer cl), cl\<lparr>qc_buffer := fmempty, qc_dropped := 0\<rparr>)"

text \<open>What happens to a chunk: the tracker commits it and the answer arrives or is lost; a statement fails at the given
  observation and the tracker answers an error; or the chunk never arrives.\<close>

datatype post_outcome = Answered | Answer_Lost | Failed_At nat | Unreached

definition track_handle :: "sketch \<Rightarrow> (u8 list \<Rightarrow> string) \<Rightarrow> int \<Rightarrow> post_outcome \<Rightarrow> track_observation list \<Rightarrow> 'f patterns
    \<Rightarrow> bool \<times> 'f patterns" where
  "track_handle sk digest now outcome batch t = (case outcome of
     Unreached \<Rightarrow> (False, t)
   | Answered \<Rightarrow> (case apply_batch sk digest None batch now (0, 0) t of (result, t) \<Rightarrow> (result \<noteq> None, t))
   | Answer_Lost \<Rightarrow> (False, snd (apply_batch sk digest None batch now (0, 0) t))
   | Failed_At n \<Rightarrow> (case apply_batch sk digest (Some n) batch now (0, 0) t of (result, t) \<Rightarrow> (result \<noteq> None, t)))"

text \<open>The sending loop: the chunks that were not answered with success are kept for the buffer.\<close>

fun send_chunks :: "sketch \<Rightarrow> (u8 list \<Rightarrow> string) \<Rightarrow> int \<Rightarrow> (nat \<Rightarrow> post_outcome) \<Rightarrow> nat \<Rightarrow> (string \<times> track_observation) list list
    \<Rightarrow> (string \<times> track_observation) list \<Rightarrow> 'f patterns \<Rightarrow> (string \<times> track_observation) list \<times> 'f patterns" where
  "send_chunks sk digest now outcomes i [] requeue t = (requeue, t)"
| "send_chunks sk digest now outcomes i (chunk # batches) requeue t =
     (case track_handle sk digest now (outcomes i) (map snd chunk) t of
        (sent, t) \<Rightarrow> send_chunks sk digest now outcomes (i + 1) batches (if sent then requeue else requeue @ chunk) t)"

definition requeue_entry :: "string \<times> track_observation \<Rightarrow> (string, track_observation) fmap \<Rightarrow> (string, track_observation) fmap" where
  "requeue_entry = (\<lambda>(key, entry) buf. case fmlookup buf key of
     Some existing \<Rightarrow> fmupd key (merge_observation existing entry) buf
   | None \<Rightarrow> fmupd key entry buf)"

definition requeue_entries :: "(string \<times> track_observation) list \<Rightarrow> query_client \<Rightarrow> query_client" where
  "requeue_entries entries cl = cl\<lparr>qc_buffer := fold requeue_entry entries (qc_buffer cl)\<rparr>"

text \<open>A flush; the queries of \<open>meanwhile\<close> are buffered after the buffer was drained and before anything is folded back.\<close>

definition flush_buffer :: "(u8 list \<Rightarrow> u8 list) \<Rightarrow> sketch \<Rightarrow> (u8 list \<Rightarrow> string) \<Rightarrow> nat \<Rightarrow> int \<Rightarrow> (nat \<Rightarrow> post_outcome) \<Rightarrow> query list
    \<Rightarrow> query_client \<times> 'f patterns \<Rightarrow> query_client \<times> 'f patterns" where
  "flush_buffer hash sk digest max_batch_size now outcomes meanwhile = (\<lambda>(cl, t).
     let (entries, cl) = drain_buffer cl;
         cl = fold (buffer_query hash digest) meanwhile cl;
         (requeue, t) = send_chunks sk digest now outcomes 0 (chunks_of (max max_batch_size 1) entries) [] t
     in (requeue_entries requeue cl, t))"


section \<open>Runs\<close>

datatype client_event = Query query | Flush int "nat \<Rightarrow> post_outcome" "query list"

fun client_step :: "(u8 list \<Rightarrow> u8 list) \<Rightarrow> sketch \<Rightarrow> (u8 list \<Rightarrow> string) \<Rightarrow> nat \<Rightarrow> client_event
    \<Rightarrow> query_client \<times> 'f patterns \<Rightarrow> query_client \<times> 'f patterns" where
  "client_step hash sk digest max_batch_size (Query q) (cl, t) = (buffer_query hash digest q cl, t)"
| "client_step hash sk digest max_batch_size (Flush now outcomes meanwhile) (cl, t) =
     flush_buffer hash sk digest max_batch_size now outcomes meanwhile (cl, t)"

fun event_queries :: "client_event \<Rightarrow> query list" where
  "event_queries (Query q) = [q]"
| "event_queries (Flush now outcomes meanwhile) = meanwhile"

definition query_key :: "(u8 list \<Rightarrow> string) \<Rightarrow> query \<Rightarrow> string option" where
  "query_key digest q = map_option (pattern_id digest) (parse_identity (qy_program q) (qy_config q))"

definition queries_for :: "(u8 list \<Rightarrow> string) \<Rightarrow> string \<Rightarrow> query list \<Rightarrow> int" where
  "queries_for digest key qs = int (length (filter (\<lambda>q. query_key digest q = Some key) qs))"

definition keys_of :: "(u8 list \<Rightarrow> string) \<Rightarrow> query list \<Rightarrow> string set" where
  "keys_of digest qs = set (List.map_filter (query_key digest) qs)"

text \<open>The queries for a key that wait in the buffer, or in a list of entries.\<close>

definition waiting :: "string \<Rightarrow> (string, track_observation) fmap \<Rightarrow> int" where
  "waiting key buf = (case fmlookup buf key of None \<Rightarrow> 0 | Some entry \<Rightarrow> uint (to_count entry))"

definition entries_count :: "string \<Rightarrow> (string \<times> track_observation) list \<Rightarrow> int" where
  "entries_count key entries = sum_list (map (\<lambda>(k, entry). uint (to_count entry)) (filter (\<lambda>(k, entry). k = key) entries))"

definition keyed_ok :: "(u8 list \<Rightarrow> string) \<Rightarrow> (string, track_observation) fmap \<Rightarrow> bool" where
  "keyed_ok digest buf \<longleftrightarrow> (\<forall>key entry. fmlookup buf key = Some entry \<longrightarrow> routed digest entry = Some key)"

lemma entries_count_simps [simp]:
  "entries_count key [] = 0"
  "entries_count key (x # xs) = (if fst x = key then uint (to_count (snd x)) else 0) + entries_count key xs"
  "entries_count key (xs @ ys) = entries_count key xs + entries_count key ys"
  by (auto simp: entries_count_def split: prod.split)

lemma entries_count_nonneg: "0 \<le> entries_count key xs"
  by (induction xs) (auto simp: add_nonneg_nonneg)

lemma queries_for_simps [simp]:
  "queries_for digest key [] = 0"
  "queries_for digest key (q # qs) = (if query_key digest q = Some key then 1 else 0) + queries_for digest key qs"
  "queries_for digest key (qs @ qs') = queries_for digest key qs + queries_for digest key qs'"
  by (auto simp: queries_for_def)

lemma queries_for_le: "queries_for digest key qs \<le> int (length qs)"
  by (simp add: queries_for_def)

lemma uint_saturating_add:
  fixes a b :: u32
  assumes "uint a + uint b < 2 ^ 32"
  shows "uint (saturating_add a b) = uint a + uint b"
proof -
  have "uint (a + b) = uint a + uint b" using assms by (simp add: uint_word_ariths)
  then show ?thesis using assms by (simp add: saturating_add_def word_le_def)
qed

subsection \<open>Buffering\<close>

lemma count_query_fields [simp]:
  "to_program (count_query hash q entry) = to_program entry" "to_config (count_query hash q entry) = to_config entry"
  "to_count (count_query hash q entry) = saturating_add (to_count entry) 1"
  by (cases entry; simp add: count_query_def)+

lemma routed_count_query [simp]: "routed digest (count_query hash q entry) = routed digest entry"
  by (simp add: routed_def split: sum.split)

lemma routed_new_observation [simp]: "routed digest (new_observation program config) = map_option (pattern_id digest) (parse_identity program config)"
  by (simp add: routed_def new_observation_def)

lemma buffer_query_pending:
  assumes "fmdom' (qc_buffer cl) \<subseteq> K" and "keys_of digest [q] \<subseteq> K" and "finite K" and "card K \<le> qc_max_buffered cl"
    and "waiting key (qc_buffer cl) < 2 ^ 32 - 1" and "keyed_ok digest (qc_buffer cl)"
  shows "waiting key (qc_buffer (buffer_query hash digest q cl)) = waiting key (qc_buffer cl) + queries_for digest key [q]
     \<and> fmdom' (qc_buffer (buffer_query hash digest q cl)) \<subseteq> K
     \<and> qc_max_buffered (buffer_query hash digest q cl) = qc_max_buffered cl
     \<and> keyed_ok digest (qc_buffer (buffer_query hash digest q cl))"
proof (cases "parse_identity (qy_program q) (qy_config q)")
  case None
  then show ?thesis using assms by (simp add: buffer_query_def query_key_def)
next
  case (Some identity)
  let ?key = "pattern_id digest identity"
  have key: "query_key digest q = Some ?key" by (simp add: query_key_def Some)
  have K: "?key \<in> K" using assms(2) key by (simp add: keys_of_def List.map_filter_def)
  show ?thesis
  proof (cases "fmlookup (qc_buffer cl) ?key")
    case None
    then have "fmdom' (qc_buffer cl) \<subset> K" using assms(1) K by (auto simp: fmlookup_dom'_iff)
    then have "card (fmdom' (qc_buffer cl)) < card K" using assms(3) by (rule psubset_card_mono [rotated])
    then have room: "\<not> qc_max_buffered cl \<le> fcard (fmdom (qc_buffer cl))"
      using assms(4) by (simp add: fcard.rep_eq fmdom'_alt_def)
    have "buffer_query hash digest q cl = cl\<lparr>qc_buffer := fmupd ?key (count_query hash q (new_observation (qy_program q) (qy_config q))) (qc_buffer cl)\<rparr>"
      using room None by (simp add: buffer_query_def Some)
    then show ?thesis
      using assms(1,6) K None key
      by (auto simp: waiting_def keyed_ok_def Some) (simp add: new_observation_def saturating_add_def)
  next
    case entry: (Some entry)
    have step: "buffer_query hash digest q cl = cl\<lparr>qc_buffer := fmupd ?key (count_query hash q entry) (qc_buffer cl)\<rparr>"
      by (simp add: buffer_query_def Some entry)
    have "?key = key \<Longrightarrow> uint (saturating_add (to_count entry) 1) = uint (to_count entry) + 1"
      using assms(5) entry by (subst uint_saturating_add) (auto simp: waiting_def)
    then show ?thesis
      using assms(1,6) K entry key by (auto simp: step waiting_def keyed_ok_def)
  qed
qed


lemma keys_of_Cons: "keys_of digest (q # qs) = keys_of digest [q] \<union> keys_of digest qs"
  by (simp add: keys_of_def List.map_filter_def)

lemma buffer_queries_pending:
  assumes "fmdom' (qc_buffer cl) \<subseteq> K" and "keys_of digest qs \<subseteq> K" and "finite K" and "card K \<le> qc_max_buffered cl"
    and "\<And>key. waiting key (qc_buffer cl) + int (length qs) < 2 ^ 32" and "keyed_ok digest (qc_buffer cl)"
  shows "waiting key (qc_buffer (fold (buffer_query hash digest) qs cl)) = waiting key (qc_buffer cl) + queries_for digest key qs
     \<and> fmdom' (qc_buffer (fold (buffer_query hash digest) qs cl)) \<subseteq> K
     \<and> qc_max_buffered (fold (buffer_query hash digest) qs cl) = qc_max_buffered cl
     \<and> keyed_ok digest (qc_buffer (fold (buffer_query hash digest) qs cl))"
  using assms
proof (induction qs arbitrary: cl)
  case (Cons q qs)
  let ?cl = "buffer_query hash digest q cl"
  have one: "waiting k (qc_buffer ?cl) = waiting k (qc_buffer cl) + queries_for digest k [q]
     \<and> fmdom' (qc_buffer ?cl) \<subseteq> K \<and> qc_max_buffered ?cl = qc_max_buffered cl \<and> keyed_ok digest (qc_buffer ?cl)" for k
  proof (intro buffer_query_pending)
    show "waiting k (qc_buffer cl) < 2 ^ 32 - 1" using Cons.prems(5) [of k] by simp
  qed (use Cons.prems in \<open>auto simp: keys_of_Cons [of digest q qs]\<close>)
  have "waiting k (qc_buffer ?cl) + int (length qs) < 2 ^ 32" for k
    using Cons.prems(5) [of k] one [of k] queries_for_le [of digest k "[q]"] by auto
  moreover have "keys_of digest qs \<subseteq> K" using Cons.prems(2) by (simp add: keys_of_Cons [of digest q qs])
  ultimately show ?case
    using Cons.IH [of ?cl] one [of key] Cons.prems(3,4) by auto
qed simp

subsection \<open>Sending\<close>

lemma demand_mono: "demand_of t key \<le> demand_of (snd (apply_batch sk digest failing batch now n t)) key"
proof (induction batch arbitrary: failing n t)
  case (Cons obs rest)
  obtain accepted skipped where n: "n = (accepted, skipped)" by (cases n)
  have more_demand: "demand_of t key \<le> demand_of (record_demand sk digest identity (to_count obs) cost failed fps example now t) key"
    for identity cost failed fps example by (simp add: demand_of_record_demand)
  show ?case
  proof (cases "to_program obs")
    case (Inl err)
    then show ?thesis using Cons.IH n by (simp add: Let_def)
  next
    case (Inr program)
    show ?thesis
    proof (cases "parse_identity program (to_config obs)")
      case None
      then show ?thesis using Inr Cons.IH n by (simp add: Let_def)
    next
      case (Some identity)
      then show ?thesis using Inr n by (auto simp: Let_def intro: order_trans [OF more_demand Cons.IH])
    qed
  qed
next
  case Nil
  show ?case by (cases n) simp
qed

lemma apply_batch_success:
  "apply_batch sk digest failing batch now n t = (Some r, t') \<Longrightarrow> apply_batch sk digest None batch now n t = (Some r, t')"
proof (induction batch arbitrary: failing n t)
  case (Cons obs rest)
  obtain accepted skipped where n: "n = (accepted, skipped)" by (cases n)
  show ?case
  proof (cases "to_program obs")
    case (Inl err)
    then show ?thesis using Cons n by (auto simp: Let_def)
  next
    case (Inr program)
    show ?thesis
    proof (cases "parse_identity program (to_config obs)")
      case None
      then show ?thesis using Inr Cons n by (auto simp: Let_def)
    next
      case (Some identity)
      then show ?thesis using Inr n Cons by (auto simp: Let_def split: if_split_asm)
    qed
  qed
next
  case Nil
  then show ?case by (cases n; cases r) simp
qed

lemma routed_batch_count:
  "(\<And>k e. (k, e) \<in> set entries \<Longrightarrow> routed digest e = Some k) \<Longrightarrow>
   sum_list (map (\<lambda>obs. uint (to_count obs)) (filter (\<lambda>obs. routed digest obs = Some key) (map snd entries))) = entries_count key entries"
proof (induction entries)
  case (Cons x entries)
  obtain k e where x: "x = (k, e)" by (cases x)
  have "routed digest e = Some k" using Cons.prems [of k e] x by simp
  moreover have "sum_list (map (\<lambda>obs. uint (to_count obs)) (filter (\<lambda>obs. routed digest obs = Some key) (map snd entries)))
      = entries_count key entries"
    by (rule Cons.IH) (rule Cons.prems, simp)
  ultimately show ?case by (simp add: x)
qed simp

definition loses_nothing_twice :: "post_outcome \<Rightarrow> bool" where
  "loses_nothing_twice outcome \<longleftrightarrow> outcome = Answered \<or> outcome = Unreached"

lemma track_handle_counts:
  assumes "track_handle sk digest now outcome (map snd entries) t = (sent, t')"
    and "\<And>k e. (k, e) \<in> set entries \<Longrightarrow> routed digest e = Some k"
  shows "demand_of t key \<le> demand_of t' key"
    and "sent \<Longrightarrow> demand_of t' key = demand_of t key + entries_count key entries"
    and "loses_nothing_twice outcome \<Longrightarrow> \<not> sent \<Longrightarrow> demand_of t' key = demand_of t key"
proof -
  let ?batch = "map snd entries"
  have full: "demand_of t1 key = demand_of t key + entries_count key entries"
    if "apply_batch sk digest None ?batch now (0, 0) t = (result, t1)" for result t1
    using committed_demand [OF that, of key] routed_batch_count [OF assms(2), where key = key] by simp
  show "demand_of t key \<le> demand_of t' key"
    using assms(1) demand_mono [of t key sk digest _ ?batch now "(0, 0)"]
    by (auto simp: track_handle_def split: post_outcome.splits prod.splits) (metis snd_conv)+
  show "sent \<Longrightarrow> demand_of t' key = demand_of t key + entries_count key entries"
    using assms(1) by (auto simp: track_handle_def intro: full dest: apply_batch_success split: post_outcome.splits prod.splits)
  show "loses_nothing_twice outcome \<Longrightarrow> \<not> sent \<Longrightarrow> demand_of t' key = demand_of t key"
    using assms(1) committed_batch(1) [of sk digest ?batch now 0 0 t]
    by (auto simp: track_handle_def loses_nothing_twice_def split: post_outcome.splits prod.splits)
qed


lemma send_chunks_counts:
  assumes "send_chunks sk digest now outcomes i batches requeue t = (requeue', t')"
    and "\<And>k e. (k, e) \<in> set (concat batches) \<Longrightarrow> routed digest e = Some k"
  shows "demand_of t key + entries_count key requeue + entries_count key (concat batches) \<le> demand_of t' key + entries_count key requeue'
     \<and> entries_count key requeue' \<le> entries_count key requeue + entries_count key (concat batches)
     \<and> set requeue' \<subseteq> set requeue \<union> set (concat batches)
     \<and> ((\<forall>j. loses_nothing_twice (outcomes j)) \<longrightarrow>
          demand_of t' key + entries_count key requeue' = demand_of t key + entries_count key requeue + entries_count key (concat batches))"
  using assms
proof (induction batches arbitrary: i requeue t)
  case (Cons chunk batches)
  obtain sent t1 where h: "track_handle sk digest now (outcomes i) (map snd chunk) t = (sent, t1)" by fastforce
  have routed: "routed digest e = Some k" if "(k, e) \<in> set chunk" for k e using Cons.prems(2) that by simp
  note counts = track_handle_counts [OF h routed]
  have run: "send_chunks sk digest now outcomes (i + 1) batches (if sent then requeue else requeue @ chunk) t1 = (requeue', t')"
    using Cons.prems(1) h by simp
  have rest: "routed digest e = Some k" if "(k, e) \<in> set (concat batches)" for k e using Cons.prems(2) that by simp
  note IH = Cons.IH [OF run rest]
  show ?case
  proof (cases sent)
    case True
    with IH counts(2) entries_count_nonneg [of key chunk] show ?thesis by (simp, blast)
  next
    case False
    with IH counts(1) [of key] counts(3) [of key] show ?thesis by (simp, blast)
  qed
qed simp

lemma concat_chunks_of: "0 < n \<Longrightarrow> concat (chunks_of n entries) = entries"
  by (induction n entries rule: chunks_of.induct) (subst chunks_of.simps, simp)

declare chunks_of.simps [simp del]

lemma routed_merge [simp]: "routed digest (merge_observation a b) = routed digest a"
  by (simp add: routed_def merge_observation_def split: sum.split)

lemma requeue_pending:
  assumes "\<And>key. waiting key buf + entries_count key entries < 2 ^ 32" and "keyed_ok digest buf"
    and "\<And>k e. (k, e) \<in> set entries \<Longrightarrow> routed digest e = Some k"
  shows "waiting key (fold requeue_entry entries buf) = waiting key buf + entries_count key entries
     \<and> keyed_ok digest (fold requeue_entry entries buf)
     \<and> fmdom' (fold requeue_entry entries buf) \<subseteq> fmdom' buf \<union> fst ` set entries"
  using assms
proof (induction entries arbitrary: buf)
  case (Cons x entries)
  obtain k e where x: "x = (k, e)" by (cases x)
  have e: "routed digest e = Some k" using Cons.prems(3) [of k e] x by simp
  have pend: "waiting k' (requeue_entry x buf) = waiting k' buf + (if k = k' then uint (to_count e) else 0)" for k'
  proof (cases "fmlookup buf k")
    case None
    then show ?thesis by (auto simp: waiting_def requeue_entry_def x)
  next
    case (Some existing)
    have "uint (to_count existing) + uint (to_count e) < 2 ^ 32"
      using Cons.prems(1) [of k] Some entries_count_nonneg [of k entries] by (simp add: waiting_def x)
    then have "uint (saturating_add (to_count existing) (to_count e)) = uint (to_count existing) + uint (to_count e)"
      by (rule uint_saturating_add)
    with Some show ?thesis by (auto simp: waiting_def requeue_entry_def x merge_observation_def)
  qed
  have ok: "keyed_ok digest (requeue_entry x buf)"
    using Cons.prems(2) e by (auto simp: keyed_ok_def requeue_entry_def x split: option.splits)
  have dom: "fmdom' (requeue_entry x buf) \<subseteq> insert k (fmdom' buf)"
    by (auto simp: requeue_entry_def x split: option.splits)
  have "waiting k' (requeue_entry x buf) + entries_count k' entries < 2 ^ 32" for k'
    using Cons.prems(1) [of k'] pend [of k'] by (auto simp: x)
  from Cons.IH [OF this ok] Cons.prems(3) pend [of key] dom show ?case by (auto simp: x)
qed simp

section \<open>Nothing is lost\<close>

lemma entries_count_map:
  "distinct ks \<Longrightarrow> entries_count key (map (\<lambda>k. (k, f k)) ks) = (if key \<in> set ks then uint (to_count (f key)) else 0)"
  by (induction ks) auto

lemma entries_count_fm_entries: "entries_count key (fm_entries buf) = waiting key buf"
  by (auto simp: fm_entries_map entries_count_map waiting_def fmlookup_dom'_iff split: option.split)

definition run_counts :: "(u8 list \<Rightarrow> string) \<Rightarrow> string set \<Rightarrow> nat \<Rightarrow> 'f patterns \<Rightarrow> bool \<Rightarrow> query list \<Rightarrow> query_client \<times> 'f patterns \<Rightarrow> bool" where
  "run_counts digest K cap t0 exact qs = (\<lambda>(cl, t). fmdom' (qc_buffer cl) \<subseteq> K \<and> qc_max_buffered cl = cap \<and> keyed_ok digest (qc_buffer cl)
     \<and> (\<forall>key. waiting key (qc_buffer cl) \<le> queries_for digest key qs
          \<and> demand_of t0 key + queries_for digest key qs \<le> demand_of t key + waiting key (qc_buffer cl)
          \<and> (exact \<longrightarrow> demand_of t0 key + queries_for digest key qs = demand_of t key + waiting key (qc_buffer cl))))"


lemma flush_counted:
  assumes "run_counts digest K cap t0 exact qs (cl, t)"
    and "keys_of digest meanwhile \<subseteq> K" and "finite K" and "card K \<le> cap" and "length qs + length meanwhile < 2 ^ 32"
    and "exact \<Longrightarrow> \<forall>j. loses_nothing_twice (outcomes j)"
  shows "run_counts digest K cap t0 exact (qs @ meanwhile) (flush_buffer hash sk digest max_batch_size now outcomes meanwhile (cl, t))"
proof -
  let ?entries = "fm_entries (qc_buffer cl)"
  let ?batches = "chunks_of (max max_batch_size 1) ?entries"
  let ?drained = "cl\<lparr>qc_buffer := fmempty, qc_dropped := 0\<rparr>"
  let ?cl = "fold (buffer_query hash digest) meanwhile ?drained"
  obtain requeue t' where send: "send_chunks sk digest now outcomes 0 ?batches [] t = (requeue, t')" by fastforce
  have flush: "flush_buffer hash sk digest max_batch_size now outcomes meanwhile (cl, t) = (requeue_entries requeue ?cl, t')"
    by (simp only: flush_buffer_def drain_buffer_def Let_def prod.case send)
  have inv: "keyed_ok digest (qc_buffer cl)" "fmdom' (qc_buffer cl) \<subseteq> K" "qc_max_buffered cl = cap"
    and old: "waiting k (qc_buffer cl) \<le> queries_for digest k qs"
      "demand_of t0 k + queries_for digest k qs \<le> demand_of t k + waiting k (qc_buffer cl)"
      "exact \<Longrightarrow> demand_of t0 k + queries_for digest k qs = demand_of t k + waiting k (qc_buffer cl)" for k
    using assms(1) by (auto simp: run_counts_def)
  have empty: "waiting k fmempty = 0" "keyed_ok digest fmempty" for k by (auto simp: waiting_def keyed_ok_def)
  have buffered: "waiting k (qc_buffer ?cl) = queries_for digest k meanwhile \<and> fmdom' (qc_buffer ?cl) \<subseteq> K
      \<and> qc_max_buffered ?cl = cap \<and> keyed_ok digest (qc_buffer ?cl)" for k
    using buffer_queries_pending [of ?drained K digest meanwhile k hash] assms(2-5) inv(3) empty by simp
  have concat: "concat ?batches = ?entries" by (rule concat_chunks_of) simp
  have routed: "routed digest e = Some k" if "(k, e) \<in> set ?entries" for k e
    using that inv(1) by (auto simp: keyed_ok_def)
  have sent: "demand_of t k + waiting k (qc_buffer cl) \<le> demand_of t' k + entries_count k requeue
      \<and> entries_count k requeue \<le> waiting k (qc_buffer cl) \<and> set requeue \<subseteq> set ?entries
      \<and> (exact \<longrightarrow> demand_of t' k + entries_count k requeue = demand_of t k + waiting k (qc_buffer cl))" for k
    using send_chunks_counts [OF send, unfolded concat, OF routed, of k] assms(6) by (auto simp: entries_count_fm_entries)
  have small: "waiting k (qc_buffer ?cl) + entries_count k requeue < 2 ^ 32" for k
    using buffered [of k] sent [of k] old(1) [of k] queries_for_le [of digest k qs] queries_for_le [of digest k meanwhile] assms(5)
    by simp
  have keep: "routed digest e = Some k" if "(k, e) \<in> set requeue" for k e
    using that sent [of k] routed by auto
  have req: "waiting k (fold requeue_entry requeue (qc_buffer ?cl)) = queries_for digest k meanwhile + entries_count k requeue
      \<and> keyed_ok digest (fold requeue_entry requeue (qc_buffer ?cl))
      \<and> fmdom' (fold requeue_entry requeue (qc_buffer ?cl)) \<subseteq> fmdom' (qc_buffer ?cl) \<union> fst ` set requeue" for k
    using requeue_pending [OF small conjunct2 [OF conjunct2 [OF conjunct2 [OF buffered]]] keep, of k] buffered [of k] by simp
  have "fst ` set requeue \<subseteq> K"
    using sent [of undefined] inv(2) by (force simp: fmlookup_dom'_iff)
  then have dom: "fmdom' (fold requeue_entry requeue (qc_buffer ?cl)) \<subseteq> K" using req [of undefined] buffered [of undefined] by blast
  have "queries_for digest k meanwhile + entries_count k requeue \<le> queries_for digest k (qs @ meanwhile)
      \<and> demand_of t0 k + queries_for digest k (qs @ meanwhile) \<le> demand_of t' k + (queries_for digest k meanwhile + entries_count k requeue)
      \<and> (exact \<longrightarrow> demand_of t0 k + queries_for digest k (qs @ meanwhile) = demand_of t' k + (queries_for digest k meanwhile + entries_count k requeue))" for k
    using sent [of k] old [of k] by auto
  then show ?thesis
    unfolding flush run_counts_def using dom req buffered [of undefined] by (simp add: requeue_entries_def)
qed


lemma keys_of_append: "keys_of digest (qs @ qs') = keys_of digest qs \<union> keys_of digest qs'"
  by (auto simp: keys_of_def List.map_filter_def)

lemma finite_keys_of [simp]: "finite (keys_of digest qs)"
  by (simp add: keys_of_def)

lemma step_counted:
  assumes "run_counts digest K cap t0 exact qs s"
    and "keys_of digest (event_queries e) \<subseteq> K" and "finite K" and "card K \<le> cap" and "length qs + length (event_queries e) < 2 ^ 32"
    and "exact \<Longrightarrow> \<forall>now outcomes meanwhile j. e = Flush now outcomes meanwhile \<longrightarrow> loses_nothing_twice (outcomes j)"
  shows "run_counts digest K cap t0 exact (qs @ event_queries e) (client_step hash sk digest max_batch_size e s)"
proof -
  obtain cl t where s: "s = (cl, t)" by (cases s)
  show ?thesis
  proof (cases e)
    case (Query q)
    have inv: "keyed_ok digest (qc_buffer cl)" "fmdom' (qc_buffer cl) \<subseteq> K" "qc_max_buffered cl = cap"
      and old: "waiting k (qc_buffer cl) \<le> queries_for digest k qs" for k
      using assms(1) by (auto simp: run_counts_def s)
    have "waiting k (qc_buffer cl) < 2 ^ 32 - 1" for k
      using old [of k] queries_for_le [of digest k qs] assms(5) Query by simp
    then have "waiting k (qc_buffer (buffer_query hash digest q cl)) = waiting k (qc_buffer cl) + queries_for digest k [q]
       \<and> fmdom' (qc_buffer (buffer_query hash digest q cl)) \<subseteq> K
       \<and> qc_max_buffered (buffer_query hash digest q cl) = qc_max_buffered cl
       \<and> keyed_ok digest (qc_buffer (buffer_query hash digest q cl))" for k
      using inv assms(2-4) Query by (intro buffer_query_pending) auto
    with assms(1) show ?thesis by (simp add: Query s run_counts_def)
  next
    case (Flush now outcomes meanwhile)
    with assms show ?thesis unfolding s Flush client_step.simps event_queries.simps by (intro flush_counted) auto
  qed
qed

lemma run_counted:
  assumes "run_counts digest K cap t0 exact qs s"
    and "keys_of digest (concat (map event_queries events)) \<subseteq> K" and "finite K" and "card K \<le> cap"
    and "length qs + length (concat (map event_queries events)) < 2 ^ 32"
    and "\<And>now outcomes meanwhile j. exact \<Longrightarrow> Flush now outcomes meanwhile \<in> set events \<Longrightarrow> loses_nothing_twice (outcomes j)"
  shows "run_counts digest K cap t0 exact (qs @ concat (map event_queries events)) (fold (client_step hash sk digest max_batch_size) events s)"
  using assms
proof (induction events arbitrary: qs s)
  case (Cons e events)
  have "run_counts digest K cap t0 exact (qs @ event_queries e) (client_step hash sk digest max_batch_size e s)"
  proof (rule step_counted [OF Cons.prems(1)])
    show "\<forall>now outcomes meanwhile j. e = Flush now outcomes meanwhile \<longrightarrow> loses_nothing_twice (outcomes j)" if exact
      using Cons.prems(6) [OF that] by auto
  qed (use Cons.prems in \<open>auto simp: keys_of_append\<close>)
  from Cons.IH [OF this] Cons.prems show ?case by (auto simp: keys_of_append)
qed simp

text \<open>C22: No query is lost between the API and the store. While the shapes in use fit the buffer and fewer than \<open>2 ^ 32\<close>
  queries were seen, the demand in the store and the counts waiting in the buffer are together at least the queries of each
  shape, through every order of queries, flushes, lost answers and failing statements; and they are exactly as many when
  each post is either answered or never arrives.\<close>

theorem no_query_lost:
  assumes "fold (client_step hash sk digest max_batch_size) events (new_client cap, t0) = (cl, t)"
    and "card (keys_of digest (concat (map event_queries events))) \<le> max cap 1"
    and "length (concat (map event_queries events)) < 2 ^ 32"
  shows "demand_of t0 key + queries_for digest key (concat (map event_queries events)) \<le> demand_of t key + waiting key (qc_buffer cl)
    \<and> ((\<forall>now outcomes meanwhile j. Flush now outcomes meanwhile \<in> set events \<longrightarrow> loses_nothing_twice (outcomes j)) \<longrightarrow>
      demand_of t0 key + queries_for digest key (concat (map event_queries events)) = demand_of t key + waiting key (qc_buffer cl))"
proof -
  let ?qs = "concat (map event_queries events)"
  have start: "run_counts digest (keys_of digest ?qs) (max cap 1) t0 exact [] (new_client cap, t0)" for exact
    by (simp add: run_counts_def new_client_def waiting_def keyed_ok_def)
  have "demand_of t0 key + queries_for digest key ?qs \<le> demand_of t key + waiting key (qc_buffer cl)"
    using run_counted [OF start [of False], of events hash sk max_batch_size] assms by (simp add: run_counts_def)
  moreover have "demand_of t0 key + queries_for digest key ?qs = demand_of t key + waiting key (qc_buffer cl)"
    if "\<forall>now outcomes meanwhile j. Flush now outcomes meanwhile \<in> set events \<longrightarrow> loses_nothing_twice (outcomes j)"
    using run_counted [OF start [of True], of events hash sk max_batch_size] assms that by (simp add: run_counts_def)
  ultimately show ?thesis by blast
qed

section \<open>An outage outgrows the bound\<close>

lemma requeue_dom: "fmdom' (fold requeue_entry entries buf) = fmdom' buf \<union> fst ` set entries"
proof (induction entries arbitrary: buf)
  case (Cons x entries)
  have "fmdom' (requeue_entry x buf) = insert (fst x) (fmdom' buf)"
    by (cases x) (auto simp: requeue_entry_def fmlookup_dom'_iff split: option.splits)
  with Cons show ?case by simp
qed simp

lemma send_unreached: "send_chunks sk digest now (\<lambda>_. Unreached) i batches requeue t = (requeue @ concat batches, t)"
  by (induction batches arbitrary: i requeue) (simp_all add: track_handle_def)

lemma flush_outage_dom:
  assumes "query_key digest q = Some key" and "qc_max_buffered cl = 1"
  shows "\<exists>cl'. flush_buffer hash sk digest max_batch_size now (\<lambda>_. Unreached) [q] (cl, t) = (cl', t)
     \<and> fmdom' (qc_buffer cl') = insert key (fmdom' (qc_buffer cl)) \<and> qc_max_buffered cl' = 1 \<and> qc_dropped cl' = 0"
proof -
  obtain identity where id: "parse_identity (qy_program q) (qy_config q) = Some identity" "pattern_id digest identity = key"
    using assms(1) by (auto simp: query_key_def)
  have "fst ` set (fm_entries (qc_buffer cl)) = fmdom' (qc_buffer cl)"
    by (metis list.set_map map_fst_fm_entries set_fm_keys)
  moreover have "concat (chunks_of (max max_batch_size 1) (fm_entries (qc_buffer cl))) = fm_entries (qc_buffer cl)"
    by (rule concat_chunks_of) simp
  ultimately show ?thesis
    using assms(2) id by (simp add: flush_buffer_def drain_buffer_def send_unreached requeue_entries_def requeue_dom buffer_query_def fcard_fempty)
qed

text \<open>C38: The bound on the buffer holds for the queries of one interval and not for what a failed flush folds back: with a
  tracker that cannot be reached and room for a single identity, \<open>n\<close> flushes that each see one new shape leave \<open>n\<close>
  identities in the buffer, and none is reported as dropped.\<close>

theorem outage_outgrows_bound:
  assumes "map (query_key digest) qs = map Some ks" and "distinct ks"
  shows "\<exists>cl. fold (client_step hash sk digest max_batch_size) (map (\<lambda>q. Flush 0 (\<lambda>_. Unreached) [q]) qs) (new_client 1, t) = (cl, t)
     \<and> qc_max_buffered cl = 1 \<and> card (fmdom' (qc_buffer cl)) = length qs \<and> qc_dropped cl = 0"
proof -
  have "\<exists>cl'. fold (client_step hash sk digest max_batch_size) (map (\<lambda>q. Flush 0 (\<lambda>_. Unreached) [q]) qs) (cl, t) = (cl', t)
      \<and> fmdom' (qc_buffer cl') = fmdom' (qc_buffer cl) \<union> set ks \<and> qc_max_buffered cl' = 1 \<and> qc_dropped cl' = 0"
    if "qc_max_buffered cl = 1" "qc_dropped cl = 0" for cl
    using assms(1) that
  proof (induction qs arbitrary: ks cl)
    case (Cons q qs)
    obtain key ks' where ks: "ks = key # ks'" "query_key digest q = Some key" "map (query_key digest) qs = map Some ks'"
      using Cons.prems(1) by (cases ks) auto
    obtain cl1 where "flush_buffer hash sk digest max_batch_size 0 (\<lambda>_. Unreached) [q] (cl, t) = (cl1, t)"
      and cl1: "fmdom' (qc_buffer cl1) = insert key (fmdom' (qc_buffer cl))" "qc_max_buffered cl1 = 1" "qc_dropped cl1 = 0"
      using flush_outage_dom [OF ks(2) Cons.prems(2), of hash sk max_batch_size 0 t] by blast
    with Cons.IH [OF ks(3) cl1(2,3)] ks(1) show ?case by auto
  qed simp
  from this [of "new_client 1"] obtain cl where
    "fold (client_step hash sk digest max_batch_size) (map (\<lambda>q. Flush 0 (\<lambda>_. Unreached) [q]) qs) (new_client 1, t) = (cl, t)"
    "fmdom' (qc_buffer cl) = set ks" "qc_max_buffered cl = 1" "qc_dropped cl = 0"
    by (auto simp: new_client_def)
  moreover have "card (set ks) = length qs" using assms by (metis distinct_card length_map)
  ultimately show ?thesis by auto
qed


section \<open>Witnesses\<close>

definition sample_query :: "pubkey \<Rightarrow> query" where
  "sample_query program = \<lparr>qy_program = program, qy_config = to_config (sample_observation (Inr program)), qy_cost_us = 10, qy_failed = False\<rparr>"

lemma sample_query_key: "query_key sample_digest (sample_query (pk 9)) = Some sample_key"
  using sample_parse by (simp add: query_key_def sample_query_def sample_key_def)

lemma no_query_lost_witness:
  "\<exists>cl t. fold (client_step (\<lambda>_. []) sample_sketch sample_digest 5)
      [Query (sample_query (pk 9)), Flush 0 (\<lambda>_. Unreached) [sample_query (pk 9)], Flush 1 (\<lambda>_. Answered) []]
      (new_client 1, fmempty :: int patterns) = (cl, t)
    \<and> demand_of t sample_key + waiting sample_key (qc_buffer cl) = 2"
proof -
  let ?events = "[Query (sample_query (pk 9)), Flush 0 (\<lambda>_. Unreached) [sample_query (pk 9)], Flush 1 (\<lambda>_. Answered) []]"
  obtain cl t where run: "fold (client_step (\<lambda>_. []) sample_sketch sample_digest 5) ?events (new_client 1, fmempty :: int patterns) = (cl, t)"
    by fastforce
  have "demand_of (fmempty :: int patterns) sample_key + queries_for sample_digest sample_key (concat (map event_queries ?events))
      = demand_of t sample_key + waiting sample_key (qc_buffer cl)"
    using no_query_lost [OF run, of sample_key]
    by (auto simp: keys_of_def List.map_filter_def sample_query_key loses_nothing_twice_def demand_of_def)
  then have "demand_of t sample_key + waiting sample_key (qc_buffer cl) = 2"
    by (simp add: demand_of_def sample_query_key)
  with run show ?thesis by blast
qed

definition sample_sized_query :: "u64 \<Rightarrow> query" where
  "sample_sized_query sz = (sample_query (pk 9))\<lparr>qy_config := Some \<lparr>pc_filters = Some [DataSize sz],
     pc_account_config = default_account_config, pc_with_context = None, pc_sort_results = None\<rparr>\<rparr>"

text \<open>A digest that tells sizes apart.\<close>

definition last_byte_digest :: "u8 list \<Rightarrow> string" where
  "last_byte_digest bs = replicate (unat (bs ! 33)) (CHR ''a'')"

lemma sized_key: "query_key last_byte_digest (sample_sized_query sz) = Some (take 16 (replicate (unat (to_le_bytes 8 sz ! 0)) (CHR ''a'')))"
proof -
  have "id_bytes (identity_from_parts (pk 9) [] (Some sz)) ! 33 = to_le_bytes 8 sz ! 0"
    by (simp add: id_bytes_def identity_from_parts_def nth_append)
  moreover have "parse_identity (pk 9) (qy_config (sample_sized_query sz)) = Some (identity_from_parts (pk 9) [] (Some sz))"
    using pk_ne_token [of 9] by (simp add: parse_identity_def sample_sized_query_def is_token_program_def identity_from_parts_def)
  ultimately show ?thesis
    by (simp add: query_key_def sample_sized_query_def sample_query_def pattern_id_def last_byte_digest_def PATTERN_ID_HEX_LEN_def)
qed

lemma sized_texts:
  "take 16 (replicate (unat (to_le_bytes 8 (1 :: u64) ! 0)) (CHR ''a'')) = ''a''"
  "take 16 (replicate (unat (to_le_bytes 8 (2 :: u64) ! 0)) (CHR ''a'')) = ''aa''"
  "take 16 (replicate (unat (to_le_bytes 8 (3 :: u64) ! 0)) (CHR ''a'')) = ''aaa''"
  by code_simp+

lemma outage_outgrows_bound_witness:
  "\<exists>cl. fold (client_step (\<lambda>_. []) sample_sketch last_byte_digest 5)
      (map (\<lambda>q. Flush 0 (\<lambda>_. Unreached) [q]) [sample_sized_query 1, sample_sized_query 2, sample_sized_query 3])
      (new_client 1, fmempty :: int patterns) = (cl, fmempty)
    \<and> card (fmdom' (qc_buffer cl)) = 3"
proof -
  have "map (query_key last_byte_digest) [sample_sized_query 1, sample_sized_query 2, sample_sized_query 3]
      = map Some [''a'', ''aa'', ''aaa'']"
    unfolding list.map sized_key by (simp only: sized_texts)
  from outage_outgrows_bound [OF this, of "\<lambda>_. []" sample_sketch 5 "fmempty :: int patterns"] show ?thesis by auto
qed

end
