(* ===== verification/Vote_Accounts.thy ===== *)
theory Vote_Accounts
  imports Gpa_Query
begin

text \<open>
  \<open>getVoteAccounts\<close> and the stakes behind it: the recomputer of the indexer (\<open>index/src/modules/epoch_stakes.rs\<close>), the
  table \<open>epoch_stakes\<close> (\<open>persist_epoch_stakes\<close> of \<open>snapshot/src/db_queries.rs\<close>), the snapshot the API polls
  (\<open>api/src/modules/vote_accounts_cache.rs\<close>) and the method (\<open>api/src/methods/vote_accounts.rs\<close>).

  Reading a vote state and the effective stake of a delegation are third-party: the record \<open>vote_codec\<close>. The table is a
  map by its primary key, epoch and vote account. Times are seconds.
\<close>

section \<open>The stakes of an epoch\<close>

record voter_entry =
  ve_node_pubkey :: pubkey
  ve_activated_stake :: u64
  ve_in_epoch_set :: bool

record stakes_snapshot =
  kn_epoch :: u64
  kn_voters :: "(pubkey, voter_entry) fmap"

definition empty_stakes :: stakes_snapshot where
  "empty_stakes = \<lparr>kn_epoch = 0, kn_voters = fmempty\<rparr>"

type_synonym epoch_stakes = "(int \<times> u8 list, u8 list \<times> int \<times> bool) fmap"

record voter_stake_row =
  vr_vote_pubkey :: pubkey
  vr_node_pubkey :: pubkey
  vr_activated_stake :: u64
  vr_in_epoch_set :: bool

definition upsert_voter :: "u64 \<Rightarrow> voter_stake_row \<Rightarrow> epoch_stakes \<Rightarrow> epoch_stakes" where
  "upsert_voter epoch row = fmupd (sint epoch, to_bytes (vr_vote_pubkey row))
     (to_bytes (vr_node_pubkey row), sint (vr_activated_stake row), vr_in_epoch_set row)"

definition persist_epoch_stakes :: "u64 \<Rightarrow> voter_stake_row list \<Rightarrow> epoch_stakes \<Rightarrow> epoch_stakes" where
  "persist_epoch_stakes epoch voters table =
     (if voters = [] then table
      else fmfilter (\<lambda>(e, _). \<not> e < sint (saturating_sub epoch 1)) (fold (upsert_voter epoch) voters table))"

text \<open>What a load finds: an error, no row, or the rows of the latest epoch. An error of the statements is the caller's.\<close>

datatype loaded_stakes = Load_Failed | No_Stakes | Stakes stakes_snapshot

fun load_voters :: "((int \<times> u8 list) \<times> u8 list \<times> int \<times> bool) list \<Rightarrow> (pubkey, voter_entry) fmap \<Rightarrow> (pubkey, voter_entry) fmap option" where
  "load_voters [] voters = Some voters"
| "load_voters (((epoch, vote), node, stake, in_set) # rows) voters =
     (case (try_from vote, try_from node) of
        (Some vote_pubkey, Some node_pubkey) \<Rightarrow> load_voters rows (fmupd vote_pubkey
          \<lparr>ve_node_pubkey = node_pubkey, ve_activated_stake = word_of_int stake, ve_in_epoch_set = in_set\<rparr> voters)
      | _ \<Rightarrow> None)"

definition load_latest_stakes :: "epoch_stakes \<Rightarrow> loaded_stakes" where
  "load_latest_stakes table =
     (let rows = fm_entries table
      in if rows = [] then No_Stakes
         else let epoch = Max (set (map (fst \<circ> fst) rows))
              in case load_voters (filter (\<lambda>((e, _), _). e = epoch) rows) fmempty of
                   None \<Rightarrow> Load_Failed
                 | Some voters \<Rightarrow> Stakes \<lparr>kn_epoch = word_of_int epoch, kn_voters = voters\<rparr>)"

definition total_stake :: "stakes_snapshot \<Rightarrow> int" where
  "total_stake snapshot = sum_list (map (\<lambda>(_, entry). uint (ve_activated_stake entry)) (fm_entries (kn_voters snapshot)))"

text \<open>A turn of the poll task.\<close>

definition poll_stakes :: "loaded_stakes \<Rightarrow> stakes_snapshot \<Rightarrow> stakes_snapshot" where
  "poll_stakes answer current = (case answer of
     Stakes snapshot \<Rightarrow>
       if kn_epoch current < kn_epoch snapshot then snapshot
       else if kn_epoch snapshot = kn_epoch current \<and> total_stake snapshot \<noteq> total_stake current then snapshot
       else current
   | _ \<Rightarrow> current)"

section \<open>The newest accounts of a program\<close>

definition latest_rows :: "(db_row list \<Rightarrow> db_row) \<Rightarrow> pubkey \<Rightarrow> (db_row \<Rightarrow> bool) \<Rightarrow> db_tables \<Rightarrow> db_row list" where
  "latest_rows pick owner P db = filter (\<lambda>r. 0 < dr_lamports r)
     (distinct_on_pubkey pick (filter (\<lambda>r. dr_owner r = to_bytes owner \<and> P r) (tb_accounts db @ tb_snapshot_accounts db)))"

record vote_state =
  vs_node_pubkey :: pubkey
  vs_votes :: "u64 list"
  vs_root_slot :: "u64 option"
  vs_commission_bps :: u16
  vs_epoch_credits :: "(u64 \<times> u64 \<times> u64) list"

text \<open>\<open>vc_vote\<close> is \<open>VoteStateV4::deserialize\<close>; \<open>vc_stake\<close> reads a stake account: the voter it is delegated to and the
  effective stake at an epoch, \<open>None\<close> when it is not delegated.\<close>

record vote_codec =
  vc_vote :: "u8 list \<Rightarrow> pubkey \<Rightarrow> vote_state option"
  vc_stake :: "u64 \<Rightarrow> u8 list \<Rightarrow> (pubkey \<times> u64) option"

section \<open>The recomputer\<close>

definition SLOTS_PER_EPOCH :: u64 where "SLOTS_PER_EPOCH = 432000"
definition HEARTBEAT_INTERVAL :: int where "HEARTBEAT_INTERVAL = 600"
definition STABLE_POLLS_REQUIRED :: nat where "STABLE_POLLS_REQUIRED = 3"
definition MAX_RECOMPUTES_PER_EPOCH :: nat where "MAX_RECOMPUTES_PER_EPOCH = 30"
definition EPOCH_REWARDS_LEN :: nat where "EPOCH_REWARDS_LEN = 81"

definition SYSVAR_OWNER_ID :: pubkey where
  "SYSVAR_OWNER_ID = Abs_pubkey [6, 167, 213, 23, 24, 117, 247, 41, 199, 61, 147, 64, 143, 33, 97, 32, 6, 126, 216, 140,
     118, 224, 140, 40, 127, 193, 148, 96, 0, 0, 0, 0]"

definition EPOCH_REWARDS_SYSVAR_ID :: pubkey where
  "EPOCH_REWARDS_SYSVAR_ID = Abs_pubkey [6, 167, 213, 23, 24, 220, 63, 238, 2, 165, 88, 191, 131, 206, 102, 225, 68, 66, 42,
     28, 52, 149, 11, 39, 193, 134, 155, 90, 156, 0, 0, 0]"

definition load_node_pubkeys :: "(db_row list \<Rightarrow> db_row) \<Rightarrow> vote_codec \<Rightarrow> db_tables \<Rightarrow> (pubkey, pubkey) fmap" where
  "load_node_pubkeys pick vc db = fold (\<lambda>row m. case try_from (dr_pubkey row) of
       None \<Rightarrow> m
     | Some vote_pubkey \<Rightarrow> (case vc_vote vc (dr_data row) vote_pubkey of
         None \<Rightarrow> m | Some vote_state \<Rightarrow> fmupd vote_pubkey (vs_node_pubkey vote_state) m))
     (latest_rows pick VOTE_PROGRAM_ID (\<lambda>_. True) db) fmempty"

definition add_delegation :: "vote_codec \<Rightarrow> u64 \<Rightarrow> db_row \<Rightarrow> (pubkey, u64) fmap \<Rightarrow> (pubkey, u64) fmap" where
  "add_delegation vc epoch row m = (case vc_stake vc epoch (dr_data row) of
     None \<Rightarrow> m
   | Some (voter, effective) \<Rightarrow>
       if 0 < effective then fmupd voter ((case fmlookup m voter of None \<Rightarrow> 0 | Some s \<Rightarrow> s) + effective) m else m)"

definition by_voter :: "(db_row list \<Rightarrow> db_row) \<Rightarrow> vote_codec \<Rightarrow> u64 \<Rightarrow> db_tables \<Rightarrow> (pubkey, u64) fmap" where
  "by_voter pick vc epoch db = fold (add_delegation vc epoch) (latest_rows pick STAKE_PROGRAM_ID (\<lambda>_. True) db) fmempty"

definition recomputed_voters :: "(db_row list \<Rightarrow> db_row) \<Rightarrow> vote_codec \<Rightarrow> u64 \<Rightarrow> db_tables \<Rightarrow> voter_stake_row list" where
  "recomputed_voters pick vc epoch db =
     map (\<lambda>(vote_pubkey, stake). \<lparr>vr_vote_pubkey = vote_pubkey,
         vr_node_pubkey = (case fmlookup (load_node_pubkeys pick vc db) vote_pubkey of None \<Rightarrow> pk 0 | Some n \<Rightarrow> n),
         vr_activated_stake = stake, vr_in_epoch_set = True\<rparr>)
       (fm_entries (by_voter pick vc epoch db))"

text \<open>\<open>recompute\<close>: the number of voters and the total; the new table.\<close>

definition recompute :: "(db_row list \<Rightarrow> db_row) \<Rightarrow> vote_codec \<Rightarrow> u64 \<Rightarrow> db_tables \<Rightarrow> epoch_stakes \<Rightarrow> (nat \<times> int) \<times> epoch_stakes" where
  "recompute pick vc epoch db table =
     (let voters = recomputed_voters pick vc epoch db
      in ((length voters, sum_list (map (uint \<circ> snd) (fm_entries (by_voter pick vc epoch db)))),
          persist_epoch_stakes epoch voters table))"

text \<open>\<open>read_epoch_rewards\<close>: whether the distribution is active, \<open>None\<close> when the sysvar is not indexed.\<close>

definition parse_epoch_rewards :: "u8 list \<Rightarrow> bool option" where
  "parse_epoch_rewards data = (if length data < EPOCH_REWARDS_LEN then None else Some (data ! (EPOCH_REWARDS_LEN - 1) \<noteq> 0))"

definition read_epoch_rewards :: "(db_row list \<Rightarrow> db_row) \<Rightarrow> db_tables \<Rightarrow> bool option" where
  "read_epoch_rewards pick db =
     (let rows = filter (\<lambda>r. dr_owner r = to_bytes SYSVAR_OWNER_ID \<and> dr_pubkey r = to_bytes EPOCH_REWARDS_SYSVAR_ID
           \<and> 0 < dr_lamports r) (tb_accounts db @ tb_snapshot_accounts db)
      in if rows = [] then None else parse_epoch_rewards (dr_data (pick rows)))"

record recomputer =
  rp_working_epoch :: "u64 option"
  rp_prev_total :: "int option"
  rp_stable_polls :: nat
  rp_recomputes :: nat
  rp_seen_distributing :: bool
  rp_converged :: bool
  rp_last_recompute :: "int option"

definition new_recomputer :: recomputer where
  "new_recomputer = \<lparr>rp_working_epoch = None, rp_prev_total = None, rp_stable_polls = 0, rp_recomputes = 0,
     rp_seen_distributing = False, rp_converged = False, rp_last_recompute = None\<rparr>"

definition enter_epoch :: "u64 \<Rightarrow> recomputer \<Rightarrow> recomputer" where
  "enter_epoch epoch rp = (if rp_working_epoch rp \<noteq> Some epoch
     then new_recomputer\<lparr>rp_working_epoch := Some epoch\<rparr> else rp)"

definition heartbeat_due :: "int \<Rightarrow> recomputer \<Rightarrow> bool" where
  "heartbeat_due now rp \<longleftrightarrow> \<not> (rp_converged rp \<and> (case rp_last_recompute rp of None \<Rightarrow> False | Some t \<Rightarrow> now - t < HEARTBEAT_INTERVAL))"

text \<open>After a recompute: the total it found, and what the sysvar says.\<close>

definition note_total :: "int \<Rightarrow> int \<Rightarrow> bool option \<Rightarrow> recomputer \<Rightarrow> recomputer" where
  "note_total now amount rewards rp =
     (let rp = rp\<lparr>rp_last_recompute := Some now, rp_recomputes := rp_recomputes rp + 1,
                 rp_stable_polls := (if rp_prev_total rp = Some amount then rp_stable_polls rp + 1 else 0),
                 rp_prev_total := Some amount\<rparr>;
          rp = rp\<lparr>rp_seen_distributing := (rewards = Some True \<or> rp_seen_distributing rp)\<rparr>;
          rewards_done = (case rewards of Some active \<Rightarrow> rp_seen_distributing rp \<and> \<not> active | None \<Rightarrow> True)
      in if rp_converged rp
         then if rp_stable_polls rp = 0 then rp\<lparr>rp_converged := False, rp_recomputes := 0\<rparr> else rp
         else if (rewards_done \<and> STABLE_POLLS_REQUIRED \<le> rp_stable_polls rp) \<or> MAX_RECOMPUTES_PER_EPOCH \<le> rp_recomputes rp
              then rp\<lparr>rp_converged := True\<rparr> else rp)"

text \<open>A turn of the loop: health, the finalized slot, the time, the total of a recompute (\<open>None\<close> when it fails), the sysvar.\<close>

record recomputer_poll =
  po_healthy :: bool
  po_finalized_slot :: "u64 option"
  po_now :: int
  po_total :: "int option"
  po_rewards :: "bool option"

definition recomputer_turn :: "recomputer_poll \<Rightarrow> recomputer \<Rightarrow> recomputer" where
  "recomputer_turn p rp =
     (if \<not> po_healthy p then rp
      else case po_finalized_slot p of
        None \<Rightarrow> rp
      | Some at \<Rightarrow>
          let rp = enter_epoch (at div SLOTS_PER_EPOCH) rp
          in if \<not> heartbeat_due (po_now p) rp then rp
             else (case po_total p of None \<Rightarrow> rp | Some amount \<Rightarrow> note_total (po_now p) amount (po_rewards p) rp))"

section \<open>The method\<close>

definition DEFAULT_DELINQUENT_SLOT_DISTANCE :: u64 where "DEFAULT_DELINQUENT_SLOT_DISTANCE = 128"
definition MAX_EPOCH_CREDITS_HISTORY :: nat where "MAX_EPOCH_CREDITS_HISTORY = 5"

record vote_accounts_config =
  vo_commitment :: "commitment_level option"
  vo_vote_pubkey :: "(string + pubkey) option"
  vo_keep_unstaked_delinquents :: "bool option"
  vo_delinquent_slot_distance :: "u64 option"

definition default_vote_config :: vote_accounts_config where
  "default_vote_config = \<lparr>vo_commitment = None, vo_vote_pubkey = None, vo_keep_unstaked_delinquents = None,
     vo_delinquent_slot_distance = None\<rparr>"

record vote_info =
  vi_vote_pubkey :: pubkey
  vi_node_pubkey :: pubkey
  vi_activated_stake :: u64
  vi_commission :: u8
  vi_commission_bps :: u16
  vi_epoch_vote_account :: bool
  vi_epoch_credits :: "(u64 \<times> u64 \<times> u64) list"
  vi_last_vote :: u64
  vi_root_slot :: u64

definition load_vote_account_rows :: "(db_row list \<Rightarrow> db_row) \<Rightarrow> pubkey option \<Rightarrow> u64 \<Rightarrow> db_tables \<Rightarrow> (pubkey \<times> u8 list) list" where
  "load_vote_account_rows pick optional_filter slot db =
     List.map_filter (\<lambda>row. map_option (\<lambda>key. (key, dr_data row)) (try_from (dr_pubkey row)))
       (latest_rows pick VOTE_PROGRAM_ID (\<lambda>r. (case optional_filter of None \<Rightarrow> True | Some key \<Rightarrow> dr_pubkey r = to_bytes key)
          \<and> dr_slot r \<le> sint slot) db)"

definition vote_info_of :: "stakes_snapshot \<Rightarrow> pubkey \<Rightarrow> vote_state \<Rightarrow> vote_info" where
  "vote_info_of stakes key state =
     (let entry = fmlookup (kn_voters stakes) key
      in \<lparr>vi_vote_pubkey = key,
          vi_node_pubkey = (case entry of Some e \<Rightarrow> ve_node_pubkey e | None \<Rightarrow> vs_node_pubkey state),
          vi_activated_stake = (case entry of Some e \<Rightarrow> ve_activated_stake e | None \<Rightarrow> 0),
          vi_commission = ucast (vs_commission_bps state div 100), vi_commission_bps = vs_commission_bps state,
          vi_epoch_vote_account = (case entry of Some e \<Rightarrow> ve_in_epoch_set e | None \<Rightarrow> False),
          vi_epoch_credits = rev (take MAX_EPOCH_CREDITS_HISTORY (rev (vs_epoch_credits state))),
          vi_last_vote = (if vs_votes state = [] then 0 else last (vs_votes state)),
          vi_root_slot = (case vs_root_slot state of Some s \<Rightarrow> s | None \<Rightarrow> 0)\<rparr>)"

fun build_status :: "vote_codec \<Rightarrow> (pubkey \<times> u8 list) list \<Rightarrow> stakes_snapshot \<Rightarrow> u64 \<Rightarrow> u64 \<Rightarrow> bool \<Rightarrow> vote_info list \<times> vote_info list" where
  "build_status vc [] stakes reference_slot distance keep = ([], [])"
| "build_status vc ((key, data) # rows) stakes reference_slot distance keep =
     (let (current, delinquent) = build_status vc rows stakes reference_slot distance keep
      in case vc_vote vc data key of
           None \<Rightarrow> (current, delinquent)
         | Some state \<Rightarrow>
             let info = vote_info_of stakes key state
             in if distance \<le> saturating_sub reference_slot (vi_last_vote info)
                then (current, if keep \<or> 0 < vi_activated_stake info then info # delinquent else delinquent)
                else (info # current, delinquent))"

text \<open>The reference slot: the cached slot of the commitment, or the one of the table when that is still zero.\<close>

definition vote_reference_slot :: "rpc_state \<Rightarrow> slot_model list \<Rightarrow> commitment_level \<Rightarrow> u64" where
  "vote_reference_slot state slot_rows commitment =
     (let cached = (case rs_slots state of None \<Rightarrow> 0 | Some d \<Rightarrow> get_slot_for_commitment d commitment)
      in if 0 < cached then cached
         else case get_slot_data slot_rows of None \<Rightarrow> 0 | Some d \<Rightarrow> get_slot_for_commitment d commitment)"

definition vote_distance :: "vote_accounts_config \<Rightarrow> u64" where
  "vote_distance config =
     (case vo_delinquent_slot_distance config of None \<Rightarrow> DEFAULT_DELINQUENT_SLOT_DISTANCE | Some d \<Rightarrow> d)"

definition get_vote_accounts :: "(db_row list \<Rightarrow> db_row) \<Rightarrow> vote_codec \<Rightarrow> rpc_state \<Rightarrow> slot_model list \<Rightarrow> stakes_snapshot \<Rightarrow> bool
    \<Rightarrow> vote_accounts_config option \<Rightarrow> db_tables \<Rightarrow> (vote_info list \<times> vote_info list) rpc_result" where
  "get_vote_accounts pick vc state slot_rows stakes db_ok config db =
     (let config = (case config of None \<Rightarrow> default_vote_config | Some c \<Rightarrow> c) in
      rbind (resolve_or_finalized (vo_commitment config) (rs_processed_commitment state)) (\<lambda>commitment.
      rbind (case vo_vote_pubkey config of None \<Rightarrow> Inr None | Some parsed \<Rightarrow> rbind (parse_key parsed) (\<lambda>key. Inr (Some key)))
        (\<lambda>optional_filter.
        if kn_voters stakes = fmempty then Inl (node_unhealthy state)
        else
          let reference_slot = vote_reference_slot state slot_rows commitment
          in if \<not> db_ok then Inl InternalError
             else Inr (build_status vc (load_vote_account_rows pick optional_filter reference_slot db) stakes reference_slot
                    (vote_distance config) (vo_keep_unstaked_delinquents config = Some True)))))"


section \<open>The rows read\<close>

lemma latest_rows_newest:
  assumes "picks_newest pick" and "r \<in> set (latest_rows pick owner P db)"
  shows "0 < dr_lamports r \<and> r \<in> newest (filter (\<lambda>x. dr_owner x = to_bytes owner \<and> P x \<and> dr_pubkey x = dr_pubkey r)
    (tb_accounts db @ tb_snapshot_accounts db))"
proof -
  let ?rows = "filter (\<lambda>x. dr_owner x = to_bytes owner \<and> P x) (tb_accounts db @ tb_snapshot_accounts db)"
  obtain k where k: "k \<in> set (row_keys ?rows)" "r = pick (filter (\<lambda>x. dr_pubkey x = k) ?rows)" and l: "0 < dr_lamports r"
    using assms(2) by (auto simp: latest_rows_def distinct_on_pubkey_def)
  have "r \<in> newest (filter (\<lambda>x. dr_pubkey x = k) ?rows)" "dr_pubkey r = k" using pick_key [OF assms(1) k(1)] k(2) by simp_all
  with l show ?thesis by (simp add: filter_filter conj_assoc conj_commute conj_left_commute)
qed

lemma latest_rows_sorted:
  assumes "picks_newest pick"
  shows "sorted_wrt (<) (map dr_pubkey (latest_rows pick owner P db))"
proof -
  let ?rows = "filter (\<lambda>r. dr_owner r = to_bytes owner \<and> P r) (tb_accounts db @ tb_snapshot_accounts db)"
  have "sorted_wrt (<) (map dr_pubkey (distinct_on_pubkey pick ?rows))"
    unfolding keys_distinct_on [OF assms] by (rule sorted_row_keys)
  then have "sorted_wrt (\<lambda>a b. dr_pubkey a < dr_pubkey b) (distinct_on_pubkey pick ?rows)" by (simp only: sorted_wrt_map)
  then show ?thesis unfolding latest_rows_def sorted_wrt_map by (rule sorted_wrt_filter)
qed

lemma latest_rows_answers:
  assumes "picks_newest pick" and "r \<in> set (latest_rows pick owner (\<lambda>x. dr_slot x \<le> slot) db)"
  shows "Some r \<in> get_program_account (to_bytes owner) (dr_pubkey r) slot db"
proof -
  let ?vs = "versions (\<lambda>x. dr_owner x = to_bytes owner) (dr_pubkey r) slot (tb_accounts db @ tb_snapshot_accounts db)"
  have "?vs = filter (\<lambda>x. dr_owner x = to_bytes owner \<and> dr_slot x \<le> slot \<and> dr_pubkey x = dr_pubkey r) (tb_accounts db @ tb_snapshot_accounts db)"
    unfolding versions_def by (rule filter_cong) auto
  with latest_rows_newest [OF assms] have "r \<in> newest ?vs" "0 < dr_lamports r" by simp_all
  moreover have "r \<in> set ?vs" using \<open>r \<in> newest ?vs\<close> unfolding newest_def by blast
  then have "?vs \<noteq> []" by (metis empty_iff list.set(1))
  ultimately show ?thesis
    by (auto simp: get_program_account_def answers_def answers_of_def visible_def simp del: versions_append intro!: image_eqI [of _ _ r])
qed

lemma latest_rows_complete:
  assumes "picks_newest pick" and "None \<notin> get_program_account (to_bytes owner) key slot db"
  shows "\<exists>r \<in> set (latest_rows pick owner (\<lambda>x. dr_slot x \<le> slot) db). dr_pubkey r = key"
proof -
  let ?all = "filter (\<lambda>x. dr_owner x = to_bytes owner \<and> dr_slot x \<le> slot) (tb_accounts db @ tb_snapshot_accounts db)"
  let ?vs = "versions (\<lambda>x. dr_owner x = to_bytes owner) key slot (tb_accounts db @ tb_snapshot_accounts db)"
  have vs: "?vs = filter (\<lambda>x. dr_pubkey x = key) ?all"
    unfolding versions_def filter_filter by (rule filter_cong) auto
  have ne: "?vs \<noteq> []" and open_rows: "\<And>x. x \<in> newest ?vs \<Longrightarrow> 0 < dr_lamports x"
    using assms(2) by (force simp: get_program_account_def answers_def answers_of_def visible_def split: if_splits)+
  have k: "key \<in> set (row_keys ?all)" using ne unfolding vs by (force simp: filter_empty_conv)
  let ?r = "pick (filter (\<lambda>x. dr_pubkey x = key) ?all)"
  have "?r \<in> newest ?vs" "dr_pubkey ?r = key" using pick_key [OF assms(1) k] unfolding vs by simp_all
  moreover have "?r \<in> set (distinct_on_pubkey pick ?all)" using k by (simp add: distinct_on_pubkey_def)
  ultimately show ?thesis using open_rows unfolding latest_rows_def by (intro bexI [of _ ?r]) auto
qed

lemma latest_rows_filtered:
  "latest_rows pick owner (\<lambda>r. dr_pubkey r = key \<and> P r) db = filter (\<lambda>r. dr_pubkey r = key) (latest_rows pick owner P db)"
  if "picks_newest pick"
proof -
  let ?all = "filter (\<lambda>r. dr_owner r = to_bytes owner \<and> P r) (tb_accounts db @ tb_snapshot_accounts db)"
  let ?some = "filter (\<lambda>r. dr_owner r = to_bytes owner \<and> dr_pubkey r = key \<and> P r) (tb_accounts db @ tb_snapshot_accounts db)"
  have some: "?some = filter (\<lambda>r. dr_pubkey r = key) ?all" unfolding filter_filter by (rule filter_cong) auto
  have keys: "row_keys ?some = filter (\<lambda>k. k = key) (row_keys ?all)"
  proof (rule sorted_distinct_set_unique)
    show "sorted (row_keys ?some)" "distinct (row_keys ?some)" by (simp_all add: row_keys_def)
    show "sorted (filter (\<lambda>k. k = key) (row_keys ?all))" "distinct (filter (\<lambda>k. k = key) (row_keys ?all))"
      by (simp_all add: row_keys_def sorted_wrt_filter)
    show "set (row_keys ?some) = set (filter (\<lambda>k. k = key) (row_keys ?all))" by auto
  qed
  have "distinct_on_pubkey pick ?some = filter (\<lambda>r. dr_pubkey r = key) (distinct_on_pubkey pick ?all)"
  proof -
    have "filter (\<lambda>r. dr_pubkey r = key) (distinct_on_pubkey pick ?all)
        = map (\<lambda>k. pick (filter (\<lambda>r. dr_pubkey r = k) ?all)) (filter (\<lambda>k. k = key) (row_keys ?all))"
      unfolding distinct_on_pubkey_def filter_map comp_def
      by (rule arg_cong [of _ _ "map _"], rule filter_cong) (simp_all only: pick_key(2) [OF that])
    moreover have "filter (\<lambda>r. dr_pubkey r = k) ?some = filter (\<lambda>r. dr_pubkey r = k) ?all" if "k = key" for k
      using that unfolding filter_filter by (intro filter_cong) auto
    ultimately show ?thesis unfolding distinct_on_pubkey_def keys by (auto intro: map_cong)
  qed
  then show ?thesis unfolding latest_rows_def by (simp add: filter_filter conj_commute)
qed


section \<open>The answer\<close>

definition vote_infos :: "vote_codec \<Rightarrow> (pubkey \<times> u8 list) list \<Rightarrow> stakes_snapshot \<Rightarrow> vote_info list" where
  "vote_infos vc rows stakes = List.map_filter (\<lambda>(key, data). map_option (vote_info_of stakes key) (vc_vote vc data key)) rows"

definition delinquent :: "u64 \<Rightarrow> u64 \<Rightarrow> vote_info \<Rightarrow> bool" where
  "delinquent reference_slot distance info \<longleftrightarrow> distance \<le> saturating_sub reference_slot (vi_last_vote info)"

lemma build_status_filters:
  "build_status vc rows stakes reference_slot distance keep =
     (filter (\<lambda>info. \<not> delinquent reference_slot distance info) (vote_infos vc rows stakes),
      filter (\<lambda>info. delinquent reference_slot distance info \<and> (keep \<or> 0 < vi_activated_stake info)) (vote_infos vc rows stakes))"
proof (induction rows)
  case (Cons row rows)
  obtain key data where row: "row = (key, data)" by (cases row)
  show ?case
    using Cons by (cases "vc_vote vc data key") (auto simp: row vote_infos_def List.map_filter_def delinquent_def Let_def)
qed (simp add: vote_infos_def List.map_filter_def)

lemma keyed_rows_filtered:
  "List.map_filter (\<lambda>row. map_option (\<lambda>k. (k, dr_data row)) (try_from (dr_pubkey row))) (filter (\<lambda>r. dr_pubkey r = to_bytes key) rows)
     = filter (\<lambda>(k, _). k = key) (List.map_filter (\<lambda>row. map_option (\<lambda>k. (k, dr_data row)) (try_from (dr_pubkey row))) rows)"
  by (induction rows) (auto simp: List.map_filter_simps try_from_eq_Some to_bytes_inject split: option.split)

lemma load_rows_filtered:
  assumes "picks_newest pick"
  shows "load_vote_account_rows pick (Some key) slot db = filter (\<lambda>(k, _). k = key) (load_vote_account_rows pick None slot db)"
proof -
  have "load_vote_account_rows pick (Some key) slot db = List.map_filter (\<lambda>row. map_option (\<lambda>k. (k, dr_data row)) (try_from (dr_pubkey row)))
      (filter (\<lambda>r. dr_pubkey r = to_bytes key) (latest_rows pick VOTE_PROGRAM_ID (\<lambda>r. dr_slot r \<le> sint slot) db))"
    unfolding load_vote_account_rows_def option.case
      latest_rows_filtered [OF assms, where P = "\<lambda>r. dr_slot r \<le> sint slot", symmetric] by simp
  also have "\<dots> = filter (\<lambda>(k, _). k = key) (List.map_filter (\<lambda>row. map_option (\<lambda>k. (k, dr_data row)) (try_from (dr_pubkey row)))
      (latest_rows pick VOTE_PROGRAM_ID (\<lambda>r. dr_slot r \<le> sint slot) db))"
    by (rule keyed_rows_filtered)
  finally show ?thesis by (simp add: load_vote_account_rows_def)
qed

lemma vote_info_key [simp]: "vi_vote_pubkey (vote_info_of stakes key state) = key"
  by (simp add: vote_info_of_def Let_def)

lemma vote_infos_filtered:
  "vote_infos vc (filter (\<lambda>(k, _). k = key) rows) stakes = filter (\<lambda>info. vi_vote_pubkey info = key) (vote_infos vc rows stakes)"
  unfolding vote_infos_def by (induction rows) (auto simp: List.map_filter_simps split: option.split)


text \<open>Asking for one vote account is asking for all of them and keeping that one: the answer has the same entries, in the
  same list, and it fails exactly when the full answer fails.\<close>

theorem vote_filter_agrees:
  assumes "picks_newest pick" and "vo_vote_pubkey config = Some (Inr key)"
  shows "get_vote_accounts pick vc state slot_rows stakes db_ok (Some config) db =
    rbind (get_vote_accounts pick vc state slot_rows stakes db_ok (Some (config\<lparr>vo_vote_pubkey := None\<rparr>)) db)
      (\<lambda>(current, late). Inr (filter (\<lambda>info. vi_vote_pubkey info = key) current, filter (\<lambda>info. vi_vote_pubkey info = key) late))"
  using assms(2)
  by (cases "resolve_or_finalized (vo_commitment config) (rs_processed_commitment state)")
    (simp_all add: get_vote_accounts_def parse_key_def build_status_filters load_rows_filtered [OF assms(1)] vote_infos_filtered
      filter_filter conj_commute vote_distance_def Let_def)

abbreviation keyed_rows :: "db_row list \<Rightarrow> (pubkey \<times> u8 list) list" where
  "keyed_rows rows \<equiv> List.map_filter (\<lambda>row. map_option (\<lambda>k. (k, dr_data row)) (try_from (dr_pubkey row))) rows"

lemma vote_infos_rows:
  "info \<in> set (vote_infos vc (keyed_rows rows) stakes) \<longleftrightarrow>
     (\<exists>row \<in> set rows. \<exists>key vote. dr_pubkey row = to_bytes key \<and> vc_vote vc (dr_data row) key = Some vote
        \<and> info = vote_info_of stakes key vote)"
proof (induction rows)
  case (Cons row rows)
  show ?case
  proof (cases "try_from (dr_pubkey row)")
    case None
    then have "\<And>key. dr_pubkey row \<noteq> to_bytes key" by (metis option.distinct(1) try_from_to_bytes)
    with None Cons show ?thesis by (simp add: List.map_filter_simps)
  next
    case (Some key)
    then have key: "dr_pubkey row = to_bytes key" by (simp add: try_from_eq_Some)
    with Some Cons show ?thesis
      by (cases "vc_vote vc (dr_data row) key") (auto simp: vote_infos_def List.map_filter_simps to_bytes_inject)
  qed
qed (simp add: vote_infos_def List.map_filter_simps)

lemma vote_infos_distinct: "distinct (map dr_pubkey rows) \<Longrightarrow> distinct (map vi_vote_pubkey (vote_infos vc (keyed_rows rows) stakes))"
proof (induction rows)
  case (Cons row rows)
  show ?case
  proof (cases "try_from (dr_pubkey row)")
    case None
    with Cons show ?thesis by (simp add: List.map_filter_simps)
  next
    case (Some key)
    then have key: "dr_pubkey row = to_bytes key" by (simp add: try_from_eq_Some)
    have "key \<notin> vi_vote_pubkey ` set (vote_infos vc (keyed_rows rows) stakes)"
      using Cons.prems by (auto simp: vote_infos_rows key image_iff) metis
    moreover have "vote_infos vc (keyed_rows (row # rows)) stakes = (case vc_vote vc (dr_data row) key of
        None \<Rightarrow> vote_infos vc (keyed_rows rows) stakes
      | Some vote \<Rightarrow> vote_info_of stakes key vote # vote_infos vc (keyed_rows rows) stakes)"
      using Some by (simp add: vote_infos_def List.map_filter_simps split: option.split)
    ultimately show ?thesis using Cons by (auto split: option.split)
  qed
qed (simp add: vote_infos_def List.map_filter_simps)

lemma status_exact:
  assumes "picks_newest pick"
    and "build_status vc (load_vote_account_rows pick None slot db) stakes slot distance keep = (current, late)"
  shows "distinct (map vi_vote_pubkey (current @ late))
    \<and> (\<forall>info \<in> set current \<union> set late. \<exists>row vote. Some row \<in> get_program_account (to_bytes VOTE_PROGRAM_ID) (dr_pubkey row) (sint slot) db
         \<and> dr_pubkey row = to_bytes (vi_vote_pubkey info) \<and> vc_vote vc (dr_data row) (vi_vote_pubkey info) = Some vote
         \<and> info = vote_info_of stakes (vi_vote_pubkey info) vote
         \<and> (info \<in> set late \<longleftrightarrow> distance \<le> saturating_sub slot (vi_last_vote info)))
    \<and> (\<forall>info \<in> set late. keep \<or> 0 < vi_activated_stake info)
    \<and> (\<forall>key. None \<notin> get_program_account (to_bytes VOTE_PROGRAM_ID) (to_bytes key) (sint slot) db \<longrightarrow>
         (\<exists>row. Some row \<in> get_program_account (to_bytes VOTE_PROGRAM_ID) (to_bytes key) (sint slot) db \<and> (\<forall>vote. vc_vote vc (dr_data row) key = Some vote \<longrightarrow>
            vote_info_of stakes key vote \<in> set current \<union> set late
            \<or> distance \<le> saturating_sub slot (vi_last_vote (vote_info_of stakes key vote)) \<and> \<not> keep
              \<and> vi_activated_stake (vote_info_of stakes key vote) = 0)))"
proof -
  let ?rows = "latest_rows pick VOTE_PROGRAM_ID (\<lambda>r. dr_slot r \<le> sint slot) db"
  let ?infos = "vote_infos vc (keyed_rows ?rows) stakes"
  have lists: "current = filter (\<lambda>info. \<not> delinquent slot distance info) ?infos"
    "late = filter (\<lambda>info. delinquent slot distance info \<and> (keep \<or> 0 < vi_activated_stake info)) ?infos"
    using assms(2) by (simp_all add: build_status_filters load_vote_account_rows_def)
  have "distinct (map dr_pubkey ?rows)" using latest_rows_sorted [OF assms(1)] by (metis strict_sorted_iff)
  then have "distinct (map vi_vote_pubkey ?infos)" by (rule vote_infos_distinct)
  then have distinct: "distinct (map vi_vote_pubkey (current @ late))"
    unfolding lists by (auto simp: distinct_map inj_on_def distinct_map_filter) 
  have entries: "\<exists>row vote. Some row \<in> get_program_account (to_bytes VOTE_PROGRAM_ID) (dr_pubkey row) (sint slot) db
         \<and> dr_pubkey row = to_bytes (vi_vote_pubkey info) \<and> vc_vote vc (dr_data row) (vi_vote_pubkey info) = Some vote
         \<and> info = vote_info_of stakes (vi_vote_pubkey info) vote
         \<and> (info \<in> set late \<longleftrightarrow> distance \<le> saturating_sub slot (vi_last_vote info))"
    if "info \<in> set current \<union> set late" for info
  proof -
    have "info \<in> set ?infos" "info \<in> set late \<longleftrightarrow> delinquent slot distance info" using that by (auto simp: lists)
    then show ?thesis
      using latest_rows_answers [OF assms(1)] unfolding vote_infos_rows delinquent_def by (metis vote_info_key)
  qed
  have complete: "\<exists>row. Some row \<in> get_program_account (to_bytes VOTE_PROGRAM_ID) (to_bytes key) (sint slot) db \<and> (\<forall>vote.
      vc_vote vc (dr_data row) key = Some vote \<longrightarrow> vote_info_of stakes key vote \<in> set current \<union> set late
        \<or> distance \<le> saturating_sub slot (vi_last_vote (vote_info_of stakes key vote)) \<and> \<not> keep
          \<and> vi_activated_stake (vote_info_of stakes key vote) = 0)"
    if open_key: "None \<notin> get_program_account (to_bytes VOTE_PROGRAM_ID) (to_bytes key) (sint slot) db" for key
  proof -
    obtain row where row: "row \<in> set ?rows" "dr_pubkey row = to_bytes key" using latest_rows_complete [OF assms(1) open_key] by blast
    have "vote_info_of stakes key vote \<in> set ?infos" if "vc_vote vc (dr_data row) key = Some vote" for vote
      using row that unfolding vote_infos_rows by blast
    then have "vote_info_of stakes key vote \<in> set current \<union> set late
        \<or> distance \<le> saturating_sub slot (vi_last_vote (vote_info_of stakes key vote)) \<and> \<not> keep
          \<and> vi_activated_stake (vote_info_of stakes key vote) = 0" if "vc_vote vc (dr_data row) key = Some vote" for vote
      using that by (auto simp: lists delinquent_def word_gt_0)
    with latest_rows_answers [OF assms(1) row(1)] row(2) show ?thesis by (metis (no_types))
  qed
  have "keep \<or> 0 < vi_activated_stake info" if "info \<in> set late" for info using that by (auto simp: lists)
  with distinct entries complete show ?thesis by blast
qed

text \<open>What an entry says: the stake, the epoch membership and the node of the cached stakes, where a voter they do not know
  has none and takes the node of its vote state; the last vote; and the newest five epochs of credits, oldest first.\<close>

definition entry_reads :: "stakes_snapshot \<Rightarrow> vote_state \<Rightarrow> vote_info \<Rightarrow> bool" where
  "entry_reads stakes vote info \<longleftrightarrow> (case fmlookup (kn_voters stakes) (vi_vote_pubkey info) of
       Some e \<Rightarrow> vi_activated_stake info = ve_activated_stake e \<and> vi_epoch_vote_account info = ve_in_epoch_set e
         \<and> vi_node_pubkey info = ve_node_pubkey e
     | None \<Rightarrow> vi_activated_stake info = 0 \<and> \<not> vi_epoch_vote_account info \<and> vi_node_pubkey info = vs_node_pubkey vote)
   \<and> (vs_votes vote \<noteq> [] \<longrightarrow> vi_last_vote info = last (vs_votes vote)) \<and> (vs_votes vote = [] \<longrightarrow> vi_last_vote info = 0)
   \<and> vi_epoch_credits info = drop (length (vs_epoch_credits vote) - 5) (vs_epoch_credits vote)
   \<and> vi_commission_bps info = vs_commission_bps vote"

lemma entry_reads_info: "entry_reads stakes vote (vote_info_of stakes key vote)"
  by (simp add: entry_reads_def vote_info_of_def Let_def MAX_EPOCH_CREDITS_HISTORY_def rev_take split: option.split)

text \<open>C26: The answer of \<open>getVoteAccounts\<close> for all vote accounts: no vote account appears twice; each entry is
  built from the newest open version of its account under the vote program at the reference slot, with the stake and the
  epoch membership of the cached stakes; it is in the second list exactly when its last vote is at least the distance,
  128 slots unless the request names one, behind. Without \<open>keepUnstakedDelinquents\<close> every delinquent entry has stake, and an account that reads as open and parses
  is left out only when it is delinquent, has no stake, and the unstaked are not kept.\<close>

theorem vote_accounts_exact:
  assumes "picks_newest pick"
    and "get_vote_accounts pick vc state slot_rows stakes db_ok (Some config) db = Inr (current, late)"
    and "vo_vote_pubkey config = None"
    and "resolve_or_finalized (vo_commitment config) (rs_processed_commitment state) = Inr commitment"
    and "slot = vote_reference_slot state slot_rows commitment" and "distance = (case vo_delinquent_slot_distance config of None \<Rightarrow> 128 | Some d \<Rightarrow> d)"
    and "keep \<longleftrightarrow> vo_keep_unstaked_delinquents config = Some True"
  shows "distinct (map vi_vote_pubkey (current @ late))
    \<and> (\<forall>info \<in> set current \<union> set late. \<exists>row vote. Some row \<in> get_program_account (to_bytes VOTE_PROGRAM_ID) (dr_pubkey row) (sint slot) db
         \<and> dr_pubkey row = to_bytes (vi_vote_pubkey info) \<and> vc_vote vc (dr_data row) (vi_vote_pubkey info) = Some vote
         \<and> info = vote_info_of stakes (vi_vote_pubkey info) vote \<and> entry_reads stakes vote info
         \<and> (info \<in> set late \<longleftrightarrow> distance \<le> saturating_sub slot (vi_last_vote info)))
    \<and> (\<forall>info \<in> set late. keep \<or> 0 < vi_activated_stake info)
    \<and> (\<forall>key. None \<notin> get_program_account (to_bytes VOTE_PROGRAM_ID) (to_bytes key) (sint slot) db \<longrightarrow>
         (\<exists>row. Some row \<in> get_program_account (to_bytes VOTE_PROGRAM_ID) (to_bytes key) (sint slot) db \<and> (\<forall>vote. vc_vote vc (dr_data row) key = Some vote \<longrightarrow>
            vote_info_of stakes key vote \<in> set current \<union> set late
            \<or> distance \<le> saturating_sub slot (vi_last_vote (vote_info_of stakes key vote)) \<and> \<not> keep
              \<and> vi_activated_stake (vote_info_of stakes key vote) = 0)))"
proof -
  have "distance = vote_distance config"
    using assms(6) by (simp add: vote_distance_def DEFAULT_DELINQUENT_SLOT_DISTANCE_def split: option.splits)
  then have "build_status vc (load_vote_account_rows pick None slot db) stakes slot distance keep = (current, late)"
    using assms(2-5,7) by (simp add: get_vote_accounts_def Let_def split: if_splits)
  note status = status_exact [OF assms(1) this]
  have reads: "entry_reads stakes vote info" if "info = vote_info_of stakes (vi_vote_pubkey info) vote" for info vote
    using entry_reads_info [of stakes vote "vi_vote_pubkey info"] that by simp
  show ?thesis using status reads by blast
qed

section \<open>The stakes served\<close>

text \<open>The effective stake delegated to a voter, over the open stake accounts.\<close>

definition delegated :: "vote_codec \<Rightarrow> u64 \<Rightarrow> db_row list \<Rightarrow> pubkey \<Rightarrow> u64" where
  "delegated vc epoch rows key = sum_list (map (\<lambda>row. case vc_stake vc epoch (dr_data row) of
     Some (voter, effective) \<Rightarrow> if voter = key then effective else 0 | None \<Rightarrow> 0) rows)"

definition has_stake :: "vote_codec \<Rightarrow> u64 \<Rightarrow> db_row list \<Rightarrow> pubkey \<Rightarrow> bool" where
  "has_stake vc epoch rows key \<longleftrightarrow> (\<exists>row \<in> set rows. \<exists>effective. vc_stake vc epoch (dr_data row) = Some (key, effective) \<and> 0 < effective)"

lemma fold_add_delegation:
  "fmlookup (fold (add_delegation vc epoch) rows m) key =
     (if has_stake vc epoch rows key then Some ((case fmlookup m key of None \<Rightarrow> 0 | Some s \<Rightarrow> s) + delegated vc epoch rows key)
      else fmlookup m key)"
proof (induction rows arbitrary: m)
  case (Cons row rows)
  have none: "\<not> has_stake vc epoch rows key \<Longrightarrow> delegated vc epoch rows key = 0"
  proof -
    assume no: "\<not> has_stake vc epoch rows key"
    have "(case vc_stake vc epoch (dr_data r) of Some (voter, effective) \<Rightarrow> if voter = key then effective else 0 | None \<Rightarrow> 0) = 0"
      if "r \<in> set rows" for r
      using no that by (auto simp: has_stake_def word_gt_0 split: option.split)
    then have "map (\<lambda>row. case vc_stake vc epoch (dr_data row) of Some (voter, effective) \<Rightarrow> if voter = key then effective else 0
        | None \<Rightarrow> 0) rows = map (\<lambda>_. 0) rows" by (intro map_cong) auto
    then show "delegated vc epoch rows key = 0" unfolding delegated_def by (simp only: sum_list_0)
  qed
  show ?case
  proof (cases "vc_stake vc epoch (dr_data row)")
    case None
    then have "add_delegation vc epoch row m = m" "has_stake vc epoch (row # rows) key = has_stake vc epoch rows key"
      "delegated vc epoch (row # rows) key = delegated vc epoch rows key"
      by (simp_all add: add_delegation_def has_stake_def delegated_def)
    with Cons [of m] show ?thesis by simp
  next
    case (Some p)
    obtain voter effective where p: "p = (voter, effective)" by (cases p)
    have has: "has_stake vc epoch (row # rows) key \<longleftrightarrow> voter = key \<and> 0 < effective \<or> has_stake vc epoch rows key"
      using Some p by (auto simp: has_stake_def)
    have del: "delegated vc epoch (row # rows) key = (if voter = key then effective else 0) + delegated vc epoch rows key"
      using Some p by (simp add: delegated_def)
    have step: "fmlookup (add_delegation vc epoch row m) key = (if voter = key \<and> 0 < effective
        then Some ((case fmlookup m key of None \<Rightarrow> 0 | Some s \<Rightarrow> s) + effective) else fmlookup m key)"
      by (simp add: add_delegation_def Some p)
    have "\<not> 0 < effective \<Longrightarrow> effective = 0" by (simp add: word_gt_0)
    then show ?thesis
      using Cons [of "add_delegation vc epoch row m"] none by (auto simp: has del step split: option.splits)
  qed
qed (simp add: has_stake_def)

lemma by_voter_lookup:
  "fmlookup (by_voter pick vc epoch db) key =
     (let rows = latest_rows pick STAKE_PROGRAM_ID (\<lambda>_. True) db
      in if has_stake vc epoch rows key then Some (delegated vc epoch rows key) else None)"
  by (simp add: by_voter_def fold_add_delegation Let_def)

section \<open>The table\<close>

lemma fold_upsert_lookup:
  "distinct (map vr_vote_pubkey voters) \<Longrightarrow> fmlookup (fold (upsert_voter epoch) voters table) (e, k) =
     (case find (\<lambda>row. to_bytes (vr_vote_pubkey row) = k) voters of
        Some row \<Rightarrow> if e = sint epoch then Some (to_bytes (vr_node_pubkey row), sint (vr_activated_stake row), vr_in_epoch_set row)
                    else fmlookup table (e, k)
      | None \<Rightarrow> fmlookup table (e, k))"
proof (induction voters arbitrary: table)
  case (Cons row voters)
  have "find (\<lambda>r. to_bytes (vr_vote_pubkey r) = to_bytes (vr_vote_pubkey row)) voters = None"
    using Cons.prems by (auto simp: find_None_iff to_bytes_inject) (metis imageI)
  with Cons show ?case by (auto simp: upsert_voter_def split: option.split)
qed simp

text \<open>A voter that the recompute of its epoch no longer finds keeps the row it has: the upsert writes the voters that have
  stake now and deletes only older epochs, so the stake of a voter who lost it all is served until the epoch is over.\<close>

theorem lost_stake_kept:
  assumes "fmlookup table (sint epoch, to_bytes key) = Some row" and "uint epoch < 2 ^ 63"
    and "\<not> has_stake vc epoch (latest_rows pick STAKE_PROGRAM_ID (\<lambda>_. True) db) key"
  shows "fmlookup (snd (recompute pick vc epoch db table)) (sint epoch, to_bytes key) = Some row"
proof -
  let ?voters = "recomputed_voters pick vc epoch db"
  have keys: "map vr_vote_pubkey ?voters = fm_keys (by_voter pick vc epoch db)"
    by (simp add: recomputed_voters_def comp_def case_prod_beta flip: map_fst_fm_entries)
  have "key \<notin> fmdom' (by_voter pick vc epoch db)"
    using assms(3) by (simp add: fmlookup_dom'_iff by_voter_lookup Let_def)
  then have "key \<notin> set (map vr_vote_pubkey ?voters)" unfolding keys by simp
  then have "find (\<lambda>row. to_bytes (vr_vote_pubkey row) = to_bytes key) ?voters = None"
    by (auto simp: find_None_iff to_bytes_inject)
  moreover have "distinct (map vr_vote_pubkey ?voters)" unfolding keys by simp
  ultimately have "fmlookup (fold (upsert_voter epoch) ?voters table) (sint epoch, to_bytes key) = Some row"
    using assms(1) by (simp add: fold_upsert_lookup)
  moreover have "sint (saturating_sub epoch 1) \<le> sint epoch" by (rule sint_mono [OF assms(2) saturating_sub_le])
  ultimately show ?thesis using assms(1) by (simp add: recompute_def persist_epoch_stakes_def Let_def not_less)
qed


lemma load_voters_lookup:
  assumes "\<forall>((e, k), v) \<in> set rows. length k = 32 \<and> length (fst v) = 32" and "distinct (map (snd \<circ> fst) rows)"
  shows "\<exists>voters'. load_voters rows voters = Some voters' \<and> (\<forall>key. fmlookup voters' key =
    (case map_of (map (\<lambda>r. (snd (fst r), snd r)) rows) (to_bytes key) of
       Some (node, stake, in_set) \<Rightarrow> Some \<lparr>ve_node_pubkey = the (try_from node), ve_activated_stake = word_of_int stake,
         ve_in_epoch_set = in_set\<rparr>
     | None \<Rightarrow> fmlookup voters key))"
  using assms
proof (induction rows arbitrary: voters)
  case (Cons row rows)
  obtain e k node stake in_set where row: "row = ((e, k), node, stake, in_set)" by (metis prod.collapse)
  have "length k = 32" "length node = 32" using Cons.prems(1) row by simp_all
  then obtain vote n where keys: "try_from k = Some vote" "try_from node = Some n" by (metis option.exhaust try_from_eq_None)
  then have k: "k = to_bytes vote" by (simp add: try_from_eq_Some)
  have none: "map_of (map (\<lambda>r. (snd (fst r), snd r)) rows) k = None"
    using Cons.prems(2) by (auto simp: map_of_eq_None_iff row image_iff case_prod_beta)
  have ih: "\<exists>voters'. load_voters rows voters0 = Some voters' \<and> (\<forall>key. fmlookup voters' key =
    (case map_of (map (\<lambda>r. (snd (fst r), snd r)) rows) (to_bytes key) of
       Some (node, stake, in_set) \<Rightarrow> Some \<lparr>ve_node_pubkey = the (try_from node), ve_activated_stake = word_of_int stake,
         ve_in_epoch_set = in_set\<rparr>
     | None \<Rightarrow> fmlookup voters0 key))" for voters0
    using Cons.prems by (intro Cons.IH) (auto simp: row)
  let ?voters = "fmupd vote \<lparr>ve_node_pubkey = n, ve_activated_stake = word_of_int stake, ve_in_epoch_set = in_set\<rparr> voters"
  obtain voters' where voters': "load_voters rows ?voters = Some voters'"
    and look: "\<And>key. fmlookup voters' key = (case map_of (map (\<lambda>r. (snd (fst r), snd r)) rows) (to_bytes key) of
       Some (node, stake, in_set) \<Rightarrow> Some \<lparr>ve_node_pubkey = the (try_from node), ve_activated_stake = word_of_int stake,
         ve_in_epoch_set = in_set\<rparr>
     | None \<Rightarrow> fmlookup ?voters key)"
    using ih [of ?voters] by blast
  have "load_voters (row # rows) voters = Some voters'" using voters' keys by (simp add: row)
  moreover have "fmlookup voters' key = (case map_of (map (\<lambda>r. (snd (fst r), snd r)) (row # rows)) (to_bytes key) of
       Some (node, stake, in_set) \<Rightarrow> Some \<lparr>ve_node_pubkey = the (try_from node), ve_activated_stake = word_of_int stake,
         ve_in_epoch_set = in_set\<rparr>
     | None \<Rightarrow> fmlookup voters key)" for key
    using look [of key] none keys by (auto simp: row k to_bytes_inject split: option.splits)
  ultimately show ?case by blast
qed simp

lemma map_of_epoch:
  "map_of (map (\<lambda>r. (snd (fst r), snd r)) (filter (\<lambda>((e, _), _). e = epoch) xs)) k = map_of xs (epoch, k)"
  by (induction xs) auto

lemma find_recomputed:
  "map_option vr_activated_stake (find (\<lambda>row. to_bytes (vr_vote_pubkey row) = to_bytes key) (recomputed_voters pick vc epoch db))
     = fmlookup (by_voter pick vc epoch db) key"
proof -
  have "map_option vr_activated_stake (find (\<lambda>row. to_bytes (vr_vote_pubkey row) = to_bytes key)
      (map (\<lambda>(k, s). \<lparr>vr_vote_pubkey = k, vr_node_pubkey = f k, vr_activated_stake = s, vr_in_epoch_set = True\<rparr>) xs)) = map_of xs key" for f xs
    by (induction xs) (auto simp: to_bytes_inject)
  then show ?thesis unfolding recomputed_voters_def by (simp add: map_of_fm_entries)
qed

text \<open>C27: The stakes served are the stakes delegated. After a recompute of an epoch the table had nothing of, the poll of an API
  that caches an older epoch installs exactly the voters with effective stake on the open stake accounts, each with the sum
  of what is delegated to it.\<close>

theorem stakes_served:
  assumes "\<And>e k. fmlookup table (e, k) \<noteq> None \<Longrightarrow> e < sint epoch" and "uint epoch < 2 ^ 63"
    and "by_voter pick vc epoch db \<noteq> fmempty" and "kn_epoch cached < epoch"
  shows "\<exists>snapshot. poll_stakes (load_latest_stakes (snd (recompute pick vc epoch db table))) cached = snapshot
    \<and> kn_epoch snapshot = epoch
    \<and> (\<forall>key. map_option ve_activated_stake (fmlookup (kn_voters snapshot) key) =
         (let rows = latest_rows pick STAKE_PROGRAM_ID (\<lambda>_. True) db
          in if has_stake vc epoch rows key then Some (delegated vc epoch rows key) else None))"
proof -
  let ?table = "snd (recompute pick vc epoch db table)"
  let ?voters = "recomputed_voters pick vc epoch db" and ?by = "by_voter pick vc epoch db"
  let ?mine = "filter (\<lambda>((e, _), _). e = sint epoch) (fm_entries ?table)"
  have keys: "map vr_vote_pubkey ?voters = fm_keys ?by"
    by (simp add: recomputed_voters_def comp_def case_prod_beta flip: map_fst_fm_entries)
  then have distinct: "distinct (map vr_vote_pubkey ?voters)" by simp
  have some_voter: "?voters \<noteq> []"
  proof
    assume "?voters = []"
    then have "fmdom' ?by = {}" using keys by (metis list.simps(8) set_empty set_fm_keys)
    then have "?by = fmempty" by (intro fmap_ext) (metis empty_iff fmempty_lookup fmlookup_dom'_iff not_Some_eq)
    with assms(3) show False by simp
  qed
  have kept: "\<not> sint epoch < sint (saturating_sub epoch 1)" using sint_mono [OF assms(2) saturating_sub_le] by (simp add: not_less)
  have fresh: "fmlookup table (sint epoch, k) = None" for k
    using assms(1) [of "sint epoch" k] by (cases "fmlookup table (sint epoch, k)") auto
  have mine: "fmlookup ?table (sint epoch, k) = map_option (\<lambda>row. (to_bytes (vr_node_pubkey row), sint (vr_activated_stake row), vr_in_epoch_set row))
      (find (\<lambda>row. to_bytes (vr_vote_pubkey row) = k) ?voters)" for k
    using fresh [of k] kept some_voter
    by (auto simp: recompute_def persist_epoch_stakes_def Let_def fold_upsert_lookup [OF distinct] split: option.split)
  have others: "fmlookup ?table (e, k) \<noteq> None \<Longrightarrow> e \<le> sint epoch" for e k
    using assms(1) [of e k] some_voter
    by (auto simp: recompute_def persist_epoch_stakes_def Let_def fold_upsert_lookup [OF distinct] split: option.splits if_splits)
  obtain v where v: "fmlookup ?table (sint epoch, to_bytes (vr_vote_pubkey (hd ?voters))) = Some v"
    using some_voter unfolding mine by (cases ?voters) auto
  then have "((sint epoch, to_bytes (vr_vote_pubkey (hd ?voters))), v) \<in> set (fm_entries ?table)" by simp
  then have member: "sint epoch \<in> set (map (fst \<circ> fst) (fm_entries ?table))"
    by (metis (no_types, lifting) comp_apply fst_conv image_eqI list.set_map)
  moreover have "e \<le> sint epoch" if "e \<in> set (map (fst \<circ> fst) (fm_entries ?table))" for e
  proof -
    from that obtain k v where "fmlookup ?table (e, k) = Some v" by auto
    then have "fmlookup ?table (e, k) \<noteq> None" by simp
    then show ?thesis by (rule others)
  qed
  ultimately have Max: "Max (set (map (fst \<circ> fst) (fm_entries ?table))) = sint epoch" by (intro Max_eqI) auto
  have "\<exists>voters'. load_voters ?mine fmempty = Some voters' \<and> (\<forall>key. fmlookup voters' key =
    (case map_of (map (\<lambda>r. (snd (fst r), snd r)) ?mine) (to_bytes key) of
       Some (node, stake, in_set) \<Rightarrow> Some \<lparr>ve_node_pubkey = the (try_from node), ve_activated_stake = word_of_int stake,
         ve_in_epoch_set = in_set\<rparr>
     | None \<Rightarrow> fmlookup fmempty key))"
  proof (rule load_voters_lookup)
    show "\<forall>((e, k), v) \<in> set ?mine. length k = 32 \<and> length (fst v) = 32"
      using mine by (auto simp: find_Some_iff)
    have "distinct (map fst ?mine)" by (simp add: distinct_map_filter)
    then show "distinct (map (snd \<circ> fst) ?mine)" by (auto simp: distinct_map inj_on_def)
  qed
  then obtain voters' where load: "load_voters ?mine fmempty = Some voters'"
    and look: "\<And>key. fmlookup voters' key = (case fmlookup ?table (sint epoch, to_bytes key) of
       Some (node, stake, in_set) \<Rightarrow> Some \<lparr>ve_node_pubkey = the (try_from node), ve_activated_stake = word_of_int stake,
         ve_in_epoch_set = in_set\<rparr>
     | None \<Rightarrow> None)"
    unfolding map_of_epoch map_of_fm_entries fmempty_lookup by blast
  have "fm_entries ?table \<noteq> []" using member by auto
  then have loaded: "load_latest_stakes ?table = Stakes \<lparr>kn_epoch = epoch, kn_voters = voters'\<rparr>"
    unfolding load_latest_stakes_def Let_def Max load by simp
  have "map_option ve_activated_stake (fmlookup voters' key) = fmlookup ?by key" for key
    unfolding find_recomputed [symmetric] look mine by (auto split: option.split)
  with loaded assms(4) show ?thesis by (simp add: poll_stakes_def by_voter_lookup)
qed


section \<open>Polling\<close>

text \<open>The cache never goes back to an older epoch, and after a poll of a table that is not behind it holds the table's epoch
  with the table's total.\<close>

lemma poll_keeps_up:
  assumes "answer = Stakes snapshot" and "kn_epoch current \<le> kn_epoch snapshot"
  shows "kn_epoch (poll_stakes answer current) = kn_epoch snapshot \<and> total_stake (poll_stakes answer current) = total_stake snapshot"
  using assms by (auto simp: poll_stakes_def)

text \<open>The poll compares totals only. Within an epoch a change that keeps the total, such as stake moved from one voter to
  another or a validator with a new identity, is not taken over; the cache keeps serving what it loaded first.\<close>

lemma poll_misses_redistribution:
  assumes "kn_epoch snapshot = kn_epoch current" and "total_stake snapshot = total_stake current"
  shows "poll_stakes (Stakes snapshot) current = current"
  using assms by (simp add: poll_stakes_def)

section \<open>Convergence\<close>

text \<open>\<open>refining\<close> counts the recomputes of a phase that has not converged; a phase starts with an epoch or with a heartbeat whose
  total moved.\<close>

definition recomputer_ok :: "recomputer \<Rightarrow> bool" where
  "recomputer_ok rp \<longleftrightarrow> (\<not> rp_converged rp \<longrightarrow> rp_recomputes rp < MAX_RECOMPUTES_PER_EPOCH)
     \<and> (rp_converged rp \<longrightarrow> rp_last_recompute rp \<noteq> None)
     \<and> (0 < rp_recomputes rp \<longrightarrow> rp_working_epoch rp \<noteq> None)"

interpretation recompute_run: state_machine new_recomputer recomputer_turn recomputer_ok
proof
  show "recomputer_ok new_recomputer" by (simp add: recomputer_ok_def new_recomputer_def MAX_RECOMPUTES_PER_EPOCH_def)
  show "recomputer_ok rp \<Longrightarrow> recomputer_ok (recomputer_turn p rp)" for rp p
    by (auto simp: recomputer_turn_def enter_epoch_def note_total_def recomputer_ok_def new_recomputer_def Let_def
        MAX_RECOMPUTES_PER_EPOCH_def STABLE_POLLS_REQUIRED_def split: option.split)
qed

text \<open>The fast phase of an epoch is bounded: in every run, whatever health, the finalized slot, the totals and the sysvar
  say, a recomputer that has not converged has done fewer than 30 recomputes since its phase began, so the thirtieth ends it.\<close>

theorem fast_phase_bounded:
  "recomputer_ok (fold recomputer_turn polls new_recomputer)"
  by (rule recompute_run.invar_run)

definition steady_poll :: "u64 \<Rightarrow> int \<Rightarrow> recomputer_poll \<Rightarrow> bool" where
  "steady_poll epoch amount p \<longleftrightarrow> po_healthy p \<and> (\<exists>s. po_finalized_slot p = Some s \<and> s div SLOTS_PER_EPOCH = epoch)
     \<and> po_total p = Some amount \<and> po_rewards p \<noteq> Some True"

definition settled :: "u64 \<Rightarrow> int \<Rightarrow> nat \<Rightarrow> recomputer \<Rightarrow> bool" where
  "settled epoch amount n rp \<longleftrightarrow> rp_working_epoch rp = Some epoch \<and> rp_prev_total rp = Some amount \<and> (rp_converged rp \<or> n \<le> rp_stable_polls rp)"

lemma steady_turn:
  assumes "steady_poll epoch amount p" and "settled epoch amount n rp"
    and "po_rewards p = None \<or> rp_seen_distributing rp"
  shows "settled epoch amount (Suc n) (recomputer_turn p rp)
    \<and> (STABLE_POLLS_REQUIRED \<le> Suc n \<longrightarrow> rp_converged (recomputer_turn p rp))
    \<and> (rp_seen_distributing rp \<longrightarrow> rp_seen_distributing (recomputer_turn p rp))"
proof -
  have same: "enter_epoch epoch rp = rp" using assms(2) by (simp add: settled_def enter_epoch_def)
  then have turn: "recomputer_turn p rp = (if heartbeat_due (po_now p) rp then note_total (po_now p) amount (po_rewards p) rp else rp)"
    using assms(1) by (auto simp: recomputer_turn_def steady_poll_def)
  have prev: "rp_prev_total rp = Some amount" "rp_working_epoch rp = Some epoch" "rp_converged rp \<or> n \<le> rp_stable_polls rp"
    using assms(2) by (simp_all add: settled_def)
  show ?thesis
  proof (cases "heartbeat_due (po_now p) rp")
    case False
    then have "rp_converged rp" by (simp add: heartbeat_due_def)
    with False prev show ?thesis by (simp add: turn settled_def)
  next
    case due: True
    have rewards: "po_rewards p = None \<or> po_rewards p = Some False \<and> rp_seen_distributing rp"
      using assms(1,3) by (auto simp: steady_poll_def)
    show ?thesis
    proof (cases "rp_converged rp")
      case True
      with due prev show ?thesis by (simp add: turn settled_def note_total_def Let_def)
    next
      case False
      with due prev rewards show ?thesis by (auto simp: turn settled_def note_total_def Let_def)
    qed
  qed
qed

lemma first_steady_turn:
  assumes "steady_poll epoch amount p" and "rp_working_epoch rp = Some epoch" and "\<not> rp_converged rp"
    and "po_rewards p = None \<or> rp_seen_distributing rp"
  shows "settled epoch amount 0 (recomputer_turn p rp) \<and> (rp_seen_distributing rp \<longrightarrow> rp_seen_distributing (recomputer_turn p rp))"
proof -
  have "enter_epoch epoch rp = rp" using assms(2) by (simp add: enter_epoch_def)
  then have "recomputer_turn p rp = note_total (po_now p) amount (po_rewards p) rp"
    using assms(1,3) by (auto simp: recomputer_turn_def steady_poll_def heartbeat_due_def)
  then show ?thesis using assms(2,3) by (auto simp: settled_def note_total_def Let_def)
qed

text \<open>A steady epoch converges in four turns: once the total no longer moves and the distribution of rewards is seen to be over,
  or the sysvar is not indexed at all, four healthy turns in the epoch end the fast phase.\<close>

theorem steady_epoch_converges:
  assumes "rp_working_epoch rp = Some epoch" and "\<not> rp_converged rp"
    and "\<forall>p \<in> {p1, p2, p3, p4}. steady_poll epoch amount p \<and> (po_rewards p = None \<or> rp_seen_distributing rp)"
  shows "rp_converged (fold recomputer_turn [p1, p2, p3, p4] rp)"
proof -
  let ?r1 = "recomputer_turn p1 rp" and ?r2 = "recomputer_turn p2 (recomputer_turn p1 rp)"
    and ?r3 = "recomputer_turn p3 (recomputer_turn p2 (recomputer_turn p1 rp))"
  have 1: "settled epoch amount 0 ?r1" "rp_seen_distributing rp \<longrightarrow> rp_seen_distributing ?r1"
    using first_steady_turn [OF _ assms(1,2), of amount p1] assms(3) by auto
  have 2: "settled epoch amount (Suc 0) ?r2" "rp_seen_distributing rp \<longrightarrow> rp_seen_distributing ?r2"
    using steady_turn [OF _ 1(1), of p2] 1(2) assms(3) by auto
  have 3: "settled epoch amount (Suc (Suc 0)) ?r3" "rp_seen_distributing rp \<longrightarrow> rp_seen_distributing ?r3"
    using steady_turn [OF _ 2(1), of p3] 2(2) assms(3) by auto
  have "rp_converged (recomputer_turn p4 ?r3)"
    using steady_turn [OF _ 3(1), of p4] 3(2) assms(3) by (auto simp: STABLE_POLLS_REQUIRED_def)
  then show ?thesis by simp
qed

text \<open>A recomputer started after the rewards of the epoch were distributed never sees them distributed: however steady the total
  is, it refines up to the bound.\<close>

lemma late_start_refines:
  assumes "rp_working_epoch rp = Some epoch" and "\<not> rp_converged rp" and "\<not> rp_seen_distributing rp"
    and "steady_poll epoch amount p" and "po_rewards p = Some False" and "Suc (rp_recomputes rp) < MAX_RECOMPUTES_PER_EPOCH"
  shows "\<not> rp_converged (recomputer_turn p rp) \<and> \<not> rp_seen_distributing (recomputer_turn p rp)
    \<and> rp_working_epoch (recomputer_turn p rp) = Some epoch \<and> rp_recomputes (recomputer_turn p rp) = Suc (rp_recomputes rp)"
proof -
  have "enter_epoch epoch rp = rp" using assms(1) by (simp add: enter_epoch_def)
  then have "recomputer_turn p rp = note_total (po_now p) amount (po_rewards p) rp"
    using assms(2,4) by (auto simp: recomputer_turn_def steady_poll_def heartbeat_due_def)
  then show ?thesis using assms by (auto simp: note_total_def Let_def)
qed


section \<open>Witnesses\<close>

definition sample_votes :: vote_codec where
  "sample_votes = \<lparr>vc_vote = (\<lambda>data key. Some \<lparr>vs_node_pubkey = pk 4, vs_votes = [9], vs_root_slot = None, vs_commission_bps = 500,
       vs_epoch_credits = []\<rparr>),
     vc_stake = (\<lambda>epoch data. Some (pk 3, 7))\<rparr>"

definition sample_accounts :: db_tables where
  "sample_accounts = \<lparr>tb_accounts = [wit_account_row (to_bytes (pk 3)) VOTE_PROGRAM_ID [1]],
     tb_snapshot_accounts = [wit_account_row (to_bytes (pk 8)) STAKE_PROGRAM_ID [2]]\<rparr>"

definition sample_stakes :: stakes_snapshot where
  "sample_stakes = \<lparr>kn_epoch = 4, kn_voters = fmupd (pk 3) \<lparr>ve_node_pubkey = pk 4, ve_activated_stake = 5, ve_in_epoch_set = True\<rparr> fmempty\<rparr>"

definition sample_slots :: slot_syncronizer_data where
  "sample_slots = default_slots\<lparr>ss_finalized_slot := \<lparr>sd_slot = 10, sd_block_time = 0\<rparr>\<rparr>"

lemma program_ids_differ: "to_bytes VOTE_PROGRAM_ID \<noteq> to_bytes STAKE_PROGRAM_ID"
  by (simp add: VOTE_PROGRAM_ID_def STAKE_PROGRAM_ID_def Abs_pubkey_inverse)

lemma sample_stake_rows: "latest_rows wit_pick STAKE_PROGRAM_ID (\<lambda>_. True) sample_accounts = [wit_account_row (to_bytes (pk 8)) STAKE_PROGRAM_ID [2]]"
  using program_ids_differ
  by (simp add: latest_rows_def distinct_on_pubkey_def row_keys_def sample_accounts_def wit_account_row_def wit_single)

lemma sample_vote_rows: "latest_rows wit_pick VOTE_PROGRAM_ID (\<lambda>r. dr_slot r \<le> 10) sample_accounts = [wit_account_row (to_bytes (pk 3)) VOTE_PROGRAM_ID [1]]"
  using program_ids_differ
  by (simp add: latest_rows_def distinct_on_pubkey_def row_keys_def sample_accounts_def wit_account_row_def wit_single)

lemma vote_accounts_exact_witness:
  "\<exists>info. get_vote_accounts wit_pick sample_votes (wit_state\<lparr>rs_slots := Some sample_slots\<rparr>) [] sample_stakes True
       (Some default_vote_config) sample_accounts = Inr ([info], []) \<and> vi_vote_pubkey info = pk 3
     \<and> (\<exists>row vote. Some row \<in> get_program_account (to_bytes VOTE_PROGRAM_ID) (dr_pubkey row) 10 sample_accounts
          \<and> dr_pubkey row = to_bytes (pk 3) \<and> info = vote_info_of sample_stakes (pk 3) vote)"
proof -
  let ?state = "wit_state\<lparr>rs_slots := Some sample_slots\<rparr>"
  let ?rows = "load_vote_account_rows wit_pick None 10 sample_accounts"
  have rows: "?rows = [(pk 3, [1])]"
    using sample_vote_rows by (simp add: load_vote_account_rows_def List.map_filter_simps wit_account_row_def)
  have far: "\<not> 128 \<le> (1 :: u64)" by (simp add: word_le_nat_alt)
  obtain info where status: "build_status sample_votes ?rows sample_stakes 10 128 False = ([info], [])" "vi_vote_pubkey info = pk 3"
    using far by (simp add: rows sample_votes_def vote_info_of_def sample_stakes_def saturating_sub_def Let_def)
  have level: "resolve_or_finalized (vo_commitment default_vote_config) (rs_processed_commitment ?state) = Inr Level_Finalized"
    by (simp add: default_vote_config_def resolve_or_finalized_def)
  have slot: "10 = vote_reference_slot ?state [] Level_Finalized"
    by (simp add: vote_reference_slot_def sample_slots_def get_slot_for_commitment_def)
  have distance: "128 = (case vo_delinquent_slot_distance default_vote_config of None \<Rightarrow> 128 | Some d \<Rightarrow> d)"
    by (simp add: default_vote_config_def)
  have all: "vo_vote_pubkey default_vote_config = None" and keep: "False \<longleftrightarrow> vo_keep_unstaked_delinquents default_vote_config = Some True"
    by (simp_all add: default_vote_config_def)
  have "kn_voters sample_stakes \<noteq> fmempty" by (simp add: sample_stakes_def)
  then have run: "get_vote_accounts wit_pick sample_votes ?state [] sample_stakes True (Some default_vote_config) sample_accounts = Inr ([info], [])"
    using status level all keep by (simp add: get_vote_accounts_def slot [symmetric] vote_distance_def default_vote_config_def
        DEFAULT_DELINQUENT_SLOT_DISTANCE_def)
  from vote_accounts_exact [OF wit_pick_newest run all level slot distance keep] run status show ?thesis by fastforce
qed

lemma stakes_served_witness:
  "\<exists>snapshot. poll_stakes (load_latest_stakes (snd (recompute wit_pick sample_votes 5 sample_accounts fmempty))) sample_stakes = snapshot
    \<and> kn_epoch snapshot = 5 \<and> map_option ve_activated_stake (fmlookup (kn_voters snapshot) (pk 3)) = Some 7"
proof -
  have stake: "has_stake sample_votes 5 (latest_rows wit_pick STAKE_PROGRAM_ID (\<lambda>_. True) sample_accounts) (pk 3)"
    "delegated sample_votes 5 (latest_rows wit_pick STAKE_PROGRAM_ID (\<lambda>_. True) sample_accounts) (pk 3) = 7"
    by (simp_all add: sample_stake_rows has_stake_def delegated_def sample_votes_def)
  then have "by_voter wit_pick sample_votes 5 sample_accounts \<noteq> fmempty"
    using by_voter_lookup [of wit_pick sample_votes 5 sample_accounts "pk 3"] by (auto simp: Let_def)
  then obtain snapshot where
    "poll_stakes (load_latest_stakes (snd (recompute wit_pick sample_votes 5 sample_accounts fmempty))) sample_stakes = snapshot"
    "kn_epoch snapshot = 5"
    and voters: "\<And>key. map_option ve_activated_stake (fmlookup (kn_voters snapshot) key) =
         (let rows = latest_rows wit_pick STAKE_PROGRAM_ID (\<lambda>_. True) sample_accounts
          in if has_stake sample_votes 5 rows key then Some (delegated sample_votes 5 rows key) else None)"
    using stakes_served [of fmempty 5 wit_pick sample_votes sample_accounts sample_stakes]
    by (auto simp: sample_stakes_def)
  moreover have "map_option ve_activated_stake (fmlookup (kn_voters snapshot) (pk 3)) = Some 7"
    unfolding voters Let_def using stake by simp
  ultimately show ?thesis by blast
qed

lemma lost_stake_kept_witness:
  "fmlookup (snd (recompute wit_pick sample_votes 5 sample_accounts (fmupd (5, to_bytes (pk 6)) (to_bytes (pk 4), 9, True) fmempty)))
     (5, to_bytes (pk 6)) = Some (to_bytes (pk 4), 9, True)"
proof -
  have "pk 3 \<noteq> pk 6" by simp
  then show ?thesis
    using lost_stake_kept [of "fmupd (5, to_bytes (pk 6)) (to_bytes (pk 4), 9, True) fmempty" 5 "pk 6" "(to_bytes (pk 4), 9, True)"
        sample_votes wit_pick sample_accounts]
    by (simp add: sample_stake_rows has_stake_def sample_votes_def)
qed

definition sample_poll :: recomputer_poll where
  "sample_poll = \<lparr>po_healthy = True, po_finalized_slot = Some 432001, po_now = 60, po_total = Some 9, po_rewards = None\<rparr>"

lemma steady_epoch_converges_witness:
  "rp_converged (fold recomputer_turn [sample_poll, sample_poll, sample_poll, sample_poll] (new_recomputer\<lparr>rp_working_epoch := Some 1\<rparr>))"
  by (rule steady_epoch_converges [where epoch = 1 and amount = 9])
    (simp_all add: new_recomputer_def sample_poll_def steady_poll_def SLOTS_PER_EPOCH_def)

lemma vote_filter_agrees_witness:
  "get_vote_accounts wit_pick sample_votes wit_state [] sample_stakes True (Some (default_vote_config\<lparr>vo_vote_pubkey := Some (Inr (pk 3))\<rparr>)) sample_accounts =
    rbind (get_vote_accounts wit_pick sample_votes wit_state [] sample_stakes True (Some default_vote_config) sample_accounts)
      (\<lambda>(current, late). Inr (filter (\<lambda>info. vi_vote_pubkey info = pk 3) current, filter (\<lambda>info. vi_vote_pubkey info = pk 3) late))"
  using vote_filter_agrees [OF wit_pick_newest, of "default_vote_config\<lparr>vo_vote_pubkey := Some (Inr (pk 3))\<rparr>" "pk 3"]
  by (simp add: default_vote_config_def)

end
