(* ===== verification/Bandwidth.thy ===== *)
theory Bandwidth
  imports Prelude "HOL-Library.Char_ord"
begin

text \<open>
  The egress of each client of the API: \<open>crates/api/src/modules/bandwidth.rs\<close>. An entry of the map is never removed, so a
  handle is the key of its entry. The sampler closes the open second of every client, publishes the peak of the last
  sixty closed seconds and records the active ones; the collectors are the values published and recorded.
\<close>

definition WINDOW_SECS :: nat where "WINDOW_SECS = 60"
definition MAX_CLIENT_IPS :: nat where "MAX_CLIENT_IPS = 100"
definition OTHER_LABEL :: string where "OTHER_LABEL = ''overflowed-ips''"

record peak_window =
  pw_slots :: "u64 list"
  pw_idx :: nat

definition new_window :: peak_window where
  "new_window = \<lparr>pw_slots = replicate WINDOW_SECS 0, pw_idx = 0\<rparr>"

definition push_and_max :: "u64 \<Rightarrow> peak_window \<Rightarrow> peak_window \<times> u64" where
  "push_and_max closed w =
     (let slots = (pw_slots w)[pw_idx w := closed]
      in (\<lparr>pw_slots = slots, pw_idx = (pw_idx w + 1) mod WINDOW_SECS\<rparr>, if slots = [] then 0 else Max (set slots)))"

record client_bw =
  cb_current :: u64
  cb_window :: peak_window

definition new_client_bw :: client_bw where
  "new_client_bw = \<lparr>cb_current = 0, cb_window = new_window\<rparr>"

record bandwidth =
  bw_enabled :: bool
  bw_clients :: "(string, client_bw) fmap"
  bw_peaks :: "(string, u64) fmap"
  bw_observed :: "(string \<times> u64) list"

definition register :: "bool \<Rightarrow> bandwidth" where
  "register enabled = \<lparr>bw_enabled = enabled, bw_clients = fmempty, bw_peaks = fmempty, bw_observed = []\<rparr>"

definition handle_for :: "string \<Rightarrow> bandwidth \<Rightarrow> string option \<times> bandwidth" where
  "handle_for client_ip bw =
     (if \<not> bw_enabled bw then (None, bw)
      else if fmlookup (bw_clients bw) client_ip \<noteq> None then (Some client_ip, bw)
      else let key = (if fcard (fmdom (bw_clients bw)) < MAX_CLIENT_IPS then client_ip else OTHER_LABEL)
           in (Some key, case fmlookup (bw_clients bw) key of
                Some _ \<Rightarrow> bw
              | None \<Rightarrow> bw\<lparr>bw_clients := fmupd key new_client_bw (bw_clients bw)\<rparr>))"

definition add_bytes :: "string \<Rightarrow> u64 \<Rightarrow> bandwidth \<Rightarrow> bandwidth" where
  "add_bytes handle bytes bw =
     (if bytes = 0 then bw
      else case fmlookup (bw_clients bw) handle of
        None \<Rightarrow> bw
      | Some client \<Rightarrow> bw\<lparr>bw_clients := fmupd handle (client\<lparr>cb_current := cb_current client + bytes\<rparr>) (bw_clients bw)\<rparr>)"

text \<open>The turn of the sampler for one client, and for all of them.\<close>

definition sample_client :: "string \<Rightarrow> bandwidth \<Rightarrow> bandwidth" where
  "sample_client ip bw = (case fmlookup (bw_clients bw) ip of
     None \<Rightarrow> bw
   | Some client \<Rightarrow>
       let closed = cb_current client; (window, peak) = push_and_max closed (cb_window client)
       in bw\<lparr>bw_clients := fmupd ip \<lparr>cb_current = 0, cb_window = window\<rparr> (bw_clients bw),
             bw_peaks := fmupd ip peak (bw_peaks bw),
             bw_observed := (if 0 < closed then bw_observed bw @ [(ip, closed)] else bw_observed bw)\<rparr>)"

definition sample_once :: "bandwidth \<Rightarrow> bandwidth" where
  "sample_once bw = fold sample_client (fm_keys (bw_clients bw)) bw"

text \<open>A request adds the frames of its response; the sampler runs between any two of them.\<close>

datatype bandwidth_event = Opened string | Frame string u64 | Sampled

fun bandwidth_step :: "bandwidth_event \<Rightarrow> bandwidth \<Rightarrow> bandwidth" where
  "bandwidth_step (Opened ip) bw = snd (handle_for ip bw)"
| "bandwidth_step (Frame handle bytes) bw = add_bytes handle bytes bw"
| "bandwidth_step Sampled bw = sample_once bw"

section \<open>The peak\<close>

text \<open>The ring after a list of closed seconds.\<close>

lemma WINDOW_pos [simp]: "0 < WINDOW_SECS" "WINDOW_SECS \<noteq> 0"
  by (simp_all add: WINDOW_SECS_def)

definition window_after :: "u64 list \<Rightarrow> peak_window" where
  "window_after closed = fold (\<lambda>c w. fst (push_and_max c w)) closed new_window"

lemma window_after_snoc: "window_after (closed @ [c]) = fst (push_and_max c (window_after closed))"
  by (simp add: window_after_def)

lemma window_after_idx: "pw_idx (window_after closed) = length closed mod WINDOW_SECS"
  by (induction closed rule: rev_induct) (auto simp: window_after_snoc push_and_max_def Let_def mod_Suc_eq, simp add: window_after_def new_window_def)

lemma window_after_length: "length (pw_slots (window_after closed)) = WINDOW_SECS"
  by (induction closed rule: rev_induct) (auto simp: window_after_snoc push_and_max_def Let_def, simp add: window_after_def new_window_def)

text \<open>Read from its index on, the ring is the last sixty of the closed seconds after sixty idle ones.\<close>

definition last_minute :: "u64 list \<Rightarrow> u64 list" where
  "last_minute closed = drop (length closed) (replicate WINDOW_SECS 0 @ closed)"

lemma last_minute_snoc: "last_minute (closed @ [c]) = tl (last_minute closed) @ [c]"
proof -
  have "tl (last_minute closed) = drop (Suc (length closed)) (replicate WINDOW_SECS 0 @ closed)"
    unfolding last_minute_def by (simp only: drop_Suc tl_drop)
  moreover have "Suc (length closed) \<le> length (replicate WINDOW_SECS (0 :: u64) @ closed)" by (simp add: WINDOW_SECS_def)
  ultimately show ?thesis unfolding last_minute_def length_append append_assoc [symmetric]
    by (simp only: drop_append list.size length_append) simp
qed

lemma length_last_minute: "length (last_minute closed) = WINDOW_SECS"
  by (simp only: last_minute_def length_drop length_append length_replicate add_diff_cancel_right')

lemma ring_push:
  assumes "length slots = n" and "idx < n" and "drop idx slots @ take idx slots = x # rest"
  shows "drop ((idx + 1) mod n) (slots[idx := c]) @ take ((idx + 1) mod n) (slots[idx := c]) = rest @ [c]"
proof -
  have split: "slots[idx := c] = take idx slots @ c # drop (Suc idx) slots"
    using assms by (simp add: upd_conv_take_nth_drop)
  have rest: "rest = drop (Suc idx) slots @ take idx slots"
    using assms by (metis append_Cons Cons_nth_drop_Suc list.inject)
  show ?thesis
  proof (cases "idx + 1 = n")
    case True
    then have "drop (Suc idx) slots = []" using assms(1) by simp
    then show ?thesis using True by (simp add: split rest)
  next
    case False
    then have "(idx + 1) mod n = Suc idx" using assms(2) by simp
    moreover have "length (take idx slots) = idx" using assms by simp
    ultimately show ?thesis by (simp add: split rest)
  qed
qed

lemma window_after_ring:
  "drop (pw_idx (window_after closed)) (pw_slots (window_after closed)) @ take (pw_idx (window_after closed)) (pw_slots (window_after closed))
     = last_minute closed"
proof (induction closed rule: rev_induct)
  case Nil
  show ?case by (simp add: window_after_def new_window_def last_minute_def)
next
  case (snoc c closed)
  have "last_minute closed \<noteq> []" using length_last_minute [of closed] WINDOW_pos by (metis list.size(3))
  then obtain x rest where "last_minute closed = x # rest" by (cases "last_minute closed") auto
  with snoc ring_push [OF window_after_length [of closed], of "pw_idx (window_after closed)" x rest c]
  show ?case by (simp add: window_after_snoc push_and_max_def Let_def last_minute_snoc window_after_idx)
qed

text \<open>The peak published for a client is the largest of its last sixty closed seconds, with idle seconds before its first:
  a spike is held for a minute and no longer.\<close>

theorem peak_of_last_minute:
  "snd (push_and_max c (window_after closed)) = Max (set (last_minute (closed @ [c])))"
proof -
  let ?w = "window_after (closed @ [c])"
  have "pw_slots ?w \<noteq> []" using window_after_length [of "closed @ [c]"] by force
  then have "snd (push_and_max c (window_after closed)) = Max (set (pw_slots ?w))"
    by (simp add: window_after_snoc push_and_max_def Let_def)
  also have "set (pw_slots ?w) = set (drop (pw_idx ?w) (pw_slots ?w) @ take (pw_idx ?w) (pw_slots ?w))"
    by (subst append_take_drop_id [of "pw_idx ?w", symmetric]) (simp only: set_append Un_commute)
  finally show ?thesis unfolding window_after_ring .
qed

section \<open>Runs\<close>

text \<open>The series are bounded, and each has a window of a minute.\<close>

definition bandwidth_ok :: "bandwidth \<Rightarrow> bool" where
  "bandwidth_ok bw \<longleftrightarrow> card (fmdom' (bw_clients bw) - {OTHER_LABEL}) \<le> MAX_CLIENT_IPS
     \<and> fmdom' (bw_peaks bw) \<subseteq> fmdom' (bw_clients bw) \<and> fst ` set (bw_observed bw) \<subseteq> fmdom' (bw_clients bw)
     \<and> (\<not> bw_enabled bw \<longrightarrow> fmdom' (bw_clients bw) = {})"

lemma bandwidth_okI:
  assumes "bandwidth_ok bw" and "fmdom' (bw_clients bw') = fmdom' (bw_clients bw)" and "bw_enabled bw' = bw_enabled bw"
    and "fmdom' (bw_peaks bw') \<subseteq> fmdom' (bw_clients bw)" and "fst ` set (bw_observed bw') \<subseteq> fmdom' (bw_clients bw)"
  shows "bandwidth_ok bw'"
  using assms unfolding bandwidth_ok_def by simp

lemma fmdom'_fmupd [simp]: "fmdom' (fmupd k v m) = insert k (fmdom' m)"
  by (auto simp: fmlookup_dom'_iff)

lemma sample_client_ok:
  assumes "bandwidth_ok bw"
  shows "bandwidth_ok (sample_client ip bw)"
proof (rule bandwidth_okI [OF assms])
  have "fmdom' (bw_peaks bw) \<subseteq> fmdom' (bw_clients bw)" "fst ` set (bw_observed bw) \<subseteq> fmdom' (bw_clients bw)"
    using assms by (simp_all add: bandwidth_ok_def)
  moreover have "fmlookup (bw_clients bw) ip = Some c \<Longrightarrow> ip \<in> fmdom' (bw_clients bw)" for c by (simp add: fmlookup_dom'_iff)
  ultimately show "fmdom' (bw_clients (sample_client ip bw)) = fmdom' (bw_clients bw)"
    "fmdom' (bw_peaks (sample_client ip bw)) \<subseteq> fmdom' (bw_clients bw)"
    "fst ` set (bw_observed (sample_client ip bw)) \<subseteq> fmdom' (bw_clients bw)"
    by (auto simp: sample_client_def Let_def split: option.split prod.split)
  show "bw_enabled (sample_client ip bw) = bw_enabled bw"
    by (simp add: sample_client_def Let_def split: option.split prod.split)
qed

lemma handle_for_ok:
  assumes "bandwidth_ok bw"
  shows "bandwidth_ok (snd (handle_for ip bw))"
proof -
  let ?dom = "fmdom' (bw_clients bw)"
  have finite: "finite ?dom" by simp
  have small: "card (insert ip ?dom - {OTHER_LABEL}) \<le> MAX_CLIENT_IPS" if "card ?dom < MAX_CLIENT_IPS"
  proof -
    have "card (insert ip ?dom - {OTHER_LABEL}) \<le> card (insert ip ?dom)" using finite by (intro card_mono) auto
    also have "\<dots> \<le> Suc (card ?dom)" by (rule card_insert_le_m1) auto
    finally show ?thesis using that by simp
  qed
  have "fcard (fmdom (bw_clients bw)) = card ?dom" by (simp add: fcard_def fmdom'_alt_def)
  moreover have "insert OTHER_LABEL ?dom - {OTHER_LABEL} = ?dom - {OTHER_LABEL}" by auto
  ultimately show ?thesis
    using assms small by (auto simp: bandwidth_ok_def handle_for_def Let_def split: option.split)
qed

lemma sample_once_ok: "bandwidth_ok bw \<Longrightarrow> bandwidth_ok (sample_once bw)"
proof -
  assume "bandwidth_ok bw"
  then have "bandwidth_ok (fold sample_client ips bw)" for ips
    by (induction ips arbitrary: bw) (auto simp: sample_client_ok)
  then show ?thesis by (simp add: sample_once_def)
qed

lemma add_bytes_ok:
  assumes "bandwidth_ok bw"
  shows "bandwidth_ok (add_bytes handle bytes bw)"
  using assms by (intro bandwidth_okI [OF assms]) (auto simp: add_bytes_def bandwidth_ok_def fmlookup_dom'_iff split: option.split)

interpretation bandwidth_run: state_machine "register enabled" bandwidth_step bandwidth_ok for enabled
proof
  show "bandwidth_ok (register enabled)" by (simp add: bandwidth_ok_def register_def)
  show "bandwidth_ok bw \<Longrightarrow> bandwidth_ok (bandwidth_step e bw)" for e bw
    by (cases e) (simp_all add: handle_for_ok add_bytes_ok sample_once_ok)
qed

text \<open>The series published are bounded: whatever addresses the clients of a run claim, at most a hundred and one labels ever
  have a peak or an observation, the overflow label being the only one beyond the hundred; and none when the module is off.\<close>

theorem series_bounded:
  "card (fmdom' (bw_peaks (fold bandwidth_step events (register enabled))) \<union>
      fst ` set (bw_observed (fold bandwidth_step events (register enabled)))) \<le> (if enabled then MAX_CLIENT_IPS + 1 else 0)"
proof -
  let ?bw = "fold bandwidth_step events (register enabled)"
  have ok: "bandwidth_ok ?bw" by (rule bandwidth_run.invar_run)
  have "bw_enabled (bandwidth_step e bw) = bw_enabled bw" for e bw
  proof -
    have "bw_enabled (fold sample_client ips bw) = bw_enabled bw" for ips
      by (induction ips arbitrary: bw) (auto simp: sample_client_def Let_def split: option.split prod.split)
    then show ?thesis by (cases e) (auto simp: handle_for_def add_bytes_def sample_once_def Let_def split: option.split)
  qed
  then have "bw_enabled (fold bandwidth_step es bw) = bw_enabled bw" for es bw
    by (induction es arbitrary: bw) auto
  then have on: "bw_enabled ?bw = enabled" by (simp add: register_def)
  have "card (fmdom' (bw_clients ?bw)) \<le> card (fmdom' (bw_clients ?bw) - {OTHER_LABEL}) + 1"
    by (metis One_nat_def card_Diff_singleton_if diff_le_self finite_fmdom' le_add1 le_diff_conv Suc_eq_plus1 order_refl)
  then have "card (fmdom' (bw_clients ?bw)) \<le> (if enabled then MAX_CLIENT_IPS + 1 else 0)"
    using ok on by (auto simp: bandwidth_ok_def)
  moreover have "card (fmdom' (bw_peaks ?bw) \<union> fst ` set (bw_observed ?bw)) \<le> card (fmdom' (bw_clients ?bw))"
    using ok by (intro card_mono) (auto simp: bandwidth_ok_def)
  ultimately show ?thesis by linarith
qed

section \<open>Conservation\<close>

text \<open>What a client has sent: the windows recorded and the open one.\<close>

definition sent :: "string \<Rightarrow> bandwidth \<Rightarrow> u64" where
  "sent ip bw = sum_list (map snd (filter (\<lambda>(k, _). k = ip) (bw_observed bw)))
     + (case fmlookup (bw_clients bw) ip of None \<Rightarrow> 0 | Some client \<Rightarrow> cb_current client)"

fun frames_of :: "string \<Rightarrow> bandwidth_event list \<Rightarrow> u64" where
  "frames_of ip [] = 0"
| "frames_of ip (Frame handle bytes # es) = (if handle = ip then bytes else 0) + frames_of ip es"
| "frames_of ip (_ # es) = frames_of ip es"

abbreviation known :: "string \<Rightarrow> bandwidth \<Rightarrow> bool" where
  "known ip bw \<equiv> fmlookup (bw_clients bw) ip \<noteq> None"

lemma sample_client_sent: "sent ip (sample_client k bw) = sent ip bw \<and> (known ip bw \<longrightarrow> known ip (sample_client k bw))"
  by (auto simp: sent_def sample_client_def Let_def word_gt_0 split: option.split prod.split)

lemma samples_sent: "sent ip (fold sample_client ks bw) = sent ip bw \<and> (known ip bw \<longrightarrow> known ip (fold sample_client ks bw))"
proof (induction ks arbitrary: bw)
  case (Cons k ks)
  then show ?case using sample_client_sent [of ip k bw] by simp
qed simp

lemma step_sent:
  fixes ip :: string and bw :: bandwidth
  assumes "known ip bw"
  shows "sent ip (bandwidth_step e bw) = sent ip bw + frames_of ip [e] \<and> known ip (bandwidth_step e bw)"
  using assms samples_sent [of ip "fm_keys (bw_clients bw)" bw]
  by (cases e) (auto simp: sent_def handle_for_def add_bytes_def sample_once_def Let_def new_client_bw_def split: option.split)

text \<open>No byte is lost or counted twice: from the moment a client has a handle, the windows recorded for it and its open
  window together grow by exactly the frames sent on that handle, wherever the sampler's turns fall among them.\<close>

theorem egress_conserved:
  assumes "fst (handle_for client_ip bw) = Some handle"
  shows "sent handle (fold bandwidth_step events (snd (handle_for client_ip bw))) = sent handle bw + frames_of handle events"
proof -
  have run: "sent ip (fold bandwidth_step es b) = sent ip b + frames_of ip es" if "known ip b" for ip :: string and es :: "bandwidth_event list" and b :: bandwidth
    using that
  proof (induction es arbitrary: b)
    case (Cons e es)
    then show ?case using step_sent [of b ip e] by (cases e) (simp_all add: add.assoc)
  qed simp
  have "known handle (snd (handle_for client_ip bw))" "sent handle (snd (handle_for client_ip bw)) = sent handle bw"
    using assms by (auto simp: handle_for_def sent_def Let_def new_client_bw_def split: if_splits option.splits)
  then show ?thesis by (simp add: run)
qed

lemma egress_conserved_witness:
  "fst (handle_for ''a'' (register True)) = Some ''a''
    \<and> sent ''a'' (fold bandwidth_step [Frame ''a'' 5, Sampled, Frame ''a'' 7] (snd (handle_for ''a'' (register True)))) = 12"
proof -
  have opened: "fst (handle_for ''a'' (register True)) = Some ''a''"
    by (simp add: handle_for_def register_def MAX_CLIENT_IPS_def Let_def fcard_fempty)
  have "sent ''a'' (register True) = 0" by (simp add: sent_def register_def)
  then show ?thesis using opened egress_conserved [OF opened, of "[Frame ''a'' 5, Sampled, Frame ''a'' 7]"] by simp
qed

end
