(* ===== verification/Spec2Isabelle.thy ===== *)
theory Spec2Isabelle
  imports Processed Mint_Api Self_Healing Slot_Sync Rpc_Filter Gpa_Stream Api_Reads Query_Client Vote_Accounts Bandwidth
begin

text \<open>
  A verification development of cloudbreak, an index of Solana accounts in Postgres. Paths are under
  \<open>src/crates\<close>.

  \<^bold>\<open>The program.\<close> The indexer (\<open>index\<close>) reads confirmed blocks and processed account updates from a gRPC
  feed. A block is written to the tables \<open>accounts\<close> and \<open>snapshot_accounts\<close>, each account keyed by owner,
  public key and slot; on the way it feeds the trackers of \<open>core\<close> (supply, non-circulating stake, largest accounts,
  mints). A finalized slot walks its ancestors, finalizes them and leaves cleanup obligations, which a drain later
  turns into deletes of superseded rows. Gaps in the chain of blocks pause finalization and are repaired by
  fetching the missing blocks. The API (\<open>api\<close>) follows the slots of the indexer in Postgres, holds processed
  blocks in memory, resolves the commitment of a request to blocks or to a slot, and reads the tables, its caches,
  or both. The query tracker (\<open>query-tracker\<close>) collects the demand the API reports and creates and drops indexes.

  \<^bold>\<open>The theories and what they model.\<close>
  \<^item> \<open>Prelude\<close>: machine integers, public keys and their order, finite maps in key order, the named collections,
    and the interfaces below. \<open>Feed\<close>: the messages of the feed and the program selector of \<open>core/src/config.rs\<close>.
  \<^item> \<open>Tables\<close>: the two tables, their rows, and the point and program reads of \<open>api/src/db\<close>, a statement being a
    function of the rows.
  \<^item> \<open>Cleanup\<close> (\<open>index/src/modules/cleanup\<close>), \<open>Finalizer\<close> (\<open>finalize_slot.rs\<close>, \<open>health.rs\<close>, \<open>core/src/modules/service_health.rs\<close>),
    \<open>Owner_Map\<close> (\<open>core/src/modules/account_owner_map.rs\<close>), \<open>Save_Block\<close> (\<open>save_block.rs\<close>, \<open>snapshot.rs\<close>),
    \<open>Self_Healing\<close> (\<open>self_healing.rs\<close>, \<open>indexer.rs\<close>): the write path.
  \<^item> \<open>Processed\<close> (\<open>core/src/modules/processed\<close>): the block store behind processed commitment.
  \<^item> \<open>Non_Circulating\<close>, \<open>Supply_Cache\<close>, \<open>Supply_Tracker\<close>, \<open>Largest_Accounts\<close>, \<open>Largest_Records\<close>
    (\<open>core/src/modules/non_circulating\<close>, \<open>supply\<close>, \<open>largest_accounts\<close>): the trackers, with what they persist.
  \<^item> \<open>Mint_Store\<close>, \<open>Mint_Indexer\<close>, \<open>Mint_Api\<close> (\<open>core/src/modules/mint_cache\<close>): the mints, on both sides of their table.
  \<^item> \<open>Slot_Sync\<close> (\<open>api/src/slot_syncronizer.rs\<close>, the feed of the API, the slot of a request), \<open>Rpc_Error\<close>,
    \<open>Rpc_Filter\<close> (filters, their verification and their SQL), \<open>Gpa_Query\<close>, \<open>Gpa_Request\<close>, \<open>Gpa_Stream\<close>,
    \<open>Gpa_Cache\<close> (\<open>getProgramAccounts\<close> from the request to the bytes of the body, and its cache), \<open>Api_Reads\<close> (the
    other account, token, slot and supply methods): the read path.
  \<^item> \<open>Vote_Accounts\<close> (\<open>index/src/modules/epoch_stakes.rs\<close>, \<open>persist_epoch_stakes\<close> of \<open>snapshot\<close>,
    \<open>api/src/modules/vote_accounts_cache.rs\<close>, \<open>api/src/methods/vote_accounts.rs\<close>): the stakes of an epoch on both sides
    of their table, and the method that serves them. \<open>Bandwidth\<close> (\<open>api/src/modules/bandwidth.rs\<close>): the egress of
    each client.
  \<^item> \<open>Index_Identity\<close> (\<open>core/src/modules/index_identity.rs\<close>), \<open>Index_Tracker\<close> and \<open>Tracker_Runs\<close>
    (\<open>query-tracker/src/modules\<close>), \<open>Query_Client\<close> (\<open>api/src/query_tracker_client.rs\<close>): demand and indexes.

  \<^bold>\<open>State and operations.\<close> A struct is a record with the fields of the source, an enum a datatype, a lock-protected
  section one function from the state to the new state, a loop a recursion over what it consumes. A task that shares
  state with others is a function per turn, and a theory that speaks of several tasks has a type of events and folds
  its step over a list of them, so that the list is the interleaving. \<open>u64\<close> counters are words and wrap; timestamps
  and lamport deltas are integers. A panic, an early return and a failing statement is a value.

  \<^bold>\<open>Interfaces.\<close> \<open>state_machine\<close> (an invariant kept by every step; interpreted on the block store, the service
  health, the response cache, the tracker, the recomputer of the stakes and the bandwidth), \<open>block_chain\<close> (parents at lower slots; interpreted on the block store),
  \<open>newest_wins\<close> (stamped writes; interpreted on the hot cache of the supply tracker), \<open>keyed_store\<close> (a
  store whose lookups are those of its last writes; interpreted on the mint store and on the mint table), and
  \<open>obligation_queue\<close> (what an enqueued slot still owes; interpreted on the pending cleanup).

  \<^bold>\<open>What the theorems show.\<close>
  \<^item> Writes: a saved block is what a read at its slot returns and leaves the obligations that cleanup needs; the rows a
    drain deletes are never the answer of a read at or above its slot; a round meets what it took; the ancestors
    finalized are the chain, and finalization is paused while a gap is open; a gap is found and a pass repairs it.
  \<^item> Trackers: the flip anchors the supply on the capitalization of the snapshot with the newest touches on top, each block
    changes it by the change of its accounts, the membership is the rule on the stake
    accounts, and a reservoir with its dropped floor holds the true largest accounts; stored records read back.
  \<^item> Processed reads: the served chain is linked, newest first and ends at the anchor, it is served exactly when the head
    reaches the anchor, the walk ends, and a read over it equals a read at the head with its blocks written to the tables.
  \<^item> Requests: the SQL of a filter list and its post filter accept the rows the filters accept (and demand the delegate tag
    the code adds), its parameters are well formed, a program read returns exactly the current matching accounts, a
    response through the cache is what the plain query would have answered when no row was written late, also where
    mints are resolved, and the body is those accounts joined by commas, up to the comma of an empty first batch.
    Positions of a multi-account read agree with single reads, and a served supply is fresh.
  \<^item> Mints: a lookup of the API is the mint at the slot of the request (or an immutable mint that is newer), whatever is
    written next, or goes to Postgres for a reason that holds; and the mint table keeps up with the indexer.
  \<^item> Votes: each live vote account is listed once, on the side its last vote puts it, the delinquents
    without stake left out unless asked for, and the stakes served are the sums of
    what is delegated; a steady epoch converges, and the fast phase of any epoch is bounded.
  \<^item> Bandwidth: every byte of a frame is in exactly one window, the peak is that of the last minute, the labels are bounded.
  \<^item> Indexes: in every run the counters of a row split exactly, the cap holds with the indexes that are
    there at the start counted in, a trim takes the least valuable eligible
    rows and only eligible ones, and no query is lost between the API and the store.
  \<^item> The remaining theorems and lemmas are behaviours the code has and its comments do not promise: a comma before the first
    account, half a pair of indexes, a buffer beyond its bound, a batch counted twice, an index that is never used,
    the stake of a voter who lost it, and the races of healing with a running resume.

  \<^bold>\<open>Bounds and fuel.\<close> Recursions are structural or have a measure. The walk of \<open>latest_chained_blocks\<close> is a
  \<open>partial_function\<close>, whose value exists in every reachable store because a parent has a lower slot. Retries (drops of an
  index, statements) are counted by the configured number of retries. Where the code adds in words a theorem names the
  bound under which the sum does not wrap: fewer than \<open>2 ^ 32\<close> queries, total lamports and cached bytes below \<open>2 ^ 64\<close>.

  \<^bold>\<open>Parameters.\<close> Third-party code is an argument of the definitions that use it: the account encoding, the token
  codec, base58 and JSON, BLAKE3 and the HyperLogLog sketch, float arithmetic of the scores. A hypothesis
  on such an argument states what its documentation promises and has a concrete instance in the witness of the theorem.

  \<^bold>\<open>Not modelled.\<close> The transaction simulation runs a third-party virtual machine; the HTTP servers, the dispatch of methods, the operational endpoints, the gRPC clients, metrics and logs
  are glue; the snapshot loader and the hash checker read archives with third-party parsers and a lattice hash; entity and
  migration are schema; the command-line tools, the database tools and the integration tests drive the rest. The
  configuration files are modelled as far as the components read them.
\<close>

end
